(* ===== verification/XPrelude.thy ===== *)
theory XPrelude
  imports Main "HOL-Library.Word"
begin

unbundle bit_operations_syntax

text \<open>
  Shared vocabulary of the development: the machine types of the C code, pointers as
  natural-number addresses with \<open>None\<close> for NULL, the singly linked chains that the
  intrusive lists of the code thread through memory, and the list, map and word facts
  that several components use.
\<close>

section \<open>Machine types\<close>

type_synonym u8 = "8 word"
type_synonym u16 = "16 word"
type_synonym u32 = "32 word"
type_synonym u64 = "64 word"
type_synonym bytes = "u8 list"

text \<open>An address of a heap object; a pointer is an \<open>addr option\<close>, NULL is \<open>None\<close>.\<close>

type_synonym addr = nat

text \<open>Limits of the LP64 data model the code is built for.\<close>

abbreviation SIZE_MAX :: nat where "SIZE_MAX \<equiv> 18446744073709551615"
abbreviation UINT32_MAX :: nat where "UINT32_MAX \<equiv> 4294967295"
abbreviation UINT16_MAX :: nat where "UINT16_MAX \<equiv> 65535"
abbreviation INT_MAX :: nat where "INT_MAX \<equiv> 2147483647"

named_theorems list_upd_simps \<open>reading and writing array cells\<close>
named_theorems word_join_simps \<open>joining the bytes of a word\<close>

section \<open>Chains in memory\<close>

text \<open>
  \<open>chain h p as\<close>: following the link field \<open>h\<close> from pointer \<open>p\<close> visits exactly the
  nodes \<open>as\<close> and ends at NULL.
\<close>

fun chain :: "(addr \<Rightarrow> addr option) \<Rightarrow> addr option \<Rightarrow> addr list \<Rightarrow> bool" where
  "chain h p [] = (p = None)"
| "chain h p (a # as) = (p = Some a \<and> chain h (h a) as)"

lemma chain_None [simp]: "chain h None as = (as = [])"
  by (cases as) auto

lemma chain_Some: "chain h (Some a) as = (\<exists>bs. as = a # bs \<and> chain h (h a) bs)"
  by (cases as) auto

lemma chain_upd_notin [simp]: "a \<notin> set as \<Longrightarrow> chain (h(a := v)) p as = chain h p as"
  by (induction as arbitrary: p) auto

lemma chain_cong: "(\<And>a. a \<in> set as \<Longrightarrow> h a = h' a) \<Longrightarrow> chain h p as = chain h' p as"
  by (induction as arbitrary: p) auto

lemma chain_fun: "chain h p as \<Longrightarrow> chain h p bs \<Longrightarrow> as = bs"
proof (induction as arbitrary: p bs)
  case (Cons a as)
  then show ?case by (cases bs) auto
qed simp

section \<open>Lists\<close>

lemma nth_list_update_if [list_upd_simps]:
  "i < length xs \<Longrightarrow> xs[i := v] ! j = (if i = j then v else xs ! j)"
  by (simp add: nth_list_update)

lemma take_update_last:
  "n < length xs \<Longrightarrow> take (Suc n) (xs[n := v]) = take n xs @ [v]"
  by (simp add: take_Suc_conv_app_nth)

lemma foldl_inv:
  "P a \<Longrightarrow> (\<And>a x. x \<in> set xs \<Longrightarrow> P a \<Longrightarrow> P (f a x)) \<Longrightarrow> P (foldl f a xs)"
  by (induction xs arbitrary: a) auto

lemma map_of_rev_distinct: "distinct (map fst xs) \<Longrightarrow> map_of (rev xs) = map_of xs"
  by (rule map_of_inject_set [THEN iffD2]) (auto simp: rev_map [symmetric])

lemma map_of_filter_key:
  "(\<And>v. (k, v) \<in> set xs \<Longrightarrow> P (k, v)) \<Longrightarrow> map_of (filter P xs) k = map_of xs k"
  by (induction xs) auto

section \<open>Rounding up to a power of two\<close>

text \<open>
  The bit-smearing idiom \<open>v |= v >> 1; v |= v >> 2; \<dots>\<close> of \<open>xhash_next_pow2\<close> and
  \<open>next_pow2_u32\<close>: after the shift by \<open>m\<close>, bit \<open>i\<close> is set iff one of the bits \<open>i, \<dots>, i + 2m - 1\<close>
  of the original value was.
\<close>

definition smeared :: "'a::len word \<Rightarrow> nat \<Rightarrow> 'a word \<Rightarrow> bool" where
  "smeared s m x \<longleftrightarrow> (\<forall>i. bit x i = (\<exists>j<m. bit s (i + j)))"

lemma smeared_start: "smeared s 1 s"
  by (simp add: smeared_def)

lemma smeared_step: "smeared s m x \<Longrightarrow> n = 2 * m \<Longrightarrow> smeared s n (x OR drop_bit m x)"
  unfolding smeared_def
proof (intro allI)
  fix i
  assume sm: "\<forall>i. bit x i = (\<exists>j<m. bit s (i + j))" and n: "n = 2 * m"
  have "bit (x OR drop_bit m x) i = ((\<exists>j<m. bit s (i + j)) \<or> (\<exists>j<m. bit s (m + i + j)))"
    using sm by (simp add: bit_or_iff bit_drop_bit_eq add.commute add.left_commute)
  also have "\<dots> = (\<exists>j<n. bit s (i + j))"
  proof
    assume "(\<exists>j<m. bit s (i + j)) \<or> (\<exists>j<m. bit s (m + i + j))"
    then show "\<exists>j<n. bit s (i + j)"
    proof (elim disjE exE conjE)
      fix j assume "j < m" "bit s (m + i + j)"
      then show ?thesis using n by (intro exI [of _ "m + j"]) (simp add: ac_simps)
    next
      fix j assume "j < m" "bit s (i + j)"
      then show ?thesis using n by (intro exI [of _ j]) simp
    qed
  next
    assume "\<exists>j<n. bit s (i + j)"
    then obtain j where j: "j < n" "bit s (i + j)" by blast
    show "(\<exists>j<m. bit s (i + j)) \<or> (\<exists>j<m. bit s (m + i + j))"
    proof (cases "j < m")
      case False
      with j n show ?thesis by (intro disjI2 exI [of _ "j - m"]) (auto simp: ac_simps)
    qed (use j in auto)
  qed
  finally show "bit (x OR drop_bit m x) i = (\<exists>j<n. bit s (i + j))" .
qed

lemma smeared_is_mask:
  fixes s :: "'a::len word"
  assumes "smeared s m x" and "LENGTH('a) \<le> m"
  shows "\<exists>k \<le> LENGTH('a). x = mask k \<and> unat s < 2 ^ k \<and> (\<forall>l. unat s < 2 ^ l \<longrightarrow> k \<le> l)"
proof -
  define k where "k = (LEAST k. unat s < 2 ^ k)"
  have len: "unat s < 2 ^ LENGTH('a)" by simp
  have k: "unat s < 2 ^ k" "\<And>l. unat s < 2 ^ l \<Longrightarrow> k \<le> l"
    unfolding k_def by (rule LeastI [of _ "LENGTH('a)"], simp) (rule Least_le)
  have hi: "\<not> bit s j" if "k \<le> j" for j
  proof -
    from k(1) that have "unat s < 2 ^ j"
      by (meson less_le_trans one_le_numeral power_increasing)
    then have "\<not> bit (unat s) j" by (simp add: bit_iff_odd)
    then show ?thesis by (simp add: bit_unsigned_iff possible_bit_def)
  qed
  have "x = mask k"
  proof (rule bit_word_eqI)
    fix i assume "i < LENGTH('a)"
    show "bit x i = bit (mask k :: 'a word) i"
    proof (cases "i < k")
      case True
      have "\<exists>j\<ge>i. bit s j"
      proof (rule ccontr)
        assume no: "\<not> (\<exists>j\<ge>i. bit s j)"
        then have "s = take_bit i s" by (intro bit_word_eqI) (auto simp: bit_take_bit_iff, meson not_less)
        then have "unat s < 2 ^ i"
          by (metis unsigned_take_bit_eq take_bit_nat_less_exp)
        with k(2) True show False by fastforce
      qed
      then obtain j where j: "j \<ge> i" "bit s j" by blast
      then have "j < LENGTH('a)" using bit_imp_le_length by blast
      with j assms have "bit x i"
        unfolding smeared_def by (auto intro!: exI [of _ "j - i"])
      with True \<open>i < LENGTH('a)\<close> show ?thesis by (simp add: bit_mask_iff)
    next
      case False
      with hi have "\<not> bit x i" using assms unfolding smeared_def by auto
      with False show ?thesis by (simp add: bit_mask_iff)
    qed
  qed
  moreover have "k \<le> LENGTH('a)" using k(2) len by blast
  ultimately show ?thesis using k by blast
qed

lemma distinct_concat_map:
  assumes "distinct xs" and "\<And>x. x \<in> set xs \<Longrightarrow> distinct (f x)"
    and "\<And>x y. x \<in> set xs \<Longrightarrow> y \<in> set xs \<Longrightarrow> x \<noteq> y \<Longrightarrow> set (f x) \<inter> set (f y) = {}"
  shows "distinct (concat (map f xs))"
  using assms
proof (induction xs)
  case (Cons x xs)
  have "set (f x) \<inter> set (f y) = {}" if "y \<in> set xs" for y
    using Cons.prems(1) that by (intro Cons.prems(3)) auto
  with Cons show ?case by (auto simp: disjoint_iff)
qed simp

section \<open>Signed words\<close>

lemma sint_small:
  assumes "unat (n :: 32 word) < 2 ^ 31"
  shows "sint n = int (unat n)"
proof -
  have "int (unat n) < int (2 ^ 31)" using assms by (rule of_nat_less_iff [THEN iffD2])
  then have "uint n < 2 ^ 31" by simp
  then have "signed_take_bit 31 (uint n) = uint n" 
    by (intro signed_take_bit_int_eq_self) (use uint_ge_0 [of n] in linarith)+
  then show ?thesis by (simp add: sint_uint)
qed

end
