(* ===== verification/XMpsc.thy ===== *)
theory XMpsc
  imports XPrelude "HOL-Library.Sublist"
begin

text \<open>
  The lock-free queue of \<open>xmpsc_queue.h\<close>: many producers push with a CAS on \<open>head\<close>, one
  consumer takes the whole stack with an exchange, reverses it in place and pops from its
  private \<open>cache\<close>. The first part models the functions as the consumer or a lone producer
  runs them; the second part is the interleaving of their atomic accesses by any number
  of producers and the consumer.
\<close>

section \<open>State\<close>

record xMPSCQueue =
  nxt :: "addr \<Rightarrow> addr option"   \<comment> \<open>the \<open>next\<close> field of every node\<close>
  head :: "addr option"
  cache :: "addr option"

section \<open>The functions, run without interference\<close>

definition xmpsc_queue_init :: "xMPSCQueue \<Rightarrow> xMPSCQueue" where
  "xmpsc_queue_init q = q\<lparr>head := None, cache := None\<rparr>"

definition xmpsc_node_init :: "xMPSCQueue \<Rightarrow> addr \<Rightarrow> xMPSCQueue" where
  "xmpsc_node_init q n = q\<lparr>nxt := (nxt q)(n := None)\<rparr>"

text \<open>With no other thread between load and CAS the first CAS succeeds.\<close>

definition xmpsc_push :: "xMPSCQueue \<Rightarrow> addr \<Rightarrow> xMPSCQueue" where
  "xmpsc_push q n =
     (let q1 = q\<lparr>nxt := (nxt q)(n := None)\<rparr>;
          old_head = head q1;
          q2 = q1\<lparr>nxt := (nxt q1)(n := old_head)\<rparr>
      in if head q2 = old_head then q2\<lparr>head := Some n\<rparr> else q2)"

text \<open>The loop of \<open>xmpsc_reverse_list\<close>; on a cyclic list it would not return (\<open>None\<close>).\<close>

partial_function (option) xmpsc_reverse_loop ::
  "(addr \<Rightarrow> addr option) \<Rightarrow> addr option \<Rightarrow> addr option
    \<Rightarrow> ((addr \<Rightarrow> addr option) \<times> addr option) option" where
  "xmpsc_reverse_loop h list prev =
     (case list of
        None \<Rightarrow> Some (h, prev)
      | Some l \<Rightarrow> xmpsc_reverse_loop (h(l := prev)) (h l) (Some l))"

definition xmpsc_reverse_list ::
  "(addr \<Rightarrow> addr option) \<Rightarrow> addr option \<Rightarrow> ((addr \<Rightarrow> addr option) \<times> addr option) option" where
  "xmpsc_reverse_list h list = xmpsc_reverse_loop h list None"

definition xmpsc_pop :: "xMPSCQueue \<Rightarrow> (xMPSCQueue \<times> addr option) option" where
  "xmpsc_pop q =
     (case (case cache q of
              Some n \<Rightarrow> Some q
            | None \<Rightarrow>
                (case xmpsc_reverse_list (nxt q) (head q) of
                   None \<Rightarrow> None
                 | Some (h, r) \<Rightarrow> Some (q\<lparr>nxt := h, head := None, cache := r\<rparr>))) of
        None \<Rightarrow> None
      | Some q1 \<Rightarrow>
          (case cache q1 of
             None \<Rightarrow> Some (q1, None)
           | Some n \<Rightarrow>
               Some (q1\<lparr>cache := nxt q1 n, nxt := (nxt q1)(n := None)\<rparr>, Some n)))"

definition xmpsc_empty :: "xMPSCQueue \<Rightarrow> bool" where
  "xmpsc_empty q = (if cache q \<noteq> None then False else head q = None)"


subsection \<open>Contents and the FIFO contract\<close>

text \<open>\<open>mpsc_rep q xs\<close>: the queue holds the nodes \<open>xs\<close>, oldest first, in its two chains.\<close>

definition mpsc_rep :: "xMPSCQueue \<Rightarrow> addr list \<Rightarrow> bool" where
  "mpsc_rep q xs \<longleftrightarrow>
     (\<exists>cs hs. chain (nxt q) (cache q) cs \<and> chain (nxt q) (head q) hs
        \<and> distinct (cs @ hs) \<and> xs = cs @ rev hs)"

lemma reverse_loop_correct:
  assumes "chain h list as" and "chain h prev bs" and "distinct (as @ bs)"
  shows "\<exists>h' p'. xmpsc_reverse_loop h list prev = Some (h', p') \<and> chain h' p' (rev as @ bs)
           \<and> (\<forall>x. x \<notin> set as \<longrightarrow> h' x = h x)"
  using assms
proof (induction as arbitrary: h list prev bs)
  case Nil
  then show ?case by (auto simp: xmpsc_reverse_loop.simps)
next
  case (Cons a as)
  let ?h = "h(a := prev)"
  from Cons.prems have "list = Some a" and "chain ?h (h a) as"
    and "chain ?h (Some a) (a # bs)" and "distinct (as @ a # bs)"
    by auto
  moreover from Cons.IH [OF this(2,3,4)] obtain h' p' where
    "xmpsc_reverse_loop ?h (h a) (Some a) = Some (h', p')"
    "chain h' p' (rev as @ a # bs)" "\<forall>x. x \<notin> set as \<longrightarrow> h' x = ?h x"
    by blast
  ultimately show ?case by (auto simp: xmpsc_reverse_loop.simps)
qed

lemma reverse_list_correct:
  assumes "chain h list as" and "distinct as"
  obtains h' p' where "xmpsc_reverse_list h list = Some (h', p')" and "chain h' p' (rev as)"
    and "\<And>x. x \<notin> set as \<Longrightarrow> h' x = h x"
  using reverse_loop_correct [of h list as None "[]"] assms
  by (auto simp: xmpsc_reverse_list_def)

lemma push_rep:
  assumes "mpsc_rep q xs" and "n \<notin> set xs"
  shows "mpsc_rep (xmpsc_push q n) (xs @ [n])"
proof -
  from assms obtain cs hs where r: "chain (nxt q) (cache q) cs" "chain (nxt q) (head q) hs"
    "distinct (cs @ hs)" "xs = cs @ rev hs" "n \<notin> set cs" "n \<notin> set hs"
    by (auto simp: mpsc_rep_def)
  then show ?thesis
    unfolding mpsc_rep_def
    by (intro exI [of _ cs] exI [of _ "n # hs"]) (simp add: xmpsc_push_def Let_def)
qed

lemma pop_rep:
  assumes "mpsc_rep q xs"
  shows "\<exists>q'. mpsc_rep q' (tl xs)
           \<and> xmpsc_pop q = Some (q', case xs of [] \<Rightarrow> None | x # _ \<Rightarrow> Some x)"
proof -
  from assms obtain cs hs where r: "chain (nxt q) (cache q) cs" "chain (nxt q) (head q) hs"
    "distinct (cs @ hs)" "xs = cs @ rev hs"
    by (auto simp: mpsc_rep_def)
  show ?thesis
  proof (cases cs)
    case (Cons c cs')
    let ?q = "q\<lparr>cache := nxt q c, nxt := (nxt q)(c := None)\<rparr>"
    from Cons r have "xmpsc_pop q = Some (?q, Some c)" by (simp add: xmpsc_pop_def)
    moreover from Cons r have "mpsc_rep ?q (tl xs)"
      unfolding mpsc_rep_def by (intro exI [of _ cs'] exI [of _ hs]) auto
    ultimately show ?thesis using Cons r by auto
  next
    case Nil
    from r obtain h' p' where h': "xmpsc_reverse_list (nxt q) (head q) = Some (h', p')"
      "chain h' p' (rev hs)"
      by (auto elim: reverse_list_correct)
    show ?thesis
    proof (cases "rev hs")
      case Nil
      with h' r \<open>cs = []\<close> show ?thesis
        by (auto simp: xmpsc_pop_def mpsc_rep_def)
    next
      case (Cons x ys)
      let ?q = "q\<lparr>nxt := h'(x := None), head := None, cache := h' x\<rparr>"
      from r(3) Cons have "distinct (x # ys)" using distinct_rev [of hs] by simp
      with h' Cons have "mpsc_rep ?q ys"
        unfolding mpsc_rep_def by (intro exI [of _ ys] exI [of _ "[]"]) auto
      moreover from h' Cons r \<open>cs = []\<close> have "xmpsc_pop q = Some (?q, Some x)"
        by (auto simp: xmpsc_pop_def)
      ultimately show ?thesis using Cons r \<open>cs = []\<close> by auto
    qed
  qed
qed

lemma init_rep: "mpsc_rep (xmpsc_queue_init q) []"
  by (simp add: mpsc_rep_def xmpsc_queue_init_def)

lemma empty_rep: "mpsc_rep q xs \<Longrightarrow> xmpsc_empty q = (xs = [])"
  by (auto simp: mpsc_rep_def xmpsc_empty_def elim: chain.elims)

text \<open>Popping until the queue reports empty; the fuel bounds the number of pops.\<close>

primrec drain :: "('q \<Rightarrow> ('q \<times> 'a option) option) \<Rightarrow> nat \<Rightarrow> 'q \<Rightarrow> ('q \<times> 'a list) option" where
  "drain pop 0 q = None"
| "drain pop (Suc fuel) q =
     (case pop q of
        None \<Rightarrow> None
      | Some (q', None) \<Rightarrow> Some (q', [])
      | Some (q', Some x) \<Rightarrow>
          (case drain pop fuel q' of None \<Rightarrow> None | Some (q2, xs) \<Rightarrow> Some (q2, x # xs)))"

text \<open>
  The contract a consumer of the queue relies on, and what follows from it alone: draining
  returns every pushed node once, in push order.
\<close>

locale fifo_queue =
  fixes rep :: "'q \<Rightarrow> 'a list \<Rightarrow> bool"
    and push :: "'q \<Rightarrow> 'a \<Rightarrow> 'q"
    and pop :: "'q \<Rightarrow> ('q \<times> 'a option) option"
  assumes push_law: "rep q xs \<Longrightarrow> x \<notin> set xs \<Longrightarrow> rep (push q x) (xs @ [x])"
    and pop_law: "rep q xs \<Longrightarrow>
      \<exists>q'. rep q' (tl xs) \<and> pop q = Some (q', case xs of [] \<Rightarrow> None | x # _ \<Rightarrow> Some x)"
begin

lemma push_all_rep:
  "rep q xs \<Longrightarrow> distinct (xs @ ys) \<Longrightarrow> rep (foldl push q ys) (xs @ ys)"
proof (induction ys arbitrary: q xs)
  case (Cons y ys)
  then have "rep (push q y) (xs @ [y])" by (simp add: push_law)
  from Cons.IH [OF this] Cons.prems show ?case by simp
qed simp

lemma drain_returns_contents:
  "rep q xs \<Longrightarrow> length xs < fuel \<Longrightarrow> \<exists>q'. rep q' [] \<and> drain pop fuel q = Some (q', xs)"
proof (induction fuel arbitrary: q xs)
  case (Suc fuel)
  from pop_law [OF Suc.prems(1)] obtain q' where
    q': "rep q' (tl xs)" "pop q = Some (q', case xs of [] \<Rightarrow> None | x # _ \<Rightarrow> Some x)"
    by blast
  show ?case
  proof (cases xs)
    case Nil
    with q' show ?thesis by simp
  next
    case (Cons x ys)
    with q' Suc.prems Suc.IH [of q' ys] show ?thesis by auto
  qed
qed simp

end

interpretation mq: fifo_queue mpsc_rep xmpsc_push xmpsc_pop
  by unfold_locales (fact push_rep, fact pop_rep)

text \<open>Nodes pushed one after the other on an initialised queue come out of \<open>xmpsc_pop\<close> in
  push order, each once, and the pop after the last one returns NULL: the in-place reversal of
  the push stack terminates and loses no node.\<close>

lemma mpsc_sequential_fifo:
  assumes "distinct ns" and "length ns < fuel"
  shows "\<exists>q'. drain xmpsc_pop fuel (foldl xmpsc_push (xmpsc_queue_init q) ns) = Some (q', ns)
    \<and> xmpsc_empty q'"
proof -
  have "mpsc_rep (foldl xmpsc_push (xmpsc_queue_init q) ns) ns"
    using mq.push_all_rep [OF init_rep] assms(1) by simp
  from mq.drain_returns_contents [OF this assms(2)] show ?thesis
    using empty_rep by blast
qed

theorem mpsc_sequential_fifo_witness:
  "\<exists>q'. drain xmpsc_pop 4 (foldl xmpsc_push
        (xmpsc_queue_init \<lparr>nxt = (\<lambda>_. Some 3), head = Some 1, cache = Some 2\<rparr>) [8, 3, 5])
      = Some (q', [8, 3, 5]) \<and> xmpsc_empty q'"
  by (rule mpsc_sequential_fifo) simp_all

end
