(* ===== verification/XMpscConc.thy ===== *)
theory XMpscConc
  imports XMpsc
begin

text \<open>
  The queue of \<open>xmpsc_queue.h\<close> under every interleaving of its atomic accesses. A producer
  is at a point of the \<open>for (;;)\<close> loop of \<open>xmpsc_push\<close>, the consumer at a point of
  \<open>xmpsc_pop\<close> (the iterations of \<open>xmpsc_reverse_list\<close> are steps of their own). Every access
  to the shared \<open>head\<close> is one step; accesses to memory only the moving thread can reach are
  joined with the step that follows them.
\<close>

section \<open>Threads\<close>

text \<open>Where a producer stands: outside; before the load; before the store to \<open>n->next\<close>;
  before the CAS.\<close>

datatype producer_pc =
    PIdle
  | PLoad addr
  | PLink addr "addr option"
  | PCas addr "addr option"

text \<open>Where the consumer stands: outside; before the exchange; at the top of the reversal
  loop with its variables \<open>list\<close> and \<open>prev\<close>; before the final test of \<open>n\<close>.\<close>

datatype consumer_pc =
    CIdle
  | CXchg
  | CRev "addr option" "addr option"
  | CTake

record mpsc_sys = xMPSCQueue +
  prod :: "nat \<Rightarrow> producer_pc"
  cons :: consumer_pc
  owned :: "addr list"   \<comment> \<open>nodes handed to \<open>xmpsc_push\<close> and not popped yet (rule 3)\<close>

datatype mpsc_event = Pushed nat addr | Popped addr | PopNull | Tau

definition mpsc_init :: mpsc_sys where
  "mpsc_init = \<lparr>nxt = (\<lambda>_. None), head = None, cache = None,
                prod = (\<lambda>_. PIdle), cons = CIdle, owned = []\<rparr>"

section \<open>Steps\<close>

inductive mpsc_step :: "mpsc_sys \<Rightarrow> mpsc_event \<Rightarrow> mpsc_sys \<Rightarrow> bool" where
  push_start: "prod s p = PIdle \<Longrightarrow> n \<notin> set (owned s) \<Longrightarrow>
     mpsc_step s Tau (s\<lparr>nxt := (nxt s)(n := None), prod := (prod s)(p := PLoad n),
                        owned := n # owned s\<rparr>)"
| push_load: "prod s p = PLoad n \<Longrightarrow>
     mpsc_step s Tau (s\<lparr>prod := (prod s)(p := PLink n (head s))\<rparr>)"
| push_link: "prod s p = PLink n old_head \<Longrightarrow>
     mpsc_step s Tau (s\<lparr>nxt := (nxt s)(n := old_head),
                        prod := (prod s)(p := PCas n old_head)\<rparr>)"
| push_cas_ok: "prod s p = PCas n old_head \<Longrightarrow> head s = old_head \<Longrightarrow>
     mpsc_step s (Pushed p n) (s\<lparr>head := Some n, prod := (prod s)(p := PIdle)\<rparr>)"
| push_cas_fail: "prod s p = PCas n old_head \<Longrightarrow> head s \<noteq> old_head \<Longrightarrow>
     mpsc_step s Tau (s\<lparr>prod := (prod s)(p := PLoad n)\<rparr>)"
| pop_start: "cons s = CIdle \<Longrightarrow>
     mpsc_step s Tau (s\<lparr>cons := (if cache s = None then CXchg else CTake)\<rparr>)"
| pop_xchg: "cons s = CXchg \<Longrightarrow>
     mpsc_step s Tau (s\<lparr>head := None, cons := CRev (head s) None\<rparr>)"
| rev_loop: "cons s = CRev (Some l) prev \<Longrightarrow>
     mpsc_step s Tau (s\<lparr>nxt := (nxt s)(l := prev), cons := CRev (nxt s l) (Some l)\<rparr>)"
| rev_done: "cons s = CRev None prev \<Longrightarrow>
     mpsc_step s Tau (s\<lparr>cache := prev, cons := CTake\<rparr>)"
| take_null: "cons s = CTake \<Longrightarrow> cache s = None \<Longrightarrow>
     mpsc_step s PopNull (s\<lparr>cons := CIdle\<rparr>)"
| take_node: "cons s = CTake \<Longrightarrow> cache s = Some n \<Longrightarrow>
     mpsc_step s (Popped n) (s\<lparr>cache := nxt s n, nxt := (nxt s)(n := None),
                               cons := CIdle, owned := removeAll n (owned s)\<rparr>)"

inductive mpsc_trace :: "mpsc_sys \<Rightarrow> mpsc_event list \<Rightarrow> mpsc_sys \<Rightarrow> bool" where
  trace_nil: "mpsc_trace s [] s"
| trace_snoc: "mpsc_trace s es t \<Longrightarrow> mpsc_step t e u \<Longrightarrow> mpsc_trace s (es @ [e]) u"

inductive_cases mpsc_trace_NilE: "mpsc_trace s [] t"

fun pushed_node :: "mpsc_event \<Rightarrow> addr list" where
  "pushed_node (Pushed p n) = [n]"
| "pushed_node _ = []"

fun popped_node :: "mpsc_event \<Rightarrow> addr list" where
  "popped_node (Popped n) = [n]"
| "popped_node _ = []"

text \<open>The nodes in the order of their successful CAS, and in the order \<open>xmpsc_pop\<close>
  returned them.\<close>

definition pushes :: "mpsc_event list \<Rightarrow> addr list" where
  "pushes es = concat (map pushed_node es)"

definition pops :: "mpsc_event list \<Rightarrow> addr list" where
  "pops es = concat (map popped_node es)"

section \<open>Invariant\<close>

fun in_flight :: "producer_pc \<Rightarrow> addr option" where
  "in_flight PIdle = None"
| "in_flight (PLoad n) = Some n"
| "in_flight (PLink n _) = Some n"
| "in_flight (PCas n _) = Some n"

text \<open>The consumer's private nodes, oldest first, and the chain that holds them.\<close>

fun consumer_holds :: "mpsc_sys \<Rightarrow> addr list \<Rightarrow> bool" where
  "consumer_holds s xs =
     (case cons s of
        CRev l pv \<Rightarrow> cache s = None \<and>
          (\<exists>ls ps. chain (nxt s) l ls \<and> chain (nxt s) pv ps \<and> xs = rev ls @ ps)
      | CXchg \<Rightarrow> cache s = None \<and> xs = []
      | _ \<Rightarrow> chain (nxt s) (cache s) xs)"

declare consumer_holds.simps [simp del]

definition mpsc_inv :: "mpsc_sys \<Rightarrow> addr list \<Rightarrow> bool" where
  "mpsc_inv s q \<longleftrightarrow>
     (\<exists>cs hs. consumer_holds s cs \<and> chain (nxt s) (head s) hs \<and> q = cs @ rev hs
        \<and> distinct (cs @ hs) \<and> set (cs @ hs) \<subseteq> set (owned s)
        \<and> (\<forall>p n. in_flight (prod s p) = Some n \<longrightarrow> n \<in> set (owned s) \<and> n \<notin> set (cs @ hs))
        \<and> (\<forall>p p' n. in_flight (prod s p) = Some n \<longrightarrow> in_flight (prod s p') = Some n \<longrightarrow> p = p')
        \<and> (\<forall>p n oh. prod s p = PCas n oh \<longrightarrow> nxt s n = oh))"

lemma mpsc_init_inv: "mpsc_inv mpsc_init []"
  by (auto simp: mpsc_inv_def mpsc_init_def consumer_holds.simps)

lemma consumer_holds_cong:
  assumes "consumer_holds s xs" and "\<And>a. a \<in> set xs \<Longrightarrow> nxt t a = nxt s a"
    and "cons t = cons s" and "cache t = cache s"
  shows "consumer_holds t xs"
proof (cases "cons s")
  case (CRev l pv)
  with assms(1) obtain ls ps where "cache s = None" "chain (nxt s) l ls" "chain (nxt s) pv ps"
    "xs = rev ls @ ps"
    by (auto simp: consumer_holds.simps)
  moreover from this assms(2) have "chain (nxt t) l ls" "chain (nxt t) pv ps"
    using chain_cong [of ls "nxt s" "nxt t"] chain_cong [of ps "nxt s" "nxt t"] by auto
  ultimately show ?thesis using CRev assms(3,4) by (auto simp: consumer_holds.simps)
qed (use assms chain_cong [of xs "nxt s" "nxt t"] in \<open>auto simp: consumer_holds.simps\<close>)

text \<open>The effect of one step on the abstract queue.\<close>

fun queue_after :: "mpsc_event \<Rightarrow> addr list \<Rightarrow> addr list \<Rightarrow> bool" where
  "queue_after (Pushed p n) q q' = (q' = q @ [n])"
| "queue_after (Popped n) q q' = (q = n # q')"
| "queue_after PopNull q q' = (q' = q)"
| "queue_after Tau q q' = (q' = q)"


section \<open>Every step keeps the invariant\<close>

lemma mpsc_invE:
  assumes "mpsc_inv s q"
  obtains cs hs where "consumer_holds s cs" "chain (nxt s) (head s) hs" "q = cs @ rev hs"
    "distinct (cs @ hs)" "set cs \<subseteq> set (owned s)" "set hs \<subseteq> set (owned s)"
    "\<And>p n. in_flight (prod s p) = Some n \<Longrightarrow> n \<in> set (owned s) \<and> n \<notin> set cs \<and> n \<notin> set hs"
    "\<And>p p' n. in_flight (prod s p) = Some n \<Longrightarrow> in_flight (prod s p') = Some n \<Longrightarrow> p = p'"
    "\<And>p n oh. prod s p = PCas n oh \<Longrightarrow> nxt s n = oh"
  using assms unfolding mpsc_inv_def by (elim exE conjE) auto

lemma mpsc_invI:
  assumes "consumer_holds s cs" "chain (nxt s) (head s) hs" "q = cs @ rev hs"
    "distinct (cs @ hs)" "set (cs @ hs) \<subseteq> set (owned s)"
    "\<And>p n. in_flight (prod s p) = Some n \<Longrightarrow> n \<in> set (owned s) \<and> n \<notin> set (cs @ hs)"
    "\<And>p p' n. in_flight (prod s p) = Some n \<Longrightarrow> in_flight (prod s p') = Some n \<Longrightarrow> p = p'"
    "\<And>p n oh. prod s p = PCas n oh \<Longrightarrow> nxt s n = oh"
  shows "mpsc_inv s q"
  unfolding mpsc_inv_def using assms by blast

text \<open>Steps of a producer that write at most the node it is pushing.\<close>

lemma producer_step_inv:
  assumes "mpsc_inv s q"
    and t: "t = s\<lparr>nxt := (nxt s)(n := v), prod := (prod s)(p := pc'), owned := ow\<rparr>"
    and n: "n \<notin> set q" "\<And>p'. p' \<noteq> p \<Longrightarrow> in_flight (prod s p') \<noteq> Some n"
    and pc': "in_flight pc' = Some n" "\<And>oh. pc' = PCas n oh \<Longrightarrow> v = oh"
    and ow: "set ow = insert n (set (owned s))"
  shows "mpsc_inv t q"
proof -
  from assms(1) obtain cs hs where i:
    "consumer_holds s cs" "chain (nxt s) (head s) hs" "q = cs @ rev hs"
    "distinct (cs @ hs)" "set cs \<subseteq> set (owned s)" "set hs \<subseteq> set (owned s)"
    "\<And>p n. in_flight (prod s p) = Some n \<Longrightarrow> n \<in> set (owned s) \<and> n \<notin> set cs \<and> n \<notin> set hs"
    "\<And>p p' n. in_flight (prod s p) = Some n \<Longrightarrow> in_flight (prod s p') = Some n \<Longrightarrow> p = p'"
    "\<And>p n oh. prod s p = PCas n oh \<Longrightarrow> nxt s n = oh"
    by (rule mpsc_invE) blast
  from i(3) n(1) have ncs: "n \<notin> set cs" "n \<notin> set hs" by auto
  show ?thesis
  proof (rule mpsc_invI [of t cs hs])
    show "consumer_holds t cs"
      by (rule consumer_holds_cong [OF i(1)]) (use ncs in \<open>auto simp: t\<close>)
    show "chain (nxt t) (head t) hs" using i(2) ncs by (simp add: t)
    show "\<And>p n. in_flight (prod t p) = Some n \<Longrightarrow> n \<in> set (owned t) \<and> n \<notin> set (cs @ hs)"
      using i(7) ncs pc'(1) ow by (auto simp: t split: if_splits)
    show "\<And>p p' n. in_flight (prod t p) = Some n \<Longrightarrow> in_flight (prod t p') = Some n \<Longrightarrow> p = p'"
      using i(8) n(2) pc'(1) by (auto simp: t split: if_splits)
    show "\<And>p n oh. prod t p = PCas n oh \<Longrightarrow> nxt t n = oh"
      using i(9) n(2) pc' by (fastforce simp: t split: if_splits)
  qed (use i ow in \<open>auto simp: t\<close>)
qed

lemma inv_queue_owned: "mpsc_inv s q \<Longrightarrow> n \<in> set q \<Longrightarrow> n \<in> set (owned s)"
  unfolding mpsc_inv_def by auto

lemma inv_flight_owned: "mpsc_inv s q \<Longrightarrow> in_flight (prod s p) = Some n \<Longrightarrow> n \<in> set (owned s)"
  unfolding mpsc_inv_def by blast

lemma inv_flight_notin: "mpsc_inv s q \<Longrightarrow> in_flight (prod s p) = Some n \<Longrightarrow> n \<notin> set q"
  unfolding mpsc_inv_def by auto

lemma inv_flight_unique:
  "mpsc_inv s q \<Longrightarrow> in_flight (prod s p) = Some n \<Longrightarrow> p' \<noteq> p \<Longrightarrow> in_flight (prod s p') \<noteq> Some n"
  unfolding mpsc_inv_def by blast

lemmas inv_flight = inv_flight_owned inv_flight_notin inv_flight_unique

lemma push_start_inv:
  assumes "mpsc_inv s q" "prod s p = PIdle" "n \<notin> set (owned s)"
  shows "mpsc_inv (s\<lparr>nxt := (nxt s)(n := None), prod := (prod s)(p := PLoad n),
    owned := n # owned s\<rparr>) q"
  by (rule producer_step_inv [OF assms(1) refl])
    (use assms inv_queue_owned inv_flight_owned in auto)

lemma push_local_inv:
  assumes "mpsc_inv s q" "in_flight (prod s p) = Some n" "in_flight pc' = Some n"
    "\<And>oh. pc' = PCas n oh \<Longrightarrow> v = oh"
  shows "mpsc_inv (s\<lparr>nxt := (nxt s)(n := v), prod := (prod s)(p := pc')\<rparr>) q"
proof -
  have "mpsc_inv (s\<lparr>nxt := (nxt s)(n := v), prod := (prod s)(p := pc'), owned := owned s\<rparr>) q"
    by (rule producer_step_inv [OF assms(1) refl])
      (use assms(2-4) inv_flight [OF assms(1) assms(2)] in auto)
  then show ?thesis by simp
qed

lemma push_cas_inv:
  assumes "mpsc_inv s q" "prod s p = PCas n (head s)"
  shows "mpsc_inv (s\<lparr>head := Some n, prod := (prod s)(p := PIdle)\<rparr>) (q @ [n])"
proof -
  let ?t = "s\<lparr>head := Some n, prod := (prod s)(p := PIdle)\<rparr>"
  from assms(1) obtain cs hs where i:
    "consumer_holds s cs" "chain (nxt s) (head s) hs" "q = cs @ rev hs"
    "distinct (cs @ hs)" "set cs \<subseteq> set (owned s)" "set hs \<subseteq> set (owned s)"
    "\<And>p n. in_flight (prod s p) = Some n \<Longrightarrow> n \<in> set (owned s) \<and> n \<notin> set cs \<and> n \<notin> set hs"
    "\<And>p p' n. in_flight (prod s p) = Some n \<Longrightarrow> in_flight (prod s p') = Some n \<Longrightarrow> p = p'"
    "\<And>p n oh. prod s p = PCas n oh \<Longrightarrow> nxt s n = oh"
    by (rule mpsc_invE) blast
  from assms(2) have fl: "in_flight (prod s p) = Some n" by simp
  show ?thesis
  proof (rule mpsc_invI [of ?t cs "n # hs"])
    show "consumer_holds ?t cs"
      by (rule consumer_holds_cong [OF i(1)]) auto
    show "chain (nxt ?t) (head ?t) (n # hs)"
      using i(2) i(9) [OF assms(2)] by simp
    show "\<And>p n'. in_flight (prod ?t p) = Some n' \<Longrightarrow>
        n' \<in> set (owned ?t) \<and> n' \<notin> set (cs @ n # hs)"
      using i(7) i(8) fl by (auto split: if_splits)
    show "\<And>p p' n. in_flight (prod ?t p) = Some n \<Longrightarrow> in_flight (prod ?t p') = Some n \<Longrightarrow> p = p'"
      using i(8) by (auto split: if_splits)
  qed (use i fl in \<open>auto split: if_splits\<close>)
qed

text \<open>Steps of the consumer. Only the exchange and the final take change the abstract
  split of the queue.\<close>

lemma consumer_step_inv:
  assumes "mpsc_inv s q" "t = s\<lparr>nxt := h, cache := c, cons := pc\<rparr>"
    and held: "\<And>cs. consumer_holds s cs \<Longrightarrow> distinct cs \<Longrightarrow>
      consumer_holds t cs \<and> (\<forall>x. x \<notin> set cs \<longrightarrow> h x = nxt s x)"
  shows "mpsc_inv t q"
proof -
  from assms(1) obtain cs hs where i:
    "consumer_holds s cs" "chain (nxt s) (head s) hs" "q = cs @ rev hs"
    "distinct (cs @ hs)" "set cs \<subseteq> set (owned s)" "set hs \<subseteq> set (owned s)"
    "\<And>p n. in_flight (prod s p) = Some n \<Longrightarrow> n \<in> set (owned s) \<and> n \<notin> set cs \<and> n \<notin> set hs"
    "\<And>p p' n. in_flight (prod s p) = Some n \<Longrightarrow> in_flight (prod s p') = Some n \<Longrightarrow> p = p'"
    "\<And>p n oh. prod s p = PCas n oh \<Longrightarrow> nxt s n = oh"
    by (rule mpsc_invE) blast
  from held [OF i(1)] i(4) have t: "consumer_holds t cs" "\<And>x. x \<notin> set cs \<Longrightarrow> h x = nxt s x"
    by auto
  show ?thesis
  proof (rule mpsc_invI [of t cs hs])
    have "chain h (head s) hs = chain (nxt s) (head s) hs"
      by (rule chain_cong) (use t(2) i(4) in auto)
    with i(2) show "chain (nxt t) (head t) hs" by (simp add: assms(2))
    show "\<And>p n oh. prod t p = PCas n oh \<Longrightarrow> nxt t n = oh"
      using i(7,9) t(2) by (auto simp: assms(2)) (metis in_flight.simps(4))
  qed (use i t in \<open>auto simp: assms(2)\<close>)
qed

lemma pop_start_inv:
  assumes "mpsc_inv s q" "cons s = CIdle"
  shows "mpsc_inv (s\<lparr>cons := (if cache s = None then CXchg else CTake)\<rparr>) q"
  by (rule consumer_step_inv [OF assms(1), where h = "nxt s" and c = "cache s"])
    (use assms(2) in \<open>auto simp: consumer_holds.simps\<close>)

lemma rev_loop_inv:
  assumes "mpsc_inv s q" "cons s = CRev (Some l) pv"
  shows "mpsc_inv (s\<lparr>nxt := (nxt s)(l := pv), cons := CRev (nxt s l) (Some l)\<rparr>) q"
proof (rule consumer_step_inv [OF assms(1), where h = "(nxt s)(l := pv)" and c = "cache s"])
  fix cs
  assume "consumer_holds s cs" "distinct cs"
  with assms(2) obtain ls ps where lp: "cache s = None" "chain (nxt s) (nxt s l) ls"
    "chain (nxt s) pv ps" "cs = rev (l # ls) @ ps" "distinct (rev (l # ls) @ ps)"
    by (auto simp: consumer_holds.simps chain_Some)
  then have "chain ((nxt s)(l := pv)) (nxt s l) ls" "chain ((nxt s)(l := pv)) (Some l) (l # ps)"
    "cs = rev ls @ (l # ps)"
    by auto
  then have "consumer_holds (s\<lparr>nxt := (nxt s)(l := pv), cons := CRev (nxt s l) (Some l)\<rparr>) cs"
    unfolding consumer_holds.simps using \<open>cache s = None\<close>
    by (simp del: fun_upd_apply chain.simps) blast
  with lp(4)
  show "consumer_holds (s\<lparr>nxt := (nxt s)(l := pv), cons := CRev (nxt s l) (Some l)\<rparr>) cs
      \<and> (\<forall>x. x \<notin> set cs \<longrightarrow> ((nxt s)(l := pv)) x = nxt s x)"
    by auto
qed simp

lemma rev_done_inv:
  assumes "mpsc_inv s q" "cons s = CRev None pv"
  shows "mpsc_inv (s\<lparr>cache := pv, cons := CTake\<rparr>) q"
  by (rule consumer_step_inv [OF assms(1), where h = "nxt s" and c = pv])
    (use assms(2) in \<open>auto simp: consumer_holds.simps\<close>)

lemma take_null_inv:
  assumes "mpsc_inv s q" "cons s = CTake" "cache s = None"
  shows "mpsc_inv (s\<lparr>cons := CIdle\<rparr>) q"
  by (rule consumer_step_inv [OF assms(1), where h = "nxt s" and c = "cache s"])
    (use assms(2) in \<open>auto simp: consumer_holds.simps\<close>)

lemma pop_xchg_inv:
  assumes "mpsc_inv s q" "cons s = CXchg"
  shows "mpsc_inv (s\<lparr>head := None, cons := CRev (head s) None\<rparr>) q"
proof -
  let ?t = "s\<lparr>head := None, cons := CRev (head s) None\<rparr>"
  from assms obtain cs hs where i:
    "consumer_holds s cs" "chain (nxt s) (head s) hs" "q = cs @ rev hs"
    "distinct (cs @ hs)" "set cs \<subseteq> set (owned s)" "set hs \<subseteq> set (owned s)"
    "\<And>p n. in_flight (prod s p) = Some n \<Longrightarrow> n \<in> set (owned s) \<and> n \<notin> set cs \<and> n \<notin> set hs"
    "\<And>p p' n. in_flight (prod s p) = Some n \<Longrightarrow> in_flight (prod s p') = Some n \<Longrightarrow> p = p'"
    "\<And>p n oh. prod s p = PCas n oh \<Longrightarrow> nxt s n = oh"
    by (elim mpsc_invE) blast
  with assms(2) have "cs = []" "cache s = None" by (auto simp: consumer_holds.simps)
  show ?thesis
  proof (rule mpsc_invI [of ?t "rev hs" "[]"])
    show "consumer_holds ?t (rev hs)"
      using i(2) \<open>cache s = None\<close> by (auto simp: consumer_holds.simps)
  qed (use i \<open>cs = []\<close> in auto)
qed

lemma take_node_inv:
  assumes "mpsc_inv s q" "cons s = CTake" "cache s = Some n"
  shows "\<exists>q'. q = n # q' \<and> mpsc_inv (s\<lparr>cache := nxt s n, nxt := (nxt s)(n := None),
    cons := CIdle, owned := removeAll n (owned s)\<rparr>) q'"
proof -
  let ?t = "s\<lparr>cache := nxt s n, nxt := (nxt s)(n := None), cons := CIdle,
    owned := removeAll n (owned s)\<rparr>"
  from assms obtain cs hs where i:
    "consumer_holds s cs" "chain (nxt s) (head s) hs" "q = cs @ rev hs"
    "distinct (cs @ hs)" "set cs \<subseteq> set (owned s)" "set hs \<subseteq> set (owned s)"
    "\<And>p n. in_flight (prod s p) = Some n \<Longrightarrow> n \<in> set (owned s) \<and> n \<notin> set cs \<and> n \<notin> set hs"
    "\<And>p p' n. in_flight (prod s p) = Some n \<Longrightarrow> in_flight (prod s p') = Some n \<Longrightarrow> p = p'"
    "\<And>p n oh. prod s p = PCas n oh \<Longrightarrow> nxt s n = oh"
    by (elim mpsc_invE) blast
  with assms obtain cs' where cs': "cs = n # cs'" "chain (nxt s) (nxt s n) cs'"
    by (auto simp: consumer_holds.simps chain_Some)
  have "mpsc_inv ?t (cs' @ rev hs)"
  proof (rule mpsc_invI [of ?t cs' hs])
    show "consumer_holds ?t cs'" using cs' i(4) by (simp add: consumer_holds.simps)
    show "\<And>p n oh. prod ?t p = PCas n oh \<Longrightarrow> nxt ?t n = oh"
      using i(7,9) cs'(1) by auto (metis in_flight.simps(4) list.set_intros(1))
    show "\<And>p n'. in_flight (prod ?t p) = Some n' \<Longrightarrow> n' \<in> set (owned ?t) \<and> n' \<notin> set (cs' @ hs)"
      using i(7) cs'(1) by fastforce
  qed (use i cs' in auto)
  with i(3) cs' show ?thesis by auto
qed

lemma mpsc_step_inv:
  assumes "mpsc_step s e t" and "mpsc_inv s q"
  shows "\<exists>q'. mpsc_inv t q' \<and> queue_after e q q'"
  using assms(1)
proof (cases rule: mpsc_step.cases)
  case (push_start p n)
  with assms(2) show ?thesis by (auto intro: push_start_inv)
next
  case (push_load p n)
  with push_local_inv [OF assms(2), of p n "PLink n (head s)" "nxt s n"]
  show ?thesis by auto
next
  case (push_link p n oh)
  with push_local_inv [OF assms(2), of p n "PCas n oh" oh]
  show ?thesis by auto
next
  case (push_cas_ok p n oh)
  with assms(2) show ?thesis by (auto intro: push_cas_inv)
next
  case (push_cas_fail p n oh)
  with push_local_inv [OF assms(2), of p n "PLoad n" "nxt s n"]
  show ?thesis by auto
next
  case pop_start
  then show ?thesis using pop_start_inv [OF assms(2)] by auto
next
  case pop_xchg
  then show ?thesis using pop_xchg_inv [OF assms(2)] by auto
next
  case (rev_loop l pv)
  then show ?thesis using rev_loop_inv [OF assms(2)] by auto
next
  case (rev_done pv)
  then show ?thesis using rev_done_inv [OF assms(2)] by auto
next
  case take_null
  then show ?thesis using take_null_inv [OF assms(2)] by auto
next
  case (take_node n)
  then show ?thesis using take_node_inv [OF assms(2)] by auto
qed

lemma queue_after_events:
  "queue_after e q q' \<Longrightarrow> q @ pushed_node e = popped_node e @ q'"
  by (cases e) auto

lemma pushes_snoc [simp]: "pushes (es @ [e]) = pushes es @ pushed_node e"
  by (simp add: pushes_def)

lemma pops_snoc [simp]: "pops (es @ [e]) = pops es @ popped_node e"
  by (simp add: pops_def)

lemma pushes_Nil [simp]: "pushes [] = []" and pops_Nil [simp]: "pops [] = []"
  by (simp_all add: pushes_def pops_def)

lemma mpsc_trace_queue:
  "mpsc_trace s es t \<Longrightarrow> s = mpsc_init \<Longrightarrow> \<exists>q. mpsc_inv t q \<and> pushes es = pops es @ q"
proof (induction rule: mpsc_trace.induct)
  case (trace_nil s)
  then show ?case using mpsc_init_inv by auto
next
  case (trace_snoc s es t e u)
  then obtain q where q: "mpsc_inv t q" "pushes es = pops es @ q" by auto
  from mpsc_step_inv [OF trace_snoc.hyps(2) q(1)] obtain q' where
    "mpsc_inv u q'" "queue_after e q q'" by auto
  with q(2) queue_after_events [OF this(2)] show ?case by auto
qed

section \<open>Properties\<close>

text \<open>C1. Under every interleaving of any number of producers with the one consumer, the nodes
  the consumer has popped are a prefix of the nodes pushed, in the order of the successful
  compare-and-swaps: no node is lost, duplicated or reordered. When the consumer is idle and
  both lists are empty, everything pushed has been popped.\<close>

theorem mpsc_concurrent_fifo:
  assumes "mpsc_trace mpsc_init es t"
  shows "(\<exists>q. pushes es = pops es @ q)
    \<and> (cons t = CIdle \<and> head t = None \<and> cache t = None \<longrightarrow> pushes es = pops es)"
proof -
  from mpsc_trace_queue [OF assms refl] obtain q where
    q: "mpsc_inv t q" "pushes es = pops es @ q" by blast
  have "q = []" if "cons t = CIdle" "head t = None" "cache t = None"
    using q(1) that by (auto simp: mpsc_inv_def consumer_holds.simps)
  with q(2) show ?thesis by auto
qed

lemma sample_trace:
  "\<exists>t. mpsc_trace mpsc_init [Tau, Tau, Tau, Pushed 2 6, Tau, Tau, Tau, Tau, Popped 6] t
     \<and> cons t = CIdle \<and> head t = None \<and> cache t = None"
proof -
  let ?s1 = "mpsc_init\<lparr>prod := (\<lambda>_. PIdle)(2 := PLoad 6), owned := [6]\<rparr>"
  let ?s2 = "?s1\<lparr>prod := (\<lambda>_. PIdle)(2 := PLink 6 None)\<rparr>"
  let ?s3 = "?s1\<lparr>prod := (\<lambda>_. PIdle)(2 := PCas 6 None)\<rparr>"
  let ?s4 = "mpsc_init\<lparr>head := Some 6, owned := [6]\<rparr>"
  let ?s5 = "?s4\<lparr>cons := CXchg\<rparr>"
  let ?s6 = "mpsc_init\<lparr>owned := [6], cons := CRev (Some 6) None\<rparr>"
  let ?s7 = "mpsc_init\<lparr>owned := [6], cons := CRev None (Some 6)\<rparr>"
  let ?s8 = "mpsc_init\<lparr>owned := [6], cons := CTake, cache := Some 6\<rparr>"
  note init = mpsc_init_def fun_upd_idem
  have st1: "mpsc_step mpsc_init Tau ?s1"
    using push_start [of mpsc_init 2 6] by (simp add: init)
  have st2: "mpsc_step ?s1 Tau ?s2" using push_load [of ?s1 2 6] by (simp add: init)
  have st3: "mpsc_step ?s2 Tau ?s3" using push_link [of ?s2 2 6 None] by (simp add: init)
  have st4: "mpsc_step ?s3 (Pushed 2 6) ?s4"
    using push_cas_ok [of ?s3 2 6 None] by (simp add: init)
  have st5: "mpsc_step ?s4 Tau ?s5" using pop_start [of ?s4] by (simp add: init)
  have st6: "mpsc_step ?s5 Tau ?s6" using pop_xchg [of ?s5] by (simp add: init)
  have st7: "mpsc_step ?s6 Tau ?s7" using rev_loop [of ?s6 6 None] by (simp add: init)
  have st8: "mpsc_step ?s7 Tau ?s8" using rev_done [of ?s7 "Some 6"] by (simp add: init)
  have st9: "mpsc_step ?s8 (Popped 6) mpsc_init"
    using take_node [of ?s8 6] by (simp add: init)
  note tr = trace_nil [of mpsc_init, THEN trace_snoc, OF st1, THEN trace_snoc, OF st2,
      THEN trace_snoc, OF st3, THEN trace_snoc, OF st4, THEN trace_snoc, OF st5,
      THEN trace_snoc, OF st6, THEN trace_snoc, OF st7, THEN trace_snoc, OF st8,
      THEN trace_snoc, OF st9]
  have "mpsc_trace mpsc_init [Tau, Tau, Tau, Pushed 2 6, Tau, Tau, Tau, Tau, Popped 6] mpsc_init"
    using tr by (simp only: append.simps)
  then show ?thesis by (auto simp: mpsc_init_def)
qed

theorem mpsc_concurrent_fifo_witness:
  "\<exists>es t. mpsc_trace mpsc_init es t \<and> pops es = [6] \<and> pushes es = pops es"
proof -
  from sample_trace obtain t where
    t: "mpsc_trace mpsc_init [Tau, Tau, Tau, Pushed 2 6, Tau, Tau, Tau, Tau, Popped 6] t"
      "cons t = CIdle \<and> head t = None \<and> cache t = None" by blast
  with mpsc_concurrent_fifo [OF t(1)] show ?thesis by (auto simp: pops_def)
qed

end
