(* ===== verification/XHash.thy ===== *)
theory XHash
  imports XPrelude
begin

text \<open>
  The chained hash table of \<open>xhash.h\<close>: buckets of nodes, 64-bit integer or string keys, the
  tracker of non-empty buckets (\<open>xhashActive\<close>), growth by rehashing. A bucket is the list of
  its nodes in chain order, an array is a list, a \<open>void*\<close> value is a number with 0 for NULL,
  and a string key is the list of its bytes before the terminating NUL. The allocator is a
  parameter \<open>ok\<close> that says which allocation sites of one call succeed. The handle is not
  NULL and its key type is the one the function is for (the \<open>assert\<close> of each function).
\<close>

section \<open>Data\<close>

datatype xhashKeyType = XHASH_KEY_INT | XHASH_KEY_STR

datatype xhashKey = KeyInt u64 | KeyStr bytes

type_synonym ptr = nat

type_synonym xhashNode = "xhashKey \<times> ptr"

datatype xhash_site = Site_node | Site_key | Site_buckets | Site_indices | Site_pos | Site_table

record xhashActive =
  ac_indices :: "nat list"
  ac_pos :: "int list"
  ac_count :: nat

record xhash =
  buckets :: "xhashNode list list"
  key_type :: xhashKeyType
  hsize :: nat
  hcount :: nat
  active :: xhashActive

definition XHASH_DEFAULT_SIZE :: u64 where
  "XHASH_DEFAULT_SIZE = 64"

section \<open>The tracker of non-empty buckets\<close>

text \<open>The positions are \<open>int\<close> and the count is a \<open>size_t\<close>: the cast \<open>(int)a->count\<close> keeps 32 bits.\<close>

definition cast_int :: "nat \<Rightarrow> int" where
  "cast_int n = sint (of_nat n :: u32)"

definition xhash_active_init :: "(xhash_site \<Rightarrow> bool) \<Rightarrow> nat \<Rightarrow> xhashActive option" where
  "xhash_active_init ok sz =
     (if \<not> ok Site_indices then None
      else if \<not> ok Site_pos then None
      else Some \<lparr>ac_indices = replicate sz 0, ac_pos = replicate sz (-1), ac_count = 0\<rparr>)"

definition xhash_active_add :: "xhashActive \<Rightarrow> nat \<Rightarrow> xhashActive" where
  "xhash_active_add a idx =
     a\<lparr>ac_pos := (ac_pos a)[idx := cast_int (ac_count a)],
       ac_indices := (ac_indices a)[ac_count a := idx],
       ac_count := ac_count a + 1\<rparr>"

definition xhash_active_remove :: "xhashActive \<Rightarrow> nat \<Rightarrow> xhashActive" where
  "xhash_active_remove a idx =
     (let p = ac_pos a ! idx;
          lst = ac_indices a ! (ac_count a - 1);
          a1 = a\<lparr>ac_indices := (ac_indices a)[nat p := lst]\<rparr>;
          a2 = a1\<lparr>ac_pos := (ac_pos a1)[lst := p]\<rparr>;
          a3 = a2\<lparr>ac_pos := (ac_pos a2)[idx := -1]\<rparr>
      in a3\<lparr>ac_count := ac_count a3 - 1\<rparr>)"

section \<open>Sizes and hash functions\<close>

definition xhash_next_pow2 :: "u64 \<Rightarrow> u64" where
  "xhash_next_pow2 sz =
     (if sz = 0 then XHASH_DEFAULT_SIZE
      else let s = sz - 1;
               s = s OR drop_bit 1 s;
               s = s OR drop_bit 2 s;
               s = s OR drop_bit 4 s;
               s = s OR drop_bit 8 s;
               s = s OR drop_bit 16 s;
               s = s OR drop_bit 32 s
           in s + 1)"

text \<open>The results are \<open>unsigned int\<close>, so they are cut to 32 bits.\<close>

definition xhash_int_func :: "u64 \<Rightarrow> nat \<Rightarrow> nat" where
  "xhash_int_func key sz =
     (let k = key;
          k = k XOR drop_bit 33 k;
          k = k * 0xff51afd7ed558ccd;
          k = k XOR drop_bit 33 k;
          k = k * 0xc4ceb9fe1a85ec53;
          k = k XOR drop_bit 33 k
      in unat (ucast (k AND (of_nat sz - 1)) :: u32))"

fun fnv1a32 :: "u32 \<Rightarrow> bytes \<Rightarrow> u32" where
  "fnv1a32 h [] = h"
| "fnv1a32 h (c # s) = fnv1a32 ((h XOR ucast c) * 16777619) s"

definition xhash_str_func :: "bytes \<Rightarrow> nat \<Rightarrow> nat" where
  "xhash_str_func s sz =
     unat (ucast ((ucast (fnv1a32 2166136261 s) :: u64) AND (of_nat sz - 1)) :: u32)"

fun xhash_func :: "xhashKey \<Rightarrow> nat \<Rightarrow> nat" where
  "xhash_func (KeyInt i) sz = xhash_int_func i sz"
| "xhash_func (KeyStr s) sz = xhash_str_func s sz"

section \<open>Lifecycle\<close>

definition xhash_create :: "(xhash_site \<Rightarrow> bool) \<Rightarrow> nat \<Rightarrow> xhashKeyType \<Rightarrow> xhash option" where
  "xhash_create ok sz ty =
     (let sz = unat (xhash_next_pow2 (of_nat sz))
      in if \<not> ok Site_table then None
         else if \<not> ok Site_buckets then None
         else case xhash_active_init ok sz of
                None \<Rightarrow> None
              | Some a \<Rightarrow> Some \<lparr>buckets = replicate sz [], key_type = ty, hsize = sz,
                               hcount = 0, active = a\<rparr>)"

text \<open>The pointers \<open>xhash_destroy\<close> passes to \<open>free\<close>: the nodes of every active bucket, with
  the duplicated string keys and, on request, the non-NULL values.\<close>

datatype xhash_freed = Freed_node xhashNode | Freed_key bytes | Freed_value ptr

definition free_node :: "xhash \<Rightarrow> bool \<Rightarrow> xhashNode \<Rightarrow> xhash_freed list" where
  "free_node h free_value n =
     (if key_type h = XHASH_KEY_STR
      then (case fst n of KeyStr s \<Rightarrow> [Freed_key s] | KeyInt _ \<Rightarrow> []) else [])
     @ (if free_value \<and> snd n \<noteq> 0 then [Freed_value (snd n)] else [])
     @ [Freed_node n]"

definition xhash_destroy :: "xhash \<Rightarrow> bool \<Rightarrow> xhash_freed list" where
  "xhash_destroy h free_value =
     concat (map (\<lambda>i. concat (map (free_node h free_value) (buckets h ! (ac_indices (active h) ! i))))
       [0..<ac_count (active h)])"

section \<open>Rehashing\<close>

definition rehash_node :: "nat \<Rightarrow> xhashNode list list \<Rightarrow> xhashNode \<Rightarrow> xhashNode list list" where
  "rehash_node new_size nb n =
     (let ni = xhash_func (fst n) new_size in nb[ni := n # nb ! ni])"

definition xhash_resize :: "(xhash_site \<Rightarrow> bool) \<Rightarrow> xhash \<Rightarrow> nat \<Rightarrow> bool \<times> xhash" where
  "xhash_resize ok h new_size =
     (if new_size = 0 \<or> new_size = hsize h then (False, h)
      else let new_size = unat (xhash_next_pow2 (of_nat new_size))
           in if \<not> ok Site_buckets then (False, h)
              else case xhash_active_init ok new_size of
                     None \<Rightarrow> (False, h)
                   | Some new_active \<Rightarrow>
                       let nb = foldl (\<lambda>nb i. foldl (rehash_node new_size) nb
                                        (buckets h ! (ac_indices (active h) ! i)))
                                  (replicate new_size []) [0..<ac_count (active h)];
                           new_active = foldl (\<lambda>a i. if nb ! i \<noteq> [] then xhash_active_add a i else a)
                                          new_active [0..<new_size]
                       in (True, h\<lparr>buckets := nb, active := new_active, hsize := new_size\<rparr>))"

section \<open>Bucket chains\<close>

text \<open>The search loops: the value of the first node with the key; the chain with that
  node's value overwritten; the chain with that node unlinked.\<close>

fun chain_get :: "xhashKey \<Rightarrow> xhashNode list \<Rightarrow> ptr option" where
  "chain_get k [] = None"
| "chain_get k (n # ns) = (if fst n = k then Some (snd n) else chain_get k ns)"

fun chain_assign :: "xhashKey \<Rightarrow> ptr \<Rightarrow> xhashNode list \<Rightarrow> xhashNode list option" where
  "chain_assign k v [] = None"
| "chain_assign k v (n # ns) =
     (if fst n = k then Some ((fst n, v) # ns)
      else case chain_assign k v ns of None \<Rightarrow> None | Some ns' \<Rightarrow> Some (n # ns'))"

fun chain_unlink :: "xhashKey \<Rightarrow> xhashNode list \<Rightarrow> (xhashNode \<times> xhashNode list) option" where
  "chain_unlink k [] = None"
| "chain_unlink k (n # ns) =
     (if fst n = k then Some (n, ns)
      else case chain_unlink k ns of None \<Rightarrow> None | Some (d, ns') \<Rightarrow> Some (d, n # ns'))"

text \<open>Linking a fresh node at the head of bucket \<open>idx\<close>.\<close>

definition link_node :: "xhash \<Rightarrow> nat \<Rightarrow> xhashNode \<Rightarrow> xhash" where
  "link_node h idx n =
     h\<lparr>active := (if buckets h ! idx = [] then xhash_active_add (active h) idx else active h),
       buckets := (buckets h)[idx := n # buckets h ! idx],
       hcount := hcount h + 1\<rparr>"

text \<open>Putting bucket \<open>idx\<close> back without a node that was unlinked from it.\<close>

definition unlink_node :: "xhash \<Rightarrow> nat \<Rightarrow> xhashNode list \<Rightarrow> xhash" where
  "unlink_node h idx ns =
     h\<lparr>buckets := (buckets h)[idx := ns],
       active := (if ns = [] then xhash_active_remove (active h) idx else active h),
       hcount := hcount h - 1\<rparr>"

section \<open>Integer keys\<close>

definition xhash_set_int :: "(xhash_site \<Rightarrow> bool) \<Rightarrow> xhash \<Rightarrow> u64 \<Rightarrow> ptr \<Rightarrow> bool \<times> xhash" where
  "xhash_set_int ok h key value =
     (let idx = xhash_int_func key (hsize h)
      in case chain_assign (KeyInt key) value (buckets h ! idx) of
           Some ns \<Rightarrow> (True, h\<lparr>buckets := (buckets h)[idx := ns]\<rparr>)
         | None \<Rightarrow>
             if \<not> ok Site_node then (False, h)
             else let h1 = link_node h idx (KeyInt key, value)
                  in if hcount h1 \<ge> hsize h1
                     then (True, snd (xhash_resize ok h1 (hsize h1 * 2 mod 2 ^ 64)))
                     else (True, h1))"

definition xhash_get_int :: "xhash \<Rightarrow> u64 \<Rightarrow> ptr" where
  "xhash_get_int h key =
     (let idx = xhash_int_func key (hsize h)
      in case chain_get (KeyInt key) (buckets h ! idx) of Some v \<Rightarrow> v | None \<Rightarrow> 0)"

definition xhash_remove_int :: "xhash \<Rightarrow> u64 \<Rightarrow> bool \<times> xhash" where
  "xhash_remove_int h key =
     (let idx = xhash_int_func key (hsize h)
      in case chain_unlink (KeyInt key) (buckets h ! idx) of
           Some (del, ns) \<Rightarrow> (True, unlink_node h idx ns)
         | None \<Rightarrow> (False, h))"

section \<open>String keys\<close>

definition xhash_set_str :: "(xhash_site \<Rightarrow> bool) \<Rightarrow> xhash \<Rightarrow> bytes \<Rightarrow> ptr \<Rightarrow> bool \<times> xhash" where
  "xhash_set_str ok h key value =
     (let idx = xhash_str_func key (hsize h)
      in case chain_assign (KeyStr key) value (buckets h ! idx) of
           Some ns \<Rightarrow> (True, h\<lparr>buckets := (buckets h)[idx := ns]\<rparr>)
         | None \<Rightarrow>
             if \<not> ok Site_node then (False, h)
             else if \<not> ok Site_key then (False, h)
             else let h1 = link_node h idx (KeyStr key, value)
                  in if hcount h1 * 20 \<ge> hsize h1 * 17
                     then (True, snd (xhash_resize ok h1 (hsize h1 * 2 mod 2 ^ 64)))
                     else (True, h1))"

definition xhash_get_str :: "xhash \<Rightarrow> bytes \<Rightarrow> ptr" where
  "xhash_get_str h key =
     (let idx = xhash_str_func key (hsize h)
      in case chain_get (KeyStr key) (buckets h ! idx) of Some v \<Rightarrow> v | None \<Rightarrow> 0)"

definition xhash_remove_str :: "xhash \<Rightarrow> bytes \<Rightarrow> bool \<times> xhash" where
  "xhash_remove_str h key =
     (let idx = xhash_str_func key (hsize h)
      in case chain_unlink (KeyStr key) (buckets h ! idx) of
           Some (del, ns) \<Rightarrow> (True, unlink_node h idx ns)
         | None \<Rightarrow> (False, h))"

definition xhash_size :: "xhash \<Rightarrow> nat" where
  "xhash_size h = hcount h"

section \<open>Iteration\<close>

text \<open>
  \<open>xhash_foreach\<close> with a callback that does not change the table (the contract its callers
  document); the callback carries its context \<open>'c\<close> and stops the loop by returning False.
  The re-check of \<open>indices[i]\<close> after a bucket is then always true.
\<close>

fun visit_nodes :: "(xhashKey \<Rightarrow> ptr \<Rightarrow> 'c \<Rightarrow> bool \<times> 'c) \<Rightarrow> xhashNode list \<Rightarrow> 'c \<Rightarrow> bool \<times> 'c" where
  "visit_nodes cb [] ctx = (True, ctx)"
| "visit_nodes cb (n # ns) ctx =
     (case cb (fst n) (snd n) ctx of
        (False, ctx') \<Rightarrow> (False, ctx')
      | (True, ctx') \<Rightarrow> visit_nodes cb ns ctx')"

fun visit_buckets ::
  "(xhashKey \<Rightarrow> ptr \<Rightarrow> 'c \<Rightarrow> bool \<times> 'c) \<Rightarrow> xhash \<Rightarrow> nat list \<Rightarrow> 'c \<Rightarrow> bool \<times> 'c" where
  "visit_buckets cb h [] ctx = (True, ctx)"
| "visit_buckets cb h (i # ix) ctx =
     (case visit_nodes cb (buckets h ! (ac_indices (active h) ! i)) ctx of
        (False, ctx') \<Rightarrow> (False, ctx')
      | (True, ctx') \<Rightarrow> visit_buckets cb h ix ctx')"

definition xhash_foreach :: "xhash \<Rightarrow> (xhashKey \<Rightarrow> ptr \<Rightarrow> 'c \<Rightarrow> bool \<times> 'c) \<Rightarrow> 'c \<Rightarrow> bool \<times> 'c" where
  "xhash_foreach h cb ctx = visit_buckets cb h [0..<ac_count (active h)] ctx"

end
