(* ===== verification/XHashInv.thy ===== *)
theory XHashInv
  imports XHash
begin

text \<open>
  The representation invariant of the hash table, its abstraction to a finite map, and the
  operations as map operations: every node is in the bucket of its hash, keys are unique,
  the tracker lists exactly the non-empty buckets, the counter is the number of nodes.
\<close>

section \<open>Hash values stay inside the table\<close>

definition pow2_size :: "nat \<Rightarrow> bool" where
  "pow2_size sz \<longleftrightarrow> (\<exists>e<64. sz = 2 ^ e)"

lemma pow2_size_pos: "pow2_size sz \<Longrightarrow> 0 < sz"
  by (auto simp: pow2_size_def)

lemma masked_hash_bound:
  assumes "pow2_size sz"
  shows "unat (ucast ((k :: u64) AND (of_nat sz - 1)) :: u32) < sz"
proof -
  from assms obtain e where e: "e < 64" "sz = 2 ^ e" by (auto simp: pow2_size_def)
  have "unat (k AND mask e) < 2 ^ e"
    by (simp add: take_bit_eq_mask [symmetric] unsigned_take_bit_eq)
  moreover have "(of_nat sz :: u64) - 1 = mask e" by (simp add: e mask_eq_exp_minus_1)
  moreover have "unat (ucast x :: u32) \<le> unat x" for x :: u64
    by (simp add: unsigned_ucast_eq take_bit_nat_less_eq_self)
  ultimately show ?thesis using e(2) le_less_trans by fastforce
qed

lemma xhash_func_bound: "pow2_size sz \<Longrightarrow> xhash_func k sz < sz"
  by (cases k) (simp_all add: xhash_int_func_def xhash_str_func_def Let_def masked_hash_bound)

lemma unat_exp64: "k \<le> 63 \<Longrightarrow> unat (2 ^ k :: u64) = 2 ^ k"
proof -
  assume "k \<le> 63"
  have "unat (of_nat (2 ^ k) :: u64) = take_bit 64 (2 ^ k)" by (simp only: unsigned_of_nat) simp
  also have "\<dots> = 2 ^ k"
    using \<open>k \<le> 63\<close> by (intro take_bit_nat_eq_self power_strict_increasing) auto
  finally show ?thesis by simp
qed

lemma next_pow2_is_pow2:
  assumes "sz \<le> 2 ^ 63"
  shows "\<exists>e<64. unat (xhash_next_pow2 (of_nat sz)) = 2 ^ e
    \<and> sz \<le> 2 ^ e \<and> (0 < sz \<longrightarrow> (\<forall>l. sz \<le> 2 ^ l \<longrightarrow> e \<le> l))"
proof (cases "sz = 0")
  case True
  then show ?thesis
    by (intro exI [of _ 6]) (simp add: xhash_next_pow2_def XHASH_DEFAULT_SIZE_def)
next
  case False
  define s where "s = (of_nat sz - 1 :: u64)"
  have sz: "(of_nat sz :: u64) \<noteq> 0" and us: "unat s = sz - 1"
  proof -
    have "unat (of_nat sz :: u64) = sz"
      using assms by (simp add: unsigned_of_nat take_bit_nat_eq_self)
    then show "(of_nat sz :: u64) \<noteq> 0" using False by auto
    then show "unat s = sz - 1"
      using \<open>unat (of_nat sz :: u64) = sz\<close> unfolding s_def
      by (metis unat_minus_one)
  qed
  let ?s1 = "s OR drop_bit 1 s"
  let ?s2 = "?s1 OR drop_bit 2 ?s1"
  let ?s3 = "?s2 OR drop_bit 4 ?s2"
  let ?s4 = "?s3 OR drop_bit 8 ?s3"
  let ?s5 = "?s4 OR drop_bit 16 ?s4"
  let ?s6 = "?s5 OR drop_bit 32 ?s5"
  have "smeared s 2 ?s1" by (rule smeared_step [OF smeared_start]) simp
  then have "smeared s 4 ?s2" by (rule smeared_step) simp
  then have "smeared s 8 ?s3" by (rule smeared_step) simp
  then have "smeared s 16 ?s4" by (rule smeared_step) simp
  then have "smeared s 32 ?s5" by (rule smeared_step) simp
  then have "smeared s 64 ?s6" by (rule smeared_step) simp
  from smeared_is_mask [OF this] obtain k where
    k: "?s6 = mask k" "unat s < 2 ^ k" "\<forall>l. unat s < 2 ^ l \<longrightarrow> k \<le> l" by auto
  have "k \<le> 63" using k(3) us assms False by auto
  then have "unat (mask k + 1 :: u64) = 2 ^ k"
    by (simp add: mask_eq_exp_minus_1 unat_exp64)
  moreover have "xhash_next_pow2 (of_nat sz) = ?s6 + 1"
    using sz unfolding xhash_next_pow2_def Let_def s_def by simp
  ultimately show ?thesis
    using k us \<open>k \<le> 63\<close> False by (intro exI [of _ k]) auto
qed

section \<open>Invariant and abstraction\<close>

fun key_matches :: "xhashKeyType \<Rightarrow> xhashKey \<Rightarrow> bool" where
  "key_matches XHASH_KEY_INT (KeyInt _) = True"
| "key_matches XHASH_KEY_STR (KeyStr _) = True"
| "key_matches _ _ = False"

definition bucket_ok :: "xhashKeyType \<Rightarrow> nat \<Rightarrow> nat \<Rightarrow> xhashNode list \<Rightarrow> bool" where
  "bucket_ok ty sz i ns \<longleftrightarrow>
     (\<forall>n \<in> set ns. xhash_func (fst n) sz = i \<and> key_matches ty (fst n)) \<and> distinct (map fst ns)"

definition active_ok :: "xhashNode list list \<Rightarrow> xhashActive \<Rightarrow> bool" where
  "active_ok bs a \<longleftrightarrow>
     length (ac_indices a) = length bs \<and> length (ac_pos a) = length bs
     \<and> ac_count a \<le> length bs
     \<and> inj_on (\<lambda>p. ac_indices a ! p) {..<ac_count a}
     \<and> (\<forall>i < length bs. if bs ! i = [] then ac_pos a ! i = -1
          else \<exists>p < ac_count a. ac_pos a ! i = cast_int p \<and> ac_indices a ! p = i)
     \<and> (\<forall>p < ac_count a. ac_indices a ! p < length bs \<and> bs ! (ac_indices a ! p) \<noteq> []
          \<and> ac_pos a ! (ac_indices a ! p) = cast_int p)"

definition xhash_inv :: "xhash \<Rightarrow> bool" where
  "xhash_inv h \<longleftrightarrow>
     pow2_size (hsize h) \<and> length (buckets h) = hsize h
     \<and> (\<forall>i < hsize h. bucket_ok (key_type h) (hsize h) i (buckets h ! i))
     \<and> active_ok (buckets h) (active h)
     \<and> hcount h = sum_list (map length (buckets h))"

definition xhash_abs :: "xhash \<Rightarrow> xhashKey \<rightharpoonup> ptr" where
  "xhash_abs h k = map_of (buckets h ! xhash_func k (hsize h)) k"

subsection \<open>Chains as association lists\<close>

lemma chain_get_map_of: "chain_get k ns = map_of ns k"
  by (induction ns) auto

lemma chain_assign_None: "chain_assign k v ns = None \<longleftrightarrow> k \<notin> fst ` set ns"
  by (induction ns) (auto split: option.splits)

lemma chain_assign_Some:
  "chain_assign k v ns = Some ns' \<Longrightarrow>
     map fst ns' = map fst ns \<and> map_of ns' = (map_of ns)(k \<mapsto> v) \<and> k \<in> fst ` set ns"
  by (induction ns arbitrary: ns') (auto split: if_splits option.splits)

lemma chain_unlink_None: "chain_unlink k ns = None \<longleftrightarrow> k \<notin> fst ` set ns"
  by (induction ns) (auto split: option.splits)

lemma chain_unlink_Some:
  "chain_unlink k ns = Some (d, ns') \<Longrightarrow> distinct (map fst ns) \<Longrightarrow>
     map_of ns' = (map_of ns)(k := None) \<and> set ns' \<subseteq> set ns \<and> distinct (map fst ns')
     \<and> length ns = Suc (length ns') \<and> ns \<noteq> []"
proof (induction ns arbitrary: ns')
  case (Cons n ns)
  show ?case
  proof (cases "fst n = k")
    case True
    with Cons.prems have "ns' = ns" "k \<notin> fst ` set ns" by auto
    then have "map_of ns k = None" by (simp add: map_of_eq_None_iff)
    with True Cons.prems \<open>ns' = ns\<close> show ?thesis by (cases n) auto
  next
    case False
    with Cons.prems obtain ns2 where "chain_unlink k ns = Some (d, ns2)" "ns' = n # ns2"
      by (auto split: option.splits)
    with Cons.IH [of ns2] Cons.prems False show ?thesis by (cases n) auto
  qed
qed simp

lemma bucket_ok_keys:
  "bucket_ok ty sz i ns \<Longrightarrow> map fst ns' = map fst ns \<Longrightarrow> bucket_ok ty sz i ns'"
  unfolding bucket_ok_def by (metis (no_types, lifting) image_iff image_set)

lemma bucket_ok_subset:
  "bucket_ok ty sz i ns \<Longrightarrow> set ns' \<subseteq> set ns \<Longrightarrow> distinct (map fst ns') \<Longrightarrow> bucket_ok ty sz i ns'"
  by (auto simp: bucket_ok_def)

subsection \<open>The tracker\<close>

lemma cast_int_small [simp]: "p < 2 ^ 31 \<Longrightarrow> cast_int p = int p"
proof -
  assume "p < 2 ^ 31"
  then have "p < 2 ^ 32" "int p < 2 ^ 31" by simp_all
  then show ?thesis by (simp add: cast_int_def signed_of_nat signed_take_bit_int_eq_self)
qed

lemma active_init_ok:
  "xhash_active_init ok sz = Some a \<Longrightarrow> active_ok (replicate sz []) a \<and> ac_count a = 0"
  by (auto simp: xhash_active_init_def active_ok_def split: if_splits)

lemma active_inj:
  "active_ok bs a \<Longrightarrow> inj_on (\<lambda>p. ac_indices a ! p) {..<ac_count a}"
  by (simp add: active_ok_def)

lemma active_range:
  "active_ok bs a \<Longrightarrow> (\<lambda>p. ac_indices a ! p) ` {..<ac_count a} = {i. i < length bs \<and> bs ! i \<noteq> []}"
  unfolding active_ok_def by (force simp: image_iff)

lemma active_count_less:
  assumes "active_ok bs a" and "i < length bs" and "bs ! i = []"
  shows "ac_count a < length bs"
proof -
  have "card {i. i < length bs \<and> bs ! i \<noteq> []} = ac_count a"
    using card_image [OF active_inj [OF assms(1)]] active_range [OF assms(1)] by simp
  moreover have "{i. i < length bs \<and> bs ! i \<noteq> []} \<subset> {..<length bs}" using assms by auto
  then have "card {i. i < length bs \<and> bs ! i \<noteq> []} < card {..<length bs}"
    by (rule psubset_card_mono [rotated]) simp
  ultimately show ?thesis by simp
qed

lemma active_okD:
  assumes "active_ok bs a"
  shows "length (ac_indices a) = length bs" "length (ac_pos a) = length bs"
    "ac_count a \<le> length bs"
    "\<And>p. p < ac_count a \<Longrightarrow> ac_indices a ! p < length bs"
    "\<And>p. p < ac_count a \<Longrightarrow> bs ! (ac_indices a ! p) \<noteq> []"
    "\<And>p. p < ac_count a \<Longrightarrow> ac_pos a ! (ac_indices a ! p) = cast_int p"
    "\<And>j. j < length bs \<Longrightarrow> bs ! j = [] \<Longrightarrow> ac_pos a ! j = -1"
    "\<And>j. j < length bs \<Longrightarrow> bs ! j \<noteq> [] \<Longrightarrow>
       \<exists>p < ac_count a. ac_pos a ! j = cast_int p \<and> ac_indices a ! p = j"
  using assms unfolding active_ok_def by auto

lemma active_okI:
  assumes "length (ac_indices a) = length bs" "length (ac_pos a) = length bs"
    "ac_count a \<le> length bs" "inj_on (\<lambda>p. ac_indices a ! p) {..<ac_count a}"
    "\<And>p. p < ac_count a \<Longrightarrow> ac_indices a ! p < length bs \<and> bs ! (ac_indices a ! p) \<noteq> []
       \<and> ac_pos a ! (ac_indices a ! p) = cast_int p"
    "\<And>j. j < length bs \<Longrightarrow> bs ! j = [] \<Longrightarrow> ac_pos a ! j = -1"
    "\<And>j. j < length bs \<Longrightarrow> bs ! j \<noteq> [] \<Longrightarrow>
       \<exists>p < ac_count a. ac_pos a ! j = cast_int p \<and> ac_indices a ! p = j"
  shows "active_ok bs a"
  unfolding active_ok_def using assms by simp

lemma active_add_ok:
  assumes a: "active_ok bs a" and i: "i < length bs" "bs ! i = []" and "ns \<noteq> []"
  shows "active_ok (bs[i := ns]) (xhash_active_add a i)"
proof -
  define a' where "a' = xhash_active_add a i"
  have a': "ac_indices a' = (ac_indices a)[ac_count a := i]"
    "ac_pos a' = (ac_pos a)[i := cast_int (ac_count a)]" "ac_count a' = ac_count a + 1"
    by (simp_all add: a'_def xhash_active_add_def)
  note D = active_okD [OF a]
  from active_count_less [OF assms(1-3)] have c: "ac_count a < length bs" .
  show ?thesis
    unfolding a'_def [symmetric]
  proof (rule active_okI)
    have "i \<notin> (\<lambda>p. ac_indices a ! p) ` {..<ac_count a}" using D(5) i by auto
    then show "inj_on (\<lambda>p. ac_indices a' ! p) {..<ac_count a'}"
      using active_inj [OF a] D(1) c unfolding a' lessThan_Suc Suc_eq_plus1 [symmetric]
      by (auto simp: inj_on_def nth_list_update image_iff)
  next
    fix p assume "p < ac_count a'"
    then have "p = ac_count a \<or> p < ac_count a" by (auto simp: a')
    moreover have "p < ac_count a \<Longrightarrow> ac_indices a ! p \<noteq> i" using D(5) i by auto
    ultimately show "ac_indices a' ! p < length (bs[i := ns])
        \<and> bs[i := ns] ! (ac_indices a' ! p) \<noteq> [] \<and> ac_pos a' ! (ac_indices a' ! p) = cast_int p"
      using D c i \<open>ns \<noteq> []\<close> by (auto simp: a' nth_list_update)
  next
    fix j assume j: "j < length (bs[i := ns])" "bs[i := ns] ! j = []"
    with D(7) i \<open>ns \<noteq> []\<close> show "ac_pos a' ! j = - 1"
      by (auto simp: a' nth_list_update split: if_splits)
  next
    fix j assume j: "j < length (bs[i := ns])" "bs[i := ns] ! j \<noteq> []"
    show "\<exists>p<ac_count a'. ac_pos a' ! j = cast_int p \<and> ac_indices a' ! p = j"
    proof (cases "j = i")
      case True
      then show ?thesis using D c i by (intro exI [of _ "ac_count a"]) (simp add: a')
    next
      case False
      with j D(8) obtain p where "p < ac_count a" "ac_pos a ! j = cast_int p" "ac_indices a ! p = j"
        by (auto simp: nth_list_update)
      then show ?thesis using False by (intro exI [of _ p]) (simp add: a')
    qed
  qed (use D c in \<open>auto simp: a'\<close>)
qed

lemma active_update_ok:
  "active_ok bs a \<Longrightarrow> i < length bs \<Longrightarrow> bs ! i \<noteq> [] \<Longrightarrow> ns \<noteq> [] \<Longrightarrow> active_ok (bs[i := ns]) a"
  by (auto simp: active_ok_def nth_list_update split: if_splits)

lemma active_remove_ok:
  assumes a: "active_ok bs a" and i: "i < length bs" "bs ! i \<noteq> []" and le: "ac_count a \<le> 2 ^ 31"
  shows "active_ok (bs[i := []]) (xhash_active_remove a i)"
proof -
  note D0 = active_okD [OF a]
  have cast: "cast_int p = int p" if "p < ac_count a" for p using that le by (intro cast_int_small) linarith
  have D6: "ac_pos a ! (ac_indices a ! p) = int p" if "p < ac_count a" for p
    using D0(6) [OF that] cast [OF that] by simp
  have D8: "\<exists>p < ac_count a. ac_pos a ! j = int p \<and> ac_indices a ! p = j" if "j < length bs" "bs ! j \<noteq> []" for j
    using D0(8) [OF that] cast by fastforce
  note D = D0(1-5) D6 D0(7) D8
  from D(8) [OF i] obtain p0 where
    p0: "p0 < ac_count a" "ac_pos a ! i = int p0" "ac_indices a ! p0 = i" by blast
  define lst where "lst = ac_indices a ! (ac_count a - 1)"
  define a' where "a' = xhash_active_remove a i"
  have a': "ac_indices a' = (ac_indices a)[p0 := lst]"
    "ac_pos a' = (ac_pos a)[lst := int p0, i := -1]" "ac_count a' = ac_count a - 1"
    using p0 by (simp_all add: a'_def xhash_active_remove_def Let_def lst_def)
  from p0 have lt: "ac_count a - 1 < ac_count a" by simp
  then have lst: "lst < length bs" "bs ! lst \<noteq> []" "ac_pos a ! lst = int (ac_count a - 1)"
    unfolding lst_def using D(4-6) by blast+
  show ?thesis
    unfolding a'_def [symmetric]
  proof (rule active_okI)
    have "lst \<notin> (\<lambda>p. ac_indices a ! p) ` {..<ac_count a - 1}"
      using inj_onD [OF active_inj [OF a], of _ "ac_count a - 1"] lt by (fastforce simp: lst_def)
    then show "inj_on (\<lambda>p. ac_indices a' ! p) {..<ac_count a'}"
      using inj_on_subset [OF active_inj [OF a], of "{..<ac_count a - 1}"] D(1,3) p0
      unfolding a' by (auto simp: inj_on_def nth_list_update image_iff)
  next
    fix p assume "p < ac_count a'"
    then have p: "p < ac_count a - 1" "p < ac_count a" by (simp_all add: a')
    have neq: "p \<noteq> p0 \<Longrightarrow> ac_indices a ! p \<noteq> i" "ac_indices a ! p \<noteq> lst"
      using D(6) [OF p(2)] p0 lst(3) p(1) by auto
    have "p = p0 \<Longrightarrow> lst \<noteq> i" using lst(3) p0 p(1) by auto
    with p p0 D(1-3) lst D(4-6) [OF p(2)] neq
    show "ac_indices a' ! p < length (bs[i := []])
        \<and> bs[i := []] ! (ac_indices a' ! p) \<noteq> [] \<and> ac_pos a' ! (ac_indices a' ! p) = cast_int p"
      by (cases "p = p0") (simp_all add: a' nth_list_update cast)
  next
    fix j assume j: "j < length (bs[i := []])" "bs[i := []] ! j = []"
    show "ac_pos a' ! j = - 1"
      using j D(2,7) lst by (cases "j = i") (auto simp: a' nth_list_update)
  next
    fix j assume j: "j < length (bs[i := []])" "bs[i := []] ! j \<noteq> []"
    then have ji: "j \<noteq> i" by auto
    with j D(8) obtain p where p: "p < ac_count a" "ac_pos a ! j = int p" "ac_indices a ! p = j"
      by auto
    with ji p0 have "p \<noteq> p0" by auto
    show "\<exists>p<ac_count a'. ac_pos a' ! j = cast_int p \<and> ac_indices a' ! p = j"
    proof (cases "p = ac_count a - 1")
      case True
      with p have "j = lst" by (simp add: lst_def)
      with True \<open>p \<noteq> p0\<close> p0 ji lst D(1-3) show ?thesis
        by (intro exI [of _ p0]) (auto simp: a' nth_list_update cast)
    next
      case neq: False
      with p lst have "j \<noteq> lst" by auto
      with neq \<open>p \<noteq> p0\<close> p ji D(1-3) show ?thesis
        by (intro exI [of _ p]) (auto simp: a' nth_list_update cast)
    qed
  qed (use D(1-3) p0 in \<open>auto simp: a'\<close>)
qed

subsection \<open>Invariant of single-bucket updates\<close>

lemma sum_list_length_update:
  "i < length bs \<Longrightarrow>
     sum_list (map length (bs[i := ns])) + length (bs ! i) = sum_list (map length bs) + length ns"
  using elem_le_sum_list [of i "map length bs"] by (simp add: map_update sum_list_update)

lemma xhash_invD:
  assumes "xhash_inv h"
  shows "pow2_size (hsize h)" "length (buckets h) = hsize h"
    "\<And>i. i < hsize h \<Longrightarrow> bucket_ok (key_type h) (hsize h) i (buckets h ! i)"
    "active_ok (buckets h) (active h)" "hcount h = sum_list (map length (buckets h))"
    "xhash_func k (hsize h) < hsize h"
  using assms by (auto simp: xhash_inv_def xhash_func_bound)

lemma assign_inv:
  assumes "xhash_inv h" and "idx = xhash_func k (hsize h)"
    and "chain_assign k v (buckets h ! idx) = Some ns"
  shows "xhash_inv (h\<lparr>buckets := (buckets h)[idx := ns]\<rparr>)"
    and "xhash_abs (h\<lparr>buckets := (buckets h)[idx := ns]\<rparr>) = (xhash_abs h)(k \<mapsto> v)"
    and "k \<in> dom (xhash_abs h)"
proof -
  note I = xhash_invD [OF assms(1)]
  note C = chain_assign_Some [OF assms(3)]
  have idx: "idx < hsize h" using I(6) assms(2) by simp
  have ne: "buckets h ! idx \<noteq> []" "ns \<noteq> []" and len: "length ns = length (buckets h ! idx)"
    using C by (auto dest: map_eq_imp_length_eq)
  show "xhash_inv (h\<lparr>buckets := (buckets h)[idx := ns]\<rparr>)"
    using I idx ne len C sum_list_length_update [of idx "buckets h" ns]
    by (auto simp: xhash_inv_def nth_list_update active_update_ok intro: bucket_ok_keys)
  have mem: "bucket_ok (key_type h) (hsize h) idx (buckets h ! idx)" using I(3) idx by blast
  show "xhash_abs (h\<lparr>buckets := (buckets h)[idx := ns]\<rparr>) = (xhash_abs h)(k \<mapsto> v)"
  proof
    fix k'
    show "xhash_abs (h\<lparr>buckets := (buckets h)[idx := ns]\<rparr>) k' = ((xhash_abs h)(k \<mapsto> v)) k'"
      using C idx I(2) assms(2) by (auto simp: xhash_abs_def nth_list_update)
  qed
  show "k \<in> dom (xhash_abs h)"
    using C assms(2) by (simp add: xhash_abs_def domIff map_of_eq_None_iff)
qed

lemma link_inv:
  assumes "xhash_inv h" and "idx = xhash_func k (hsize h)" and "key_matches (key_type h) k"
    and "chain_assign k v (buckets h ! idx) = None"
  shows "xhash_inv (link_node h idx (k, v))"
    and "xhash_abs (link_node h idx (k, v)) = (xhash_abs h)(k \<mapsto> v)"
    and "k \<notin> dom (xhash_abs h)"
proof -
  note I = xhash_invD [OF assms(1)]
  have idx: "idx < hsize h" using I(6) assms(2) by simp
  have new: "k \<notin> fst ` set (buckets h ! idx)" using assms(4) chain_assign_None by blast
  have b: "bucket_ok (key_type h) (hsize h) idx ((k, v) # buckets h ! idx)"
    using I(3) [OF idx] new assms(2,3) by (auto simp: bucket_ok_def)
  show "xhash_inv (link_node h idx (k, v))"
    using I idx b sum_list_length_update [of idx "buckets h" "(k, v) # buckets h ! idx"]
    by (auto simp: xhash_inv_def link_node_def nth_list_update active_update_ok active_add_ok)
  show "xhash_abs (link_node h idx (k, v)) = (xhash_abs h)(k \<mapsto> v)"
    using idx I(2) assms(2) by (auto simp: xhash_abs_def link_node_def nth_list_update fun_eq_iff)
  show "k \<notin> dom (xhash_abs h)"
    using new assms(2) by (simp add: xhash_abs_def domIff map_of_eq_None_iff)
qed

lemma unlink_inv:
  assumes "xhash_inv h" and "idx = xhash_func k (hsize h)"
    and "chain_unlink k (buckets h ! idx) = Some (d, ns)" and "ac_count (active h) \<le> 2 ^ 31"
  shows "xhash_inv (unlink_node h idx ns)"
    and "xhash_abs (unlink_node h idx ns) = (xhash_abs h)(k := None)"
    and "k \<in> dom (xhash_abs h)"
proof -
  note I = xhash_invD [OF assms(1)]
  have idx: "idx < hsize h" using I(6) assms(2) by simp
  have "distinct (map fst (buckets h ! idx))" using I(3) [OF idx] by (simp add: bucket_ok_def)
  note C = chain_unlink_Some [OF assms(3) this]
  have b: "bucket_ok (key_type h) (hsize h) idx ns"
    using C by (auto intro: bucket_ok_subset [OF I(3) [OF idx]])
  show "xhash_inv (unlink_node h idx ns)"
    using I idx b C assms(4) sum_list_length_update [of idx "buckets h" ns]
    by (auto simp: xhash_inv_def unlink_node_def nth_list_update active_update_ok active_remove_ok)
  show "xhash_abs (unlink_node h idx ns) = (xhash_abs h)(k := None)"
    using C idx I(2) assms(2) by (auto simp: xhash_abs_def unlink_node_def nth_list_update fun_eq_iff)
  show "k \<in> dom (xhash_abs h)"
    using chain_unlink_None [of k "buckets h ! idx"] assms(2,3)
    by (simp add: xhash_abs_def domIff map_of_eq_None_iff)
qed

section \<open>Rehashing\<close>

text \<open>All nodes, in the order the active tracker visits them.\<close>

definition all_nodes :: "xhash \<Rightarrow> xhashNode list" where
  "all_nodes h = concat (map (\<lambda>i. buckets h ! (ac_indices (active h) ! i)) [0..<ac_count (active h)])"

lemma foldl_foldl_concat: "foldl (\<lambda>b i. foldl f b (g i)) a xs = foldl f a (concat (map g xs))"
  by (induction xs arbitrary: a) auto

lemma all_nodes_set:
  assumes "xhash_inv h"
  shows "set (all_nodes h) = (\<Union>i<hsize h. set (buckets h ! i))"
proof -
  note I = xhash_invD [OF assms]
  have "set (all_nodes h) = (\<Union>i \<in> (\<lambda>p. ac_indices (active h) ! p) ` {..<ac_count (active h)}. set (buckets h ! i))"
    by (auto simp: all_nodes_def)
  also have "\<dots> = (\<Union>i \<in> {i. i < hsize h \<and> buckets h ! i \<noteq> []}. set (buckets h ! i))"
    using active_range [OF I(4)] I(2) by simp
  also have "\<dots> = (\<Union>i<hsize h. set (buckets h ! i))" by fastforce
  finally show ?thesis .
qed

lemma concat_buckets_distinct:
  assumes "\<And>i. i \<in> set js \<Longrightarrow> bucket_ok ty sz i (bs ! i)" and "distinct js"
  shows "distinct (map fst (concat (map (\<lambda>i. bs ! i) js)))"
  using assms
proof (induction js)
  case (Cons j js)
  have "fst ` set (bs ! j) \<inter> fst ` set (bs ! i) = {}" if "i \<in> set js" for i
  proof -
    have "bucket_ok ty sz j (bs ! j)" "bucket_ok ty sz i (bs ! i)" "i \<noteq> j"
      using Cons.prems that by auto
    then show ?thesis unfolding bucket_ok_def by fastforce
  qed
  moreover have "bucket_ok ty sz j (bs ! j)" using Cons.prems(1) by simp
  moreover have "distinct (map fst (concat (map (\<lambda>i. bs ! i) js)))"
    using Cons.IH Cons.prems by simp
  ultimately show ?case by (fastforce simp: bucket_ok_def)
qed simp

lemma all_nodes_distinct:
  assumes "xhash_inv h"
  shows "distinct (map fst (all_nodes h))"
proof -
  note I = xhash_invD [OF assms]
  let ?js = "map (\<lambda>p. ac_indices (active h) ! p) [0..<ac_count (active h)]"
  have "distinct ?js"
    using active_inj [OF I(4)] by (simp add: distinct_map atLeast0LessThan)
  moreover have "bucket_ok (key_type h) (hsize h) i (buckets h ! i)" if "i \<in> set ?js" for i
    using that active_okD(4) [OF I(4)] I(2,3) by auto
  ultimately have "distinct (map fst (concat (map (\<lambda>i. buckets h ! i) ?js)))"
    by (rule concat_buckets_distinct [rotated])
  then show ?thesis by (simp add: all_nodes_def comp_def)
qed

lemma all_nodes_map_of:
  assumes "xhash_inv h"
  shows "map_of (all_nodes h) = xhash_abs h"
proof
  fix k
  note I = xhash_invD [OF assms]
  have b: "bucket_ok (key_type h) (hsize h) i (buckets h ! i)" if "i < hsize h" for i
    using that I(3) by blast
  have "map_of (all_nodes h) k = Some v \<longleftrightarrow> xhash_abs h k = Some v" for v
  proof -
    have "map_of (all_nodes h) k = Some v \<longleftrightarrow> (\<exists>i<hsize h. (k, v) \<in> set (buckets h ! i))"
      using all_nodes_distinct [OF assms] all_nodes_set [OF assms] by (simp add: Bex_def)
    also have "\<dots> \<longleftrightarrow> (k, v) \<in> set (buckets h ! xhash_func k (hsize h))"
    proof
      assume "\<exists>i<hsize h. (k, v) \<in> set (buckets h ! i)"
      then obtain i where i: "i < hsize h" "(k, v) \<in> set (buckets h ! i)" by blast
      with b [OF i(1)] have "xhash_func k (hsize h) = i" by (fastforce simp: bucket_ok_def)
      with i show "(k, v) \<in> set (buckets h ! xhash_func k (hsize h))" by simp
    qed (use I(6) [of k] in blast)
    also have "\<dots> \<longleftrightarrow> xhash_abs h k = Some v"
      using b [OF I(6) [of k]] by (simp add: xhash_abs_def bucket_ok_def)
    finally show ?thesis .
  qed
  then show "map_of (all_nodes h) k = xhash_abs h k" by (metis not_Some_eq)
qed

lemma all_nodes_length:
  assumes "xhash_inv h"
  shows "length (all_nodes h) = hcount h" and "hcount h = card (dom (xhash_abs h))"
proof -
  note I = xhash_invD [OF assms]
  have "length (all_nodes h)
      = (\<Sum>p<ac_count (active h). length (buckets h ! (ac_indices (active h) ! p)))"
    by (simp add: all_nodes_def length_concat comp_def sum_list_sum_nth atLeast0LessThan)
  also have "\<dots> = (\<Sum>i \<in> {i. i < hsize h \<and> buckets h ! i \<noteq> []}. length (buckets h ! i))"
    using sum.reindex [OF active_inj [OF I(4)], of "\<lambda>i. length (buckets h ! i)"]
      active_range [OF I(4)] I(2) by (simp add: comp_def)
  also have "\<dots> = (\<Sum>i<hsize h. length (buckets h ! i))"
    by (rule sum.mono_neutral_left) auto
  also have "\<dots> = hcount h"
    using I(2,5) by (simp add: sum_list_sum_nth atLeast0LessThan)
  finally show *: "length (all_nodes h) = hcount h" .
  have "card (dom (map_of (all_nodes h))) = length (all_nodes h)"
    using all_nodes_distinct [OF assms]
    by (metis dom_map_of_conv_image_fst distinct_card length_map set_map)
  with * show "hcount h = card (dom (xhash_abs h))"
    by (simp add: all_nodes_map_of [OF assms])
qed

lemma active_count_le:
  assumes "xhash_inv h"
  shows "ac_count (active h) \<le> hcount h"
proof -
  note I = xhash_invD [OF assms]
  have "(\<Sum>p<ac_count (active h). 1) \<le> (\<Sum>p<ac_count (active h). length (buckets h ! (ac_indices (active h) ! p)))"
    by (rule sum_mono) (use active_okD(5) [OF I(4)] in \<open>simp add: Suc_leI\<close>)
  also have "\<dots> = hcount h"
    using all_nodes_length(1) [OF assms]
    by (simp add: all_nodes_def length_concat comp_def sum_list_sum_nth atLeast0LessThan)
  finally show ?thesis by simp
qed

text \<open>The new bucket array, and the tracker rebuilt over it.\<close>

lemma sum_length_filter_image:
  "(\<And>x. x \<in> set xs \<Longrightarrow> f x < (m::nat)) \<Longrightarrow> sum (\<lambda>i. length (filter (\<lambda>x. f x = i) xs)) {..<m} = length xs"
proof (induction xs)
  case (Cons x xs)
  have "sum (\<lambda>i. length (filter (\<lambda>y. f y = i) (x # xs))) {..<m}
      = sum (\<lambda>i. (if f x = i then 1 else 0) + length (filter (\<lambda>y. f y = i) xs)) {..<m}"
    by (rule sum.cong) auto
  also have "\<dots> = Suc (length xs)"
  proof -
    have "f x < m" using Cons.prems by simp
    then have "sum (\<lambda>i. if f x = i then 1 else (0::nat)) {..<m} = 1"
      by (subst sum.delta') auto
    with Cons show ?thesis by (simp add: sum.distrib)
  qed
  finally show ?case by simp
qed simp

lemma rehash_nth:
  assumes "length nb = sz" "\<And>n. n \<in> set ns \<Longrightarrow> xhash_func (fst n) sz < sz" "i < sz"
  shows "length (foldl (rehash_node sz) nb ns) = sz"
    and "foldl (rehash_node sz) nb ns ! i
       = rev (filter (\<lambda>n. xhash_func (fst n) sz = i) ns) @ nb ! i"
  using assms
  by (induction ns arbitrary: nb) (auto simp: rehash_node_def Let_def nth_list_update)

lemma rebuild_active:
  assumes "active_ok (replicate sz []) a" and "m \<le> sz" and "length nb = sz"
  shows "active_ok (take m nb @ replicate (sz - m) [])
     (foldl (\<lambda>a i. if nb ! i \<noteq> [] then xhash_active_add a i else a) a [0..<m])"
  using assms(2)
proof (induction m)
  case 0
  then show ?case using assms(1) by simp
next
  case (Suc m)
  let ?bs = "take m nb @ replicate (sz - m) []"
  let ?a = "foldl (\<lambda>a i. if nb ! i \<noteq> [] then xhash_active_add a i else a) a [0..<m]"
  from Suc have IH: "active_ok ?bs ?a" by simp
  have m: "m < length nb" "m < length ?bs" "?bs ! m = []"
    using Suc.prems assms(3) by (simp_all add: nth_append)
  have step: "?bs[m := ns] = take m nb @ ns # replicate (sz - Suc m) []" for ns
    using Suc.prems assms(3) by (simp add: list_update_append Suc_diff_Suc flip: replicate_Suc)
      (metis Suc_diff_le Suc_le_lessD diff_Suc_Suc list_update_code(2) replicate_Suc)
  have cons: "take (Suc m) nb @ replicate (sz - Suc m) [] = ?bs[m := nb ! m]"
    unfolding step using m(1) by (simp add: take_Suc_conv_app_nth)
  show ?case
  proof (cases "nb ! m = []")
    case True
    then have "?bs[m := nb ! m] = ?bs" using m(3) by (metis list_update_id)
    with IH cons True show ?thesis by simp
  next
    case False
    with IH m cons active_add_ok [OF IH m(2,3) False] show ?thesis by simp
  qed
qed

lemma resize_inv:
  assumes "xhash_inv h" and "new_size < 2 ^ 64"
    and pow: "pow2_size (unat (xhash_next_pow2 (of_nat new_size)))"
    and r: "xhash_resize ok h new_size = (b, h')"
  shows "xhash_inv h' \<and> xhash_abs h' = xhash_abs h \<and> hcount h' = hcount h
    \<and> key_type h' = key_type h"
proof (cases "new_size = 0 \<or> new_size = hsize h \<or> \<not> ok Site_buckets
    \<or> xhash_active_init ok (unat (xhash_next_pow2 (of_nat new_size))) = None")
  case True
  with r assms(1) show ?thesis by (auto simp: xhash_resize_def Let_def split: if_splits)
next
  case False
  define sz where "sz = unat (xhash_next_pow2 (of_nat new_size))"
  from False obtain a0 where a0: "xhash_active_init ok sz = Some a0" by (auto simp: sz_def)
  define nb where "nb = foldl (rehash_node sz) (replicate sz []) (all_nodes h)"
  define a where "a = foldl (\<lambda>a i. if nb ! i \<noteq> [] then xhash_active_add a i else a) a0 [0..<sz]"
  have h': "h' = h\<lparr>buckets := nb, active := a, hsize := sz\<rparr>"
    using r False a0 by (auto simp: xhash_resize_def Let_def sz_def [symmetric] foldl_foldl_concat
        all_nodes_def nb_def a_def)
  note I = xhash_invD [OF assms(1)]
  have pw: "pow2_size sz" using pow by (simp add: sz_def)
  have len: "length nb = sz"
    unfolding nb_def using rehash_nth(1) [of "replicate sz []" sz "all_nodes h" 0]
    by (simp add: xhash_func_bound pw pow2_size_pos)
  have nth: "nb ! i = rev (filter (\<lambda>n. xhash_func (fst n) sz = i) (all_nodes h))" if "i < sz" for i
    unfolding nb_def using rehash_nth(2) [of "replicate sz []" sz "all_nodes h" i] that
    by (simp add: xhash_func_bound pw)
  have ks: "\<forall>n \<in> set (all_nodes h). key_matches (key_type h) (fst n)"
    using I(3) all_nodes_set [OF assms(1)] by (auto simp: bucket_ok_def)
  note dist = all_nodes_distinct [OF assms(1)]
  have fdist: "distinct (map fst (filter P (all_nodes h)))" for P
    using dist by (simp add: distinct_map_filter)
  have bo: "bucket_ok (key_type h) sz i (nb ! i)" if "i < sz" for i
    using nth [OF that] ks fdist by (auto simp: bucket_ok_def simp flip: rev_map)
  have act: "active_ok nb a"
    unfolding a_def using rebuild_active [of sz a0 sz nb] active_init_ok [OF a0] len by simp
  have ab: "xhash_abs h' k = xhash_abs h k" for k
  proof -
    let ?f = "filter (\<lambda>n. xhash_func (fst n) sz = xhash_func k sz) (all_nodes h)"
    have "xhash_abs h' k = map_of (rev ?f) k"
      using nth xhash_func_bound [OF pw] by (simp add: h' xhash_abs_def)
    also have "\<dots> = map_of ?f k" using map_of_rev_distinct [OF fdist] by simp
    also have "\<dots> = map_of (all_nodes h) k" by (rule map_of_filter_key) simp
    finally show ?thesis by (simp add: all_nodes_map_of [OF assms(1)])
  qed
  have "sum_list (map length nb) = sum (\<lambda>i. length (nb ! i)) {..<sz}"
    using len by (simp add: sum_list_sum_nth atLeast0LessThan)
  also have "\<dots> = sum (\<lambda>i. length (filter (\<lambda>n. xhash_func (fst n) sz = i) (all_nodes h))) {..<sz}"
    using nth by simp
  also have "\<dots> = length (all_nodes h)"
    by (rule sum_length_filter_image) (simp add: xhash_func_bound pw)
  finally show ?thesis
    using pw len bo act ab all_nodes_length(1) [OF assms(1)]
    by (auto simp: xhash_inv_def h' fun_eq_iff)
qed

end
