(* ===== verification/XHashOps.thy ===== *)
theory XHashOps
  imports XHashInv
begin

text \<open>
  The operations of the hash table as operations on the finite map \<open>xhash_abs\<close>, the
  contract \<open>map_impl\<close> the clients of the table rely on, and the table as an instance of it
  for both key types.
\<close>

section \<open>Insertion, lookup and removal for either key type\<close>

lemma grow_inv:
  assumes "xhash_inv h" and "xhash_resize ok h (hsize h * 2 mod 2 ^ 64) = (b, h')"
  shows "xhash_inv h' \<and> xhash_abs h' = xhash_abs h \<and> hcount h' = hcount h
    \<and> key_type h' = key_type h"
proof -
  from xhash_invD(1) [OF assms(1)] obtain e where e: "e < 64" "hsize h = 2 ^ e"
    by (auto simp: pow2_size_def)
  show ?thesis
  proof (cases "e = 63")
    case True
    then have "hsize h * 2 mod 2 ^ 64 = 0" using e by simp
    with assms show ?thesis by (simp add: xhash_resize_def)
  next
    case False
    then have le: "2 ^ Suc e \<le> (2 :: nat) ^ 63" using e(1) by (intro power_increasing) auto
    then have eq: "hsize h * 2 mod 2 ^ 64 = 2 ^ Suc e" using e(2) by simp
    have "pow2_size (unat (xhash_next_pow2 (of_nat (2 ^ Suc e))))"
      using next_pow2_is_pow2 [OF le] unfolding pow2_size_def by blast
    moreover have "(2 :: nat) ^ Suc e < 2 ^ 64" using le by simp
    ultimately show ?thesis using resize_inv [OF assms(1)] assms(2) unfolding eq by blast
  qed
qed

text \<open>The shared shape of the two setters: assign in place, or allocate, link and grow.\<close>

definition set_key :: "(xhash_site \<Rightarrow> bool) \<Rightarrow> bool \<Rightarrow> (xhash \<Rightarrow> bool) \<Rightarrow> xhash \<Rightarrow> xhashKey \<Rightarrow> ptr \<Rightarrow> bool \<times> xhash"
  where
  "set_key ok alloc full h k v =
     (let idx = xhash_func k (hsize h)
      in case chain_assign k v (buckets h ! idx) of
           Some ns \<Rightarrow> (True, h\<lparr>buckets := (buckets h)[idx := ns]\<rparr>)
         | None \<Rightarrow>
             if \<not> alloc then (False, h)
             else let h1 = link_node h idx (k, v)
                  in if full h1 then (True, snd (xhash_resize ok h1 (hsize h1 * 2 mod 2 ^ 64)))
                     else (True, h1))"

lemma xhash_set_int_key:
  "xhash_set_int ok h k v = set_key ok (ok Site_node) (\<lambda>h. hcount h \<ge> hsize h) h (KeyInt k) v"
  by (simp add: xhash_set_int_def set_key_def Let_def)

lemma xhash_set_str_key:
  "xhash_set_str ok h k v
     = set_key ok (ok Site_node \<and> ok Site_key) (\<lambda>h. hcount h * 20 \<ge> hsize h * 17) h (KeyStr k) v"
  by (simp add: xhash_set_str_def set_key_def Let_def)

lemma link_node_key_type [simp]: "key_type (link_node h idx n) = key_type h"
  by (simp add: link_node_def)

lemma unlink_node_key_type [simp]: "key_type (unlink_node h idx ns) = key_type h"
  by (simp add: unlink_node_def)

lemma set_key_total: "fst (set_key ok True full h k v)"
  by (auto simp: set_key_def Let_def split: option.split)

lemma set_key_refines:
  assumes inv: "xhash_inv h" and ty: "key_matches (key_type h) k"
    and run: "set_key ok alloc full h k v = (r, h')"
  shows "xhash_inv h' \<and> key_type h' = key_type h \<and> r = (alloc \<or> k \<in> dom (xhash_abs h))
    \<and> xhash_abs h' = (if r then (xhash_abs h)(k \<mapsto> v) else xhash_abs h) \<and> (\<not> r \<longrightarrow> h' = h)"
proof -
  let ?idx = "xhash_func k (hsize h)"
  show ?thesis
  proof (cases "chain_assign k v (buckets h ! ?idx)")
    case (Some ns)
    with assign_inv [OF inv refl Some] run show ?thesis
      by (auto simp: set_key_def)
  next
    case None
    note L = link_inv [OF inv refl ty None]
    show ?thesis
    proof (cases "alloc \<and> full (link_node h ?idx (k, v))")
      case True
      let ?h1 = "link_node h ?idx (k, v)"
      obtain b h2 where g: "xhash_resize ok ?h1 (hsize ?h1 * 2 mod 2 ^ 64) = (b, h2)"
        by fastforce
      have "r \<and> h' = h2" using run None True g by (simp add: set_key_def Let_def)
      with grow_inv [OF L(1) g] L(2,3) True show ?thesis by simp
    next
      case False
      with run None L inv show ?thesis by (auto simp: set_key_def Let_def split: if_splits)
    qed
  qed
qed

definition remove_key :: "xhash \<Rightarrow> xhashKey \<Rightarrow> bool \<times> xhash" where
  "remove_key h k =
     (let idx = xhash_func k (hsize h)
      in case chain_unlink k (buckets h ! idx) of
           Some (del, ns) \<Rightarrow> (True, unlink_node h idx ns)
         | None \<Rightarrow> (False, h))"

lemma remove_key_refines:
  assumes "xhash_inv h" and "remove_key h k = (r, h')" and "hcount h \<le> 2 ^ 31"
  shows "xhash_inv h' \<and> key_type h' = key_type h \<and> r = (k \<in> dom (xhash_abs h))
    \<and> xhash_abs h' = (xhash_abs h)(k := None)"
proof (cases "chain_unlink k (buckets h ! xhash_func k (hsize h))")
  case None
  then have "xhash_abs h k = None"
    by (simp add: xhash_abs_def chain_unlink_None map_of_eq_None_iff)
  with None assms show ?thesis by (auto simp: remove_key_def)
next
  case (Some dns)
  then obtain d ns where u: "chain_unlink k (buckets h ! xhash_func k (hsize h)) = Some (d, ns)"
    by (cases dns) auto
  have "ac_count (active h) \<le> 2 ^ 31" using active_count_le [OF assms(1)] assms(3) by (rule order_trans)
  from unlink_inv [OF assms(1) refl u this] u assms(2) show ?thesis
    by (auto simp: remove_key_def Let_def)
qed

definition get_key :: "xhash \<Rightarrow> xhashKey \<Rightarrow> ptr" where
  "get_key h k = (case xhash_abs h k of Some v \<Rightarrow> v | None \<Rightarrow> 0)"

lemma xhash_get_int_key: "xhash_get_int h k = get_key h (KeyInt k)"
  by (simp add: xhash_get_int_def get_key_def xhash_abs_def chain_get_map_of Let_def)

lemma xhash_get_str_key: "xhash_get_str h k = get_key h (KeyStr k)"
  by (simp add: xhash_get_str_def get_key_def xhash_abs_def chain_get_map_of Let_def)

lemma xhash_remove_int_key: "xhash_remove_int h k = remove_key h (KeyInt k)"
  by (simp add: xhash_remove_int_def remove_key_def Let_def)

lemma xhash_remove_str_key: "xhash_remove_str h k = remove_key h (KeyStr k)"
  by (simp add: xhash_remove_str_def remove_key_def Let_def)

lemmas xhash_key_ops = xhash_set_int_key xhash_set_str_key xhash_get_int_key xhash_get_str_key
  xhash_remove_int_key xhash_remove_str_key

section \<open>Creation\<close>

lemma create_inv:
  assumes "sz \<le> 2 ^ 63" and "xhash_create ok sz ty = Some h"
  shows "xhash_inv h \<and> xhash_abs h = Map.empty \<and> key_type h = ty \<and> sz \<le> hsize h"
proof -
  define n where "n = unat (xhash_next_pow2 (of_nat sz))"
  from next_pow2_is_pow2 [OF assms(1)] have n: "pow2_size n" "sz \<le> n"
    by (auto simp: n_def pow2_size_def)
  from assms(2) obtain a where a: "xhash_active_init ok n = Some a"
    and h: "h = \<lparr>buckets = replicate n [], key_type = ty, hsize = n, hcount = 0, active = a\<rparr>"
    by (auto simp: xhash_create_def n_def Let_def split: if_splits option.splits)
  have "sum_list (map length (replicate n ([] :: xhashNode list))) = 0" by simp
  then have "xhash_inv h"
    using active_init_ok [OF a] n by (auto simp: xhash_inv_def h bucket_ok_def)
  moreover have "xhash_abs h = Map.empty"
    using xhash_func_bound [OF n(1)] by (simp add: xhash_abs_def h fun_eq_iff)
  ultimately show ?thesis using n by (simp add: h)
qed

section \<open>The contract of a map with fallible insertion\<close>

text \<open>
  What the clients of \<open>xhash.h\<close> (records, shared registries, wait tables) rely on. Values are
  pointers, so a lookup returns 0 for an absent key; insertion returns whether it took place.
  Removal is only right while the positions of the tracker fit into an \<open>int\<close>, which at most
  \<open>2 ^ 31\<close> entries ensure.
\<close>

datatype 'k map_op = MSet 'k nat | MDel 'k

text \<open>A run of operations in which every allocation succeeds, and its meaning on a map.\<close>

fun run_ops ::
  "((xhash_site \<Rightarrow> bool) \<Rightarrow> 'm \<Rightarrow> 'k \<Rightarrow> nat \<Rightarrow> bool \<times> 'm) \<Rightarrow> ('m \<Rightarrow> 'k \<Rightarrow> bool \<times> 'm)
     \<Rightarrow> 'm \<Rightarrow> 'k map_op list \<Rightarrow> 'm" where
  "run_ops put del m [] = m"
| "run_ops put del m (MSet k v # ops) = run_ops put del (snd (put (\<lambda>_. True) m k v)) ops"
| "run_ops put del m (MDel k # ops) = run_ops put del (snd (del m k)) ops"

fun map_ops :: "('k \<rightharpoonup> nat) \<Rightarrow> 'k map_op list \<Rightarrow> 'k \<rightharpoonup> nat" where
  "map_ops f [] = f"
| "map_ops f (MSet k v # ops) = map_ops (f(k \<mapsto> v)) ops"
| "map_ops f (MDel k # ops) = map_ops (f(k := None)) ops"

locale map_impl =
  fixes inv :: "'m \<Rightarrow> bool"
    and lookup :: "'m \<Rightarrow> 'k \<rightharpoonup> nat"
    and put :: "(xhash_site \<Rightarrow> bool) \<Rightarrow> 'm \<Rightarrow> 'k \<Rightarrow> nat \<Rightarrow> bool \<times> 'm"
    and fetch :: "'m \<Rightarrow> 'k \<Rightarrow> nat"
    and del :: "'m \<Rightarrow> 'k \<Rightarrow> bool \<times> 'm"
    and entries :: "'m \<Rightarrow> nat"
  assumes put_law: "inv m \<Longrightarrow> put ok m k v = (r, m') \<Longrightarrow>
      inv m' \<and> (if r then lookup m' = (lookup m)(k \<mapsto> v) else m' = m \<and> lookup m k = None)"
    and put_total: "inv m \<Longrightarrow> (\<forall>s. ok s) \<Longrightarrow> fst (put ok m k v)"
    and fetch_law: "inv m \<Longrightarrow> fetch m k = (case lookup m k of Some v \<Rightarrow> v | None \<Rightarrow> 0)"
    and del_law: "inv m \<Longrightarrow> entries m \<le> 2 ^ 31 \<Longrightarrow> del m k = (r, m') \<Longrightarrow>
      inv m' \<and> lookup m' = (lookup m)(k := None) \<and> r = (k \<in> dom (lookup m))"
    and entries_law: "inv m \<Longrightarrow> entries m = card (dom (lookup m)) \<and> finite (dom (lookup m))"
begin

lemma put_entries: "inv m \<Longrightarrow> put ok m k v = (r, m') \<Longrightarrow> entries m' \<le> entries m + 1"
  using put_law [of m ok k v r m'] entries_law [of m] entries_law [of m']
  by (auto simp: card_insert_if split: if_splits)

lemma del_entries: "inv m \<Longrightarrow> entries m \<le> 2 ^ 31 \<Longrightarrow> del m k = (r, m') \<Longrightarrow> entries m' \<le> entries m"
  using del_law [of m k r m'] entries_law [of m] entries_law [of m'] by (auto intro: card_mono)

lemma run_ops_map:
  "inv m \<Longrightarrow> entries m + length ops \<le> 2 ^ 31 \<Longrightarrow>
     inv (run_ops put del m ops) \<and> lookup (run_ops put del m ops) = map_ops (lookup m) ops"
proof (induction ops arbitrary: m)
  case (Cons op ops)
  have le: "entries m \<le> 2 ^ 31" using Cons.prems(2) by simp
  show ?case
  proof (cases op)
    case (MSet k v)
    have "fst (put (\<lambda>_. True) m k v)" by (rule put_total [OF Cons.prems(1)]) simp
    then obtain m' where m': "put (\<lambda>_. True) m k v = (True, m')"
      by (cases "put (\<lambda>_. True) m k v") auto
    have L: "inv m'" "lookup m' = (lookup m)(k \<mapsto> v)" using put_law [OF Cons.prems(1) m'] by simp_all
    have E: "entries m' + length ops \<le> 2 ^ 31" using put_entries [OF Cons.prems(1) m'] Cons.prems(2) by simp
    show ?thesis
      using Cons.IH [OF L(1) E] unfolding L(2) MSet
      by (simp only: run_ops.simps map_ops.simps m' snd_conv)
  next
    case (MDel k)
    obtain r m' where m': "del m k = (r, m')" by fastforce
    have L: "inv m'" "lookup m' = (lookup m)(k := None)"
      using del_law [OF Cons.prems(1) le m'] by simp_all
    have E: "entries m' + length ops \<le> 2 ^ 31" using del_entries [OF Cons.prems(1) le m'] Cons.prems(2) by simp
    show ?thesis
      using Cons.IH [OF L(1) E] unfolding L(2) MDel
      by (simp only: run_ops.simps map_ops.simps m' snd_conv)
  qed
qed simp

lemma run_ops_fetch:
  "inv m \<Longrightarrow> entries m + length ops \<le> 2 ^ 31 \<Longrightarrow>
     fetch (run_ops put del m ops) k = (case map_ops (lookup m) ops k of Some v \<Rightarrow> v | None \<Rightarrow> 0)"
  using run_ops_map fetch_law by metis

lemma run_ops_entries:
  "inv m \<Longrightarrow> entries m + length ops \<le> 2 ^ 31 \<Longrightarrow>
     entries (run_ops put del m ops) = card (dom (map_ops (lookup m) ops))"
  using run_ops_map entries_law by metis

lemma fetch_put: "inv m \<Longrightarrow> put ok m k v = (True, m') \<Longrightarrow> fetch m' k' = (if k' = k then v else fetch m k')"
  using put_law [of m ok k v True m'] by (simp add: fetch_law)

lemma fetch_del: "inv m \<Longrightarrow> entries m \<le> 2 ^ 31 \<Longrightarrow> del m k = (r, m') \<Longrightarrow> fetch m' k' = (if k' = k then 0 else fetch m k')"
  using del_law [of m k r m'] by (simp add: fetch_law)

end

section \<open>The table meets the contract\<close>

definition int_inv :: "xhash \<Rightarrow> bool" where
  "int_inv h \<longleftrightarrow> xhash_inv h \<and> key_type h = XHASH_KEY_INT"

definition str_inv :: "xhash \<Rightarrow> bool" where
  "str_inv h \<longleftrightarrow> xhash_inv h \<and> key_type h = XHASH_KEY_STR"

definition int_abs :: "xhash \<Rightarrow> u64 \<rightharpoonup> ptr" where
  "int_abs h k = xhash_abs h (KeyInt k)"

definition str_abs :: "xhash \<Rightarrow> bytes \<rightharpoonup> ptr" where
  "str_abs h k = xhash_abs h (KeyStr k)"

lemma key_of_type:
  assumes "xhash_inv h" and "k \<in> dom (xhash_abs h)"
  shows "key_matches (key_type h) k"
proof -
  from assms(2) have "k \<in> fst ` set (buckets h ! xhash_func k (hsize h))"
    by (simp add: xhash_abs_def dom_map_of_conv_image_fst domIff map_of_eq_None_iff)
  with xhash_invD(3) [OF assms(1) xhash_invD(6) [OF assms(1), of k]] show ?thesis
    by (auto simp: bucket_ok_def)
qed

lemma int_abs_dom: "int_inv h \<Longrightarrow> dom (xhash_abs h) = KeyInt ` dom (int_abs h)"
proof -
  assume h: "int_inv h"
  have "\<exists>i. k = KeyInt i" if "k \<in> dom (xhash_abs h)" for k
    using key_of_type [of h k] that h by (cases k) (auto simp: int_inv_def)
  then show ?thesis by (fastforce simp: int_abs_def)
qed

lemma str_abs_dom: "str_inv h \<Longrightarrow> dom (xhash_abs h) = KeyStr ` dom (str_abs h)"
proof -
  assume h: "str_inv h"
  have "\<exists>i. k = KeyStr i" if "k \<in> dom (xhash_abs h)" for k
    using key_of_type [of h k] that h by (cases k) (auto simp: str_inv_def)
  then show ?thesis by (fastforce simp: str_abs_def)
qed

lemma xhash_count_finite:
  assumes "xhash_inv h"
  shows "xhash_size h = card (dom (xhash_abs h)) \<and> finite (dom (xhash_abs h))"
  using all_nodes_length(2) [OF assms] all_nodes_map_of [OF assms] finite_dom_map_of [of "all_nodes h"]
  by (simp add: xhash_size_def)

interpretation ih: map_impl int_inv int_abs xhash_set_int xhash_get_int xhash_remove_int xhash_size
proof unfold_locales
  fix h ok k v r h'
  assume "int_inv h"
  then show "fst (xhash_set_int ok h k v)" if "\<forall>s. ok s"
    using that set_key_total by (simp add: xhash_set_int_key)
  show "int_inv h' \<and> (if r then int_abs h' = (int_abs h)(k \<mapsto> v) else h' = h \<and> int_abs h k = None)"
    if "xhash_set_int ok h k v = (r, h')"
    using set_key_refines [of h "KeyInt k" ok "ok Site_node" _ v r h'] that \<open>int_inv h\<close>
    by (auto simp: xhash_set_int_key int_inv_def int_abs_def fun_eq_iff)
  show "xhash_get_int h k = (case int_abs h k of Some v \<Rightarrow> v | None \<Rightarrow> 0)"
    by (simp add: xhash_get_int_key get_key_def int_abs_def)
  show "int_inv h' \<and> int_abs h' = (int_abs h)(k := None) \<and> r = (k \<in> dom (int_abs h))"
    if "xhash_size h \<le> 2 ^ 31" "xhash_remove_int h k = (r, h')"
    using remove_key_refines [of h "KeyInt k" r h'] that \<open>int_inv h\<close>
    by (auto simp: xhash_remove_int_key int_inv_def int_abs_def xhash_size_def fun_eq_iff)
  show "xhash_size h = card (dom (int_abs h)) \<and> finite (dom (int_abs h))"
    using xhash_count_finite [of h] int_abs_dom [OF \<open>int_inv h\<close>] \<open>int_inv h\<close>
    by (auto simp: int_inv_def card_image inj_on_def finite_image_iff)
qed

interpretation sh: map_impl str_inv str_abs xhash_set_str xhash_get_str xhash_remove_str xhash_size
proof unfold_locales
  fix h ok k v r h'
  assume "str_inv h"
  then show "fst (xhash_set_str ok h k v)" if "\<forall>s. ok s"
    using that set_key_total by (simp add: xhash_set_str_key)
  show "str_inv h' \<and> (if r then str_abs h' = (str_abs h)(k \<mapsto> v) else h' = h \<and> str_abs h k = None)"
    if "xhash_set_str ok h k v = (r, h')"
    using set_key_refines [of h "KeyStr k" ok "ok Site_node \<and> ok Site_key" _ v r h'] that \<open>str_inv h\<close>
    by (auto simp: xhash_set_str_key str_inv_def str_abs_def fun_eq_iff)
  show "xhash_get_str h k = (case str_abs h k of Some v \<Rightarrow> v | None \<Rightarrow> 0)"
    by (simp add: xhash_get_str_key get_key_def str_abs_def)
  show "str_inv h' \<and> str_abs h' = (str_abs h)(k := None) \<and> r = (k \<in> dom (str_abs h))"
    if "xhash_size h \<le> 2 ^ 31" "xhash_remove_str h k = (r, h')"
    using remove_key_refines [of h "KeyStr k" r h'] that \<open>str_inv h\<close>
    by (auto simp: xhash_remove_str_key str_inv_def str_abs_def xhash_size_def fun_eq_iff)
  show "xhash_size h = card (dom (str_abs h)) \<and> finite (dom (str_abs h))"
    using xhash_count_finite [of h] str_abs_dom [OF \<open>str_inv h\<close>] \<open>str_inv h\<close>
    by (auto simp: str_inv_def card_image inj_on_def finite_image_iff)
qed

section \<open>Iteration and destruction\<close>

text \<open>Visiting a list of entries in order, until the callback returns False.\<close>

fun visit_until :: "(xhashKey \<Rightarrow> ptr \<Rightarrow> 'c \<Rightarrow> bool \<times> 'c) \<Rightarrow> (xhashKey \<times> ptr) list \<Rightarrow> 'c \<Rightarrow> bool \<times> 'c" where
  "visit_until cb [] ctx = (True, ctx)"
| "visit_until cb ((k, v) # es) ctx =
     (let (go, ctx') = cb k v ctx in if go then visit_until cb es ctx' else (False, ctx'))"

lemma visit_nodes_until: "visit_nodes cb ns ctx = visit_until cb ns ctx"
  by (induction ns arbitrary: ctx) (auto split: bool.splits prod.splits)

lemma visit_until_append:
  "visit_until cb (xs @ ys) ctx =
     (let (go, ctx') = visit_until cb xs ctx in if go then visit_until cb ys ctx' else (False, ctx'))"
  by (induction cb xs ctx rule: visit_until.induct) (auto split: prod.split)

lemma visit_buckets_until:
  "visit_buckets cb h ix ctx
     = visit_until cb (concat (map (\<lambda>i. buckets h ! (ac_indices (active h) ! i)) ix)) ctx"
  by (induction ix arbitrary: ctx)
     (auto simp: visit_nodes_until visit_until_append split: bool.splits prod.splits)

lemma foreach_all_nodes: "xhash_foreach h cb ctx = visit_until cb (all_nodes h) ctx"
  by (simp add: xhash_foreach_def visit_buckets_until all_nodes_def)

lemma destroy_all_nodes: "xhash_destroy h fv = concat (map (free_node h fv) (all_nodes h))"
proof -
  have "concat (map (\<lambda>i. concat (map f (g i))) ix) = concat (map f (concat (map g ix)))"
    for f :: "xhashNode \<Rightarrow> xhash_freed list" and g :: "nat \<Rightarrow> xhashNode list" and ix
    by (induction ix) auto
  then show ?thesis by (simp add: xhash_destroy_def all_nodes_def)
qed

section \<open>Properties\<close>

text \<open>A small table for the witnesses: two buckets at first, grown by the third insertion.\<close>

definition sample_table :: xhash where
  "sample_table = run_ops xhash_set_int xhash_remove_int
     (the (xhash_create (\<lambda>_. True) 2 XHASH_KEY_INT))
     [MSet 5 7, MSet 9 8, MSet 12 9, MDel 5]"

lemma create_succeeds: "(\<forall>s. ok s) \<Longrightarrow> xhash_create ok sz ty \<noteq> None"
  by (simp add: xhash_create_def xhash_active_init_def Let_def)

lemma create_int_inv:
  "sz \<le> 2 ^ 63 \<Longrightarrow> xhash_create ok sz XHASH_KEY_INT = Some h \<Longrightarrow>
     int_inv h \<and> int_abs h = Map.empty \<and> xhash_size h = 0"
  using create_inv [of sz ok "XHASH_KEY_INT" h] xhash_count_finite [of h] by (auto simp: int_inv_def int_abs_def fun_eq_iff)

lemma create_str_inv:
  "sz \<le> 2 ^ 63 \<Longrightarrow> xhash_create ok sz XHASH_KEY_STR = Some h \<Longrightarrow>
     str_inv h \<and> str_abs h = Map.empty \<and> xhash_size h = 0"
  using create_inv [of sz ok "XHASH_KEY_STR" h] xhash_count_finite [of h] by (auto simp: str_inv_def str_abs_def fun_eq_iff)

lemma sample_table_inv: "int_inv sample_table"
proof -
  obtain h where h: "xhash_create (\<lambda>_. True) 2 XHASH_KEY_INT = Some h"
    using create_succeeds by fastforce
  have "(2::nat) \<le> 2 ^ 63" by simp
  with create_int_inv h have "int_inv h" "xhash_size h = 0" by blast+
  then show ?thesis unfolding sample_table_def h option.sel by (intro ih.run_ops_map [THEN conjunct1]) simp_all
qed

text \<open>Insertion with an integer key (\<open>xhash_set_int\<close>, with the growth it triggers), with
  any pattern of allocation failures: it keeps the representation invariant; it succeeds
  exactly when the key is present or the node can be allocated, and then the table is the old
  map with the key bound; a failed growth loses nothing; a failed insertion changes nothing.\<close>

lemma xhash_set_int_correct:
  assumes "int_inv h" and "xhash_set_int ok h k v = (r, h')"
  shows "int_inv h' \<and> r = (ok Site_node \<or> k \<in> dom (int_abs h))
    \<and> (if r then int_abs h' = (int_abs h)(k \<mapsto> v) else h' = h)"
  using set_key_refines [of h "KeyInt k" ok "ok Site_node" "\<lambda>h. hcount h \<ge> hsize h" v r h'] assms
  by (auto simp: xhash_set_int_key int_inv_def int_abs_def fun_eq_iff domIff)

theorem xhash_set_int_correct_witness:
  "int_inv (snd (xhash_set_int (\<lambda>s. s \<noteq> Site_buckets) sample_table 77 3))
    \<and> int_abs (snd (xhash_set_int (\<lambda>s. s \<noteq> Site_buckets) sample_table 77 3)) 77 = Some 3"
proof -
  obtain r h' where r: "xhash_set_int (\<lambda>s. s \<noteq> Site_buckets) sample_table 77 3 = (r, h')"
    by fastforce
  from xhash_set_int_correct [OF sample_table_inv r] show ?thesis by (auto simp: r)
qed

text \<open>C2. Any run of insertions and removals on a fresh table with integer keys behaves as on a
  finite map: every later lookup returns the value last bound to its key, or NULL if there is
  none, and the reported size is the number of keys bound. The allocations of the run succeed
  (C3 has runs with failures), and it has at most \<open>2 ^ 31\<close> operations, so that the positions the tracker
  stores as \<open>int\<close> do not wrap.\<close>

theorem xhash_int_run_is_map:
  assumes "sz \<le> 2 ^ 63" and "xhash_create ok sz XHASH_KEY_INT = Some h" and "length ops \<le> 2 ^ 31"
  shows "xhash_get_int (run_ops xhash_set_int xhash_remove_int h ops) k
           = (case map_ops Map.empty ops k of Some v \<Rightarrow> v | None \<Rightarrow> 0)
       \<and> xhash_size (run_ops xhash_set_int xhash_remove_int h ops)
           = card (dom (map_ops Map.empty ops))"
  using ih.run_ops_fetch [of h ops k] ih.run_ops_entries [of h ops] create_int_inv [OF assms(1,2)] assms(3) by simp

theorem xhash_int_run_is_map_witness:
  "xhash_get_int sample_table 12 = 9 \<and> xhash_get_int sample_table 5 = 0"
proof -
  obtain h where h: "xhash_create (\<lambda>_. True) 2 XHASH_KEY_INT = Some h"
    using create_succeeds by fastforce
  from xhash_int_run_is_map [OF _ h, of "[MSet 5 7, MSet 9 8, MSet 12 9, MDel 5]"]
  show ?thesis unfolding sample_table_def h option.sel by simp
qed

text \<open>The same for string keys (\<open>xhash_set_str\<close>, \<open>xhash_get_str\<close>, \<open>xhash_remove_str\<close>).\<close>

lemma xhash_str_run_is_map:
  assumes "sz \<le> 2 ^ 63" and "xhash_create ok sz XHASH_KEY_STR = Some h" and "length ops \<le> 2 ^ 31"
  shows "xhash_get_str (run_ops xhash_set_str xhash_remove_str h ops) k
           = (case map_ops Map.empty ops k of Some v \<Rightarrow> v | None \<Rightarrow> 0)
       \<and> xhash_size (run_ops xhash_set_str xhash_remove_str h ops)
           = card (dom (map_ops Map.empty ops))"
  using sh.run_ops_fetch [of h ops k] sh.run_ops_entries [of h ops] create_str_inv [OF assms(1,2)] assms(3) by simp

theorem xhash_str_run_is_map_witness:
  "\<exists>h. xhash_create (\<lambda>_. True) 2 XHASH_KEY_STR = Some h
     \<and> xhash_get_str (run_ops xhash_set_str xhash_remove_str h
          [MSet [97, 98] 7, MSet [] 4, MSet [97, 98] 8]) [97, 98] = 8"
proof -
  obtain h where h: "xhash_create (\<lambda>_. True) 2 XHASH_KEY_STR = Some h"
    using create_succeeds by fastforce
  from xhash_str_run_is_map [OF _ h, of "[MSet [97, 98] 7, MSet [] 4, MSet [97, 98] 8]"] h
  show ?thesis by simp
qed

text \<open>Runs of calls with a failure pattern of their own each, on a table of either key type, and what
  they mean on a map: an insertion takes place when its key is bound or its node (and its copy of the
  string key) can be allocated.\<close>

datatype xhash_call = Call_set "xhash_site \<Rightarrow> bool" xhashKey ptr | Call_remove xhashKey

fun call_key :: "xhash_call \<Rightarrow> xhashKey" where
  "call_key (Call_set ok k v) = k"
| "call_key (Call_remove k) = k"

fun do_call :: "xhash \<Rightarrow> xhash_call \<Rightarrow> xhash" where
  "do_call h (Call_set ok (KeyInt k) v) = snd (xhash_set_int ok h k v)"
| "do_call h (Call_set ok (KeyStr k) v) = snd (xhash_set_str ok h k v)"
| "do_call h (Call_remove (KeyInt k)) = snd (xhash_remove_int h k)"
| "do_call h (Call_remove (KeyStr k)) = snd (xhash_remove_str h k)"

fun key_alloc :: "(xhash_site \<Rightarrow> bool) \<Rightarrow> xhashKey \<Rightarrow> bool" where
  "key_alloc ok (KeyInt k) = ok Site_node"
| "key_alloc ok (KeyStr k) = (ok Site_node \<and> ok Site_key)"

fun map_call :: "(xhashKey \<rightharpoonup> ptr) \<Rightarrow> xhash_call \<Rightarrow> xhashKey \<rightharpoonup> ptr" where
  "map_call m (Call_set ok k v) = (if m k \<noteq> None \<or> key_alloc ok k then m(k \<mapsto> v) else m)"
| "map_call m (Call_remove k) = m(k := None)"

lemma do_call_set:
  "\<exists>full. do_call h (Call_set ok k v) = snd (set_key ok (key_alloc ok k) full h k v)"
proof (cases k)
  case (KeyInt i)
  show ?thesis unfolding KeyInt do_call.simps key_alloc.simps xhash_set_int_key by (rule exI, rule refl)
next
  case (KeyStr i)
  show ?thesis unfolding KeyStr do_call.simps key_alloc.simps xhash_set_str_key by (rule exI, rule refl)
qed

lemma do_call_remove: "do_call h (Call_remove k) = snd (remove_key h k)"
  by (cases k) (simp_all add: xhash_remove_int_key xhash_remove_str_key)

lemma do_call_map:
  assumes "xhash_inv h" and "hcount h \<le> 2 ^ 31" and "key_matches (key_type h) (call_key c)"
  shows "xhash_inv (do_call h c) \<and> xhash_abs (do_call h c) = map_call (xhash_abs h) c
    \<and> key_type (do_call h c) = key_type h \<and> hcount (do_call h c) \<le> hcount h + 1"
proof -
  have "xhash_inv (do_call h c) \<and> xhash_abs (do_call h c) = map_call (xhash_abs h) c
    \<and> key_type (do_call h c) = key_type h"
  proof (cases c)
    case (Call_set ok k v)
    obtain full where f: "do_call h c = snd (set_key ok (key_alloc ok k) full h k v)"
      using do_call_set Call_set by blast
    obtain r h' where e: "set_key ok (key_alloc ok k) full h k v = (r, h')" by fastforce
    have d: "do_call h c = h'" by (simp only: f e snd_conv)
    have "key_matches (key_type h) k" using assms(3) Call_set by simp
    note S = set_key_refines [OF assms(1) this e]
    have "r = (xhash_abs h k \<noteq> None \<or> key_alloc ok k)" using S by auto
    with S have "xhash_inv h' \<and> xhash_abs h' = map_call (xhash_abs h) (Call_set ok k v) \<and> key_type h' = key_type h"
      unfolding map_call.simps by presburger
    then show ?thesis unfolding d using Call_set by (simp only:)
  next
    case (Call_remove k)
    obtain r h' where e: "remove_key h k = (r, h')" by fastforce
    from remove_key_refines [OF assms(1) e assms(2)] show ?thesis
      by (simp only: Call_remove do_call_remove e snd_conv map_call.simps)
  qed
  moreover have "card (dom (map_call (xhash_abs h) c)) \<le> card (dom (xhash_abs h)) + 1"
    using xhash_count_finite [OF assms(1)] by (cases c) (auto simp: card_insert_if intro: card_mono le_SucI)
  ultimately show ?thesis using all_nodes_length(2) [OF assms(1)] all_nodes_length(2) [of "do_call h c"] by simp
qed

lemma do_calls_map:
  assumes "xhash_inv h" and "hcount h + length cs \<le> 2 ^ 31" and "\<forall>c \<in> set cs. key_matches (key_type h) (call_key c)"
  shows "xhash_inv (foldl do_call h cs) \<and> xhash_abs (foldl do_call h cs) = foldl map_call (xhash_abs h) cs"
  using assms
proof (induction cs arbitrary: h)
  case (Cons c cs)
  from Cons.prems have "hcount h \<le> 2 ^ 31" "key_matches (key_type h) (call_key c)" by simp_all
  note S = do_call_map [OF Cons.prems(1) this]
  have "hcount (do_call h c) + length cs \<le> 2 ^ 31" using S Cons.prems(2) by simp
  with Cons.IH [of "do_call h c"] S Cons.prems(3) show ?case by simp
qed simp

text \<open>C3. The tracker of non-empty buckets stays exact. After any run of insertions (whatever allocations
  fail) and removals on a fresh table, of either key type, iteration visits every entry of the map the run
  built exactly once, in one order, stopping when the callback says so; and destruction frees the node, the
  string key and (on request) the value of each entry exactly once, in that order. The run has at most
  \<open>2 ^ 31\<close> calls, so that the positions the tracker stores as \<open>int\<close> do not wrap; the callback does not change
  the table.\<close>

theorem xhash_foreach_destroy_exact:
  assumes "sz \<le> 2 ^ 63" and "xhash_create ok sz ty = Some h0"
    and "\<forall>c \<in> set cs. key_matches ty (call_key c)" and "length cs \<le> 2 ^ 31" and "h = foldl do_call h0 cs"
  shows "\<exists>es. map_of es = foldl map_call Map.empty cs \<and> distinct (map fst es) \<and> length es = xhash_size h
    \<and> (\<forall>cb ctx. xhash_foreach h cb ctx = visit_until cb es ctx)
    \<and> (\<forall>fv. xhash_destroy h fv = concat (map (free_node h fv) es))"
proof -
  note C = create_inv [OF assms(1,2)]
  then have "hcount h0 = 0" using all_nodes_length(2) [of h0] by simp
  with do_calls_map [of h0 cs] C assms(3-5)
  have h: "xhash_inv h" "xhash_abs h = foldl map_call Map.empty cs" by simp_all
  show ?thesis
    by (intro exI [of _ "all_nodes h"] conjI allI)
      (simp_all add: all_nodes_map_of [OF h(1)] h(2) all_nodes_distinct [OF h(1)] foreach_all_nodes destroy_all_nodes
        all_nodes_length(1) [OF h(1)] xhash_size_def)
qed

theorem xhash_foreach_destroy_exact_witness:
  "\<exists>h es. map_of es = [KeyInt 9 \<mapsto> 8, KeyInt 12 \<mapsto> 9] \<and> distinct (map fst es) \<and> length es = xhash_size h
    \<and> xhash_destroy h False = concat (map (free_node h False) es)"
proof -
  let ?cs = "[Call_set (\<lambda>_. True) (KeyInt 5) 7, Call_set (\<lambda>_. True) (KeyInt 9) 8, Call_set (\<lambda>_. False) (KeyInt 3) 1,
    Call_set (\<lambda>_. True) (KeyInt 12) 9, Call_remove (KeyInt 5)]"
  obtain h0 where h0: "xhash_create (\<lambda>_. True) 2 XHASH_KEY_INT = Some h0"
    using create_succeeds by fastforce
  have "foldl map_call Map.empty ?cs = [KeyInt 9 \<mapsto> 8, KeyInt 12 \<mapsto> 9]" by (auto simp: fun_eq_iff)
  with xhash_foreach_destroy_exact [OF _ h0, of ?cs "foldl do_call h0 ?cs"] show ?thesis by fastforce
qed

end
