(* ===== verification/XTimer.thy ===== *)
theory XTimer
  imports XPrelude
begin

text \<open>
  The hierarchical timing wheel of \<open>xtimer.c\<close>: five wheels of doubly linked slot lists, a node
  pool with a free list, creation, cancellation and polling. A circular list with its head is
  the list of the addresses linked in it, first node first; \<open>nodes\<close> is the memory of the
  \<open>xTimerNode\<close>s, with None for an address that is not allocated. The clock reading of a poll
  is an argument. Timer ids are \<open>int\<close>s that wrap after $2^{32}$ creations; to tell timers apart in
  specifications \<open>created\<close> counts the creations without bound, from 1, and \<open>serial\<close> is a node's number in
  that count. Times are natural numbers: \<open>xtimer_create\<close> keeps every expiry below $2^{63}$
  while the clock is, so the 64-bit sums do not wrap. \<open>events\<close>, \<open>created\<close> and \<open>serial\<close> are history variables, no
  operation depends on them.

  A callback may call \<open>xtimer_add\<close> and \<open>xtimer_del\<close> (not \<open>xtimer_update\<close>): it is a function
  \<open>prog\<close> that says, from the callback pointer, its argument and the state it runs in, which
  calls it makes.
\<close>

section \<open>Data\<close>

definition TVN_BITS :: nat where "TVN_BITS = 6"
definition TVR_BITS :: nat where "TVR_BITS = 8"
definition TVN_SIZE :: nat where "TVN_SIZE = 64"
definition TVR_SIZE :: nat where "TVR_SIZE = 256"
definition XTIMER_WHEEL_MAX_DELTA :: nat where "XTIMER_WHEEL_MAX_DELTA = 0x7FFFFFFF"
definition XTIMER_MAX_INTERVAL :: int where "XTIMER_MAX_INTERVAL = 0x7FFFFFFFFFFFFFFF"
definition TIMER_POISON_ID :: u32 where "TIMER_POISON_ID = 0xDEADBEEF"
definition XTIMER_MIN_CAP :: int where "XTIMER_MIN_CAP = 16"
definition XTIMER_DEFAULT_CAP :: int where "XTIMER_DEFAULT_CAP = 100"
definition XTIMER_FREELIST_MUL :: int where "XTIMER_FREELIST_MUL = 2"
definition XTIMER_PREALLOC_COUNT :: nat where "XTIMER_PREALLOC_COUNT = 10000"

lemmas timer_consts = TVN_BITS_def TVR_BITS_def TVN_SIZE_def TVR_SIZE_def
  XTIMER_WHEEL_MAX_DELTA_def

datatype timer_status = TIMER_FREE | TIMER_PENDING | TIMER_RUNNING

record xTimerNode =
  expire :: nat
  tid :: u32
  callback :: nat
  user_data :: nat
  repeat_num :: int
  repeat_interval :: int
  cancelled :: bool
  firing :: bool
  in_free_list :: bool
  slot :: nat
  level :: nat
  status :: timer_status
  serial :: int

datatype timer_event =
    TFired int nat nat     \<comment> \<open>serial number, expiry and clock of a callback run\<close>
  | TCancelled int
  | TRefused int           \<comment> \<open>number taken, but the node could not be allocated\<close>

record xTimerSet =
  current_jiffies :: nat
  tv :: "nat \<Rightarrow> nat \<Rightarrow> addr list"   \<comment> \<open>level 0 to 4 is \<open>tv1\<close> to \<open>tv5\<close>\<close>
  next_timer_id :: u32
  current_time :: nat
  free_list :: "addr list"
  free_count :: int
  free_limit :: int
  active_count :: int
  nodes :: "addr \<Rightarrow> xTimerNode option"
  m_next :: addr               \<comment> \<open>malloc: the n-th call returns address n\<close>
  m_oom :: "addr \<Rightarrow> bool"      \<comment> \<open>or NULL\<close>
  events :: "timer_event list"
  created :: int

datatype timer_call =
    CallAdd int nat nat int   \<comment> \<open>\<open>xtimer_add interval callback ud repeat\<close>\<close>
  | CallDel addr

section \<open>Nodes\<close>

definition upd_node :: "addr \<Rightarrow> (xTimerNode \<Rightarrow> xTimerNode) \<Rightarrow> xTimerSet \<Rightarrow> xTimerSet" where
  "upd_node a f tm = tm\<lparr>nodes := (nodes tm)(a := map_option f (nodes tm a))\<rparr>"

definition log_event :: "timer_event \<Rightarrow> xTimerSet \<Rightarrow> xTimerSet" where
  "log_event e tm = tm\<lparr>events := events tm @ [e]\<rparr>"

definition xtimer_add_head :: "nat \<Rightarrow> nat \<Rightarrow> addr \<Rightarrow> xTimerSet \<Rightarrow> xTimerSet" where
  "xtimer_add_head lv sl a tm = tm\<lparr>tv := (tv tm)(lv := (tv tm lv)(sl := a # tv tm lv sl))\<rparr>"

definition set_slot :: "nat \<Rightarrow> nat \<Rightarrow> addr list \<Rightarrow> xTimerSet \<Rightarrow> xTimerSet" where
  "set_slot lv sl as tm = tm\<lparr>tv := (tv tm)(lv := (tv tm lv)(sl := as))\<rparr>"

text \<open>Unlinking a node from the slot list it is in.\<close>

definition xtimer_remove :: "addr \<Rightarrow> xTimerNode \<Rightarrow> xTimerSet \<Rightarrow> xTimerSet" where
  "xtimer_remove a n tm = set_slot (level n) (slot n) (remove1 a (tv tm (level n) (slot n))) tm"

text \<open>The level and slot of an expiry.\<close>

definition xtimer_calc_slot :: "nat \<Rightarrow> nat \<Rightarrow> nat \<times> nat" where
  "xtimer_calc_slot j ex =
     (let delta = (if ex \<le> j then 0 else ex - j);
          delta = (if delta > XTIMER_WHEEL_MAX_DELTA then XTIMER_WHEEL_MAX_DELTA else delta)
      in if delta < TVR_SIZE then (0, (j + delta) AND (TVR_SIZE - 1))
         else if delta < push_bit (TVR_BITS + TVN_BITS) 1
           then (1, drop_bit TVR_BITS (j + delta) AND (TVN_SIZE - 1))
         else if delta < push_bit (TVR_BITS + 2 * TVN_BITS) 1
           then (2, drop_bit (TVR_BITS + TVN_BITS) (j + delta) AND (TVN_SIZE - 1))
         else if delta < push_bit (TVR_BITS + 3 * TVN_BITS) 1
           then (3, drop_bit (TVR_BITS + 2 * TVN_BITS) (j + delta) AND (TVN_SIZE - 1))
         else (4, drop_bit (TVR_BITS + 3 * TVN_BITS) (j + delta) AND (TVN_SIZE - 1)))"

definition xtimer_insert :: "addr \<Rightarrow> xTimerSet \<Rightarrow> xTimerSet" where
  "xtimer_insert a tm =
     (case nodes tm a of
        None \<Rightarrow> tm
      | Some n \<Rightarrow>
          let (lv, sl) = xtimer_calc_slot (current_jiffies tm) (expire n);
              tm = xtimer_add_head lv sl a tm;
              tm = upd_node a (\<lambda>n. n\<lparr>slot := sl, level := lv, status := TIMER_PENDING\<rparr>) tm
          in tm\<lparr>active_count := active_count tm + 1\<rparr>)"

text \<open>Moving a slot list to a temporary list and inserting its nodes again.\<close>

definition xtimer_cascade :: "nat \<Rightarrow> nat \<Rightarrow> xTimerSet \<Rightarrow> xTimerSet" where
  "xtimer_cascade lv sl tm =
     fold (\<lambda>a tm. xtimer_insert a (tm\<lparr>active_count := active_count tm - 1\<rparr>))
       (tv tm lv sl) (set_slot lv sl [] tm)"

section \<open>Allocation and the free list\<close>

text \<open>A preallocated node: the fields the code leaves uninitialised are given values here,
  none of them is read before \<open>xtimer_node_new\<close> sets it.\<close>

definition blank_node :: xTimerNode where
  "blank_node = \<lparr>expire = 0, tid = TIMER_POISON_ID, callback = 0, user_data = 0, repeat_num = 0,
     repeat_interval = 0, cancelled = False, firing = False, in_free_list = True, slot = 0,
     level = 0, status = TIMER_FREE, serial = 0\<rparr>"

fun xtimer_prealloc_nodes :: "nat \<Rightarrow> xTimerSet \<Rightarrow> xTimerSet" where
  "xtimer_prealloc_nodes cnt tm =
     (if cnt = 0 then tm
      else if m_oom tm (m_next tm) then tm\<lparr>m_next := m_next tm + 1\<rparr>
      else xtimer_prealloc_nodes (cnt - 1)
             (tm\<lparr>nodes := (nodes tm)(m_next tm \<mapsto> blank_node),
                 m_next := m_next tm + 1,
                 free_list := m_next tm # free_list tm,
                 free_count := free_count tm + 1\<rparr>))"

declare xtimer_prealloc_nodes.simps [simp del]

definition xtimer_node_alloc :: "xTimerSet \<Rightarrow> addr option \<times> xTimerSet" where
  "xtimer_node_alloc tm =
     (case free_list tm of
        a # as \<Rightarrow> (Some a, upd_node a (\<lambda>n. n\<lparr>in_free_list := False\<rparr>)
                    (tm\<lparr>free_list := as, free_count := free_count tm - 1\<rparr>))
      | [] \<Rightarrow> if m_oom tm (m_next tm) then (None, tm\<lparr>m_next := m_next tm + 1\<rparr>)
              else (Some (m_next tm), tm\<lparr>nodes := (nodes tm)(m_next tm \<mapsto> blank_node),
                                          m_next := m_next tm + 1\<rparr>))"

definition xtimer_node_release :: "addr \<Rightarrow> xTimerSet \<Rightarrow> xTimerSet" where
  "xtimer_node_release a tm =
     (case nodes tm a of
        None \<Rightarrow> tm
      | Some n \<Rightarrow>
          if in_free_list n then tm
          else if free_count tm \<ge> free_limit tm then tm\<lparr>nodes := (nodes tm)(a := None)\<rparr>
          else (upd_node a (\<lambda>n. n\<lparr>expire := 0, tid := TIMER_POISON_ID, callback := 0,
                  user_data := 0, repeat_num := 0, repeat_interval := 0, cancelled := True,
                  firing := False, in_free_list := True, slot := 0, level := 0,
                  status := TIMER_FREE\<rparr>) tm)
                \<lparr>free_list := a # free_list tm, free_count := free_count tm + 1\<rparr>)"

definition xtimer_node_new ::
  "u32 \<Rightarrow> nat \<Rightarrow> int \<Rightarrow> nat \<Rightarrow> nat \<Rightarrow> int \<Rightarrow> xTimerSet \<Rightarrow> addr option \<times> xTimerSet" where
  "xtimer_node_new ident timeout interval_ms cb ud rep tm =
     (case xtimer_node_alloc tm of
        (None, tm) \<Rightarrow> (None, tm)
      | (Some a, tm) \<Rightarrow>
          (Some a, tm\<lparr>nodes := (nodes tm)(a \<mapsto>
             \<lparr>expire = timeout, tid = ident, callback = cb, user_data = ud, repeat_num = rep,
              repeat_interval = interval_ms, cancelled = False, firing = False,
              in_free_list = False, slot = 0, level = 0, status = TIMER_FREE,
              serial = created tm - 1\<rparr>)\<rparr>))"

section \<open>Creation and cancellation\<close>

definition xtimer_create ::
  "int \<Rightarrow> nat \<Rightarrow> nat \<Rightarrow> int \<Rightarrow> xTimerSet \<Rightarrow> addr option \<times> xTimerSet" where
  "xtimer_create interval_ms cb ud rep tm =
     (let interval_ms = (if interval_ms < 0 then 0 else interval_ms)
      in if interval_ms > XTIMER_MAX_INTERVAL - int (current_time tm) then (None, tm)
         else let rep = (if rep = -1 then int INT_MAX else if rep < 1 then 1 else rep);
                  timeout = current_time tm + nat interval_ms;
                  ident = next_timer_id tm
              in case xtimer_node_new ident timeout interval_ms cb ud rep
                        (tm\<lparr>next_timer_id := ident + 1, created := created tm + 1\<rparr>) of
                   (None, tm) \<Rightarrow> (None, log_event (TRefused (created tm - 1)) tm)
                 | (Some a, tm) \<Rightarrow> (Some a, xtimer_insert a tm))"

text \<open>A handle whose node went back to \<open>malloc\<close> is outside the contract of \<open>xtimer_del\<close>; the
  model leaves the state alone then.\<close>

definition xtimer_destroy :: "addr \<Rightarrow> xTimerSet \<Rightarrow> xTimerSet" where
  "xtimer_destroy a tm =
     (case nodes tm a of
        None \<Rightarrow> tm
      | Some n \<Rightarrow>
          if in_free_list n \<or> cancelled n \<or> tid n = TIMER_POISON_ID then tm
          else let tm = upd_node a (\<lambda>n. n\<lparr>cancelled := True, callback := 0, user_data := 0\<rparr>) tm;
                   tm = log_event (TCancelled (serial n)) tm
               in if status n = TIMER_PENDING
                  then let tm = xtimer_remove a n tm;
                           tm = upd_node a (\<lambda>n. n\<lparr>status := TIMER_FREE\<rparr>) tm;
                           tm = tm\<lparr>active_count := active_count tm - 1\<rparr>
                       in xtimer_node_release a tm
                  else tm)"

fun do_timer_call :: "timer_call \<Rightarrow> xTimerSet \<Rightarrow> xTimerSet" where
  "do_timer_call (CallAdd iv cb ud rep) tm = snd (xtimer_create iv cb ud rep tm)"
| "do_timer_call (CallDel a) tm = xtimer_destroy a tm"

section \<open>Polling\<close>

type_synonym timer_prog = "nat \<Rightarrow> nat \<Rightarrow> xTimerSet \<Rightarrow> timer_call list"

text \<open>The cascades of a tick.\<close>

definition tick_cascade :: "xTimerSet \<Rightarrow> xTimerSet" where
  "tick_cascade tm =
     (let j = current_jiffies tm;
          sl = j AND (TVR_SIZE - 1);
          idx1 = drop_bit TVR_BITS j AND (TVN_SIZE - 1);
          idx2 = drop_bit (TVR_BITS + TVN_BITS) j AND (TVN_SIZE - 1);
          idx3 = drop_bit (TVR_BITS + 2 * TVN_BITS) j AND (TVN_SIZE - 1);
          idx4 = drop_bit (TVR_BITS + 3 * TVN_BITS) j AND (TVN_SIZE - 1)
      in if sl = 0
         then let tm = (if idx1 = 0
                   then let tm = (if idx2 = 0
                            then let tm = (if idx3 = 0 then xtimer_cascade 4 idx4 tm else tm)
                                 in xtimer_cascade 3 idx3 tm
                            else tm)
                        in xtimer_cascade 2 idx2 tm
                   else tm)
              in xtimer_cascade 1 idx1 tm
         else tm)"

text \<open>The callback of a node, with the events it stands for.\<close>

definition run_callback :: "timer_prog \<Rightarrow> xTimerNode \<Rightarrow> xTimerSet \<Rightarrow> xTimerSet" where
  "run_callback prog n tm =
     (if \<not> cancelled n \<and> callback n \<noteq> 0
      then fold do_timer_call (prog (callback n) (user_data n) tm) tm
      else tm)"

text \<open>What happens to a node after its callback.\<close>

definition finish_node :: "addr \<Rightarrow> xTimerSet \<Rightarrow> xTimerSet" where
  "finish_node a tm =
     (case nodes tm a of
        None \<Rightarrow> tm
      | Some n \<Rightarrow>
          if cancelled n then xtimer_node_release a tm
          else if repeat_num n > 0 \<and> repeat_interval n \<ge> 0
          then let tm = upd_node a (\<lambda>n. n\<lparr>repeat_num := repeat_num n - 1\<rparr>) tm
               in if repeat_num n - 1 > 0
                  then xtimer_insert a
                         (upd_node a (\<lambda>n. n\<lparr>expire := expire n + nat (repeat_interval n)\<rparr>) tm)
                  else xtimer_node_release a tm
          else xtimer_node_release a tm)"

definition process_node :: "timer_prog \<Rightarrow> addr \<Rightarrow> xTimerSet \<Rightarrow> xTimerSet" where
  "process_node prog a tm =
     (case nodes tm a of
        None \<Rightarrow> tm
      | Some n \<Rightarrow>
          let tm = tm\<lparr>active_count := active_count tm - 1\<rparr>
          in if \<not> cancelled n \<and> expire n > current_time tm then xtimer_insert a tm
             else let tm = upd_node a (\<lambda>n. n\<lparr>firing := True\<rparr>) tm;
                      tm = (if cancelled n then tm
                            else log_event (TFired (serial n) (expire n) (current_time tm)) tm);
                      tm = run_callback prog n tm;
                      tm = upd_node a (\<lambda>n. n\<lparr>firing := False\<rparr>) tm
                  in finish_node a tm)"

definition xtimer_tick :: "timer_prog \<Rightarrow> xTimerSet \<Rightarrow> xTimerSet" where
  "xtimer_tick prog tm =
     (let sl = current_jiffies tm AND (TVR_SIZE - 1);
          tm = tick_cascade tm;
          temp_list = tv tm 0 sl;
          tm = set_slot 0 sl [] tm;
          tm = fold (\<lambda>a. upd_node a (\<lambda>n. n\<lparr>status := TIMER_RUNNING\<rparr>)) temp_list tm;
          tm = fold (process_node prog) temp_list tm
      in tm\<lparr>current_jiffies := current_jiffies tm + 1\<rparr>)"

text \<open>The loop that advances the wheel. Every round adds one to \<open>current_jiffies\<close>, so
  \<open>current_time - current_jiffies\<close> rounds are enough.\<close>

primrec xtimer_advance :: "timer_prog \<Rightarrow> nat \<Rightarrow> xTimerSet \<Rightarrow> xTimerSet" where
  "xtimer_advance prog 0 tm = tm"
| "xtimer_advance prog (Suc fuel) tm =
     (if current_jiffies tm < current_time tm then xtimer_advance prog fuel (xtimer_tick prog tm)
      else tm)"

text \<open>The first non-empty slot of the first wheel, from the current one on.\<close>

definition scan_slots :: "xTimerSet \<Rightarrow> nat option" where
  "scan_slots tm =
     (let current_slot = current_jiffies tm AND (TVR_SIZE - 1)
      in find (\<lambda>i. let check_slot = current_slot + i;
                       check_slot = (if check_slot \<ge> TVR_SIZE then check_slot - TVR_SIZE else check_slot)
                   in tv tm 0 check_slot \<noteq> [])
           [0..<TVR_SIZE])"

definition xtimer_poll :: "timer_prog \<Rightarrow> nat \<Rightarrow> xTimerSet \<Rightarrow> nat \<times> xTimerSet" where
  "xtimer_poll prog now tm =
     (let tm = tm\<lparr>current_time := now\<rparr>;
          next_timeout = TVR_SIZE - 1
      in if current_time tm < current_jiffies tm
         then (next_timeout, tm\<lparr>current_jiffies := current_time tm\<rparr>)
         else let tm = xtimer_advance prog (current_time tm - current_jiffies tm) tm
              in (case scan_slots tm of Some i \<Rightarrow> i | None \<Rightarrow> next_timeout, tm))"

section \<open>The pool and the thread-local interface\<close>

definition xtimer_pool_create :: "int \<Rightarrow> nat \<Rightarrow> (addr \<Rightarrow> bool) \<Rightarrow> xTimerSet option" where
  "xtimer_pool_create cap now oom =
     (let cap = (if cap < XTIMER_MIN_CAP then XTIMER_MIN_CAP else cap)
      in if oom 0 then None
         else let limit = cap * XTIMER_FREELIST_MUL;
                  limit = (if limit < int XTIMER_PREALLOC_COUNT then int XTIMER_PREALLOC_COUNT
                           else limit)
              in Some (xtimer_prealloc_nodes XTIMER_PREALLOC_COUNT
                   \<lparr>current_jiffies = now, tv = (\<lambda>_ _. []), next_timer_id = 1,
                    current_time = now, free_list = [], free_count = 0, free_limit = limit,
                    active_count = 0, nodes = (\<lambda>_. None), m_next = 1, m_oom = oom,
                    events = [], created = 1\<rparr>))"

text \<open>The addresses \<open>xtimer_pool_destroy\<close> frees, in order: the nodes of every slot, then the
  free list.\<close>

definition xtimer_pool_destroy :: "xTimerSet \<Rightarrow> addr list" where
  "xtimer_pool_destroy tm =
     concat (map (\<lambda>i. tv tm 0 i) [0..<TVR_SIZE])
     @ concat (map (\<lambda>lv. concat (map (\<lambda>i. tv tm lv i) [0..<TVN_SIZE])) [1..<5])
     @ free_list tm"

definition xtimer_init :: "int \<Rightarrow> nat \<Rightarrow> (addr \<Rightarrow> bool) \<Rightarrow> xTimerSet option \<Rightarrow> xTimerSet option" where
  "xtimer_init cap now oom cur =
     (case cur of None \<Rightarrow> xtimer_pool_create cap now oom | Some tm \<Rightarrow> Some tm)"

definition xtimer_uninit :: "xTimerSet option \<Rightarrow> addr list \<times> xTimerSet option" where
  "xtimer_uninit cur = (case cur of None \<Rightarrow> ([], None) | Some tm \<Rightarrow> (xtimer_pool_destroy tm, None))"

definition xtimer_inited :: "xTimerSet option \<Rightarrow> bool" where
  "xtimer_inited cur \<longleftrightarrow> cur \<noteq> None"

definition xtimer_count :: "xTimerSet option \<Rightarrow> int" where
  "xtimer_count cur = (case cur of None \<Rightarrow> 0 | Some tm \<Rightarrow> active_count tm)"

definition xtimer_update :: "timer_prog \<Rightarrow> nat \<Rightarrow> xTimerSet option \<Rightarrow> nat \<times> xTimerSet option" where
  "xtimer_update prog now cur =
     (case cur of None \<Rightarrow> (0, None)
      | Some tm \<Rightarrow> let (r, tm) = xtimer_poll prog now tm in (r, Some tm))"

definition xtimer_last :: "xTimerSet option \<Rightarrow> int" where
  "xtimer_last cur =
     (case cur of None \<Rightarrow> -1
      | Some tm \<Rightarrow> (case scan_slots tm of Some i \<Rightarrow> int i | None \<Rightarrow> -1))"

definition xtimer_add ::
  "int \<Rightarrow> nat \<Rightarrow> nat \<Rightarrow> int \<Rightarrow> nat \<Rightarrow> (addr \<Rightarrow> bool) \<Rightarrow> xTimerSet option
     \<Rightarrow> addr option \<times> xTimerSet option" where
  "xtimer_add iv cb ud rep now oom cur =
     (let cur = (case cur of None \<Rightarrow> xtimer_pool_create XTIMER_DEFAULT_CAP now oom
                 | Some tm \<Rightarrow> Some tm)
      in case cur of None \<Rightarrow> (None, None)
         | Some tm \<Rightarrow> let (h, tm) = xtimer_create iv cb ud rep tm in (h, Some tm))"

definition xtimer_del :: "addr \<Rightarrow> xTimerSet option \<Rightarrow> xTimerSet option" where
  "xtimer_del h cur =
     (if h = 0 then cur else map_option (xtimer_destroy h) cur)"

end
