(* ===== verification/XTimerInv.thy ===== *)
theory XTimerInv
  imports XTimer
begin

text \<open>
  The invariant of the timing wheel and its preservation by insertion, release, creation and
  cancellation. A pending node is linked in exactly the slot it records, the slot will be
  processed at a tick \<open>q * unit\<close> within one revolution of its wheel, and that tick is not later
  than the expiry. Nodes a running operation holds outside every list form the set \<open>X\<close>; of the
  live nodes \<open>k\<close> are not counted at that moment.
\<close>

section \<open>Where a slot computation puts an expiry\<close>

definition wheel_unit :: "nat \<Rightarrow> nat" where
  "wheel_unit lv = (if lv = 0 then 1 else if lv = 1 then 256 else if lv = 2 then 16384
                    else if lv = 3 then 1048576 else 67108864)"

definition wheel_slots :: "nat \<Rightarrow> nat" where
  "wheel_slots lv = (if lv = 0 then 256 else 64)"

lemma and_255: "n AND 255 = n mod (256 :: nat)"
  using take_bit_eq_mask [of 8 n] by (simp add: take_bit_eq_mod mask_eq_exp_minus_1)

lemma and_63: "n AND 63 = n mod (64 :: nat)"
  using take_bit_eq_mask [of 6 n] by (simp add: take_bit_eq_mod mask_eq_exp_minus_1)

lemma multiple_below: "0 < u \<Longrightarrow> t div u * u \<le> t \<and> t < t div u * u + (u :: nat)"
  by (metis add.commute add_less_cancel_left div_times_less_eq_dividend mod_div_mult_eq mod_less_divisor)

lemma calc_slot_cases:
  assumes "xtimer_calc_slot j ex = (lv, sl)"
  defines "d \<equiv> min (ex - j) XTIMER_WHEEL_MAX_DELTA"
  shows "lv < 5 \<and> sl = (j + d) div wheel_unit lv mod wheel_slots lv
    \<and> (lv = 0 \<or> wheel_unit lv \<le> d) \<and> d < wheel_unit lv * wheel_slots lv"
proof -
  have d: "d = (let delta = (if ex \<le> j then 0 else ex - j)
                in if delta > XTIMER_WHEEL_MAX_DELTA then XTIMER_WHEEL_MAX_DELTA else delta)"
    by (simp add: d_def Let_def)
  have "xtimer_calc_slot j ex =
    (if d < 256 then (0, (j + d) mod 256)
     else if d < 16384 then (1, (j + d) div 256 mod 64)
     else if d < 1048576 then (2, (j + d) div 16384 mod 64)
     else if d < 67108864 then (3, (j + d) div 1048576 mod 64)
     else (4, (j + d) div 67108864 mod 64))"
    unfolding xtimer_calc_slot_def d
    by (simp add: Let_def timer_consts and_255 and_63 push_bit_eq_mult drop_bit_eq_div)
  moreover have "d < 67108864 * 64" by (simp add: d_def timer_consts)
  ultimately show ?thesis
    using assms(1) by (auto simp: wheel_unit_def wheel_slots_def split: if_splits)
qed

text \<open>The tick \<open>q * unit\<close> at which the slot is processed; from \<open>b = j + 1\<close> on, when the
  current slot of the first wheel has been emptied already.\<close>

lemma calc_slot_placed:
  assumes "xtimer_calc_slot j ex = (lv, sl)" and "b = j \<or> b = j + 1 \<and> (0 < lv \<or> j < ex)"
  shows "\<exists>q. sl = q mod wheel_slots lv \<and> b \<le> q * wheel_unit lv
    \<and> q * wheel_unit lv < b + wheel_unit lv * wheel_slots lv \<and> q * wheel_unit lv \<le> max j ex"
proof -
  define d where "d = min (ex - j) XTIMER_WHEEL_MAX_DELTA"
  define u where "u = wheel_unit lv"
  note c = calc_slot_cases [OF assms(1), folded d_def u_def]
  have u0: "0 < u" by (simp add: u_def wheel_unit_def)
  note m = multiple_below [OF u0, of "j + d"]
  have dex: "j + d \<le> max j ex" by (auto simp: d_def)
  show ?thesis
  proof (cases "lv = 0")
    case True
    then have u1: "u = 1" by (simp add: u_def wheel_unit_def)
    have "j < ex \<Longrightarrow> 0 < d" by (simp add: d_def timer_consts)
    with True u1 c dex assms(2) show ?thesis
      by (intro exI [of _ "j + d"]) (auto simp: wheel_unit_def)
  next
    case False
    with c have "u \<le> d" "d < u * wheel_slots lv" by simp_all
    then have "b \<le> (j + d) div u * u" "(j + d) div u * u < b + u * wheel_slots lv"
        "(j + d) div u * u \<le> max j ex"
      using m dex assms(2) by linarith+
    with c show ?thesis unfolding u_def [symmetric] by blast
  qed
qed

lemma calc_slot_overdue:
  "ex \<le> j \<Longrightarrow> xtimer_calc_slot j ex = (0, j mod 256)"
  by (simp add: xtimer_calc_slot_def Let_def timer_consts and_255)

section \<open>The invariant\<close>

text \<open>A timer with interval 0 that has fired and is pending again is put in the slot that is
  being processed, so it waits a whole revolution: the one exception to timeliness.\<close>

definition late :: "timer_event list \<Rightarrow> xTimerNode \<Rightarrow> bool" where
  "late evs n \<longleftrightarrow> repeat_interval n = 0 \<and> (\<exists>e c. TFired (serial n) e c \<in> set evs)"

definition placed :: "nat \<Rightarrow> timer_event list \<Rightarrow> xTimerNode \<Rightarrow> bool" where
  "placed b evs n \<longleftrightarrow> level n < 5 \<and>
     (\<exists>q. slot n = q mod wheel_slots (level n) \<and> b \<le> q * wheel_unit (level n)
        \<and> (q * wheel_unit (level n) \<le> expire n \<or> late evs n))"

text \<open>\<open>L\<close> holds the levels whose slot of the current tick has been dealt with.\<close>

definition pend_ok :: "nat set \<Rightarrow> nat \<Rightarrow> timer_event list \<Rightarrow> xTimerNode \<Rightarrow> bool" where
  "pend_ok L j evs n \<longleftrightarrow> \<not> cancelled n \<and> \<not> in_free_list n \<and> placed j evs n
     \<and> (level n \<in> L \<longrightarrow> placed (j + 1) evs n)"

definition live :: "xTimerSet \<Rightarrow> addr set" where
  "live tm = {a. \<exists>n. nodes tm a = Some n \<and> \<not> in_free_list n}"

fun event_id :: "timer_event \<Rightarrow> int" where
  "event_id (TFired i _ _) = i"
| "event_id (TCancelled i) = i"
| "event_id (TRefused i) = i"

definition linked_in :: "xTimerSet \<Rightarrow> addr \<Rightarrow> nat \<Rightarrow> nat \<Rightarrow> bool" where
  "linked_in tm a lv sl \<longleftrightarrow>
     (\<exists>n. nodes tm a = Some n \<and> status n = TIMER_PENDING \<and> level n = lv \<and> slot n = sl)"

definition timer_inv :: "nat set \<Rightarrow> addr set \<Rightarrow> nat \<Rightarrow> xTimerSet \<Rightarrow> bool" where
  "timer_inv L X k tm \<longleftrightarrow>
     (\<forall>lv sl. distinct (tv tm lv sl))
   \<and> (\<forall>lv sl a. a \<in> set (tv tm lv sl) \<longleftrightarrow> a \<notin> X \<and> linked_in tm a lv sl)
   \<and> distinct (free_list tm)
   \<and> (\<forall>a. a \<in> set (free_list tm) \<longleftrightarrow> (\<exists>n. nodes tm a = Some n \<and> in_free_list n))
   \<and> X \<subseteq> live tm
   \<and> (\<forall>a n. nodes tm a = Some n \<longrightarrow> a < m_next tm
        \<and> (cancelled n \<and> \<not> in_free_list n \<longrightarrow> serial n \<in> event_id ` set (events tm))
        \<and> (\<not> in_free_list n \<longrightarrow> 0 \<le> repeat_interval n)
        \<and> (in_free_list n \<longrightarrow> status n = TIMER_FREE)
        \<and> (a \<notin> X \<and> \<not> in_free_list n \<longrightarrow> status n = TIMER_PENDING \<and> pend_ok L (current_jiffies tm) (events tm) n))
   \<and> active_count tm = int (card (live tm)) - int k
   \<and> free_count tm = int (length (free_list tm))
   \<and> (\<forall>i. 1 \<le> i \<longrightarrow> i < created tm \<longrightarrow>
        i \<in> event_id ` set (events tm) \<or> (\<exists>a \<in> live tm. \<exists>n. nodes tm a = Some n \<and> serial n = i))"

lemma timer_invD:
  assumes "timer_inv L X k tm"
  shows "\<And>lv sl. distinct (tv tm lv sl)"
    "\<And>lv sl a. a \<in> set (tv tm lv sl) \<longleftrightarrow> a \<notin> X \<and> linked_in tm a lv sl"
    "distinct (free_list tm)"
    "\<And>a. a \<in> set (free_list tm) \<longleftrightarrow> (\<exists>n. nodes tm a = Some n \<and> in_free_list n)"
    "X \<subseteq> live tm"
    "\<And>a n. nodes tm a = Some n \<Longrightarrow> a < m_next tm"
    "\<And>a n. nodes tm a = Some n \<Longrightarrow> cancelled n \<Longrightarrow> \<not> in_free_list n \<Longrightarrow>
       serial n \<in> event_id ` set (events tm)"
    "\<And>a n. nodes tm a = Some n \<Longrightarrow> \<not> in_free_list n \<Longrightarrow> 0 \<le> repeat_interval n"
    "\<And>a n. nodes tm a = Some n \<Longrightarrow> in_free_list n \<Longrightarrow> status n = TIMER_FREE"
    "\<And>a n. nodes tm a = Some n \<Longrightarrow> a \<notin> X \<Longrightarrow> \<not> in_free_list n \<Longrightarrow> status n = TIMER_PENDING
       \<and> pend_ok L (current_jiffies tm) (events tm) n"
    "active_count tm = int (card (live tm)) - int k"
    "free_count tm = int (length (free_list tm))"
    "\<And>i. 1 \<le> i \<Longrightarrow> i < created tm \<Longrightarrow>
       i \<in> event_id ` set (events tm) \<or> (\<exists>a \<in> live tm. \<exists>n. nodes tm a = Some n \<and> serial n = i)"
    "finite (live tm)"
proof -
  from assms show "finite (live tm)"
    by (intro finite_subset [of "live tm" "{..<m_next tm}"]) (auto simp: timer_inv_def live_def)
qed (use assms in \<open>unfold timer_inv_def, blast+\<close>)

lemma late_mono: "set evs \<subseteq> set evs' \<Longrightarrow> late evs n \<Longrightarrow> late evs' n"
  by (auto simp: late_def)

lemma pend_ok_mono: "set evs \<subseteq> set evs' \<Longrightarrow> pend_ok L j evs n \<Longrightarrow> pend_ok L j evs' n"
  unfolding pend_ok_def placed_def using late_mono by metis

section \<open>Insertion\<close>

lemma xtimer_insert_eq:
  assumes "nodes tm a = Some n" and "xtimer_calc_slot (current_jiffies tm) (expire n) = (lv, sl)"
  shows "xtimer_insert a tm = tm\<lparr>tv := (tv tm)(lv := (tv tm lv)(sl := a # tv tm lv sl)),
     nodes := (nodes tm)(a \<mapsto> n\<lparr>slot := sl, level := lv, status := TIMER_PENDING\<rparr>),
     active_count := active_count tm + 1\<rparr>"
  using assms by (simp add: xtimer_insert_def xtimer_add_head_def upd_node_def)

lemma inserted_pend_ok:
  assumes calc: "xtimer_calc_slot j (expire n) = (lv, sl)"
    and "\<not> cancelled n" "\<not> in_free_list n"
    and due: "j \<le> expire n \<or> late evs n" "0 \<in> L \<Longrightarrow> j < expire n \<or> late evs n"
  shows "pend_ok L j evs (n\<lparr>slot := sl, level := lv, status := TIMER_PENDING\<rparr>)"
proof -
  let ?n = "n\<lparr>slot := sl, level := lv, status := TIMER_PENDING\<rparr>"
  have lv: "lv < 5" using calc_slot_cases [OF calc] by simp
  have l: "late evs ?n = late evs n" by (simp add: late_def)
  have "placed j evs ?n"
    using calc_slot_placed [OF calc, of j] due(1) lv unfolding placed_def l by force
  moreover have "placed (j + 1) evs ?n" if "lv \<in> L"
  proof (cases "0 < lv \<or> j < expire n")
    case True
    with calc_slot_placed [OF calc, of "j + 1"] due(1) lv show ?thesis
      unfolding placed_def l by force
  next
    case False
    with that due(2) have "late evs n" by auto
    moreover from False have "lv = 0" "sl = j mod 256"
      using calc calc_slot_overdue [of "expire n" j] by auto
    ultimately show ?thesis
      unfolding placed_def l
      by (auto intro!: exI [of _ "j + 256"] simp: wheel_unit_def wheel_slots_def)
  qed
  ultimately show ?thesis using assms(2,3) by (auto simp: pend_ok_def)
qed

lemma insert_inv:
  assumes inv: "timer_inv L X (Suc k) tm" and a: "a \<in> X" "nodes tm a = Some n" "\<not> cancelled n"
    and due: "current_jiffies tm \<le> expire n \<or> late (events tm) n"
      "0 \<in> L \<Longrightarrow> current_jiffies tm < expire n \<or> late (events tm) n"
  shows "timer_inv L (X - {a}) k (xtimer_insert a tm)"
proof -
  obtain lv sl where calc: "xtimer_calc_slot (current_jiffies tm) (expire n) = (lv, sl)"
    by fastforce
  let ?n = "n\<lparr>slot := sl, level := lv, status := TIMER_PENDING\<rparr>"
  let ?tm = "xtimer_insert a tm"
  note eq = xtimer_insert_eq [OF a(2) calc]
  note D = timer_invD [OF inv]
  have al: "\<not> in_free_list n" using D(5) a by (auto simp: live_def)
  have out: "a \<notin> set (tv tm l s)" for l s using D(2) a(1) by blast
  have lv: "live ?tm = live tm" using a(2) al by (auto simp: eq live_def)
  note P = inserted_pend_ok [OF calc a(3) al due(1) due(2)]
  have li: "linked_in ?tm b l s = (if b = a then l = lv \<and> s = sl else linked_in tm b l s)" for b l s
    by (auto simp: linked_in_def eq)
  show ?thesis
    unfolding timer_inv_def lv li
  proof (intro conjI)
    show "\<forall>l s. distinct (tv ?tm l s)" using D(1) out by (simp add: eq)
    show "\<forall>l s b. (b \<in> set (tv ?tm l s)) = (b \<notin> X - {a} \<and> (if b = a then l = lv \<and> s = sl else linked_in tm b l s))"
      using D(2) out a(1) by (auto simp: eq)
    show "distinct (free_list ?tm)" using D(3) by (simp add: eq)
    show "\<forall>b. (b \<in> set (free_list ?tm)) = (\<exists>n. nodes ?tm b = Some n \<and> in_free_list n)"
      using D(4) a(2) al by (simp add: eq)
    show "X - {a} \<subseteq> live tm" using D(5) by blast
    show "active_count ?tm = int (card (live tm)) - int k" using D(11) by (simp add: eq)
    show "free_count ?tm = int (length (free_list ?tm))" using D(12) by (simp add: eq)
    show "\<forall>i\<ge>1. i < created ?tm \<longrightarrow> i \<in> event_id ` set (events ?tm)
        \<or> (\<exists>a\<in>live tm. \<exists>n. nodes ?tm a = Some n \<and> serial n = i)"
    proof (intro allI impI)
      fix i assume "1 \<le> i" "i < created ?tm"
      then have "i \<in> event_id ` set (events tm) \<or> (\<exists>a\<in>live tm. \<exists>n. nodes tm a = Some n \<and> serial n = i)"
        using D(13) by (simp add: eq)
      moreover have "\<exists>m. nodes ?tm b = Some m \<and> serial m = serial m'" if "nodes tm b = Some m'" for b m'
        using that a(2) by (auto simp: eq)
      moreover have "events ?tm = events tm" by (simp add: eq)
      ultimately show "i \<in> event_id ` set (events ?tm)
          \<or> (\<exists>a\<in>live tm. \<exists>n. nodes ?tm a = Some n \<and> serial n = i)" by metis
    qed
    show "\<forall>b m. nodes ?tm b = Some m \<longrightarrow> b < m_next ?tm
        \<and> (cancelled m \<and> \<not> in_free_list m \<longrightarrow> serial m \<in> event_id ` set (events ?tm))
        \<and> (\<not> in_free_list m \<longrightarrow> 0 \<le> repeat_interval m)
        \<and> (in_free_list m \<longrightarrow> status m = TIMER_FREE)
        \<and> (b \<notin> X - {a} \<and> \<not> in_free_list m \<longrightarrow>
             status m = TIMER_PENDING \<and> pend_ok L (current_jiffies ?tm) (events ?tm) m)"
    proof (intro allI impI)
      fix b m assume b: "nodes ?tm b = Some m"
      show "b < m_next ?tm
        \<and> (cancelled m \<and> \<not> in_free_list m \<longrightarrow> serial m \<in> event_id ` set (events ?tm))
        \<and> (\<not> in_free_list m \<longrightarrow> 0 \<le> repeat_interval m)
        \<and> (in_free_list m \<longrightarrow> status m = TIMER_FREE)
        \<and> (b \<notin> X - {a} \<and> \<not> in_free_list m \<longrightarrow>
             status m = TIMER_PENDING \<and> pend_ok L (current_jiffies ?tm) (events ?tm) m)"
      proof (cases "b = a")
        case True
        with b have "m = ?n" by (simp add: eq)
        with True P D(6) [OF a(2)] D(8) [OF a(2) al] a(3) al show ?thesis by (simp add: eq)
      next
        case False
        with b have "nodes tm b = Some m" by (simp add: eq)
        with False D(6-10) [OF this] show ?thesis by (auto simp: eq)
      qed
    qed
  qed
qed

section \<open>Small changes\<close>

lemma timer_invI:
  assumes "\<And>lv sl. distinct (tv tm lv sl)"
    "\<And>lv sl a. a \<in> set (tv tm lv sl) \<longleftrightarrow> a \<notin> X \<and> linked_in tm a lv sl"
    "distinct (free_list tm)"
    "\<And>a. a \<in> set (free_list tm) \<longleftrightarrow> (\<exists>n. nodes tm a = Some n \<and> in_free_list n)"
    "X \<subseteq> live tm"
    "\<And>a n. nodes tm a = Some n \<Longrightarrow> a < m_next tm"
    "\<And>a n. nodes tm a = Some n \<Longrightarrow> cancelled n \<Longrightarrow> \<not> in_free_list n \<Longrightarrow>
       serial n \<in> event_id ` set (events tm)"
    "\<And>a n. nodes tm a = Some n \<Longrightarrow> \<not> in_free_list n \<Longrightarrow> 0 \<le> repeat_interval n"
    "\<And>a n. nodes tm a = Some n \<Longrightarrow> in_free_list n \<Longrightarrow> status n = TIMER_FREE"
    "\<And>a n. nodes tm a = Some n \<Longrightarrow> a \<notin> X \<Longrightarrow> \<not> in_free_list n \<Longrightarrow> status n = TIMER_PENDING
       \<and> pend_ok L (current_jiffies tm) (events tm) n"
    "active_count tm = int (card (live tm)) - int k"
    "free_count tm = int (length (free_list tm))"
    "\<And>i. 1 \<le> i \<Longrightarrow> i < created tm \<Longrightarrow> i \<notin> event_id ` set (events tm) \<Longrightarrow>
       \<exists>a n. nodes tm a = Some n \<and> \<not> in_free_list n \<and> serial n = i"
  shows "timer_inv L X k tm"
proof -
  have "i \<in> event_id ` set (events tm) \<or> (\<exists>a \<in> live tm. \<exists>n. nodes tm a = Some n \<and> serial n = i)"
    if "1 \<le> i" "i < created tm" for i
    using assms(13) [OF that] by (auto simp: live_def)
  then show ?thesis
    unfolding timer_inv_def using assms(1-12) by (intro conjI allI impI) blast+
qed

lemma timer_inv_id:
  "timer_inv L X k tm \<Longrightarrow> 1 \<le> i \<Longrightarrow> i < created tm \<Longrightarrow> i \<notin> event_id ` set (events tm) \<Longrightarrow>
     \<exists>a n. nodes tm a = Some n \<and> \<not> in_free_list n \<and> serial n = i"
  using timer_invD(13) [of L X k tm i] by (fastforce simp: live_def)

lemma timer_inv_frame:
  assumes "timer_inv L X k tm" and "tv tm' = tv tm" "nodes tm' = nodes tm" "free_list tm' = free_list tm"
    "free_count tm' = free_count tm" "m_next tm \<le> m_next tm'" "current_jiffies tm' = current_jiffies tm"
    "active_count tm' = active_count tm + int k - int k'" "set (events tm) \<subseteq> set (events tm')"
    "\<And>i. 1 \<le> i \<Longrightarrow> created tm \<le> i \<Longrightarrow> i < created tm' \<Longrightarrow> i \<in> event_id ` set (events tm')"
  shows "timer_inv L X k' tm'"
proof -
  note D = timer_invD [OF assms(1)]
  have l: "live tm' = live tm" "linked_in tm' a lv sl = linked_in tm a lv sl" for a lv sl
    using assms(3) by (auto simp: live_def linked_in_def)
  have ev: "event_id ` set (events tm) \<subseteq> event_id ` set (events tm')" using assms(9) by blast
  show ?thesis
  proof (rule timer_invI, unfold assms(2-5,7) l)
    show "a < m_next tm'" if "nodes tm a = Some n" for a n
      using D(6) [OF that] assms(6) by simp
    show "serial n \<in> event_id ` set (events tm')"
      if "nodes tm a = Some n" "cancelled n" "\<not> in_free_list n" for a n
      using D(7) [OF that] ev by blast
    show "status n = TIMER_PENDING \<and> pend_ok L (current_jiffies tm) (events tm') n"
      if "nodes tm a = Some n" "a \<notin> X" "\<not> in_free_list n" for a n
      using D(10) [OF that] pend_ok_mono [OF assms(9)] by blast
    show "active_count tm' = int (card (live tm)) - int k'" using D(11) assms(8) by simp
    show "\<exists>a n. nodes tm a = Some n \<and> \<not> in_free_list n \<and> serial n = i"
      if "1 \<le> i" "i < created tm'" "i \<notin> event_id ` set (events tm')" for i
      using timer_inv_id [OF assms(1) that(1)] assms(10) [OF that(1)] that ev
      by (metis in_mono not_le_imp_less)
  qed (use D in blast)+
qed

lemma log_inv: "timer_inv L X k tm \<Longrightarrow> timer_inv L X k (log_event e tm)"
  by (rule timer_inv_frame) (auto simp: log_event_def)

lemma uncount_inv:
  "timer_inv L X k tm \<Longrightarrow> timer_inv L X (Suc k) (tm\<lparr>active_count := active_count tm - 1\<rparr>)"
  by (rule timer_inv_frame) auto

lemma clock_inv: "timer_inv L X k tm \<Longrightarrow> timer_inv L X k (tm\<lparr>current_time := t\<rparr>)"
  by (rule timer_inv_frame) auto

text \<open>Changing a node the operation holds.\<close>

lemma touch_inv:
  assumes inv: "timer_inv L X k tm" and a: "a \<in> X" "nodes tm a = Some n"
    and f: "in_free_list (f n) = in_free_list n" "serial (f n) = serial n" "0 \<le> repeat_interval (f n)"
      "cancelled (f n) \<Longrightarrow> serial n \<in> event_id ` set (events tm)"
  shows "timer_inv L X k (upd_node a f tm)"
proof -
  note D = timer_invD [OF inv]
  let ?tm = "upd_node a f tm"
  have al: "\<not> in_free_list n" using D(5) a by (auto simp: live_def)
  have nd: "nodes ?tm = (nodes tm)(a \<mapsto> f n)" by (simp add: upd_node_def a)
  have rest: "tv ?tm = tv tm" "free_list ?tm = free_list tm" "m_next ?tm = m_next tm"
    "events ?tm = events tm" "active_count ?tm = active_count tm" "free_count ?tm = free_count tm"
    "created ?tm = created tm" "current_jiffies ?tm = current_jiffies tm"
    by (simp_all add: upd_node_def)
  have lv: "live ?tm = live tm" using a(2) al f(1) by (auto simp: live_def nd)
  have li: "linked_in ?tm b l s = linked_in tm b l s" if "b \<noteq> a" for b l s
    using that by (simp add: linked_in_def nd)
  show ?thesis
  proof (rule timer_invI, unfold rest lv)
    show "(b \<in> set (tv tm l s)) = (b \<notin> X \<and> linked_in ?tm b l s)" for b l s
      using D(2) [of b l s] a(1) li [of b] by (cases "b = a") auto
    show "(b \<in> set (free_list tm)) = (\<exists>n. nodes ?tm b = Some n \<and> in_free_list n)" for b
      using D(4) a(2) f(1) by (simp add: nd)
    show "b < m_next tm" if "nodes ?tm b = Some m" for b m
      using D(6) that a(2) by (auto simp: nd split: if_splits)
    show "serial m \<in> event_id ` set (events tm)"
      if "nodes ?tm b = Some m" "cancelled m" "\<not> in_free_list m" for b m
      using that D(7) [of b m] f(2,4) by (auto simp: nd split: if_splits)
    show "0 \<le> repeat_interval m" if "nodes ?tm b = Some m" "\<not> in_free_list m" for b m
      using that D(8) [of b m] f(3) by (auto simp: nd split: if_splits)
    show "status m = TIMER_FREE" if "nodes ?tm b = Some m" "in_free_list m" for b m
      using that D(9) [of b m] f(1) al by (auto simp: nd split: if_splits)
    show "status m = TIMER_PENDING \<and> pend_ok L (current_jiffies tm) (events tm) m"
      if "nodes ?tm b = Some m" "b \<notin> X" "\<not> in_free_list m" for b m
      using that D(10) [of b m] a(1) by (auto simp: nd split: if_splits)
    show "\<exists>b m. nodes ?tm b = Some m \<and> \<not> in_free_list m \<and> serial m = i"
      if i: "1 \<le> i" "i < created tm" "i \<notin> event_id ` set (events tm)" for i
    proof -
      from timer_inv_id [OF inv i] obtain b m where
        "nodes tm b = Some m" "\<not> in_free_list m" "serial m = i" by blast
      then show ?thesis using a(2) f(1,2) by (cases "b = a") (auto simp: nd)
    qed
  qed (use D in blast)+
qed

section \<open>Release, unlinking and allocation\<close>

lemma release_inv:
  assumes inv: "timer_inv L X (Suc k) tm" and a: "a \<in> X" "nodes tm a = Some n"
    and done_: "serial n \<in> event_id ` set (events tm)"
  shows "timer_inv L (X - {a}) k (xtimer_node_release a tm)"
proof -
  note D = timer_invD [OF inv]
  let ?tm = "xtimer_node_release a tm"
  have al: "\<not> in_free_list n" using D(5) a by (auto simp: live_def)
  have fl: "a \<notin> set (free_list tm)" using D(4) a(2) al by auto
  have out: "a \<notin> set (tv tm l s)" for l s using D(2) a(1) by blast
  have rest: "tv ?tm = tv tm" "m_next ?tm = m_next tm" "events ?tm = events tm"
    "active_count ?tm = active_count tm" "created ?tm = created tm"
    "current_jiffies ?tm = current_jiffies tm"
    using a(2) al by (simp_all add: xtimer_node_release_def upd_node_def)
  have nd: "nodes ?tm b = nodes tm b" if "b \<noteq> a" for b
    using a(2) al that by (simp add: xtimer_node_release_def upd_node_def)
  have na: "(nodes ?tm a = None \<and> free_list ?tm = free_list tm \<and> free_count ?tm = free_count tm)
     \<or> (\<exists>m. nodes ?tm a = Some m \<and> in_free_list m \<and> status m = TIMER_FREE)
       \<and> free_list ?tm = a # free_list tm \<and> free_count ?tm = free_count tm + 1"
    using a(2) al by (simp add: xtimer_node_release_def upd_node_def)
  have lv: "live ?tm = live tm - {a}"
  proof (rule set_eqI)
    fix b show "b \<in> live ?tm \<longleftrightarrow> b \<in> live tm - {a}"
      using na nd [of b] by (cases "b = a") (auto simp: live_def)
  qed
  have li: "linked_in ?tm b l s = linked_in tm b l s" if "b \<noteq> a" for b l s
    using that nd by (simp add: linked_in_def)
  have la: "\<not> linked_in ?tm a l s" for l s using na by (auto simp: linked_in_def)
  have alive: "a \<in> live tm" using a D(5) by blast
  show ?thesis
  proof (rule timer_invI, unfold rest lv)
    show "(b \<in> set (tv tm l s)) = (b \<notin> X - {a} \<and> linked_in ?tm b l s)" for b l s
      using D(2) [of b l s] out [of l s] li [of b] la by (cases "b = a") auto
    show "distinct (free_list ?tm)" using na D(3) fl by auto
    show "(b \<in> set (free_list ?tm)) = (\<exists>n. nodes ?tm b = Some n \<and> in_free_list n)" for b
      using na D(4) [of b] nd [of b] fl by (cases "b = a") auto
    show "X - {a} \<subseteq> live tm - {a}" using D(5) by blast
    show "b < m_next tm" if "nodes ?tm b = Some m" for b m
      using D(6) [of b m] D(6) [OF a(2)] that nd [of b] by (cases "b = a") auto
    show "serial m \<in> event_id ` set (events tm)"
      if "nodes ?tm b = Some m" "cancelled m" "\<not> in_free_list m" for b m
      using that D(7) [of b m] nd [of b] na by (cases "b = a") auto
    show "0 \<le> repeat_interval m" if "nodes ?tm b = Some m" "\<not> in_free_list m" for b m
      using that D(8) [of b m] nd [of b] na by (cases "b = a") auto
    show "status m = TIMER_FREE" if "nodes ?tm b = Some m" "in_free_list m" for b m
      using that D(9) [of b m] nd [of b] na by (cases "b = a") auto
    show "status m = TIMER_PENDING \<and> pend_ok L (current_jiffies tm) (events tm) m"
      if "nodes ?tm b = Some m" "b \<notin> X - {a}" "\<not> in_free_list m" for b m
      using that D(10) [of b m] nd [of b] na by (cases "b = a") auto
    show "active_count tm = int (card (live tm - {a})) - int k"
      using D(11) alive D(14) card_gt_0_iff [of "live tm"] by (auto simp: card_Diff_singleton)
    show "free_count ?tm = int (length (free_list ?tm))" using na D(12) by auto
    show "\<exists>b m. nodes ?tm b = Some m \<and> \<not> in_free_list m \<and> serial m = i"
      if i: "1 \<le> i" "i < created tm" "i \<notin> event_id ` set (events tm)" for i
    proof -
      from timer_inv_id [OF inv i] obtain b m where
        b: "nodes tm b = Some m" "\<not> in_free_list m" "serial m = i" by blast
      with done_ i(3) a(2) have "b \<noteq> a" by auto
      with b nd show ?thesis by metis
    qed
  qed (use D in blast)+
qed

text \<open>Nodes that leave a slot list.\<close>

lemma timer_unlink_inv:
  assumes inv: "timer_inv L X k tm" and a: "nodes tm a = Some n" "status n = TIMER_PENDING" "a \<notin> X"
    and al: "\<not> in_free_list n"
  shows "timer_inv L (insert a X) k (xtimer_remove a n tm)"
proof -
  note D = timer_invD [OF inv]
  let ?tm = "xtimer_remove a n tm"
  have rest: "nodes ?tm = nodes tm" "m_next ?tm = m_next tm" "events ?tm = events tm"
    "active_count ?tm = active_count tm" "created ?tm = created tm"
    "current_jiffies ?tm = current_jiffies tm" "free_list ?tm = free_list tm"
    "free_count ?tm = free_count tm"
    by (simp_all add: xtimer_remove_def set_slot_def)
  have l: "live ?tm = live tm" "linked_in ?tm b lv sl = linked_in tm b lv sl" for b lv sl
    by (simp_all add: live_def linked_in_def rest)
  have aw: "linked_in tm a lv sl \<longleftrightarrow> lv = level n \<and> sl = slot n" for lv sl
    using a by (auto simp: linked_in_def)
  have tvs: "tv ?tm lv sl = (if lv = level n \<and> sl = slot n then remove1 a (tv tm lv sl) else tv tm lv sl)"
    for lv sl by (simp add: xtimer_remove_def set_slot_def)
  show ?thesis
  proof (rule timer_invI, unfold rest l)
    show "distinct (tv ?tm lv sl)" for lv sl using D(1) by (simp add: tvs)
    show "(b \<in> set (tv ?tm lv sl)) = (b \<notin> insert a X \<and> linked_in tm b lv sl)" for b lv sl
      using D(2) [of b lv sl] D(1) aw by (cases "b = a") (auto simp: tvs)
    show "insert a X \<subseteq> live tm" using D(5) a al by (auto simp: live_def)
    show "status m = TIMER_PENDING \<and> pend_ok L (current_jiffies tm) (events tm) m"
      if "nodes tm b = Some m" "b \<notin> insert a X" "\<not> in_free_list m" for b m
      using D(10) [OF that(1)] that by simp
    show "\<exists>b m. nodes tm b = Some m \<and> \<not> in_free_list m \<and> serial m = i"
      if "1 \<le> i" "i < created tm" "i \<notin> event_id ` set (events tm)" for i
      using timer_inv_id [OF inv that] .
  qed (rule D(3,4,6,7,8,9,11,12); assumption)+
qed

lemma take_slot_inv:
  assumes inv: "timer_inv L X k tm"
  shows "timer_inv L (X \<union> set (tv tm lv sl)) k (set_slot lv sl [] tm)"
proof -
  note D = timer_invD [OF inv]
  let ?tm = "set_slot lv sl [] tm"
  have rest: "nodes ?tm = nodes tm" "m_next ?tm = m_next tm" "events ?tm = events tm"
    "active_count ?tm = active_count tm" "created ?tm = created tm"
    "current_jiffies ?tm = current_jiffies tm" "free_list ?tm = free_list tm"
    "free_count ?tm = free_count tm"
    by (simp_all add: set_slot_def)
  have l: "live ?tm = live tm" "linked_in ?tm b l s = linked_in tm b l s" for b l s
    by (simp_all add: live_def linked_in_def rest)
  have tvs: "tv ?tm l s = (if l = lv \<and> s = sl then [] else tv tm l s)" for l s
    by (simp add: set_slot_def)
  have other: "b \<notin> set (tv tm lv sl)" if "linked_in tm b l s" "\<not> (l = lv \<and> s = sl)" for b l s
    using that D(2) [of b lv sl] by (auto simp: linked_in_def)
  show ?thesis
  proof (rule timer_invI, unfold rest l)
    show "distinct (tv ?tm l s)" for l s using D(1) by (simp add: tvs)
    show "(b \<in> set (tv ?tm l s)) = (b \<notin> X \<union> set (tv tm lv sl) \<and> linked_in tm b l s)" for b l s
      using D(2) [of b l s] other [of b l s] by (auto simp: tvs)
    show "X \<union> set (tv tm lv sl) \<subseteq> live tm"
    proof -
      have "b \<in> live tm" if "b \<in> set (tv tm lv sl)" for b
      proof -
        from that D(2) obtain m where m: "nodes tm b = Some m" "status m = TIMER_PENDING"
          by (auto simp: linked_in_def)
        with D(9) [OF m(1)] show ?thesis by (auto simp: live_def)
      qed
      with D(5) show ?thesis by blast
    qed
    show "status m = TIMER_PENDING \<and> pend_ok L (current_jiffies tm) (events tm) m"
      if "nodes tm b = Some m" "b \<notin> X \<union> set (tv tm lv sl)" "\<not> in_free_list m" for b m
      using D(10) [OF that(1)] that by simp
    show "\<exists>b m. nodes tm b = Some m \<and> \<not> in_free_list m \<and> serial m = i"
      if "1 \<le> i" "i < created tm" "i \<notin> event_id ` set (events tm)" for i
      using timer_inv_id [OF inv that] .
  qed (rule D(3,4,6,7,8,9,11,12); assumption)+
qed

definition new_node :: "u32 \<Rightarrow> int \<Rightarrow> nat \<Rightarrow> int \<Rightarrow> nat \<Rightarrow> nat \<Rightarrow> int \<Rightarrow> xTimerNode" where
  "new_node ident ser timeout iv cb ud rep =
     \<lparr>expire = timeout, tid = ident, callback = cb, user_data = ud, repeat_num = rep,
      repeat_interval = iv, cancelled = False, firing = False,
      in_free_list = False, slot = 0, level = 0, status = TIMER_FREE, serial = ser\<rparr>"

lemma node_new_Some:
  assumes "xtimer_node_new ident timeout iv cb ud rep tm = (Some a, tm')"
    and fl: "\<And>b. b \<in> set (free_list tm) \<Longrightarrow> nodes tm b \<noteq> None"
  shows "nodes tm' = (nodes tm)(a \<mapsto> new_node ident (created tm - 1) timeout iv cb ud rep)
    \<and> (free_list tm = a # free_list tm' \<and> free_count tm' = free_count tm - 1 \<and> m_next tm' = m_next tm
       \<or> a = m_next tm \<and> free_list tm = [] \<and> free_list tm' = [] \<and> free_count tm' = free_count tm
         \<and> m_next tm' = m_next tm + 1)
    \<and> tv tm' = tv tm \<and> events tm' = events tm \<and> active_count tm' = active_count tm
    \<and> created tm' = created tm \<and> current_jiffies tm' = current_jiffies tm
    \<and> current_time tm' = current_time tm"
proof (cases "free_list tm")
  case Nil
  then show ?thesis
    using assms(1) by (auto simp: xtimer_node_new_def xtimer_node_alloc_def new_node_def split: if_splits)
next
  case (Cons b bs)
  then show ?thesis
    using assms by (auto simp: xtimer_node_new_def xtimer_node_alloc_def new_node_def upd_node_def)
qed

lemma node_new_None:
  "xtimer_node_new ident timeout iv cb ud rep tm = (None, tm') \<Longrightarrow> tm' = tm\<lparr>m_next := m_next tm + 1\<rparr>"
  by (auto simp: xtimer_node_new_def xtimer_node_alloc_def split: list.splits if_splits)

lemma new_node_inv:
  assumes inv: "timer_inv L X k tm" and iv: "0 \<le> iv"
    and run: "xtimer_node_new (next_timer_id tm) timeout iv cb ud rep
       (tm\<lparr>next_timer_id := next_timer_id tm + 1, created := created tm + 1\<rparr>) = (Some a, tm')"
  shows "timer_inv L (insert a X) (Suc k) tm'" and "a \<notin> X" and "a \<notin> live tm"
proof -
  note D = timer_invD [OF inv]
  let ?n = "new_node (next_timer_id tm) (created tm) timeout iv cb ud rep"
  let ?tm = "tm\<lparr>next_timer_id := next_timer_id tm + 1, created := created tm + 1\<rparr>"
  have "nodes ?tm b \<noteq> None" if "b \<in> set (free_list ?tm)" for b using that D(4) by auto
  note N = node_new_Some [OF run this]
  have nd: "nodes tm' = (nodes tm)(a \<mapsto> ?n)" using N by simp
  have rest: "tv tm' = tv tm" "events tm' = events tm" "active_count tm' = active_count tm"
    "created tm' = created tm + 1" "current_jiffies tm' = current_jiffies tm"
    using N by simp_all
  have fl: "free_list tm = a # free_list tm' \<and> free_count tm' = free_count tm - 1 \<and> m_next tm' = m_next tm
       \<or> a = m_next tm \<and> free_list tm = [] \<and> free_list tm' = [] \<and> free_count tm' = free_count tm
         \<and> m_next tm' = m_next tm + 1" using N by simp
  have new: "nodes tm a = None \<or> (\<exists>m. nodes tm a = Some m \<and> in_free_list m)"
    using fl D(4) [of a] D(6) [of a] by (cases "nodes tm a") auto
  then show nl: "a \<notin> live tm" by (auto simp: live_def)
  then show nx: "a \<notin> X" using D(5) by blast
  have lv: "live tm' = insert a (live tm)" by (auto simp: live_def nd new_node_def)
  have out: "a \<notin> set (tv tm l s)" for l s
    using D(2) [of a l s] new D(9) by (auto simp: linked_in_def)
  have li: "linked_in tm' b l s = linked_in tm b l s" if "b \<noteq> a" for b l s
    using that by (simp add: linked_in_def nd)
  have ltm: "m_next tm \<le> m_next tm'" "a < m_next tm'"
    using fl D(4) [of a] D(6) [of a] by auto
  show "timer_inv L (insert a X) (Suc k) tm'"
  proof (rule timer_invI, unfold rest lv)
    show "distinct (tv tm l s)" for l s by (rule D(1))
    show "(b \<in> set (tv tm l s)) = (b \<notin> insert a X \<and> linked_in tm' b l s)" for b l s
      using D(2) [of b l s] out [of l s] li [of b] by (cases "b = a") auto
    show "distinct (free_list tm')" using fl D(3) by auto
    show "(b \<in> set (free_list tm')) = (\<exists>n. nodes tm' b = Some n \<and> in_free_list n)" for b
      using fl D(3) D(4) [of b] by (cases "b = a") (auto simp: nd new_node_def)
    show "insert a X \<subseteq> insert a (live tm)" using D(5) by blast
    show "b < m_next tm'" if "nodes tm' b = Some m" for b m
      using that D(6) [of b m] ltm by (cases "b = a") (auto simp: nd)
    show "serial m \<in> event_id ` set (events tm)"
      if "nodes tm' b = Some m" "cancelled m" "\<not> in_free_list m" for b m
      using that D(7) [of b m] by (cases "b = a") (auto simp: nd new_node_def)
    show "0 \<le> repeat_interval m" if "nodes tm' b = Some m" "\<not> in_free_list m" for b m
      using that D(8) [of b m] iv by (cases "b = a") (auto simp: nd new_node_def)
    show "status m = TIMER_FREE" if "nodes tm' b = Some m" "in_free_list m" for b m
      using that D(9) [of b m] by (cases "b = a") (auto simp: nd new_node_def)
    show "status m = TIMER_PENDING \<and> pend_ok L (current_jiffies tm) (events tm) m"
      if "nodes tm' b = Some m" "b \<notin> insert a X" "\<not> in_free_list m" for b m
      using that D(10) [of b m] by (cases "b = a") (auto simp: nd)
    show "active_count tm = int (card (insert a (live tm))) - int (Suc k)"
      using D(11,14) nl by simp
    show "free_count tm' = int (length (free_list tm'))" using fl D(12) by auto
    show "\<exists>b m. nodes tm' b = Some m \<and> \<not> in_free_list m \<and> serial m = i"
      if i: "1 \<le> i" "i < created tm + 1" "i \<notin> event_id ` set (events tm)" for i
    proof (cases "i = created tm")
      case True
      then show ?thesis by (auto simp: nd new_node_def)
    next
      case False
      with i(2) have "i < created tm" by simp
      from timer_inv_id [OF inv i(1) this i(3)] obtain b m where
        b: "nodes tm b = Some m" "\<not> in_free_list m" "serial m = i" by blast
      with new have "b \<noteq> a" by auto
      with b show ?thesis by (auto simp: nd)
    qed
  qed
qed

text \<open>Nodes the operation holds are not in a slot, as long as a callback may run.\<close>

definition settled :: "addr set \<Rightarrow> xTimerSet \<Rightarrow> bool" where
  "settled X tm \<longleftrightarrow> (\<forall>a \<in> X. \<forall>n. nodes tm a = Some n \<longrightarrow> status n \<noteq> TIMER_PENDING)"

text \<open>What a callback leaves of the nodes its caller holds.\<close>

definition keeps :: "xTimerNode option \<Rightarrow> xTimerNode option \<Rightarrow> bool" where
  "keeps x y \<longleftrightarrow> (\<forall>n. x = Some n \<longrightarrow> (\<exists>m. y = Some m \<and> expire m = expire n \<and> serial m = serial n
     \<and> repeat_interval m = repeat_interval n \<and> status m = status n \<and> (cancelled n \<longrightarrow> cancelled m)))"

lemma keeps_refl [simp]: "keeps x x"
  by (simp add: keeps_def)

lemma keeps_trans: "keeps x y \<Longrightarrow> keeps y z \<Longrightarrow> keeps x z"
  by (fastforce simp: keeps_def)

definition calm :: "addr set \<Rightarrow> xTimerSet \<Rightarrow> xTimerSet \<Rightarrow> bool" where
  "calm X tm tm' \<longleftrightarrow> current_jiffies tm' = current_jiffies tm \<and> current_time tm' = current_time tm
     \<and> set (events tm) \<subseteq> set (events tm') \<and> (\<forall>b \<in> X. keeps (nodes tm b) (nodes tm' b))"

lemma calm_refl [simp]: "calm X tm tm"
  by (simp add: calm_def)

lemma calm_trans: "calm X s t \<Longrightarrow> calm X t u \<Longrightarrow> calm X s u"
  unfolding calm_def by (metis keeps_trans subset_trans)

lemma calm_subset: "calm X s t \<Longrightarrow> Y \<subseteq> X \<Longrightarrow> calm Y s t"
  by (auto simp: calm_def)

section \<open>Creation and cancellation\<close>

lemma timer_create_inv:
  assumes inv: "timer_inv L X k tm" and set: "settled X tm"
    and clock: "current_jiffies tm \<le> current_time tm" "0 \<in> L \<Longrightarrow> current_jiffies tm < current_time tm"
    and run: "xtimer_create iv cb ud rep tm = (r, tm')"
  shows "timer_inv L X k tm' \<and> settled X tm' \<and> calm X tm tm'"
proof -
  let ?iv = "if iv < 0 then 0 else iv"
  let ?rep = "if rep = -1 then int INT_MAX else if rep < 1 then 1 else rep"
  let ?id = "next_timer_id tm" and ?ser = "created tm"
  let ?tm = "tm\<lparr>next_timer_id := ?id + 1, created := ?ser + 1\<rparr>"
  let ?to = "current_time tm + nat ?iv"
  show ?thesis
  proof (cases "?iv > XTIMER_MAX_INTERVAL - int (current_time tm)")
    case True
    with run inv set show ?thesis by (simp add: xtimer_create_def)
  next
    case False
    obtain o1 t1 where new: "xtimer_node_new ?id ?to ?iv cb ud ?rep ?tm = (o1, t1)" by fastforce
    show ?thesis
    proof (cases o1)
      case None
      have "t1 = ?tm\<lparr>m_next := m_next tm + 1\<rparr>" using node_new_None [of ?id ?to ?iv cb ud ?rep ?tm t1] new None by simp
      moreover from this have "tm' = log_event (TRefused ?ser) t1"
        using run False new None by (simp add: xtimer_create_def Let_def)
      ultimately have "tm' = tm\<lparr>next_timer_id := ?id + 1, created := ?ser + 1, m_next := m_next tm + 1,
          events := events tm @ [TRefused ?ser]\<rparr>" by (simp add: log_event_def)
      then show ?thesis
        using timer_inv_frame [OF inv, of tm' k] set by (auto simp: settled_def calm_def)
    next
      case (Some a)
      have iv0: "0 \<le> ?iv" by simp
      note N = new_node_inv [OF inv iv0 new [unfolded Some]]
      have fls: "nodes ?tm b \<noteq> None" if "b \<in> set (free_list ?tm)" for b
        using that timer_invD(4) [OF inv] by auto
      note E = node_new_Some [OF new [unfolded Some] fls]
      let ?n = "new_node ?id ?ser ?to ?iv cb ud ?rep"
      have n: "nodes t1 a = Some ?n" using E by simp
      have tm': "tm' = xtimer_insert a t1" using run False new Some by (simp add: xtimer_create_def Let_def)
      have "timer_inv L (insert a X - {a}) k tm'"
        unfolding tm'
      proof (rule insert_inv [OF N(1) _ n])
        show "current_jiffies t1 \<le> expire ?n \<or> late (events t1) ?n"
          using E clock(1) by (simp add: new_node_def)
        show "current_jiffies t1 < expire ?n \<or> late (events t1) ?n" if "0 \<in> L"
          using E clock(2) [OF that] by (simp add: new_node_def)
      qed (simp_all add: new_node_def)
      moreover have "insert a X - {a} = X" using N(2) by blast
      moreover obtain lv sl where calc: "xtimer_calc_slot (current_jiffies t1) (expire ?n) = (lv, sl)"
        by fastforce
      moreover have "b \<noteq> a" if "b \<in> X" for b using that N(2) by blast
      ultimately show ?thesis
        using E set unfolding tm' xtimer_insert_eq [OF n calc] by (auto simp: settled_def calm_def)
    qed
  qed
qed

lemma destroy_inv:
  assumes inv: "timer_inv L X k tm" and set: "settled X tm" and tm'_def: "tm' = xtimer_destroy a tm"
  shows "timer_inv L X k tm' \<and> settled X tm' \<and> calm X tm tm'"
proof -
  note D = timer_invD [OF inv]
  let ?f = "\<lambda>n. n\<lparr>cancelled := True, callback := 0, user_data := 0\<rparr>"
  show ?thesis
  proof (cases "\<exists>n. nodes tm a = Some n \<and> \<not> (in_free_list n \<or> cancelled n \<or> tid n = TIMER_POISON_ID)")
    case False
    then have "tm' = tm" by (auto simp: tm'_def xtimer_destroy_def split: option.splits)
    with inv set show ?thesis by simp
  next
    case True
    then obtain n where n: "nodes tm a = Some n" "\<not> in_free_list n" "\<not> cancelled n"
      "tid n \<noteq> TIMER_POISON_ID" by blast
    let ?log = "log_event (TCancelled (serial n))"
    show ?thesis
    proof (cases "status n = TIMER_PENDING")
      case False
      then have aX: "a \<in> X" using D(10) n by blast
      have tm': "tm' = upd_node a ?f (?log tm)"
        using n False
        by (cases tm) (simp add: tm'_def xtimer_destroy_def log_event_def upd_node_def Let_def)
      have "timer_inv L X k tm'"
        unfolding tm'
        by (rule touch_inv [OF log_inv [OF inv] aX, where n = n])
          (use n D(8) in \<open>auto simp: log_event_def\<close>)
      moreover have "calm X tm tm'"
        using n by (auto simp: calm_def keeps_def tm' upd_node_def log_event_def)
      ultimately show ?thesis
        using set False n by (auto simp: tm' upd_node_def log_event_def settled_def)
    next
      case True
      have aX: "a \<notin> X" using set True n by (auto simp: settled_def)
      let ?t1 = "upd_node a ?f (?log (xtimer_remove a n tm))"
      let ?g = "\<lambda>n. n\<lparr>status := TIMER_FREE\<rparr>"
      let ?t2 = "upd_node a ?g ?t1"
      let ?t3 = "?t2\<lparr>active_count := active_count ?t2 - 1\<rparr>"
      have tm': "tm' = xtimer_node_release a ?t3"
        using n True by (cases tm) (simp add: tm'_def xtimer_destroy_def log_event_def
            upd_node_def Let_def xtimer_remove_def set_slot_def)
      have rem: "nodes (xtimer_remove a n tm) = nodes tm" by (simp add: xtimer_remove_def set_slot_def)
      have "timer_inv L (insert a X) k (?log (xtimer_remove a n tm))"
        by (rule log_inv [OF timer_unlink_inv [OF inv n(1) True aX n(2)]])
      then have "timer_inv L (insert a X) k ?t1"
        by (rule touch_inv [of _ _ _ _ _ n]) (use n D(8) in \<open>auto simp: log_event_def rem\<close>)
      then have "timer_inv L (insert a X) k ?t2"
        by (rule touch_inv [of _ _ _ _ _ "?f n"])
          (use n D(8) in \<open>auto simp: log_event_def upd_node_def rem\<close>)
      then have "timer_inv L (insert a X) (Suc k) ?t3" by (rule uncount_inv)
      then have "timer_inv L (insert a X - {a}) k tm'"
        unfolding tm'
        by (rule release_inv [of _ _ _ _ _ "?g (?f n)"])
          (use n in \<open>auto simp: log_event_def upd_node_def rem\<close>)
      moreover have "insert a X - {a} = X" using aX by blast
      moreover have "nodes tm' b = nodes tm b" if "b \<in> X" for b
        using that aX n by (auto simp: tm' xtimer_node_release_def upd_node_def log_event_def rem)
      moreover have "current_jiffies tm' = current_jiffies tm \<and> current_time tm' = current_time tm
          \<and> set (events tm) \<subseteq> set (events tm')"
        using n by (simp add: tm' xtimer_node_release_def upd_node_def log_event_def rem
            xtimer_remove_def set_slot_def) blast
      ultimately show ?thesis
        using set by (simp add: settled_def calm_def)
    qed
  qed
qed

end
