(* ===== verification/XTimerPoll.thy ===== *)
theory XTimerPoll
  imports XTimerInv
begin

text \<open>
  Polling of the timing wheel: callbacks, the processing of one slot, the cascades and the
  advance of the wheel preserve the invariant, and no node is left behind the current tick.
  The properties of the timer follow.
\<close>

section \<open>Callbacks\<close>

definition due :: "addr set \<Rightarrow> xTimerSet \<Rightarrow> bool" where
  "due X tm \<longleftrightarrow> (\<forall>a \<in> X. \<forall>n. nodes tm a = Some n \<longrightarrow>
     current_jiffies tm \<le> expire n \<or> late (events tm) n)"

lemma due_calm:
  assumes "due X tm" "calm X tm tm'" "X \<subseteq> live tm"
  shows "due X tm'"
  unfolding due_def
proof (intro ballI allI impI)
  fix a m assume a: "a \<in> X" "nodes tm' a = Some m"
  with assms(3) obtain n where n: "nodes tm a = Some n" by (auto simp: live_def)
  with a assms(2) have k: "keeps (Some n) (Some m)" by (force simp: calm_def)
  have c: "current_jiffies tm' = current_jiffies tm" "set (events tm) \<subseteq> set (events tm')"
    using assms(2) by (auto simp: calm_def)
  from assms(1) a(1) n have "current_jiffies tm \<le> expire n \<or> late (events tm) n"
    by (auto simp: due_def)
  then show "current_jiffies tm' \<le> expire m \<or> late (events tm') m"
    using k c late_mono [OF c(2), of n] by (auto simp: keeps_def late_def)
qed

lemma call_inv:
  assumes "timer_inv L X k tm" "settled X tm"
    and "current_jiffies tm \<le> current_time tm" "0 \<in> L \<Longrightarrow> current_jiffies tm < current_time tm"
  shows "timer_inv L X k (do_timer_call c tm) \<and> settled X (do_timer_call c tm)
    \<and> calm X tm (do_timer_call c tm)"
proof (cases c)
  case (CallAdd iv cb ud rep)
  obtain r tm' where "xtimer_create iv cb ud rep tm = (r, tm')" by fastforce
  with timer_create_inv [OF assms this] CallAdd show ?thesis by simp
next
  case (CallDel a)
  with destroy_inv [OF assms(1,2) refl] show ?thesis by simp
qed

lemma calls_inv:
  assumes "timer_inv L X k tm" "settled X tm"
    and "current_jiffies tm \<le> current_time tm" "0 \<in> L \<Longrightarrow> current_jiffies tm < current_time tm"
  shows "timer_inv L X k (fold do_timer_call cs tm) \<and> settled X (fold do_timer_call cs tm)
    \<and> calm X tm (fold do_timer_call cs tm)"
  using assms
proof (induction cs arbitrary: tm)
  case (Cons c cs)
  let ?t = "do_timer_call c tm"
  note C = call_inv [OF Cons.prems, of c]
  then have t: "current_jiffies ?t = current_jiffies tm" "current_time ?t = current_time tm"
    by (simp_all add: calm_def)
  have "timer_inv L X k (fold do_timer_call cs ?t) \<and> settled X (fold do_timer_call cs ?t)
    \<and> calm X ?t (fold do_timer_call cs ?t)"
    using C Cons.prems(3,4) by (intro Cons.IH) (simp_all add: t)
  with C calm_trans show ?case by auto
qed simp

section \<open>One node of the slot\<close>

lemma nodes_upd [simp]: "nodes (upd_node a f tm) b = (if b = a then map_option f (nodes tm a) else nodes tm b)"
  and tv_upd [simp]: "tv (upd_node a f tm) = tv tm"
  and j_upd [simp]: "current_jiffies (upd_node a f tm) = current_jiffies tm"
  and ct_upd [simp]: "current_time (upd_node a f tm) = current_time tm"
  and ev_upd [simp]: "events (upd_node a f tm) = events tm"
  by (simp_all add: upd_node_def)

lemma nodes_log [simp]: "nodes (log_event e tm) = nodes tm"
  and tv_log [simp]: "tv (log_event e tm) = tv tm"
  and j_log [simp]: "current_jiffies (log_event e tm) = current_jiffies tm"
  and ct_log [simp]: "current_time (log_event e tm) = current_time tm"
  and ev_log [simp]: "events (log_event e tm) = events tm @ [e]"
  by (simp_all add: log_event_def)

lemma insert_calm:
  "nodes tm a = Some n \<Longrightarrow> calm (X - {a}) tm (xtimer_insert a tm)"
  using xtimer_insert_eq [of tm a n] by (cases "xtimer_calc_slot (current_jiffies tm) (expire n)")
    (auto simp: calm_def)

lemma release_calm: "calm (X - {a}) tm (xtimer_node_release a tm)"
  by (auto simp: calm_def xtimer_node_release_def upd_node_def split: option.splits)

lemma calm_change:
  "current_jiffies t = current_jiffies s \<Longrightarrow> current_time t = current_time s
     \<Longrightarrow> set (events s) \<subseteq> set (events t) \<Longrightarrow> (\<And>b. b \<noteq> a \<Longrightarrow> nodes t b = nodes s b)
     \<Longrightarrow> calm (X - {a}) s t"
  by (auto simp: calm_def)

text \<open>The state after the callback of node \<open>a\<close>, which is not counted any more.\<close>

lemma finish_node_inv:
  assumes inv: "timer_inv L X (Suc k) tm" and a: "a \<in> X" "nodes tm a = Some n"
    and ended: "cancelled n \<or> (\<exists>e c. TFired (serial n) e c \<in> set (events tm))"
    and due: "current_jiffies tm \<le> expire n \<or> late (events tm) n"
  shows "timer_inv L (X - {a}) k (finish_node a tm) \<and> calm (X - {a}) tm (finish_node a tm)"
proof -
  note D = timer_invD [OF inv]
  have al: "\<not> in_free_list n" using D(5) a by (auto simp: live_def)
  have logged: "serial n \<in> event_id ` set (events tm)"
    using ended D(7) [OF a(2) _ al] by force
  let ?f = "\<lambda>m. m\<lparr>repeat_num := repeat_num m - 1\<rparr>"
  let ?g = "\<lambda>m. m\<lparr>expire := expire m + nat (repeat_interval m)\<rparr>"
  let ?t1 = "upd_node a ?f tm"
  let ?t2 = "upd_node a ?g ?t1"
  have rel: "timer_inv L (X - {a}) k (xtimer_node_release a tm) \<and> calm (X - {a}) tm (xtimer_node_release a tm)"
    using release_inv [OF inv a logged] release_calm by blast
  show ?thesis
  proof (cases "cancelled n \<or> \<not> (repeat_num n > 0 \<and> repeat_interval n \<ge> 0)")
    case True
    then have "finish_node a tm = xtimer_node_release a tm" using a by (auto simp: finish_node_def)
    with rel show ?thesis by simp
  next
    case False
    have i1: "timer_inv L X (Suc k) ?t1"
      by (rule touch_inv [OF inv a]) (use False D(8) [OF a(2) al] in auto)
    have c1: "calm (X - {a}) tm ?t1" by (rule calm_change) auto
    show ?thesis
    proof (cases "repeat_num n - 1 > 0")
      case True
      then have eq: "finish_node a tm = xtimer_insert a ?t2" using False a by (simp add: finish_node_def)
      have n1: "nodes ?t1 a = Some (?f n)" and n2: "nodes ?t2 a = Some (?g (?f n))" using a by simp_all
      have i2: "timer_inv L X (Suc k) ?t2"
        by (rule touch_inv [OF i1 a(1) n1]) (use False in auto)
      have fired: "\<exists>e c. TFired (serial n) e c \<in> set (events tm)" using ended False by blast
      have ok: "current_jiffies tm < expire n + nat (repeat_interval n)
          \<or> repeat_interval n = 0 \<and> (\<exists>e c. TFired (serial n) e c \<in> set (events tm))"
        using due False fired by (cases "repeat_interval n = 0") (auto simp: late_def)
      have "timer_inv L (X - {a}) k (finish_node a tm)"
        unfolding eq by (rule insert_inv [OF i2 a(1) n2]) (use ok False in \<open>auto simp: late_def\<close>)
      moreover have "calm (X - {a}) ?t1 ?t2" by (rule calm_change) auto
      ultimately show ?thesis
        using c1 insert_calm [OF n2] calm_trans unfolding eq by blast
    next
      case F2: False
      then have eq: "finish_node a tm = xtimer_node_release a ?t1"
        using False a by (simp add: finish_node_def)
      have "timer_inv L (X - {a}) k (finish_node a tm)"
        unfolding eq by (rule release_inv [OF i1 a(1), of "?f n"]) (use a logged in auto)
      with c1 release_calm calm_trans show ?thesis unfolding eq by blast
    qed
  qed
qed

lemma process_node_inv:
  assumes inv: "timer_inv UNIV X k tm" and a: "a \<in> X" and set: "settled X tm" and due: "due X tm"
    and clock: "current_jiffies tm < current_time tm"
  shows "timer_inv UNIV (X - {a}) k (process_node prog a tm)
    \<and> calm (X - {a}) tm (process_node prog a tm)"
proof -
  note D = timer_invD [OF inv]
  obtain n where n: "nodes tm a = Some n" "\<not> in_free_list n"
    using D(5) a by (auto simp: live_def)
  let ?t0 = "tm\<lparr>active_count := active_count tm - 1\<rparr>"
  have i0: "timer_inv UNIV X (Suc k) ?t0" using uncount_inv [OF inv] .
  have c0: "calm Y tm ?t0" for Y by (simp add: calm_def)
  have dn: "current_jiffies tm \<le> expire n \<or> late (events tm) n" using due a n by (auto simp: due_def)
  show ?thesis
  proof (cases "\<not> cancelled n \<and> current_time tm < expire n")
    case True
    then have eq: "process_node prog a tm = xtimer_insert a ?t0"
      using n by (simp add: process_node_def)
    have n0: "nodes ?t0 a = Some n" using n by simp
    have "timer_inv UNIV (X - {a}) k (xtimer_insert a ?t0)"
      by (rule insert_inv [OF i0 a n0]) (use True clock in auto)
    with insert_calm [OF n0, of X] c0 [of "X - {a}"] calm_trans show ?thesis unfolding eq by blast
  next
    case False
    let ?t1 = "upd_node a (\<lambda>n. n\<lparr>firing := True\<rparr>) ?t0"
    let ?t2 = "if cancelled n then ?t1
       else log_event (TFired (serial n) (expire n) (current_time ?t1)) ?t1"
    let ?t3 = "run_callback prog n ?t2"
    let ?t4 = "upd_node a (\<lambda>n. n\<lparr>firing := False\<rparr>) ?t3"
    have eq: "process_node prog a tm = finish_node a ?t4"
      using n False by (auto simp: process_node_def Let_def)
    have n0: "nodes ?t0 a = Some n" using n by simp
    have i1: "timer_inv UNIV X (Suc k) ?t1"
      by (rule touch_inv [OF i0 a n0]) (use n D(7) [OF n(1)] D(8) [OF n(1)] in auto)
    then have i2: "timer_inv UNIV X (Suc k) ?t2" using log_inv by simp
    have n2: "nodes ?t2 a = Some (n\<lparr>firing := True\<rparr>)" using n by simp
    have s2: "settled X ?t2" using set n by (auto simp: settled_def)
    have k2: "current_jiffies ?t2 = current_jiffies tm" "current_time ?t2 = current_time tm" by simp_all
    have run: "timer_inv UNIV X (Suc k) ?t3 \<and> settled X ?t3 \<and> calm X ?t2 ?t3"
      using calls_inv [OF i2 s2, of "prog (callback n) (user_data n) ?t2"] i2 s2 clock
      unfolding k2 run_callback_def by auto
    then have "keeps (nodes ?t2 a) (nodes ?t3 a)" using a by (simp add: calm_def)
    then obtain m where m: "nodes ?t3 a = Some m" "expire m = expire n" "serial m = serial n"
      "repeat_interval m = repeat_interval n" "cancelled n \<longrightarrow> cancelled m"
      unfolding n2 by (auto simp: keeps_def)
    have i3: "timer_inv UNIV X (Suc k) ?t3" using run by blast
    note D3 = timer_invD [OF i3]
    have al3: "\<not> in_free_list m" using D3(5) a m(1) by (auto simp: live_def)
    have i4: "timer_inv UNIV X (Suc k) ?t4"
      by (rule touch_inv [OF i3 a m(1)]) (use m D3(7) [OF m(1)] D3(8) [OF m(1)] al3 in auto)
    have ev: "set (events ?t2) \<subseteq> set (events ?t3)" "current_jiffies ?t3 = current_jiffies tm"
      using run by (auto simp: calm_def)
    have sub: "set (events tm) \<subseteq> set (events ?t2)" by auto
    let ?m = "m\<lparr>firing := False\<rparr>"
    have n4: "nodes ?t4 a = Some ?m" using m by simp
    have "cancelled ?m \<or> (\<exists>e c. TFired (serial ?m) e c \<in> set (events ?t4))"
    proof (cases "cancelled n")
      case False
      then have "TFired (serial n) (expire n) (current_time tm) \<in> set (events ?t2)" by simp
      with ev(1) m(3) show ?thesis by auto
    qed (use m in simp)
    moreover have "current_jiffies ?t4 \<le> expire ?m \<or> late (events ?t4) ?m"
    proof -
      have "current_jiffies tm \<le> expire n \<or> late (events ?t3) n"
        using dn late_mono [OF subset_trans [OF sub ev(1)], of n] by blast
      moreover have "late (events ?t4) ?m = late (events ?t3) n" by (simp add: late_def m)
      ultimately show ?thesis using m(2) ev(2) by simp
    qed
    ultimately have F: "timer_inv UNIV (X - {a}) k (finish_node a ?t4)
        \<and> calm (X - {a}) ?t4 (finish_node a ?t4)"
      by (rule finish_node_inv [OF i4 a n4])
    have "calm (X - {a}) tm ?t2" by (rule calm_change) auto
    moreover have "calm (X - {a}) ?t2 ?t3" using run calm_subset by blast
    moreover have "calm (X - {a}) ?t3 ?t4" by (rule calm_change) auto
    ultimately have "calm (X - {a}) tm ?t4" using calm_trans by blast
    with F calm_trans show ?thesis unfolding eq by blast
  qed
qed

lemma settled_calm:
  assumes "settled X tm" "calm X tm tm'" "X \<subseteq> live tm"
  shows "settled X tm'"
  unfolding settled_def
proof (intro ballI allI impI)
  fix a m assume a: "a \<in> X" "nodes tm' a = Some m"
  with assms(3) obtain n where n: "nodes tm a = Some n" by (auto simp: live_def)
  with a assms(1,2) show "status m \<noteq> TIMER_PENDING"
    by (force simp: calm_def keeps_def settled_def)
qed

lemma process_all_inv:
  assumes "distinct xs" "timer_inv UNIV (set xs) k tm" "settled (set xs) tm" "due (set xs) tm"
    and "current_jiffies tm < current_time tm"
  shows "timer_inv UNIV {} k (fold (process_node prog) xs tm)
    \<and> calm {} tm (fold (process_node prog) xs tm)"
  using assms
proof (induction xs arbitrary: tm)
  case (Cons a xs)
  let ?t = "process_node prog a tm"
  have X: "set (a # xs) - {a} = set xs" using Cons.prems(1) by auto
  note P = process_node_inv [OF Cons.prems(2) _ Cons.prems(3-5), of a prog, unfolded X]
  have sub: "set xs \<subseteq> live tm" using timer_invD(5) [OF Cons.prems(2)] by auto
  have "settled (set xs) tm" "due (set xs) tm"
    using Cons.prems(3,4) by (auto simp: settled_def due_def)
  then have "settled (set xs) ?t" "due (set xs) ?t"
    using P settled_calm [OF _ _ sub] due_calm [OF _ _ sub] by auto
  moreover have t: "current_jiffies ?t = current_jiffies tm" "current_time ?t = current_time tm"
    using P by (auto simp: calm_def)
  ultimately have "timer_inv UNIV {} k (fold (process_node prog) xs ?t)
      \<and> calm {} ?t (fold (process_node prog) xs ?t)"
    using Cons.prems(1,5) P by (intro Cons.IH) auto
  moreover have "calm {} tm ?t" using P calm_subset by auto
  ultimately show ?case using calm_trans by auto
qed simp

section \<open>Cascades\<close>

lemma placed_next:
  assumes "placed j evs n"
    and "\<not> (wheel_unit (level n) dvd j \<and> slot n = j div wheel_unit (level n) mod wheel_slots (level n))"
  shows "placed (j + 1) evs n"
proof -
  from assms(1) obtain q where q: "level n < 5" "slot n = q mod wheel_slots (level n)"
    "j \<le> q * wheel_unit (level n)"
    "q * wheel_unit (level n) \<le> expire n \<or> late evs n" by (auto simp: placed_def)
  have "0 < wheel_unit (level n)" by (simp add: wheel_unit_def)
  with assms(2) q(2) have "j \<noteq> q * wheel_unit (level n)" by auto
  with q show ?thesis unfolding placed_def by (intro conjI exI [of _ q]) auto
qed

lemma level_done:
  assumes inv: "timer_inv L X k tm"
    and "\<And>a n. nodes tm a = Some n \<Longrightarrow> a \<notin> X \<Longrightarrow> level n = lv \<Longrightarrow> status n = TIMER_PENDING \<Longrightarrow>
      \<not> (wheel_unit lv dvd current_jiffies tm
         \<and> slot n = current_jiffies tm div wheel_unit lv mod wheel_slots lv)"
  shows "timer_inv (insert lv L) X k tm"
proof -
  note D = timer_invD [OF inv]
  show ?thesis
  proof (rule timer_invI)
    show "status n = TIMER_PENDING \<and> pend_ok (insert lv L) (current_jiffies tm) (events tm) n"
      if n: "nodes tm a = Some n" "a \<notin> X" "\<not> in_free_list n" for a n
    proof -
      note p = D(10) [OF n]
      then have "level n = lv \<Longrightarrow> placed (current_jiffies tm + 1) (events tm) n"
        using assms(2) [OF n(1,2)] by (intro placed_next) (auto simp: pend_ok_def)
      with p show ?thesis by (auto simp: pend_ok_def)
    qed
    show "\<exists>b m. nodes tm b = Some m \<and> \<not> in_free_list m \<and> serial m = i"
      if "1 \<le> i" "i < created tm" "i \<notin> event_id ` set (events tm)" for i
      using timer_inv_id [OF inv that] .
  qed (rule D(1,2,3,4,5,6,7,8,9,11,12); assumption)+
qed

text \<open>Nodes that may be inserted again.\<close>

definition movable :: "addr set \<Rightarrow> xTimerSet \<Rightarrow> bool" where
  "movable X tm \<longleftrightarrow> (\<forall>a \<in> X. \<exists>n. nodes tm a = Some n \<and> \<not> cancelled n
     \<and> (current_jiffies tm \<le> expire n \<or> late (events tm) n))"

definition same_clock :: "xTimerSet \<Rightarrow> xTimerSet \<Rightarrow> bool" where
  "same_clock tm tm' \<longleftrightarrow> current_jiffies tm' = current_jiffies tm
     \<and> current_time tm' = current_time tm \<and> events tm' = events tm"

lemma reinsert_inv:
  assumes "timer_inv L (set xs) k tm" "0 \<notin> L" "distinct xs" "movable (set xs) tm"
  defines "tm' \<equiv> fold (\<lambda>a tm. xtimer_insert a (tm\<lparr>active_count := active_count tm - 1\<rparr>)) xs tm"
  shows "timer_inv L {} k tm' \<and> same_clock tm tm'"
  using assms(1,3,4) unfolding tm'_def
proof (induction xs arbitrary: tm)
  case (Cons a xs)
  let ?t0 = "tm\<lparr>active_count := active_count tm - 1\<rparr>"
  let ?t1 = "xtimer_insert a ?t0"
  from Cons.prems(3) obtain n where n: "nodes tm a = Some n" "\<not> cancelled n"
    "current_jiffies tm \<le> expire n \<or> late (events tm) n" by (auto simp: movable_def)
  then have n0: "nodes ?t0 a = Some n" by simp
  have "timer_inv L (set (a # xs) - {a}) k ?t1"
    by (rule insert_inv [OF uncount_inv [OF Cons.prems(1)] _ n0 n(2)])
      (use n(3) assms(2) in auto)
  moreover have "set (a # xs) - {a} = set xs" using Cons.prems(2) by auto
  ultimately have i1: "timer_inv L (set xs) k ?t1" by simp
  obtain lv sl where calc: "xtimer_calc_slot (current_jiffies ?t0) (expire n) = (lv, sl)" by fastforce
  note eq = xtimer_insert_eq [OF n0 calc]
  have "movable (set xs) ?t1" using Cons.prems(2,3) unfolding eq by (auto simp: movable_def)
  with i1 Cons.prems(2) Cons.IH [of ?t1] have
    "timer_inv L {} k (fold (\<lambda>a tm. xtimer_insert a (tm\<lparr>active_count := active_count tm - 1\<rparr>)) xs ?t1)
     \<and> same_clock ?t1 (fold (\<lambda>a tm. xtimer_insert a (tm\<lparr>active_count := active_count tm - 1\<rparr>)) xs ?t1)"
    by simp
  moreover have "same_clock tm ?t1" unfolding eq by (simp add: same_clock_def)
  ultimately show ?case by (simp add: same_clock_def)
qed (simp add: same_clock_def)

lemma slot_taken:
  assumes inv: "timer_inv L {} k tm"
  shows "timer_inv (insert lv L) (set (tv tm lv (current_jiffies tm div wheel_unit lv mod wheel_slots lv))) k
      (set_slot lv (current_jiffies tm div wheel_unit lv mod wheel_slots lv) [] tm)"
    and "movable (set (tv tm lv sl)) tm" and "a \<in> set (tv tm lv sl) \<Longrightarrow> \<exists>n. nodes tm a = Some n \<and> \<not> in_free_list n"
proof -
  note D = timer_invD [OF inv]
  let ?sl = "current_jiffies tm div wheel_unit lv mod wheel_slots lv"
  let ?tm = "set_slot lv ?sl [] tm"
  have mem: "\<exists>n. nodes tm b = Some n \<and> \<not> in_free_list n \<and> pend_ok L (current_jiffies tm) (events tm) n"
    if b: "b \<in> set (tv tm l s)" for b l s
  proof -
    from b D(2) obtain n where n: "nodes tm b = Some n" "status n = TIMER_PENDING"
      by (auto simp: linked_in_def)
    with D(9) have "\<not> in_free_list n" by fastforce
    with n D(10) show ?thesis by blast
  qed
  then show "a \<in> set (tv tm lv sl) \<Longrightarrow> \<exists>n. nodes tm a = Some n \<and> \<not> in_free_list n" by blast
  show "movable (set (tv tm lv sl)) tm"
    unfolding movable_def
  proof
    fix b assume "b \<in> set (tv tm lv sl)"
    from mem [OF this] obtain n where
      n: "nodes tm b = Some n" "pend_ok L (current_jiffies tm) (events tm) n" by blast
    then show "\<exists>n. nodes tm b = Some n \<and> \<not> cancelled n
        \<and> (current_jiffies tm \<le> expire n \<or> late (events tm) n)"
      using le_trans by (fastforce simp: pend_ok_def placed_def)
  qed
  have i: "timer_inv L ({} \<union> set (tv tm lv ?sl)) k ?tm" by (rule take_slot_inv [OF inv])
  then have i: "timer_inv L (set (tv tm lv ?sl)) k ?tm" by simp
  have j: "current_jiffies ?tm = current_jiffies tm" "nodes ?tm = nodes tm" by (simp_all add: set_slot_def)
  show "timer_inv (insert lv L) (set (tv tm lv ?sl)) k ?tm"
    by (rule level_done [OF i]) (use D(2) in \<open>auto simp: j linked_in_def\<close>)
qed

lemma cascade_inv:
  assumes inv: "timer_inv L {} k tm" and "0 \<notin> insert lv L"
    and sl: "sl = current_jiffies tm div wheel_unit lv mod wheel_slots lv"
  shows "timer_inv (insert lv L) {} k (xtimer_cascade lv sl tm) \<and> same_clock tm (xtimer_cascade lv sl tm)"
proof -
  let ?tm = "set_slot lv sl [] tm"
  have s: "same_clock tm ?tm" by (simp add: same_clock_def set_slot_def)
  have "movable (set (tv tm lv sl)) ?tm"
    using slot_taken(2) [OF inv, of lv sl] by (simp add: movable_def set_slot_def)
  with reinsert_inv [OF slot_taken(1) [OF inv, of lv, folded sl] assms(2) timer_invD(1) [OF inv]] s
  show ?thesis by (simp add: xtimer_cascade_def same_clock_def)
qed

lemma skip_inv:
  "timer_inv L {} k tm \<Longrightarrow> \<not> wheel_unit lv dvd current_jiffies tm \<Longrightarrow> timer_inv (insert lv L) {} k tm"
  by (rule level_done) auto

lemma insert_jiffies [simp]: "current_jiffies (xtimer_insert a tm) = current_jiffies tm"
  by (simp add: xtimer_insert_def xtimer_add_head_def Let_def split: option.split prod.split)

lemma cascade_jiffies [simp]: "current_jiffies (xtimer_cascade lv sl tm) = current_jiffies tm"
proof -
  have "current_jiffies (fold (\<lambda>a tm. xtimer_insert a (tm\<lparr>active_count := active_count tm - 1\<rparr>)) xs t)
      = current_jiffies t" for xs t
    by (induction xs arbitrary: t) auto
  then show ?thesis by (simp add: xtimer_cascade_def set_slot_def)
qed

definition stage :: "nat \<Rightarrow> xTimerSet \<Rightarrow> xTimerSet" where
  "stage lv tm =
     (if wheel_unit lv dvd current_jiffies tm
      then xtimer_cascade lv (current_jiffies tm div wheel_unit lv mod wheel_slots lv) tm
      else tm)"

lemma stage_jiffies [simp]: "current_jiffies (stage lv tm) = current_jiffies tm"
  by (simp add: stage_def)

lemma stage_inv:
  "timer_inv L {} k tm \<Longrightarrow> 0 \<notin> insert lv L \<Longrightarrow>
     timer_inv (insert lv L) {} k (stage lv tm) \<and> same_clock tm (stage lv tm)"
  using cascade_inv [OF _ _ refl] skip_inv by (auto simp: stage_def same_clock_def)

lemma dvd_split: "0 < u \<Longrightarrow> (j :: nat) mod u = 0 \<and> j div u mod m = 0 \<longleftrightarrow> u * m dvd j"
proof
  assume u: "0 < u" and h: "j mod u = 0 \<and> j div u mod m = 0"
  then have "u dvd j" "m dvd j div u" by (simp_all add: dvd_eq_mod_eq_0)
  then show "u * m dvd j" by (metis dvd_div_mult_self mult.commute mult_dvd_mono dvd_refl)
next
  assume "0 < u" "u * m dvd j"
  then obtain c where "j = u * m * c" by (auto simp: dvd_def)
  with \<open>0 < u\<close> show "j mod u = 0 \<and> j div u mod m = 0" by (simp add: mult.assoc)
qed

lemma tick_cascade_stages: "tick_cascade tm = stage 1 (stage 2 (stage 3 (stage 4 tm)))"
proof -
  let ?j = "current_jiffies tm"
  have d: "?j div 256 mod 64 = 0 \<longleftrightarrow> 16384 dvd ?j" if "256 dvd ?j"
    using dvd_split [of 256 ?j 64] that by (simp add: dvd_eq_mod_eq_0)
  have e: "?j div 16384 mod 64 = 0 \<longleftrightarrow> 1048576 dvd ?j" if "16384 dvd ?j"
    using dvd_split [of 16384 ?j 64] that by (simp add: dvd_eq_mod_eq_0)
  have f: "?j div 1048576 mod 64 = 0 \<longleftrightarrow> 67108864 dvd ?j" if "1048576 dvd ?j"
    using dvd_split [of 1048576 ?j 64] that by (simp add: dvd_eq_mod_eq_0)
  have up: "67108864 dvd ?j \<Longrightarrow> 1048576 dvd ?j" "1048576 dvd ?j \<Longrightarrow> 16384 dvd ?j"
    "16384 dvd ?j \<Longrightarrow> 256 dvd ?j"
    by (rule dvd_trans [rotated], assumption, simp)+
  have idx: "?j AND (TVR_SIZE - 1) = ?j mod 256"
    "drop_bit TVR_BITS ?j AND (TVN_SIZE - 1) = ?j div 256 mod 64"
    "drop_bit (TVR_BITS + TVN_BITS) ?j AND (TVN_SIZE - 1) = ?j div 16384 mod 64"
    "drop_bit (TVR_BITS + 2 * TVN_BITS) ?j AND (TVN_SIZE - 1) = ?j div 1048576 mod 64"
    "drop_bit (TVR_BITS + 3 * TVN_BITS) ?j AND (TVN_SIZE - 1) = ?j div 67108864 mod 64"
    by (simp_all add: timer_consts and_255 and_63 drop_bit_eq_div)
  have a: "?j mod 256 = 0 \<longleftrightarrow> 256 dvd ?j" by (rule mod_eq_0_iff_dvd)
  show ?thesis
  proof (cases "256 dvd ?j")
    case False
    then have "\<not> 16384 dvd ?j" "\<not> 1048576 dvd ?j" "\<not> 67108864 dvd ?j" using up by blast+
    with False show ?thesis unfolding tick_cascade_def Let_def idx a
      by (simp add: stage_def wheel_unit_def)
  next
    case T1: True
    show ?thesis
    proof (cases "16384 dvd ?j")
      case False
      then have "\<not> 1048576 dvd ?j" "\<not> 67108864 dvd ?j" using up by blast+
      with False T1 show ?thesis unfolding tick_cascade_def Let_def idx a d [OF T1]
        by (simp add: stage_def wheel_unit_def wheel_slots_def)
    next
      case T2: True
      show ?thesis
      proof (cases "1048576 dvd ?j")
        case False
        then have "\<not> 67108864 dvd ?j" using up by blast
        with False T1 T2 show ?thesis unfolding tick_cascade_def Let_def idx a d [OF T1] e [OF T2]
          by (simp add: stage_def wheel_unit_def wheel_slots_def)
      next
        case T3: True
        have st: "stage 1 t = (if 256 dvd current_jiffies t
              then xtimer_cascade 1 (current_jiffies t div 256 mod 64) t else t)"
          "stage 2 t = (if 16384 dvd current_jiffies t
              then xtimer_cascade 2 (current_jiffies t div 16384 mod 64) t else t)"
          "stage 3 t = (if 1048576 dvd current_jiffies t
              then xtimer_cascade 3 (current_jiffies t div 1048576 mod 64) t else t)"
          "stage 4 t = (if 67108864 dvd current_jiffies t
              then xtimer_cascade 4 (current_jiffies t div 67108864 mod 64) t else t)" for t
          by (simp_all add: stage_def wheel_unit_def wheel_slots_def)
        show ?thesis
          unfolding tick_cascade_def Let_def idx a d [OF T1] e [OF T2] f [OF T3]
          by (cases "67108864 dvd ?j") (simp_all only: st cascade_jiffies T1 T2 T3 if_True if_False simp_thms)
      qed
    qed
  qed
qed

lemma tick_cascade_inv:
  assumes "timer_inv {} {} k tm"
  shows "timer_inv {1, 2, 3, 4} {} k (tick_cascade tm) \<and> same_clock tm (tick_cascade tm)"
proof -
  from stage_inv [OF assms, of 4] have
    a: "timer_inv {4} {} k (stage 4 tm)" "same_clock tm (stage 4 tm)" by simp_all
  from stage_inv [OF a(1), of 3] have b: "timer_inv {3, 4} {} k (stage 3 (stage 4 tm))"
    "same_clock (stage 4 tm) (stage 3 (stage 4 tm))" by simp_all
  from stage_inv [OF b(1), of 2] have c: "timer_inv {2, 3, 4} {} k (stage 2 (stage 3 (stage 4 tm)))"
    "same_clock (stage 3 (stage 4 tm)) (stage 2 (stage 3 (stage 4 tm)))" by simp_all
  from stage_inv [OF c(1), of 1] a b c show ?thesis
    unfolding tick_cascade_stages by (simp add: same_clock_def)
qed

section \<open>A tick\<close>

lemma all_levels:
  assumes inv: "timer_inv {0, 1, 2, 3, 4} X k tm"
  shows "timer_inv UNIV X k tm"
proof -
  note D = timer_invD [OF inv]
  show ?thesis
  proof (rule timer_invI)
    show "status n = TIMER_PENDING \<and> pend_ok UNIV (current_jiffies tm) (events tm) n"
      if n: "nodes tm a = Some n" "a \<notin> X" "\<not> in_free_list n" for a n
    proof -
      note p = D(10) [OF n]
      then have l5: "level n < 5" by (simp add: pend_ok_def placed_def)
      have "x < 5 \<Longrightarrow> x \<in> {0, 1, 2, 3, 4}" for x :: nat by (simp, arith)
      then have "level n \<in> {0, 1, 2, 3, 4}" using l5 by blast
      with p show ?thesis unfolding pend_ok_def by blast
    qed
    show "\<exists>b m. nodes tm b = Some m \<and> \<not> in_free_list m \<and> serial m = i"
      if "1 \<le> i" "i < created tm" "i \<notin> event_id ` set (events tm)" for i
      using timer_inv_id [OF inv that] .
  qed (rule D(1,2,3,4,5,6,7,8,9,11,12); assumption)+
qed

lemma next_tick_inv:
  assumes inv: "timer_inv UNIV {} k tm"
  shows "timer_inv {} {} k (tm\<lparr>current_jiffies := current_jiffies tm + 1\<rparr>)"
proof -
  note D = timer_invD [OF inv]
  let ?tm = "tm\<lparr>current_jiffies := current_jiffies tm + 1\<rparr>"
  have l: "live ?tm = live tm" "linked_in ?tm a lv sl = linked_in tm a lv sl"
    "tv ?tm = tv tm" "nodes ?tm = nodes tm" "free_list ?tm = free_list tm" "m_next ?tm = m_next tm"
    "events ?tm = events tm" "active_count ?tm = active_count tm" "free_count ?tm = free_count tm"
    "created ?tm = created tm" "current_jiffies ?tm = current_jiffies tm + 1" for a lv sl
    by (simp_all add: live_def linked_in_def)
  show ?thesis
  proof (rule timer_invI, unfold l)
    show "status n = TIMER_PENDING \<and> pend_ok {} (current_jiffies tm + 1) (events tm) n"
      if n: "nodes tm a = Some n" "a \<notin> {}" "\<not> in_free_list n" for a n
      using D(10) [OF n] by (simp add: pend_ok_def)
    show "\<exists>b m. nodes tm b = Some m \<and> \<not> in_free_list m \<and> serial m = i"
      if "1 \<le> i" "i < created tm" "i \<notin> event_id ` set (events tm)" for i
      using timer_inv_id [OF inv that] .
  qed (rule D(1,2,3,4,5,6,7,8,9,11,12); assumption)+
qed

lemma run_status_inv:
  assumes "timer_inv L X k tm" "set xs \<subseteq> X"
  defines "tm' \<equiv> fold (\<lambda>a. upd_node a (\<lambda>n. n\<lparr>status := TIMER_RUNNING\<rparr>)) xs tm"
  shows "timer_inv L X k tm' \<and> same_clock tm tm'
    \<and> (\<forall>b. nodes tm' b = (if b \<in> set xs then map_option (\<lambda>n. n\<lparr>status := TIMER_RUNNING\<rparr>) (nodes tm b)
          else nodes tm b))"
  using assms(1,2) unfolding tm'_def
proof (induction xs arbitrary: tm)
  case (Cons a xs)
  let ?f = "\<lambda>n. n\<lparr>status := TIMER_RUNNING\<rparr>"
  note D = timer_invD [OF Cons.prems(1)]
  obtain n where n: "nodes tm a = Some n" "\<not> in_free_list n"
    using D(5) Cons.prems(2) by (auto simp: live_def)
  have "timer_inv L X k (upd_node a ?f tm)"
    by (rule touch_inv [OF Cons.prems(1) _ n(1)])
      (use Cons.prems(2) n D(7) [OF n(1)] D(8) [OF n(1)] in auto)
  moreover have "map_option ?f (map_option ?f x) = map_option ?f x" for x :: "xTimerNode option"
    by (cases x) auto
  ultimately show ?case
    using Cons.IH [of "upd_node a ?f tm"] Cons.prems(2) by (simp add: same_clock_def)
qed (simp add: same_clock_def)

lemma tick_inv:
  assumes inv: "timer_inv {} {} k tm" and clock: "current_jiffies tm < current_time tm"
  shows "timer_inv {} {} k (xtimer_tick prog tm)
    \<and> current_jiffies (xtimer_tick prog tm) = current_jiffies tm + 1
    \<and> current_time (xtimer_tick prog tm) = current_time tm"
proof -
  let ?sl = "current_jiffies tm div wheel_unit 0 mod wheel_slots 0"
  have sl: "current_jiffies tm AND (TVR_SIZE - 1) = ?sl"
    by (simp add: timer_consts and_255 wheel_unit_def wheel_slots_def)
  let ?t1 = "tick_cascade tm"
  note C = tick_cascade_inv [OF inv]
  then have j1: "current_jiffies ?t1 = current_jiffies tm" "current_time ?t1 = current_time tm"
    by (simp_all add: same_clock_def)
  let ?xs = "tv ?t1 0 ?sl"
  let ?t2 = "set_slot 0 ?sl [] ?t1"
  have i1: "timer_inv {1, 2, 3, 4} {} k ?t1" using C by blast
  have i2: "timer_inv UNIV (set ?xs) k ?t2"
    using all_levels slot_taken(1) [OF i1, of 0] unfolding j1 by blast
  let ?t3 = "fold (\<lambda>a. upd_node a (\<lambda>n. n\<lparr>status := TIMER_RUNNING\<rparr>)) ?xs ?t2"
  note R = run_status_inv [OF i2 subset_refl]
  have n2: "nodes ?t2 = nodes ?t1" "events ?t2 = events ?t1" "current_jiffies ?t2 = current_jiffies tm"
    "current_time ?t2 = current_time tm"
    by (simp_all add: set_slot_def j1)
  have "settled (set ?xs) ?t3" using R by (auto simp: settled_def)
  moreover have "due (set ?xs) ?t3"
    unfolding due_def
  proof (intro ballI allI impI)
    fix a m assume a: "a \<in> set ?xs" "nodes ?t3 a = Some m"
    from slot_taken(2) [OF i1, of 0 ?sl] a(1) obtain n where
      n: "nodes ?t1 a = Some n" "current_jiffies ?t1 \<le> expire n \<or> late (events ?t1) n"
      by (auto simp: movable_def)
    have "m = n\<lparr>status := TIMER_RUNNING\<rparr>" using R a n(1) n2(1) by simp
    with n(2) R show "current_jiffies ?t3 \<le> expire m \<or> late (events ?t3) m"
      by (simp add: same_clock_def n2 j1 late_def)
  qed
  moreover have "distinct ?xs" using timer_invD(1) [OF i1] .
  moreover have t3: "current_jiffies ?t3 = current_jiffies tm" "current_time ?t3 = current_time tm"
    using R by (simp_all add: same_clock_def n2)
  ultimately have P: "timer_inv UNIV {} k (fold (process_node prog) ?xs ?t3)
      \<and> calm {} ?t3 (fold (process_node prog) ?xs ?t3)"
    using R clock by (intro process_all_inv) auto
  let ?t4 = "fold (process_node prog) ?xs ?t3"
  have eq: "xtimer_tick prog tm = ?t4\<lparr>current_jiffies := current_jiffies ?t4 + 1\<rparr>"
    unfolding xtimer_tick_def Let_def sl by (rule refl)
  have i4: "timer_inv UNIV {} k ?t4" and t4: "current_jiffies ?t4 = current_jiffies tm"
      "current_time ?t4 = current_time tm"
    using P t3 unfolding calm_def by simp_all
  show ?thesis
    unfolding eq using next_tick_inv [OF i4] t4 by simp
qed

lemma advance_inv:
  "timer_inv {} {} k tm \<Longrightarrow> current_jiffies tm \<le> current_time tm \<Longrightarrow>
     current_time tm - current_jiffies tm \<le> fuel \<Longrightarrow>
     timer_inv {} {} k (xtimer_advance prog fuel tm)
     \<and> current_jiffies (xtimer_advance prog fuel tm) = current_time tm
     \<and> current_time (xtimer_advance prog fuel tm) = current_time tm"
proof (induction fuel arbitrary: tm)
  case (Suc fuel)
  show ?case
  proof (cases "current_jiffies tm < current_time tm")
    case True
    from tick_inv [OF Suc.prems(1) True, of prog] Suc.IH [of "xtimer_tick prog tm"] Suc.prems True
    show ?thesis by simp
  next
    case False
    with Suc.prems show ?thesis by simp
  qed
qed simp

lemma rewind_inv:
  assumes inv: "timer_inv {} {} k tm" and t: "t \<le> current_jiffies tm"
  shows "timer_inv {} {} k (tm\<lparr>current_jiffies := t\<rparr>)"
proof -
  note D = timer_invD [OF inv]
  let ?tm = "tm\<lparr>current_jiffies := t\<rparr>"
  have l: "live ?tm = live tm" "linked_in ?tm a lv sl = linked_in tm a lv sl"
    "tv ?tm = tv tm" "nodes ?tm = nodes tm" "free_list ?tm = free_list tm" "m_next ?tm = m_next tm"
    "events ?tm = events tm" "active_count ?tm = active_count tm" "free_count ?tm = free_count tm"
    "created ?tm = created tm" "current_jiffies ?tm = t" for a lv sl
    by (simp_all add: live_def linked_in_def)
  show ?thesis
  proof (rule timer_invI, unfold l)
    show "status n = TIMER_PENDING \<and> pend_ok {} t (events tm) n"
      if n: "nodes tm a = Some n" "a \<notin> {}" "\<not> in_free_list n" for a n
      using D(10) [OF n] t le_trans unfolding pend_ok_def placed_def by blast
    show "\<exists>b m. nodes tm b = Some m \<and> \<not> in_free_list m \<and> serial m = i"
      if "1 \<le> i" "i < created tm" "i \<notin> event_id ` set (events tm)" for i
      using timer_inv_id [OF inv that] .
  qed (rule D(1,2,3,4,5,6,7,8,9,11,12); assumption)+
qed

lemma poll_inv:
  assumes "timer_inv {} {} k tm" and "xtimer_poll prog now tm = (r, tm')"
  shows "timer_inv {} {} k tm' \<and> current_jiffies tm' = now \<and> current_time tm' = now"
proof -
  let ?t = "tm\<lparr>current_time := now\<rparr>"
  have i: "timer_inv {} {} k ?t" by (rule clock_inv [OF assms(1)])
  show ?thesis
  proof (cases "now < current_jiffies tm")
    case True
    then have "tm' = ?t\<lparr>current_jiffies := now\<rparr>" using assms(2) by (simp add: xtimer_poll_def Let_def)
    with rewind_inv [OF i, of now] True show ?thesis by simp
  next
    case False
    then have "tm' = xtimer_advance prog (now - current_jiffies tm) ?t"
      using assms(2) by (auto simp: xtimer_poll_def Let_def)
    with advance_inv [OF i, of "now - current_jiffies tm" prog] False show ?thesis by simp
  qed
qed

end
