(* ===== verification/XTimerProps.thy ===== *)
theory XTimerProps
  imports XTimerPoll
begin

text \<open>The properties of the timing wheel, over every run of its interface.\<close>

section \<open>The pool\<close>

lemma prealloc_inv:
  "timer_inv {} {} 0 tm \<Longrightarrow> timer_inv {} {} 0 (xtimer_prealloc_nodes cnt tm)
     \<and> current_jiffies (xtimer_prealloc_nodes cnt tm) = current_jiffies tm
     \<and> current_time (xtimer_prealloc_nodes cnt tm) = current_time tm
     \<and> events (xtimer_prealloc_nodes cnt tm) = events tm"
proof (induction cnt tm rule: xtimer_prealloc_nodes.induct)
  case (1 cnt tm)
  let ?b = "m_next tm"
  let ?t = "tm\<lparr>nodes := (nodes tm)(?b \<mapsto> blank_node), m_next := ?b + 1,
     free_list := ?b # free_list tm, free_count := free_count tm + 1\<rparr>"
  note D = timer_invD [OF "1.prems"]
  have new: "nodes tm ?b = None"
    using D(6) [of ?b] by (cases "nodes tm ?b") auto
  have i1: "timer_inv {} {} 0 (tm\<lparr>m_next := ?b + 1\<rparr>)"
    by (rule timer_inv_frame [OF "1.prems"]) auto
  have l: "live ?t = live tm" "linked_in ?t a lv sl = linked_in tm a lv sl" for a lv sl
    using new by (auto simp: live_def linked_in_def blank_node_def)
  have "timer_inv {} {} 0 ?t"
  proof (rule timer_invI, unfold l)
    show "distinct (free_list ?t)" using D(3) D(4) [of ?b] new by auto
    show "(a \<in> set (free_list ?t)) = (\<exists>n. nodes ?t a = Some n \<and> in_free_list n)" for a
      using D(4) [of a] by (auto simp: blank_node_def)
    show "a < m_next ?t" if "nodes ?t a = Some n" for a n
      using that D(6) [of a n] by (auto split: if_splits)
    show "serial n \<in> event_id ` set (events ?t)"
      if "nodes ?t a = Some n" "cancelled n" "\<not> in_free_list n" for a n
      using that D(7) [of a n] by (auto simp: blank_node_def split: if_splits)
    show "0 \<le> repeat_interval n" if "nodes ?t a = Some n" "\<not> in_free_list n" for a n
      using that D(8) [of a n] by (auto simp: blank_node_def split: if_splits)
    show "status n = TIMER_FREE" if "nodes ?t a = Some n" "in_free_list n" for a n
      using that D(9) [of a n] by (auto simp: blank_node_def split: if_splits)
    show "status n = TIMER_PENDING \<and> pend_ok {} (current_jiffies ?t) (events ?t) n"
      if "nodes ?t a = Some n" "a \<notin> {}" "\<not> in_free_list n" for a n
      using that D(10) [of a n] by (auto simp: blank_node_def split: if_splits)
    show "\<exists>a n. nodes ?t a = Some n \<and> \<not> in_free_list n \<and> serial n = i"
      if "1 \<le> i" "i < created ?t" "i \<notin> event_id ` set (events ?t)" for i
    proof -
      have "1 \<le> i" "i < created tm" "i \<notin> event_id ` set (events tm)" using that by simp_all
      from timer_inv_id [OF "1.prems" this] obtain a n where
        "nodes tm a = Some n" "\<not> in_free_list n" "serial n = i" by blast
      with new show ?thesis by (intro exI [of _ a] exI [of _ n]) auto
    qed
  qed (use D(1,2,5,11,12) in auto)
  then show ?case
    using "1.IH" "1.prems" i1 by (subst (1 2 3 4) xtimer_prealloc_nodes.simps) auto
qed

definition timer_ok :: "xTimerSet \<Rightarrow> bool" where
  "timer_ok tm \<longleftrightarrow> timer_inv {} {} 0 tm \<and> current_jiffies tm = current_time tm"

lemma pool_create_inv:
  assumes "xtimer_pool_create cap now oom = Some tm"
  shows "timer_ok tm \<and> current_time tm = now \<and> events tm = []"
proof -
  let ?limit = "(let cap = (if cap < XTIMER_MIN_CAP then XTIMER_MIN_CAP else cap);
      limit = cap * XTIMER_FREELIST_MUL
     in if limit < int XTIMER_PREALLOC_COUNT then int XTIMER_PREALLOC_COUNT else limit)"
  let ?t = "\<lparr>current_jiffies = now, tv = (\<lambda>_ _. []), next_timer_id = 1,
       current_time = now, free_list = [], free_count = 0, free_limit = ?limit,
       active_count = 0, nodes = (\<lambda>_. None), m_next = 1, m_oom = oom, events = [], created = 1\<rparr>"
  have "timer_inv {} {} 0 ?t"
    by (rule timer_invI) (auto simp: live_def linked_in_def)
  moreover have "tm = xtimer_prealloc_nodes XTIMER_PREALLOC_COUNT ?t"
    using assms by (simp add: xtimer_pool_create_def Let_def split: if_splits)
  ultimately show ?thesis using prealloc_inv [of ?t] by (simp add: timer_ok_def)
qed

section \<open>Runs\<close>

datatype timer_op = OpCall timer_call | OpPoll nat

fun timer_step :: "timer_prog \<Rightarrow> timer_op \<Rightarrow> xTimerSet \<Rightarrow> xTimerSet" where
  "timer_step prog (OpCall c) tm = do_timer_call c tm"
| "timer_step prog (OpPoll now) tm = snd (xtimer_poll prog now tm)"

definition run_timers :: "timer_prog \<Rightarrow> timer_op list \<Rightarrow> xTimerSet \<Rightarrow> xTimerSet" where
  "run_timers prog ops tm = fold (timer_step prog) ops tm"

lemma call_ok: "timer_ok tm \<Longrightarrow> timer_ok (do_timer_call c tm)"
  using call_inv [of "{}" "{}" 0 tm c] by (simp add: timer_ok_def settled_def calm_def)

lemma poll_ok:
  "timer_ok tm \<Longrightarrow> xtimer_poll prog now tm = (r, tm') \<Longrightarrow> timer_ok tm' \<and> current_time tm' = now"
  using poll_inv [of 0 tm prog now r tm'] by (simp add: timer_ok_def)

lemma step_ok: "timer_ok tm \<Longrightarrow> timer_ok (timer_step prog op tm)"
  using call_ok poll_ok by (cases op) (simp_all, metis prod.collapse)

lemma run_ok: "timer_ok tm \<Longrightarrow> timer_ok (run_timers prog ops tm)"
  unfolding run_timers_def by (induction ops arbitrary: tm) (simp_all add: step_ok)

section \<open>When timers fire\<close>

fun on_time :: "timer_event \<Rightarrow> bool" where
  "on_time (TFired _ ex now) = (ex \<le> now)"
| "on_time _ = True"

definition punctual :: "xTimerSet \<Rightarrow> bool" where
  "punctual tm \<longleftrightarrow> list_all on_time (events tm)"

lemma insert_events [simp]: "events (xtimer_insert a tm) = events tm"
  and insert_clock [simp]: "current_time (xtimer_insert a tm) = current_time tm"
  by (simp_all add: xtimer_insert_def xtimer_add_head_def Let_def split: option.split prod.split)

lemma release_events [simp]: "events (xtimer_node_release a tm) = events tm"
  by (simp add: xtimer_node_release_def split: option.split)

lemma alloc_events:
  "xtimer_node_new i t iv cb ud rep tm = (r, tm') \<Longrightarrow> events tm' = events tm"
  by (auto simp: xtimer_node_new_def xtimer_node_alloc_def split: option.splits prod.splits list.splits if_splits)

lemma create_punctual: "punctual tm \<Longrightarrow> punctual (snd (xtimer_create iv cb ud rep tm))"
proof -
  assume p: "punctual tm"
  let ?iv = "if iv < 0 then 0 else iv"
  obtain r tm' where new: "xtimer_node_new (next_timer_id tm) (current_time tm + nat ?iv) ?iv cb ud
      (if rep = -1 then int INT_MAX else if rep < 1 then 1 else rep)
      (tm\<lparr>next_timer_id := next_timer_id tm + 1, created := created tm + 1\<rparr>) = (r, tm')" by fastforce
  have e: "events tm' = events tm" using alloc_events [OF new] by simp
  show ?thesis
    unfolding xtimer_create_def Let_def new
    using p e by (cases r) (simp_all add: punctual_def)
qed

lemma destroy_punctual: "punctual tm \<Longrightarrow> punctual (xtimer_destroy a tm)"
  by (auto simp: xtimer_destroy_def Let_def punctual_def xtimer_remove_def set_slot_def split: option.splits)

lemma call_punctual: "punctual tm \<Longrightarrow> punctual (do_timer_call c tm)"
  by (cases c) (simp_all add: create_punctual destroy_punctual)

lemma fold_punctual: "(\<And>x t. punctual t \<Longrightarrow> punctual (f x t)) \<Longrightarrow> punctual tm \<Longrightarrow> punctual (fold f xs tm)"
  by (induction xs arbitrary: tm) auto

lemma callback_punctual: "punctual tm \<Longrightarrow> punctual (run_callback prog n tm)"
  by (simp add: run_callback_def fold_punctual call_punctual)

lemma finish_punctual: "punctual tm \<Longrightarrow> punctual (finish_node a tm)"
  by (simp add: finish_node_def punctual_def Let_def split: option.split)

lemma upd_punctual [simp]: "punctual (upd_node a f tm) = punctual tm"
  by (simp add: punctual_def)

lemma process_punctual: "punctual tm \<Longrightarrow> punctual (process_node prog a tm)"
proof -
  assume p: "punctual tm"
  show ?thesis
  proof (cases "nodes tm a")
    case None
    with p show ?thesis by (simp add: process_node_def)
  next
    case (Some n)
    have "punctual (log_event (TFired (serial n) (expire n) (current_time tm))
        (upd_node a (\<lambda>n. n\<lparr>firing := True\<rparr>) (tm\<lparr>active_count := active_count tm - 1\<rparr>)))"
      if "expire n \<le> current_time tm"
      using p that by (auto simp: punctual_def)
    moreover have "punctual (upd_node a (\<lambda>n. n\<lparr>firing := True\<rparr>) (tm\<lparr>active_count := active_count tm - 1\<rparr>))"
      using p by (simp add: punctual_def)
    ultimately show ?thesis
      using p Some finish_punctual callback_punctual
      by (simp add: process_node_def Let_def) (simp add: punctual_def)
  qed
qed

lemma cascade_punctual: "punctual tm \<Longrightarrow> punctual (xtimer_cascade lv sl tm)"
  unfolding xtimer_cascade_def
  by (rule fold_punctual) (auto simp: punctual_def set_slot_def)

lemma stage_punctual: "punctual tm \<Longrightarrow> punctual (stage lv tm)"
  by (simp add: stage_def cascade_punctual)

lemma tick_punctual:
  assumes "punctual tm"
  shows "punctual (xtimer_tick prog tm)"
proof -
  let ?t1 = "tick_cascade tm"
  let ?sl = "current_jiffies tm AND (TVR_SIZE - 1)"
  let ?t2 = "fold (\<lambda>a. upd_node a (\<lambda>n. n\<lparr>status := TIMER_RUNNING\<rparr>)) (tv ?t1 0 ?sl) (set_slot 0 ?sl [] ?t1)"
  have "punctual ?t1" using assms by (simp add: tick_cascade_stages stage_punctual)
  then have "punctual (set_slot 0 ?sl [] ?t1)" by (simp add: punctual_def set_slot_def)
  then have "punctual ?t2" by (rule fold_punctual [rotated]) simp
  then have "punctual (fold (process_node prog) (tv ?t1 0 ?sl) ?t2)"
    by (rule fold_punctual [rotated]) (rule process_punctual)
  then show ?thesis by (simp add: xtimer_tick_def Let_def punctual_def)
qed

lemma advance_punctual: "punctual tm \<Longrightarrow> punctual (xtimer_advance prog fuel tm)"
  by (induction fuel arbitrary: tm) (simp_all add: tick_punctual)

lemma poll_punctual: "punctual tm \<Longrightarrow> punctual (snd (xtimer_poll prog now tm))"
  using advance_punctual [of "tm\<lparr>current_time := now\<rparr>"]
  by (simp add: xtimer_poll_def Let_def punctual_def)

lemma run_punctual: "punctual tm \<Longrightarrow> punctual (run_timers prog ops tm)"
  unfolding run_timers_def
proof (rule fold_punctual)
  fix op t assume "punctual t"
  then show "punctual (timer_step prog op t)" by (cases op) (simp_all add: call_punctual poll_punctual)
qed

section \<open>The first wheel and the result of a poll\<close>

lemma scan_index:
  assumes "i < 256"
  shows "(if j mod 256 + i \<ge> 256 then j mod 256 + i - 256 else j mod 256 + i) = (j + i) mod (256 :: nat)"
proof -
  define m where "m = j mod 256"
  have m: "m < 256" by (simp add: m_def)
  have "(j + i) mod 256 = (m + i) mod 256" by (simp add: m_def mod_simps)
  also have "\<dots> = (if m + i \<ge> 256 then m + i - 256 else m + i)"
    using assms m by (cases "m + i \<ge> 256") (simp_all add: le_mod_geq)
  finally show ?thesis by (simp add: m_def)
qed

lemma find_cong_set: "(\<And>x. x \<in> set xs \<Longrightarrow> P x = Q x) \<Longrightarrow> find P xs = find Q xs"
  by (induction xs) auto

lemma scan_slots_find:
  "scan_slots tm = find (\<lambda>i. tv tm 0 ((current_jiffies tm + i) mod 256) \<noteq> []) [0..<256]"
proof -
  have m: "current_jiffies tm AND (TVR_SIZE - 1) = current_jiffies tm mod 256"
    by (simp add: timer_consts and_255)
  show ?thesis
    unfolding scan_slots_def Let_def m unfolding TVR_SIZE_def
  proof (rule find_cong_set)
    fix i assume "i \<in> set [0..<256 :: nat]"
    then have "i < 256" by (simp only: set_upt atLeastLessThan_iff)
    then show "(tv tm 0 (if 256 \<le> current_jiffies tm mod 256 + i then current_jiffies tm mod 256 + i - 256
          else current_jiffies tm mod 256 + i) \<noteq> [])
        = (tv tm 0 ((current_jiffies tm + i) mod 256) \<noteq> [])"
      by (simp only: scan_index)
  qed
qed

lemma scan_slots_bound:
  assumes "i < (case scan_slots tm of Some r \<Rightarrow> r | None \<Rightarrow> 256)"
  shows "tv tm 0 ((current_jiffies tm + i) mod 256) = []"
proof (cases "scan_slots tm")
  case None
  with assms have "i < 256" by simp
  with None show ?thesis by (auto simp: scan_slots_find find_None_iff)
next
  case (Some r)
  then have "\<forall>j<r. \<not> tv tm 0 ((current_jiffies tm + [0..<256] ! j) mod 256) \<noteq> []" "r < 256"
    unfolding scan_slots_find find_Some_iff by auto
  with assms Some show ?thesis by simp
qed

lemma first_wheel_wait:
  assumes inv: "timer_inv {} {} k tm" and n: "nodes tm a = Some n" "status n = TIMER_PENDING" "level n = 0"
    and r: "r \<le> (case scan_slots tm of Some i \<Rightarrow> i | None \<Rightarrow> 256)"
  shows "current_jiffies tm + r \<le> expire n \<or> late (events tm) n"
proof -
  note D = timer_invD [OF inv]
  have "\<not> in_free_list n" using D(9) [OF n(1)] n(2) by auto
  with D(10) [OF n(1)] obtain q where q: "slot n = q mod 256" "current_jiffies tm \<le> q"
    "q \<le> expire n \<or> late (events tm) n"
    using n(3) by (auto simp: pend_ok_def placed_def wheel_unit_def wheel_slots_def)
  have "linked_in tm a 0 (q mod 256)" using n q(1) by (simp add: linked_in_def)
  then have ne: "a \<in> set (tv tm 0 (q mod 256))" using D(2) by blast
  have "\<not> q < current_jiffies tm + r"
  proof
    assume "q < current_jiffies tm + r"
    then have "q - current_jiffies tm < (case scan_slots tm of Some i \<Rightarrow> i | None \<Rightarrow> 256)"
      using r q(2) by simp
    from scan_slots_bound [OF this] ne q(2) show False by simp
  qed
  with q(3) show ?thesis by auto
qed

section \<open>Destruction\<close>

definition all_slots :: "(nat \<times> nat) list" where
  "all_slots = map (Pair 0) [0..<256] @ concat (map (\<lambda>lv. map (Pair lv) [0..<64]) [1..<5])"

lemma in_all_slots:
  assumes "lv < 5" and "sl < wheel_slots lv"
  shows "(lv, sl) \<in> set all_slots"
proof (cases "lv = 0")
  case True
  with assms(2) have "sl \<in> set [0..<256]" by (simp add: wheel_slots_def)
  with True show ?thesis by (simp add: all_slots_def)
next
  case False
  with assms have "lv \<in> set [1..<5]" "sl \<in> set [0..<64]" by (simp_all add: wheel_slots_def)
  then show ?thesis unfolding all_slots_def by fastforce
qed

lemma distinct_all_slots: "distinct all_slots"
  unfolding all_slots_def
  by (auto simp: distinct_map inj_on_def intro!: distinct_concat_map)

lemma pool_destroy_slots:
  "xtimer_pool_destroy tm = concat (map (\<lambda>(lv, sl). tv tm lv sl) all_slots) @ free_list tm"
proof -
  have c: "concat (map (\<lambda>(lv, sl). f lv sl) (concat (map (\<lambda>lv. map (Pair lv) is) ls)))
      = concat (map (\<lambda>lv. concat (map (f lv) is)) ls)" for f :: "nat \<Rightarrow> nat \<Rightarrow> addr list" and "is" ls
    by (induction ls) (simp_all add: comp_def)
  show ?thesis
    by (simp only: xtimer_pool_destroy_def all_slots_def timer_consts map_append concat_append c
        map_map comp_def prod.case append_assoc)
qed

lemma pool_destroy_exact:
  assumes inv: "timer_inv {} {} 0 tm"
  shows "distinct (xtimer_pool_destroy tm) \<and> set (xtimer_pool_destroy tm) = dom (nodes tm)"
proof -
  note D = timer_invD [OF inv]
  let ?f = "\<lambda>(lv, sl). tv tm lv sl"
  have one: "lv = lv' \<and> sl = sl'" if "a \<in> set (tv tm lv sl)" "a \<in> set (tv tm lv' sl')" for a lv sl lv' sl'
    using that D(2) by (auto simp: linked_in_def)
  have d1: "distinct (concat (map ?f all_slots))"
  proof (rule distinct_concat_map [OF distinct_all_slots])
    show "distinct (?f p)" for p using D(1) by (cases p) simp
    show "set (?f p) \<inter> set (?f p') = {}" if "p \<noteq> p'" for p p'
      using that one by (cases p; cases p') fastforce
  qed
  have s1: "set (concat (map ?f all_slots)) = {a. \<exists>n. nodes tm a = Some n \<and> \<not> in_free_list n}" (is "?l = ?r")
  proof (intro equalityI subsetI)
    fix a assume "a \<in> ?l"
    then obtain lv sl where "a \<in> set (tv tm lv sl)" by auto
    then obtain n where n: "nodes tm a = Some n" "status n = TIMER_PENDING"
      using D(2) by (auto simp: linked_in_def)
    with D(9) [OF n(1)] show "a \<in> ?r" by auto
  next
    fix a assume "a \<in> ?r"
    then obtain n where n: "nodes tm a = Some n" "\<not> in_free_list n" by blast
    from D(10) [OF n(1) _ n(2)] have p: "status n = TIMER_PENDING" "placed (current_jiffies tm) (events tm) n"
      by (auto simp: pend_ok_def)
    then have "(level n, slot n) \<in> set all_slots"
      by (intro in_all_slots) (auto simp: placed_def wheel_slots_def)
    moreover have "a \<in> set (tv tm (level n) (slot n))" using D(2) n p(1) by (auto simp: linked_in_def)
    ultimately show "a \<in> ?l" by force
  qed
  have s2: "set (free_list tm) = {a. \<exists>n. nodes tm a = Some n \<and> in_free_list n}" using D(4) by auto
  show ?thesis
    using d1 D(3) s1 s2 unfolding pool_destroy_slots by auto
qed

section \<open>Properties\<close>

text \<open>A pool whose preallocation stops at once, for the witnesses.\<close>

definition sample_pool :: xTimerSet where
  "sample_pool = \<lparr>current_jiffies = 300, tv = (\<lambda>_ _. []), next_timer_id = 1,
     current_time = 300, free_list = [], free_count = 0, free_limit = 10000,
     active_count = 0, nodes = (\<lambda>_. None), m_next = 2, m_oom = (\<lambda>k. k = 1), events = [], created = 1\<rparr>"

lemma sample_pool_created: "xtimer_pool_create 16 300 (\<lambda>k. k = 1) = Some sample_pool"
  by (simp add: xtimer_pool_create_def sample_pool_def XTIMER_MIN_CAP_def XTIMER_FREELIST_MUL_def
      XTIMER_PREALLOC_COUNT_def xtimer_prealloc_nodes.simps)

definition quiet :: timer_prog where
  "quiet cb ud tm = []"

text \<open>C6. After any run of \<open>xtimer_add\<close>, \<open>xtimer_del\<close> and polls on a created pool, with callbacks
  that add and delete timers, the wheel is consistent: every node in use is pending and linked in
  exactly the slot it records, the other allocated nodes are exactly the free list, and
  \<open>active_count\<close> is the number of pending timers.\<close>

theorem timer_run_consistent:
  assumes "xtimer_pool_create cap t0 oom = Some tm0" and "tm = run_timers prog ops tm0"
  shows "timer_inv {} {} 0 tm
    \<and> active_count tm = int (card {a. \<exists>n. nodes tm a = Some n \<and> status n = TIMER_PENDING})
    \<and> (\<forall>a lv sl. a \<in> set (tv tm lv sl)
         \<longleftrightarrow> (\<exists>n. nodes tm a = Some n \<and> status n = TIMER_PENDING \<and> level n = lv \<and> slot n = sl))"
proof -
  have inv: "timer_inv {} {} 0 tm"
    using run_ok [of tm0 prog ops] pool_create_inv [OF assms(1)] assms(2) by (simp add: timer_ok_def)
  note D = timer_invD [OF inv]
  have "in_free_list n = (status n \<noteq> TIMER_PENDING)" if "nodes tm a = Some n" for a n
    using D(9) [OF that] D(10) [OF that] by auto
  then have "live tm = {a. \<exists>n. nodes tm a = Some n \<and> status n = TIMER_PENDING}"
    by (auto simp: live_def)
  with inv D(2) D(11) show ?thesis by (simp add: linked_in_def)
qed

theorem timer_run_consistent_witness:
  "active_count (run_timers quiet [OpCall (CallAdd 256 1 0 3), OpPoll 310] sample_pool)
     = int (card {a. \<exists>n. nodes (run_timers quiet [OpCall (CallAdd 256 1 0 3), OpPoll 310] sample_pool) a
          = Some n \<and> status n = TIMER_PENDING})"
  using timer_run_consistent [OF sample_pool_created refl] by blast

text \<open>C5. No timer fires early: in every run, with clock readings in any order (also backwards)
  and timers of any length (segmented over the wheel or not), a callback runs only at a poll whose
  clock has reached the expiry of its timer.\<close>

theorem timer_never_early:
  assumes "xtimer_pool_create cap t0 oom = Some tm0"
    and "TFired i ex now \<in> set (events (run_timers prog ops tm0))"
  shows "ex \<le> now"
proof -
  have "punctual tm0" using pool_create_inv [OF assms(1)] by (simp add: punctual_def)
  from run_punctual [OF this, of prog ops] assms(2) show ?thesis
    by (auto simp: punctual_def list_all_iff)
qed

lemma advance_numeral:
  "xtimer_advance prog (numeral k) tm =
     (if current_jiffies tm < current_time tm
      then xtimer_advance prog (pred_numeral k) (xtimer_tick prog tm) else tm)"
  by (simp add: numeral_eq_Suc)

lemmas timer_eval = advance_numeral do_timer_call.simps xtimer_create_def XTIMER_MAX_INTERVAL_def Let_def
  xtimer_node_new_def xtimer_node_alloc_def xtimer_insert_def xtimer_calc_slot_def timer_consts
  and_255 and_63 xtimer_add_head_def upd_node_def xtimer_poll_def xtimer_tick_def tick_cascade_def
  set_slot_def process_node_def run_callback_def finish_node_def xtimer_node_release_def
  scan_slots_def log_event_def quiet_def

lemma sample_fired:
  "events (run_timers quiet [OpCall (CallAdd 0 1 0 1), OpPoll 301] sample_pool) = [TFired 1 300 301]"
  by (simp add: run_timers_def sample_pool_def timer_eval)

theorem timer_never_early_witness:
  "TFired 1 300 301 \<in> set (events (run_timers quiet [OpCall (CallAdd 0 1 0 1), OpPoll 301] sample_pool))
     \<and> (300 :: nat) \<le> 301"
  using timer_never_early [OF sample_pool_created, of 1 300 301 quiet] sample_fired by simp

text \<open>C4. No timer is lost or late: after any run and a poll at clock \<open>now\<close> (the loop that advances
  the wheel ends at \<open>now\<close>, cascading the upper wheels on the way), no pending timer has an expiry
  before \<open>now\<close>, with one exception, a timer of interval 0 that has fired already; and every timer
  ever created (they are numbered from 1) is pending, or has fired, was cancelled or was refused for lack of
  memory.\<close>

theorem timer_never_late:
  assumes "xtimer_pool_create cap t0 oom = Some tm0" and "tm = run_timers prog ops tm0"
    and "xtimer_poll prog now tm = (r, tm')"
  shows "current_jiffies tm' = now
    \<and> (\<forall>a n. nodes tm' a = Some n \<and> status n = TIMER_PENDING \<longrightarrow>
         now \<le> expire n \<or> repeat_interval n = 0 \<and> (\<exists>e c. TFired (serial n) e c \<in> set (events tm')))
    \<and> (\<forall>i. 1 \<le> i \<and> i < created tm' \<longrightarrow>
         (\<exists>a n. nodes tm' a = Some n \<and> status n = TIMER_PENDING \<and> serial n = i)
         \<or> i \<in> event_id ` set (events tm'))"
proof -
  have "timer_inv {} {} 0 tm"
    using run_ok [of tm0 prog ops] pool_create_inv [OF assms(1)] assms(2) by (simp add: timer_ok_def)
  from poll_inv [OF this assms(3)] have inv: "timer_inv {} {} 0 tm'" and j: "current_jiffies tm' = now"
    by auto
  note D = timer_invD [OF inv]
  have pend: "\<not> in_free_list n \<longleftrightarrow> status n = TIMER_PENDING" if "nodes tm' a = Some n" for a n
    using D(9) [OF that] D(10) [OF that] by auto
  have "now \<le> expire n \<or> late (events tm') n"
    if n: "nodes tm' a = Some n" "status n = TIMER_PENDING" for a n
    using D(10) [OF n(1)] pend [OF n(1)] n(2) le_trans unfolding j pend_ok_def placed_def by blast
  moreover have "(\<exists>a n. nodes tm' a = Some n \<and> status n = TIMER_PENDING \<and> serial n = i)
      \<or> i \<in> event_id ` set (events tm')" if "1 \<le> i" "i < created tm'" for i
    using timer_inv_id [OF inv that] pend by blast
  ultimately show ?thesis using j by (auto simp: late_def)
qed

theorem timer_never_late_witness:
  "\<exists>r tm'. xtimer_poll quiet 900 (run_timers quiet [OpCall (CallAdd 256 1 0 3)] sample_pool) = (r, tm')
     \<and> (\<forall>a n. nodes tm' a = Some n \<and> status n = TIMER_PENDING \<longrightarrow>
         900 \<le> expire n \<or> repeat_interval n = 0 \<and> (\<exists>e c. TFired (serial n) e c \<in> set (events tm')))"
proof -
  obtain r tm' where p: "xtimer_poll quiet 900 (run_timers quiet [OpCall (CallAdd 256 1 0 3)] sample_pool)
      = (r, tm')" by fastforce
  from timer_never_late [OF sample_pool_created refl p] p show ?thesis by blast
qed

text \<open>C7. The value a poll returns is at most 255, whatever is pending. When the clock is not behind the one of
  the last poll, waiting that long does not miss a timer of the first wheel: none of them is due before
  that many milliseconds have passed, except a timer of interval 0 that has fired and was inserted again (its
  expiry stays behind the clock); and a value below 255 points at a slot in which a timer waits. Without that
  condition on the clock the value is 255 even if a timer is due sooner, and the upper wheels are never looked
  at (the two lemmas that follow).\<close>

theorem poll_timeout_safe:
  assumes "xtimer_pool_create cap t0 oom = Some tm0" and "tm = run_timers prog ops tm0"
    and "xtimer_poll prog now tm = (r, tm')"
  shows "r \<le> 255 \<and> (current_time tm \<le> now \<longrightarrow>
      (\<forall>a n. nodes tm' a = Some n \<and> status n = TIMER_PENDING \<and> level n = 0 \<longrightarrow>
         now + r \<le> expire n \<or> repeat_interval n = 0 \<and> (\<exists>e c. TFired (serial n) e c \<in> set (events tm')))
      \<and> (r < 255 \<longrightarrow> (\<exists>a n. nodes tm' a = Some n \<and> status n = TIMER_PENDING \<and> level n = 0
         \<and> slot n = (now + r) mod 256)))"
proof -
  have ok: "timer_ok tm" using run_ok [of tm0 prog ops] pool_create_inv [OF assms(1)] assms(2) by simp
  then have inv0: "timer_inv {} {} 0 tm" by (simp add: timer_ok_def)
  from poll_inv [OF this assms(3)] have inv: "timer_inv {} {} 0 tm'" and j: "current_jiffies tm' = now"
    by auto
  have lt: "i < 256" if "scan_slots tm' = Some i" for i
    using that unfolding scan_slots_find find_Some_iff by auto
  show ?thesis
  proof (cases "current_time tm \<le> now")
    case True
    then have "\<not> now < current_jiffies tm" using ok by (simp add: timer_ok_def)
    then have r: "r = (case scan_slots tm' of Some i \<Rightarrow> i | None \<Rightarrow> 255)"
      using assms(3) by (auto simp: xtimer_poll_def Let_def timer_consts)
    then have le: "r \<le> 255" "r \<le> (case scan_slots tm' of Some i \<Rightarrow> i | None \<Rightarrow> 256)"
      using lt by (fastforce split: option.splits)+
    have "\<exists>a n. nodes tm' a = Some n \<and> status n = TIMER_PENDING \<and> level n = 0 \<and> slot n = (now + r) mod 256"
      if "r < 255"
    proof -
      from that r have "scan_slots tm' = Some r" by (auto split: option.splits)
      then have "tv tm' 0 ((now + r) mod 256) \<noteq> []" unfolding scan_slots_find find_Some_iff j by auto
      then obtain a where "a \<in> set (tv tm' 0 ((now + r) mod 256))" by (cases "tv tm' 0 ((now + r) mod 256)") auto
      with timer_invD(2) [OF inv] show ?thesis by (auto simp: linked_in_def)
    qed
    with first_wheel_wait [OF inv _ _ _ le(2)] j le(1) show ?thesis by (auto simp: late_def)
  next
    case False
    then have "now < current_jiffies tm" using ok by (simp add: timer_ok_def)
    with assms(3) False show ?thesis by (auto simp: xtimer_poll_def timer_consts)
  qed
qed

lemma sample_waiting:
  "nodes (snd (xtimer_poll quiet 301 (run_timers quiet [OpCall (CallAdd 9 1 0 1)] sample_pool))) 2
     = Some \<lparr>expire = 309, tid = 1, callback = 1, user_data = 0, repeat_num = 1, repeat_interval = 9,
         cancelled = False, firing = False, in_free_list = False, slot = 53, level = 0,
         status = TIMER_PENDING, serial = 1\<rparr>"
  by (simp add: run_timers_def sample_pool_def timer_eval)

theorem poll_timeout_safe_witness:
  "fst (xtimer_poll quiet 301 (run_timers quiet [OpCall (CallAdd 9 1 0 1)] sample_pool)) \<le> 8"
proof -
  let ?tm = "run_timers quiet [OpCall (CallAdd 9 1 0 1)] sample_pool"
  obtain r tm' where p: "xtimer_poll quiet 301 ?tm = (r, tm')" by fastforce
  have le: "current_time ?tm \<le> 301" by (simp add: run_timers_def sample_pool_def timer_eval)
  have ev: "events (snd (xtimer_poll quiet 301 ?tm)) = []"
    by (simp add: run_timers_def sample_pool_def timer_eval)
  from poll_timeout_safe [OF sample_pool_created refl p] le sample_waiting p ev show ?thesis by fastforce
qed

text \<open>The upper wheels are not looked at: a timer of the second wheel can be due earlier than the
  value returned, against the comment of \<open>xtimer_update\<close> in \<open>xtimer.h\<close>.\<close>

lemma poll_ignores_upper_wheels:
  "\<exists>tm' n. xtimer_poll quiet 302 (run_timers quiet [OpCall (CallAdd 256 1 0 1)] sample_pool) = (255, tm')
     \<and> nodes tm' 2 = Some n \<and> status n = TIMER_PENDING \<and> expire n = 302 + 254"
proof -
  let ?tm = "run_timers quiet [OpCall (CallAdd 256 1 0 1)] sample_pool"
  obtain r tm' where p: "xtimer_poll quiet 302 ?tm = (r, tm')" by fastforce
  have tv: "tv (snd (xtimer_poll quiet 302 ?tm)) 0 i = []" for i
    by (simp add: run_timers_def sample_pool_def timer_eval)
  then have "scan_slots tm' = None" using p by (simp add: scan_slots_def Let_def find_None_iff)
  moreover have "r = (case scan_slots tm' of Some i \<Rightarrow> i | None \<Rightarrow> 255)"
  proof -
    have "\<not> 302 < current_jiffies ?tm" by (simp add: run_timers_def sample_pool_def timer_eval)
    with p show ?thesis by (auto simp: xtimer_poll_def Let_def timer_consts)
  qed
  moreover have "map_option expire (nodes (snd (xtimer_poll quiet 302 ?tm)) 2) = Some 556"
      "map_option status (nodes (snd (xtimer_poll quiet 302 ?tm)) 2) = Some TIMER_PENDING"
    by (simp_all add: run_timers_def sample_pool_def timer_eval)
  ultimately show ?thesis using p by auto
qed

text \<open>After a clock that went back the wheel is set to it and 255 returned without a look at the slots.\<close>

lemma poll_after_clock_back:
  assumes "xtimer_pool_create cap t0 oom = Some tm0" and "tm = run_timers prog ops tm0" and "now < current_time tm"
  shows "xtimer_poll prog now tm = (255, tm\<lparr>current_time := now, current_jiffies := now\<rparr>)"
proof -
  have "timer_ok tm" using run_ok [of tm0 prog ops] pool_create_inv [OF assms(1)] assms(2) by simp
  then have "now < current_jiffies tm" using assms(3) by (simp add: timer_ok_def)
  then show ?thesis by (simp add: xtimer_poll_def timer_consts)
qed

text \<open>Destroying the pool after any run frees every allocated node, pending or on the free
  list, exactly once.\<close>

lemma pool_destroy_frees_all:
  assumes "xtimer_pool_create cap t0 oom = Some tm0" and "tm = run_timers prog ops tm0"
  shows "distinct (xtimer_pool_destroy tm) \<and> set (xtimer_pool_destroy tm) = dom (nodes tm)"
  using pool_destroy_exact run_ok [of tm0 prog ops] pool_create_inv [OF assms(1)] assms(2)
  by (simp add: timer_ok_def)

theorem pool_destroy_frees_all_witness:
  "distinct (xtimer_pool_destroy (run_timers quiet [OpCall (CallAdd 9 1 0 1), OpPoll 400] sample_pool))"
  using pool_destroy_frees_all [OF sample_pool_created refl] by blast

end
