(* ===== verification/XBuffer.thy ===== *)
theory XBuffer
  imports XPrelude
begin

text \<open>
  The byte buffer of \<open>xchannel.c\<close>: an allocation of \<open>cap\<close> bytes of which \<open>off\<close> to \<open>len\<close> are
  valid, with compaction and doubling growth, and its refinement to the list of its valid bytes.
  \<open>realloc\<close> is a parameter: it says for which sizes it succeeds.
\<close>

record xBuffer =
  buf_data :: bytes
  buf_off :: nat
  buf_len :: nat
  buf_cap :: nat
  buf_max :: nat

definition xbuf_size :: "xBuffer \<Rightarrow> nat" where
  "xbuf_size b = buf_len b - buf_off b"

definition xbuf_consume :: "nat \<Rightarrow> xBuffer \<Rightarrow> xBuffer" where
  "xbuf_consume n b =
     (let avail = buf_len b - buf_off b
      in if n \<ge> avail then b\<lparr>buf_off := 0, buf_len := 0\<rparr>
         else b\<lparr>buf_off := buf_off b + n\<rparr>)"

text \<open>The doubling loop; None when the capacity would not fit in \<open>size_t\<close>. The capacity it
  starts with is never 0 (\<open>xbuf_reserve\<close> takes 4096 then).\<close>

function grow_cap :: "nat \<Rightarrow> nat \<Rightarrow> nat option" where
  "grow_cap ncap target =
     (if ncap \<ge> target then Some ncap
      else if ncap > SIZE_MAX div 2 then None
      else if ncap = 0 then None
      else grow_cap (ncap * 2) target)"
  by pat_completeness auto

termination
  by (relation "measure (\<lambda>(ncap, target). target - ncap)") auto

declare grow_cap.simps [simp del]

text \<open>The \<open>memmove\<close> to the front.\<close>

definition xbuf_compact :: "xBuffer \<Rightarrow> xBuffer" where
  "xbuf_compact b =
     (let used = buf_len b - buf_off b
      in if buf_off b > 0
         then b\<lparr>buf_data := take used (drop (buf_off b) (buf_data b)) @ drop used (buf_data b),
                buf_len := used, buf_off := 0\<rparr>
         else b)"

definition xbuf_reserve :: "(nat \<Rightarrow> bool) \<Rightarrow> nat \<Rightarrow> xBuffer \<Rightarrow> bool \<times> xBuffer" where
  "xbuf_reserve realloc_ok need b =
     (if need = 0 then (True, b)
      else if buf_cap b - buf_len b \<ge> need then (True, b)
      else let used = buf_len b - buf_off b;
               b = xbuf_compact b
           in if buf_cap b - buf_len b \<ge> need then (True, b)
              else if used > SIZE_MAX - need then (False, b)
              else case grow_cap (if buf_cap b > 0 then buf_cap b else 4096) (used + need) of
                     None \<Rightarrow> (False, b)
                   | Some ncap \<Rightarrow>
                       if \<not> realloc_ok ncap then (False, b)
                       else (True, b\<lparr>buf_data := buf_data b @ replicate (ncap - length (buf_data b)) 0,
                                     buf_cap := ncap\<rparr>))"

text \<open>Writing bytes at the write position.\<close>

definition xbuf_put :: "bytes \<Rightarrow> xBuffer \<Rightarrow> xBuffer" where
  "xbuf_put bs b =
     b\<lparr>buf_data := take (buf_len b) (buf_data b) @ bs @ drop (buf_len b + length bs) (buf_data b),
       buf_len := buf_len b + length bs\<rparr>"

definition xbuf_append :: "(nat \<Rightarrow> bool) \<Rightarrow> bytes \<Rightarrow> xBuffer \<Rightarrow> bool \<times> xBuffer" where
  "xbuf_append realloc_ok bs b =
     (if bs = [] then (True, b)
      else case xbuf_reserve realloc_ok (length bs) b of
             (False, b) \<Rightarrow> (False, b)
           | (True, b) \<Rightarrow> (True, xbuf_put bs b))"

definition xbuf_free :: "xBuffer \<Rightarrow> xBuffer" where
  "xbuf_free b = \<lparr>buf_data = [], buf_off = 0, buf_len = 0, buf_cap = 0, buf_max = 0\<rparr>"

definition xbuf_zero :: xBuffer where
  "xbuf_zero = \<lparr>buf_data = [], buf_off = 0, buf_len = 0, buf_cap = 0, buf_max = 0\<rparr>"

section \<open>Refinement to the valid bytes\<close>

definition xbuf_ok :: "xBuffer \<Rightarrow> bool" where
  "xbuf_ok b \<longleftrightarrow> buf_off b \<le> buf_len b \<and> buf_len b \<le> buf_cap b \<and> buf_cap b = length (buf_data b)"

definition xbuf_bytes :: "xBuffer \<Rightarrow> bytes" where
  "xbuf_bytes b = drop (buf_off b) (take (buf_len b) (buf_data b))"

lemma xbuf_size_bytes: "xbuf_ok b \<Longrightarrow> xbuf_size b = length (xbuf_bytes b)"
  by (simp add: xbuf_size_def xbuf_bytes_def xbuf_ok_def)

lemma xbuf_consume_ok:
  assumes "xbuf_ok b"
  shows "xbuf_ok (xbuf_consume n b)" and "xbuf_bytes (xbuf_consume n b) = drop n (xbuf_bytes b)"
    and "buf_max (xbuf_consume n b) = buf_max b"
  using assms by (auto simp: xbuf_ok_def xbuf_consume_def xbuf_bytes_def Let_def add.commute)

lemma grow_cap_bounds: "grow_cap ncap target = Some c \<Longrightarrow> target \<le> c \<and> ncap \<le> c"
proof (induction ncap target rule: grow_cap.induct)
  case (1 ncap target)
  then show ?case by (subst (asm) (2) grow_cap.simps) (auto split: if_splits)
qed

text \<open>Doubling finds a capacity whenever twice the target fits.\<close>

lemma grow_cap_total: "0 < ncap \<Longrightarrow> target \<le> SIZE_MAX div 2 \<Longrightarrow> grow_cap ncap target \<noteq> None"
proof (induction ncap target rule: grow_cap.induct)
  case (1 ncap target)
  then show ?case by (subst grow_cap.simps) auto
qed

lemma xbuf_compact_ok:
  assumes "xbuf_ok b"
  shows "xbuf_ok (xbuf_compact b)" and "xbuf_bytes (xbuf_compact b) = xbuf_bytes b"
    and "buf_max (xbuf_compact b) = buf_max b" and "buf_cap (xbuf_compact b) = buf_cap b"
    and "buf_len (xbuf_compact b) = buf_len b - buf_off b" and "buf_off (xbuf_compact b) = 0"
  using assms by (auto simp: xbuf_compact_def Let_def xbuf_ok_def xbuf_bytes_def drop_take)

lemma xbuf_extend_ok:
  assumes "xbuf_ok b" and "buf_cap b \<le> c"
  defines "b' \<equiv> b\<lparr>buf_data := buf_data b @ replicate (c - length (buf_data b)) 0, buf_cap := c\<rparr>"
  shows "xbuf_ok b'" and "xbuf_bytes b' = xbuf_bytes b"
  using assms by (auto simp: xbuf_ok_def xbuf_bytes_def)

lemma xbuf_reserve_ok:
  assumes ok: "xbuf_ok b" and run: "xbuf_reserve r need b = (res, b')"
  shows "xbuf_ok b' \<and> xbuf_bytes b' = xbuf_bytes b \<and> buf_max b' = buf_max b
    \<and> (res \<longrightarrow> need \<le> buf_cap b' - buf_len b')"
proof -
  let ?used = "buf_len b - buf_off b"
  define b1 where "b1 = xbuf_compact b"
  note C = xbuf_compact_ok [OF ok, folded b1_def]
  note run' = run [unfolded xbuf_reserve_def Let_def, folded b1_def]
  show ?thesis
  proof (cases "need = 0 \<or> buf_cap b - buf_len b \<ge> need \<or> buf_cap b1 - buf_len b1 \<ge> need
      \<or> ?used > SIZE_MAX - need")
    case True
    with run' C ok show ?thesis by (auto split: if_splits)
  next
    case False
    show ?thesis
    proof (cases "grow_cap (if buf_cap b1 > 0 then buf_cap b1 else 4096) (?used + need)")
      case None
      with False run' C show ?thesis by simp
    next
      case (Some c)
      have c: "?used + need \<le> c" "buf_cap b1 \<le> c"
        using grow_cap_bounds [OF Some] by (auto split: if_splits)
      from c(1) have n: "need \<le> c - ?used" by simp
      show ?thesis
      proof (cases "r c")
        case True
        then have eq: "res" "b' = b1\<lparr>buf_data := buf_data b1 @ replicate (c - length (buf_data b1)) 0,
            buf_cap := c\<rparr>"
          using False run' Some by simp_all
        show ?thesis
          using xbuf_extend_ok [OF C(1) c(2)] C(2,3,5) n eq by simp
      next
        case F: False
        with False run' Some C show ?thesis by simp
      qed
    qed
  qed
qed

lemma xbuf_put_ok:
  assumes "xbuf_ok b" and "length bs \<le> buf_cap b - buf_len b"
  shows "xbuf_ok (xbuf_put bs b)" and "xbuf_bytes (xbuf_put bs b) = xbuf_bytes b @ bs"
    and "buf_max (xbuf_put bs b) = buf_max b"
  using assms by (auto simp: xbuf_ok_def xbuf_put_def xbuf_bytes_def)

lemma xbuf_append_ok:
  assumes "xbuf_ok b" and "xbuf_append r bs b = (res, b')"
  shows "xbuf_ok b'" and "xbuf_bytes b' = (if res then xbuf_bytes b @ bs else xbuf_bytes b)"
    and "buf_max b' = buf_max b"
proof -
  obtain res1 b1 where R: "xbuf_reserve r (length bs) b = (res1, b1)" by fastforce
  have K: "xbuf_ok b1" "xbuf_bytes b1 = xbuf_bytes b" "buf_max b1 = buf_max b"
      "res1 \<longrightarrow> length bs \<le> buf_cap b1 - buf_len b1"
    using xbuf_reserve_ok [OF assms(1) R] by auto
  show "xbuf_ok b'" "xbuf_bytes b' = (if res then xbuf_bytes b @ bs else xbuf_bytes b)"
    "buf_max b' = buf_max b"
    using assms R K xbuf_put_ok [OF K(1)]
    by (auto simp: xbuf_append_def split: if_splits bool.splits)
qed

text \<open>With memory, appending fails only when the bytes cannot fit in half of the address space.\<close>

lemma xbuf_append_total:
  assumes "xbuf_ok b" and "\<forall>n. r n" and "xbuf_size b + length bs \<le> SIZE_MAX div 2"
  shows "fst (xbuf_append r bs b)"
proof -
  have "?thesis \<or> bs \<noteq> []" by (auto simp: xbuf_append_def)
  moreover have "fst (xbuf_reserve r (length bs) b)"
  proof -
    have le: "buf_len b - buf_off b + length bs \<le> SIZE_MAX div 2"
      using assms(3) by (simp only: xbuf_size_def)
    let ?c = "xbuf_compact b"
    have g: "grow_cap (if buf_cap ?c > 0 then buf_cap ?c else 4096) (buf_len b - buf_off b + length bs) \<noteq> None"
      by (rule grow_cap_total [OF _ le]) simp
    then obtain c where c: "grow_cap (if buf_cap ?c > 0 then buf_cap ?c else 4096)
        (buf_len b - buf_off b + length bs) = Some c" by blast
    have "\<not> SIZE_MAX - length bs < buf_len b - buf_off b" using le by simp
    with assms(2) show ?thesis
      unfolding xbuf_reserve_def Let_def c by simp
  qed
  ultimately show ?thesis
    by (cases "xbuf_reserve r (length bs) b") (auto simp: xbuf_append_def)
qed

lemma xbuf_zero_ok [simp]: "xbuf_ok xbuf_zero" "xbuf_bytes xbuf_zero = []"
  by (simp_all add: xbuf_ok_def xbuf_zero_def xbuf_bytes_def)

end
