(* ===== verification/XChannel.thy ===== *)
theory XChannel
  imports XBuffer
begin

text \<open>
  The buffered socket channel of \<open>xchannel.c\<close> (Linux, epoll build): framing of the input, ordered
  and resumable output, a file appended to the output, half and deferred close, flow control.

  The kernel is part of the state: \<open>send_script\<close>, \<open>file_script\<close> and \<open>recv_script\<close> hold the results
  of the coming \<open>send\<close>/\<open>writev\<close>, \<open>sendfile\<close> and \<open>recv\<close> calls (an empty list stands for EAGAIN),
  \<open>poll_script\<close> those of \<open>xpoll_add_event\<close> (success when empty), \<open>wire\<close> the bytes the kernel has
  accepted, \<open>poll_rd\<close> and \<open>poll_wr\<close> the registrations with the poll loop, \<open>mem_ok\<close> the sizes for
  which \<open>realloc\<close> succeeds. \<open>evlog\<close> records callbacks and descriptor operations. Callbacks and
  transforms are the functions of an argument \<open>E\<close>; they may change the channel in any way. A NULL
  data pointer with a positive length (refused by the code) and use after free are outside the
  model.
\<close>

section \<open>Data\<close>

datatype xChannelFrame =
    XCHANNEL_FRAME_RAW
  | XCHANNEL_FRAME_LEN32
  | XCHANNEL_FRAME_CRLF
  | XCHANNEL_FRAME_LEN16
  | XCHANNEL_FRAME_OTHER int   \<comment> \<open>any other value of the C enum\<close>

definition XCHANNEL_READ_CHUNK :: nat where "XCHANNEL_READ_CHUNK = 8192"
definition XCHANNEL_DEFAULT_MAX_PACKET :: nat where "XCHANNEL_DEFAULT_MAX_PACKET = 10 * 1024 * 1024"
definition XCHANNEL_DEFAULT_BUFFER_MAX :: nat where "XCHANNEL_DEFAULT_BUFFER_MAX = 10 * 1024 * 1024 + 4"

datatype io_result = IoBytes nat | IoAgain | IoError

datatype recv_result = RecvBytes bytes | RecvEof | RecvAgain | RecvError

datatype wr_handler = OnWritable | OnConnected

datatype chan_event =
    EvPacket bytes
  | EvConnect
  | EvEof string
  | EvClose string
  | EvFdClosed int
  | EvShutdownWr
  | EvDtor
  | EvFreed

record 'u xChannel =
  fd :: int
  refcount :: int
  closed :: bool
  attached :: bool
  connected :: bool
  connect_pending :: bool
  read_closed :: bool
  write_closed :: bool
  read_paused :: bool
  frame :: xChannelFrame
  max_packet :: nat
  in_buf :: xBuffer
  out_buf :: xBuffer
  file_fd :: int
  file_offset :: nat
  file_pending :: bool
  file_remaining :: nat
  close_after_flush :: bool
  shutdown_write_after_flush :: bool
  close_reason :: string
  shutdown_reason :: string
  bytes_sent :: u64
  bytes_recv :: u64
  has_connect_cb :: bool
  has_packet_cb :: bool
  has_close_cb :: bool
  has_eof_cb :: bool
  userdata :: 'u
  recv_transform :: bool
  send_transform :: bool
  transform_ud :: bool
  transform_dtor :: bool
  send_script :: "io_result list"
  file_script :: "io_result list"
  recv_script :: "recv_result list"
  poll_script :: "bool list"
  wire :: bytes
  file_data :: bytes
  poll_rd :: bool
  poll_wr :: "wr_handler option"
  mem_ok :: "nat \<Rightarrow> bool"
  evlog :: "chan_event list"
  g_live_channels :: int

definition INVALID_SOCKET_VAL :: int where "INVALID_SOCKET_VAL = -1"

record 'u callbacks =
  connect_cb :: "'u xChannel \<Rightarrow> 'u xChannel"
  packet_cb :: "bytes \<Rightarrow> 'u xChannel \<Rightarrow> nat \<times> 'u xChannel"
  close_cb :: "string \<Rightarrow> 'u xChannel \<Rightarrow> 'u xChannel"
  eof_cb :: "string \<Rightarrow> 'u xChannel \<Rightarrow> 'u xChannel"
  recv_tf :: "bytes \<Rightarrow> 'u xChannel \<Rightarrow> bytes option \<times> 'u xChannel"
  send_tf :: "bytes \<Rightarrow> 'u xChannel \<Rightarrow> bytes option \<times> 'u xChannel"

definition note_event :: "chan_event \<Rightarrow> 'u xChannel \<Rightarrow> 'u xChannel" where
  "note_event e ch = ch\<lparr>evlog := evlog ch @ [e]\<rparr>"

section \<open>The kernel\<close>

text \<open>A \<open>send\<close> of a buffer: the kernel takes at most as many bytes as the script says.\<close>

definition os_send :: "bytes \<Rightarrow> 'u xChannel \<Rightarrow> io_result \<times> 'u xChannel" where
  "os_send bs ch =
     (case send_script ch of
        [] \<Rightarrow> (IoAgain, ch)
      | IoBytes n # rs \<Rightarrow>
          (IoBytes (min n (length bs)), ch\<lparr>send_script := rs, wire := wire ch @ take n bs\<rparr>)
      | r # rs \<Rightarrow> (r, ch\<lparr>send_script := rs\<rparr>))"

text \<open>A \<open>sendfile\<close> of at most \<open>chunk\<close> bytes from offset \<open>pos\<close> of the pending file; it returns 0
  at the end of the file only.\<close>

definition os_sendfile :: "nat \<Rightarrow> nat \<Rightarrow> 'u xChannel \<Rightarrow> io_result \<times> 'u xChannel" where
  "os_sendfile pos chunk ch =
     (let bs = take chunk (drop pos (file_data ch))
      in case file_script ch of
           [] \<Rightarrow> (IoAgain, ch)
         | IoBytes n # rs \<Rightarrow>
             let k = min (max n 1) (length bs)
             in (IoBytes k, ch\<lparr>file_script := rs, wire := wire ch @ take k bs\<rparr>)
         | r # rs \<Rightarrow> (r, ch\<lparr>file_script := rs\<rparr>))"

text \<open>A \<open>recv\<close> of at most \<open>chunk\<close> bytes; what does not fit is received by the next call.\<close>

definition os_recv :: "nat \<Rightarrow> 'u xChannel \<Rightarrow> recv_result \<times> 'u xChannel" where
  "os_recv chunk ch =
     (case recv_script ch of
        [] \<Rightarrow> (RecvAgain, ch)
      | RecvBytes bs # rs \<Rightarrow>
          if bs = [] then (RecvEof, ch\<lparr>recv_script := rs\<rparr>)
          else if length bs \<le> chunk then (RecvBytes bs, ch\<lparr>recv_script := rs\<rparr>)
          else (RecvBytes (take chunk bs), ch\<lparr>recv_script := RecvBytes (drop chunk bs) # rs\<rparr>)
      | r # rs \<Rightarrow> (r, ch\<lparr>recv_script := rs\<rparr>))"

definition poll_result :: "'u xChannel \<Rightarrow> bool \<times> 'u xChannel" where
  "poll_result ch =
     (case poll_script ch of [] \<Rightarrow> (True, ch) | b # bs \<Rightarrow> (b, ch\<lparr>poll_script := bs\<rparr>))"

definition poll_add_read :: "'u xChannel \<Rightarrow> bool \<times> 'u xChannel" where
  "poll_add_read ch =
     (let (ok, ch) = poll_result ch in (ok, if ok then ch\<lparr>poll_rd := True\<rparr> else ch))"

text \<open>Adding the writable event of a descriptor replaces the handler it had.\<close>

definition poll_add_write :: "wr_handler \<Rightarrow> 'u xChannel \<Rightarrow> bool \<times> 'u xChannel" where
  "poll_add_write h ch =
     (let (ok, ch) = poll_result ch in (ok, if ok then ch\<lparr>poll_wr := Some h\<rparr> else ch))"

definition poll_del_read :: "'u xChannel \<Rightarrow> 'u xChannel" where
  "poll_del_read ch = ch\<lparr>poll_rd := False\<rparr>"

definition poll_del_write :: "'u xChannel \<Rightarrow> 'u xChannel" where
  "poll_del_write ch = ch\<lparr>poll_wr := None\<rparr>"

definition poll_del_all :: "'u xChannel \<Rightarrow> 'u xChannel" where
  "poll_del_all ch = ch\<lparr>poll_rd := False, poll_wr := None\<rparr>"

section \<open>Helpers\<close>

definition has_pending_file :: "'u xChannel \<Rightarrow> bool" where
  "has_pending_file ch \<longleftrightarrow> file_pending ch \<and> file_remaining ch > 0"

definition close_pending_file :: "'u xChannel \<Rightarrow> 'u xChannel" where
  "close_pending_file ch =
     (if \<not> file_pending ch then ch\<lparr>file_fd := -1, file_remaining := 0\<rparr>
      else let ch = (if file_fd ch \<ge> 0 then (note_event (EvFdClosed (file_fd ch)) ch)\<lparr>file_fd := -1\<rparr> else ch)
           in ch\<lparr>file_pending := False, file_remaining := 0\<rparr>)"

definition valid_frame :: "xChannelFrame \<Rightarrow> bool" where
  "valid_frame f \<longleftrightarrow> f = XCHANNEL_FRAME_RAW \<or> f = XCHANNEL_FRAME_LEN32
     \<or> f = XCHANNEL_FRAME_LEN16 \<or> f = XCHANNEL_FRAME_CRLF"

definition write_u32be :: "u32 \<Rightarrow> bytes" where
  "write_u32be v = [ucast (drop_bit 24 v), ucast (drop_bit 16 v), ucast (drop_bit 8 v), ucast v]"

definition read_u32be :: "bytes \<Rightarrow> u32" where
  "read_u32be p = push_bit 24 (ucast (p ! 0)) OR push_bit 16 (ucast (p ! 1))
     OR push_bit 8 (ucast (p ! 2)) OR ucast (p ! 3)"

definition write_u16be :: "u16 \<Rightarrow> bytes" where
  "write_u16be v = [ucast (drop_bit 8 v), ucast v]"

definition read_u16be :: "bytes \<Rightarrow> u16" where
  "read_u16be p = push_bit 8 (ucast (p ! 0)) OR ucast (p ! 1)"

definition xchannel_retain :: "'u xChannel \<Rightarrow> 'u xChannel" where
  "xchannel_retain ch = ch\<lparr>refcount := refcount ch + 1\<rparr>"

definition xchannel_free_storage :: "'u xChannel \<Rightarrow> 'u xChannel" where
  "xchannel_free_storage ch =
     (let ch = (if transform_ud ch \<and> transform_dtor ch
                then (note_event EvDtor ch)\<lparr>transform_ud := False, transform_dtor := False\<rparr> else ch);
          ch = close_pending_file ch;
          ch = ch\<lparr>in_buf := xbuf_free (in_buf ch), out_buf := xbuf_free (out_buf ch)\<rparr>
      in (note_event EvFreed ch)\<lparr>g_live_channels := g_live_channels ch - 1\<rparr>)"

definition xchannel_release :: "'u xChannel \<Rightarrow> 'u xChannel" where
  "xchannel_release ch =
     (let ch = ch\<lparr>refcount := refcount ch - 1\<rparr>
      in if refcount ch \<le> 0 then xchannel_free_storage ch else ch)"

fun find_crlf :: "bytes \<Rightarrow> nat option" where
  "find_crlf (a # b # bs) =
     (if a = 13 \<and> b = 10 then Some 0 else map_option Suc (find_crlf (b # bs)))"
| "find_crlf _ = None"

section \<open>Closing\<close>

definition reason_or :: "string \<Rightarrow> string option \<Rightarrow> string" where
  "reason_or dflt r = (case r of Some s \<Rightarrow> s | None \<Rightarrow> dflt)"

definition close_internal :: "'u callbacks \<Rightarrow> string option \<Rightarrow> bool \<Rightarrow> 'u xChannel \<Rightarrow> 'u xChannel" where
  "close_internal E reason notify ch =
     (if closed ch then ch
      else let ch = ch\<lparr>closed := True, attached := False, connected := False, connect_pending := False,
                       read_closed := True, write_closed := True, close_after_flush := False,
                       shutdown_write_after_flush := False\<rparr>;
               ch = (if fd ch \<noteq> INVALID_SOCKET_VAL
                     then (note_event (EvFdClosed (fd ch)) (poll_del_all ch))\<lparr>fd := INVALID_SOCKET_VAL\<rparr>
                     else ch);
               ch = close_pending_file ch
           in if notify \<and> has_close_cb ch
              then close_cb E (reason_or ''closed'' reason)
                     (note_event (EvClose (reason_or ''closed'' reason)) ch)
              else ch)"

definition xchannel_close :: "'u callbacks \<Rightarrow> string option \<Rightarrow> 'u xChannel \<Rightarrow> 'u xChannel" where
  "xchannel_close E reason ch = xchannel_release (close_internal E reason True (xchannel_retain ch))"

definition has_pending_output :: "'u xChannel \<Rightarrow> bool" where
  "has_pending_output ch \<longleftrightarrow>
     connect_pending ch \<or> xbuf_size (out_buf ch) > 0 \<or> has_pending_file ch"

definition shutdown_write_now :: "'u xChannel \<Rightarrow> int \<times> 'u xChannel" where
  "shutdown_write_now ch =
     (if closed ch \<or> fd ch = INVALID_SOCKET_VAL then (-1, ch)
      else if write_closed ch then (0, ch)
      else (0, poll_del_write ((note_event EvShutdownWr ch)
                 \<lparr>write_closed := True, shutdown_write_after_flush := False\<rparr>)))"

definition finish_deferred_close :: "'u callbacks \<Rightarrow> 'u xChannel \<Rightarrow> 'u xChannel" where
  "finish_deferred_close E ch =
     (if closed ch \<or> has_pending_output ch then ch
      else if close_after_flush ch
      then close_internal E (Some (if close_reason ch \<noteq> [] then close_reason ch else ''close_after_flush''))
             True ch
      else let ch = (if shutdown_write_after_flush ch then snd (shutdown_write_now ch) else ch)
           in if read_closed ch \<and> write_closed ch
              then close_internal E (Some (if shutdown_reason ch \<noteq> [] then shutdown_reason ch
                                           else ''half_closed'')) True ch
              else ch)"

definition check_send_limit :: "nat \<Rightarrow> nat \<Rightarrow> 'u xChannel \<Rightarrow> int" where
  "check_send_limit alen blen ch =
     (if closed ch \<or> fd ch = INVALID_SOCKET_VAL then -1
      else if close_after_flush ch then -1
      else if write_closed ch \<or> shutdown_write_after_flush ch then -1
      else if alen = 0 \<and> blen = 0 then 0
      else if has_pending_file ch then -1
      else if buf_max (out_buf ch) > 0 \<and> xbuf_size (out_buf ch) \<ge> buf_max (out_buf ch) then -2
      else if alen > SIZE_MAX - blen then -1
      else 0)"

section \<open>Input\<close>

definition emit_packet :: "'u callbacks \<Rightarrow> bytes \<Rightarrow> 'u xChannel \<Rightarrow> nat \<times> 'u xChannel" where
  "emit_packet E bs ch =
     (if closed ch \<or> \<not> has_packet_cb ch then (0, ch)
      else let ch = xchannel_retain ch
           in if recv_transform ch
              then case recv_tf E bs ch of
                     (None, ch) \<Rightarrow> (0, xchannel_release (xchannel_close E (Some ''recv_transform_error'') ch))
                   | (Some plain, ch) \<Rightarrow>
                       let (consumed, ch) = packet_cb E plain (note_event (EvPacket plain) ch)
                       in (consumed, xchannel_release ch)
              else let (consumed, ch) = packet_cb E bs (note_event (EvPacket bs) ch)
                   in (consumed, xchannel_release ch))"

text \<open>One round of the loop of \<open>process_input\<close>: whether it goes on, and the new state.\<close>

definition emit_and_consume ::
  "'u callbacks \<Rightarrow> bytes \<Rightarrow> nat \<Rightarrow> 'u xChannel \<Rightarrow> bool \<times> 'u xChannel" where
  "emit_and_consume E body n ch =
     (let ch = snd (emit_packet E body ch)
      in if closed ch then (False, ch)
         else (True, ch\<lparr>in_buf := xbuf_consume n (in_buf ch)\<rparr>))"

definition process_step :: "'u callbacks \<Rightarrow> 'u xChannel \<Rightarrow> bool \<times> 'u xChannel" where
  "process_step E ch =
     (let bs = xbuf_bytes (in_buf ch);
          avail = xbuf_size (in_buf ch);
          too_large = (False, xchannel_close E (Some ''packet_too_large'') ch)
      in case frame ch of
           XCHANNEL_FRAME_LEN32 \<Rightarrow>
             if avail < 4 then (False, ch)
             else let body_len = unat (read_u32be bs)
                  in if body_len > max_packet ch then too_large
                     else if avail < body_len + 4 then (False, ch)
                     else emit_and_consume E (take body_len (drop 4 bs)) (body_len + 4) ch
         | XCHANNEL_FRAME_LEN16 \<Rightarrow>
             if avail < 2 then (False, ch)
             else let body_len = unat (read_u16be bs)
                  in if body_len > max_packet ch then too_large
                     else if avail < body_len + 2 then (False, ch)
                     else emit_and_consume E (take body_len (drop 2 bs)) (body_len + 2) ch
         | XCHANNEL_FRAME_CRLF \<Rightarrow>
             (case find_crlf bs of
                None \<Rightarrow> if avail > max_packet ch then too_large else (False, ch)
              | Some pos \<Rightarrow>
                  if pos > max_packet ch then too_large
                  else emit_and_consume E (take pos bs) (pos + 2) ch)
         | XCHANNEL_FRAME_RAW \<Rightarrow>
             if avail > max_packet ch then too_large
             else let (consumed, ch) = emit_packet E bs ch
                  in if closed ch then (False, ch)
                     else if consumed = 0 then (False, ch)
                     else if consumed > avail then (False, xchannel_close E (Some ''consume_error'') ch)
                     else (True, ch\<lparr>in_buf := xbuf_consume consumed (in_buf ch)\<rparr>)
         | XCHANNEL_FRAME_OTHER _ \<Rightarrow> (False, xchannel_close E (Some ''bad_frame'') ch))"

text \<open>The loop, with the number of packets; None when \<open>fuel\<close> rounds are not enough (a round
  that goes on consumes input, but a callback may put back as much).\<close>

primrec process_input :: "'u callbacks \<Rightarrow> nat \<Rightarrow> nat \<Rightarrow> 'u xChannel \<Rightarrow> (nat \<times> 'u xChannel) option" where
  "process_input E 0 rc ch = None"
| "process_input E (Suc fuel) rc ch =
     (if closed ch \<or> xbuf_size (in_buf ch) = 0 then Some (rc, ch)
      else case process_step E ch of
             (False, ch) \<Rightarrow> Some (rc, ch)
           | (True, ch) \<Rightarrow> process_input E fuel (rc + 1) ch)"

section \<open>Output\<close>

text \<open>\<open>send\<close> for one segment (at most \<open>INT_MAX\<close> bytes), \<open>writev\<close> for two.\<close>

definition try_send_iov :: "bytes \<Rightarrow> bytes \<Rightarrow> 'u xChannel \<Rightarrow> nat option \<times> 'u xChannel" where
  "try_send_iov a b ch =
     (let payload = (if a = [] \<or> b = [] then take INT_MAX (if a \<noteq> [] then a else b) else a @ b)
      in case os_send payload ch of
           (IoBytes n, ch) \<Rightarrow> (Some n, ch)
         | (IoAgain, ch) \<Rightarrow> (Some 0, ch)
         | (IoError, ch) \<Rightarrow> (None, ch))"

definition arm_writable :: "'u callbacks \<Rightarrow> bool \<Rightarrow> 'u xChannel \<Rightarrow> int \<times> 'u xChannel" where
  "arm_writable E while_connecting ch =
     (case poll_add_write (if while_connecting then OnConnected else OnWritable) ch of
        (True, ch) \<Rightarrow> (0, ch)
      | (False, ch) \<Rightarrow> (-1, xchannel_close E (Some ''poll_error'') ch))"

text \<open>The two loops of \<open>flush_output\<close>. A round that goes on has sent at least one byte, so the
  number of bytes left is fuel enough. The result is whether the function goes on after the
  loop.\<close>

primrec flush_buffer :: "'u callbacks \<Rightarrow> nat \<Rightarrow> 'u xChannel \<Rightarrow> bool \<times> 'u xChannel" where
  "flush_buffer E 0 ch = (True, ch)"
| "flush_buffer E (Suc fuel) ch =
     (if xbuf_size (out_buf ch) = 0 then (True, ch)
      else case os_send (take INT_MAX (xbuf_bytes (out_buf ch))) ch of
             (IoBytes n, ch) \<Rightarrow>
               if n > 0
               then flush_buffer E fuel (ch\<lparr>out_buf := xbuf_consume n (out_buf ch),
                                            bytes_sent := bytes_sent ch + of_nat n\<rparr>)
               else (False, xchannel_close E (Some ''write_error'') ch)
           | (IoAgain, ch) \<Rightarrow> (False, ch)
           | (IoError, ch) \<Rightarrow> (False, xchannel_close E (Some ''write_error'') ch))"

primrec flush_file :: "'u callbacks \<Rightarrow> nat \<Rightarrow> 'u xChannel \<Rightarrow> bool \<times> 'u xChannel" where
  "flush_file E 0 ch = (True, ch)"
| "flush_file E (Suc fuel) ch =
     (if closed ch \<or> \<not> has_pending_file ch then (True, ch)
      else case os_sendfile (file_offset ch) (min (file_remaining ch) (1024 * 1024)) ch of
             (IoBytes n, ch) \<Rightarrow>
               if n > 0
               then flush_file E fuel (ch\<lparr>file_offset := file_offset ch + n,
                                          file_remaining := file_remaining ch - n\<rparr>)
               else (True, close_pending_file ch)
           | (IoAgain, ch) \<Rightarrow> (False, ch)
           | (IoError, ch) \<Rightarrow> (False, xchannel_close E (Some ''sendfile_error'') ch))"

definition flush_output :: "'u callbacks \<Rightarrow> 'u xChannel \<Rightarrow> 'u xChannel" where
  "flush_output E ch =
     (if closed ch \<or> connect_pending ch then ch
      else case flush_buffer E (xbuf_size (out_buf ch)) ch of
             (False, ch) \<Rightarrow> ch
           | (True, ch) \<Rightarrow>
               (case flush_file E (file_remaining ch) ch of
                  (False, ch) \<Rightarrow> ch
                | (True, ch) \<Rightarrow>
                    let ch = (if \<not> closed ch \<and> \<not> has_pending_file ch
                              then poll_del_write (close_pending_file ch) else ch)
                    in finish_deferred_close E ch))"

definition out_append :: "bytes \<Rightarrow> 'u xChannel \<Rightarrow> bool \<times> 'u xChannel" where
  "out_append bs ch =
     (let (ok, b) = xbuf_append (mem_ok ch) bs (out_buf ch) in (ok, ch\<lparr>out_buf := b\<rparr>))"

definition out_append2 :: "bytes \<Rightarrow> bytes \<Rightarrow> 'u xChannel \<Rightarrow> bool \<times> 'u xChannel" where
  "out_append2 a b ch =
     (case out_append a ch of (False, ch) \<Rightarrow> (False, ch) | (True, ch) \<Rightarrow> out_append b ch)"

definition queue_or_send_iov :: "'u callbacks \<Rightarrow> bytes \<Rightarrow> bytes \<Rightarrow> 'u xChannel \<Rightarrow> int \<times> 'u xChannel" where
  "queue_or_send_iov E a b ch =
     (if a = [] \<and> b = [] then (0, ch)
      else let rc = check_send_limit (length a) (length b) ch
           in if rc \<noteq> 0 then (rc, ch)
              else if connect_pending ch \<or> xbuf_size (out_buf ch) > 0 \<or> \<not> connected ch
              then let queued = xbuf_size (out_buf ch)
                   in case out_append2 a b ch of
                        (False, ch) \<Rightarrow> (-1, xchannel_close E (Some ''out_of_memory'') ch)
                      | (True, ch) \<Rightarrow>
                          if queued = 0 then arm_writable E (connect_pending ch) ch else (0, ch)
              else let total = length a + length b
                   in case try_send_iov a b ch of
                        (None, ch) \<Rightarrow> (-1, xchannel_close E (Some ''write_error'') ch)
                      | (Some sent, ch) \<Rightarrow>
                          let ch = ch\<lparr>bytes_sent := bytes_sent ch + of_nat sent\<rparr>
                          in if sent \<ge> total then (0, ch)
                             else case (if sent < length a then out_append2 (drop sent a) b ch
                                        else out_append (drop (sent - length a) b) ch) of
                                    (False, ch) \<Rightarrow> (-1, xchannel_close E (Some ''out_of_memory'') ch)
                                  | (True, ch) \<Rightarrow> arm_writable E False ch)"

section \<open>Creation, registration, flow control\<close>

record chan_config =
  cfg_frame :: xChannelFrame
  cfg_max_packet :: nat
  cfg_connect_cb :: bool
  cfg_packet_cb :: bool
  cfg_close_cb :: bool
  cfg_eof_cb :: bool

text \<open>The kernel side of a fresh channel: \<open>k\<close> gives its scripts.\<close>

definition xchannel_create ::
  "bool \<Rightarrow> int \<Rightarrow> chan_config option \<Rightarrow> 'u \<Rightarrow> 'u xChannel \<Rightarrow> 'u xChannel option" where
  "xchannel_create calloc_ok sock cfg ud k =
     (if \<not> calloc_ok then None
      else let ch = k\<lparr>fd := sock, refcount := 1, closed := False, attached := False, connected := True,
               connect_pending := False, read_closed := False, write_closed := False,
               read_paused := False, frame := XCHANNEL_FRAME_RAW,
               max_packet := XCHANNEL_DEFAULT_MAX_PACKET,
               in_buf := xbuf_zero\<lparr>buf_max := XCHANNEL_DEFAULT_BUFFER_MAX\<rparr>,
               out_buf := xbuf_zero\<lparr>buf_max := XCHANNEL_DEFAULT_BUFFER_MAX\<rparr>,
               file_fd := -1, file_offset := 0, file_pending := False, file_remaining := 0,
               close_after_flush := False, shutdown_write_after_flush := False,
               close_reason := [], shutdown_reason := [], bytes_sent := 0, bytes_recv := 0,
               has_connect_cb := False, has_packet_cb := False, has_close_cb := False,
               has_eof_cb := False, userdata := ud, recv_transform := False,
               send_transform := False, transform_ud := False, transform_dtor := False\<rparr>
           in case cfg of
                None \<Rightarrow> Some (ch\<lparr>g_live_channels := g_live_channels ch + 1\<rparr>)
              | Some c \<Rightarrow>
                  if \<not> valid_frame (cfg_frame c) then None
                  else Some (ch\<lparr>frame := cfg_frame c,
                       max_packet := (if cfg_max_packet c > 0 then cfg_max_packet c else max_packet ch),
                       has_connect_cb := cfg_connect_cb c, has_packet_cb := cfg_packet_cb c,
                       has_close_cb := cfg_close_cb c, has_eof_cb := cfg_eof_cb c,
                       g_live_channels := g_live_channels ch + 1\<rparr>))"

definition xchannel_destroy :: "'u xChannel \<Rightarrow> 'u xChannel" where
  "xchannel_destroy ch =
     (let ch = (if closed ch then ch
                else let ch = ch\<lparr>closed := True, attached := False, connected := False,
                                 connect_pending := False, read_closed := True, write_closed := True\<rparr>;
                         ch = (if fd ch \<noteq> INVALID_SOCKET_VAL
                               then (note_event (EvFdClosed (fd ch)) (poll_del_all ch))
                                      \<lparr>fd := INVALID_SOCKET_VAL\<rparr>
                               else ch)
                     in close_pending_file ch)
      in xchannel_release ch)"

definition xchannel_set_framing :: "chan_config option \<Rightarrow> 'u xChannel \<Rightarrow> int \<times> 'u xChannel" where
  "xchannel_set_framing cfg ch =
     (case cfg of
        None \<Rightarrow> (-1, ch)
      | Some c \<Rightarrow>
          if closed ch \<or> \<not> valid_frame (cfg_frame c) then (-1, ch)
          else (0, ch\<lparr>max_packet := (if cfg_max_packet c > 0 then cfg_max_packet c else max_packet ch),
                      frame := cfg_frame c\<rparr>))"

definition xchannel_set_transform :: "bool \<Rightarrow> bool \<Rightarrow> bool \<Rightarrow> bool \<Rightarrow> 'u xChannel \<Rightarrow> 'u xChannel" where
  "xchannel_set_transform recv snd_tf ud dtor ch =
     (let ch = (if transform_ud ch \<and> transform_dtor ch then note_event EvDtor ch else ch)
      in ch\<lparr>recv_transform := recv, send_transform := snd_tf, transform_ud := ud, transform_dtor := dtor\<rparr>)"

definition xchannel_is_closed :: "'u xChannel \<Rightarrow> bool" where
  "xchannel_is_closed ch = closed ch"

definition xchannel_is_connected :: "'u xChannel \<Rightarrow> bool" where
  "xchannel_is_connected ch \<longleftrightarrow> connected ch \<and> \<not> closed ch"

definition xchannel_is_read_closed :: "'u xChannel \<Rightarrow> bool" where
  "xchannel_is_read_closed ch \<longleftrightarrow> read_closed ch \<or> closed ch"

definition xchannel_is_write_closed :: "'u xChannel \<Rightarrow> bool" where
  "xchannel_is_write_closed ch \<longleftrightarrow> write_closed ch \<or> closed ch"

definition xchannel_set_userdata :: "'u \<Rightarrow> 'u xChannel \<Rightarrow> 'u xChannel" where
  "xchannel_set_userdata ud ch = ch\<lparr>userdata := ud\<rparr>"

definition xchannel_set_max_packet :: "nat \<Rightarrow> 'u xChannel \<Rightarrow> 'u xChannel" where
  "xchannel_set_max_packet n ch = (if n > 0 then ch\<lparr>max_packet := n\<rparr> else ch)"

definition xchannel_set_max_send :: "nat \<Rightarrow> 'u xChannel \<Rightarrow> 'u xChannel" where
  "xchannel_set_max_send n ch = ch\<lparr>out_buf := (out_buf ch)\<lparr>buf_max := n\<rparr>\<rparr>"

definition xchannel_set_max_recv :: "nat \<Rightarrow> 'u xChannel \<Rightarrow> 'u xChannel" where
  "xchannel_set_max_recv n ch = ch\<lparr>in_buf := (in_buf ch)\<lparr>buf_max := n\<rparr>\<rparr>"

definition xchannel_attach :: "'u xChannel \<Rightarrow> int \<times> 'u xChannel" where
  "xchannel_attach ch =
     (if closed ch \<or> fd ch = INVALID_SOCKET_VAL then (-1, ch)
      else let ch = ch\<lparr>attached := True, connected := True\<rparr>
           in if read_closed ch then (0, ch)
              else case poll_add_read ch of
                     (True, ch) \<Rightarrow> (0, ch)
                   | (False, ch) \<Rightarrow> (-1, ch\<lparr>attached := False\<rparr>))"

definition xchannel_attach_connect :: "'u xChannel \<Rightarrow> int \<times> 'u xChannel" where
  "xchannel_attach_connect ch =
     (if closed ch \<or> fd ch = INVALID_SOCKET_VAL then (-1, ch)
      else let ch = ch\<lparr>connect_pending := True, connected := False\<rparr>
           in case poll_add_write OnConnected ch of
                (True, ch) \<Rightarrow> (0, ch\<lparr>attached := True\<rparr>)
              | (False, ch) \<Rightarrow> (-1, ch))"

definition xchannel_detach :: "'u xChannel \<Rightarrow> 'u xChannel" where
  "xchannel_detach ch =
     (if fd ch = INVALID_SOCKET_VAL then ch else (poll_del_all ch)\<lparr>attached := False\<rparr>)"

definition xchannel_pause_read :: "'u xChannel \<Rightarrow> 'u xChannel" where
  "xchannel_pause_read ch =
     (if closed ch \<or> read_paused ch then ch
      else let ch = ch\<lparr>read_paused := True\<rparr>
           in if fd ch \<noteq> INVALID_SOCKET_VAL then poll_del_read ch else ch)"

definition xchannel_is_read_paused :: "'u xChannel \<Rightarrow> bool" where
  "xchannel_is_read_paused ch \<longleftrightarrow> read_paused ch \<and> \<not> closed ch"

definition under_recv_limit :: "'u xChannel \<Rightarrow> bool" where
  "under_recv_limit ch \<longleftrightarrow> buf_max (in_buf ch) = 0 \<or> xbuf_size (in_buf ch) \<le> buf_max (in_buf ch)"

definition xchannel_resume_read :: "'u callbacks \<Rightarrow> nat \<Rightarrow> 'u xChannel \<Rightarrow> (int \<times> 'u xChannel) option" where
  "xchannel_resume_read E fuel ch =
     (if closed ch then Some (-1, ch)
      else if \<not> read_paused ch then Some (0, ch)
      else let ch = ch\<lparr>read_paused := False\<rparr>
           in if read_closed ch then Some (0, ch)
              else case process_input E fuel 0 (xchannel_retain ch) of
                     None \<Rightarrow> None
                   | Some (_, ch) \<Rightarrow>
                       if \<not> closed ch \<and> \<not> read_paused ch \<and> \<not> read_closed ch \<and> under_recv_limit ch
                       then case poll_add_read ch of
                              (True, ch) \<Rightarrow> Some (0, xchannel_release ch)
                            | (False, ch) \<Rightarrow>
                                Some (-1, xchannel_release (xchannel_close E (Some ''poll_error'') ch))
                       else Some (0, xchannel_release ch))"

definition xchannel_release_fd :: "'u xChannel \<Rightarrow> int \<times> 'u xChannel" where
  "xchannel_release_fd ch =
     (if closed ch \<or> fd ch = INVALID_SOCKET_VAL then (INVALID_SOCKET_VAL, ch)
      else (fd ch, (xchannel_detach ch)\<lparr>fd := INVALID_SOCKET_VAL, closed := True, connected := False,
              connect_pending := False, read_closed := True, write_closed := True\<rparr>))"

section \<open>Sending\<close>

definition xchannel_send_raw :: "'u callbacks \<Rightarrow> bytes \<Rightarrow> 'u xChannel \<Rightarrow> int \<times> 'u xChannel" where
  "xchannel_send_raw E bs ch = queue_or_send_iov E bs [] ch"

definition send_framed :: "'u callbacks \<Rightarrow> bytes \<Rightarrow> 'u xChannel \<Rightarrow> int \<times> 'u xChannel" where
  "send_framed E body ch =
     (case frame ch of
        XCHANNEL_FRAME_LEN32 \<Rightarrow>
          if length body > UINT32_MAX then (-1, ch)
          else queue_or_send_iov E (write_u32be (of_nat (length body))) body ch
      | XCHANNEL_FRAME_LEN16 \<Rightarrow>
          if length body > UINT16_MAX then (-1, ch)
          else queue_or_send_iov E (write_u16be (of_nat (length body))) body ch
      | XCHANNEL_FRAME_CRLF \<Rightarrow> queue_or_send_iov E body [13, 10] ch
      | _ \<Rightarrow> queue_or_send_iov E body [] ch)"

definition xchannel_send_packet :: "'u callbacks \<Rightarrow> bytes \<Rightarrow> 'u xChannel \<Rightarrow> int \<times> 'u xChannel" where
  "xchannel_send_packet E bs ch =
     (if closed ch then (-1, ch)
      else if has_pending_file ch then (-1, ch)
      else if send_transform ch
      then case send_tf E bs ch of
             (None, ch) \<Rightarrow> (-1, ch)
           | (Some enc, ch) \<Rightarrow> send_framed E enc ch
      else send_framed E bs ch)"

text \<open>\<open>opened\<close> is the descriptor and content of the regular file at the path, if it can be
  opened; a negative \<open>len\<close> asks for everything from the offset on.\<close>

definition xchannel_send_file_raw ::
  "'u callbacks \<Rightarrow> bytes \<Rightarrow> (int \<times> bytes) option \<Rightarrow> int \<Rightarrow> int \<Rightarrow> 'u xChannel \<Rightarrow> int \<times> 'u xChannel" where
  "xchannel_send_file_raw E header opened offset len ch =
     (if closed ch \<or> fd ch = INVALID_SOCKET_VAL then (-1, ch)
      else if close_after_flush ch then (-1, ch)
      else if has_pending_file ch then (-1, ch)
      else let offset = (if offset < 0 then 0 else offset)
           in case opened of
                None \<Rightarrow> (-1, ch)
              | Some (file, content) \<Rightarrow>
                  let sz = int (length content);
                      offset = (if offset > sz then sz else offset);
                      available = sz - offset;
                      len = (if len < 0 \<or> len > available then available else len)
                  in if len = 0 then queue_or_send_iov E header [] (note_event (EvFdClosed file) ch)
                     else case out_append header ch of
                            (False, ch) \<Rightarrow>
                              (-1, xchannel_close E (Some ''out_of_memory'') (note_event (EvFdClosed file) ch))
                          | (True, ch) \<Rightarrow>
                              let ch = flush_output E (ch\<lparr>file_fd := file, file_offset := nat offset,
                                    file_data := content, file_pending := True,
                                    file_remaining := nat len\<rparr>);
                                  (rc, ch) = (if \<not> closed ch \<and> (xbuf_size (out_buf ch) > 0 \<or> has_pending_file ch)
                                              then arm_writable E False ch else (0, ch))
                              in if rc \<noteq> 0 then (-1, ch) else (if closed ch then -1 else 0, ch))"

definition xchannel_close_after_flush :: "'u callbacks \<Rightarrow> string option \<Rightarrow> 'u xChannel \<Rightarrow> int \<times> 'u xChannel" where
  "xchannel_close_after_flush E reason ch =
     (let ch = xchannel_retain ch
      in if closed ch \<or> fd ch = INVALID_SOCKET_VAL then (-1, xchannel_release ch)
         else let ch = ch\<lparr>close_after_flush := True,
                          close_reason := take 63 (reason_or ''close_after_flush'' reason)\<rparr>;
                  ch = (if \<not> connect_pending ch then flush_output E ch else ch);
                  (rc, ch) = (if \<not> closed ch \<and> has_pending_output ch
                              then arm_writable E (connect_pending ch) ch else (0, ch))
              in (if rc \<noteq> 0 then -1 else 0, xchannel_release ch))"

definition xchannel_shutdown_write_after_flush ::
  "'u callbacks \<Rightarrow> string option \<Rightarrow> 'u xChannel \<Rightarrow> int \<times> 'u xChannel" where
  "xchannel_shutdown_write_after_flush E reason ch =
     (let ch = xchannel_retain ch
      in if closed ch \<or> fd ch = INVALID_SOCKET_VAL then (-1, xchannel_release ch)
         else if write_closed ch then (0, xchannel_release ch)
         else let ch = ch\<lparr>shutdown_write_after_flush := True,
                          shutdown_reason := take 63 (reason_or ''shutdown_write_after_flush'' reason)\<rparr>;
                  ch = (if \<not> connect_pending ch then flush_output E ch else ch);
                  (rc, ch) = (if \<not> closed ch \<and> shutdown_write_after_flush ch \<and> has_pending_output ch
                              then arm_writable E (connect_pending ch) ch else (0, ch))
              in (if rc \<noteq> 0 then -1 else if closed ch then -1 else 0, xchannel_release ch))"

definition xchannel_get_stats :: "'u xChannel \<Rightarrow> nat \<times> nat \<times> u64 \<times> u64" where
  "xchannel_get_stats ch = (xbuf_size (out_buf ch), xbuf_size (in_buf ch), bytes_sent ch, bytes_recv ch)"

section \<open>Events of the poll loop\<close>

text \<open>\<open>so_error\<close> says whether \<open>getsockopt\<close> failed or reported an error.\<close>

definition finish_connect :: "'u callbacks \<Rightarrow> bool \<Rightarrow> 'u xChannel \<Rightarrow> bool \<times> 'u xChannel" where
  "finish_connect E so_error ch =
     (if so_error then (False, xchannel_close E (Some ''connect_error'') ch)
      else let ch = poll_del_write (ch\<lparr>connect_pending := False, connected := True\<rparr>)
           in case xchannel_attach ch of
                (rc, ch) \<Rightarrow>
                  if rc \<noteq> 0 then (False, xchannel_close E (Some ''poll_error'') ch)
                  else if closed ch then (False, ch)
                  else let ch = (if has_connect_cb ch then connect_cb E (note_event EvConnect ch) else ch);
                           ch = flush_output E ch;
                           (rc, ch) = (if xbuf_size (out_buf ch) > 0 \<or> has_pending_file ch
                                       then arm_writable E False ch else (0, ch))
                       in if rc \<noteq> 0 then (False, ch) else (\<not> closed ch, ch))"

definition xchannel_read_eof :: "'u callbacks \<Rightarrow> string option \<Rightarrow> 'u xChannel \<Rightarrow> 'u xChannel" where
  "xchannel_read_eof E reason ch =
     (if closed ch \<or> read_closed ch then ch
      else let ch = ch\<lparr>read_closed := True\<rparr>;
               ch = (if fd ch \<noteq> INVALID_SOCKET_VAL then poll_del_read ch else ch);
               r = reason_or ''eof'' reason
           in if has_eof_cb ch then finish_deferred_close E (eof_cb E r (note_event (EvEof r) ch))
              else xchannel_close E (Some r) ch)"

datatype read_end = ReadMore | ReadEnd | ReadEof | ReadFail

text \<open>The receive loop, three rounds at most.\<close>

primrec recv_loop :: "'u callbacks \<Rightarrow> nat \<Rightarrow> 'u xChannel \<Rightarrow> read_end \<times> 'u xChannel" where
  "recv_loop E 0 ch = (ReadEnd, ch)"
| "recv_loop E (Suc retries) ch =
     (if closed ch \<or> read_closed ch then (ReadEnd, ch)
      else case xbuf_reserve (mem_ok ch) XCHANNEL_READ_CHUNK (in_buf ch) of
             (False, b) \<Rightarrow> (ReadEnd, xchannel_close E (Some ''out_of_memory'') (ch\<lparr>in_buf := b\<rparr>))
           | (True, b) \<Rightarrow>
               (case os_recv (min (buf_cap b - buf_len b) INT_MAX) (ch\<lparr>in_buf := b\<rparr>) of
                  (RecvBytes bs, ch) \<Rightarrow>
                    let ch = ch\<lparr>in_buf := xbuf_put bs (in_buf ch),
                                bytes_recv := bytes_recv ch + of_nat (length bs)\<rparr>
                    in if \<not> under_recv_limit ch then (ReadEnd, ch) else recv_loop E retries ch
                | (RecvEof, ch) \<Rightarrow> (ReadEof, ch)
                | (RecvAgain, ch) \<Rightarrow> (ReadEnd, ch)
                | (RecvError, ch) \<Rightarrow> (ReadFail, ch)))"

definition xchannel_read_event :: "'u callbacks \<Rightarrow> nat \<Rightarrow> 'u xChannel \<Rightarrow> 'u xChannel option" where
  "xchannel_read_event E fuel ch =
     (if closed ch then Some ch
      else if read_paused ch then Some ch
      else let (how, ch) = recv_loop E 3 (xchannel_retain ch);
               over_before = (\<not> closed ch \<and> \<not> under_recv_limit ch);
               ch = (if over_before then poll_del_read ch else ch)
           in case process_input E fuel 0 ch of
                None \<Rightarrow> None
              | Some (n, ch) \<Rightarrow>
                  let ch = (if n = 0 \<and> over_before
                            then xchannel_close E (Some ''over_consume_error'') ch else ch);
                      ch = (if over_before \<and> \<not> closed ch \<and> \<not> read_paused ch
                               \<and> xbuf_size (in_buf ch) \<le> buf_max (in_buf ch)
                            then case poll_add_read ch of
                                   (True, ch) \<Rightarrow> ch
                                 | (False, ch) \<Rightarrow> xchannel_close E (Some ''poll_error'') ch
                            else ch);
                      ch = (if how = ReadFail \<and> \<not> closed ch
                            then xchannel_close E (Some ''read_error'') ch
                            else if how = ReadEof \<and> \<not> closed ch
                            then xchannel_read_eof E (Some ''eof'') ch
                            else ch)
                  in Some (xchannel_release ch))"

definition xchannel_write_event :: "'u callbacks \<Rightarrow> 'u xChannel \<Rightarrow> 'u xChannel" where
  "xchannel_write_event E ch =
     (if closed ch then ch else xchannel_release (flush_output E (xchannel_retain ch)))"

definition xchannel_connect_event :: "'u callbacks \<Rightarrow> bool \<Rightarrow> 'u xChannel \<Rightarrow> 'u xChannel" where
  "xchannel_connect_event E so_error ch =
     (if closed ch then ch else xchannel_release (snd (finish_connect E so_error (xchannel_retain ch))))"

definition xchannel_error_event :: "'u callbacks \<Rightarrow> 'u xChannel \<Rightarrow> 'u xChannel" where
  "xchannel_error_event E ch =
     (if closed ch then ch
      else xchannel_release (xchannel_close E (Some ''socket_error'') (xchannel_retain ch)))"

text \<open>A writable event runs the handler registered for the descriptor.\<close>

definition writable_event :: "'u callbacks \<Rightarrow> bool \<Rightarrow> 'u xChannel \<Rightarrow> 'u xChannel" where
  "writable_event E so_error ch =
     (case poll_wr ch of
        None \<Rightarrow> ch
      | Some OnWritable \<Rightarrow> xchannel_write_event E ch
      | Some OnConnected \<Rightarrow> xchannel_connect_event E so_error ch)"

end
