(* ===== verification/XFraming.thy ===== *)
theory XFraming
  imports XChannel
begin

text \<open>
  Framing as a pure parser: one step on the buffered bytes, the codec contract a length prefix
  or a terminator fulfils, its three instances, and what follows from the contract for a stream
  cut into arbitrary chunks.
\<close>

section \<open>Parsing steps\<close>

datatype parse_result = NeedMore | TooLarge | Packet bytes nat

definition parse_step :: "xChannelFrame \<Rightarrow> nat \<Rightarrow> bytes \<Rightarrow> parse_result" where
  "parse_step f mx bs =
     (case f of
        XCHANNEL_FRAME_LEN32 \<Rightarrow>
          if length bs < 4 then NeedMore
          else let n = unat (read_u32be bs)
               in if n > mx then TooLarge
                  else if length bs < n + 4 then NeedMore
                  else Packet (take n (drop 4 bs)) (n + 4)
      | XCHANNEL_FRAME_LEN16 \<Rightarrow>
          if length bs < 2 then NeedMore
          else let n = unat (read_u16be bs)
               in if n > mx then TooLarge
                  else if length bs < n + 2 then NeedMore
                  else Packet (take n (drop 2 bs)) (n + 2)
      | XCHANNEL_FRAME_CRLF \<Rightarrow>
          (case find_crlf bs of
             None \<Rightarrow> if length bs > mx then TooLarge else NeedMore
           | Some pos \<Rightarrow> if pos > mx then TooLarge else Packet (take pos bs) (pos + 2))
      | _ \<Rightarrow> NeedMore)"

text \<open>The bytes \<open>xchannel_send_packet\<close> writes for a body.\<close>

definition frame_encode :: "xChannelFrame \<Rightarrow> bytes \<Rightarrow> bytes" where
  "frame_encode f body =
     (case f of
        XCHANNEL_FRAME_LEN32 \<Rightarrow> write_u32be (of_nat (length body)) @ body
      | XCHANNEL_FRAME_LEN16 \<Rightarrow> write_u16be (of_nat (length body)) @ body
      | XCHANNEL_FRAME_CRLF \<Rightarrow> body @ [13, 10]
      | _ \<Rightarrow> body)"

text \<open>Which bodies a receiver with limit \<open>mx\<close> gets back. A line must end before the limit: with
  exactly \<open>mx\<close> bytes it is refused when its carriage return arrives alone.\<close>

definition frame_fits :: "xChannelFrame \<Rightarrow> nat \<Rightarrow> bytes \<Rightarrow> bool" where
  "frame_fits f mx body \<longleftrightarrow>
     (case f of
        XCHANNEL_FRAME_LEN32 \<Rightarrow> length body \<le> mx \<and> length body \<le> UINT32_MAX
      | XCHANNEL_FRAME_LEN16 \<Rightarrow> length body \<le> mx \<and> length body \<le> UINT16_MAX
      | XCHANNEL_FRAME_CRLF \<Rightarrow> length body < mx \<and> find_crlf body = None
      | _ \<Rightarrow> False)"

text \<open>All packets of a byte string, what is left, and whether the parse ended with an oversized
  packet.\<close>

function parse_all :: "(bytes \<Rightarrow> parse_result) \<Rightarrow> bytes \<Rightarrow> bytes list \<times> bytes \<times> bool" where
  "parse_all st bs =
     (case st bs of
        NeedMore \<Rightarrow> ([], bs, False)
      | TooLarge \<Rightarrow> ([], bs, True)
      | Packet p n \<Rightarrow>
          if n = 0 \<or> bs = [] then ([], bs, False)
          else let (ps, rest, large) = parse_all st (drop n bs) in (p # ps, rest, large))"
  by pat_completeness auto

termination
  by (relation "measure (\<lambda>(st, bs). length bs)") auto

declare parse_all.simps [simp del]

section \<open>The codec contract\<close>

locale frame_codec =
  fixes st :: "bytes \<Rightarrow> parse_result"
    and enc :: "bytes \<Rightarrow> bytes"
    and fits :: "bytes \<Rightarrow> bool"
  assumes st_Nil: "st [] = NeedMore"
    and st_progress: "st bs = Packet p n \<Longrightarrow> 0 < n \<and> n \<le> length bs"
    and st_mono: "st bs = Packet p n \<Longrightarrow> st (bs @ cs) = Packet p n"
    and st_enc: "fits p \<Longrightarrow> st (enc p) = Packet p (length (enc p))"
    and st_partial: "fits p \<Longrightarrow> k < length (enc p) \<Longrightarrow> st (take k (enc p)) = NeedMore"
begin

lemma parse_one:
  "fits p \<Longrightarrow> parse_all st (enc p @ bs) = (let (ps, r, l) = parse_all st bs in (p # ps, r, l))"
proof -
  assume p: "fits p"
  have "st (enc p @ bs) = Packet p (length (enc p))" using st_mono [OF st_enc [OF p]] .
  moreover have "0 < length (enc p)" using st_progress [OF st_enc [OF p]] by simp
  ultimately show ?thesis by (subst parse_all.simps) (auto split: prod.splits)
qed

lemma parse_partial:
  "fits q \<Longrightarrow> k < length (enc q) \<Longrightarrow> parse_all st (take k (enc q)) = ([], take k (enc q), False)"
  by (subst parse_all.simps) (simp add: st_partial)

lemma parse_stream:
  "list_all fits ps \<Longrightarrow> parse_all st (concat (map enc ps) @ bs)
     = (let (qs, r, l) = parse_all st bs in (ps @ qs, r, l))"
  by (induction ps) (auto simp: parse_one split: prod.splits)

text \<open>A prefix of an encoded stream is whole packets and a proper prefix of the next one.\<close>

lemma stream_prefix:
  assumes "list_all fits ps" and "xs @ ys = concat (map enc ps)"
  shows "\<exists>m \<le> length ps. \<exists>r. parse_all st xs = (take m ps, r, False) \<and> st r = NeedMore
     \<and> r @ ys = concat (map enc (drop m ps)) \<and> (ys = [] \<longrightarrow> m = length ps \<and> r = [])"
  using assms
proof (induction ps arbitrary: xs)
  case Nil
  then show ?case by (simp add: parse_all.simps [of st "[]"] st_Nil)
next
  case (Cons p ps)
  then have p: "fits p" "list_all fits ps" by simp_all
  show ?case
  proof (cases "length (enc p) \<le> length xs")
    case True
    define xs' where "xs' = drop (length (enc p)) xs"
    have eq: "xs @ ys = enc p @ concat (map enc ps)" using Cons.prems(2) by simp
    then have "take (length (enc p)) xs = enc p"
      using True by (metis append_eq_append_conv_if append_take_drop_id)
    then have xs: "xs = enc p @ xs'" unfolding xs'_def by (metis append_take_drop_id)
    with eq have "xs' @ ys = concat (map enc ps)" by simp
    from Cons.IH [OF p(2) this] obtain m r where m: "m \<le> length ps"
      "parse_all st xs' = (take m ps, r, False)" "st r = NeedMore"
      "r @ ys = concat (map enc (drop m ps))" "ys = [] \<longrightarrow> m = length ps \<and> r = []" by blast
    then show ?thesis
      by (intro exI [of _ "Suc m"] conjI exI [of _ r]) (auto simp: xs parse_one p)
  next
    case False
    then have xs: "xs = take (length xs) (enc p)"
      using Cons.prems(2) by (metis append_eq_append_conv_if concat.simps(2) list.simps(9) nat_le_linear)
    have lt: "length xs < length (enc p)" using False by simp
    have "st xs = NeedMore" by (subst xs) (rule st_partial [OF p(1) lt])
    moreover have "parse_all st xs = ([], xs, False)" by (subst (1 2) xs) (rule parse_partial [OF p(1) lt])
    moreover have "ys \<noteq> []" using Cons.prems(2) lt by auto
    ultimately show ?thesis using Cons.prems(2) by (intro exI [of _ 0]) auto
  qed
qed

end

section \<open>Integers on the wire\<close>

lemma read_write_u32: "read_u32be (write_u32be v @ bs) = v"
proof (rule bit_word_eqI)
  fix n assume "n < LENGTH(32)"
  then consider "n < 8" | "8 \<le> n \<and> n < 16" | "16 \<le> n \<and> n < 24" | "24 \<le> n \<and> n < 32" by fastforce
  then show "bit (read_u32be (write_u32be v @ bs)) n = bit v n"
    by cases (auto simp: read_u32be_def write_u32be_def bit_simps)
qed

lemma read_write_u16: "read_u16be (write_u16be v @ bs) = v"
proof (rule bit_word_eqI)
  fix n assume "n < LENGTH(16)"
  then consider "n < 8" | "8 \<le> n \<and> n < 16" by fastforce
  then show "bit (read_u16be (write_u16be v @ bs)) n = bit v n"
    by cases (auto simp: read_u16be_def write_u16be_def bit_simps)
qed

lemma unat_of_nat_u32: "n \<le> UINT32_MAX \<Longrightarrow> unat (of_nat n :: u32) = n"
  by (simp add: unsigned_of_nat take_bit_nat_eq_self)

lemma unat_of_nat_u16: "n \<le> UINT16_MAX \<Longrightarrow> unat (of_nat n :: u16) = n"
  by (simp add: unsigned_of_nat take_bit_nat_eq_self)

lemma read_u32_prefix: "4 \<le> length bs \<Longrightarrow> read_u32be (bs @ cs) = read_u32be bs"
  by (cases "bs = []") (auto simp: read_u32be_def nth_append)

lemma read_u16_prefix: "2 \<le> length bs \<Longrightarrow> read_u16be (bs @ cs) = read_u16be bs"
  by (cases "bs = []") (auto simp: read_u16be_def nth_append)

lemma header_lengths [simp]: "length (write_u32be v) = 4" "length (write_u16be w) = 2"
  by (simp_all add: write_u32be_def write_u16be_def)

section \<open>Lines\<close>

lemma find_crlf_bound: "find_crlf bs = Some n \<Longrightarrow> n + 2 \<le> length bs"
  by (induction bs arbitrary: n rule: find_crlf.induct) (auto split: if_splits)

lemma find_crlf_append: "find_crlf bs = Some n \<Longrightarrow> find_crlf (bs @ cs) = Some n"
  by (induction bs arbitrary: n rule: find_crlf.induct) (auto split: if_splits)

lemma find_crlf_end: "find_crlf bs = None \<Longrightarrow> find_crlf (bs @ [13, 10]) = Some (length bs)"
proof (induction bs rule: find_crlf.induct)
  case (1 a b bs)
  then show ?case by (auto split: if_splits)
qed auto

lemma find_crlf_cr: "find_crlf bs = None \<Longrightarrow> find_crlf (bs @ [13]) = None"
proof (induction bs rule: find_crlf.induct)
  case (1 a b bs)
  then show ?case by (auto split: if_splits)
qed auto

lemma find_crlf_take: "find_crlf bs = None \<Longrightarrow> find_crlf (take k bs) = None"
  using find_crlf_append [of "take k bs" _ "drop k bs"] by (cases "find_crlf (take k bs)") auto

section \<open>The three codecs\<close>

lemma len32_step_enc:
  assumes "frame_fits XCHANNEL_FRAME_LEN32 mx p"
  shows "parse_step XCHANNEL_FRAME_LEN32 mx (frame_encode XCHANNEL_FRAME_LEN32 p)
    = Packet p (length (frame_encode XCHANNEL_FRAME_LEN32 p))"
  using assms
  by (auto simp: parse_step_def frame_encode_def frame_fits_def read_write_u32 unat_of_nat_u32)

lemma len32_step_partial:
  assumes "frame_fits XCHANNEL_FRAME_LEN32 mx p" and "k < length (frame_encode XCHANNEL_FRAME_LEN32 p)"
  shows "parse_step XCHANNEL_FRAME_LEN32 mx (take k (frame_encode XCHANNEL_FRAME_LEN32 p)) = NeedMore"
proof (cases "k < 4")
  case True
  then show ?thesis by (simp add: parse_step_def frame_encode_def)
next
  case False
  then have "take k (frame_encode XCHANNEL_FRAME_LEN32 p) = write_u32be (of_nat (length p)) @ take (k - 4) p"
    by (simp add: frame_encode_def)
  with assms False show ?thesis
    by (auto simp: parse_step_def frame_encode_def frame_fits_def read_write_u32 unat_of_nat_u32)
qed

lemma len16_step_enc:
  assumes "frame_fits XCHANNEL_FRAME_LEN16 mx p"
  shows "parse_step XCHANNEL_FRAME_LEN16 mx (frame_encode XCHANNEL_FRAME_LEN16 p)
    = Packet p (length (frame_encode XCHANNEL_FRAME_LEN16 p))"
  using assms
  by (auto simp: parse_step_def frame_encode_def frame_fits_def read_write_u16 unat_of_nat_u16)

lemma len16_step_partial:
  assumes "frame_fits XCHANNEL_FRAME_LEN16 mx p" and "k < length (frame_encode XCHANNEL_FRAME_LEN16 p)"
  shows "parse_step XCHANNEL_FRAME_LEN16 mx (take k (frame_encode XCHANNEL_FRAME_LEN16 p)) = NeedMore"
proof (cases "k < 2")
  case True
  then show ?thesis by (simp add: parse_step_def frame_encode_def)
next
  case False
  then have "take k (frame_encode XCHANNEL_FRAME_LEN16 p) = write_u16be (of_nat (length p)) @ take (k - 2) p"
    by (simp add: frame_encode_def)
  with assms False show ?thesis
    by (auto simp: parse_step_def frame_encode_def frame_fits_def read_write_u16 unat_of_nat_u16 Let_def)
qed

lemma crlf_step_enc:
  assumes "frame_fits XCHANNEL_FRAME_CRLF mx p"
  shows "parse_step XCHANNEL_FRAME_CRLF mx (frame_encode XCHANNEL_FRAME_CRLF p)
    = Packet p (length (frame_encode XCHANNEL_FRAME_CRLF p))"
  using assms by (auto simp: parse_step_def frame_encode_def frame_fits_def find_crlf_end)

lemma crlf_step_partial:
  assumes "frame_fits XCHANNEL_FRAME_CRLF mx p" and "k < length (frame_encode XCHANNEL_FRAME_CRLF p)"
  shows "parse_step XCHANNEL_FRAME_CRLF mx (take k (frame_encode XCHANNEL_FRAME_CRLF p)) = NeedMore"
proof -
  let ?t = "take k (frame_encode XCHANNEL_FRAME_CRLF p)"
  have p: "length p < mx" "find_crlf p = None" using assms(1) by (auto simp: frame_fits_def)
  have "?t = take k p \<or> ?t = p @ [13]"
  proof (cases "k \<le> length p")
    case False
    with assms(2) have "k = Suc (length p)" by (simp add: frame_encode_def)
    then show ?thesis by (simp add: frame_encode_def)
  qed (simp add: frame_encode_def)
  then have "find_crlf ?t = None" using find_crlf_take [OF p(2)] find_crlf_cr [OF p(2)] by auto
  moreover have "length ?t \<le> mx" using assms(2) p(1) by (simp add: frame_encode_def)
  ultimately show ?thesis by (simp add: parse_step_def del: length_take)
qed

lemma parse_step_laws:
  assumes "f = XCHANNEL_FRAME_LEN32 \<or> f = XCHANNEL_FRAME_LEN16 \<or> f = XCHANNEL_FRAME_CRLF"
  shows "parse_step f mx [] = NeedMore"
    and "parse_step f mx bs = Packet p n \<Longrightarrow> 0 < n \<and> n \<le> length bs"
    and "parse_step f mx bs = Packet p n \<Longrightarrow> parse_step f mx (bs @ cs) = Packet p n"
proof -
  show "parse_step f mx [] = NeedMore" using assms by (auto simp: parse_step_def)
  show "0 < n \<and> n \<le> length bs" if "parse_step f mx bs = Packet p n"
    using assms that find_crlf_bound [of bs]
    by (auto simp: parse_step_def Let_def split: if_splits option.splits)
  show "parse_step f mx (bs @ cs) = Packet p n" if h: "parse_step f mx bs = Packet p n"
    using assms
  proof (elim disjE)
    assume f: "f = XCHANNEL_FRAME_LEN32"
    with h have "4 \<le> length bs" by (auto simp: parse_step_def split: if_splits)
    with f h show ?thesis
      by (auto simp: parse_step_def Let_def read_u32_prefix split: if_splits)
  next
    assume f: "f = XCHANNEL_FRAME_LEN16"
    with h have "2 \<le> length bs" by (auto simp: parse_step_def split: if_splits)
    with f h show ?thesis
      by (auto simp: parse_step_def Let_def read_u16_prefix split: if_splits)
  next
    assume f: "f = XCHANNEL_FRAME_CRLF"
    with h obtain pos where pos: "find_crlf bs = Some pos"
      by (auto simp: parse_step_def split: if_splits option.splits)
    with f h find_crlf_append [OF pos] find_crlf_bound [OF pos] show ?thesis
      by (auto simp: parse_step_def split: if_splits)
  qed
qed

interpretation len32: frame_codec "parse_step XCHANNEL_FRAME_LEN32 mx"
  "frame_encode XCHANNEL_FRAME_LEN32" "frame_fits XCHANNEL_FRAME_LEN32 mx" for mx
  by unfold_locales
    (simp_all add: parse_step_laws len32_step_enc len32_step_partial, (metis parse_step_laws(2))+)

interpretation len16: frame_codec "parse_step XCHANNEL_FRAME_LEN16 mx"
  "frame_encode XCHANNEL_FRAME_LEN16" "frame_fits XCHANNEL_FRAME_LEN16 mx" for mx
  by unfold_locales
    (simp_all add: parse_step_laws len16_step_enc len16_step_partial, (metis parse_step_laws(2))+)

interpretation crlf: frame_codec "parse_step XCHANNEL_FRAME_CRLF mx"
  "frame_encode XCHANNEL_FRAME_CRLF" "frame_fits XCHANNEL_FRAME_CRLF mx" for mx
  by unfold_locales
    (simp_all add: parse_step_laws crlf_step_enc crlf_step_partial, (metis parse_step_laws(2))+)

end
