(* ===== verification/XChanRecv.thy ===== *)
theory XChanRecv
  imports XFraming
begin

text \<open>
  The receive side of the channel: \<open>process_input\<close> delivers what the parser of the frame says,
  and read events deliver the packets of a stream whatever way the network cuts it.
\<close>

section \<open>Delivered packets and well-behaved callbacks\<close>

fun packet_of :: "chan_event \<Rightarrow> bytes list" where
  "packet_of (EvPacket p) = [p]"
| "packet_of _ = []"

definition delivered :: "'u xChannel \<Rightarrow> bytes list" where
  "delivered ch = concat (map packet_of (evlog ch))"

text \<open>The fields the receive path works with are left alone.\<close>

definition same_rx :: "'u xChannel \<Rightarrow> 'u xChannel \<Rightarrow> bool" where
  "same_rx ch ch' \<longleftrightarrow> closed ch' = closed ch \<and> frame ch' = frame ch \<and> max_packet ch' = max_packet ch
     \<and> has_packet_cb ch' = has_packet_cb ch \<and> recv_transform ch' = recv_transform ch
     \<and> read_closed ch' = read_closed ch \<and> read_paused ch' = read_paused ch
     \<and> mem_ok ch' = mem_ok ch \<and> refcount ch' = refcount ch \<and> recv_script ch' = recv_script ch
     \<and> buf_max (in_buf ch') = buf_max (in_buf ch)"

text \<open>A packet callback that does not interfere with the reading of its own channel (it may send,
  change its user data, or act on anything else).\<close>

definition pure_reader :: "'u callbacks \<Rightarrow> bool" where
  "pure_reader E \<longleftrightarrow> (\<forall>p ch. let ch' = snd (packet_cb E p ch) in
     same_rx ch ch' \<and> in_buf ch' = in_buf ch \<and> delivered ch' = delivered ch)"

definition rx_ready :: "'u xChannel \<Rightarrow> bool" where
  "rx_ready ch \<longleftrightarrow> \<not> closed ch \<and> \<not> read_closed ch \<and> \<not> read_paused ch \<and> has_packet_cb ch
     \<and> \<not> recv_transform ch \<and> 1 \<le> refcount ch \<and> xbuf_ok (in_buf ch)
     \<and> (frame ch = XCHANNEL_FRAME_LEN32 \<or> frame ch = XCHANNEL_FRAME_LEN16 \<or> frame ch = XCHANNEL_FRAME_CRLF)"

lemma same_rx_refl [simp]: "same_rx ch ch"
  by (simp add: same_rx_def)

lemma same_rx_trans: "same_rx a b \<Longrightarrow> same_rx b c \<Longrightarrow> same_rx a c"
  by (simp add: same_rx_def)

lemma emit_packet_reader:
  assumes "pure_reader E" and "rx_ready ch" and ch'_def: "ch' = snd (emit_packet E p ch)"
  shows "same_rx ch ch' \<and> in_buf ch' = in_buf ch \<and> delivered ch' = delivered ch @ [p]"
proof -
  let ?ch1 = "note_event (EvPacket p) (xchannel_retain ch)"
  obtain n ch2 where cb: "packet_cb E p ?ch1 = (n, ch2)" by fastforce
  have k: "same_rx ?ch1 ch2" "in_buf ch2 = in_buf ?ch1" "delivered ch2 = delivered ?ch1"
    using assms(1) cb unfolding pure_reader_def by (metis snd_conv)+
  have r: "refcount ch2 = refcount ch + 1" using k(1)
    by (simp add: same_rx_def note_event_def xchannel_retain_def)
  have "ch' = xchannel_release ch2"
    using assms(2) cb by (simp add: ch'_def emit_packet_def rx_ready_def note_event_def xchannel_retain_def)
  then have eq: "ch' = ch2\<lparr>refcount := refcount ch\<rparr>"
    using r assms(2) by (simp add: xchannel_release_def rx_ready_def Let_def)
  show ?thesis
    using k unfolding eq
    by (simp add: same_rx_def note_event_def xchannel_retain_def delivered_def)
qed

lemma emit_and_consume_reader:
  assumes "pure_reader E" and "rx_ready ch"
  shows "\<exists>ch'. emit_and_consume E p n ch = (True, ch') \<and> same_rx ch ch'
    \<and> in_buf ch' = xbuf_consume n (in_buf ch) \<and> delivered ch' = delivered ch @ [p]"
proof -
  let ?c = "snd (emit_packet E p ch)"
  note E = emit_packet_reader [OF assms refl, of p]
  have "\<not> closed ?c" using E assms(2) by (simp add: same_rx_def rx_ready_def)
  then have "emit_and_consume E p n ch = (True, ?c\<lparr>in_buf := xbuf_consume n (in_buf ?c)\<rparr>)"
    by (simp add: emit_and_consume_def Let_def)
  moreover have "buf_max (xbuf_consume n (in_buf ch)) = buf_max (in_buf ch)"
    using xbuf_consume_ok(3) assms(2) by (simp add: rx_ready_def)
  ultimately show ?thesis
    using E by (auto simp: same_rx_def delivered_def)
qed

lemma process_step_parse:
  assumes "pure_reader E" and "rx_ready ch"
  shows "case parse_step (frame ch) (max_packet ch) (xbuf_bytes (in_buf ch)) of
      NeedMore \<Rightarrow> process_step E ch = (False, ch)
    | TooLarge \<Rightarrow> process_step E ch = (False, xchannel_close E (Some ''packet_too_large'') ch)
    | Packet p n \<Rightarrow> \<exists>ch'. process_step E ch = (True, ch') \<and> same_rx ch ch'
        \<and> in_buf ch' = xbuf_consume n (in_buf ch) \<and> delivered ch' = delivered ch @ [p]"
proof -
  have len: "xbuf_size (in_buf ch) = length (xbuf_bytes (in_buf ch))"
    using assms(2) xbuf_size_bytes by (simp add: rx_ready_def)
  from assms(2) consider "frame ch = XCHANNEL_FRAME_LEN32" | "frame ch = XCHANNEL_FRAME_LEN16"
    | "frame ch = XCHANNEL_FRAME_CRLF" by (auto simp: rx_ready_def)
  then show ?thesis
  proof cases
    case 1
    show ?thesis using emit_and_consume_reader [OF assms]
      unfolding process_step_def parse_step_def 1 Let_def len by auto
  next
    case 2
    show ?thesis using emit_and_consume_reader [OF assms]
      unfolding process_step_def parse_step_def 2 Let_def len by auto
  next
    case 3
    show ?thesis using emit_and_consume_reader [OF assms]
      unfolding process_step_def parse_step_def 3 Let_def len
      by (cases "find_crlf (xbuf_bytes (in_buf ch))") auto
  qed
qed

lemma process_input_parse:
  assumes "pure_reader E" and "rx_ready ch"
    and "parse_all (parse_step (frame ch) (max_packet ch)) (xbuf_bytes (in_buf ch)) = (ps, r, False)"
    and "length (xbuf_bytes (in_buf ch)) < fuel"
  shows "\<exists>ch'. process_input E fuel rc ch = Some (rc + length ps, ch') \<and> same_rx ch ch'
    \<and> xbuf_ok (in_buf ch') \<and> xbuf_bytes (in_buf ch') = r \<and> delivered ch' = delivered ch @ ps"
  using assms(2-)
proof (induction fuel arbitrary: ch ps rc)
  case (Suc fuel)
  let ?bs = "xbuf_bytes (in_buf ch)"
  let ?st = "parse_step (frame ch) (max_packet ch)"
  have ok: "xbuf_ok (in_buf ch)" "\<not> closed ch" using Suc.prems(1) by (simp_all add: rx_ready_def)
  have frame: "frame ch = XCHANNEL_FRAME_LEN32 \<or> frame ch = XCHANNEL_FRAME_LEN16
      \<or> frame ch = XCHANNEL_FRAME_CRLF" using Suc.prems(1) by (simp add: rx_ready_def)
  note laws = parse_step_laws [OF frame]
  note P = process_step_parse [OF assms(1) Suc.prems(1)]
  show ?case
  proof (cases "?bs = []")
    case True
    then have "ps = []" "r = []"
      using Suc.prems(2) laws(1) by (auto simp: parse_all.simps [of _ "[]"])
    moreover have "xbuf_size (in_buf ch) = 0" using True xbuf_size_bytes [OF ok(1)] by simp
    ultimately show ?thesis using True ok by simp
  next
    case False
    then have sz: "xbuf_size (in_buf ch) \<noteq> 0" using xbuf_size_bytes [OF ok(1)] by simp
    show ?thesis
    proof (cases "?st ?bs")
      case NeedMore
      then have "ps = []" "r = ?bs" using Suc.prems(2) by (simp_all add: parse_all.simps [of _ ?bs])
      with NeedMore P ok sz show ?thesis by simp
    next
      case TooLarge
      then show ?thesis using Suc.prems(2) by (simp add: parse_all.simps [of _ ?bs])
    next
      case (Packet p n)
      with P obtain ch' where ch': "process_step E ch = (True, ch')" "same_rx ch ch'"
        "in_buf ch' = xbuf_consume n (in_buf ch)" "delivered ch' = delivered ch @ [p]" by auto
      have n: "0 < n" "n \<le> length ?bs" using laws(2) [OF Packet] by auto
      from Suc.prems(2) Packet n False obtain qs where
        qs: "parse_all ?st (drop n ?bs) = (qs, r, False)" "ps = p # qs"
        by (auto simp: parse_all.simps [of _ ?bs] split: prod.splits)
      have ok': "xbuf_ok (in_buf ch')" "xbuf_bytes (in_buf ch') = drop n ?bs"
        using xbuf_consume_ok [OF ok(1)] ch'(3) by simp_all
      have ready: "rx_ready ch'"
        using Suc.prems(1) ch'(2) ok'(1) by (simp add: rx_ready_def same_rx_def)
      have st': "parse_step (frame ch') (max_packet ch') = ?st" using ch'(2) by (simp add: same_rx_def)
      have "length (xbuf_bytes (in_buf ch')) < fuel" using n Suc.prems(3) ok'(2) by simp
      from Suc.IH [OF ready _ this, unfolded st' ok'(2), OF qs(1), of "rc + 1"]
      obtain ch2 where "process_input E fuel (rc + 1) ch' = Some (rc + 1 + length qs, ch2)"
        "same_rx ch' ch2" "xbuf_ok (in_buf ch2)" "xbuf_bytes (in_buf ch2) = r"
        "delivered ch2 = delivered ch' @ qs" by blast
      then show ?thesis
        using ch' ok sz qs(2) same_rx_trans by auto
    qed
  qed
qed simp

section \<open>Reading\<close>

definition nonempty_chunks :: "bytes list \<Rightarrow> bool" where
  "nonempty_chunks cs \<longleftrightarrow> (\<forall>c \<in> set cs. c \<noteq> [])"

text \<open>The receive limit of a buffer is not reached by \<open>n\<close> bytes; 0 is no limit.\<close>

definition room_for :: "nat \<Rightarrow> xBuffer \<Rightarrow> bool" where
  "room_for n b \<longleftrightarrow> buf_max b = 0 \<or> n \<le> buf_max b"

lemma room_for_limit:
  "room_for n (in_buf ch) \<Longrightarrow> xbuf_ok (in_buf ch) \<Longrightarrow> length (xbuf_bytes (in_buf ch)) \<le> n \<Longrightarrow> under_recv_limit ch"
  by (auto simp: room_for_def under_recv_limit_def xbuf_size_bytes)

lemma recv_loop_reads:
  assumes "rx_ready ch" and "\<forall>n. mem_ok ch n"
    and "room_for (length (xbuf_bytes (in_buf ch)) + length (concat cs)) (in_buf ch)"
    and "recv_script ch = map RecvBytes cs" and "nonempty_chunks cs"
    and "length (xbuf_bytes (in_buf ch)) + length (concat cs) + 8192 \<le> SIZE_MAX div 2"
  shows "\<exists>ch' got cs'. recv_loop E n ch = (ReadEnd, ch') \<and> recv_script ch' = map RecvBytes cs'
    \<and> nonempty_chunks cs' \<and> concat cs = got @ concat cs' \<and> xbuf_ok (in_buf ch')
    \<and> xbuf_bytes (in_buf ch') = xbuf_bytes (in_buf ch) @ got \<and> delivered ch' = delivered ch
    \<and> same_rx (ch\<lparr>recv_script := map RecvBytes cs'\<rparr>) ch' \<and> (cs \<noteq> [] \<and> 0 < n \<longrightarrow> got \<noteq> [])"
  using assms
proof (induction n arbitrary: ch cs)
  case 0
  then show ?case by (auto simp: rx_ready_def same_rx_def intro!: exI [of _ "[]"] exI [of _ cs])
next
  case (Suc n)
  have ok: "xbuf_ok (in_buf ch)" "\<not> closed ch" "\<not> read_closed ch"
    using Suc.prems(1) by (simp_all add: rx_ready_def)
  obtain res b where R: "xbuf_reserve (mem_ok ch) XCHANNEL_READ_CHUNK (in_buf ch) = (res, b)"
    by fastforce
  have b: "xbuf_ok b" "xbuf_bytes b = xbuf_bytes (in_buf ch)" "buf_max b = buf_max (in_buf ch)"
      "res \<longrightarrow> 8192 \<le> buf_cap b - buf_len b"
    using xbuf_reserve_ok [OF ok(1) R] Suc.prems(3) by (auto simp: XCHANNEL_READ_CHUNK_def)
  have res
  proof -
    have "fst (xbuf_append (mem_ok ch) (replicate XCHANNEL_READ_CHUNK 0) (in_buf ch))"
      by (rule xbuf_append_total [OF ok(1)])
        (use Suc.prems(2,6) xbuf_size_bytes [OF ok(1)] in \<open>auto simp: XCHANNEL_READ_CHUNK_def\<close>)
    then show res using R
      by (auto simp: xbuf_append_def XCHANNEL_READ_CHUNK_def split: bool.splits if_splits)
  qed
  then have R: "xbuf_reserve (mem_ok ch) XCHANNEL_READ_CHUNK (in_buf ch) = (True, b)"
    and room: "8192 \<le> buf_cap b - buf_len b" using R b by auto
  define chunk where "chunk = min (buf_cap b - buf_len b) INT_MAX"
  have chunk: "8192 \<le> chunk" "chunk \<le> buf_cap b - buf_len b" using room by (simp_all add: chunk_def)
  let ?ch0 = "ch\<lparr>in_buf := b\<rparr>"
  show ?case
  proof (cases cs)
    case Nil
    then have "recv_loop E (Suc n) ch = (ReadEnd, ?ch0)"
      using ok R Suc.prems(4) by (simp add: os_recv_def)
    moreover have "recv_script ch = []" using Nil Suc.prems(4) by simp
    ultimately show ?thesis
      using b Nil Suc.prems(3)
      by (intro exI [of _ ?ch0] exI [of _ "[]"])
        (simp del: recv_loop.simps add: same_rx_def delivered_def nonempty_chunks_def)
  next
    case (Cons c cs1)
    then have c: "c \<noteq> []" "nonempty_chunks cs1" using Suc.prems(5) by (auto simp: nonempty_chunks_def)
    define got where "got = take chunk c"
    define cs2 where "cs2 = (if length c \<le> chunk then cs1 else drop chunk c # cs1)"
    have split: "concat cs = got @ concat cs2" "got \<noteq> []" "nonempty_chunks cs2"
      using c chunk(1) Cons by (auto simp: got_def cs2_def nonempty_chunks_def)
    have recv: "os_recv chunk ?ch0 = (RecvBytes got, ?ch0\<lparr>recv_script := map RecvBytes cs2\<rparr>)"
      using Suc.prems(4) Cons c(1) by (simp add: os_recv_def got_def cs2_def)
    let ?b = "xbuf_put got b"
    have lg: "length got \<le> buf_cap b - buf_len b" using chunk(2) by (simp add: got_def)
    note B = xbuf_put_ok [OF b(1) lg]
    let ?ch1 = "?ch0\<lparr>recv_script := map RecvBytes cs2, in_buf := ?b,
        bytes_recv := bytes_recv ch + of_nat (length got)\<rparr>"
    have tot: "length (xbuf_bytes (in_buf ch)) + length (concat cs)
        = length (xbuf_bytes (in_buf ?ch1)) + length (concat cs2)"
      using split(1) B(2) b(2) by simp
    have rm: "room_for (length (xbuf_bytes (in_buf ?ch1)) + length (concat cs2)) (in_buf ?ch1)"
      using Suc.prems(3) B(3) b(3) unfolding tot by (simp add: room_for_def)
    have lim: "under_recv_limit ?ch1" by (rule room_for_limit [OF rm]) (use B(1) in simp_all)
    then have step: "recv_loop E (Suc n) ch = recv_loop E n ?ch1"
      using ok R recv by (simp add: Let_def flip: chunk_def)
    have ready: "rx_ready ?ch1" using Suc.prems(1) B(1) by (simp add: rx_ready_def)
    have "length (xbuf_bytes (in_buf ?ch1)) + length (concat cs2) + 8192 \<le> SIZE_MAX div 2"
      using Suc.prems(6) split(1) B(2) b(2) by simp
    from Suc.IH [OF ready _ rm _ split(3) this] Suc.prems(2) obtain ch' got' cs' where
      I: "recv_loop E n ?ch1 = (ReadEnd, ch')" "recv_script ch' = map RecvBytes cs'"
      "nonempty_chunks cs'" "concat cs2 = got' @ concat cs'" "xbuf_ok (in_buf ch')"
      "xbuf_bytes (in_buf ch') = xbuf_bytes (in_buf ?ch1) @ got'" "delivered ch' = delivered ?ch1"
      "same_rx (?ch1\<lparr>recv_script := map RecvBytes cs'\<rparr>) ch'" by auto
    have "same_rx (ch\<lparr>recv_script := map RecvBytes cs'\<rparr>) ch'"
      using I(8) B(3) b(3) Suc.prems(3) by (simp add: same_rx_def)
    then show ?thesis
      using I step split B(2) b(2)
      by (intro exI [of _ ch'] exI [of _ "got @ got'"] exI [of _ cs']) (simp add: delivered_def)
  qed
qed

section \<open>Streams\<close>

lemma frame_stream_prefix:
  assumes "f = XCHANNEL_FRAME_LEN32 \<or> f = XCHANNEL_FRAME_LEN16 \<or> f = XCHANNEL_FRAME_CRLF"
    and "list_all (frame_fits f mx) ps" and "xs @ ys = concat (map (frame_encode f) ps)"
  shows "\<exists>m \<le> length ps. \<exists>r. parse_all (parse_step f mx) xs = (take m ps, r, False)
     \<and> r @ ys = concat (map (frame_encode f) (drop m ps)) \<and> (ys = [] \<longrightarrow> m = length ps \<and> r = [])"
  using assms len32.stream_prefix [of mx ps xs ys] len16.stream_prefix [of mx ps xs ys]
    crlf.stream_prefix [of mx ps xs ys] by blast

text \<open>A channel in the middle of a stream: \<open>ps\<close> is still to be delivered, part of it buffered,
  the rest in the chunks to come.\<close>

definition awaiting :: "nat \<Rightarrow> bytes list \<Rightarrow> bytes list \<Rightarrow> 'u xChannel \<Rightarrow> bool" where
  "awaiting fuel ps cs ch \<longleftrightarrow> rx_ready ch \<and> (\<forall>n. mem_ok ch n)
     \<and> room_for (length (concat (map (frame_encode (frame ch)) ps))) (in_buf ch)
     \<and> list_all (frame_fits (frame ch) (max_packet ch)) ps \<and> recv_script ch = map RecvBytes cs
     \<and> nonempty_chunks cs \<and> xbuf_bytes (in_buf ch) @ concat cs = concat (map (frame_encode (frame ch)) ps)
     \<and> length (concat (map (frame_encode (frame ch)) ps)) + 8192 \<le> SIZE_MAX div 2
     \<and> length (concat (map (frame_encode (frame ch)) ps)) < fuel"

lemma read_event_awaiting:
  assumes "pure_reader E" and aw: "awaiting fuel ps cs ch"
  shows "\<exists>ch' m cs'. xchannel_read_event E fuel ch = Some ch' \<and> m \<le> length ps
    \<and> awaiting fuel (drop m ps) cs' ch' \<and> delivered ch' = delivered ch @ take m ps
    \<and> frame ch' = frame ch \<and> (cs \<noteq> [] \<longrightarrow> length (concat cs') < length (concat cs))
    \<and> length (concat cs') \<le> length (concat cs) \<and> (cs' = [] \<longrightarrow> m = length ps)"
proof -
  let ?f = "frame ch"
  let ?ch0 = "xchannel_retain ch"
  have A: "rx_ready ch" "\<forall>n. mem_ok ch n" "room_for (length (concat (map (frame_encode ?f) ps))) (in_buf ch)"
    "list_all (frame_fits ?f (max_packet ch)) ps" "recv_script ch = map RecvBytes cs"
    "nonempty_chunks cs" "xbuf_bytes (in_buf ch) @ concat cs = concat (map (frame_encode ?f) ps)"
    "length (concat (map (frame_encode ?f) ps)) + 8192 \<le> SIZE_MAX div 2"
    "length (concat (map (frame_encode ?f) ps)) < fuel"
    using aw unfolding awaiting_def by blast+
  have r0: "rx_ready ?ch0" using A(1) by (simp add: rx_ready_def xchannel_retain_def)
  have "length (xbuf_bytes (in_buf ?ch0)) + length (concat cs) + 8192 \<le> SIZE_MAX div 2"
    using A(7,8) by (simp add: xchannel_retain_def flip: length_append)
  moreover have "room_for (length (xbuf_bytes (in_buf ?ch0)) + length (concat cs)) (in_buf ?ch0)"
    using A(3,7) by (simp add: xchannel_retain_def flip: length_append)
  ultimately obtain ch1 got cs' where
    L: "recv_loop E 3 ?ch0 = (ReadEnd, ch1)" "recv_script ch1 = map RecvBytes cs'"
    "nonempty_chunks cs'" "concat cs = got @ concat cs'" "xbuf_ok (in_buf ch1)"
    "xbuf_bytes (in_buf ch1) = xbuf_bytes (in_buf ch) @ got" "delivered ch1 = delivered ch"
    "same_rx (?ch0\<lparr>recv_script := map RecvBytes cs'\<rparr>) ch1" "cs \<noteq> [] \<longrightarrow> got \<noteq> []"
    using recv_loop_reads [OF r0 _ _ _ A(6), of E 3] A(2,5)
    by (auto simp: xchannel_retain_def delivered_def)
  have k1: "frame ch1 = ?f" "max_packet ch1 = max_packet ch" "buf_max (in_buf ch1) = buf_max (in_buf ch)"
    "\<not> closed ch1"
    "refcount ch1 = refcount ch + 1" "mem_ok ch1 = mem_ok ch"
    using L(8) A(1) by (simp_all add: same_rx_def xchannel_retain_def rx_ready_def)
  have r1: "rx_ready ch1" using L(5,8) r0 by (simp add: rx_ready_def same_rx_def)
  have "length (xbuf_bytes (in_buf ch1)) \<le> length (concat (map (frame_encode ?f) ps))"
    using A(7) L(4,6) by (metis append_assoc length_append le_add1)
  moreover have "room_for (length (concat (map (frame_encode ?f) ps))) (in_buf ch1)"
    using A(3) k1(3) by (simp add: room_for_def)
  ultimately have lim: "under_recv_limit ch1" by (intro room_for_limit) (use L(5) in simp_all)
  have "xbuf_bytes (in_buf ch1) @ concat cs' = concat (map (frame_encode ?f) ps)"
    using A(7) L(4,6) by simp
  from frame_stream_prefix [OF _ A(4) this] A(1) obtain m r where
    P: "m \<le> length ps" "parse_all (parse_step ?f (max_packet ch)) (xbuf_bytes (in_buf ch1)) = (take m ps, r, False)"
    "r @ concat cs' = concat (map (frame_encode ?f) (drop m ps))"
    "concat cs' = [] \<longrightarrow> m = length ps \<and> r = []" unfolding rx_ready_def by blast
  have "length (xbuf_bytes (in_buf ch1)) \<le> length (concat (map (frame_encode ?f) ps))"
    using A(7) L(4,6) by (metis append_assoc length_append le_add1)
  with A(9) have "length (xbuf_bytes (in_buf ch1)) < fuel" by simp
  from process_input_parse [OF assms(1) r1 _ this, unfolded k1(1,2), OF P(2), of 0] obtain ch2 where
    I: "process_input E fuel 0 ch1 = Some (length (take m ps), ch2)" "same_rx ch1 ch2"
    "xbuf_ok (in_buf ch2)" "xbuf_bytes (in_buf ch2) = r" "delivered ch2 = delivered ch1 @ take m ps"
    by auto
  let ?ch' = "ch2\<lparr>refcount := refcount ch\<rparr>"
  have rel: "xchannel_release ch2 = ?ch'"
    using I(2) k1(5) A(1) by (simp add: xchannel_release_def same_rx_def rx_ready_def Let_def)
  have ev: "xchannel_read_event E fuel ch = Some ?ch'"
    using A(1) L(1) I(1) lim k1(4) I(2) rel
    by (simp add: xchannel_read_event_def rx_ready_def same_rx_def Let_def)
  have len: "length (concat (map (frame_encode ?f) ps))
      = length (concat (map (frame_encode ?f) (take m ps))) + length (concat (map (frame_encode ?f) (drop m ps)))"
    by (metis append_take_drop_id concat_append length_append map_append)
  have s2: "same_rx (?ch0\<lparr>recv_script := map RecvBytes cs'\<rparr>) ch2" using same_rx_trans L(8) I(2) by blast
  have "list_all (frame_fits ?f (max_packet ch)) (drop m ps)"
    using A(4) by (auto simp: list_all_iff dest: in_set_dropD)
  then have "awaiting fuel (drop m ps) cs' ?ch'"
    using s2 A(1,2,3,8,9) I(3,4) L(3) P(3) len
    by (auto simp: room_for_def awaiting_def rx_ready_def same_rx_def xchannel_retain_def)
  moreover have "delivered ?ch' = delivered ch @ take m ps" using I(5) L(7) by (simp add: delivered_def)
  moreover have "frame ?ch' = ?f" using s2 by (simp add: same_rx_def xchannel_retain_def)
  moreover have "cs \<noteq> [] \<longrightarrow> length (concat cs') < length (concat cs)"
      "length (concat cs') \<le> length (concat cs)" using L(4,9) by simp_all
  moreover have "cs' = [] \<longrightarrow> m = length ps" using P(4) by simp
  ultimately show ?thesis using ev P(1) by blast
qed

primrec read_events :: "'u callbacks \<Rightarrow> nat \<Rightarrow> nat \<Rightarrow> 'u xChannel \<Rightarrow> 'u xChannel option" where
  "read_events E fuel 0 ch = Some ch"
| "read_events E fuel (Suc n) ch =
     (case xchannel_read_event E fuel ch of None \<Rightarrow> None | Some ch \<Rightarrow> read_events E fuel n ch)"

lemma read_events_awaiting:
  assumes "pure_reader E" and "awaiting fuel ps cs ch"
  shows "\<exists>ch' m cs'. read_events E fuel n ch = Some ch' \<and> m \<le> length ps
    \<and> awaiting fuel (drop m ps) cs' ch' \<and> delivered ch' = delivered ch @ take m ps
    \<and> (length (concat cs) < n \<longrightarrow> m = length ps)"
  using assms(2)
proof (induction n arbitrary: ch ps cs)
  case 0
  then show ?case by (auto intro!: exI [of _ 0])
next
  case (Suc n)
  from read_event_awaiting [OF assms(1) Suc.prems] obtain ch1 m1 cs1 where
    S: "xchannel_read_event E fuel ch = Some ch1" "m1 \<le> length ps" "awaiting fuel (drop m1 ps) cs1 ch1"
    "delivered ch1 = delivered ch @ take m1 ps"
    "cs \<noteq> [] \<longrightarrow> length (concat cs1) < length (concat cs)" "cs1 = [] \<longrightarrow> m1 = length ps"
    "length (concat cs1) \<le> length (concat cs)" by blast
  from Suc.IH [OF S(3)] obtain ch' m cs' where
    I: "read_events E fuel n ch1 = Some ch'" "m \<le> length (drop m1 ps)"
    "awaiting fuel (drop m (drop m1 ps)) cs' ch'" "delivered ch' = delivered ch1 @ take m (drop m1 ps)"
    "length (concat cs1) < n \<longrightarrow> m = length (drop m1 ps)" by blast
  have "m1 + m = length ps" if "length (concat cs) < Suc n"
  proof (cases "cs1 = []")
    case True
    with S(6) I(2) show ?thesis by simp
  next
    case False
    have "nonempty_chunks cs1" using S(3) by (simp add: awaiting_def)
    with False have ne: "concat cs1 \<noteq> []" by (auto simp: nonempty_chunks_def neq_Nil_conv)
    show ?thesis
    proof (cases "cs = []")
      case True
      then have "length (concat cs1) \<le> 0" using S(7) by simp
      with ne show ?thesis by simp
    next
      case F: False
      with S(5) that have "length (concat cs1) < n" by simp
      with I(5) S(2) show ?thesis by simp
    qed
  qed
  with S I show ?case
    by (intro exI [of _ ch'] exI [of _ "m1 + m"] exI [of _ cs'])
      (simp add: take_add add.commute)
qed

end
