(* ===== verification/XChanSend.thy ===== *)
theory XChanSend
  imports XFraming
begin

text \<open>
  The send side of the channel: partial sends, queueing and flushing keep the order of the bytes
  and lose none; whatever is queued has a writable event registered.
\<close>

section \<open>Closing\<close>

text \<open>The close callback does not bring the channel back.\<close>

definition stays_closed :: "'u callbacks \<Rightarrow> bool" where
  "stays_closed E \<longleftrightarrow> (\<forall>r ch. closed ch \<longrightarrow> closed (close_cb E r ch))"

lemma close_pending_closed [simp]: "closed (close_pending_file ch) = closed ch"
  by (simp add: close_pending_file_def note_event_def Let_def)

lemma release_closed [simp]: "closed (xchannel_release ch) = closed ch"
  by (simp add: xchannel_release_def xchannel_free_storage_def note_event_def Let_def)

lemma retain_closed [simp]: "closed (xchannel_retain ch) = closed ch"
  by (simp add: xchannel_retain_def)

lemma close_internal_closed: "stays_closed E \<Longrightarrow> closed (close_internal E r n ch)"
  by (auto simp: close_internal_def Let_def stays_closed_def note_event_def poll_del_all_def)

lemma close_closed: "stays_closed E \<Longrightarrow> closed (xchannel_close E r ch)"
  by (simp add: xchannel_close_def close_internal_closed)

section \<open>The bytes on their way\<close>

definition file_bytes :: "'u xChannel \<Rightarrow> bytes" where
  "file_bytes ch = (if has_pending_file ch
     then take (file_remaining ch) (drop (file_offset ch) (file_data ch)) else [])"

definition in_transit :: "'u xChannel \<Rightarrow> bytes" where
  "in_transit ch = wire ch @ xbuf_bytes (out_buf ch)"

text \<open>What the send path leaves alone.\<close>

definition same_tx :: "'u xChannel \<Rightarrow> 'u xChannel \<Rightarrow> bool" where
  "same_tx ch ch' \<longleftrightarrow> closed ch' = closed ch \<and> fd ch' = fd ch \<and> frame ch' = frame ch
     \<and> send_transform ch' = send_transform ch \<and> connect_pending ch' = connect_pending ch
     \<and> connected ch' = connected ch \<and> close_after_flush ch' = close_after_flush ch
     \<and> read_closed ch' = read_closed ch \<and> refcount ch' = refcount ch \<and> mem_ok ch' = mem_ok ch
     \<and> buf_max (out_buf ch') = buf_max (out_buf ch) \<and> file_pending ch' = file_pending ch
     \<and> write_closed ch' = write_closed ch
     \<and> shutdown_write_after_flush ch' = shutdown_write_after_flush ch"

lemma same_tx_refl [simp]: "same_tx ch ch"
  by (simp add: same_tx_def)

lemma same_tx_trans: "same_tx a b \<Longrightarrow> same_tx b c \<Longrightarrow> same_tx a c"
  by (simp add: same_tx_def)

lemma os_send_spec:
  "os_send bs ch = (r, ch') \<Longrightarrow>
     \<exists>n. n \<le> length bs \<and> wire ch' = wire ch @ take n bs \<and> (r = IoBytes n \<or> n = 0 \<and> (r = IoAgain \<or> r = IoError))
       \<and> out_buf ch' = out_buf ch \<and> same_tx ch ch' \<and> poll_wr ch' = poll_wr ch \<and> evlog ch' = evlog ch
       \<and> file_remaining ch' = file_remaining ch \<and> file_offset ch' = file_offset ch
       \<and> file_data ch' = file_data ch"
  by (auto simp: os_send_def same_tx_def split: list.splits io_result.splits
      intro: exI [of _ 0])
     (metis min.cobounded2 min_def take_all_iff nat_le_linear)

lemma out_append_spec:
  assumes "xbuf_ok (out_buf ch)" and "out_append bs ch = (ok, ch')"
  shows "xbuf_ok (out_buf ch')" and "ok \<Longrightarrow> xbuf_bytes (out_buf ch') = xbuf_bytes (out_buf ch) @ bs"
    and "same_tx ch ch'" and "ch' = ch\<lparr>out_buf := out_buf ch'\<rparr>"
proof -
  obtain b where A: "xbuf_append (mem_ok ch) bs (out_buf ch) = (ok, b)" and ch': "ch' = ch\<lparr>out_buf := b\<rparr>"
    using assms(2) by (auto simp: out_append_def split: prod.splits)
  from xbuf_append_ok [OF assms(1) A] ch' show "xbuf_ok (out_buf ch')"
    "ok \<Longrightarrow> xbuf_bytes (out_buf ch') = xbuf_bytes (out_buf ch) @ bs" "same_tx ch ch'"
    "ch' = ch\<lparr>out_buf := out_buf ch'\<rparr>" by (auto simp: same_tx_def)
qed

lemma out_append2_spec:
  assumes "xbuf_ok (out_buf ch)" and "out_append2 a b ch = (ok, ch')"
  shows "xbuf_ok (out_buf ch')" and "ok \<Longrightarrow> xbuf_bytes (out_buf ch') = xbuf_bytes (out_buf ch) @ a @ b"
    and "same_tx ch ch'" and "ch' = ch\<lparr>out_buf := out_buf ch'\<rparr>"
proof -
  obtain ok1 ch1 where A: "out_append a ch = (ok1, ch1)" by fastforce
  note S = out_append_spec [OF assms(1) A]
  have "xbuf_ok (out_buf ch') \<and> (ok \<longrightarrow> xbuf_bytes (out_buf ch') = xbuf_bytes (out_buf ch) @ a @ b)
      \<and> same_tx ch ch' \<and> ch' = ch\<lparr>out_buf := out_buf ch'\<rparr>"
  proof (cases ok1)
    case True
    with assms(2) A have B: "out_append b ch1 = (ok, ch')" by (simp add: out_append2_def)
    note T = out_append_spec [OF S(1) B]
    have "ch' = ch\<lparr>out_buf := out_buf ch'\<rparr>" using S(4) T(4) by (metis xChannel.surjective xChannel.update_convs(13))
    with S T same_tx_trans True show ?thesis by auto
  next
    case False
    with assms(2) A have "ok = False" "ch' = ch1" by (auto simp: out_append2_def)
    with S show ?thesis by auto
  qed
  then show "xbuf_ok (out_buf ch')" "ok \<Longrightarrow> xbuf_bytes (out_buf ch') = xbuf_bytes (out_buf ch) @ a @ b"
    "same_tx ch ch'" "ch' = ch\<lparr>out_buf := out_buf ch'\<rparr>" by auto
qed

lemma try_send_iov_spec:
  assumes "try_send_iov a b ch = (r, ch')"
  shows "\<exists>n. n \<le> length (a @ b) \<and> wire ch' = wire ch @ take n (a @ b) \<and> (r = Some n \<or> r = None \<and> n = 0)
    \<and> out_buf ch' = out_buf ch \<and> same_tx ch ch' \<and> poll_wr ch' = poll_wr ch"
proof -
  define payload where "payload = (if a = [] \<or> b = [] then take INT_MAX (if a \<noteq> [] then a else b) else a @ b)"
  have "payload = take (if a = [] \<or> b = [] then INT_MAX else length (a @ b)) (a @ b)"
    by (auto simp: payload_def)
  then obtain k where k: "payload = take k (a @ b)" by blast
  obtain q ch1 where S: "os_send payload ch = (q, ch1)" by fastforce
  from os_send_spec [OF S] obtain n where n: "n \<le> length payload" "wire ch1 = wire ch @ take n payload"
    "q = IoBytes n \<or> n = 0 \<and> (q = IoAgain \<or> q = IoError)" "out_buf ch1 = out_buf ch" "same_tx ch ch1"
    "poll_wr ch1 = poll_wr ch" by blast
  have nk: "n \<le> k" "n \<le> length (a @ b)" using n(1) unfolding k length_take by simp_all
  then have "take n payload = take n (a @ b)" by (simp only: k take_take min_absorb1)
  moreover note nk(2)
  moreover have "(r, ch') = (case q of IoBytes n \<Rightarrow> Some n | IoAgain \<Rightarrow> Some 0 | IoError \<Rightarrow> None, ch1)"
    using assms S by (auto simp: try_send_iov_def Let_def payload_def split: io_result.splits)
  ultimately show ?thesis using n by (intro exI [of _ n]) auto
qed

lemma arm_writable_spec:
  assumes "arm_writable E c ch = (rc, ch')" and "stays_closed E"
  shows "rc = 0 \<and> poll_wr ch' = Some (if c then OnConnected else OnWritable) \<and> wire ch' = wire ch
      \<and> out_buf ch' = out_buf ch \<and> same_tx ch ch' \<or> rc = -1 \<and> closed ch'"
  using assms close_closed [OF assms(2)]
  by (auto simp: arm_writable_def poll_add_write_def poll_result_def same_tx_def
      split: list.splits bool.splits)

lemma check_send_limit_cases:
  "check_send_limit n m ch = 0 \<or> check_send_limit n m ch = -1
   \<or> check_send_limit n m ch = -2 \<and> buf_max (out_buf ch) > 0 \<and> xbuf_size (out_buf ch) \<ge> buf_max (out_buf ch)"
  by (simp add: check_send_limit_def)

text \<open>Queueing or sending: on success all bytes are in transit behind the earlier ones, and if any
  are queued the writable event is registered; otherwise nothing has changed or the channel is
  closed.\<close>

lemma queue_or_send_spec:
  assumes ok: "xbuf_ok (out_buf ch)" and st: "stays_closed E"
    and run: "queue_or_send_iov E a b ch = (rc, ch')"
  shows "rc = 0 \<and> in_transit ch' = in_transit ch @ a @ b \<and> xbuf_ok (out_buf ch') \<and> same_tx ch ch'
      \<and> (xbuf_size (out_buf ch') = 0 \<and> poll_wr ch' = poll_wr ch
         \<or> xbuf_size (out_buf ch) > 0 \<and> poll_wr ch' = poll_wr ch
         \<or> poll_wr ch' = Some (if connect_pending ch then OnConnected else OnWritable) \<or> a = [] \<and> b = [] \<and> ch' = ch)
    \<or> rc = -2 \<and> ch' = ch \<and> buf_max (out_buf ch) > 0 \<and> xbuf_size (out_buf ch) \<ge> buf_max (out_buf ch)
    \<or> rc = -1 \<and> (ch' = ch \<or> closed ch')"
proof -
  let ?lim = "check_send_limit (length a) (length b) ch"
  have cl: "closed (xchannel_close E r x)" for r x using close_closed [OF st] .
  show ?thesis
  proof (cases "a = [] \<and> b = []")
    case True
    with run ok show ?thesis by (simp add: queue_or_send_iov_def in_transit_def)
  next
    case ne: False
    show ?thesis
    proof (cases "?lim = 0")
      case False
      with ne run have "rc = ?lim" "ch' = ch" by (auto simp: queue_or_send_iov_def Let_def)
      with False check_send_limit_cases [of "length a" "length b" ch] show ?thesis by auto
    next
      case lim: True
      show ?thesis
      proof (cases "connect_pending ch \<or> xbuf_size (out_buf ch) > 0 \<or> \<not> connected ch")
        case q: True
        obtain okq ch1 where A: "out_append2 a b ch = (okq, ch1)" by fastforce
        note S = out_append2_spec [OF ok A]
        have w: "wire ch1 = wire ch" "poll_wr ch1 = poll_wr ch" "connect_pending ch1 = connect_pending ch"
          by (subst S(4), simp)+
        show ?thesis
        proof (cases okq)
          case False
          with run ne lim q A have "rc = -1" "ch' = xchannel_close E (Some ''out_of_memory'') ch1"
            by (simp_all add: queue_or_send_iov_def Let_def)
          with cl show ?thesis by simp
        next
          case True
          then have tr: "in_transit ch1 = in_transit ch @ a @ b" using S(2) w by (simp add: in_transit_def)
          have run': "(if xbuf_size (out_buf ch) = 0 then arm_writable E (connect_pending ch1) ch1 else (0, ch1)) = (rc, ch')"
            using run ne lim q A True by (simp add: queue_or_send_iov_def Let_def)
          show ?thesis
          proof (cases "xbuf_size (out_buf ch) = 0")
            case True
            with run' have "arm_writable E (connect_pending ch1) ch1 = (rc, ch')" by simp
            from arm_writable_spec [OF this st] show ?thesis
            proof (elim disjE conjE)
              assume A: "rc = 0" "wire ch' = wire ch1" "out_buf ch' = out_buf ch1" "same_tx ch1 ch'"
                "poll_wr ch' = Some (if connect_pending ch1 then OnConnected else OnWritable)"
              have "in_transit ch' = in_transit ch1" using A(2,3) by (simp add: in_transit_def)
              with A tr S(1) w(3) same_tx_trans [OF S(3) A(4)] show ?thesis by simp
            qed simp
          next
            case False
            with run' tr S(1,3) w show ?thesis by auto
          qed
        qed
      next
        case nq: False
        obtain r ch1 where T: "try_send_iov a b ch = (r, ch1)" by fastforce
        from try_send_iov_spec [OF T] obtain n where n: "n \<le> length (a @ b)"
          "wire ch1 = wire ch @ take n (a @ b)" "r = Some n \<or> r = None \<and> n = 0" "out_buf ch1 = out_buf ch"
          "same_tx ch ch1" "poll_wr ch1 = poll_wr ch" by blast
        have empty: "xbuf_bytes (out_buf ch) = []" using nq xbuf_size_bytes [OF ok] by simp
        show ?thesis
        proof (cases r)
          case None
          with run ne lim nq T have "rc = -1" "ch' = xchannel_close E (Some ''write_error'') ch1"
            by (simp_all add: queue_or_send_iov_def Let_def)
          with cl show ?thesis by simp
        next
          case (Some k)
          with n(3) have r: "r = Some n" by simp
          let ?ch2 = "ch1\<lparr>bytes_sent := bytes_sent ch1 + of_nat n\<rparr>"
          have s2: "same_tx ch ?ch2" using n(5) by (simp add: same_tx_def)
          show ?thesis
          proof (cases "n \<ge> length a + length b")
            case True
            with run ne lim nq T r have "rc = 0" "ch' = ?ch2" by (simp_all add: queue_or_send_iov_def Let_def)
            with n True s2 ok empty xbuf_size_bytes [OF ok] show ?thesis by (simp add: in_transit_def)
          next
            case part: False
            define rest where "rest = drop n (a @ b)"
            obtain ok3 ch3 where A3: "(if n < length a then out_append2 (drop n a) b ?ch2
                else out_append (drop (n - length a) b) ?ch2) = (ok3, ch3)" by fastforce
            have ok2: "xbuf_ok (out_buf ?ch2)" using ok n(4) by simp
            have S3: "xbuf_ok (out_buf ch3)" "ok3 \<longrightarrow> xbuf_bytes (out_buf ch3) = rest"
                "same_tx ?ch2 ch3" "wire ch3 = wire ch1" "connect_pending ch3 = connect_pending ch1"
              using A3 out_append2_spec [OF ok2, of "drop n a" b ok3 ch3]
                out_append_spec [OF ok2, of "drop (n - length a) b" ok3 ch3] empty n(4)
              by (auto simp: rest_def split: if_splits) (metis xChannel.select_convs(37,6) xChannel.surjective xChannel.update_convs(13,22))+
            show ?thesis
            proof (cases ok3)
              case False
              with run ne lim nq T r part A3 have "rc = -1" "ch' = xchannel_close E (Some ''out_of_memory'') ch3"
                by (simp_all add: queue_or_send_iov_def Let_def)
              with cl show ?thesis by simp
            next
              case True
              with run ne lim nq T r part A3 have arm: "arm_writable E False ch3 = (rc, ch')"
                by (simp add: queue_or_send_iov_def Let_def)
              have "in_transit ch3 = in_transit ch @ a @ b"
                using S3 True n(2) empty
                by (simp only: in_transit_def rest_def append_assoc append_take_drop_id append_Nil simp_thms)
              moreover have "connect_pending ch = False" using nq by simp
              ultimately show ?thesis
                using arm_writable_spec [OF arm st] S3(1) same_tx_trans [OF same_tx_trans [OF s2 S3(3)]]
                by (auto simp: in_transit_def)
            qed
          qed
        qed
      qed
    qed
  qed
qed

section \<open>Flushing\<close>

definition same_file :: "'u xChannel \<Rightarrow> 'u xChannel \<Rightarrow> bool" where
  "same_file ch ch' \<longleftrightarrow> file_pending ch' = file_pending ch \<and> file_remaining ch' = file_remaining ch
     \<and> file_offset ch' = file_offset ch \<and> file_data ch' = file_data ch"

lemma same_file_bytes:
  "same_file ch ch' \<Longrightarrow> file_bytes ch' = file_bytes ch \<and> has_pending_file ch' = has_pending_file ch"
  by (simp add: same_file_def file_bytes_def has_pending_file_def)

lemma flush_buffer_spec:
  assumes "stays_closed E" and "xbuf_ok (out_buf ch)" and "xbuf_size (out_buf ch) \<le> fuel"
    and "flush_buffer E fuel ch = (go, ch')"
  shows "\<not> go \<and> closed ch' \<or> in_transit ch' = in_transit ch \<and> xbuf_ok (out_buf ch') \<and> same_tx ch ch'
     \<and> same_file ch ch' \<and> poll_wr ch' = poll_wr ch \<and> (go \<longrightarrow> xbuf_size (out_buf ch') = 0)"
  using assms(2-)
proof (induction fuel arbitrary: ch)
  case 0
  then show ?case by (auto simp: same_file_def)
next
  case (Suc fuel)
  show ?case
  proof (cases "xbuf_size (out_buf ch) = 0")
    case True
    with Suc.prems show ?thesis by (auto simp: same_file_def)
  next
    case False
    let ?bs = "xbuf_bytes (out_buf ch)"
    obtain r ch1 where S: "os_send (take INT_MAX ?bs) ch = (r, ch1)" by fastforce
    from os_send_spec [OF S] obtain n where n: "n \<le> length (take INT_MAX ?bs)"
      "wire ch1 = wire ch @ take n (take INT_MAX ?bs)" "r = IoBytes n \<or> n = 0 \<and> (r = IoAgain \<or> r = IoError)"
      "out_buf ch1 = out_buf ch" "same_tx ch ch1" "poll_wr ch1 = poll_wr ch" "file_remaining ch1 = file_remaining ch"
      "file_offset ch1 = file_offset ch" "file_data ch1 = file_data ch" by blast
    have nk: "n \<le> length ?bs" "n \<le> INT_MAX" using n(1) unfolding length_take by simp_all
    then have n': "n \<le> length ?bs" "take n (take INT_MAX ?bs) = take n ?bs"
      by (simp_all only: take_take min_absorb1)
    have f1: "same_file ch ch1" using n by (simp add: same_file_def same_tx_def)
    show ?thesis
    proof (cases "r = IoBytes n \<and> 0 < n")
      case True
      let ?ch2 = "ch1\<lparr>out_buf := xbuf_consume n (out_buf ch1), bytes_sent := bytes_sent ch1 + of_nat n\<rparr>"
      note C = xbuf_consume_ok [OF Suc.prems(1), of n]
      have len: "xbuf_size (out_buf ?ch2) = xbuf_size (out_buf ch) - n"
        using C(1,2) n(4) xbuf_size_bytes [OF Suc.prems(1)] xbuf_size_bytes [OF C(1)] by simp
      have "flush_buffer E fuel ?ch2 = (go, ch')"
        using Suc.prems(3) False S True by simp
      moreover have "xbuf_ok (out_buf ?ch2)" using C(1) n(4) by simp
      moreover have "xbuf_size (out_buf ?ch2) \<le> fuel" using len True Suc.prems(2) by auto
      ultimately have I: "\<not> go \<and> closed ch' \<or> in_transit ch' = in_transit ?ch2 \<and> xbuf_ok (out_buf ch')
          \<and> same_tx ?ch2 ch' \<and> same_file ?ch2 ch' \<and> poll_wr ch' = poll_wr ?ch2
          \<and> (go \<longrightarrow> xbuf_size (out_buf ch') = 0)" by (intro Suc.IH)
      have "in_transit ?ch2 = in_transit ch" using n(2,4) n'(2) C(2) by (simp add: in_transit_def)
      moreover have "same_tx ch ?ch2" using n(4,5) C(3) by (simp add: same_tx_def)
      moreover have "same_file ch ?ch2" using f1 by (simp add: same_file_def)
      moreover have "poll_wr ?ch2 = poll_wr ch" using n(6) by simp
      moreover have "same_file ?ch2 ch' \<Longrightarrow> same_file ch ch'"
        using \<open>same_file ch ?ch2\<close> by (simp add: same_file_def)
      moreover have "same_tx ?ch2 ch' \<Longrightarrow> same_tx ch ch'"
        using \<open>same_tx ch ?ch2\<close> same_tx_trans by blast
      ultimately show ?thesis using I by (elim disjE conjE) simp_all
    next
      case F: False
      show ?thesis
      proof (cases "r = IoAgain")
        case True
        with n(3) have "n = 0" by auto
        then have "in_transit ch1 = in_transit ch" using n(2,4) by (simp add: in_transit_def)
        moreover have "go = False" "ch' = ch1" using Suc.prems(3) False S True by simp_all
        ultimately show ?thesis using n(4,5,6) f1 Suc.prems(1) by simp
      next
        case F2: False
        have "go = False \<and> ch' = xchannel_close E (Some ''write_error'') ch1"
          using Suc.prems(3) False S F F2 n(3) by (cases r) auto
        with close_closed [OF assms(1)] show ?thesis by simp
      qed
    qed
  qed
qed

definition same_rest :: "'u xChannel \<Rightarrow> 'u xChannel \<Rightarrow> bool" where
  "same_rest ch ch' \<longleftrightarrow> closed ch' = closed ch \<and> out_buf ch' = out_buf ch \<and> connect_pending ch' = connect_pending ch
     \<and> close_after_flush ch' = close_after_flush ch \<and> read_closed ch' = read_closed ch
     \<and> write_closed ch' = write_closed ch \<and> shutdown_write_after_flush ch' = shutdown_write_after_flush ch"

lemma close_pending_file_none [simp]: "\<not> has_pending_file (close_pending_file ch)"
  by (simp add: close_pending_file_def has_pending_file_def Let_def)

lemma close_pending_same: "same_rest ch (close_pending_file ch) \<and> wire (close_pending_file ch) = wire ch
    \<and> poll_wr (close_pending_file ch) = poll_wr ch"
  by (simp add: close_pending_file_def same_rest_def note_event_def Let_def)

lemma os_sendfile_spec:
  assumes "os_sendfile pos chunk ch = (r, ch')"
  shows "\<exists>n. n \<le> chunk \<and> wire ch' = wire ch @ take n (drop pos (file_data ch))
     \<and> (r = IoBytes n \<and> (n = 0 \<longrightarrow> chunk = 0 \<or> drop pos (file_data ch) = []) \<and> n \<le> length (drop pos (file_data ch))
        \<or> n = 0 \<and> (r = IoAgain \<or> r = IoError))
     \<and> same_rest ch ch' \<and> same_file ch ch' \<and> poll_wr ch' = poll_wr ch"
proof -
  let ?d = "drop pos (file_data ch)"
  show ?thesis
  proof (cases "\<exists>k rs. file_script ch = IoBytes k # rs")
    case True
    then obtain k rs where s: "file_script ch = IoBytes k # rs" by blast
    let ?n = "min (max k 1) (length (take chunk ?d))"
    have n: "?n \<le> chunk" "?n \<le> length ?d" "take ?n (take chunk ?d) = take ?n ?d"
      "?n = 0 \<longrightarrow> chunk = 0 \<or> ?d = []"
      by (auto simp: min_def max_def)
    have "r = IoBytes ?n" "ch' = ch\<lparr>file_script := rs, wire := wire ch @ take ?n (take chunk ?d)\<rparr>"
      using assms s by (simp_all add: os_sendfile_def Let_def)
    with n show ?thesis by (intro exI [of _ ?n]) (simp add: same_rest_def same_file_def)
  next
    case False
    with assms show ?thesis
      by (intro exI [of _ 0])
        (auto simp: os_sendfile_def Let_def same_rest_def same_file_def split: list.splits io_result.splits)
  qed
qed

lemma flush_file_spec:
  assumes "stays_closed E" and "file_remaining ch \<le> fuel" and "\<not> closed ch"
    and "flush_file E fuel ch = (go, ch')"
  shows "\<not> go \<and> closed ch' \<or> wire ch' @ file_bytes ch' = wire ch @ file_bytes ch \<and> same_rest ch ch'
     \<and> poll_wr ch' = poll_wr ch \<and> (go \<longrightarrow> \<not> has_pending_file ch')
     \<and> (\<not> has_pending_file ch \<longrightarrow> go \<and> ch' = ch)"
  using assms(2-)
proof (induction fuel arbitrary: ch)
  case 0
  then show ?case by (auto simp: same_rest_def has_pending_file_def)
next
  case (Suc fuel)
  show ?case
  proof (cases "has_pending_file ch")
    case False
    with Suc.prems show ?thesis by (auto simp: same_rest_def)
  next
    case True
    let ?chunk = "min (file_remaining ch) (1024 * 1024)"
    let ?d = "drop (file_offset ch) (file_data ch)"
    obtain r ch1 where S: "os_sendfile (file_offset ch) ?chunk ch = (r, ch1)" by fastforce
    from os_sendfile_spec [OF S] obtain n where n: "n \<le> ?chunk" "wire ch1 = wire ch @ take n ?d"
      "r = IoBytes n \<and> (n = 0 \<longrightarrow> ?chunk = 0 \<or> ?d = []) \<and> n \<le> length ?d \<or> n = 0 \<and> (r = IoAgain \<or> r = IoError)"
      "same_rest ch ch1" "same_file ch ch1" "poll_wr ch1 = poll_wr ch" by blast
    have rem: "file_pending ch" "0 < file_remaining ch" using True by (simp_all add: has_pending_file_def)
    have fb: "file_bytes ch = take (file_remaining ch) ?d" using True by (simp add: file_bytes_def)
    have nclosed: "\<not> closed ch1" using n(4) Suc.prems(2) by (simp add: same_rest_def)
    show ?thesis
    proof (cases "r = IoBytes n \<and> 0 < n")
      case T: True
      let ?ch2 = "ch1\<lparr>file_offset := file_offset ch1 + n, file_remaining := file_remaining ch1 - n\<rparr>"
      have go: "flush_file E fuel ?ch2 = (go, ch')" using Suc.prems True S T by simp
      have fl: "file_remaining ?ch2 \<le> fuel" using n(5) Suc.prems(1) T by (auto simp: same_file_def)
      have "\<not> closed ?ch2" using nclosed by simp
      note I = Suc.IH [OF fl this go]
      have fb2: "take n ?d @ file_bytes ?ch2 = file_bytes ch"
      proof (cases "n = file_remaining ch")
        case True
        then have "file_bytes ?ch2 = []" using n(5) by (simp add: file_bytes_def has_pending_file_def same_file_def)
        with True fb show ?thesis by simp
      next
        case False
        with n(1) have "n < file_remaining ch" by simp
        then have "file_bytes ?ch2 = take (file_remaining ch - n) (drop n ?d)"
          using n(5) rem by (simp add: file_bytes_def has_pending_file_def same_file_def add.commute)
        moreover have "take n ?d @ take (file_remaining ch - n) (drop n ?d) = take (file_remaining ch) ?d"
          using \<open>n < file_remaining ch\<close> by (metis le_add_diff_inverse less_imp_le take_add)
        ultimately show ?thesis using fb by simp
      qed
      have "same_rest ch ?ch2" using n(4) by (simp add: same_rest_def)
      with I n(2,6) fb2 True show ?thesis by (auto simp: same_rest_def)
    next
      case F: False
      show ?thesis
      proof (cases "r = IoBytes n")
        case T: True
        with F n rem have "n = 0" "?d = []" by auto
        moreover have "go" "ch' = close_pending_file ch1" using Suc.prems True S T F by simp_all
        ultimately show ?thesis
          using n(2,4,6) fb close_pending_same [of ch1] True
          by (simp add: file_bytes_def same_rest_def)
      next
        case N: False
        with n(3) have n0: "n = 0" "r = IoAgain \<or> r = IoError" by auto
        from n0(2) show ?thesis
        proof
          assume "r = IoAgain"
          then have "\<not> go" "ch' = ch1" using Suc.prems True S by simp_all
          with n n0 same_file_bytes [OF n(5)] True show ?thesis by simp
        next
          assume "r = IoError"
          then have "\<not> go" "ch' = xchannel_close E (Some ''sendfile_error'') ch1"
            using Suc.prems True S by simp_all
          with close_closed [OF assms(1)] show ?thesis by simp
        qed
      qed
    qed
  qed
qed

lemma finish_deferred_stream:
  "stays_closed E \<Longrightarrow> closed (finish_deferred_close E ch)
     \<or> wire (finish_deferred_close E ch) = wire ch \<and> out_buf (finish_deferred_close E ch) = out_buf ch
       \<and> file_bytes (finish_deferred_close E ch) = file_bytes ch"
  using close_internal_closed [of E]
  by (auto simp: finish_deferred_close_def Let_def shutdown_write_now_def note_event_def poll_del_write_def
      file_bytes_def has_pending_file_def)

lemma finish_deferred_idle:
  "\<not> close_after_flush ch \<Longrightarrow> \<not> shutdown_write_after_flush ch \<Longrightarrow> \<not> write_closed ch \<Longrightarrow>
     finish_deferred_close E ch = ch"
  by (simp add: finish_deferred_close_def Let_def)

text \<open>Flushing moves bytes from the buffer and then from the file to the wire, in order; it ends
  with nothing left, with the kernel refusing more, or with the channel closed.\<close>

lemma flush_output_spec:
  assumes st: "stays_closed E" and ok: "xbuf_ok (out_buf ch)" and nc: "\<not> closed ch"
    and run: "ch' = flush_output E ch"
  shows "closed ch' \<or> wire ch' @ xbuf_bytes (out_buf ch') @ file_bytes ch'
        = wire ch @ xbuf_bytes (out_buf ch) @ file_bytes ch \<and> xbuf_ok (out_buf ch')"
proof (cases "connect_pending ch")
  case True
  with run ok show ?thesis by (simp add: flush_output_def)
next
  case cp: False
  obtain go1 ch1 where B: "flush_buffer E (xbuf_size (out_buf ch)) ch = (go1, ch1)" by fastforce
  note SB = flush_buffer_spec [OF st ok le_refl B]
  show ?thesis
  proof (cases go1)
    case False
    with B cp nc run have "ch' = ch1" by (simp add: flush_output_def)
    with SB same_file_bytes [of ch ch1] show ?thesis by (auto simp: in_transit_def)
  next
    case True
    with SB have b: "in_transit ch1 = in_transit ch" "xbuf_ok (out_buf ch1)" "same_tx ch ch1"
      "same_file ch ch1" "xbuf_size (out_buf ch1) = 0" by auto
    have empty: "xbuf_bytes (out_buf ch1) = []" using b(2,5) xbuf_size_bytes by fastforce
    have nc1: "\<not> closed ch1" using b(3) nc by (simp add: same_tx_def)
    obtain go2 ch2 where F: "flush_file E (file_remaining ch1) ch1 = (go2, ch2)" by fastforce
    note SF = flush_file_spec [OF st le_refl nc1 F]
    have w: "wire ch1 @ file_bytes ch1 = wire ch @ xbuf_bytes (out_buf ch) @ file_bytes ch"
      using b(1) empty same_file_bytes [OF b(4)] by (simp add: in_transit_def)
    show ?thesis
    proof (cases go2)
      case False
      with B F cp nc run True have "ch' = ch2" by (simp add: flush_output_def)
      with SF w b(2) empty show ?thesis by (auto simp: same_rest_def)
    next
      case T2: True
      with SF have f: "wire ch2 @ file_bytes ch2 = wire ch1 @ file_bytes ch1" "same_rest ch1 ch2"
        "\<not> has_pending_file ch2" by auto
      let ?ch3 = "poll_del_write (close_pending_file ch2)"
      have "\<not> closed ch2" using f(2) nc1 by (simp add: same_rest_def)
      then have ch': "ch' = finish_deferred_close E ?ch3"
        using B F cp nc run True T2 f(3) by (simp add: flush_output_def Let_def)
      have "wire ?ch3 = wire ch2" "out_buf ?ch3 = out_buf ch1" "file_bytes ?ch3 = []"
        using close_pending_same [of ch2] f(2)
        by (simp_all add: poll_del_write_def same_rest_def file_bytes_def has_pending_file_def)
          (simp add: close_pending_file_def Let_def)
      moreover have "file_bytes ch2 = []" using f(3) by (simp add: file_bytes_def)
      ultimately show ?thesis
        using finish_deferred_stream [OF st, of ?ch3] f(1) w b(2) empty unfolding ch' by auto
    qed
  qed
qed

section \<open>Runs of a sender\<close>

datatype tx_op = TxPacket bytes | TxWritable

text \<open>Packets are sent and writable events handled in any order; \<open>acc\<close> collects the packets
  \<open>xchannel_send_packet\<close> accepted (result 0).\<close>

fun run_tx :: "'u callbacks \<Rightarrow> tx_op list \<Rightarrow> bytes list \<Rightarrow> 'u xChannel \<Rightarrow> bytes list \<times> 'u xChannel" where
  "run_tx E [] acc ch = (acc, ch)"
| "run_tx E (TxPacket p # ops) acc ch =
     (case xchannel_send_packet E p ch of
        (rc, ch) \<Rightarrow> run_tx E ops (if rc = 0 then acc @ [p] else acc) ch)"
| "run_tx E (TxWritable # ops) acc ch = run_tx E ops acc (writable_event E False ch)"

definition tx_ready :: "'u xChannel \<Rightarrow> bool" where
  "tx_ready ch \<longleftrightarrow> \<not> closed ch \<and> xbuf_ok (out_buf ch) \<and> connected ch \<and> \<not> connect_pending ch
     \<and> \<not> send_transform ch \<and> \<not> file_pending ch \<and> \<not> write_closed ch \<and> \<not> close_after_flush ch
     \<and> \<not> shutdown_write_after_flush ch \<and> 1 \<le> refcount ch \<and> poll_wr ch \<noteq> Some OnConnected
     \<and> (xbuf_size (out_buf ch) > 0 \<longrightarrow> poll_wr ch = Some OnWritable)"

lemma send_framed_encode:
  assumes "frame ch = f" and "f = XCHANNEL_FRAME_LEN32 \<or> f = XCHANNEL_FRAME_LEN16 \<or> f = XCHANNEL_FRAME_CRLF"
  shows "send_framed E p ch = (-1, ch)
    \<or> (\<exists>a b. a @ b = frame_encode f p \<and> send_framed E p ch = queue_or_send_iov E a b ch)"
  using assms(2)
proof (elim disjE)
  assume "f = XCHANNEL_FRAME_LEN32"
  with assms(1) show ?thesis
    by (cases "length p > UINT32_MAX")
      (simp_all add: send_framed_def frame_encode_def exI [of _ "write_u32be (of_nat (length p))"])
next
  assume "f = XCHANNEL_FRAME_LEN16"
  with assms(1) show ?thesis
    by (cases "length p > UINT16_MAX")
      (simp_all add: send_framed_def frame_encode_def exI [of _ "write_u16be (of_nat (length p))"])
next
  assume "f = XCHANNEL_FRAME_CRLF"
  with assms(1) have "p @ [13, 10] = frame_encode f p \<and> send_framed E p ch = queue_or_send_iov E p [13, 10] ch"
    by (simp add: send_framed_def frame_encode_def)
  then show ?thesis by blast
qed

lemma send_packet_run:
  assumes st: "stays_closed E" and tx: "tx_ready ch"
    and f: "frame ch = XCHANNEL_FRAME_LEN32 \<or> frame ch = XCHANNEL_FRAME_LEN16 \<or> frame ch = XCHANNEL_FRAME_CRLF"
    and run: "xchannel_send_packet E p ch = (rc, ch')"
  shows "closed ch' \<and> rc = -1 \<or> tx_ready ch' \<and> frame ch' = frame ch
    \<and> in_transit ch' = in_transit ch @ (if rc = 0 then frame_encode (frame ch) p else [])"
proof -
  have s: "send_framed E p ch = (rc, ch')"
    using run tx by (simp add: xchannel_send_packet_def tx_ready_def has_pending_file_def)
  from send_framed_encode [OF refl f, of E p] show ?thesis
  proof
    assume "send_framed E p ch = (-1, ch)"
    with s tx show ?thesis by simp
  next
    assume "\<exists>a b. a @ b = frame_encode (frame ch) p \<and> send_framed E p ch = queue_or_send_iov E a b ch"
    then obtain a b where ab: "a @ b = frame_encode (frame ch) p" "queue_or_send_iov E a b ch = (rc, ch')"
      using s by auto
    have ok: "xbuf_ok (out_buf ch)" using tx by (simp add: tx_ready_def)
    from queue_or_send_spec [OF ok st ab(2)] show ?thesis
    proof (elim disjE conjE)
      assume "ch' = ch" "rc = -1" then show ?thesis using tx by simp
    next
      assume "ch' = ch" "rc = -2" then show ?thesis using tx by simp
    next
      assume "closed ch'" "rc = -1" then show ?thesis by simp
    qed (use tx ab(1) in \<open>auto simp: tx_ready_def same_tx_def\<close>)
  qed
qed

lemma write_event_run:
  assumes st: "stays_closed E" and tx: "tx_ready ch"
  shows "closed (writable_event E False ch) \<or> tx_ready (writable_event E False ch)
    \<and> frame (writable_event E False ch) = frame ch
    \<and> in_transit (writable_event E False ch) = in_transit ch"
proof (cases "poll_wr ch = Some OnWritable")
  case False
  with tx have "poll_wr ch = None" by (auto simp: tx_ready_def) (metis option.exhaust wr_handler.exhaust)
  with tx show ?thesis by (simp add: writable_event_def)
next
  case True
  let ?r = "xchannel_retain ch"
  have r: "closed ?r = closed ch" "connect_pending ?r = connect_pending ch" "out_buf ?r = out_buf ch"
    "wire ?r = wire ch" "file_pending ?r = file_pending ch" "file_remaining ?r = file_remaining ch"
    by (simp_all add: xchannel_retain_def)
  have ok: "xbuf_ok (out_buf ?r)" and nc: "\<not> closed ch" "\<not> connect_pending ch"
    using tx r by (simp_all add: tx_ready_def)
  have we: "writable_event E False ch = xchannel_release (flush_output E ?r)"
    using True nc by (simp add: writable_event_def xchannel_write_event_def)
  obtain go1 ch1 where B: "flush_buffer E (xbuf_size (out_buf ?r)) ?r = (go1, ch1)" by fastforce
  note SB = flush_buffer_spec [OF st ok le_refl B]
  show ?thesis
  proof (cases "closed ch1")
    case c: True
    have "\<not> go1"
      using SB c nc r(1) by (auto simp: same_tx_def)
    then have "flush_output E ?r = ch1" using B nc r by (simp add: flush_output_def)
    with c we show ?thesis by simp
  next
    case nc1: False
    with SB have b: "in_transit ch1 = in_transit ?r" "xbuf_ok (out_buf ch1)" "same_tx ?r ch1"
      "same_file ?r ch1" "poll_wr ch1 = poll_wr ?r" "go1 \<longrightarrow> xbuf_size (out_buf ch1) = 0" by auto
    have flags: "\<not> close_after_flush ch1" "\<not> shutdown_write_after_flush ch1" "\<not> write_closed ch1"
      "\<not> file_pending ch1" "connected ch1" "\<not> connect_pending ch1" "\<not> send_transform ch1"
      using b(3) tx by (simp_all add: same_tx_def tx_ready_def xchannel_retain_def)
    have pw: "poll_wr ch1 = Some OnWritable" using b(5) True by (simp add: xchannel_retain_def)
    have "frame ch1 = frame ch" "in_transit ch1 = in_transit ch" "refcount ch1 = refcount ch + 1"
      using b(1,3) by (simp_all add: same_tx_def xchannel_retain_def in_transit_def)
    let ?ch2 = "if go1 then poll_del_write (close_pending_file ch1) else ch1"
    have fo: "flush_output E ?r = ?ch2"
    proof (cases go1)
      case True
      have "flush_file E n ch1 = (True, ch1)" for n
        using flags(4) by (cases n) (simp_all add: has_pending_file_def)
      moreover have "finish_deferred_close E (poll_del_write (close_pending_file ch1))
          = poll_del_write (close_pending_file ch1)"
        using close_pending_same [of ch1] flags
        by (intro finish_deferred_idle) (simp_all add: same_rest_def poll_del_write_def)
      ultimately show ?thesis
        using B nc r True nc1 flags(4) by (simp add: flush_output_def has_pending_file_def Let_def)
    next
      case False
      then show ?thesis using B nc r by (simp add: flush_output_def)
    qed
    have eq: "?ch2 = (if go1 then ch1\<lparr>file_fd := -1, file_remaining := 0, poll_wr := None\<rparr> else ch1)"
      using flags(4) by (simp add: close_pending_file_def poll_del_write_def)
    have rc: "1 \<le> refcount ch1 - 1" using \<open>refcount ch1 = refcount ch + 1\<close> tx by (simp add: tx_ready_def)
    then have "xchannel_release ?ch2 = ?ch2\<lparr>refcount := refcount ch1 - 1\<rparr>"
      unfolding eq by (simp add: xchannel_release_def Let_def)
    then show ?thesis
      unfolding we fo
      using b flags pw nc1 rc \<open>frame ch1 = frame ch\<close> \<open>in_transit ch1 = in_transit ch\<close>
      unfolding eq by (auto simp: tx_ready_def in_transit_def)
  qed
qed

end
