(* ===== verification/XChanProps.thy ===== *)
theory XChanProps
  imports XChanRecv XChanSend
begin

text \<open>
  The properties of the channel, stated from \<open>xchannel_create\<close> and \<open>xchannel_attach\<close> on: order
  and integrity of the stream in both directions, refusal of oversized packets, back-pressure,
  and finality of closing.
\<close>

section \<open>An open channel\<close>

text \<open>A kernel that answers with the given scripts, and the channel created and attached on it.\<close>

definition kernel :: "'u \<Rightarrow> io_result list \<Rightarrow> recv_result list \<Rightarrow> 'u xChannel" where
  "kernel ud sends recvs =
     \<lparr>fd = -1, refcount = 0, closed = False, attached = False, connected = False, connect_pending = False,
      read_closed = False, write_closed = False, read_paused = False, frame = XCHANNEL_FRAME_RAW,
      max_packet = 0, in_buf = xbuf_zero, out_buf = xbuf_zero, file_fd = -1, file_offset = 0,
      file_pending = False, file_remaining = 0, close_after_flush = False,
      shutdown_write_after_flush = False, close_reason = [], shutdown_reason = [], bytes_sent = 0,
      bytes_recv = 0, has_connect_cb = False, has_packet_cb = False, has_close_cb = False,
      has_eof_cb = False, userdata = ud, recv_transform = False, send_transform = False,
      transform_ud = False, transform_dtor = False, send_script = sends, file_script = [],
      recv_script = recvs, poll_script = [], wire = [], file_data = [], poll_rd = False,
      poll_wr = None, mem_ok = (\<lambda>_. True), evlog = [], g_live_channels = 0\<rparr>"

definition open_channel ::
  "int \<Rightarrow> chan_config \<Rightarrow> 'u \<Rightarrow> io_result list \<Rightarrow> recv_result list \<Rightarrow> 'u xChannel" where
  "open_channel sock c ud sends recvs =
     (case xchannel_create True sock (Some c) ud (kernel ud sends recvs) of
        None \<Rightarrow> kernel ud sends recvs
      | Some ch \<Rightarrow> snd (xchannel_attach ch))"

definition framed_config :: "chan_config \<Rightarrow> bool" where
  "framed_config c \<longleftrightarrow> (cfg_frame c = XCHANNEL_FRAME_LEN32 \<or> cfg_frame c = XCHANNEL_FRAME_LEN16
     \<or> cfg_frame c = XCHANNEL_FRAME_CRLF) \<and> 0 < cfg_max_packet c \<and> cfg_packet_cb c"

lemmas open_defs = open_channel_def xchannel_create_def kernel_def xchannel_attach_def
  poll_add_read_def poll_result_def INVALID_SOCKET_VAL_def valid_frame_def

lemma open_channel_fields:
  assumes "framed_config c" and "0 \<le> sock"
  shows "tx_ready (open_channel sock c ud sends recvs)" and "rx_ready (open_channel sock c ud sends recvs)"
    and "frame (open_channel sock c ud sends recvs) = cfg_frame c"
    and "max_packet (open_channel sock c ud sends recvs) = cfg_max_packet c"
    and "in_transit (open_channel sock c ud sends recvs) = []"
    and "delivered (open_channel sock c ud sends recvs) = []"
    and "mem_ok (open_channel sock c ud sends recvs) = (\<lambda>_. True)"
    and "recv_script (open_channel sock c ud sends recvs) = recvs"
    and "xbuf_bytes (in_buf (open_channel sock c ud sends recvs)) = []"
    and "buf_max (in_buf (open_channel sock c ud sends recvs)) = XCHANNEL_DEFAULT_BUFFER_MAX"
  using assms
  by (auto simp: open_defs framed_config_def tx_ready_def rx_ready_def in_transit_def delivered_def
      xbuf_zero_def xbuf_ok_def xbuf_bytes_def xbuf_size_def)

section \<open>Sending\<close>

lemma run_tx_closed:
  assumes "run_tx E ops acc ch = (acc', ch')" and "closed ch"
  shows "closed ch'"
  using assms
proof (induction ops arbitrary: acc ch)
  case (Cons op ops)
  then show ?case
    by (cases op) (auto simp: xchannel_send_packet_def writable_event_def xchannel_write_event_def
        xchannel_connect_event_def split: option.splits wr_handler.splits)
qed simp

lemma run_tx_fifo:
  assumes "stays_closed E" and "tx_ready ch"
    and "frame ch = XCHANNEL_FRAME_LEN32 \<or> frame ch = XCHANNEL_FRAME_LEN16 \<or> frame ch = XCHANNEL_FRAME_CRLF"
    and "run_tx E ops acc ch = (acc', ch')"
    and "in_transit ch = concat (map (frame_encode (frame ch)) acc)"
  shows "closed ch' \<or> tx_ready ch' \<and> frame ch' = frame ch
    \<and> in_transit ch' = concat (map (frame_encode (frame ch)) acc')"
  using assms(2-)
proof (induction ops arbitrary: acc ch)
  case Nil
  then show ?case by simp
next
  case (Cons op ops)
  show ?case
  proof (cases op)
    case (TxPacket p)
    obtain rc ch1 where S: "xchannel_send_packet E p ch = (rc, ch1)" by fastforce
    have run: "run_tx E ops (if rc = 0 then acc @ [p] else acc) ch1 = (acc', ch')"
      using Cons.prems(3) TxPacket S by simp
    from send_packet_run [OF assms(1) Cons.prems(1,2) S] show ?thesis
    proof
      assume "closed ch1 \<and> rc = -1"
      with run_tx_closed [OF run] show ?thesis by simp
    next
      assume A: "tx_ready ch1 \<and> frame ch1 = frame ch
        \<and> in_transit ch1 = in_transit ch @ (if rc = 0 then frame_encode (frame ch) p else [])"
      then show ?thesis
        using Cons.IH [OF _ _ run] Cons.prems(2,4) by simp
    qed
  next
    case TxWritable
    have run: "run_tx E ops acc (writable_event E False ch) = (acc', ch')"
      using Cons.prems(3) TxWritable by simp
    from write_event_run [OF assms(1) Cons.prems(1)] show ?thesis
    proof
      assume "closed (writable_event E False ch)"
      with run_tx_closed [OF run] show ?thesis by simp
    next
      assume "tx_ready (writable_event E False ch) \<and> frame (writable_event E False ch) = frame ch
        \<and> in_transit (writable_event E False ch) = in_transit ch"
      then show ?thesis using Cons.IH [OF _ _ run] Cons.prems(2,4) by simp
    qed
  qed
qed


section \<open>Properties\<close>

text \<open>The callbacks of a plain user: they count nothing, answer nothing.\<close>

definition idle_callbacks :: "unit callbacks" where
  "idle_callbacks = \<lparr>connect_cb = (\<lambda>ch. ch), packet_cb = (\<lambda>p ch. (length p, ch)), close_cb = (\<lambda>r ch. ch),
     eof_cb = (\<lambda>r ch. ch), recv_tf = (\<lambda>p ch. (Some p, ch)), send_tf = (\<lambda>p ch. (Some p, ch))\<rparr>"

lemma idle_callbacks_ok [simp]: "stays_closed idle_callbacks" "pure_reader idle_callbacks"
  by (simp_all add: stays_closed_def idle_callbacks_def pure_reader_def)

definition line_config :: "nat \<Rightarrow> chan_config" where
  "line_config mx = \<lparr>cfg_frame = XCHANNEL_FRAME_CRLF, cfg_max_packet = mx, cfg_connect_cb = False,
     cfg_packet_cb = True, cfg_close_cb = False, cfg_eof_cb = False\<rparr>"

lemma line_config_framed [simp]: "0 < mx \<Longrightarrow> framed_config (line_config mx)"
  by (simp add: line_config_def framed_config_def)

text \<open>C8. Sending keeps the stream: whatever packets are sent and however little the kernel takes
  each time, as long as the channel stays open the bytes on the wire followed by those queued are
  exactly the frames of the accepted packets in order, and while bytes are queued the writable
  event is registered.\<close>
theorem sender_stream:
  assumes "stays_closed E" and "framed_config c" and "0 \<le> sock"
  shows "let (accepted, ch) = run_tx E ops [] (open_channel sock c ud sends recvs) in
    closed ch \<or> wire ch @ xbuf_bytes (out_buf ch) = concat (map (frame_encode (cfg_frame c)) accepted)
      \<and> (xbuf_size (out_buf ch) > 0 \<longrightarrow> poll_wr ch = Some OnWritable)"
proof -
  note o = open_channel_fields [OF assms(2,3), of ud sends recvs]
  obtain accepted ch where R: "run_tx E ops [] (open_channel sock c ud sends recvs) = (accepted, ch)"
    by fastforce
  from run_tx_fifo [OF assms(1) o(1) _ R] assms(2) o(3,5) show ?thesis
    unfolding R by (auto simp: framed_config_def in_transit_def tx_ready_def)
qed

lemma sender_stream_witness:
  "let (accepted, ch) = run_tx idle_callbacks [TxPacket [1, 2], TxPacket [3], TxWritable] []
      (open_channel 7 (line_config 80) () [IoBytes 3, IoBytes 100] []) in
    closed ch \<or> wire ch @ xbuf_bytes (out_buf ch) = concat (map (frame_encode (cfg_frame (line_config 80))) accepted)
      \<and> (xbuf_size (out_buf ch) > 0 \<longrightarrow> poll_wr ch = Some OnWritable)"
  by (rule sender_stream) simp_all

text \<open>C9. Receiving is independent of the cuts: if the network delivers the frames of packets that
  fit, cut into arbitrary non-empty chunks, then after enough read events the packet callback has
  been called with exactly these packets in order. The whole stream has at most 10 MiB + 4 bytes, the
  default limit of the input buffer; the callback leaves the channel alone.\<close>
theorem receiver_any_chunking:
  assumes "pure_reader E" and "framed_config c" and "0 \<le> sock"
    and "list_all (frame_fits (cfg_frame c) (cfg_max_packet c)) ps"
    and "concat cs = concat (map (frame_encode (cfg_frame c)) ps)" and "nonempty_chunks cs"
    and "length (concat cs) \<le> XCHANNEL_DEFAULT_BUFFER_MAX"
    and "length (concat cs) < fuel" and "length (concat cs) < n"
  shows "\<exists>ch. read_events E fuel n (open_channel sock c ud sends (map RecvBytes cs)) = Some ch
    \<and> delivered ch = ps \<and> \<not> closed ch"
proof -
  let ?ch = "open_channel sock c ud sends (map RecvBytes cs)"
  note o = open_channel_fields [OF assms(2,3), of ud sends "map RecvBytes cs"]
  have "awaiting fuel ps cs ?ch"
    using o assms(4-8)
    by (simp add: awaiting_def room_for_def XCHANNEL_DEFAULT_BUFFER_MAX_def)
  from read_events_awaiting [OF assms(1) this, of n] assms(9) o(6) obtain ch' m cs' where
    "read_events E fuel n ?ch = Some ch'" "awaiting fuel (drop m ps) cs' ch'"
    "delivered ch' = take m ps" "m = length ps" by auto
  then show ?thesis by (auto simp: awaiting_def rx_ready_def)
qed

lemma receiver_any_chunking_witness:
  "\<exists>ch. read_events idle_callbacks 10 10 (open_channel 7 (line_config 80) () [] (map RecvBytes [[97, 98, 13], [10, 99], [13, 10]])) = Some ch
    \<and> delivered ch = [[97, 98], [99]] \<and> \<not> closed ch"
  by (rule receiver_any_chunking)
    (simp_all add: line_config_def framed_config_def frame_fits_def frame_encode_def nonempty_chunks_def
      XCHANNEL_DEFAULT_BUFFER_MAX_def)

text \<open>C10. End to end: what a sender has accepted and fully flushed, cut into arbitrary chunks, is
  what the receiver's packet callback gets. The whole stream has at most 10 MiB + 4 bytes.\<close>
theorem channel_end_to_end:
  assumes "stays_closed E" and "pure_reader E'" and "framed_config c" and "0 \<le> sock" and "0 \<le> sock'"
    and "run_tx E ops [] (open_channel sock c ud sends recvs) = (accepted, tx)"
    and "\<not> closed tx" and "xbuf_size (out_buf tx) = 0"
    and "list_all (frame_fits (cfg_frame c) (cfg_max_packet c)) accepted"
    and "concat cs = wire tx" and "nonempty_chunks cs"
    and "length (wire tx) \<le> XCHANNEL_DEFAULT_BUFFER_MAX" and "length (wire tx) < n"
  shows "\<exists>rx. read_events E' n n (open_channel sock' c ud' sends' (map RecvBytes cs)) = Some rx
    \<and> delivered rx = accepted"
proof -
  note o = open_channel_fields [OF assms(3,4), of ud sends recvs]
  from run_tx_fifo [OF assms(1) o(1) _ assms(6)] assms(3,7) o(3,5)
  have T: "tx_ready tx" "in_transit tx = concat (map (frame_encode (cfg_frame c)) accepted)"
    by (auto simp: framed_config_def)
  have "xbuf_bytes (out_buf tx) = []" using T(1) assms(8) xbuf_size_bytes by (fastforce simp: tx_ready_def)
  with T(2) assms(10) have cs: "concat cs = concat (map (frame_encode (cfg_frame c)) accepted)"
    by (simp add: in_transit_def)
  let ?rx = "open_channel sock' c ud' sends' (map RecvBytes cs)"
  note r = open_channel_fields [OF assms(3,5), of ud' sends' "map RecvBytes cs"]
  have "awaiting n accepted cs ?rx"
    using r assms(9-13) cs by (simp add: awaiting_def room_for_def XCHANNEL_DEFAULT_BUFFER_MAX_def)
  from read_events_awaiting [OF assms(2) this, of n] assms(10,13) r(6) show ?thesis by auto
qed

lemma channel_end_to_end_witness:
  "\<exists>rx. read_events idle_callbacks 20 20 (open_channel 8 (line_config 80) () [] (map RecvBytes [[97, 98, 13], [10, 99], [13, 10]])) = Some rx
    \<and> delivered rx = [[97, 98], [99]]"
proof (rule channel_end_to_end)
  show "run_tx idle_callbacks [TxPacket [97, 98], TxPacket [99]] []
      (open_channel 7 (line_config 80) () [IoBytes 100, IoBytes 100] [])
    = ([[97, 98], [99]], snd (run_tx idle_callbacks [TxPacket [97, 98], TxPacket [99]] []
      (open_channel 7 (line_config 80) () [IoBytes 100, IoBytes 100] [])))"
    by (simp add: open_defs line_config_def xchannel_send_packet_def has_pending_file_def send_framed_def
        queue_or_send_iov_def check_send_limit_def Let_def xbuf_zero_def xbuf_size_def try_send_iov_def
        os_send_def XCHANNEL_DEFAULT_BUFFER_MAX_def)
qed (simp_all add: open_defs line_config_def xchannel_send_packet_def has_pending_file_def send_framed_def
        queue_or_send_iov_def check_send_limit_def Let_def xbuf_zero_def xbuf_size_def try_send_iov_def
        os_send_def XCHANNEL_DEFAULT_BUFFER_MAX_def framed_config_def frame_fits_def nonempty_chunks_def)


text \<open>Flushing keeps the order of the whole output: bytes already on the wire, queued bytes, bytes
  of the pending file. For every way the kernel takes them (short writes, EAGAIN, errors), their
  concatenation is the same before and after, unless the channel was closed.\<close>
lemma flush_keeps_stream:
  assumes "stays_closed E" and "xbuf_ok (out_buf ch)" and "\<not> closed ch"
  shows "closed (flush_output E ch)
    \<or> wire (flush_output E ch) @ xbuf_bytes (out_buf (flush_output E ch)) @ file_bytes (flush_output E ch)
        = wire ch @ xbuf_bytes (out_buf ch) @ file_bytes ch"
  using flush_output_spec [OF assms refl] by blast

text \<open>A channel with two queued bytes and three bytes of a file to go.\<close>

definition busy_channel :: "unit xChannel" where
  "busy_channel = (open_channel 7 (line_config 80) () [IoBytes 1, IoBytes 9] [])
     \<lparr>out_buf := \<lparr>buf_data = [1, 2, 0], buf_off = 0, buf_len = 2, buf_cap = 3, buf_max = 0\<rparr>,
      file_pending := True, file_remaining := 3, file_offset := 1, file_data := [9, 3, 4, 5, 9],
      file_script := [IoBytes 2]\<rparr>"

lemmas busy_defs = busy_channel_def open_defs line_config_def

lemma flush_keeps_stream_witness:
  "let ch = flush_output idle_callbacks busy_channel in
    closed ch \<or> wire ch @ xbuf_bytes (out_buf ch) @ file_bytes ch
        = wire busy_channel @ xbuf_bytes (out_buf busy_channel) @ file_bytes busy_channel"
  unfolding Let_def by (rule flush_keeps_stream) (simp_all add: busy_defs xbuf_ok_def)

lemma busy_channel_run:
  "wire (flush_output idle_callbacks busy_channel) = [1, 2, 3, 4]"
  by (simp add: busy_defs flush_output_def xbuf_size_def xbuf_bytes_def numeral_2_eq_2 numeral_3_eq_3
      os_send_def xbuf_consume_def Let_def has_pending_file_def os_sendfile_def)

text \<open>A length header that announces more than \<open>max_packet\<close> bytes closes the channel as soon as
  its four bytes are there, whatever follows; the packets counted so far are reported and the
  oversized one is not delivered.\<close>
lemma oversize_refused:
  assumes "pure_reader E" and "stays_closed E" and "rx_ready ch" and "frame ch = XCHANNEL_FRAME_LEN32"
    and "xbuf_bytes (in_buf ch) = write_u32be (of_nat len) @ rest"
    and "max_packet ch < len" and "len \<le> UINT32_MAX"
  shows "process_input E (Suc fuel) rc ch = Some (rc, xchannel_close E (Some ''packet_too_large'') ch)
    \<and> closed (xchannel_close E (Some ''packet_too_large'') ch)"
proof -
  have "parse_step (frame ch) (max_packet ch) (xbuf_bytes (in_buf ch)) = TooLarge"
    using assms(4-7) by (simp add: parse_step_def read_write_u32 unat_of_nat_u32 Let_def)
  with process_step_parse [OF assms(1,3)]
  have "process_step E ch = (False, xchannel_close E (Some ''packet_too_large'') ch)" by simp
  moreover have "xbuf_size (in_buf ch) > 0" "\<not> closed ch"
    using assms(3,5) by (simp_all add: rx_ready_def xbuf_size_bytes)
  ultimately show ?thesis using close_closed [OF assms(2)] by simp
qed

definition len32_channel :: "bytes \<Rightarrow> unit xChannel" where
  "len32_channel bs = (open_channel 7 ((line_config 3)\<lparr>cfg_frame := XCHANNEL_FRAME_LEN32\<rparr>) () [] [])
     \<lparr>in_buf := \<lparr>buf_data = bs, buf_off = 0, buf_len = length bs, buf_cap = length bs, buf_max = 0\<rparr>\<rparr>"

lemma oversize_refused_witness:
  "process_input idle_callbacks 1 0 (len32_channel [0, 0, 0, 4, 7])
     = Some (0, xchannel_close idle_callbacks (Some ''packet_too_large'') (len32_channel [0, 0, 0, 4, 7]))
   \<and> closed (xchannel_close idle_callbacks (Some ''packet_too_large'') (len32_channel [0, 0, 0, 4, 7]))"
  unfolding One_nat_def
  by (rule oversize_refused [where len = 4 and rest = "[7]"])
    (simp_all add: len32_channel_def open_defs line_config_def rx_ready_def xbuf_ok_def xbuf_bytes_def
      write_u32be_def)

text \<open>Back-pressure: a send answers -2 exactly when the channel accepts sends, there is something to
  send, no file is pending and the output limit is reached; nothing is taken then.\<close>
lemma send_backpressure:
  assumes "xbuf_ok (out_buf ch)" and "stays_closed E"
    and "queue_or_send_iov E a b ch = (rc, ch')"
  shows "(rc = -2 \<longleftrightarrow> a @ b \<noteq> [] \<and> \<not> closed ch \<and> fd ch \<noteq> INVALID_SOCKET_VAL \<and> \<not> close_after_flush ch
      \<and> \<not> write_closed ch \<and> \<not> shutdown_write_after_flush ch \<and> \<not> has_pending_file ch
      \<and> buf_max (out_buf ch) > 0 \<and> length (xbuf_bytes (out_buf ch)) \<ge> buf_max (out_buf ch))
    \<and> (rc = -2 \<longrightarrow> ch' = ch)"
proof -
  let ?full = "a @ b \<noteq> [] \<and> \<not> closed ch \<and> fd ch \<noteq> INVALID_SOCKET_VAL \<and> \<not> close_after_flush ch
      \<and> \<not> write_closed ch \<and> \<not> shutdown_write_after_flush ch \<and> \<not> has_pending_file ch
      \<and> buf_max (out_buf ch) > 0 \<and> length (xbuf_bytes (out_buf ch)) \<ge> buf_max (out_buf ch)"
  have lim: "check_send_limit (length a) (length b) ch = -2 \<longleftrightarrow> ?full"
    using xbuf_size_bytes [OF assms(1)] by (auto simp: check_send_limit_def)
  have A: "?full \<Longrightarrow> rc = -2 \<and> ch' = ch"
    using lim assms(3) by (auto simp: queue_or_send_iov_def)
  have B: "rc = -2 \<Longrightarrow> ?full"
  proof -
    assume rc: "rc = -2"
    show ?full
    proof (cases "a @ b = [] \<or> check_send_limit (length a) (length b) ch \<noteq> 0")
      case True
      with rc assms(3) have "check_send_limit (length a) (length b) ch = -2"
        by (auto simp: queue_or_send_iov_def Let_def split: if_splits)
      with lim show ?thesis by simp
    next
      case False
      from queue_or_send_spec [OF assms] rc have
        "buf_max (out_buf ch) > 0" "xbuf_size (out_buf ch) \<ge> buf_max (out_buf ch)" by auto
      with False show ?thesis by (auto simp: check_send_limit_def split: if_splits)
    qed
  qed
  show ?thesis using A B by blast
qed

definition full_channel :: "unit xChannel" where
  "full_channel = busy_channel\<lparr>out_buf := (out_buf busy_channel)\<lparr>buf_max := 2\<rparr>, file_pending := False\<rparr>"

lemma send_backpressure_witness:
  "queue_or_send_iov idle_callbacks [3] [] full_channel = (-2, full_channel)
   \<and> length (xbuf_bytes (out_buf full_channel)) \<ge> buf_max (out_buf full_channel)"
proof -
  have "xbuf_ok (out_buf full_channel)" "queue_or_send_iov idle_callbacks [3] [] full_channel = (-2, full_channel)"
    by (simp_all add: full_channel_def busy_defs xbuf_ok_def queue_or_send_iov_def check_send_limit_def
      has_pending_file_def xbuf_size_def)
  with send_backpressure [of full_channel idle_callbacks "[3]" "[]" "-2" full_channel] show ?thesis by simp
qed

section \<open>Finality of closing\<close>

text \<open>The operations of the interface and the events of the poll loop.\<close>

datatype 'u chan_op =
    OpClose "string option"
  | OpDestroy
  | OpAttach
  | OpAttachConnect
  | OpDetach
  | OpReleaseFd
  | OpSendRaw bytes
  | OpSendPacket bytes
  | OpSendFile bytes "(int \<times> bytes) option" int int
  | OpCloseAfterFlush "string option"
  | OpShutdownWrite "string option"
  | OpPauseRead
  | OpResumeRead nat
  | OpSetFraming "chan_config option"
  | OpSetTransform bool bool bool bool
  | OpSetUserdata 'u
  | OpSetMaxPacket nat
  | OpSetMaxSend nat
  | OpSetMaxRecv nat
  | OpReadable nat
  | OpWritable bool
  | OpError

text \<open>One operation; None when \<open>process_input\<close> runs out of fuel.\<close>

fun chan_step :: "'u callbacks \<Rightarrow> 'u chan_op \<Rightarrow> 'u xChannel \<Rightarrow> 'u xChannel option" where
  "chan_step E (OpClose r) ch = Some (xchannel_close E r ch)"
| "chan_step E OpDestroy ch = Some (xchannel_destroy ch)"
| "chan_step E OpAttach ch = Some (snd (xchannel_attach ch))"
| "chan_step E OpAttachConnect ch = Some (snd (xchannel_attach_connect ch))"
| "chan_step E OpDetach ch = Some (xchannel_detach ch)"
| "chan_step E OpReleaseFd ch = Some (snd (xchannel_release_fd ch))"
| "chan_step E (OpSendRaw bs) ch = Some (snd (xchannel_send_raw E bs ch))"
| "chan_step E (OpSendPacket bs) ch = Some (snd (xchannel_send_packet E bs ch))"
| "chan_step E (OpSendFile h f off len) ch = Some (snd (xchannel_send_file_raw E h f off len ch))"
| "chan_step E (OpCloseAfterFlush r) ch = Some (snd (xchannel_close_after_flush E r ch))"
| "chan_step E (OpShutdownWrite r) ch = Some (snd (xchannel_shutdown_write_after_flush E r ch))"
| "chan_step E OpPauseRead ch = Some (xchannel_pause_read ch)"
| "chan_step E (OpResumeRead fuel) ch = map_option snd (xchannel_resume_read E fuel ch)"
| "chan_step E (OpSetFraming c) ch = Some (snd (xchannel_set_framing c ch))"
| "chan_step E (OpSetTransform r s u d) ch = Some (xchannel_set_transform r s u d ch)"
| "chan_step E (OpSetUserdata u) ch = Some (xchannel_set_userdata u ch)"
| "chan_step E (OpSetMaxPacket n) ch = Some (xchannel_set_max_packet n ch)"
| "chan_step E (OpSetMaxSend n) ch = Some (xchannel_set_max_send n ch)"
| "chan_step E (OpSetMaxRecv n) ch = Some (xchannel_set_max_recv n ch)"
| "chan_step E (OpReadable fuel) ch = xchannel_read_event E fuel ch"
| "chan_step E (OpWritable err) ch = Some (writable_event E err ch)"
| "chan_step E OpError ch = Some (xchannel_error_event E ch)"

primrec chan_steps :: "'u callbacks \<Rightarrow> 'u chan_op list \<Rightarrow> 'u xChannel \<Rightarrow> 'u xChannel option" where
  "chan_steps E [] ch = Some ch"
| "chan_steps E (op # ops) ch =
     (case chan_step E op ch of None \<Rightarrow> None | Some ch \<Rightarrow> chan_steps E ops ch)"

definition quiet :: "'u xChannel \<Rightarrow> 'u xChannel \<Rightarrow> bool" where
  "quiet ch ch' \<longleftrightarrow> closed ch' \<and> wire ch' = wire ch \<and> delivered ch' = delivered ch"

lemma close_pending_quiet [simp]:
  "wire (close_pending_file ch) = wire ch" "delivered (close_pending_file ch) = delivered ch"
  by (simp_all add: close_pending_file_def note_event_def delivered_def Let_def)

lemma release_quiet [simp]:
  "wire (xchannel_release ch) = wire ch" "delivered (xchannel_release ch) = delivered ch"
  by (simp_all add: xchannel_release_def xchannel_free_storage_def Let_def note_event_def delivered_def
      close_pending_file_def)

lemma closed_close: "closed ch \<Longrightarrow> close_internal E r n ch = ch"
  by (simp add: close_internal_def)

lemmas chan_op_defs = xchannel_close_def xchannel_destroy_def xchannel_attach_def xchannel_attach_connect_def
  xchannel_detach_def xchannel_release_fd_def xchannel_send_raw_def queue_or_send_iov_def check_send_limit_def
  xchannel_send_packet_def xchannel_send_file_raw_def xchannel_close_after_flush_def
  xchannel_shutdown_write_after_flush_def xchannel_pause_read_def xchannel_resume_read_def
  xchannel_set_framing_def xchannel_set_transform_def xchannel_set_userdata_def xchannel_set_max_packet_def
  xchannel_set_max_send_def xchannel_set_max_recv_def xchannel_read_event_def writable_event_def
  xchannel_write_event_def xchannel_connect_event_def xchannel_error_event_def

lemma chan_step_closed: "closed ch \<Longrightarrow> \<exists>ch'. chan_step E op ch = Some ch' \<and> quiet ch ch'"
  by (cases op)
    (auto simp: chan_op_defs quiet_def closed_close xchannel_retain_def delivered_def note_event_def
      poll_del_all_def Let_def xchannel_release_def xchannel_free_storage_def close_pending_file_def
      split: option.splits wr_handler.splits)

text \<open>C11. Closing is final: whatever operations and events follow on a closed channel, each of them
  returns, the channel stays closed, no byte is sent and no packet delivered.\<close>
theorem closed_is_final:
  assumes "closed ch"
  shows "\<exists>ch'. chan_steps E ops ch = Some ch' \<and> closed ch' \<and> wire ch' = wire ch \<and> delivered ch' = delivered ch"
  using assms
proof (induction ops arbitrary: ch)
  case Nil
  then show ?case by simp
next
  case (Cons op ops)
  obtain ch1 where S: "chan_step E op ch = Some ch1" "quiet ch ch1"
    using chan_step_closed [OF Cons.prems] by blast
  with Cons.IH [of ch1] show ?case by (simp add: quiet_def)
qed

lemma closed_is_final_witness:
  "\<exists>ch'. chan_steps idle_callbacks [OpSendPacket [1], OpReadable 5, OpResumeRead 5] (xchannel_close idle_callbacks None busy_channel) = Some ch'
    \<and> closed ch' \<and> wire ch' = wire (xchannel_close idle_callbacks None busy_channel)
    \<and> delivered ch' = delivered (xchannel_close idle_callbacks None busy_channel)"
  by (rule closed_is_final) (rule close_closed, simp)

section \<open>The buffer\<close>

text \<open>The growing, compacting buffer refines the list of its bytes: appending, consuming and
  reserving keep it well formed and act on the list as append, drop and identity; a reservation
  that succeeds has room, and with memory it succeeds up to half of the address space.\<close>
lemma xbuf_refines_list:
  assumes "xbuf_ok b"
  shows "xbuf_bytes (xbuf_consume n b) = drop n (xbuf_bytes b)
    \<and> xbuf_ok (xbuf_consume n b)
    \<and> (case xbuf_reserve r need b of
         (ok, b1) \<Rightarrow> xbuf_ok b1 \<and> xbuf_bytes b1 = xbuf_bytes b \<and> (ok \<longrightarrow> need \<le> buf_cap b1 - buf_len b1))
    \<and> (case xbuf_append r bs b of
         (ok, b1) \<Rightarrow> xbuf_ok b1 \<and> xbuf_bytes b1 = (if ok then xbuf_bytes b @ bs else xbuf_bytes b)
           \<and> ((\<forall>k. r k) \<and> xbuf_size b + length bs \<le> SIZE_MAX div 2 \<longrightarrow> ok))"
proof (intro conjI)
  show "xbuf_bytes (xbuf_consume n b) = drop n (xbuf_bytes b)" "xbuf_ok (xbuf_consume n b)"
    using xbuf_consume_ok [OF assms] by simp_all
  obtain ok1 b1 where R: "xbuf_reserve r need b = (ok1, b1)" by fastforce
  then show "case xbuf_reserve r need b of
         (ok, b1) \<Rightarrow> xbuf_ok b1 \<and> xbuf_bytes b1 = xbuf_bytes b \<and> (ok \<longrightarrow> need \<le> buf_cap b1 - buf_len b1)"
    using xbuf_reserve_ok [OF assms R] by simp
  obtain ok2 b2 where A: "xbuf_append r bs b = (ok2, b2)" by fastforce
  then show "case xbuf_append r bs b of
         (ok, b1) \<Rightarrow> xbuf_ok b1 \<and> xbuf_bytes b1 = (if ok then xbuf_bytes b @ bs else xbuf_bytes b)
           \<and> ((\<forall>k. r k) \<and> xbuf_size b + length bs \<le> SIZE_MAX div 2 \<longrightarrow> ok)"
    using xbuf_append_ok [OF assms A] xbuf_append_total [OF assms, of r bs] by auto
qed

lemma xbuf_refines_list_witness:
  "xbuf_bytes (xbuf_consume 1 \<lparr>buf_data = [0, 7, 8], buf_off = 1, buf_len = 3, buf_cap = 3, buf_max = 0\<rparr>) = [8]"
  using xbuf_refines_list [where n = 1 and need = 4 and bs = "[9]" and r = "\<lambda>_. True"
      and b = "\<lparr>buf_data = [0, 7, 8], buf_off = 1, buf_len = 3, buf_cap = 3, buf_max = 0\<rparr>"]
  by (simp add: xbuf_ok_def xbuf_bytes_def)


section \<open>Two corners of the code\<close>

text \<open>Whether a line of exactly \<open>max_packet\<close> bytes is accepted depends on how the network cuts it: it
  is delivered when its terminator arrives whole, and the channel is closed as too large when the
  carriage return arrives without the line feed.\<close>
lemma crlf_limit_depends_on_cut:
  assumes "pure_reader E" and "rx_ready ch" and "frame ch = XCHANNEL_FRAME_CRLF"
    and "find_crlf body = None" and "length body = max_packet ch"
  shows "(xbuf_bytes (in_buf ch) = body @ [13, 10] \<longrightarrow>
      (\<exists>ch'. process_step E ch = (True, ch') \<and> delivered ch' = delivered ch @ [body]))
    \<and> (xbuf_bytes (in_buf ch) = body @ [13] \<longrightarrow>
      process_step E ch = (False, xchannel_close E (Some ''packet_too_large'') ch))"
  using process_step_parse [OF assms(1,2)] assms(3-5) find_crlf_end [OF assms(4)] find_crlf_cr [OF assms(4)]
  by (auto simp: parse_step_def)

definition crlf_channel :: "bytes \<Rightarrow> unit xChannel" where
  "crlf_channel bs = (open_channel 7 (line_config 2) () [] [])
     \<lparr>in_buf := \<lparr>buf_data = bs, buf_off = 0, buf_len = length bs, buf_cap = length bs, buf_max = 0\<rparr>\<rparr>"

lemma crlf_limit_depends_on_cut_witness:
  "(\<exists>ch'. process_step idle_callbacks (crlf_channel [97, 98, 13, 10]) = (True, ch') \<and> delivered ch' = [[97, 98]])
   \<and> process_step idle_callbacks (crlf_channel [97, 98, 13])
       = (False, xchannel_close idle_callbacks (Some ''packet_too_large'') (crlf_channel [97, 98, 13]))"
  using crlf_limit_depends_on_cut [of idle_callbacks "crlf_channel [97, 98, 13, 10]" "[97, 98]"]
    crlf_limit_depends_on_cut [of idle_callbacks "crlf_channel [97, 98, 13]" "[97, 98]"]
  by (simp add: crlf_channel_def open_defs line_config_def rx_ready_def xbuf_ok_def xbuf_bytes_def delivered_def)

text \<open>A file sent while the connection is still being made takes the descriptor's writable event
  away from the connect handler: the call succeeds, the write handler is registered, and however
  many writable events follow the channel stays connecting and sends nothing.\<close>
lemma send_file_blocks_connect:
  assumes "connect_pending ch" and "\<not> closed ch" and "fd ch \<noteq> INVALID_SOCKET_VAL"
    and "\<not> close_after_flush ch" and "\<not> has_pending_file ch" and "poll_script ch = []"
    and "1 \<le> refcount ch" and "xbuf_ok (out_buf ch)" and "\<forall>n. mem_ok ch n"
    and "xbuf_size (out_buf ch) + length header \<le> SIZE_MAX div 2" and "content \<noteq> []"
  shows "\<exists>ch'. xchannel_send_file_raw E header (Some (file, content)) 0 (-1) ch = (0, ch')
    \<and> poll_wr ch' = Some OnWritable \<and> connect_pending ch' \<and> wire ch' = wire ch
    \<and> ((writable_event E err) ^^ n) ch' = ch'"
proof -
  obtain ok b where A: "xbuf_append (mem_ok ch) header (out_buf ch) = (ok, b)" by fastforce
  with xbuf_append_total [OF assms(8,9,10)] have A: "xbuf_append (mem_ok ch) header (out_buf ch) = (True, b)"
    by simp
  let ?ch' = "ch\<lparr>out_buf := b, file_fd := file, file_offset := 0, file_data := content,
    file_pending := True, file_remaining := length content, poll_wr := Some OnWritable\<rparr>"
  have "xchannel_send_file_raw E header (Some (file, content)) 0 (-1) ch = (0, ?ch')"
    using assms A by (simp add: xchannel_send_file_raw_def Let_def out_append_def flush_output_def
        arm_writable_def poll_add_write_def poll_result_def has_pending_file_def)
  moreover have "writable_event E err ?ch' = ?ch'"
    using assms by (simp add: writable_event_def xchannel_write_event_def flush_output_def
        xchannel_retain_def xchannel_release_def)
  then have "((writable_event E err) ^^ n) ?ch' = ?ch'" by (induction n) simp_all
  ultimately show ?thesis using assms(1) by (intro exI [of _ ?ch']) simp
qed

lemma send_file_blocks_connect_witness:
  "\<exists>ch'. xchannel_send_file_raw idle_callbacks [1] (Some (9, [5, 6])) 0 (-1)
      (snd (xchannel_attach_connect (open_channel 7 (line_config 80) () [] []))) = (0, ch')
    \<and> poll_wr ch' = Some OnWritable \<and> connect_pending ch'
    \<and> wire ch' = wire (snd (xchannel_attach_connect (open_channel 7 (line_config 80) () [] [])))
    \<and> ((writable_event idle_callbacks False) ^^ 3) ch' = ch'"
  by (rule send_file_blocks_connect)
    (simp_all add: xchannel_attach_connect_def poll_add_write_def open_defs line_config_def
      has_pending_file_def xbuf_zero_def xbuf_ok_def xbuf_size_def)

end
