(* ===== verification/XFrameAead.thy ===== *)
theory XFrameAead
  imports XPrelude
begin

text \<open>
  The authenticated framing of \<open>xframe_aead.c\<close> (built with HTTPS support): sequence numbers,
  nonces, encryption and decryption of a packet. ChaCha20-Poly1305 is mbedtls code and a
  parameter; the hypotheses on it are its documented behaviour. \<open>malloc\<close> is a parameter, too.
  NULL arguments are outside the model, as are lengths near \<open>SIZE_MAX\<close>.
\<close>

section \<open>The cipher\<close>

text \<open>\<open>seal key nonce plain\<close> gives ciphertext and tag, \<open>unseal key nonce ct tag\<close> the plaintext;
  \<open>None\<close> is a non-zero return code.\<close>

record chachapoly =
  setkey_ok :: "bytes \<Rightarrow> bool"
  seal :: "bytes \<Rightarrow> bytes \<Rightarrow> bytes \<Rightarrow> (bytes \<times> bytes) option"
  unseal :: "bytes \<Rightarrow> bytes \<Rightarrow> bytes \<Rightarrow> bytes \<Rightarrow> bytes option"

text \<open>Sizes, decryption of what was encrypted, and nothing else passes the tag check: the cipher is
  a stream cipher whose tag is a function of key, nonce and ciphertext.\<close>

definition cipher_ok :: "chachapoly \<Rightarrow> bool" where
  "cipher_ok C \<longleftrightarrow>
     (\<forall>k n p c t. seal C k n p = Some (c, t) \<longrightarrow> length c = length p \<and> length t = 16)
   \<and> (\<forall>k n p c t. seal C k n p = Some (c, t) \<longrightarrow> unseal C k n c t = Some p)
   \<and> (\<forall>k n p c t. unseal C k n c t = Some p \<longrightarrow> seal C k n p = Some (c, t))"

lemma cipher_okD:
  assumes "cipher_ok C" and "seal C k n p = Some (c, t)"
  shows "length c = length p" and "length t = 16" and "unseal C k n c t = Some p"
  using assms unfolding cipher_ok_def by blast+

lemma cipher_unseal: "cipher_ok C \<Longrightarrow> unseal C k n c t = Some p \<Longrightarrow> seal C k n p = Some (c, t)"
  unfolding cipher_ok_def by blast

section \<open>State and operations\<close>

text \<open>One call of the encryption of the cipher: key, nonce and plaintext it was given, and its result.
  \<open>sealed\<close> is a history variable, the calls a side has made.\<close>

record seal_call =
  sc_key :: bytes
  sc_nonce :: bytes
  sc_plain :: bytes
  sc_result :: "(bytes \<times> bytes) option"

record xFrameAead =
  send_key :: bytes
  recv_key :: bytes
  send_salt :: bytes
  recv_salt :: bytes
  send_seq :: u64
  recv_max_seq :: u64
  recv_seen_any :: bool
  sealed :: "seal_call list"

definition seq_write_be :: "u64 \<Rightarrow> bytes" where
  "seq_write_be s = map (\<lambda>i. ucast (drop_bit (56 - 8 * i) s AND 0xff)) [0..<8]"

definition build_nonce :: "bytes \<Rightarrow> u64 \<Rightarrow> bytes" where
  "build_nonce salt s = take 4 salt @ map (\<lambda>i. ucast (drop_bit (56 - 8 * i) s AND 0xff)) [0..<8]"

definition seq_read_be :: "bytes \<Rightarrow> u64" where
  "seq_read_be p = foldl (\<lambda>v b. push_bit 8 v OR ucast b) 0 (take 8 p)"

definition xframe_aead_create ::
  "chachapoly \<Rightarrow> bool \<Rightarrow> bytes \<Rightarrow> bytes \<Rightarrow> bytes \<Rightarrow> bytes \<Rightarrow> xFrameAead option" where
  "xframe_aead_create C calloc_ok skey rkey ssalt rsalt =
     (if \<not> calloc_ok then None
      else if \<not> setkey_ok C skey \<or> \<not> setkey_ok C rkey then None
      else Some \<lparr>send_key = skey, recv_key = rkey, send_salt = take 4 ssalt, recv_salt = take 4 rsalt,
                 send_seq = 1, recv_max_seq = 0, recv_seen_any = False, sealed = []\<rparr>)"

text \<open>\<open>mbedtls_chachapoly_encrypt_and_tag\<close> with the send context.\<close>

definition encrypt_and_tag :: "chachapoly \<Rightarrow> bytes \<Rightarrow> bytes \<Rightarrow> xFrameAead \<Rightarrow> (bytes \<times> bytes) option \<times> xFrameAead" where
  "encrypt_and_tag C nonce inp a =
     (let res = seal C (send_key a) nonce inp
      in (res, a\<lparr>sealed := sealed a @ [\<lparr>sc_key = send_key a, sc_nonce = nonce, sc_plain = inp, sc_result = res\<rparr>]\<rparr>))"

text \<open>Result None is -1; the new state is returned in both cases.\<close>

definition xframe_aead_encrypt ::
  "chachapoly \<Rightarrow> (nat \<Rightarrow> bool) \<Rightarrow> bytes \<Rightarrow> xFrameAead \<Rightarrow> bytes option \<times> xFrameAead" where
  "xframe_aead_encrypt C malloc_ok inp a =
     (if \<not> malloc_ok (8 + length inp + 16) then (None, a)
      else let s = send_seq a
           in if s = 0 then (None, a)
              else let nonce = build_nonce (send_salt a) s
                   in case encrypt_and_tag C nonce inp a of
                        (None, a) \<Rightarrow> (None, a)
                      | (Some (ct, tag), a) \<Rightarrow>
                          (Some (seq_write_be s @ ct @ tag), a\<lparr>send_seq := s + 1\<rparr>))"

definition xframe_aead_decrypt ::
  "chachapoly \<Rightarrow> (nat \<Rightarrow> bool) \<Rightarrow> bytes \<Rightarrow> xFrameAead \<Rightarrow> bytes option \<times> xFrameAead" where
  "xframe_aead_decrypt C malloc_ok inp a =
     (if length inp < 8 + 16 then (None, a)
      else let s = seq_read_be inp
           in if s = 0 then (None, a)
              else if recv_seen_any a \<and> s \<le> recv_max_seq a then (None, a)
              else let ct_len = length inp - 8 - 16
                   in if \<not> malloc_ok (if ct_len > 0 then ct_len else 1) then (None, a)
                      else case unseal C (recv_key a) (build_nonce (recv_salt a) s)
                                  (take ct_len (drop 8 inp)) (drop (8 + ct_len) inp) of
                             None \<Rightarrow> (None, a)
                           | Some plain \<Rightarrow>
                               (Some plain, a\<lparr>recv_max_seq := s, recv_seen_any := True\<rparr>))"

section \<open>Sequence numbers on the wire\<close>

lemma seq_write_length [simp]: "length (seq_write_be s) = 8"
  by (simp add: seq_write_be_def)

lemma seq_write_bytes:
  "seq_write_be s = [ucast (drop_bit 56 s), ucast (drop_bit 48 s), ucast (drop_bit 40 s), ucast (drop_bit 32 s),
     ucast (drop_bit 24 s), ucast (drop_bit 16 s), ucast (drop_bit 8 s), ucast s]"
proof -
  have m: "(0xff :: u64) = mask 8" by (simp add: mask_eq_exp_minus_1)
  have "(ucast (x AND mask 8) :: u8) = ucast x" for x :: u64
    by (rule bit_word_eqI) (simp add: bit_simps)
  then have "(ucast (x AND 0xff) :: u8) = ucast x" for x :: u64
    by (simp only: m)
  then show ?thesis by (simp add: seq_write_be_def upt_conv_Cons)
qed

lemma join_byte: "push_bit 8 (drop_bit (m + 8) s) OR ucast (ucast (drop_bit m s) :: u8) = drop_bit m (s :: u64)"
proof (rule bit_word_eqI)
  fix n :: nat
  assume "n < LENGTH(64)"
  then show "bit (push_bit 8 (drop_bit (m + 8) s) OR ucast (ucast (drop_bit m s) :: u8)) n = bit (drop_bit m s) n"
    by (cases "n < 8") (auto simp: bit_simps add.assoc)
qed

lemma seq_read_write [simp]: "seq_read_be (seq_write_be s @ bs) = s"
proof -
  have top: "(ucast (ucast (drop_bit 56 s) :: u8) :: u64) = drop_bit 56 s"
    using join_byte [of 56 s] by simp
  show ?thesis
    using join_byte [of 48 s] join_byte [of 40 s] join_byte [of 32 s] join_byte [of 24 s]
      join_byte [of 16 s] join_byte [of 8 s] join_byte [of 0 s]
    by (simp add: seq_read_be_def seq_write_bytes top)
qed

lemma seq_write_inj: "seq_write_be s = seq_write_be t \<longleftrightarrow> s = t"
  by (metis append_Nil2 seq_read_write)

lemma build_nonce_write: "build_nonce salt s = take 4 salt @ seq_write_be s"
  by (simp add: build_nonce_def seq_write_be_def)

lemma build_nonce_inj: "build_nonce salt s = build_nonce salt t \<longleftrightarrow> s = t"
  by (simp add: build_nonce_write seq_write_inj)

section \<open>Transforms of a packet stream\<close>

text \<open>What a channel needs of its transforms: the receiver of a frame made by its peer gets the
  packet back, and the two states stay matched when a frame is made, received or not.\<close>

locale packet_transform =
  fixes enc :: "bytes \<Rightarrow> 's \<Rightarrow> bytes option \<times> 's"
    and dec :: "bytes \<Rightarrow> 'r \<Rightarrow> bytes option \<times> 'r"
    and matched :: "'s \<Rightarrow> 'r \<Rightarrow> bool"
  assumes enc_matched: "matched s r \<Longrightarrow> matched (snd (enc p s)) r"
    and dec_enc: "matched s r \<Longrightarrow> enc p s = (Some c, s') \<Longrightarrow>
      fst (dec c r) = Some p \<and> matched s' (snd (dec c r))"
begin

text \<open>A sender makes a frame of every packet; the flag says whether the frame reaches the
  receiver.\<close>

fun exchange :: "(bytes \<times> bool) list \<Rightarrow> 's \<Rightarrow> 'r \<Rightarrow> bytes list \<times> bytes option list" where
  "exchange [] s r = ([], [])"
| "exchange ((p, arrives) # ps) s r =
     (case enc p s of
        (None, s) \<Rightarrow> exchange ps s r
      | (Some c, s) \<Rightarrow>
          if arrives
          then let (q, r) = dec c r; (sent, got) = exchange ps s r in (p # sent, q # got)
          else exchange ps s r)"

lemma exchange_delivers:
  "matched s r \<Longrightarrow> snd (exchange ps s r) = map Some (fst (exchange ps s r))"
proof (induction ps s r rule: exchange.induct)
  case (1 s r)
  then show ?case by simp
next
  case (2 p arrives ps s r)
  obtain c s1 where E: "enc p s = (c, s1)" by fastforce
  have m: "matched s1 r" using enc_matched [OF 2(4), of p] E by simp
  show ?case
  proof (cases c)
    case None
    with 2(1) E m show ?thesis by simp
  next
    case (Some f)
    with dec_enc [OF 2(4)] E have D: "fst (dec f r) = Some p" "matched s1 (snd (dec f r))" by auto
    obtain q r1 where Q: "dec f r = (q, r1)" by fastforce
    show ?thesis
      using 2(2,3) E m D Some Q by (cases arrives) (auto split: prod.splits)
  qed
qed

end

text \<open>Peers whose keys and salts agree, the receiver not ahead of the sender.\<close>

definition aead_matched :: "chachapoly \<Rightarrow> (nat \<Rightarrow> bool) \<Rightarrow> xFrameAead \<Rightarrow> xFrameAead \<Rightarrow> bool" where
  "aead_matched C malloc_ok s r \<longleftrightarrow> cipher_ok C \<and> (\<forall>n. malloc_ok n)
     \<and> send_key s = recv_key r \<and> take 4 (send_salt s) = take 4 (recv_salt r)
     \<and> (recv_seen_any r \<and> send_seq s \<noteq> 0 \<longrightarrow> recv_max_seq r < send_seq s)"

lemma u64_succ_less: "(s :: u64) + 1 \<noteq> 0 \<Longrightarrow> s < s + 1"
  using unatSuc [of s] by (simp add: word_less_nat_alt add.commute)

lemma u64_bound: "unat (x :: u64) < 2 ^ 64"
proof -
  have "unat x < 2 ^ LENGTH(64)" by (rule unsigned_less)
  then show ?thesis by simp
qed

definition sent_call :: "xFrameAead \<Rightarrow> bytes \<Rightarrow> (bytes \<times> bytes) option \<Rightarrow> seal_call" where
  "sent_call s p res = \<lparr>sc_key = send_key s, sc_nonce = build_nonce (send_salt s) (send_seq s), sc_plain = p, sc_result = res\<rparr>"

lemma aead_encrypt_Some:
  "xframe_aead_encrypt C m p s = (Some c, s') \<Longrightarrow>
     \<exists>ct tag. seal C (send_key s) (build_nonce (send_salt s) (send_seq s)) p = Some (ct, tag)
       \<and> c = seq_write_be (send_seq s) @ ct @ tag \<and> send_seq s \<noteq> 0
       \<and> s' = s\<lparr>send_seq := send_seq s + 1, sealed := sealed s @ [sent_call s p (Some (ct, tag))]\<rparr>"
  by (cases s) (auto simp: xframe_aead_encrypt_def encrypt_and_tag_def sent_call_def Let_def
      split: if_splits option.splits)

lemma aead_encrypt_None:
  "xframe_aead_encrypt C m p s = (None, s') \<Longrightarrow> s' = s \<or> s' = s\<lparr>sealed := sealed s @ [sent_call s p None]\<rparr>"
  by (auto simp: xframe_aead_encrypt_def encrypt_and_tag_def sent_call_def Let_def split: if_splits option.splits)

lemma aead_decrypt_cases:
  assumes "xframe_aead_decrypt C m f r = (q, r')"
  shows "q = None \<and> r' = r
    \<or> (\<exists>p. q = Some p \<and> r' = r\<lparr>recv_max_seq := seq_read_be f, recv_seen_any := True\<rparr>
        \<and> 24 \<le> length f \<and> seq_read_be f \<noteq> 0 \<and> (recv_seen_any r \<longrightarrow> recv_max_seq r < seq_read_be f)
        \<and> unseal C (recv_key r) (build_nonce (recv_salt r) (seq_read_be f))
            (take (length f - 24) (drop 8 f)) (drop (length f - 16) f) = Some p)"
proof -
  have "8 + (length f - 8 - 16) = length f - 16" if "\<not> length f < 8 + 16" using that by simp
  then show ?thesis using assms
    by (auto simp: xframe_aead_decrypt_def Let_def not_le split: if_splits option.splits)
qed

lemma aead_build_nonce_salt: "take 4 a = take 4 b \<Longrightarrow> build_nonce a s = build_nonce b s"
  by (simp add: build_nonce_def)

lemma aead_encrypt_matched:
  assumes "aead_matched C m s r"
  shows "aead_matched C m (snd (xframe_aead_encrypt C m p s)) r"
proof (cases "xframe_aead_encrypt C m p s")
  case (Pair q s')
  show ?thesis
  proof (cases q)
    case None
    with Pair aead_encrypt_None [of C m p s s'] assms show ?thesis by (auto simp: aead_matched_def)
  next
    case (Some c)
    with Pair obtain l where "s' = s\<lparr>send_seq := send_seq s + 1, sealed := l\<rparr>" "send_seq s \<noteq> 0"
      using aead_encrypt_Some [of C m p s c s'] by auto
    with assms Pair u64_succ_less [of "send_seq s"] show ?thesis
      by (auto simp: aead_matched_def)
  qed
qed

lemma aead_decrypt_encrypt:
  assumes "aead_matched C m s r" and "xframe_aead_encrypt C m p s = (Some c, s')"
  shows "fst (xframe_aead_decrypt C m c r) = Some p
    \<and> aead_matched C m s' (snd (xframe_aead_decrypt C m c r))"
proof -
  from aead_encrypt_Some [OF assms(2)] obtain ct tag l where
    E: "seal C (send_key s) (build_nonce (send_salt s) (send_seq s)) p = Some (ct, tag)"
      "c = seq_write_be (send_seq s) @ ct @ tag" "s' = s\<lparr>send_seq := send_seq s + 1, sealed := l\<rparr>" "send_seq s \<noteq> 0"
    by blast
  have M: "cipher_ok C" "\<forall>n. m n" "send_key s = recv_key r"
    "build_nonce (send_salt s) (send_seq s) = build_nonce (recv_salt r) (send_seq s)"
    "recv_seen_any r \<longrightarrow> recv_max_seq r < send_seq s"
    using assms(1) E(4) by (simp_all add: aead_matched_def build_nonce_def)
  have len: "length tag = 16" and un: "unseal C (recv_key r) (build_nonce (recv_salt r) (send_seq s)) ct tag = Some p"
    using cipher_okD(2,3) [OF M(1) E(1)] unfolding M(3,4) .
  have D: "xframe_aead_decrypt C m c r
      = (Some p, r\<lparr>recv_max_seq := send_seq s, recv_seen_any := True\<rparr>)"
    using E(2,4) M(2,5) len un by (auto simp: xframe_aead_decrypt_def Let_def)
  show ?thesis
    using assms(1) E(3) u64_succ_less [of "send_seq s"] by (auto simp: D aead_matched_def)
qed

interpretation aead: packet_transform "xframe_aead_encrypt C malloc_ok" "xframe_aead_decrypt C malloc_ok"
  "aead_matched C malloc_ok" for C malloc_ok
  by unfold_locales (simp_all add: aead_encrypt_matched aead_decrypt_encrypt)

section \<open>Runs\<close>

text \<open>All packets a sender encrypts, with the frames it made.\<close>

fun encrypt_all :: "chachapoly \<Rightarrow> (nat \<Rightarrow> bool) \<Rightarrow> bytes list \<Rightarrow> xFrameAead \<Rightarrow> bytes list \<times> xFrameAead" where
  "encrypt_all C m [] a = ([], a)"
| "encrypt_all C m (p # ps) a =
     (case xframe_aead_encrypt C m p a of
        (None, a) \<Rightarrow> encrypt_all C m ps a
      | (Some f, a) \<Rightarrow> let (fs, a) = encrypt_all C m ps a in (f # fs, a))"

text \<open>All frames a receiver is given, from whomever, and those it accepts.\<close>

fun accepted_all :: "chachapoly \<Rightarrow> (nat \<Rightarrow> bool) \<Rightarrow> bytes list \<Rightarrow> xFrameAead \<Rightarrow> (bytes \<times> bytes) list" where
  "accepted_all C m [] a = []"
| "accepted_all C m (f # fs) a =
     (case xframe_aead_decrypt C m f a of
        (None, a) \<Rightarrow> accepted_all C m fs a
      | (Some p, a) \<Rightarrow> (f, p) # accepted_all C m fs a)"

text \<open>The calls of the cipher that succeeded, and what a run adds to them: one for each frame, under the
  send key and the nonces of consecutive sequence numbers.\<close>

definition sealed_ok :: "xFrameAead \<Rightarrow> seal_call list" where
  "sealed_ok a = filter (\<lambda>c. sc_result c \<noteq> None) (sealed a)"

definition frame_of :: "u64 \<Rightarrow> seal_call \<Rightarrow> bytes" where
  "frame_of s c = (case sc_result c of Some (ct, tag) \<Rightarrow> seq_write_be s @ ct @ tag | None \<Rightarrow> [])"

lemma encrypt_all_calls:
  assumes "encrypt_all C m ps a = (fs, a')"
  shows "send_salt a' = send_salt a \<and> send_key a' = send_key a
    \<and> (\<forall>c \<in> set (sealed a'). c \<in> set (sealed a) \<or> sc_key c = send_key a)
    \<and> (send_seq a \<noteq> 0 \<longrightarrow> unat (send_seq a) + length fs \<le> 2 ^ 64)
    \<and> (send_seq a = 0 \<longrightarrow> fs = [])
    \<and> (\<exists>cs. sealed_ok a' = sealed_ok a @ cs \<and> length cs = length fs
       \<and> (\<forall>i < length fs. sc_nonce (cs ! i) = build_nonce (send_salt a) (send_seq a + of_nat i)
            \<and> fs ! i = frame_of (send_seq a + of_nat i) (cs ! i)))"
  using assms
proof (induction ps arbitrary: a fs a')
  case Nil
  then show ?case using u64_bound [of "send_seq a"] by auto
next
  case (Cons p ps)
  obtain q a1 where E: "xframe_aead_encrypt C m p a = (q, a1)" by fastforce
  show ?case
  proof (cases q)
    case None
    with E aead_encrypt_None have
      a1: "a1 = a \<or> a1 = a\<lparr>sealed := sealed a @ [sent_call a p None]\<rparr>" by blast
    then have s: "send_salt a1 = send_salt a" "send_key a1 = send_key a" "send_seq a1 = send_seq a"
      "sealed_ok a1 = sealed_ok a" "\<forall>c \<in> set (sealed a1). c \<in> set (sealed a) \<or> sc_key c = send_key a"
      by (auto simp: sealed_ok_def sent_call_def)
    from Cons.prems E None have "encrypt_all C m ps a1 = (fs, a')" by simp
    from Cons.IH [OF this] s show ?thesis by metis
  next
    case (Some f)
    obtain fs1 a2 where R: "encrypt_all C m ps a1 = (fs1, a2)" by fastforce
    with Cons.prems E Some have fs: "fs = f # fs1" "a' = a2" by simp_all
    from E Some obtain ct tag where f: "f = seq_write_be (send_seq a) @ ct @ tag" "send_seq a \<noteq> 0"
      "a1 = a\<lparr>send_seq := send_seq a + 1, sealed := sealed a @ [sent_call a p (Some (ct, tag))]\<rparr>"
      using aead_encrypt_Some [of C m p a f a1] by auto
    let ?c = "sent_call a p (Some (ct, tag))"
    note I = Cons.IH [OF R]
    have bnd: "unat (send_seq a) + length fs \<le> 2 ^ 64"
    proof (cases "send_seq a + 1 = 0")
      case True
      with I f have "fs1 = []" by simp
      with fs u64_bound [of "send_seq a"] show ?thesis by simp
    next
      case False
      then have "unat (send_seq a1) = Suc (unat (send_seq a))"
        using unatSuc [of "send_seq a"] f(3) by (simp add: add.commute)
      with I False f(3) fs show ?thesis by simp
    qed
    from I obtain cs where cs: "sealed_ok a2 = sealed_ok a1 @ cs" "length cs = length fs1"
      "\<forall>i < length fs1. sc_nonce (cs ! i) = build_nonce (send_salt a1) (send_seq a1 + of_nat i)
            \<and> fs1 ! i = frame_of (send_seq a1 + of_nat i) (cs ! i)" by blast
    have "sealed_ok a1 = sealed_ok a @ [?c]" using f(3) by (simp add: sealed_ok_def sent_call_def)
    then have "sealed_ok a' = sealed_ok a @ (?c # cs)" using cs(1) fs by simp
    moreover have "sc_nonce ((?c # cs) ! i) = build_nonce (send_salt a) (send_seq a + of_nat i)
            \<and> fs ! i = frame_of (send_seq a + of_nat i) ((?c # cs) ! i)" if i: "i < length fs" for i
    proof (cases i)
      case 0
      with f fs show ?thesis by (simp add: sent_call_def frame_of_def)
    next
      case (Suc j)
      with i fs have "j < length fs1" by simp
      with cs(3) f(3) Suc fs show ?thesis by (simp add: ac_simps)
    qed
    moreover have "\<forall>c \<in> set (sealed a'). c \<in> set (sealed a) \<or> sc_key c = send_key a"
      using I f(3) fs by (auto simp: sent_call_def)
    ultimately show ?thesis using I bnd f fs cs(2) by (intro conjI exI [of _ "?c # cs"]) simp_all
  qed
qed

lemma accepted_all_seqs:
  "sorted_wrt (<) (map (seq_read_be \<circ> fst) (accepted_all C m fs a))
   \<and> (\<forall>x \<in> set (accepted_all C m fs a). seq_read_be (fst x) \<noteq> 0
        \<and> (recv_seen_any a \<longrightarrow> recv_max_seq a < seq_read_be (fst x))
        \<and> unseal C (recv_key a) (build_nonce (recv_salt a) (seq_read_be (fst x)))
            (take (length (fst x) - 24) (drop 8 (fst x))) (drop (length (fst x) - 16) (fst x)) = Some (snd x)
        \<and> 24 \<le> length (fst x))"
proof (induction fs arbitrary: a)
  case Nil
  then show ?case by simp
next
  case (Cons f fs)
  obtain q a1 where D: "xframe_aead_decrypt C m f a = (q, a1)" by fastforce
  from aead_decrypt_cases [OF D] show ?case
  proof (elim disjE conjE exE)
    assume "q = None" "a1 = a"
    with D Cons.IH [of a] show ?thesis by simp
  next
    fix p
    assume H: "q = Some p" "a1 = a\<lparr>recv_max_seq := seq_read_be f, recv_seen_any := True\<rparr>"
      "24 \<le> length f" "seq_read_be f \<noteq> 0" "recv_seen_any a \<longrightarrow> recv_max_seq a < seq_read_be f"
      "unseal C (recv_key a) (build_nonce (recv_salt a) (seq_read_be f))
        (take (length f - 24) (drop 8 f)) (drop (length f - 16) f) = Some p"
    with D have acc: "accepted_all C m (f # fs) a = (f, p) # accepted_all C m fs a1" by simp
    have "recv_seen_any a1" "recv_max_seq a1 = seq_read_be f" "recv_key a1 = recv_key a" "recv_salt a1 = recv_salt a"
      using H(2) by simp_all
    with Cons.IH [of a1] H(3-6) show ?thesis
      unfolding acc by (auto dest: less_trans)
  qed
qed


section \<open>Properties\<close>

text \<open>A cipher for the witnesses: one key byte and a check sum.\<close>

definition sum_bytes :: "bytes \<Rightarrow> u8" where
  "sum_bytes bs = foldl (XOR) 0 bs"

definition toy_cipher :: chachapoly where
  "toy_cipher = \<lparr>setkey_ok = (\<lambda>k. length k = 32),
     seal = (\<lambda>k n p. let c = map (\<lambda>b. b XOR sum_bytes k) p in Some (c, replicate 16 (sum_bytes (k @ n @ c)))),
     unseal = (\<lambda>k n c t. if t = replicate 16 (sum_bytes (k @ n @ c))
                         then Some (map (\<lambda>b. b XOR sum_bytes k) c) else None)\<rparr>"

lemma toy_cipher_ok: "cipher_ok toy_cipher"
  by (auto simp: cipher_ok_def toy_cipher_def Let_def comp_def xor.assoc)

definition toy_aead :: "u8 \<Rightarrow> u8 \<Rightarrow> bytes \<Rightarrow> bytes \<Rightarrow> xFrameAead" where
  "toy_aead k1 k2 s1 s2 = \<lparr>send_key = replicate 32 k1, recv_key = replicate 32 k2, send_salt = s1,
     recv_salt = s2, send_seq = 1, recv_max_seq = 0, recv_seen_any = False, sealed = []\<rparr>"

lemma toy_create: "length s1 = 4 \<Longrightarrow> length s2 = 4 \<Longrightarrow>
    xframe_aead_create toy_cipher True (replicate 32 k1) (replicate 32 k2) s1 s2 = Some (toy_aead k1 k2 s1 s2)"
  by (simp add: xframe_aead_create_def toy_cipher_def toy_aead_def)

text \<open>C12. Encryption round trip: of two sides whose keys and salts are crosswise equal, whatever
  packets one encrypts and whichever of its frames arrive (in order), each arriving frame decrypts
  to the packet it was made of.\<close>
theorem aead_stream_roundtrip:
  assumes "cipher_ok C" and "\<forall>n. malloc_ok n"
    and "xframe_aead_create C True key1 key2 salt1 salt2 = Some a"
    and "xframe_aead_create C True key2 key1 salt2 salt1 = Some b"
  shows "case packet_transform.exchange (xframe_aead_encrypt C malloc_ok) (xframe_aead_decrypt C malloc_ok) ps a b of
    (sent, got) \<Rightarrow> got = map Some sent"
proof -
  have "aead_matched C malloc_ok a b"
    using assms by (auto simp: xframe_aead_create_def aead_matched_def split: if_splits)
  from aead.exchange_delivers [OF this, of ps] show ?thesis by (auto split: prod.splits)
qed

lemma aead_stream_roundtrip_witness:
  "case packet_transform.exchange (xframe_aead_encrypt toy_cipher (\<lambda>_. True)) (xframe_aead_decrypt toy_cipher (\<lambda>_. True))
      [([1, 2], True), ([3], False), ([4], True)] (toy_aead 1 2 [1, 2, 3, 4] [5, 6, 7, 8]) (toy_aead 2 1 [5, 6, 7, 8] [1, 2, 3, 4]) of
    (sent, got) \<Rightarrow> got = map Some sent"
  by (rule aead_stream_roundtrip [OF toy_cipher_ok _ toy_create toy_create]; simp)

text \<open>C13. No replay: whatever frames a receiver is given, in whatever order and however often, the
  sequence numbers of those it accepts strictly increase from 1 on, so no frame is accepted
  twice.\<close>
theorem aead_no_replay:
  assumes "xframe_aead_create C True skey rkey ssalt rsalt = Some a"
  shows "sorted_wrt (<) (map (seq_read_be \<circ> fst) (accepted_all C malloc_ok fs a))
    \<and> distinct (map fst (accepted_all C malloc_ok fs a))
    \<and> 0 \<notin> set (map (seq_read_be \<circ> fst) (accepted_all C malloc_ok fs a))"
proof -
  let ?xs = "accepted_all C malloc_ok fs a"
  note A = accepted_all_seqs [of C malloc_ok fs a]
  then have "distinct (map seq_read_be (map fst ?xs))" by (simp add: strict_sorted_iff)
  then have "distinct (map fst ?xs)" by (simp only: distinct_map)
  with A show ?thesis by (auto simp: image_iff)
qed

lemma aead_no_replay_witness:
  "distinct (map fst (accepted_all toy_cipher (\<lambda>_. True) [[1], seq_write_be 1 @ replicate 16 1, seq_write_be 1 @ replicate 16 1]
     (toy_aead 1 2 [1, 2, 3, 4] [5, 6, 7, 8])))"
  by (rule aead_no_replay [OF toy_create, THEN conjunct2, THEN conjunct1]) simp_all

text \<open>C14. Authenticity: every packet a receiver accepts comes from a frame that carries a sequence
  number, and the ciphertext and tag the cipher makes of exactly this packet under the receive key
  and the nonce of that sequence number.\<close>
theorem aead_authentic:
  assumes "cipher_ok C" and "xframe_aead_create C True skey rkey ssalt rsalt = Some a"
    and "(f, p) \<in> set (accepted_all C malloc_ok fs a)"
  shows "\<exists>ct tag. seal C rkey (build_nonce rsalt (seq_read_be f)) p = Some (ct, tag)
    \<and> f = take 8 f @ ct @ tag \<and> length f = length p + 24"
proof -
  have k: "recv_key a = rkey" "build_nonce (recv_salt a) s = build_nonce rsalt s" for s
    using assms(2) by (auto simp: xframe_aead_create_def build_nonce_def split: if_splits)
  let ?ct = "take (length f - 24) (drop 8 f)" and ?tag = "drop (length f - 16) f"
  from accepted_all_seqs [of C malloc_ok fs a] assms(3)
  have A: "unseal C rkey (build_nonce rsalt (seq_read_be f)) ?ct ?tag = Some p" "24 \<le> length f"
    using k by fastforce+
  from cipher_unseal [OF assms(1) A(1)] have S: "seal C rkey (build_nonce rsalt (seq_read_be f)) p = Some (?ct, ?tag)" .
  have "length ?ct = length p" using cipher_okD(1) [OF assms(1) S] .
  moreover have "length ?ct = length f - 24" using A(2) by simp
  ultimately have len: "length f = length p + 24" using A(2) by linarith
  have idx: "length f - 24 + 8 = length f - 16" using A(2) by simp
  have "f = take 8 f @ ?ct @ drop (length f - 24) (drop 8 f)" by (simp only: append_take_drop_id)
  then have "f = take 8 f @ ?ct @ ?tag" unfolding drop_drop idx .
  with S len show ?thesis by blast
qed

lemma toy_accepts: "accepted_all toy_cipher (\<lambda>_. True) [[0, 0, 0, 0, 0, 0, 0, 1, 9, 4, 4, 4, 4, 4, 4, 4, 4, 4, 4, 4, 4, 4, 4, 4, 4]]
      (toy_aead 1 2 [1, 2, 3, 4] [5, 6, 7, 8])
    = [([0, 0, 0, 0, 0, 0, 0, 1, 9, 4, 4, 4, 4, 4, 4, 4, 4, 4, 4, 4, 4, 4, 4, 4, 4], [9])]"
  by code_simp

lemma aead_authentic_witness:
  "\<exists>ct tag. seal toy_cipher (replicate 32 2) (build_nonce [5, 6, 7, 8]
        (seq_read_be [0, 0, 0, 0, 0, 0, 0, 1, 9, 4, 4, 4, 4, 4, 4, 4, 4, 4, 4, 4, 4, 4, 4, 4, 4])) [9] = Some (ct, tag)
    \<and> [0, 0, 0, 0, 0, 0, 0, 1, 9, 4, 4, 4, 4, 4, 4, 4, 4, 4, 4, 4, 4, 4, 4, 4, 4]
      = take 8 [0, 0, 0, 0, 0, 0, 0, 1, 9, 4, 4, 4, 4, 4, 4, 4, 4, 4, 4, 4, 4, 4, 4, 4, 4] @ ct @ tag
    \<and> length [0 :: u8, 0, 0, 0, 0, 0, 0, 1, 9, 4, 4, 4, 4, 4, 4, 4, 4, 4, 4, 4, 4, 4, 4, 4, 4] = length [9 :: u8] + 24"
  by (rule aead_authentic [OF toy_cipher_ok toy_create [of "[1, 2, 3, 4]" _ 1],
        where malloc_ok = "\<lambda>_. True" and fs = "[[0, 0, 0, 0, 0, 0, 0, 1, 9, 4, 4, 4, 4, 4, 4, 4, 4, 4, 4, 4, 4, 4, 4, 4, 4]]"])
    (simp_all only: toy_accepts, simp_all)

text \<open>C15. A nonce is used once: of all calls of the cipher a side makes, whatever packets it encrypts and
  whatever allocations and calls fail, those that produced a ciphertext were given pairwise different nonces,
  all under the send key. There is one of them for each frame sent, fewer than 2^64, the \<open>i\<close>-th (from 0) was
  given the nonce of sequence number \<open>i + 1\<close>, and the frame is this number in front of the ciphertext and the
  tag. (A call that fails releases nothing, and its nonce is used again.)\<close>
theorem aead_nonces_unique:
  assumes "xframe_aead_create C True skey rkey ssalt rsalt = Some a"
    and "encrypt_all C malloc_ok ps a = (fs, a')"
  shows "distinct (map sc_nonce (sealed_ok a')) \<and> (\<forall>c \<in> set (sealed a'). sc_key c = skey)
    \<and> length (sealed_ok a') = length fs \<and> length fs < 2 ^ 64
    \<and> (\<forall>i < length fs. sc_nonce (sealed_ok a' ! i) = build_nonce ssalt (of_nat (i + 1))
         \<and> fs ! i = frame_of (of_nat (i + 1)) (sealed_ok a' ! i))"
proof -
  have a: "send_seq a = 1" "sealed a = []" "send_key a = skey" "build_nonce (send_salt a) q = build_nonce ssalt q" for q
    using assms(1) by (auto simp: xframe_aead_create_def build_nonce_def split: if_splits)
  note E = encrypt_all_calls [OF assms(2)]
  have len: "length fs < 2 ^ 64" using E a by simp
  have calls: "length (sealed_ok a') = length fs \<and> (\<forall>i < length fs. sc_nonce (sealed_ok a' ! i) = build_nonce ssalt (of_nat (i + 1))
         \<and> fs ! i = frame_of (of_nat (i + 1)) (sealed_ok a' ! i))"
    using E a by (auto simp: sealed_ok_def add.commute)
  have "distinct (map sc_nonce (sealed_ok a'))"
  proof (rule distinct_conv_nth [THEN iffD2], intro allI impI)
    fix i j
    assume ij: "i < length (map sc_nonce (sealed_ok a'))" "j < length (map sc_nonce (sealed_ok a'))" "i \<noteq> j"
    then have "take_bit 64 (i + 1) \<noteq> take_bit 64 (j + 1)"
      using calls len by (simp add: take_bit_nat_eq_self)
    then have "(of_nat (i + 1) :: u64) \<noteq> of_nat (j + 1)" by (simp only: word_of_nat_eq_iff) simp
    with ij calls show "map sc_nonce (sealed_ok a') ! i \<noteq> map sc_nonce (sealed_ok a') ! j"
      by (simp add: build_nonce_inj)
  qed
  with E a calls len show ?thesis by simp
qed

lemma aead_nonces_unique_witness:
  "distinct (map sc_nonce (sealed_ok (snd (encrypt_all toy_cipher (\<lambda>_. True) [[1], [1]]
     (toy_aead 1 2 [1, 2, 3, 4] [5, 6, 7, 8])))))"
  by (rule aead_nonces_unique [OF toy_create surjective_pairing, THEN conjunct1]) simp_all

end
