(* ===== verification/XRecLayout.thy ===== *)
theory XRecLayout
  imports XPrelude "HOL-Library.Multiset"
begin

text \<open>
  Record schemas of \<open>xrecord.c\<close>: sizes and alignments of the field types, the sort by descending
  alignment, the assignment of offsets. Field names are not NULL, and a field type is one of the
  enumeration. An \<open>xrecord_strfield_t\<close> has 16 bytes (LP64).
\<close>

section \<open>Definitions\<close>

datatype xrecord_type =
    XRECORD_INT
  | XRECORD_INT8
  | XRECORD_INT16
  | XRECORD_INT32
  | XRECORD_FLOAT
  | XRECORD_BOOL
  | XRECORD_STRING

record field_t =
  fld_name :: bytes
  fld_type :: xrecord_type
  fld_offset :: nat

record xrecord_schema =
  sc_fields :: "field_t list"
  elem_size :: nat

fun field_type_size :: "xrecord_type \<Rightarrow> nat" where
  "field_type_size XRECORD_INT8 = 1"
| "field_type_size XRECORD_INT16 = 2"
| "field_type_size XRECORD_INT32 = 4"
| "field_type_size XRECORD_INT = 8"
| "field_type_size XRECORD_FLOAT = 4"
| "field_type_size XRECORD_BOOL = 1"
| "field_type_size XRECORD_STRING = 16"

fun field_type_align :: "xrecord_type \<Rightarrow> nat" where
  "field_type_align XRECORD_INT8 = 1"
| "field_type_align XRECORD_INT16 = 2"
| "field_type_align XRECORD_INT32 = 4"
| "field_type_align XRECORD_INT = 8"
| "field_type_align XRECORD_FLOAT = 4"
| "field_type_align XRECORD_BOOL = 1"
| "field_type_align XRECORD_STRING = 8"

definition align_up :: "nat \<Rightarrow> nat \<Rightarrow> nat" where
  "align_up v a = unat (((of_nat v :: u64) + (of_nat a - 1)) AND NOT (of_nat a - 1))"

text \<open>The inner loop of the insertion sort, on the reversed sorted prefix: fields of smaller
  alignment move up by one.\<close>

fun shift_in :: "field_t \<Rightarrow> field_t list \<Rightarrow> field_t list" where
  "shift_in k [] = [k]"
| "shift_in k (f # fs) =
     (if field_type_align (fld_type f) < field_type_align (fld_type k) then f # shift_in k fs
      else k # f # fs)"

definition sort_fields :: "field_t list \<Rightarrow> field_t list" where
  "sort_fields fs = rev (foldl (\<lambda>prefix k. shift_in k prefix) [] fs)"

text \<open>The offset loop, with the offset and the widest alignment so far.\<close>

fun assign_offsets :: "nat \<Rightarrow> nat \<Rightarrow> field_t list \<Rightarrow> field_t list \<times> nat \<times> nat" where
  "assign_offsets off mx [] = ([], off, mx)"
| "assign_offsets off mx (f # fs) =
     (let al = field_type_align (fld_type f);
          mx = (if al > mx then al else mx);
          off = align_up off al;
          (gs, res) = assign_offsets (off + field_type_size (fld_type f)) mx fs
      in (f\<lparr>fld_offset := off\<rparr> # gs, res))"

datatype schema_site = Site_schema | Site_fields | Site_name nat

definition xrecord_schema_create ::
  "(schema_site \<Rightarrow> bool) \<Rightarrow> (bytes \<times> xrecord_type) list \<Rightarrow> xrecord_schema option" where
  "xrecord_schema_create ok defs =
     (if defs = [] then None
      else if (\<exists>d \<in> set defs. fst d = []) \<or> \<not> distinct (map fst defs) then None
      else if \<not> ok Site_schema \<or> \<not> ok Site_fields then None
      else if \<not> list_all (\<lambda>i. ok (Site_name i)) [0..<length defs] then None
      else let fs = sort_fields (map (\<lambda>(n, t). \<lparr>fld_name = n, fld_type = t, fld_offset = 0\<rparr>) defs);
               (gs, off, mx) = assign_offsets 0 1 fs
           in Some \<lparr>sc_fields = gs, elem_size = align_up off mx\<rparr>)"

section \<open>Alignment\<close>

lemma and_not_mask_div: "unat ((x :: u64) AND NOT (mask k)) = unat x div 2 ^ k * 2 ^ k"
proof -
  have "x AND NOT (mask k) = push_bit k (drop_bit k x)"
    by (rule bit_word_eqI) (auto simp: bit_simps)
  moreover have "unat (push_bit k (drop_bit k x)) = unat x div 2 ^ k * 2 ^ k"
  proof -
    have b: "unat x < 2 ^ LENGTH(64)" by (rule unsigned_less)
    have "unat (drop_bit k x) = drop_bit k (unat x)"
      unfolding unsigned_drop_bit_eq by (simp only: take_bit_nat_eq_self [OF b])
    then have d: "unat (drop_bit k x) = unat x div 2 ^ k" by (simp only: drop_bit_eq_div)
    have "unat x div 2 ^ k * 2 ^ k < 2 ^ LENGTH(64)"
      using b by (meson div_times_less_eq_dividend le_less_trans)
    then have "take_bit LENGTH(64) (unat x div 2 ^ k * 2 ^ k) = unat x div 2 ^ k * 2 ^ k"
      by (rule take_bit_nat_eq_self)
    then show ?thesis unfolding unsigned_push_bit_eq d unfolding push_bit_eq_mult .
  qed
  ultimately show ?thesis by (simp only:)
qed

lemma align_up_pow2:
  assumes "k \<le> 3" and "v < 2 ^ 63"
  shows "\<exists>m. 2 ^ k = Suc m \<and> align_up v (2 ^ k) = (v + m) div Suc m * Suc m"
proof -
  have "k = 0 \<or> k = 1 \<or> k = 2 \<or> k = 3" using assms(1) by auto
  then have p: "(2 :: nat) ^ k \<le> 8" by auto
  obtain m where sm: "(2 :: nat) ^ k = Suc m" by (metis not0_implies_Suc power_not_zero zero_neq_numeral)
  have "(of_nat (2 ^ k) :: u64) - 1 = of_nat m" unfolding sm by simp
  moreover have "(of_nat (2 ^ k) :: u64) - 1 = mask k" by (simp add: mask_eq_exp_minus_1)
  ultimately have mk: "(of_nat m :: u64) = mask k" by (simp only:)
  have "v + m < 2 ^ LENGTH(64)" using assms(2) p unfolding sm by simp
  then have "take_bit LENGTH(64) (v + m) = v + m" by (rule take_bit_nat_eq_self)
  then have u: "unat (of_nat (v + m) :: u64) = v + m" by (simp only: unsigned_of_nat of_nat_id)
  have "align_up v (2 ^ k) = unat ((of_nat (v + m) :: u64) AND NOT (mask k))"
    unfolding align_up_def sm by (simp add: mk)
  then have "align_up v (2 ^ k) = (v + m) div Suc m * Suc m" by (simp only: and_not_mask_div u sm)
  with sm show ?thesis by (intro exI [of _ m] conjI)
qed

lemma field_type_align_pow2: "\<exists>k \<le> 3. field_type_align t = 2 ^ k"
proof (cases t)
  case XRECORD_INT8 then show ?thesis by (intro exI [of _ 0]) simp
next
  case XRECORD_BOOL then show ?thesis by (intro exI [of _ 0]) simp
next
  case XRECORD_INT16 then show ?thesis by (intro exI [of _ 1]) simp
next
  case XRECORD_INT32 then show ?thesis by (intro exI [of _ 2]) simp
next
  case XRECORD_FLOAT then show ?thesis by (intro exI [of _ 2]) simp
qed (intro exI [of _ 3], simp)+

lemma align_up_ceil:
  assumes "v < 2 ^ 63"
  shows "\<exists>m. field_type_align t = Suc m \<and> align_up v (field_type_align t) = (v + m) div Suc m * Suc m"
  using align_up_pow2 [OF _ assms] field_type_align_pow2 by metis

lemma align_up_least:
  assumes "v < 2 ^ 63"
  shows "v \<le> align_up v (field_type_align t)" and "field_type_align t dvd align_up v (field_type_align t)"
    and "align_up v (field_type_align t) < v + field_type_align t"
proof -
  from align_up_ceil [OF assms] obtain m where
    m: "field_type_align t = Suc m" "align_up v (field_type_align t) = (v + m) div Suc m * Suc m" by blast
  have "(v + m) div Suc m * Suc m + (v + m) mod Suc m = v + m" by (rule div_mult_mod_eq)
  moreover have "(v + m) mod Suc m < Suc m" by (rule mod_less_divisor) simp
  ultimately show "v \<le> align_up v (field_type_align t)" "align_up v (field_type_align t) < v + field_type_align t"
    unfolding m(2) unfolding m(1) by linarith+
  show "field_type_align t dvd align_up v (field_type_align t)" unfolding m(2) unfolding m(1) by (rule dvd_triv_right)
qed

lemma align_up_dvd:
  assumes "field_type_align t dvd v" and "v < 2 ^ 63"
  shows "align_up v (field_type_align t) = v"
proof -
  note A = align_up_least [OF assms(2), of t]
  from assms(1) A(2) have "field_type_align t dvd align_up v (field_type_align t) - v"
    by (rule dvd_diff_nat [rotated])
  moreover have "align_up v (field_type_align t) - v < field_type_align t" using A(1,3) by linarith
  ultimately have "align_up v (field_type_align t) - v = 0"
    by (meson nat_dvd_not_less not_gr_zero)
  with A(1) show ?thesis by simp
qed

lemma align_dvd_size: "field_type_align t dvd field_type_size t"
  by (cases t) simp_all

lemma align_dvd_larger: "field_type_align s \<le> field_type_align t \<Longrightarrow> field_type_align s dvd field_type_align t"
  by (cases s; cases t) simp_all

lemma field_type_size_bounds: "0 < field_type_size t" "field_type_size t \<le> 16"
  by (cases t; simp)+

section \<open>Sorting\<close>

abbreviation al :: "field_t \<Rightarrow> nat" where
  "al f \<equiv> field_type_align (fld_type f)"

lemma set_shift_in: "set (shift_in k fs) = insert k (set fs)"
  by (induction fs) auto

lemma length_shift_in: "length (shift_in k fs) = Suc (length fs)"
  by (induction fs) auto

lemma shift_in_sorted: "sorted_wrt (\<lambda>f g. al f \<le> al g) fs \<Longrightarrow> sorted_wrt (\<lambda>f g. al f \<le> al g) (shift_in k fs)"
  by (induction fs) (force simp: set_shift_in)+

text \<open>Among fields of the same alignment the sort keeps the declared order.\<close>

lemma shift_in_stable:
  "sorted_wrt (\<lambda>f g. al f \<le> al g) fs \<Longrightarrow>
     filter (\<lambda>f. al f = a) (shift_in k fs) = (if al k = a then [k] else []) @ filter (\<lambda>f. al f = a) fs"
  by (induction fs) auto

lemma sort_fields_sorted:
  "sorted_wrt (\<lambda>f g. al g \<le> al f) (sort_fields fs)
   \<and> filter (\<lambda>f. al f = a) (sort_fields fs) = filter (\<lambda>f. al f = a) fs
   \<and> set (sort_fields fs) = set fs \<and> length (sort_fields fs) = length fs"
proof (induction fs rule: rev_induct)
  case Nil
  then show ?case by (simp add: sort_fields_def)
next
  case (snoc k fs)
  let ?p = "foldl (\<lambda>prefix k. shift_in k prefix) [] fs"
  have p: "sorted_wrt (\<lambda>f g. al f \<le> al g) ?p" "filter (\<lambda>f. al f = a) ?p = rev (filter (\<lambda>f. al f = a) fs)"
    "set ?p = set fs" "length ?p = length fs"
    using snoc by (simp_all add: sort_fields_def sorted_wrt_rev flip: rev_filter)
      (metis rev_filter rev_rev_ident)
  have "length (shift_in k ?p) = Suc (length ?p)" by (rule length_shift_in)
  then show ?case
    using shift_in_sorted [OF p(1), of k] shift_in_stable [OF p(1), of a k] p
    by (auto simp: sort_fields_def sorted_wrt_rev set_shift_in rev_filter simp flip: rev_filter)
qed

lemma mset_shift_in: "mset (shift_in k fs) = add_mset k (mset fs)"
  by (induction fs) auto

lemma mset_sort_fields: "mset (sort_fields fs) = mset fs"
proof (induction fs rule: rev_induct)
  case (snoc k fs)
  then show ?case by (simp add: sort_fields_def mset_shift_in)
qed (simp add: sort_fields_def)

section \<open>Offsets\<close>

abbreviation fsize :: "field_t \<Rightarrow> nat" where
  "fsize f \<equiv> field_type_size (fld_type f)"

abbreviation sig :: "field_t \<Rightarrow> bytes \<times> xrecord_type" where
  "sig f \<equiv> (fld_name f, fld_type f)"

lemma assign_offsets_spec:
  assumes "sorted_wrt (\<lambda>f g. al g \<le> al f) fs" and "\<forall>f \<in> set fs. al f dvd off"
    and "off + 16 * length fs < 2 ^ 63" and "assign_offsets off mx fs = (gs, off', mx')"
  shows "map sig gs = map sig fs \<and> off' = off + sum_list (map fsize fs)
    \<and> (\<forall>i < length gs. fld_offset (gs ! i) = off + sum_list (map fsize (take i gs)) \<and> al (gs ! i) dvd fld_offset (gs ! i))
    \<and> (\<forall>f \<in> set fs. al f \<le> mx') \<and> mx \<le> mx' \<and> (mx' = mx \<or> (\<exists>f \<in> set fs. mx' = al f))"
  using assms
proof (induction fs arbitrary: off mx gs)
  case Nil
  then show ?case by simp
next
  case (Cons f fs)
  let ?mx = "if al f > mx then al f else mx"
  have off: "align_up off (al f) = off" using align_up_dvd Cons.prems by simp
  obtain gs1 where R: "assign_offsets (off + fsize f) ?mx fs = (gs1, off', mx')"
    and gs: "gs = f\<lparr>fld_offset := off\<rparr> # gs1"
    using Cons.prems(4) off by (auto simp: Let_def split: prod.splits)
  have srt: "sorted_wrt (\<lambda>f g. al g \<le> al f) fs" using Cons.prems(1) by simp
  have dvd: "\<forall>g \<in> set fs. al g dvd off + fsize f"
  proof
    fix g
    assume "g \<in> set fs"
    then have "al g dvd al f" "al g dvd off" using Cons.prems(1,2) align_dvd_larger by auto
    then show "al g dvd off + fsize f" using align_dvd_size dvd_trans by (intro dvd_add) blast+
  qed
  have "off + fsize f + 16 * length fs < 2 ^ 63"
    using Cons.prems(3) field_type_size_bounds(2) [of "fld_type f"] by simp
  note I = Cons.IH [OF srt dvd this R]
  have nth: "fld_offset (gs ! i) = off + sum_list (map fsize (take i gs)) \<and> al (gs ! i) dvd fld_offset (gs ! i)"
    if "i < length gs" for i
  proof (cases i)
    case 0
    with Cons.prems(2) gs show ?thesis by simp
  next
    case (Suc j)
    with that gs have "j < length gs1" by simp
    with I have "fld_offset (gs1 ! j) = off + fsize f + sum_list (map fsize (take j gs1))
        \<and> al (gs1 ! j) dvd fld_offset (gs1 ! j)" by blast
    with Suc gs show ?thesis by (auto simp: add.assoc)
  qed
  have "\<forall>i < length gs. fld_offset (gs ! i) = off + sum_list (map fsize (take i gs)) \<and> al (gs ! i) dvd fld_offset (gs ! i)"
    using nth by blast
  moreover have "map sig gs = map sig (f # fs) \<and> off' = off + sum_list (map fsize (f # fs))
      \<and> (\<forall>g \<in> set (f # fs). al g \<le> mx') \<and> mx \<le> mx' \<and> (mx' = mx \<or> (\<exists>g \<in> set (f # fs). mx' = al g))"
    using I gs by (auto split: if_splits)
  ultimately show ?case by blast
qed

text \<open>What the operations on a pool rely on.\<close>

definition layout_ok :: "xrecord_schema \<Rightarrow> bool" where
  "layout_ok sc \<longleftrightarrow> distinct (map fld_name (sc_fields sc)) \<and> 0 < elem_size sc
     \<and> (\<forall>i j. i < j \<and> j < length (sc_fields sc) \<longrightarrow>
          fld_offset (sc_fields sc ! i) + fsize (sc_fields sc ! i) \<le> fld_offset (sc_fields sc ! j))
     \<and> (\<forall>f \<in> set (sc_fields sc). fld_offset f + fsize f \<le> elem_size sc
          \<and> al f dvd fld_offset f \<and> al f dvd elem_size sc)"

lemma sum_take_step:
  "i < j \<Longrightarrow> j \<le> length xs \<Longrightarrow> sum_list (map g (take i xs)) + (g (xs ! i) :: nat) \<le> sum_list (map g (take j xs))"
proof (induction j)
  case (Suc j)
  then have t: "take (Suc j) xs = take j xs @ [xs ! j]" by (simp add: take_Suc_conv_app_nth)
  show ?case
  proof (cases "i = j")
    case False
    with Suc have "sum_list (map g (take i xs)) + g (xs ! i) \<le> sum_list (map g (take j xs))" by simp
    then show ?thesis unfolding t by simp
  qed (simp add: t)
qed simp

lemma schema_layout_full:
  assumes "xrecord_schema_create ok defs = Some sc" and "length defs < 2 ^ 31"
  shows "layout_ok sc \<and> mset (map sig (sc_fields sc)) = mset defs
    \<and> (\<forall>i < length (sc_fields sc). fld_offset (sc_fields sc ! i) = sum_list (map fsize (take i (sc_fields sc))))
    \<and> (\<exists>f \<in> set (sc_fields sc). elem_size sc < sum_list (map fsize (sc_fields sc)) + al f)
    \<and> sorted_wrt (\<lambda>f g. al g \<le> al f) (sc_fields sc)"
proof -
  define fs0 where "fs0 = map (\<lambda>(n, t). \<lparr>fld_name = n, fld_type = t, fld_offset = 0\<rparr>) defs"
  define fs where "fs = sort_fields fs0"
  have defs: "defs \<noteq> []" "distinct (map fst defs)" using assms(1) by (auto simp: xrecord_schema_create_def split: if_splits)
  obtain gs off mx where R: "assign_offsets 0 1 fs = (gs, off, mx)" by (cases "assign_offsets 0 1 fs") auto
  with assms(1) have sc: "sc = \<lparr>sc_fields = gs, elem_size = align_up off mx\<rparr>"
    by (auto simp: xrecord_schema_create_def fs_def fs0_def Let_def split: if_splits)
  have fs: "sorted_wrt (\<lambda>f g. al g \<le> al f) fs" "length fs = length defs" "mset fs = mset fs0"
    using sort_fields_sorted [of fs0] mset_sort_fields [of fs0] by (simp_all add: fs_def fs0_def)
  have sig0: "map sig fs0 = defs" by (simp add: fs0_def comp_def case_prod_beta)
  have len: "16 * length fs < 2 ^ 63" using assms(2) fs(2) by simp
  then have "0 + 16 * length fs < 2 ^ 63" by simp
  from assign_offsets_spec [OF fs(1) _ this R] have A: "map sig gs = map sig fs" "off = sum_list (map fsize fs)"
    "\<forall>i < length gs. fld_offset (gs ! i) = sum_list (map fsize (take i gs)) \<and> al (gs ! i) dvd fld_offset (gs ! i)"
    "\<forall>f \<in> set fs. al f \<le> mx" "1 \<le> mx" "mx = 1 \<or> (\<exists>f \<in> set fs. mx = al f)" by auto
  have types: "map fld_type gs = map fld_type fs" using arg_cong [OF A(1), of "map snd"] by (simp add: comp_def)
  have sz: "map fsize gs = map fsize fs" and alg: "al ` set gs = al ` set fs"
    using arg_cong [OF types, of "map field_type_size"] arg_cong [OF types, of "\<lambda>ts. field_type_align ` set ts"]
    by (simp_all add: comp_def image_image)
  have leng: "length gs = length fs" using A(1) by (metis length_map)
  have ne: "gs \<noteq> []" using leng fs(2) defs(1) by auto
  have "mset (map sig gs) = image_mset sig (mset fs)" by (simp only: A(1) mset_map)
  also have "\<dots> = mset (map sig fs0)" by (simp only: fs(3) mset_map)
  finally have msig: "mset (map sig gs) = mset defs" by (simp only: sig0)
  have one: "1 \<le> al f" for f by (cases "fld_type f") simp_all
  have ex: "\<exists>f \<in> set gs. mx = al f"
  proof -
    have "\<exists>f \<in> set fs. mx = al f"
    proof (cases "mx = 1")
      case True
      obtain f where "f \<in> set fs" using ne leng by (cases fs) auto
      moreover from this A(4) True one [of f] have "mx = al f" by (simp add: le_antisym)
      ultimately show ?thesis by blast
    qed (use A(6) in blast)
    then have "mx \<in> al ` set gs" using alg by blast
    then show ?thesis by blast
  qed
  then obtain w where w: "w \<in> set gs" "mx = al w" by blast
  have offb: "off < 2 ^ 63"
  proof -
    have "sum_list (map fsize fs) \<le> 16 * length fs"
      using sum_list_mono [of fs fsize "\<lambda>_. 16"] field_type_size_bounds(2) by (simp add: sum_list_triv)
    with A(2) len show ?thesis by simp
  qed
  note U = align_up_least [OF offb, of "fld_type w", folded w(2)]
  have off_gs: "off = sum_list (map fsize gs)" using A(2) sz by simp
  have dvds: "al f dvd mx" if "f \<in> set gs" for f
  proof -
    have "al f \<in> al ` set fs" using that alg by blast
    with A(4) w(2) show ?thesis using align_dvd_larger [of "fld_type f" "fld_type w"] by auto
  qed
  have step: "fld_offset (gs ! i) + fsize (gs ! i) \<le> sum_list (map fsize (take j gs))"
    if "i < j" "j \<le> length gs" for i j
    using sum_take_step [OF that, of fsize] A(3) that by simp
  have within: "fld_offset f + fsize f \<le> off" if f: "f \<in> set gs" for f
  proof -
    from f obtain i where "i < length gs" "f = gs ! i" by (auto simp: in_set_conv_nth)
    with step [of i "length gs"] off_gs show ?thesis by simp
  qed
  have names: "distinct (map fld_name gs)"
  proof -
    have "mset (map fst (map sig gs)) = mset (map fst defs)" by (simp only: mset_map [of fst] msig)
    then have "distinct (map fst (map sig gs))" using defs(2) mset_eq_imp_distinct_iff by blast
    then show ?thesis by (simp add: comp_def)
  qed
  have pos: "0 < elem_size sc"
  proof -
    have "0 < off" using within [OF w(1)] field_type_size_bounds(1) [of "fld_type w"] by linarith
    with U(1) sc show ?thesis by simp
  qed
  have "layout_ok sc"
    unfolding layout_ok_def
  proof (intro conjI allI impI ballI)
    fix i j
    assume ij: "i < j \<and> j < length (sc_fields sc)"
    with step [of i j] A(3) show "fld_offset (sc_fields sc ! i) + fsize (sc_fields sc ! i) \<le> fld_offset (sc_fields sc ! j)"
      by (simp add: sc)
  next
    fix f
    assume "f \<in> set (sc_fields sc)"
    then have f: "f \<in> set gs" by (simp add: sc)
    show "fld_offset f + fsize f \<le> elem_size sc" using within [OF f] U(1) by (simp add: sc)
    show "al f dvd fld_offset f" using f A(3) by (auto simp: in_set_conv_nth)
    show "al f dvd elem_size sc" using dvd_trans [OF dvds [OF f] U(2)] by (simp add: sc)
  qed (use names pos in \<open>simp_all add: sc\<close>)
  moreover have "elem_size sc < sum_list (map fsize gs) + al w" using U(3) w(2) off_gs by (simp add: sc)
  moreover have "sorted_wrt (\<lambda>f g. al g \<le> al f) gs"
  proof -
    have "sorted_wrt (\<lambda>s t. field_type_align t \<le> field_type_align s) (map fld_type fs)"
      using fs(1) by (simp add: sorted_wrt_map)
    then show ?thesis unfolding types [symmetric] by (simp add: sorted_wrt_map)
  qed
  ultimately show ?thesis using msig A(3) w(1) by (auto simp: sc)
qed

text \<open>C17. The layout of a schema: the fields are those declared, every field is aligned to its type,
  no two overlap and none leaves the record, there is no padding between fields, the record size
  is the least multiple of the widest alignment that holds them all, and every field stays aligned
  in every slot. The comment above the sorting loop gives 16 bytes for \<open>int8,string,int8,int\<close> against 24 in
  declared order; a string field alone takes 16 (a pointer and a 32-bit length, padded), and the sizes are 32
  (the witness) against 40 (lemma \<open>declared_order_size\<close>).\<close>
theorem schema_layout:
  assumes "xrecord_schema_create ok defs = Some sc" and "length defs < 2 ^ 31"
  shows "mset (map sig (sc_fields sc)) = mset defs
    \<and> (\<forall>i < length (sc_fields sc). fld_offset (sc_fields sc ! i) = sum_list (map fsize (take i (sc_fields sc))))
    \<and> (\<forall>f \<in> set (sc_fields sc). fld_offset f + fsize f \<le> elem_size sc
         \<and> (\<forall>slot. al f dvd slot * elem_size sc + fld_offset f))
    \<and> (\<exists>f \<in> set (sc_fields sc). elem_size sc < sum_list (map fsize (sc_fields sc)) + al f)"
  using schema_layout_full [OF assms] by (auto simp: layout_ok_def)

lemma schema_layout_witness:
  "\<exists>sc. xrecord_schema_create (\<lambda>_. True)
      [([97], XRECORD_INT8), ([98], XRECORD_STRING), ([99], XRECORD_INT8), ([100], XRECORD_INT)] = Some sc
    \<and> mset (map sig (sc_fields sc)) = mset [([97], XRECORD_INT8), ([98], XRECORD_STRING), ([99], XRECORD_INT8), ([100], XRECORD_INT)]
    \<and> elem_size sc = 32"
proof -
  let ?defs = "[([97], XRECORD_INT8), ([98], XRECORD_STRING), ([99], XRECORD_INT8), ([100], XRECORD_INT)]"
  have "\<exists>sc. xrecord_schema_create (\<lambda>_. True) ?defs = Some sc \<and> elem_size sc = 32"
    by (simp add: xrecord_schema_create_def sort_fields_def align_up_def Let_def)
  then obtain sc where sc: "xrecord_schema_create (\<lambda>_. True) ?defs = Some sc" "elem_size sc = 32" by blast
  from schema_layout [OF sc(1)] sc show ?thesis by simp
qed

lemma declared_order_size:
  "(case assign_offsets 0 1 (map (\<lambda>t. \<lparr>fld_name = [], fld_type = t, fld_offset = 0\<rparr>)
        [XRECORD_INT8, XRECORD_STRING, XRECORD_INT8, XRECORD_INT]) of (gs, off, mx) \<Rightarrow> align_up off mx) = 40"
  by (simp add: align_up_def Let_def)

end
