(* ===== verification/XRecNum.thy ===== *)
theory XRecNum
  imports XPrelude "HOL-Library.Log_Nat"
begin

text \<open>
  What \<open>xrecord.c\<close> uses of the C numbers: doubles (the finite ones as rationals, the two zeros
  identified), rounding to nearest even, \<open>strtoll\<close> and \<open>strtod\<close> in the C locale. A C string is the
  list of its bytes before the NUL.
\<close>

datatype dbl = NaN | PInf | NInf | Fin rat

section \<open>Rounding\<close>

text \<open>The exponent of the leading binary digit of a non-zero number.\<close>

definition rat_exponent :: "rat \<Rightarrow> int" where
  "rat_exponent x =
     (let (n, d) = quotient_of \<bar>x\<bar>;
          k = int (floorlog 2 (nat n)) - int (floorlog 2 (nat d))
      in if \<bar>x\<bar> < 2 powi k then k - 1 else k)"

definition round_half_even :: "rat \<Rightarrow> int" where
  "round_half_even q =
     (let f = \<lfloor>q\<rfloor>; r = q - of_int f
      in if r < 1 / 2 then f else if r > 1 / 2 then f + 1 else if even f then f else f + 1)"

text \<open>To \<open>p\<close> significant binary digits, none below \<open>2 powi emin\<close>.\<close>

definition fl_round :: "nat \<Rightarrow> int \<Rightarrow> rat \<Rightarrow> rat" where
  "fl_round p emin x =
     (if x = 0 then 0
      else let e = max (rat_exponent x - (int p - 1)) emin
           in of_int (round_half_even (x / 2 powi e)) * 2 powi e)"

definition float_of :: "rat \<Rightarrow> rat" where
  "float_of x = fl_round 24 (-149) x"

definition double_of :: "rat \<Rightarrow> rat" where
  "double_of x = fl_round 53 (-1074) x"

definition FLT_MAX :: rat where
  "FLT_MAX = (2 ^ 24 - 1) * 2 ^ 104"

definition DBL_MAX :: rat where
  "DBL_MAX = (2 ^ 53 - 1) * 2 ^ 971"

lemma round_half_even_int [simp]: "round_half_even (of_int n) = n"
  by (simp add: round_half_even_def)

lemma floorlog_less: "n < 2 ^ k \<Longrightarrow> floorlog 2 n \<le> k"
  by (rule floorlog_leI) auto

lemma rat_exponent_int: "\<bar>n\<bar> < 2 ^ k \<Longrightarrow> rat_exponent (of_int n) < int k"
proof -
  assume n: "\<bar>n\<bar> < 2 ^ k"
  then have "nat \<bar>n\<bar> < 2 ^ k" by (simp add: nat_less_iff)
  then have "floorlog 2 (nat \<bar>n\<bar>) \<le> k" by (rule floorlog_less)
  moreover have "quotient_of \<bar>of_int n\<bar> = (\<bar>n\<bar>, 1)" by (simp flip: of_int_abs)
  moreover have "floorlog 2 (Suc 0) = 1" by (simp add: floorlog_def)
  ultimately show ?thesis by (auto simp: rat_exponent_def Let_def)
qed

text \<open>A double holds every integer of less than 54 binary digits.\<close>

lemma double_of_int_exact:
  assumes "\<bar>n\<bar> < 2 ^ 53"
  shows "double_of (of_int n) = of_int n"
proof (cases "n = 0")
  case False
  define e where "e = max (rat_exponent (of_int n) - 52) (-1074)"
  have e: "e \<le> 0" using rat_exponent_int [OF assms] by (simp add: e_def)
  have "(2 :: rat) powi e = 1 / 2 ^ nat (- e)" using e by (simp add: power_int_def power_one_over)
  then have "(of_int n :: rat) / 2 powi e = of_int (n * 2 ^ nat (- e))" by simp
  then have "round_half_even ((of_int n :: rat) / 2 powi e) = n * 2 ^ nat (- e)"
    by (simp only: round_half_even_int)
  then have "of_int (round_half_even ((of_int n :: rat) / 2 powi e)) * 2 powi e
      = (of_int n :: rat) / 2 powi e * 2 powi e"
    using \<open>(of_int n :: rat) / 2 powi e = of_int (n * 2 ^ nat (- e))\<close> by (simp only:)
  also have "\<dots> = of_int n" by simp
  finally show ?thesis using False by (simp add: double_of_def fl_round_def e_def Let_def)
qed (simp add: double_of_def fl_round_def)

text \<open>A number rounded to a double, and addition of doubles.\<close>

definition rounded :: "rat \<Rightarrow> dbl" where
  "rounded x =
     (let y = double_of x in if y > DBL_MAX then PInf else if y < - DBL_MAX then NInf else Fin y)"

fun dbl_add :: "dbl \<Rightarrow> dbl \<Rightarrow> dbl" where
  "dbl_add (Fin x) (Fin y) = rounded (x + y)"
| "dbl_add NaN _ = NaN"
| "dbl_add _ NaN = NaN"
| "dbl_add PInf NInf = NaN"
| "dbl_add NInf PInf = NaN"
| "dbl_add PInf _ = PInf"
| "dbl_add _ PInf = PInf"
| "dbl_add NInf _ = NInf"
| "dbl_add _ NInf = NInf"

section \<open>Strings to numbers\<close>

definition is_space :: "u8 \<Rightarrow> bool" where
  "is_space c \<longleftrightarrow> c = 32 \<or> 9 \<le> c \<and> c \<le> 13"

definition is_digit :: "u8 \<Rightarrow> bool" where
  "is_digit c \<longleftrightarrow> 48 \<le> c \<and> c \<le> 57"

definition is_xdigit :: "u8 \<Rightarrow> bool" where
  "is_xdigit c \<longleftrightarrow> is_digit c \<or> 65 \<le> c \<and> c \<le> 70 \<or> 97 \<le> c \<and> c \<le> 102"

definition xdigit_val :: "u8 \<Rightarrow> int" where
  "xdigit_val c = (if c \<le> 57 then uint c - 48 else if c \<le> 70 then uint c - 55 else uint c - 87)"

definition digits_val :: "int \<Rightarrow> bytes \<Rightarrow> int" where
  "digits_val base ds = foldl (\<lambda>v c. v * base + xdigit_val c) 0 ds"

fun take_sign :: "bytes \<Rightarrow> bool \<times> bytes" where
  "take_sign [] = (False, [])"
| "take_sign (c # s) = (if c = 45 then (True, s) else if c = 43 then (False, s) else (False, c # s))"

text \<open>\<open>strtoll (s, &end, 10)\<close>: the value, whether errno is ERANGE, the rest of the string; None when
  no digits are found.\<close>

definition strtoll :: "bytes \<Rightarrow> (int \<times> bool \<times> bytes) option" where
  "strtoll s =
     (let (neg, u) = take_sign (dropWhile is_space s);
          ds = takeWhile is_digit u;
          v = (if neg then - digits_val 10 ds else digits_val 10 ds)
      in if ds = [] then None
         else if v < - (2 ^ 63) then Some (- (2 ^ 63), True, dropWhile is_digit u)
         else if v > 2 ^ 63 - 1 then Some (2 ^ 63 - 1, True, dropWhile is_digit u)
         else Some (v, False, dropWhile is_digit u))"

text \<open>Digits with at most one point among them: all digits, the number after the point, the rest.\<close>

definition take_mantissa :: "(u8 \<Rightarrow> bool) \<Rightarrow> bytes \<Rightarrow> (bytes \<times> nat \<times> bytes) option" where
  "take_mantissa isd s =
     (let ip = takeWhile isd s; r = dropWhile isd s;
          (fp, r) = (case r of
                       [] \<Rightarrow> ([], r)
                     | c # r' \<Rightarrow> if c = 46 then (takeWhile isd r', dropWhile isd r') else ([], r))
      in if ip = [] \<and> fp = [] then None else Some (ip @ fp, length fp, r))"

definition take_exponent :: "u8 set \<Rightarrow> bytes \<Rightarrow> int \<times> bytes" where
  "take_exponent marks s =
     (case s of
        [] \<Rightarrow> (0, s)
      | c # r \<Rightarrow>
          if c \<in> marks
          then let (neg, r1) = take_sign r; ds = takeWhile is_digit r1
               in if ds = [] then (0, s)
                  else (if neg then - digits_val 10 ds else digits_val 10 ds, dropWhile is_digit r1)
          else (0, s))"

definition to_double :: "bool \<Rightarrow> rat \<Rightarrow> dbl" where
  "to_double neg x =
     (let y = double_of x
      in if y > DBL_MAX then (if neg then NInf else PInf) else Fin (if neg then - y else y))"

definition lower :: "u8 \<Rightarrow> u8" where
  "lower c = (if 65 \<le> c \<and> c \<le> 90 then c + 32 else c)"

definition begins :: "bytes \<Rightarrow> bytes \<Rightarrow> bool" where
  "begins w s \<longleftrightarrow> map lower (take (length w) s) = w"

definition is_nan_char :: "u8 \<Rightarrow> bool" where
  "is_nan_char c \<longleftrightarrow> is_digit c \<or> 65 \<le> c \<and> c \<le> 90 \<or> 97 \<le> c \<and> c \<le> 122 \<or> c = 95"

text \<open>What follows \<open>nan\<close>: an optional word in parentheses.\<close>

definition skip_nan_word :: "bytes \<Rightarrow> bytes" where
  "skip_nan_word s =
     (case s of
        [] \<Rightarrow> s
      | c # r \<Rightarrow>
          if c = 40
          then (case dropWhile is_nan_char r of d # r' \<Rightarrow> if d = 41 then r' else s | [] \<Rightarrow> s)
          else s)"

definition strtod :: "bytes \<Rightarrow> (dbl \<times> bytes) option" where
  "strtod s =
     (let (neg, u) = take_sign (dropWhile is_space s);
          hex = (if begins [48, 120] u then take_mantissa is_xdigit (drop 2 u) else None)
      in if begins [105, 110, 102, 105, 110, 105, 116, 121] u then Some (if neg then NInf else PInf, drop 8 u)
         else if begins [105, 110, 102] u then Some (if neg then NInf else PInf, drop 3 u)
         else if begins [110, 97, 110] u then Some (NaN, skip_nan_word (drop 3 u))
         else case hex of
                Some (ds, nfrac, r) \<Rightarrow>
                  let (e, r) = take_exponent {112, 80} r
                  in Some (to_double neg (of_int (digits_val 16 ds) * 2 powi (e - 4 * int nfrac)), r)
              | None \<Rightarrow>
                  (case take_mantissa is_digit u of
                     None \<Rightarrow> None
                   | Some (ds, nfrac, r) \<Rightarrow>
                       let (e, r) = take_exponent {101, 69} r
                       in Some (to_double neg (of_int (digits_val 10 ds) * 10 powi (e - int nfrac)), r)))"

end
