(* ===== verification/XRecord.thy ===== *)
theory XRecord
  imports XRecLayout XRecNum XHashOps
begin

text \<open>
  Record pools of \<open>xrecord.c\<close>. The pool is memory of typed cells: a store destroys every cell it
  overlaps, so that the layout matters. A record slot is found through the hash table of
  \<open>xhash.h\<close> and a cache of one entry. An id is the 64-bit pattern of its \<open>int64_t\<close>; the live part
  of the free stack is a list, top last. \<open>mem n\<close> says whether (re)allocating \<open>n\<close> bytes succeeds.
  NULL arguments are outside the model.
\<close>

section \<open>Values and cells\<close>

datatype xrecord_status =
    XRECORD_OK
  | XRECORD_NOTFOUND
  | XRECORD_EXISTS
  | XRECORD_NOFIELD
  | XRECORD_TYPE_MISMATCH
  | XRECORD_OUT_OF_RANGE
  | XRECORD_NOMEM
  | XRECORD_BADARG

datatype xrecord_value = V_NUM dbl | V_BOOL int | V_STR bytes

text \<open>What a stretch of pool memory holds: zero bytes, bytes without a meaning (half overwritten, or
  the result of a conversion C leaves undefined), or an object stored by the code; a string field
  holds a pointer to a buffer (None for NULL) and a length.\<close>

datatype cell = C_zero | C_torn | C_int nat int | C_float rat | C_bool bool | C_str "bytes option" nat

fun cell_bytes :: "cell \<Rightarrow> nat" where
  "cell_bytes C_zero = 1"
| "cell_bytes C_torn = 1"
| "cell_bytes (C_int w _) = w"
| "cell_bytes (C_float _) = 4"
| "cell_bytes (C_bool _) = 1"
| "cell_bytes (C_str _ _) = 16"

type_synonym cells = "nat \<Rightarrow> cell"

definition store :: "nat \<Rightarrow> cell \<Rightarrow> cells \<Rightarrow> cells" where
  "store a c m = (\<lambda>x. if x = a then c
     else if x < a + cell_bytes c \<and> a < x + cell_bytes (m x) then C_torn else m x)"

fun str_ptr :: "cell \<Rightarrow> bytes option" where
  "str_ptr (C_str p _) = p"
| "str_ptr _ = None"

record xrecord =
  rp_schema :: xrecord_schema
  rp_pool :: cells
  rp_capacity :: nat
  rp_elem_size :: nat
  rp_free :: "nat list"
  rp_ids :: xhash
  rp_str_offsets :: "nat list"
  rp_cached_id :: u64
  rp_cached_slot :: nat
  rp_cache_valid :: bool

section \<open>Helpers\<close>

definition coerce_int :: "dbl \<Rightarrow> int \<Rightarrow> int \<Rightarrow> xrecord_status + int" where
  "coerce_int v lo hi =
     (case v of
        NaN \<Rightarrow> Inl XRECORD_TYPE_MISMATCH
      | PInf \<Rightarrow> Inl XRECORD_OUT_OF_RANGE
      | NInf \<Rightarrow> Inl XRECORD_OUT_OF_RANGE
      | Fin r \<Rightarrow>
          if r \<noteq> of_int \<lfloor>r\<rfloor> then Inl XRECORD_TYPE_MISMATCH
          else if r < of_int lo \<or> r > of_int hi then Inl XRECORD_OUT_OF_RANGE
          else Inr \<lfloor>r\<rfloor>)"

definition find_field :: "xrecord_schema \<Rightarrow> bytes \<Rightarrow> field_t option" where
  "find_field sc name = find (\<lambda>f. fld_name f = name) (sc_fields sc)"

definition lookup_slot :: "u64 \<Rightarrow> xrecord \<Rightarrow> nat option \<times> xrecord" where
  "lookup_slot rid s =
     (if rp_cache_valid s \<and> rp_cached_id s = rid then (Some (rp_cached_slot s), s)
      else let v = xhash_get_int (rp_ids s) rid
           in if v = 0 then (None, s)
              else let slot = (v - 1) mod 2 ^ 32
                   in (Some slot, s\<lparr>rp_cached_id := rid, rp_cached_slot := slot, rp_cache_valid := True\<rparr>))"

section \<open>Life of a pool\<close>

datatype pool_site = Site_pool | Site_offsets | Site_cells | Site_stack

definition xrecord_pool_create ::
  "(pool_site \<Rightarrow> bool) \<Rightarrow> (xhash_site \<Rightarrow> bool) \<Rightarrow> xrecord_schema \<Rightarrow> nat \<Rightarrow> xrecord option" where
  "xrecord_pool_create pok hok sc cap =
     (let strs = map fld_offset (filter (\<lambda>f. fld_type f = XRECORD_STRING) (sc_fields sc))
      in if cap = 0 then None
         else if \<not> pok Site_pool then None
         else if strs \<noteq> [] \<and> \<not> pok Site_offsets then None
         else if \<not> pok Site_cells \<or> \<not> pok Site_stack then None
         else case xhash_create hok cap XHASH_KEY_INT of
                None \<Rightarrow> None
              | Some h \<Rightarrow> Some
                  \<lparr>rp_schema = sc, rp_pool = (\<lambda>_. C_zero), rp_capacity = cap, rp_elem_size = elem_size sc,
                   rp_free = map (\<lambda>i. (cap - 1 - i) mod 2 ^ 32) [0..<cap], rp_ids = h,
                   rp_str_offsets = strs, rp_cached_id = 0, rp_cached_slot = 0, rp_cache_valid = False\<rparr>)"

text \<open>The string buffers freed by \<open>xrecord_pool_destroy\<close>, by the address of their field.\<close>

definition free_all_strings :: "xrecord \<Rightarrow> nat list" where
  "free_all_strings s =
     concat (map (\<lambda>off. filter (\<lambda>a. str_ptr (rp_pool s a) \<noteq> None)
         (map (\<lambda>slot. slot * rp_elem_size s + off) [0..<rp_capacity s])) (rp_str_offsets s))"

definition grow_pool :: "(nat \<Rightarrow> bool) \<Rightarrow> xrecord \<Rightarrow> xrecord_status \<times> xrecord" where
  "grow_pool mem s =
     (let old = rp_capacity s; new = old * 2 mod 2 ^ 64; es = rp_elem_size s
      in if \<not> mem (new * es mod 2 ^ 64) then (XRECORD_NOMEM, s)
         else let s = s\<lparr>rp_pool := (\<lambda>x. if old * es \<le> x \<and> x < new * es then C_zero else rp_pool s x)\<rparr>
              in if \<not> mem (new * 4 mod 2 ^ 64) then (XRECORD_NOMEM, s)
                 else (XRECORD_OK, s\<lparr>rp_free := rp_free s @ map (\<lambda>i. i mod 2 ^ 32) [old..<new],
                                     rp_capacity := new\<rparr>))"

text \<open>Zeroing a field of a fresh record; a string keeps its buffer.\<close>

fun zero_cell :: "xrecord_type \<Rightarrow> cell \<Rightarrow> cell" where
  "zero_cell XRECORD_STRING c = C_str (str_ptr c) 0"
| "zero_cell XRECORD_INT8 _ = C_int 1 0"
| "zero_cell XRECORD_INT16 _ = C_int 2 0"
| "zero_cell XRECORD_INT32 _ = C_int 4 0"
| "zero_cell XRECORD_INT _ = C_int 8 0"
| "zero_cell XRECORD_FLOAT _ = C_float 0"
| "zero_cell XRECORD_BOOL _ = C_bool False"

definition zero_fields :: "nat \<Rightarrow> field_t list \<Rightarrow> cells \<Rightarrow> cells" where
  "zero_fields rec fs m =
     foldl (\<lambda>m f. store (rec + fld_offset f) (zero_cell (fld_type f) (m (rec + fld_offset f))) m) m fs"

definition xrecord_bind ::
  "(nat \<Rightarrow> bool) \<Rightarrow> (xhash_site \<Rightarrow> bool) \<Rightarrow> u64 \<Rightarrow> xrecord \<Rightarrow> xrecord_status \<times> xrecord" where
  "xrecord_bind mem hok rid s =
     (if xhash_get_int (rp_ids s) rid \<noteq> 0 then (XRECORD_EXISTS, s)
      else case (if rp_free s = [] then grow_pool mem s else (XRECORD_OK, s)) of
             (st, s) \<Rightarrow>
               if st \<noteq> XRECORD_OK then (st, s)
               else let sc = rp_schema s; slot = last (rp_free s);
                        s = s\<lparr>rp_pool := zero_fields (slot * elem_size sc) (sc_fields sc) (rp_pool s)\<rparr>
                    in case xhash_set_int hok (rp_ids s) rid ((slot + 1) mod 2 ^ 32) of
                         (False, h) \<Rightarrow> (XRECORD_NOMEM, s\<lparr>rp_ids := h\<rparr>)
                       | (True, h) \<Rightarrow>
                           (XRECORD_OK, s\<lparr>rp_ids := h, rp_free := butlast (rp_free s), rp_cached_id := rid,
                                          rp_cached_slot := slot, rp_cache_valid := True\<rparr>))"

definition xrecord_unbind :: "u64 \<Rightarrow> xrecord \<Rightarrow> xrecord_status \<times> xrecord" where
  "xrecord_unbind rid s =
     (case lookup_slot rid s of
        (None, s) \<Rightarrow> (XRECORD_NOTFOUND, s)
      | (Some slot, s) \<Rightarrow>
          let s = s\<lparr>rp_ids := snd (xhash_remove_int (rp_ids s) rid), rp_free := rp_free s @ [slot]\<rparr>
          in (XRECORD_OK, if rp_cache_valid s \<and> rp_cached_id s = rid then s\<lparr>rp_cache_valid := False\<rparr> else s))"

definition xrecord_has :: "u64 \<Rightarrow> xrecord \<Rightarrow> bool \<times> xrecord" where
  "xrecord_has rid s = (case lookup_slot rid s of (r, s) \<Rightarrow> (r \<noteq> None, s))"

section \<open>Fields\<close>

text \<open>The object a value becomes in a field, or the error. An integer beyond \<open>int64_t\<close> (no range check
  there) is converted with an undefined result.\<close>

definition sized_int :: "nat \<Rightarrow> dbl \<Rightarrow> xrecord_status + cell" where
  "sized_int w v =
     (case coerce_int v (- (2 ^ (8 * w - 1))) (2 ^ (8 * w - 1) - 1) of
        Inl e \<Rightarrow> Inl e
      | Inr i \<Rightarrow> Inr (C_int w i))"

definition set_string :: "(nat \<Rightarrow> bool) \<Rightarrow> bytes \<Rightarrow> cell \<Rightarrow> xrecord_status + cell" where
  "set_string mem bs c =
     (if bs \<noteq> [] \<and> \<not> mem (length bs) then Inl XRECORD_NOMEM
      else Inr (C_str (if bs \<noteq> [] then Some bs else str_ptr c) (length bs mod 2 ^ 32)))"

fun set_cell :: "(nat \<Rightarrow> bool) \<Rightarrow> xrecord_type \<Rightarrow> xrecord_value \<Rightarrow> cell \<Rightarrow> xrecord_status + cell" where
  "set_cell mem XRECORD_INT8 (V_NUM d) c = sized_int 1 d"
| "set_cell mem XRECORD_INT16 (V_NUM d) c = sized_int 2 d"
| "set_cell mem XRECORD_INT32 (V_NUM d) c = sized_int 4 d"
| "set_cell mem XRECORD_INT (V_NUM d) c =
     (case d of
        NaN \<Rightarrow> Inl XRECORD_TYPE_MISMATCH
      | Fin r \<Rightarrow>
          if r \<noteq> of_int \<lfloor>r\<rfloor> then Inl XRECORD_TYPE_MISMATCH
          else if - (2 ^ 63) \<le> \<lfloor>r\<rfloor> \<and> \<lfloor>r\<rfloor> < 2 ^ 63 then Inr (C_int 8 \<lfloor>r\<rfloor>)
          else Inr C_torn
      | _ \<Rightarrow> Inr C_torn)"
| "set_cell mem XRECORD_FLOAT (V_NUM d) c =
     (case d of
        Fin r \<Rightarrow> if r < - FLT_MAX \<or> r > FLT_MAX then Inl XRECORD_OUT_OF_RANGE
                 else Inr (C_float (float_of r))
      | _ \<Rightarrow> Inl XRECORD_TYPE_MISMATCH)"
| "set_cell mem XRECORD_BOOL (V_BOOL b) c = Inr (C_bool (b \<noteq> 0))"
| "set_cell mem XRECORD_STRING (V_STR bs) c = set_string mem bs c"
| "set_cell mem _ _ c = Inl XRECORD_TYPE_MISMATCH"

fun read_cell :: "xrecord_type \<Rightarrow> cell \<Rightarrow> xrecord_value option" where
  "read_cell XRECORD_INT8 (C_int w i) = (if w = 1 then Some (V_NUM (Fin (of_int i))) else None)"
| "read_cell XRECORD_INT16 (C_int w i) = (if w = 2 then Some (V_NUM (Fin (of_int i))) else None)"
| "read_cell XRECORD_INT32 (C_int w i) = (if w = 4 then Some (V_NUM (Fin (of_int i))) else None)"
| "read_cell XRECORD_INT (C_int w i) = (if w = 8 then Some (V_NUM (Fin (double_of (of_int i)))) else None)"
| "read_cell XRECORD_FLOAT (C_float r) = Some (V_NUM (Fin r))"
| "read_cell XRECORD_BOOL (C_bool b) = Some (V_BOOL (if b then 1 else 0))"
| "read_cell XRECORD_STRING (C_str p n) = Some (V_STR (case p of None \<Rightarrow> [] | Some bs \<Rightarrow> take n bs))"
| "read_cell _ _ = None"

text \<open>The address of a field of the record of an id, shared by the accessors.\<close>

definition locate ::
  "u64 \<Rightarrow> bytes \<Rightarrow> xrecord \<Rightarrow> (xrecord_status + xrecord_type \<times> nat) \<times> xrecord" where
  "locate rid name s =
     (case lookup_slot rid s of
        (None, s) \<Rightarrow> (Inl XRECORD_NOTFOUND, s)
      | (Some slot, s) \<Rightarrow>
          (case find_field (rp_schema s) name of
             None \<Rightarrow> (Inl XRECORD_NOFIELD, s)
           | Some f \<Rightarrow> (Inr (fld_type f, slot * elem_size (rp_schema s) + fld_offset f), s)))"

definition xrecord_set ::
  "(nat \<Rightarrow> bool) \<Rightarrow> u64 \<Rightarrow> bytes \<Rightarrow> xrecord_value \<Rightarrow> xrecord \<Rightarrow> xrecord_status \<times> xrecord" where
  "xrecord_set mem rid name v s =
     (case locate rid name s of
        (Inl e, s) \<Rightarrow> (e, s)
      | (Inr (t, a), s) \<Rightarrow>
          (case set_cell mem t v (rp_pool s a) of
             Inl e \<Rightarrow> (e, s)
           | Inr c \<Rightarrow> (XRECORD_OK, s\<lparr>rp_pool := store a c (rp_pool s)\<rparr>)))"

text \<open>The value read is None where the memory holds no object of the type.\<close>

definition xrecord_get ::
  "u64 \<Rightarrow> bytes \<Rightarrow> xrecord \<Rightarrow> (xrecord_status \<times> xrecord_value option) \<times> xrecord" where
  "xrecord_get rid name s =
     (case locate rid name s of
        (Inl e, s) \<Rightarrow> ((e, None), s)
      | (Inr (t, a), s) \<Rightarrow> ((XRECORD_OK, read_cell t (rp_pool s a)), s))"

definition skip_blanks :: "bytes \<Rightarrow> bytes" where
  "skip_blanks s = dropWhile (\<lambda>c. c = 32 \<or> c = 9) s"

definition parse_ll :: "bytes \<Rightarrow> xrecord_status + int" where
  "parse_ll str =
     (case strtoll str of
        None \<Rightarrow> Inl XRECORD_TYPE_MISMATCH
      | Some (v, erange, rest) \<Rightarrow>
          if skip_blanks rest \<noteq> [] then Inl XRECORD_TYPE_MISMATCH
          else if erange then Inl XRECORD_OUT_OF_RANGE
          else Inr v)"

definition ranged_int :: "nat \<Rightarrow> int \<Rightarrow> xrecord_status + cell" where
  "ranged_int w v =
     (if v < - (2 ^ (8 * w - 1)) \<or> v > 2 ^ (8 * w - 1) - 1 then Inl XRECORD_OUT_OF_RANGE
      else Inr (C_int w v))"

text \<open>The string is all \<open>len\<close> bytes for a string field, and the C string in it for the others.\<close>

definition set_str_cell :: "(nat \<Rightarrow> bool) \<Rightarrow> xrecord_type \<Rightarrow> bytes \<Rightarrow> cell \<Rightarrow> xrecord_status + cell" where
  "set_str_cell mem t str c =
     (let cstr = takeWhile (\<lambda>b. b \<noteq> 0) str
      in case t of
           XRECORD_STRING \<Rightarrow> set_string mem str c
         | XRECORD_FLOAT \<Rightarrow>
             (case strtod cstr of
                None \<Rightarrow> Inl XRECORD_TYPE_MISMATCH
              | Some (d, rest) \<Rightarrow>
                  if skip_blanks rest \<noteq> [] then Inl XRECORD_TYPE_MISMATCH
                  else case d of
                         Fin r \<Rightarrow> if r < - FLT_MAX \<or> r > FLT_MAX then Inl XRECORD_OUT_OF_RANGE
                                  else Inr (C_float (float_of r))
                       | _ \<Rightarrow> Inl XRECORD_TYPE_MISMATCH)
         | _ \<Rightarrow>
             (case parse_ll cstr of
                Inl e \<Rightarrow> Inl e
              | Inr v \<Rightarrow>
                  (case t of
                     XRECORD_INT8 \<Rightarrow> ranged_int 1 v
                   | XRECORD_INT16 \<Rightarrow> ranged_int 2 v
                   | XRECORD_INT32 \<Rightarrow> ranged_int 4 v
                   | XRECORD_INT \<Rightarrow> Inr (C_int 8 v)
                   | _ \<Rightarrow> Inr (C_bool (v \<noteq> 0)))))"

definition xrecord_set_str ::
  "(nat \<Rightarrow> bool) \<Rightarrow> u64 \<Rightarrow> bytes \<Rightarrow> bytes \<Rightarrow> xrecord \<Rightarrow> xrecord_status \<times> xrecord" where
  "xrecord_set_str mem rid name str s =
     (case locate rid name s of
        (Inl e, s) \<Rightarrow> (e, s)
      | (Inr (t, a), s) \<Rightarrow>
          (case set_str_cell mem t str (rp_pool s a) of
             Inl e \<Rightarrow> (e, s)
           | Inr c \<Rightarrow> (XRECORD_OK, s\<lparr>rp_pool := store a c (rp_pool s)\<rparr>)))"

section \<open>Introspection\<close>

definition xrecord_field_count :: "xrecord \<Rightarrow> nat" where
  "xrecord_field_count s = length (sc_fields (rp_schema s))"

definition xrecord_field_name :: "xrecord \<Rightarrow> int \<Rightarrow> bytes option" where
  "xrecord_field_name s idx =
     (if idx < 0 \<or> idx \<ge> int (length (sc_fields (rp_schema s))) then None
      else Some (fld_name (sc_fields (rp_schema s) ! nat idx)))"

definition xrecord_count :: "xrecord \<Rightarrow> nat" where
  "xrecord_count s = xhash_size (rp_ids s)"

definition xrecord_capacity :: "xrecord \<Rightarrow> nat" where
  "xrecord_capacity s = rp_capacity s"

fun visit_trampoline :: "(u64 \<Rightarrow> 'c \<Rightarrow> bool \<times> 'c) \<Rightarrow> xhashKey \<Rightarrow> ptr \<Rightarrow> 'c \<Rightarrow> bool \<times> 'c" where
  "visit_trampoline cb (KeyInt i) v ctx = cb i ctx"
| "visit_trampoline cb (KeyStr _) v ctx = (True, ctx)"

definition xrecord_foreach :: "xrecord \<Rightarrow> (u64 \<Rightarrow> 'c \<Rightarrow> bool \<times> 'c) \<Rightarrow> 'c \<Rightarrow> bool \<times> 'c" where
  "xrecord_foreach s cb ctx = xhash_foreach (rp_ids s) (visit_trampoline cb) ctx"

end
