(* ===== verification/XRecordInv.thy ===== *)
theory XRecordInv
  imports XRecord
begin

text \<open>
  The invariant of a record pool and its abstraction: a finite map from ids to records, a record
  a map from field names to values. No slot is lost or shared, and no field disturbs another.
\<close>

section \<open>Memory of a pool\<close>

abbreviation field_at :: "xrecord_schema \<Rightarrow> nat \<Rightarrow> field_t \<Rightarrow> nat" where
  "field_at sc slot f \<equiv> slot * elem_size sc + fld_offset f"

lemma field_apart:
  assumes "layout_ok sc" and "f \<in> set (sc_fields sc)" and "g \<in> set (sc_fields sc)"
    and "(i, f) \<noteq> (j, g)"
  shows "field_at sc i f + fsize f \<le> field_at sc j g \<or> field_at sc j g + fsize g \<le> field_at sc i f"
proof -
  have fit: "fld_offset f + fsize f \<le> elem_size sc" "fld_offset g + fsize g \<le> elem_size sc"
    using assms(1-3) by (auto simp: layout_ok_def)
  have row: "i * elem_size sc + elem_size sc \<le> j * elem_size sc" if "i < j" for i j
    using mult_le_mono1 [of "Suc i" j "elem_size sc"] that by simp
  consider "i < j" | "j < i" | "i = j" by linarith
  then show ?thesis
  proof cases
    case 1
    with row [of i j] fit show ?thesis by linarith
  next
    case 2
    with row [of j i] fit show ?thesis by linarith
  next
    case 3
    with assms(4) have "f \<noteq> g" by simp
    from assms(2,3) obtain k l where kl: "k < length (sc_fields sc)" "f = sc_fields sc ! k"
      "l < length (sc_fields sc)" "g = sc_fields sc ! l" by (auto simp: in_set_conv_nth)
    have L: "\<And>a b. a < b \<Longrightarrow> b < length (sc_fields sc) \<Longrightarrow>
        fld_offset (sc_fields sc ! a) + fsize (sc_fields sc ! a) \<le> fld_offset (sc_fields sc ! b)"
      using assms(1) by (auto simp: layout_ok_def)
    from \<open>f \<noteq> g\<close> kl have "k \<noteq> l" by blast
    then have "k < l \<or> l < k" by linarith
    with L [of k l] L [of l k] kl 3 show ?thesis by auto
  qed
qed

lemma store_same [simp]: "store a c m a = c"
  by (simp add: store_def)

lemma store_other:
  "a + n \<le> b \<or> b + k \<le> a \<Longrightarrow> cell_bytes c \<le> n \<Longrightarrow> cell_bytes (m b) \<le> k \<Longrightarrow> 0 < n \<Longrightarrow> 0 < k \<Longrightarrow>
     store a c m b = m b"
  by (auto simp: store_def)

definition cells_ok :: "xrecord_schema \<Rightarrow> nat \<Rightarrow> cells \<Rightarrow> bool" where
  "cells_ok sc cap m \<longleftrightarrow> (\<forall>slot < cap. \<forall>f \<in> set (sc_fields sc). cell_bytes (m (field_at sc slot f)) \<le> fsize f)"

lemma cells_okD:
  "cells_ok sc cap m \<Longrightarrow> slot < cap \<Longrightarrow> f \<in> set (sc_fields sc) \<Longrightarrow> cell_bytes (m (field_at sc slot f)) \<le> fsize f"
  by (simp add: cells_ok_def)

text \<open>Storing an object that fits its field changes this field only.\<close>

lemma store_field:
  assumes "layout_ok sc" and "cells_ok sc cap m" and "slot < cap" and "f \<in> set (sc_fields sc)"
    and "cell_bytes c \<le> fsize f"
  shows "cells_ok sc cap (store (field_at sc slot f) c m)"
    and "j < cap \<Longrightarrow> g \<in> set (sc_fields sc) \<Longrightarrow>
      store (field_at sc slot f) c m (field_at sc j g) = (if (j, g) = (slot, f) then c else m (field_at sc j g))"
proof -
  have S: "store (field_at sc slot f) c m (field_at sc j g) = (if (j, g) = (slot, f) then c else m (field_at sc j g))"
    if "j < cap" "g \<in> set (sc_fields sc)" for j g
  proof (cases "(j, g) = (slot, f)")
    case False
    then have "(slot, f) \<noteq> (j, g)" by auto
    from field_apart [OF assms(1,4) that(2) this] have
      "store (field_at sc slot f) c m (field_at sc j g) = m (field_at sc j g)"
      by (rule store_other)
        (use assms(5) cells_okD [OF assms(2) that] field_type_size_bounds(1) in simp_all)
    with False show ?thesis by auto
  qed simp
  then show "j < cap \<Longrightarrow> g \<in> set (sc_fields sc) \<Longrightarrow>
      store (field_at sc slot f) c m (field_at sc j g) = (if (j, g) = (slot, f) then c else m (field_at sc j g))"
    by blast
  show "cells_ok sc cap (store (field_at sc slot f) c m)"
    unfolding cells_ok_def
  proof (intro allI impI ballI)
    fix j g
    assume "j < cap" "g \<in> set (sc_fields sc)"
    with S [of j g] assms(5) cells_okD [OF assms(2), of j g]
    show "cell_bytes (store (field_at sc slot f) c m (field_at sc j g)) \<le> fsize g" by (auto split: if_splits)
  qed
qed

lemma zero_cell_bytes [simp]: "cell_bytes (zero_cell t c) = field_type_size t"
  by (cases t) simp_all

lemma zero_fields_spec:
  assumes "layout_ok sc" and "slot < cap" and "set fs \<subseteq> set (sc_fields sc)" and "distinct fs"
    and "cells_ok sc cap m"
  shows "cells_ok sc cap (zero_fields (slot * elem_size sc) fs m)
    \<and> (\<forall>j < cap. \<forall>g \<in> set (sc_fields sc). zero_fields (slot * elem_size sc) fs m (field_at sc j g)
        = (if j = slot \<and> g \<in> set fs then zero_cell (fld_type g) (m (field_at sc j g)) else m (field_at sc j g)))"
  using assms(3-)
proof (induction fs arbitrary: m)
  case Nil
  then show ?case by (simp add: zero_fields_def)
next
  case (Cons f fs)
  let ?c = "zero_cell (fld_type f) (m (field_at sc slot f))"
  let ?m = "store (field_at sc slot f) ?c m"
  have f: "f \<in> set (sc_fields sc)" using Cons.prems(1) by simp
  note S = store_field [OF assms(1) Cons.prems(3) assms(2) f, of ?c, simplified]
  have step: "zero_fields (slot * elem_size sc) (f # fs) m = zero_fields (slot * elem_size sc) fs ?m"
    by (simp add: zero_fields_def)
  have I: "cells_ok sc cap (zero_fields (slot * elem_size sc) fs ?m)"
    "\<And>j g. j < cap \<Longrightarrow> g \<in> set (sc_fields sc) \<Longrightarrow> zero_fields (slot * elem_size sc) fs ?m (field_at sc j g)
        = (if j = slot \<and> g \<in> set fs then zero_cell (fld_type g) (?m (field_at sc j g)) else ?m (field_at sc j g))"
    using Cons.IH [OF _ _ S(1)] Cons.prems(1,2) by auto
  have nin: "f \<notin> set fs" using Cons.prems(2) by simp
  show ?case
    unfolding step
    using I S(2) nin by auto
qed

section \<open>The invariant\<close>

definition used_slots :: "xrecord \<Rightarrow> nat set" where
  "used_slots s = {slot. Suc slot \<in> ran (int_abs (rp_ids s))}"

definition rec_inv :: "xrecord \<Rightarrow> bool" where
  "rec_inv s \<longleftrightarrow> layout_ok (rp_schema s) \<and> rp_elem_size s = elem_size (rp_schema s)
     \<and> int_inv (rp_ids s) \<and> xhash_size (rp_ids s) \<le> 2 ^ 31 \<and> 0 < rp_capacity s \<and> rp_capacity s < 2 ^ 32
     \<and> (\<forall>k v. int_abs (rp_ids s) k = Some v \<longrightarrow> 0 < v \<and> v \<le> rp_capacity s)
     \<and> (\<forall>k l v. int_abs (rp_ids s) k = Some v \<and> int_abs (rp_ids s) l = Some v \<longrightarrow> k = l)
     \<and> distinct (rp_free s) \<and> set (rp_free s) = {slot. slot < rp_capacity s} - used_slots s
     \<and> (rp_cache_valid s \<longrightarrow> int_abs (rp_ids s) (rp_cached_id s) = Some (Suc (rp_cached_slot s)))
     \<and> cells_ok (rp_schema s) (rp_capacity s) (rp_pool s)"

lemma rec_invD:
  assumes "rec_inv s"
  shows "layout_ok (rp_schema s)" and "rp_elem_size s = elem_size (rp_schema s)" and "int_inv (rp_ids s)"
    and "0 < rp_capacity s" and "rp_capacity s < 2 ^ 32"
    and "int_abs (rp_ids s) k = Some v \<Longrightarrow> 0 < v \<and> v \<le> rp_capacity s"
    and "int_abs (rp_ids s) k = Some v \<Longrightarrow> int_abs (rp_ids s) l = Some v \<Longrightarrow> k = l"
    and "distinct (rp_free s)" and "set (rp_free s) = {slot. slot < rp_capacity s} - used_slots s"
    and "rp_cache_valid s \<Longrightarrow> int_abs (rp_ids s) (rp_cached_id s) = Some (Suc (rp_cached_slot s))"
    and "cells_ok (rp_schema s) (rp_capacity s) (rp_pool s)" and "xhash_size (rp_ids s) \<le> 2 ^ 31"
  using assms unfolding rec_inv_def by blast+

text \<open>Every slot is free or used by one id.\<close>

lemma used_slots_sub: "rec_inv s \<Longrightarrow> used_slots s \<subseteq> {slot. slot < rp_capacity s}"
  using rec_invD(6) [of s] by (fastforce simp: used_slots_def ran_def)

lemma card_used_slots:
  assumes "rec_inv s"
  shows "card (used_slots s) = xhash_size (rp_ids s)"
proof -
  note I = rec_invD [OF assms]
  let ?m = "int_abs (rp_ids s)"
  have "Suc ` used_slots s = ran ?m"
  proof
    show "ran ?m \<subseteq> Suc ` used_slots s"
    proof
      fix v
      assume v: "v \<in> ran ?m"
      then obtain k where "?m k = Some v" by (auto simp: ran_def)
      from I(6) [OF this] obtain u where "v = Suc u" by (cases v) auto
      with v show "v \<in> Suc ` used_slots s" by (auto simp: used_slots_def)
    qed
  qed (auto simp: used_slots_def)
  then have "card (used_slots s) = card (ran ?m)" by (intro bij_betw_same_card [of Suc]) (simp add: bij_betw_def)
  moreover have "card (ran ?m) = card (dom ?m)"
  proof -
    have "inj_on ?m (dom ?m)" using I(7) by (auto intro!: inj_onI)
    then have "card (?m ` dom ?m) = card (dom ?m)" by (rule card_image)
    moreover have "?m ` dom ?m = Some ` ran ?m" by (force simp: ran_def image_iff)
    ultimately show ?thesis by (simp add: card_image)
  qed
  ultimately show ?thesis using ih.entries_law [OF I(3)] by simp
qed

lemma slots_count:
  assumes "rec_inv s"
  shows "length (rp_free s) + xhash_size (rp_ids s) = rp_capacity s"
proof -
  note I = rec_invD [OF assms] and sub = used_slots_sub [OF assms]
  have "finite (used_slots s)" using sub finite_subset by blast
  then have "card ({slot. slot < rp_capacity s} - used_slots s) = rp_capacity s - card (used_slots s)"
    using sub by (simp add: card_Diff_subset)
  moreover have "card (used_slots s) \<le> rp_capacity s" using card_mono [OF _ sub] by simp
  moreover have "length (rp_free s) = card (set (rp_free s))" using distinct_card [OF I(8)] by simp
  ultimately show ?thesis unfolding I(9) card_used_slots [OF assms] by simp
qed

text \<open>Which value a field of a slot has, and the abstraction.\<close>

type_synonym arecord = "bytes \<Rightarrow> xrecord_value option option"

definition slot_record :: "xrecord_schema \<Rightarrow> cells \<Rightarrow> nat \<Rightarrow> arecord" where
  "slot_record sc m slot name =
     map_option (\<lambda>f. read_cell (fld_type f) (m (field_at sc slot f))) (find_field sc name)"

definition rec_abs :: "xrecord \<Rightarrow> u64 \<rightharpoonup> arecord" where
  "rec_abs s k = map_option (\<lambda>v. slot_record (rp_schema s) (rp_pool s) (v - 1)) (int_abs (rp_ids s) k)"

lemma find_field_Some: "find_field sc name = Some f \<Longrightarrow> f \<in> set (sc_fields sc) \<and> fld_name f = name"
  by (auto simp: find_field_def find_Some_iff)

lemma slot_record_cong:
  "(\<And>f. f \<in> set (sc_fields sc) \<Longrightarrow> m' (field_at sc slot f) = m (field_at sc slot f)) \<Longrightarrow>
     slot_record sc m' slot = slot_record sc m slot"
proof
  fix name
  assume A: "\<And>f. f \<in> set (sc_fields sc) \<Longrightarrow> m' (field_at sc slot f) = m (field_at sc slot f)"
  show "slot_record sc m' slot name = slot_record sc m slot name"
    using A find_field_Some [of sc name] by (cases "find_field sc name") (auto simp: slot_record_def)
qed

section \<open>Looking up\<close>

lemma lookup_slot_spec:
  assumes "rec_inv s" and "lookup_slot k s = (r, s')"
  shows "rec_inv s' \<and> rec_abs s' = rec_abs s \<and> rp_pool s' = rp_pool s \<and> rp_schema s' = rp_schema s
    \<and> rp_capacity s' = rp_capacity s \<and> rp_ids s' = rp_ids s \<and> rp_free s' = rp_free s
    \<and> (case int_abs (rp_ids s) k of None \<Rightarrow> r = None
       | Some v \<Rightarrow> r = Some (v - 1) \<and> v - 1 < rp_capacity s \<and> 0 < v)"
proof -
  note I = rec_invD [OF assms(1)]
  have get: "xhash_get_int (rp_ids s) k = (case int_abs (rp_ids s) k of Some v \<Rightarrow> v | None \<Rightarrow> 0)"
    by (rule ih.fetch_law [OF I(3)])
  show ?thesis
  proof (cases "rp_cache_valid s \<and> rp_cached_id s = k")
    case True
    with I(10) have "int_abs (rp_ids s) k = Some (Suc (rp_cached_slot s))" by simp
    with True assms I(6) [OF this] show ?thesis by (auto simp: lookup_slot_def)
  next
    case False
    show ?thesis
    proof (cases "int_abs (rp_ids s) k")
      case None
      with False assms get show ?thesis by (auto simp: lookup_slot_def)
    next
      case (Some v)
      note v = I(6) [OF Some]
      have "v - 1 \<le> v" by simp
      also have "v \<le> rp_capacity s" using v by simp
      also note I(5)
      finally have "v - 1 < 2 ^ 32" .
      then have mod: "(v - 1) mod 2 ^ 32 = v - 1" by (rule mod_less)
      have g: "xhash_get_int (rp_ids s) k = v" using get Some by simp
      have "\<not> (rp_cache_valid s \<and> rp_cached_id s = k)" "v \<noteq> 0" using False v by simp_all
      with assms(2) have r: "r = Some (v - 1)"
        "s' = s\<lparr>rp_cached_id := k, rp_cached_slot := v - 1, rp_cache_valid := True\<rparr>"
        unfolding lookup_slot_def g Let_def mod by simp_all
      have sv: "Suc (v - 1) = v" using v by simp
      have "rec_inv s'" using assms(1) Some sv unfolding r(2) rec_inv_def by (simp add: used_slots_def)
      moreover have "rec_abs s' = rec_abs s" unfolding r(2) by (simp add: rec_abs_def fun_eq_iff)
      ultimately show ?thesis using r Some v by auto
    qed
  qed
qed

section \<open>Writing a field\<close>

lemma locate_spec:
  assumes "rec_inv s" and "locate k name s = (r, s')"
  shows "rec_inv s' \<and> rec_abs s' = rec_abs s \<and> rp_pool s' = rp_pool s \<and> rp_schema s' = rp_schema s
    \<and> rp_ids s' = rp_ids s \<and> rp_capacity s' = rp_capacity s
    \<and> (case int_abs (rp_ids s) k of
         None \<Rightarrow> r = Inl XRECORD_NOTFOUND
       | Some v \<Rightarrow> (case find_field (rp_schema s) name of
            None \<Rightarrow> r = Inl XRECORD_NOFIELD
          | Some f \<Rightarrow> r = Inr (fld_type f, field_at (rp_schema s) (v - 1) f)
              \<and> v - 1 < rp_capacity s \<and> 0 < v \<and> f \<in> set (sc_fields (rp_schema s)) \<and> fld_name f = name))"
proof -
  obtain q s1 where L: "lookup_slot k s = (q, s1)" by fastforce
  note S = lookup_slot_spec [OF assms(1) L]
  show ?thesis
    using S assms(2) L find_field_Some
    by (auto simp: locate_def split: option.splits)
qed

lemma rec_abs_locate:
  assumes "int_abs (rp_ids s) k = Some v" and "find_field (rp_schema s) name = Some f"
  shows "\<exists>r. rec_abs s k = Some r \<and> r name = Some (read_cell (fld_type f) (rp_pool s (field_at (rp_schema s) (v - 1) f)))"
  using assms by (auto simp: rec_abs_def slot_record_def)

lemma store_abs:
  assumes "rec_inv s" and "int_abs (rp_ids s) k = Some v" and "find_field (rp_schema s) name = Some f"
    and "cell_bytes c \<le> fsize f"
  defines "a \<equiv> field_at (rp_schema s) (v - 1) f"
  shows "rec_inv (s\<lparr>rp_pool := store a c (rp_pool s)\<rparr>)"
    and "rec_abs s k = Some r \<Longrightarrow> rec_abs (s\<lparr>rp_pool := store a c (rp_pool s)\<rparr>)
      = (rec_abs s)(k \<mapsto> r(name \<mapsto> read_cell (fld_type f) c))"
proof -
  note I = rec_invD [OF assms(1)]
  note v = I(6) [OF assms(2)]
  have f: "f \<in> set (sc_fields (rp_schema s))" "fld_name f = name"
    using find_field_Some [OF assms(3)] by simp_all
  have lt: "v - 1 < rp_capacity s" using v by auto
  note S = store_field [OF I(1,11) lt f(1) assms(4), folded a_def]
  let ?s = "s\<lparr>rp_pool := store a c (rp_pool s)\<rparr>"
  show "rec_inv ?s" using assms(1) S(1) by (simp add: rec_inv_def used_slots_def)
  show "rec_abs ?s = (rec_abs s)(k \<mapsto> r(name \<mapsto> read_cell (fld_type f) c))" if r: "rec_abs s k = Some r"
  proof
    fix l
    show "rec_abs ?s l = ((rec_abs s)(k \<mapsto> r(name \<mapsto> read_cell (fld_type f) c))) l"
    proof (cases "int_abs (rp_ids s) l")
      case None
      with assms(2) show ?thesis by (auto simp: rec_abs_def)
    next
      case (Some w)
      note w = I(6) [OF Some]
      then have wlt: "w - 1 < rp_capacity s" by auto
      show ?thesis
      proof (cases "l = k")
        case False
        with I(7) [OF assms(2), of l] Some have "w \<noteq> v" by auto
        then have "w - 1 \<noteq> v - 1" using v w by linarith
        then have "slot_record (rp_schema s) (store a c (rp_pool s)) (w - 1)
            = slot_record (rp_schema s) (rp_pool s) (w - 1)"
          using S(2) [OF wlt] by (intro slot_record_cong) auto
        with False Some show ?thesis by (simp add: rec_abs_def)
      next
        case True
        then have wv: "w = v" using Some assms(2) by simp
        have "slot_record (rp_schema s) (store a c (rp_pool s)) (v - 1)
            = (slot_record (rp_schema s) (rp_pool s) (v - 1))(name \<mapsto> read_cell (fld_type f) c)"
        proof
          fix n
          show "slot_record (rp_schema s) (store a c (rp_pool s)) (v - 1) n
            = ((slot_record (rp_schema s) (rp_pool s) (v - 1))(name \<mapsto> read_cell (fld_type f) c)) n"
          proof (cases "find_field (rp_schema s) n")
            case None
            with assms(3) show ?thesis by (auto simp: slot_record_def)
          next
            case (Some g)
            from find_field_Some [OF Some] S(2) [OF lt, of g] Some assms(3) f show ?thesis
              by (auto simp: slot_record_def)
          qed
        qed
        with r True wv assms(2) show ?thesis by (simp add: rec_abs_def)
      qed
    qed
  qed
qed

section \<open>Growing, binding, unbinding\<close>

text \<open>A pool grows when every slot is used, so with fewer than \<open>2 ^ 31\<close> ids it keeps fewer than \<open>2 ^ 32\<close>
  slots and their numbers fit the 32 bits of the free stack.\<close>

lemma zeroed_cells_ok:
  assumes "cells_ok sc cap m"
  shows "cells_ok sc cap (\<lambda>x. if lo \<le> x \<and> x < hi then C_zero else m x)"
  using assms field_type_size_bounds(1) by (fastforce simp: cells_ok_def Suc_le_eq)

lemma grow_pool_spec:
  assumes "rec_inv s" and "xhash_size (rp_ids s) < 2 ^ 31" and "rp_free s = []" and "grow_pool mem s = (st, s')"
  shows "rec_inv s' \<and> rec_abs s' = rec_abs s \<and> rp_ids s' = rp_ids s \<and> rp_schema s' = rp_schema s
    \<and> (st = XRECORD_OK \<and> rp_free s' \<noteq> [] \<or> st = XRECORD_NOMEM)"
proof -
  note I = rec_invD [OF assms(1)]
  let ?sc = "rp_schema s" and ?old = "rp_capacity s"
  let ?es = "elem_size ?sc"
  have new: "?old * 2 mod 2 ^ 64 = ?old * 2" using I(5) by (intro mod_less) simp
  let ?m = "\<lambda>x. if ?old * ?es \<le> x \<and> x < ?old * 2 * ?es then C_zero else rp_pool s x"
  let ?s1 = "s\<lparr>rp_pool := ?m\<rparr>"
  have kept: "?m (field_at ?sc j f) = rp_pool s (field_at ?sc j f)"
    if "j < ?old" "f \<in> set (sc_fields ?sc)" for j f
  proof -
    have "fld_offset f + fsize f \<le> ?es" using I(1) that(2) by (auto simp: layout_ok_def)
    moreover have "j * ?es + ?es \<le> ?old * ?es" using mult_le_mono1 [of "Suc j" ?old ?es] that(1) by simp
    moreover have "0 < fsize f" by (rule field_type_size_bounds)
    ultimately show ?thesis by simp
  qed
  have inv1: "rec_inv ?s1"
    using assms(1) zeroed_cells_ok [OF I(11)] by (simp add: rec_inv_def used_slots_def)
  have abs1: "rec_abs ?s1 = rec_abs s"
  proof
    fix k
    show "rec_abs ?s1 k = rec_abs s k"
    proof (cases "int_abs (rp_ids s) k")
      case (Some v)
      with I(6) [OF Some] have "slot_record ?sc ?m (v - 1) = slot_record ?sc (rp_pool s) (v - 1)"
        by (intro slot_record_cong kept) auto
      with Some show ?thesis by (simp add: rec_abs_def)
    qed (simp add: rec_abs_def)
  qed
  show ?thesis
  proof (cases "mem (?old * 2 * ?es mod 2 ^ 64)")
    case False
    with assms(4) new I(2) have "st = XRECORD_NOMEM" "s' = s" by (simp_all add: grow_pool_def Let_def)
    with assms(1) show ?thesis by simp
  next
    case m1: True
    show ?thesis
    proof (cases "mem (?old * 2 * 4 mod 2 ^ 64)")
      case False
      with assms(4) new I(2) m1 have "st = XRECORD_NOMEM" "s' = ?s1" by (simp_all add: grow_pool_def Let_def)
      with inv1 abs1 show ?thesis by simp
    next
      case True
      have b: "?old * 2 < 2 ^ 32" using slots_count [OF assms(1)] assms(2,3) by simp
      have "map (\<lambda>i. i mod 2 ^ 32) [?old..<?old * 2] = [?old..<?old * 2]"
        using b by (intro map_idI mod_less) simp
      with assms(3,4) new I(2) m1 True have s': "st = XRECORD_OK"
        "s' = ?s1\<lparr>rp_free := [?old..<?old * 2], rp_capacity := ?old * 2\<rparr>"
        by (simp_all add: grow_pool_def Let_def)
      have used: "used_slots s = {slot. slot < ?old}"
      proof
        show "used_slots s \<subseteq> {slot. slot < ?old}"
          using I(6) by (fastforce simp: used_slots_def ran_def)
        show "{slot. slot < ?old} \<subseteq> used_slots s" using I(9) assms(3) by auto
      qed
      have "cells_ok ?sc (?old * 2) ?m"
        unfolding cells_ok_def
      proof (intro allI impI ballI)
        fix j f
        assume jf: "j < ?old * 2" "f \<in> set (sc_fields ?sc)"
        show "cell_bytes (?m (field_at ?sc j f)) \<le> fsize f"
        proof (cases "j < ?old")
          case True
          with kept jf cells_okD [OF I(11)] show ?thesis by simp
        next
          case False
          then have "?old * ?es \<le> j * ?es" by simp
          then have lo: "?old * ?es \<le> field_at ?sc j f" by linarith
          have "fld_offset f < ?es"
            using I(1) jf(2) field_type_size_bounds(1) [of "fld_type f"] by (auto simp: layout_ok_def)
          moreover have "j * ?es + ?es \<le> ?old * 2 * ?es" using mult_le_mono1 [of "Suc j" "?old * 2" ?es] jf(1) by simp
          ultimately have "field_at ?sc j f < ?old * 2 * ?es" by linarith
          with lo have "?m (field_at ?sc j f) = C_zero" by simp
          then show ?thesis using field_type_size_bounds(1) [of "fld_type f"] by (simp add: Suc_le_eq)
        qed
      qed
      moreover have "{slot. slot < ?old * 2} - {slot. slot < ?old} = set [?old..<?old * 2]" by auto
      moreover have "\<forall>k v. int_abs (rp_ids s) k = Some v \<longrightarrow> 0 < v \<and> v \<le> ?old * 2" using I(6) by fastforce
      ultimately have "rec_inv s'"
        using inv1 b used I(4) unfolding s'(2) rec_inv_def by (simp add: used_slots_def)
      moreover have "rec_abs s' = rec_abs s" using abs1 unfolding s'(2) by (simp add: rec_abs_def fun_eq_iff)
      moreover have "rp_free s' \<noteq> []" using I(4) s'(2) by simp
      ultimately show ?thesis using s' by simp
    qed
  qed
qed

end
