(* ===== verification/XRecordOps.thy ===== *)
theory XRecordOps
  imports XRecordInv
begin

text \<open>
  Every operation of a pool against the map of records: binding, unbinding, reading, writing, and
  whole runs of them.
\<close>

section \<open>Binding\<close>

fun zero_value :: "xrecord_type \<Rightarrow> xrecord_value" where
  "zero_value XRECORD_BOOL = V_BOOL 0"
| "zero_value XRECORD_STRING = V_STR []"
| "zero_value _ = V_NUM (Fin 0)"

definition zero_record :: "xrecord_schema \<Rightarrow> arecord" where
  "zero_record sc name = map_option (\<lambda>f. Some (zero_value (fld_type f))) (find_field sc name)"

lemma read_zero_cell: "read_cell t (zero_cell t c) = Some (zero_value t)"
  by (cases t) (simp_all add: double_of_def fl_round_def split: option.splits)

lemma slot_used_bound: "rec_inv s \<Longrightarrow> slot \<in> set (rp_free s) \<Longrightarrow> slot < rp_capacity s \<and> slot \<notin> used_slots s"
  using rec_invD(9) by blast

lemma fields_distinct: "layout_ok sc \<Longrightarrow> distinct (sc_fields sc)"
  by (auto simp: layout_ok_def distinct_map)

text \<open>Zeroing the fields of a free slot.\<close>

lemma zero_free_slot:
  assumes "rec_inv s" and "slot \<in> set (rp_free s)"
  defines "m \<equiv> zero_fields (slot * elem_size (rp_schema s)) (sc_fields (rp_schema s)) (rp_pool s)"
  shows "rec_inv (s\<lparr>rp_pool := m\<rparr>) \<and> rec_abs (s\<lparr>rp_pool := m\<rparr>) = rec_abs s
    \<and> slot_record (rp_schema s) m slot = zero_record (rp_schema s)"
proof -
  note I = rec_invD [OF assms(1)]
  note free = slot_used_bound [OF assms(1,2)]
  note Z = zero_fields_spec [OF I(1) free [THEN conjunct1] subset_refl fields_distinct [OF I(1)] I(11), folded m_def]
  have inv: "rec_inv (s\<lparr>rp_pool := m\<rparr>)" using assms(1) Z by (simp add: rec_inv_def used_slots_def)
  have abs: "rec_abs (s\<lparr>rp_pool := m\<rparr>) k = rec_abs s k" for k
  proof (cases "int_abs (rp_ids s) k")
    case (Some v)
    note v = I(6) [OF Some]
    then have "Suc (v - 1) = v" by simp
    with Some have "v - 1 \<in> used_slots s" by (auto simp: used_slots_def ran_def)
    with free have ne: "v - 1 \<noteq> slot" by blast
    have "slot_record (rp_schema s) m (v - 1) = slot_record (rp_schema s) (rp_pool s) (v - 1)"
    proof (rule slot_record_cong)
      fix f
      assume "f \<in> set (sc_fields (rp_schema s))"
      moreover have "v - 1 < rp_capacity s" using v by auto
      ultimately show "m (field_at (rp_schema s) (v - 1) f) = rp_pool s (field_at (rp_schema s) (v - 1) f)"
        using Z ne by simp
    qed
    with Some show ?thesis by (simp add: rec_abs_def)
  qed (simp add: rec_abs_def)
  have "slot_record (rp_schema s) m slot name = zero_record (rp_schema s) name" for name
    using Z free find_field_Some [of "rp_schema s" name] read_zero_cell
    by (cases "find_field (rp_schema s) name") (auto simp: slot_record_def zero_record_def)
  with inv abs show ?thesis by blast
qed

lemma bind_spec:
  assumes "rec_inv s" and "xhash_size (rp_ids s) < 2 ^ 31" and "xrecord_bind mem hok k s = (st, s')"
  shows "rec_inv s' \<and> rp_schema s' = rp_schema s
    \<and> (if k \<in> dom (rec_abs s) then st = XRECORD_EXISTS \<and> rec_abs s' = rec_abs s
       else st = XRECORD_OK \<and> rec_abs s' = (rec_abs s)(k \<mapsto> zero_record (rp_schema s))
         \<or> st = XRECORD_NOMEM \<and> rec_abs s' = rec_abs s)"
proof -
  note I = rec_invD [OF assms(1)]
  have get: "xhash_get_int (rp_ids s) k = (case int_abs (rp_ids s) k of Some v \<Rightarrow> v | None \<Rightarrow> 0)"
    by (rule ih.fetch_law [OF I(3)])
  show ?thesis
  proof (cases "int_abs (rp_ids s) k")
    case (Some v)
    with get I(6) [OF Some] assms(3) have "st = XRECORD_EXISTS" "s' = s" by (auto simp: xrecord_bind_def)
    with assms(1) Some show ?thesis by (auto simp: rec_abs_def)
  next
    case None
    obtain st1 s1 where G: "(if rp_free s = [] then grow_pool mem s else (XRECORD_OK, s)) = (st1, s1)" by fastforce
    have g: "rec_inv s1 \<and> rec_abs s1 = rec_abs s \<and> rp_ids s1 = rp_ids s \<and> rp_schema s1 = rp_schema s
        \<and> (st1 = XRECORD_OK \<and> rp_free s1 \<noteq> [] \<or> st1 = XRECORD_NOMEM)"
    proof (cases "rp_free s = []")
      case True
      with G grow_pool_spec [OF assms(1,2) True, of mem st1 s1] show ?thesis by simp
    next
      case False
      with G assms(1) show ?thesis by auto
    qed
    have kd: "k \<notin> dom (rec_abs s)" using None by (auto simp: rec_abs_def)
    show ?thesis
    proof (cases "st1 = XRECORD_OK")
      case False
      with assms(3) None get G have "st = st1" "s' = s1" by (auto simp: xrecord_bind_def)
      with g False kd show ?thesis by auto
    next
      case True
      with g have ne: "rp_free s1 \<noteq> []" by auto
      define slot where "slot = last (rp_free s1)"
      have slot: "slot \<in> set (rp_free s1)" using ne by (simp add: slot_def)
      from g have inv1: "rec_inv s1" by simp
      note free = slot_used_bound [OF inv1 slot] and J = rec_invD [OF inv1]
      define m where "m = zero_fields (slot * elem_size (rp_schema s1)) (sc_fields (rp_schema s1)) (rp_pool s1)"
      note Z = zero_free_slot [OF inv1 slot, folded m_def]
      have mod: "(slot + 1) mod 2 ^ 32 = Suc slot" using free J(5) by simp
      obtain r h where H: "xhash_set_int hok (rp_ids s1) k (Suc slot) = (r, h)" by fastforce
      note P = ih.put_law [OF J(3) H]
      have run: "(st, s') = (if r
         then (XRECORD_OK, s1\<lparr>rp_pool := m, rp_ids := h, rp_free := butlast (rp_free s1), rp_cached_id := k,
              rp_cached_slot := slot, rp_cache_valid := True\<rparr>)
         else (XRECORD_NOMEM, s1\<lparr>rp_pool := m, rp_ids := h\<rparr>))"
        using assms(3) None get G True mod H
        by (auto simp: xrecord_bind_def Let_def slot_def m_def split: bool.splits)
      show ?thesis
      proof (cases r)
        case False
        with run P have "st = XRECORD_NOMEM" "s' = s1\<lparr>rp_pool := m\<rparr>" by simp_all
        with Z g kd show ?thesis by simp
      next
        case T: True
        with P have h: "int_inv h" "int_abs h = (int_abs (rp_ids s1))(k \<mapsto> Suc slot)" by simp_all
        from T run have s': "st = XRECORD_OK" "s' = s1\<lparr>rp_pool := m, rp_ids := h, rp_free := butlast (rp_free s1),
            rp_cached_id := k, rp_cached_slot := slot, rp_cache_valid := True\<rparr>" by simp_all
        have kn: "int_abs (rp_ids s1) k = None" using None g by simp
        have few: "xhash_size h \<le> 2 ^ 31" using ih.put_entries [OF J(3) H] g assms(2) by simp
        have fr: "distinct (butlast (rp_free s1))" "set (butlast (rp_free s1)) = set (rp_free s1) - {slot}"
        proof -
          have "rp_free s1 = butlast (rp_free s1) @ [slot]" using ne by (simp add: slot_def)
          with J(8) show "distinct (butlast (rp_free s1))" "set (butlast (rp_free s1)) = set (rp_free s1) - {slot}"
            by (metis distinct_append, metis Diff_insert_absorb Un_insert_right append_Nil2 distinct1_rotate distinct.simps(2) list.simps(15) rotate1.simps(2) set_append sup_bot.right_neutral)
        qed
        have used: "used_slots s' = insert slot (used_slots s1)"
          using kn by (auto simp: used_slots_def s'(2) h(2))
        have nused: "int_abs (rp_ids s1) l \<noteq> Some (Suc slot)" for l
          using free by (auto simp: used_slots_def ran_def)
        have "rec_inv s'"
          unfolding rec_inv_def
        proof (intro conjI allI impI)
          show "set (rp_free s') = {slot. slot < rp_capacity s'} - used_slots s'"
            using J(9) fr(2) used by (auto simp: s'(2))
          show "cells_ok (rp_schema s') (rp_capacity s') (rp_pool s')"
            using rec_invD(11) [of "s1\<lparr>rp_pool := m\<rparr>"] Z by (simp add: s'(2))
          fix l v
          assume "int_abs (rp_ids s') l = Some v"
          then show "0 < v" "v \<le> rp_capacity s'"
            using J(6) free by (auto simp: s'(2) h(2) split: if_splits)
        next
          fix l l' v
          assume "int_abs (rp_ids s') l = Some v \<and> int_abs (rp_ids s') l' = Some v"
          then show "l = l'"
            using J(7) nused by (auto simp: s'(2) h(2) split: if_splits)
        qed (use J h fr few in \<open>simp_all add: s'(2)\<close>)
        moreover have "rec_abs s' = (rec_abs s)(k \<mapsto> zero_record (rp_schema s))"
        proof
          fix l
          show "rec_abs s' l = ((rec_abs s)(k \<mapsto> zero_record (rp_schema s))) l"
          proof (cases "l = k")
            case True
            with Z g show ?thesis by (simp add: rec_abs_def s'(2) h(2))
          next
            case False
            then have "rec_abs s' l = rec_abs (s1\<lparr>rp_pool := m\<rparr>) l" by (simp add: rec_abs_def s'(2) h(2))
            also have "\<dots> = rec_abs s l" using Z g by simp
            finally show ?thesis using False by simp
          qed
        qed
        ultimately show ?thesis using s' g kd by simp
      qed
    qed
  qed
qed

lemma unbind_spec:
  assumes "rec_inv s" and "xrecord_unbind k s = (st, s')"
  shows "rec_inv s' \<and> rp_schema s' = rp_schema s \<and> rec_abs s' = (rec_abs s)(k := None)
    \<and> st = (if k \<in> dom (rec_abs s) then XRECORD_OK else XRECORD_NOTFOUND)"
proof -
  obtain r s1 where L: "lookup_slot k s = (r, s1)" by fastforce
  note S = lookup_slot_spec [OF assms(1) L]
  then have inv1: "rec_inv s1" by simp
  note J = rec_invD [OF inv1]
  show ?thesis
  proof (cases "int_abs (rp_ids s) k")
    case None
    with S have "r = None" by simp
    with assms(2) L have "st = XRECORD_NOTFOUND" "s' = s1" by (simp_all add: xrecord_unbind_def)
    with S None show ?thesis by (auto simp: rec_abs_def fun_eq_iff)
  next
    case (Some v)
    with S have r: "r = Some (v - 1)" "v - 1 < rp_capacity s1" "0 < v" "rp_ids s1 = rp_ids s" by simp_all
    obtain b h where H: "xhash_remove_int (rp_ids s1) k = (b, h)" by fastforce
    have few: "xhash_size h \<le> 2 ^ 31" using ih.del_entries [OF J(3,12) H] J(12) by simp
    from ih.del_law [OF J(3,12) H] have h: "int_inv h" "int_abs h = (int_abs (rp_ids s1))(k := None)" by simp_all
    define valid where "valid = (rp_cache_valid s1 \<and> rp_cached_id s1 \<noteq> k)"
    have s': "st = XRECORD_OK"
      "s' = s1\<lparr>rp_ids := h, rp_free := rp_free s1 @ [v - 1], rp_cache_valid := valid\<rparr>"
      using assms(2) L r(1) H by (auto simp: xrecord_unbind_def Let_def valid_def)
    have sv: "Suc (v - 1) = v" using r(3) by simp
    have kv: "int_abs (rp_ids s1) k = Some v" using Some r(4) by simp
    have used: "used_slots s' = used_slots s1 - {v - 1}"
    proof
      show "used_slots s' \<subseteq> used_slots s1 - {v - 1}"
        using J(7) [OF kv] sv by (auto simp: used_slots_def s'(2) h(2) ran_def split: if_splits)
      show "used_slots s1 - {v - 1} \<subseteq> used_slots s'"
      proof
        fix slot
        assume "slot \<in> used_slots s1 - {v - 1}"
        then obtain l where "int_abs (rp_ids s1) l = Some (Suc slot)" "slot \<noteq> v - 1"
          by (auto simp: used_slots_def ran_def)
        moreover from this kv sv have "l \<noteq> k" by auto
        ultimately show "slot \<in> used_slots s'" by (auto simp: used_slots_def s'(2) h(2) ran_def)
      qed
    qed
    have vu: "v - 1 \<in> used_slots s1" using kv sv by (auto simp: used_slots_def ran_def)
    have "rec_inv s'"
      unfolding rec_inv_def
    proof (intro conjI allI impI)
      show "distinct (rp_free s')" using J(8,9) vu by (simp add: s'(2))
      show "set (rp_free s') = {slot. slot < rp_capacity s'} - used_slots s'"
        using J(9) used r(2) by (auto simp: s'(2))
      assume "rp_cache_valid s'"
      with J(10) show "int_abs (rp_ids s') (rp_cached_id s') = Some (Suc (rp_cached_slot s'))"
        by (auto simp: s'(2) h(2) valid_def)
    next
      fix l w
      assume "int_abs (rp_ids s') l = Some w"
      then show "0 < w" "w \<le> rp_capacity s'" using J(6) by (auto simp: s'(2) h(2) split: if_splits)
    next
      fix l l' w
      assume "int_abs (rp_ids s') l = Some w \<and> int_abs (rp_ids s') l' = Some w"
      then show "l = l'" using J(7) by (auto simp: s'(2) h(2) split: if_splits)
    qed (use J h few in \<open>simp_all add: s'(2)\<close>)
    moreover have "rec_abs s' = (rec_abs s)(k := None)"
    proof
      fix l
      have "rec_abs s1 l = rec_abs s l" using S by simp
      then show "rec_abs s' l = ((rec_abs s)(k := None)) l"
        by (simp add: rec_abs_def s'(2) h(2))
    qed
    ultimately show ?thesis using s' S Some by (auto simp: rec_abs_def)
  qed
qed

section \<open>Values\<close>

text \<open>What a value written to a field of a type reads back as, or the error: the contract of
  \<open>xrecord.h\<close> (narrowing is refused, never silent; of the length of a string 32 bits are kept).\<close>

definition accept_int :: "nat \<Rightarrow> dbl \<Rightarrow> xrecord_status + xrecord_value option" where
  "accept_int bits d =
     (case d of
        NaN \<Rightarrow> Inl XRECORD_TYPE_MISMATCH
      | PInf \<Rightarrow> Inl XRECORD_OUT_OF_RANGE
      | NInf \<Rightarrow> Inl XRECORD_OUT_OF_RANGE
      | Fin r \<Rightarrow>
          if r \<notin> \<int> then Inl XRECORD_TYPE_MISMATCH
          else if - (2 ^ (bits - 1)) \<le> r \<and> r < 2 ^ (bits - 1) then Inr (Some (V_NUM (Fin r)))
          else Inl XRECORD_OUT_OF_RANGE)"

definition accept_float :: "dbl \<Rightarrow> xrecord_status + xrecord_value option" where
  "accept_float d =
     (case d of
        Fin r \<Rightarrow> if \<bar>r\<bar> > FLT_MAX then Inl XRECORD_OUT_OF_RANGE else Inr (Some (V_NUM (Fin (float_of r))))
      | _ \<Rightarrow> Inl XRECORD_TYPE_MISMATCH)"

fun accept :: "xrecord_type \<Rightarrow> xrecord_value \<Rightarrow> xrecord_status + xrecord_value option" where
  "accept XRECORD_INT8 (V_NUM d) = accept_int 8 d"
| "accept XRECORD_INT16 (V_NUM d) = accept_int 16 d"
| "accept XRECORD_INT32 (V_NUM d) = accept_int 32 d"
| "accept XRECORD_INT (V_NUM d) =
     (case accept_int 64 d of
        Inr (Some (V_NUM (Fin r))) \<Rightarrow> Inr (Some (V_NUM (Fin (double_of r))))
      | res \<Rightarrow> res)"
| "accept XRECORD_FLOAT (V_NUM d) = accept_float d"
| "accept XRECORD_BOOL (V_BOOL b) = Inr (Some (V_BOOL (if b = 0 then 0 else 1)))"
| "accept XRECORD_STRING (V_STR bs) = Inr (Some (V_STR (take (length bs mod 2 ^ 32) bs)))"
| "accept _ _ = Inl XRECORD_TYPE_MISMATCH"

lemma Ints_floor: "(r :: rat) \<in> \<int> \<longleftrightarrow> r = of_int \<lfloor>r\<rfloor>"
  by (metis Ints_cases Ints_of_int floor_of_int)

lemma coerce_int_accept:
  assumes "0 < w"
  shows "coerce_int d (- (2 ^ (8 * w - 1))) (2 ^ (8 * w - 1) - 1)
     = (case accept_int (8 * w) d of
          Inl e \<Rightarrow> Inl e
        | Inr (Some (V_NUM (Fin r))) \<Rightarrow> Inr \<lfloor>r\<rfloor>
        | Inr _ \<Rightarrow> Inr 0)"
proof (cases d)
  case (Fin r)
  have "r \<le> 2 ^ (8 * w - 1) - 1 \<longleftrightarrow> r < 2 ^ (8 * w - 1)" if "r = of_int \<lfloor>r\<rfloor>"
  proof -
    have "(of_int \<lfloor>r\<rfloor> :: rat) \<le> of_int (2 ^ (8 * w - 1) - 1) \<longleftrightarrow> (of_int \<lfloor>r\<rfloor> :: rat) < of_int (2 ^ (8 * w - 1))"
      by (simp only: of_int_le_iff of_int_less_iff) linarith
    then show ?thesis using that by simp
  qed
  with Fin show ?thesis by (auto simp: coerce_int_def accept_int_def Ints_floor)
qed (simp_all add: coerce_int_def accept_int_def)

lemma sized_int_accept:
  assumes "0 < w"
  shows "sized_int w d = (case accept_int (8 * w) d of
      Inl e \<Rightarrow> Inl e
    | Inr (Some (V_NUM (Fin r))) \<Rightarrow> Inr (C_int w \<lfloor>r\<rfloor>)
    | Inr _ \<Rightarrow> Inr (C_int w 0))"
  unfolding sized_int_def coerce_int_accept [OF assms]
  by (auto split: sum.splits option.splits xrecord_value.splits dbl.splits)

lemma accept_int_Inr: "accept_int b d = Inr x \<Longrightarrow> \<exists>r. x = Some (V_NUM (Fin r)) \<and> of_int \<lfloor>r\<rfloor> = r"
  by (auto simp: accept_int_def Ints_floor split: dbl.splits if_splits)

lemma set_cell_small:
  assumes "set_cell mem t (V_NUM d) c = sized_int w d" and "accept t (V_NUM d) = accept_int (8 * w) d"
    and "0 < w" and "field_type_size t = w" and "\<And>i. read_cell t (C_int w i) = Some (V_NUM (Fin (of_int i)))"
  shows "case set_cell mem t (V_NUM d) c of
     Inr c' \<Rightarrow> accept t (V_NUM d) = Inr (read_cell t c') \<and> cell_bytes c' \<le> field_type_size t
   | Inl e \<Rightarrow> accept t (V_NUM d) = Inl e \<or> e = XRECORD_NOMEM"
  using accept_int_Inr [of "8 * w" d] assms
  by (cases "accept_int (8 * w) d") (auto simp: sized_int_accept)

text \<open>The code checks no range for an \<open>int64_t\<close> field, so it keeps the contract only for a number that is
  not an integer (refused) or fits.\<close>

definition int64_range :: "dbl \<Rightarrow> bool" where
  "int64_range d =
     (case d of NaN \<Rightarrow> True | Fin r \<Rightarrow> r \<noteq> of_int \<lfloor>r\<rfloor> \<or> - (2 ^ 63) \<le> r \<and> r < 2 ^ 63 | _ \<Rightarrow> False)"

fun int64_fits :: "xrecord_type \<Rightarrow> xrecord_value \<Rightarrow> bool" where
  "int64_fits XRECORD_INT (V_NUM d) = int64_range d"
| "int64_fits _ _ = True"

lemma int64_unchecked:
  assumes "r = of_int \<lfloor>r\<rfloor>" and "\<not> (- (2 ^ 63) \<le> r \<and> r < 2 ^ 63)"
  shows "set_cell mem XRECORD_INT (V_NUM (Fin r)) c = Inr C_torn
    \<and> accept XRECORD_INT (V_NUM (Fin r)) = Inl XRECORD_OUT_OF_RANGE"
proof -
  have "(- (2 ^ 63) \<le> \<lfloor>r\<rfloor> \<and> \<lfloor>r\<rfloor> < 2 ^ 63) \<longleftrightarrow> (- (2 ^ 63) \<le> r \<and> r < 2 ^ 63)"
    by (simp add: le_floor_iff floor_less_iff)
  with assms show ?thesis by (auto simp: accept_int_def Ints_floor)
qed

lemma set_cell_accept:
  assumes "int64_fits t v"
  shows "case set_cell mem t v c of
     Inr c' \<Rightarrow> accept t v = Inr (read_cell t c') \<and> cell_bytes c' \<le> field_type_size t
   | Inl e \<Rightarrow> accept t v = Inl e \<or> e = XRECORD_NOMEM"
proof -
  show ?thesis
  proof (cases v)
    case (V_NUM d)
    show ?thesis
    proof (cases t)
      case XRECORD_INT8
      show ?thesis unfolding V_NUM XRECORD_INT8 by (rule set_cell_small [where w = 1]) simp_all
    next
      case XRECORD_INT16
      show ?thesis unfolding V_NUM XRECORD_INT16 by (rule set_cell_small [where w = 2]) simp_all
    next
      case XRECORD_INT32
      show ?thesis unfolding V_NUM XRECORD_INT32 by (rule set_cell_small [where w = 4]) simp_all
    next
      case XRECORD_INT
      show ?thesis
      proof (cases d)
        case (Fin r)
        have "(- (2 ^ 63) \<le> \<lfloor>r\<rfloor> \<and> \<lfloor>r\<rfloor> < 2 ^ 63) \<longleftrightarrow> (- (2 ^ 63) \<le> r \<and> r < 2 ^ 63)"
          by (simp add: le_floor_iff floor_less_iff)
        then show ?thesis using V_NUM XRECORD_INT Fin assms
          by (auto simp: accept_int_def Ints_floor int64_range_def)
      qed (use V_NUM XRECORD_INT assms in \<open>simp_all add: accept_int_def int64_range_def\<close>)
    next
      case XRECORD_FLOAT
      with V_NUM show ?thesis by (auto simp: accept_float_def abs_if split: dbl.splits)
    qed (use V_NUM in simp_all)
  next
    case (V_BOOL b)
    then show ?thesis by (cases t) simp_all
  next
    case (V_STR bs)
    then show ?thesis by (cases t) (auto simp: set_string_def split: option.split)
  qed
qed

text \<open>Writing a string means writing the number it denotes, or the bytes themselves.\<close>

definition accept_str :: "xrecord_type \<Rightarrow> bytes \<Rightarrow> xrecord_status + xrecord_value option" where
  "accept_str t str =
     (let cstr = takeWhile (\<lambda>b. b \<noteq> 0) str
      in if t = XRECORD_STRING then accept t (V_STR str)
         else if t = XRECORD_FLOAT
         then (case strtod cstr of
                 Some (d, rest) \<Rightarrow> if skip_blanks rest = [] then accept t (V_NUM d) else Inl XRECORD_TYPE_MISMATCH
               | None \<Rightarrow> Inl XRECORD_TYPE_MISMATCH)
         else (case parse_ll cstr of
                 Inl e \<Rightarrow> Inl e
               | Inr v \<Rightarrow> accept t (if t = XRECORD_BOOL then V_BOOL v else V_NUM (Fin (of_int v)))))"

lemma parse_ll_range: "parse_ll s = Inr v \<Longrightarrow> - (2 ^ 63) \<le> v \<and> v < 2 ^ 63"
  by (auto simp: parse_ll_def strtoll_def Let_def split: option.splits prod.splits if_splits)

lemma ranged_int_accept:
  assumes "0 < w"
  shows "ranged_int w v = (case accept_int (8 * w) (Fin (of_int v)) of
      Inl e \<Rightarrow> Inl e | Inr _ \<Rightarrow> Inr (C_int w v))"
proof -
  have "(of_int v :: rat) < 2 ^ (8 * w - 1) \<longleftrightarrow> v < 2 ^ (8 * w - 1)"
    "- (2 ^ (8 * w - 1)) \<le> (of_int v :: rat) \<longleftrightarrow> - (2 ^ (8 * w - 1)) \<le> v"
    by (metis of_int_less_iff of_int_numeral of_int_power)
      (metis of_int_le_iff of_int_minus of_int_numeral of_int_power)
  then show ?thesis by (auto simp: ranged_int_def accept_int_def)
qed

lemma set_str_cell_accept:
  "case set_str_cell mem t str c of
     Inr c' \<Rightarrow> accept_str t str = Inr (read_cell t c') \<and> cell_bytes c' \<le> field_type_size t
   | Inl e \<Rightarrow> accept_str t str = Inl e \<or> e = XRECORD_NOMEM"
proof -
  have small: "case ranged_int w v of
      Inr c' \<Rightarrow> accept t (V_NUM (Fin (of_int v))) = Inr (read_cell t c') \<and> cell_bytes c' \<le> field_type_size t
    | Inl e \<Rightarrow> accept t (V_NUM (Fin (of_int v))) = Inl e \<or> e = XRECORD_NOMEM"
    if "accept t (V_NUM (Fin (of_int v))) = accept_int (8 * w) (Fin (of_int v))" "0 < w" "field_type_size t = w"
      "\<And>i. read_cell t (C_int w i) = Some (V_NUM (Fin (of_int i)))" for w v t
    using that accept_int_Inr [of "8 * w" "Fin (of_int v)"]
    by (cases "accept_int (8 * w) (Fin (of_int v))") (auto simp: ranged_int_accept accept_int_def split: if_splits)
  let ?cs = "takeWhile (\<lambda>b. b \<noteq> 0) str"
  show ?thesis
  proof (cases "t = XRECORD_STRING \<or> t = XRECORD_FLOAT")
    case True
    then show ?thesis
      by (auto simp: set_str_cell_def accept_str_def set_string_def accept_float_def abs_if Let_def
          split: option.splits dbl.splits)
  next
    case False
    show ?thesis
    proof (cases "parse_ll ?cs")
      case (Inl e)
      with False show ?thesis by (cases t) (simp_all add: set_str_cell_def accept_str_def)
    next
      case (Inr v)
      note range = parse_ll_range [OF Inr]
      show ?thesis
      proof (cases t)
        case XRECORD_INT8
        with Inr small [of XRECORD_INT8 v 1] show ?thesis
          by (cases "ranged_int 1 v") (simp_all add: set_str_cell_def accept_str_def)
      next
        case XRECORD_INT16
        with Inr small [of XRECORD_INT16 v 2] show ?thesis
          by (cases "ranged_int 2 v") (simp_all add: set_str_cell_def accept_str_def)
      next
        case XRECORD_INT32
        with Inr small [of XRECORD_INT32 v 4] show ?thesis
          by (cases "ranged_int 4 v") (simp_all add: set_str_cell_def accept_str_def)
      next
        case XRECORD_INT
        have "accept_int 64 (Fin (of_int v)) = Inr (Some (V_NUM (Fin (of_int v))))"
          using range by (simp add: accept_int_def)
        with Inr XRECORD_INT show ?thesis by (simp add: set_str_cell_def accept_str_def)
      next
        case XRECORD_BOOL
        with Inr show ?thesis by (simp add: set_str_cell_def accept_str_def)
      qed (use False in simp_all)
    qed
  qed
qed

end
