(* ===== verification/XRecProps.thy ===== *)
theory XRecProps
  imports XRecordOps
begin

text \<open>
  Runs of a record pool against the abstract map of records, and the properties of pools.
\<close>

section \<open>Runs\<close>

datatype rec_op =
    RBind u64
  | RUnbind u64
  | RHas u64
  | RSet u64 bytes xrecord_value
  | RSetStr u64 bytes bytes
  | RGet u64 bytes
  | RCount

datatype rec_res = RStatus xrecord_status | RBool bool | RValue xrecord_status "xrecord_value option" | RNat nat

fun rec_step :: "(nat \<Rightarrow> bool) \<Rightarrow> (xhash_site \<Rightarrow> bool) \<Rightarrow> rec_op \<Rightarrow> xrecord \<Rightarrow> rec_res \<times> xrecord" where
  "rec_step mem hok (RBind k) s = (let (st, s) = xrecord_bind mem hok k s in (RStatus st, s))"
| "rec_step mem hok (RUnbind k) s = (let (st, s) = xrecord_unbind k s in (RStatus st, s))"
| "rec_step mem hok (RHas k) s = (let (b, s) = xrecord_has k s in (RBool b, s))"
| "rec_step mem hok (RSet k name v) s = (let (st, s) = xrecord_set mem k name v s in (RStatus st, s))"
| "rec_step mem hok (RSetStr k name str) s = (let (st, s) = xrecord_set_str mem k name str s in (RStatus st, s))"
| "rec_step mem hok (RGet k name) s = (let ((st, v), s) = xrecord_get k name s in (RValue st v, s))"
| "rec_step mem hok RCount s = (RNat (xrecord_count s), s)"

text \<open>The allocators may behave differently for every operation: they also get the number of operations
  left.\<close>

fun rec_run ::
  "(nat \<Rightarrow> nat \<Rightarrow> bool) \<Rightarrow> (nat \<Rightarrow> xhash_site \<Rightarrow> bool) \<Rightarrow> rec_op list \<Rightarrow> xrecord \<Rightarrow> rec_res list \<times> xrecord" where
  "rec_run mem hok [] s = ([], s)"
| "rec_run mem hok (op # ops) s =
     (let (r, s) = rec_step (mem (length ops)) (hok (length ops)) op s; (rs, s) = rec_run mem hok ops s in (r # rs, s))"

text \<open>No write gives an \<open>int64_t\<close> field a whole number that does not fit.\<close>

fun op_fits :: "xrecord_schema \<Rightarrow> rec_op \<Rightarrow> bool" where
  "op_fits sc (RSet k name v) = (case find_field sc name of Some f \<Rightarrow> int64_fits (fld_type f) v | None \<Rightarrow> True)"
| "op_fits sc _ = True"

text \<open>The abstract pool: a map from ids to records. Writing with a given reading of the value.\<close>

definition spec_write ::
  "xrecord_schema \<Rightarrow> u64 \<Rightarrow> bytes \<Rightarrow> (xrecord_type \<Rightarrow> xrecord_status + xrecord_value option)
     \<Rightarrow> (u64 \<rightharpoonup> arecord) \<Rightarrow> rec_res \<times> (u64 \<rightharpoonup> arecord)" where
  "spec_write sc k name acc A =
     (case A k of
        None \<Rightarrow> (RStatus XRECORD_NOTFOUND, A)
      | Some r \<Rightarrow>
          (case find_field sc name of
             None \<Rightarrow> (RStatus XRECORD_NOFIELD, A)
           | Some f \<Rightarrow>
               (case acc (fld_type f) of
                  Inl e \<Rightarrow> (RStatus e, A)
                | Inr v \<Rightarrow> (RStatus XRECORD_OK, A(k \<mapsto> r(name \<mapsto> v))))))"

fun spec_step :: "xrecord_schema \<Rightarrow> rec_op \<Rightarrow> (u64 \<rightharpoonup> arecord) \<Rightarrow> rec_res \<times> (u64 \<rightharpoonup> arecord)" where
  "spec_step sc (RBind k) A =
     (if k \<in> dom A then (RStatus XRECORD_EXISTS, A) else (RStatus XRECORD_OK, A(k \<mapsto> zero_record sc)))"
| "spec_step sc (RUnbind k) A =
     (if k \<in> dom A then (RStatus XRECORD_OK, A(k := None)) else (RStatus XRECORD_NOTFOUND, A))"
| "spec_step sc (RHas k) A = (RBool (k \<in> dom A), A)"
| "spec_step sc (RSet k name v) A = spec_write sc k name (\<lambda>t. accept t v) A"
| "spec_step sc (RSetStr k name str) A = spec_write sc k name (\<lambda>t. accept_str t str) A"
| "spec_step sc (RGet k name) A =
     (case A k of
        None \<Rightarrow> (RValue XRECORD_NOTFOUND None, A)
      | Some r \<Rightarrow> (case r name of None \<Rightarrow> (RValue XRECORD_NOFIELD None, A) | Some v \<Rightarrow> (RValue XRECORD_OK v, A)))"
| "spec_step sc RCount A = (RNat (card (dom A)), A)"

text \<open>A list of operations with their results fits the abstract pool: each result is the abstract
  one, or reports that memory ran out, and then the operation had no effect.\<close>

fun agrees :: "xrecord_schema \<Rightarrow> (u64 \<rightharpoonup> arecord) \<Rightarrow> (rec_op \<times> rec_res) list \<Rightarrow> bool" where
  "agrees sc A [] = True"
| "agrees sc A ((op, r) # ors) =
     (r = RStatus XRECORD_NOMEM \<and> agrees sc A ors
      \<or> (case spec_step sc op A of (r', A') \<Rightarrow> r = r' \<and> agrees sc A' ors))"

lemma rec_abs_dom: "dom (rec_abs s) = dom (int_abs (rp_ids s))"
  by (auto simp: rec_abs_def)

text \<open>Writing through \<open>locate\<close>, for either source of the value.\<close>

lemma write_located:
  assumes "rec_inv s"
    and "\<And>f c. find_field (rp_schema s) name = Some f \<Longrightarrow> (case setc (fld_type f) c of
        Inr c' \<Rightarrow> acc (fld_type f) = Inr (read_cell (fld_type f) c') \<and> cell_bytes c' \<le> field_type_size (fld_type f)
      | Inl e \<Rightarrow> acc (fld_type f) = Inl e \<or> e = XRECORD_NOMEM)"
    and "(case locate k name s of
        (Inl e, s) \<Rightarrow> (e, s)
      | (Inr (t, a), s) \<Rightarrow>
          (case setc t (rp_pool s a) of
             Inl e \<Rightarrow> (e, s)
           | Inr c \<Rightarrow> (XRECORD_OK, s\<lparr>rp_pool := store a c (rp_pool s)\<rparr>))) = (st, s')"
  shows "rec_inv s' \<and> rp_schema s' = rp_schema s
    \<and> (st = XRECORD_NOMEM \<and> rec_abs s' = rec_abs s
       \<or> (RStatus st, rec_abs s') = spec_write (rp_schema s) k name acc (rec_abs s))"
proof -
  obtain q s1 where L: "locate k name s = (q, s1)" by fastforce
  note S = locate_spec [OF assms(1) L]
  show ?thesis
  proof (cases "int_abs (rp_ids s) k")
    case None
    with S L assms(3) have "st = XRECORD_NOTFOUND" "s' = s1" by auto
    with S None show ?thesis by (simp add: spec_write_def rec_abs_def)
  next
    case (Some v)
    then have ak: "\<exists>r. rec_abs s k = Some r" by (simp add: rec_abs_def)
    then obtain r where r: "rec_abs s k = Some r" by blast
    show ?thesis
    proof (cases "find_field (rp_schema s) name")
      case None
      with S L assms(3) Some have "st = XRECORD_NOFIELD" "s' = s1" by auto
      with S r None show ?thesis by (simp add: spec_write_def)
    next
      case F: (Some f)
      let ?a = "field_at (rp_schema s) (v - 1) f"
      from S Some F have q: "q = Inr (fld_type f, ?a)" and inv1: "rec_inv s1" and
        same: "rec_abs s1 = rec_abs s" "rp_schema s1 = rp_schema s" "rp_ids s1 = rp_ids s" by auto
      show ?thesis
      proof (cases "setc (fld_type f) (rp_pool s1 ?a)")
        case (Inl e)
        with L q assms(3) have "st = e" "s' = s1" by simp_all
        with Inl inv1 same r F assms(2) [OF F, of "rp_pool s1 ?a"] show ?thesis
          by (auto simp: spec_write_def)
      next
        case (Inr c)
        with L q assms(3) have st: "st = XRECORD_OK" "s' = s1\<lparr>rp_pool := store ?a c (rp_pool s1)\<rparr>" by simp_all
        from Inr assms(2) [OF F, of "rp_pool s1 ?a"]
        have acc: "acc (fld_type f) = Inr (read_cell (fld_type f) c)" "cell_bytes c \<le> fsize f" by simp_all
        have "int_abs (rp_ids s1) k = Some v" "find_field (rp_schema s1) name = Some f"
          using Some F same by simp_all
        note W = store_abs [OF inv1 this acc(2), unfolded same]
        have "rec_abs s' = (rec_abs s)(k \<mapsto> r(name \<mapsto> read_cell (fld_type f) c))"
          using W(2) [of r] r by (simp add: st(2))
        moreover have "rec_inv s'" using W(1) by (simp add: st(2))
        ultimately show ?thesis using st r F acc same by (simp add: spec_write_def)
      qed
    qed
  qed
qed

lemma rec_step_refines:
  assumes "rec_inv s" and "xhash_size (rp_ids s) < 2 ^ 31" and "rec_step mem hok op s = (r, s')"
    and "op_fits (rp_schema s) op"
  shows "rec_inv s' \<and> rp_schema s' = rp_schema s
    \<and> (r = RStatus XRECORD_NOMEM \<and> rec_abs s' = rec_abs s
       \<or> (r, rec_abs s') = spec_step (rp_schema s) op (rec_abs s))"
proof (cases op)
  case (RBind k)
  obtain st s1 where B: "xrecord_bind mem hok k s = (st, s1)" by fastforce
  from bind_spec [OF assms(1,2) B] assms(3) RBind B show ?thesis by (auto split: if_splits)
next
  case (RUnbind k)
  obtain st s1 where B: "xrecord_unbind k s = (st, s1)" by fastforce
  from unbind_spec [OF assms(1) B] assms(3) RUnbind B show ?thesis by (auto simp: fun_upd_idem domIff)
next
  case (RHas k)
  obtain q s1 where L: "lookup_slot k s = (q, s1)" by fastforce
  from lookup_slot_spec [OF assms(1) L] assms(3) RHas L rec_abs_dom [of s] show ?thesis
    by (auto simp: xrecord_has_def split: option.splits)
next
  case (RSet k name v)
  obtain st s1 where B: "xrecord_set mem k name v s = (st, s1)" by fastforce
  have fits: "int64_fits (fld_type f) v" if "find_field (rp_schema s) name = Some f" for f
    using assms(4) RSet that by simp
  from write_located [OF assms(1) set_cell_accept [OF fits] B [unfolded xrecord_set_def]] assms(3) RSet B
  show ?thesis by auto
next
  case (RSetStr k name str)
  obtain st s1 where B: "xrecord_set_str mem k name str s = (st, s1)" by fastforce
  from write_located [OF assms(1) set_str_cell_accept B [unfolded xrecord_set_str_def]] assms(3) RSetStr B
  show ?thesis by auto
next
  case (RGet k name)
  obtain q s1 where L: "locate k name s = (q, s1)" by fastforce
  note S = locate_spec [OF assms(1) L]
  show ?thesis
  proof (cases "int_abs (rp_ids s) k")
    case None
    with S L assms(3) RGet show ?thesis by (auto simp: xrecord_get_def rec_abs_def)
  next
    case (Some v)
    with S L assms(3) RGet show ?thesis
      by (cases "find_field (rp_schema s) name") (auto simp: xrecord_get_def rec_abs_def slot_record_def)
  qed
next
  case RCount
  have "xhash_size (rp_ids s) = card (dom (int_abs (rp_ids s)))"
    using ih.entries_law [OF rec_invD(3) [OF assms(1)]] by simp
  with assms RCount show ?thesis by (auto simp: xrecord_count_def rec_abs_dom)
qed

lemma rec_abs_card: "rec_inv s \<Longrightarrow> finite (dom (rec_abs s)) \<and> card (dom (rec_abs s)) = xhash_size (rp_ids s)"
  using ih.entries_law [OF rec_invD(3)] by (simp add: rec_abs_dom)

text \<open>One operation binds at most one id more.\<close>

lemma spec_step_card:
  "finite (dom A) \<Longrightarrow> card (dom (snd (spec_step sc op A))) \<le> card (dom A) + 1"
  by (cases op) (auto simp: spec_write_def card_insert_if insert_absorb domI intro!: card_mono le_SucI
      split: option.split sum.split)

lemma rec_step_size:
  assumes "rec_inv s" and "rec_inv s'"
    and "rec_abs s' = rec_abs s \<or> (r, rec_abs s') = spec_step (rp_schema s) op (rec_abs s)"
  shows "xhash_size (rp_ids s') \<le> xhash_size (rp_ids s) + 1"
proof -
  have "card (dom (rec_abs s')) \<le> card (dom (rec_abs s)) + 1"
    using assms(3)
  proof
    assume "(r, rec_abs s') = spec_step (rp_schema s) op (rec_abs s)"
    then have "rec_abs s' = snd (spec_step (rp_schema s) op (rec_abs s))" by (metis snd_conv)
    moreover have "card (dom (snd (spec_step (rp_schema s) op (rec_abs s)))) \<le> card (dom (rec_abs s)) + 1"
      by (rule spec_step_card) (use rec_abs_card [OF assms(1)] in blast)
    ultimately show ?thesis by (simp only:)
  qed simp
  then show ?thesis using rec_abs_card [OF assms(1)] rec_abs_card [OF assms(2)] by simp
qed

lemma rec_run_refines:
  "rec_inv s \<Longrightarrow> xhash_size (rp_ids s) + length ops \<le> 2 ^ 31 \<Longrightarrow> \<forall>op \<in> set ops. op_fits (rp_schema s) op \<Longrightarrow>
     agrees (rp_schema s) (rec_abs s) (zip ops (fst (rec_run mem hok ops s)))
     \<and> rec_inv (snd (rec_run mem hok ops s)) \<and> rp_schema (snd (rec_run mem hok ops s)) = rp_schema s"
proof (induction ops arbitrary: s)
  case (Cons op ops)
  obtain r s1 where R: "rec_step (mem (length ops)) (hok (length ops)) op s = (r, s1)" by fastforce
  have few: "xhash_size (rp_ids s) < 2 ^ 31" and fits: "op_fits (rp_schema s) op" using Cons.prems by simp_all
  note S = rec_step_refines [OF Cons.prems(1) few R fits]
  then have inv1: "rec_inv s1" and sc: "rp_schema s1 = rp_schema s" by simp_all
  from S have two: "r = RStatus XRECORD_NOMEM \<and> rec_abs s1 = rec_abs s
      \<or> spec_step (rp_schema s) op (rec_abs s) = (r, rec_abs s1)" by metis
  then have "xhash_size (rp_ids s1) \<le> xhash_size (rp_ids s) + 1"
    using rec_step_size [OF Cons.prems(1) inv1, of r op] by metis
  then have "xhash_size (rp_ids s1) + length ops \<le> 2 ^ 31" using Cons.prems(2) by simp
  from Cons.IH [OF inv1 this, unfolded sc] Cons.prems(3) have I':
    "agrees (rp_schema s) (rec_abs s1) (zip ops (fst (rec_run mem hok ops s1)))"
    "rec_inv (snd (rec_run mem hok ops s1))" "rp_schema (snd (rec_run mem hok ops s1)) = rp_schema s" by simp_all
  have run: "fst (rec_run mem hok (op # ops) s) = r # fst (rec_run mem hok ops s1)"
    "snd (rec_run mem hok (op # ops) s) = snd (rec_run mem hok ops s1)"
    using R by (simp_all add: case_prod_beta)
  from two I'(1) have "agrees (rp_schema s) (rec_abs s) ((op, r) # zip ops (fst (rec_run mem hok ops s1)))" by auto
  with I' show ?case unfolding run by simp
qed simp

text \<open>A record of a schema of at most \<open>2 ^ 27\<close> fields has at most 4 GiB.\<close>

lemma elem_size_bound:
  assumes "xrecord_schema_create ok defs = Some sc" and "length defs \<le> 2 ^ 27"
  shows "elem_size sc \<le> 2 ^ 32"
proof -
  have d: "length defs < 2 ^ 31" using assms(2) by simp
  note L = schema_layout_full [OF assms(1) d]
  then obtain f where f: "elem_size sc < sum_list (map fsize (sc_fields sc)) + al f" by blast
  have "size (mset (map sig (sc_fields sc))) = size (mset defs)" using L by (simp only:)
  then have "length (sc_fields sc) = length defs" by simp
  moreover have "sum_list (map fsize (sc_fields sc)) \<le> 16 * length (sc_fields sc)"
    using sum_list_mono [of "sc_fields sc" fsize "\<lambda>_. 16"] field_type_size_bounds(2) by (simp add: sum_list_triv)
  moreover have "al f \<le> 8" by (cases "fld_type f") simp_all
  ultimately show ?thesis using f assms(2) by simp
qed

section \<open>Creation\<close>

lemma pool_create_spec:
  assumes "layout_ok sc" and "cap < 2 ^ 32" and "xrecord_pool_create pok hok sc cap = Some s"
  shows "rec_inv s \<and> rec_abs s = Map.empty \<and> rp_schema s = sc \<and> xhash_size (rp_ids s) = 0"
proof -
  from assms(3) obtain h where h: "xhash_create hok cap XHASH_KEY_INT = Some h" "0 < cap"
    and s: "s = \<lparr>rp_schema = sc, rp_pool = (\<lambda>_. C_zero), rp_capacity = cap, rp_elem_size = elem_size sc,
        rp_free = map (\<lambda>i. (cap - 1 - i) mod 2 ^ 32) [0..<cap], rp_ids = h,
        rp_str_offsets = map fld_offset (filter (\<lambda>f. fld_type f = XRECORD_STRING) (sc_fields sc)),
        rp_cached_id = 0, rp_cached_slot = 0, rp_cache_valid = False\<rparr>"
    by (auto simp: xrecord_pool_create_def Let_def split: if_splits option.splits)
  have "cap \<le> 2 ^ 63" using assms(2) by simp
  from create_int_inv [OF this h(1)] have t: "int_inv h" "int_abs h = Map.empty" "xhash_size h = 0" by simp_all
  have "rev [0..<cap] = map (\<lambda>i. cap - 1 - i) [0..<cap]" by (rule nth_equalityI) (simp_all add: rev_nth)
  moreover have "map (\<lambda>i. (cap - 1 - i) mod 2 ^ 32) [0..<cap] = map (\<lambda>i. cap - 1 - i) [0..<cap]"
    using assms(2) by (intro map_cong mod_less) auto
  ultimately have free: "rp_free s = rev [0..<cap]" by (simp add: s)
  have "cells_ok sc cap (\<lambda>_. C_zero)"
    using field_type_size_bounds(1) by (simp add: cells_ok_def Suc_le_eq)
  then have "rec_inv s"
    using assms(1,2) h(2) t free by (auto simp: rec_inv_def s used_slots_def)
  with t show ?thesis by (simp add: s rec_abs_def fun_eq_iff)
qed

section \<open>Properties\<close>

text \<open>C16. A record pool refines a map from ids to records: for every run of binding, unbinding,
  writing (values or strings), reading and counting on a fresh pool, whatever allocations fail and when,
  every result is the one of the abstract map, in which a write of one field changes
  nothing else, a value the field cannot hold is refused, and a bound record starts with zero values; an
  operation that reports out of memory has no effect; growth loses nothing. Three conditions: the schema has at
  most \<open>2 ^ 27\<close> fields, the capacity asked for is below \<open>2 ^ 32\<close> and the run has at most \<open>2 ^ 31\<close> operations
  (then neither the 32-bit slot numbers nor the byte sizes wrap, the last two conclusions; the code does not
  check this); no operation writes a whole number outside its range to an
  \<open>int64_t\<close> field, which the code does not check either (lemma \<open>int64_unchecked\<close>). Of the length of a string
  32 bits are kept.\<close>
theorem record_pool_refines_map:
  assumes "xrecord_schema_create sok defs = Some sc" and "length defs \<le> 2 ^ 27" and "cap < 2 ^ 32"
    and "xrecord_pool_create pok hok0 sc cap = Some s" and "length ops \<le> 2 ^ 31"
    and "\<forall>op \<in> set ops. op_fits sc op" and "rec_run mem hok ops s = (rs, s')"
  shows "agrees sc Map.empty (zip ops rs) \<and> rp_capacity s' < 2 ^ 32 \<and> rp_capacity s' * elem_size sc < 2 ^ 64"
proof -
  have "length defs < 2 ^ 31" using assms(2) by simp
  then have "layout_ok sc" using schema_layout_full [OF assms(1)] by blast
  from pool_create_spec [OF this assms(3,4)] rec_run_refines [of s ops mem hok] assms(5-7)
  have A: "agrees sc Map.empty (zip ops rs)" "rec_inv s'" by auto
  have c: "rp_capacity s' < 2 ^ 32" by (rule rec_invD(5) [OF A(2)])
  then have "rp_capacity s' * elem_size sc \<le> (2 ^ 32 - 1) * 2 ^ 32"
    by (intro mult_le_mono elem_size_bound [OF assms(1,2)]) simp
  with A(1) c show ?thesis by simp
qed

definition sample_schema :: xrecord_schema where
  "sample_schema = the (xrecord_schema_create (\<lambda>_. True) [([104, 112], XRECORD_INT16), ([110], XRECORD_STRING)])"

lemma sample_schema_created:
  "xrecord_schema_create (\<lambda>_. True) [([104, 112], XRECORD_INT16), ([110], XRECORD_STRING)] = Some sample_schema"
  unfolding sample_schema_def
  by (rule option.collapse [symmetric]) (simp add: xrecord_schema_create_def Let_def split: prod.split)

definition sample_records :: xrecord where
  "sample_records = the (xrecord_pool_create (\<lambda>_. True) (\<lambda>_. True) sample_schema 1)"

lemma sample_records_created:
  "xrecord_pool_create (\<lambda>_. True) (\<lambda>_. True) sample_schema 1 = Some sample_records"
  using create_succeeds [of "\<lambda>_. True" 1 XHASH_KEY_INT]
  by (auto simp: sample_records_def xrecord_pool_create_def Let_def)

lemma int64_fits_other: "t \<noteq> XRECORD_INT \<Longrightarrow> int64_fits t v"
  by (cases t) (simp_all split: xrecord_value.split)

lemma sample_ops_fit:
  "\<forall>op \<in> set [RBind 7, RSet 7 [104, 112] (V_NUM (Fin 300)), RBind 9, RSetStr 9 [104, 112] [51, 48, 48], RGet 7 [104, 112], RUnbind 7, RCount].
     op_fits sample_schema op"
proof -
  have ne: "fld_type f \<noteq> XRECORD_INT" if "f \<in> set (sc_fields sample_schema)" for f
  proof -
    have "length [([104 :: u8, 112], XRECORD_INT16), ([110], XRECORD_STRING)] < 2 ^ 31" by simp
    from schema_layout_full [OF sample_schema_created this, THEN conjunct2, THEN conjunct1]
    have "set (map sig (sc_fields sample_schema)) = set [([104, 112], XRECORD_INT16), ([110], XRECORD_STRING)]"
      by (rule mset_eq_setD)
    moreover have "sig f \<in> set (map sig (sc_fields sample_schema))" using that by simp
    ultimately have "sig f \<in> set [([104, 112], XRECORD_INT16), ([110], XRECORD_STRING)]" by (simp only:)
    then show ?thesis by auto
  qed
  have "case find_field sample_schema name of Some f \<Rightarrow> int64_fits (fld_type f) v | None \<Rightarrow> True" for name v
  proof (cases "find_field sample_schema name")
    case (Some f)
    with ne [of f] find_field_Some [OF Some] show ?thesis by (simp add: int64_fits_other)
  qed simp
  then show ?thesis by simp
qed

lemma record_pool_refines_map_witness:
  "agrees sample_schema Map.empty (zip
     [RBind 7, RSet 7 [104, 112] (V_NUM (Fin 300)), RBind 9, RSetStr 9 [104, 112] [51, 48, 48], RGet 7 [104, 112], RUnbind 7, RCount]
     (fst (rec_run (\<lambda>i n. i \<noteq> 4) (\<lambda>_ _. True)
     [RBind 7, RSet 7 [104, 112] (V_NUM (Fin 300)), RBind 9, RSetStr 9 [104, 112] [51, 48, 48], RGet 7 [104, 112], RUnbind 7, RCount]
     sample_records)))"
  by (rule record_pool_refines_map [OF sample_schema_created _ _ sample_records_created _ sample_ops_fit surjective_pairing,
        THEN conjunct1]) simp_all

text \<open>The slots of a pool: every slot below the capacity is either on the free stack,
  once, or used by exactly one id, so no slot is lost or shared; and no field of a record shares a
  byte with another field or record.\<close>
lemma record_slots_partition:
  assumes "rec_inv s"
  shows "distinct (rp_free s) \<and> set (rp_free s) \<inter> used_slots s = {}
    \<and> set (rp_free s) \<union> used_slots s = {slot. slot < rp_capacity s}
    \<and> length (rp_free s) + xrecord_count s = rp_capacity s"
  using rec_invD(8,9) [OF assms] used_slots_sub [OF assms] slots_count [OF assms] by (auto simp: xrecord_count_def)

section \<open>Decimal strings\<close>

fun dec_digits :: "nat \<Rightarrow> bytes" where
  "dec_digits n = (if n < 10 then [of_nat (48 + n)] else dec_digits (n div 10) @ [of_nat (48 + n mod 10)])"

declare dec_digits.simps [simp del]

definition decimal :: "int \<Rightarrow> bytes" where
  "decimal v = (if v < 0 then [45] else []) @ dec_digits (nat \<bar>v\<bar>)"

lemma dec_digit: "d < 10 \<Longrightarrow> is_digit (of_nat (48 + d)) \<and> xdigit_val (of_nat (48 + d)) = int d"
proof -
  assume "d < 10"
  then have "d = 0 \<or> d = 1 \<or> d = 2 \<or> d = 3 \<or> d = 4 \<or> d = 5 \<or> d = 6 \<or> d = 7 \<or> d = 8 \<or> d = 9" by presburger
  then show ?thesis by (elim disjE) (simp_all add: is_digit_def xdigit_val_def)
qed

lemma dec_digits_spec: "list_all is_digit (dec_digits n) \<and> digits_val 10 (dec_digits n) = int n \<and> dec_digits n \<noteq> []"
proof (induction n rule: dec_digits.induct)
  case (1 n)
  show ?case
  proof (cases "n < 10")
    case True
    with dec_digit [OF True] show ?thesis
      by (subst (1 2 3) dec_digits.simps) (simp add: digits_val_def)
  next
    case False
    have "n mod 10 < 10" by simp
    note D = dec_digit [OF this]
    have "int (n div 10) * 10 + int (n mod 10) = int n"
      using div_mult_mod_eq [of n 10] by linarith
    with False D 1 [OF False] show ?thesis
      by (subst (1 2 3) dec_digits.simps) (simp add: digits_val_def)
  qed
qed

lemma dec_first: "is_digit c \<Longrightarrow> \<not> is_space c \<and> c \<noteq> 45 \<and> c \<noteq> 43"
  by (auto simp: is_digit_def is_space_def word_le_nat_alt)

lemma take_digits: "list_all is_digit ds \<Longrightarrow> (case rest of [] \<Rightarrow> True | c # _ \<Rightarrow> \<not> is_digit c) \<Longrightarrow>
    takeWhile is_digit (ds @ rest) = ds \<and> dropWhile is_digit (ds @ rest) = rest"
  by (induction ds) (auto split: list.splits)

lemma drop_spaces: "list_all is_space sp \<Longrightarrow> dropWhile is_space (sp @ s) = dropWhile is_space s"
  by (induction sp) auto

lemma strtoll_decimal:
  assumes "list_all is_space sp" and "case rest of [] \<Rightarrow> True | c # _ \<Rightarrow> \<not> is_digit c"
  shows "strtoll (sp @ decimal v @ rest) = Some (if v < - (2 ^ 63) then (- (2 ^ 63), True, rest)
    else if v > 2 ^ 63 - 1 then (2 ^ 63 - 1, True, rest) else (v, False, rest))"
proof -
  let ?ds = "dec_digits (nat \<bar>v\<bar>)"
  note D = dec_digits_spec [of "nat \<bar>v\<bar>"]
  obtain d ds where ds: "?ds = d # ds" using D by (cases ?ds) auto
  then have d: "is_digit d" using D by simp
  note T = take_digits [of ?ds rest, OF _ assms(2)]
  have "dropWhile is_space (sp @ decimal v @ rest) = decimal v @ rest"
    using drop_spaces [OF assms(1)] dec_first [OF d] by (auto simp: decimal_def ds is_space_def)
  moreover have "take_sign (decimal v @ rest) = (v < 0, ?ds @ rest)"
    using dec_first [OF d] by (simp add: decimal_def ds)
  ultimately show ?thesis using D T by (auto simp: strtoll_def Let_def)
qed

text \<open>Decimal strings: printing a number and parsing it back gives the number when it fits 64 bits
  and out of range when it does not, whatever white space stands before and blanks after it; any
  other character behind the digits is a type mismatch.\<close>
lemma parse_ll_decimal:
  assumes "list_all is_space sp" and "list_all (\<lambda>c. c = 32 \<or> c = 9) bl"
    and "\<not> is_digit c" and "c \<noteq> 32" and "c \<noteq> 9"
  shows "parse_ll (sp @ decimal v @ bl) = (if - (2 ^ 63) \<le> v \<and> v < 2 ^ 63 then Inr v else Inl XRECORD_OUT_OF_RANGE)
    \<and> parse_ll (sp @ decimal v @ c # rest) = Inl XRECORD_TYPE_MISMATCH"
proof -
  have b: "skip_blanks bl = []" using assms(2) by (auto simp: skip_blanks_def list_all_iff)
  have "case bl of [] \<Rightarrow> True | c # _ \<Rightarrow> \<not> is_digit c"
    using assms(2) by (auto simp: is_digit_def split: list.split)
  note A = strtoll_decimal [OF assms(1) this, of v]
  have "case c # rest of [] \<Rightarrow> True | c # _ \<Rightarrow> \<not> is_digit c" using assms(3) by simp
  note B = strtoll_decimal [OF assms(1) this, of v]
  show ?thesis
    using assms(4,5) b by (auto simp: parse_ll_def A B skip_blanks_def)
qed

lemma parse_ll_decimal_witness:
  "parse_ll [32, 45, 49, 50, 32] = Inr (- 12) \<and> parse_ll [32, 45, 49, 50, 120] = Inl XRECORD_TYPE_MISMATCH"
proof -
  have "decimal (- 12) = [45, 49, 50]" by (simp add: decimal_def dec_digits.simps)
  with parse_ll_decimal [of "[32]" "[32]" 120 "- 12" "[]"] show ?thesis
    by (simp add: is_space_def is_digit_def)
qed

end
