(* ===== verification/XShared.thy ===== *)
theory XShared
  imports XRecNum
begin

text \<open>
  The shared dictionaries of \<open>xshared.c\<close>: shards with a hash table and a recency list over the same
  entries, byte budgets with eviction of the least recently used entry, expiry on access and by
  the sweeper, and the registry of dictionaries. An entry is a node of the shard's heap; a bucket
  chain and the LRU list (most recent first) are the lists of the addresses the links visit. Every
  operation runs under the lock of its shard (or of the registry), so it is one step; the clock is
  read before the lock and is an argument. \<open>mem n\<close> says whether allocating \<open>n\<close> bytes succeeds.
  NULL arguments are outside the model, and so is overflow of \<open>now + ttl_ms\<close>.
\<close>

section \<open>Data\<close>

datatype xshared_value = X_NIL | X_NUM dbl | X_BOOL int | X_STR bytes

datatype xshared_status =
    XSHARED_OK
  | XSHARED_NOTFOUND
  | XSHARED_EXISTS
  | XSHARED_NOTNUM
  | XSHARED_TOOBIG
  | XSHARED_NOMEM
  | XSHARED_BADARG

record entry =
  e_hash :: u64
  e_expire :: int
  e_key :: bytes
  e_vlen :: nat
  e_value :: xshared_value

definition ENTRY_SIZE :: nat where "ENTRY_SIZE = 64"
definition XSHARED_INIT_BUCKETS :: nat where "XSHARED_INIT_BUCKETS = 16"
definition XSHARED_MAX_SHARDS :: u32 where "XSHARED_MAX_SHARDS = 1024"
definition XSHARED_MAX_NAME :: nat where "XSHARED_MAX_NAME = 64"
definition XSHARED_SWEEP_INTERVAL_MS :: int where "XSHARED_SWEEP_INTERVAL_MS = 10000"
definition XSHARED_SWEEP_BUDGET :: nat where "XSHARED_SWEEP_BUDGET = 4096"

fun is_str :: "xshared_value \<Rightarrow> bool" where
  "is_str (X_STR _) = True"
| "is_str _ = False"

definition entry_bytes :: "entry \<Rightarrow> nat" where
  "entry_bytes e = ENTRY_SIZE + length (e_key e) + (if is_str (e_value e) then e_vlen e else 0)"

record shard =
  sh_heap :: "addr \<rightharpoonup> entry"
  sh_fresh :: addr
  sh_buckets :: "addr list list"
  sh_count :: nat
  sh_lru :: "addr list"
  sh_used :: nat
  sh_budget :: nat
  sh_evicted :: u64
  sh_expired :: u64

record xshared_dict =
  d_name :: bytes
  d_nshards :: u32
  d_mask :: u32
  d_shards :: "shard list"
  d_sweep_shard :: nat
  d_sweep_bucket :: nat

section \<open>Helpers\<close>

definition hash_key :: "bytes \<Rightarrow> u64" where
  "hash_key k = foldl (\<lambda>h b. (h XOR ucast b) * 1099511628211) 1469598103934665603 k"

definition next_pow2_u32 :: "u32 \<Rightarrow> u32" where
  "next_pow2_u32 v =
     (if v < 1 then 1
      else let v = v - 1; v = v OR drop_bit 1 v; v = v OR drop_bit 2 v; v = v OR drop_bit 4 v;
               v = v OR drop_bit 8 v; v = v OR drop_bit 16 v
           in v + 1)"

text \<open>The entry at an address.\<close>

abbreviation ent :: "shard \<Rightarrow> addr \<Rightarrow> entry" where
  "ent s a \<equiv> the (sh_heap s a)"

definition lru_unlink :: "addr \<Rightarrow> shard \<Rightarrow> shard" where
  "lru_unlink a s = s\<lparr>sh_lru := remove1 a (sh_lru s)\<rparr>"

definition lru_push_front :: "addr \<Rightarrow> shard \<Rightarrow> shard" where
  "lru_push_front a s = s\<lparr>sh_lru := a # sh_lru s\<rparr>"

definition lru_touch :: "addr \<Rightarrow> shard \<Rightarrow> shard" where
  "lru_touch a s =
     (if sh_lru s \<noteq> [] \<and> hd (sh_lru s) = a then s else lru_push_front a (lru_unlink a s))"

definition bucket_index :: "u64 \<Rightarrow> nat \<Rightarrow> nat" where
  "bucket_index h nb = unat (h AND (of_nat nb - 1))"

definition bucket_insert :: "addr \<Rightarrow> shard \<Rightarrow> shard" where
  "bucket_insert a s =
     (let bi = bucket_index (e_hash (ent s a)) (length (sh_buckets s))
      in s\<lparr>sh_buckets := (sh_buckets s)[bi := a # sh_buckets s ! bi]\<rparr>)"

definition bucket_remove :: "addr \<Rightarrow> shard \<Rightarrow> shard" where
  "bucket_remove a s =
     (let bi = bucket_index (e_hash (ent s a)) (length (sh_buckets s))
      in s\<lparr>sh_buckets := (sh_buckets s)[bi := remove1 a (sh_buckets s ! bi)]\<rparr>)"

definition shard_maybe_grow :: "(nat \<Rightarrow> bool) \<Rightarrow> shard \<Rightarrow> shard" where
  "shard_maybe_grow mem s =
     (if sh_count s \<le> length (sh_buckets s) then s
      else let nb = length (sh_buckets s) * 2
           in if \<not> mem (nb * 8) then s
              else s\<lparr>sh_buckets := foldl
                       (\<lambda>nbuf a. let bi = bucket_index (e_hash (ent s a)) nb in nbuf[bi := a # nbuf ! bi])
                       (replicate nb []) (concat (sh_buckets s))\<rparr>)"

definition entry_drop :: "addr \<Rightarrow> shard \<Rightarrow> shard" where
  "entry_drop a s =
     (let b = entry_bytes (ent s a); s = lru_unlink a (bucket_remove a s)
      in s\<lparr>sh_used := sh_used s - b, sh_count := sh_count s - 1, sh_heap := (sh_heap s)(a := None)\<rparr>)"

definition evict_tail :: "shard \<Rightarrow> shard" where
  "evict_tail s =
     (if sh_lru s = [] then s
      else entry_drop (last (sh_lru s)) (s\<lparr>sh_evicted := sh_evicted s + 1\<rparr>))"

lemma evict_tail_shrinks: "sh_lru s \<noteq> [] \<Longrightarrow> length (sh_lru (evict_tail s)) < length (sh_lru s)"
  by (simp add: evict_tail_def entry_drop_def lru_unlink_def bucket_remove_def Let_def length_remove1)

function evict_until :: "nat \<Rightarrow> shard \<Rightarrow> shard" where
  "evict_until need s =
     (if sh_used s + need > sh_budget s \<and> sh_lru s \<noteq> [] then evict_until need (evict_tail s) else s)"
  by pat_completeness auto

termination
  by (relation "measure (\<lambda>(need, s). length (sh_lru s))") (auto simp: evict_tail_shrinks)

declare evict_until.simps [simp del]

definition expired_at :: "int \<Rightarrow> entry \<Rightarrow> bool" where
  "expired_at now e \<longleftrightarrow> e_expire e \<noteq> 0 \<and> e_expire e \<le> now"

definition shard_lookup :: "u64 \<Rightarrow> bytes \<Rightarrow> int \<Rightarrow> shard \<Rightarrow> addr option \<times> shard" where
  "shard_lookup h key now s =
     (case find (\<lambda>a. e_hash (ent s a) = h \<and> e_key (ent s a) = key)
             (sh_buckets s ! bucket_index h (length (sh_buckets s))) of
        None \<Rightarrow> (None, s)
      | Some a \<Rightarrow>
          if expired_at now (ent s a) then (None, entry_drop a (s\<lparr>sh_expired := sh_expired s + 1\<rparr>))
          else (Some a, s))"

fun value_bytes :: "xshared_value \<Rightarrow> nat" where
  "value_bytes (X_STR bs) = length bs"
| "value_bytes _ = 0"

definition entry_new :: "u64 \<Rightarrow> bytes \<Rightarrow> xshared_value \<Rightarrow> int \<Rightarrow> entry" where
  "entry_new h key val expire =
     \<lparr>e_hash = h, e_expire = expire, e_key = key, e_vlen = value_bytes val mod 2 ^ 32, e_value = val\<rparr>"

text \<open>Linking a new entry and the accounting for it.\<close>

definition insert_entry :: "(nat \<Rightarrow> bool) \<Rightarrow> nat \<Rightarrow> entry \<Rightarrow> shard \<Rightarrow> shard" where
  "insert_entry mem need e s =
     (let a = sh_fresh s;
          s = s\<lparr>sh_heap := (sh_heap s)(a \<mapsto> e), sh_fresh := a + 1\<rparr>;
          s = lru_push_front a (bucket_insert a s);
          s = s\<lparr>sh_used := sh_used s + need, sh_count := sh_count s + 1\<rparr>
      in shard_maybe_grow mem s)"

section \<open>Operations on the shard of a key\<close>

definition expiry :: "int \<Rightarrow> int \<Rightarrow> int" where
  "expiry now ttl_ms = (if ttl_ms > 0 then now + ttl_ms else 0)"

datatype set_mode = MODE_SET | MODE_ADD | MODE_REPLACE

definition shard_set ::
  "(nat \<Rightarrow> bool) \<Rightarrow> int \<Rightarrow> set_mode \<Rightarrow> u64 \<Rightarrow> bytes \<Rightarrow> xshared_value \<Rightarrow> int \<Rightarrow> shard \<Rightarrow> xshared_status \<times> shard" where
  "shard_set mem now mode h key val ttl_ms s =
     (let expire = expiry now ttl_ms; need = ENTRY_SIZE + length key + value_bytes val
      in if need > sh_budget s then (XSHARED_TOOBIG, s)
         else case shard_lookup h key now s of
                (found, s) \<Rightarrow>
                  if found \<noteq> None \<and> mode = MODE_ADD then (XSHARED_EXISTS, s)
                  else if found = None \<and> mode = MODE_REPLACE then (XSHARED_NOTFOUND, s)
                  else let s = (case found of None \<Rightarrow> s | Some a \<Rightarrow> entry_drop a s);
                           s = evict_until need s
                       in if \<not> mem need then (XSHARED_NOMEM, s)
                          else (XSHARED_OK, insert_entry mem need (entry_new h key val expire) s))"

definition shard_get ::
  "(nat \<Rightarrow> bool) \<Rightarrow> int \<Rightarrow> u64 \<Rightarrow> bytes \<Rightarrow> shard \<Rightarrow> (xshared_status \<times> xshared_value) \<times> shard" where
  "shard_get mem now h key s =
     (case shard_lookup h key now s of
        (None, s) \<Rightarrow> ((XSHARED_NOTFOUND, X_NIL), s)
      | (Some a, s) \<Rightarrow>
          let s = lru_touch a s; e = ent s a
          in case e_value e of
               X_STR bs \<Rightarrow>
                 if \<not> mem (if e_vlen e > 0 then e_vlen e else 1) then ((XSHARED_NOMEM, X_NIL), s)
                 else ((XSHARED_OK, X_STR (take (e_vlen e) bs)), s)
             | v \<Rightarrow> ((XSHARED_OK, v), s))"

definition shard_delete :: "int \<Rightarrow> u64 \<Rightarrow> bytes \<Rightarrow> shard \<Rightarrow> xshared_status \<times> shard" where
  "shard_delete now h key s =
     (case shard_lookup h key now s of
        (None, s) \<Rightarrow> (XSHARED_NOTFOUND, s)
      | (Some a, s) \<Rightarrow> (XSHARED_OK, entry_drop a s))"

text \<open>Changing the entry at an address.\<close>

definition upd_entry :: "addr \<Rightarrow> (entry \<Rightarrow> entry) \<Rightarrow> shard \<Rightarrow> shard" where
  "upd_entry a f s = s\<lparr>sh_heap := (sh_heap s)(a \<mapsto> f (ent s a))\<rparr>"

definition shard_incr ::
  "(nat \<Rightarrow> bool) \<Rightarrow> int \<Rightarrow> u64 \<Rightarrow> bytes \<Rightarrow> dbl \<Rightarrow> dbl \<Rightarrow> int \<Rightarrow> shard \<Rightarrow> (xshared_status \<times> dbl option) \<times> shard" where
  "shard_incr mem now h key delta init init_ttl_ms s =
     (case shard_lookup h key now s of
        (Some a, s) \<Rightarrow>
          (case e_value (ent s a) of
             X_NUM n \<Rightarrow>
               let n = dbl_add n delta
               in ((XSHARED_OK, Some n), lru_touch a (upd_entry a (\<lambda>e. e\<lparr>e_value := X_NUM n\<rparr>) s))
           | _ \<Rightarrow> ((XSHARED_NOTNUM, None), s))
      | (None, s) \<Rightarrow>
          let n = dbl_add init delta; expire = expiry now init_ttl_ms; need = ENTRY_SIZE + length key
          in if need > sh_budget s then ((XSHARED_TOOBIG, None), s)
             else let s = evict_until need s
                  in if \<not> mem need then ((XSHARED_NOMEM, None), s)
                     else ((XSHARED_OK, Some n), insert_entry mem need (entry_new h key (X_NUM n) expire) s))"

definition shard_expire :: "int \<Rightarrow> u64 \<Rightarrow> bytes \<Rightarrow> int \<Rightarrow> shard \<Rightarrow> xshared_status \<times> shard" where
  "shard_expire now h key ttl_ms s =
     (case shard_lookup h key now s of
        (None, s) \<Rightarrow> (XSHARED_NOTFOUND, s)
      | (Some a, s) \<Rightarrow> (XSHARED_OK, upd_entry a (\<lambda>e. e\<lparr>e_expire := expiry now ttl_ms\<rparr>) s))"

definition shard_ttl :: "int \<Rightarrow> u64 \<Rightarrow> bytes \<Rightarrow> shard \<Rightarrow> (xshared_status \<times> int option) \<times> shard" where
  "shard_ttl now h key s =
     (case shard_lookup h key now s of
        (None, s) \<Rightarrow> ((XSHARED_NOTFOUND, None), s)
      | (Some a, s) \<Rightarrow>
          ((XSHARED_OK, Some (if e_expire (ent s a) = 0 then -1 else e_expire (ent s a) - now)), s))"

section \<open>Operations on a dictionary\<close>

definition shard_index :: "xshared_dict \<Rightarrow> u64 \<Rightarrow> nat" where
  "shard_index d h = unat ((ucast (drop_bit 32 h) :: u32) AND d_mask d)"

text \<open>Running an operation on the shard of a key.\<close>

definition on_shard :: "bytes \<Rightarrow> (u64 \<Rightarrow> shard \<Rightarrow> 'r \<times> shard) \<Rightarrow> xshared_dict \<Rightarrow> 'r \<times> xshared_dict" where
  "on_shard key f d =
     (let h = hash_key key; i = shard_index d h; (r, s) = f h (d_shards d ! i)
      in (r, d\<lparr>d_shards := (d_shards d)[i := s]\<rparr>))"

definition do_set ::
  "(nat \<Rightarrow> bool) \<Rightarrow> int \<Rightarrow> set_mode \<Rightarrow> bytes \<Rightarrow> xshared_value \<Rightarrow> int \<Rightarrow> xshared_dict \<Rightarrow> xshared_status \<times> xshared_dict" where
  "do_set mem now mode key val ttl_ms d =
     (if val = X_NIL then (XSHARED_BADARG, d)
      else on_shard key (\<lambda>h. shard_set mem now mode h key val ttl_ms) d)"

definition xshared_set ::
  "(nat \<Rightarrow> bool) \<Rightarrow> int \<Rightarrow> bytes \<Rightarrow> xshared_value \<Rightarrow> int \<Rightarrow> xshared_dict \<Rightarrow> xshared_status \<times> xshared_dict" where
  "xshared_set mem now = do_set mem now MODE_SET"

definition xshared_add ::
  "(nat \<Rightarrow> bool) \<Rightarrow> int \<Rightarrow> bytes \<Rightarrow> xshared_value \<Rightarrow> int \<Rightarrow> xshared_dict \<Rightarrow> xshared_status \<times> xshared_dict" where
  "xshared_add mem now = do_set mem now MODE_ADD"

definition xshared_replace ::
  "(nat \<Rightarrow> bool) \<Rightarrow> int \<Rightarrow> bytes \<Rightarrow> xshared_value \<Rightarrow> int \<Rightarrow> xshared_dict \<Rightarrow> xshared_status \<times> xshared_dict" where
  "xshared_replace mem now = do_set mem now MODE_REPLACE"

definition xshared_get ::
  "(nat \<Rightarrow> bool) \<Rightarrow> int \<Rightarrow> bytes \<Rightarrow> xshared_dict \<Rightarrow> (xshared_status \<times> xshared_value) \<times> xshared_dict" where
  "xshared_get mem now key d = on_shard key (\<lambda>h. shard_get mem now h key) d"

definition xshared_delete :: "int \<Rightarrow> bytes \<Rightarrow> xshared_dict \<Rightarrow> xshared_status \<times> xshared_dict" where
  "xshared_delete now key d = on_shard key (\<lambda>h. shard_delete now h key) d"

definition xshared_incr ::
  "(nat \<Rightarrow> bool) \<Rightarrow> int \<Rightarrow> bytes \<Rightarrow> dbl \<Rightarrow> dbl \<Rightarrow> int \<Rightarrow> xshared_dict \<Rightarrow> (xshared_status \<times> dbl option) \<times> xshared_dict" where
  "xshared_incr mem now key delta init ttl d = on_shard key (\<lambda>h. shard_incr mem now h key delta init ttl) d"

definition xshared_expire :: "int \<Rightarrow> bytes \<Rightarrow> int \<Rightarrow> xshared_dict \<Rightarrow> xshared_status \<times> xshared_dict" where
  "xshared_expire now key ttl d = on_shard key (\<lambda>h. shard_expire now h key ttl) d"

definition xshared_ttl :: "int \<Rightarrow> bytes \<Rightarrow> xshared_dict \<Rightarrow> (xshared_status \<times> int option) \<times> xshared_dict" where
  "xshared_ttl now key d = on_shard key (\<lambda>h. shard_ttl now h key) d"

section \<open>Sweeping\<close>

text \<open>Unlinking an expired entry from the chain the sweep walks.\<close>

definition sweep_reap :: "nat \<Rightarrow> addr \<Rightarrow> shard \<Rightarrow> shard" where
  "sweep_reap bi a s =
     (let b = entry_bytes (ent s a);
          s = lru_unlink a (s\<lparr>sh_buckets := (sh_buckets s)[bi := remove1 a (sh_buckets s ! bi)]\<rparr>)
      in s\<lparr>sh_used := sh_used s - b, sh_count := sh_count s - 1, sh_expired := sh_expired s + 1,
            sh_heap := (sh_heap s)(a := None)\<rparr>)"

text \<open>A scan of a chain: whether it pauses, entries scanned so far, entries reaped so far.\<close>

fun sweep_chain :: "nat \<Rightarrow> int \<Rightarrow> nat \<Rightarrow> addr list \<Rightarrow> nat \<Rightarrow> nat \<Rightarrow> shard \<Rightarrow> bool \<times> nat \<times> nat \<times> shard" where
  "sweep_chain budget now bi [] scanned reaped s = (False, scanned, reaped, s)"
| "sweep_chain budget now bi (a # as) scanned reaped s =
     (let scanned = scanned + 1;
          dead = expired_at now (ent s a);
          reaped = (if dead then reaped + 1 else reaped);
          s = (if dead then sweep_reap bi a s else s)
      in if budget \<noteq> 0 \<and> scanned \<ge> budget then (True, scanned, reaped, s)
         else sweep_chain budget now bi as scanned reaped s)"

lemma sweep_reap_length [simp]: "length (sh_buckets (sweep_reap bi a s)) = length (sh_buckets s)"
  by (simp add: sweep_reap_def lru_unlink_def Let_def)

lemma sweep_chain_length:
  "sweep_chain budget now bi as scanned reaped s = (p, n, r, s') \<Longrightarrow>
     length (sh_buckets s') = length (sh_buckets s)"
  by (induction budget now bi as scanned reaped s rule: sweep_chain.induct)
     (auto simp: Let_def split: if_splits)

text \<open>The buckets from \<open>bi\<close> on; the first component is the bucket where the scan pauses.\<close>

function sweep_buckets :: "nat \<Rightarrow> int \<Rightarrow> nat \<Rightarrow> nat \<Rightarrow> nat \<Rightarrow> shard \<Rightarrow> nat option \<times> nat \<times> nat \<times> shard" where
  "sweep_buckets budget now bi scanned reaped s =
     (if bi \<ge> length (sh_buckets s) then (None, scanned, reaped, s)
      else case sweep_chain budget now bi (sh_buckets s ! bi) scanned reaped s of
             (True, scanned, reaped, s) \<Rightarrow> (Some bi, scanned, reaped, s)
           | (False, scanned, reaped, s) \<Rightarrow> sweep_buckets budget now (bi + 1) scanned reaped s)"
  by pat_completeness auto

termination
  by (relation "measure (\<lambda>(budget, now, bi, scanned, reaped, s). length (sh_buckets s) - bi)")
     (auto dest!: sweep_chain_length [OF sym])

declare sweep_buckets.simps [simp del]

primrec sweep_shards :: "nat \<Rightarrow> int \<Rightarrow> nat \<Rightarrow> nat \<Rightarrow> nat \<Rightarrow> nat \<Rightarrow> nat \<Rightarrow> xshared_dict \<Rightarrow> nat \<times> xshared_dict" where
  "sweep_shards budget now 0 si bi scanned reaped d =
     (reaped, d\<lparr>d_sweep_shard := si, d_sweep_bucket := 0\<rparr>)"
| "sweep_shards budget now (Suc n) si bi scanned reaped d =
     (let s = d_shards d ! si;
          bi = (if bi \<ge> length (sh_buckets s) then 0 else bi)
      in case sweep_buckets budget now bi scanned reaped s of
           (Some pause, scanned, reaped, s) \<Rightarrow>
             (reaped, d\<lparr>d_shards := (d_shards d)[si := s], d_sweep_shard := si, d_sweep_bucket := pause\<rparr>)
         | (None, scanned, reaped, s) \<Rightarrow>
             sweep_shards budget now n (unat ((of_nat si + 1) AND d_mask d)) 0 scanned reaped
               (d\<lparr>d_shards := (d_shards d)[si := s]\<rparr>))"

definition sweep_expired :: "nat \<Rightarrow> int \<Rightarrow> xshared_dict \<Rightarrow> nat \<times> xshared_dict" where
  "sweep_expired budget now d =
     sweep_shards budget now (unat (d_nshards d)) (d_sweep_shard d) (d_sweep_bucket d) 0 0 d"

section \<open>The registry\<close>

record registry =
  g_registry :: "xshared_dict list"
  g_reg_ready :: bool
  last_sweep_ms :: int

definition xshared_init :: "registry \<Rightarrow> registry" where
  "xshared_init g = (if g_reg_ready g then g else g\<lparr>g_reg_ready := True\<rparr>)"

definition xshared_tick :: "int \<Rightarrow> registry \<Rightarrow> registry" where
  "xshared_tick now g =
     (if last_sweep_ms g = 0 then g\<lparr>last_sweep_ms := now\<rparr>
      else if now - last_sweep_ms g < XSHARED_SWEEP_INTERVAL_MS then g
      else g\<lparr>last_sweep_ms := now,
             g_registry := map (\<lambda>d. snd (sweep_expired XSHARED_SWEEP_BUDGET now d)) (g_registry g)\<rparr>)"

record xshared_stats_t =
  st_capacity_bytes :: nat
  st_used_bytes :: nat
  st_item_count :: nat
  st_evicted :: u64
  st_expired :: u64
  st_nshards :: u32

definition xshared_stats :: "xshared_dict \<Rightarrow> xshared_stats_t" where
  "xshared_stats d =
     \<lparr>st_capacity_bytes = sum_list (map sh_budget (d_shards d)),
      st_used_bytes = sum_list (map sh_used (d_shards d)),
      st_item_count = sum_list (map sh_count (d_shards d)),
      st_evicted = sum_list (map sh_evicted (d_shards d)),
      st_expired = sum_list (map sh_expired (d_shards d)),
      st_nshards = d_nshards d\<rparr>"

definition name_char :: "u8 \<Rightarrow> bool" where
  "name_char c \<longleftrightarrow> 97 \<le> c \<and> c \<le> 122 \<or> 48 \<le> c \<and> c \<le> 57"

definition name_valid :: "bytes \<Rightarrow> bool" where
  "name_valid name \<longleftrightarrow>
     (let n = length name
      in \<not> (n < 3 \<or> n > XSHARED_MAX_NAME)
         \<and> 97 \<le> name ! 0 \<and> name ! 0 \<le> 122
         \<and> name ! (n - 1) \<noteq> 95
         \<and> list_all (\<lambda>c. c = 95 \<or> name_char c) name
         \<and> 95 \<in> set name)"

definition find_locked :: "bytes \<Rightarrow> registry \<Rightarrow> xshared_dict option" where
  "find_locked name g = find (\<lambda>d. d_name d = name) (g_registry g)"

definition xshared_get_dict :: "bytes \<Rightarrow> registry \<Rightarrow> xshared_dict option" where
  "xshared_get_dict name g = find_locked name g"

datatype create_site = Site_dict | Site_name | Site_shards | Site_buckets nat | Site_node

definition new_shard :: "nat \<Rightarrow> shard" where
  "new_shard per =
     \<lparr>sh_heap = Map.empty, sh_fresh = 0, sh_buckets = replicate XSHARED_INIT_BUCKETS [], sh_count = 0,
      sh_lru = [], sh_used = 0, sh_budget = per, sh_evicted = 0, sh_expired = 0\<rparr>"

text \<open>None is the division by zero the code reaches when the number of shards has been rounded to
  0 (more than 2 ^ 31 asked for).\<close>

definition create_locked ::
  "(create_site \<Rightarrow> bool) \<Rightarrow> bytes \<Rightarrow> nat \<Rightarrow> u32 \<Rightarrow> registry \<Rightarrow> (xshared_dict option \<times> registry) option" where
  "create_locked ok name budget_bytes nshards g =
     (let nshards = (if nshards = 0 then 8 else nshards);
          nshards = next_pow2_u32 nshards;
          nshards = (if nshards > XSHARED_MAX_SHARDS then XSHARED_MAX_SHARDS else nshards)
      in if \<not> ok Site_dict then Some (None, g)
         else if \<not> ok Site_name \<or> \<not> ok Site_shards then Some (None, g)
         else if nshards = 0 then None
         else let per = budget_bytes div unat nshards;
                  per = (if per < ENTRY_SIZE then ENTRY_SIZE else per)
              in if \<not> list_all (\<lambda>i. ok (Site_buckets i)) [0..<unat nshards] then Some (None, g)
                 else if \<not> ok Site_node then Some (None, g)
                 else let d = \<lparr>d_name = name, d_nshards = nshards, d_mask = nshards - 1,
                               d_shards = replicate (unat nshards) (new_shard per),
                               d_sweep_shard = 0, d_sweep_bucket = 0\<rparr>
                      in Some (Some d, g\<lparr>g_registry := d # g_registry g\<rparr>))"

text \<open>The result: the dictionary and whether this call created it.\<close>

definition xshared_get_or_create ::
  "(create_site \<Rightarrow> bool) \<Rightarrow> bytes \<Rightarrow> nat \<Rightarrow> u32 \<Rightarrow> registry \<Rightarrow> ((xshared_dict option \<times> bool) \<times> registry) option" where
  "xshared_get_or_create ok name budget_bytes nshards g =
     (if budget_bytes = 0 \<or> \<not> name_valid name then Some ((None, False), g)
      else case find_locked name g of
             Some d \<Rightarrow> Some ((Some d, False), g)
           | None \<Rightarrow>
               (case create_locked ok name budget_bytes nshards g of
                  None \<Rightarrow> None
                | Some (r, g) \<Rightarrow> Some ((r, r \<noteq> None), g)))"

definition xshared_create ::
  "(create_site \<Rightarrow> bool) \<Rightarrow> bytes \<Rightarrow> nat \<Rightarrow> u32 \<Rightarrow> registry \<Rightarrow> (xshared_dict option \<times> registry) option" where
  "xshared_create ok name budget_bytes nshards g =
     (case xshared_get_or_create ok name budget_bytes nshards g of
        None \<Rightarrow> None
      | Some ((d, created), g) \<Rightarrow> Some (if created then d else None, g))"

text \<open>The entries \<open>dict_free\<close> frees, shard by shard and chain by chain.\<close>

definition dict_free :: "xshared_dict \<Rightarrow> (nat \<times> addr) list" where
  "dict_free d =
     concat (map (\<lambda>i. map (Pair i) (concat (sh_buckets (d_shards d ! i)))) [0..<unat (d_nshards d)])"

definition xshared_shutdown :: "registry \<Rightarrow> (nat \<times> addr) list list \<times> registry" where
  "xshared_shutdown g = (map dict_free (g_registry g), g\<lparr>g_registry := [], g_reg_ready := False\<rparr>)"

end
