(* ===== verification/XSharedInv.thy ===== *)
theory XSharedInv
  imports XShared "HOL-Library.Multiset"
begin

text \<open>
  The invariant of a shard: bucket chains and recency list hold the same entries, every entry is in
  the bucket of its hash, keys are distinct, and the accounting is the sum over the entries and
  within the budget. A shard stands for the list of its items, most recent first; each primitive
  step of \<open>xshared.c\<close> (drop, evict, insert, touch, rewrite, grow) is the list operation it
  means.
\<close>

section \<open>The items of a shard\<close>

record item =
  it_key :: bytes
  it_value :: xshared_value
  it_expire :: int

definition item_of :: "entry \<Rightarrow> item" where
  "item_of e = \<lparr>it_key = e_key e, it_value = e_value e, it_expire = e_expire e\<rparr>"

lemma item_of_simps [simp]:
  "it_key (item_of e) = e_key e" "it_value (item_of e) = e_value e" "it_expire (item_of e) = e_expire e"
  by (simp_all add: item_of_def)

definition items :: "shard \<Rightarrow> item list" where
  "items s = map (\<lambda>a. item_of (ent s a)) (sh_lru s)"

definition cost :: "item \<Rightarrow> nat" where
  "cost i = ENTRY_SIZE + length (it_key i) + value_bytes (it_value i)"

abbreviation costs :: "item list \<Rightarrow> nat" where
  "costs c \<equiv> sum_list (map cost c)"

text \<open>An entry as \<open>entry_new\<close> makes it from a string below 4 GiB.\<close>

definition entry_ok :: "entry \<Rightarrow> bool" where
  "entry_ok e \<longleftrightarrow> e_hash e = hash_key (e_key e) \<and> e_vlen e = value_bytes (e_value e) \<and> e_value e \<noteq> X_NIL"

lemma entry_bytes_cost: "entry_ok e \<Longrightarrow> entry_bytes e = cost (item_of e)"
  by (cases "e_value e") (auto simp: entry_ok_def entry_bytes_def cost_def)

lemma cost_ge: "ENTRY_SIZE \<le> cost i"
  by (simp add: cost_def)

section \<open>Bucket indices\<close>

lemma bucket_index_pow2:
  assumes "k < 64"
  shows "bucket_index h (2 ^ k) = unat h mod 2 ^ k"
proof -
  have "(of_nat (2 ^ k) :: u64) - 1 = mask k" by (simp add: mask_eq_exp_minus_1)
  then have "bucket_index h (2 ^ k) = take_bit k (unat h)"
    by (simp add: bucket_index_def take_bit_eq_mask [symmetric] unsigned_take_bit_eq)
  then show ?thesis by (simp add: take_bit_eq_mod)
qed

section \<open>The invariant\<close>

abbreviation bidx :: "shard \<Rightarrow> addr \<Rightarrow> nat" where
  "bidx s a \<equiv> bucket_index (e_hash (ent s a)) (length (sh_buckets s))"

definition buckets_ok :: "shard \<Rightarrow> bool" where
  "buckets_ok s \<longleftrightarrow>
     (\<exists>k \<le> 58. length (sh_buckets s) = 2 ^ k)
     \<and> (\<forall>i < length (sh_buckets s). distinct (sh_buckets s ! i)
          \<and> set (sh_buckets s ! i) = {a \<in> set (sh_lru s). bidx s a = i})"

definition lru_ok :: "shard \<Rightarrow> bool" where
  "lru_ok s \<longleftrightarrow>
     distinct (sh_lru s) \<and> dom (sh_heap s) = set (sh_lru s) \<and> (\<forall>a \<in> set (sh_lru s). a < sh_fresh s)
     \<and> distinct (map (\<lambda>a. e_key (ent s a)) (sh_lru s)) \<and> (\<forall>a \<in> set (sh_lru s). entry_ok (ent s a))"

definition account_ok :: "shard \<Rightarrow> bool" where
  "account_ok s \<longleftrightarrow>
     sh_count s = length (sh_lru s) \<and> sh_used s = costs (items s) \<and> sh_used s \<le> sh_budget s \<and> sh_budget s < 2 ^ 63"

definition shard_inv :: "shard \<Rightarrow> bool" where
  "shard_inv s \<longleftrightarrow> buckets_ok s \<and> lru_ok s \<and> account_ok s"

lemma bidx_less: "buckets_ok s \<Longrightarrow> bucket_index h (length (sh_buckets s)) < length (sh_buckets s)"
  by (auto simp: buckets_ok_def bucket_index_pow2)

lemma new_shard_inv:
  assumes "per < 2 ^ 63"
  shows "shard_inv (new_shard per)" and "items (new_shard per) = []" and "sh_budget (new_shard per) = per"
proof -
  let ?s = "new_shard per"
  have len: "length (sh_buckets ?s) = 2 ^ 4" by (simp add: new_shard_def XSHARED_INIT_BUCKETS_def)
  have cells: "sh_buckets ?s ! i = []" if "i < length (sh_buckets ?s)" for i
    using that by (simp add: new_shard_def)
  have "sh_lru ?s = []" by (simp add: new_shard_def)
  then have "buckets_ok ?s"
    unfolding buckets_ok_def using len cells by (intro conjI exI [of _ 4] allI impI) simp_all
  moreover have "lru_ok ?s" by (simp add: lru_ok_def new_shard_def)
  moreover have "account_ok ?s" using assms by (simp add: account_ok_def new_shard_def items_def)
  ultimately show "shard_inv ?s" by (simp add: shard_inv_def)
qed (simp_all add: new_shard_def items_def)

section \<open>Finding an entry\<close>

lemma find_unique:
  assumes "x \<in> set xs" and "P x" and "\<And>y. y \<in> set xs \<Longrightarrow> P y \<Longrightarrow> y = x"
  shows "find P xs = Some x"
proof (cases "find P xs")
  case None
  with assms(1,2) show ?thesis by (simp add: find_None_iff)
next
  case (Some y)
  then have "y \<in> set xs" "P y" by (auto simp: find_Some_iff)
  from assms(3) [OF this] Some show ?thesis by simp
qed

lemma find_none: "(\<And>y. y \<in> set xs \<Longrightarrow> \<not> P y) \<Longrightarrow> find P xs = None"
  by (simp add: find_None_iff)

lemma lru_key_inj:
  "lru_ok s \<Longrightarrow> a \<in> set (sh_lru s) \<Longrightarrow> b \<in> set (sh_lru s) \<Longrightarrow> e_key (ent s a) = e_key (ent s b) \<Longrightarrow> a = b"
  by (simp add: lru_ok_def distinct_map inj_on_def)

text \<open>Searching the bucket of a key finds what searching all entries would find.\<close>

lemma bucket_find:
  assumes "shard_inv s"
  shows "find (\<lambda>a. e_hash (ent s a) = hash_key key \<and> e_key (ent s a) = key)
           (sh_buckets s ! bucket_index (hash_key key) (length (sh_buckets s)))
         = find (\<lambda>a. e_key (ent s a) = key) (sh_lru s)"
proof -
  let ?i = "bucket_index (hash_key key) (length (sh_buckets s))"
  from assms have b: "buckets_ok s" and l: "lru_ok s" by (simp_all add: shard_inv_def)
  have B: "set (sh_buckets s ! ?i) = {a \<in> set (sh_lru s). bidx s a = ?i}"
    using b bidx_less [OF b] by (simp add: buckets_ok_def)
  show ?thesis
  proof (cases "\<exists>a \<in> set (sh_lru s). e_key (ent s a) = key")
    case True
    then obtain a where a: "a \<in> set (sh_lru s)" "e_key (ent s a) = key" by blast
    then have h: "e_hash (ent s a) = hash_key key" using l by (auto simp: lru_ok_def entry_ok_def)
    have "find (\<lambda>a. e_hash (ent s a) = hash_key key \<and> e_key (ent s a) = key) (sh_buckets s ! ?i) = Some a"
      by (rule find_unique) (use a h B lru_key_inj [OF l] in auto)
    moreover have "find (\<lambda>a. e_key (ent s a) = key) (sh_lru s) = Some a"
      by (rule find_unique) (use a lru_key_inj [OF l] in auto)
    ultimately show ?thesis by simp
  next
    case False
    then have "find (\<lambda>a. e_hash (ent s a) = hash_key key \<and> e_key (ent s a) = key) (sh_buckets s ! ?i) = None"
      using B by (intro find_none) blast
    moreover have "find (\<lambda>a. e_key (ent s a) = key) (sh_lru s) = None"
      using False by (intro find_none) blast
    ultimately show ?thesis by simp
  qed
qed

text \<open>The item of a key, and the list without it.\<close>

definition c_find :: "bytes \<Rightarrow> item list \<Rightarrow> item option" where
  "c_find key c = find (\<lambda>i. it_key i = key) c"

definition c_drop :: "bytes \<Rightarrow> item list \<Rightarrow> item list" where
  "c_drop key c = filter (\<lambda>i. it_key i \<noteq> key) c"

lemma find_map: "find P (map f xs) = map_option f (find (\<lambda>x. P (f x)) xs)"
  by (induction xs) auto

lemma c_find_items:
  "c_find key (items s) = map_option (\<lambda>a. item_of (ent s a)) (find (\<lambda>a. e_key (ent s a) = key) (sh_lru s))"
  by (simp add: c_find_def items_def find_map)

lemma remove1_key:
  "distinct (map f xs) \<Longrightarrow> a \<in> set xs \<Longrightarrow> remove1 a xs = filter (\<lambda>x. f x \<noteq> f a) xs"
proof (induction xs)
  case (Cons x xs)
  show ?case
  proof (cases "x = a")
    case True
    with Cons.prems(1) have n: "f a \<notin> f ` set xs" by simp
    have "f y \<noteq> f a" if "y \<in> set xs" for y using n that by (metis imageI)
    with True show ?thesis by (simp add: filter_id_conv [THEN iffD2])
  next
    case False
    with Cons.prems have "f x \<noteq> f a" "a \<in> set xs" by force+
    with False Cons show ?thesis by simp
  qed
qed simp

section \<open>Dropping an entry\<close>

lemma counters_inv [simp]:
  "shard_inv (s\<lparr>sh_expired := x\<rparr>) = shard_inv s" "items (s\<lparr>sh_expired := x\<rparr>) = items s"
  "shard_inv (s\<lparr>sh_evicted := x\<rparr>) = shard_inv s" "items (s\<lparr>sh_evicted := x\<rparr>) = items s"
  by (simp_all add: shard_inv_def buckets_ok_def lru_ok_def account_ok_def items_def)

lemma entry_drop_fields:
  "sh_lru (entry_drop a s) = remove1 a (sh_lru s)"
  "sh_heap (entry_drop a s) = (sh_heap s)(a := None)"
  "sh_buckets (entry_drop a s) = (sh_buckets s)[bidx s a := remove1 a (sh_buckets s ! bidx s a)]"
  "sh_used (entry_drop a s) = sh_used s - entry_bytes (ent s a)"
  "sh_count (entry_drop a s) = sh_count s - 1"
  "sh_budget (entry_drop a s) = sh_budget s"
  "sh_fresh (entry_drop a s) = sh_fresh s"
  "sh_evicted (entry_drop a s) = sh_evicted s"
  "sh_expired (entry_drop a s) = sh_expired s"
  by (simp_all add: entry_drop_def lru_unlink_def bucket_remove_def Let_def)

lemma costs_items: "costs (items s) = (\<Sum>a\<leftarrow>sh_lru s. cost (item_of (ent s a)))"
  by (simp add: items_def o_def)

lemma items_cong:
  "sh_lru s' = as \<Longrightarrow> (\<And>a. a \<in> set as \<Longrightarrow> sh_heap s' a = sh_heap s a) \<Longrightarrow>
     items s' = map (\<lambda>a. item_of (ent s a)) as"
  by (simp add: items_def)

lemma entry_drop_items:
  assumes "lru_ok s" and "a \<in> set (sh_lru s)"
  shows "items (entry_drop a s) = c_drop (e_key (ent s a)) (items s)"
    and "items (entry_drop a s) = map (\<lambda>a. item_of (ent s a)) (remove1 a (sh_lru s))"
proof -
  have d: "distinct (sh_lru s)" "distinct (map (\<lambda>a. e_key (ent s a)) (sh_lru s))"
    using assms(1) by (simp_all add: lru_ok_def)
  show "items (entry_drop a s) = map (\<lambda>a. item_of (ent s a)) (remove1 a (sh_lru s))"
    by (rule items_cong) (use d in \<open>auto simp: entry_drop_fields\<close>)
  also have "\<dots> = c_drop (e_key (ent s a)) (items s)"
    unfolding remove1_key [OF d(2) assms(2)]
    by (simp add: c_drop_def items_def filter_map o_def)
  finally show "items (entry_drop a s) = c_drop (e_key (ent s a)) (items s)" .
qed

lemma entry_drop_inv:
  assumes "shard_inv s" and "a \<in> set (sh_lru s)"
  shows "shard_inv (entry_drop a s)"
proof -
  let ?s = "entry_drop a s"
  from assms have b: "buckets_ok s" and l: "lru_ok s" and c: "account_ok s" by (simp_all add: shard_inv_def)
  have d: "distinct (sh_lru s)" using l by (simp add: lru_ok_def)
  have e: "ent ?s x = ent s x" if "x \<noteq> a" for x using that by (simp add: entry_drop_fields)
  have lr: "x \<in> set (sh_lru ?s) \<longleftrightarrow> x \<in> set (sh_lru s) \<and> x \<noteq> a" for x
    using d by (auto simp: entry_drop_fields)
  have "buckets_ok ?s"
    unfolding buckets_ok_def
  proof (intro conjI allI impI)
    show "\<exists>k \<le> 58. length (sh_buckets ?s) = 2 ^ k" using b by (simp add: buckets_ok_def entry_drop_fields)
    fix i
    assume i: "i < length (sh_buckets ?s)"
    then have B: "distinct (sh_buckets s ! i)" "set (sh_buckets s ! i) = {x \<in> set (sh_lru s). bidx s x = i}"
      using b by (simp_all add: buckets_ok_def entry_drop_fields)
    have n: "sh_buckets ?s ! i = (if i = bidx s a then remove1 a (sh_buckets s ! i) else sh_buckets s ! i)"
      using i by (simp add: entry_drop_fields nth_list_update_if)
    then show "distinct (sh_buckets ?s ! i)" using distinct_remove1 [OF B(1)] B(1) by (metis (full_types))
    have "x \<in> set (sh_buckets ?s ! i) \<longleftrightarrow> x \<in> set (sh_lru ?s) \<and> bidx ?s x = i" for x
    proof (cases "x = a")
      case True
      with n B lr [of a] show ?thesis by (cases "i = bidx s a") auto
    next
      case False
      have "bidx ?s x = bidx s x" using e [OF False] by (simp add: entry_drop_fields(3))
      with False n B lr [of x] show ?thesis by (cases "i = bidx s a") auto
    qed
    then show "set (sh_buckets ?s ! i) = {x \<in> set (sh_lru ?s). bidx ?s x = i}" by blast
  qed
  moreover have "lru_ok ?s"
  proof -
    have "distinct (map (\<lambda>x. e_key (ent ?s x)) (sh_lru ?s)) = distinct (map (\<lambda>x. e_key (ent s x)) (sh_lru ?s))"
      by (rule arg_cong [where f = distinct]) (use lr e in auto)
    moreover have "distinct (map (\<lambda>x. e_key (ent s x)) (sh_lru ?s))"
      using l by (auto simp: lru_ok_def entry_drop_fields distinct_map intro: inj_on_diff)
    moreover have "dom (sh_heap ?s) = set (sh_lru ?s)"
      using l lr by (auto simp: lru_ok_def entry_drop_fields)
    moreover have "\<forall>x \<in> set (sh_lru ?s). x < sh_fresh ?s \<and> entry_ok (ent ?s x)"
      using l lr e by (auto simp: lru_ok_def entry_drop_fields(7))
    ultimately show ?thesis using d by (simp add: lru_ok_def entry_drop_fields(1))
  qed
  moreover have "account_ok ?s"
  proof -
    have "entry_bytes (ent s a) = cost (item_of (ent s a))"
      using l assms(2) by (intro entry_bytes_cost) (simp add: lru_ok_def)
    moreover have "costs (items s) = cost (item_of (ent s a)) + costs (items ?s)"
      unfolding entry_drop_items(2) [OF l assms(2)] costs_items
      using sum_list_map_remove1 [OF assms(2), of "\<lambda>x. cost (item_of (ent s x))"] by (simp add: o_def)
    ultimately show ?thesis
      using c assms(2) by (auto simp: account_ok_def entry_drop_fields length_remove1)
  qed
  ultimately show ?thesis by (simp add: shard_inv_def)
qed

lemma sweep_reap_drop:
  "bi = bidx s a \<Longrightarrow> sweep_reap bi a s = (entry_drop a s)\<lparr>sh_expired := sh_expired s + 1\<rparr>"
  by (simp add: sweep_reap_def entry_drop_def bucket_remove_def lru_unlink_def Let_def)

section \<open>Eviction\<close>

text \<open>The longest prefix of a list of items that fits into a number of bytes.\<close>

fun fitting :: "nat \<Rightarrow> item list \<Rightarrow> item list" where
  "fitting room [] = []"
| "fitting room (i # c) = (if cost i \<le> room then i # fitting (room - cost i) c else [])"

lemma fitting_all: "costs c \<le> room \<Longrightarrow> fitting room c = c"
  by (induction c arbitrary: room) auto

lemma fitting_costs: "costs (fitting room c) \<le> room"
  by (induction room c rule: fitting.induct) auto

lemma fitting_snoc: "room < costs (c @ [i]) \<Longrightarrow> fitting room (c @ [i]) = fitting room c"
  by (induction c arbitrary: room) auto

lemma fitting_subset: "set (fitting room c) \<subseteq> set c"
  by (induction room c rule: fitting.induct) auto

lemma evict_tail_items:
  assumes "shard_inv s" and "sh_lru s \<noteq> []"
  shows "shard_inv (evict_tail s)" and "items (evict_tail s) = butlast (items s)"
    and "sh_budget (evict_tail s) = sh_budget s"
proof -
  let ?a = "last (sh_lru s)" and ?s = "s\<lparr>sh_evicted := sh_evicted s + 1\<rparr>"
  have ev: "evict_tail s = entry_drop ?a ?s" using assms(2) by (simp add: evict_tail_def)
  have i: "shard_inv ?s" using assms(1) by simp
  then have l: "lru_ok ?s" by (simp add: shard_inv_def)
  have a: "?a \<in> set (sh_lru ?s)" using assms(2) by simp
  show "shard_inv (evict_tail s)" unfolding ev by (rule entry_drop_inv [OF i a])
  have "distinct (butlast (sh_lru s) @ [?a])" using l assms(2) by (simp add: lru_ok_def)
  then have "remove1 ?a (butlast (sh_lru s) @ [?a]) = butlast (sh_lru s)" by (simp add: remove1_append)
  then have "remove1 ?a (sh_lru s) = butlast (sh_lru s)" using assms(2) by simp
  then show "items (evict_tail s) = butlast (items s)"
    unfolding ev entry_drop_items(2) [OF l a] by (simp add: items_def map_butlast)
  show "sh_budget (evict_tail s) = sh_budget s" unfolding ev by (simp add: entry_drop_fields)
qed

text \<open>Evicting until an entry fits keeps the most recent entries that fit beside it.\<close>

lemma evict_until_spec:
  assumes "shard_inv s" and "need \<le> sh_budget s"
  shows "shard_inv (evict_until need s) \<and> items (evict_until need s) = fitting (sh_budget s - need) (items s)
    \<and> sh_budget (evict_until need s) = sh_budget s"
  using assms
proof (induction need s rule: evict_until.induct)
  case (1 need s)
  have u: "sh_used s = costs (items s)" using 1(2) by (simp add: shard_inv_def account_ok_def)
  show ?case
  proof (cases "sh_used s + need > sh_budget s \<and> sh_lru s \<noteq> []")
    case True
    note E = evict_tail_items [OF 1(2)]
    have ne: "items s \<noteq> []" using True by (simp add: items_def)
    have "sh_budget s - need < costs (butlast (items s) @ [last (items s)])"
      using conjunct1 [OF True] 1(3) u ne by simp
    from fitting_snoc [OF this] have "fitting (sh_budget s - need) (items s) = fitting (sh_budget s - need) (butlast (items s))"
      using ne by simp
    with 1(1) [OF True] E True 1(3) show ?thesis by (simp add: evict_until.simps [of need s])
  next
    case False
    then have f: "evict_until need s = s" by (subst evict_until.simps) (simp only: if_False)
    have "costs (items s) \<le> sh_budget s - need"
    proof (cases "sh_lru s = []")
      case True
      then show ?thesis by (simp add: items_def)
    qed (use False u in simp)
    with f 1(2) show ?thesis by (simp add: fitting_all)
  qed
qed

section \<open>Growing\<close>

lemma rehash_spec:
  assumes "distinct as" and "\<forall>a \<in> set as. f a < length nbuf" and "\<forall>i < length nbuf. distinct (nbuf ! i)"
    and "\<forall>i < length nbuf. set (nbuf ! i) \<inter> set as = {}"
  shows "length (foldl (\<lambda>nb a. nb[f a := a # nb ! f a]) nbuf as) = length nbuf
    \<and> (\<forall>i < length nbuf. distinct (foldl (\<lambda>nb a. nb[f a := a # nb ! f a]) nbuf as ! i)
        \<and> set (foldl (\<lambda>nb a. nb[f a := a # nb ! f a]) nbuf as ! i) = set (nbuf ! i) \<union> {a \<in> set as. f a = i})"
  using assms
proof (induction as arbitrary: nbuf)
  case (Cons a as)
  let ?nb = "nbuf[f a := a # nbuf ! f a]"
  have c: "?nb ! i = (if i = f a then a # nbuf ! i else nbuf ! i)" if "i < length nbuf" for i
    using that by (simp add: nth_list_update_if)
  have "\<forall>i < length ?nb. distinct (?nb ! i)" using Cons.prems c by auto
  moreover have "\<forall>i < length ?nb. set (?nb ! i) \<inter> set as = {}" using Cons.prems(1,4) c by auto
  ultimately have IH: "length (foldl (\<lambda>nb a. nb[f a := a # nb ! f a]) ?nb as) = length nbuf"
    "\<And>i. i < length nbuf \<Longrightarrow> distinct (foldl (\<lambda>nb a. nb[f a := a # nb ! f a]) ?nb as ! i)"
    "\<And>i. i < length nbuf \<Longrightarrow> set (foldl (\<lambda>nb a. nb[f a := a # nb ! f a]) ?nb as ! i) = set (?nb ! i) \<union> {a \<in> set as. f a = i}"
    using Cons.IH [of ?nb] Cons.prems(1,2) by simp_all
  show ?case
  proof (intro conjI allI impI)
    fix i
    assume i: "i < length nbuf"
    show "distinct (foldl (\<lambda>nb a. nb[f a := a # nb ! f a]) nbuf (a # as) ! i)"
      using IH(2) [OF i] by simp
    show "set (foldl (\<lambda>nb a. nb[f a := a # nb ! f a]) nbuf (a # as) ! i) = set (nbuf ! i) \<union> {x \<in> set (a # as). f x = i}"
      using IH(3) [OF i] c [OF i] by auto
  qed (use IH(1) in simp)
qed simp

lemma concat_buckets:
  assumes "buckets_ok s"
  shows "set (concat (sh_buckets s)) = set (sh_lru s)" and "distinct (concat (sh_buckets s))"
proof -
  have B: "distinct (sh_buckets s ! i)" "set (sh_buckets s ! i) = {x \<in> set (sh_lru s). bidx s x = i}"
    if "i < length (sh_buckets s)" for i using assms that by (simp_all add: buckets_ok_def)
  have C: "sh_buckets s = map (\<lambda>i. sh_buckets s ! i) [0..<length (sh_buckets s)]" by (simp add: map_nth)
  show "distinct (concat (sh_buckets s))"
    by (subst C) (rule distinct_concat_map, auto simp: B)
  have "x \<in> set (concat (sh_buckets s)) \<longleftrightarrow> x \<in> set (sh_lru s)" for x
    by (subst C) (use B bidx_less [OF assms, of "e_hash (ent s x)"] in auto)
  then show "set (concat (sh_buckets s)) = set (sh_lru s)" by blast
qed

lemma count_bound:
  assumes "account_ok s"
  shows "64 * sh_count s \<le> sh_budget s"
proof -
  have "64 * length c \<le> costs c" for c
    by (induction c) (simp_all add: cost_def ENTRY_SIZE_def)
  from this [of "items s"] assms show ?thesis by (simp add: account_ok_def items_def)
qed

lemma grow_fields:
  "sh_lru (shard_maybe_grow mem s) = sh_lru s" "sh_heap (shard_maybe_grow mem s) = sh_heap s"
  "sh_used (shard_maybe_grow mem s) = sh_used s" "sh_count (shard_maybe_grow mem s) = sh_count s"
  "sh_budget (shard_maybe_grow mem s) = sh_budget s" "sh_fresh (shard_maybe_grow mem s) = sh_fresh s"
  by (simp_all add: shard_maybe_grow_def Let_def)

lemma shard_grow_inv:
  assumes "shard_inv s"
  shows "shard_inv (shard_maybe_grow mem s)" and "items (shard_maybe_grow mem s) = items s"
proof -
  let ?s = "shard_maybe_grow mem s" and ?nb = "length (sh_buckets s) * 2"
  show it: "items ?s = items s" by (simp add: items_def grow_fields)
  from assms have b: "buckets_ok s" and l: "lru_ok s" and c: "account_ok s" by (simp_all add: shard_inv_def)
  have "buckets_ok ?s"
  proof (cases "sh_count s \<le> length (sh_buckets s) \<or> \<not> mem (?nb * 8)")
    case True
    then have "?s = s" by (auto simp: shard_maybe_grow_def Let_def)
    with b show ?thesis by simp
  next
    case False
    define f where "f a = bucket_index (e_hash (ent s a)) ?nb" for a
    have new: "sh_buckets ?s = foldl (\<lambda>nb a. nb[f a := a # nb ! f a]) (replicate ?nb []) (concat (sh_buckets s))"
      using False by (simp add: shard_maybe_grow_def Let_def f_def)
    obtain k where k: "length (sh_buckets s) = 2 ^ k" using b by (auto simp: buckets_ok_def)
    have "64 * (2 :: nat) ^ k < 2 ^ 63" using count_bound [OF c] c False k by (auto simp: account_ok_def)
    then have "(2 :: nat) ^ k < 2 ^ 57" by simp
    then have k57: "k < 57" by (rule power_less_imp_less_exp [rotated]) simp
    have nb: "?nb = 2 ^ Suc k" using k by simp
    have "\<forall>a \<in> set (concat (sh_buckets s)). f a < length (replicate ?nb [])"
    proof
      fix a
      have "f a < 2 ^ Suc k" unfolding f_def nb using bucket_index_pow2 [of "Suc k"] k57 by simp
      then show "f a < length (replicate ?nb [])" using nb by simp
    qed
    from rehash_spec [OF concat_buckets(2) [OF b] this] have
      len: "length (sh_buckets ?s) = ?nb" and
      R: "\<And>i. i < ?nb \<Longrightarrow> distinct (sh_buckets ?s ! i) \<and> set (sh_buckets ?s ! i) = {a \<in> set (sh_lru s). f a = i}"
      unfolding new concat_buckets(1) [OF b] by simp_all
    show ?thesis
      unfolding buckets_ok_def
    proof (intro conjI)
      show "\<exists>k \<le> 58. length (sh_buckets ?s) = 2 ^ k"
        using k57 len nb by (intro exI [of _ "Suc k"]) simp
      show "\<forall>i < length (sh_buckets ?s). distinct (sh_buckets ?s ! i)
          \<and> set (sh_buckets ?s ! i) = {a \<in> set (sh_lru ?s). bidx ?s a = i}"
        using R unfolding len grow_fields f_def by simp
    qed
  qed
  moreover have "lru_ok ?s" using l by (simp add: lru_ok_def grow_fields)
  moreover have "account_ok ?s" using c it by (simp add: account_ok_def grow_fields)
  ultimately show "shard_inv ?s" by (simp add: shard_inv_def)
qed

section \<open>Inserting, touching, rewriting\<close>

lemma insert_entry_inv:
  assumes "shard_inv s" and "entry_ok e" and "need = cost (item_of e)" and "costs (items s) + need \<le> sh_budget s"
    and "\<forall>a \<in> set (sh_lru s). e_key (ent s a) \<noteq> e_key e"
  shows "shard_inv (insert_entry mem need e s)"
    and "items (insert_entry mem need e s) = item_of e # items s"
    and "sh_budget (insert_entry mem need e s) = sh_budget s"
proof -
  let ?a = "sh_fresh s"
  let ?i = "bucket_index (e_hash e) (length (sh_buckets s))"
  define t where "t = s\<lparr>sh_heap := (sh_heap s)(?a \<mapsto> e), sh_fresh := ?a + 1,
    sh_buckets := (sh_buckets s)[?i := ?a # sh_buckets s ! ?i], sh_lru := ?a # sh_lru s,
    sh_used := sh_used s + need, sh_count := sh_count s + 1\<rparr>"
  have ins: "insert_entry mem need e s = shard_maybe_grow mem t"
    by (simp add: insert_entry_def bucket_insert_def lru_push_front_def Let_def t_def)
  from assms(1) have b: "buckets_ok s" and l: "lru_ok s" and c: "account_ok s" by (simp_all add: shard_inv_def)
  have new: "?a \<notin> set (sh_lru s)" using l by (auto simp: lru_ok_def)
  have e: "ent t ?a = e" and o: "\<And>x. x \<in> set (sh_lru s) \<Longrightarrow> ent t x = ent s x"
    using new by (auto simp: t_def)
  have it: "items t = item_of e # items s"
    using new by (auto simp: items_def t_def)
  have "buckets_ok t"
    unfolding buckets_ok_def
  proof (intro conjI allI impI)
    show "\<exists>k \<le> 58. length (sh_buckets t) = 2 ^ k" using b by (simp add: buckets_ok_def t_def)
    fix i
    assume i: "i < length (sh_buckets t)"
    then have B: "distinct (sh_buckets s ! i)" "set (sh_buckets s ! i) = {x \<in> set (sh_lru s). bidx s x = i}"
      using b by (simp_all add: buckets_ok_def t_def)
    have n: "sh_buckets t ! i = (if i = ?i then ?a # sh_buckets s ! i else sh_buckets s ! i)"
      using i by (simp add: t_def nth_list_update_if)
    have len: "length (sh_buckets t) = length (sh_buckets s)" by (simp add: t_def)
    have lr: "sh_lru t = ?a # sh_lru s" by (simp add: t_def)
    have ni: "?a \<notin> set (sh_buckets s ! i)" using B(2) new by blast
    show "distinct (sh_buckets t ! i)" unfolding n using B(1) ni by (cases "i = ?i") auto
    have x: "x \<in> set (sh_buckets t ! i) \<longleftrightarrow> x \<in> set (sh_lru t) \<and> bidx t x = i" for x
    proof (cases "x = ?a")
      case True
      with ni show ?thesis unfolding n lr len by (simp add: e)
    next
      case False
      have "x \<in> set (sh_buckets t ! i) \<longleftrightarrow> x \<in> set (sh_buckets s ! i)"
        unfolding n using False by (cases "i = ?i") auto
      also have "\<dots> \<longleftrightarrow> x \<in> set (sh_lru s) \<and> bidx s x = i" unfolding B(2) by blast
      also have "\<dots> \<longleftrightarrow> x \<in> set (sh_lru t) \<and> bidx t x = i"
        using False unfolding lr len by (cases "x \<in> set (sh_lru s)") (simp_all add: o)
      finally show ?thesis .
    qed
    then show "set (sh_buckets t ! i) = {x \<in> set (sh_lru t). bidx t x = i}" by blast
  qed
  moreover have "lru_ok t"
  proof -
    have "map (\<lambda>a. e_key (ent t a)) (sh_lru t) = e_key e # map (\<lambda>a. e_key (ent s a)) (sh_lru s)"
      using o new by (simp add: t_def)
    moreover have "distinct (e_key e # map (\<lambda>a. e_key (ent s a)) (sh_lru s))"
      using l assms(5) by (auto simp: lru_ok_def)
    ultimately have "distinct (map (\<lambda>a. e_key (ent t a)) (sh_lru t))" by (simp only:)
    moreover have "dom (sh_heap t) = set (sh_lru t)" using l by (simp add: lru_ok_def t_def)
    moreover have "\<forall>x \<in> set (sh_lru t). x < sh_fresh t \<and> entry_ok (ent t x)"
      using l o e assms(2) by (auto simp: lru_ok_def t_def)
    ultimately show ?thesis using l new by (simp add: lru_ok_def t_def)
  qed
  moreover have "account_ok t"
    using c assms(3,4) it by (simp add: account_ok_def t_def)
  ultimately have t: "shard_inv t" by (simp add: shard_inv_def)
  show "shard_inv (insert_entry mem need e s)" unfolding ins by (rule shard_grow_inv(1) [OF t])
  show "items (insert_entry mem need e s) = item_of e # items s" unfolding ins shard_grow_inv(2) [OF t] by (rule it)
  show "sh_budget (insert_entry mem need e s) = sh_budget s" unfolding ins by (simp add: grow_fields t_def)
qed

text \<open>Moving to the front and rewriting in place leave buckets and sums as they are.\<close>

lemma reorder_inv:
  assumes "shard_inv s" and "distinct as" and "set as = set (sh_lru s)" and "sh_lru s' = as"
    and "sh_heap s' = sh_heap s" and "sh_buckets s' = sh_buckets s" and "sh_used s' = sh_used s"
    and "sh_count s' = sh_count s" and "sh_budget s' = sh_budget s" and "sh_fresh s' = sh_fresh s"
  shows "shard_inv s'"
proof -
  from assms(1) have b: "buckets_ok s" and l: "lru_ok s" and c: "account_ok s" by (simp_all add: shard_inv_def)
  have "mset as = mset (sh_lru s)" using assms(2,3) l by (simp add: set_eq_iff_mset_eq_distinct lru_ok_def)
  then have "costs (items s') = costs (items s)" and "length as = length (sh_lru s)"
    unfolding costs_items assms(4) assms(5)
    by (metis mset_map sum_mset_sum_list) (metis size_mset \<open>mset as = mset (sh_lru s)\<close>)
  then have "account_ok s'" using c assms by (simp add: account_ok_def)
  moreover have "buckets_ok s'" using b assms by (simp add: buckets_ok_def)
  moreover have "lru_ok s'"
    using l assms by (auto simp: lru_ok_def distinct_map)
  ultimately show ?thesis by (simp add: shard_inv_def)
qed

lemma lru_touch_spec:
  assumes "shard_inv s" and "a \<in> set (sh_lru s)"
  shows "shard_inv (lru_touch a s)"
    and "items (lru_touch a s) = item_of (ent s a) # c_drop (e_key (ent s a)) (items s)"
    and "sh_budget (lru_touch a s) = sh_budget s"
    and "sh_heap (lru_touch a s) = sh_heap s"
proof -
  from assms have l: "lru_ok s" by (simp add: shard_inv_def)
  then have d: "distinct (sh_lru s)" by (simp add: lru_ok_def)
  have L: "sh_lru (lru_touch a s) = a # remove1 a (sh_lru s)"
    using assms(2) by (cases "sh_lru s") (auto simp: lru_touch_def lru_push_front_def lru_unlink_def)
  have F: "sh_heap (lru_touch a s) = sh_heap s" "sh_buckets (lru_touch a s) = sh_buckets s"
    "sh_used (lru_touch a s) = sh_used s" "sh_count (lru_touch a s) = sh_count s"
    "sh_budget (lru_touch a s) = sh_budget s" "sh_fresh (lru_touch a s) = sh_fresh s"
    by (simp_all add: lru_touch_def lru_push_front_def lru_unlink_def)
  show "shard_inv (lru_touch a s)"
    by (rule reorder_inv [OF assms(1) _ _ L F]) (use d assms(2) in auto)
  have "items (lru_touch a s) = item_of (ent s a) # map (\<lambda>a. item_of (ent s a)) (remove1 a (sh_lru s))"
    unfolding items_def L F by simp
  then show "items (lru_touch a s) = item_of (ent s a) # c_drop (e_key (ent s a)) (items s)"
    using entry_drop_items [OF l assms(2)] by simp
  show "sh_budget (lru_touch a s) = sh_budget s" "sh_heap (lru_touch a s) = sh_heap s" by (fact F)+
qed

text \<open>Replacing the item of a key where it stands.\<close>

definition c_update :: "bytes \<Rightarrow> (item \<Rightarrow> item) \<Rightarrow> item list \<Rightarrow> item list" where
  "c_update key f c = map (\<lambda>i. if it_key i = key then f i else i) c"

lemma upd_entry_spec:
  assumes "shard_inv s" and "a \<in> set (sh_lru s)" and "e_key (f (ent s a)) = e_key (ent s a)"
    and "entry_ok (f (ent s a))" and "item_of (f (ent s a)) = g (item_of (ent s a))"
    and "cost (g (item_of (ent s a))) = cost (item_of (ent s a))"
  shows "shard_inv (upd_entry a f s)"
    and "items (upd_entry a f s) = c_update (e_key (ent s a)) g (items s)"
    and "sh_budget (upd_entry a f s) = sh_budget s" and "sh_lru (upd_entry a f s) = sh_lru s"
    and "ent (upd_entry a f s) a = f (ent s a)"
proof -
  let ?s = "upd_entry a f s"
  from assms(1) have b: "buckets_ok s" and l: "lru_ok s" and c: "account_ok s" by (simp_all add: shard_inv_def)
  have E: "ent ?s x = (if x = a then f (ent s a) else ent s x)" for x by (simp add: upd_entry_def)
  have F: "sh_lru ?s = sh_lru s" "sh_buckets ?s = sh_buckets s" "sh_used ?s = sh_used s"
    "sh_count ?s = sh_count s" "sh_budget ?s = sh_budget s" "sh_fresh ?s = sh_fresh s"
    by (simp_all add: upd_entry_def)
  have ok: "entry_ok (ent s a)" using l assms(2) by (simp add: lru_ok_def)
  have H: "e_hash (ent ?s x) = e_hash (ent s x)" "e_key (ent ?s x) = e_key (ent s x)" for x
    using assms(3,4) ok by (auto simp: E entry_ok_def)
  have K: "e_key (ent s x) = e_key (ent s a) \<longleftrightarrow> x = a" if "x \<in> set (sh_lru s)" for x
    using lru_key_inj [OF l that assms(2)] by auto
  have "map (\<lambda>x. item_of (ent ?s x)) (sh_lru s)
      = map (\<lambda>x. if e_key (ent s x) = e_key (ent s a) then g (item_of (ent s x)) else item_of (ent s x)) (sh_lru s)"
  proof (rule map_cong [OF refl])
    fix x
    assume "x \<in> set (sh_lru s)"
    from K [OF this] assms(5) show "item_of (ent ?s x)
      = (if e_key (ent s x) = e_key (ent s a) then g (item_of (ent s x)) else item_of (ent s x))"
      by (cases "x = a") (simp_all add: E)
  qed
  then show it: "items ?s = c_update (e_key (ent s a)) g (items s)"
    by (simp add: items_def F c_update_def o_def)
  have cc: "costs (items ?s) = costs (items s)"
    unfolding costs_items F
    by (rule arg_cong [where f = sum_list], rule map_cong [OF refl]) (simp add: E assms(5,6))
  have "buckets_ok ?s" using b by (simp add: buckets_ok_def F H)
  moreover have "lru_ok ?s"
  proof -
    have "dom (sh_heap ?s) = set (sh_lru s)" using l assms(2) by (auto simp: lru_ok_def upd_entry_def)
    moreover have "\<forall>x \<in> set (sh_lru s). entry_ok (ent ?s x)" using l assms(4) by (simp add: lru_ok_def E)
    ultimately show ?thesis using l by (simp add: lru_ok_def F H)
  qed
  moreover have "account_ok ?s" using c cc by (simp add: account_ok_def F)
  ultimately show "shard_inv ?s" by (simp add: shard_inv_def)
  show "sh_budget ?s = sh_budget s" "sh_lru ?s = sh_lru s" by (fact F)+
  show "ent ?s a = f (ent s a)" by (simp add: E)
qed

section \<open>Looking up\<close>

definition dead :: "int \<Rightarrow> item \<Rightarrow> bool" where
  "dead now i \<longleftrightarrow> it_expire i \<noteq> 0 \<and> it_expire i \<le> now"

lemma expired_at_dead: "expired_at now e = dead now (item_of e)"
  by (simp add: expired_at_def dead_def)

text \<open>The items after the key was looked up: without it, when it has expired.\<close>

definition c_reap :: "bytes \<Rightarrow> int \<Rightarrow> item list \<Rightarrow> item list" where
  "c_reap key now c = filter (\<lambda>i. \<not> (it_key i = key \<and> dead now i)) c"

lemma c_find_reap_cases:
  assumes "distinct (map it_key c)"
  shows "c_find key c = None \<Longrightarrow> c_reap key now c = c"
    and "c_find key c = Some i \<Longrightarrow> dead now i \<Longrightarrow> c_reap key now c = c_drop key c"
    and "c_find key c = Some i \<Longrightarrow> \<not> dead now i \<Longrightarrow> c_reap key now c = c"
proof -
  have u: "j = i" if "c_find key c = Some i" "j \<in> set c" "it_key j = key" for i j
  proof -
    from that(1) have "i \<in> set c" "it_key i = key" by (auto simp: c_find_def find_Some_iff)
    with that assms show ?thesis by (auto simp: distinct_map inj_on_def)
  qed
  show "c_find key c = None \<Longrightarrow> c_reap key now c = c"
    by (auto simp: c_find_def find_None_iff c_reap_def filter_id_conv)
  show "c_reap key now c = c_drop key c" if i: "c_find key c = Some i" "dead now i"
    unfolding c_reap_def c_drop_def by (rule filter_cong [OF refl]) (use u [OF i(1)] i(2) in blast)
  show "c_reap key now c = c" if i: "c_find key c = Some i" "\<not> dead now i"
    unfolding c_reap_def filter_id_conv using u [OF i(1)] i(2) by blast
qed

lemma items_distinct: "lru_ok s \<Longrightarrow> distinct (map it_key (items s))"
  by (simp add: lru_ok_def items_def o_def)

text \<open>
  What a lookup does: it reaps the key when it has expired, and otherwise gives the address of its
  entry.
\<close>

lemma shard_lookup_spec:
  assumes "shard_inv s" and "shard_lookup (hash_key key) key now s = (r, s')"
  shows "shard_inv s'" and "sh_budget s' = sh_budget s" and "items s' = c_reap key now (items s)"
    and "(case r of None \<Rightarrow> c_find key (items s') = None
          | Some a \<Rightarrow> a \<in> set (sh_lru s') \<and> e_key (ent s' a) = key \<and> c_find key (items s') = Some (item_of (ent s' a))
              \<and> \<not> dead now (item_of (ent s' a)))"
proof -
  from assms(1) have l: "lru_ok s" by (simp add: shard_inv_def)
  note d = items_distinct [OF l]
  let ?f = "find (\<lambda>a. e_key (ent s a) = key) (sh_lru s)"
  have L: "shard_lookup (hash_key key) key now s =
     (case ?f of None \<Rightarrow> (None, s)
      | Some a \<Rightarrow> if expired_at now (ent s a) then (None, entry_drop a (s\<lparr>sh_expired := sh_expired s + 1\<rparr>)) else (Some a, s))"
    unfolding shard_lookup_def bucket_find [OF assms(1)] by simp
  have cf: "c_find key (items s) = map_option (\<lambda>a. item_of (ent s a)) ?f" by (rule c_find_items)
  have "shard_inv s' \<and> sh_budget s' = sh_budget s \<and> items s' = c_reap key now (items s) \<and>
     (case r of None \<Rightarrow> c_find key (items s') = None
      | Some a \<Rightarrow> a \<in> set (sh_lru s') \<and> e_key (ent s' a) = key \<and> c_find key (items s') = Some (item_of (ent s' a))
          \<and> \<not> dead now (item_of (ent s' a)))"
  proof (cases ?f)
    case None
    with L assms(2) have e: "r = None" "s' = s" by simp_all
    from None cf have "c_find key (items s) = None" by simp
    with c_find_reap_cases(1) [OF d this] assms(1) show ?thesis unfolding e by simp
  next
    case (Some a)
    then have a: "a \<in> set (sh_lru s)" "e_key (ent s a) = key" by (auto simp: find_Some_iff)
    from Some cf have fi: "c_find key (items s) = Some (item_of (ent s a))" by simp
    show ?thesis
    proof (cases "expired_at now (ent s a)")
      case True
      let ?t = "s\<lparr>sh_expired := sh_expired s + 1\<rparr>"
      from True Some L assms(2) have e: "r = None" "s' = entry_drop a ?t" by simp_all
      have t: "shard_inv ?t" "a \<in> set (sh_lru ?t)" using assms(1) a by simp_all
      have "lru_ok ?t" using t(1) by (simp add: shard_inv_def)
      from entry_drop_items(1) [OF this t(2)] have i: "items s' = c_drop key (items s)"
        using a(2) unfolding e by simp
      have "c_find key (c_drop key (items s)) = None" by (simp add: c_find_def c_drop_def find_None_iff)
      moreover have "c_reap key now (items s) = c_drop key (items s)"
        using c_find_reap_cases(2) [OF d fi] True by (simp add: expired_at_dead)
      moreover have "sh_budget s' = sh_budget s" unfolding e by (simp add: entry_drop_fields)
      moreover have "shard_inv s'" unfolding e by (rule entry_drop_inv [OF t])
      ultimately show ?thesis using i e(1) by simp
    next
      case False
      with Some L assms(2) have e: "r = Some a" "s' = s" by simp_all
      have "c_reap key now (items s) = items s"
        using c_find_reap_cases(3) [OF d fi] False by (simp add: expired_at_dead)
      with assms(1) a fi False show ?thesis unfolding e by (simp add: expired_at_dead)
    qed
  qed
  then show "shard_inv s'" "sh_budget s' = sh_budget s" "items s' = c_reap key now (items s)"
    "case r of None \<Rightarrow> c_find key (items s') = None
      | Some a \<Rightarrow> a \<in> set (sh_lru s') \<and> e_key (ent s' a) = key \<and> c_find key (items s') = Some (item_of (ent s' a))
          \<and> \<not> dead now (item_of (ent s' a))" by blast+
qed

end
