(* ===== verification/XSharedOps.thy ===== *)
theory XSharedOps
  imports XSharedInv
begin

text \<open>
  The specification of a shared dictionary: per shard a list of items, most recent first, that is
  cut to the longest prefix that fits beside a new item. Every operation of \<open>xshared.c\<close> on a shard
  with buckets, chains and running sums returns what the specification returns and leaves the
  items the specification leaves.
\<close>

section \<open>The specification of one shard\<close>

definition c_set ::
  "(nat \<Rightarrow> bool) \<Rightarrow> int \<Rightarrow> set_mode \<Rightarrow> bytes \<Rightarrow> xshared_value \<Rightarrow> int \<Rightarrow> nat \<Rightarrow> item list \<Rightarrow> xshared_status \<times> item list" where
  "c_set mem now mode key val ttl_ms budget c =
     (let i = \<lparr>it_key = key, it_value = val, it_expire = expiry now ttl_ms\<rparr>
      in if cost i > budget then (XSHARED_TOOBIG, c)
         else let c = c_reap key now c
              in if c_find key c \<noteq> None \<and> mode = MODE_ADD then (XSHARED_EXISTS, c)
                 else if c_find key c = None \<and> mode = MODE_REPLACE then (XSHARED_NOTFOUND, c)
                 else let c = fitting (budget - cost i) (c_drop key c)
                      in if mem (cost i) then (XSHARED_OK, i # c) else (XSHARED_NOMEM, c))"

definition c_get ::
  "(nat \<Rightarrow> bool) \<Rightarrow> int \<Rightarrow> bytes \<Rightarrow> item list \<Rightarrow> (xshared_status \<times> xshared_value) \<times> item list" where
  "c_get mem now key c =
     (let c = c_reap key now c
      in case c_find key c of
           None \<Rightarrow> ((XSHARED_NOTFOUND, X_NIL), c)
         | Some i \<Rightarrow> (if is_str (it_value i) \<and> \<not> mem (max 1 (value_bytes (it_value i))) then (XSHARED_NOMEM, X_NIL)
                      else (XSHARED_OK, it_value i), i # c_drop key c))"

definition c_delete :: "int \<Rightarrow> bytes \<Rightarrow> item list \<Rightarrow> xshared_status \<times> item list" where
  "c_delete now key c =
     (let c = c_reap key now c
      in if c_find key c = None then (XSHARED_NOTFOUND, c) else (XSHARED_OK, c_drop key c))"

definition c_incr ::
  "(nat \<Rightarrow> bool) \<Rightarrow> int \<Rightarrow> bytes \<Rightarrow> dbl \<Rightarrow> dbl \<Rightarrow> int \<Rightarrow> nat \<Rightarrow> item list \<Rightarrow> (xshared_status \<times> dbl option) \<times> item list" where
  "c_incr mem now key delta init init_ttl_ms budget c =
     (let c = c_reap key now c
      in case c_find key c of
           Some i \<Rightarrow>
             (case it_value i of
                X_NUM n \<Rightarrow> ((XSHARED_OK, Some (dbl_add n delta)), i\<lparr>it_value := X_NUM (dbl_add n delta)\<rparr> # c_drop key c)
              | _ \<Rightarrow> ((XSHARED_NOTNUM, None), c))
         | None \<Rightarrow>
             let i = \<lparr>it_key = key, it_value = X_NUM (dbl_add init delta), it_expire = expiry now init_ttl_ms\<rparr>
             in if cost i > budget then ((XSHARED_TOOBIG, None), c)
                else let c = fitting (budget - cost i) c
                     in if mem (cost i) then ((XSHARED_OK, Some (dbl_add init delta)), i # c)
                        else ((XSHARED_NOMEM, None), c))"

definition c_expire :: "int \<Rightarrow> bytes \<Rightarrow> int \<Rightarrow> item list \<Rightarrow> xshared_status \<times> item list" where
  "c_expire now key ttl_ms c =
     (let c = c_reap key now c
      in if c_find key c = None then (XSHARED_NOTFOUND, c)
         else (XSHARED_OK, c_update key (\<lambda>i. i\<lparr>it_expire := expiry now ttl_ms\<rparr>) c))"

definition c_ttl :: "int \<Rightarrow> bytes \<Rightarrow> item list \<Rightarrow> (xshared_status \<times> int option) \<times> item list" where
  "c_ttl now key c =
     (let c = c_reap key now c
      in (case c_find key c of
            None \<Rightarrow> (XSHARED_NOTFOUND, None)
          | Some i \<Rightarrow> (XSHARED_OK, Some (if it_expire i = 0 then -1 else it_expire i - now)), c))"

section \<open>Every operation of a shard refines it\<close>

text \<open>What a step must show: invariant, budget, result and items.\<close>

definition refines :: "shard \<Rightarrow> 'r \<times> shard \<Rightarrow> 'r \<times> item list \<Rightarrow> bool" where
  "refines s rs rc \<longleftrightarrow>
     shard_inv (snd rs) \<and> sh_budget (snd rs) = sh_budget s \<and> fst rs = fst rc \<and> items (snd rs) = snd rc"

lemma refinesI:
  "shard_inv t \<Longrightarrow> sh_budget t = sh_budget s \<Longrightarrow> r = q \<Longrightarrow> items t = c \<Longrightarrow> refines s (r, t) (q, c)"
  by (simp add: refines_def)

lemma entry_new_ok:
  "value_bytes val < 2 ^ 32 \<Longrightarrow> val \<noteq> X_NIL \<Longrightarrow>
     entry_ok (entry_new (hash_key key) key val ex) \<and>
     item_of (entry_new (hash_key key) key val ex) = \<lparr>it_key = key, it_value = val, it_expire = ex\<rparr>"
  by (simp add: entry_ok_def entry_new_def item_of_def)

lemma c_find_none: "c_find key c = None \<longleftrightarrow> (\<forall>i \<in> set c. it_key i \<noteq> key)"
  by (auto simp: c_find_def find_None_iff)

lemma c_drop_absent: "c_find key c = None \<Longrightarrow> c_drop key c = c"
  by (simp add: c_find_none c_drop_def filter_id_conv)

lemma c_find_drop [simp]: "c_find key (c_drop key c) = None"
  by (simp add: c_find_none c_drop_def)

lemma c_find_fitting: "c_find key c = None \<Longrightarrow> c_find key (fitting room c) = None"
  using fitting_subset by (auto simp: c_find_none)

lemma c_drop_update [simp]:
  "(\<And>i. it_key (f i) = it_key i) \<Longrightarrow> c_drop key (c_update key f c) = c_drop key c"
  by (induction c) (simp_all add: c_drop_def c_update_def)

text \<open>Making room and inserting, as \<open>do_set\<close> and \<open>xshared_incr\<close> end.\<close>

lemma evict_insert:
  assumes "shard_inv s" and "c_find key (items s) = None"
    and "value_bytes val < 2 ^ 32" and "val \<noteq> X_NIL"
    and "need = cost \<lparr>it_key = key, it_value = val, it_expire = ex\<rparr>" and "need \<le> sh_budget s"
  defines "t \<equiv> evict_until need s" and "c \<equiv> fitting (sh_budget s - need) (items s)"
  shows "shard_inv t \<and> sh_budget t = sh_budget s \<and> items t = c"
    and "shard_inv (insert_entry mem need (entry_new (hash_key key) key val ex) t)"
    and "sh_budget (insert_entry mem need (entry_new (hash_key key) key val ex) t) = sh_budget s"
    and "items (insert_entry mem need (entry_new (hash_key key) key val ex) t)
           = \<lparr>it_key = key, it_value = val, it_expire = ex\<rparr> # c"
proof -
  let ?e = "entry_new (hash_key key) key val ex"
  have e: "entry_ok ?e" "item_of ?e = \<lparr>it_key = key, it_value = val, it_expire = ex\<rparr>"
    using entry_new_ok [OF assms(3,4)] by simp_all
  show t: "shard_inv t \<and> sh_budget t = sh_budget s \<and> items t = c"
    unfolding t_def c_def using evict_until_spec [OF assms(1,6)] by blast
  have n: "need = cost (item_of ?e)" using assms(5) e(2) by simp
  have "costs (items t) \<le> sh_budget s - need" using t fitting_costs unfolding c_def by simp
  then have room: "costs (items t) + need \<le> sh_budget t" using t assms(6) by simp
  have "c_find key (items t) = None" using t c_find_fitting [OF assms(2)] unfolding c_def by simp
  then have fresh: "\<forall>a \<in> set (sh_lru t). e_key (ent t a) \<noteq> e_key ?e"
    by (simp add: c_find_none items_def entry_new_def)
  note I = insert_entry_inv [OF conjunct1 [OF t] e(1) n room fresh, of mem]
  show "shard_inv (insert_entry mem need ?e t)" by (rule I(1))
  show "sh_budget (insert_entry mem need ?e t) = sh_budget s" using I(3) t by simp
  show "items (insert_entry mem need ?e t) = \<lparr>it_key = key, it_value = val, it_expire = ex\<rparr> # c"
    using I(2) t e(2) by simp
qed

text \<open>The entry of a key that was just looked up, dropped or not there.\<close>

lemma drop_found:
  assumes "shard_inv s" and "case r of None \<Rightarrow> c_find key (items s) = None
      | Some a \<Rightarrow> a \<in> set (sh_lru s) \<and> e_key (ent s a) = key \<and> Q a"
  defines "t \<equiv> (case r of None \<Rightarrow> s | Some a \<Rightarrow> entry_drop a s)"
  shows "shard_inv t \<and> sh_budget t = sh_budget s \<and> items t = c_drop key (items s)"
proof (cases r)
  case None
  with assms show ?thesis by (simp add: c_drop_absent)
next
  case (Some a)
  with assms(2) have a: "a \<in> set (sh_lru s)" "e_key (ent s a) = key" by auto
  have "lru_ok s" using assms(1) by (simp add: shard_inv_def)
  from entry_drop_items(1) [OF this a(1)] entry_drop_inv [OF assms(1) a(1)] a(2) Some show ?thesis
    unfolding t_def by (simp add: entry_drop_fields)
qed

lemma shard_set_refines:
  assumes "shard_inv s" and "value_bytes val < 2 ^ 32" and "val \<noteq> X_NIL"
  shows "refines s (shard_set mem now mode (hash_key key) key val ttl s)
           (c_set mem now mode key val ttl (sh_budget s) (items s))"
proof -
  let ?i = "\<lparr>it_key = key, it_value = val, it_expire = expiry now ttl\<rparr>"
  let ?need = "ENTRY_SIZE + length key + value_bytes val"
  have need: "?need = cost ?i" by (simp add: cost_def)
  show ?thesis
  proof (cases "?need > sh_budget s")
    case True
    with assms(1) show ?thesis by (simp add: shard_set_def c_set_def need [symmetric] refines_def)
  next
    case fits: False
    obtain r t where L: "shard_lookup (hash_key key) key now s = (r, t)" by fastforce
    note S = shard_lookup_spec [OF assms(1) L]
    have found: "r = None \<longleftrightarrow> c_find key (c_reap key now (items s)) = None"
      using S(3,4) by (cases r) auto
    define u where "u = (case r of None \<Rightarrow> t | Some a \<Rightarrow> entry_drop a t)"
    have U: "shard_inv u \<and> sh_budget u = sh_budget t \<and> items u = c_drop key (items t)"
      unfolding u_def by (rule drop_found [OF S(1) S(4)])
    have none: "c_find key (items u) = None" using U by simp
    have room: "?need \<le> sh_budget u" using U S(2) fits by simp
    note I = evict_insert [OF conjunct1 [OF U] none assms(2,3) need room]
    have B: "sh_budget u = sh_budget s" and C: "items u = c_drop key (c_reap key now (items s))"
      using U S(2,3) by simp_all
    show ?thesis
      unfolding shard_set_def c_set_def need [symmetric] Let_def L prod.case u_def [symmetric]
      using fits found S(1-3) I unfolding B C by (auto simp: refines_def)
  qed
qed

text \<open>The entry a lookup found is valid, so its string has the stored length.\<close>

lemma found_ok:
  "shard_inv s \<Longrightarrow> a \<in> set (sh_lru s) \<Longrightarrow> entry_ok (ent s a)"
  by (simp add: shard_inv_def lru_ok_def)

lemma shard_get_refines:
  assumes "shard_inv s"
  shows "refines s (shard_get mem now (hash_key key) key s) (c_get mem now key (items s))"
proof -
  obtain r t where L: "shard_lookup (hash_key key) key now s = (r, t)" by fastforce
  note S = shard_lookup_spec [OF assms L]
  show ?thesis
  proof (cases r)
    case None
    with S show ?thesis by (auto simp: shard_get_def c_get_def L Let_def refines_def)
  next
    case (Some a)
    with S(4) have a: "a \<in> set (sh_lru t)" "e_key (ent t a) = key" "c_find key (items t) = Some (item_of (ent t a))"
      by auto
    note T = lru_touch_spec [OF S(1) a(1)]
    have v: "e_vlen (ent t a) = value_bytes (e_value (ent t a))"
      using found_ok [OF S(1) a(1)] by (simp add: entry_ok_def)
    have m: "(if 0 < n then n else 1) = max 1 n" for n :: nat by auto
    show ?thesis
      using T S(2) a v unfolding shard_get_def c_get_def L Some S(3) [symmetric] Let_def m
      by (cases "e_value (ent t a)") (auto simp: refines_def)
  qed
qed

lemma shard_delete_refines:
  assumes "shard_inv s"
  shows "refines s (shard_delete now (hash_key key) key s) (c_delete now key (items s))"
proof -
  obtain r t where L: "shard_lookup (hash_key key) key now s = (r, t)" by fastforce
  note S = shard_lookup_spec [OF assms L]
  from drop_found [OF S(1) S(4)] S show ?thesis
    by (cases r) (auto simp: shard_delete_def c_delete_def L Let_def refines_def)
qed

lemma shard_expire_refines:
  assumes "shard_inv s"
  shows "refines s (shard_expire now (hash_key key) key ttl s) (c_expire now key ttl (items s))"
proof -
  obtain r t where L: "shard_lookup (hash_key key) key now s = (r, t)" by fastforce
  note S = shard_lookup_spec [OF assms L]
  show ?thesis
  proof (cases r)
    case None
    with S show ?thesis by (auto simp: shard_expire_def c_expire_def L Let_def refines_def)
  next
    case (Some a)
    let ?f = "\<lambda>e. e\<lparr>e_expire := expiry now ttl\<rparr>" and ?g = "\<lambda>i. i\<lparr>it_expire := expiry now ttl\<rparr>"
    from Some S(4) have a: "a \<in> set (sh_lru t)" "e_key (ent t a) = key" "c_find key (items t) = Some (item_of (ent t a))"
      by auto
    have "entry_ok (?f (ent t a))" using found_ok [OF S(1) a(1)] by (simp add: entry_ok_def)
    moreover have "cost (?g (item_of (ent t a))) = cost (item_of (ent t a))" by (simp add: cost_def)
    moreover have "item_of (?f (ent t a)) = ?g (item_of (ent t a))" by (simp add: item_of_def)
    ultimately have U: "shard_inv (upd_entry a ?f t)" "items (upd_entry a ?f t) = c_update key ?g (items t)"
      "sh_budget (upd_entry a ?f t) = sh_budget t"
      using upd_entry_spec [OF S(1) a(1), of ?f ?g] a(2) by simp_all
    with a S(2) show ?thesis
      unfolding shard_expire_def c_expire_def L Some S(3) [symmetric] Let_def by (simp add: refines_def)
  qed
qed

lemma shard_ttl_refines:
  assumes "shard_inv s"
  shows "refines s (shard_ttl now (hash_key key) key s) (c_ttl now key (items s))"
proof -
  obtain r t where L: "shard_lookup (hash_key key) key now s = (r, t)" by fastforce
  note S = shard_lookup_spec [OF assms L]
  then show ?thesis by (cases r) (auto simp: shard_ttl_def c_ttl_def L Let_def refines_def)
qed

lemma shard_incr_refines:
  assumes "shard_inv s"
  shows "refines s (shard_incr mem now (hash_key key) key delta init ttl s)
           (c_incr mem now key delta init ttl (sh_budget s) (items s))"
proof -
  obtain r t where L: "shard_lookup (hash_key key) key now s = (r, t)" by fastforce
  note S = shard_lookup_spec [OF assms L]
  show ?thesis
  proof (cases r)
    case None
    let ?v = "X_NUM (dbl_add init delta)"
    let ?i = "\<lparr>it_key = key, it_value = ?v, it_expire = expiry now ttl\<rparr>"
    from None S(4) have none: "c_find key (items t) = None" by simp
    have need: "ENTRY_SIZE + length key = cost ?i" by (simp add: cost_def)
    show ?thesis
    proof (cases "cost ?i > sh_budget s")
      case True
      with S none None show ?thesis
        by (auto simp: shard_incr_def c_incr_def L Let_def refines_def need [symmetric] S(3) [symmetric])
    next
      case False
      then have room: "cost ?i \<le> sh_budget t" using S(2) by simp
      have v: "value_bytes ?v < 2 ^ 32" "?v \<noteq> X_NIL" by simp_all
      note I = evict_insert [OF S(1) none v refl room]
      show ?thesis
        unfolding shard_incr_def c_incr_def need L None S(3) [symmetric] none Let_def
        using False S(2) I by (auto simp: refines_def none)
    qed
  next
    case (Some a)
    from Some S(4) have a: "a \<in> set (sh_lru t)" "e_key (ent t a) = key" "c_find key (items t) = Some (item_of (ent t a))"
      by auto
    show ?thesis
    proof (cases "\<exists>n. e_value (ent t a) = X_NUM n")
      case False
      then have "refines s ((XSHARED_NOTNUM, None), t) ((XSHARED_NOTNUM, None :: dbl option), items t)"
        using S by (intro refinesI) simp_all
      with False a show ?thesis
        unfolding shard_incr_def c_incr_def L Some S(3) [symmetric] Let_def
        by (cases "e_value (ent t a)") simp_all
    next
      case True
      then obtain n where n: "e_value (ent t a) = X_NUM n" by blast
      let ?n = "X_NUM (dbl_add n delta)"
      let ?f = "\<lambda>e. e\<lparr>e_value := ?n\<rparr>" and ?g = "\<lambda>i. i\<lparr>it_value := ?n\<rparr>"
      have "entry_ok (?f (ent t a))" using found_ok [OF S(1) a(1)] n by (simp add: entry_ok_def)
      moreover have "cost (?g (item_of (ent t a))) = cost (item_of (ent t a))" using n by (simp add: cost_def)
      moreover have g: "item_of (?f (ent t a)) = ?g (item_of (ent t a))" by (simp add: item_of_def)
      ultimately have U: "shard_inv (upd_entry a ?f t)" "items (upd_entry a ?f t) = c_update key ?g (items t)"
        "sh_budget (upd_entry a ?f t) = sh_budget t" "sh_lru (upd_entry a ?f t) = sh_lru t"
        "ent (upd_entry a ?f t) a = ?f (ent t a)"
        using upd_entry_spec [OF S(1) a(1), of ?f ?g] a(2) by simp_all
      have au: "a \<in> set (sh_lru (upd_entry a ?f t))" using U(4) a(1) by simp
      note T = lru_touch_spec [OF U(1) au, unfolded U(5) g U(2)]
      have "items (lru_touch a (upd_entry a ?f t)) = ?g (item_of (ent t a)) # c_drop key (items t)"
        using T(2) a(2) by simp
      then show ?thesis
        unfolding shard_incr_def c_incr_def L Some S(3) [symmetric] Let_def
        using n a T(1,3) U(3) S(2) by (simp add: refines_def)
    qed
  qed
qed

end
