(* ===== verification/XSharedDict.thy ===== *)
theory XSharedDict
  imports XSharedOps
begin

text \<open>
  Dictionaries of shards: creation with a power of two of shards, routing of keys, runs of
  operations against a list of specifications, and the sweeper, which removes expired entries
  only and stops where its budget ends.
\<close>

section \<open>The number of shards\<close>

lemma unat_exp32: "k \<le> 31 \<Longrightarrow> unat (2 ^ k :: u32) = 2 ^ k"
proof -
  assume "k \<le> 31"
  have "unat (of_nat (2 ^ k) :: u32) = take_bit 32 (2 ^ k)" by (simp only: unsigned_of_nat) simp
  also have "\<dots> = 2 ^ k"
    using \<open>k \<le> 31\<close> by (intro take_bit_nat_eq_self power_strict_increasing) auto
  finally show ?thesis by simp
qed

lemma next_pow2_u32_spec:
  assumes "0 < unat v" and "unat v \<le> 2 ^ 31"
  shows "\<exists>k \<le> 31. next_pow2_u32 v = 2 ^ k \<and> unat v \<le> 2 ^ k \<and> (\<forall>l. unat v \<le> 2 ^ l \<longrightarrow> k \<le> l)"
proof -
  define s where "s = v - 1"
  have v0: "v \<noteq> 0" using assms(1) by auto
  then have us: "unat s = unat v - 1" unfolding s_def by (rule unat_minus_one)
  let ?s1 = "s OR drop_bit 1 s"
  let ?s2 = "?s1 OR drop_bit 2 ?s1"
  let ?s3 = "?s2 OR drop_bit 4 ?s2"
  let ?s4 = "?s3 OR drop_bit 8 ?s3"
  let ?s5 = "?s4 OR drop_bit 16 ?s4"
  have "smeared s 2 ?s1" by (rule smeared_step [OF smeared_start]) simp
  then have "smeared s 4 ?s2" by (rule smeared_step) simp
  then have "smeared s 8 ?s3" by (rule smeared_step) simp
  then have "smeared s 16 ?s4" by (rule smeared_step) simp
  then have "smeared s 32 ?s5" by (rule smeared_step) simp
  from smeared_is_mask [OF this] obtain k where
    k: "?s5 = mask k" "unat s < 2 ^ k" "\<And>l. unat s < 2 ^ l \<Longrightarrow> k \<le> l" by auto
  have "unat s < 2 ^ 31" using us assms by simp
  then have k31: "k \<le> 31" by (rule k(3))
  have "\<not> v < 1" using v0 by (simp add: word_less_nat_alt unat_gt_0)
  then have "next_pow2_u32 v = ?s5 + 1"
    unfolding next_pow2_u32_def Let_def s_def by (simp only: if_False)
  also have "\<dots> = 2 ^ k" using k(1) by (simp add: mask_eq_exp_minus_1)
  finally have n: "next_pow2_u32 v = 2 ^ k" .
  have "k \<le> l" if "unat v \<le> 2 ^ l" for l using k(3) [of l] us assms(1) that by simp
  then show ?thesis using n k31 k(2) us assms(1) by (intro exI [of _ k]) simp
qed

lemma next_pow2_u32_overflow:
  assumes "2 ^ 31 < unat v"
  shows "next_pow2_u32 v = 0"
proof -
  define s where "s = v - 1"
  have v0: "v \<noteq> 0" using assms by auto
  then have us: "unat s = unat v - 1" unfolding s_def by (rule unat_minus_one)
  let ?s1 = "s OR drop_bit 1 s"
  let ?s2 = "?s1 OR drop_bit 2 ?s1"
  let ?s3 = "?s2 OR drop_bit 4 ?s2"
  let ?s4 = "?s3 OR drop_bit 8 ?s3"
  let ?s5 = "?s4 OR drop_bit 16 ?s4"
  have "smeared s 2 ?s1" by (rule smeared_step [OF smeared_start]) simp
  then have "smeared s 4 ?s2" by (rule smeared_step) simp
  then have "smeared s 8 ?s3" by (rule smeared_step) simp
  then have "smeared s 16 ?s4" by (rule smeared_step) simp
  then have "smeared s 32 ?s5" by (rule smeared_step) simp
  from smeared_is_mask [OF this] obtain k where
    k: "k \<le> 32" "?s5 = mask k" "unat s < 2 ^ k" by auto
  have "(2 :: nat) ^ 31 < 2 ^ k" using k(3) us assms by simp
  then have "31 < k" by (rule power_less_imp_less_exp [rotated]) simp
  with k(1) have "k = 32" by simp
  then have "mask k + 1 = (0 :: u32)" by (simp add: mask_eq_exp_minus_1)
  moreover have "\<not> v < 1" using v0 by (simp add: word_less_nat_alt unat_gt_0)
  ultimately show ?thesis using k(2) unfolding next_pow2_u32_def Let_def s_def by (simp only: if_False)
qed

section \<open>Dictionaries\<close>

text \<open>A dictionary of \<open>n\<close> shards of \<open>B\<close> bytes each, and the shard of a key.\<close>

definition dict_ok :: "nat \<Rightarrow> nat \<Rightarrow> xshared_dict \<Rightarrow> bool" where
  "dict_ok n B d \<longleftrightarrow>
     (\<exists>k \<le> 10. n = 2 ^ k) \<and> unat (d_nshards d) = n \<and> d_mask d = d_nshards d - 1 \<and> length (d_shards d) = n
     \<and> d_sweep_shard d < n \<and> (\<forall>s \<in> set (d_shards d). shard_inv s \<and> sh_budget s = B)"

definition route :: "nat \<Rightarrow> bytes \<Rightarrow> nat" where
  "route n key = unat (drop_bit 32 (hash_key key)) mod n"

lemma mask_index:
  assumes "unat m = n" and "n = 2 ^ k" and "k \<le> 10"
  shows "unat (x AND (m - 1 :: u32)) = unat x mod n"
proof -
  have "m = of_nat n" using assms(1) by (metis of_nat_unat ucast_id)
  then have "m - 1 = mask k" using assms(2) by (simp add: mask_eq_exp_minus_1)
  then show ?thesis
    unfolding assms(2) by (simp add: take_bit_eq_mask [symmetric] unsigned_take_bit_eq) (simp add: take_bit_eq_mod)
qed

lemma shard_index_route:
  assumes "dict_ok n B d"
  shows "shard_index d (hash_key key) = route n key" and "route n key < n"
proof -
  from assms obtain k where k: "k \<le> 10" "n = 2 ^ k" and u: "unat (d_nshards d) = n"
    and m: "d_mask d = d_nshards d - 1" by (auto simp: dict_ok_def)
  have "unat (ucast (drop_bit 32 (hash_key key)) :: u32) = unat (drop_bit 32 (hash_key key))"
  proof -
    have "unat (drop_bit 32 (hash_key key)) = unat (hash_key key) div 2 ^ 32"
      using unat_drop_bit_eq [of 32 "hash_key key"] by (simp only: drop_bit_eq_div)
    also have "\<dots> < 2 ^ 32" using unsigned_less [of "hash_key key", where 'a = nat] by (simp add: less_mult_imp_div_less)
    finally show ?thesis by (simp add: unsigned_ucast_eq take_bit_nat_eq_self)
  qed
  then show "shard_index d (hash_key key) = route n key"
    unfolding shard_index_def m route_def using mask_index [OF u k(2,1)] by simp
  show "route n key < n" using k by (simp add: route_def)
qed

text \<open>What a dictionary stands for.\<close>

definition contents :: "xshared_dict \<Rightarrow> item list list" where
  "contents d = map items (d_shards d)"

lemma on_shard_refines:
  assumes "dict_ok n B d"
    and "\<And>s. shard_inv s \<Longrightarrow> sh_budget s = B \<Longrightarrow> refines s (f (hash_key key) s) (g (items s))"
    and "on_shard key f d = (r, d')"
  shows "dict_ok n B d'" and "g (contents d ! route n key) = (r, contents d' ! route n key)"
    and "contents d' = (contents d)[route n key := contents d' ! route n key]"
proof -
  let ?i = "route n key"
  note i = shard_index_route [OF assms(1), of key]
  have len: "length (d_shards d) = n" using assms(1) by (simp add: dict_ok_def)
  have "d_shards d ! ?i \<in> set (d_shards d)" using i(2) len by simp
  with assms(1) have s: "shard_inv (d_shards d ! ?i)" "sh_budget (d_shards d ! ?i) = B" by (auto simp: dict_ok_def)
  obtain q t where q: "f (hash_key key) (d_shards d ! ?i) = (q, t)" by fastforce
  from assms(3) have r: "r = q" and d': "d' = d\<lparr>d_shards := (d_shards d)[?i := t]\<rparr>"
    by (simp_all add: on_shard_def i(1) q Let_def)
  from assms(2) [OF s] have R: "shard_inv t" "sh_budget t = B" "g (items (d_shards d ! ?i)) = (q, items t)"
    unfolding q by (auto simp: refines_def s(2) prod_eq_iff)
  have "\<forall>s \<in> set ((d_shards d)[?i := t]). shard_inv s \<and> sh_budget s = B"
    using assms(1) R(1,2) set_update_subset_insert [of "d_shards d" ?i t] by (auto simp: dict_ok_def)
  then show "dict_ok n B d'" using assms(1) by (simp add: dict_ok_def d')
  have c: "contents d' = (contents d)[?i := items t]" by (simp add: contents_def d' map_update)
  show "g (contents d ! ?i) = (r, contents d' ! ?i)"
    using R(3) r i(2) len unfolding c by (simp add: contents_def)
  show "contents d' = (contents d)[?i := contents d' ! ?i]"
    using i(2) len unfolding c by (simp add: contents_def)
qed

section \<open>Runs\<close>

datatype shared_op =
    SSet set_mode bytes xshared_value int
  | SGet bytes
  | SDelete bytes
  | SIncr bytes dbl dbl int
  | SExpire bytes int
  | STtl bytes

datatype shared_result =
    Status xshared_status
  | Value xshared_status xshared_value
  | Number xshared_status "dbl option"
  | Remaining xshared_status "int option"

fun op_key :: "shared_op \<Rightarrow> bytes" where
  "op_key (SSet m k v t) = k"
| "op_key (SGet k) = k"
| "op_key (SDelete k) = k"
| "op_key (SIncr k d i t) = k"
| "op_key (SExpire k t) = k"
| "op_key (STtl k) = k"

text \<open>A step: what allocation does, the clock, the operation.\<close>

type_synonym shared_step = "(nat \<Rightarrow> bool) \<times> int \<times> shared_op"

fun shared_do :: "shared_step \<Rightarrow> xshared_dict \<Rightarrow> shared_result \<times> xshared_dict" where
  "shared_do (mem, now, SSet MODE_SET k v t) d = apfst Status (xshared_set mem now k v t d)"
| "shared_do (mem, now, SSet MODE_ADD k v t) d = apfst Status (xshared_add mem now k v t d)"
| "shared_do (mem, now, SSet MODE_REPLACE k v t) d = apfst Status (xshared_replace mem now k v t d)"
| "shared_do (mem, now, SGet k) d = apfst (\<lambda>(s, v). Value s v) (xshared_get mem now k d)"
| "shared_do (mem, now, SDelete k) d = apfst Status (xshared_delete now k d)"
| "shared_do (mem, now, SIncr k x i t) d = apfst (\<lambda>(s, v). Number s v) (xshared_incr mem now k x i t d)"
| "shared_do (mem, now, SExpire k t) d = apfst Status (xshared_expire now k t d)"
| "shared_do (mem, now, STtl k) d = apfst (\<lambda>(s, v). Remaining s v) (xshared_ttl now k d)"

fun cache_do :: "nat \<Rightarrow> shared_step \<Rightarrow> item list \<Rightarrow> shared_result \<times> item list" where
  "cache_do B (mem, now, SSet m k v t) c =
     (if v = X_NIL then (Status XSHARED_BADARG, c) else apfst Status (c_set mem now m k v t B c))"
| "cache_do B (mem, now, SGet k) c = apfst (\<lambda>(s, v). Value s v) (c_get mem now k c)"
| "cache_do B (mem, now, SDelete k) c = apfst Status (c_delete now k c)"
| "cache_do B (mem, now, SIncr k x i t) c = apfst (\<lambda>(s, v). Number s v) (c_incr mem now k x i t B c)"
| "cache_do B (mem, now, SExpire k t) c = apfst Status (c_expire now k t c)"
| "cache_do B (mem, now, STtl k) c = apfst (\<lambda>(s, v). Remaining s v) (c_ttl now k c)"

definition caches_do :: "nat \<Rightarrow> nat \<Rightarrow> shared_step \<Rightarrow> item list list \<Rightarrow> shared_result \<times> item list list" where
  "caches_do n B x cs =
     (let i = route n (op_key (snd (snd x))); (r, c) = cache_do B x (cs ! i) in (r, cs[i := c]))"

text \<open>A run: the results and the last state.\<close>

fun run :: "('x \<Rightarrow> 's \<Rightarrow> 'r \<times> 's) \<Rightarrow> 'x list \<Rightarrow> 's \<Rightarrow> 'r list \<times> 's" where
  "run f [] s = ([], s)"
| "run f (x # xs) s = (let (r, s) = f x s; (rs, s) = run f xs s in (r # rs, s))"

text \<open>The strings stored are shorter than 4 GiB.\<close>

fun op_small :: "shared_op \<Rightarrow> bool" where
  "op_small (SSet m k v t) = (value_bytes v < 2 ^ 32)"
| "op_small x = True"

lemma caches_do_eq:
  "cache_do B x (contents d ! i) = (r, c) \<Longrightarrow> i = route n (op_key (snd (snd x))) \<Longrightarrow>
     caches_do n B x (contents d) = (r, (contents d)[i := c])"
  by (simp add: caches_do_def)

lemma apfst_pair: "p = (r, s) \<Longrightarrow> apfst f p = (f r, s)"
  by simp

lemma on_shard_step:
  assumes "dict_ok n B d" and "route n (op_key (snd (snd x))) = route n key"
    and "\<And>s. shard_inv s \<Longrightarrow> sh_budget s = B \<Longrightarrow> refines s (f (hash_key key) s) (g (items s))"
    and "\<And>c. cache_do B x c = apfst w (g c)"
    and "apfst w (on_shard key f d) = (r, d')"
  shows "dict_ok n B d' \<and> caches_do n B x (contents d) = (r, contents d')"
proof -
  obtain q where q: "on_shard key f d = (q, d')" and r: "r = w q" using assms(5) by (cases "on_shard key f d") auto
  note O = on_shard_refines [where f = f and g = g, OF assms(1,3) q]
  have "cache_do B x (contents d ! route n key) = (r, contents d' ! route n key)"
    using arg_cong [where f = "apfst w", OF O(2)] by (simp add: r assms(4))
  then have "caches_do n B x (contents d) = (r, contents d')"
    unfolding caches_do_def assms(2) Let_def by (simp add: O(3) [symmetric])
  with O(1) show ?thesis by blast
qed

lemma set_do:
  "shared_do (mem, now, SSet m k v t) d = apfst Status (do_set mem now m k v t d)"
  by (cases m) (simp_all add: xshared_set_def xshared_add_def xshared_replace_def)

lemma shared_do_refines:
  assumes "dict_ok n B d" and "op_small (snd (snd x))" and "shared_do x d = (r, d')"
  shows "dict_ok n B d' \<and> caches_do n B x (contents d) = (r, contents d')"
proof -
  obtain mem now op where x: "x = (mem, now, op)" by (cases x)
  show ?thesis
  proof (cases op)
    case (SSet m k v t)
    show ?thesis
    proof (cases "v = X_NIL")
      case True
      with assms(3) have "r = Status XSHARED_BADARG" "d' = d" unfolding x SSet set_do by (simp_all add: do_set_def)
      with True assms(1) show ?thesis unfolding x SSet by (simp add: caches_do_def)
    next
      case False
      have d: "apfst Status (on_shard k (\<lambda>h. shard_set mem now m h k v t) d) = (r, d')"
        using assms(3) False unfolding x SSet set_do by (simp add: do_set_def)
      show ?thesis
        by (rule on_shard_step [OF assms(1) _ _ _ d, where g = "\<lambda>c. c_set mem now m k v t B c"])
          (use assms(2) shard_set_refines False in \<open>auto simp: x SSet\<close>)
    qed
  next
    case (SGet k)
    with assms(3) have d: "apfst (\<lambda>(s, v). Value s v) (on_shard k (\<lambda>h. shard_get mem now h k) d) = (r, d')"
      by (simp add: x xshared_get_def)
    show ?thesis
      by (rule on_shard_step [OF assms(1) _ _ _ d, where g = "c_get mem now k"])
        (use shard_get_refines in \<open>auto simp: x SGet\<close>)
  next
    case (SDelete k)
    with assms(3) have d: "apfst Status (on_shard k (\<lambda>h. shard_delete now h k) d) = (r, d')"
      by (simp add: x xshared_delete_def)
    show ?thesis
      by (rule on_shard_step [OF assms(1) _ _ _ d, where g = "c_delete now k"])
        (use shard_delete_refines in \<open>auto simp: x SDelete\<close>)
  next
    case (SIncr k y i t)
    with assms(3) have d: "apfst (\<lambda>(s, v). Number s v) (on_shard k (\<lambda>h. shard_incr mem now h k y i t) d) = (r, d')"
      by (simp add: x xshared_incr_def)
    show ?thesis
      by (rule on_shard_step [OF assms(1) _ _ _ d, where g = "\<lambda>c. c_incr mem now k y i t B c"])
        (use shard_incr_refines in \<open>auto simp: x SIncr\<close>)
  next
    case (SExpire k t)
    with assms(3) have d: "apfst Status (on_shard k (\<lambda>h. shard_expire now h k t) d) = (r, d')"
      by (simp add: x xshared_expire_def)
    show ?thesis
      by (rule on_shard_step [OF assms(1) _ _ _ d, where g = "c_expire now k t"])
        (use shard_expire_refines in \<open>auto simp: x SExpire\<close>)
  next
    case (STtl k)
    with assms(3) have d: "apfst (\<lambda>(s, v). Remaining s v) (on_shard k (\<lambda>h. shard_ttl now h k) d) = (r, d')"
      by (simp add: x xshared_ttl_def)
    show ?thesis
      by (rule on_shard_step [OF assms(1) _ _ _ d, where g = "c_ttl now k"])
        (use shard_ttl_refines in \<open>auto simp: x STtl\<close>)
  qed
qed

lemma run_refines:
  assumes "dict_ok n B d" and "\<forall>x \<in> set xs. op_small (snd (snd x))" and "run shared_do xs d = (rs, d')"
  shows "dict_ok n B d' \<and> run (caches_do n B) xs (contents d) = (rs, contents d')"
  using assms
proof (induction xs arbitrary: d rs)
  case (Cons x xs)
  obtain r d1 where 1: "shared_do x d = (r, d1)" by fastforce
  obtain q d2 where 2: "run shared_do xs d1 = (q, d2)" by fastforce
  from shared_do_refines [OF Cons.prems(1) _ 1] Cons.prems(2)
  have S: "dict_ok n B d1" "caches_do n B x (contents d) = (r, contents d1)" by auto
  from Cons.prems(3) have e: "rs = r # q" "d' = d2" by (simp_all add: 1 2)
  from Cons.IH [OF S(1) _ 2 [folded e(2)]] Cons.prems(2) S(2) show ?case by (simp add: e(1))
qed simp

end
