(* ===== verification/XSharedSweep.thy ===== *)
theory XSharedSweep
  imports XSharedDict
begin

text \<open>
  The sweeper of the shared dictionaries: whatever its budget and cursor, a sweep removes expired
  entries only and keeps the order of the others; a sweep that the budget does not pause and
  that starts at a first bucket leaves no expired entry.
\<close>

section \<open>One shard\<close>

text \<open>The entries at the addresses \<open>R\<close>, all expired, are gone.\<close>

definition swept :: "int \<Rightarrow> addr set \<Rightarrow> shard \<Rightarrow> shard \<Rightarrow> bool" where
  "swept now R s s' \<longleftrightarrow>
     shard_inv s' \<and> sh_budget s' = sh_budget s \<and> length (sh_buckets s') = length (sh_buckets s)
     \<and> (\<forall>a \<in> R. a \<in> set (sh_lru s) \<and> expired_at now (ent s a))
     \<and> sh_lru s' = filter (\<lambda>a. a \<notin> R) (sh_lru s)
     \<and> (\<forall>a. a \<notin> R \<longrightarrow> sh_heap s' a = sh_heap s a)"

lemma swept_refl: "shard_inv s \<Longrightarrow> swept now {} s s"
  by (simp add: swept_def)

lemma swept_trans:
  assumes "swept now R s t" and "swept now Q t u"
  shows "swept now (R \<union> Q) s u"
proof -
  have q: "a \<in> set (sh_lru s) \<and> expired_at now (ent s a)" if "a \<in> Q" for a
  proof -
    from assms(2) that have "a \<in> set (sh_lru t)" "expired_at now (ent t a)" by (auto simp: swept_def)
    with assms(1) show ?thesis by (auto simp: swept_def)
  qed
  have "\<forall>a \<in> R \<union> Q. a \<in> set (sh_lru s) \<and> expired_at now (ent s a)"
    using assms(1) q by (auto simp: swept_def)
  moreover have "sh_lru u = filter (\<lambda>a. a \<notin> R \<union> Q) (sh_lru s)"
    using assms by (simp add: swept_def)
  moreover have "\<forall>a. a \<notin> R \<union> Q \<longrightarrow> sh_heap u a = sh_heap s a" using assms by (simp add: swept_def)
  ultimately show ?thesis using assms by (simp add: swept_def)
qed

text \<open>In terms of items.\<close>

lemma swept_items:
  assumes "swept now R s s'" and "shard_inv s"
  shows "items s' = filter (\<lambda>i. it_key i \<notin> (\<lambda>a. e_key (ent s a)) ` R) (items s)"
    and "\<forall>i \<in> set (items s). it_key i \<in> (\<lambda>a. e_key (ent s a)) ` R \<longrightarrow> dead now i"
proof -
  have l: "lru_ok s" using assms(2) by (simp add: shard_inv_def)
  have R: "a \<in> set (sh_lru s) \<and> expired_at now (ent s a)" if "a \<in> R" for a
    using assms(1) that by (simp add: swept_def)
  have K: "e_key (ent s a) \<in> (\<lambda>a. e_key (ent s a)) ` R \<longleftrightarrow> a \<in> R" if "a \<in> set (sh_lru s)" for a
  proof
    assume "e_key (ent s a) \<in> (\<lambda>a. e_key (ent s a)) ` R"
    then obtain b where "b \<in> R" "e_key (ent s a) = e_key (ent s b)" by blast
    with lru_key_inj [OF l that] R show "a \<in> R" by blast
  qed blast
  have "items s' = map (\<lambda>a. item_of (ent s a)) (filter (\<lambda>a. a \<notin> R) (sh_lru s))"
    by (rule items_cong) (use assms(1) in \<open>auto simp: swept_def\<close>)
  also have "\<dots> = map (\<lambda>a. item_of (ent s a)) (filter (\<lambda>a. e_key (ent s a) \<notin> (\<lambda>a. e_key (ent s a)) ` R) (sh_lru s))"
    by (rule arg_cong [where f = "map _"], rule filter_cong [OF refl]) (simp only: K)
  finally show "items s' = filter (\<lambda>i. it_key i \<notin> (\<lambda>a. e_key (ent s a)) ` R) (items s)"
    by (simp add: items_def filter_map o_def)
  show "\<forall>i \<in> set (items s). it_key i \<in> (\<lambda>a. e_key (ent s a)) ` R \<longrightarrow> dead now i"
  proof (intro ballI impI)
    fix i
    assume "i \<in> set (items s)" and k: "it_key i \<in> (\<lambda>a. e_key (ent s a)) ` R"
    then obtain a where a: "a \<in> set (sh_lru s)" "i = item_of (ent s a)" by (auto simp: items_def)
    with k K have "a \<in> R" by simp
    with R a(2) show "dead now i" by (simp add: expired_at_dead)
  qed
qed

lemma remove1_filter: "distinct xs \<Longrightarrow> remove1 a xs = filter (\<lambda>b. b \<noteq> a) xs"
  by (simp add: distinct_remove1_removeAll removeAll_filter_not_eq) (rule filter_cong, auto)

lemma sweep_reap_swept:
  assumes "shard_inv s" and "a \<in> set (sh_lru s)" and "bidx s a = bi" and "expired_at now (ent s a)"
  shows "swept now {a} s (sweep_reap bi a s)"
proof -
  have d: "distinct (sh_lru s)" using assms(1) by (simp add: shard_inv_def lru_ok_def)
  have e: "sweep_reap bi a s = (entry_drop a s)\<lparr>sh_expired := sh_expired s + 1\<rparr>"
    by (rule sweep_reap_drop) (simp add: assms(3))
  show ?thesis
    unfolding e swept_def using entry_drop_inv [OF assms(1,2)] assms d
    by (simp add: entry_drop_fields remove1_filter)
qed

lemma sweep_chain_swept:
  assumes "shard_inv s" and "distinct as" and "\<forall>a \<in> set as. a \<in> set (sh_lru s) \<and> bidx s a = bi"
    and "sweep_chain budget now bi as n r s = (p, n', r', s')"
  shows "\<exists>R. swept now R s s' \<and> r' + length (sh_lru s') = r + length (sh_lru s)
    \<and> (\<not> p \<longrightarrow> (\<forall>a \<in> set as. expired_at now (ent s a) \<longrightarrow> a \<in> R))
    \<and> n' \<le> n + length as \<and> (p \<longrightarrow> budget \<noteq> 0 \<and> budget \<le> n')"
  using assms
proof (induction as arbitrary: n r s)
  case Nil
  then show ?case using swept_refl by fastforce
next
  case (Cons a as)
  let ?x = "expired_at now (ent s a)"
  define t where "t = (if ?x then sweep_reap bi a s else s)"
  define Q where "Q = (if ?x then {a} else {})"
  have a: "a \<in> set (sh_lru s)" "bidx s a = bi" using Cons.prems(3) by simp_all
  have Q: "swept now Q s t"
    using sweep_reap_swept [OF Cons.prems(1) a] swept_refl [OF Cons.prems(1)] by (simp add: Q_def t_def)
  then have t: "shard_inv t" "length (sh_buckets t) = length (sh_buckets s)"
    "sh_lru t = filter (\<lambda>a. a \<notin> Q) (sh_lru s)" "\<And>b. b \<notin> Q \<Longrightarrow> sh_heap t b = sh_heap s b"
    by (simp_all add: swept_def)
  have d: "distinct (sh_lru s)" using Cons.prems(1) by (simp add: shard_inv_def lru_ok_def)
  have len: "(if ?x then r + 1 else r) + length (sh_lru t) = r + length (sh_lru s)"
  proof (cases ?x)
    case True
    have "sh_lru t = remove1 a (sh_lru s)"
      using True t(3) d by (simp add: Q_def remove1_filter)
    moreover have "0 < length (sh_lru s)" using a(1) by (cases "sh_lru s") simp_all
    ultimately show ?thesis using True a(1) by (simp add: length_remove1)
  qed (simp add: t_def)
  show ?case
  proof (cases "budget \<noteq> 0 \<and> n + 1 \<ge> budget")
    case True
    with Cons.prems(4) have "p" "n' = n + 1" "r' = (if ?x then r + 1 else r)" "s' = t"
      by (simp_all add: Let_def t_def split: if_splits)
    with Q len True show ?thesis by (intro exI [of _ Q]) simp
  next
    case False
    with Cons.prems(4) have go: "sweep_chain budget now bi as (n + 1) (if ?x then r + 1 else r) t = (p, n', r', s')"
      unfolding sweep_chain.simps Let_def t_def by (simp only: if_False)
    have na: "b \<notin> Q" if "b \<in> set as" for b using that Cons.prems(2) by (auto simp: Q_def)
    have "\<forall>b \<in> set as. b \<in> set (sh_lru t) \<and> bidx t b = bi"
      using Cons.prems(3) na t by simp
    from Cons.IH [OF t(1) _ this go] Cons.prems(2) obtain R where
      R: "swept now R t s'" "r' + length (sh_lru s') = (if ?x then r + 1 else r) + length (sh_lru t)"
        "\<not> p \<longrightarrow> (\<forall>b \<in> set as. expired_at now (ent t b) \<longrightarrow> b \<in> R)"
        "n' \<le> n + 1 + length as" "p \<longrightarrow> budget \<noteq> 0 \<and> budget \<le> n'" by auto
    have "\<not> p \<longrightarrow> (\<forall>b \<in> set (a # as). expired_at now (ent s b) \<longrightarrow> b \<in> Q \<union> R)"
      using R(3) na t(4) by (auto simp: Q_def)
    with swept_trans [OF Q R(1)] R(2,4,5) len show ?thesis by (intro exI [of _ "Q \<union> R"]) simp
  qed
qed

lemma sweep_buckets_swept:
  assumes "shard_inv s" and "sweep_buckets budget now bi n r s = (p, n', r', s')"
  shows "\<exists>R. swept now R s s' \<and> r' + length (sh_lru s') = r + length (sh_lru s)
    \<and> (p = None \<longrightarrow> (\<forall>a \<in> set (sh_lru s). bi \<le> bidx s a \<longrightarrow> expired_at now (ent s a) \<longrightarrow> a \<in> R))
    \<and> n' \<le> n + card {a \<in> set (sh_lru s). bi \<le> bidx s a} \<and> (p \<noteq> None \<longrightarrow> budget \<noteq> 0 \<and> budget \<le> n')"
  using assms
proof (induction budget now bi n r s rule: sweep_buckets.induct)
  case (1 budget now bi n r s)
  have b: "buckets_ok s" using 1(2) by (simp add: shard_inv_def)
  show ?case
  proof (cases "bi \<ge> length (sh_buckets s)")
    case True
    with 1(3) have e: "p = None" "n' = n" "r' = r" "s' = s" by (simp_all add: sweep_buckets.simps [of budget now bi])
    have "\<forall>a \<in> set (sh_lru s). \<not> bi \<le> bidx s a"
    proof
      fix a
      show "\<not> bi \<le> bidx s a" using bidx_less [OF b, of "e_hash (ent s a)"] True by simp
    qed
    with e swept_refl [OF 1(2)] show ?thesis by (intro exI [of _ "{}"]) simp
  next
    case False
    then have bi: "bi < length (sh_buckets s)" by simp
    let ?as = "sh_buckets s ! bi"
    have as: "distinct ?as" "set ?as = {a \<in> set (sh_lru s). bidx s a = bi}" using b bi by (simp_all add: buckets_ok_def)
    obtain q n1 r1 t where C: "sweep_chain budget now bi ?as n r s = (q, n1, r1, t)" by (cases "sweep_chain budget now bi ?as n r s")
    have "\<forall>a \<in> set ?as. a \<in> set (sh_lru s) \<and> bidx s a = bi" using as(2) by simp
    from sweep_chain_swept [OF 1(2) as(1) this C] obtain R where
      R: "swept now R s t" "r1 + length (sh_lru t) = r + length (sh_lru s)"
        "\<not> q \<longrightarrow> (\<forall>a \<in> set ?as. expired_at now (ent s a) \<longrightarrow> a \<in> R)"
        "n1 \<le> n + length ?as" "q \<longrightarrow> budget \<noteq> 0 \<and> budget \<le> n1" by blast
    have parts: "{a \<in> set (sh_lru s). bi \<le> bidx s a} = set ?as \<union> {a \<in> set (sh_lru s). bi + 1 \<le> bidx s a}"
      unfolding as(2) by auto
    have card: "card {a \<in> set (sh_lru s). bi \<le> bidx s a} = length ?as + card {a \<in> set (sh_lru s). bi + 1 \<le> bidx s a}"
    proof -
      have "card (set ?as \<union> {a \<in> set (sh_lru s). bi + 1 \<le> bidx s a})
          = card (set ?as) + card {a \<in> set (sh_lru s). bi + 1 \<le> bidx s a}"
        by (rule card_Un_disjoint) (auto simp: as(2))
      then show ?thesis unfolding parts distinct_card [OF as(1)] .
    qed
    show ?thesis
    proof (cases q)
      case True
      with 1(3) C False have "p = Some bi" "n' = n1" "r' = r1" "s' = t"
        by (simp_all add: sweep_buckets.simps [of budget now bi])
      with R True card show ?thesis by (intro exI [of _ R]) simp
    next
      case q: False
      with 1(3) C False have go: "sweep_buckets budget now (bi + 1) n1 r1 t = (p, n', r', s')"
        by (simp add: sweep_buckets.simps [of budget now bi])
      have t: "shard_inv t" "length (sh_buckets t) = length (sh_buckets s)" "sh_lru t = filter (\<lambda>a. a \<notin> R) (sh_lru s)"
        "\<And>a. a \<notin> R \<Longrightarrow> sh_heap t a = sh_heap s a" using R(1) by (simp_all add: swept_def)
      have i: "bidx t a = bidx s a" if "a \<in> set (sh_lru t)" for a using that t(2-4) by simp
      have qF: "q = False" using q by simp
      from 1(1) [OF False C [symmetric] qF refl refl t(1) go] obtain Q where
        Q: "swept now Q t s'" "r' + length (sh_lru s') = r1 + length (sh_lru t)"
          "p = None \<longrightarrow> (\<forall>a \<in> set (sh_lru t). bi + 1 \<le> bidx t a \<longrightarrow> expired_at now (ent t a) \<longrightarrow> a \<in> Q)"
          "n' \<le> n1 + card {a \<in> set (sh_lru t). bi + 1 \<le> bidx t a}" "p \<noteq> None \<longrightarrow> budget \<noteq> 0 \<and> budget \<le> n'"
        by blast
      have "{a \<in> set (sh_lru t). bi + 1 \<le> bidx t a} \<subseteq> {a \<in> set (sh_lru s). bi + 1 \<le> bidx s a}"
        using i t(3) by auto
      then have "card {a \<in> set (sh_lru t). bi + 1 \<le> bidx t a} \<le> card {a \<in> set (sh_lru s). bi + 1 \<le> bidx s a}"
        by (rule card_mono [rotated]) simp
      then have n: "n' \<le> n + card {a \<in> set (sh_lru s). bi \<le> bidx s a}" using Q(4) R(4) card by linarith
      have "a \<in> R \<union> Q" if "p = None" "a \<in> set (sh_lru s)" "bi \<le> bidx s a" "expired_at now (ent s a)" for a
      proof (rule ccontr)
        assume no: "a \<notin> R \<union> Q"
        then have "a \<notin> set ?as" using R(3) q that(4) by blast
        then have "bi + 1 \<le> bidx s a" using that(2,3) as(2) by auto
        moreover have at: "a \<in> set (sh_lru t)" using that(2) no t(3) by simp
        moreover have "expired_at now (ent t a)" using t(4) no that(4) by simp
        ultimately have "a \<in> Q" using Q(3) that(1) i by simp
        with no show False by simp
      qed
      with swept_trans [OF R(1) Q(1)] Q(2,5) R(2) n show ?thesis by (intro exI [of _ "R \<union> Q"]) auto
    qed
  qed
qed

section \<open>A dictionary\<close>

lemma next_shard:
  assumes "dict_ok n B d" and "si < n"
  shows "unat ((of_nat si + 1) AND d_mask d) = (si + 1) mod n"
proof -
  from assms(1) obtain k where k: "k \<le> 10" "n = 2 ^ k" and u: "unat (d_nshards d) = n"
    and m: "d_mask d = d_nshards d - 1" by (auto simp: dict_ok_def)
  have "(2 :: nat) ^ k \<le> 2 ^ 10" using k(1) by (intro power_increasing) simp_all
  then have "si < 1024" using assms(2) k(2) by simp
  then have "unat (of_nat (si + 1) :: u32) = si + 1"
    by (simp only: unsigned_of_nat) (simp add: take_bit_nat_eq_self)
  with mask_index [OF u k(2,1), of "of_nat si + 1"] show ?thesis unfolding m by (simp add: add.commute)
qed

lemma dict_ok_update:
  assumes "dict_ok n B d" and "i < n" and "shard_inv s" and "sh_budget s = B" and "j < n"
  shows "dict_ok n B (d\<lparr>d_shards := (d_shards d)[i := s]\<rparr>)"
    and "dict_ok n B (d\<lparr>d_shards := (d_shards d)[i := s], d_sweep_shard := j, d_sweep_bucket := b\<rparr>)"
  using assms set_update_subset_insert [of "d_shards d" i s] by (auto simp: dict_ok_def)

lemma dict_ok_shard: "dict_ok n B d \<Longrightarrow> i < n \<Longrightarrow> shard_inv (d_shards d ! i) \<and> sh_budget (d_shards d ! i) = B"
  by (auto simp: dict_ok_def)

definition entries :: "xshared_dict \<Rightarrow> nat" where
  "entries d = (\<Sum>s\<leftarrow>d_shards d. length (sh_lru s))"

lemma entries_update:
  assumes "i < length (d_shards d)" and "r' + length (sh_lru s) = r + length (sh_lru (d_shards d ! i))"
  shows "r' + entries (d\<lparr>d_shards := (d_shards d)[i := s]\<rparr>) = r + entries d"
proof -
  let ?l = "map (\<lambda>s. length (sh_lru s)) (d_shards d)"
  have "sum_list ?l = sum_list (?l[i := length (sh_lru s)]) + ?l ! i - length (sh_lru s)"
    using sum_list_update [of i ?l "length (sh_lru s)"] assms(1)
      member_le_sum_list [of "?l ! i" ?l] by simp
  moreover have "length (sh_lru s) \<le> sum_list (?l[i := length (sh_lru s)])"
    using member_le_sum_list [of "length (sh_lru s)" "?l[i := length (sh_lru s)]"] assms(1)
    by (simp add: set_update_memI)
  ultimately show ?thesis using assms by (simp add: entries_def map_update)
qed

text \<open>Every shard is swept, and the count of the reaped entries is right.\<close>

lemma sweep_shards_swept:
  assumes "dict_ok n B d" and "si < n" and "sweep_shards budget now cnt si bi sc r d = (r', d')"
  shows "dict_ok n B d' \<and> r' + entries d' = r + entries d
    \<and> (\<forall>i < n. \<exists>R. swept now R (d_shards d ! i) (d_shards d' ! i))"
  using assms
proof (induction cnt arbitrary: si bi sc r d)
  case 0
  then have "r' = r" "d' = d\<lparr>d_sweep_shard := si, d_sweep_bucket := 0\<rparr>" by simp_all
  moreover have "\<exists>R. swept now R (d_shards d ! i) (d_shards d ! i)" if "i < n" for i
    using swept_refl dict_ok_shard [OF 0(1) that] by blast
  ultimately show ?case using 0(1,2) by (simp add: dict_ok_def entries_def)
next
  case (Suc cnt)
  let ?s = "d_shards d ! si"
  define b where "b = (if bi \<ge> length (sh_buckets ?s) then 0 else bi)"
  obtain p sc1 r1 t where K: "sweep_buckets budget now b sc r ?s = (p, sc1, r1, t)"
    by (cases "sweep_buckets budget now b sc r ?s")
  note s = dict_ok_shard [OF Suc.prems(1,2)]
  from sweep_buckets_swept [OF conjunct1 [OF s] K] obtain R where
    R: "swept now R ?s t" "r1 + length (sh_lru t) = r + length (sh_lru ?s)" by blast
  then have t: "shard_inv t" "sh_budget t = B" using s by (simp_all add: swept_def)
  have len: "length (d_shards d) = n" using Suc.prems(1) by (simp add: dict_ok_def)
  let ?e = "d\<lparr>d_shards := (d_shards d)[si := t]\<rparr>"
  have e: "r1 + entries ?e = r + entries d" using entries_update [of si d] R(2) Suc.prems(2) len by simp
  have sw: "\<exists>R. swept now R (d_shards d ! i) (d_shards ?e ! i)" if "i < n" for i
    using R(1) swept_refl [OF conjunct1 [OF dict_ok_shard [OF Suc.prems(1) that]]] that len
    by (cases "i = si") auto
  show ?case
  proof (cases p)
    case (Some pause)
    with Suc.prems(3) K have "r' = r1" "d' = d\<lparr>d_shards := (d_shards d)[si := t], d_sweep_shard := si, d_sweep_bucket := pause\<rparr>"
      by (simp_all add: Let_def b_def [symmetric])
    with dict_ok_update(2) [OF Suc.prems(1,2) t Suc.prems(2)] e sw show ?thesis by (simp add: entries_def)
  next
    case None
    have lt: "(si + 1) mod n < n" using Suc.prems(2) by simp
    from None Suc.prems(3) K have go: "sweep_shards budget now cnt ((si + 1) mod n) 0 sc1 r1 ?e = (r', d')"
      by (simp add: Let_def b_def [symmetric] next_shard [OF Suc.prems(1,2), simplified])
    from Suc.IH [OF dict_ok_update(1) [OF Suc.prems(1,2) t Suc.prems(2)] lt go] have
      I: "dict_ok n B d'" "r' + entries d' = r1 + entries ?e"
        "\<And>i. i < n \<Longrightarrow> \<exists>R. swept now R (d_shards ?e ! i) (d_shards d' ! i)" by blast+
    have "\<exists>R. swept now R (d_shards d ! i) (d_shards d' ! i)" if "i < n" for i
      using sw [OF that] I(3) [OF that] swept_trans by blast
    with I e show ?thesis by simp
  qed
qed

text \<open>Without a pause, from bucket 0, the visited shards keep no expired entry.\<close>

abbreviation visited :: "nat \<Rightarrow> nat \<Rightarrow> nat \<Rightarrow> nat set" where
  "visited n si cnt \<equiv> (\<lambda>j. (si + j) mod n) ` {..<cnt}"

lemma visited_Suc: "visited n si (Suc cnt) = insert (si mod n) (visited n ((si + 1) mod n) cnt)"
proof -
  have "(\<lambda>j. (si + j) mod n) ` {..<Suc cnt} = insert ((si + 0) mod n) ((\<lambda>j. (si + Suc j) mod n) ` {..<cnt})"
    unfolding lessThan_Suc_eq_insert_0 image_insert image_image by simp
  also have "(\<lambda>j. (si + Suc j) mod n) ` {..<cnt} = visited n ((si + 1) mod n) cnt"
    by (rule image_cong [OF refl]) (simp add: mod_add_left_eq)
  finally show ?thesis by simp
qed

lemma visited_fresh:
  assumes "si < n" and "cnt < n"
  shows "si \<notin> visited n ((si + 1) mod n) cnt"
proof
  assume "si \<in> visited n ((si + 1) mod n) cnt"
  then obtain j where j: "j < cnt" "si = ((si + 1) mod n + j) mod n" by auto
  then have m: "si = (si + 1 + j) mod n" by (simp add: mod_add_left_eq)
  show False
  proof (cases "si + 1 + j < n")
    case True
    with m show False by simp
  next
    case False
    then have "(si + 1 + j) mod n = si + 1 + j - n" using assms j(1) by (simp add: mod_if)
    with m False j(1) assms show False by simp
  qed
qed

definition clean :: "int \<Rightarrow> shard \<Rightarrow> bool" where
  "clean now s \<longleftrightarrow> (\<forall>a \<in> set (sh_lru s). \<not> expired_at now (ent s a))"

lemma sweep_shards_clean:
  assumes "dict_ok n B d" and "si < n" and "cnt \<le> n"
    and "budget = 0 \<or> sc + (\<Sum>i \<in> visited n si cnt. length (sh_lru (d_shards d ! i))) < budget"
    and "sweep_shards budget now cnt si 0 sc r d = (r', d')"
  shows "d_sweep_bucket d' = 0 \<and> (\<forall>i \<in> visited n si cnt. clean now (d_shards d' ! i))
    \<and> (\<forall>i < n. i \<notin> visited n si cnt \<longrightarrow> d_shards d' ! i = d_shards d ! i)"
  using assms
proof (induction cnt arbitrary: si sc r d)
  case 0
  then have "d' = d\<lparr>d_sweep_shard := si, d_sweep_bucket := 0\<rparr>" by simp
  then show ?case by simp
next
  case (Suc cnt)
  let ?s = "d_shards d ! si" and ?V = "visited n ((si + 1) mod n) cnt"
  obtain p sc1 r1 t where K: "sweep_buckets budget now 0 sc r ?s = (p, sc1, r1, t)"
    by (cases "sweep_buckets budget now 0 sc r ?s")
  note s = dict_ok_shard [OF Suc.prems(1,2)]
  from sweep_buckets_swept [OF conjunct1 [OF s] K] obtain R where
    R: "swept now R ?s t" "p = None \<longrightarrow> (\<forall>a \<in> set (sh_lru ?s). expired_at now (ent ?s a) \<longrightarrow> a \<in> R)"
      "sc1 \<le> sc + card (set (sh_lru ?s))" "p \<noteq> None \<longrightarrow> budget \<noteq> 0 \<and> budget \<le> sc1" by auto
  then have t: "shard_inv t" "sh_budget t = B" using s by (simp_all add: swept_def)
  have len: "length (d_shards d) = n" using Suc.prems(1) by (simp add: dict_ok_def)
  have V: "visited n si (Suc cnt) = insert si ?V" "si \<notin> ?V"
    using visited_Suc [of si n cnt] visited_fresh [of si n cnt] Suc.prems(2,3) by simp_all
  let ?e = "d\<lparr>d_shards := (d_shards d)[si := t]\<rparr>"
  have o: "d_shards ?e ! i = d_shards d ! i" if "i \<noteq> si" for i using that by simp
  have sum: "(\<Sum>i \<in> visited n si (Suc cnt). length (sh_lru (d_shards d ! i)))
      = length (sh_lru ?s) + (\<Sum>i \<in> ?V. length (sh_lru (d_shards ?e ! i)))"
  proof -
    have "(\<Sum>i \<in> ?V. length (sh_lru (d_shards ?e ! i))) = (\<Sum>i \<in> ?V. length (sh_lru (d_shards d ! i)))"
      by (rule sum.cong [OF refl]) (use V(2) o in metis)
    then show ?thesis unfolding V(1) using V(2) by (simp del: image_iff)
  qed
  have sc1: "sc1 \<le> sc + length (sh_lru ?s)" using R(3) card_length [of "sh_lru ?s"] by linarith
  have p: "p = None" using R(4) sc1 Suc.prems(4) sum by auto
  have room: "budget = 0 \<or> sc1 + (\<Sum>i \<in> ?V. length (sh_lru (d_shards ?e ! i))) < budget"
    using Suc.prems(4) sum sc1 by auto
  have lt: "(si + 1) mod n < n" using Suc.prems(2) by simp
  from p Suc.prems(5) K have go: "sweep_shards budget now cnt ((si + 1) mod n) 0 sc1 r1 ?e = (r', d')"
    by (simp add: Let_def next_shard [OF Suc.prems(1,2), simplified])
  from Suc.prems(3) have c: "cnt \<le> n" by simp
  from Suc.IH [OF dict_ok_update(1) [OF Suc.prems(1,2) t Suc.prems(2)] lt c room go] have
    I: "d_sweep_bucket d' = 0" "\<And>i. i \<in> ?V \<Longrightarrow> clean now (d_shards d' ! i)"
      "\<And>i. i < n \<Longrightarrow> i \<notin> ?V \<Longrightarrow> d_shards d' ! i = d_shards ?e ! i" by blast+
  have "clean now t"
    using R(1,2) p unfolding clean_def swept_def by auto
  moreover have "d_shards d' ! si = t" using I(3) [OF Suc.prems(2) V(2)] Suc.prems(2) len by simp
  ultimately have "clean now (d_shards d' ! i)" if "i \<in> visited n si (Suc cnt)" for i
    using that I(2) unfolding V(1) by blast
  moreover have "d_shards d' ! i = d_shards d ! i" if "i < n" "i \<notin> visited n si (Suc cnt)" for i
    using I(3) [of i] o [of i] that unfolding V(1) by simp
  ultimately show ?case using I(1) by blast
qed

end
