(* ===== verification/XSharedProps.thy ===== *)
theory XSharedProps
  imports XSharedSweep
begin

text \<open>
  The registry of the shared dictionaries and the properties of \<open>xshared.c\<close>: creation, the
  refinement of a recency list per shard, the byte budget, what a sweep removes, and one
  dictionary per name.
\<close>

section \<open>Creation\<close>

definition shard_budget :: "nat \<Rightarrow> nat \<Rightarrow> nat" where
  "shard_budget budget n = max ENTRY_SIZE (budget div n)"

text \<open>The number of shards a request leads to.\<close>

lemma shard_count:
  assumes "unat ns \<le> 2 ^ 31"
  defines "m \<equiv> next_pow2_u32 (if ns = 0 then 8 else ns)"
  shows "\<exists>k \<le> 10. unat (if m > XSHARED_MAX_SHARDS then XSHARED_MAX_SHARDS else m) = 2 ^ k"
proof -
  have "0 < unat (if ns = 0 then 8 else ns)" using unat_gt_0 [of ns] by simp
  moreover have "unat (if ns = 0 then 8 else ns) \<le> 2 ^ 31" using assms(1) by simp
  ultimately obtain k where k: "k \<le> 31" "m = 2 ^ k" using next_pow2_u32_spec m_def by blast
  then have u: "unat m = 2 ^ k" using unat_exp32 by simp
  show ?thesis
  proof (cases "m > XSHARED_MAX_SHARDS")
    case True
    have "unat XSHARED_MAX_SHARDS = 2 ^ 10" by (simp add: XSHARED_MAX_SHARDS_def)
    with True show ?thesis by (intro exI [of _ 10]) simp
  next
    case False
    then have "unat m \<le> unat XSHARED_MAX_SHARDS" by (simp add: not_less word_le_nat_alt)
    then have "(2 :: nat) ^ k \<le> 2 ^ 10" using u by (simp add: XSHARED_MAX_SHARDS_def)
    then have "k \<le> 10" by (rule power_le_imp_le_exp [rotated]) simp
    with False u show ?thesis by (intro exI [of _ k]) simp
  qed
qed

lemma create_locked_spec:
  assumes "unat ns \<le> 2 ^ 31"
  shows "\<exists>r. create_locked ok name budget ns g
      = Some (r, case r of None \<Rightarrow> g | Some d \<Rightarrow> g\<lparr>g_registry := d # g_registry g\<rparr>)
    \<and> (\<forall>d. r = Some d \<longrightarrow> d_name d = name
        \<and> (budget < 2 ^ 63 \<longrightarrow> (\<exists>k \<le> 10. unat (d_nshards d) = 2 ^ k
              \<and> dict_ok (2 ^ k) (shard_budget budget (2 ^ k)) d
              \<and> contents d = replicate (2 ^ k) [] \<and> d_sweep_bucket d = 0)))"
proof -
  define m where "m = next_pow2_u32 (if ns = 0 then 8 else ns)"
  define n where "n = (if m > XSHARED_MAX_SHARDS then XSHARED_MAX_SHARDS else m)"
  define per where "per = (if budget div unat n < ENTRY_SIZE then ENTRY_SIZE else budget div unat n)"
  define d where "d = \<lparr>d_name = name, d_nshards = n, d_mask = n - 1,
    d_shards = replicate (unat n) (new_shard per), d_sweep_shard = 0, d_sweep_bucket = 0\<rparr>"
  obtain k where k: "k \<le> 10" "unat n = 2 ^ k" using shard_count [OF assms] unfolding n_def m_def by blast
  then have n0: "n \<noteq> 0" by (intro notI) simp
  define good where "good \<longleftrightarrow> ok Site_dict \<and> ok Site_name \<and> ok Site_shards \<and> ok Site_node
    \<and> list_all (\<lambda>i. ok (Site_buckets i)) [0..<unat n]"
  have c: "create_locked ok name budget ns g
      = Some (if good then (Some d, g\<lparr>g_registry := d # g_registry g\<rparr>) else (None, g))"
    unfolding create_locked_def m_def [symmetric] n_def [symmetric] Let_def
    using n0 by (simp add: good_def d_def per_def)
  have D: "dict_ok (2 ^ k) (shard_budget budget (2 ^ k)) d" "contents d = replicate (2 ^ k) []"
    if "budget < 2 ^ 63"
  proof -
    have b: "per = shard_budget budget (2 ^ k)" by (simp add: per_def shard_budget_def k(2) max_def)
    have "per < 2 ^ 63"
      using le_less_trans [OF div_le_dividend that, of "2 ^ k"] unfolding b shard_budget_def by (simp add: ENTRY_SIZE_def)
    note N = new_shard_inv [OF this]
    show "dict_ok (2 ^ k) (shard_budget budget (2 ^ k)) d"
      unfolding dict_ok_def b [symmetric] using k N by (auto simp: d_def)
    show "contents d = replicate (2 ^ k) []" using k N by (simp add: contents_def d_def)
  qed
  show ?thesis
  proof (cases good)
    case True
    with c D k show ?thesis by (intro exI [of _ "Some d"]) (auto simp: d_def)
  next
    case False
    with c show ?thesis by (intro exI [of _ None]) simp
  qed
qed

lemma crash_only_overflow:
  "create_locked ok name budget ns g = None \<Longrightarrow> 2 ^ 31 < unat ns"
proof (rule ccontr)
  assume n: "create_locked ok name budget ns g = None" and "\<not> 2 ^ 31 < unat ns"
  then have "unat ns \<le> 2 ^ 31" by simp
  from create_locked_spec [OF this, of ok name budget g] n show False by auto
qed

text \<open>A dictionary that \<open>xshared_create\<close> just made; the shard count is a power of two.\<close>

lemma created:
  assumes "xshared_create ok name budget ns g = Some (Some d, g')" and "budget < 2 ^ 63"
  shows "\<exists>k \<le> 10. unat (d_nshards d) = 2 ^ k \<and> dict_ok (2 ^ k) (shard_budget budget (2 ^ k)) d
    \<and> contents d = replicate (2 ^ k) [] \<and> d_sweep_bucket d = 0"
proof -
  obtain h where c: "create_locked ok name budget ns g = Some (Some d, h)"
    using assms(1) by (auto simp: xshared_create_def xshared_get_or_create_def split: option.splits if_splits)
  have "unat ns \<le> 2 ^ 31"
  proof (rule ccontr)
    assume "\<not> unat ns \<le> 2 ^ 31"
    then have "2 ^ 31 < unat (if ns = 0 then 8 else ns)" by auto
    from next_pow2_u32_overflow [OF this] c show False
      by (auto simp: create_locked_def Let_def XSHARED_MAX_SHARDS_def split: if_splits)
  qed
  from create_locked_spec [OF this, of ok name budget g] c assms(2) show ?thesis by auto
qed

section \<open>The recency list per shard\<close>

definition sample_name :: bytes where "sample_name = [97, 95, 98]"

definition sample_registry :: registry where
  "sample_registry = \<lparr>g_registry = [], g_reg_ready = True, last_sweep_ms = 0\<rparr>"

definition sample_dict :: xshared_dict where
  "sample_dict = \<lparr>d_name = sample_name, d_nshards = 1, d_mask = 0, d_shards = [new_shard 200],
     d_sweep_shard = 0, d_sweep_bucket = 0\<rparr>"

lemma sample_dict_created:
  "xshared_create (\<lambda>_. True) sample_name 200 1 sample_registry
     = Some (Some sample_dict, sample_registry\<lparr>g_registry := [sample_dict]\<rparr>)"
  by (simp add: xshared_create_def xshared_get_or_create_def create_locked_def sample_name_def
      sample_registry_def sample_dict_def name_valid_def name_char_def XSHARED_MAX_NAME_def Let_def
      next_pow2_u32_def XSHARED_MAX_SHARDS_def ENTRY_SIZE_def find_locked_def)

text \<open>C18. Any sequence of set, add, replace, get, delete, incr, expire and ttl on a created
  dictionary, with any clock and whatever allocations fail, returns exactly what a recency list per
  shard returns that reaps the expired item of the key, evicts least recent items until the new
  one fits, and puts what is written or read in front.\<close>

theorem shared_dict_refines_lru:
  assumes "xshared_create ok name budget ns g = Some (Some d, g')" and "budget < 2 ^ 63"
    and "\<forall>x \<in> set xs. op_small (snd (snd x))" and "run shared_do xs d = (rs, d')"
  shows "\<exists>k \<le> 10. unat (d_nshards d) = 2 ^ k
    \<and> run (caches_do (2 ^ k) (shard_budget budget (2 ^ k))) xs (replicate (2 ^ k) []) = (rs, contents d')"
  using created [OF assms(1,2)] run_refines [OF _ assms(3,4)] by metis

text \<open>Three entries of 68 bytes in a shard of 200: the third evicts the one read least recently,
  and the first expires after 20 ms.\<close>

abbreviation sample_steps :: "shared_step list" where
  "sample_steps \<equiv> map (\<lambda>(now, x). (\<lambda>_. True, now, x))
     [(5, SSet MODE_SET [1] (X_STR [7, 7, 7]) 20), (6, SSet MODE_ADD [2] (X_STR [8, 8, 8]) 0),
      (7, SGet [1]), (8, SSet MODE_SET [3] (X_STR [9, 9, 9]) 0), (9, SGet [2]), (9, STtl [1]), (25, SGet [1])]"

lemma sample_cache_run:
  "fst (run (caches_do (2 ^ 0) (shard_budget 200 (2 ^ 0))) sample_steps (replicate (2 ^ 0) []))
     = [Status XSHARED_OK, Status XSHARED_OK, Value XSHARED_OK (X_STR [7, 7, 7]), Status XSHARED_OK,
        Value XSHARED_NOTFOUND X_NIL, Remaining XSHARED_OK (Some 16), Value XSHARED_NOTFOUND X_NIL]"
  by (simp add: caches_do_def route_def shard_budget_def c_set_def c_get_def c_ttl_def c_reap_def c_find_def
      c_drop_def cost_def dead_def expiry_def ENTRY_SIZE_def Let_def)

lemma shared_dict_refines_lru_witness:
  "fst (run shared_do sample_steps sample_dict)
     = [Status XSHARED_OK, Status XSHARED_OK, Value XSHARED_OK (X_STR [7, 7, 7]), Status XSHARED_OK,
        Value XSHARED_NOTFOUND X_NIL, Remaining XSHARED_OK (Some 16), Value XSHARED_NOTFOUND X_NIL]"
proof -
  obtain rs d where r: "run shared_do sample_steps sample_dict = (rs, d)" by fastforce
  have bud: "(200 :: nat) < 2 ^ 63" by simp
  have small: "\<forall>x \<in> set sample_steps. op_small (snd (snd x))" by simp
  from shared_dict_refines_lru [OF sample_dict_created bud small r] obtain k where
    k: "unat (d_nshards sample_dict) = 2 ^ k"
      "run (caches_do (2 ^ k) (shard_budget 200 (2 ^ k))) sample_steps (replicate (2 ^ k) []) = (rs, contents d)"
    by blast
  from k(1) have "(2 :: nat) ^ k = 2 ^ 0" by (simp add: sample_dict_def)
  then have "k = 0" by (rule power_inject_exp [THEN iffD1, rotated]) simp
  from k(2) [unfolded this] sample_cache_run have "rs = [Status XSHARED_OK, Status XSHARED_OK, Value XSHARED_OK (X_STR [7, 7, 7]), Status XSHARED_OK,
        Value XSHARED_NOTFOUND X_NIL, Remaining XSHARED_OK (Some 16), Value XSHARED_NOTFOUND X_NIL]"
    by (simp only: fst_conv)
  with r show ?thesis by (simp only: fst_conv)
qed

section \<open>The byte budget\<close>

datatype shared_act = Call shared_step | Sweep nat int

fun act :: "shared_act \<Rightarrow> xshared_dict \<Rightarrow> xshared_dict" where
  "act (Call x) d = snd (shared_do x d)"
| "act (Sweep budget now) d = snd (sweep_expired budget now d)"

fun act_small :: "shared_act \<Rightarrow> bool" where
  "act_small (Call x) = op_small (snd (snd x))"
| "act_small (Sweep _ _) = True"

definition acts :: "shared_act list \<Rightarrow> xshared_dict \<Rightarrow> xshared_dict" where
  "acts xs d = fold act xs d"

lemma sweep_expired_swept:
  assumes "dict_ok n B d" and "sweep_expired budget now d = (r, d')"
  shows "dict_ok n B d'" and "r + entries d' = entries d"
    and "\<And>i. i < n \<Longrightarrow> \<exists>R. swept now R (d_shards d ! i) (d_shards d' ! i)"
proof -
  have "d_sweep_shard d < n" using assms(1) by (simp add: dict_ok_def)
  from sweep_shards_swept [OF assms(1) this assms(2) [unfolded sweep_expired_def]]
  show "dict_ok n B d'" "r + entries d' = entries d"
    "\<And>i. i < n \<Longrightarrow> \<exists>R. swept now R (d_shards d ! i) (d_shards d' ! i)" by simp_all
qed

lemma acts_ok:
  assumes "dict_ok n B d" and "\<forall>x \<in> set xs. act_small x"
  shows "dict_ok n B (acts xs d)"
  using assms
proof (induction xs arbitrary: d)
  case (Cons x xs)
  have "dict_ok n B (act x d)"
  proof (cases x)
    case (Call y)
    obtain r e where "shared_do y d = (r, e)" by fastforce
    with shared_do_refines [OF Cons.prems(1) _ this] Cons.prems(2) Call show ?thesis by simp
  next
    case (Sweep b now)
    obtain r e where "sweep_expired b now d = (r, e)" by fastforce
    with sweep_expired_swept(1) [OF Cons.prems(1) this] Sweep show ?thesis by simp
  qed
  from Cons.IH [OF this] Cons.prems(2) show ?case by (simp add: acts_def)
qed (simp add: acts_def)

text \<open>The items of all shards.\<close>

abbreviation all_items :: "xshared_dict \<Rightarrow> item list" where
  "all_items d \<equiv> concat (contents d)"

text \<open>C19. After any operations and sweeps, whatever allocations failed, the statistics count exactly
  the bytes and entries that are stored, and no shard uses more than its share: in total at most the
  budget the dictionary was created with, or one smallest entry per shard.\<close>

theorem shared_budget_kept:
  assumes "xshared_create ok name budget ns g = Some (Some d, g')" and "budget < 2 ^ 63"
    and "\<forall>x \<in> set xs. act_small x"
  defines "d' \<equiv> acts xs d"
  shows "st_used_bytes (xshared_stats d') = costs (all_items d')
    \<and> st_item_count (xshared_stats d') = length (all_items d')
    \<and> (\<forall>s \<in> set (d_shards d'). sh_used s \<le> sh_budget s)
    \<and> st_used_bytes (xshared_stats d') \<le> st_capacity_bytes (xshared_stats d')
    \<and> st_capacity_bytes (xshared_stats d') \<le> max budget (ENTRY_SIZE * unat (d_nshards d))"
proof -
  obtain k where k: "unat (d_nshards d) = 2 ^ k" "dict_ok (2 ^ k) (shard_budget budget (2 ^ k)) d"
    using created [OF assms(1,2)] by blast
  let ?n = "2 ^ k :: nat" and ?B = "shard_budget budget (2 ^ k)"
  have ok: "dict_ok ?n ?B d'" unfolding d'_def by (rule acts_ok [OF k(2) assms(3)])
  have sh: "sh_used s = costs (items s) \<and> sh_count s = length (items s) \<and> sh_used s \<le> sh_budget s \<and> sh_budget s = ?B"
    if "s \<in> set (d_shards d')" for s
    using ok that by (auto simp: dict_ok_def shard_inv_def account_ok_def items_def)
  have sums: "sum_list (map sh_used ss) = costs (concat (map items ss))
      \<and> sum_list (map sh_count ss) = length (concat (map items ss))
      \<and> sum_list (map sh_used ss) \<le> sum_list (map sh_budget ss)
      \<and> sum_list (map sh_budget ss) = length ss * ?B"
    if "set ss \<subseteq> set (d_shards d')" for ss
    using that
  proof (induction ss)
    case (Cons s ss)
    from Cons.prems have "s \<in> set (d_shards d')" by simp
    from sh [OF this] Cons show ?case by (auto intro: add_mono)
  qed simp
  have len: "length (d_shards d') = ?n" using ok by (simp add: dict_ok_def)
  have "?n * ?B \<le> max budget (ENTRY_SIZE * ?n)"
  proof (cases "ENTRY_SIZE \<le> budget div ?n")
    case True
    have "?n * (budget div ?n) \<le> budget" by simp
    then show ?thesis using True by (simp only: shard_budget_def max_absorb2 le_max_iff_disj simp_thms)
  qed (simp add: shard_budget_def max_def mult.commute)
  moreover have "\<forall>s \<in> set (d_shards d'). sh_used s \<le> sh_budget s" using sh by blast
  ultimately show ?thesis
    unfolding xshared_stats_def contents_def xshared_stats_t.simps using sums [OF subset_refl] len k(1) by metis
qed

lemma shared_budget_kept_witness:
  "st_used_bytes (xshared_stats (acts (map Call sample_steps @ [Sweep 4096 90]) sample_dict)) \<le> 200"
proof -
  have bud: "(200 :: nat) < 2 ^ 63" by simp
  have small: "\<forall>x \<in> set (map Call sample_steps @ [Sweep 4096 90]). act_small x" by simp
  from shared_budget_kept [OF sample_dict_created bud small] show ?thesis
    by (simp only: sample_dict_def ENTRY_SIZE_def xshared_dict.simps) (simp add: max_def)
qed

section \<open>What a sweep removes\<close>

lemma concat_entries: "entries d = length (all_items d)"
  by (simp add: entries_def contents_def length_concat o_def items_def)

text \<open>C20. A sweep, whatever its budget and its cursor, removes expired items only, keeps the
  order of all others and reports how many it removed; when it starts at a first bucket and the
  dictionary holds fewer entries than its budget (or the budget is 0), every expired item is gone.\<close>

theorem sweep_removes_expired:
  assumes "xshared_create ok name bytes ns g = Some (Some d0, g')" and "bytes < 2 ^ 63"
    and "\<forall>x \<in> set xs. act_small x" and "d = acts xs d0" and "sweep_expired budget now d = (r, d')"
  shows "(\<forall>i < unat (d_nshards d). \<exists>K. contents d' ! i = filter (\<lambda>x. it_key x \<notin> K) (contents d ! i)
        \<and> (\<forall>x \<in> set (contents d ! i). it_key x \<in> K \<longrightarrow> dead now x))
    \<and> r + length (all_items d') = length (all_items d)
    \<and> ((budget = 0 \<or> length (all_items d) < budget) \<and> d_sweep_bucket d = 0 \<longrightarrow>
         contents d' = map (filter (\<lambda>x. \<not> dead now x)) (contents d))"
proof -
  obtain k where k: "dict_ok (2 ^ k) (shard_budget bytes (2 ^ k)) d0"
    using created [OF assms(1,2)] by blast
  let ?n = "2 ^ k :: nat" and ?B = "shard_budget bytes (2 ^ k)"
  have ok: "dict_ok ?n ?B d" unfolding assms(4) by (rule acts_ok [OF k assms(3)])
  note W = sweep_expired_swept [OF ok assms(5)]
  have len: "length (d_shards d) = ?n" "length (d_shards d') = ?n" "unat (d_nshards d) = ?n" "d_sweep_shard d < ?n"
    using ok W(1) by (simp_all add: dict_ok_def)
  have K: "\<exists>K. contents d' ! i = filter (\<lambda>x. it_key x \<notin> K) (contents d ! i)
        \<and> (\<forall>x \<in> set (contents d ! i). it_key x \<in> K \<longrightarrow> dead now x)" if i: "i < ?n" for i
  proof -
    from W(3) [OF i] obtain R where "swept now R (d_shards d ! i) (d_shards d' ! i)" by blast
    from swept_items [OF this conjunct1 [OF dict_ok_shard [OF ok i]]] i len show ?thesis
      unfolding contents_def by (intro exI [of _ "(\<lambda>a. e_key (ent (d_shards d ! i) a)) ` R"]) simp
  qed
  have "contents d' = map (filter (\<lambda>x. \<not> dead now x)) (contents d)"
    if room: "budget = 0 \<or> length (all_items d) < budget" and cur: "d_sweep_bucket d = 0"
  proof -
    let ?V = "visited ?n (d_sweep_shard d) ?n"
    have V: "?V = {..<?n}"
    proof -
      have "i \<in> ?V" if "i < ?n" for i
      proof
        let ?j = "(i + ?n - d_sweep_shard d) mod ?n"
        have "(d_sweep_shard d + ?j) mod ?n = (d_sweep_shard d + (i + ?n - d_sweep_shard d)) mod ?n"
          by (rule mod_add_right_eq)
        also have "\<dots> = i" using that len(4) by simp
        finally show "i = (d_sweep_shard d + ?j) mod ?n" by (rule sym)
        show "?j \<in> {..<?n}" by simp
      qed
      then show ?thesis by auto
    qed
    have "(\<Sum>i \<in> ?V. length (sh_lru (d_shards d ! i))) = entries d"
      unfolding V entries_def using len(1) by (simp add: sum_list_sum_nth atLeast0LessThan)
    with room have "budget = 0 \<or> 0 + (\<Sum>i \<in> ?V. length (sh_lru (d_shards d ! i))) < budget"
      by (simp add: concat_entries)
    from sweep_shards_clean [OF ok len(4) order_refl this] assms(5) [unfolded sweep_expired_def cur len(3)]
    have C: "clean now (d_shards d' ! i)" if "i < ?n" for i using that unfolding V by blast
    show ?thesis
    proof (rule nth_equalityI)
      fix i
      assume "i < length (contents d')"
      then have i: "i < ?n" by (simp add: contents_def len)
      from K [OF i] obtain K where
        e: "contents d' ! i = filter (\<lambda>x. it_key x \<notin> K) (contents d ! i)" and
        dead: "\<forall>x \<in> set (contents d ! i). it_key x \<in> K \<longrightarrow> dead now x" by blast
      have live: "\<not> dead now x" if "x \<in> set (contents d' ! i)" for x
        using C [OF i] that i len by (auto simp: contents_def items_def clean_def expired_at_dead)
      have "contents d' ! i = filter (\<lambda>x. \<not> dead now x) (contents d ! i)"
        unfolding e by (rule filter_cong [OF refl]) (use live dead in \<open>auto simp: e\<close>)
      then show "contents d' ! i = map (filter (\<lambda>x. \<not> dead now x)) (contents d) ! i"
        using i len by (simp add: contents_def)
    qed (simp add: contents_def len)
  qed
  with K W(2) show ?thesis by (simp add: len(3) concat_entries)
qed

lemma on_shard_cursor: "d_sweep_bucket (snd (on_shard key f d)) = d_sweep_bucket d"
  by (simp add: on_shard_def Let_def split: prod.split)

lemma sweep_removes_expired_witness:
  defines "d \<equiv> acts [Call (\<lambda>_. True, 5, SSet MODE_SET [1] (X_STR [7]) 20)] sample_dict"
  shows "contents (snd (sweep_expired 0 90 d)) = map (filter (\<lambda>x. \<not> dead 90 x)) (contents d)"
proof -
  have bud: "(200 :: nat) < 2 ^ 63" by simp
  have small: "\<forall>x \<in> set [Call (\<lambda>_. True, 5, SSet MODE_SET [1] (X_STR [7]) 20)]. act_small x" by simp
  have "d_sweep_bucket d = 0"
    unfolding d_def by (simp add: acts_def xshared_set_def do_set_def on_shard_cursor) (simp add: sample_dict_def)
  moreover obtain r d' where s: "sweep_expired 0 90 d = (r, d')" by fastforce
  ultimately show ?thesis
    using sweep_removes_expired [OF sample_dict_created bud small meta_eq_to_obj_eq [OF d_def] s] by simp
qed

section \<open>One dictionary per name\<close>

text \<open>A call of \<open>xshared_get_or_create\<close>; None when it divides by zero.\<close>

type_synonym reg_call = "(create_site \<Rightarrow> bool) \<times> bytes \<times> nat \<times> u32"

fun reg_run :: "reg_call list \<Rightarrow> registry \<Rightarrow> ((xshared_dict option \<times> bool) list \<times> registry) option" where
  "reg_run [] g = Some ([], g)"
| "reg_run ((ok, name, budget, ns) # cs) g =
     (case xshared_get_or_create ok name budget ns g of
        None \<Rightarrow> None
      | Some (r, g) \<Rightarrow> map_option (apfst (Cons r)) (reg_run cs g))"

definition registry_ok :: "registry \<Rightarrow> bool" where
  "registry_ok g \<longleftrightarrow> distinct (map d_name (g_registry g)) \<and> (\<forall>d \<in> set (g_registry g). name_valid (d_name d))"

lemma find_locked_Some: "find_locked name g = Some d \<Longrightarrow> d \<in> set (g_registry g) \<and> d_name d = name"
  by (auto simp: find_locked_def find_Some_iff)

lemma find_locked_None: "find_locked name g = None \<longleftrightarrow> name \<notin> d_name ` set (g_registry g)"
  by (auto simp: find_locked_def find_None_iff)

text \<open>One call: the registry grows at its head by the dictionary the call made, if any.\<close>

lemma get_or_create_spec:
  assumes "registry_ok g" and "unat ns \<le> 2 ^ 31"
  obtains r made new where
    "xshared_get_or_create ok name budget ns g = Some ((r, made), g\<lparr>g_registry := new @ g_registry g\<rparr>)"
    "made \<longleftrightarrow> new \<noteq> []" "length new \<le> 1" "\<forall>d \<in> set new. d_name d = name \<and> r = Some d"
    "\<forall>d. r = Some d \<longrightarrow> d \<in> set (new @ g_registry g) \<and> d_name d = name"
    "registry_ok (g\<lparr>g_registry := new @ g_registry g\<rparr>)"
    "made \<longrightarrow> name \<notin> d_name ` set (g_registry g)"
proof -
  have same: "g\<lparr>g_registry := [] @ g_registry g\<rparr> = g" by simp
  show thesis
  proof (cases "budget = 0 \<or> \<not> name_valid name")
    case True
    then have "xshared_get_or_create ok name budget ns g = Some ((None, False), g\<lparr>g_registry := [] @ g_registry g\<rparr>)"
      by (simp add: xshared_get_or_create_def)
    then show thesis by (rule that [of None False "[]"]) (use assms(1) in simp_all)
  next
    case valid: False
    show thesis
    proof (cases "find_locked name g")
      case (Some d)
      with valid have "xshared_get_or_create ok name budget ns g = Some ((Some d, False), g\<lparr>g_registry := [] @ g_registry g\<rparr>)"
        by (simp add: xshared_get_or_create_def)
      then show thesis by (rule that [of "Some d" False "[]"]) (use assms(1) find_locked_Some [OF Some] in simp_all)
    next
      case None
      from create_locked_spec [OF assms(2), of ok name budget g] obtain r where
        c: "create_locked ok name budget ns g = Some (r, case r of None \<Rightarrow> g | Some d \<Rightarrow> g\<lparr>g_registry := d # g_registry g\<rparr>)"
          "\<forall>d. r = Some d \<longrightarrow> d_name d = name" by blast
      have n: "name \<notin> d_name ` set (g_registry g)" using None find_locked_None by blast
      show thesis
      proof (cases r)
        case None
        with c(1) valid \<open>find_locked name g = None\<close>
        have "xshared_get_or_create ok name budget ns g = Some ((None, False), g\<lparr>g_registry := [] @ g_registry g\<rparr>)"
          by (simp add: xshared_get_or_create_def)
        then show thesis by (rule that [of None False "[]"]) (use assms(1) in simp_all)
      next
        case (Some d)
        with c(1) valid \<open>find_locked name g = None\<close>
        have e: "xshared_get_or_create ok name budget ns g = Some ((Some d, True), g\<lparr>g_registry := [d] @ g_registry g\<rparr>)"
          by (simp add: xshared_get_or_create_def)
        have "d_name d = name" using c(2) Some by simp
        moreover have "registry_ok (g\<lparr>g_registry := [d] @ g_registry g\<rparr>)"
          using assms(1) n valid calculation by (simp add: registry_ok_def)
        ultimately show thesis by (intro that [OF e]) (use n in simp_all)
      qed
    qed
  qed
qed

lemma find_locked_unique:
  assumes "registry_ok g" and "d \<in> set (g_registry g)"
  shows "find_locked (d_name d) g = Some d"
  unfolding find_locked_def
  by (rule find_unique) (use assms in \<open>auto simp: registry_ok_def distinct_map inj_on_def\<close>)

text \<open>How often a run made a dictionary of a name.\<close>

definition times_made :: "bytes \<Rightarrow> reg_call list \<Rightarrow> (xshared_dict option \<times> bool) list \<Rightarrow> nat" where
  "times_made name cs rs = length (filter (\<lambda>((ok, m, b, ns), (r, made)). m = name \<and> made) (zip cs rs))"

lemma reg_run_spec:
  assumes "registry_ok g" and "\<forall>(ok, name, budget, ns) \<in> set cs. unat ns \<le> 2 ^ 31"
  shows "\<exists>rs g'. reg_run cs g = Some (rs, g') \<and> length rs = length cs \<and> registry_ok g'
    \<and> set (g_registry g) \<subseteq> set (g_registry g')
    \<and> (\<forall>((ok, name, b, ns), r, made) \<in> set (zip cs rs). \<forall>d. r = Some d \<longrightarrow> d_name d = name \<and> d \<in> set (g_registry g'))
    \<and> (\<forall>name. times_made name cs rs \<le> (if name \<in> d_name ` set (g_registry g) then 0 else 1))"
  using assms
proof (induction cs arbitrary: g)
  case Nil
  then show ?case by (simp add: times_made_def)
next
  case (Cons c cs)
  obtain ok name budget ns where c: "c = (ok, name, budget, ns)" by (cases c)
  from Cons.prems(2) have "unat ns \<le> 2 ^ 31" by (simp add: c)
  from Cons.prems(1) this obtain r made new where
    S: "xshared_get_or_create ok name budget ns g = Some ((r, made), g\<lparr>g_registry := new @ g_registry g\<rparr>)"
      "made \<longleftrightarrow> new \<noteq> []" "length new \<le> 1" "\<forall>d \<in> set new. d_name d = name \<and> r = Some d"
      "\<forall>d. r = Some d \<longrightarrow> d \<in> set (new @ g_registry g) \<and> d_name d = name"
      "registry_ok (g\<lparr>g_registry := new @ g_registry g\<rparr>)" "made \<longrightarrow> name \<notin> d_name ` set (g_registry g)"
    by (rule get_or_create_spec [where ok = ok and name = name and budget = budget])
  let ?g = "g\<lparr>g_registry := new @ g_registry g\<rparr>"
  have "\<forall>(ok, name, budget, ns) \<in> set cs. unat ns \<le> 2 ^ 31" using Cons.prems(2) by simp
  from Cons.IH [OF S(6) this] obtain rs g' where
    I: "reg_run cs ?g = Some (rs, g')" "length rs = length cs" "registry_ok g'"
      "set (g_registry ?g) \<subseteq> set (g_registry g')"
      "\<forall>((ok, name, b, ns), r, made) \<in> set (zip cs rs). \<forall>d. r = Some d \<longrightarrow> d_name d = name \<and> d \<in> set (g_registry g')"
      "\<And>name. times_made name cs rs \<le> (if name \<in> d_name ` set (g_registry ?g) then 0 else 1)" by blast
  have head: "d_name d = name \<and> d \<in> set (g_registry g')" if "r = Some d" for d
    using S(5) that I(4) by auto
  have step: "times_made m (c # cs) ((r, made) # rs) = (if m = name \<and> made then 1 else 0) + times_made m cs rs" for m
    by (simp add: times_made_def c)
  have times: "times_made m (c # cs) ((r, made) # rs) \<le> (if m \<in> d_name ` set (g_registry g) then 0 else 1)" for m
  proof (cases "m = name \<and> made")
    case True
    then have "new \<noteq> []" using S(2) by simp
    then have "m \<in> d_name ` set (g_registry ?g)" using S(4) True by (cases new) auto
    with I(6) [of m] step [of m] True S(7) show ?thesis by auto
  next
    case False
    with step [of m] have e: "times_made m (c # cs) ((r, made) # rs) = times_made m cs rs" by auto
    show ?thesis
      using I(6) [of m] unfolding e by (cases "m \<in> d_name ` set (g_registry g)") (auto split: if_splits)
  qed
  have run: "reg_run (c # cs) g = Some ((r, made) # rs, g')" by (simp add: c S(1) I(1))
  show ?case
    unfolding run using I(2,3,4) times head I(5) by (auto simp: c)
qed

text \<open>However many threads ask for however many names with whatever allocation failures (the
  registry lock orders the calls), every call returns, all calls that get a dictionary for a name
  get the same one, the one a later lookup finds, at most one of them is told that it made it, and
  names in the registry are valid and distinct.\<close>

lemma one_dict_per_name:
  assumes "\<forall>(ok, name, budget, ns) \<in> set cs. unat ns \<le> 2 ^ 31"
  shows "\<exists>rs g'. reg_run cs (xshared_init \<lparr>g_registry = [], g_reg_ready = False, last_sweep_ms = 0\<rparr>) = Some (rs, g')
    \<and> (\<forall>((ok, name, budget, ns), r, made) \<in> set (zip cs rs). \<forall>d. r = Some d \<longrightarrow>
         d_name d = name \<and> xshared_get_dict name g' = Some d)
    \<and> (\<forall>name. times_made name cs rs \<le> 1)
    \<and> distinct (map d_name (g_registry g')) \<and> (\<forall>d \<in> set (g_registry g'). name_valid (d_name d))"
proof -
  let ?g = "xshared_init \<lparr>g_registry = [], g_reg_ready = False, last_sweep_ms = 0\<rparr>"
  have ok: "registry_ok ?g" and none: "g_registry ?g = []" by (simp_all add: xshared_init_def registry_ok_def)
  from reg_run_spec [OF ok assms] obtain rs g' where
    R: "reg_run cs ?g = Some (rs, g')" "registry_ok g'"
      "\<And>ok name b ns r made d. ((ok, name, b, ns), r, made) \<in> set (zip cs rs) \<Longrightarrow> r = Some d \<Longrightarrow>
         d_name d = name \<and> d \<in> set (g_registry g')"
      "\<forall>name. times_made name cs rs \<le> 1"
    unfolding none by fastforce
  have "d_name d = name \<and> xshared_get_dict name g' = Some d"
    if "((ok, name, b, ns), r, made) \<in> set (zip cs rs)" "r = Some d" for ok name b ns r made d
    using R(3) [OF that] find_locked_unique [OF R(2), of d] by (auto simp: xshared_get_dict_def)
  with R show ?thesis unfolding registry_ok_def by (intro exI [of _ rs] exI [of _ g']) auto
qed

lemma one_dict_per_name_witness:
  "times_made sample_name [(\<lambda>_. True, sample_name, 200, 1), (\<lambda>_. True, sample_name, 900, 4)]
     (fst (the (reg_run [(\<lambda>_. True, sample_name, 200, 1), (\<lambda>_. True, sample_name, 900, 4)]
        (xshared_init \<lparr>g_registry = [], g_reg_ready = False, last_sweep_ms = 0\<rparr>)))) \<le> 1"
  using one_dict_per_name [of "[(\<lambda>_. True, sample_name, 200, 1), (\<lambda>_. True, sample_name, 900, 4)]"] by auto

end
