(* ===== verification/XHeapMin.thy ===== *)
theory XHeapMin
  imports XPrelude
begin

text \<open>
  The binary min-heap of \<open>xheapmin.h\<close>: an array of node pointers, every node knowing its index.
  Node memory is part of the state. A comparison function of the client is given two nodes: it
  may read their keys and, from their addresses, the client's own data (which stays as it is while a node is in
  a heap), so it is a function of two addresses and two keys. An access outside the allocated array
  is \<open>None\<close>. Allocation succeeds; sizes are below 2 ^ 30, where the \<open>int\<close> arithmetic is exact.
\<close>

section \<open>Data\<close>

record xHeapMinNode =
  heap_index :: int
  key :: u64

type_synonym comparison = "addr \<Rightarrow> u64 \<Rightarrow> addr \<Rightarrow> u64 \<Rightarrow> int"

definition xheapmin_compare :: "xHeapMinNode \<Rightarrow> xHeapMinNode \<Rightarrow> int" where
  "xheapmin_compare a b = (if key a < key b then -1 else if key a > key b then 1 else 0)"

text \<open>\<open>h_data\<close> is the allocated array, \<open>h_nodes\<close> the memory of the nodes.\<close>

record xHeapMin =
  h_data :: "addr list"
  h_capacity :: nat
  h_size :: nat
  h_compare :: "comparison option"
  h_nodes :: "addr \<Rightarrow> xHeapMinNode"

text \<open>What the uninitialised cells hold is arbitrary.\<close>

definition xheapmin_create ::
  "addr list \<Rightarrow> nat \<Rightarrow> comparison option \<Rightarrow> (addr \<Rightarrow> xHeapMinNode) \<Rightarrow> xHeapMin" where
  "xheapmin_create junk capacity cmp nodes =
     \<lparr>h_data = take capacity (junk @ replicate capacity 0), h_capacity = capacity, h_size = 0,
      h_compare = cmp, h_nodes = nodes\<rparr>"

section \<open>Sifting\<close>

definition parent :: "nat \<Rightarrow> nat" where "parent i = (i - 1) div 2"
definition leftChild :: "nat \<Rightarrow> nat" where "leftChild i = 2 * i + 1"
definition rightChild :: "nat \<Rightarrow> nat" where "rightChild i = 2 * i + 2"

definition set_index :: "addr \<Rightarrow> int \<Rightarrow> xHeapMin \<Rightarrow> xHeapMin" where
  "set_index a i h = h\<lparr>h_nodes := (h_nodes h)(a := (h_nodes h a)\<lparr>heap_index := i\<rparr>)\<rparr>"

definition swap_nodes :: "nat \<Rightarrow> nat \<Rightarrow> xHeapMin \<Rightarrow> xHeapMin" where
  "swap_nodes i j h =
     (let h = h\<lparr>h_data := (h_data h)[i := h_data h ! j, j := h_data h ! i]\<rparr>;
          h = set_index (h_data h ! i) (int i) h
      in set_index (h_data h ! j) (int j) h)"

definition compare_nodes :: "xHeapMin \<Rightarrow> addr \<Rightarrow> addr \<Rightarrow> int" where
  "compare_nodes h a b =
     (case h_compare h of
        None \<Rightarrow> xheapmin_compare (h_nodes h a) (h_nodes h b)
      | Some f \<Rightarrow> f a (key (h_nodes h a)) b (key (h_nodes h b)))"

abbreviation compare_at :: "xHeapMin \<Rightarrow> nat \<Rightarrow> nat \<Rightarrow> int" where
  "compare_at h i j \<equiv> compare_nodes h (h_data h ! i) (h_data h ! j)"

function heapify_up :: "nat \<Rightarrow> xHeapMin \<Rightarrow> xHeapMin" where
  "heapify_up i h =
     (if i > 0 then
        if compare_at h (parent i) i \<le> 0 then h
        else heapify_up (parent i) (swap_nodes (parent i) i h)
      else h)"
  by pat_completeness auto

termination
  by (relation "measure fst") (auto simp: parent_def)

declare heapify_up.simps [simp del]

definition smallest_of :: "xHeapMin \<Rightarrow> nat \<Rightarrow> nat" where
  "smallest_of h i =
     (let s = i;
          s = (if leftChild i < h_size h \<and> compare_at h (leftChild i) s < 0 then leftChild i else s);
          s = (if rightChild i < h_size h \<and> compare_at h (rightChild i) s < 0 then rightChild i else s)
      in s)"

lemma swap_nodes_size [simp]: "h_size (swap_nodes i j h) = h_size h"
  by (simp add: swap_nodes_def set_index_def Let_def)

lemma smallest_of_cases:
  "smallest_of h i = i \<or> smallest_of h i = leftChild i \<and> leftChild i < h_size h
   \<or> smallest_of h i = rightChild i \<and> rightChild i < h_size h"
  by (simp add: smallest_of_def Let_def)

function heapify_down :: "nat \<Rightarrow> xHeapMin \<Rightarrow> xHeapMin" where
  "heapify_down i h =
     (if smallest_of h i = i then h
      else heapify_down (smallest_of h i) (swap_nodes i (smallest_of h i) h))"
  by pat_completeness auto

termination
proof (relation "measure (\<lambda>(i, h). h_size h - i)")
  fix i h
  assume "smallest_of h i \<noteq> i"
  with smallest_of_cases [of h i]
  show "((smallest_of h i, swap_nodes i (smallest_of h i) h), i, h) \<in> measure (\<lambda>(i, h). h_size h - i)"
    by (auto simp: leftChild_def rightChild_def)
qed simp

declare heapify_down.simps [simp del]

section \<open>Operations\<close>

definition xheapmin_insert :: "addr \<Rightarrow> xHeapMin \<Rightarrow> xHeapMin option" where
  "xheapmin_insert a h =
     (let h = (if h_size h \<ge> h_capacity h
               then h\<lparr>h_capacity := h_capacity h * 2,
                      h_data := take (h_capacity h * 2) (h_data h @ replicate (h_capacity h * 2) 0)\<rparr>
               else h)
      in if h_size h \<ge> length (h_data h) then None
         else let h = h\<lparr>h_data := (h_data h)[h_size h := a]\<rparr>;
                  h = set_index a (int (h_size h)) h;
                  h = h\<lparr>h_size := h_size h + 1\<rparr>
              in Some (heapify_up (h_size h - 1) h))"

definition xheapmin_remove :: "int \<Rightarrow> xHeapMin \<Rightarrow> addr option \<times> xHeapMin" where
  "xheapmin_remove index h =
     (if index < 0 \<or> index \<ge> int (h_size h) then (None, h)
      else let i = nat index;
               removed = h_data h ! i;
               h = h\<lparr>h_data := (h_data h)[i := h_data h ! (h_size h - 1)]\<rparr>;
               h = set_index (h_data h ! i) (int i) h;
               h = h\<lparr>h_size := h_size h - 1\<rparr>;
               h = (if i < h_size h then
                      let replaced = h_data h ! i; h = heapify_up i h
                      in if heap_index (h_nodes h replaced) = int i then heapify_down i h else h
                    else h)
           in (Some removed, set_index removed (-1) h))"

definition xheapmin_extract :: "xHeapMin \<Rightarrow> addr option \<times> xHeapMin" where
  "xheapmin_extract h = xheapmin_remove 0 h"

definition xheapmin_peek :: "xHeapMin \<Rightarrow> addr option" where
  "xheapmin_peek h = (if h_size h > 0 then Some (h_data h ! 0) else None)"

definition xheapmin_size :: "xHeapMin \<Rightarrow> nat" where
  "xheapmin_size h = h_size h"

definition xheapmin_check :: "addr \<Rightarrow> xHeapMin \<Rightarrow> bool" where
  "xheapmin_check a h \<longleftrightarrow>
     (let i = heap_index (h_nodes h a) in 0 \<le> i \<and> i < int (h_size h) \<and> h_data h ! nat i = a)"

definition write_key :: "addr \<Rightarrow> u64 \<Rightarrow> xHeapMin \<Rightarrow> xHeapMin" where
  "write_key a k h = h\<lparr>h_nodes := (h_nodes h)(a := (h_nodes h a)\<lparr>key := k\<rparr>)\<rparr>"

definition xheapmin_refresh :: "addr \<Rightarrow> u64 \<Rightarrow> xHeapMin \<Rightarrow> xHeapMin" where
  "xheapmin_refresh a new_key h =
     (if \<not> xheapmin_check a h then h
      else let old_key = key (h_nodes h a); h = write_key a new_key h; i = nat (heap_index (h_nodes h a))
           in if new_key < old_key then heapify_up i h
              else if new_key > old_key then heapify_down i h
              else h)"

section \<open>Comparison functions and heap order\<close>

text \<open>What a comparison function must satisfy, and what the sifting steps do to a list that is
  ordered like a heap except around one index.\<close>

locale comparator =
  fixes cmp :: "'a \<Rightarrow> 'a \<Rightarrow> int"
  assumes flip: "cmp a b < 0 \<longleftrightarrow> 0 < cmp b a"
    and trans: "cmp a b \<le> 0 \<Longrightarrow> cmp b c \<le> 0 \<Longrightarrow> cmp a c \<le> 0"
begin

lemma total: "cmp a b \<le> 0 \<or> cmp b a \<le> 0"
  using flip [of a b] flip [of b a] by linarith

lemma refl: "cmp a a \<le> 0"
  using total by blast

definition ordered :: "'a list \<Rightarrow> bool" where
  "ordered xs \<longleftrightarrow> (\<forall>i < length xs. 0 < i \<longrightarrow> cmp (xs ! parent i) (xs ! i) \<le> 0)"

text \<open>Only the edge from \<open>k\<close> to its parent may be wrong.\<close>

definition ordered_up :: "nat \<Rightarrow> 'a list \<Rightarrow> bool" where
  "ordered_up k xs \<longleftrightarrow>
     (\<forall>i < length xs. 0 < i \<longrightarrow> i \<noteq> k \<longrightarrow> cmp (xs ! parent i) (xs ! i) \<le> 0)
     \<and> (\<forall>i < length xs. 0 < i \<longrightarrow> parent i = k \<longrightarrow> 0 < k \<longrightarrow> cmp (xs ! parent k) (xs ! i) \<le> 0)"

text \<open>Only the edges from \<open>k\<close> to its children may be wrong.\<close>

definition ordered_down :: "nat \<Rightarrow> 'a list \<Rightarrow> bool" where
  "ordered_down k xs \<longleftrightarrow>
     (\<forall>i < length xs. 0 < i \<longrightarrow> parent i \<noteq> k \<longrightarrow> cmp (xs ! parent i) (xs ! i) \<le> 0)
     \<and> (\<forall>i < length xs. 0 < i \<longrightarrow> parent i = k \<longrightarrow> 0 < k \<longrightarrow> cmp (xs ! parent k) (xs ! i) \<le> 0)"

lemma parent_less: "0 < i \<Longrightarrow> parent i < i"
  by (simp add: parent_def)

lemma ordered_root:
  assumes "ordered xs" and "i < length xs"
  shows "cmp (xs ! 0) (xs ! i) \<le> 0"
  using assms(2)
proof (induction i rule: less_induct)
  case (less i)
  show ?case
  proof (cases "i = 0")
    case False
    then have p: "parent i < i" by (simp add: parent_less)
    from less(1) [OF p] p less(2) have "cmp (xs ! 0) (xs ! parent i) \<le> 0" by simp
    moreover from assms(1) less(2) False have "cmp (xs ! parent i) (xs ! i) \<le> 0" by (simp add: ordered_def)
    ultimately show ?thesis by (rule trans)
  qed (simp add: refl)
qed

lemma up_done: "ordered_up k xs \<Longrightarrow> k = 0 \<or> cmp (xs ! parent k) (xs ! k) \<le> 0 \<Longrightarrow> ordered xs"
  by (auto simp: ordered_up_def ordered_def)

lemma up_step:
  assumes "ordered_up k xs" and "0 < k" and "k < length xs" and "\<not> cmp (xs ! parent k) (xs ! k) \<le> 0"
  shows "ordered_up (parent k) (xs[parent k := xs ! k, k := xs ! parent k])"
proof -
  let ?p = "parent k" and ?ys = "xs[parent k := xs ! k, k := xs ! parent k]"
  have p: "?p < k" using assms(2) by (rule parent_less)
  have n: "?ys ! i = (if i = k then xs ! ?p else if i = ?p then xs ! k else xs ! i)" if "i < length xs" for i
    using that p assms(3) by (simp add: nth_list_update)
  have low: "cmp (xs ! k) (xs ! ?p) \<le> 0" using assms(4) total by blast
  have up: "cmp (xs ! parent i) (xs ! i) \<le> 0" if "i < length xs" "0 < i" "i \<noteq> k" for i
    using assms(1) that by (simp add: ordered_up_def)
  have kid: "cmp (xs ! ?p) (xs ! i) \<le> 0" if "i < length xs" "0 < i" "parent i = k" for i
    using assms(1,2) that by (simp add: ordered_up_def)
  show ?thesis
    unfolding ordered_up_def length_list_update
  proof (intro conjI allI impI)
    fix i
    assume i: "i < length xs" "0 < i" "i \<noteq> ?p"
    have pi: "parent i < length xs" using parent_less [OF i(2)] i(1) by simp
    show "cmp (?ys ! parent i) (?ys ! i) \<le> 0"
    proof (cases "i = k")
      case True
      with n [OF i(1)] n [OF pi] p low show ?thesis by simp
    next
      case False
      consider "parent i = k" | "parent i = ?p" | "parent i \<noteq> k" "parent i \<noteq> ?p" by blast
      then show ?thesis
      proof cases
        case 1
        with n [OF i(1)] n [OF pi] False i kid show ?thesis by simp
      next
        case 2
        have "cmp (xs ! k) (xs ! i) \<le> 0" using trans [OF low] up [OF i(1,2) False] 2 by simp
        with n [OF i(1)] n [OF pi] False i p 2 show ?thesis by simp
      next
        case 3
        with n [OF i(1)] n [OF pi] False i up show ?thesis by simp
      qed
    qed
  next
    fix i
    assume i: "i < length xs" "0 < i" "parent i = ?p" "0 < ?p"
    have pp: "parent ?p < ?p" using i(4) by (rule parent_less)
    have P: "cmp (xs ! parent ?p) (xs ! ?p) \<le> 0" using up [of ?p] i(4) p assms(3) by simp
    have "?ys ! parent ?p = xs ! parent ?p" using n [of "parent ?p"] pp p assms(3) by simp
    moreover have "cmp (xs ! parent ?p) (?ys ! i) \<le> 0"
    proof (cases "i = k")
      case True
      with P n [OF i(1)] show ?thesis by simp
    next
      case False
      moreover have "i \<noteq> ?p" using i(3) parent_less [OF i(2)] by auto
      ultimately have "?ys ! i = xs ! i" using n [OF i(1)] by simp
      moreover have "cmp (xs ! ?p) (xs ! i) \<le> 0" using up [OF i(1,2) False] i(3) by simp
      ultimately show ?thesis using trans [OF P] by simp
    qed
    ultimately show "cmp (?ys ! parent ?p) (?ys ! i) \<le> 0" by simp
  qed
qed

lemma down_done:
  "ordered_down k xs \<Longrightarrow> (\<And>i. i < length xs \<Longrightarrow> 0 < i \<Longrightarrow> parent i = k \<Longrightarrow> cmp (xs ! k) (xs ! i) \<le> 0) \<Longrightarrow> ordered xs"
  unfolding ordered_down_def ordered_def by (metis)

text \<open>A smallest child moves up.\<close>

lemma down_step:
  assumes "ordered_down k xs" and "c < length xs" and "0 < c" and "parent c = k"
    and "cmp (xs ! c) (xs ! k) \<le> 0" and "\<And>i. i < length xs \<Longrightarrow> 0 < i \<Longrightarrow> parent i = k \<Longrightarrow> cmp (xs ! c) (xs ! i) \<le> 0"
  shows "ordered_down c (xs[k := xs ! c, c := xs ! k])"
proof -
  let ?ys = "xs[k := xs ! c, c := xs ! k]"
  have kc: "k < c" using parent_less [OF assms(3)] assms(4) by simp
  have n: "?ys ! i = (if i = c then xs ! k else if i = k then xs ! c else xs ! i)" if "i < length xs" for i
    using that kc assms(2) by (simp add: nth_list_update)
  have up: "cmp (xs ! parent i) (xs ! i) \<le> 0" if "i < length xs" "0 < i" "parent i \<noteq> k" for i
    using assms(1) that by (simp add: ordered_down_def)
  show ?thesis
    unfolding ordered_down_def length_list_update
  proof (intro conjI allI impI)
    fix i
    assume i: "i < length xs" "0 < i" "parent i \<noteq> c"
    have pi: "parent i < length xs" using parent_less [OF i(2)] i(1) by simp
    show "cmp (?ys ! parent i) (?ys ! i) \<le> 0"
    proof (cases "parent i = k")
      case True
      then have ik: "i \<noteq> k" using parent_less [OF i(2)] by auto
      have "?ys ! parent i = xs ! c" using n [OF pi] True kc by simp
      moreover have "?ys ! i = (if i = c then xs ! k else xs ! i)" using n [OF i(1)] ik by simp
      ultimately show ?thesis using assms(5) assms(6) [OF i(1,2) True] by simp
    next
      case False
      then have "i \<noteq> c" using assms(4) by auto
      have e: "?ys ! parent i = xs ! parent i" using n [OF pi] False i(3) by simp
      show ?thesis
      proof (cases "i = k")
        case True
        then have "cmp (xs ! parent k) (xs ! c) \<le> 0"
          using assms(1-4) i(2) by (simp add: ordered_down_def)
        with True e n [OF i(1)] kc show ?thesis by simp
      next
        case False
        with e n [OF i(1)] \<open>i \<noteq> c\<close> up [OF i(1,2) \<open>parent i \<noteq> k\<close>] show ?thesis by simp
      qed
    qed
  next
    fix i
    assume i: "i < length xs" "0 < i" "parent i = c" "0 < c"
    have ci: "c < i" using parent_less [OF i(2)] i(3) by simp
    have "?ys ! parent c = xs ! c" using n [of k] kc assms(2,4) by simp
    moreover have "?ys ! i = xs ! i" using n [OF i(1)] ci kc by simp
    moreover have "cmp (xs ! c) (xs ! i) \<le> 0" using up [OF i(1,2)] i(3) kc by simp
    ultimately show "cmp (?ys ! parent c) (?ys ! i) \<le> 0" by simp
  qed
qed

text \<open>Only edges at \<open>k\<close> may be wrong, and the parent of \<open>k\<close> is below its children: what replacing
  an element leaves.\<close>

definition ordered_except :: "nat \<Rightarrow> 'a list \<Rightarrow> bool" where
  "ordered_except k xs \<longleftrightarrow>
     (\<forall>i < length xs. 0 < i \<longrightarrow> i \<noteq> k \<longrightarrow> parent i \<noteq> k \<longrightarrow> cmp (xs ! parent i) (xs ! i) \<le> 0)
     \<and> (\<forall>i < length xs. 0 < i \<longrightarrow> parent i = k \<longrightarrow> 0 < k \<longrightarrow> cmp (xs ! parent k) (xs ! i) \<le> 0)"

lemma except_up:
  assumes "ordered_except k xs" and "0 < k" and "\<not> cmp (xs ! parent k) (xs ! k) \<le> 0"
  shows "ordered_up k xs"
  unfolding ordered_up_def
proof (intro conjI allI impI)
  have low: "cmp (xs ! k) (xs ! parent k) \<le> 0" using assms(3) total by blast
  fix i
  assume i: "i < length xs" "0 < i"
  show "cmp (xs ! parent i) (xs ! i) \<le> 0" if "i \<noteq> k"
  proof (cases "parent i = k")
    case True
    with assms(1,2) i have "cmp (xs ! parent k) (xs ! i) \<le> 0" by (simp add: ordered_except_def)
    with low show ?thesis unfolding True by (rule trans)
  qed (use assms(1) i that in \<open>simp add: ordered_except_def\<close>)
  show "cmp (xs ! parent k) (xs ! i) \<le> 0" if "parent i = k" "0 < k"
    using assms(1) i that by (simp add: ordered_except_def)
qed

lemma except_down:
  "ordered_except k xs \<Longrightarrow> k = 0 \<or> cmp (xs ! parent k) (xs ! k) \<le> 0 \<Longrightarrow> ordered_down k xs"
  unfolding ordered_except_def ordered_down_def by blast

lemma replace_except:
  assumes "ordered xs"
  shows "ordered_except k (xs[k := y])"
  unfolding ordered_except_def length_list_update
proof (intro conjI allI impI)
  fix i
  assume i: "i < length xs" "0 < i"
  have up: "cmp (xs ! parent j) (xs ! j) \<le> 0" if "j < length xs" "0 < j" for j
    using assms that by (simp add: ordered_def)
  show "cmp (xs[k := y] ! parent i) (xs[k := y] ! i) \<le> 0" if "i \<noteq> k" "parent i \<noteq> k"
    using up [OF i] that by simp
  show "cmp (xs[k := y] ! parent k) (xs[k := y] ! i) \<le> 0" if "parent i = k" "0 < k"
  proof -
    have "k < i" using parent_less [OF i(2)] that(1) by simp
    then have "cmp (xs ! parent k) (xs ! i) \<le> 0"
      using trans [OF up [of k]] up [OF i] i(1) that by simp
    then show ?thesis using \<open>k < i\<close> parent_less [OF that(2)] by simp
  qed
qed

lemma ordered_take: "ordered xs \<Longrightarrow> ordered (take n xs)"
proof -
  assume o: "ordered xs"
  have "cmp (take n xs ! parent i) (take n xs ! i) \<le> 0" if "i < length xs" "i < n" "0 < i" for i
    using o that parent_less [OF that(3)] by (simp add: ordered_def)
  then show ?thesis by (simp add: ordered_def)
qed

lemma ordered_imp_up: "ordered xs \<Longrightarrow> ordered_up k xs"
  using replace_except [of xs k "xs ! k"] by (auto simp: ordered_up_def ordered_def ordered_except_def)

lemma ordered_imp_down: "ordered xs \<Longrightarrow> ordered_down k xs"
  using replace_except [of xs k "xs ! k"] by (auto simp: ordered_down_def ordered_def ordered_except_def)

lemma ordered_snoc: "ordered xs \<Longrightarrow> ordered_up (length xs) (xs @ [y])"
proof -
  assume o: "ordered xs"
  have "cmp ((xs @ [y]) ! parent i) ((xs @ [y]) ! i) \<le> 0" if "i < Suc (length xs)" "0 < i" "i \<noteq> length xs" for i
    using o that parent_less [OF that(2)] by (simp add: ordered_def nth_append)
  moreover have "parent i \<noteq> length xs" if "i < Suc (length xs)" "0 < i" for i
    using that parent_less [OF that(2)] by simp
  ultimately show ?thesis by (simp add: ordered_up_def)
qed

end

text \<open>A comparison as one of pairs of an address and a key; the default one satisfies the laws.\<close>

definition pair_compare :: "comparison option \<Rightarrow> addr \<times> u64 \<Rightarrow> addr \<times> u64 \<Rightarrow> int" where
  "pair_compare cmp p q =
     (case cmp of
        None \<Rightarrow> if snd p < snd q then -1 else if snd p > snd q then 1 else 0
      | Some f \<Rightarrow> f (fst p) (snd p) (fst q) (snd q))"

interpretation key_order: comparator "pair_compare None"
  by unfold_locales (auto simp: pair_compare_def split: if_splits)

lemma compare_pair:
  "compare_nodes h a b = pair_compare (h_compare h) (a, key (h_nodes h a)) (b, key (h_nodes h b))"
  by (simp add: compare_nodes_def pair_compare_def xheapmin_compare_def split: option.split)

lemma heap_comparator: "comparator (pair_compare (h_compare h)) \<Longrightarrow> comparator (compare_nodes h)"
  by (rule comparator.intro)
    (auto simp: compare_pair intro: comparator.flip [THEN iffD1] comparator.flip [THEN iffD2] comparator.trans)

end
