(* ===== verification/XHeapProps.thy ===== *)
theory XHeapProps
  imports XHeapMin "HOL-Library.Multiset"
begin

text \<open>
  The min-heap keeps its order and the index of every node under all operations, so it gives back
  a least node; inserting nodes and extracting them again sorts their keys.
\<close>

section \<open>The nodes in a heap\<close>

definition nodes_in :: "xHeapMin \<Rightarrow> addr list" where
  "nodes_in h = take (h_size h) (h_data h)"

definition indexed :: "xHeapMin \<Rightarrow> bool" where
  "indexed h \<longleftrightarrow>
     h_size h \<le> length (h_data h) \<and> distinct (nodes_in h)
     \<and> (\<forall>i < h_size h. heap_index (h_nodes h (h_data h ! i)) = int i)"

text \<open>What sifting leaves as it is.\<close>

definition same_heap :: "xHeapMin \<Rightarrow> xHeapMin \<Rightarrow> bool" where
  "same_heap h h' \<longleftrightarrow>
     h_size h' = h_size h \<and> length (h_data h') = length (h_data h) \<and> h_capacity h' = h_capacity h
     \<and> h_compare h' = h_compare h \<and> (\<forall>a. key (h_nodes h' a) = key (h_nodes h a))
     \<and> (\<forall>a. a \<notin> set (nodes_in h) \<longrightarrow> h_nodes h' a = h_nodes h a) \<and> mset (nodes_in h') = mset (nodes_in h)"

lemma same_heap_refl [simp]: "same_heap h h"
  by (simp add: same_heap_def)

lemma same_heap_set: "same_heap h h' \<Longrightarrow> set (nodes_in h') = set (nodes_in h)"
  unfolding same_heap_def by (metis set_mset_mset)

lemma same_heap_trans: "same_heap h g \<Longrightarrow> same_heap g f \<Longrightarrow> same_heap h f"
  using same_heap_set [of h g] by (simp add: same_heap_def)

lemma compare_cong:
  "h_compare h' = h_compare h \<Longrightarrow> (\<And>a. key (h_nodes h' a) = key (h_nodes h a)) \<Longrightarrow> compare_nodes h' = compare_nodes h"
  by (intro ext) (simp add: compare_nodes_def xheapmin_compare_def split: option.split)

lemma same_heap_compare: "same_heap h h' \<Longrightarrow> compare_nodes h' = compare_nodes h"
  by (rule compare_cong) (simp_all add: same_heap_def)

lemma nodes_in_nth: "i < h_size h \<Longrightarrow> h_size h \<le> length (h_data h) \<Longrightarrow> nodes_in h ! i = h_data h ! i"
  by (simp add: nodes_in_def)

lemma nodes_in_length: "h_size h \<le> length (h_data h) \<Longrightarrow> length (nodes_in h) = h_size h"
  by (simp add: nodes_in_def)

lemma indexed_at: "indexed h \<Longrightarrow> a \<in> set (nodes_in h) \<Longrightarrow> \<exists>i < h_size h. h_data h ! i = a \<and> heap_index (h_nodes h a) = int i"
  by (auto simp: indexed_def nodes_in_def in_set_conv_nth)

lemma swap_spec:
  assumes "indexed h" and "i < h_size h" and "j < h_size h" and "i \<noteq> j"
  shows "indexed (swap_nodes i j h)" and "same_heap h (swap_nodes i j h)"
    and "nodes_in (swap_nodes i j h) = (nodes_in h)[i := nodes_in h ! j, j := nodes_in h ! i]"
proof -
  let ?h = "swap_nodes i j h" and ?d = "(h_data h)[i := h_data h ! j, j := h_data h ! i]"
  let ?a = "h_data h ! i" and ?b = "h_data h ! j"
  have len: "h_size h \<le> length (h_data h)" using assms(1) by (simp add: indexed_def)
  have d: "h_data ?h = ?d" by (simp add: swap_nodes_def set_index_def Let_def)
  have D: "?d ! k = (if k = j then ?a else if k = i then ?b else h_data h ! k)" if "k < h_size h" for k
    using that assms len by (simp add: nth_list_update)
  have ab: "?a \<noteq> ?b"
    using assms len by (auto simp: indexed_def nodes_in_def distinct_conv_nth)
  have N: "h_nodes ?h = (h_nodes h)(?b := (h_nodes h ?b)\<lparr>heap_index := int i\<rparr>, ?a := (h_nodes h ?a)\<lparr>heap_index := int j\<rparr>)"
    using D [OF assms(2)] D [OF assms(3)] ab assms(4) by (simp add: swap_nodes_def set_index_def Let_def)
  have s: "h_size ?h = h_size h" "h_capacity ?h = h_capacity h" "h_compare ?h = h_compare h"
    by (simp_all add: swap_nodes_def set_index_def Let_def)
  show L: "nodes_in ?h = (nodes_in h)[i := nodes_in h ! j, j := nodes_in h ! i]"
    unfolding nodes_in_def d s using assms len by (simp add: take_update_swap)
  have "mset (nodes_in ?h) = mset (nodes_in h)"
    unfolding L using assms nodes_in_length [OF len] by (simp add: mset_swap)
  moreover have in1: "?a \<in> set (nodes_in h)" "?b \<in> set (nodes_in h)"
    using assms(2,3) len by (auto simp: nodes_in_def in_set_conv_nth)
  ultimately show same: "same_heap h ?h"
    unfolding same_heap_def using s d N by auto
  have "distinct (nodes_in ?h)" using L assms(1) nodes_in_length [OF len] assms(2,3) by (simp add: indexed_def distinct_swap)
  moreover have "heap_index (h_nodes ?h (?d ! k)) = int k" if k: "k < h_size h" for k
  proof (cases "k = i \<or> k = j")
    case True
    with D [OF k] N ab show ?thesis by auto
  next
    case False
    then have "h_data h ! k \<noteq> ?a" "h_data h ! k \<noteq> ?b"
      using assms k len by (auto simp: indexed_def nodes_in_def distinct_conv_nth)
    with D [OF k] N False assms(1) k show ?thesis by (simp add: indexed_def)
  qed
  ultimately show "indexed ?h" using len by (simp add: indexed_def s d)
qed

section \<open>Sifting restores the order\<close>

abbreviation heap_order :: "xHeapMin \<Rightarrow> bool" where
  "heap_order h \<equiv> comparator.ordered (compare_nodes h) (nodes_in h)"

text \<open>The node at the start either stays, and nothing changed, or it moved up.\<close>

lemma heapify_up_spec:
  assumes "comparator (compare_nodes h)" and "indexed h" and "k < h_size h"
    and "comparator.ordered_up (compare_nodes h) k (nodes_in h)"
  shows "indexed (heapify_up k h) \<and> same_heap h (heapify_up k h) \<and> heap_order (heapify_up k h)"
  using assms
proof (induction k h rule: heapify_up.induct)
  case (1 k h)
  note cmp_ok = 1(2)
  have len: "h_size h \<le> length (h_data h)" using 1(3) by (simp add: indexed_def)
  have at: "compare_at h i j = compare_nodes h (nodes_in h ! i) (nodes_in h ! j)" if "i < h_size h" "j < h_size h" for i j
    using that len by (simp add: nodes_in_nth)
  show ?case
  proof (cases "k > 0 \<and> \<not> compare_at h (parent k) k \<le> 0")
    case False
    then have e: "heapify_up k h = h" by (auto simp: heapify_up.simps [of k h])
    have "k = 0 \<or> compare_nodes h (nodes_in h ! parent k) (nodes_in h ! k) \<le> 0"
    proof (cases "k = 0")
      case k: False
      then have "parent k < h_size h" using comparator.parent_less [OF cmp_ok, of k] 1(4) by simp
      with k False at [OF _ 1(4)] show ?thesis by simp
    qed simp
    from comparator.up_done [OF cmp_ok, OF 1(5) this] 1(3) show ?thesis unfolding e by simp
  next
    case True
    let ?p = "parent k" and ?g = "swap_nodes (parent k) k h"
    have p: "?p < k" using True comparator.parent_less [OF cmp_ok] by simp
    then have ps: "?p < h_size h" using 1(4) by simp
    note S = swap_spec [OF 1(3) ps 1(4)]
    have ne: "?p \<noteq> k" using p by simp
    have cmp: "compare_nodes ?g = compare_nodes h" by (rule same_heap_compare [OF S(2) [OF ne]])
    have "\<not> compare_nodes h (nodes_in h ! ?p) (nodes_in h ! k) \<le> 0" using True at [OF ps 1(4)] by simp
    with comparator.up_step [OF cmp_ok, OF 1(5), of] True 1(4) nodes_in_length [OF len]
    have up: "comparator.ordered_up (compare_nodes h) ?p (nodes_in ?g)" unfolding S(3) [OF ne] by simp
    have e: "heapify_up k h = heapify_up ?p ?g" using True by (simp add: heapify_up.simps [of k h])
    from 1(1) [OF conjunct1 [OF True] conjunct2 [OF True], unfolded cmp, OF 1(2) S(1) [OF ne] _ up] ps
    show ?thesis unfolding e using same_heap_trans [OF S(2) [OF ne]] by simp
  qed
qed

lemma smallest_of_min:
  assumes "comparator (compare_nodes h)" and "h_size h \<le> length (h_data h)" and "k < h_size h"
  shows "compare_nodes h (nodes_in h ! smallest_of h k) (nodes_in h ! k) \<le> 0"
    and "i < h_size h \<Longrightarrow> 0 < i \<Longrightarrow> parent i = k \<Longrightarrow> compare_nodes h (nodes_in h ! smallest_of h k) (nodes_in h ! i) \<le> 0"
    and "smallest_of h k \<noteq> k \<Longrightarrow> smallest_of h k < h_size h \<and> k < smallest_of h k \<and> parent (smallest_of h k) = k"
proof -
  note cmp_ok = assms(1)
  let ?l = "leftChild k" and ?r = "rightChild k"
  define m where "m = (if ?l < h_size h \<and> compare_at h ?l k < 0 then ?l else k)"
  have s: "smallest_of h k = (if ?r < h_size h \<and> compare_at h ?r m < 0 then ?r else m)"
    by (simp add: smallest_of_def m_def Let_def)
  have m: "m < h_size h" using assms(3) by (simp add: m_def)
  have sz: "smallest_of h k < h_size h" using s m by simp
  have mk: "compare_at h m k \<le> 0" using comparator.refl [OF cmp_ok] by (auto simp: m_def)
  have ml: "compare_at h m ?l \<le> 0" if "?l < h_size h"
    using that comparator.refl [OF cmp_ok] comparator.flip [OF cmp_ok] comparator.total [OF cmp_ok] by (auto simp: m_def)
  have sm: "compare_at h (smallest_of h k) m \<le> 0" using s comparator.refl [OF cmp_ok] by (auto split: if_splits)
  have sr: "compare_at h (smallest_of h k) ?r \<le> 0" if "?r < h_size h"
    using that s comparator.refl [OF cmp_ok] comparator.flip [OF cmp_ok] comparator.total [OF cmp_ok] by (auto split: if_splits)
  have sk: "compare_at h (smallest_of h k) k \<le> 0" by (rule comparator.trans [OF cmp_ok, OF sm mk])
  have at: "nodes_in h ! i = h_data h ! i" if "i < h_size h" for i using that assms(2) by (rule nodes_in_nth)
  show "compare_nodes h (nodes_in h ! smallest_of h k) (nodes_in h ! k) \<le> 0" using sk at sz assms(3) by simp
  show "compare_nodes h (nodes_in h ! smallest_of h k) (nodes_in h ! i) \<le> 0"
    if "i < h_size h" "0 < i" "parent i = k"
  proof -
    from that(2,3) have "i = ?l \<or> i = ?r" by (simp add: parent_def leftChild_def rightChild_def) presburger
    with that(1) comparator.trans [OF cmp_ok, OF sm ml] sr at sz show ?thesis by auto
  qed
  show "smallest_of h k < h_size h \<and> k < smallest_of h k \<and> parent (smallest_of h k) = k"
    if "smallest_of h k \<noteq> k"
    using that smallest_of_cases [of h k] by (auto simp: leftChild_def rightChild_def parent_def)
qed

lemma heapify_down_spec:
  assumes "comparator (compare_nodes h)" and "indexed h" and "k < h_size h"
    and "comparator.ordered_down (compare_nodes h) k (nodes_in h)"
  shows "indexed (heapify_down k h) \<and> same_heap h (heapify_down k h) \<and> heap_order (heapify_down k h)"
  using assms
proof (induction k h rule: heapify_down.induct)
  case (1 k h)
  note cmp_ok = 1(2)
  have len: "h_size h \<le> length (h_data h)" using 1(3) by (simp add: indexed_def)
  note M = smallest_of_min [OF 1(2) len 1(4)]
  let ?s = "smallest_of h k"
  show ?case
  proof (cases "?s = k")
    case True
    have "comparator.ordered (compare_nodes h) (nodes_in h)"
      by (rule comparator.down_done [OF cmp_ok, OF 1(5)]) (use M(2) True nodes_in_length [OF len] in simp)
    with True 1(3) show ?thesis by (simp add: heapify_down.simps [of k h])
  next
    case False
    note s = M(3) [OF False]
    let ?g = "swap_nodes k ?s h"
    have ne: "k \<noteq> ?s" using False by simp
    note S = swap_spec [OF 1(3,4) conjunct1 [OF s] ne]
    have cmp: "compare_nodes ?g = compare_nodes h" by (rule same_heap_compare [OF S(2)])
    have down: "comparator.ordered_down (compare_nodes h) ?s (nodes_in ?g)"
      unfolding S(3) by (rule comparator.down_step [OF cmp_ok, OF 1(5)]) (use s M nodes_in_length [OF len] in auto)
    have e: "heapify_down k h = heapify_down ?s ?g" using False by (simp add: heapify_down.simps [of k h])
    from 1(1) [OF False, unfolded cmp, OF 1(2) S(1) _ down] s
    show ?thesis unfolding e using same_heap_trans [OF S(2)] by simp
  qed
qed

text \<open>Sifting up leaves the heap as it is or moves the node to a smaller index.\<close>

lemma heapify_up_index:
  assumes "indexed h" and "k < h_size h" and "0 < k" and "\<not> compare_at h (parent k) k \<le> 0"
  shows "heap_index (h_nodes (heapify_up k h) (h_data h ! k)) < int k"
proof -
  have "heap_index (h_nodes (heapify_up j g) (h_data g ! j)) \<le> int j"
    if "indexed g" "j < h_size g" for j g
    using that
  proof (induction j g rule: heapify_up.induct)
    case (1 j g)
    show ?case
    proof (cases "j > 0 \<and> \<not> compare_at g (parent j) j \<le> 0")
      case False
      then have "heapify_up j g = g" by (auto simp: heapify_up.simps [of j g])
      with 1(2,3) show ?thesis by (simp add: indexed_def)
    next
      case True
      have p: "parent j < j" using conjunct1 [OF True] by (simp add: parent_def)
      then have ps: "parent j < h_size g" "parent j \<noteq> j" using 1(3) by simp_all
      note S = swap_spec [OF 1(2) ps(1) 1(3) ps(2)]
      have "h_data (swap_nodes (parent j) j g) ! parent j = h_data g ! j"
        using p 1(2,3) by (simp add: swap_nodes_def set_index_def Let_def indexed_def nth_list_update)
      with 1(1) [OF conjunct1 [OF True] conjunct2 [OF True] S(1)] ps(1) p True show ?thesis
        by (simp add: heapify_up.simps [of j g])
    qed
  qed
  note I = this
  have p: "parent k < k" using assms(3) by (simp add: parent_def)
  then have ps: "parent k < h_size h" "parent k \<noteq> k" using assms(2) by simp_all
  note S = swap_spec [OF assms(1) ps(1) assms(2) ps(2)]
  have "h_data (swap_nodes (parent k) k h) ! parent k = h_data h ! k"
    using p assms(1,2) by (simp add: swap_nodes_def set_index_def Let_def indexed_def nth_list_update)
  with I [OF S(1), of "parent k"] ps(1) p assms(3,4) show ?thesis by (simp add: heapify_up.simps [of k h])
qed

text \<open>Replacing an element and sifting both ways, as \<open>xheapmin_remove\<close> does.\<close>

lemma sift_both:
  assumes "comparator (compare_nodes h)" and "indexed h" and "k < h_size h"
    and "comparator.ordered_except (compare_nodes h) k (nodes_in h)"
  defines "g \<equiv> heapify_up k h"
  defines "f \<equiv> (if heap_index (h_nodes g (h_data h ! k)) = int k then heapify_down k g else g)"
  shows "indexed f \<and> same_heap h f \<and> heap_order f"
proof -
  note cmp_ok = assms(1)
  have len: "h_size h \<le> length (h_data h)" using assms(2) by (simp add: indexed_def)
  have at: "compare_at h (parent k) k = compare_nodes h (nodes_in h ! parent k) (nodes_in h ! k)" if "0 < k"
    using that assms(3) len comparator.parent_less [OF cmp_ok, OF that] by (simp add: nodes_in_nth)
  show ?thesis
  proof (cases "0 < k \<and> \<not> compare_at h (parent k) k \<le> 0")
    case True
    then have "comparator.ordered_up (compare_nodes h) k (nodes_in h)" using comparator.except_up [OF cmp_ok, OF assms(4)] at by simp
    from heapify_up_spec [OF assms(1-3) this] heapify_up_index [OF assms(2,3)] True show ?thesis
      unfolding f_def g_def by auto
  next
    case False
    then have g: "g = h" unfolding g_def by (auto simp: heapify_up.simps [of k h])
    have "comparator.ordered_down (compare_nodes h) k (nodes_in h)" using comparator.except_down [OF cmp_ok, OF assms(4)] at False by (cases "k = 0") simp_all
    from heapify_down_spec [OF assms(1-3) this] have "f = heapify_down k h \<Longrightarrow> ?thesis" by simp
    moreover have "f = heapify_down k h"
      using assms(2,3) unfolding f_def g by (simp add: indexed_def)
    ultimately show ?thesis by blast
  qed
qed

section \<open>The invariant and the operations\<close>

definition heap_inv :: "xHeapMin \<Rightarrow> bool" where
  "heap_inv h \<longleftrightarrow>
     comparator (compare_nodes h) \<and> indexed h \<and> heap_order h \<and> length (h_data h) = h_capacity h \<and> 0 < h_capacity h"

lemma heap_invI:
  assumes "comparator (compare_nodes h)" and "indexed f \<and> same_heap h f \<and> heap_order f"
    and "length (h_data h) = h_capacity h" and "0 < h_capacity h"
  shows "heap_inv f"
  using assms same_heap_compare [of h f] by (auto simp: heap_inv_def same_heap_def)

text \<open>Writing the index of a node.\<close>

lemma set_index_simps [simp]:
  "h_data (set_index a i h) = h_data h" "h_size (set_index a i h) = h_size h"
  "h_capacity (set_index a i h) = h_capacity h" "h_compare (set_index a i h) = h_compare h"
  "h_nodes (set_index a i h) = (h_nodes h)(a := (h_nodes h a)\<lparr>heap_index := i\<rparr>)"
  by (simp_all add: set_index_def)

lemma insert_spec:
  assumes "heap_inv h" and "a \<notin> set (nodes_in h)"
  shows "\<exists>h'. xheapmin_insert a h = Some h' \<and> heap_inv h' \<and> mset (nodes_in h') = add_mset a (mset (nodes_in h))
    \<and> h_compare h' = h_compare h \<and> (\<forall>b. key (h_nodes h' b) = key (h_nodes h b))"
proof -
  let ?n = "h_size h"
  define g where "g = (if ?n \<ge> h_capacity h
      then h\<lparr>h_capacity := h_capacity h * 2, h_data := take (h_capacity h * 2) (h_data h @ replicate (h_capacity h * 2) 0)\<rparr>
      else h)"
  from assms(1) have c: "comparator (compare_nodes h)" and i: "indexed h" and o: "heap_order h"
    and cap: "length (h_data h) = h_capacity h" "0 < h_capacity h" by (simp_all add: heap_inv_def)
  have n: "?n \<le> length (h_data h)" using i by (simp add: indexed_def)
  have g: "h_size g = ?n" "h_nodes g = h_nodes h" "h_compare g = h_compare h" "length (h_data g) = h_capacity g"
    "?n < length (h_data g)" "take ?n (h_data g) = nodes_in h" "0 < h_capacity g"
    using cap n by (auto simp: g_def nodes_in_def)
  define f where "f = (set_index a (int ?n) (g\<lparr>h_data := (h_data g)[?n := a]\<rparr>))\<lparr>h_size := ?n + 1\<rparr>"
  have ins: "xheapmin_insert a h = Some (heapify_up ?n f)"
    using g by (simp add: xheapmin_insert_def Let_def g_def [symmetric] f_def)
  have L: "nodes_in f = nodes_in h @ [a]"
    using g(5,6) by (simp add: nodes_in_def f_def take_update_last)
  have cmp: "compare_nodes f = compare_nodes h"
    by (rule compare_cong) (simp_all add: f_def g)
  have fi: "indexed f"
  proof -
    have "heap_index (h_nodes f (h_data f ! k)) = int k" if k: "k < ?n + 1" for k
    proof (cases "k = ?n")
      case True
      with g(5) show ?thesis by (simp add: f_def)
    next
      case False
      with k have "h_data g ! k = nodes_in h ! k" using g(6) nth_take [of k ?n "h_data g"] by simp
      moreover have "nodes_in h ! k = h_data h ! k" "nodes_in h ! k \<in> set (nodes_in h)"
        using False k n nodes_in_length [OF n] nth_mem [of k "nodes_in h"] by (simp_all add: nodes_in_nth)
      moreover have "heap_index (h_nodes h (h_data h ! k)) = int k" using i False k by (simp add: indexed_def)
      ultimately show ?thesis using False assms(2) g(2) by (auto simp: f_def)
    qed
    moreover have "distinct (nodes_in f)" using L assms(2) i by (simp add: indexed_def)
    ultimately show ?thesis using g(5) by (simp add: indexed_def f_def)
  qed
  have up: "comparator.ordered_up (compare_nodes f) ?n (nodes_in f)"
    unfolding cmp L using comparator.ordered_snoc [OF c o] nodes_in_length [OF n] by simp
  have "?n < h_size f" by (simp add: f_def)
  from heapify_up_spec [OF c [folded cmp] fi this up]
  have H: "indexed (heapify_up ?n f) \<and> same_heap f (heapify_up ?n f) \<and> heap_order (heapify_up ?n f)" .
  have "heap_inv (heapify_up ?n f)"
    by (rule heap_invI [OF c [folded cmp] H]) (use g in \<open>simp_all add: f_def\<close>)
  moreover have "mset (nodes_in (heapify_up ?n f)) = add_mset a (mset (nodes_in h))"
    using H L by (simp add: same_heap_def)
  moreover have "h_compare (heapify_up ?n f) = h_compare h"
    "\<forall>b. key (h_nodes (heapify_up ?n f) b) = key (h_nodes h b)"
    using H g by (auto simp: same_heap_def f_def)
  ultimately show ?thesis using ins by blast
qed

text \<open>Overwriting an element by the last one and cutting the list removes it.\<close>

lemma overwrite_last:
  assumes "xs \<noteq> []" and "k < length xs"
  defines "ys \<equiv> butlast (xs[k := last xs])"
  shows "mset ys = mset xs - {#xs ! k#}" and "distinct xs \<Longrightarrow> distinct ys"
proof -
  obtain us y where xs: "xs = us @ [y]" using assms(1) by (metis rev_exhaust)
  show m: "mset ys = mset xs - {#xs ! k#}"
  proof (cases "k < length us")
    case True
    then have "us ! k \<in># mset us" by simp
    with True show ?thesis unfolding ys_def xs by (simp add: list_update_append nth_append mset_update)
  next
    case False
    then have "k = length us" using assms(2) xs by simp
    then show ?thesis unfolding ys_def xs by simp
  qed
  show "distinct ys" if "distinct xs"
    using that m mset_eq_imp_distinct_iff [of ys "remove1 (xs ! k) xs"] by (simp add: distinct_remove1)
qed

lemma remove_spec:
  assumes "heap_inv h" and "k < h_size h" and "xheapmin_remove (int k) h = (r, h')"
  shows "r = Some (h_data h ! k) \<and> heap_inv h' \<and> mset (nodes_in h') = mset (nodes_in h) - {#h_data h ! k#}
    \<and> h_compare h' = h_compare h \<and> (\<forall>b. key (h_nodes h' b) = key (h_nodes h b))
    \<and> heap_index (h_nodes h' (h_data h ! k)) = -1"
proof -
  from assms(1) have c: "comparator (compare_nodes h)" and i: "indexed h" and o: "heap_order h"
    and cap: "length (h_data h) = h_capacity h" "0 < h_capacity h" by (simp_all add: heap_inv_def)
  have n: "h_size h \<le> length (h_data h)" using i by (simp add: indexed_def)
  let ?m = "h_size h - 1" and ?x = "h_data h ! k"
  let ?y = "h_data h ! ?m"
  have m: "?m < length (h_data h)" "h_size h = Suc ?m" using assms(2) n by simp_all
  define g where "g = (set_index ?y (int k) (h\<lparr>h_data := (h_data h)[k := ?y]\<rparr>))\<lparr>h_size := ?m\<rparr>"
  have gk: "h_data g ! k = ?y" using assms(2) n by (simp add: g_def)
  define f where "f = (if k < ?m then let t = heapify_up k g in if heap_index (h_nodes t ?y) = int k then heapify_down k t else t else g)"
  have R: "r = Some ?x" "h' = set_index ?x (-1) f"
    using assms(2,3) gk n unfolding xheapmin_remove_def f_def g_def by (auto simp: Let_def)
  have ll: "length (nodes_in h) = Suc ?m" using nodes_in_length [OF n] m by simp
  then have ne: "nodes_in h \<noteq> []" by auto
  have nth: "nodes_in h ! j = h_data h ! j" if "j < h_size h" for j using that n by (simp add: nodes_in_nth)
  have last: "last (nodes_in h) = ?y" using last_conv_nth [OF ne] ll nth [of ?m] m by simp
  have L: "nodes_in g = butlast ((nodes_in h)[k := last (nodes_in h)])"
    unfolding last using m n by (simp add: nodes_in_def g_def butlast_take butlast_conv_take take_update_swap)
  note W = overwrite_last [OF ne, of k, folded L]
  have kl: "k < length (nodes_in h)" using assms(2) ll m by simp
  have mL: "mset (nodes_in g) = mset (nodes_in h) - {#?x#}" using W(1) [OF kl] nth [OF assms(2)] by simp
  have cmp: "compare_nodes g = compare_nodes h" by (rule compare_cong) (simp_all add: g_def)
  have inj: "h_data h ! j \<noteq> ?y" if "j < ?m" for j
    using i that m nth by (auto simp: indexed_def distinct_conv_nth ll)
  have gi: "indexed g"
  proof -
    have "heap_index (h_nodes g (h_data g ! j)) = int j" if j: "j < ?m" for j
    proof (cases "j = k")
      case True
      with gk show ?thesis by (simp add: g_def)
    next
      case False
      then have "h_data g ! j = h_data h ! j" by (simp add: g_def)
      with inj [OF j] i j show ?thesis by (simp add: indexed_def g_def)
    qed
    moreover have "distinct (nodes_in g)" using W(2) [OF kl] i by (simp add: indexed_def)
    ultimately show ?thesis using n by (simp add: indexed_def g_def)
  qed
  have F: "indexed f \<and> same_heap g f \<and> heap_order f"
  proof (cases "k < ?m")
    case True
    note cmp_ok = c
    have "comparator.ordered_except (compare_nodes h) k (take ?m ((nodes_in h)[k := ?y]))"
    proof -
      have "take ?m ((nodes_in h)[k := ?y]) = (take ?m (nodes_in h))[k := ?y]" by (simp add: take_update_swap)
      then show ?thesis using comparator.replace_except [OF cmp_ok, OF comparator.ordered_take [OF cmp_ok, OF o]] by simp
    qed
    moreover have "take ?m ((nodes_in h)[k := ?y]) = nodes_in g" unfolding L last using ll by (simp add: butlast_conv_take)
    ultimately have "comparator.ordered_except (compare_nodes g) k (nodes_in g)" by (simp add: cmp)
    moreover have "k < h_size g" using True by (simp add: g_def)
    ultimately have "indexed f \<and> same_heap g f \<and> heap_order f"
      using sift_both [of g k] c gi True unfolding f_def gk by (simp add: cmp Let_def)
    then show ?thesis .
  next
    case False
    then have "k = ?m" using assms(2) by simp
    then have "nodes_in g = take ?m (nodes_in h)"
      unfolding L last using ll by (simp add: butlast_conv_take)
    then have "heap_order g" using comparator.ordered_take [OF c o] by (simp add: cmp)
    with gi False show ?thesis by (simp add: f_def)
  qed
  have inv: "heap_inv f"
    by (rule heap_invI [OF c [folded cmp] F]) (use cap in \<open>simp_all add: g_def\<close>)
  have lf: "nodes_in h' = nodes_in f" unfolding R by (simp add: nodes_in_def)
  have gone: "?x \<notin> set (nodes_in f)"
  proof -
    have "set (nodes_in f) = set (nodes_in g)" using same_heap_set F by blast
    also have "\<dots> = set (nodes_in h) - {?x}"
      using mL i by (metis indexed_def mset_remove1 set_mset_mset set_remove1_eq)
    finally show ?thesis by blast
  qed
  have cmp': "compare_nodes h' = compare_nodes f" unfolding R by (rule compare_cong) simp_all
  have "indexed h'"
    using inv gone unfolding heap_inv_def indexed_def lf
    by (auto simp: R nodes_in_def in_set_conv_nth)
  then have "heap_inv h'" using inv cmp' lf by (simp add: heap_inv_def R(2))
  moreover have "mset (nodes_in h') = mset (nodes_in h) - {#?x#}" using F mL lf by (simp add: same_heap_def)
  moreover have "h_compare h' = h_compare h" "\<forall>b. key (h_nodes h' b) = key (h_nodes h b)"
    using F unfolding R by (auto simp: same_heap_def g_def)
  ultimately show ?thesis using R by simp
qed

lemma write_key_simps [simp]:
  "h_data (write_key a k h) = h_data h" "h_size (write_key a k h) = h_size h" "nodes_in (write_key a k h) = nodes_in h"
  "h_capacity (write_key a k h) = h_capacity h" "h_compare (write_key a k h) = h_compare h"
  "heap_index (h_nodes (write_key a k h) b) = heap_index (h_nodes h b)"
  "key (h_nodes (write_key a k h) b) = (if b = a then k else key (h_nodes h b))"
  by (simp_all add: write_key_def nodes_in_def)

lemma compare_le: "xheapmin_compare x y \<le> 0 \<longleftrightarrow> key x \<le> key y"
  by (cases "key x" "key y" rule: linorder_cases) (auto simp: xheapmin_compare_def)

text \<open>A changed key leaves one edge direction to repair.\<close>

lemma rekey_order:
  fixes k :: u64
  assumes "heap_inv h" and "comparator (pair_compare (h_compare h))" and "i < h_size h" and "h_data h ! i = a"
  defines "c \<equiv> compare_nodes (write_key a k h)"
  shows "pair_compare (h_compare h) (a, k) (a, key (h_nodes h a)) \<le> 0 \<Longrightarrow> comparator.ordered_up c i (nodes_in h)"
    and "pair_compare (h_compare h) (a, key (h_nodes h a)) (a, k) \<le> 0 \<Longrightarrow> comparator.ordered_down c i (nodes_in h)"
proof -
  from assms(1) have ix: "indexed h" and o: "heap_order h" and C: "comparator (compare_nodes h)"
    by (simp_all add: heap_inv_def)
  have n: "h_size h \<le> length (h_data h)" using ix by (simp add: indexed_def)
  have ll: "length (nodes_in h) = h_size h" using n by (rule nodes_in_length)
  have C': "comparator c" unfolding c_def by (rule heap_comparator) (use assms(2) in simp)
  note cmp_ok = C'
  let ?P = "pair_compare (h_compare h)"
  note P_trans = comparator.trans [OF assms(2)]
  have a: "nodes_in h ! j = a \<longleftrightarrow> j = i" if "j < h_size h" for j
    using that assms(3,4) n ix nth_eq_iff_index_eq [of "nodes_in h" j i] ll by (simp add: nodes_in_nth indexed_def)
  let ?K = "\<lambda>j. (nodes_in h ! j, key (h_nodes h (nodes_in h ! j)))"
  have le: "c (nodes_in h ! p) (nodes_in h ! j) = ?P (if p = i then (a, k) else ?K p) (if j = i then (a, k) else ?K j)"
    if "p < h_size h" "j < h_size h" for p j
    using a [OF that(1)] a [OF that(2)] by (auto simp: c_def compare_pair)
  have up: "?P (?K (parent j)) (?K j) \<le> 0" if "j < h_size h" "0 < j" for j
    using o that ll comparator.ordered_def [OF C, of "nodes_in h"] by (simp add: compare_pair)
  have old: "?K i = (a, key (h_nodes h a))" using a [OF assms(3)] by simp
  have low: "parent j < h_size h" "parent j \<noteq> j" if "j < h_size h" "0 < j" for j
    using comparator.parent_less [OF cmp_ok, OF that(2)] that(1) by simp_all
  have grand: "c (nodes_in h ! parent i) (nodes_in h ! j) \<le> 0" if "j < h_size h" "0 < j" "parent j = i" "0 < i" for j
  proof -
    have "?P (?K (parent i)) (?K j) \<le> 0" using P_trans [OF up [of i] up [OF that(1,2), unfolded that(3)]] that assms(3) by simp
    moreover have "j \<noteq> i" "parent i \<noteq> i" using low(2) [OF that(1,2)] low(2) [OF assms(3) that(4)] that(3) by auto
    ultimately show ?thesis using le [of "parent i" j] low(1) [OF assms(3) that(4)] that by simp
  qed
  show "comparator.ordered_up c i (nodes_in h)" if k: "?P (a, k) (a, key (h_nodes h a)) \<le> 0"
    unfolding comparator.ordered_up_def [OF cmp_ok] ll
  proof (intro conjI allI impI)
    fix j
    assume j: "j < h_size h" "0 < j"
    show "c (nodes_in h ! parent j) (nodes_in h ! j) \<le> 0" if "j \<noteq> i"
    proof (cases "parent j = i")
      case True
      have "?P (a, k) (?K j) \<le> 0" using P_trans [OF k [folded old] up [OF j, unfolded True]] .
      with le [OF low(1) [OF j] j(1)] True that show ?thesis by simp
    qed (use le [OF low(1) [OF j] j(1)] up [OF j] that in simp)
    show "c (nodes_in h ! parent i) (nodes_in h ! j) \<le> 0" if "parent j = i" "0 < i"
      using grand j that by simp
  qed
  show "comparator.ordered_down c i (nodes_in h)" if k: "?P (a, key (h_nodes h a)) (a, k) \<le> 0"
    unfolding comparator.ordered_down_def [OF cmp_ok] ll
  proof (intro conjI allI impI)
    fix j
    assume j: "j < h_size h" "0 < j"
    show "c (nodes_in h ! parent j) (nodes_in h ! j) \<le> 0" if "parent j \<noteq> i"
    proof (cases "j = i")
      case True
      have "?P (?K (parent j)) (a, k) \<le> 0" using P_trans [OF up [OF j, unfolded True old] k] True by simp
      with le [OF low(1) [OF j] j(1)] True that show ?thesis by simp
    qed (use le [OF low(1) [OF j] j(1)] up [OF j] that in simp)
    show "c (nodes_in h ! parent i) (nodes_in h ! j) \<le> 0" if "parent j = i" "0 < i"
      using grand j that by simp
  qed
qed

lemma check_iff:
  assumes "indexed h"
  shows "xheapmin_check a h \<longleftrightarrow> a \<in> set (nodes_in h)"
proof
  assume "xheapmin_check a h"
  then obtain i where "i < h_size h" "h_data h ! i = a"
    unfolding xheapmin_check_def Let_def by (metis nat_less_iff)
  with assms show "a \<in> set (nodes_in h)" by (auto simp: indexed_def nodes_in_def in_set_conv_nth)
next
  assume "a \<in> set (nodes_in h)"
  from indexed_at [OF assms this] show "xheapmin_check a h" by (auto simp: xheapmin_check_def Let_def)
qed

text \<open>\<open>xheapmin_refresh\<close> decides by the keys as numbers in which direction to sift. That is the right
  direction if the comparison puts the new key of the node on the same side of the old one.\<close>

definition refresh_ok :: "comparison option \<Rightarrow> addr \<Rightarrow> u64 \<Rightarrow> u64 \<Rightarrow> bool" where
  "refresh_ok cmp a old new \<longleftrightarrow>
     (new < old \<longrightarrow> pair_compare cmp (a, new) (a, old) \<le> 0) \<and> (old < new \<longrightarrow> pair_compare cmp (a, old) (a, new) \<le> 0)"

lemma refresh_ok_default [simp]: "refresh_ok None a old new"
  by (simp add: refresh_ok_def pair_compare_def)

lemma refresh_spec:
  fixes a :: addr and k :: u64
  assumes "heap_inv h" and "comparator (pair_compare (h_compare h))"
    and "refresh_ok (h_compare h) a (key (h_nodes h a)) k"
  defines "h' \<equiv> xheapmin_refresh a k h"
  shows "heap_inv h' \<and> mset (nodes_in h') = mset (nodes_in h) \<and> h_compare h' = h_compare h
    \<and> (\<forall>b. key (h_nodes h' b) = (if b = a \<and> a \<in> set (nodes_in h) then k else key (h_nodes h b)))"
proof (cases "xheapmin_check a h")
  case False
  then have "h' = h" by (simp add: h'_def xheapmin_refresh_def)
  with False check_iff [of h a] assms(1) show ?thesis by (simp add: heap_inv_def)
next
  case True
  from assms(1) have ix: "indexed h" and o: "heap_order h" and c: "comparator (compare_nodes h)"
    and cap: "length (h_data h) = h_capacity h" "0 < h_capacity h" by (simp_all add: heap_inv_def)
  have al: "a \<in> set (nodes_in h)" using True check_iff [OF ix] by simp
  from indexed_at [OF ix this] obtain i where i: "i < h_size h" "h_data h ! i = a" "heap_index (h_nodes h a) = int i" by blast
  let ?g = "write_key a k h" and ?old = "key (h_nodes h a)"
  have e: "h' = (if k < ?old then heapify_up i ?g else if k > ?old then heapify_down i ?g else ?g)"
    using True i(3) by (simp add: h'_def xheapmin_refresh_def Let_def)
  have gi: "indexed ?g" using ix by (simp add: indexed_def)
  have gc: "comparator (compare_nodes ?g)" by (rule heap_comparator) (use assms(2) in simp)
  have up: "comparator.ordered_up (compare_nodes ?g) i (nodes_in ?g)" if "k < ?old"
    using rekey_order(1) [OF assms(1,2) i(1,2)] assms(3) that by (simp add: refresh_ok_def)
  have down: "comparator.ordered_down (compare_nodes ?g) i (nodes_in ?g)" if "k > ?old"
    using rekey_order(2) [OF assms(1,2) i(1,2)] assms(3) that by (simp add: refresh_ok_def)
  have gs: "i < h_size ?g" using i(1) by simp
  have same: "indexed ?g \<and> same_heap ?g ?g \<and> heap_order ?g" if "k = ?old"
  proof -
    have "compare_nodes ?g = compare_nodes h" by (rule compare_cong) (use that in simp_all)
    with gi o show ?thesis by simp
  qed
  have H: "indexed h' \<and> same_heap ?g h' \<and> heap_order h'"
    using heapify_up_spec [OF gc gi gs] heapify_down_spec [OF gc gi gs] up down same
    unfolding e by (auto simp: not_less)
  have "heap_inv h'" by (rule heap_invI [OF gc H]) (use cap in simp_all)
  with H al show ?thesis by (simp add: same_heap_def)
qed

section \<open>Heaps a client can build\<close>

text \<open>A heap with a positive capacity and a comparison function \<open>cmp\<close>, after any operations of a
  client that inserts only nodes that are not in the heap, writes only to those, and refreshes a node only with
  a key the comparison orders as the numbers are ordered.\<close>

inductive heap_reach :: "comparison option \<Rightarrow> xHeapMin \<Rightarrow> bool" for cmp where
  reach_create: "0 < capacity \<Longrightarrow> heap_reach cmp (xheapmin_create junk capacity cmp nodes)"
| reach_insert: "heap_reach cmp h \<Longrightarrow> a \<notin> set (nodes_in h) \<Longrightarrow> xheapmin_insert a h = Some h' \<Longrightarrow> heap_reach cmp h'"
| reach_remove: "heap_reach cmp h \<Longrightarrow> xheapmin_remove i h = (r, h') \<Longrightarrow> heap_reach cmp h'"
| reach_refresh: "heap_reach cmp h \<Longrightarrow> refresh_ok cmp a (key (h_nodes h a)) k \<Longrightarrow> heap_reach cmp (xheapmin_refresh a k h)"
| reach_client: "heap_reach cmp h \<Longrightarrow> a \<notin> set (nodes_in h) \<Longrightarrow> heap_reach cmp (h\<lparr>h_nodes := (h_nodes h)(a := n)\<rparr>)"

text \<open>With the default comparison every refresh is allowed.\<close>

lemma reach_refresh_default: "heap_reach None h \<Longrightarrow> heap_reach None (xheapmin_refresh a k h)"
  by (rule reach_refresh) simp_all

definition comparison_ok :: "comparison option \<Rightarrow> bool" where
  "comparison_ok cmp \<longleftrightarrow> cmp = None \<or> (\<exists>f. cmp = Some f \<and> comparator (\<lambda>(a, k) (b, l). f a k b l))"

lemma comparison_okD: "comparison_ok cmp \<Longrightarrow> comparator (pair_compare cmp)"
  using key_order.comparator_axioms
  by (auto simp: comparison_ok_def pair_compare_def [abs_def] case_prod_beta')

lemma reach_inv:
  assumes "heap_reach cmp h" and "comparison_ok cmp"
  shows "heap_inv h \<and> h_compare h = cmp"
  using assms(1)
proof (induction rule: heap_reach.induct)
  case (reach_create capacity junk nodes)
  let ?h = "xheapmin_create junk capacity cmp nodes"
  have c: "comparator (compare_nodes ?h)"
    by (rule heap_comparator) (use comparison_okD [OF assms(2)] in \<open>simp add: xheapmin_create_def\<close>)
  have "nodes_in ?h = []" by (simp add: nodes_in_def xheapmin_create_def)
  with c reach_create show ?case
    by (simp add: heap_inv_def indexed_def comparator.ordered_def) (simp add: xheapmin_create_def)
next
  case (reach_insert h a h')
  with insert_spec [of h a] show ?case by auto
next
  case (reach_remove h i r h')
  show ?case
  proof (cases "i < 0 \<or> i \<ge> int (h_size h)")
    case True
    with reach_remove show ?thesis by (auto simp: xheapmin_remove_def)
  next
    case False
    then obtain k where "i = int k" "k < h_size h" by (metis nonneg_int_cases not_less of_nat_less_iff)
    with reach_remove remove_spec [of h k r h'] show ?thesis by simp
  qed
next
  case (reach_refresh h a k)
  with refresh_spec [of h a k] comparison_okD [OF assms(2)] show ?case by simp
next
  case (reach_client h a n)
  let ?h = "h\<lparr>h_nodes := (h_nodes h)(a := n)\<rparr>"
  have l: "nodes_in ?h = nodes_in h" by (simp add: nodes_in_def)
  have c: "comparator (compare_nodes ?h)"
    by (rule heap_comparator) (use comparison_okD [OF assms(2)] reach_client in simp)
  from reach_client have i: "indexed h" and o: "heap_order h" by (simp_all add: heap_inv_def)
  have n: "h_size h \<le> length (h_data h)" using i by (simp add: indexed_def)
  have mem: "nodes_in h ! j \<noteq> a" if "j < h_size h" for j
    using that reach_client(2) nodes_in_length [OF n] by (metis nth_mem)
  have "compare_nodes ?h (nodes_in h ! p) (nodes_in h ! j) = compare_nodes h (nodes_in h ! p) (nodes_in h ! j)"
    if "p < h_size h" "j < h_size h" for p j
    using mem that by (simp add: compare_nodes_def split: option.split)
  moreover have "parent j < h_size h" if "j < h_size h" for j using that by (simp add: parent_def)
  ultimately have "heap_order ?h"
    using o unfolding comparator.ordered_def [OF c] comparator.ordered_def [OF heap_comparator]
    unfolding l nodes_in_length [OF n]
    using reach_client comparison_okD [OF assms(2)] comparator.ordered_def [OF heap_comparator, of h "nodes_in h"]
      nodes_in_length [OF n]
    by simp
  moreover have "indexed ?h"
    using i mem n unfolding indexed_def l by (simp add: nodes_in_nth)
  ultimately show ?case using c reach_client by (simp add: heap_inv_def)
qed

section \<open>Properties\<close>

lemma extract_spec:
  assumes "heap_inv h" and "xheapmin_extract h = (r, h')"
  shows "case r of None \<Rightarrow> nodes_in h = [] \<and> h' = h
    | Some a \<Rightarrow> a \<in> set (nodes_in h) \<and> (\<forall>b \<in> set (nodes_in h). compare_nodes h a b \<le> 0)
        \<and> mset (nodes_in h') = mset (nodes_in h) - {#a#} \<and> heap_inv h' \<and> h_compare h' = h_compare h
        \<and> (\<forall>b. key (h_nodes h' b) = key (h_nodes h b))"
proof -
  from assms(1) have c: "comparator (compare_nodes h)" and i: "indexed h" and o: "heap_order h"
    by (simp_all add: heap_inv_def)
  have n: "h_size h \<le> length (h_data h)" using i by (simp add: indexed_def)
  show ?thesis
  proof (cases "h_size h = 0")
    case True
    with assms(2) show ?thesis by (auto simp: xheapmin_extract_def xheapmin_remove_def nodes_in_def)
  next
    case False
    have "xheapmin_remove (int 0) h = (r, h')" using assms(2) by (simp add: xheapmin_extract_def)
    from remove_spec [OF assms(1) _ this] False
    have R: "r = Some (h_data h ! 0) \<and> heap_inv h' \<and> mset (nodes_in h') = mset (nodes_in h) - {#h_data h ! 0#}
      \<and> h_compare h' = h_compare h \<and> (\<forall>b. key (h_nodes h' b) = key (h_nodes h b))" by blast
    have r: "nodes_in h ! 0 = h_data h ! 0" "h_data h ! 0 \<in> set (nodes_in h)"
      using False n nodes_in_nth [of 0 h] nodes_in_length [OF n] nth_mem [of 0 "nodes_in h"] by simp_all
    have "compare_nodes h (h_data h ! 0) b \<le> 0" if "b \<in> set (nodes_in h)" for b
      using that comparator.ordered_root [OF c o] r(1) by (auto simp: in_set_conv_nth)
    with R r(2) show ?thesis by auto
  qed
qed

text \<open>C21. In a heap a client has built, with the default or a consistent comparison function of keys and its own
  data, peek and extract give a least node, or NULL exactly when the heap is empty; extract takes out this
  node only; \<open>xheapmin_check\<close> is true of exactly the nodes in the heap; inserting another node succeeds (memory
  sufficing) and adds it. The client refreshes a node only with a key that its comparison puts on the same side
  of the old key as the numbers do (\<open>refresh_ok\<close>): with the default comparison that is every key, with a
  comparison that puts greater keys first it is no other key, see \<open>refresh_breaks_max_heap\<close>.\<close>

theorem heap_extract_least:
  assumes "heap_reach cmp h" and "comparison_ok cmp"
  shows "(case xheapmin_extract h of (r, h') \<Rightarrow> r = xheapmin_peek h
        \<and> (case r of None \<Rightarrow> nodes_in h = [] \<and> h' = h
           | Some a \<Rightarrow> a \<in> set (nodes_in h) \<and> (\<forall>b \<in> set (nodes_in h). compare_nodes h a b \<le> 0)
               \<and> mset (nodes_in h') = mset (nodes_in h) - {#a#} \<and> \<not> xheapmin_check a h'))
    \<and> (\<forall>a. xheapmin_check a h \<longleftrightarrow> a \<in> set (nodes_in h))
    \<and> (\<forall>a. a \<notin> set (nodes_in h) \<longrightarrow>
         (\<exists>h'. xheapmin_insert a h = Some h' \<and> mset (nodes_in h') = add_mset a (mset (nodes_in h))))"
proof -
  have inv: "heap_inv h" using reach_inv [OF assms] by simp
  then have i: "indexed h" by (simp add: heap_inv_def)
  obtain r h' where e: "xheapmin_extract h = (r, h')" by fastforce
  note E = extract_spec [OF inv e]
  have peek: "r = xheapmin_peek h"
    using e by (auto simp: xheapmin_extract_def xheapmin_remove_def xheapmin_peek_def Let_def split: if_splits)
  have gone: "\<not> xheapmin_check a h'" if "r = Some a" for a
  proof -
    have m: "mset (nodes_in h') = mset (nodes_in h) - {#a#}" "heap_inv h'" using E that by simp_all
    then have "a \<notin> set (nodes_in h')"
      using i by (metis indexed_def mset_remove1 mset_eq_setD set_remove1_eq DiffD2 singletonI)
    with check_iff [of h' a] m(2) show ?thesis by (simp add: heap_inv_def)
  qed
  have ins: "\<exists>h'. xheapmin_insert a h = Some h' \<and> mset (nodes_in h') = add_mset a (mset (nodes_in h))" if "a \<notin> set (nodes_in h)" for a
    using insert_spec [OF inv that] by blast
  show ?thesis
    unfolding e prod.case
  proof (intro conjI allI impI)
    show "r = xheapmin_peek h" by (rule peek)
    show "case r of None \<Rightarrow> nodes_in h = [] \<and> h' = h
      | Some a \<Rightarrow> a \<in> set (nodes_in h) \<and> (\<forall>b \<in> set (nodes_in h). compare_nodes h a b \<le> 0)
          \<and> mset (nodes_in h') = mset (nodes_in h) - {#a#} \<and> \<not> xheapmin_check a h'"
      using E gone by (cases r) simp_all
  qed (use ins check_iff [OF i] in auto)
qed

definition sample_nodes :: "addr \<Rightarrow> xHeapMinNode" where
  "sample_nodes a = \<lparr>heap_index = -1, key = of_nat (a * 7 mod 5)\<rparr>"

lemma heap_extract_least_witness:
  "\<exists>h. xheapmin_insert 3 (xheapmin_create [] 1 None sample_nodes) = Some h
    \<and> fst (xheapmin_extract h) = xheapmin_peek h \<and> \<not> xheapmin_check 4 h"
proof -
  let ?h = "xheapmin_create [] 1 None sample_nodes"
  have r: "heap_reach None ?h" by (rule reach_create) simp
  have l: "nodes_in ?h = []" by (simp add: nodes_in_def xheapmin_create_def)
  have ok: "comparison_ok None" by (simp add: comparison_ok_def)
  have "(3 :: nat) \<notin> set (nodes_in ?h)" unfolding l by simp
  from insert_spec [OF conjunct1 [OF reach_inv [OF r ok]] this] obtain h where
    h: "xheapmin_insert 3 ?h = Some h" "mset (nodes_in h) = {#3#}" unfolding l mset.simps by blast
  have rh: "heap_reach None h" by (rule reach_insert [OF r _ h(1)]) (unfold l, simp)
  have s: "set (nodes_in h) = {3}" using h(2) by (metis set_mset_mset set_mset_single)
  show ?thesis
    using heap_extract_least [OF rh ok] h(1) s by (intro exI [of _ h]) (auto split: prod.splits)
qed

text \<open>Inserting a list of nodes, and extracting a number of times.\<close>

fun insert_all :: "addr list \<Rightarrow> xHeapMin \<Rightarrow> xHeapMin option" where
  "insert_all [] h = Some h"
| "insert_all (a # as) h = Option.bind (xheapmin_insert a h) (insert_all as)"

fun extract_all :: "nat \<Rightarrow> xHeapMin \<Rightarrow> addr option list \<times> xHeapMin" where
  "extract_all 0 h = ([], h)"
| "extract_all (Suc n) h = (let (r, h) = xheapmin_extract h; (rs, h) = extract_all n h in (r # rs, h))"

lemma insert_all_spec:
  assumes "heap_inv h" and "distinct as" and "set as \<inter> set (nodes_in h) = {}"
  shows "\<exists>h'. insert_all as h = Some h' \<and> heap_inv h' \<and> mset (nodes_in h') = mset as + mset (nodes_in h)
    \<and> h_compare h' = h_compare h \<and> (\<forall>b. key (h_nodes h' b) = key (h_nodes h b))"
  using assms
proof (induction as arbitrary: h)
  case (Cons a as)
  from Cons.prems have "a \<notin> set (nodes_in h)" by simp
  from insert_spec [OF Cons.prems(1) this] obtain g where
    g: "xheapmin_insert a h = Some g" "heap_inv g" "mset (nodes_in g) = add_mset a (mset (nodes_in h))"
      "h_compare g = h_compare h" "\<forall>b. key (h_nodes g b) = key (h_nodes h b)" by blast
  have "set (nodes_in g) = insert a (set (nodes_in h))" using g(3) by (metis set_mset_add_mset_insert set_mset_mset)
  with Cons.prems(2,3) have "set as \<inter> set (nodes_in g) = {}" "distinct as" by auto
  from Cons.IH [OF g(2) this(2,1)] g show ?case by auto
qed simp

lemma extract_all_spec:
  assumes "heap_inv h" and "h_compare h = None" and "length (nodes_in h) = n"
  shows "\<exists>as h'. extract_all n h = (map Some as, h') \<and> mset as = mset (nodes_in h)
    \<and> sorted (map (\<lambda>a. key (h_nodes h a)) as)"
  using assms
proof (induction n arbitrary: h)
  case 0
  then show ?case by simp
next
  case (Suc n)
  obtain r g where e: "xheapmin_extract h = (r, g)" by fastforce
  from extract_spec [OF Suc.prems(1) e] Suc.prems(3) obtain a where
    r: "r = Some a" and a: "a \<in> set (nodes_in h)" "\<forall>b \<in> set (nodes_in h). compare_nodes h a b \<le> 0"
      "mset (nodes_in g) = mset (nodes_in h) - {#a#}" "heap_inv g" "h_compare g = h_compare h"
      "\<forall>b. key (h_nodes g b) = key (h_nodes h b)" by (cases r) auto
  have "size (mset (nodes_in g)) = n" using a(1,3) Suc.prems(3) by (simp add: size_Diff_singleton)
  then have "length (nodes_in g) = n" by simp
  from Suc.IH [OF a(4) _ this] a(5) Suc.prems(2) obtain as h' where
    I: "extract_all n g = (map Some as, h')" "mset as = mset (nodes_in g)" "sorted (map (\<lambda>a. key (h_nodes g a)) as)" by auto
  have m: "mset (a # as) = mset (nodes_in h)" using I(2) a(1,3) by simp
  have "key (h_nodes h a) \<le> key (h_nodes h b)" if "b \<in> set as" for b
  proof -
    have "b \<in> set (nodes_in h)" using m that by (metis list.set_intros(2) mset_eq_setD)
    with a(2) Suc.prems(2) show ?thesis by (simp add: compare_nodes_def compare_le)
  qed
  with I(3) a(6) have "sorted (map (\<lambda>a. key (h_nodes h a)) (a # as))" by simp
  with m I(1) e r show ?case by (intro exI [of _ "a # as"] exI [of _ h']) simp
qed

text \<open>C22. Inserting any distinct nodes into a new heap with the default comparison and extracting as many
  gives every node once, with the keys in sorted order: the heap computes \<open>sort\<close>.\<close>

theorem heap_sorts:
  assumes "0 < capacity" and "distinct as"
  shows "\<exists>h bs h'. insert_all as (xheapmin_create junk capacity None nodes) = Some h
    \<and> extract_all (length as) h = (map Some bs, h') \<and> mset bs = mset as
    \<and> map (\<lambda>a. key (nodes a)) bs = sort (map (\<lambda>a. key (nodes a)) as)"
proof -
  let ?h = "xheapmin_create junk capacity None nodes"
  have "heap_inv ?h" using reach_inv [OF reach_create [OF assms(1)]] by (simp add: comparison_ok_def)
  moreover have l: "nodes_in ?h = []" by (simp add: nodes_in_def xheapmin_create_def)
  ultimately obtain h where h: "insert_all as ?h = Some h" "heap_inv h" "mset (nodes_in h) = mset as"
    "h_compare h = None" "\<forall>b. key (h_nodes h b) = key (nodes b)"
    using insert_all_spec [of ?h as] assms(2) by (auto simp: xheapmin_create_def)
  have "length (nodes_in h) = length as" using h(3) by (metis size_mset)
  from extract_all_spec [OF h(2,4) this] obtain bs h' where
    d: "extract_all (length as) h = (map Some bs, h')" "mset bs = mset (nodes_in h)" "sorted (map (\<lambda>a. key (nodes a)) bs)"
    using h(5) by auto
  have "map (\<lambda>a. key (nodes a)) bs = sort (map (\<lambda>a. key (nodes a)) as)"
    by (rule properties_for_sort [symmetric, OF _ d(3)]) (simp only: mset_map d(2) h(3))
  with h(1,3) d(1,2) show ?thesis by auto
qed

lemma heap_sorts_witness:
  "\<exists>h bs h'. insert_all [4, 1, 2, 3] (xheapmin_create [] 2 None sample_nodes) = Some h
    \<and> extract_all 4 h = (map Some bs, h') \<and> map (\<lambda>a. key (sample_nodes a)) bs = [1, 2, 3, 4]"
proof -
  have s: "sort (map (\<lambda>a. key (sample_nodes a)) [4, 1, 2, 3]) = [1, 2, 3, 4]" by (simp add: sample_nodes_def word_le_nat_alt)
  have "0 < (2 :: nat)" "distinct [4, 1, 2, 3 :: addr]" "length [4, 1, 2, 3 :: addr] = 4" by simp_all
  with heap_sorts [of 2 "[4, 1, 2, 3]" "[]" sample_nodes] show ?thesis unfolding s by metis
qed

text \<open>A heap created with capacity 0 never gets room: the first insertion doubles 0 and writes
  outside the array.\<close>

lemma zero_capacity_overrun: "xheapmin_insert a (xheapmin_create junk 0 cmp nodes) = None"
  by (simp add: xheapmin_insert_def xheapmin_create_def Let_def)

text \<open>A comparison that puts greater keys first is consistent, and yet a heap with it is broken by
  \<open>xheapmin_refresh\<close>: node 2 is raised from key 3 to key 9, the greater key makes it sift down, and
  node 1 with key 5 stays at the root.\<close>

definition greater_first :: comparison where
  "greater_first a k b l = (if k > l then -1 else if k < l then 1 else 0)"

lemma greater_first_ok: "comparison_ok (Some greater_first)"
  by (auto simp: comparison_ok_def greater_first_def comparator_def split: if_splits)

definition two_nodes :: "addr \<Rightarrow> xHeapMinNode" where
  "two_nodes a = \<lparr>heap_index = -1, key = (if a = 1 then 5 else 3)\<rparr>"

lemma refresh_breaks_max_heap:
  "case insert_all [1, 2] (xheapmin_create [] 4 (Some greater_first) two_nodes) of
     None \<Rightarrow> False
   | Some h \<Rightarrow> (let h = xheapmin_refresh 2 9 h in xheapmin_peek h = Some 1 \<and> compare_nodes h 1 2 > 0)"
  by code_simp

end
