(* ===== verification/XThread.thy ===== *)
theory XThread
  imports XPrelude
begin

text \<open>
  Threads, their task queues and thread groups (\<open>xthread.c\<close>, the default build with mutex-guarded
  queues, on POSIX). A task list is the list the links visit; a task node is a node of the queue's
  slab (its index) or an allocation of its own. Threads and pools live at addresses; what was freed
  is \<open>None\<close>, and an operation that touches freed memory or reads outside an array is \<open>None\<close>. The
  operations here run without interference; the interleaving of posting and draining is in
  \<open>XThreadConc\<close>. Callbacks, \<open>malloc\<close>, the clock, the poll instance and \<open>snprintf\<close> with a
  pattern of the client are parameters; log output is left out. The names of a group and the log labels
  have no effect on the rest and are modelled where the code computes them.
\<close>

section \<open>Tasks and queues\<close>

definition XTHREAD_TASK_ARG_INLINE :: nat where "XTHREAD_TASK_ARG_INLINE = 256"
definition XTHREAD_TASK_POOL_SIZE :: nat where "XTHREAD_TASK_POOL_SIZE = 256"
definition XTHREAD_QUEUE_MAX_DEFAULT :: nat where "XTHREAD_QUEUE_MAX_DEFAULT = 65536"
definition XTHR_MAIN :: int where "XTHR_MAIN = 1"
definition XTHR_HTTP :: int where "XTHR_HTTP = 8"
definition XTHR_MAX :: int where "XTHR_MAX = 512"
definition XTHR_GROUP_MAX :: nat where "XTHR_GROUP_MAX = 20"

text \<open>What a task carries: the caller's pointer, an inline copy, or an allocated copy.\<close>

datatype targ = Arg_ptr "addr option" | Arg_inline bytes | Arg_external bytes

text \<open>\<open>t_node\<close> is the slab node of the task, None for an allocated one (\<open>from_heap\<close>).\<close>

record 'f xthrTask =
  t_func :: "'f option"
  t_arg_len :: u32
  t_node :: "nat option"
  t_arg :: targ
  deadline_ms :: u64

record 'f xQueue =
  q_tasks :: "'f xthrTask list"
  q_size :: nat
  q_max_size :: nat
  q_pending :: bool
  pool_capacity :: nat
  freelist :: "nat list"
  freelist_count :: nat

definition xqueue_pool_init :: "bool \<Rightarrow> nat \<Rightarrow> 'f xQueue \<Rightarrow> bool \<times> 'f xQueue" where
  "xqueue_pool_init mem_ok capacity q =
     (if capacity = 0 then (True, q\<lparr>pool_capacity := 0, freelist := [], freelist_count := 0\<rparr>)
      else if \<not> mem_ok then (False, q)
      else (True, q\<lparr>pool_capacity := capacity, freelist := foldl (\<lambda>head i. i # head) [] [0..<capacity],
                    freelist_count := capacity\<rparr>))"

text \<open>The condition variable and its mutex are a third allocation that may fail.\<close>

definition xqueue_init :: "bool \<Rightarrow> bool \<Rightarrow> 'f xQueue option" where
  "xqueue_init mem_ok cond_ok =
     (case xqueue_pool_init mem_ok XTHREAD_TASK_POOL_SIZE
             \<lparr>q_tasks = [], q_size = 0, q_max_size = XTHREAD_QUEUE_MAX_DEFAULT, q_pending = False,
              pool_capacity = 0, freelist = [], freelist_count = 0\<rparr> of
        (False, q) \<Rightarrow> None
      | (True, q) \<Rightarrow> if cond_ok then Some q else None)"

definition xqueue_freelist_take_locked :: "'f xQueue \<Rightarrow> nat option \<times> 'f xQueue" where
  "xqueue_freelist_take_locked q =
     (case freelist q of
        [] \<Rightarrow> (None, q)
      | n # rest \<Rightarrow> (Some n, q\<lparr>freelist := rest, freelist_count := freelist_count q - 1\<rparr>))"

definition xqueue_freelist_return_locked :: "nat \<Rightarrow> 'f xQueue \<Rightarrow> 'f xQueue" where
  "xqueue_freelist_return_locked n q = q\<lparr>freelist := n # freelist q, freelist_count := freelist_count q + 1\<rparr>"

text \<open>The three parts of \<open>xqueue_push_internal\<close>: the first critical section, the private work on the
  node, the second critical section.\<close>

definition push_reserve :: "bool \<Rightarrow> 'f xQueue \<Rightarrow> (nat option \<times> 'f xQueue) option" where
  "push_reserve ignore_max q =
     (if \<not> ignore_max \<and> q_max_size q > 0 \<and> q_size q \<ge> q_max_size q then None
      else Some (xqueue_freelist_take_locked q))"

datatype 'f post = Post_task "'f option" "addr option" "bytes option" nat u64

text \<open>A request: function, the pointer, the bytes behind it (None for a NULL pointer), their number and the
  deadline. The bytes copied from a NULL pointer are whatever the node or the new buffer held.\<close>

definition task_new :: "bytes \<Rightarrow> nat option \<Rightarrow> 'f post \<Rightarrow> 'f xthrTask" where
  "task_new junk node p =
     (case p of Post_task func ptr data arg_len deadline \<Rightarrow>
        \<lparr>t_func = func, t_arg_len = of_nat arg_len, t_node = node,
         t_arg = (if arg_len = 0 then Arg_ptr ptr
                  else if arg_len > XTHREAD_TASK_ARG_INLINE then
                    Arg_external (case data of Some bs \<Rightarrow> take arg_len bs | None \<Rightarrow> junk)
                  else Arg_inline (case data of Some bs \<Rightarrow> take arg_len bs | None \<Rightarrow> junk)),
         deadline_ms = deadline\<rparr>)"

definition push_link :: "'f xthrTask \<Rightarrow> 'f xQueue \<Rightarrow> (nat \<times> bool) \<times> 'f xQueue" where
  "push_link t q =
     (let q = q\<lparr>q_tasks := q_tasks q @ [t], q_size := q_size q + 1\<rparr>
      in ((q_size q, \<not> q_pending q), q\<lparr>q_pending := True\<rparr>))"

fun post_len :: "'f post \<Rightarrow> nat" where
  "post_len (Post_task f ptr d n dl) = n"

text \<open>The allocations of the component.\<close>

datatype alloc_site = Alloc_arg nat | Alloc_task | Alloc_slab | Alloc_thread | Alloc_pool

text \<open>Result code, new size, whether to notify.\<close>

definition xqueue_push_internal ::
  "(alloc_site \<Rightarrow> bool) \<Rightarrow> bytes \<Rightarrow> bool \<Rightarrow> 'f post \<Rightarrow> 'f xQueue \<Rightarrow> (int \<times> nat \<times> bool) \<times> 'f xQueue" where
  "xqueue_push_internal mem junk ignore_max p q =
     (if post_len p > XTHREAD_TASK_ARG_INLINE \<and> \<not> mem (Alloc_arg (post_len p)) then ((-1, 0, False), q)
      else case push_reserve ignore_max q of
             None \<Rightarrow> ((-2, 0, False), q)
           | Some (node, q) \<Rightarrow>
               if node = None \<and> \<not> mem Alloc_task then ((-1, 0, False), q)
               else case push_link (task_new junk node p) q of
                      ((new_size, need_notify), q) \<Rightarrow> ((0, new_size, need_notify), q))"

definition xqueue_push_deadline ::
  "(alloc_site \<Rightarrow> bool) \<Rightarrow> bytes \<Rightarrow> 'f post \<Rightarrow> 'f xQueue \<Rightarrow> (int \<times> nat \<times> bool) \<times> 'f xQueue" where
  "xqueue_push_deadline mem junk p q = xqueue_push_internal mem junk False p q"

fun no_deadline :: "'f post \<Rightarrow> 'f post" where
  "no_deadline (Post_task f ptr d n dl) = Post_task f ptr d n 0"

definition xqueue_push_reply ::
  "(alloc_site \<Rightarrow> bool) \<Rightarrow> bytes \<Rightarrow> 'f post \<Rightarrow> 'f xQueue \<Rightarrow> (int \<times> nat \<times> bool) \<times> 'f xQueue" where
  "xqueue_push_reply mem junk p q = xqueue_push_internal mem junk True (no_deadline p) q"

definition xqueue_pop_all :: "'f xQueue \<Rightarrow> 'f xthrTask list \<times> 'f xQueue" where
  "xqueue_pop_all q = (q_tasks q, q\<lparr>q_pending := False, q_tasks := [], q_size := 0\<rparr>)"

text \<open>The buffers the destruction of a queue frees besides its slab: arguments and allocated nodes.\<close>

definition xqueue_release_task_destroy :: "'f xthrTask \<Rightarrow> bool \<times> bool" where
  "xqueue_release_task_destroy t = ((\<exists>bs. t_arg t = Arg_external bs), t_node t = None)"

definition xqueue_uninit :: "'f xQueue \<Rightarrow> (bool \<times> bool) list \<times> 'f xQueue" where
  "xqueue_uninit q =
     (map xqueue_release_task_destroy (q_tasks q),
      q\<lparr>q_tasks := [], q_size := 0, pool_capacity := 0, freelist := [], freelist_count := 0\<rparr>)"

definition task_deadline_expired :: "u64 \<Rightarrow> 'f xthrTask \<Rightarrow> bool" where
  "task_deadline_expired now t \<longleftrightarrow> deadline_ms t \<noteq> 0 \<and> now \<ge> deadline_ms t"

text \<open>The function to call for a task that is reached at time \<open>now\<close>: none when its deadline has been
  reached, and none when it has no function.\<close>

definition task_call :: "u64 \<Rightarrow> 'f xthrTask \<Rightarrow> 'f option" where
  "task_call now t = (if \<not> task_deadline_expired now t then t_func t else None)"

section \<open>Threads and pools\<close>

datatype ThreadSelStrategy = XTHSTRATEGY_LEAST_QUEUE | XTHSTRATEGY_ROUND_ROBIN | XTHSTRATEGY_RANDOM

text \<open>\<open>notified\<close> counts the bytes in the notification socket (when \<open>poll\<close> is set).\<close>

record 'f xThread =
  th_id :: int
  th_name :: bytes
  log_label :: bytes
  running :: bool
  queue :: "'f xQueue"
  userdata :: "addr option"
  group :: "addr option"
  poll :: "addr option"
  notified :: nat
  is_worker :: bool
  on_init :: "'f option"
  on_update :: "'f option"
  on_cleanup :: "'f option"

record xThreadPool =
  group_id :: int
  strategy :: ThreadSelStrategy
  p_name :: bytes
  p_threads :: "addr list"
  queue_sizes :: "nat list"
  next_index :: "32 word"

record 'f xsys =
  s_init :: bool
  registry :: "int \<Rightarrow> addr option"
  s_threads :: "addr \<Rightarrow> 'f xThread option"
  s_pools :: "addr \<Rightarrow> xThreadPool option"
  s_fresh :: addr
  s_now :: u64

text \<open>The environment: what a task function or a hook does to the rest of the system (None when it does
  something undefined), the poll instance of the calling thread, whether sockets can be made and
  registered, which allocations succeed, thread creation, the next random number.\<close>

record 'f env =
  run_task :: "'f \<Rightarrow> addr \<Rightarrow> targ \<Rightarrow> u32 \<Rightarrow> 'f xsys \<Rightarrow> 'f xsys option"
  run_hook :: "'f \<Rightarrow> addr \<Rightarrow> 'f xsys \<Rightarrow> 'f xsys option"
  poll_default :: "addr option"
  sockets_ok :: bool
  mem :: "alloc_site \<Rightarrow> bool"
  cond_ok :: bool
  create_ok :: bool
  rand :: nat
  junk :: bytes

abbreviation upd_thread :: "addr \<Rightarrow> ('f xThread \<Rightarrow> 'f xThread) \<Rightarrow> 'f xsys \<Rightarrow> 'f xsys" where
  "upd_thread a g s \<equiv> s\<lparr>s_threads := (s_threads s)(a := map_option g (s_threads s a))\<rparr>"

abbreviation upd_pool :: "addr \<Rightarrow> (xThreadPool \<Rightarrow> xThreadPool) \<Rightarrow> 'f xsys \<Rightarrow> 'f xsys" where
  "upd_pool a g s \<equiv> s\<lparr>s_pools := (s_pools s)(a := map_option g (s_pools s a))\<rparr>"

definition xthread_get :: "int \<Rightarrow> 'f xsys \<Rightarrow> addr option" where
  "xthread_get i s = (if i \<le> 0 \<or> i \<ge> XTHR_MAX then None else registry s i)"

section \<open>Dispatch\<close>

text \<open>Running the popped tasks: the slab nodes to return, last first.\<close>

fun run_tasks :: "'f env \<Rightarrow> addr \<Rightarrow> 'f xthrTask list \<Rightarrow> nat list \<Rightarrow> 'f xsys \<Rightarrow> (nat list \<times> 'f xsys) option" where
  "run_tasks E a [] ret s = Some (ret, s)"
| "run_tasks E a (t # ts) ret s =
     (let ret = (case t_node t of None \<Rightarrow> ret | Some n \<Rightarrow> n # ret)
      in case task_call (s_now s) t of
           None \<Rightarrow> run_tasks E a ts ret s
         | Some f \<Rightarrow> Option.bind (run_task E f a (t_arg t) (t_arg_len t) s) (run_tasks E a ts ret))"

definition process_tasks :: "'f env \<Rightarrow> addr \<Rightarrow> 'f xsys \<Rightarrow> (nat \<times> 'f xsys) option" where
  "process_tasks E a s =
     (case s_threads s a of
        None \<Rightarrow> None
      | Some th \<Rightarrow>
          (case xqueue_pop_all (queue th) of
             (ts, q) \<Rightarrow>
               (case run_tasks E a ts [] (upd_thread a (queue_update (\<lambda>_. q)) s) of
                  None \<Rightarrow> None
                | Some (ret, s) \<Rightarrow>
                    if ret = [] then Some (length ts, s)
                    else if s_threads s a = None then None
                    else Some (length ts,
                           upd_thread a (queue_update (\<lambda>q. foldl (\<lambda>q n. xqueue_freelist_return_locked n q) q ret)) s))))"

definition notify_read_cb :: "'f env \<Rightarrow> addr \<Rightarrow> 'f xsys \<Rightarrow> (nat \<times> 'f xsys) option" where
  "notify_read_cb E a s = process_tasks E a (upd_thread a (notified_update (\<lambda>_. 0)) s)"

text \<open>A byte into the socket, or a signal that leaves no trace here.\<close>

definition xthread_notify :: "addr \<Rightarrow> bool \<Rightarrow> 'f xsys \<Rightarrow> 'f xsys option" where
  "xthread_notify a need_notify s =
     (if \<not> need_notify then Some s
      else case s_threads s a of
             None \<Rightarrow> None
           | Some th \<Rightarrow> Some (if poll th \<noteq> None then upd_thread a (notified_update Suc) s else s))"

definition xthread_wakeup_uninit_ctx :: "addr \<Rightarrow> 'f xsys \<Rightarrow> 'f xsys" where
  "xthread_wakeup_uninit_ctx a s = upd_thread a (poll_update (\<lambda>_. None) \<circ> notified_update (\<lambda>_. 0)) s"

definition xthread_wakeup_uninit :: "int \<Rightarrow> 'f xsys \<Rightarrow> 'f xsys" where
  "xthread_wakeup_uninit me s =
     (case xthread_get me s of None \<Rightarrow> s | Some a \<Rightarrow> xthread_wakeup_uninit_ctx a s)"

definition xthread_wakeup_init_ctx :: "'f env \<Rightarrow> int \<Rightarrow> addr \<Rightarrow> 'f xsys \<Rightarrow> (int \<times> 'f xsys) option" where
  "xthread_wakeup_init_ctx E me a s =
     (case s_threads s a of
        None \<Rightarrow> None
      | Some th \<Rightarrow>
          if poll th \<noteq> None \<and> poll th = poll_default E then map_option (\<lambda>(n, s). (0, s)) (process_tasks E a s)
          else let s = (if poll th \<noteq> None then xthread_wakeup_uninit me s else s)
               in if poll_default E \<noteq> None \<and> \<not> sockets_ok E then Some (-1, s)
                  else map_option (\<lambda>(n, s). (0, s))
                         (process_tasks E a
                           (upd_thread a (poll_update (\<lambda>_. poll_default E) \<circ> notified_update (\<lambda>_. 0)) s)))"

definition xthread_wakeup_init :: "'f env \<Rightarrow> int \<Rightarrow> 'f xsys \<Rightarrow> (int \<times> 'f xsys) option" where
  "xthread_wakeup_init E me s =
     (case xthread_get me s of None \<Rightarrow> Some (-1, s) | Some a \<Rightarrow> xthread_wakeup_init_ctx E me a s)"

section \<open>Names\<close>

text \<open>Decimal digits of a number, as \<open>%d\<close> prints it, and with at least two digits, as \<open>%02d\<close>.\<close>

fun print_d :: "nat \<Rightarrow> bytes" where
  "print_d n = (if n < 10 then [48 + of_nat n] else print_d (n div 10) @ [48 + of_nat (n mod 10)])"

declare print_d.simps [simp del]

definition print_02d :: "nat \<Rightarrow> bytes" where
  "print_02d n = (if n < 10 then 48 # print_d n else print_d n)"

text \<open>A string cut to a buffer of \<open>cap\<close> bytes.\<close>

abbreviation cut :: "nat \<Rightarrow> bytes \<Rightarrow> bytes" where
  "cut cap bs \<equiv> take (cap - 1) bs"

definition xthread_is_group_thread_id :: "int \<Rightarrow> bool" where
  "xthread_is_group_thread_id i \<longleftrightarrow> i > XTHR_HTTP"

text \<open>The label starts with T or G and the id; a negative id never gets here.\<close>

definition xthread_format_log_label :: "int \<Rightarrow> bytes \<Rightarrow> bytes" where
  "xthread_format_log_label i name =
     (let thread_name = (if name \<noteq> [] then name else [117, 110, 107, 110, 111, 119, 110])
      in cut 64 (if i = XTHR_MAIN then 84 # print_d (nat i) @ [58, 77, 65, 73, 78]
                 else (if xthread_is_group_thread_id i then 71 else 84) # print_d (nat i) @ 58 # thread_name))"

definition xthread_is_digit_char :: "u8 \<Rightarrow> bool" where
  "xthread_is_digit_char c \<longleftrightarrow> 48 \<le> c \<and> c \<le> 57"

abbreviation flag_char :: "u8 \<Rightarrow> bool" where
  "flag_char c \<equiv> c \<in> {45, 43, 32, 35, 48}"

text \<open>What is left behind one integer conversion at the start of the string, None when there is none:
  flags, width, precision, length modifier, conversion letter.\<close>

definition skip_length_modifier :: "bytes \<Rightarrow> bytes" where
  "skip_length_modifier p =
     (if take 2 p = [104, 104] \<or> take 2 p = [108, 108] then drop 2 p
      else if p \<noteq> [] \<and> hd p \<in> {104, 108, 106, 122, 116} then drop 1 p else p)"

definition xthread_parse_int_format :: "bytes \<Rightarrow> bytes option" where
  "xthread_parse_int_format p =
     (if take 1 p \<noteq> [37] then None
      else if take 1 (drop 1 p) = [37] then Some (drop 2 p)
      else let p = dropWhile flag_char (drop 1 p)
           in if take 1 p = [42] then None
              else let p = dropWhile xthread_is_digit_char p
                   in if take 1 p = [46] \<and> take 1 (drop 1 p) = [42] then None
                      else let p = (if take 1 p = [46] then dropWhile xthread_is_digit_char (drop 1 p) else p);
                               p = skip_length_modifier p
                           in if p \<noteq> [] \<and> hd p \<in> {100, 105, 117, 111, 120, 88} then Some (drop 1 p) else None)"

lemma dropWhile_length: "length (dropWhile P xs) \<le> length xs"
  by (induction xs) auto

lemma skip_precision_length: "length (if b then dropWhile P (drop 1 xs) else xs) \<le> length xs"
  using dropWhile_length [of P "drop 1 xs"] by (auto intro: le_trans [OF _ diff_le_self])

lemma parse_int_format_shorter:
  assumes "xthread_parse_int_format p = Some q"
  shows "length q < length p"
proof -
  let ?p1 = "dropWhile flag_char (drop 1 p)"
  let ?p2 = "dropWhile xthread_is_digit_char ?p1"
  let ?p3 = "if take 1 ?p2 = [46] then dropWhile xthread_is_digit_char (drop 1 ?p2) else ?p2"
  have p: "p \<noteq> []" using assms by (auto simp: xthread_parse_int_format_def split: if_splits)
  have "length (skip_length_modifier ?p3) \<le> length ?p3" by (simp add: skip_length_modifier_def)
  also have "length ?p3 \<le> length ?p2" by (rule skip_precision_length)
  also have "length ?p2 \<le> length p - 1"
    using dropWhile_length [of xthread_is_digit_char ?p1] dropWhile_length [of flag_char "drop 1 p"] by simp
  finally have l: "length (skip_length_modifier ?p3) \<le> length p - 1" .
  from assms have "q = drop 2 p \<or> q = drop 1 (skip_length_modifier ?p3)"
    unfolding xthread_parse_int_format_def Let_def by (auto split: if_splits)
  with l p show ?thesis by (cases p) auto
qed

text \<open>The number of integer conversions (None for \<open>-1\<close>, an unknown conversion) and the prefix before the first.\<close>

function count_formats :: "bytes \<Rightarrow> bytes \<Rightarrow> nat \<Rightarrow> bytes option \<Rightarrow> (nat \<times> bytes option) option" where
  "count_formats pre p count first =
     (if p = [] then Some (count, first)
      else if hd p \<noteq> 37 then count_formats (pre @ [hd p]) (tl p) count first
      else if take 1 (drop 1 p) = [37] then count_formats (pre @ take 2 p) (drop 2 p) count first
      else case xthread_parse_int_format p of
             None \<Rightarrow> None
           | Some q \<Rightarrow> count_formats (pre @ take (length p - length q) p) q (count + 1)
                         (if count = 0 then Some pre else first))"
  by pat_completeness auto

termination
  by (relation "measure (\<lambda>(pre, p, count, first). length p)") (auto simp: parse_int_format_shorter)

declare count_formats.simps [simp del]

definition xthread_count_int_formats :: "bytes \<Rightarrow> (nat \<times> bytes option) option" where
  "xthread_count_int_formats pattern = count_formats [] pattern 0 None"

abbreviation default_name :: bytes where
  "default_name \<equiv> [116, 104, 114, 101, 97, 100]"

text \<open>\<open>printf pattern i\<close> is what \<open>snprintf\<close> makes of a pattern with one integer conversion.\<close>

definition xthread_format_group_thread_name :: "(bytes \<Rightarrow> nat \<Rightarrow> bytes) \<Rightarrow> bytes \<Rightarrow> nat \<Rightarrow> bytes" where
  "xthread_format_group_thread_name printf pattern index =
     (let pattern = (if pattern = [] then default_name else pattern)
      in cut 32 (if map_option fst (xthread_count_int_formats pattern) = Some 1 then printf pattern index
                 else pattern @ 58 # print_02d index))"

definition xthread_format_group_name :: "bytes \<Rightarrow> bytes" where
  "xthread_format_group_name pattern =
     (let pattern = (if pattern = [] then default_name else pattern)
      in case xthread_count_int_formats pattern of
           Some (Suc 0, Some pre) \<Rightarrow>
             (let pre = rev (dropWhile (\<lambda>c. c \<in> {45, 95, 58, 46}) (rev pre))
              in if pre \<noteq> [] then cut 32 pre else cut 32 pattern)
         | _ \<Rightarrow> cut 32 pattern)"

section \<open>Thread groups\<close>

definition xthread_pool_create :: "'f env \<Rightarrow> int \<Rightarrow> ThreadSelStrategy \<Rightarrow> bytes \<Rightarrow> 'f xsys \<Rightarrow> addr option \<times> 'f xsys" where
  "xthread_pool_create E gid strat name s =
     (if \<not> mem E Alloc_pool then (None, s)
      else let strat = (if strat = XTHSTRATEGY_LEAST_QUEUE then XTHSTRATEGY_ROUND_ROBIN else strat);
               p = \<lparr>group_id = gid, strategy = strat, p_name = xthread_format_group_name name,
                    p_threads = [], queue_sizes = [], next_index = 0\<rparr>
           in (Some (s_fresh s), s\<lparr>s_pools := (s_pools s)(s_fresh s \<mapsto> p), s_fresh := s_fresh s + 1\<rparr>))"

definition xthread_pool_destroy :: "addr \<Rightarrow> 'f xsys \<Rightarrow> 'f xsys" where
  "xthread_pool_destroy p s = s\<lparr>s_pools := (s_pools s)(p := None)\<rparr>"

definition xthread_pool_add_thread :: "addr \<Rightarrow> addr \<Rightarrow> 'f xsys \<Rightarrow> (bool \<times> 'f xsys) option" where
  "xthread_pool_add_thread p a s =
     (case s_pools s p of
        None \<Rightarrow> None
      | Some pl \<Rightarrow>
          if length (p_threads pl) \<ge> XTHR_GROUP_MAX then Some (False, s)
          else if s_threads s a = None then None
          else Some (True, upd_pool p (p_threads_update (\<lambda>ts. ts @ [a]) \<circ> queue_sizes_update (\<lambda>qs. qs @ [0]))
                             (upd_thread a (group_update (\<lambda>_. Some p)) s)))"

text \<open>The first smallest size, or the first that is 0.\<close>

fun least_queue :: "nat list \<Rightarrow> nat \<Rightarrow> nat \<Rightarrow> nat \<Rightarrow> nat" where
  "least_queue [] i best m = best"
| "least_queue (sz # szs) i best m =
     (if sz = 0 then i else if sz < m then least_queue szs (i + 1) i sz else least_queue szs (i + 1) best m)"

text \<open>Result: the chosen thread, NULL for an empty pool; None for a read outside the array. The index is a signed
  \<open>int\<close> that wraps around, and C's \<open>%\<close> keeps its sign.\<close>

definition xthread_pool_select_thread :: "'f env \<Rightarrow> addr \<Rightarrow> 'f xsys \<Rightarrow> (addr option \<times> 'f xsys) option" where
  "xthread_pool_select_thread E p s =
     (case s_pools s p of
        None \<Rightarrow> None
      | Some pl \<Rightarrow>
          let ts = p_threads pl; count = length ts
          in if count = 0 then Some (None, s)
             else case strategy pl of
                    XTHSTRATEGY_ROUND_ROBIN \<Rightarrow>
                      (let n = sint (next_index pl);
                           idx = (if n < 0 then - ((- n) mod int count) else n mod int count);
                           s = upd_pool p (next_index_update (\<lambda>n. n + 1)) s
                       in if idx < 0 then None else Some (Some (ts ! nat idx), s))
                  | XTHSTRATEGY_RANDOM \<Rightarrow> Some (Some (ts ! (rand E mod count)), s)
                  | XTHSTRATEGY_LEAST_QUEUE \<Rightarrow>
                      let qs = queue_sizes pl
                      in Some (Some (if qs ! 0 = 0 then ts ! 0 else ts ! least_queue (tl qs) 1 0 (qs ! 0)), s))"

definition xthread_pool_get_thread :: "addr \<Rightarrow> int \<Rightarrow> 'f xsys \<Rightarrow> addr option option" where
  "xthread_pool_get_thread p index s =
     (case s_pools s p of
        None \<Rightarrow> None
      | Some pl \<Rightarrow> Some (if index < 0 \<or> index \<ge> int (length (p_threads pl)) then None
                         else Some (p_threads pl ! nat index)))"

section \<open>Registration\<close>

text \<open>The parts that \<open>xthread_register_main\<close> and \<open>xthread_register_ex\<close> share, up to the registry entry.\<close>

definition new_thread :: "int \<Rightarrow> bytes \<Rightarrow> 'f xQueue \<Rightarrow> 'f xThread" where
  "new_thread i name q =
     \<lparr>th_id = i, th_name = cut 32 name, log_label = xthread_format_log_label i (cut 32 name), running = True,
      queue = q, userdata = None, group = None, poll = None, notified = 0, is_worker = False,
      on_init = None, on_update = None, on_cleanup = None\<rparr>"

definition enter_thread :: "int \<Rightarrow> 'f xThread \<Rightarrow> 'f xsys \<Rightarrow> 'f xsys" where
  "enter_thread i th s =
     s\<lparr>s_threads := (s_threads s)(s_fresh s \<mapsto> th), registry := (registry s)(i \<mapsto> s_fresh s),
       s_fresh := s_fresh s + 1\<rparr>"

definition xthread_register_main :: "'f env \<Rightarrow> int \<Rightarrow> bytes \<Rightarrow> 'f xsys \<Rightarrow> bool \<times> 'f xsys" where
  "xthread_register_main E i name s =
     (if i \<le> 0 \<or> i \<ge> XTHR_MAX \<or> \<not> s_init s then (False, s)
      else if registry s i \<noteq> None then (False, s)
      else if \<not> mem E Alloc_thread then (False, s)
      else case xqueue_init (mem E Alloc_slab) (cond_ok E) of
             None \<Rightarrow> (False, s)
           | Some q \<Rightarrow> (True, enter_thread i (new_thread i name q) s))"

text \<open>\<open>pthread_create\<close> starts \<open>worker_func\<close> on the new thread.\<close>

definition xthread_register_ex ::
  "'f env \<Rightarrow> int \<Rightarrow> bytes \<Rightarrow> 'f option \<Rightarrow> 'f option \<Rightarrow> 'f option \<Rightarrow> addr option \<Rightarrow> 'f xsys \<Rightarrow> bool \<times> 'f xsys" where
  "xthread_register_ex E i name init update cleanup ud s =
     (if i \<le> 0 \<or> i \<ge> XTHR_MAX \<or> \<not> s_init s then (False, s)
      else if registry s i \<noteq> None then (False, s)
      else if \<not> mem E Alloc_thread then (False, s)
      else case xqueue_init (mem E Alloc_slab) (cond_ok E) of
             None \<Rightarrow> (False, s)
           | Some q \<Rightarrow>
               if \<not> create_ok E then (False, s)
               else (True, enter_thread i ((new_thread i name q)\<lparr>on_init := init, on_update := update,
                              on_cleanup := cleanup, userdata := ud, is_worker := True\<rparr>) s))"

definition xthread_register ::
  "'f env \<Rightarrow> int \<Rightarrow> bytes \<Rightarrow> 'f option \<Rightarrow> 'f option \<Rightarrow> 'f option \<Rightarrow> 'f xsys \<Rightarrow> bool \<times> 'f xsys" where
  "xthread_register E i name init update cleanup s = xthread_register_ex E i name init update cleanup None s"

text \<open>The loop of \<open>xthread_register_group\<close> over the indices; the result says whether all went well. The rest
  of a pool whose \<open>xthread_pool_add_thread\<close> refuses a thread is ignored, as in the code.\<close>

primrec register_members ::
  "'f env \<Rightarrow> (bytes \<Rightarrow> nat \<Rightarrow> bytes) \<Rightarrow> int \<Rightarrow> addr \<Rightarrow> bytes \<Rightarrow> 'f option \<Rightarrow> 'f option \<Rightarrow> 'f option \<Rightarrow>
     nat list \<Rightarrow> bool \<Rightarrow> 'f xsys \<Rightarrow> (bool \<times> 'f xsys) option" where
  "register_members E printf base p pattern init update cleanup [] all_ok s = Some (all_ok, s)"
| "register_members E printf base p pattern init update cleanup (i # is) all_ok s =
     (let tid = base + int i; name = xthread_format_group_thread_name printf pattern i
      in case xthread_register E tid name init update cleanup s of
           (False, s) \<Rightarrow> register_members E printf base p pattern init update cleanup is False s
         | (True, s) \<Rightarrow>
             (case xthread_get tid s of
                None \<Rightarrow> register_members E printf base p pattern init update cleanup is all_ok s
              | Some a \<Rightarrow> Option.bind (xthread_pool_add_thread p a s)
                  (\<lambda>(_, s). register_members E printf base p pattern init update cleanup is all_ok s)))"

definition xthread_register_group ::
  "'f env \<Rightarrow> (bytes \<Rightarrow> nat \<Rightarrow> bytes) \<Rightarrow> int \<Rightarrow> int \<Rightarrow> ThreadSelStrategy \<Rightarrow> bytes \<Rightarrow>
     'f option \<Rightarrow> 'f option \<Rightarrow> 'f option \<Rightarrow> 'f xsys \<Rightarrow> (bool \<times> 'f xsys) option" where
  "xthread_register_group E printf base count strat pattern init update cleanup s =
     (if count \<le> 0 \<or> base \<le> 0 \<or> base + count \<ge> XTHR_MAX then Some (False, s)
      else case xthread_pool_create E base strat pattern s of
             (None, s) \<Rightarrow> Some (False, s)
           | (Some p, s) \<Rightarrow>
               map_option (\<lambda>(all_ok, s). if all_ok then (True, s) else (False, xthread_pool_destroy p s))
                 (register_members E printf base p pattern init update cleanup [0..<nat count] True s))"

section \<open>Lifecycle\<close>

definition hook :: "'f env \<Rightarrow> 'f option \<Rightarrow> addr \<Rightarrow> 'f xsys \<Rightarrow> 'f xsys option" where
  "hook E h a s = (case h of None \<Rightarrow> Some s | Some f \<Rightarrow> run_hook E f a s)"

definition xthread_internal_init :: "'f env \<Rightarrow> int \<Rightarrow> addr \<Rightarrow> 'f xsys \<Rightarrow> 'f xsys option" where
  "xthread_internal_init E me a s =
     (case s_threads s a of
        None \<Rightarrow> None
      | Some th \<Rightarrow>
          if \<not> running th then Some s
          else Option.bind (hook E (on_init th) a s) (\<lambda>s.
                 case s_threads s a of
                   None \<Rightarrow> None
                 | Some th \<Rightarrow> if running th then map_option snd (xthread_wakeup_init_ctx E me a s) else Some s))"

definition xthread_internal_update :: "'f env \<Rightarrow> addr \<Rightarrow> 'f xsys \<Rightarrow> 'f xsys option" where
  "xthread_internal_update E a s =
     Option.bind (process_tasks E a s) (\<lambda>(n, s).
       case s_threads s a of None \<Rightarrow> None | Some th \<Rightarrow> hook E (on_update th) a s)"

definition xthread_internal_uninit :: "'f env \<Rightarrow> addr \<Rightarrow> 'f xsys \<Rightarrow> 'f xsys option" where
  "xthread_internal_uninit E a s =
     (case s_threads s a of
        None \<Rightarrow> None
      | Some th \<Rightarrow> hook E (on_cleanup th) a (xthread_wakeup_uninit_ctx a s))"

text \<open>What \<open>worker_func\<close> does after its loop: the last tasks, then the cleanup.\<close>

definition worker_end :: "'f env \<Rightarrow> addr \<Rightarrow> 'f xsys \<Rightarrow> 'f xsys option" where
  "worker_end E a s = Option.bind (process_tasks E a s) (\<lambda>(n, s). xthread_internal_uninit E a s)"

text \<open>For a worker the join waits for \<open>worker_end\<close>; the main thread does the same steps itself.\<close>

definition xthread_unregister :: "'f env \<Rightarrow> int \<Rightarrow> 'f xsys \<Rightarrow> 'f xsys option" where
  "xthread_unregister E i s =
     (if i \<le> 0 \<or> i \<ge> XTHR_MAX then Some s
      else case registry s i of
             None \<Rightarrow> Some s
           | Some a \<Rightarrow>
               (case s_threads s a of
                  None \<Rightarrow> None
                | Some th \<Rightarrow>
                    let s = (upd_thread a (running_update (\<lambda>_. False)) s)\<lparr>registry := (registry s)(i := None)\<rparr>;
                        s' = (if is_worker th then Option.bind (xthread_notify a True s) (worker_end E a)
                              else worker_end E a s)
                    in Option.bind s' (\<lambda>s.
                         if s_threads s a = None then None
                         else Some (s\<lparr>s_threads := (s_threads s)(a := None)\<rparr>))))"

text \<open>\<open>me\<close> is the id in the calling thread's TLS (0 before it is set).\<close>

definition xthread_init :: "'f env \<Rightarrow> int \<Rightarrow> 'f xsys \<Rightarrow> (bool \<times> int \<times> 'f xsys) option" where
  "xthread_init E me s =
     (if s_init s then Some (True, me, s)
      else let s = s\<lparr>registry := (\<lambda>_. None), s_init := True\<rparr>
           in if xthread_get me s \<noteq> None then Some (True, me, s)
              else case xthread_register_main E XTHR_MAIN [109, 97, 105, 110] s of
                     (False, s) \<Rightarrow> Some (False, me, s)
                   | (True, s) \<Rightarrow> map_option (\<lambda>(r, s). (True, XTHR_MAIN, s)) (xthread_wakeup_init E XTHR_MAIN s))"

primrec unregister_all :: "'f env \<Rightarrow> int list \<Rightarrow> 'f xsys \<Rightarrow> 'f xsys option" where
  "unregister_all E [] s = Some s"
| "unregister_all E (i # is) s =
     Option.bind (if registry s i \<noteq> None then xthread_unregister E i s else Some s) (unregister_all E is)"

definition xthread_uninit :: "'f env \<Rightarrow> int \<Rightarrow> 'f xsys \<Rightarrow> 'f xsys option" where
  "xthread_uninit E me s =
     (if \<not> s_init s then Some s
      else let s = (if registry s XTHR_MAIN \<noteq> None then xthread_wakeup_uninit me s else s)
           in map_option (s_init_update (\<lambda>_. False)) (unregister_all E [0..XTHR_MAX - 1] s))"

text \<open>\<open>woken\<close> is the system after the wait of \<open>xthread_update\<close> (other threads may have posted).\<close>

definition xthread_update :: "'f env \<Rightarrow> ('f xsys \<Rightarrow> 'f xsys) \<Rightarrow> int \<Rightarrow> 'f xsys \<Rightarrow> (nat \<times> 'f xsys) option" where
  "xthread_update E woken me s =
     (case xthread_get me s of
        None \<Rightarrow> Some (0, s)
      | Some a \<Rightarrow>
          Option.bind (process_tasks E a s) (\<lambda>(n, s).
            case s_threads s a of
              None \<Rightarrow> None
            | Some th \<Rightarrow>
                if poll th \<noteq> None then Some (n, s)
                else if q_size (queue th) = 0 then map_option (\<lambda>(k, s). (n + k, s)) (process_tasks E a (woken s))
                else Some (n, s)))"

section \<open>Posting\<close>

text \<open>The load tracker of a pool: the size of the first entry with the chosen thread's id.\<close>

fun find_thread :: "'f xsys \<Rightarrow> int \<Rightarrow> addr list \<Rightarrow> nat \<Rightarrow> nat option option" where
  "find_thread s i [] k = Some None"
| "find_thread s i (b # bs) k =
     (case s_threads s b of
        None \<Rightarrow> None
      | Some th \<Rightarrow> if th_id th = i then Some (Some k) else find_thread s i bs (k + 1))"

definition track_load :: "addr \<Rightarrow> addr \<Rightarrow> nat \<Rightarrow> 'f xsys \<Rightarrow> 'f xsys option" where
  "track_load p a new_size s =
     (case (s_pools s p, s_threads s a) of
        (Some pl, Some th) \<Rightarrow>
          map_option (\<lambda>k. case k of
              None \<Rightarrow> s
            | Some i \<Rightarrow> upd_pool p (queue_sizes_update (\<lambda>qs. qs[i := new_size])) s)
            (find_thread s (th_id th) (p_threads pl) 0)
      | _ \<Rightarrow> None)"

definition push_to :: "'f env \<Rightarrow> bool \<Rightarrow> 'f post \<Rightarrow> addr \<Rightarrow> 'f xsys \<Rightarrow> ((int \<times> nat \<times> bool) \<times> 'f xsys) option" where
  "push_to E reply p a s =
     (case s_threads s a of
        None \<Rightarrow> None
      | Some th \<Rightarrow>
          (case (if reply then xqueue_push_reply (mem E) (junk E) p (queue th)
                 else xqueue_push_deadline (mem E) (junk E) p (queue th)) of
             (r, q) \<Rightarrow> Some (r, upd_thread a (queue_update (\<lambda>_. q)) s)))"

definition xthread_post_deadline :: "'f env \<Rightarrow> int \<Rightarrow> 'f post \<Rightarrow> 'f xsys \<Rightarrow> (int \<times> 'f xsys) option" where
  "xthread_post_deadline E target p s =
     (case xthread_get target s of
        None \<Rightarrow> Some (-1, s)
      | Some t \<Rightarrow>
          (case s_threads s t of
             None \<Rightarrow> None
           | Some th \<Rightarrow>
               if \<not> running th then Some (-1, s)
               else Option.bind (case group th of None \<Rightarrow> Some (Some t, s) | Some g \<Rightarrow> xthread_pool_select_thread E g s)
                 (\<lambda>(sel, s). case sel of
                    None \<Rightarrow> Some (-1, s)
                  | Some a \<Rightarrow>
                      Option.bind (push_to E False p a s) (\<lambda>((err, new_size, need), s).
                        if err \<noteq> 0 then Some (err, s)
                        else Option.bind (case group th of None \<Rightarrow> Some s | Some g \<Rightarrow> track_load g a new_size s)
                               (\<lambda>s. map_option (Pair err) (xthread_notify a need s))))))"

definition xthread_post :: "'f env \<Rightarrow> int \<Rightarrow> 'f post \<Rightarrow> 'f xsys \<Rightarrow> (int \<times> 'f xsys) option" where
  "xthread_post E target p s = xthread_post_deadline E target (no_deadline p) s"

definition xthread_post_reply :: "'f env \<Rightarrow> int \<Rightarrow> 'f post \<Rightarrow> 'f xsys \<Rightarrow> (int \<times> 'f xsys) option" where
  "xthread_post_reply E target p s =
     (case xthread_get target s of
        None \<Rightarrow> Some (-1, s)
      | Some a \<Rightarrow>
          (case s_threads s a of
             None \<Rightarrow> None
           | Some th \<Rightarrow>
               if \<not> running th then Some (-1, s)
               else Option.bind (push_to E True p a s) (\<lambda>((err, new_size, need), s).
                      if err \<noteq> 0 then Some (err, s) else map_option (Pair err) (xthread_notify a need s))))"

section \<open>Accessors\<close>

definition xthread_get_queue_depth :: "int \<Rightarrow> 'f xsys \<Rightarrow> int option" where
  "xthread_get_queue_depth i s =
     (case xthread_get i s of None \<Rightarrow> Some (-1) | Some a \<Rightarrow> map_option (\<lambda>th. int (q_size (queue th))) (s_threads s a))"

definition xthread_get_queue_max :: "int \<Rightarrow> 'f xsys \<Rightarrow> int option" where
  "xthread_get_queue_max i s =
     (case xthread_get i s of None \<Rightarrow> Some (-1) | Some a \<Rightarrow> map_option (\<lambda>th. int (q_max_size (queue th))) (s_threads s a))"

definition xthread_set_queue_max :: "int \<Rightarrow> int \<Rightarrow> 'f xsys \<Rightarrow> (int \<times> 'f xsys) option" where
  "xthread_set_queue_max i new_max s =
     (case xthread_get i s of
        None \<Rightarrow> Some (-1, s)
      | Some a \<Rightarrow>
          if s_threads s a = None then None
          else Some (0, upd_thread a (queue_update (q_max_size_update (\<lambda>_. nat new_max))) s))"

definition xthread_set_userdata :: "addr \<Rightarrow> addr option \<Rightarrow> 'f xsys \<Rightarrow> 'f xsys" where
  "xthread_set_userdata a ud s = upd_thread a (userdata_update (\<lambda>_. ud)) s"

end
