(* ===== verification/XThreadConc.thy ===== *)
theory XThreadConc
  imports XThread "HOL-Library.Multiset"
begin

text \<open>
  Posting to a thread while it drains its queue: any number of producers, each between its two
  critical sections, and the one consumer, as a step relation over the operations of \<open>XThread\<close>. One
  critical section, one write to the notification socket and one task are one step each.
  Two variants share the producers: the consumer that waits in poll on the socket, and the
  consumer of \<open>xthread_update\<close> that waits on the condition variable with no timeout. Time passes in
  steps of its own. A task function may post (the steps of the producers are possible while tasks are run),
  but it does not call \<open>xthread_update\<close> on its own thread.
\<close>

section \<open>States\<close>

datatype 'f prod =
    P_idle
  | P_check bool "'f post"
  | P_node "nat option" "'f post"
  | P_link "'f xthrTask"
  | P_notify

text \<open>The consumer: waiting (in poll, or on the condition variable), reading the socket, about to
  take the queue, running tasks with the slab nodes to return, and between its look at the
  empty queue and the wait.\<close>

datatype 'f cons =
    C_wait
  | C_read
  | C_pop
  | C_run "'f xthrTask list" "nat list"
  | C_checked

text \<open>\<open>clock\<close> is the monotonic clock. The other fields record the history: \<open>enq\<close> the tasks linked into the queue,
  \<open>done_at\<close> the tasks dealt with (called or dropped) and when, \<open>calls\<close> the calls of task functions with
  their argument.\<close>

record 'f qstate =
  cq :: "'f xQueue"
  prods :: "nat \<Rightarrow> 'f prod"
  cons :: "'f cons"
  pipe :: nat
  clock :: u64
  enq :: "'f xthrTask list"
  done_at :: "('f xthrTask \<times> u64) list"
  calls :: "('f \<times> targ \<times> u32 \<times> u64) list"

definition start :: "'f xQueue \<Rightarrow> 'f qstate" where
  "start q = \<lparr>cq = q, prods = (\<lambda>_. P_idle), cons = C_pop, pipe = 0, clock = 0, enq = [], done_at = [], calls = []\<rparr>"

abbreviation set_prod :: "nat \<Rightarrow> 'f prod \<Rightarrow> 'f qstate \<Rightarrow> 'f qstate" where
  "set_prod p x s \<equiv> s\<lparr>prods := (prods s)(p := x)\<rparr>"

section \<open>Steps\<close>

text \<open>The producers below \<open>k\<close>; \<open>replies\<close> says whether they use the reply path, too.\<close>

inductive prod_step :: "nat \<Rightarrow> bool \<Rightarrow> 'f qstate \<Rightarrow> 'f qstate \<Rightarrow> bool" for k replies where
  p_begin: "p < k \<Longrightarrow> prods s p = P_idle \<Longrightarrow> (ign \<Longrightarrow> replies) \<Longrightarrow> prod_step k replies s (set_prod p (P_check ign post) s)"
| p_full: "prods s p = P_check ign post \<Longrightarrow> push_reserve ign (cq s) = None \<Longrightarrow>
     prod_step k replies s (set_prod p P_idle s)"
| p_reserve: "prods s p = P_check ign post \<Longrightarrow> push_reserve ign (cq s) = Some (node, q) \<Longrightarrow>
     prod_step k replies s (set_prod p (P_node node post) (s\<lparr>cq := q\<rparr>))"
| p_nomem: "prods s p = P_node None post \<Longrightarrow> prod_step k replies s (set_prod p P_idle s)"
| p_make: "prods s p = P_node node post \<Longrightarrow> prod_step k replies s (set_prod p (P_link (task_new bytes node post)) s)"
| p_link: "prods s p = P_link t \<Longrightarrow> push_link t (cq s) = ((n, need), q) \<Longrightarrow>
     prod_step k replies s (set_prod p (if need then P_notify else P_idle) (s\<lparr>cq := q, enq := enq s @ [t]\<rparr>))"

text \<open>What \<open>process_tasks\<close> does once it has been called.\<close>

inductive drain_step :: "'f cons \<Rightarrow> 'f qstate \<Rightarrow> 'f qstate \<Rightarrow> bool" for after where
  c_pop: "cons s = C_pop \<Longrightarrow> xqueue_pop_all (cq s) = (ts, q) \<Longrightarrow> drain_step after s (s\<lparr>cq := q, cons := C_run ts []\<rparr>)"
| c_task: "cons s = C_run (t # ts) ret \<Longrightarrow>
     drain_step after s (s\<lparr>cons := C_run ts (case t_node t of None \<Rightarrow> ret | Some n \<Rightarrow> n # ret),
                           done_at := done_at s @ [(t, clock s)],
                           calls := calls s @ (case task_call (clock s) t of
                                                 None \<Rightarrow> []
                                               | Some f \<Rightarrow> [(f, t_arg t, t_arg_len t, clock s)])\<rparr>)"
| c_return: "cons s = C_run [] ret \<Longrightarrow>
     drain_step after s (s\<lparr>cq := foldl (\<lambda>q n. xqueue_freelist_return_locked n q) (cq s) ret, cons := after\<rparr>)"

text \<open>A consumer in poll: the socket holds at most \<open>cap\<close> bytes. It may process tasks at any time without having
  read the socket (the loop of \<open>worker_func\<close> does).\<close>

inductive poll_step :: "nat \<Rightarrow> bool \<Rightarrow> nat \<Rightarrow> 'f qstate \<Rightarrow> 'f qstate \<Rightarrow> bool" for k replies cap where
  poll_prod: "prod_step k replies s s' \<Longrightarrow> poll_step k replies cap s s'"
| poll_notify: "prods s p = P_notify \<Longrightarrow>
     poll_step k replies cap s (set_prod p P_idle (s\<lparr>pipe := (if pipe s < cap then pipe s + 1 else pipe s)\<rparr>))"
| poll_ready: "cons s = C_wait \<Longrightarrow> 0 < pipe s \<Longrightarrow> poll_step k replies cap s (s\<lparr>cons := C_read\<rparr>)"
| poll_read: "cons s = C_read \<Longrightarrow> poll_step k replies cap s (s\<lparr>pipe := 0, cons := C_pop\<rparr>)"
| poll_timeout: "cons s = C_wait \<Longrightarrow> poll_step k replies cap s (s\<lparr>cons := C_pop\<rparr>)"
| poll_drain: "drain_step C_wait s s' \<Longrightarrow> poll_step k replies cap s s'"
| poll_tick: "clock s \<le> now \<Longrightarrow> poll_step k replies cap s (s\<lparr>clock := now\<rparr>)"

text \<open>\<open>xthread_update\<close> with a negative timeout on a thread without poll: it processes tasks, looks whether the
  queue is empty and if so waits; a signal wakes it only while it waits, and no step of its own
  ends the wait.\<close>

inductive cond_step :: "nat \<Rightarrow> bool \<Rightarrow> 'f qstate \<Rightarrow> 'f qstate \<Rightarrow> bool" for k replies where
  cond_prod: "prod_step k replies s s' \<Longrightarrow> cond_step k replies s s'"
| cond_signal: "prods s p = P_notify \<Longrightarrow>
     cond_step k replies s (set_prod p P_idle (s\<lparr>cons := (if cons s = C_wait then C_pop else cons s)\<rparr>))"
| cond_drain: "drain_step C_read s s' \<Longrightarrow> cond_step k replies s s'"
| cond_look: "cons s = C_read \<Longrightarrow>
     cond_step k replies s (s\<lparr>cons := (if q_size (cq s) = 0 then C_checked else C_pop)\<rparr>)"
| cond_wait: "cons s = C_checked \<Longrightarrow> cond_step k replies s (s\<lparr>cons := C_wait\<rparr>)"
| cond_tick: "clock s \<le> now \<Longrightarrow> cond_step k replies s (s\<lparr>clock := now\<rparr>)"

section \<open>Invariants of the queue\<close>

definition tasks_nodes :: "'f xthrTask list \<Rightarrow> nat list" where
  "tasks_nodes ts = concat (map (\<lambda>t. case t_node t of None \<Rightarrow> [] | Some n \<Rightarrow> [n]) ts)"

fun cons_tasks :: "'f cons \<Rightarrow> 'f xthrTask list" where
  "cons_tasks (C_run ts ret) = ts"
| "cons_tasks _ = []"

fun cons_nodes :: "'f cons \<Rightarrow> nat list" where
  "cons_nodes (C_run ts ret) = tasks_nodes ts @ ret"
| "cons_nodes _ = []"

fun prod_node :: "'f prod \<Rightarrow> nat option" where
  "prod_node (P_node node post) = node"
| "prod_node (P_link t) = t_node t"
| "prod_node _ = None"

definition node_places :: "'f qstate \<Rightarrow> nat list" where
  "node_places s = freelist (cq s) @ tasks_nodes (q_tasks (cq s)) @ cons_nodes (cons s)"

text \<open>Every slab node is in exactly one place.\<close>

definition nodes_ok :: "'f qstate \<Rightarrow> bool" where
  "nodes_ok s \<longleftrightarrow>
     distinct (node_places s)
     \<and> (\<forall>p n. prod_node (prods s p) = Some n \<longrightarrow> n \<notin> set (node_places s) \<and> (\<forall>p'. prod_node (prods s p') = Some n \<longrightarrow> p' = p))
     \<and> {n. n \<in> set (node_places s) \<or> (\<exists>p. prod_node (prods s p) = Some n)} = {..<pool_capacity (cq s)}"

definition counts_ok :: "'f qstate \<Rightarrow> bool" where
  "counts_ok s \<longleftrightarrow>
     q_size (cq s) = length (q_tasks (cq s)) \<and> freelist_count (cq s) = length (freelist (cq s))
     \<and> (q_tasks (cq s) \<noteq> [] \<longrightarrow> q_pending (cq s))
     \<and> enq s = map fst (done_at s) @ cons_tasks (cons s) @ q_tasks (cq s)"

lemma tasks_nodes_simps [simp]:
  "tasks_nodes [] = []" "tasks_nodes (ts @ us) = tasks_nodes ts @ tasks_nodes us"
  "tasks_nodes (t # ts) = (case t_node t of None \<Rightarrow> [] | Some n \<Rightarrow> [n]) @ tasks_nodes ts"
  by (simp_all add: tasks_nodes_def)

lemma return_all:
  "foldl (\<lambda>q n. xqueue_freelist_return_locked n q) q ret
     = q\<lparr>freelist := rev ret @ freelist q, freelist_count := freelist_count q + length ret\<rparr>"
  by (induction ret arbitrary: q) (simp_all add: xqueue_freelist_return_locked_def)

lemma task_new_node [simp]: "t_node (task_new bytes node post) = node"
  by (cases post) (simp add: task_new_def)

lemma push_reserve_cases:
  assumes "push_reserve ign q = Some (node, q')"
  shows "q_tasks q' = q_tasks q \<and> q_size q' = q_size q \<and> q_max_size q' = q_max_size q \<and> q_pending q' = q_pending q
    \<and> pool_capacity q' = pool_capacity q
    \<and> (case node of None \<Rightarrow> q' = q \<and> freelist q = []
       | Some n \<Rightarrow> freelist q = n # freelist q' \<and> freelist_count q' = freelist_count q - 1)
    \<and> (\<not> ign \<and> q_max_size q > 0 \<longrightarrow> q_size q < q_max_size q)"
  using assms
  by (auto simp: push_reserve_def xqueue_freelist_take_locked_def split: if_splits list.splits)

lemma push_link_fields:
  assumes "push_link t q = ((n, need), q')"
  shows "q' = q\<lparr>q_tasks := q_tasks q @ [t], q_size := q_size q + 1, q_pending := True\<rparr>"
    and "need \<longleftrightarrow> \<not> q_pending q" and "n = q_size q + 1"
  using assms by (auto simp: push_link_def Let_def)

text \<open>Moving a node between the queue, the consumer and a producer.\<close>

lemma nodes_ok_same:
  assumes "nodes_ok s" and "mset (node_places s') = mset (node_places s)"
    and "pool_capacity (cq s') = pool_capacity (cq s)" and "\<And>p. prod_node (prods s' p) = prod_node (prods s p)"
  shows "nodes_ok s'"
proof -
  have "set (node_places s') = set (node_places s)" using assms(2) by (metis set_mset_mset)
  moreover have "distinct (node_places s') = distinct (node_places s)" using assms(2) by (rule mset_eq_imp_distinct_iff)
  ultimately show ?thesis using assms(1,3,4) by (simp add: nodes_ok_def)
qed

lemma nodes_ok_take:
  assumes "nodes_ok s" and "mset (node_places s) = add_mset n (mset (node_places s'))"
    and "pool_capacity (cq s') = pool_capacity (cq s)" and "prod_node (prods s p) = None"
    and "\<And>p'. prod_node (prods s' p') = (if p' = p then Some n else prod_node (prods s p'))"
  shows "nodes_ok s'"
proof -
  have m: "set (node_places s) = insert n (set (node_places s'))"
    using assms(2) by (metis set_mset_add_mset_insert set_mset_mset)
  have d: "distinct (n # node_places s')"
    using assms(1,2) mset_eq_imp_distinct_iff [of "node_places s" "n # node_places s'"] by (simp add: nodes_ok_def)
  have own: "k \<notin> set (node_places s) \<and> (\<forall>r. prod_node (prods s r) = Some k \<longrightarrow> r = q)" if "prod_node (prods s q) = Some k" for q k
    using assms(1) that by (simp add: nodes_ok_def)
  have nn: "prod_node (prods s q) \<noteq> Some n" for q using own [of q n] m by auto
  have "k \<notin> set (node_places s') \<and> (\<forall>r. prod_node (prods s' r) = Some k \<longrightarrow> r = q)" if k: "prod_node (prods s' q) = Some k" for q k
  proof (cases "q = p")
    case True
    with k assms(5) have "k = n" by simp
    with d nn assms(5) True show ?thesis by auto
  next
    case False
    with k assms(5) have k': "prod_node (prods s q) = Some k" by simp
    then have "k \<noteq> n" using nn by blast
    show ?thesis
    proof (intro conjI allI impI)
      show "k \<notin> set (node_places s')" using own [OF k'] m by blast
      fix r
      assume "prod_node (prods s' r) = Some k"
      with \<open>k \<noteq> n\<close> assms(5) [of r] have "prod_node (prods s r) = Some k" by (simp split: if_splits)
      with own [OF k'] show "r = q" by blast
    qed
  qed
  moreover have "{k. k \<in> set (node_places s') \<or> (\<exists>q. prod_node (prods s' q) = Some k)}
      = {k. k \<in> set (node_places s) \<or> (\<exists>q. prod_node (prods s q) = Some k)}"
  proof -
    have "(\<exists>q. prod_node (prods s' q) = Some k) \<longleftrightarrow> k = n \<or> (\<exists>q. prod_node (prods s q) = Some k)" for k
      using assms(4,5) by (metis option.inject option.distinct(1))
    then show ?thesis using m by auto
  qed
  ultimately show ?thesis using assms(1,3) d by (simp add: nodes_ok_def)
qed

lemma nodes_ok_give:
  assumes "nodes_ok s" and "mset (node_places s') = add_mset n (mset (node_places s))"
    and "pool_capacity (cq s') = pool_capacity (cq s)" and "prod_node (prods s p) = Some n"
    and "\<And>p'. prod_node (prods s' p') = (if p' = p then None else prod_node (prods s p'))"
  shows "nodes_ok s'"
proof -
  have m: "set (node_places s') = insert n (set (node_places s))"
    using assms(2) by (metis set_mset_add_mset_insert set_mset_mset)
  have own: "k \<notin> set (node_places s) \<and> (\<forall>r. prod_node (prods s r) = Some k \<longrightarrow> r = q)" if "prod_node (prods s q) = Some k" for q k
    using assms(1) that by (simp add: nodes_ok_def)
  have d: "distinct (node_places s')"
    using assms(1,2) own [OF assms(4)] mset_eq_imp_distinct_iff [of "node_places s'" "n # node_places s"]
    by (simp add: nodes_ok_def)
  have "k \<notin> set (node_places s') \<and> (\<forall>r. prod_node (prods s' r) = Some k \<longrightarrow> r = q)" if k: "prod_node (prods s' q) = Some k" for q k
  proof -
    have q: "q \<noteq> p" "prod_node (prods s q) = Some k" using k assms(5) [of q] by (auto split: if_splits)
    then have "k \<noteq> n" using own [OF assms(4)] by auto
    show ?thesis
    proof (intro conjI allI impI)
      show "k \<notin> set (node_places s')" using own [OF q(2)] m \<open>k \<noteq> n\<close> by blast
      fix r
      assume "prod_node (prods s' r) = Some k"
      with assms(5) [of r] have "prod_node (prods s r) = Some k" by (simp split: if_splits)
      with own [OF q(2)] show "r = q" by blast
    qed
  qed
  moreover have "{k. k \<in> set (node_places s') \<or> (\<exists>q. prod_node (prods s' q) = Some k)}
      = {k. k \<in> set (node_places s) \<or> (\<exists>q. prod_node (prods s q) = Some k)}"
  proof -
    have "k = n \<or> (\<exists>q. prod_node (prods s' q) = Some k) \<longleftrightarrow> (\<exists>q. prod_node (prods s q) = Some k)" for k
    proof
      assume "k = n \<or> (\<exists>q. prod_node (prods s' q) = Some k)"
      then show "\<exists>q. prod_node (prods s q) = Some k" using assms(4,5) by (auto split: if_splits)
    next
      assume "\<exists>q. prod_node (prods s q) = Some k"
      then obtain q where "prod_node (prods s q) = Some k" by blast
      then show "k = n \<or> (\<exists>q. prod_node (prods s' q) = Some k)"
        using assms(4,5) by (cases "q = p") (auto intro!: exI [of _ q])
    qed
    then show ?thesis using m by auto
  qed
  ultimately show ?thesis using assms(1,3) d by (simp add: nodes_ok_def)
qed

lemma prod_step_nodes:
  assumes "prod_step k replies s s'" and "nodes_ok s"
  shows "nodes_ok s'"
  using assms(1)
proof cases
  case (p_begin p ign post)
  show ?thesis by (rule nodes_ok_same [OF assms(2)]) (use p_begin in \<open>simp_all add: node_places_def\<close>)
next
  case (p_full p ign post)
  show ?thesis by (rule nodes_ok_same [OF assms(2)]) (use p_full in \<open>simp_all add: node_places_def\<close>)
next
  case (p_reserve p ign post node q)
  note R = push_reserve_cases [OF p_reserve(3)]
  show ?thesis
  proof (cases node)
    case None
    show ?thesis
      by (rule nodes_ok_same [OF assms(2)]) (use p_reserve R None in \<open>auto simp: node_places_def\<close>)
  next
    case (Some n)
    show ?thesis
      by (rule nodes_ok_take [OF assms(2), where n = n and p = p]) (use p_reserve R Some in \<open>auto simp: node_places_def\<close>)
  qed
next
  case (p_nomem p post)
  show ?thesis by (rule nodes_ok_same [OF assms(2)]) (use p_nomem in \<open>simp_all add: node_places_def\<close>)
next
  case (p_make p node post bytes)
  show ?thesis by (rule nodes_ok_same [OF assms(2)]) (use p_make in \<open>simp_all add: node_places_def\<close>)
next
  case (p_link p t n need q)
  note L = push_link_fields(1) [OF p_link(3)]
  show ?thesis
  proof (cases "t_node t")
    case None
    show ?thesis
      by (rule nodes_ok_same [OF assms(2)]) (use p_link L None in \<open>auto simp: node_places_def\<close>)
  next
    case (Some m)
    show ?thesis
      by (rule nodes_ok_give [OF assms(2), where n = m and p = p]) (use p_link L Some in \<open>auto simp: node_places_def\<close>)
  qed
qed

lemma drain_step_nodes:
  assumes "drain_step after s s'" and "nodes_ok s" and "cons_nodes after = []"
  shows "nodes_ok s'"
  using assms(1)
proof cases
  case (c_pop ts q)
  show ?thesis
    by (rule nodes_ok_same [OF assms(2)]) (use c_pop in \<open>auto simp: node_places_def xqueue_pop_all_def\<close>)
next
  case (c_task t ts ret)
  show ?thesis
    by (rule nodes_ok_same [OF assms(2)]) (use c_task in \<open>auto simp: node_places_def split: option.split\<close>)
next
  case (c_return ret)
  show ?thesis
    by (rule nodes_ok_same [OF assms(2)]) (use c_return assms(3) in \<open>auto simp: node_places_def return_all\<close>)
qed

lemma prod_step_counts:
  assumes "prod_step k replies s s'" and "counts_ok s"
  shows "counts_ok s' \<and> cons s' = cons s \<and> pipe s' = pipe s \<and> done_at s' = done_at s"
  using assms(1)
proof cases
  case (p_reserve p ign post node q)
  note R = push_reserve_cases [OF p_reserve(3)]
  then show ?thesis using p_reserve assms(2) by (cases node) (auto simp: counts_ok_def)
next
  case (p_link p t n need q)
  note L = push_link_fields(1) [OF p_link(3)]
  then show ?thesis using p_link assms(2) by (auto simp: counts_ok_def)
qed (use assms(2) in \<open>auto simp: counts_ok_def\<close>)

lemma drain_step_counts:
  assumes "drain_step after s s'" and "counts_ok s" and "cons_tasks after = []"
  shows "counts_ok s'"
  using assms(1)
proof cases
  case (c_pop ts q)
  then show ?thesis using assms(2) by (auto simp: counts_ok_def xqueue_pop_all_def)
next
  case (c_task t ts ret)
  then show ?thesis using assms(2) by (auto simp: counts_ok_def)
next
  case (c_return ret)
  then show ?thesis using assms(2,3) by (auto simp: counts_ok_def return_all)
qed

end
