(* ===== verification/XThreadProps.thy ===== *)
theory XThreadProps
  imports XThreadConc
begin

text \<open>
  Properties of the threads: no wakeup is lost when the thread polls, tasks are called or dropped once, in order
  and by their deadlines, the queue stays within its cap up to the number of producers and no node is used twice;
  a wait on the condition variable can miss its signal.
\<close>

section \<open>Reachable states\<close>

definition fresh_queue :: "'f xQueue \<Rightarrow> bool" where
  "fresh_queue q \<longleftrightarrow> xqueue_init True True = Some q"

lemma fresh_queue_fields:
  assumes "fresh_queue q"
  shows "q_tasks q = []" and "q_size q = 0" and "q_pending q = False" and "q_max_size q = XTHREAD_QUEUE_MAX_DEFAULT"
    and "freelist q = rev [0..<XTHREAD_TASK_POOL_SIZE]" and "pool_capacity q = XTHREAD_TASK_POOL_SIZE"
    and "freelist_count q = XTHREAD_TASK_POOL_SIZE"
proof -
  have cons: "foldl (\<lambda>head i. i # head) acc xs = rev xs @ acc" for acc xs :: "nat list"
    by (induction xs arbitrary: acc) simp_all
  have "q = \<lparr>q_tasks = [], q_size = 0, q_max_size = XTHREAD_QUEUE_MAX_DEFAULT, q_pending = False,
      pool_capacity = XTHREAD_TASK_POOL_SIZE, freelist = rev [0..<XTHREAD_TASK_POOL_SIZE],
      freelist_count = XTHREAD_TASK_POOL_SIZE\<rparr>"
    using assms by (simp add: fresh_queue_def xqueue_init_def xqueue_pool_init_def cons XTHREAD_TASK_POOL_SIZE_def
        del: upt_Suc)
  then show "q_tasks q = []" "q_size q = 0" "q_pending q = False" "q_max_size q = XTHREAD_QUEUE_MAX_DEFAULT"
    "freelist q = rev [0..<XTHREAD_TASK_POOL_SIZE]" "pool_capacity q = XTHREAD_TASK_POOL_SIZE"
    "freelist_count q = XTHREAD_TASK_POOL_SIZE" by simp_all
qed

lemma start_ok:
  assumes "fresh_queue q"
  shows "nodes_ok (start q)" and "counts_ok (start q)"
  using fresh_queue_fields [OF assms]
  by (auto simp: nodes_ok_def counts_ok_def node_places_def start_def)

lemma poll_step_ok:
  assumes "poll_step k replies cap s s'" and "nodes_ok s" and "counts_ok s"
  shows "nodes_ok s' \<and> counts_ok s'"
  using assms(1)
proof cases
  case poll_prod
  then show ?thesis using prod_step_nodes prod_step_counts assms(2,3) by blast
next
  case (poll_notify p)
  then have "nodes_ok s'" by (intro nodes_ok_same [OF assms(2)]) (auto simp: node_places_def)
  then show ?thesis using poll_notify assms(3) by (simp add: counts_ok_def)
next
  case poll_drain
  show ?thesis
    using drain_step_nodes [OF poll_drain assms(2)] drain_step_counts [OF poll_drain assms(3)] by simp
next
  case poll_ready
  then have "nodes_ok s'" by (intro nodes_ok_same [OF assms(2)]) (auto simp: node_places_def)
  then show ?thesis using poll_ready assms(3) by (simp add: counts_ok_def)
next
  case poll_read
  then have "nodes_ok s'" by (intro nodes_ok_same [OF assms(2)]) (auto simp: node_places_def)
  then show ?thesis using poll_read assms(3) by (simp add: counts_ok_def)
next
  case poll_timeout
  then have "nodes_ok s'" by (intro nodes_ok_same [OF assms(2)]) (auto simp: node_places_def)
  then show ?thesis using poll_timeout assms(3) by (simp add: counts_ok_def)
next
  case (poll_tick now)
  then have "nodes_ok s'" by (intro nodes_ok_same [OF assms(2)]) (auto simp: node_places_def)
  then show ?thesis using poll_tick assms(3) by (simp add: counts_ok_def)
qed

lemma poll_reach_ok:
  assumes "(poll_step k replies cap)\<^sup>*\<^sup>* (start q) s" and "fresh_queue q"
  shows "nodes_ok s \<and> counts_ok s"
  using assms(1)
proof (induction rule: rtranclp_induct)
  case base
  then show ?case using start_ok [OF assms(2)] by blast
next
  case (step s s')
  then show ?case using poll_step_ok by blast
qed

section \<open>Wakeups through poll\<close>

text \<open>A wakeup is on its way to the consumer.\<close>

definition wakeup_due :: "'f qstate \<Rightarrow> bool" where
  "wakeup_due s \<longleftrightarrow> 0 < pipe s \<or> (\<exists>p. prods s p = P_notify) \<or> cons s = C_pop"

lemma prod_step_wakeup:
  assumes "prod_step k replies s s'" and "q_pending (cq s) \<longrightarrow> wakeup_due s"
  shows "q_pending (cq s') \<longrightarrow> wakeup_due s'"
proof -
  have keep: "wakeup_due s \<Longrightarrow> prods s p \<noteq> P_notify \<Longrightarrow> pipe t = pipe s \<Longrightarrow> cons t = cons s \<Longrightarrow>
      (\<And>r. r \<noteq> p \<Longrightarrow> prods t r = prods s r) \<Longrightarrow> wakeup_due t" for t p
    unfolding wakeup_due_def by metis
  from assms(1) show ?thesis
  proof cases
    case (p_begin p ign post)
    with assms(2) show ?thesis by (auto intro: keep [of p])
  next
    case (p_full p ign post)
    with assms(2) show ?thesis by (auto intro: keep [of p])
  next
    case (p_reserve p ign post node q)
    with assms(2) push_reserve_cases [OF p_reserve(3)] show ?thesis by (auto intro: keep [of p])
  next
    case (p_nomem p post)
    with assms(2) show ?thesis by (auto intro: keep [of p])
  next
    case (p_make p node post bytes)
    with assms(2) show ?thesis by (auto intro: keep [of p])
  next
    case (p_link p t n need q)
    note L = push_link_fields [OF p_link(3)]
    show ?thesis
    proof (cases need)
      case True
      then have "prods s' p = P_notify" using p_link(1) by simp
      then show ?thesis by (auto simp: wakeup_due_def)
    next
      case False
      with L(2) assms(2) have "wakeup_due s" by simp
      then show ?thesis using p_link by (auto intro: keep [of p])
    qed
  qed
qed

lemma poll_step_wakeup:
  assumes "poll_step k replies cap s s'" and "0 < cap" and "q_pending (cq s) \<longrightarrow> wakeup_due s"
    and "cons s = C_read \<longrightarrow> 0 < pipe s"
  shows "(q_pending (cq s') \<longrightarrow> wakeup_due s') \<and> (cons s' = C_read \<longrightarrow> 0 < pipe s')"
  using assms(1)
proof cases
  case poll_prod
  have "cons s' = cons s \<and> pipe s' = pipe s" using poll_prod by cases simp_all
  with prod_step_wakeup [OF poll_prod assms(3)] assms(4) show ?thesis by simp
next
  case (poll_notify p)
  have "0 < pipe s'" using poll_notify assms(2) by simp
  then show ?thesis by (simp add: wakeup_due_def)
next
  case poll_drain
  then show ?thesis
  proof cases
    case (c_pop ts q)
    then show ?thesis by (auto simp: xqueue_pop_all_def)
  next
    case (c_task t ts ret)
    with assms(3) show ?thesis by (auto simp: wakeup_due_def)
  next
    case (c_return ret)
    with assms(3) show ?thesis by (auto simp: wakeup_due_def return_all)
  qed
qed (use assms(3,4) in \<open>auto simp: wakeup_due_def\<close>)

text \<open>C23. A thread that polls never misses a task: whenever a task is queued, a byte is in the notification
  socket, or a producer is about to write one, or the thread is about to take the queue. So when
  it waits with an empty socket and no producer is at work, every task accepted before has been dealt with (called,
  or dropped at its deadline).\<close>

theorem no_lost_wakeup:
  assumes "(poll_step k replies cap)\<^sup>*\<^sup>* (start q) s" and "fresh_queue q" and "0 < cap"
  shows "(q_tasks (cq s) \<noteq> [] \<longrightarrow> wakeup_due s)
    \<and> (cons s = C_wait \<and> pipe s = 0 \<and> (\<forall>p. prods s p \<noteq> P_notify) \<longrightarrow> map fst (done_at s) = enq s)"
proof -
  have "(q_pending (cq s) \<longrightarrow> wakeup_due s) \<and> (cons s = C_read \<longrightarrow> 0 < pipe s)"
    using assms(1)
  proof (induction rule: rtranclp_induct)
    case base
    then show ?case by (simp add: wakeup_due_def start_def)
  next
    case (step s s')
    then show ?case using poll_step_wakeup [OF step(2) assms(3)] by blast
  qed
  then have w: "q_tasks (cq s) \<noteq> [] \<longrightarrow> wakeup_due s"
    using poll_reach_ok [OF assms(1,2)] by (simp add: counts_ok_def)
  moreover have "map fst (done_at s) = enq s"
    if "cons s = C_wait" "pipe s = 0" "\<forall>p. prods s p \<noteq> P_notify"
  proof -
    have "\<not> wakeup_due s" using that by (simp add: wakeup_due_def)
    with w have "q_tasks (cq s) = []" by blast
    with that(1) poll_reach_ok [OF assms(1,2)] show ?thesis by (simp add: counts_ok_def)
  qed
  ultimately show ?thesis by blast
qed

section \<open>Which tasks are called\<close>

text \<open>The calls a list of tasks with the times they are reached at must lead to: a task without a deadline, and
  one reached before its deadline, is called once with its argument; every other task is dropped.\<close>

fun calls_due :: "('f xthrTask \<times> u64) list \<Rightarrow> ('f \<times> targ \<times> u32 \<times> u64) list" where
  "calls_due [] = []"
| "calls_due ((t, now) # ts) =
     (case t_func t of
        Some f \<Rightarrow> if deadline_ms t = 0 \<or> now < deadline_ms t then (f, t_arg t, t_arg_len t, now) # calls_due ts
                  else calls_due ts
      | None \<Rightarrow> calls_due ts)"

lemma calls_due_append [simp]: "calls_due (ts @ us) = calls_due ts @ calls_due us"
  by (induction ts rule: calls_due.induct) (auto split: option.splits)

lemma calls_due_call:
  "calls_due [(t, now)] = (case task_call now t of None \<Rightarrow> [] | Some f \<Rightarrow> [(f, t_arg t, t_arg_len t, now)])"
  by (auto simp: task_call_def task_deadline_expired_def not_le split: option.splits)

text \<open>One state is later than another: what was done since then is a list of tasks, each reached not before the
  clock of the first, and the calls since then are those these tasks must lead to.\<close>

definition later :: "'f qstate \<Rightarrow> 'f qstate \<Rightarrow> bool" where
  "later s s' \<longleftrightarrow> clock s \<le> clock s'
     \<and> (\<exists>ts. done_at s' = done_at s @ ts \<and> calls s' = calls s @ calls_due ts
           \<and> (\<forall>(t, now) \<in> set ts. clock s \<le> now \<and> now \<le> clock s'))"

lemma later_refl: "later s s"
  by (auto simp: later_def intro: exI [of _ "[]"])

lemma later_trans:
  assumes "later r s" and "later s t"
  shows "later r t"
proof -
  from assms obtain ts us where
    "done_at s = done_at r @ ts" "calls s = calls r @ calls_due ts" "\<forall>(t, now) \<in> set ts. clock r \<le> now \<and> now \<le> clock s"
    "done_at t = done_at s @ us" "calls t = calls s @ calls_due us" "\<forall>(u, now) \<in> set us. clock s \<le> now \<and> now \<le> clock t"
    "clock r \<le> clock s" "clock s \<le> clock t"
    unfolding later_def by blast
  then show ?thesis unfolding later_def by (intro conjI exI [of _ "ts @ us"]) auto
qed

lemma later_same: "clock s \<le> clock s' \<Longrightarrow> done_at s' = done_at s \<Longrightarrow> calls s' = calls s \<Longrightarrow> later s s'"
  by (auto simp: later_def intro: exI [of _ "[]"])

lemma poll_step_later:
  assumes "poll_step k replies cap s s'"
  shows "later s s'"
  using assms
proof cases
  case poll_prod
  then show ?thesis by cases (simp_all add: later_same)
next
  case poll_drain
  then show ?thesis
  proof cases
    case (c_task t ts ret)
    then show ?thesis using calls_due_call [of t "clock s"]
      by (auto simp: later_def simp del: calls_due.simps intro!: exI [of _ "[(t, clock s)]"])
  qed (simp_all add: later_same)
qed (simp_all add: later_same)

lemma poll_reach_later: "(poll_step k replies cap)\<^sup>*\<^sup>* s s' \<Longrightarrow> later s s'"
  by (induction rule: rtranclp_induct) (blast intro: later_refl later_trans poll_step_later)+

text \<open>C24. Tasks are dealt with once and in the order of acceptance: at any time the accepted tasks are those dealt
  with, then those the thread has taken, then those queued, and the depth the queue reports is the number of
  queued tasks. To be dealt with means: the function is called exactly once, with the argument stored at the
  post, if the task has a function and either no deadline or one later than the time the thread reaches it;
  otherwise the task is dropped without a call. So from any state on, the calls are those of tasks reached at
  or after its clock, and a task still waiting when its deadline has come is never called.\<close>

theorem tasks_in_order:
  assumes "(poll_step k replies cap)\<^sup>*\<^sup>* (start q) s" and "fresh_queue q"
  shows "enq s = map fst (done_at s) @ cons_tasks (cons s) @ q_tasks (cq s)
    \<and> q_size (cq s) = length (q_tasks (cq s))
    \<and> calls s = calls_due (done_at s)
    \<and> (\<forall>s'. (poll_step k replies cap)\<^sup>*\<^sup>* s s' \<longrightarrow>
          (\<exists>ts. done_at s' = done_at s @ ts \<and> calls s' = calls s @ calls_due ts
             \<and> (\<forall>(t, now) \<in> set ts. clock s \<le> now)))"
proof -
  have "calls s = calls_due (done_at s)"
    using poll_reach_later [OF assms(1)] by (auto simp: later_def start_def)
  moreover have "\<exists>ts. done_at s' = done_at s @ ts \<and> calls s' = calls s @ calls_due ts \<and> (\<forall>(t, now) \<in> set ts. clock s \<le> now)"
    if "(poll_step k replies cap)\<^sup>*\<^sup>* s s'" for s'
    using poll_reach_later [OF that] by (fastforce simp: later_def)
  ultimately show ?thesis using poll_reach_ok [OF assms] by (simp add: counts_ok_def)
qed

section \<open>Bounds\<close>

fun has_node :: "'f prod \<Rightarrow> bool" where
  "has_node (P_node node post) = True"
| "has_node (P_link t) = True"
| "has_node _ = False"

definition flights :: "nat \<Rightarrow> 'f qstate \<Rightarrow> nat set" where
  "flights k s = {p. p < k \<and> has_node (prods s p)}"

definition bound_ok :: "nat \<Rightarrow> 'f qstate \<Rightarrow> bool" where
  "bound_ok k s \<longleftrightarrow>
     (\<forall>p. (\<exists>ign post. prods s p = P_check ign post) \<or> has_node (prods s p) \<longrightarrow> p < k)
     \<and> (\<forall>p ign post. prods s p = P_check ign post \<longrightarrow> \<not> ign)
     \<and> q_max_size (cq s) = XTHREAD_QUEUE_MAX_DEFAULT
     \<and> q_size (cq s) + card (flights k s) < XTHREAD_QUEUE_MAX_DEFAULT + k"

lemma finite_flights [simp]: "finite (flights k s)"
  by (simp add: flights_def)

lemma bound_ok_less:
  assumes "bound_ok k s" and "q_max_size (cq s') = q_max_size (cq s)" and "q_size (cq s') \<le> q_size (cq s)"
    and "\<And>p. prods s' p = prods s p \<or> prods s' p = P_idle \<or> prods s' p = P_notify
           \<or> has_node (prods s p) \<and> has_node (prods s' p)
           \<or> p < k \<and> (\<exists>post. prods s' p = P_check False post)"
  shows "bound_ok k s'"
proof -
  have "flights k s' \<subseteq> flights k s"
  proof
    fix p
    assume "p \<in> flights k s'"
    then show "p \<in> flights k s" using assms(4) [of p] by (auto simp: flights_def)
  qed
  then have "card (flights k s') \<le> card (flights k s)" by (rule card_mono [OF finite_flights])
  with assms(1-3) have "q_size (cq s') + card (flights k s') < XTHREAD_QUEUE_MAX_DEFAULT + k"
    by (simp add: bound_ok_def)
  moreover have "p < k" if "(\<exists>ign post. prods s' p = P_check ign post) \<or> has_node (prods s' p)" for p
    using that assms(1) assms(4) [of p] by (auto simp: bound_ok_def)
  moreover have "\<not> ign" if "prods s' p = P_check ign post" for p ign post
  proof (cases "prods s' p = prods s p")
    case True
    with that have "prods s p = P_check ign post" by simp
    with assms(1) show ?thesis unfolding bound_ok_def by blast
  next
    case False
    with that assms(4) [of p] show ?thesis by auto
  qed
  ultimately show ?thesis using assms(1,2) by (auto simp: bound_ok_def)
qed

lemma prod_step_bound:
  assumes "prod_step k False s s'" and "bound_ok k s"
  shows "bound_ok k s'"
  using assms(1)
proof cases
  case (p_begin p ign post)
  show ?thesis by (rule bound_ok_less [OF assms(2)]) (use p_begin in auto)
next
  case (p_full p ign post)
  show ?thesis by (rule bound_ok_less [OF assms(2)]) (use p_full in auto)
next
  case (p_reserve p ign post node q)
  note R = push_reserve_cases [OF p_reserve(3)]
  have "p < k" "\<not> ign" "q_max_size (cq s) = XTHREAD_QUEUE_MAX_DEFAULT"
    using p_reserve assms(2) by (auto simp: bound_ok_def)
  with R have size: "q_size q < XTHREAD_QUEUE_MAX_DEFAULT" by (simp add: XTHREAD_QUEUE_MAX_DEFAULT_def)
  have "flights k s' \<subseteq> {..<k}" by (auto simp: flights_def)
  then have "card (flights k s') \<le> k" using card_mono [of "{..<k}"] by fastforce
  with size p_reserve have "q_size (cq s') + card (flights k s') < XTHREAD_QUEUE_MAX_DEFAULT + k" by simp
  moreover have "q_max_size (cq s') = XTHREAD_QUEUE_MAX_DEFAULT"
    using R p_reserve assms(2) by (simp add: bound_ok_def)
  ultimately show ?thesis using p_reserve assms(2) \<open>p < k\<close> by (auto simp: bound_ok_def)
next
  case (p_nomem p post)
  show ?thesis by (rule bound_ok_less [OF assms(2)]) (use p_nomem in auto)
next
  case (p_make p node post bytes)
  show ?thesis by (rule bound_ok_less [OF assms(2)]) (use p_make in auto)
next
  case (p_link p t n need q)
  note L = push_link_fields(1) [OF p_link(3)]
  have "p < k" using p_link assms(2) by (auto simp: bound_ok_def)
  have "flights k s' = flights k s - {p}" using p_link by (auto simp: flights_def)
  moreover have "p \<in> flights k s" using p_link \<open>p < k\<close> by (simp add: flights_def)
  ultimately have "Suc (card (flights k s')) = card (flights k s)" using card_Suc_Diff1 [OF finite_flights] by metis
  with assms(2) L p_link have "q_size (cq s') + card (flights k s') < XTHREAD_QUEUE_MAX_DEFAULT + k"
    by (simp add: bound_ok_def)
  moreover have "q_max_size (cq s') = XTHREAD_QUEUE_MAX_DEFAULT"
    using p_link assms(2) L by (simp add: bound_ok_def)
  moreover have "r < k" if "(\<exists>ign post. prods s' r = P_check ign post) \<or> has_node (prods s' r)" for r
  proof (cases "r = p")
    case True
    with \<open>p < k\<close> show ?thesis by simp
  next
    case False
    with that p_link(1) have "(\<exists>ign post. prods s r = P_check ign post) \<or> has_node (prods s r)" by simp
    with assms(2) show ?thesis unfolding bound_ok_def by blast
  qed
  moreover have "\<not> ign" if "prods s' r = P_check ign post" for r ign post
  proof (cases "r = p")
    case True
    with that p_link(1) show ?thesis by (simp split: if_splits)
  next
    case False
    with that p_link(1) have "prods s r = P_check ign post" by simp
    with assms(2) show ?thesis unfolding bound_ok_def by blast
  qed
  ultimately show ?thesis unfolding bound_ok_def by blast
qed

lemma poll_step_bound:
  assumes "poll_step k False cap s s'" and "bound_ok k s"
  shows "bound_ok k s'"
  using assms(1)
proof cases
  case poll_prod
  then show ?thesis using prod_step_bound assms(2) by blast
next
  case poll_drain
  then show ?thesis
  proof cases
    case (c_pop ts q)
    show ?thesis by (rule bound_ok_less [OF assms(2)]) (use c_pop in \<open>auto simp: xqueue_pop_all_def\<close>)
  next
    case (c_task t ts ret)
    show ?thesis by (rule bound_ok_less [OF assms(2)]) (use c_task in auto)
  next
    case (c_return ret)
    show ?thesis by (rule bound_ok_less [OF assms(2)]) (use c_return in \<open>auto simp: return_all\<close>)
  qed
next
  case (poll_notify p)
  show ?thesis by (rule bound_ok_less [OF assms(2)]) (use poll_notify in auto)
next
  case poll_ready
  show ?thesis by (rule bound_ok_less [OF assms(2)]) (use poll_ready in auto)
next
  case poll_read
  show ?thesis by (rule bound_ok_less [OF assms(2)]) (use poll_read in auto)
next
  case poll_timeout
  show ?thesis by (rule bound_ok_less [OF assms(2)]) (use poll_timeout in auto)
next
  case (poll_tick now)
  show ?thesis by (rule bound_ok_less [OF assms(2)]) (use poll_tick in auto)
qed

text \<open>C25. With \<open>k\<close> producers that do not use the reply path a queue never holds more than its cap and \<open>k - 1\<close>
  tasks (each producer looks at the size before it links its node). Every node of the slab is at any time
  in one place only: the free list, a queued task, a task being run or returned, or the hands of one
  producer.\<close>

theorem queue_bounded:
  assumes "(poll_step k False cap)\<^sup>*\<^sup>* (start q) s" and "fresh_queue q"
  shows "q_size (cq s) < XTHREAD_QUEUE_MAX_DEFAULT + k
    \<and> distinct (freelist (cq s) @ tasks_nodes (q_tasks (cq s)) @ cons_nodes (cons s))
    \<and> (\<forall>p n. prod_node (prods s p) = Some n \<longrightarrow> n \<notin> set (node_places s) \<and> (\<forall>p'. prod_node (prods s p') = Some n \<longrightarrow> p' = p))
    \<and> {n. n \<in> set (node_places s) \<or> (\<exists>p. prod_node (prods s p) = Some n)} = {..<XTHREAD_TASK_POOL_SIZE}"
proof -
  have cap: "pool_capacity (cq s') = pool_capacity (cq s)" if "poll_step k False cap s s'" for s s' :: "'a qstate"
    using that
  proof cases
    case poll_prod
    then show ?thesis
      by cases (auto dest: push_reserve_cases push_link_fields(1))
  next
    case poll_drain
    then show ?thesis by cases (auto simp: xqueue_pop_all_def return_all)
  qed auto
  have "bound_ok k s \<and> pool_capacity (cq s) = XTHREAD_TASK_POOL_SIZE"
    using assms(1)
  proof (induction rule: rtranclp_induct)
    case base
    show ?case using fresh_queue_fields [OF assms(2)]
      by (simp add: bound_ok_def flights_def start_def XTHREAD_QUEUE_MAX_DEFAULT_def)
  next
    case (step s s')
    then show ?case using poll_step_bound cap by metis
  qed
  with poll_reach_ok [OF assms] show ?thesis by (simp add: bound_ok_def nodes_ok_def node_places_def)
qed

section \<open>A wait on the condition variable\<close>

definition stuck :: "'f qstate \<Rightarrow> bool" where
  "stuck s \<longleftrightarrow> q_pending (cq s) \<and> cons s = C_wait \<and> (\<forall>p. prods s p \<noteq> P_notify)"

lemma stuck_prod_step:
  assumes "prod_step k replies s s'" and "stuck s"
  shows "stuck s' \<and> done_at s' = done_at s"
  using assms(1)
proof cases
  case (p_reserve p ign post node q)
  with push_reserve_cases [OF p_reserve(3)] assms(2) show ?thesis by (simp add: stuck_def)
next
  case (p_link p t n need q)
  with push_link_fields [OF p_link(3)] assms(2) show ?thesis by (simp add: stuck_def)
qed (use assms(2) in \<open>simp_all add: stuck_def\<close>)

lemma stuck_step:
  assumes "cond_step k replies s s'" and "stuck s"
  shows "stuck s' \<and> done_at s' = done_at s"
  using assms(1)
proof cases
  case cond_prod
  then show ?thesis using stuck_prod_step assms(2) by blast
next
  case cond_drain
  then show ?thesis by cases (use assms(2) in \<open>simp_all add: stuck_def\<close>)
qed (use assms(2) in \<open>simp_all add: stuck_def\<close>)

lemma stuck_reach:
  assumes "(cond_step k replies)\<^sup>*\<^sup>* s s'" and "stuck s"
  shows "stuck s' \<and> done_at s' = done_at s"
  using assms(1)
  by (induction rule: rtranclp_induct) (use assms(2) stuck_step in \<open>auto dest!: stuck_step\<close>)

text \<open>One post, alone: the four steps of a producer.\<close>

lemma post_run:
  assumes "p < k" and "prods s p = P_idle" and "q_size (cq s) < q_max_size (cq s)"
  shows "\<exists>t node q'. t = task_new [] node post \<and> (prod_step k replies)\<^sup>*\<^sup>* s
           (set_prod p (if q_pending (cq s) then P_idle else P_notify) (s\<lparr>cq := q', enq := enq s @ [t]\<rparr>))
         \<and> q_tasks q' = q_tasks (cq s) @ [t] \<and> q_pending q'"
proof -
  obtain node q1 where R: "push_reserve False (cq s) = Some (node, q1)"
    using assms(3) by (cases "push_reserve False (cq s)") (auto simp: push_reserve_def)
  note R' = push_reserve_cases [OF R]
  let ?t = "task_new [] node post"
  obtain n need q2 where L: "push_link ?t q1 = ((n, need), q2)"
    by (cases "push_link ?t q1") fastforce
  note L' = push_link_fields [OF L]
  let ?s4 = "set_prod p (P_check False post) s"
  let ?s5 = "set_prod p (P_node node post) (?s4\<lparr>cq := q1\<rparr>)"
  let ?s6 = "set_prod p (P_link ?t) ?s5"
  let ?s7 = "set_prod p (if need then P_notify else P_idle) (?s6\<lparr>cq := q2, enq := enq ?s6 @ [?t]\<rparr>)"
  have 4: "prod_step k replies s ?s4" by (rule p_begin) (use assms in auto)
  have 5: "prod_step k replies ?s4 ?s5" by (rule p_reserve [where ign = False and post = post]) (simp_all add: R)
  have 6: "prod_step k replies ?s5 ?s6" by (rule p_make [where node = node and post = post]) simp
  have 7: "prod_step k replies ?s6 ?s7" by (rule p_link [where t = ?t]) (simp_all add: L)
  have "(prod_step k replies)\<^sup>*\<^sup>* s ?s7"
    by (rule converse_rtranclp_into_rtranclp, rule 4, rule converse_rtranclp_into_rtranclp, rule 5,
        rule converse_rtranclp_into_rtranclp, rule 6, rule r_into_rtranclp, rule 7)
  moreover have "?s7 = set_prod p (if q_pending (cq s) then P_idle else P_notify)
      (s\<lparr>cq := q2, enq := enq s @ [?t]\<rparr>)"
    using L'(2) R' by simp
  moreover have "q_tasks q2 = q_tasks (cq s) @ [?t]" "q_pending q2" using L'(1) R' by simp_all
  ultimately show ?thesis by metis
qed

lemma prod_steps_poll: "(prod_step k replies)\<^sup>*\<^sup>* s s' \<Longrightarrow> (poll_step k replies cap)\<^sup>*\<^sup>* s s'"
  by (erule mono_rtranclp [rule_format, rotated]) (rule poll_prod)

lemma prod_steps_cond: "(prod_step k replies)\<^sup>*\<^sup>* s s' \<Longrightarrow> (cond_step k replies)\<^sup>*\<^sup>* s s'"
  by (erule mono_rtranclp [rule_format, rotated]) (rule cond_prod)

text \<open>The run: the thread drains an empty queue and sees that it is empty, a producer posts and signals, the
  thread goes to wait.\<close>

lemma lost_signal_run:
  assumes "fresh_queue q" and "0 < k"
  shows "\<exists>s. (cond_step k replies)\<^sup>*\<^sup>* (start q) s \<and> q_tasks (cq s) \<noteq> [] \<and> stuck s"
proof -
  note F = fresh_queue_fields [OF assms(1)]
  let ?s1 = "(start q)\<lparr>cons := C_run [] []\<rparr>"
  let ?s2 = "?s1\<lparr>cons := C_read\<rparr>"
  let ?s3 = "?s2\<lparr>cons := C_checked\<rparr>"
  have pop: "xqueue_pop_all q = ([], q)" using F by (simp add: xqueue_pop_all_def)
  have 1: "cond_step k replies (start q) ?s1"
    using cond_drain [OF c_pop [where s = "start q" and ts = "[]" and q = q]] pop by (simp add: start_def)
  have 2: "cond_step k replies ?s1 ?s2"
    using cond_drain [OF c_return [where s = ?s1 and ret = "[]"]] by (simp add: start_def)
  have 3: "cond_step k replies ?s2 ?s3"
    using cond_look [where s = ?s2] F(2) by (simp add: start_def)
  obtain t q' where P: "(prod_step k replies)\<^sup>*\<^sup>* ?s3
      (set_prod 0 (if q_pending (cq ?s3) then P_idle else P_notify) (?s3\<lparr>cq := q', enq := enq ?s3 @ [t]\<rparr>))"
    "q_tasks q' = q_tasks (cq ?s3) @ [t]" "q_pending q'"
    using post_run [of 0 k ?s3 "Post_task None None None 0 0" replies] assms(2) F(2,4) by (auto simp: start_def XTHREAD_QUEUE_MAX_DEFAULT_def)
  let ?s7 = "set_prod 0 P_notify (?s3\<lparr>cq := q', enq := enq ?s3 @ [t]\<rparr>)"
  have 7: "(cond_step k replies)\<^sup>*\<^sup>* ?s3 ?s7"
    using prod_steps_cond [OF P(1)] F(3) by (simp add: start_def)
  let ?s8 = "set_prod 0 P_idle (?s7\<lparr>cons := C_checked\<rparr>)"
  let ?s9 = "?s8\<lparr>cons := C_wait\<rparr>"
  have 8: "cond_step k replies ?s7 ?s8"
    using cond_signal [where s = ?s7 and p = 0] by (simp add: start_def)
  have 9: "cond_step k replies ?s8 ?s9"
    using cond_wait [where s = ?s8] by (simp add: start_def)
  have "(cond_step k replies)\<^sup>*\<^sup>* (start q) ?s9"
    by (rule converse_rtranclp_into_rtranclp, rule 1, rule converse_rtranclp_into_rtranclp, rule 2,
        rule converse_rtranclp_into_rtranclp, rule 3, rule rtranclp_trans, rule 7,
        rule converse_rtranclp_into_rtranclp, rule 8, rule r_into_rtranclp, rule 9)
  moreover have "q_tasks (cq ?s9) \<noteq> [] \<and> stuck ?s9"
    using P(2,3) by (simp add: stuck_def start_def)
  ultimately show ?thesis by blast
qed

text \<open>\<open>xthread_update\<close> with a negative timeout on a thread without poll can miss a task: between its look at
  the empty queue and the wait the signal of a poster is lost, and as the queue is then marked as
  signalled no later post signals again. The thread never runs a task any more, whatever is posted.\<close>

lemma cond_wait_misses_task:
  assumes "fresh_queue q" and "0 < k"
  shows "\<exists>s. (cond_step k replies)\<^sup>*\<^sup>* (start q) s \<and> q_tasks (cq s) \<noteq> [] \<and> cons s = C_wait
    \<and> (\<forall>s'. (cond_step k replies)\<^sup>*\<^sup>* s s' \<longrightarrow> cons s' = C_wait \<and> done_at s' = done_at s)"
proof -
  obtain s where s: "(cond_step k replies)\<^sup>*\<^sup>* (start q) s" "q_tasks (cq s) \<noteq> []" "stuck s"
    using lost_signal_run [OF assms] by blast
  have "cons s' = C_wait \<and> done_at s' = done_at s" if "(cond_step k replies)\<^sup>*\<^sup>* s s'" for s'
    using stuck_reach [OF that s(3)] by (simp add: stuck_def)
  with s show ?thesis by (auto simp: stuck_def)
qed

section \<open>Witnesses\<close>

lemma fresh_queue_exists: "fresh_queue (the (xqueue_init True True))"
proof -
  obtain q :: "'a xQueue" where "xqueue_init True True = Some q"
    by (simp add: xqueue_init_def xqueue_pool_init_def XTHREAD_TASK_POOL_SIZE_def)
  then show ?thesis by (simp add: fresh_queue_def)
qed

text \<open>A task is posted while the consumer is about to look at the queue.\<close>

lemma posted_state:
  assumes "fresh_queue q"
  shows "\<exists>s t node. (poll_step 1 False 1)\<^sup>*\<^sup>* (start q) s \<and> q_tasks (cq s) = [t] \<and> enq s = [t]
    \<and> t = task_new [] node post \<and> cons s = C_pop \<and> clock s = 0 \<and> done_at s = [] \<and> calls s = []"
proof -
  note F = fresh_queue_fields [OF assms]
  obtain t node q' where P: "t = task_new [] node post"
      "(prod_step 1 False)\<^sup>*\<^sup>* (start q)
      (set_prod 0 (if q_pending (cq (start q)) then P_idle else P_notify)
        ((start q)\<lparr>cq := q', enq := enq (start q) @ [t]\<rparr>))"
    "q_tasks q' = q_tasks (cq (start q)) @ [t]"
    using post_run [of 0 1 "start q" post False] F(2,4) by (auto simp: start_def XTHREAD_QUEUE_MAX_DEFAULT_def)
  from prod_steps_poll [OF P(2), where cap = 1] P(1,3) F(1) show ?thesis
    by (intro exI conjI) (assumption, simp_all add: start_def)
qed

text \<open>From there the consumer takes the task and reaches it at a time of our choice.\<close>

lemma reached_state:
  assumes "q_tasks (cq s) = [t]" and "cons s = C_pop" and "clock s \<le> now"
  shows "\<exists>s'. (poll_step k replies cap)\<^sup>*\<^sup>* s s' \<and> enq s' = enq s \<and> done_at s' = done_at s @ [(t, now)] \<and> cons_tasks (cons s') = []"
proof -
  let ?s1 = "s\<lparr>clock := now\<rparr>"
  obtain q where q: "xqueue_pop_all (cq s) = ([t], q)" using assms(1) by (simp add: xqueue_pop_all_def)
  let ?s2 = "?s1\<lparr>cq := q, cons := C_run [t] []\<rparr>"
  let ?s3 = "?s2\<lparr>cons := C_run [] (case t_node t of None \<Rightarrow> [] | Some n \<Rightarrow> n # []), done_at := done_at ?s2 @ [(t, clock ?s2)],
      calls := calls ?s2 @ (case task_call (clock ?s2) t of None \<Rightarrow> [] | Some f \<Rightarrow> [(f, t_arg t, t_arg_len t, clock ?s2)])\<rparr>"
  have 1: "poll_step k replies cap s ?s1" using assms(3) by (rule poll_tick)
  have 2: "poll_step k replies cap ?s1 ?s2" by (rule poll_drain, rule c_pop) (use assms(2) q in simp_all)
  have 3: "poll_step k replies cap ?s2 ?s3" by (rule poll_drain, rule c_task) simp
  have "(poll_step k replies cap)\<^sup>*\<^sup>* s ?s3"
    by (rule converse_rtranclp_into_rtranclp, rule 1, rule converse_rtranclp_into_rtranclp, rule 2,
        rule r_into_rtranclp, rule 3)
  then show ?thesis by (intro exI conjI) (assumption, simp_all)
qed

theorem no_lost_wakeup_witness:
  "\<exists>(q :: nat xQueue) s. (poll_step 1 False 1)\<^sup>*\<^sup>* (start q) s \<and> q_tasks (cq s) \<noteq> [] \<and> wakeup_due s"
proof -
  obtain s t where s: "(poll_step 1 False 1)\<^sup>*\<^sup>* (start (the (xqueue_init True True)) :: nat qstate) s" "q_tasks (cq s) = [t]"
    using posted_state [OF fresh_queue_exists] by blast
  have "q_tasks (cq s) \<noteq> [] \<longrightarrow> wakeup_due s"
    using no_lost_wakeup [OF s(1) fresh_queue_exists zero_less_one] by (rule conjunct1)
  with s show ?thesis by fastforce
qed

text \<open>A task with the deadline 5: reached at time 4 it is called, reached at time 5 it is dropped.\<close>

theorem tasks_in_order_witness:
  "\<exists>(s :: nat qstate) (s' :: nat qstate). enq s \<noteq> [] \<and> enq s' \<noteq> [] \<and> map fst (done_at s) = enq s \<and> map fst (done_at s') = enq s'
     \<and> calls s = [(7, Arg_ptr None, 0, 4)] \<and> calls s' = []"
proof -
  let ?q = "the (xqueue_init True True) :: nat xQueue"
  let ?post = "Post_task (Some 7) None None 0 5 :: nat post"
  obtain s0 t node where s0: "(poll_step 1 False 1)\<^sup>*\<^sup>* (start ?q) s0" "q_tasks (cq s0) = [t]" "enq s0 = [t]"
      "t = task_new [] node ?post" "cons s0 = C_pop" "clock s0 = 0" "done_at s0 = []"
    using posted_state [OF fresh_queue_exists, where post = ?post] by blast
  have t: "t_func t = Some 7" "deadline_ms t = 5" "t_arg t = Arg_ptr None" "t_arg_len t = 0"
    using s0(4) by (simp_all add: task_new_def)
  obtain s where s: "(poll_step 1 False 1)\<^sup>*\<^sup>* s0 s" "enq s = [t]" "done_at s = [(t, 4)]"
    using reached_state [OF s0(2,5), of 4 1 False 1] s0(3,6,7) by auto
  obtain s' where s': "(poll_step 1 False 1)\<^sup>*\<^sup>* s0 s'" "enq s' = [t]" "done_at s' = [(t, 5)]"
    using reached_state [OF s0(2,5), of 5 1 False 1] s0(3,6,7) by auto
  have "calls s = calls_due (done_at s)" "calls s' = calls_due (done_at s')"
    using tasks_in_order [OF rtranclp_trans [OF s0(1) s(1)] fresh_queue_exists]
      tasks_in_order [OF rtranclp_trans [OF s0(1) s'(1)] fresh_queue_exists] by simp_all
  with s s' t have "calls s = [(7, Arg_ptr None, 0, 4)]" "calls s' = []" by simp_all
  with s s' show ?thesis by (intro exI [of _ s] exI [of _ s']) simp_all
qed

theorem queue_bounded_witness:
  "\<exists>(q :: nat xQueue) s. (poll_step 1 False 1)\<^sup>*\<^sup>* (start q) s \<and> q_tasks (cq s) \<noteq> []
     \<and> q_size (cq s) < XTHREAD_QUEUE_MAX_DEFAULT + 1 \<and> distinct (freelist (cq s))"
proof -
  obtain s t where s: "(poll_step 1 False 1)\<^sup>*\<^sup>* (start (the (xqueue_init True True)) :: nat qstate) s" "q_tasks (cq s) = [t]"
    using posted_state [OF fresh_queue_exists] by blast
  have "q_size (cq s) < XTHREAD_QUEUE_MAX_DEFAULT + 1" "distinct (freelist (cq s))"
    using queue_bounded [OF s(1) fresh_queue_exists] by simp_all
  with s show ?thesis by fastforce
qed

theorem cond_wait_misses_task_witness:
  "\<exists>(q :: nat xQueue) s. (cond_step 2 True)\<^sup>*\<^sup>* (start q) s \<and> q_tasks (cq s) \<noteq> [] \<and> cons s = C_wait"
  using cond_wait_misses_task [OF fresh_queue_exists, of 2 True] by fastforce

end
