(* ===== verification/XGroupProps.thy ===== *)
theory XGroupProps
  imports XThread
begin

text \<open>
  Thread groups: the round robin choice of a thread, the turn at which its counter becomes negative, and the
  state that a group leaves behind when one of its threads could not be registered.
\<close>

section \<open>Round robin\<close>

text \<open>Posting \<open>m\<close> times to a group.\<close>

fun select_times :: "'f env \<Rightarrow> addr \<Rightarrow> nat \<Rightarrow> 'f xsys \<Rightarrow> (addr option list \<times> 'f xsys) option" where
  "select_times E p 0 s = Some ([], s)"
| "select_times E p (Suc m) s =
     Option.bind (xthread_pool_select_thread E p s)
       (\<lambda>(a, s). map_option (\<lambda>(as, s). (a # as, s)) (select_times E p m s))"

lemma select_round_robin:
  assumes "s_pools s p = Some pl" and "strategy pl = XTHSTRATEGY_ROUND_ROBIN" and "p_threads pl \<noteq> []"
    and "unat (next_index pl) < 2 ^ 31"
  shows "xthread_pool_select_thread E p s
    = Some (Some (p_threads pl ! (unat (next_index pl) mod length (p_threads pl))),
            upd_pool p (next_index_update (\<lambda>n. n + 1)) s)"
proof -
  let ?n = "int (unat (next_index pl)) mod int (length (p_threads pl))"
  have "\<not> ?n < 0" unfolding not_less by (rule pos_mod_sign) (use assms(3) in simp)
  moreover have "nat ?n = unat (next_index pl) mod length (p_threads pl)" by (metis nat_int of_nat_mod)
  ultimately show ?thesis
    using assms(1-3) unfolding xthread_pool_select_thread_def by (simp add: Let_def sint_small [OF assms(4)] del: of_nat_unat)
qed

lemma select_times_round_robin:
  assumes "s_pools s p = Some pl" and "strategy pl = XTHSTRATEGY_ROUND_ROBIN" and "p_threads pl \<noteq> []"
    and "unat (next_index pl) + m \<le> 2 ^ 31"
  shows "\<exists>s'. select_times E p m s
    = Some (map (\<lambda>i. Some (p_threads pl ! ((unat (next_index pl) + i) mod length (p_threads pl)))) [0..<m], s')
    \<and> s_pools s' p = Some (pl\<lparr>next_index := next_index pl + of_nat m\<rparr>)"
  using assms
proof (induction m arbitrary: s pl)
  case 0
  then show ?case by simp
next
  case (Suc m)
  let ?s = "upd_pool p (next_index_update (\<lambda>n. n + 1)) s"
  let ?pl = "pl\<lparr>next_index := next_index pl + 1\<rparr>"
  have "unat (next_index pl) < 2 ^ 31" using Suc.prems(4) by simp
  then have n: "unat (next_index pl + 1) = unat (next_index pl) + 1"
    by (subst unat_add_lem [THEN iffD1]) simp_all
  have "s_pools ?s p = Some ?pl" using Suc.prems(1) by simp
  from Suc.IH [OF this] Suc.prems n obtain s' where s':
    "select_times E p m ?s = Some (map (\<lambda>i. Some (p_threads pl ! ((unat (next_index pl) + 1 + i) mod length (p_threads pl)))) [0..<m], s')"
    "s_pools s' p = Some (?pl\<lparr>next_index := next_index ?pl + of_nat m\<rparr>)"
    by auto
  have sel: "xthread_pool_select_thread E p s
      = Some (Some (p_threads pl ! (unat (next_index pl) mod length (p_threads pl))), ?s)"
    using Suc.prems by (intro select_round_robin) auto
  have "map (\<lambda>i. Some (p_threads pl ! ((unat (next_index pl) + i) mod length (p_threads pl)))) [0..<Suc m]
      = Some (p_threads pl ! (unat (next_index pl) mod length (p_threads pl)))
        # map (\<lambda>i. Some (p_threads pl ! ((unat (next_index pl) + 1 + i) mod length (p_threads pl)))) [0..<m]"
    by (subst upt_conv_Cons) (simp_all add: map_Suc_upt [symmetric] del: upt_Suc)
  with sel s' show ?case by (simp add: add.assoc del: upt_Suc)
qed

text \<open>The posts to a group go round its threads: from a fresh pool the \<open>i\<close>-th choice is thread \<open>i\<close>
  modulo their number, for the first \<open>2^31\<close> posts; then the counter is negative and, unless
  their number divides \<open>2^31\<close>, the next choice reads in front of the array.\<close>

lemma round_robin:
  assumes "s_pools s p = Some pl" and "strategy pl = XTHSTRATEGY_ROUND_ROBIN" and "p_threads pl \<noteq> []"
    and "next_index pl = 0" and "m \<le> 2 ^ 31"
  shows "\<exists>s'. select_times E p m s = Some (map (\<lambda>i. Some (p_threads pl ! (i mod length (p_threads pl)))) [0..<m], s')
    \<and> (m = 2 ^ 31 \<longrightarrow> \<not> length (p_threads pl) dvd 2 ^ 31 \<longrightarrow> xthread_pool_select_thread E p s' = None)"
proof -
  obtain s' where s': "select_times E p m s = Some (map (\<lambda>i. Some (p_threads pl ! (i mod length (p_threads pl)))) [0..<m], s')"
    "s_pools s' p = Some (pl\<lparr>next_index := of_nat m\<rparr>)"
    using select_times_round_robin [OF assms(1-3), of m E] assms(4,5) by auto
  have "xthread_pool_select_thread E p s' = None" if "m = 2 ^ 31" "\<not> length (p_threads pl) dvd 2 ^ 31"
  proof -
    have "sint (of_nat m :: 32 word) = - (2 ^ 31)" by (simp add: that(1))
    moreover have "(2 ^ 31) mod int (length (p_threads pl)) > 0"
    proof -
      have "\<not> int (length (p_threads pl)) dvd 2 ^ 31"
        using that(2) by (metis int_dvd_int_iff of_nat_numeral of_nat_power)
      then have "(2 ^ 31) mod int (length (p_threads pl)) \<noteq> 0" by (simp add: dvd_eq_mod_eq_0)
      moreover have "(2 ^ 31) mod int (length (p_threads pl)) \<ge> 0" using assms(3) by simp
      ultimately show ?thesis by simp
    qed
    ultimately show ?thesis using s'(2) assms(2,3) by (simp add: xthread_pool_select_thread_def Let_def)
  qed
  with s'(1) show ?thesis by blast
qed

section \<open>A group that could not be registered\<close>

lemma register_keeps:
  assumes "xthread_register E i name init update cleanup s = (ok, s')"
  shows "s_pools s' = s_pools s" and "s_fresh s \<le> s_fresh s'"
    and "j \<noteq> i \<Longrightarrow> registry s' j = registry s j" and "a < s_fresh s \<Longrightarrow> s_threads s' a = s_threads s a"
    and "\<not> ok \<Longrightarrow> s' = s"
    and "ok \<Longrightarrow> registry s' i = Some (s_fresh s)" and "ok \<Longrightarrow> s_fresh s' = s_fresh s + 1"
    and "ok \<Longrightarrow> \<exists>th. s_threads s' (s_fresh s) = Some th \<and> running th"
  using assms
  by (auto simp: xthread_register_def xthread_register_ex_def enter_thread_def new_thread_def split: if_splits option.splits)

lemma add_thread_keeps:
  assumes "xthread_pool_add_thread p a s = Some (ok, s')"
  shows "s_fresh s' = s_fresh s" and "registry s' = registry s" and "b \<noteq> a \<Longrightarrow> s_threads s' b = s_threads s b"
  using assms by (auto simp: xthread_pool_add_thread_def split: if_splits option.splits)

lemma members_keep:
  assumes "register_members E printf base p pattern init update cleanup is all_ok s = Some (ok, s')"
    and "\<forall>i \<in> set is. base + int i \<noteq> j" and "a < s_fresh s"
  shows "registry s' j = registry s j \<and> s_threads s' a = s_threads s a"
  using assms
proof (induction "is" arbitrary: all_ok s)
  case Nil
  then show ?case by simp
next
  case (Cons i js)
  let ?r = "xthread_register E (base + int i) (xthread_format_group_thread_name printf pattern i) init update cleanup s"
  obtain ok1 s1 where r: "?r = (ok1, s1)" by fastforce
  note K = register_keeps [OF r]
  have j: "j \<noteq> base + int i" using Cons.prems(2) by auto
  have rest: "\<forall>i \<in> set js. base + int i \<noteq> j" using Cons.prems(2) by simp
  note step = Cons.IH [OF _ rest]
  show ?case
  proof (cases "ok1 \<and> xthread_get (base + int i) s1 \<noteq> None")
    case False
    then obtain b where "register_members E printf base p pattern init update cleanup js b s1 = Some (ok, s')"
      using Cons.prems(1) r by (cases ok1) (auto simp: Let_def split: option.splits)
    from step [OF this] K(2-4) j Cons.prems(3) show ?thesis by simp
  next
    case True
    then obtain b where b: "xthread_get (base + int i) s1 = Some b" by blast
    with True K(6) have "b = s_fresh s" by (auto simp: xthread_get_def split: if_splits)
    obtain ok2 s2 where s2: "xthread_pool_add_thread p b s1 = Some (ok2, s2)"
        "register_members E printf base p pattern init update cleanup js all_ok s2 = Some (ok, s')"
      using Cons.prems(1) r True b by (auto simp: Let_def bind_eq_Some_conv)
    note A = add_thread_keeps [OF s2(1)]
    from step [OF s2(2)] A K(2-4) j Cons.prems(3) \<open>b = s_fresh s\<close> show ?thesis by simp
  qed
qed

lemma select_freed: "s_pools s p = None \<Longrightarrow> xthread_pool_select_thread E p s = None"
  by (simp add: xthread_pool_select_thread_def)

lemma members_keep_group:
  assumes "register_members E printf base p pattern init update cleanup (0 # is) True s = Some (ok, s')"
    and "0 \<notin> set is" and "registry s base = None" and "registry s' base \<noteq> None"
    and "0 < base" and "base < XTHR_MAX" and "s_pools s p = Some pl" and "p_threads pl = []" and "p < s_fresh s"
  shows "\<exists>a th. registry s' base = Some a \<and> s_threads s' a = Some th \<and> running th \<and> group th = Some p"
proof -
  let ?r = "xthread_register E (base + int 0) (xthread_format_group_thread_name printf pattern 0) init update cleanup s"
  obtain ok1 s1 where r: "?r = (ok1, s1)" by fastforce
  note K = register_keeps [OF r]
  have rest: "\<forall>i \<in> set is. base + int i \<noteq> base" using assms(2) by (metis add_cancel_right_right of_nat_eq_0_iff)
  show ?thesis
  proof (cases ok1)
    case False
    with assms(1) r have m: "register_members E printf base p pattern init update cleanup is False s1 = Some (ok, s')"
      by (simp add: Let_def)
    have "registry s' base = registry s base"
      using members_keep [OF m rest, of p] K(5) False assms(9) by simp
    with assms(3,4) show ?thesis by simp
  next
    case True
    have get: "xthread_get base s1 = Some (s_fresh s)"
      using K(6) True assms(5,6) by (simp add: xthread_get_def)
    obtain th where th: "s_threads s1 (s_fresh s) = Some th" "running th" using K(8) True by blast
    obtain ok2 s2 where s2: "xthread_pool_add_thread p (s_fresh s) s1 = Some (ok2, s2)"
        "register_members E printf base p pattern init update cleanup is True s2 = Some (ok, s')"
      using assms(1) r True get by (auto simp: Let_def bind_eq_Some_conv)
    have g: "s_threads s2 (s_fresh s) = Some (th\<lparr>group := Some p\<rparr>)"
      using s2(1) th assms(7,8) K(1) by (auto simp: xthread_pool_add_thread_def XTHR_GROUP_MAX_def split: if_splits)
    note A = add_thread_keeps [OF s2(1)]
    have "registry s' base = Some (s_fresh s) \<and> s_threads s' (s_fresh s) = s_threads s2 (s_fresh s)"
      using members_keep [OF s2(2) rest, of "s_fresh s"] A K(6,7) True by simp
    with g th(2) show ?thesis by simp
  qed
qed

text \<open>When one thread of a group cannot be registered, the call returns false and frees the pool, but the
  threads registered before stay and still point to it: a post to the first of them uses freed memory.\<close>

lemma group_failure_dangling:
  assumes "xthread_register_group E printf base count strat pattern init update cleanup s = Some (False, s')"
    and "registry s base = None" and "registry s' base \<noteq> None"
  shows "xthread_post_deadline E' base post s' = None"
proof -
  have c: "0 < count" "0 < base" "base + count < XTHR_MAX"
    using assms by (auto simp: xthread_register_group_def split: if_splits)
  obtain p s1 where p: "xthread_pool_create E base strat pattern s = (Some p, s1)"
    using assms c by (auto simp: xthread_register_group_def xthread_pool_create_def split: if_splits prod.splits option.splits)
  then have P: "p < s_fresh s1" "registry s1 = registry s" "\<exists>pl. s_pools s1 p = Some pl \<and> p_threads pl = []"
    by (auto simp: xthread_pool_create_def Let_def split: if_splits)
  from assms(1) p c obtain ok s2 where
    m: "register_members E printf base p pattern init update cleanup [0..<nat count] True s1 = Some (ok, s2)"
      "s' = xthread_pool_destroy p s2"
    by (auto simp: xthread_register_group_def split: if_splits)
  have upt: "[0..<nat count] = 0 # [1..<nat count]" using c(1) by (simp add: upt_conv_Cons)
  have "registry s2 base \<noteq> None" using assms(3) m(2) by (simp add: xthread_pool_destroy_def)
  then obtain a th where a: "registry s2 base = Some a" "s_threads s2 a = Some th" "running th" "group th = Some p"
    using members_keep_group [OF m(1) [unfolded upt]] P assms(2) c by (auto simp: XTHR_MAX_def)
  have "s_pools s' p = None" "registry s' base = Some a" "s_threads s' a = Some th"
    using a m(2) by (simp_all add: xthread_pool_destroy_def)
  with a(3,4) c select_freed [of s' p E'] show ?thesis
    by (simp add: xthread_post_deadline_def xthread_get_def XTHR_MAX_def)
qed

section \<open>Witnesses\<close>

definition w_env :: "unit env" where
  "w_env = \<lparr>run_task = (\<lambda>f a x n s. Some s), run_hook = (\<lambda>f a s. Some s), poll_default = None, sockets_ok = True,
     mem = (\<lambda>_. True), cond_ok = True, create_ok = True, rand = 0, junk = []\<rparr>"

definition w_pool :: xThreadPool where
  "w_pool = \<lparr>group_id = 10, strategy = XTHSTRATEGY_ROUND_ROBIN, p_name = [119], p_threads = [7, 8, 9],
     queue_sizes = [0, 0, 0], next_index = 0\<rparr>"

text \<open>A pool at 6; the id 11 is in use.\<close>

definition w_sys :: "unit xsys" where
  "w_sys = \<lparr>s_init = True, registry = (\<lambda>_. None)(11 := Some 5), s_threads = (\<lambda>_. None),
     s_pools = (\<lambda>_. None)(6 := Some w_pool), s_fresh = 20, s_now = 0\<rparr>"

theorem round_robin_witness:
  "\<exists>s'. select_times w_env 6 5 w_sys = Some ([Some 7, Some 8, Some 9, Some 7, Some 8], s')"
proof -
  have "[0..<5] = [0, 1, 2, 3, 4 :: nat]" by (simp add: upt_rec)
  then show ?thesis
    using round_robin [of w_sys 6 w_pool 5 w_env] by (auto simp: w_sys_def w_pool_def)
qed

definition w_failed :: "(bool \<times> unit xsys) option" where
  "w_failed = xthread_register_group w_env (\<lambda>pat i. pat) 10 2 XTHSTRATEGY_ROUND_ROBIN [119] None None None w_sys"

lemma w_register:
  assumes "s_init s" and "registry s i = None" and "0 < i" and "i < XTHR_MAX"
  shows "\<exists>th. xthread_register w_env i name None None None s = (True, enter_thread i th s)"
proof -
  obtain q :: "unit xQueue" where "xqueue_init True True = Some q"
    by (simp add: xqueue_init_def xqueue_pool_init_def XTHREAD_TASK_POOL_SIZE_def)
  then show ?thesis using assms
    by (auto simp: xthread_register_def xthread_register_ex_def w_env_def intro!: exI)
qed

lemma w_register_taken:
  "registry s i = Some a \<Longrightarrow> xthread_register E i name init update cleanup s = (False, s)"
  by (simp add: xthread_register_def xthread_register_ex_def)

lemma w_failed_result: "\<exists>s'. w_failed = Some (False, s') \<and> registry s' 10 \<noteq> None"
proof -
  let ?name = "xthread_format_group_thread_name (\<lambda>pat i. pat) [119] 0"
  obtain s1 where s1: "xthread_pool_create w_env 10 XTHSTRATEGY_ROUND_ROBIN [119] w_sys = (Some 20, s1)"
    "s_init s1" "registry s1 = registry w_sys" "s_fresh s1 = 21" "\<exists>pl. s_pools s1 20 = Some pl \<and> p_threads pl = []"
    by (simp add: xthread_pool_create_def w_env_def w_sys_def Let_def)
  obtain th where th: "xthread_register w_env 10 ?name None None None s1 = (True, enter_thread 10 th s1)"
    using w_register [of s1 10 ?name] s1 by (auto simp: w_sys_def XTHR_MAX_def)
  obtain s2 where s2: "xthread_pool_add_thread 20 21 (enter_thread 10 th s1) = Some (True, s2)"
      "registry s2 = (registry s1)(10 := Some 21)"
    using s1(4,5) by (auto simp: xthread_pool_add_thread_def enter_thread_def XTHR_GROUP_MAX_def)
  have "xthread_get 10 (enter_thread 10 th s1) = Some 21"
    using s1(4) by (simp add: xthread_get_def enter_thread_def XTHR_MAX_def)
  moreover have "registry s2 11 = Some 5" using s2(2) s1(3) by (simp add: w_sys_def)
  moreover have "[0..<nat 2] = [0, 1 :: nat]" by (simp add: upt_rec)
  ultimately have "w_failed = Some (False, xthread_pool_destroy 20 s2)"
    using s1(1) th s2(1) by (simp add: w_failed_def xthread_register_group_def w_register_taken Let_def XTHR_MAX_def
        del: upt.simps)
  moreover have "registry (xthread_pool_destroy 20 s2) 10 \<noteq> None" using s2(2) by (simp add: xthread_pool_destroy_def)
  ultimately show ?thesis by blast
qed

theorem group_failure_dangling_witness:
  "\<exists>s'. w_failed = Some (False, s') \<and> xthread_post_deadline w_env 10 (Post_task None None None 0 0) s' = None"
proof -
  obtain s' where s': "w_failed = Some (False, s')" "registry s' 10 \<noteq> None"
    using w_failed_result by blast
  moreover have "registry w_sys 10 = None" by (simp add: w_sys_def)
  ultimately show ?thesis
    using group_failure_dangling [OF s'(1) [unfolded w_failed_def], of w_env] by blast
qed

end
