(* ===== verification/XFloatBits.thy ===== *)
theory XFloatBits
  imports XPrelude
begin

text \<open>
  What \<open>lua_cmsgpack.c\<close> uses of C doubles and floats, on their IEEE 754 bit patterns: whether a double is a
  64-bit integer, whether it is a float (the cast there and back gives the same value), the cast of a float
  to double, and the bytes of a number in network order.
\<close>

section \<open>Fields\<close>

definition dbl_sign :: "u64 \<Rightarrow> nat" where "dbl_sign d = unat d div 2 ^ 63"
definition dbl_exp :: "u64 \<Rightarrow> nat" where "dbl_exp d = unat d div 2 ^ 52 mod 2 ^ 11"
definition dbl_frac :: "u64 \<Rightarrow> nat" where "dbl_frac d = unat d mod 2 ^ 52"
definition dbl_make :: "nat \<Rightarrow> nat \<Rightarrow> nat \<Rightarrow> u64" where "dbl_make s e m = of_nat (s * 2 ^ 63 + e * 2 ^ 52 + m)"

definition flt_sign :: "u32 \<Rightarrow> nat" where "flt_sign f = unat f div 2 ^ 31"
definition flt_exp :: "u32 \<Rightarrow> nat" where "flt_exp f = unat f div 2 ^ 23 mod 2 ^ 8"
definition flt_frac :: "u32 \<Rightarrow> nat" where "flt_frac f = unat f mod 2 ^ 23"
definition flt_make :: "nat \<Rightarrow> nat \<Rightarrow> nat \<Rightarrow> u32" where "flt_make s e m = of_nat (s * 2 ^ 31 + e * 2 ^ 23 + m)"

lemma dbl_make_fields: "dbl_make (dbl_sign d) (dbl_exp d) (dbl_frac d) = d"
proof -
  have "unat d div 2 ^ 52 div 2 ^ 11 = unat d div 2 ^ 63" by (simp flip: div_mult2_eq)
  then have "unat d div 2 ^ 63 * 2 ^ 11 + unat d div 2 ^ 52 mod 2 ^ 11 = unat d div 2 ^ 52"
    using div_mult_mod_eq [of "unat d div 2 ^ 52" "2 ^ 11"] by simp
  then have "(unat d div 2 ^ 63 * 2 ^ 11 + unat d div 2 ^ 52 mod 2 ^ 11) * 2 ^ 52 + unat d mod 2 ^ 52 = unat d"
    by (simp only: div_mult_mod_eq)
  then have "unat d div 2 ^ 63 * 2 ^ 63 + unat d div 2 ^ 52 mod 2 ^ 11 * 2 ^ 52 + unat d mod 2 ^ 52 = unat d"
    by (simp add: algebra_simps)
  then show ?thesis unfolding dbl_make_def dbl_sign_def dbl_exp_def dbl_frac_def by (simp only: of_nat_unat ucast_id)
qed

lemma dbl_field_bounds: "dbl_sign d < 2" "dbl_exp d < 2 ^ 11" "dbl_frac d < 2 ^ 52"
  using unsigned_less [of d, where ?'a = nat] by (simp_all add: dbl_sign_def dbl_exp_def dbl_frac_def less_mult_imp_div_less)

lemma flt_fields:
  assumes "s < 2" and "e < 2 ^ 8" and "m < 2 ^ 23"
  shows "flt_sign (flt_make s e m) = s" and "flt_exp (flt_make s e m) = e" and "flt_frac (flt_make s e m) = m"
proof -
  have "s * 2 ^ 31 \<le> 2 ^ 31" "e * 2 ^ 23 \<le> 255 * 2 ^ 23" using assms by simp_all
  then have "s * 2 ^ 31 + e * 2 ^ 23 + m < 2 ^ 32" using assms(3) by simp
  then have u: "unat (flt_make s e m) = s * 2 ^ 31 + e * 2 ^ 23 + m"
    unfolding flt_make_def by (intro of_nat_inverse [OF refl]) simp
  have r: "s * 2 ^ 31 + e * 2 ^ 23 + m = m + (s * 2 ^ 8 + e) * 2 ^ 23" by simp
  have q: "(m + (s * 2 ^ 8 + e) * 2 ^ 23) mod 2 ^ 23 = m" "(m + (s * 2 ^ 8 + e) * 2 ^ 23) div 2 ^ 23 = s * 2 ^ 8 + e"
    using assms(3) by (simp_all only: mod_mult_self1 div_mult_self1 mod_less div_less add_0)
  show "flt_frac (flt_make s e m) = m" unfolding flt_frac_def u r by (rule q(1))
  show "flt_exp (flt_make s e m) = e" using assms(2) unfolding flt_exp_def u r q(2) by simp
  have "unat (flt_make s e m) div 2 ^ 23 div 2 ^ 8 = s" using assms(2) unfolding u r q(2) by simp
  then show "flt_sign (flt_make s e m) = s" unfolding flt_sign_def by (simp flip: div_mult2_eq)
qed

section \<open>Casts\<close>

abbreviation dbl_nan :: "u64 \<Rightarrow> bool" where
  "dbl_nan d \<equiv> dbl_exp d = 2047 \<and> dbl_frac d \<noteq> 0"

text \<open>The float \<open>f\<close> with \<open>d == (double)f\<close>, when there is one: zeros and infinities, doubles whose low 29
  fraction bits are zero and whose exponent a float has, and multiples of the least float.\<close>

definition float_of_double :: "u64 \<Rightarrow> u32 option" where
  "float_of_double d =
     (let s = dbl_sign d; e = dbl_exp d; m = dbl_frac d
      in if e = 2047 then (if m = 0 then Some (flt_make s 255 0) else None)
         else if e = 0 then (if m = 0 then Some (flt_make s 0 0) else None)
         else if 897 \<le> e \<and> e \<le> 1150 then (if 2 ^ 29 dvd m then Some (flt_make s (e - 896) (m div 2 ^ 29)) else None)
         else if 874 \<le> e \<and> e \<le> 896 then
           (if 2 ^ (926 - e) dvd 2 ^ 52 + m then Some (flt_make s 0 ((2 ^ 52 + m) div 2 ^ (926 - e))) else None)
         else None)"

text \<open>The number of binary digits less one.\<close>

fun log2 :: "nat \<Rightarrow> nat" where
  "log2 n = (if n < 2 then 0 else log2 (n div 2) + 1)"

declare log2.simps [simp del]

text \<open>A signalling NaN becomes a quiet one.\<close>

definition double_of_float :: "u32 \<Rightarrow> u64" where
  "double_of_float f =
     (let s = flt_sign f; e = flt_exp f; m = flt_frac f
      in if e = 255 then dbl_make s 2047 (if m = 0 then 0 else m mod 2 ^ 22 * 2 ^ 29 + 2 ^ 51)
         else if e = 0 then
           (if m = 0 then dbl_make s 0 0
            else dbl_make s (log2 m + 874) ((m - 2 ^ log2 m) * 2 ^ (52 - log2 m)))
         else dbl_make s (e + 896) (m * 2 ^ 29))"

text \<open>\<open>IS_INT64_EQUIVALENT\<close> and the value: the cast of a double outside the range of \<open>int64_t\<close> is taken to
  differ from it, as on x86 (C leaves it undefined).\<close>

definition double_to_int :: "u64 \<Rightarrow> int option" where
  "double_to_int d =
     (let e = dbl_exp d; m = dbl_frac d;
          mag = (if e = 0 \<and> m = 0 then Some 0
                 else if e < 1023 \<or> 1087 \<le> e then None
                 else if 1075 \<le> e then Some ((2 ^ 52 + m) * 2 ^ (e - 1075))
                 else if 2 ^ (1075 - e) dvd 2 ^ 52 + m then Some ((2 ^ 52 + m) div 2 ^ (1075 - e)) else None)
      in case mag of
           None \<Rightarrow> None
         | Some n \<Rightarrow> (let v = (if dbl_sign d = 1 then - int n else int n)
                     in if - (2 ^ 63) \<le> v \<and> v < 2 ^ 63 then Some v else None))"

lemma double_to_int_range: "double_to_int d = Some v \<Longrightarrow> - (2 ^ 63) \<le> v \<and> v < 2 ^ 63"
  by (auto simp: double_to_int_def Let_def split: if_splits option.splits)

lemma log2_bounds: "0 < n \<Longrightarrow> 2 ^ log2 n \<le> n \<and> n < 2 * 2 ^ log2 n"
proof (induction n rule: log2.induct)
  case (1 n)
  show ?case
  proof (cases "n < 2")
    case False
    with 1 have IH: "2 ^ log2 (n div 2) \<le> n div 2" "n div 2 < 2 * 2 ^ log2 (n div 2)" by auto
    have e: "log2 n = log2 (n div 2) + 1" using False by (simp add: log2.simps [of n])
    have "2 * (n div 2) \<le> n" "n < 2 * (n div 2) + 2" by simp_all
    with IH show ?thesis unfolding e power_add power_one_right by linarith
  qed (use 1 in \<open>simp add: log2.simps\<close>)
qed

lemma log2_eq:
  assumes "2 ^ k \<le> n" and "n < 2 * 2 ^ k"
  shows "log2 n = k"
proof -
  have "0 < n" using assms(1) by (rule less_le_trans [rotated]) simp
  note B = log2_bounds [OF this]
  have "(2::nat) ^ k < 2 ^ Suc (log2 n)" "(2::nat) ^ log2 n < 2 ^ Suc k" using assms B by simp_all
  then have "k < Suc (log2 n)" "log2 n < Suc k" by (simp_all only: power_strict_increasing_iff)
  then show ?thesis by simp
qed

lemma double_of_float_exact:
  assumes "float_of_double d = Some f"
  shows "double_of_float f = d"
proof -
  define s where "s = dbl_sign d"
  define e where "e = dbl_exp d"
  define m where "m = dbl_frac d"
  note B = dbl_field_bounds [of d, folded s_def e_def m_def]
  have d: "d = dbl_make s e m" by (simp add: s_def e_def m_def dbl_make_fields)
  note F = assms [unfolded float_of_double_def Let_def, folded s_def e_def m_def]
  consider (special) "e = 2047 \<and> m = 0 \<and> f = flt_make s 255 0 \<or> e = 0 \<and> m = 0 \<and> f = flt_make s 0 0"
    | (normal) "897 \<le> e" "e \<le> 1150" "2 ^ 29 dvd m" "f = flt_make s (e - 896) (m div 2 ^ 29)"
    | (small) "874 \<le> e" "e \<le> 896" "2 ^ (926 - e) dvd 2 ^ 52 + m" "f = flt_make s 0 ((2 ^ 52 + m) div 2 ^ (926 - e))"
    using F by (auto split: if_splits)
  then show ?thesis
  proof cases
    case special
    then show ?thesis using B(1) d by (auto simp: double_of_float_def flt_fields)
  next
    case normal
    have "m div 2 ^ 29 < 2 ^ 23" using B(3) by (simp add: less_mult_imp_div_less)
    moreover have "m div 2 ^ 29 * 2 ^ 29 = m" using normal(3) by (rule dvd_div_mult_self)
    moreover have "e - 896 \<noteq> 255" "e - 896 \<noteq> 0" "e - 896 < 2 ^ 8" "e - 896 + 896 = e" using normal(1,2) by simp_all
    ultimately show ?thesis
      using normal(4) B(1) d unfolding double_of_float_def by (simp add: flt_fields Let_def)
  next
    case small
    define k where "k = 926 - e"
    define q where "q = (2 ^ 52 + m) div 2 ^ k"
    have k: "30 \<le> k" "k \<le> 52" using small(1,2) by (simp_all add: k_def)
    have q: "q * 2 ^ k = 2 ^ 52 + m" using small(3) unfolding q_def k_def by (rule dvd_div_mult_self)
    have p: "(2::nat) ^ (52 - k) * 2 ^ k = 2 ^ 52" using k by (simp flip: power_add)
    have "2 ^ (52 - k) * 2 ^ k \<le> q * 2 ^ k" "q * 2 ^ k < (2 * 2 ^ (52 - k)) * 2 ^ k"
      unfolding q mult.assoc p using B(3) by simp_all
    then have b: "2 ^ (52 - k) \<le> q" "q < 2 * 2 ^ (52 - k)" by simp_all
    have l: "log2 q = 52 - k" using log2_eq [OF b] .
    have "(2::nat) ^ (52 - k) \<le> 2 ^ 22" using k by (intro power_increasing) auto
    then have "q < 2 ^ 23" using b(2) by simp
    moreover have "0 < q" using b(1) by (rule less_le_trans [rotated]) simp
    moreover have "(q - 2 ^ (52 - k)) * 2 ^ k = m" unfolding diff_mult_distrib p q by simp
    moreover have "52 - (52 - k) = k" "52 - k + 874 = e" using k small(1,2) by (auto simp: k_def)
    moreover have "f = flt_make s 0 q" using small(4) by (simp add: k_def q_def)
    ultimately show ?thesis using B(1) d l by (simp add: double_of_float_def flt_fields Let_def)
  qed
qed

section \<open>Bytes in network order\<close>

text \<open>The last \<open>k\<close> bytes of a number, most significant first.\<close>

primrec be_bytes :: "nat \<Rightarrow> nat \<Rightarrow> bytes" where
  "be_bytes 0 n = []"
| "be_bytes (Suc k) n = be_bytes k (n div 256) @ [of_nat (n mod 256)]"

definition be_value :: "bytes \<Rightarrow> nat" where
  "be_value bs = foldl (\<lambda>n b. n * 256 + unat b) 0 bs"

lemma length_be_bytes [simp]: "length (be_bytes k n) = k"
  by (induction k arbitrary: n) simp_all

lemma be_value_bytes: "be_value (be_bytes k n) = n mod 256 ^ k"
proof (induction k arbitrary: n)
  case (Suc k)
  have "unat (of_nat (n mod 256) :: u8) = n mod 256" by (simp add: unat_of_nat take_bit_nat_def)
  then have "be_value (be_bytes (Suc k) n) = n div 256 mod 256 ^ k * 256 + n mod 256"
    using Suc [of "n div 256"] by (simp add: be_value_def)
  also have "\<dots> = n mod 256 ^ Suc k" by (simp add: mod_mult2_eq)
  finally show ?case .
qed (simp add: be_value_def)

lemma be_value_bytes_small: "n < 256 ^ k \<Longrightarrow> be_value (be_bytes k n) = n"
  by (simp add: be_value_bytes)

end
