(* ===== verification/XMsgpack.thy ===== *)
theory XMsgpack
  imports XFloatBits "HOL-Library.AList"
begin

text \<open>
  The MessagePack codec for Lua values (\<open>xlua/lua_cmsgpack.c\<close>, with Lua 5.4). Lua tables live at addresses and
  may be shared or cyclic; a table is the list of its pairs in the order \<open>lua_next\<close> gives them. The
  allocator, and the length of a table that is no sequence (a border of it), are parameters. \<open>None\<close> is an
  abort, a write through a NULL buffer, or fuel that did not suffice (it always does). Tables have no
  metamethods; the Lua stack is taken to be large enough.
\<close>

section \<open>Lua values\<close>

datatype lval =
    L_nil
  | L_bool bool
  | L_int u64
  | L_num u64
  | L_str bytes
  | L_table addr
  | L_other

type_synonym ltable = "(lval \<times> lval) list"
type_synonym lheap = "addr \<Rightarrow> ltable"

text \<open>A float key with an integer value is the integer key.\<close>

fun lua_key :: "lval \<Rightarrow> lval" where
  "lua_key (L_num d) = (case double_to_int d of Some i \<Rightarrow> L_int (word_of_int i) | None \<Rightarrow> L_num d)"
| "lua_key v = v"

definition lua_gettable :: "ltable \<Rightarrow> lval \<Rightarrow> lval" where
  "lua_gettable t k = (case map_of t (lua_key k) of Some v \<Rightarrow> v | None \<Rightarrow> L_nil)"

datatype mp_error = MP_CUR_ERROR_EOF | MP_CUR_ERROR_BADFMT | Index_is_nil | Index_is_NaN
  | Invalid_request | Bad_start_offset | Needs_input

fun is_nan :: "lval \<Rightarrow> bool" where
  "is_nan (L_num d) = dbl_nan d"
| "is_nan v = False"

definition lua_settable :: "lval \<Rightarrow> lval \<Rightarrow> ltable \<Rightarrow> mp_error + ltable" where
  "lua_settable k v t =
     (if k = L_nil then Inl Index_is_nil
      else if is_nan k then Inl Index_is_NaN
      else if v = L_nil then Inr (AList.delete (lua_key k) t)
      else Inr (AList.update (lua_key k) v t))"

section \<open>The buffer\<close>

text \<open>\<open>len\<close> is the length of the list; \<open>alloc\<close> tells which sizes the Lua allocator can provide.\<close>

record mp_buf =
  mb_bytes :: bytes
  mb_free :: nat

type_synonym alloc = "nat \<Rightarrow> bool"

definition mp_buf_new :: "alloc \<Rightarrow> mp_buf option" where
  "mp_buf_new A = (if A 24 then Some \<lparr>mb_bytes = [], mb_free = 0\<rparr> else None)"

definition mp_buf_append :: "alloc \<Rightarrow> bytes \<Rightarrow> mp_buf \<Rightarrow> mp_buf option" where
  "mp_buf_append A s buf =
     (if mb_free buf < length s then
        (let newsize = length (mb_bytes buf) + length s
         in if newsize > SIZE_MAX \<or> newsize \<ge> SIZE_MAX div 2 then None
            else if \<not> A (2 * newsize) then None
            else Some \<lparr>mb_bytes = mb_bytes buf @ s, mb_free = 2 * newsize - length (mb_bytes buf) - length s\<rparr>)
      else Some \<lparr>mb_bytes = mb_bytes buf @ s, mb_free = mb_free buf - length s\<rparr>)"

section \<open>Encoding\<close>

definition bytes_header :: "nat \<Rightarrow> bytes" where
  "bytes_header len =
     (if len < 32 then [0xa0 OR of_nat len]
      else if len \<le> 0xff then 0xd9 # be_bytes 1 len
      else if len \<le> 0xffff then 0xda # be_bytes 2 len
      else 0xdb # be_bytes 4 len)"

definition mp_encode_bytes :: "alloc \<Rightarrow> bytes \<Rightarrow> mp_buf \<Rightarrow> mp_buf option" where
  "mp_encode_bytes A s buf = Option.bind (mp_buf_append A (bytes_header (length s)) buf) (mp_buf_append A s)"

definition double_code :: "u64 \<Rightarrow> bytes" where
  "double_code d = (case float_of_double d of
       Some f \<Rightarrow> 0xca # be_bytes 4 (unat f)
     | None \<Rightarrow> 0xcb # be_bytes 8 (unat d))"

definition mp_encode_double :: "alloc \<Rightarrow> u64 \<Rightarrow> mp_buf \<Rightarrow> mp_buf option" where
  "mp_encode_double A d buf = mp_buf_append A (double_code d) buf"

definition int_code :: "u64 \<Rightarrow> bytes" where
  "int_code n =
     (if sint n \<ge> 0 then
        (if sint n \<le> 127 then be_bytes 1 (unat n)
         else if sint n \<le> 0xff then 0xcc # be_bytes 1 (unat n)
         else if sint n \<le> 0xffff then 0xcd # be_bytes 2 (unat n)
         else if sint n \<le> 0xffffffff then 0xce # be_bytes 4 (unat n)
         else 0xcf # be_bytes 8 (unat n))
      else
        (if sint n \<ge> -32 then be_bytes 1 (unat n)
         else if sint n \<ge> -128 then 0xd0 # be_bytes 1 (unat n)
         else if sint n \<ge> -32768 then 0xd1 # be_bytes 2 (unat n)
         else if sint n \<ge> -2147483648 then 0xd2 # be_bytes 4 (unat n)
         else 0xd3 # be_bytes 8 (unat n)))"

definition mp_encode_int :: "alloc \<Rightarrow> u64 \<Rightarrow> mp_buf \<Rightarrow> mp_buf option" where
  "mp_encode_int A n buf = mp_buf_append A (int_code n) buf"

definition array_code :: "nat \<Rightarrow> bytes" where
  "array_code n =
     (if n \<le> 15 then [0x90 OR of_nat n] else if n \<le> 65535 then 0xdc # be_bytes 2 n else 0xdd # be_bytes 4 n)"

definition map_code :: "nat \<Rightarrow> bytes" where
  "map_code n =
     (if n \<le> 15 then [0x80 OR of_nat n] else if n \<le> 65535 then 0xde # be_bytes 2 n else 0xdf # be_bytes 4 n)"

definition mp_encode_array :: "alloc \<Rightarrow> nat \<Rightarrow> mp_buf \<Rightarrow> mp_buf option" where
  "mp_encode_array A n buf = mp_buf_append A (array_code n) buf"

definition mp_encode_map :: "alloc \<Rightarrow> nat \<Rightarrow> mp_buf \<Rightarrow> mp_buf option" where
  "mp_encode_map A n buf = mp_buf_append A (map_code n) buf"

definition mp_encode_lua_bool :: "alloc \<Rightarrow> bool \<Rightarrow> mp_buf \<Rightarrow> mp_buf option" where
  "mp_encode_lua_bool A b buf = mp_buf_append A [if b then 0xc3 else 0xc2] buf"

definition mp_encode_lua_null :: "alloc \<Rightarrow> mp_buf \<Rightarrow> mp_buf option" where
  "mp_encode_lua_null A buf = mp_buf_append A [0xc0] buf"

text \<open>A float that is a 64-bit integer is encoded as one (\<open>lua_tointeger\<close> converts it).\<close>

definition mp_encode_lua_number :: "alloc \<Rightarrow> u64 \<Rightarrow> mp_buf \<Rightarrow> mp_buf option" where
  "mp_encode_lua_number A d buf =
     (case double_to_int d of Some i \<Rightarrow> mp_encode_int A (word_of_int i) buf | None \<Rightarrow> mp_encode_double A d buf)"

text \<open>The largest key and the count are \<open>int\<close>s; the assignment to \<open>max\<close> cuts a \<open>lua_Integer\<close>.\<close>

fun array_loop :: "ltable \<Rightarrow> u32 \<Rightarrow> u32 \<Rightarrow> bool" where
  "array_loop [] count mx = (mx = count)"
| "array_loop ((L_int n, v) # es) count mx =
     (if sint n \<le> 0 then False
      else array_loop es (count + 1) (if sint n > sint mx then ucast n else mx))"
| "array_loop ((k, v) # es) count mx = False"

definition table_is_an_array :: "ltable \<Rightarrow> bool" where
  "table_is_an_array t = array_loop t 0 0"

text \<open>One step after the other on the buffer.\<close>

primrec each :: "('x \<Rightarrow> mp_buf \<Rightarrow> mp_buf option) \<Rightarrow> 'x list \<Rightarrow> mp_buf \<Rightarrow> mp_buf option" where
  "each f [] buf = Some buf"
| "each f (x # xs) buf = Option.bind (f x buf) (each f xs)"

text \<open>\<open>enc\<close> encodes a value one level deeper; \<open>border\<close> is \<open>lua_rawlen\<close>.\<close>

definition mp_encode_lua_table_as_array ::
  "alloc \<Rightarrow> (ltable \<Rightarrow> nat) \<Rightarrow> (lval \<Rightarrow> mp_buf \<Rightarrow> mp_buf option) \<Rightarrow> ltable \<Rightarrow> mp_buf \<Rightarrow> mp_buf option" where
  "mp_encode_lua_table_as_array A border enc t buf =
     Option.bind (mp_encode_array A (border t) buf)
       (each (\<lambda>j. enc (lua_gettable t (L_int (of_nat j)))) [1..<border t + 1])"

definition mp_encode_lua_table_as_map ::
  "alloc \<Rightarrow> (lval \<Rightarrow> mp_buf \<Rightarrow> mp_buf option) \<Rightarrow> ltable \<Rightarrow> mp_buf \<Rightarrow> mp_buf option" where
  "mp_encode_lua_table_as_map A enc t buf =
     Option.bind (mp_encode_map A (length t) buf)
       (each (\<lambda>(k, v) buf. Option.bind (enc k buf) (enc v)) t)"

definition mp_encode_lua_table ::
  "alloc \<Rightarrow> (ltable \<Rightarrow> nat) \<Rightarrow> (lval \<Rightarrow> mp_buf \<Rightarrow> mp_buf option) \<Rightarrow> ltable \<Rightarrow> mp_buf \<Rightarrow> mp_buf option" where
  "mp_encode_lua_table A border enc t buf =
     (if table_is_an_array t then mp_encode_lua_table_as_array A border enc t buf
      else mp_encode_lua_table_as_map A enc t buf)"

fun encode_plain :: "alloc \<Rightarrow> lval \<Rightarrow> mp_buf \<Rightarrow> mp_buf option" where
  "encode_plain A (L_str s) buf = mp_encode_bytes A s buf"
| "encode_plain A (L_bool b) buf = mp_encode_lua_bool A b buf"
| "encode_plain A (L_int n) buf = mp_encode_int A n buf"
| "encode_plain A (L_num d) buf = mp_encode_lua_number A d buf"
| "encode_plain A _ buf = mp_encode_lua_null A buf"

text \<open>The first number is the levels left, \<open>LUACMSGPACK_MAX_NESTING - level\<close>; the outermost call has
  \<open>level = 0\<close>.\<close>

definition LUACMSGPACK_MAX_NESTING :: nat where "LUACMSGPACK_MAX_NESTING = 16"

primrec mp_encode_lua_type ::
  "alloc \<Rightarrow> (ltable \<Rightarrow> nat) \<Rightarrow> lheap \<Rightarrow> nat \<Rightarrow> lval \<Rightarrow> mp_buf \<Rightarrow> mp_buf option" where
  "mp_encode_lua_type A border H 0 = encode_plain A"
| "mp_encode_lua_type A border H (Suc r) =
     (\<lambda>v. case v of L_table a \<Rightarrow> mp_encode_lua_table A border (mp_encode_lua_type A border H r) (H a)
                  | _ \<Rightarrow> encode_plain A v)"

text \<open>Each argument in the buffer, which is then emptied; the strings are concatenated.\<close>

primrec pack_args ::
  "alloc \<Rightarrow> (ltable \<Rightarrow> nat) \<Rightarrow> lheap \<Rightarrow> lval list \<Rightarrow> mp_buf \<Rightarrow> bytes option" where
  "pack_args A border H [] buf = Some []"
| "pack_args A border H (v # vs) buf =
     Option.bind (mp_encode_lua_type A border H LUACMSGPACK_MAX_NESTING v buf) (\<lambda>buf.
       map_option ((@) (mb_bytes buf))
         (pack_args A border H vs \<lparr>mb_bytes = [], mb_free = mb_free buf + length (mb_bytes buf)\<rparr>))"

definition mp_pack ::
  "alloc \<Rightarrow> (ltable \<Rightarrow> nat) \<Rightarrow> lheap \<Rightarrow> lval list \<Rightarrow> (mp_error + bytes) option" where
  "mp_pack A border H args =
     (if args = [] then Some (Inl Needs_input)
      else map_option Inr (Option.bind (mp_buf_new A) (pack_args A border H args)))"

section \<open>Decoding\<close>

text \<open>The tables made so far; the cursor is the list of the bytes left.\<close>

record dstate =
  d_heap :: lheap
  d_fresh :: addr

type_synonym 'a dres = "(mp_error + 'a \<times> bytes \<times> dstate) option"

definition dbind :: "'a dres \<Rightarrow> ('a \<Rightarrow> bytes \<Rightarrow> dstate \<Rightarrow> 'b dres) \<Rightarrow> 'b dres" where
  "dbind r f = (case r of None \<Rightarrow> None | Some (Inl e) \<Rightarrow> Some (Inl e) | Some (Inr (v, c, st)) \<Rightarrow> f v c st)"

definition put_cell :: "addr \<Rightarrow> lval \<Rightarrow> lval \<Rightarrow> bytes \<Rightarrow> dstate \<Rightarrow> unit dres" where
  "put_cell a k v c st =
     (case lua_settable k v (d_heap st a) of
        Inl e \<Rightarrow> Some (Inl e)
      | Inr t \<Rightarrow> Some (Inr ((), c, st\<lparr>d_heap := (d_heap st)(a := t)\<rparr>)))"

primrec array_items :: "(bytes \<Rightarrow> dstate \<Rightarrow> lval dres) \<Rightarrow> addr \<Rightarrow> nat \<Rightarrow> nat \<Rightarrow> bytes \<Rightarrow> dstate \<Rightarrow> unit dres" where
  "array_items dec a index 0 c st = Some (Inr ((), c, st))"
| "array_items dec a index (Suc n) c st =
     dbind (dec c st) (\<lambda>v c st. dbind (put_cell a (L_int (of_nat index)) v c st) (\<lambda>_. array_items dec a (index + 1) n))"

primrec hash_items :: "(bytes \<Rightarrow> dstate \<Rightarrow> lval dres) \<Rightarrow> addr \<Rightarrow> nat \<Rightarrow> bytes \<Rightarrow> dstate \<Rightarrow> unit dres" where
  "hash_items dec a 0 c st = Some (Inr ((), c, st))"
| "hash_items dec a (Suc n) c st =
     dbind (dec c st) (\<lambda>k c st. dbind (dec c st) (\<lambda>v c st. dbind (put_cell a k v c st) (\<lambda>_. hash_items dec a n)))"

definition lua_newtable :: "dstate \<Rightarrow> dstate" where
  "lua_newtable st = \<lparr>d_heap = (d_heap st)(d_fresh st := []), d_fresh = d_fresh st + 1\<rparr>"

definition mp_decode_to_lua_array :: "(bytes \<Rightarrow> dstate \<Rightarrow> lval dres) \<Rightarrow> nat \<Rightarrow> bytes \<Rightarrow> dstate \<Rightarrow> lval dres" where
  "mp_decode_to_lua_array dec len c st =
     dbind (array_items dec (d_fresh st) 1 len c (lua_newtable st)) (\<lambda>_ c st'. Some (Inr (L_table (d_fresh st), c, st')))"

definition mp_decode_to_lua_hash :: "(bytes \<Rightarrow> dstate \<Rightarrow> lval dres) \<Rightarrow> nat \<Rightarrow> bytes \<Rightarrow> dstate \<Rightarrow> lval dres" where
  "mp_decode_to_lua_hash dec len c st =
     dbind (hash_items dec (d_fresh st) len c (lua_newtable st)) (\<lambda>_ c st'. Some (Inr (L_table (d_fresh st), c, st')))"

text \<open>The bytes behind the first one: \<open>k\<close> bytes of a number (\<open>mp_cur_need\<close> them), or \<open>l\<close> bytes of a string.\<close>

definition take_num :: "nat \<Rightarrow> bytes \<Rightarrow> dstate \<Rightarrow> nat dres" where
  "take_num k c st =
     (if length c < k then Some (Inl MP_CUR_ERROR_EOF) else Some (Inr (be_value (take k c), drop k c, st)))"

definition take_raw :: "nat \<Rightarrow> bytes \<Rightarrow> dstate \<Rightarrow> lval dres" where
  "take_raw l c st =
     (if length c < l then Some (Inl MP_CUR_ERROR_EOF) else Some (Inr (L_str (take l c), drop l c, st)))"

abbreviation give :: "lval \<Rightarrow> bytes \<Rightarrow> dstate \<Rightarrow> lval dres" where
  "give v c st \<equiv> Some (Inr (v, c, st))"

definition decode_step :: "(bytes \<Rightarrow> dstate \<Rightarrow> lval dres) \<Rightarrow> u8 \<Rightarrow> bytes \<Rightarrow> dstate \<Rightarrow> lval dres" where
  "decode_step dec b c st =
     (if b = 0xcc then dbind (take_num 1 c st) (\<lambda>n. give (L_int (of_nat n)))
      else if b = 0xd0 then dbind (take_num 1 c st) (\<lambda>n. give (L_int (scast (of_nat n :: u8))))
      else if b = 0xcd then dbind (take_num 2 c st) (\<lambda>n. give (L_int (of_nat n)))
      else if b = 0xd1 then dbind (take_num 2 c st) (\<lambda>n. give (L_int (scast (of_nat n :: u16))))
      else if b = 0xce then dbind (take_num 4 c st) (\<lambda>n. give (L_int (of_nat n)))
      else if b = 0xd2 then dbind (take_num 4 c st) (\<lambda>n. give (L_int (scast (of_nat n :: u32))))
      else if b = 0xcf then dbind (take_num 8 c st) (\<lambda>n. give (L_int (of_nat n)))
      else if b = 0xd3 then dbind (take_num 8 c st) (\<lambda>n. give (L_int (of_nat n)))
      else if b = 0xc0 then give L_nil c st
      else if b = 0xc3 then give (L_bool True) c st
      else if b = 0xc2 then give (L_bool False) c st
      else if b = 0xca then dbind (take_num 4 c st) (\<lambda>n. give (L_num (double_of_float (of_nat n))))
      else if b = 0xcb then dbind (take_num 8 c st) (\<lambda>n. give (L_num (of_nat n)))
      else if b = 0xd9 then dbind (take_num 1 c st) take_raw
      else if b = 0xda then dbind (take_num 2 c st) take_raw
      else if b = 0xdb then dbind (take_num 4 c st) take_raw
      else if b = 0xdc then dbind (take_num 2 c st) (mp_decode_to_lua_array dec)
      else if b = 0xdd then dbind (take_num 4 c st) (mp_decode_to_lua_array dec)
      else if b = 0xde then dbind (take_num 2 c st) (mp_decode_to_lua_hash dec)
      else if b = 0xdf then dbind (take_num 4 c st) (mp_decode_to_lua_hash dec)
      else if b AND 0x80 = 0 then give (L_int (ucast b)) c st
      else if b AND 0xe0 = 0xe0 then give (L_int (scast b)) c st
      else if b AND 0xe0 = 0xa0 then take_raw (unat (b AND 0x1f)) c st
      else if b AND 0xf0 = 0x90 then mp_decode_to_lua_array dec (unat (b AND 0xf)) c st
      else if b AND 0xf0 = 0x80 then mp_decode_to_lua_hash dec (unat (b AND 0xf)) c st
      else Some (Inl MP_CUR_ERROR_BADFMT))"

text \<open>The first number is the depth of recursion allowed.\<close>

primrec mp_decode_to_lua_type :: "nat \<Rightarrow> bytes \<Rightarrow> dstate \<Rightarrow> lval dres" where
  "mp_decode_to_lua_type 0 = (\<lambda>c st. None)"
| "mp_decode_to_lua_type (Suc d) =
     (\<lambda>c st. case c of [] \<Rightarrow> Some (Inl MP_CUR_ERROR_EOF) | b # c \<Rightarrow> decode_step (mp_decode_to_lua_type d) b c st)"

text \<open>The loop of \<open>mp_unpack_full\<close>: at most \<open>limit\<close> values while bytes are left. The first number is the rounds
  allowed; a value of \<open>n\<close> bytes is decoded with depth \<open>n + 1\<close>.\<close>

primrec unpack_loop :: "nat \<Rightarrow> nat \<Rightarrow> bytes \<Rightarrow> dstate \<Rightarrow> lval list dres" where
  "unpack_loop 0 limit c st = None"
| "unpack_loop (Suc f) limit c st =
     (if c = [] \<or> limit = 0 then Some (Inr ([], c, st))
      else dbind (mp_decode_to_lua_type (Suc (length c)) c st) (\<lambda>v c st.
             dbind (unpack_loop f (limit - 1) c st) (\<lambda>vs c st. Some (Inr (v # vs, c, st)))))"

definition mp_unpack_full :: "bytes \<Rightarrow> int \<Rightarrow> int \<Rightarrow> dstate \<Rightarrow> lval list dres" where
  "mp_unpack_full s limit offset st =
     (if offset < 0 \<or> limit < 0 then Some (Inl Invalid_request)
      else if nat offset > length s then Some (Inl Bad_start_offset)
      else let decode_all = (limit = 0 \<and> offset = 0);
               c = drop (nat offset) s
           in dbind (unpack_loop (Suc (length c)) (if decode_all then INT_MAX else nat limit) c st) (\<lambda>vs c st.
                Some (Inr (if decode_all then vs
                           else L_int (if c = [] then - 1 else of_nat (length s - length c)) # vs, c, st))))"

definition mp_unpack :: "bytes \<Rightarrow> dstate \<Rightarrow> lval list dres" where
  "mp_unpack s st = mp_unpack_full s 0 0 st"

definition mp_unpack_one :: "bytes \<Rightarrow> int option \<Rightarrow> dstate \<Rightarrow> lval list dres" where
  "mp_unpack_one s offset st = mp_unpack_full s 1 (case offset of None \<Rightarrow> 0 | Some n \<Rightarrow> n) st"

definition mp_unpack_limit :: "bytes \<Rightarrow> int \<Rightarrow> int option \<Rightarrow> dstate \<Rightarrow> lval list dres" where
  "mp_unpack_limit s limit offset st = mp_unpack_full s limit (case offset of None \<Rightarrow> 0 | Some n \<Rightarrow> n) st"

text \<open>The safe variants give nil and the message instead of an error.\<close>

definition mp_safe :: "mp_error + lval list \<Rightarrow> lval list \<times> mp_error option" where
  "mp_safe r = (case r of Inr vs \<Rightarrow> (vs, None) | Inl e \<Rightarrow> ([L_nil], Some e))"

end
