(* ===== verification/XMsgpackDec.thy ===== *)
theory XMsgpackDec
  imports XMsgpack
begin

text \<open>
  The decoder: it consumes bytes with every value, so the depth and the rounds that the model allows it
  always suffice; more of them change nothing; how it reads each code of the format.
\<close>

section \<open>Sequencing\<close>

lemma dbind_simps [simp]:
  "dbind None f = None" "dbind (Some (Inl e)) f = Some (Inl e)" "dbind (Some (Inr (v, c, st))) f = f v c st"
  by (simp_all add: dbind_def)

lemma dbind_Some: "dbind r f = Some (Inr y) \<longleftrightarrow> (\<exists>v c st. r = Some (Inr (v, c, st)) \<and> f v c st = Some (Inr y))"
  by (auto simp: dbind_def split: option.split sum.split)

lemma dbind_None: "dbind r f = None \<longleftrightarrow> r = None \<or> (\<exists>v c st. r = Some (Inr (v, c, st)) \<and> f v c st = None)"
  by (auto simp: dbind_def split: option.split sum.split)

text \<open>A rule for relations between two runs of \<open>decode_step\<close> with different decoders of the parts.\<close>

lemma decode_step_rel:
  assumes "\<And>e. R (Some (Inl e)) (Some (Inl e))" and "\<And>v. R (give v c st) (give v c st)"
    and "\<And>k g. R (dbind (take_num k c st) (\<lambda>n. give (g n))) (dbind (take_num k c st) (\<lambda>n. give (g n)))"
    and "\<And>k. R (dbind (take_num k c st) take_raw) (dbind (take_num k c st) take_raw)"
    and "\<And>l. R (take_raw l c st) (take_raw l c st)"
    and "\<And>k. R (dbind (take_num k c st) (mp_decode_to_lua_array d)) (dbind (take_num k c st) (mp_decode_to_lua_array d'))"
    and "\<And>k. R (dbind (take_num k c st) (mp_decode_to_lua_hash d)) (dbind (take_num k c st) (mp_decode_to_lua_hash d'))"
    and "\<And>l. R (mp_decode_to_lua_array d l c st) (mp_decode_to_lua_array d' l c st)"
    and "\<And>l. R (mp_decode_to_lua_hash d l c st) (mp_decode_to_lua_hash d' l c st)"
  shows "R (decode_step d b c st) (decode_step d' b c st)"
  unfolding decode_step_def by (simp add: assms)

section \<open>Consumption\<close>

text \<open>A result leaves at most \<open>n\<close> bytes.\<close>

definition leaves :: "nat \<Rightarrow> 'a dres \<Rightarrow> bool" where
  "leaves n r \<longleftrightarrow> (\<forall>v c st. r = Some (Inr (v, c, st)) \<longrightarrow> length c \<le> n)"

definition consuming :: "(bytes \<Rightarrow> dstate \<Rightarrow> lval dres) \<Rightarrow> bool" where
  "consuming dec \<longleftrightarrow> (\<forall>c st v c' st'. dec c st = Some (Inr (v, c', st')) \<longrightarrow> length c' < length c)"

lemma consumingD: "consuming dec \<Longrightarrow> dec c st = Some (Inr (v, c', st')) \<Longrightarrow> length c' < length c"
  unfolding consuming_def by blast

lemma leaves_give [simp]: "leaves n (Some (Inr (v, c, st))) \<longleftrightarrow> length c \<le> n"
  by (simp add: leaves_def)

lemma leaves_Inl [simp]: "leaves n (Some (Inl e))"
  by (simp add: leaves_def)

lemma leaves_dbind:
  assumes "\<And>v c st. r = Some (Inr (v, c, st)) \<Longrightarrow> leaves n (f v c st)"
  shows "leaves n (dbind r f)"
  using assms by (auto simp: leaves_def dbind_Some)

lemma put_cell_rest: "put_cell a k v c st = Some (Inr (u, c', st')) \<Longrightarrow> c' = c"
  by (auto simp: put_cell_def split: sum.splits)

text \<open>A rule to show that a sequence returns.\<close>

lemma dbind_returns:
  assumes "r \<noteq> None" and "\<And>v c st. r = Some (Inr (v, c, st)) \<Longrightarrow> f v c st \<noteq> None"
  shows "dbind r f \<noteq> None"
  using assms unfolding dbind_None by blast

lemma put_cell_returns: "put_cell a k v c st \<noteq> None"
  by (auto simp: put_cell_def split: sum.splits)

lemma take_num_leaves: "leaves (length c) (take_num k c st)"
  by (simp add: leaves_def take_num_def)

lemma take_raw_leaves: "leaves (length c) (take_raw k c st)"
  by (simp add: leaves_def take_raw_def)

lemma array_items_leaves:
  assumes "consuming dec"
  shows "leaves (length c) (array_items dec a i n c st)"
proof (induction n arbitrary: i c st)
  case (Suc n)
  have "leaves (length c) (array_items dec a (i + 1) n c'' st'')"
    if "dec c st = Some (Inr (v, c', st'))" "put_cell a k v c' st' = Some (Inr (u, c'', st''))" for v k u c' st' c'' st''
  proof -
    have "length c'' < length c" using consumingD [OF assms that(1)] put_cell_rest [OF that(2)] by simp
    with Suc.IH [of c'' "i + 1" st''] show ?thesis by (force simp: leaves_def)
  qed
  then show ?case by (auto intro!: leaves_dbind)
qed simp

lemma hash_items_leaves:
  assumes "consuming dec"
  shows "leaves (length c) (hash_items dec a n c st)"
proof (induction n arbitrary: c st)
  case (Suc n)
  have "leaves (length c) (hash_items dec a n c3 st3)"
    if "dec c st = Some (Inr (k, c1, st1))" "dec c1 st1 = Some (Inr (v, c2, st2))"
      "put_cell a k v c2 st2 = Some (Inr (u, c3, st3))" for k v u c1 st1 c2 st2 c3 st3
  proof -
    have "length c1 < length c" "length c2 < length c1" using consumingD [OF assms] that by blast+
    then have "length c3 < length c" using put_cell_rest [OF that(3)] by simp
    with Suc.IH [of c3 st3] show ?thesis by (force simp: leaves_def)
  qed
  then show ?case by (auto intro!: leaves_dbind)
qed simp

lemma decode_array_leaves: "consuming dec \<Longrightarrow> leaves (length c) (mp_decode_to_lua_array dec n c st)"
  unfolding mp_decode_to_lua_array_def
  by (rule leaves_dbind) (use array_items_leaves in \<open>fastforce simp: leaves_def\<close>)

lemma decode_hash_leaves: "consuming dec \<Longrightarrow> leaves (length c) (mp_decode_to_lua_hash dec n c st)"
  unfolding mp_decode_to_lua_hash_def
  by (rule leaves_dbind) (use hash_items_leaves in \<open>fastforce simp: leaves_def\<close>)

lemma leaves_num:
  assumes "\<And>n c st. leaves (length c) (f n c st)"
  shows "leaves (length c) (dbind (take_num k c st) f)"
proof (rule leaves_dbind)
  fix n c' st'
  assume "take_num k c st = Some (Inr (n, c', st'))"
  then have "length c' \<le> length c" using take_num_leaves [of c k st] by (simp add: leaves_def)
  with assms [of c' n st'] show "leaves (length c) (f n c' st')" by (force simp: leaves_def)
qed

lemma decode_step_leaves:
  assumes "consuming dec"
  shows "leaves (length c) (decode_step dec b c st)"
  by (rule decode_step_rel [where R = "\<lambda>r r'. leaves (length c) r" and d' = dec])
    (auto intro!: leaves_num take_raw_leaves decode_array_leaves decode_hash_leaves assms)

lemma decode_consuming: "consuming (mp_decode_to_lua_type d)"
proof (induction d)
  case 0
  show ?case by (simp add: consuming_def)
next
  case (Suc d)
  then show ?case using decode_step_leaves [OF Suc] unfolding consuming_def leaves_def
    by (fastforce split: list.splits)
qed

section \<open>Enough depth\<close>

definition returns_below :: "nat \<Rightarrow> (bytes \<Rightarrow> dstate \<Rightarrow> lval dres) \<Rightarrow> bool" where
  "returns_below n dec \<longleftrightarrow> (\<forall>c st. length c < n \<longrightarrow> dec c st \<noteq> None)"

lemma array_items_returns:
  assumes "consuming dec" and "returns_below m dec" and "length c < m"
  shows "array_items dec a i n c st \<noteq> None"
  using assms(3)
proof (induction n arbitrary: i c st)
  case (Suc n)
  have "dec c st \<noteq> None" using assms(2) Suc.prems by (simp add: returns_below_def)
  moreover have "array_items dec a (i + 1) n c'' st'' \<noteq> None"
    if "dec c st = Some (Inr (v, c', st'))" "put_cell a k v c' st' = Some (Inr (u, c'', st''))" for v k u c' st' c'' st''
  proof -
    have "length c'' < length c" using consumingD [OF assms(1) that(1)] put_cell_rest [OF that(2)] by simp
    with Suc.prems show ?thesis by (intro Suc.IH) simp
  qed
  ultimately show ?case unfolding array_items.simps by (intro dbind_returns put_cell_returns)
qed simp

lemma hash_items_returns:
  assumes "consuming dec" and "returns_below m dec" and "length c < m"
  shows "hash_items dec a n c st \<noteq> None"
  using assms(3)
proof (induction n arbitrary: c st)
  case (Suc n)
  have r: "dec c st \<noteq> None" using assms(2) Suc.prems by (simp add: returns_below_def)
  have r1: "dec c1 st1 \<noteq> None" if "dec c st = Some (Inr (k, c1, st1))" for k c1 st1
  proof -
    have "length c1 < length c" using assms(1) that unfolding consuming_def by blast
    then show ?thesis using assms(2) Suc.prems by (simp add: returns_below_def)
  qed
  have "hash_items dec a n c3 st3 \<noteq> None"
    if "dec c st = Some (Inr (k, c1, st1))" "dec c1 st1 = Some (Inr (v, c2, st2))"
      "put_cell a k v c2 st2 = Some (Inr (u, c3, st3))" for k v u c1 st1 c2 st2 c3 st3
  proof -
    have "length c1 < length c" "length c2 < length c1" using consumingD [OF assms(1)] that by blast+
    then have "length c3 < length c" using put_cell_rest [OF that(3)] by simp
    with Suc.prems show ?thesis by (intro Suc.IH) simp
  qed
  with r r1 show ?case unfolding hash_items.simps by (intro dbind_returns put_cell_returns)
qed simp

lemma take_num_returns: "take_num k c st \<noteq> None" and take_raw_returns: "take_raw k c st \<noteq> None"
  by (simp_all add: take_num_def take_raw_def)

lemma returns_num:
  assumes "\<And>n c' st. length c' \<le> length c \<Longrightarrow> f n c' st \<noteq> None"
  shows "dbind (take_num k c st) f \<noteq> None"
  using assms take_num_returns [of k c st] take_num_leaves [of c k st] by (auto simp: dbind_None leaves_def)

lemma decode_returns_below: "returns_below d (mp_decode_to_lua_type d)"
proof (induction d)
  case 0
  show ?case by (simp add: returns_below_def)
next
  case (Suc d)
  let ?dec = "mp_decode_to_lua_type d"
  have arr: "mp_decode_to_lua_array ?dec n c st \<noteq> None" and hash: "mp_decode_to_lua_hash ?dec n c st \<noteq> None"
    if "length c < d" for n c st
    using array_items_returns [OF decode_consuming Suc that] hash_items_returns [OF decode_consuming Suc that]
    by (simp_all add: mp_decode_to_lua_array_def mp_decode_to_lua_hash_def dbind_None)
  have "decode_step ?dec b c st \<noteq> None" if "length c < d" for b c st
    by (rule decode_step_rel [where R = "\<lambda>r r'. r \<noteq> None" and d' = ?dec])
      (use that in \<open>auto intro!: returns_num arr hash take_raw_returns simp del: not_None_eq\<close>)
  then show ?case by (auto simp: returns_below_def split: list.split)
qed

section \<open>More depth changes nothing\<close>

definition fuel_below :: "'a dres \<Rightarrow> 'a dres \<Rightarrow> bool" where
  "fuel_below r r' \<longleftrightarrow> r = None \<or> r = r'"

lemma fuel_below_refl [simp]: "fuel_below r r"
  by (simp add: fuel_below_def)

lemma fuel_below_dbind: "fuel_below r r' \<Longrightarrow> (\<And>v c st. fuel_below (f v c st) (f' v c st)) \<Longrightarrow> fuel_below (dbind r f) (dbind r' f')"
  unfolding fuel_below_def by (auto simp: dbind_def split: option.split sum.split)

lemma array_items_fuel_below:
  "(\<And>c st. fuel_below (d c st) (d' c st)) \<Longrightarrow> fuel_below (array_items d a i n c st) (array_items d' a i n c st)"
  by (induction n arbitrary: i c st) (auto intro!: fuel_below_dbind)

lemma hash_items_fuel_below:
  "(\<And>c st. fuel_below (d c st) (d' c st)) \<Longrightarrow> fuel_below (hash_items d a n c st) (hash_items d' a n c st)"
  by (induction n arbitrary: c st) (auto intro!: fuel_below_dbind)

lemma decode_step_fuel_below:
  assumes "\<And>c st. fuel_below (d c st) (d' c st)"
  shows "fuel_below (decode_step d b c st) (decode_step d' b c st)"
proof (rule decode_step_rel)
  show "fuel_below (mp_decode_to_lua_array d l c st) (mp_decode_to_lua_array d' l c st)"
    "fuel_below (mp_decode_to_lua_hash d l c st) (mp_decode_to_lua_hash d' l c st)" for l c st
    unfolding mp_decode_to_lua_array_def mp_decode_to_lua_hash_def
    by (intro fuel_below_dbind array_items_fuel_below hash_items_fuel_below assms fuel_below_refl)+
  show "fuel_below (dbind (take_num k c st) (mp_decode_to_lua_array d)) (dbind (take_num k c st) (mp_decode_to_lua_array d'))"
    "fuel_below (dbind (take_num k c st) (mp_decode_to_lua_hash d)) (dbind (take_num k c st) (mp_decode_to_lua_hash d'))" for k
    unfolding mp_decode_to_lua_array_def mp_decode_to_lua_hash_def
    by (intro fuel_below_dbind array_items_fuel_below hash_items_fuel_below assms fuel_below_refl)+
qed simp_all

lemma decode_fuel_below: "m \<le> n \<Longrightarrow> fuel_below (mp_decode_to_lua_type m c st) (mp_decode_to_lua_type n c st)"
proof (induction m arbitrary: n c st)
  case 0
  show ?case by (simp add: fuel_below_def)
next
  case (Suc m)
  then obtain n' where "n = Suc n'" "m \<le> n'" by (cases n) auto
  then show ?case using decode_step_fuel_below [OF Suc.IH] by (auto split: list.split)
qed

lemma decode_depth:
  assumes "mp_decode_to_lua_type m c st = Some r" and "length c < n"
  shows "mp_decode_to_lua_type n c st = Some r"
proof -
  have "mp_decode_to_lua_type n c st \<noteq> None" using decode_returns_below assms(2) by (simp add: returns_below_def)
  moreover have "fuel_below (mp_decode_to_lua_type m c st) (mp_decode_to_lua_type n c st)
      \<or> fuel_below (mp_decode_to_lua_type n c st) (mp_decode_to_lua_type m c st)"
    using decode_fuel_below [of m n] decode_fuel_below [of n m] nat_le_linear [of m n] by blast
  ultimately show ?thesis using assms(1) unfolding fuel_below_def by (metis option.distinct(1))
qed

section \<open>The loop\<close>

lemma unpack_loop_returns: "length c < f \<Longrightarrow> unpack_loop f limit c st \<noteq> None"
proof (induction f arbitrary: limit c st)
  case (Suc f)
  let ?r = "mp_decode_to_lua_type (Suc (length c)) c st"
  have r: "?r \<noteq> None" using decode_returns_below [of "Suc (length c)"] unfolding returns_below_def by blast
  have l: "unpack_loop f (limit - 1) c' st' \<noteq> None" if "?r = Some (Inr (v, c', st'))" for v c' st'
    using consumingD [OF decode_consuming that] Suc.prems by (intro Suc.IH) simp
  have "dbind ?r (\<lambda>v c st. dbind (unpack_loop f (limit - 1) c st) (\<lambda>vs c st. Some (Inr (v # vs, c, st)))) \<noteq> None"
    using r l unfolding dbind_None by blast
  then show ?case unfolding unpack_loop.simps by simp
qed simp

end
