(* ===== verification/XMsgpackEnc.thy ===== *)
theory XMsgpackEnc
  imports XMsgpackDec
begin

text \<open>
  The encoder writes what the format says (\<open>wire\<close>), and the decoder reads every scalar and header that the
  encoder writes.
\<close>

section \<open>What is written\<close>

fun plain_code :: "lval \<Rightarrow> bytes" where
  "plain_code (L_str s) = bytes_header (length s) @ s"
| "plain_code (L_bool b) = [if b then 0xc3 else 0xc2]"
| "plain_code (L_int n) = int_code n"
| "plain_code (L_num d) = (case double_to_int d of Some i \<Rightarrow> int_code (word_of_int i) | None \<Rightarrow> double_code d)"
| "plain_code _ = [0xc0]"

definition table_code :: "(ltable \<Rightarrow> nat) \<Rightarrow> (lval \<Rightarrow> bytes) \<Rightarrow> ltable \<Rightarrow> bytes" where
  "table_code border w t =
     (if table_is_an_array t
      then array_code (border t) @ concat (map (\<lambda>j. w (lua_gettable t (L_int (of_nat j)))) [1..<border t + 1])
      else map_code (length t) @ concat (map (\<lambda>(k, v). w k @ w v) t))"

primrec wire :: "(ltable \<Rightarrow> nat) \<Rightarrow> lheap \<Rightarrow> nat \<Rightarrow> lval \<Rightarrow> bytes" where
  "wire border H 0 = plain_code"
| "wire border H (Suc r) = (\<lambda>v. case v of L_table a \<Rightarrow> table_code border (wire border H r) (H a) | _ \<Rightarrow> plain_code v)"

text \<open>\<open>f\<close> appends \<open>bs\<close>, and does so when the buffer stays below \<open>2^62\<close> bytes and memory is there.\<close>

definition appends :: "alloc \<Rightarrow> (mp_buf \<Rightarrow> mp_buf option) \<Rightarrow> bytes \<Rightarrow> bool" where
  "appends A f bs \<longleftrightarrow>
     (\<forall>buf buf'. f buf = Some buf' \<longrightarrow> mb_bytes buf' = mb_bytes buf @ bs)
     \<and> ((\<forall>n. A n) \<longrightarrow> (\<forall>buf. length (mb_bytes buf) + length bs < 2 ^ 62 \<longrightarrow> f buf \<noteq> None))"

lemma appends_append: "appends A (mp_buf_append A bs) bs"
  by (auto simp: appends_def mp_buf_append_def Let_def split: if_splits)

lemma appends_bind:
  assumes "appends A f bs" and "appends A g cs"
  shows "appends A (\<lambda>buf. Option.bind (f buf) g) (bs @ cs)"
  unfolding appends_def
proof (intro conjI allI impI)
  fix buf buf' :: mp_buf
  assume "Option.bind (f buf) g = Some buf'"
  then obtain b1 where "f buf = Some b1" "g b1 = Some buf'" by (auto simp: bind_eq_Some_conv)
  then show "mb_bytes buf' = mb_bytes buf @ bs @ cs" using assms by (simp add: appends_def)
next
  fix buf :: mp_buf
  assume A: "\<forall>n. A n" and l: "length (mb_bytes buf) + length (bs @ cs) < 2 ^ 62"
  then have "f buf \<noteq> None" using assms(1) by (simp add: appends_def)
  then obtain b1 where b1: "f buf = Some b1" by blast
  then have "mb_bytes b1 = mb_bytes buf @ bs" using assms(1) by (simp add: appends_def)
  then have "g b1 \<noteq> None" using assms(2) A l by (simp add: appends_def)
  then show "Option.bind (f buf) g \<noteq> None" using b1 by simp
qed

lemma appends_each:
  assumes "\<And>x. x \<in> set xs \<Longrightarrow> appends A (f x) (w x)"
  shows "appends A (each f xs) (concat (map w xs))"
  using assms
proof (induction xs)
  case Nil
  show ?case by (simp add: appends_def)
next
  case (Cons x xs)
  then have "appends A (\<lambda>buf. Option.bind (f x buf) (each f xs)) (w x @ concat (map w xs))"
    by (intro appends_bind) auto
  then show ?case by (simp add: appends_def)
qed

lemma encode_plain_appends: "appends A (encode_plain A v) (plain_code v)"
proof (cases v)
  case (L_str s)
  have "appends A (mp_encode_bytes A s) (bytes_header (length s) @ s)"
    using appends_bind [OF appends_append appends_append] by (simp add: mp_encode_bytes_def [abs_def])
  with L_str show ?thesis by (simp add: appends_def)
next
  case (L_num d)
  then show ?thesis using appends_append
    by (simp add: appends_def mp_encode_lua_number_def mp_encode_double_def mp_encode_int_def split: option.split)
qed (use appends_append in \<open>simp_all add: appends_def mp_encode_lua_bool_def mp_encode_int_def mp_encode_lua_null_def\<close>)

lemma encode_table_appends:
  assumes "\<And>v. appends A (enc v) (w v)"
  shows "appends A (mp_encode_lua_table A border enc t) (table_code border w t)"
proof -
  have "appends A (mp_encode_lua_table_as_array A border enc t)
      (array_code (border t) @ concat (map (\<lambda>j. w (lua_gettable t (L_int (of_nat j)))) [1..<border t + 1]))"
    unfolding mp_encode_lua_table_as_array_def [abs_def] mp_encode_array_def
    by (intro appends_bind appends_append appends_each assms)
  moreover have "appends A (\<lambda>buf. Option.bind (enc k buf) (enc v)) (w k @ w v)" for k v
    by (intro appends_bind assms)
  then have "appends A (mp_encode_lua_table_as_map A enc t) (map_code (length t) @ concat (map (\<lambda>(k, v). w k @ w v) t))"
    unfolding mp_encode_lua_table_as_map_def [abs_def] mp_encode_map_def
    by (intro appends_bind appends_append appends_each) (simp split: prod.split)
  ultimately show ?thesis by (simp add: mp_encode_lua_table_def [abs_def] table_code_def)
qed

lemma encode_appends: "appends A (mp_encode_lua_type A border H r v) (wire border H r v)"
proof (induction r arbitrary: v)
  case 0
  then show ?case by (simp add: encode_plain_appends)
next
  case (Suc r)
  then show ?case using encode_plain_appends [of A v] encode_table_appends 
    by (cases v) (simp_all del: encode_plain.simps plain_code.simps)
qed

lemma pack_args_wire:
  "pack_args A border H vs buf = Some bs \<Longrightarrow> mb_bytes buf = []
     \<Longrightarrow> bs = concat (map (wire border H LUACMSGPACK_MAX_NESTING) vs)"
proof (induction vs arbitrary: buf bs)
  case (Cons v vs)
  from Cons.prems obtain b1 cs where b: "mp_encode_lua_type A border H LUACMSGPACK_MAX_NESTING v buf = Some b1"
    "pack_args A border H vs \<lparr>mb_bytes = [], mb_free = mb_free b1 + length (mb_bytes b1)\<rparr> = Some cs"
    "bs = mb_bytes b1 @ cs"
    by (auto simp: bind_eq_Some_conv)
  moreover have "mb_bytes b1 = wire border H LUACMSGPACK_MAX_NESTING v"
    using encode_appends [of A border H LUACMSGPACK_MAX_NESTING v] b(1) Cons.prems(2) by (simp add: appends_def)
  ultimately show ?case using Cons.IH [OF b(2)] by simp
qed simp

lemma pack_args_succeeds:
  assumes "\<forall>n. A n" and "length (concat (map (wire border H LUACMSGPACK_MAX_NESTING) vs)) < 2 ^ 62"
    and "mb_bytes buf = []"
  shows "pack_args A border H vs buf \<noteq> None"
  using assms(2,3)
proof (induction vs arbitrary: buf)
  case (Cons v vs)
  have "mp_encode_lua_type A border H LUACMSGPACK_MAX_NESTING v buf \<noteq> None"
    using encode_appends [of A border H LUACMSGPACK_MAX_NESTING v] assms(1) Cons.prems by (simp add: appends_def)
  then obtain b1 where "mp_encode_lua_type A border H LUACMSGPACK_MAX_NESTING v buf = Some b1" by blast
  moreover have "pack_args A border H vs \<lparr>mb_bytes = [], mb_free = mb_free b1 + length (mb_bytes b1)\<rparr> \<noteq> None"
    using Cons.prems(1) by (intro Cons.IH) simp_all
  ultimately show ?case by auto
qed simp

section \<open>Reading numbers\<close>

lemma take_num_be [simp]: "take_num k (be_bytes k n @ rest) st = Some (Inr (n mod 256 ^ k, rest, st))"
  by (simp add: take_num_def be_value_bytes)

lemma take_num_byte [simp]: "take_num (Suc 0) (b # rest) st = Some (Inr (unat b, rest, st))"
  by (simp add: take_num_def be_value_def)

lemma take_raw_append [simp]: "take_raw (length s) (s @ rest) st = give (L_str s) rest st"
  by (simp add: take_raw_def)

lemma be_bytes_1: "be_bytes 1 n = [of_nat (n mod 256)]"
  by simp

lemma sint_ucast:
  fixes n :: u64
  assumes "- (2 ^ (LENGTH('a::len) - 1)) \<le> sint n" and "sint n < 2 ^ (LENGTH('a) - 1)" and "LENGTH('a) \<le> 64"
  shows "sint (ucast n :: 'a word) = sint n"
  using assms
proof transfer
  fix n :: int
  let ?k = "LENGTH('a) - 1"
  let ?m = "signed_take_bit 63 n"
  assume a: "- (2 ^ ?k) \<le> signed_take_bit (LENGTH(64) - Suc 0) n" "signed_take_bit (LENGTH(64) - Suc 0) n < 2 ^ ?k"
    "LENGTH('a) \<le> 64"
  then have m: "- (2 ^ ?k) \<le> ?m" "?m < 2 ^ ?k" "?k \<le> 63" by simp_all
  have "signed_take_bit ?k n = signed_take_bit ?k ?m" using m(3) by (simp add: min_def)
  also have "\<dots> = ?m" using m(1,2) by (rule signed_take_bit_int_eq_self)
  finally have "signed_take_bit (LENGTH('a) - Suc 0) n = ?m" by simp
  with a(3) show "signed_take_bit (LENGTH('a) - Suc 0) (take_bit LENGTH(64) n) = signed_take_bit (LENGTH(64) - Suc 0) n"
    by (simp add: signed_take_bit_take_bit)
qed

lemma sint_cut:
  fixes n :: u64
  assumes "- (2 ^ (LENGTH('a::len) - 1)) \<le> sint n" and "sint n < 2 ^ (LENGTH('a) - 1)" and "LENGTH('a) \<le> 64"
  shows "scast (ucast n :: 'a word) = n"
proof -
  have "scast (ucast n :: 'a word) = (word_of_int (sint (ucast n :: 'a word)) :: u64)" by simp
  also have "\<dots> = n" unfolding sint_ucast [OF assms] by simp
  finally show ?thesis .
qed

text \<open>The first bytes that have a meaning of their own.\<close>

definition special :: bytes where
  "special = [0xcc, 0xd0, 0xcd, 0xd1, 0xce, 0xd2, 0xcf, 0xd3, 0xc0, 0xc3, 0xc2, 0xca, 0xcb, 0xd9, 0xda, 0xdb,
              0xdc, 0xdd, 0xde, 0xdf]"

lemma special_bits: "\<forall>b \<in> set special. b AND 0xe0 = 0xc0"
  by code_simp

lemma decode_other:
  assumes "b AND 0xe0 \<noteq> 0xc0"
  shows "decode_step dec b c st =
     (if b AND 0x80 = 0 then give (L_int (ucast b)) c st
      else if b AND 0xe0 = 0xe0 then give (L_int (scast b)) c st
      else if b AND 0xe0 = 0xa0 then take_raw (unat (b AND 0x1f)) c st
      else if b AND 0xf0 = 0x90 then mp_decode_to_lua_array dec (unat (b AND 0xf)) c st
      else if b AND 0xf0 = 0x80 then mp_decode_to_lua_hash dec (unat (b AND 0xf)) c st
      else Some (Inl MP_CUR_ERROR_BADFMT))"
proof -
  have "b \<notin> set special" using special_bits assms by blast
  then show ?thesis by (simp add: special_def decode_step_def)
qed

lemma fix_codes:
  "\<forall>l \<in> set [0..<128]. (of_nat l :: u8) AND 0xe0 \<noteq> 0xc0 \<and> (of_nat l :: u8) AND 0x80 = 0"
  "\<forall>l \<in> set [224..<256]. (of_nat l :: u8) AND 0x80 \<noteq> 0
     \<and> (of_nat l :: u8) AND 0xe0 = 0xe0"
  "\<forall>l \<in> set [0..<32]. (0xa0 OR of_nat l :: u8) AND 0x80 \<noteq> 0
     \<and> (0xa0 OR of_nat l :: u8) AND 0xe0 = 0xa0 \<and> unat ((0xa0 OR of_nat l :: u8) AND 0x1f) = l"
  "\<forall>l \<in> set [0..<16]. (0x90 OR of_nat l :: u8) AND 0x80 \<noteq> 0
     \<and> (0x90 OR of_nat l :: u8) AND 0xe0 = 0x80 \<and> (0x90 OR of_nat l :: u8) AND 0xf0 = 0x90
     \<and> unat ((0x90 OR of_nat l :: u8) AND 0xf) = l"
  "\<forall>l \<in> set [0..<16]. (0x80 OR of_nat l :: u8) AND 0x80 \<noteq> 0
     \<and> (0x80 OR of_nat l :: u8) AND 0xe0 = 0x80 \<and> (0x80 OR of_nat l :: u8) AND 0xf0 = 0x80
     \<and> unat ((0x80 OR of_nat l :: u8) AND 0xf) = l"
  by code_simp+

lemma decode_posfix: "l < 128 \<Longrightarrow> decode_step dec (of_nat l) c st = give (L_int (ucast (of_nat l :: u8))) c st"
  using bspec [OF fix_codes(1), of l] by (simp add: decode_other)

lemma decode_negfix:
  assumes "224 \<le> l" and "l < 256"
  shows "decode_step dec (of_nat l) c st = give (L_int (scast (of_nat l :: u8))) c st"
proof -
  have bits: "(of_nat l :: u8) AND 0x80 \<noteq> 0" "(of_nat l :: u8) AND 0xe0 = 0xe0"
    using bspec [OF fix_codes(2), of l] assms unfolding set_upt atLeastLessThan_iff by blast+
  then have "(of_nat l :: u8) AND 0xe0 \<noteq> 0xc0" by simp
  from decode_other [OF this] bits show ?thesis by (simp only: if_False if_True simp_thms)
qed

lemma decode_fixraw: "l < 32 \<Longrightarrow> decode_step dec (0xa0 OR of_nat l) c st = take_raw l c st"
  using bspec [OF fix_codes(3), of l] by (simp add: decode_other)

lemma decode_fixarray: "l < 16 \<Longrightarrow> decode_step dec (0x90 OR of_nat l) c st = mp_decode_to_lua_array dec l c st"
  using bspec [OF fix_codes(4), of l] by (simp add: decode_other)

lemma decode_fixmap: "l < 16 \<Longrightarrow> decode_step dec (0x80 OR of_nat l) c st = mp_decode_to_lua_hash dec l c st"
  using bspec [OF fix_codes(5), of l] by (simp add: decode_other)

lemma decode_ints:
  "decode_step dec 0xcc c st = dbind (take_num 1 c st) (\<lambda>n. give (L_int (of_nat n)))"
  "decode_step dec 0xd0 c st = dbind (take_num 1 c st) (\<lambda>n. give (L_int (scast (of_nat n :: u8))))"
  "decode_step dec 0xcd c st = dbind (take_num 2 c st) (\<lambda>n. give (L_int (of_nat n)))"
  "decode_step dec 0xd1 c st = dbind (take_num 2 c st) (\<lambda>n. give (L_int (scast (of_nat n :: u16))))"
  by (simp_all add: decode_step_def)

lemma decode_wide_ints:
  "decode_step dec 0xce c st = dbind (take_num 4 c st) (\<lambda>n. give (L_int (of_nat n)))"
  "decode_step dec 0xd2 c st = dbind (take_num 4 c st) (\<lambda>n. give (L_int (scast (of_nat n :: u32))))"
  "decode_step dec 0xcf c st = dbind (take_num 8 c st) (\<lambda>n. give (L_int (of_nat n)))"
  "decode_step dec 0xd3 c st = dbind (take_num 8 c st) (\<lambda>n. give (L_int (of_nat n)))"
  by (simp_all add: decode_step_def)

lemma decode_constants:
  "decode_step dec 0xc0 c st = give L_nil c st"
  "decode_step dec 0xc3 c st = give (L_bool True) c st"
  "decode_step dec 0xc2 c st = give (L_bool False) c st"
  "decode_step dec 0xca c st = dbind (take_num 4 c st) (\<lambda>n. give (L_num (double_of_float (of_nat n))))"
  by (simp_all add: decode_step_def)

lemma decode_strings:
  "decode_step dec 0xcb c st = dbind (take_num 8 c st) (\<lambda>n. give (L_num (of_nat n)))"
  "decode_step dec 0xd9 c st = dbind (take_num 1 c st) take_raw"
  "decode_step dec 0xda c st = dbind (take_num 2 c st) take_raw"
  "decode_step dec 0xdb c st = dbind (take_num 4 c st) take_raw"
  by (simp_all add: decode_step_def)

lemma decode_tables:
  "decode_step dec 0xdc c st = dbind (take_num 2 c st) (mp_decode_to_lua_array dec)"
  "decode_step dec 0xdd c st = dbind (take_num 4 c st) (mp_decode_to_lua_array dec)"
  "decode_step dec 0xde c st = dbind (take_num 2 c st) (mp_decode_to_lua_hash dec)"
  "decode_step dec 0xdf c st = dbind (take_num 4 c st) (mp_decode_to_lua_hash dec)"
  by (simp_all add: decode_step_def)

lemmas decode_special = decode_ints decode_wide_ints decode_constants decode_strings decode_tables

section \<open>Reading what was written\<close>

lemma of_nat_cut: "(of_nat (unat n mod 2 ^ LENGTH('a)) :: 'a::len word) = ucast (n :: u64)"
  by (rule unsigned_word_eqI [where 'a = nat]) (simp add: unsigned_of_nat unsigned_ucast_eq flip: take_bit_eq_mod)

text \<open>What one round of the decoder makes of an encoding.\<close>

abbreviation decodes :: "(bytes \<Rightarrow> dstate \<Rightarrow> lval dres) \<Rightarrow> bytes \<Rightarrow> bytes \<Rightarrow> dstate \<Rightarrow> lval dres \<Rightarrow> bool" where
  "decodes dec bs rest st r \<equiv> (case bs @ rest of [] \<Rightarrow> False | b # c \<Rightarrow> decode_step dec b c st = r)"

lemma sint_cases:
  fixes n :: u64
  shows "0 \<le> sint n \<Longrightarrow> sint n = int (unat n)" and "sint n < 0 \<Longrightarrow> int (unat n) = 2 ^ 64 + sint n"
proof -
  have "int (unat n) = sint n mod 2 ^ 64"
    using uint_sint [of n] by (simp add: take_bit_eq_mod)
  moreover have "sint n < 2 ^ 63" "- (2 ^ 63) \<le> sint n" using sint_lt [of n] sint_ge [of n] by simp_all
  moreover have "sint n mod 2 ^ 64 = (2 ^ 64 + sint n) mod 2 ^ 64" by (rule mod_add_self1 [symmetric])
  ultimately show "0 \<le> sint n \<Longrightarrow> sint n = int (unat n)" "sint n < 0 \<Longrightarrow> int (unat n) = 2 ^ 64 + sint n"
    by (simp_all add: mod_pos_pos_trivial del: mod_add_self1)
qed

lemma int_code_nonneg:
  assumes "0 \<le> sint n"
  shows "int_code n =
     (if unat n \<le> 127 then be_bytes 1 (unat n)
      else if unat n \<le> 0xff then 0xcc # be_bytes 1 (unat n)
      else if unat n \<le> 0xffff then 0xcd # be_bytes 2 (unat n)
      else if unat n \<le> 0xffffffff then 0xce # be_bytes 4 (unat n)
      else 0xcf # be_bytes 8 (unat n))"
  unfolding int_code_def sint_cases(1) [OF assms]
  by (simp del: be_bytes.simps of_nat_unat cong: if_cong)

lemma decode_int: "decodes dec (int_code n) rest st (give (L_int n) rest st)"
proof (cases "0 \<le> sint n")
  case True
  note s = sint_cases(1) [OF True]
  have big: "unat n < 2 ^ 64" using unsigned_less [of n, where ?'a = nat] by simp
  consider "unat n < 128" | "128 \<le> unat n" "unat n \<le> 0xff" | "0xff < unat n" "unat n \<le> 0xffff"
    | "0xffff < unat n" "unat n \<le> 0xffffffff" | "0xffffffff < unat n"
    by linarith
  then show ?thesis
  proof cases
    case 1
    then have "ucast (of_nat (unat n) :: u8) = n" 
      by (intro unsigned_word_eqI [where 'a = nat]) (simp add: unsigned_ucast_eq unsigned_take_bit_eq take_bit_nat_eq_self)
    then show ?thesis using 1 int_code_nonneg [OF True] decode_posfix [of "unat n"] by (simp add: be_bytes_1)
  qed (use int_code_nonneg [OF True] big in \<open>simp_all add: decode_special unsigned_ucast_eq unsigned_take_bit_eq take_bit_nat_eq_self\<close>)
next
  case False
  then have s: "int (unat n) = 2 ^ 64 + sint n" by (intro sint_cases(2)) simp
  consider "-32 \<le> sint n" | "-128 \<le> sint n" "sint n < -32" | "-32768 \<le> sint n" "sint n < -128"
    | "-2147483648 \<le> sint n" "sint n < -32768" | "sint n < -2147483648"
    by linarith
  then show ?thesis
  proof cases
    case 1
    have "int (unat n) = (256 + sint n) + int (256 * 72057594037927935)" using s by (simp del: of_nat_unat)
    then have "unat n = nat (256 + sint n) + 256 * 72057594037927935" "nat (256 + sint n) < 256"
      using 1 False by linarith+
    then have m: "unat n mod 256 = nat (256 + sint n)" by (simp only: mod_mult_self2 mod_less)
    have "scast (ucast n :: u8) = n" using 1 False by (intro sint_cut) simp_all
    then have "scast (of_nat (nat (256 + sint n)) :: u8) = n" using of_nat_cut [where 'a = 8, of n] m by simp
    with 1 False m show ?thesis using decode_negfix [of "nat (256 + sint n)" dec rest st]
      by (simp add: int_code_def be_bytes_1)
  next
    case 2
    then have "scast (ucast n :: u8) = n" by (intro sint_cut) simp_all
    with 2 False show ?thesis using of_nat_cut [where 'a = 8, of n] by (simp add: int_code_def decode_special)
  next
    case 3
    then have "scast (ucast n :: u16) = n" by (intro sint_cut) simp_all
    with 3 False show ?thesis using of_nat_cut [where 'a = 16, of n] by (simp add: int_code_def decode_special)
  next
    case 4
    then have "scast (ucast n :: u32) = n" by (intro sint_cut) simp_all
    with 4 False show ?thesis using of_nat_cut [where 'a = 32, of n] by (simp add: int_code_def decode_special)
  next
    case 5
    have "unat n < 2 ^ 64" using unsigned_less [of n, where ?'a = nat] by simp
    with 5 show ?thesis by (simp add: int_code_def decode_special)
  qed
qed

lemma decode_double: "decodes dec (double_code d) rest st (give (L_num d) rest st)"
proof (cases "float_of_double d")
  case None
  have "unat d < 2 ^ 64" using unsigned_less [of d, where ?'a = nat] by simp
  with None show ?thesis by (simp add: double_code_def decode_special)
next
  case (Some f)
  have "unat f < 2 ^ 32" using unsigned_less [of f, where ?'a = nat] by simp
  with Some double_of_float_exact [OF Some] show ?thesis by (simp add: double_code_def decode_special)
qed

lemma decode_string:
  assumes "length s < 2 ^ 32"
  shows "decodes dec (bytes_header (length s) @ s) rest st (give (L_str s) rest st)"
proof -
  consider "length s < 32" | "32 \<le> length s" "length s \<le> 0xff" | "0xff < length s" "length s \<le> 0xffff" | "0xffff < length s"
    by linarith
  then show ?thesis
    by cases (use assms in \<open>simp_all add: bytes_header_def decode_fixraw decode_special unsigned_of_nat take_bit_nat_eq_self\<close>)
qed

lemma decode_array_header:
  assumes "n < 2 ^ 32"
  shows "decodes dec (array_code n) rest st (mp_decode_to_lua_array dec n rest st)"
proof -
  consider "n \<le> 15" | "15 < n" "n \<le> 65535" | "65535 < n" by linarith
  then show ?thesis
    by cases (use assms in \<open>simp_all add: array_code_def decode_fixarray decode_special\<close>)
qed

lemma decode_map_header:
  assumes "n < 2 ^ 32"
  shows "decodes dec (map_code n) rest st (mp_decode_to_lua_hash dec n rest st)"
proof -
  consider "n \<le> 15" | "15 < n" "n \<le> 65535" | "65535 < n" by linarith
  then show ?thesis
    by cases (use assms in \<open>simp_all add: map_code_def decode_fixmap decode_special\<close>)
qed

end
