(* ===== verification/XMsgpackProps.thy ===== *)
theory XMsgpackProps
  imports XMsgpackEnc
begin

text \<open>
  Unpacking what was packed gives the same values in new tables; unpacking always ends; what the cut of a key
  to \<open>int\<close> does to a table.
\<close>

section \<open>The same value\<close>

text \<open>\<open>v'\<close> in heap \<open>h\<close> is \<open>v\<close> of heap \<open>H\<close>, its tables at addresses from \<open>lo\<close> up to \<open>hi\<close>; a float with an
  integer value may have become the integer.\<close>

primrec same_value :: "nat \<Rightarrow> lheap \<Rightarrow> lheap \<Rightarrow> addr \<Rightarrow> addr \<Rightarrow> lval \<Rightarrow> lval \<Rightarrow> bool" where
  "same_value 0 H h lo hi = (\<lambda>v v'. (case v of L_table a \<Rightarrow> False | _ \<Rightarrow> v' = lua_key v))"
| "same_value (Suc n) H h lo hi = (\<lambda>v v'. (case v of
       L_table a \<Rightarrow> \<exists>a'. v' = L_table a' \<and> lo \<le> a' \<and> a' < hi
         \<and> (\<forall>k. rel_option (same_value n H h lo hi) (map_of (H a) k) (map_of (h a') k))
     | _ \<Rightarrow> v' = lua_key v))"

lemma same_value_frame:
  assumes "same_value n H h lo hi v v'" and "\<And>a. lo \<le> a \<Longrightarrow> a < hi \<Longrightarrow> h' a = h a" and "lo' \<le> lo" and "hi \<le> hi'"
  shows "same_value n H h' lo' hi' v v'"
  using assms(1)
proof (induction n arbitrary: v v')
  case 0
  then show ?case by (cases v) simp_all
next
  case (Suc n)
  show ?case
  proof (cases v)
    case (L_table a)
    then obtain a' where a': "v' = L_table a'" "lo \<le> a'" "a' < hi"
      "\<forall>k. rel_option (same_value n H h lo hi) (map_of (H a) k) (map_of (h a') k)"
      using Suc.prems by auto
    have "rel_option (same_value n H h' lo' hi') (map_of (H a) k) (map_of (h' a') k)" for k
      using a'(4) [rule_format, of k] assms(2) [OF a'(2,3)] Suc.IH by (auto elim!: option.rel_mono_strong)
    with a' assms(3,4) L_table show ?thesis by auto
  qed (use Suc.prems in simp_all)
qed

lemma same_value_not_nil: "same_value n H h lo hi v v' \<Longrightarrow> v \<noteq> L_nil \<Longrightarrow> v' \<noteq> L_nil"
  by (cases n; cases v) (auto split: option.splits)

section \<open>Values the format can hold\<close>

fun scalar_ok :: "lval \<Rightarrow> bool" where
  "scalar_ok (L_str s) = (length s < 2 ^ 32)"
| "scalar_ok (L_table a) = False"
| "scalar_ok L_other = False"
| "scalar_ok v = True"

text \<open>Keys: no tables, integers below \<open>2^31\<close>, and as Lua keeps them (no nil, no NaN, no float that is an
  integer).\<close>

definition key_ok :: "lval \<Rightarrow> bool" where
  "key_ok k \<longleftrightarrow> scalar_ok k \<and> k \<noteq> L_nil \<and> \<not> is_nan k \<and> lua_key k = k
     \<and> (case k of L_int n \<Rightarrow> sint n < 2 ^ 31 | _ \<Rightarrow> True)"

primrec packable :: "nat \<Rightarrow> lheap \<Rightarrow> lval \<Rightarrow> bool" where
  "packable 0 H = scalar_ok"
| "packable (Suc n) H = (\<lambda>v. (case v of
       L_table a \<Rightarrow> distinct (map fst (H a)) \<and> length (H a) < 2 ^ 31
         \<and> (\<forall>(k, x) \<in> set (H a). key_ok k \<and> x \<noteq> L_nil \<and> packable n H x)
     | _ \<Rightarrow> scalar_ok v))"

text \<open>What Lua promises of the length of a table.\<close>

definition is_border :: "ltable \<Rightarrow> nat \<Rightarrow> bool" where
  "is_border t n \<longleftrightarrow> n < 2 ^ 63 \<and> (n = 0 \<or> lua_gettable t (L_int (of_nat n)) \<noteq> L_nil)
     \<and> (n = 2 ^ 63 - 1 \<or> lua_gettable t (L_int (of_nat (n + 1))) = L_nil)"

section \<open>Arrays\<close>

lemma array_loop_keys:
  assumes "array_loop es c m" and "0 \<le> sint m" and "unat c + length es < 2 ^ 31"
    and "\<And>n v. (L_int n, v) \<in> set es \<Longrightarrow> sint n < 2 ^ 31"
  shows "sint m \<le> int (unat c + length es)
    \<and> (\<forall>(k, v) \<in> set es. \<exists>n. k = L_int n \<and> 0 < sint n \<and> sint n \<le> int (unat c + length es))"
  using assms
proof (induction es arbitrary: c m)
  case Nil
  then show ?case using sint_small [of c] by simp
next
  case (Cons e es)
  obtain k v where e: "e = (k, v)" by fastforce
  with Cons.prems(1) obtain n where k: "k = L_int n" by (cases k) simp_all
  define m' where "m' = (if sint n > sint m then ucast n else m)"
  have n: "0 < sint n" "array_loop es (c + 1) m'"
    using Cons.prems(1) e k by (auto simp: m'_def not_le split: if_splits)
  have n31: "sint n < 2 ^ 31" using Cons.prems(4) e k by auto
  have cut: "sint (ucast n :: u32) = sint n" by (rule sint_ucast) (use n(1) n31 in simp_all)
  have c: "unat (c + 1) = unat c + 1"
    using Cons.prems(3) by (intro unat_add_lem [THEN iffD1, THEN trans]) simp_all
  have m': "sint m \<le> sint m'" "sint n \<le> sint m'" "0 \<le> sint m'" using cut Cons.prems(2) by (auto simp: m'_def)
  have "sint m' \<le> int (unat (c + 1) + length es)
      \<and> (\<forall>(k, v) \<in> set es. \<exists>n. k = L_int n \<and> 0 < sint n \<and> sint n \<le> int (unat (c + 1) + length es))"
    using Cons.prems(3,4) c by (intro Cons.IH [OF n(2) m'(3)]) auto
  with m' n(1) e k c show ?case by (auto simp del: of_nat_unat)
qed

definition int_key :: "nat \<Rightarrow> lval" where
  "int_key j = L_int (of_nat j)"

lemma int_key_inj: "i < 2 ^ 31 \<Longrightarrow> j < 2 ^ 31 \<Longrightarrow> int_key i = int_key j \<longleftrightarrow> i = j"
  by (simp add: int_key_def word_of_nat_eq_iff take_bit_nat_eq_self)

text \<open>A table the code takes for an array has just the keys 1 to its number of pairs.\<close>

lemma array_keys:
  assumes "table_is_an_array t" and "distinct (map fst t)" and "length t < 2 ^ 31" and "\<forall>(k, x) \<in> set t. key_ok k"
  shows "set (map fst t) = int_key ` {1..length t}"
proof -
  have small: "sint n < 2 ^ 31" if "(L_int n, v) \<in> set t" for n v
    using assms(4) that by (auto simp: key_ok_def)
  have "unat (0 :: u32) + length t < 2 ^ 31" "(0::int) \<le> sint (0 :: u32)" using assms(3) by simp_all
  from array_loop_keys [OF assms(1) [unfolded table_is_an_array_def] this(2,1) small]
  have k: "\<forall>(k, v) \<in> set t. \<exists>n. k = L_int n \<and> 0 < sint n \<and> sint n \<le> int (length t)" by simp
  have sub: "set (map fst t) \<subseteq> int_key ` {1..length t}"
  proof
    fix k
    assume "k \<in> set (map fst t)"
    then obtain n where n: "k = L_int n" "0 < sint n" "sint n \<le> int (length t)" using k by auto
    then have "k = int_key (nat (sint n))" "nat (sint n) \<in> {1..length t}" by (auto simp: int_key_def)
    then show "k \<in> int_key ` {1..length t}" by blast
  qed
  have "inj_on int_key {1..length t}" using assms(3) by (auto intro!: inj_onI simp: int_key_inj)
  then have "card (int_key ` {1..length t}) = length t" by (simp add: card_image)
  moreover have "card (set (map fst t)) = length t" using distinct_card [OF assms(2)] by simp
  ultimately show ?thesis using card_subset_eq [OF _ sub] by simp
qed

lemma gettable_int_key: "lua_gettable t (int_key j) = (case map_of t (int_key j) of Some v \<Rightarrow> v | None \<Rightarrow> L_nil)"
  by (simp add: lua_gettable_def int_key_def)

lemma array_border:
  assumes "set (map fst t) = int_key ` {1..length t}" and "length t < 2 ^ 31" and "\<forall>(k, x) \<in> set t. x \<noteq> L_nil"
    and "is_border t n"
  shows "n = length t"
proof -
  have present: "lua_gettable t (int_key j) \<noteq> L_nil" if "j \<in> {1..length t}" for j
  proof -
    have "int_key j \<in> fst ` set t" using assms(1) that by simp
    then obtain x where "map_of t (int_key j) = Some x" by (metis map_of_eq_None_iff not_None_eq)
    moreover from map_of_SomeD [OF this] assms(3) have "x \<noteq> L_nil" by auto
    ultimately show ?thesis by (simp add: gettable_int_key)
  qed
  have absent: "lua_gettable t (int_key j) = L_nil" if "length t < j" "j < 2 ^ 64" for j
  proof -
    have "int_key j \<noteq> int_key i" if "i \<in> {1..length t}" for i
      using that \<open>length t < j\<close> \<open>j < 2 ^ 64\<close> assms(2) by (auto simp: int_key_def word_of_nat_eq_iff take_bit_nat_eq_self)
    then have "int_key j \<notin> set (map fst t)" unfolding assms(1) by blast
    then have "int_key j \<notin> fst ` set t" by simp
    then have "map_of t (int_key j) = None" by (simp add: map_of_eq_None_iff)
    then show ?thesis by (simp add: gettable_int_key)
  qed
  note b = assms(4) [unfolded is_border_def, folded int_key_def]
  show ?thesis
  proof (rule ccontr)
    assume "n \<noteq> length t"
    then consider "n < length t" | "length t < n" by linarith
    then show False
    proof cases
      case 1
      then have "n + 1 \<in> {1..length t}" "n \<noteq> 2 ^ 63 - 1" using assms(2) by simp_all
      with b present show False by blast
    next
      case 2
      then show False using b absent [of n] by simp
    qed
  qed
qed

lemma array_pairs:
  assumes "set (map fst t) = int_key ` {1..length t}"
  shows "map_of (map (\<lambda>j. (int_key j, lua_gettable t (int_key j))) [1..<length t + 1]) = map_of t"
proof
  fix k
  show "map_of (map (\<lambda>j. (int_key j, lua_gettable t (int_key j))) [1..<length t + 1]) k = map_of t k"
  proof (cases "k \<in> set (map fst t)")
    case True
    then obtain j where j: "k = int_key j" "j \<in> {1..length t}" using assms by auto
    have "fst ` set (map (\<lambda>j. (int_key j, lua_gettable t (int_key j))) [1..<length t + 1]) = int_key ` {1..length t}"
      unfolding set_map set_upt image_image fst_conv by (rule arg_cong [where f = "image int_key"]) auto
    then obtain v where v: "map_of (map (\<lambda>j. (int_key j, lua_gettable t (int_key j))) [1..<length t + 1]) k = Some v"
      using True assms by (metis map_of_eq_None_iff not_None_eq)
    from map_of_SomeD [OF v] have "v = lua_gettable t k" by auto
    moreover obtain x where "map_of t k = Some x" using True by (metis list.set_map map_of_eq_None_iff not_None_eq)
    ultimately show ?thesis using v j by (simp add: gettable_int_key)
  next
    case False
    then have "map_of t k = None" by (simp add: map_of_eq_None_iff)
    moreover have "map_of (map (\<lambda>j. (int_key j, lua_gettable t (int_key j))) [1..<length t + 1]) k = None"
      using False assms by (auto simp: map_of_eq_None_iff)
    ultimately show ?thesis by simp
  qed
qed

section \<open>Filling a table\<close>

text \<open>The table at \<open>a\<close>, the newest but for those made for its values, holds the map \<open>m\<close> so far.\<close>

definition filled :: "nat \<Rightarrow> lheap \<Rightarrow> addr \<Rightarrow> (lval \<Rightarrow> lval option) \<Rightarrow> dstate \<Rightarrow> bool" where
  "filled n H a m st \<longleftrightarrow> a < d_fresh st
     \<and> (\<forall>k. rel_option (same_value n H (d_heap st) (Suc a) (d_fresh st)) (m k) (map_of (d_heap st a) k))"

text \<open>From \<open>st\<close> to \<open>st'\<close> only new tables were made and the table \<open>a\<close> changed.\<close>

definition grows :: "addr set \<Rightarrow> dstate \<Rightarrow> dstate \<Rightarrow> bool" where
  "grows A st st' \<longleftrightarrow> d_fresh st \<le> d_fresh st' \<and> (\<forall>b < d_fresh st. b \<notin> A \<longrightarrow> d_heap st' b = d_heap st b)"

lemma grows_trans: "grows A st st1 \<Longrightarrow> grows A st1 st2 \<Longrightarrow> grows A st st2"
  by (auto simp: grows_def)

lemma grows_mono: "grows A st st' \<Longrightarrow> A \<subseteq> B \<Longrightarrow> grows B st st'"
  by (auto simp: grows_def)

lemma grows_refl [simp]: "grows A st st"
  by (simp add: grows_def)

text \<open>\<open>bs\<close> is read as \<open>v\<close>.\<close>

definition reads :: "nat \<Rightarrow> lheap \<Rightarrow> (bytes \<Rightarrow> dstate \<Rightarrow> lval dres) \<Rightarrow> bytes \<Rightarrow> lval \<Rightarrow> bool" where
  "reads n H dec bs v \<longleftrightarrow> (\<forall>rest st. \<exists>v' st'. dec (bs @ rest) st = give v' rest st' \<and> grows {} st st'
     \<and> same_value n H (d_heap st') (d_fresh st) (d_fresh st') v v')"

lemma readsD:
  assumes "reads n H dec bs v"
  obtains v' st' where "dec (bs @ rest) st = give v' rest st'" and "grows {} st st'"
    and "same_value n H (d_heap st') (d_fresh st) (d_fresh st') v v'"
  using assms unfolding reads_def by blast

lemma filled_grows:
  assumes "filled n H a m st" and "grows {} st st'"
  shows "filled n H a m st'"
proof -
  have g: "d_fresh st \<le> d_fresh st'" "\<And>b. b < d_fresh st \<Longrightarrow> d_heap st' b = d_heap st b"
    using assms(2) by (simp_all add: grows_def)
  have f: "a < d_fresh st" "\<And>k. rel_option (same_value n H (d_heap st) (Suc a) (d_fresh st)) (m k) (map_of (d_heap st a) k)"
    using assms(1) by (simp_all add: filled_def)
  have "rel_option (same_value n H (d_heap st') (Suc a) (d_fresh st')) (m k) (map_of (d_heap st' a) k)" for k
    using f(2) [of k] g f(1) by (auto elim!: option.rel_mono_strong intro: same_value_frame)
  with f(1) g(1) show ?thesis by (simp add: filled_def)
qed

lemma fill_step:
  assumes "filled n H a m st" and "grows {} st st1"
    and "same_value n H (d_heap st1) (d_fresh st) (d_fresh st1) x v" and "x \<noteq> L_nil"
    and "k \<noteq> L_nil" and "\<not> is_nan k" and "lua_key k = k"
  obtains st2 where "put_cell a k v c st1 = Some (Inr ((), c, st2))" and "filled n H a (m(k \<mapsto> x)) st2"
    and "grows {a} st st2"
proof -
  let ?st2 = "st1\<lparr>d_heap := (d_heap st1)(a := AList.update k v (d_heap st1 a))\<rparr>"
  have "v \<noteq> L_nil" using same_value_not_nil [OF assms(3,4)] .
  then have put: "put_cell a k v c st1 = Some (Inr ((), c, ?st2))"
    using assms(5-7) by (simp add: put_cell_def lua_settable_def)
  have f1: "filled n H a m st1" using filled_grows [OF assms(1,2)] .
  have a: "a < d_fresh st" using assms(1) by (simp add: filled_def)
  have frame: "same_value n H (d_heap ?st2) (Suc a) (d_fresh st1) y y'"
    if "same_value n H (d_heap st1) lo (d_fresh st1) y y'" "Suc a \<le> lo" for y y' lo
    by (rule same_value_frame [OF that(1)]) (use that(2) in auto)
  have "rel_option (same_value n H (d_heap ?st2) (Suc a) (d_fresh ?st2)) ((m(k \<mapsto> x)) j) (map_of (d_heap ?st2 a) j)" for j
  proof (cases "j = k")
    case True
    have "same_value n H (d_heap ?st2) (Suc a) (d_fresh st1) x v" using frame [OF assms(3)] a by simp
    with True show ?thesis by (simp add: update_conv)
  next
    case False
    have "rel_option (same_value n H (d_heap st1) (Suc a) (d_fresh st1)) (m j) (map_of (d_heap st1 a) j)"
      using f1 by (simp add: filled_def)
    then have "rel_option (same_value n H (d_heap ?st2) (Suc a) (d_fresh st1)) (m j) (map_of (d_heap st1 a) j)"
      by (rule option.rel_mono_strong) (use frame in blast)
    with False show ?thesis by (simp add: update_conv)
  qed
  moreover have "a < d_fresh ?st2" using f1 by (simp add: filled_def)
  ultimately have "filled n H a (m(k \<mapsto> x)) ?st2" by (simp add: filled_def)
  moreover have "grows {a} st ?st2" using assms(2) by (simp add: grows_def)
  ultimately show thesis using that put by blast
qed

lemma array_items_fill:
  assumes "filled n H a m st" and "\<forall>x \<in> set xs. x \<noteq> L_nil \<and> reads n H dec (w x) x"
  shows "\<exists>st'. array_items dec a i (length xs) (concat (map w xs) @ rest) st = Some (Inr ((), rest, st'))
    \<and> grows {a} st st' \<and> filled n H a (m ++ map_of (rev (zip (map int_key [i..<i + length xs]) xs))) st'"
  using assms
proof (induction xs arbitrary: i m st)
  case Nil
  then show ?case by simp
next
  case (Cons x xs)
  have x: "x \<noteq> L_nil" "reads n H dec (w x) x" and r: "\<forall>x \<in> set xs. x \<noteq> L_nil \<and> reads n H dec (w x) x"
    using Cons.prems(2) by simp_all
  obtain v st1 where v: "dec (w x @ concat (map w xs) @ rest) st = give v (concat (map w xs) @ rest) st1" "grows {} st st1"
    "same_value n H (d_heap st1) (d_fresh st) (d_fresh st1) x v"
    using readsD [OF x(2)] .
  obtain st2 where st2: "put_cell a (int_key i) v (concat (map w xs) @ rest) st1 = Some (Inr ((), concat (map w xs) @ rest, st2))"
    "filled n H a (m(int_key i \<mapsto> x)) st2" "grows {a} st st2"
    using fill_step [OF Cons.prems(1) v(2,3) x(1), of "int_key i"] by (auto simp: int_key_def)
  obtain st3 where st3: "array_items dec a (i + 1) (length xs) (concat (map w xs) @ rest) st2 = Some (Inr ((), rest, st3))"
    "grows {a} st2 st3"
    "filled n H a (m(int_key i \<mapsto> x) ++ map_of (rev (zip (map int_key [i + 1..<i + 1 + length xs]) xs))) st3"
    using Cons.IH [OF st2(2) r, of "i + 1"] by blast
  have "array_items dec a i (length (x # xs)) (concat (map w (x # xs)) @ rest) st = Some (Inr ((), rest, st3))"
    using v(1) st2(1) st3(1) by (simp add: int_key_def)
  moreover have "zip (map int_key [i..<i + length (x # xs)]) (x # xs)
      = (int_key i, x) # zip (map int_key [i + 1..<i + 1 + length xs]) xs"
    by (simp add: upt_conv_Cons del: upt_Suc)
  then have "m ++ map_of (rev (zip (map int_key [i..<i + length (x # xs)]) (x # xs)))
      = m(int_key i \<mapsto> x) ++ map_of (rev (zip (map int_key [i + 1..<i + 1 + length xs]) xs))"
    by (simp add: map_of_append del: upt_Suc)
  ultimately show ?case using grows_trans [OF st2(3) st3(2)] st3(3) by metis
qed

lemma hash_items_fill:
  assumes "filled n H a m st"
    and "\<forall>(k, x) \<in> set ps. x \<noteq> L_nil \<and> reads n H dec (w x) x \<and> reads n H dec (w k) k
           \<and> k \<noteq> L_nil \<and> \<not> is_nan k \<and> lua_key k = k \<and> scalar_ok k"
  shows "\<exists>st'. hash_items dec a (length ps) (concat (map (\<lambda>(k, x). w k @ w x) ps) @ rest) st = Some (Inr ((), rest, st'))
    \<and> grows {a} st st' \<and> filled n H a (m ++ map_of (rev ps)) st'"
  using assms
proof (induction ps arbitrary: m st)
  case Nil
  then show ?case by simp
next
  case (Cons p ps)
  obtain k x where p: "p = (k, x)" by fastforce
  let ?rest = "concat (map (\<lambda>(k, x). w k @ w x) ps) @ rest"
  have x: "x \<noteq> L_nil" "reads n H dec (w x) x" and k: "reads n H dec (w k) k" "k \<noteq> L_nil" "\<not> is_nan k"
    "lua_key k = k" "scalar_ok k"
    and r: "\<forall>(k, x) \<in> set ps. x \<noteq> L_nil \<and> reads n H dec (w x) x \<and> reads n H dec (w k) k
           \<and> k \<noteq> L_nil \<and> \<not> is_nan k \<and> lua_key k = k \<and> scalar_ok k"
    using Cons.prems(2) p by auto
  obtain k' st0 where k': "dec (w k @ w x @ ?rest) st = give k' (w x @ ?rest) st0" "grows {} st st0"
    "same_value n H (d_heap st0) (d_fresh st) (d_fresh st0) k k'"
    using readsD [OF k(1)] .
  have "k' = k" using k'(3) k(4,5) by (cases n; cases k) simp_all
  obtain v st1 where v: "dec (w x @ ?rest) st0 = give v ?rest st1" "grows {} st0 st1"
    "same_value n H (d_heap st1) (d_fresh st0) (d_fresh st1) x v"
    using readsD [OF x(2)] .
  have f0: "filled n H a m st0" using filled_grows [OF Cons.prems(1) k'(2)] .
  obtain st2 where st2: "put_cell a k v ?rest st1 = Some (Inr ((), ?rest, st2))"
    "filled n H a (m(k \<mapsto> x)) st2" "grows {a} st0 st2"
    using fill_step [OF f0 v(2,3) x(1) k(2-4)] .
  obtain st3 where st3: "hash_items dec a (length ps) ?rest st2 = Some (Inr ((), rest, st3))" "grows {a} st2 st3"
    "filled n H a (m(k \<mapsto> x) ++ map_of (rev ps)) st3"
    using Cons.IH [OF st2(2) r] by blast
  have "hash_items dec a (length (p # ps)) (concat (map (\<lambda>(k, x). w k @ w x) (p # ps)) @ rest) st = Some (Inr ((), rest, st3))"
    using k'(1) v(1) st2(1) st3(1) \<open>k' = k\<close> by (simp add: p)
  moreover have "m ++ map_of (rev (p # ps)) = m(k \<mapsto> x) ++ map_of (rev ps)" by (simp add: p map_of_append)
  ultimately show ?case
    using grows_trans [OF grows_mono [OF k'(2)] grows_trans [OF st2(3) st3(2)]] st3(3) by (metis empty_subsetI)
qed

section \<open>Reading a value\<close>

lemma decodes_run:
  "decodes (mp_decode_to_lua_type d) bs rest st r \<Longrightarrow> mp_decode_to_lua_type (Suc d) (bs @ rest) st = r"
  by (cases "bs @ rest") (simp_all only: mp_decode_to_lua_type.simps list.case)

lemma plain_run:
  assumes "scalar_ok v"
  shows "mp_decode_to_lua_type (Suc d) (plain_code v @ rest) st = give (lua_key v) rest st"
proof (cases v)
  case (L_bool b)
  then show ?thesis by (simp add: decode_special)
next
  case (L_int i)
  then show ?thesis using decodes_run [OF decode_int] by simp
next
  case (L_num x)
  show ?thesis
    by (cases "double_to_int x") (use L_num decodes_run [OF decode_double] decodes_run [OF decode_int] in simp_all)
next
  case (L_str s)
  then show ?thesis using assms decodes_run [OF decode_string [of s]] by simp
qed (use assms in \<open>simp_all add: decode_special\<close>)

lemma reads_plain:
  assumes "scalar_ok v"
  shows "reads n H (mp_decode_to_lua_type (Suc d)) (plain_code v) v"
proof -
  have "same_value n H h lo hi v (lua_key v)" for h lo hi using assms by (cases n; cases v) simp_all
  then show ?thesis unfolding reads_def using plain_run [OF assms] grows_refl by blast
qed

lemma new_filled: "filled n H (d_fresh st) Map.empty (lua_newtable st)"
  by (simp add: filled_def lua_newtable_def)

text \<open>The table whose items were read is the one that was written.\<close>

lemma filled_table:
  assumes "filled n H (d_fresh st) (map_of (H a)) st'" and "grows {d_fresh st} (lua_newtable st) st'"
  shows "grows {} st st'" and "same_value (Suc n) H (d_heap st') (d_fresh st) (d_fresh st') (L_table a) (L_table (d_fresh st))"
proof -
  show "grows {} st st'" using assms(2) by (auto simp: grows_def lua_newtable_def)
  have "rel_option (same_value n H (d_heap st') (d_fresh st) (d_fresh st')) (map_of (H a) k) (map_of (d_heap st' (d_fresh st)) k)" for k
    using assms(1) unfolding filled_def
    by (auto elim!: option.rel_mono_strong [OF spec [of _ k]] intro: same_value_frame)
  moreover have "d_fresh st < d_fresh st'" using assms(1) by (simp add: filled_def)
  ultimately show "same_value (Suc n) H (d_heap st') (d_fresh st) (d_fresh st') (L_table a) (L_table (d_fresh st))"
    by simp
qed

lemma reads_table:
  assumes "packable (Suc n) H (L_table a)" and "is_border (H a) (border (H a))"
    and "\<And>x. packable n H x \<Longrightarrow> reads n H (mp_decode_to_lua_type (Suc n)) (w x) x"
    and "\<And>k. scalar_ok k \<Longrightarrow> w k = plain_code k"
  shows "reads (Suc n) H (mp_decode_to_lua_type (Suc (Suc n))) (table_code border w (H a)) (L_table a)"
  unfolding reads_def
proof (intro allI)
  fix rest st
  let ?t = "H a"
  let ?d = "mp_decode_to_lua_type (Suc n)"
  have t: "distinct (map fst ?t)" "length ?t < 2 ^ 31" "\<forall>(k, x) \<in> set ?t. key_ok k \<and> x \<noteq> L_nil \<and> packable n H x"
    using assms(1) by simp_all
  have keys: "\<forall>(k, x) \<in> set ?t. key_ok k" and vals: "\<forall>(k, x) \<in> set ?t. x \<noteq> L_nil" using t(3) by auto
  show "\<exists>v' st'. mp_decode_to_lua_type (Suc (Suc n)) (table_code border w ?t @ rest) st = give v' rest st' \<and> grows {} st st'
     \<and> same_value (Suc n) H (d_heap st') (d_fresh st) (d_fresh st') (L_table a) v'"
  proof (cases "table_is_an_array ?t")
    case True
    let ?xs = "map (\<lambda>j. lua_gettable ?t (int_key j)) [1..<length ?t + 1]"
    note K = array_keys [OF True t(1,2) keys]
    have B: "border ?t = length ?t" using array_border [OF K t(2) vals assms(2)] .
    have elem: "\<forall>x \<in> set ?xs. x \<noteq> L_nil \<and> reads n H ?d (w x) x"
    proof
      fix x
      assume "x \<in> set ?xs"
      then obtain j where j: "x = lua_gettable ?t (int_key j)" "j \<in> {1..length ?t}" by auto
      then have "int_key j \<in> fst ` set ?t" using K by simp
      then obtain y where "map_of ?t (int_key j) = Some y" by (metis map_of_eq_None_iff not_None_eq)
      with j(1) have "(int_key j, x) \<in> set ?t" by (simp add: gettable_int_key map_of_SomeD)
      with t(3) assms(3) show "x \<noteq> L_nil \<and> reads n H ?d (w x) x" by auto
    qed
    obtain st' where st': "array_items ?d (d_fresh st) 1 (length ?xs) (concat (map w ?xs) @ rest) (lua_newtable st)
        = Some (Inr ((), rest, st'))" "grows {d_fresh st} (lua_newtable st) st'"
      "filled n H (d_fresh st) (Map.empty ++ map_of (rev (zip (map int_key [1..<1 + length ?xs]) ?xs))) st'"
      using array_items_fill [OF new_filled elem, where i = 1 and rest = rest] by blast
    have "zip (map int_key [1..<1 + length ?xs]) ?xs = map (\<lambda>j. (int_key j, lua_gettable ?t (int_key j))) [1..<length ?t + 1]"
      by (simp add: zip_map_map zip_same_conv_map del: upt_Suc) 
    moreover have "distinct (map fst (map (\<lambda>j. (int_key j, lua_gettable ?t (int_key j))) [1..<length ?t + 1]))"
      using t(2) by (auto simp: distinct_map o_def int_key_inj intro!: inj_onI)
    ultimately have "Map.empty ++ map_of (rev (zip (map int_key [1..<1 + length ?xs]) ?xs)) = map_of ?t"
      using array_pairs [OF K] by (simp add: map_of_rev_distinct del: upt_Suc)
    then have f: "filled n H (d_fresh st) (map_of ?t) st'" using st'(3) by simp
    have "mp_decode_to_lua_array ?d (length ?t) (concat (map w ?xs) @ rest) st = give (L_table (d_fresh st)) rest st'"
      using st'(1) unfolding mp_decode_to_lua_array_def by (simp only: dbind_simps length_map length_upt diff_add_inverse2)
    moreover have "table_code border w ?t @ rest = array_code (length ?t) @ concat (map w ?xs) @ rest"
      using True B by (simp add: table_code_def o_def int_key_def del: upt_Suc)
    ultimately have "mp_decode_to_lua_type (Suc (Suc n)) (table_code border w ?t @ rest) st = give (L_table (d_fresh st)) rest st'"
      using decodes_run [OF decode_array_header [where n = "length ?t"]] t(2) by (simp del: mp_decode_to_lua_type.simps)
    then show ?thesis using filled_table [OF f st'(2)] by blast
  next
    case False
    have elem: "\<forall>(k, x) \<in> set ?t. x \<noteq> L_nil \<and> reads n H ?d (w x) x \<and> reads n H ?d (w k) k
           \<and> k \<noteq> L_nil \<and> \<not> is_nan k \<and> lua_key k = k \<and> scalar_ok k"
      using t(3) assms(3,4) reads_plain by (auto simp: key_ok_def)
    obtain st' where st': "hash_items ?d (d_fresh st) (length ?t) (concat (map (\<lambda>(k, x). w k @ w x) ?t) @ rest) (lua_newtable st)
        = Some (Inr ((), rest, st'))" "grows {d_fresh st} (lua_newtable st) st'"
      "filled n H (d_fresh st) (Map.empty ++ map_of (rev ?t)) st'"
      using hash_items_fill [OF new_filled elem] by blast
    have f: "filled n H (d_fresh st) (map_of ?t) st'" using st'(3) map_of_rev_distinct [OF t(1)] by simp
    have "mp_decode_to_lua_type (Suc (Suc n)) (table_code border w ?t @ rest) st = give (L_table (d_fresh st)) rest st'"
      using decodes_run [OF decode_map_header [where n = "length ?t"]] t(2) False st'(1)
      by (simp add: table_code_def mp_decode_to_lua_hash_def del: mp_decode_to_lua_type.simps)
    then show ?thesis using filled_table [OF f st'(2)] by blast
  qed
qed

lemma reads_wire:
  assumes "packable n H v" and "\<forall>a. is_border (H a) (border (H a))"
  shows "reads n H (mp_decode_to_lua_type (Suc n)) (wire border H n v) v"
  using assms(1)
proof (induction n arbitrary: v)
  case 0
  then show ?case using reads_plain by simp
next
  case (Suc n)
  show ?case
  proof (cases v)
    case (L_table a)
    have "wire border H n k = plain_code k" if "scalar_ok k" for k using that by (cases n; cases k) simp_all
    then have "reads (Suc n) H (mp_decode_to_lua_type (Suc (Suc n))) (table_code border (wire border H n) (H a)) (L_table a)"
      using Suc.prems assms(2) Suc.IH unfolding L_table by (intro reads_table) auto
    with L_table show ?thesis by simp
  qed (use Suc.prems reads_plain in \<open>simp_all del: mp_decode_to_lua_type.simps plain_code.simps\<close>)
qed

section \<open>Streams of values\<close>

lemma reads_consumes:
  assumes "reads n H (mp_decode_to_lua_type d) bs v"
  shows "bs \<noteq> []"
proof
  assume e: "bs = []"
  obtain v' st' where "mp_decode_to_lua_type d ([] @ []) undefined = give v' [] st'"
    using readsD [OF assms, of "[]" undefined] e by metis
  from consumingD [OF decode_consuming this] show False by simp
qed

lemma unpack_loop_reads:
  assumes "\<forall>v \<in> set vs. reads n H (mp_decode_to_lua_type d) (w v) v" and "length vs \<le> limit"
    and "length (concat (map w vs)) < f"
  shows "\<exists>vs' st'. unpack_loop f limit (concat (map w vs)) st = Some (Inr (vs', [], st')) \<and> grows {} st st'
    \<and> list_all2 (same_value n H (d_heap st') (d_fresh st) (d_fresh st')) vs vs'"
  using assms
proof (induction vs arbitrary: limit f st)
  case Nil
  then obtain f' where "f = Suc f'" by (cases f) auto
  then show ?case by simp
next
  case (Cons v vs)
  obtain f' where f: "f = Suc f'" using Cons.prems(3) by (cases f) auto
  let ?c = "concat (map w (v # vs))"
  have v: "reads n H (mp_decode_to_lua_type d) (w v) v" using Cons.prems(1) by simp
  obtain v' st1 where v': "mp_decode_to_lua_type d (w v @ concat (map w vs)) st = give v' (concat (map w vs)) st1"
    "grows {} st st1" "same_value n H (d_heap st1) (d_fresh st) (d_fresh st1) v v'"
    using readsD [OF v] .
  have step: "mp_decode_to_lua_type (Suc (length ?c)) ?c st = give v' (concat (map w vs)) st1"
    by (rule decode_depth [where m = d]) (use v'(1) in simp_all)
  have ne: "w v \<noteq> []" using reads_consumes [OF v] .
  then have "length (concat (map w vs)) < f'" using Cons.prems(3) f by (cases "w v") auto
  then have vs: "length (concat (map w vs)) < f'" "length vs \<le> limit - 1"
    "\<forall>v \<in> set vs. reads n H (mp_decode_to_lua_type d) (w v) v"
    using Cons.prems(1,2) by simp_all
  obtain vs' st2 where IH: "unpack_loop f' (limit - 1) (concat (map w vs)) st1 = Some (Inr (vs', [], st2))"
    "grows {} st1 st2" "list_all2 (same_value n H (d_heap st2) (d_fresh st1) (d_fresh st2)) vs vs'"
    using Cons.IH [of "limit - 1" f' st1] vs by blast
  have g1: "d_fresh st \<le> d_fresh st1" and g2: "d_fresh st1 \<le> d_fresh st2" "\<And>b. b < d_fresh st1 \<Longrightarrow> d_heap st2 b = d_heap st1 b"
    using v'(2) IH(2) by (simp_all add: grows_def)
  have "same_value n H (d_heap st2) (d_fresh st) (d_fresh st2) v v'"
    by (rule same_value_frame [OF v'(3)]) (use g2 in auto)
  moreover have "list_all2 (same_value n H (d_heap st2) (d_fresh st) (d_fresh st2)) vs vs'"
    by (rule list_all2_mono [OF IH(3)]) (auto intro: same_value_frame g1)
  moreover have "unpack_loop f limit ?c st = Some (Inr (v' # vs', [], st2))"
    using step IH(1) ne Cons.prems(2) unfolding f by (simp del: mp_decode_to_lua_type.simps)
  ultimately show ?case using grows_trans [OF v'(2) IH(2)] by (metis list_all2_Cons)
qed

lemma pack_wire:
  assumes "\<forall>n. A n" and "args \<noteq> []" and "length (concat (map (wire border H LUACMSGPACK_MAX_NESTING) args)) < 2 ^ 62"
  shows "mp_pack A border H args = Some (Inr (concat (map (wire border H LUACMSGPACK_MAX_NESTING) args)))"
proof -
  obtain buf where buf: "mp_buf_new A = Some buf" "mb_bytes buf = []" using assms(1) by (simp add: mp_buf_new_def)
  obtain bs where bs: "pack_args A border H args buf = Some bs"
    using pack_args_succeeds [OF assms(1,3) buf(2)] by blast
  with pack_args_wire [OF bs buf(2)] assms(2) buf(1) show ?thesis by (simp add: mp_pack_def)
qed

text \<open>C26. Unpacking what was packed gives the same values, in tables of their own: all values of the format with
  at most 16 levels of tables, shared tables included. Packing succeeds when there is memory. Tables have
  fewer than \<open>2 ^ 31\<close> entries, and no integer keys of \<open>2 ^ 31\<close> and more (\<open>key_ok\<close>).\<close>

theorem msgpack_roundtrip:
  assumes "args \<noteq> []" and "length args \<le> INT_MAX" and "\<forall>v \<in> set args. packable LUACMSGPACK_MAX_NESTING H v"
    and "\<forall>a. is_border (H a) (border (H a))" and "\<forall>n. A n"
    and "length (concat (map (wire border H LUACMSGPACK_MAX_NESTING) args)) < 2 ^ 62"
  shows "\<exists>bs vs st'. mp_pack A border H args = Some (Inr bs) \<and> mp_unpack bs st = Some (Inr (vs, [], st'))
    \<and> list_all2 (same_value LUACMSGPACK_MAX_NESTING H (d_heap st') (d_fresh st) (d_fresh st')) args vs"
proof -
  let ?w = "wire border H LUACMSGPACK_MAX_NESTING"
  let ?bs = "concat (map ?w args)"
  have "mp_pack A border H args = Some (Inr ?bs)" by (rule pack_wire [OF assms(5,1,6)])
  moreover have r: "\<forall>v \<in> set args. reads LUACMSGPACK_MAX_NESTING H (mp_decode_to_lua_type (Suc LUACMSGPACK_MAX_NESTING)) (?w v) v"
    using assms(3,4) reads_wire by blast
  obtain vs st' where vs: "unpack_loop (Suc (length ?bs)) INT_MAX ?bs st = Some (Inr (vs, [], st'))"
    "list_all2 (same_value LUACMSGPACK_MAX_NESTING H (d_heap st') (d_fresh st) (d_fresh st')) args vs"
    using unpack_loop_reads [OF r assms(2), of "Suc (length ?bs)" st] by auto
  moreover have "mp_unpack ?bs st = Some (Inr (vs, [], st'))"
    using vs(1) by (simp add: mp_unpack_def mp_unpack_full_def Let_def del: unpack_loop.simps)
  ultimately show ?thesis by blast
qed

text \<open>C27. Unpacking ends for every input, limit and offset, with values or an error; the depth of recursion
  never exceeds the length of the input, and more would change nothing. (C sets no limit to it.)\<close>

theorem unpack_terminates:
  "(\<exists>r. mp_unpack_full s limit offset st = Some r)
   \<and> mp_decode_to_lua_type (Suc (length s + k)) s st = mp_decode_to_lua_type (Suc (length s)) s st"
proof
  show "\<exists>r. mp_unpack_full s limit offset st = Some r"
  proof -
    have "mp_unpack_full s limit offset st \<noteq> None"
      unfolding mp_unpack_full_def Let_def
      by (auto simp: dbind_None unpack_loop_returns simp del: unpack_loop.simps not_None_eq)
    then show ?thesis by blast
  qed
  have "mp_decode_to_lua_type (Suc (length s)) s st \<noteq> None"
    using decode_returns_below [of "Suc (length s)"] unfolding returns_below_def by blast
  then obtain r where "mp_decode_to_lua_type (Suc (length s)) s st = Some r" by blast
  with decode_depth [OF this, of "Suc (length s + k)"] show
    "mp_decode_to_lua_type (Suc (length s + k)) s st = mp_decode_to_lua_type (Suc (length s)) s st"
    by (simp del: mp_decode_to_lua_type.simps)
qed

text \<open>The cut of the largest key to \<open>int\<close>: a table whose only key is \<open>2^32 + 1\<close> is taken for an array of one
  element and, its length being 0, packed as the empty array; its value is lost.\<close>

lemma pack_loses_large_key:
  assumes "H a = [(L_int (2 ^ 32 + 1), x)]" and "border (H a) = 0" and "\<forall>n. A n"
  shows "mp_pack A border H [L_table a] = Some (Inr [0x90])"
proof -
  have array: "table_is_an_array (H a)"
  proof -
    have "sint (2 ^ 32 + 1 :: u64) = 2 ^ 32 + 1" "(ucast (2 ^ 32 + 1 :: u64) :: u32) = 1" "sint (0 :: u32) = 0"
      by simp_all
    then show ?thesis by (simp add: table_is_an_array_def assms(1))
  qed
  have "wire border H LUACMSGPACK_MAX_NESTING (L_table a) = [0x90]"
    using array assms(2) by (simp add: LUACMSGPACK_MAX_NESTING_def numeral_eq_Suc table_code_def array_code_def)
  with pack_wire [OF assms(3), of "[L_table a]" border H] show ?thesis by simp
qed

section \<open>Truncated input\<close>

text \<open>A decoder does not look behind the value: on a part of its input it gives the same value when that part
  holds the value, and misses bytes otherwise.\<close>

definition prefix_local :: "(bytes \<Rightarrow> dstate \<Rightarrow> 'a dres) \<Rightarrow> bool" where
  "prefix_local f \<longleftrightarrow> (\<forall>p q st v r st'. f (p @ q) st = Some (Inr (v, r, st')) \<longrightarrow>
     length r \<le> length (p @ q)
     \<and> (if length q \<le> length r then \<exists>p'. r = p' @ q \<and> f p st = Some (Inr (v, p', st'))
        else f p st = Some (Inl MP_CUR_ERROR_EOF)))"

lemma prefix_localD:
  assumes "prefix_local f" and "f (p @ q) st = Some (Inr (v, r, st'))"
  shows "length r \<le> length (p @ q)"
    and "length q \<le> length r \<Longrightarrow> \<exists>p'. r = p' @ q \<and> f p st = Some (Inr (v, p', st'))"
    and "length r < length q \<Longrightarrow> f p st = Some (Inl MP_CUR_ERROR_EOF)"
  using assms unfolding prefix_local_def by (metis, metis, metis not_le)

lemma local_bind:
  assumes "prefix_local f" and "\<And>v. prefix_local (g v)"
  shows "prefix_local (\<lambda>c st. dbind (f c st) g)"
  unfolding prefix_local_def
proof (intro allI impI)
  fix p q st v r st'
  assume "dbind (f (p @ q) st) g = Some (Inr (v, r, st'))"
  then obtain w r1 st1 where f: "f (p @ q) st = Some (Inr (w, r1, st1))" and g: "g w r1 st1 = Some (Inr (v, r, st'))"
    by (auto simp: dbind_Some)
  have rr: "length r \<le> length r1" using prefix_localD(1) [OF assms(2), of w r1 "[]"] g by simp
  note F = prefix_localD [OF assms(1) f]
  show "length r \<le> length (p @ q)
     \<and> (if length q \<le> length r then \<exists>p'. r = p' @ q \<and> dbind (f p st) g = Some (Inr (v, p', st'))
        else dbind (f p st) g = Some (Inl MP_CUR_ERROR_EOF))"
  proof (cases "length q \<le> length r1")
    case True
    then obtain p1 where p1: "r1 = p1 @ q" "f p st = Some (Inr (w, p1, st1))" using F(2) by blast
    note G = prefix_localD [OF assms(2) g [unfolded p1(1)]]
    show ?thesis using G F(1) p1 rr by (auto simp: not_le)
  next
    case False
    with F(1,3) rr show ?thesis by simp
  qed
qed

lemma local_give: "prefix_local (\<lambda>c st. Some (Inr (h st, c, k st)))"
  by (simp add: prefix_local_def)

lemma local_error: "prefix_local (\<lambda>c st. Some (Inl e))"
  by (simp add: prefix_local_def)

lemma local_take_num: "prefix_local (take_num k)"
  by (auto simp: prefix_local_def take_num_def not_less split: if_splits)

lemma local_take_raw: "prefix_local (take_raw k)"
  by (auto simp: prefix_local_def take_raw_def not_less split: if_splits)

lemma local_put_cell: "prefix_local (put_cell a k v)"
  by (auto simp: prefix_local_def put_cell_def split: sum.splits)

lemma local_pre: "prefix_local f \<Longrightarrow> prefix_local (\<lambda>c st. f c (k st))"
  unfolding prefix_local_def by blast

lemma local_array_items: "prefix_local dec \<Longrightarrow> prefix_local (array_items dec a i n)"
proof (induction n arbitrary: i)
  case 0
  show ?case using local_give [of "\<lambda>_. ()" "\<lambda>st. st"] by (simp add: prefix_local_def)
next
  case (Suc n)
  have "prefix_local (\<lambda>c st. dbind (dec c st) (\<lambda>v c st. dbind (put_cell a (L_int (of_nat i)) v c st) (\<lambda>_. array_items dec a (i + 1) n)))"
    by (intro local_bind local_put_cell Suc)
  then show ?case by (simp add: prefix_local_def)
qed

lemma local_hash_items: "prefix_local dec \<Longrightarrow> prefix_local (hash_items dec a n)"
proof (induction n)
  case 0
  show ?case using local_give [of "\<lambda>_. ()" "\<lambda>st. st"] by (simp add: prefix_local_def)
next
  case (Suc n)
  have "prefix_local (\<lambda>c st. dbind (dec c st) (\<lambda>k c st. dbind (dec c st) (\<lambda>v c st.
      dbind (put_cell a k v c st) (\<lambda>_. hash_items dec a n))))"
    by (intro local_bind local_put_cell Suc)
  then show ?case by (simp add: prefix_local_def)
qed

lemma local_table:
  assumes "\<And>a. prefix_local (f a)"
  shows "prefix_local (\<lambda>c st. dbind (f (d_fresh st) c (lua_newtable st)) (\<lambda>_ c st'. Some (Inr (L_table (d_fresh st), c, st'))))"
proof -
  have "prefix_local (\<lambda>c st. dbind (f a c st) (\<lambda>_ c st'. Some (Inr (L_table a, c, st'))))" for a
    by (intro local_bind assms) (rule local_give)
  then show ?thesis unfolding prefix_local_def by blast
qed

lemma local_array: "prefix_local dec \<Longrightarrow> prefix_local (mp_decode_to_lua_array dec n)"
  using local_table [of "\<lambda>a. array_items dec a 1 n"] local_array_items
  by (simp add: mp_decode_to_lua_array_def [abs_def])

lemma local_hash: "prefix_local dec \<Longrightarrow> prefix_local (mp_decode_to_lua_hash dec n)"
  using local_table [of "\<lambda>a. hash_items dec a n"] local_hash_items
  by (simp add: mp_decode_to_lua_hash_def [abs_def])

lemma local_if: "prefix_local f \<Longrightarrow> prefix_local g \<Longrightarrow> prefix_local (\<lambda>c st. if b then f c st else g c st)"
  by (cases b) simp_all

lemma local_step: "prefix_local dec \<Longrightarrow> prefix_local (decode_step dec b)"
  unfolding decode_step_def [abs_def]
  by (intro local_if local_bind local_take_num local_take_raw local_array local_hash local_error local_give)

lemma local_decode: "prefix_local (mp_decode_to_lua_type d)"
proof (induction d)
  case 0
  show ?case by (simp add: prefix_local_def)
next
  case (Suc d)
  note S = local_step [OF Suc]
  show ?case
    unfolding prefix_local_def
  proof (intro allI impI)
    fix p q st v r st'
    assume run: "mp_decode_to_lua_type (Suc d) (p @ q) st = give v r st'"
    show "length r \<le> length (p @ q)
     \<and> (if length q \<le> length r then \<exists>p'. r = p' @ q \<and> mp_decode_to_lua_type (Suc d) p st = give v p' st'
        else mp_decode_to_lua_type (Suc d) p st = Some (Inl MP_CUR_ERROR_EOF))"
    proof (cases p)
      case Nil
      with consumingD [OF decode_consuming run] show ?thesis by simp
    next
      case (Cons b p1)
      with run have "decode_step (mp_decode_to_lua_type d) b (p1 @ q) st = give v r st'" by simp
      from prefix_localD [OF S this] Cons show ?thesis by (auto simp: not_le)
    qed
  qed
qed

text \<open>A packed value that arrives without its last bytes is refused as incomplete, never read as another
  value.\<close>

lemma truncated_refused:
  assumes "packable LUACMSGPACK_MAX_NESTING H v" and "\<forall>a. is_border (H a) (border (H a))"
    and "mp_pack A border H [v] = Some (Inr bs)" and "0 < m" and "m < length bs"
  shows "mp_unpack (take m bs) st = Some (Inl MP_CUR_ERROR_EOF)"
proof -
  obtain buf where "mp_buf_new A = Some buf" "mb_bytes buf = []" "pack_args A border H [v] buf = Some bs"
    using assms(3) by (auto simp: mp_pack_def mp_buf_new_def split: if_splits)
  then have bs: "bs = wire border H LUACMSGPACK_MAX_NESTING v" using pack_args_wire [of A border H "[v]" buf bs] by simp
  obtain v' st' where "mp_decode_to_lua_type (Suc LUACMSGPACK_MAX_NESTING) (bs @ []) st = give v' [] st'"
    using readsD [OF reads_wire [OF assms(1,2)], of "[]" st] bs by metis
  then have run: "mp_decode_to_lua_type (Suc LUACMSGPACK_MAX_NESTING) (take m bs @ drop m bs) st = give v' [] st'"
    by (simp only: append_Nil2 append_take_drop_id)
  from prefix_localD(3) [OF local_decode run] assms(5)
  have "mp_decode_to_lua_type (Suc LUACMSGPACK_MAX_NESTING) (take m bs) st = Some (Inl MP_CUR_ERROR_EOF)" by simp
  from decode_depth [OF this, of "Suc (length (take m bs))"]
  have "mp_decode_to_lua_type (Suc (length (take m bs))) (take m bs) st = Some (Inl MP_CUR_ERROR_EOF)" by blast
  moreover have "take m bs \<noteq> []" using assms(4,5) by auto
  ultimately show ?thesis
    by (simp add: mp_unpack_def mp_unpack_full_def Let_def del: mp_decode_to_lua_type.simps)
qed

section \<open>Witnesses\<close>

text \<open>An array of a string and a boolean, inside a map with it twice.\<close>

definition w_heap :: lheap where
  "w_heap a = (if a = 3 then [(L_int 1, L_str [104, 105]), (L_int 2, L_bool True)]
               else if a = 2 then [(L_str [107], L_table 3), (L_int 5, L_table 3)] else [])"

definition w_border :: "ltable \<Rightarrow> nat" where
  "w_border t = (if t = w_heap 3 then 2 else 0)"

definition w_args :: "lval list" where
  "w_args = [L_table 2, L_num 0x3FB999999999999A, L_int (- 300), L_nil]"
lemma w_num: "double_to_int 0x3FB999999999999A = None"
  by (simp add: double_to_int_def dbl_exp_def dbl_frac_def)
lemma w_nesting: "\<exists>k. LUACMSGPACK_MAX_NESTING = Suc (Suc (Suc k))"
  by (rule exI [of _ 13]) (simp add: LUACMSGPACK_MAX_NESTING_def)

lemma w_packable: "\<forall>v \<in> set w_args. packable LUACMSGPACK_MAX_NESTING w_heap v"
proof -
  obtain k where k: "LUACMSGPACK_MAX_NESTING = Suc (Suc (Suc k))" using w_nesting by blast
  show ?thesis unfolding k by (simp add: w_args_def w_heap_def key_ok_def)
qed

lemma w_wire:
  "wire w_border w_heap (Suc k) (L_table 3) = [0x92, 0xa2, 104, 105, 0xc3]"
  "wire w_border w_heap (Suc (Suc k)) (L_table 2) = [0x82, 0xa1, 107, 0x92, 0xa2, 104, 105, 0xc3, 5, 0x92, 0xa2, 104, 105, 0xc3]"
  "wire w_border w_heap (Suc k) (L_num 0x3FB999999999999A) = 0xcb # be_bytes 8 0x3FB999999999999A"
  "wire w_border w_heap (Suc k) (L_int (- 300)) = 0xd1 # be_bytes 2 (unat (- 300 :: u64))"
  "wire w_border w_heap (Suc k) L_nil = [0xc0]"
proof -
  have t: "\<not> table_is_an_array (w_heap 2)" "table_is_an_array (w_heap 3)" by (simp_all add: w_heap_def table_is_an_array_def)
  have u: "[1..<3] = [1, 2 :: nat]" by (simp add: upt_rec)
  have str: "wire w_border w_heap j (L_str s) = bytes_header (length s) @ s" "wire w_border w_heap j (L_bool b) = [if b then 0xc3 else 0xc2]"
    "wire w_border w_heap j (L_int n) = int_code n" for j s b n by (cases j; simp)+
  have get: "lua_gettable (w_heap 3) (L_int 1) = L_str [104, 105]" "lua_gettable (w_heap 3) (L_int 2) = L_bool True"
    by (simp_all add: lua_gettable_def w_heap_def)
  have b: "w_border (w_heap 3) = 2" by (simp add: w_border_def)
  show w1: "wire w_border w_heap (Suc k) (L_table 3) = [0x92, 0xa2, 104, 105, 0xc3]" for k
    using u by (simp add: table_code_def t b get str array_code_def bytes_header_def)
  have h2: "w_heap 2 = [(L_str [107], L_table 3), (L_int 5, L_table 3)]" by (simp add: w_heap_def)
  show "wire w_border w_heap (Suc (Suc k)) (L_table 2) = [0x82, 0xa1, 107, 0x92, 0xa2, 104, 105, 0xc3, 5, 0x92, 0xa2, 104, 105, 0xc3]"
    unfolding wire.simps(2) [of _ _ "Suc k"] using t(1)
    by (simp add: table_code_def h2 w1 str map_code_def bytes_header_def int_code_def del: wire.simps)
  have f: "float_of_double 0x3FB999999999999A = None"
    by (simp add: float_of_double_def dbl_exp_def dbl_frac_def Let_def)
  show "wire w_border w_heap (Suc k) (L_num 0x3FB999999999999A) = 0xcb # be_bytes 8 0x3FB999999999999A"
    using f by (simp add: w_num double_code_def del: be_bytes.simps)
  show "wire w_border w_heap (Suc k) (L_int (- 300)) = 0xd1 # be_bytes 2 (unat (- 300 :: u64))"
    by (simp add: int_code_def del: be_bytes.simps)
  show "wire w_border w_heap (Suc k) L_nil = [0xc0]" by simp
qed

lemma w_size: "length (concat (map (wire w_border w_heap LUACMSGPACK_MAX_NESTING) w_args)) < 2 ^ 62"
proof -
  obtain k where k: "LUACMSGPACK_MAX_NESTING = Suc (Suc (Suc k))" using w_nesting by blast
  show ?thesis unfolding k w_args_def by (simp add: w_wire del: wire.simps be_bytes.simps)
qed

lemma w_borders: "is_border (w_heap a) (w_border (w_heap a))"
proof -
  have "is_border (w_heap 3) (w_border (w_heap 3))" "is_border (w_heap 2) (w_border (w_heap 2))" "is_border [] (w_border [])"
    by (simp_all add: is_border_def w_border_def w_heap_def lua_gettable_def)
  moreover have "w_heap a = w_heap 3 \<or> w_heap a = w_heap 2 \<or> w_heap a = []" by (auto simp: w_heap_def)
  ultimately show ?thesis by metis
qed

theorem msgpack_roundtrip_witness:
  "\<exists>bs vs st'. mp_pack (\<lambda>_. True) w_border w_heap w_args = Some (Inr bs)
    \<and> mp_unpack bs \<lparr>d_heap = (\<lambda>_. []), d_fresh = 7\<rparr> = Some (Inr (vs, [], st'))
    \<and> list_all2 (same_value LUACMSGPACK_MAX_NESTING w_heap (d_heap st') 7 (d_fresh st')) w_args vs"
proof -
  have "w_args \<noteq> []" "length w_args \<le> INT_MAX" by (simp_all add: w_args_def)
  from msgpack_roundtrip [OF this w_packable _ _ w_size, of "\<lambda>_. True" "\<lparr>d_heap = (\<lambda>_. []), d_fresh = 7\<rparr>"] w_borders
  show ?thesis by simp
qed

theorem truncated_refused_witness:
  "\<exists>bs. mp_pack (\<lambda>_. True) w_border w_heap [L_table 2] = Some (Inr bs)
    \<and> mp_unpack (take 5 bs) \<lparr>d_heap = (\<lambda>_. []), d_fresh = 7\<rparr> = Some (Inl MP_CUR_ERROR_EOF)"
proof -
  obtain k where k: "LUACMSGPACK_MAX_NESTING = Suc (Suc (Suc k))" using w_nesting by blast
  have w: "wire w_border w_heap LUACMSGPACK_MAX_NESTING (L_table 2)
      = [0x82, 0xa1, 107, 0x92, 0xa2, 104, 105, 0xc3, 5, 0x92, 0xa2, 104, 105, 0xc3]" (is "_ = ?bs")
    unfolding k by (rule w_wire(2))
  have p: "mp_pack (\<lambda>_. True) w_border w_heap [L_table 2] = Some (Inr ?bs)"
    using pack_wire [of "\<lambda>_. True" "[L_table 2]" w_border w_heap] w by simp
  have "packable LUACMSGPACK_MAX_NESTING w_heap (L_table 2)" using w_packable by (simp add: w_args_def)
  from truncated_refused [OF this _ p, of 5] w_borders p show ?thesis by simp
qed

theorem pack_loses_large_key_witness:
  "mp_pack (\<lambda>_. True) (\<lambda>_. 0) (\<lambda>_. [(L_int (2 ^ 32 + 1), L_bool True)]) [L_table 0] = Some (Inr [0x90])"
  by (rule pack_loses_large_key [where x = "L_bool True"]) simp_all

end
