(* ===== verification/XArgs.thy ===== *)
theory XArgs
  imports XRecNum
begin

text \<open>
  The command line and the configuration file (\<open>xargs.c\<close>). Strings are the bytes before their NUL. Options and
  assignments are kept in a table of 64 chains, newest first. \<open>None\<close> is a write past \<open>other_args\<close>. Memory
  is taken to suffice (the code does not check \<open>malloc\<close>); the environment and the contents of the
  configuration file are arguments.
\<close>

section \<open>The table\<close>

record xArgsCFG =
  short_opt :: u8
  long_opt :: "bytes option"
  default_value :: "bytes option"
  is_flag :: bool

record args_state =
  hash_table :: "nat \<Rightarrow> (bytes \<times> bytes) list"
  hash_initialized :: bool
  internal_configs :: "xArgsCFG list"
  other_args :: bytes

definition HASH_SIZE :: nat where "HASH_SIZE = 64"
definition OTHER_SIZE :: nat where "OTHER_SIZE = 2048"

text \<open>\<open>char\<close> is signed.\<close>

definition args_hash :: "bytes \<Rightarrow> nat" where
  "args_hash str = unat (foldl (\<lambda>h c. h * 31 + scast c) (0 :: u32) str) mod HASH_SIZE"

definition hash_init :: "args_state \<Rightarrow> args_state" where
  "hash_init s = (if hash_initialized s then s else s\<lparr>hash_table := (\<lambda>_. []), hash_initialized := True\<rparr>)"

definition hash_set :: "bytes \<Rightarrow> bytes \<Rightarrow> args_state \<Rightarrow> args_state" where
  "hash_set key v s =
     (let s = hash_init s; idx = args_hash key
      in s\<lparr>hash_table := (hash_table s)(idx := (key, v) # hash_table s idx)\<rparr>)"

fun chain_find :: "bytes \<Rightarrow> (bytes \<times> bytes) list \<Rightarrow> bytes option" where
  "chain_find key [] = None"
| "chain_find key ((k, v) # nodes) = (if k = key then Some v else chain_find key nodes)"

definition hash_get :: "bytes \<Rightarrow> args_state \<Rightarrow> bytes option" where
  "hash_get key s = (let s = hash_init s in chain_find key (hash_table s (args_hash key)))"

definition find_config :: "bytes \<Rightarrow> args_state \<Rightarrow> xArgsCFG option" where
  "find_config key s =
     (if length key = 1 then find (\<lambda>c. short_opt c = hd key) (internal_configs s)
      else find (\<lambda>c. long_opt c = Some key) (internal_configs s))"

text \<open>\<open>snprintf (key, 8, "-%c", c)\<close>; the NUL character ends the string.\<close>

definition dash :: "u8 \<Rightarrow> bytes" where
  "dash c = (if c = 0 then [45] else [45, c])"

definition set_config_value :: "xArgsCFG \<Rightarrow> bytes \<Rightarrow> args_state \<Rightarrow> args_state" where
  "set_config_value c v s =
     (let s = hash_set (dash (short_opt c)) v s
      in case long_opt c of None \<Rightarrow> s | Some l \<Rightarrow> hash_set l v s)"

definition add_to_other :: "bytes \<Rightarrow> args_state \<Rightarrow> args_state option" where
  "add_to_other arg s =
     (let o' = (if other_args s = [] then arg else other_args s @ 32 # arg)
      in if length o' < OTHER_SIZE then Some (s\<lparr>other_args := o'\<rparr>) else None)"

section \<open>The command line\<close>

text \<open>The parts before and after the first \<open>=\<close>.\<close>

definition split_eq :: "bytes \<Rightarrow> (bytes \<times> bytes) option" where
  "split_eq s = (if 61 \<in> set s then Some (takeWhile (\<lambda>c. c \<noteq> 61) s, tl (dropWhile (\<lambda>c. c \<noteq> 61) s)) else None)"

text \<open>An assignment to a registered or an unregistered name.\<close>

definition assign :: "bytes \<Rightarrow> bytes \<Rightarrow> args_state \<Rightarrow> args_state" where
  "assign name v s = (case find_config name s of Some c \<Rightarrow> set_config_value c v s | None \<Rightarrow> hash_set name v s)"

text \<open>The last registered option whose long name begins \<open>name\<close>, with what is left of \<open>name\<close>.\<close>

fun find_prefix :: "xArgsCFG list \<Rightarrow> bytes \<Rightarrow> (xArgsCFG \<times> bytes) option" where
  "find_prefix [] name = None"
| "find_prefix (c # cs) name =
     (case long_opt c of
        None \<Rightarrow> find_prefix cs name
      | Some l \<Rightarrow> if take (length l) name = l then Some (c, drop (length l) name) else find_prefix cs name)"

text \<open>The value of an option that has none of its own: the next argument unless it starts with a dash. The
  result says whether it was used.\<close>

definition next_value :: "xArgsCFG \<Rightarrow> bytes list \<Rightarrow> args_state \<Rightarrow> bool \<times> args_state" where
  "next_value c rest s =
     (case rest of
        [] \<Rightarrow> (False, set_config_value c [] s)
      | a # as \<Rightarrow> if take 1 a \<noteq> [45] then (True, set_config_value c a s) else (False, set_config_value c [] s))"

text \<open>\<open>rest\<close> are the arguments behind \<open>arg\<close>.\<close>

definition parse_arg :: "bytes \<Rightarrow> bytes list \<Rightarrow> bool \<Rightarrow> args_state \<Rightarrow> (bool \<times> args_state) option" where
  "parse_arg arg rest is_long s =
     (let name = drop (if is_long then 2 else 1) arg
      in case split_eq name of
           Some (n, v) \<Rightarrow> Some (False, assign n v s)
         | None \<Rightarrow>
             if is_long then
               (case find_prefix (rev (internal_configs s)) name of
                  None \<Rightarrow> map_option (Pair False) (add_to_other arg s)
                | Some (c, v) \<Rightarrow>
                    if v \<noteq> [] then Some (False, set_config_value c v s)
                    else if is_flag c then Some (False, set_config_value c [] s)
                    else Some (next_value c rest s))
             else
               (case find_config (take 1 name) s of
                  None \<Rightarrow> map_option (Pair False) (add_to_other arg s)
                | Some c \<Rightarrow>
                    if is_flag c then Some (False, set_config_value c [] s)
                    else if drop 1 name \<noteq> [] then Some (False, set_config_value c (drop 1 name) s)
                    else Some (next_value c rest s)))"

definition parse_any :: "bytes \<Rightarrow> bytes list \<Rightarrow> args_state \<Rightarrow> (bool \<times> args_state) option" where
  "parse_any arg rest s =
     (if take 2 arg = [45, 45] then parse_arg arg rest True s
      else if take 1 arg = [45] \<and> length arg > 1 then parse_arg arg rest False s
      else case split_eq arg of
             Some (n, v) \<Rightarrow> Some (False, assign n v s)
           | None \<Rightarrow> map_option (Pair False) (add_to_other arg s))"

fun parse_args :: "bytes list \<Rightarrow> args_state \<Rightarrow> args_state option" where
  "parse_args [] s = Some s"
| "parse_args (arg # rest) s =
     (case parse_any arg rest s of
        None \<Rightarrow> None
      | Some (used, s) \<Rightarrow>
          (case rest of
             a # rest' \<Rightarrow> if used then parse_args rest' s else parse_args rest s
           | [] \<Rightarrow> Some s))"

definition set_defaults :: "xArgsCFG \<Rightarrow> args_state \<Rightarrow> args_state" where
  "set_defaults c s =
     (case default_value c of
        None \<Rightarrow> s
      | Some d \<Rightarrow>
          let s = (if short_opt c \<noteq> 0 then hash_set (dash (short_opt c)) d s else s)
          in case long_opt c of None \<Rightarrow> s | Some l \<Rightarrow> hash_set l d s)"

definition OTHER_KEY :: bytes where "OTHER_KEY = [95, 111, 116, 104, 101, 114, 95]"

text \<open>\<open>argv\<close> without the program name.\<close>

definition xargs_init :: "xArgsCFG list \<Rightarrow> bytes list \<Rightarrow> args_state \<Rightarrow> args_state option" where
  "xargs_init configs argv s =
     (let s = (hash_init s)\<lparr>internal_configs := configs, other_args := []\<rparr>;
          s = foldl (\<lambda>s c. set_defaults c s) s configs
      in map_option (\<lambda>s. hash_set OTHER_KEY (other_args s) s) (parse_args argv s))"

section \<open>Access\<close>

definition xargs_get_raw :: "bytes \<Rightarrow> args_state \<Rightarrow> bytes option" where
  "xargs_get_raw key s =
     (case hash_get (if length key = 1 then dash (hd key) else key) s of
        Some v \<Rightarrow> Some v
      | None \<Rightarrow> (case find_config key s of Some c \<Rightarrow> default_value c | None \<Rightarrow> None))"

definition xargs_get_other :: "args_state \<Rightarrow> bytes option" where
  "xargs_get_other s = hash_get OTHER_KEY s"

text \<open>\<open>strstr\<close>: what follows the first place where \<open>key\<close> stands.\<close>

fun after_key :: "bytes \<Rightarrow> bytes \<Rightarrow> bytes option" where
  "after_key key s =
     (if take (length key) s = key then Some (drop (length key) s)
      else case s of [] \<Rightarrow> None | c # s \<Rightarrow> after_key key s)"

declare after_key.simps [simp del]

definition word_at :: "bytes \<Rightarrow> bytes" where
  "word_at s = takeWhile (\<lambda>c. c \<noteq> 32) (dropWhile (\<lambda>c. c = 32) s)"

definition xargs_search :: "bytes \<Rightarrow> args_state \<Rightarrow> bytes option" where
  "xargs_search key s =
     (case hash_get OTHER_KEY s of
        None \<Rightarrow> None
      | Some other \<Rightarrow>
          (case after_key key other of
             None \<Rightarrow> None
           | Some r \<Rightarrow> Some (if take 1 r = [61] then word_at (drop 1 r) else word_at r)))"

definition xargs_get :: "(bytes \<Rightarrow> bytes option) \<Rightarrow> bytes \<Rightarrow> args_state \<Rightarrow> bytes option" where
  "xargs_get getenv key s =
     (let key = dropWhile (\<lambda>c. c = 45) key
      in if key = [] then None
         else case xargs_get_raw key s of
                Some v \<Rightarrow> Some v
              | None \<Rightarrow>
                  if length key = 1 \<and> (\<exists>c \<in> set (internal_configs s). short_opt c = hd key) then None
                  else case xargs_search key s of Some v \<Rightarrow> Some v | None \<Rightarrow> getenv key)"

definition xargs_get_str :: "(bytes \<Rightarrow> bytes option) \<Rightarrow> bytes \<Rightarrow> args_state \<Rightarrow> bytes option" where
  "xargs_get_str getenv key s = xargs_get getenv key s"

text \<open>\<open>strtol (v, NULL, 0)\<close>, which saturates, and the cast to \<open>int\<close>, which cuts.\<close>

definition strtol0 :: "bytes \<Rightarrow> int" where
  "strtol0 v =
     (let (neg, u) = take_sign (dropWhile is_space v);
          n = (if begins [48, 120] u \<and> takeWhile is_xdigit (drop 2 u) \<noteq> [] then digits_val 16 (takeWhile is_xdigit (drop 2 u))
               else if take 1 u = [48] then digits_val 8 (takeWhile (\<lambda>c. 48 \<le> c \<and> c \<le> 55) u)
               else digits_val 10 (takeWhile is_digit u));
          n = (if neg then - n else n)
      in max (- (2 ^ 63)) (min (2 ^ 63 - 1) n))"

definition xargs_get_int :: "(bytes \<Rightarrow> bytes option) \<Rightarrow> bytes \<Rightarrow> args_state \<Rightarrow> u32" where
  "xargs_get_int getenv key s =
     (case xargs_get getenv key s of
        None \<Rightarrow> 0
      | Some v \<Rightarrow> if v = [] then 0 else word_of_int (strtol0 v))"

definition xargs_get_double :: "(bytes \<Rightarrow> bytes option) \<Rightarrow> bytes \<Rightarrow> args_state \<Rightarrow> dbl" where
  "xargs_get_double getenv key s =
     (case xargs_get getenv key s of
        None \<Rightarrow> Fin 0
      | Some v \<Rightarrow> if v = [] then Fin 0 else (case strtod v of Some (d, r) \<Rightarrow> d | None \<Rightarrow> Fin 0))"

definition xargs_get_bool :: "(bytes \<Rightarrow> bytes option) \<Rightarrow> bytes \<Rightarrow> args_state \<Rightarrow> bool" where
  "xargs_get_bool getenv key s =
     (case xargs_get getenv key s of
        None \<Rightarrow> False
      | Some v \<Rightarrow>
          v = [] \<or> map lower (take 15 v) \<in>
            {[49], [116, 114, 117, 101], [121, 101, 115], [111, 110], [100, 97, 101, 109, 111, 110]})"

section \<open>The configuration file\<close>

text \<open>\<open>fgets\<close> with a buffer of 4096 bytes: at most 4095 bytes, up to a newline.\<close>

definition fgets_line :: "bytes \<Rightarrow> bytes \<times> bytes" where
  "fgets_line file =
     (let n = (if 10 \<in> set (take 4095 file) then length (takeWhile (\<lambda>c. c \<noteq> 10) file) + 1 else 4095)
      in (take n file, drop n file))"

definition trim_right :: "(u8 \<Rightarrow> bool) \<Rightarrow> bytes \<Rightarrow> bytes" where
  "trim_right P s = rev (dropWhile P (rev s))"

abbreviation blank :: "u8 \<Rightarrow> bool" where
  "blank c \<equiv> c = 32 \<or> c = 9"

text \<open>The key and the value a line sets; \<open>strlen\<close> stops at a NUL of the file.\<close>

definition config_line :: "bytes \<Rightarrow> (bytes \<times> bytes) option" where
  "config_line line =
     (let line = trim_right (\<lambda>c. c = 10 \<or> c = 13) (takeWhile (\<lambda>c. c \<noteq> 0) line);
          p = dropWhile blank line
      in if p = [] \<or> hd p = 35 then None
         else case split_eq p of
                None \<Rightarrow> None
              | Some (k, v) \<Rightarrow>
                  let key = trim_right blank k
                  in if key = [] then None
                     else Some (take 255 key, trim_right blank (takeWhile (\<lambda>c. c \<noteq> 35) (dropWhile blank v))))"

definition set_line :: "bytes \<Rightarrow> args_state \<Rightarrow> args_state" where
  "set_line line s =
     (case config_line line of
        None \<Rightarrow> s
      | Some (k, v) \<Rightarrow> if hash_get k s = None then hash_set k v s else s)"

lemma fgets_shorter: "file \<noteq> [] \<Longrightarrow> length (snd (fgets_line file)) < length file"
  by (simp add: fgets_line_def Let_def)

function config_lines :: "bytes \<Rightarrow> bytes list" where
  "config_lines file = (if file = [] then [] else fst (fgets_line file) # config_lines (snd (fgets_line file)))"
  by pat_completeness auto

termination by (relation "measure length") (auto simp: fgets_shorter)

declare config_lines.simps [simp del]

definition xargs_load_config :: "bytes option \<Rightarrow> args_state \<Rightarrow> int \<times> args_state" where
  "xargs_load_config file s =
     (case file of
        None \<Rightarrow> (-1, s)
      | Some f \<Rightarrow> (0, foldl (\<lambda>s l. set_line l s) (hash_init s) (config_lines f)))"

definition xargs_cleanup :: "args_state \<Rightarrow> args_state" where
  "xargs_cleanup s = s\<lparr>hash_table := (\<lambda>_. []), hash_initialized := False\<rparr>"

end
