(* ===== verification/XArgsProps.thy ===== *)
theory XArgsProps
  imports XArgs
begin

text \<open>
  The table is a map whose last write counts; a file fills only what is not set, its first line for a key
  counting; an assignment at the end of the command line is what \<open>xargs_get\<close> gives, whatever defaults and
  files say.
\<close>

section \<open>The table as a map\<close>

lemma hash_get_set: "hash_get k (hash_set k' v s) = (if k = k' then Some v else hash_get k s)"
  by (auto simp: hash_get_def hash_set_def hash_init_def Let_def)

lemma hash_get_init [simp]: "hash_get k (hash_init s) = hash_get k s"
  by (simp add: hash_get_def hash_init_def Let_def)

lemma hash_get_fields [simp]:
  "hash_get k (s\<lparr>internal_configs := cs\<rparr>) = hash_get k s" "hash_get k (s\<lparr>other_args := o'\<rparr>) = hash_get k s"
  by (simp_all add: hash_get_def hash_init_def Let_def)

lemma hash_set_configs [simp]: "internal_configs (hash_set k v s) = internal_configs s"
  by (simp add: hash_set_def hash_init_def Let_def)

lemma set_config_configs [simp]: "internal_configs (set_config_value c v s) = internal_configs s"
  by (simp add: set_config_value_def Let_def split: option.split)

lemma assign_configs [simp]: "internal_configs (assign n v s) = internal_configs s"
  by (simp add: assign_def split: option.split)

lemma add_to_other_configs: "add_to_other a s = Some s' \<Longrightarrow> internal_configs s' = internal_configs s"
  by (auto simp: add_to_other_def Let_def split: if_splits)

lemma next_value_configs: "next_value c rest s = (u, s') \<Longrightarrow> internal_configs s' = internal_configs s"
  by (auto simp: next_value_def split: list.splits if_splits)

lemma parse_any_configs: "parse_any a rest s = Some (u, s') \<Longrightarrow> internal_configs s' = internal_configs s"
  by (auto simp: parse_any_def parse_arg_def Let_def add_to_other_configs
      dest: next_value_configs split: if_splits option.splits prod.splits)

text \<open>Only an argument that does not start with a dash is used as a value.\<close>

lemma next_value_used: "next_value c rest s = (True, s') \<Longrightarrow> \<exists>a as. rest = a # as \<and> take 1 a \<noteq> [45]"
  by (auto simp: next_value_def split: list.splits if_splits)

lemma parse_any_used: "parse_any a rest s = Some (True, s') \<Longrightarrow> \<exists>b bs. rest = b # bs \<and> take 1 b \<noteq> [45]"
  by (auto simp: parse_any_def parse_arg_def Let_def dest!: next_value_used split: if_splits option.splits prod.splits)

section \<open>The configuration file\<close>

lemma set_lines:
  "hash_get k (foldl (\<lambda>s l. set_line l s) s ls)
     = (case hash_get k s of Some v \<Rightarrow> Some v | None \<Rightarrow> map_of (List.map_filter config_line ls) k)"
proof (induction ls arbitrary: s)
  case Nil
  then show ?case by (simp add: List.map_filter_def split: option.split)
next
  case (Cons l ls)
  have mf: "List.map_filter config_line (l # ls)
      = (case config_line l of None \<Rightarrow> List.map_filter config_line ls | Some kv \<Rightarrow> kv # List.map_filter config_line ls)"
    by (simp add: List.map_filter_def split: option.split)
  show ?case
  proof (cases "config_line l")
    case None
    then have "set_line l s = s" by (simp add: set_line_def)
    then show ?thesis using Cons [of s] None by (simp add: mf split: option.split)
  next
    case (Some kv)
    obtain k' v where kv: "kv = (k', v)" by fastforce
    have "hash_get k (set_line l s) = (if k = k' \<and> hash_get k s = None then Some v else hash_get k s)"
      using Some kv by (auto simp: set_line_def hash_get_set)
    then show ?thesis using Cons [of "set_line l s"] Some kv
      by (auto simp: mf split: option.split)
  qed
qed

text \<open>C29. A configuration file only fills gaps: a key that is set (by the command line, a default, or an earlier
  file) keeps its value; any other key gets the value of the first line that sets it.\<close>

theorem config_fills_gaps:
  "hash_get k (snd (xargs_load_config (Some file) s))
     = (case hash_get k s of Some v \<Rightarrow> Some v | None \<Rightarrow> map_of (List.map_filter config_line (config_lines file)) k)"
  by (simp add: xargs_load_config_def set_lines)

lemma load_keeps: "hash_get k s = Some v \<Longrightarrow> hash_get k (snd (xargs_load_config f s)) = Some v"
  by (cases f) (simp_all add: xargs_load_config_def set_lines)

lemma loads_keep: "hash_get k s = Some v \<Longrightarrow> hash_get k (foldl (\<lambda>s f. snd (xargs_load_config f s)) s files) = Some v"
  by (induction files arbitrary: s) (simp_all add: load_keeps)

section \<open>The last assignment\<close>

definition assignment :: "bytes \<Rightarrow> bytes \<Rightarrow> bytes \<Rightarrow> bytes" where
  "assignment dashes name v = dashes @ name @ 61 # v"

lemma split_assignment: "61 \<notin> set name \<Longrightarrow> split_eq (name @ 61 # v) = Some (name, v)"
  by (auto simp: split_eq_def takeWhile_append dropWhile_append)

lemma parse_assignment:
  assumes "dashes \<in> {[45], [45, 45]}" and "61 \<notin> set name" and "name \<noteq> []" and "hd name \<noteq> 45"
  shows "parse_any (assignment dashes name v) rest s = Some (False, assign name v s)"
  using assms by (cases name) (auto simp: parse_any_def parse_arg_def assignment_def split_assignment [where name = "_ # _", simplified])

lemma parse_args_last:
  assumes "parse_args (pre @ [a]) s = Some s'" and "take 1 a = [45]"
    and "\<And>rest s. parse_any a rest s = Some (False, g s)"
  shows "\<exists>s0. s' = g s0 \<and> internal_configs s0 = internal_configs s"
  using assms(1)
proof (induction "length pre" arbitrary: pre s rule: less_induct)
  case less
  show ?case
  proof (cases pre)
    case Nil
    then show ?thesis using less.prems assms(3) by auto
  next
    case (Cons b bs)
    obtain used s1 where b: "parse_any b (bs @ [a]) s = Some (used, s1)"
      using less.prems Cons by (cases "parse_any b (bs @ [a]) s") auto
    note conf = parse_any_configs [OF b]
    show ?thesis
    proof (cases used)
      case False
      have "parse_args (bs @ [a]) s1 = Some s'"
        using less.prems Cons b False by (cases "bs @ [a]") (auto split: list.splits)
      from less.hyps [OF _ this] Cons conf show ?thesis by simp
    next
      case True
      obtain c cs where c: "bs = c # cs"
        using parse_any_used [of b "bs @ [a]" s s1] b True assms(2) by (cases bs) auto
      have "parse_args (cs @ [a]) s1 = Some s'" using less.prems Cons b True c by simp
      from less.hyps [OF _ this] Cons c conf show ?thesis by simp
    qed
  qed
qed

lemma hash_get_assign:
  assumes "length name \<noteq> 1 \<or> find_config name s \<noteq> None"
  shows "hash_get (if length name = 1 then dash (hd name) else name) (assign name v s) = Some v"
proof (cases "find_config name s")
  case None
  with assms show ?thesis by (simp add: assign_def hash_get_set)
next
  case (Some c)
  then have "if length name = 1 then short_opt c = hd name else long_opt c = Some name"
    by (auto simp: find_config_def find_Some_iff split: if_splits)
  with Some show ?thesis
    by (auto simp: assign_def set_config_value_def hash_get_set Let_def split: option.split if_splits)
qed

lemma fold_defaults_configs: "internal_configs (foldl (\<lambda>s c. set_defaults c s) s cs) = internal_configs s"
  by (induction cs arbitrary: s) (simp_all add: set_defaults_def Let_def split: option.split)

text \<open>C28. The last assignment on the command line wins: when the arguments end in \<open>-name=v\<close> or \<open>--name=v\<close>,
  \<open>xargs_get\<close> gives \<open>v\<close> for the name with any number of dashes, whatever comes before, the defaults, the
  files loaded later and the environment. (A name of one letter has to be registered.)\<close>

theorem command_line_wins:
  assumes "xargs_init configs (pre @ [assignment dashes name v]) s = Some s1" and "dashes \<in> {[45], [45, 45]}"
    and "61 \<notin> set name" and "name \<noteq> []" and "hd name \<noteq> 45" and "name \<noteq> OTHER_KEY"
    and "length name \<noteq> 1 \<or> (\<exists>c \<in> set configs. short_opt c = hd name)"
  shows "xargs_get getenv (replicate n 45 @ name) (foldl (\<lambda>s f. snd (xargs_load_config f s)) s1 files) = Some v"
proof -
  let ?s = "foldl (\<lambda>s c. set_defaults c s) ((hash_init s)\<lparr>internal_configs := configs, other_args := []\<rparr>) configs"
  let ?key = "if length name = 1 then dash (hd name) else name"
  obtain s2 where s2: "parse_args (pre @ [assignment dashes name v]) ?s = Some s2" "s1 = hash_set OTHER_KEY (other_args s2) s2"
    using assms(1) by (auto simp: xargs_init_def Let_def)
  have "take 1 (assignment dashes name v) = [45]" using assms(2) by (auto simp: assignment_def)
  from parse_args_last [OF s2(1) this parse_assignment [OF assms(2-5)]]
  obtain s0 where s0: "s2 = assign name v s0" "internal_configs s0 = configs"
    by (auto simp: fold_defaults_configs)
  have "length name \<noteq> 1 \<or> find_config name s0 \<noteq> None"
    using assms(7) s0(2) by (auto simp: find_config_def find_None_iff simp del: not_None_eq)
  from hash_get_assign [OF this] have "hash_get ?key s2 = Some v" using s0(1) by simp
  moreover have "?key \<noteq> OTHER_KEY" using assms(6) by (simp add: OTHER_KEY_def dash_def)
  ultimately have "hash_get ?key s1 = Some v" using s2(2) by (simp add: hash_get_set)
  from loads_keep [OF this]
  have "hash_get ?key (foldl (\<lambda>s f. snd (xargs_load_config f s)) s1 files) = Some v" .
  moreover have "dropWhile (\<lambda>c. c = 45) (replicate n 45 @ name) = name"
    using assms(4,5) by (cases name) (simp_all add: dropWhile_append)
  ultimately show ?thesis using assms(4) by (simp add: xargs_get_def xargs_get_raw_def Let_def)
qed

text \<open>An unregistered name of one letter is stored under the letter but looked up with a dash.\<close>

lemma letter_assignment_lost:
  assumes "k \<noteq> 45" and "k \<noteq> 61" and "\<not> hash_initialized s"
  shows "\<exists>s1. xargs_init [] [assignment [45] [k] v] s = Some s1 \<and> hash_get [k] s1 = Some v
    \<and> xargs_get getenv [k] s1 = getenv [k]"
proof -
  let ?s = "(hash_init s)\<lparr>internal_configs := [], other_args := []\<rparr>"
  have h: "hash_get j ?s = None" for j
    using assms(3) by (simp add: hash_get_def hash_init_def)
  have "parse_any (assignment [45] [k] v) [] ?s = Some (False, assign [k] v ?s)"
    using parse_assignment [of "[45]" "[k]" v "[]" ?s] assms(1,2) by simp
  then have "xargs_init [] [assignment [45] [k] v] s = Some (hash_set OTHER_KEY [] (hash_set [k] v ?s))"
    by (simp add: xargs_init_def assign_def find_config_def hash_set_def hash_init_def Let_def)
  moreover have "hash_get [k] (hash_set OTHER_KEY [] (hash_set [k] v ?s)) = Some v"
    by (simp add: hash_get_set OTHER_KEY_def)
  moreover have "xargs_get getenv [k] (hash_set OTHER_KEY [] (hash_set [k] v ?s)) = getenv [k]"
    using assms(1) h by (simp add: xargs_get_def xargs_get_raw_def xargs_search_def find_config_def hash_get_set dash_def
        OTHER_KEY_def after_key.simps Let_def)
  ultimately show ?thesis by blast
qed

section \<open>Witnesses\<close>

text \<open>\<open>-d --port 80 --port=81\<close> with the port registered, default 8080.\<close>

definition w_configs :: "xArgsCFG list" where
  "w_configs =
     [\<lparr>short_opt = 100, long_opt = Some [100, 98], default_value = None, is_flag = True\<rparr>,
      \<lparr>short_opt = 112, long_opt = Some [112, 111, 114, 116], default_value = Some [56, 48, 56, 48], is_flag = False\<rparr>]"

definition w_args_start :: args_state where
  "w_args_start = \<lparr>hash_table = (\<lambda>_. []), hash_initialized = False, internal_configs = [], other_args = []\<rparr>"

theorem command_line_wins_witness:
  "\<exists>s1. xargs_init w_configs [[45, 100], [45, 45, 112, 111, 114, 116], [56, 48], [45, 45, 112, 111, 114, 116, 61, 56, 49]] w_args_start
      = Some s1
    \<and> xargs_get (\<lambda>_. None) [45, 45, 112, 111, 114, 116]
        (snd (xargs_load_config (Some [112, 111, 114, 116, 61, 57, 10]) s1)) = Some [56, 49]"
proof -
  have a: "[45, 45, 112, 111, 114, 116, 61, 56, 49] = assignment [45, 45] [112, 111, 114, 116] [56, 49]"
    by (simp add: assignment_def)
  have r: "replicate 2 (45 :: u8) = [45, 45]" by (simp add: numeral_2_eq_2)
  obtain s1 where s1: "xargs_init w_configs ([[45, 100], [45, 45, 112, 111, 114, 116], [56, 48]]
      @ [assignment [45, 45] [112, 111, 114, 116] [56, 49]]) w_args_start = Some s1"
    by (simp add: xargs_init_def w_configs_def set_defaults_def Let_def parse_any_def
        parse_arg_def split_eq_def next_value_def find_config_def assignment_def)
  from command_line_wins [OF s1, of "\<lambda>_. None" 2 "[Some [112, 111, 114, 116, 61, 57, 10]]"] s1 show ?thesis
    by (simp add: OTHER_KEY_def r a)
qed

end
