(* ===== verification/XPoll.thy ===== *)
theory XPoll
  imports XHashOps
begin

text \<open>
  The event loop (\<open>xpoll.c\<close>): the registry of descriptors with its three backends (\<open>epoll\<close>, \<open>kqueue\<close>,
  \<open>poll\<close>), and the dispatch of events to callbacks. Entries live at addresses and are found through the
  table of \<open>xhash.h\<close>; \<open>poll\<close> also has its two compact arrays. A callback is a function of its arguments and of
  the loop that says which calls of the API it makes. The allocator and the kernel are parameters: a
  \<open>world\<close> answers the call with number \<open>n\<close>, and what the kernel reports is an argument of \<open>xpoll_poll\<close>.
\<close>

section \<open>Data\<close>

definition XPOLL_READABLE :: u32 where "XPOLL_READABLE = 1"
definition XPOLL_WRITABLE :: u32 where "XPOLL_WRITABLE = 2"
definition XPOLL_ERROR :: u32 where "XPOLL_ERROR = 4"
definition XPOLL_CLOSE :: u32 where "XPOLL_CLOSE = 8"
definition XPOLL_SETSIZE :: nat where "XPOLL_SETSIZE = 1024"

lemmas xpoll_masks = XPOLL_READABLE_def XPOLL_WRITABLE_def XPOLL_ERROR_def XPOLL_CLOSE_def

text \<open>Callbacks are numbered, 0 is NULL.\<close>

type_synonym proc = nat

record xPoolFD =
  fe_fd :: u32
  fe_mask :: u32
  fe_idx :: int
  fe_gen :: u32
  rfileProc :: proc
  wfileProc :: proc
  efileProc :: proc
  clientData :: nat

record pollfd =
  pf_fd :: u32
  pf_events :: u16
  pf_revents :: u16

text \<open>
  What a callback was called with, beside three facts for the specification: the generation of the entry
  its event was dispatched to, and the entry the registry had for the descriptor at that moment.
\<close>

record fired_call =
  fc_fd :: u32
  fc_mask :: u32
  fc_proc :: proc
  fc_data :: nat
  fc_gen :: u32
  fc_entry :: "xPoolFD option"

text \<open>
  \<open>fes\<close> is the memory of the entries, \<open>ep_set\<close> the interest list \<open>epoll\<close> keeps for the loop. \<open>fired\<close>,
  \<open>turns\<close> (the generations whose events were dispatched) and \<open>calls\<close> (the questions asked of the world) record
  what happened.
\<close>

record xPollState =
  fd_map :: xhash
  setsize :: nat
  nfds :: nat
  maxfd :: int
  next_gen :: u32
  fes :: "addr \<rightharpoonup> xPoolFD"
  ep_set :: "u32 \<rightharpoonup> u32"
  poll_fds :: "pollfd list"
  poll_fes :: "addr option list"
  fired :: "fired_call list"
  turns :: "u32 list"
  calls :: nat

text \<open>\<open>w_rdhup\<close> is \<open>POLLRDHUP\<close> where the platform defines it, else 0.\<close>

record world =
  w_malloc :: "nat \<Rightarrow> (addr \<Rightarrow> bool) \<Rightarrow> addr option"
  w_hash :: "nat \<Rightarrow> xhash_site \<Rightarrow> bool"
  w_call :: "nat \<Rightarrow> bool"
  w_rdhup :: u16

text \<open>The allocator returns memory that is not in use.\<close>

definition malloc_ok :: "world \<Rightarrow> bool" where
  "malloc_ok W \<longleftrightarrow> (\<forall>n used a. w_malloc W n used = Some a \<longrightarrow> a \<noteq> 0 \<and> \<not> used a)"

definition tick :: "xPollState \<Rightarrow> xPollState" where
  "tick s = s\<lparr>calls := calls s + 1\<rparr>"

section \<open>The registry\<close>

definition fd_key :: "u32 \<Rightarrow> u64" where
  "fd_key fd = scast fd"

definition fe_at :: "xPollState \<Rightarrow> addr \<Rightarrow> xPoolFD" where
  "fe_at s a = the (fes s a)"

definition upd_fe :: "addr \<Rightarrow> (xPoolFD \<Rightarrow> xPoolFD) \<Rightarrow> xPollState \<Rightarrow> xPollState" where
  "upd_fe a f s = s\<lparr>fes := (fes s)(a := map_option f (fes s a))\<rparr>"

definition fe_init :: "u32 \<Rightarrow> xPoolFD" where
  "fe_init fd = \<lparr>fe_fd = fd, fe_mask = 0, fe_idx = -1, fe_gen = 0, rfileProc = 0, wfileProc = 0, efileProc = 0,
                 clientData = 0\<rparr>"

definition fe_get :: "xPollState \<Rightarrow> u32 \<Rightarrow> addr option" where
  "fe_get s fd = (let p = xhash_get_int (fd_map s) (fd_key fd) in if p = 0 then None else Some p)"

definition fe_get_same :: "xPollState \<Rightarrow> u32 \<Rightarrow> addr \<Rightarrow> u32 \<Rightarrow> addr option" where
  "fe_get_same s fd expect gen =
     (case fe_get s fd of
        None \<Rightarrow> None
      | Some a \<Rightarrow> if a \<noteq> expect \<or> fe_gen (fe_at s a) \<noteq> gen \<or> fe_mask (fe_at s a) = 0 then None else Some a)"

definition fe_create :: "world \<Rightarrow> u32 \<Rightarrow> xPollState \<Rightarrow> addr option \<times> xPollState" where
  "fe_create W fd s =
     (case w_malloc W (calls s) (\<lambda>a. fes s a \<noteq> None) of
        None \<Rightarrow> (None, tick s)
      | Some a \<Rightarrow>
          let g = next_gen s + 1;
              s' = (tick (tick s))\<lparr>next_gen := g, fes := (fes s)(a \<mapsto> (fe_init fd)\<lparr>fe_gen := g\<rparr>)\<rparr>
          in case xhash_set_int (w_hash W (calls s + 1)) (fd_map s) (fd_key fd) a of
               (True, h) \<Rightarrow> (Some a, s'\<lparr>fd_map := h\<rparr>)
             | (False, h) \<Rightarrow> (None, s'\<lparr>fd_map := h, fes := (fes s')(a := None)\<rparr>))"

definition fe_destroy :: "addr \<Rightarrow> xPollState \<Rightarrow> xPollState" where
  "fe_destroy a s =
     s\<lparr>fd_map := snd (xhash_remove_int (fd_map s) (fd_key (fe_fd (fe_at s a)))), fes := (fes s)(a := None)\<rparr>"

text \<open>Callbacks that are not NULL replace the old ones; the client data always does.\<close>

definition set_procs :: "proc \<Rightarrow> proc \<Rightarrow> proc \<Rightarrow> nat \<Rightarrow> xPoolFD \<Rightarrow> xPoolFD" where
  "set_procs r w e d fe =
     fe\<lparr>rfileProc := (if r \<noteq> 0 then r else rfileProc fe), wfileProc := (if w \<noteq> 0 then w else wfileProc fe),
        efileProc := (if e \<noteq> 0 then e else efileProc fe), clientData := d\<rparr>"

fun maxfd_cb :: "xhashKey \<Rightarrow> ptr \<Rightarrow> int \<Rightarrow> bool \<times> int" where
  "maxfd_cb (KeyInt i) v m = (True, if sint (ucast i :: u32) > m then sint (ucast i :: u32) else m)"
| "maxfd_cb (KeyStr _) v m = (True, m)"

definition maxfd_recalc :: "xPollState \<Rightarrow> xPollState" where
  "maxfd_recalc s = s\<lparr>maxfd := snd (xhash_foreach (fd_map s) maxfd_cb (-1))\<rparr>"

definition raise_maxfd :: "u32 \<Rightarrow> xPollState \<Rightarrow> xPollState" where
  "raise_maxfd fd s = (if sint fd > maxfd s then s\<lparr>maxfd := sint fd\<rparr> else s)"

section \<open>Resizing\<close>

datatype backend = EPOLL | KQUEUE | POLL

definition clear_pfd :: pollfd where
  "clear_pfd = \<lparr>pf_fd = -1, pf_events = 0, pf_revents = 0\<rparr>"

definition pfd_clear :: "nat \<Rightarrow> xPollState \<Rightarrow> xPollState" where
  "pfd_clear i s = s\<lparr>poll_fds := (poll_fds s)[i := clear_pfd]\<rparr>"

text \<open>
  The size is an \<open>int\<close>; a negative one is below every capacity. When the second array of \<open>poll\<close> cannot be
  enlarged the first stays enlarged, but nothing uses the new part.
\<close>

definition xpoll_resize :: "backend \<Rightarrow> world \<Rightarrow> nat \<Rightarrow> xPollState \<Rightarrow> int \<times> xPollState" where
  "xpoll_resize b W n s =
     (if n \<le> setsize s then (0, s)
      else if \<not> w_call W (calls s) then (-1, tick s)
      else if b = POLL \<and> \<not> w_call W (calls s + 1) then (-1, tick (tick s))
      else let s' = (if b = POLL then
                       (tick (tick s))\<lparr>poll_fds := poll_fds s @ replicate (n - setsize s) clear_pfd,
                                     poll_fes := poll_fes s @ replicate (n - setsize s) None\<rparr>
                     else tick s);
               s' = (if hsize (fd_map s') < n then
                       (tick s')\<lparr>fd_map := snd (xhash_resize (w_hash W (calls s')) (fd_map s') n)\<rparr>
                     else s')
           in (0, s'\<lparr>setsize := n\<rparr>))"

section \<open>epoll\<close>

definition EPOLLIN :: u32 where "EPOLLIN = 1"
definition EPOLLOUT :: u32 where "EPOLLOUT = 4"
definition EPOLLERR :: u32 where "EPOLLERR = 8"
definition EPOLLHUP :: u32 where "EPOLLHUP = 16"
definition EPOLLRDHUP :: u32 where "EPOLLRDHUP = 0x2000"

definition epoll_events :: "u32 \<Rightarrow> u32" where
  "epoll_events msk =
     (if msk AND XPOLL_READABLE \<noteq> 0 then EPOLLIN else 0) OR (if msk AND XPOLL_WRITABLE \<noteq> 0 then EPOLLOUT else 0)
       OR (EPOLLERR OR EPOLLHUP OR EPOLLRDHUP)"

text \<open>
  \<open>epoll_ctl\<close>: an addition or a change may fail; a removal only fails for a descriptor that is not in the
  list (any more).
\<close>

datatype ctl_op = EPOLL_CTL_ADD | EPOLL_CTL_MOD | EPOLL_CTL_DEL

definition epoll_ctl :: "world \<Rightarrow> ctl_op \<Rightarrow> u32 \<Rightarrow> u32 \<Rightarrow> xPollState \<Rightarrow> bool \<times> xPollState" where
  "epoll_ctl W op fd ev s =
     (case op of
        EPOLL_CTL_DEL \<Rightarrow> (ep_set s fd \<noteq> None, (tick s)\<lparr>ep_set := (ep_set s)(fd := None)\<rparr>)
      | _ \<Rightarrow> if w_call W (calls s) then (True, (tick s)\<lparr>ep_set := (ep_set s)(fd \<mapsto> ev)\<rparr>) else (False, tick s))"

definition ep_add_event ::
  "world \<Rightarrow> u32 \<Rightarrow> u32 \<Rightarrow> proc \<Rightarrow> proc \<Rightarrow> proc \<Rightarrow> nat \<Rightarrow> xPollState \<Rightarrow> int \<times> xPollState" where
  "ep_add_event W fd msk r w e d s =
     (let is_new = (fe_get s fd = None)
      in case (case fe_get s fd of Some a \<Rightarrow> (Some a, s) | None \<Rightarrow> fe_create W fd s) of
           (None, s) \<Rightarrow> (-1, s)
         | (Some a, s) \<Rightarrow>
             let old = fe_at s a;
                 new_mask = fe_mask old OR msk;
                 s = upd_fe a (set_procs r w e d) s
             in if new_mask = fe_mask old \<and> \<not> is_new then (0, s)
                else case epoll_ctl W (if is_new then EPOLL_CTL_ADD else EPOLL_CTL_MOD) fd (epoll_events new_mask)
                            (upd_fe a (\<lambda>fe. fe\<lparr>fe_mask := new_mask\<rparr>) s) of
                       (False, s) \<Rightarrow> (-1, if is_new then fe_destroy a s else upd_fe a (\<lambda>_. old) s)
                     | (True, s) \<Rightarrow>
                         let s = (if is_new then s\<lparr>nfds := nfds s + 1\<rparr> else s) in (0, raise_maxfd fd s))"

text \<open>What all backends do when a descriptor leaves the registry.\<close>

definition drop_fe :: "u32 \<Rightarrow> addr \<Rightarrow> xPollState \<Rightarrow> xPollState" where
  "drop_fe fd a s =
     (let s = fe_destroy a s; s = s\<lparr>nfds := nfds s - 1\<rparr> in if maxfd s = sint fd then maxfd_recalc s else s)"

definition ep_del_event :: "world \<Rightarrow> u32 \<Rightarrow> u32 \<Rightarrow> addr \<Rightarrow> xPollState \<Rightarrow> xPollState" where
  "ep_del_event W fd msk a s =
     (let old_mask = fe_mask (fe_at s a); new_mask = old_mask AND NOT msk
      in if new_mask = old_mask then s
         else if new_mask = 0 then drop_fe fd a (snd (epoll_ctl W EPOLL_CTL_DEL fd 0 s))
         else case epoll_ctl W EPOLL_CTL_MOD fd (epoll_events new_mask) s of
                (True, s) \<Rightarrow> upd_fe a (\<lambda>fe. fe\<lparr>fe_mask := new_mask\<rparr>) s
              | (False, s) \<Rightarrow> s)"

definition ep_mask :: "u32 \<Rightarrow> u32" where
  "ep_mask ev =
     (if ev AND EPOLLIN \<noteq> 0 then XPOLL_READABLE else 0) OR (if ev AND EPOLLOUT \<noteq> 0 then XPOLL_WRITABLE else 0)
       OR (if ev AND (EPOLLRDHUP OR EPOLLHUP) \<noteq> 0 \<and> ev AND EPOLLIN = 0 then XPOLL_CLOSE else 0)
       OR (if ev AND EPOLLERR \<noteq> 0 then XPOLL_ERROR OR XPOLL_CLOSE else 0)"

section \<open>kqueue\<close>

text \<open>A call of \<open>kevent\<close> with changes; with none there is no call.\<close>

definition kq_changed :: "u32 \<Rightarrow> u32 \<Rightarrow> u32 \<Rightarrow> bool" where
  "kq_changed flag m m' \<longleftrightarrow> m' AND flag \<noteq> 0 \<and> m AND flag = 0"

definition kq_changes :: "u32 \<Rightarrow> u32 \<Rightarrow> bool" where
  "kq_changes m m' \<longleftrightarrow> kq_changed XPOLL_READABLE m m' \<or> kq_changed XPOLL_WRITABLE m m'"

definition kq_add_event ::
  "world \<Rightarrow> u32 \<Rightarrow> u32 \<Rightarrow> proc \<Rightarrow> proc \<Rightarrow> proc \<Rightarrow> nat \<Rightarrow> xPollState \<Rightarrow> int \<times> xPollState" where
  "kq_add_event W fd msk r w e d s =
     (let is_new = (fe_get s fd = None)
      in case (case fe_get s fd of Some a \<Rightarrow> (Some a, s) | None \<Rightarrow> fe_create W fd s) of
           (None, s) \<Rightarrow> (-1, s)
         | (Some a, s) \<Rightarrow>
             let old_mask = fe_mask (fe_at s a); new_mask = old_mask OR msk
             in if new_mask = old_mask \<and> \<not> is_new then (0, upd_fe a (set_procs r w e d) s)
                else let ch = kq_changes old_mask new_mask; ok = w_call W (calls s); s = (if ch then tick s else s)
                     in if ch \<and> \<not> ok then (-1, if is_new then fe_destroy a s else s)
                        else let s = upd_fe a (\<lambda>fe. (set_procs r w e d fe)\<lparr>fe_mask := new_mask\<rparr>) s;
                                 s = (if is_new then s\<lparr>nfds := nfds s + 1\<rparr> else s)
                             in (0, raise_maxfd fd s))"

definition kq_del_event :: "u32 \<Rightarrow> u32 \<Rightarrow> addr \<Rightarrow> xPollState \<Rightarrow> xPollState" where
  "kq_del_event fd msk a s =
     (let old_mask = fe_mask (fe_at s a); new_mask = old_mask AND NOT msk
      in if new_mask = old_mask then s
         else let s = (if kq_changes new_mask old_mask then tick s else s);
                  s = upd_fe a (\<lambda>fe. fe\<lparr>fe_mask := new_mask\<rparr>) s
              in if new_mask = 0 then drop_fe fd a s else s)"

record kevent =
  ke_ident :: u32
  ke_write :: bool
  ke_eof :: bool
  ke_error :: bool
  ke_data :: int

definition kq_mask :: "kevent \<Rightarrow> u32" where
  "kq_mask ke =
     (let readable = \<not> ke_write ke \<and> (\<not> ke_eof ke \<or> ke_data ke > 0)
      in (if readable then XPOLL_READABLE else 0) OR (if ke_write ke then XPOLL_WRITABLE else 0)
           OR (if ke_eof ke \<and> \<not> readable then XPOLL_CLOSE else 0) OR (if ke_error ke then XPOLL_ERROR else 0))"

section \<open>poll\<close>

definition POLLIN :: u16 where "POLLIN = 1"
definition POLLOUT :: u16 where "POLLOUT = 4"
definition POLLERR :: u16 where "POLLERR = 8"
definition POLLHUP :: u16 where "POLLHUP = 16"
definition POLLNVAL :: u16 where "POLLNVAL = 32"

definition poll_events :: "world \<Rightarrow> u32 \<Rightarrow> u16" where
  "poll_events W msk =
     (if msk AND XPOLL_READABLE \<noteq> 0 then POLLIN else 0) OR (if msk AND XPOLL_WRITABLE \<noteq> 0 then POLLOUT else 0)
       OR w_rdhup W"

definition pfd_sync :: "world \<Rightarrow> nat \<Rightarrow> xPollState \<Rightarrow> xPollState" where
  "pfd_sync W i s =
     s\<lparr>poll_fds := (poll_fds s)[i := (poll_fds s ! i)\<lparr>pf_events :=
         (case poll_fes s ! i of None \<Rightarrow> 0 | Some a \<Rightarrow> poll_events W (fe_mask (fe_at s a)))\<rparr>]\<rparr>"

definition pl_new_entry :: "world \<Rightarrow> u32 \<Rightarrow> xPollState \<Rightarrow> addr option \<times> xPollState" where
  "pl_new_entry W fd s =
     (case (if nfds s \<ge> setsize s then xpoll_resize POLL W (setsize s * 2) s else (0, s)) of
        (rc, s) \<Rightarrow>
          if rc < 0 then (None, s)
          else case fe_create W fd s of
                 (None, s) \<Rightarrow> (None, s)
               | (Some a, s) \<Rightarrow>
                   let i = nfds s; s = upd_fe a (\<lambda>fe. fe\<lparr>fe_idx := int i\<rparr>) s
                   in (Some a, s\<lparr>poll_fds := (poll_fds s)[i := (poll_fds s ! i)\<lparr>pf_fd := fd\<rparr>],
                                 poll_fes := (poll_fes s)[i := Some a], nfds := i + 1\<rparr>))"

definition pl_add_event ::
  "world \<Rightarrow> u32 \<Rightarrow> u32 \<Rightarrow> proc \<Rightarrow> proc \<Rightarrow> proc \<Rightarrow> nat \<Rightarrow> xPollState \<Rightarrow> int \<times> xPollState" where
  "pl_add_event W fd msk r w e d s =
     (let is_new = (fe_get s fd = None)
      in case (case fe_get s fd of Some a \<Rightarrow> (Some a, s) | None \<Rightarrow> pl_new_entry W fd s) of
           (None, s) \<Rightarrow> (-1, s)
         | (Some a, s) \<Rightarrow>
             if \<not> is_new \<and> fe_mask (fe_at s a) AND msk = msk then (0, upd_fe a (set_procs r w e d) s)
             else let s = upd_fe a (\<lambda>fe. set_procs r w e d (fe\<lparr>fe_mask := fe_mask fe OR msk\<rparr>)) s;
                      s = pfd_sync W (nat (fe_idx (fe_at s a))) s
                  in (0, raise_maxfd fd s))"

text \<open>The last slot moves into the freed one.\<close>

definition pl_compact :: "nat \<Rightarrow> nat \<Rightarrow> xPollState \<Rightarrow> xPollState" where
  "pl_compact i lst s =
     (let s = (if i \<noteq> lst then
                 let moved = poll_fes s ! lst;
                     s = s\<lparr>poll_fds := (poll_fds s)[i := poll_fds s ! lst], poll_fes := (poll_fes s)[i := moved]\<rparr>
                 in (case moved of None \<Rightarrow> s | Some m \<Rightarrow> upd_fe m (\<lambda>fe. fe\<lparr>fe_idx := int i\<rparr>) s)
               else s);
          s = pfd_clear lst s
      in s\<lparr>poll_fes := (poll_fes s)[lst := None]\<rparr>)"

definition pl_del_event :: "world \<Rightarrow> u32 \<Rightarrow> u32 \<Rightarrow> addr \<Rightarrow> xPollState \<Rightarrow> xPollState" where
  "pl_del_event W fd msk a s =
     (let s = upd_fe a (\<lambda>fe. fe\<lparr>fe_mask := fe_mask fe AND NOT msk\<rparr>) s
      in if fe_mask (fe_at s a) = 0 then
           let i = nat (fe_idx (fe_at s a)); lst = nfds s - 1; removed_fd = fe_fd (fe_at s a);
               s = fe_destroy a s; s = pl_compact i lst s; s = s\<lparr>nfds := nfds s - 1\<rparr>
           in if maxfd s = sint removed_fd then maxfd_recalc s else s
         else pfd_sync W (nat (fe_idx (fe_at s a))) s)"

definition pl_mask :: "world \<Rightarrow> u16 \<Rightarrow> u32" where
  "pl_mask W rv =
     (if rv AND POLLIN \<noteq> 0 then XPOLL_READABLE else 0) OR (if rv AND POLLOUT \<noteq> 0 then XPOLL_WRITABLE else 0)
       OR (if rv AND w_rdhup W \<noteq> 0 \<and> rv AND POLLIN = 0 then XPOLL_CLOSE else 0)
       OR (if rv AND POLLHUP \<noteq> 0 \<and> rv AND POLLIN = 0 then XPOLL_CLOSE else 0)
       OR (if rv AND (POLLERR OR POLLNVAL) \<noteq> 0 then XPOLL_ERROR OR XPOLL_CLOSE else 0)"

section \<open>The calls of the API\<close>

definition xpoll_add_event ::
  "backend \<Rightarrow> world \<Rightarrow> u32 \<Rightarrow> u32 \<Rightarrow> proc \<Rightarrow> proc \<Rightarrow> proc \<Rightarrow> nat \<Rightarrow> xPollState \<Rightarrow> int \<times> xPollState" where
  "xpoll_add_event b =
     (case b of EPOLL \<Rightarrow> ep_add_event | KQUEUE \<Rightarrow> kq_add_event | POLL \<Rightarrow> pl_add_event)"

definition xpoll_del_event :: "backend \<Rightarrow> world \<Rightarrow> u32 \<Rightarrow> u32 \<Rightarrow> xPollState \<Rightarrow> xPollState" where
  "xpoll_del_event b W fd msk s =
     (case fe_get s fd of
        None \<Rightarrow> s
      | Some a \<Rightarrow>
          (case b of EPOLL \<Rightarrow> ep_del_event W fd msk a s | KQUEUE \<Rightarrow> kq_del_event fd msk a s
           | POLL \<Rightarrow> pl_del_event W fd msk a s))"

definition xpoll_set_client_data :: "u32 \<Rightarrow> nat \<Rightarrow> xPollState \<Rightarrow> xPollState" where
  "xpoll_set_client_data fd d s =
     (case fe_get s fd of None \<Rightarrow> s | Some a \<Rightarrow> upd_fe a (\<lambda>fe. fe\<lparr>clientData := d\<rparr>) s)"

definition xpoll_get_client_data :: "u32 \<Rightarrow> xPollState \<Rightarrow> nat" where
  "xpoll_get_client_data fd s = (case fe_get s fd of None \<Rightarrow> 0 | Some a \<Rightarrow> clientData (fe_at s a))"

definition xpoll_get_fd :: "backend \<Rightarrow> u32 \<Rightarrow> xPollState \<Rightarrow> int" where
  "xpoll_get_fd b fd s =
     (case fe_get s fd of None \<Rightarrow> -1 | Some a \<Rightarrow> if b = POLL then fe_idx (fe_at s a) else sint fd)"

definition xpoll_fd_count :: "xPollState \<Rightarrow> nat" where
  "xpoll_fd_count s = nfds s"

text \<open>
  The loop of the thread, if it has one; failures of the backend's allocations give -3. \<open>xpoll_init\<close> is
  the instance for the capacity the code starts with.
\<close>

definition xpoll_init_size :: "nat \<Rightarrow> backend \<Rightarrow> world \<Rightarrow> xPollState option \<Rightarrow> int \<times> xPollState option" where
  "xpoll_init_size n b W loop =
     (if loop \<noteq> None then (0, loop)
      else if \<not> w_call W 0 then (-1, None)
      else case xhash_create (w_hash W 0) n XHASH_KEY_INT of
             None \<Rightarrow> (-2, None)
           | Some h \<Rightarrow>
               if \<not> w_call W 1 \<or> \<not> w_call W 2 then (-3, None)
               else (0, Some \<lparr>fd_map = h, setsize = n, nfds = 0, maxfd = -1, next_gen = 0,
                              fes = Map.empty, ep_set = Map.empty,
                              poll_fds = (if b = POLL then replicate n clear_pfd else []),
                              poll_fes = (if b = POLL then replicate n None else []),
                              fired = [], turns = [], calls = 3\<rparr>))"

definition xpoll_init :: "backend \<Rightarrow> world \<Rightarrow> xPollState option \<Rightarrow> int \<times> xPollState option" where
  "xpoll_init = xpoll_init_size XPOLL_SETSIZE"

text \<open>The memory that \<open>xpoll_uninit\<close> frees.\<close>

definition xpoll_uninit :: "xPollState option \<Rightarrow> xhash_freed list" where
  "xpoll_uninit loop = (case loop of None \<Rightarrow> [] | Some s \<Rightarrow> xhash_destroy (fd_map s) True)"

datatype poll_op =
    Add_event u32 u32 proc proc proc nat
  | Del_event u32 u32
  | Set_data u32 nat
  | Resize u32

fun run_op :: "backend \<Rightarrow> world \<Rightarrow> poll_op \<Rightarrow> xPollState \<Rightarrow> xPollState" where
  "run_op b W (Add_event fd msk r w e d) s = snd (xpoll_add_event b W fd msk r w e d s)"
| "run_op b W (Del_event fd msk) s = xpoll_del_event b W fd msk s"
| "run_op b W (Set_data fd d) s = xpoll_set_client_data fd d s"
| "run_op b W (Resize n) s = snd (xpoll_resize b W (nat (sint n)) s)"

definition run_calls :: "backend \<Rightarrow> world \<Rightarrow> poll_op list \<Rightarrow> xPollState \<Rightarrow> xPollState" where
  "run_calls b W ops s = foldl (\<lambda>s op. run_op b W op s) s ops"

section \<open>Dispatch\<close>

type_synonym handlers = "proc \<Rightarrow> u32 \<Rightarrow> u32 \<Rightarrow> nat \<Rightarrow> xPollState \<Rightarrow> poll_op list"

definition call_proc ::
  "backend \<Rightarrow> world \<Rightarrow> handlers \<Rightarrow> proc \<Rightarrow> u32 \<Rightarrow> u32 \<Rightarrow> addr \<Rightarrow> u32 \<Rightarrow> xPollState \<Rightarrow> xPollState" where
  "call_proc b W H p fd msk a gen s =
     (if p = 0 then s
      else let d = clientData (fe_at s a);
               s' = s\<lparr>fired := fired s @ [\<lparr>fc_fd = fd, fc_mask = msk, fc_proc = p, fc_data = d, fc_gen = gen,
                      fc_entry = Option.bind (fe_get s fd) (fes s)\<rparr>]\<rparr>
           in run_calls b W (H p fd msk d s') s')"

text \<open>The part of a dispatch for the events \<open>flags\<close>: the callback is called with \<open>arg\<close>.\<close>

definition step_proc ::
  "backend \<Rightarrow> world \<Rightarrow> handlers \<Rightarrow> (xPoolFD \<Rightarrow> proc) \<Rightarrow> u32 \<Rightarrow> u32 \<Rightarrow> u32 \<Rightarrow> u32 \<Rightarrow> addr \<Rightarrow> u32 \<Rightarrow> xPollState
     \<Rightarrow> xPollState" where
  "step_proc b W H sel flags arg msk fd a gen s =
     (if msk AND flags \<noteq> 0 then call_proc b W H (sel (fe_at s a)) fd arg a gen s else s)"

text \<open>An event with the given mask for the entry at \<open>a\<close>: write, read, then error.\<close>

definition dispatch :: "backend \<Rightarrow> world \<Rightarrow> handlers \<Rightarrow> addr \<Rightarrow> u32 \<Rightarrow> xPollState \<Rightarrow> xPollState" where
  "dispatch b W H a msk s =
     (let fd = fe_fd (fe_at s a);
          gen = fe_gen (fe_at s a);
          s = s\<lparr>turns := turns s @ [gen]\<rparr>;
          s = step_proc b W H wfileProc XPOLL_WRITABLE XPOLL_WRITABLE msk fd a gen s
      in case fe_get_same s fd a gen of
           None \<Rightarrow> s
         | Some a \<Rightarrow>
             let s = step_proc b W H rfileProc XPOLL_READABLE XPOLL_READABLE msk fd a gen s
             in case fe_get_same s fd a gen of
                  None \<Rightarrow> s
                | Some a \<Rightarrow>
                    step_proc b W H efileProc (XPOLL_ERROR OR XPOLL_CLOSE) (msk AND (XPOLL_ERROR OR XPOLL_CLOSE))
                      msk fd a gen s)"

text \<open>The result of a wait: an error, which may be an interruption, or what is ready.\<close>

datatype 'e wait = Wait_failed bool | Ready "'e list"

text \<open>\<open>epoll\<close> and \<open>kqueue\<close> find the entry by its descriptor.\<close>

definition dispatch_fd ::
  "backend \<Rightarrow> world \<Rightarrow> handlers \<Rightarrow> int \<times> xPollState \<Rightarrow> u32 \<times> u32 \<Rightarrow> int \<times> xPollState" where
  "dispatch_fd b W H = (\<lambda>(n, s) (sfd, msk).
     case fe_get s sfd of
       None \<Rightarrow> (n, s)
     | Some a \<Rightarrow> if fe_mask (fe_at s a) = 0 then (n, s) else (n + 1, dispatch b W H a msk s))"

definition ep_poll :: "world \<Rightarrow> handlers \<Rightarrow> (u32 \<times> u32) wait \<Rightarrow> xPollState \<Rightarrow> int \<times> xPollState" where
  "ep_poll W H res s =
     (case res of
        Wait_failed eintr \<Rightarrow> (if eintr then 0 else -1, s)
      | Ready evs \<Rightarrow> foldl (dispatch_fd EPOLL W H) (0, s) (map (\<lambda>(fd, ev). (fd, ep_mask ev)) evs))"

definition kq_poll :: "world \<Rightarrow> handlers \<Rightarrow> kevent wait \<Rightarrow> xPollState \<Rightarrow> int \<times> xPollState" where
  "kq_poll W H res s =
     (case res of
        Wait_failed eintr \<Rightarrow> (if eintr then 0 else -1, s)
      | Ready kes \<Rightarrow> foldl (dispatch_fd KQUEUE W H) (0, s) (map (\<lambda>ke. (ke_ident ke, kq_mask ke)) kes))"

text \<open>The bound on the number of events \<open>epoll_wait\<close> and \<open>kevent\<close> may return.\<close>

definition max_events :: "xPollState \<Rightarrow> nat" where
  "max_events s = min (if nfds s > 0 then nfds s else 1) (setsize s)"

text \<open>\<open>poll\<close> writes \<open>revents\<close> of the slots in use and goes through them from the last to the first.\<close>

definition set_revents :: "u16 list \<Rightarrow> xPollState \<Rightarrow> xPollState" where
  "set_revents revs s =
     s\<lparr>poll_fds := map (\<lambda>(rv, p). p\<lparr>pf_revents := rv\<rparr>) (zip revs (take (nfds s) (poll_fds s)))
                     @ drop (nfds s) (poll_fds s)\<rparr>"

definition pl_turn :: "world \<Rightarrow> handlers \<Rightarrow> nat \<Rightarrow> int \<times> xPollState \<Rightarrow> int \<times> xPollState" where
  "pl_turn W H i = (\<lambda>(n, s).
     let p = poll_fds s ! i; rv = pf_revents p
     in if sint (pf_fd p) < 0 \<or> rv = 0 then (n, s)
        else let s = s\<lparr>poll_fds := (poll_fds s)[i := p\<lparr>pf_revents := 0\<rparr>]\<rparr>
             in case poll_fes s ! i of
                  None \<Rightarrow> (n, s)
                | Some a \<Rightarrow> (n + 1, dispatch POLL W H a (pl_mask W rv) s))"

fun pl_turns :: "world \<Rightarrow> handlers \<Rightarrow> nat \<Rightarrow> int \<times> xPollState \<Rightarrow> int \<times> xPollState" where
  "pl_turns W H 0 r = r"
| "pl_turns W H (Suc i) r = pl_turns W H i (pl_turn W H i r)"

definition pl_poll :: "world \<Rightarrow> handlers \<Rightarrow> u16 wait \<Rightarrow> xPollState \<Rightarrow> int \<times> xPollState" where
  "pl_poll W H res s =
     (case res of
        Wait_failed again \<Rightarrow> (if again then 0 else -1, s)
      | Ready revs \<Rightarrow>
          if \<forall>r \<in> set revs. r = 0 then (0, set_revents revs s)
          else pl_turns W H (nfds s) (0, set_revents revs s))"

text \<open>\<open>xpoll_poll\<close>, by what the kernel reports to the backend.\<close>

datatype report =
    Epoll_report "(u32 \<times> u32) wait"
  | Kqueue_report "kevent wait"
  | Poll_report "u16 wait"

fun xpoll_poll :: "world \<Rightarrow> handlers \<Rightarrow> report \<Rightarrow> xPollState \<Rightarrow> int \<times> xPollState" where
  "xpoll_poll W H (Epoll_report res) s = ep_poll W H res s"
| "xpoll_poll W H (Kqueue_report res) s = kq_poll W H res s"
| "xpoll_poll W H (Poll_report res) s = pl_poll W H res s"

text \<open>What the kernel may report: no more events than there is room for, one \<open>revents\<close> for each slot.\<close>

fun report_ok :: "backend \<Rightarrow> report \<Rightarrow> xPollState \<Rightarrow> bool" where
  "report_ok b (Epoll_report (Ready evs)) s = (b = EPOLL \<and> length evs \<le> max_events s)"
| "report_ok b (Kqueue_report (Ready kes)) s = (b = KQUEUE \<and> length kes \<le> max_events s)"
| "report_ok b (Poll_report (Ready revs)) s = (b = POLL \<and> length revs = nfds s)"
| "report_ok b (Epoll_report _) s = (b = EPOLL)"
| "report_ok b (Kqueue_report _) s = (b = KQUEUE)"
| "report_ok b (Poll_report _) s = (b = POLL)"

text \<open>A thread that calls the API and waits in turn; None stands for a report that cannot be.\<close>

datatype loop_step = Call poll_op | Wait report

fun loop_run :: "backend \<Rightarrow> world \<Rightarrow> handlers \<Rightarrow> loop_step list \<Rightarrow> xPollState \<Rightarrow> xPollState option" where
  "loop_run b W H [] s = Some s"
| "loop_run b W H (Call op # steps) s = loop_run b W H steps (run_op b W op s)"
| "loop_run b W H (Wait rep # steps) s =
     (if report_ok b rep s then loop_run b W H steps (snd (xpoll_poll W H rep s)) else None)"

end
