(* ===== verification/XPollInv.thy ===== *)
theory XPollInv
  imports XPoll
begin

text \<open>
  The invariant of the event loop: the table and the memory of the entries agree, generations tell entries
  apart, the counters are right, the interest list of \<open>epoll\<close> and the arrays of \<open>poll\<close> mirror the registry.
\<close>

section \<open>The table and the memory of the entries\<close>

lemma fd_of_key [simp]: "ucast (fd_key fd) = fd"
  unfolding fd_key_def by (rule bit_word_eqI) (auto simp: bit_simps)

lemma fd_key_inject [simp]: "fd_key a = fd_key b \<longleftrightarrow> a = b"
  by (metis fd_of_key)

definition map_ok :: "xhash \<Rightarrow> (addr \<rightharpoonup> xPoolFD) \<Rightarrow> bool" where
  "map_ok h f \<longleftrightarrow> int_inv h
     \<and> (\<forall>k a. int_abs h k = Some a \<longrightarrow> a \<noteq> 0 \<and> (\<exists>fe. f a = Some fe \<and> fd_key (fe_fd fe) = k))
     \<and> (\<forall>a fe. f a = Some fe \<longrightarrow> int_abs h (fd_key (fe_fd fe)) = Some a)
     \<and> xhash_size h \<le> 2 ^ 31"

lemma map_okD:
  assumes "map_ok h f"
  shows "int_inv h" and "int_abs h k = Some a \<Longrightarrow> a \<noteq> 0 \<and> (\<exists>fe. f a = Some fe \<and> fd_key (fe_fd fe) = k)"
    and "f a = Some fe \<Longrightarrow> int_abs h (fd_key (fe_fd fe)) = Some a" and "xhash_size h \<le> 2 ^ 31"
  using assms unfolding map_ok_def by blast+

text \<open>The table has one key for each entry.\<close>

lemma map_ok_size:
  assumes "map_ok h f"
  shows "finite (dom f) \<and> card (dom f) = xhash_size h"
proof -
  have d: "dom f = (\<lambda>k. the (int_abs h k)) ` dom (int_abs h)"
  proof (intro set_eqI iffI)
    fix a assume "a \<in> dom f"
    then obtain fe where "f a = Some fe" by blast
    from map_okD(3) [OF assms this] show "a \<in> (\<lambda>k. the (int_abs h k)) ` dom (int_abs h)"
      by (intro image_eqI [of _ _ "fd_key (fe_fd fe)"]) auto
  qed (use map_okD(2) [OF assms] in fastforce)
  have "inj_on (\<lambda>k. the (int_abs h k)) (dom (int_abs h))"
  proof (rule inj_onI)
    fix k l assume "k \<in> dom (int_abs h)" "l \<in> dom (int_abs h)" "the (int_abs h k) = the (int_abs h l)"
    then obtain a where "int_abs h k = Some a" "int_abs h l = Some a" by auto
    with map_okD(2) [OF assms, of k a] map_okD(2) [OF assms, of l a] show "k = l" by auto
  qed
  then show ?thesis unfolding d using ih.entries_law [OF map_okD(1) [OF assms]] by (simp add: card_image)
qed

lemma map_ok_same_fd: "map_ok h f \<Longrightarrow> f a = Some x \<Longrightarrow> f b = Some y \<Longrightarrow> fe_fd x = fe_fd y \<Longrightarrow> a = b"
  using map_okD(3) [of h f a x] map_okD(3) [of h f b y] by simp

lemma fe_get_Some:
  assumes "map_ok (fd_map s) (fes s)"
  shows "fe_get s fd = Some a \<longleftrightarrow> (\<exists>fe. fes s a = Some fe \<and> fe_fd fe = fd)"
proof
  assume "fe_get s fd = Some a"
  then have "int_abs (fd_map s) (fd_key fd) = Some a"
    by (auto simp: fe_get_def Let_def ih.fetch_law [OF map_okD(1) [OF assms]] split: if_splits option.splits)
  from map_okD(2) [OF assms this] show "\<exists>fe. fes s a = Some fe \<and> fe_fd fe = fd" by auto
next
  assume "\<exists>fe. fes s a = Some fe \<and> fe_fd fe = fd"
  then have "int_abs (fd_map s) (fd_key fd) = Some a" using map_okD(3) [OF assms] by auto
  with map_okD(2) [OF assms this] show "fe_get s fd = Some a"
    by (simp add: fe_get_def ih.fetch_law [OF map_okD(1) [OF assms]])
qed

lemma fe_get_None:
  "map_ok (fd_map s) (fes s) \<Longrightarrow> fe_get s fd = None \<longleftrightarrow> (\<forall>a fe. fes s a = Some fe \<longrightarrow> fe_fd fe \<noteq> fd)"
  using fe_get_Some by (metis option.exhaust option.simps(3))

lemma map_ok_add:
  assumes "map_ok h f" and "f a = None" and "a \<noteq> 0" and "\<And>b x. f b = Some x \<Longrightarrow> fe_fd x \<noteq> fe_fd fe"
    and "xhash_set_int ok h (fd_key (fe_fd fe)) a = (True, h')" and "card (dom f) < 2 ^ 31"
  shows "map_ok h' (f(a \<mapsto> fe))"
proof -
  from ih.put_law [OF map_okD(1) [OF assms(1)] assms(5)]
  have h: "int_inv h'" "int_abs h' = (int_abs h)(fd_key (fe_fd fe) \<mapsto> a)" by simp_all
  show ?thesis
    using assms(2-4) map_okD(2,3) [OF assms(1)] ih.put_entries [OF map_okD(1) [OF assms(1)] assms(5)]
      map_ok_size [OF assms(1)] assms(6) by (fastforce simp: map_ok_def h)
qed

lemma map_ok_fail:
  "map_ok h f \<Longrightarrow> xhash_set_int ok h k a = (False, h') \<Longrightarrow> map_ok h' f"
  using ih.put_law [OF map_okD(1), of h f ok k a False h'] by simp

lemma map_ok_drop:
  assumes "map_ok h f" and "f a = Some fe"
  shows "map_ok (snd (xhash_remove_int h (fd_key (fe_fd fe)))) (f(a := None))"
proof -
  obtain r h' where e: "xhash_remove_int h (fd_key (fe_fd fe)) = (r, h')" by fastforce
  from ih.del_law [OF map_okD(1,4) [OF assms(1)] e]
  have h: "int_inv h'" "int_abs h' = (int_abs h)(fd_key (fe_fd fe) := None)" by simp_all
  have "b \<noteq> a" if "int_abs h k = Some b" "k \<noteq> fd_key (fe_fd fe)" for k b
    using map_okD(2) [OF assms(1) that(1)] that(2) assms(2) by auto
  moreover have "fe_fd x \<noteq> fe_fd fe" if "f b = Some x" "b \<noteq> a" for b x
    using map_ok_same_fd [OF assms(1) that(1) assms(2)] that(2) by auto
  ultimately show ?thesis
    using map_okD(2,3,4) [OF assms(1)] ih.del_entries [OF map_okD(1,4) [OF assms(1)] e] by (auto simp: map_ok_def h e)
qed

lemma map_ok_upd:
  "map_ok h f \<Longrightarrow> f a = Some x \<Longrightarrow> fe_fd fe = fe_fd x \<Longrightarrow> map_ok h (f(a \<mapsto> fe))"
  by (auto simp: map_ok_def) (metis option.inject)+

section \<open>Generations\<close>

definition gens_ok :: "(addr \<rightharpoonup> xPoolFD) \<Rightarrow> u32 \<Rightarrow> bool" where
  "gens_ok f g \<longleftrightarrow> (\<forall>a x. f a = Some x \<longrightarrow> unat (fe_gen x) \<le> unat g)
     \<and> (\<forall>a b x y. f a = Some x \<longrightarrow> f b = Some y \<longrightarrow> fe_gen x = fe_gen y \<longrightarrow> a = b)"

lemma gens_okD:
  assumes "gens_ok f g"
  shows "f a = Some x \<Longrightarrow> unat (fe_gen x) \<le> unat g"
    and "f a = Some x \<Longrightarrow> f b = Some y \<Longrightarrow> fe_gen x = fe_gen y \<Longrightarrow> a = b"
  using assms unfolding gens_ok_def by blast+

lemma gens_ok_mono: "gens_ok f g \<Longrightarrow> unat g \<le> unat g' \<Longrightarrow> gens_ok f g'"
  unfolding gens_ok_def by (meson order_trans)

lemma gens_ok_add: "gens_ok f g \<Longrightarrow> unat g < unat (fe_gen fe) \<Longrightarrow> gens_ok (f(a \<mapsto> fe)) (fe_gen fe)"
  by (auto simp: gens_ok_def) (metis leD less_imp_le_nat order_trans)+

lemma gens_ok_drop: "gens_ok f g \<Longrightarrow> gens_ok (f(a := None)) g"
  by (auto simp: gens_ok_def)

lemma gens_ok_upd: "gens_ok f g \<Longrightarrow> f a = Some x \<Longrightarrow> fe_gen fe = fe_gen x \<Longrightarrow> gens_ok (f(a \<mapsto> fe)) g"
  by (auto simp: gens_ok_def)

section \<open>Counters\<close>

definition fds_of :: "(addr \<rightharpoonup> xPoolFD) \<Rightarrow> int set" where
  "fds_of f = (\<lambda>fe. sint (fe_fd fe)) ` ran f"

definition count_ok :: "(addr \<rightharpoonup> xPoolFD) \<Rightarrow> nat \<Rightarrow> int \<Rightarrow> bool" where
  "count_ok f n m \<longleftrightarrow> finite (dom f) \<and> n = card (dom f) \<and> m = Max (insert (-1) (fds_of f))"

lemma finite_fds_of [simp]: "finite (dom f) \<Longrightarrow> finite (fds_of f)"
  by (simp add: fds_of_def finite_ran)

lemma fds_of_add: "f a = None \<Longrightarrow> fds_of (f(a \<mapsto> fe)) = insert (sint (fe_fd fe)) (fds_of f)"
  by (simp add: fds_of_def ran_map_upd)

lemma fds_of_upd: "f a = Some x \<Longrightarrow> fe_fd fe = fe_fd x \<Longrightarrow> fds_of (f(a \<mapsto> fe)) = fds_of f"
  unfolding fds_of_def ran_def image_def by (auto) (metis option.inject)+

lemma Max_insert_if:
  fixes x :: int
  assumes "finite S"
  shows "Max (insert (-1) (insert x S)) = (if x > Max (insert (-1) S) then x else Max (insert (-1) S))"
proof -
  have "Max (insert x (insert (-1) S)) = max x (Max (insert (-1) S))" using assms by (intro Max_insert) auto
  then show ?thesis by (simp add: insert_commute max_def del: Max_insert)
qed

lemma count_ok_add:
  assumes "count_ok f n m" and "f a = None"
  shows "count_ok (f(a \<mapsto> fe)) (n + 1) (if sint (fe_fd fe) > m then sint (fe_fd fe) else m)"
  using assms Max_insert_if [of "fds_of f" "sint (fe_fd fe)"]
  by (simp add: count_ok_def fds_of_add domIff del: Max_insert)

lemma count_ok_upd: "count_ok f n m \<Longrightarrow> f a = Some x \<Longrightarrow> fe_fd fe = fe_fd x \<Longrightarrow> count_ok (f(a \<mapsto> fe)) n m"
  by (simp add: count_ok_def fds_of_upd insert_absorb domI)

lemma count_ok_max: "count_ok f n m \<Longrightarrow> f a = Some x \<Longrightarrow> sint (fe_fd x) \<le> m"
  unfolding count_ok_def by (auto simp: fds_of_def ranI intro!: Max_ge finite_ran)

lemma visit_maxfd:
  "(\<forall>n \<in> set ns. \<exists>i. fst n = KeyInt i) \<Longrightarrow>
     visit_until maxfd_cb ns m = (True, Max (insert m ((\<lambda>n. case fst n of KeyInt i \<Rightarrow> sint (ucast i :: u32)) ` set ns)))"
proof (induction ns arbitrary: m)
  case (Cons n ns)
  let ?g = "\<lambda>n :: xhashNode. case fst n of KeyInt i \<Rightarrow> sint (ucast i :: u32)"
  obtain i v where n: "n = (KeyInt i, v)" using Cons.prems by (cases n) auto
  let ?m = "if sint (ucast i :: u32) > m then sint (ucast i :: u32) else m"
  have "Max (insert ?m (?g ` set ns)) = Max (insert m (?g ` set (n # ns)))"
  proof (cases "?g ` set ns = {}")
    case True
    then show ?thesis by (simp add: n max_def)
  next
    case False
    then show ?thesis by (simp add: n max_def)
  qed
  with Cons show ?case by (simp add: n)
qed simp

lemma maxfd_recalc_Max:
  assumes "map_ok (fd_map s) (fes s)" and "finite (dom (fes s))"
  shows "maxfd (maxfd_recalc s) = Max (insert (-1) (fds_of (fes s)))"
proof -
  let ?h = "fd_map s"
  have inv: "xhash_inv ?h" "key_type ?h = XHASH_KEY_INT" using map_okD(1) [OF assms(1)] by (auto simp: int_inv_def)
  have K: "fst ` set (all_nodes ?h) = KeyInt ` dom (int_abs ?h)"
    using all_nodes_map_of [OF inv(1)] int_abs_dom [OF map_okD(1) [OF assms(1)]]
    by (simp add: dom_map_of_conv_image_fst [symmetric])
  have D: "dom (int_abs ?h) = (\<lambda>fe. fd_key (fe_fd fe)) ` ran (fes s)"
    using map_okD(2,3) [OF assms(1)] by (auto simp: ran_def image_def) blast+
  have "(\<lambda>n. case fst n of KeyInt i \<Rightarrow> sint (ucast i :: u32)) ` set (all_nodes ?h)
      = (\<lambda>k. case k of KeyInt i \<Rightarrow> sint (ucast i :: u32)) ` (fst ` set (all_nodes ?h))"
    by (simp add: image_image)
  also have "\<dots> = fds_of (fes s)" unfolding K D fds_of_def by (simp add: image_image)
  finally have "(\<lambda>n. case fst n of KeyInt i \<Rightarrow> sint (ucast i :: u32)) ` set (all_nodes ?h) = fds_of (fes s)" .
  moreover have "\<forall>n \<in> set (all_nodes ?h). \<exists>i. fst n = KeyInt i" using K by auto
  ultimately show ?thesis by (simp add: maxfd_recalc_def foreach_all_nodes visit_maxfd)
qed

lemma count_ok_drop:
  assumes "count_ok f n m" and "f a = Some fe" and "m' = (if m = sint (fe_fd fe) then Max (insert (-1) (fds_of (f(a := None)))) else m)"
  shows "count_ok (f(a := None)) (n - 1) m'"
proof -
  have fin: "finite (dom f)" using assms(1) by (simp add: count_ok_def)
  have f: "f = (f(a := None))(a \<mapsto> fe)" using assms(2) by (auto simp: fun_eq_iff)
  have F: "fds_of f = insert (sint (fe_fd fe)) (fds_of (f(a := None)))"
    by (subst f) (rule fds_of_add, simp)
  have "m' = Max (insert (-1) (fds_of (f(a := None))))"
    using assms(1,3) fin Max_insert_if [of "fds_of (f(a := None))" "sint (fe_fd fe)"]
    by (auto simp: count_ok_def F simp del: Max_insert split: if_splits)
  then show ?thesis using assms(1,2) fin by (auto simp: count_ok_def card_Diff_singleton domI)
qed

section \<open>The arrays of poll\<close>

text \<open>A slot: descriptor, generation, \<open>revents\<close>.\<close>

type_synonym slot = "u32 \<times> u32 \<times> u16"

definition slots_ok ::
  "world \<Rightarrow> pollfd list \<Rightarrow> addr option list \<Rightarrow> (addr \<rightharpoonup> xPoolFD) \<Rightarrow> nat \<Rightarrow> nat \<Rightarrow> bool" where
  "slots_ok W p q f n cap \<longleftrightarrow> length p = cap \<and> length q = cap \<and> n \<le> cap
     \<and> (\<forall>j < n. \<exists>a fe. q ! j = Some a \<and> f a = Some fe \<and> fe_idx fe = int j \<and> pf_fd (p ! j) = fe_fd fe
           \<and> pf_events (p ! j) = poll_events W (fe_mask fe))
     \<and> (\<forall>j. n \<le> j \<and> j < cap \<longrightarrow> p ! j = clear_pfd \<and> q ! j = None)
     \<and> (\<forall>a fe. f a = Some fe \<longrightarrow> (\<exists>j < n. fe_idx fe = int j \<and> q ! j = Some a))"

lemma slots_okD:
  assumes "slots_ok W p q f n cap"
  shows "length p = cap" and "length q = cap" and "n \<le> cap"
    and "j < n \<Longrightarrow> \<exists>a fe. q ! j = Some a \<and> f a = Some fe \<and> fe_idx fe = int j \<and> pf_fd (p ! j) = fe_fd fe
           \<and> pf_events (p ! j) = poll_events W (fe_mask fe)"
    and "n \<le> j \<Longrightarrow> j < cap \<Longrightarrow> p ! j = clear_pfd \<and> q ! j = None"
    and "f a = Some fe \<Longrightarrow> \<exists>j < n. fe_idx fe = int j \<and> q ! j = Some a"
  using assms unfolding slots_ok_def by blast+

lemma slots_ok_grow:
  "slots_ok W p q f n cap \<Longrightarrow> cap \<le> m \<Longrightarrow>
     slots_ok W (p @ replicate (m - cap) clear_pfd) (q @ replicate (m - cap) None) f n m"
  unfolding slots_ok_def by (auto simp: nth_append) (metis leD order_less_le_trans)+

lemma slots_ok_add:
  assumes "slots_ok W p q f n cap" and "n < cap" and "f a = None" and "fe_idx fe = int n"
  shows "slots_ok W (p[n := (p ! n)\<lparr>pf_fd := fe_fd fe, pf_events := poll_events W (fe_mask fe)\<rparr>])
           (q[n := Some a]) (f(a \<mapsto> fe)) (n + 1) cap"
proof -
  note D = slots_okD [OF assms(1)]
  have old: "q ! j = Some b \<and> f b = Some x \<Longrightarrow> b \<noteq> a" for j b x using assms(3) by auto
  show ?thesis
    unfolding slots_ok_def
  proof (intro conjI allI impI)
    show "length (p[n := (p ! n)\<lparr>pf_fd := fe_fd fe, pf_events := poll_events W (fe_mask fe)\<rparr>]) = cap"
      "length (q[n := Some a]) = cap" "n + 1 \<le> cap" using D(1,2) assms(2) by auto
  next
    fix j assume "j < n + 1"
    then consider "j < n" | "j = n" by linarith
    then show "\<exists>b x. q[n := Some a] ! j = Some b \<and> (f(a \<mapsto> fe)) b = Some x \<and> fe_idx x = int j
        \<and> pf_fd (p[n := (p ! n)\<lparr>pf_fd := fe_fd fe, pf_events := poll_events W (fe_mask fe)\<rparr>] ! j) = fe_fd x
        \<and> pf_events (p[n := (p ! n)\<lparr>pf_fd := fe_fd fe, pf_events := poll_events W (fe_mask fe)\<rparr>] ! j)
            = poll_events W (fe_mask x)"
    proof cases
      case 1
      with D(4) [OF 1] old show ?thesis by fastforce
    qed (use D(1,2) assms(2,4) in simp)
  next
    fix j assume "n + 1 \<le> j \<and> j < cap"
    then show "p[n := (p ! n)\<lparr>pf_fd := fe_fd fe, pf_events := poll_events W (fe_mask fe)\<rparr>] ! j = clear_pfd"
      "q[n := Some a] ! j = None" using D(5) [of j] by auto
  next
    fix b x assume "(f(a \<mapsto> fe)) b = Some x"
    then show "\<exists>j<n + 1. fe_idx x = int j \<and> q[n := Some a] ! j = Some b"
      using D(6) [of b x] D(2) assms(2,4)
      by (cases "b = a") (auto intro: less_SucI)
  qed
qed

lemma slots_ok_upd:
  assumes "slots_ok W p q f n cap" and "f a = Some x" and "fe_fd fe = fe_fd x" and "fe_idx fe = fe_idx x"
  shows "slots_ok W (p[nat (fe_idx x) := (p ! nat (fe_idx x))\<lparr>pf_events := poll_events W (fe_mask fe)\<rparr>]) q
           (f(a \<mapsto> fe)) n cap"
proof -
  note D = slots_okD [OF assms(1)]
  from D(6) [OF assms(2)] obtain i where i: "i < n" "fe_idx x = int i" "q ! i = Some a" by blast
  have other: "b \<noteq> a" if "q ! j = Some b" "j \<noteq> i" "j < n" for j b
    using D(4) [OF that(3)] that(1,2) assms(2) i(2) by auto
  show ?thesis
    unfolding slots_ok_def
  proof (intro conjI allI impI)
    fix j assume j: "j < n"
    show "\<exists>b y. q ! j = Some b \<and> (f(a \<mapsto> fe)) b = Some y \<and> fe_idx y = int j
        \<and> pf_fd (p[nat (fe_idx x) := (p ! nat (fe_idx x))\<lparr>pf_events := poll_events W (fe_mask fe)\<rparr>] ! j) = fe_fd y
        \<and> pf_events (p[nat (fe_idx x) := (p ! nat (fe_idx x))\<lparr>pf_events := poll_events W (fe_mask fe)\<rparr>] ! j)
            = poll_events W (fe_mask y)"
      using D(4) [OF j] other [OF _ _ j] D(1,3) i assms j
      by (cases "j = i") fastforce+
  qed (use D i assms in \<open>auto split: if_splits\<close>)
qed

lemma slots_ok_same:
  assumes "slots_ok W p q f n cap" and "f a = Some x" and "fe_fd fe = fe_fd x" and "fe_idx fe = fe_idx x"
    and "fe_mask fe = fe_mask x"
  shows "slots_ok W p q (f(a \<mapsto> fe)) n cap"
proof -
  note D = slots_okD [OF assms(1)]
  from D(6) [OF assms(2)] obtain i where i: "i < n" "fe_idx x = int i" "q ! i = Some a" by blast
  have "(p ! i)\<lparr>pf_events := poll_events W (fe_mask fe)\<rparr> = p ! i"
    using D(4) [OF i(1)] i assms(2,5) by (cases "p ! i") auto
  with slots_ok_upd [OF assms(1-4)] i(2) show ?thesis by simp
qed

text \<open>The arrays after the slot of \<open>a\<close> was freed and the last one moved into it.\<close>

lemma slots_ok_del:
  assumes "slots_ok W p q f n cap" and "f a = Some x" and "fe_idx x = int i"
  shows "slots_ok W ((p[i := p ! (n - 1)])[n - 1 := clear_pfd]) ((q[i := q ! (n - 1)])[n - 1 := None])
           (if i = n - 1 then f(a := None)
            else (f(a := None))(the (q ! (n - 1)) \<mapsto> (the (f (the (q ! (n - 1)))))\<lparr>fe_idx := int i\<rparr>))
           (n - 1) cap"
    and "i \<noteq> n - 1 \<Longrightarrow> \<exists>m y. q ! (n - 1) = Some m \<and> f m = Some y \<and> m \<noteq> a"
proof -
  note D = slots_okD [OF assms(1)]
  from D(6) [OF assms(2)] assms(3) have i: "i < n" "q ! i = Some a" by auto
  have other: "b \<noteq> a" if "q ! j = Some b" "j \<noteq> i" "j < n" for j b
    using D(4) [OF that(3)] that(1,2) assms(2,3) by auto
  from i D(4) [of "n - 1"] obtain m y where m: "q ! (n - 1) = Some m" "f m = Some y" "fe_idx y = int (n - 1)"
    "pf_fd (p ! (n - 1)) = fe_fd y" "pf_events (p ! (n - 1)) = poll_events W (fe_mask y)" by auto
  have ma: "m = a \<longleftrightarrow> i = n - 1" using m assms(2,3) i other [of "n - 1" m] by auto
  show "i \<noteq> n - 1 \<Longrightarrow> \<exists>m y. q ! (n - 1) = Some m \<and> f m = Some y \<and> m \<noteq> a" using m ma by auto
  have uniq: "j = k" if "q ! j = Some b" "q ! k = Some b" "j < n" "k < n" for j k b
    using D(4) [OF that(3)] D(4) [OF that(4)] that(1,2) by auto
  let ?p = "(p[i := p ! (n - 1)])[n - 1 := clear_pfd]" and ?q = "(q[i := q ! (n - 1)])[n - 1 := None]"
  let ?f = "if i = n - 1 then f(a := None) else (f(a := None))(m \<mapsto> y\<lparr>fe_idx := int i\<rparr>)"
  have "slots_ok W ?p ?q ?f (n - 1) cap"
    unfolding slots_ok_def
  proof (intro conjI allI impI)
    fix j assume j: "j < n - 1"
    show "\<exists>b z. ?q ! j = Some b \<and> ?f b = Some z \<and> fe_idx z = int j \<and> pf_fd (?p ! j) = fe_fd z
        \<and> pf_events (?p ! j) = poll_events W (fe_mask z)"
    proof (cases "j = i")
      case True
      with j m ma D(1,2,3) show ?thesis by (auto simp: nth_list_update)
    next
      case False
      from j have jn: "j < n" by simp
      from D(4) [OF jn] obtain b z where bz: "q ! j = Some b" "f b = Some z" "fe_idx z = int j"
        "pf_fd (p ! j) = fe_fd z" "pf_events (p ! j) = poll_events W (fe_mask z)" by blast
      have "b \<noteq> a" using other [OF bz(1) False jn] .
      moreover have "b \<noteq> m" using uniq [OF bz(1) _ jn, of "n - 1"] m(1) j by auto
      ultimately show ?thesis using bz False j by (auto simp: nth_list_update)
    qed
  next
    fix b z assume b: "?f b = Some z"
    show "\<exists>j<n - 1. fe_idx z = int j \<and> ?q ! j = Some b"
    proof (cases "b = m")
      case True
      with b m ma have "i \<noteq> n - 1" "z = y\<lparr>fe_idx := int i\<rparr>" by (auto split: if_splits)
      with i D(2,3) m True show ?thesis by (intro exI [of _ i]) (auto simp: nth_list_update)
    next
      case False
      with b have fb: "f b = Some z" "b \<noteq> a" by (auto split: if_splits)
      from D(6) [OF fb(1)] obtain j where j: "j < n" "fe_idx z = int j" "q ! j = Some b" by blast
      have "j \<noteq> i" "j \<noteq> n - 1" using j i m fb False by auto
      with j show ?thesis by (intro exI [of _ j]) auto
    qed
  next
    fix j assume "n - 1 \<le> j \<and> j < cap"
    then consider "j = n - 1" "j < cap" | "n \<le> j" "j < cap" "j \<noteq> i" "j \<noteq> n - 1" using i by linarith
    then have "?p ! j = clear_pfd \<and> ?q ! j = None" using D(1,2) D(5) [of j] by cases auto
    then show "?p ! j = clear_pfd" "?q ! j = None" by auto
  qed (use D(1-3) in auto)
  moreover have "the (q ! (n - 1)) = m" "the (f m) = y" using m by simp_all
  ultimately show "slots_ok W ?p ?q (if i = n - 1 then f(a := None)
      else (f(a := None))(the (q ! (n - 1)) \<mapsto> (the (f (the (q ! (n - 1)))))\<lparr>fe_idx := int i\<rparr>)) (n - 1) cap"
    by (simp only:)
qed

end
