(* ===== verification/XPollOps.thy ===== *)
theory XPollOps
  imports XPollInv
begin

text \<open>
  Every call of the API keeps the invariant of the loop, whatever fails, and treats the entries as the map of
  the descriptors to their interest. The slots of \<open>poll\<close> evolve by appending a slot nobody has reported and by
  moving the last slot into a freed one.
\<close>

section \<open>The slots in use\<close>

definition slot_view :: "pollfd list \<Rightarrow> addr option list \<Rightarrow> (addr \<rightharpoonup> xPoolFD) \<Rightarrow> nat \<Rightarrow> slot list" where
  "slot_view p q f n =
     map (\<lambda>j. (fe_fd (the (f (the (q ! j)))), fe_gen (the (f (the (q ! j)))), pf_revents (p ! j))) [0..<n]"

definition swap_del :: "nat \<Rightarrow> 'a list \<Rightarrow> 'a list" where
  "swap_del i xs = (butlast xs)[i := last xs]"

abbreviation slot_gen :: "slot \<Rightarrow> u32" where "slot_gen x \<equiv> fst (snd x)"
abbreviation slot_rev :: "slot \<Rightarrow> u16" where "slot_rev x \<equiv> snd (snd x)"

lemma length_slot_view [simp]: "length (slot_view p q f n) = n"
  by (simp add: slot_view_def)

lemma slot_view_nth:
  "j < n \<Longrightarrow> slot_view p q f n ! j
     = (fe_fd (the (f (the (q ! j)))), fe_gen (the (f (the (q ! j)))), pf_revents (p ! j))"
  by (simp add: slot_view_def)

lemma slot_view_cong:
  assumes "\<And>j. j < n \<Longrightarrow> q' ! j = q ! j" and "\<And>j. j < n \<Longrightarrow> pf_revents (p' ! j) = pf_revents (p ! j)"
    and "\<And>j. j < n \<Longrightarrow> fe_fd (the (f' (the (q ! j)))) = fe_fd (the (f (the (q ! j))))
           \<and> fe_gen (the (f' (the (q ! j)))) = fe_gen (the (f (the (q ! j))))"
  shows "slot_view p' q' f' n = slot_view p q f n"
  using assms by (intro nth_equalityI) (simp_all add: slot_view_nth)

lemma slot_view_grow:
  "slots_ok W p q f n cap \<Longrightarrow> slot_view (p @ ps) (q @ qs) f n = slot_view p q f n"
  by (rule slot_view_cong) (use slots_okD(1-3) in \<open>fastforce simp: nth_append\<close>)+

lemma slot_view_upd:
  assumes "f a = Some x" and "fe_fd fe = fe_fd x" and "fe_gen fe = fe_gen x"
  shows "slot_view (p[i := (p ! i)\<lparr>pf_events := e\<rparr>]) q (f(a \<mapsto> fe)) n = slot_view p q f n"
    and "slot_view p q (f(a \<mapsto> fe)) n = slot_view p q f n"
proof -
  have "pf_revents (p[i := (p ! i)\<lparr>pf_events := e\<rparr>] ! j) = pf_revents (p ! j)" for j
    by (cases "i < length p") (auto simp: nth_list_update list_update_beyond not_less)
  with assms show "slot_view (p[i := (p ! i)\<lparr>pf_events := e\<rparr>]) q (f(a \<mapsto> fe)) n = slot_view p q f n"
    by (intro slot_view_cong) auto
qed (use assms in \<open>intro slot_view_cong; auto\<close>)

lemma slot_view_add:
  assumes "slots_ok W p q f n cap" and "n < cap" and "f a = None"
  shows "slot_view (p[n := (p ! n)\<lparr>pf_fd := d, pf_events := e\<rparr>]) (q[n := Some a]) (f(a \<mapsto> fe)) (n + 1)
    = slot_view p q f n @ [(fe_fd fe, fe_gen fe, 0)]"
proof (rule nth_equalityI)
  fix j assume "j < length (slot_view (p[n := (p ! n)\<lparr>pf_fd := d, pf_events := e\<rparr>]) (q[n := Some a]) (f(a \<mapsto> fe)) (n + 1))"
  then consider "j < n" | "j = n" by fastforce
  then show "slot_view (p[n := (p ! n)\<lparr>pf_fd := d, pf_events := e\<rparr>]) (q[n := Some a]) (f(a \<mapsto> fe)) (n + 1) ! j
      = (slot_view p q f n @ [(fe_fd fe, fe_gen fe, 0)]) ! j"
  proof cases
    case 1
    with slots_okD(4) [OF assms(1) 1] assms(3) show ?thesis by (auto simp: slot_view_nth nth_append)
  next
    case 2
    with slots_okD(1,2) [OF assms(1)] slots_okD(5) [OF assms(1), of n] assms(2)
    show ?thesis by (simp add: slot_view_nth nth_append clear_pfd_def)
  qed
qed simp

lemma slot_view_del:
  assumes "slots_ok W p q f n cap" and "f a = Some x" and "fe_idx x = int i"
  shows "slot_view ((p[i := p ! (n - 1)])[n - 1 := clear_pfd]) ((q[i := q ! (n - 1)])[n - 1 := None])
           (if i = n - 1 then f(a := None)
            else (f(a := None))(the (q ! (n - 1)) \<mapsto> (the (f (the (q ! (n - 1)))))\<lparr>fe_idx := int i\<rparr>)) (n - 1)
         = swap_del i (slot_view p q f n)"
    (is "slot_view ?p ?q ?f (n - 1) = _")
proof -
  note D = slots_okD [OF assms(1)]
  from D(6) [OF assms(2)] assms(3) have i: "i < n" "q ! i = Some a" by auto
  have uniq: "j = k" if "q ! j = Some b" "q ! k = Some b" "j < n" "k < n" for j k b
    using D(4) [OF that(3)] D(4) [OF that(4)] that(1,2) by auto
  have ne: "slot_view p q f n \<noteq> []" using i by (simp add: slot_view_def)
  have last: "last (slot_view p q f n) = slot_view p q f n ! (n - 1)"
    using ne by (simp add: last_conv_nth)
  show ?thesis
  proof (rule nth_equalityI)
    show "length (slot_view ?p ?q ?f (n - 1)) = length (swap_del i (slot_view p q f n))"
      by (simp add: swap_del_def)
  next
    fix j assume "j < length (slot_view ?p ?q ?f (n - 1))"
    then have j: "j < n - 1" by simp
    then have jn: "j < n" by simp
    from D(4) [OF jn] obtain b z where b: "q ! j = Some b" "f b = Some z" by blast
    from D(4) [of "n - 1"] i obtain m y where m: "q ! (n - 1) = Some m" "f m = Some y" by auto
    have R: "swap_del i (slot_view p q f n) ! j
        = (if j = i then slot_view p q f n ! (n - 1) else slot_view p q f n ! j)"
      unfolding swap_del_def last using j by (auto simp: nth_list_update nth_butlast)
    show "slot_view ?p ?q ?f (n - 1) ! j = swap_del i (slot_view p q f n) ! j"
    proof (cases "j = i")
      case True
      have "m \<noteq> a" using uniq [OF m(1), of i] i j True by auto
      with True j m D(1,2,3) i show ?thesis
        unfolding R by (simp add: slot_view_nth nth_list_update)
    next
      case False
      have "b \<noteq> a" using uniq [OF b(1), of i] i jn False by auto
      moreover have "b \<noteq> m" using uniq [OF b(1), of "n - 1"] m jn j by auto
      ultimately show ?thesis
        unfolding R using False j jn b m by (simp add: slot_view_nth nth_list_update)
    qed
  qed
qed

text \<open>How the slots change; a slot that is new has a generation above \<open>G\<close>.\<close>

inductive evolve :: "nat \<Rightarrow> slot list \<Rightarrow> slot list \<Rightarrow> bool" for G where
  evolve_refl: "evolve G xs xs"
| evolve_add: "evolve G xs ys \<Longrightarrow> G < unat g \<Longrightarrow> g \<notin> slot_gen ` set ys \<Longrightarrow> evolve G xs (ys @ [(fd, g, 0)])"
| evolve_del: "evolve G xs ys \<Longrightarrow> i < length ys \<Longrightarrow> evolve G xs (swap_del i ys)"

lemma evolve_trans: "evolve G ys zs \<Longrightarrow> evolve G xs ys \<Longrightarrow> evolve G xs zs"
  by (induction rule: evolve.induct) (auto intro: evolve.intros)

lemma evolve_mono: "evolve G xs ys \<Longrightarrow> G' \<le> G \<Longrightarrow> evolve G' xs ys"
  by (induction rule: evolve.induct) (auto intro: evolve.intros)

section \<open>The invariant\<close>

definition ep_ok :: "(u32 \<rightharpoonup> u32) \<Rightarrow> (addr \<rightharpoonup> xPoolFD) \<Rightarrow> bool" where
  "ep_ok E f \<longleftrightarrow> (\<forall>a fe. f a = Some fe \<longrightarrow> E (fe_fd fe) = Some (epoll_events (fe_mask fe)))
     \<and> (\<forall>fd. E fd \<noteq> None \<longrightarrow> (\<exists>a fe. f a = Some fe \<and> fe_fd fe = fd))"

definition back_ok :: "backend \<Rightarrow> world \<Rightarrow> xPollState \<Rightarrow> bool" where
  "back_ok b W s \<longleftrightarrow>
     (case b of EPOLL \<Rightarrow> ep_ok (ep_set s) (fes s) | KQUEUE \<Rightarrow> True
      | POLL \<Rightarrow> 0 < setsize s \<and> slots_ok W (poll_fds s) (poll_fes s) (fes s) (nfds s) (setsize s))"

definition registry_inv :: "backend \<Rightarrow> world \<Rightarrow> xPollState \<Rightarrow> bool" where
  "registry_inv b W s \<longleftrightarrow> map_ok (fd_map s) (fes s) \<and> gens_ok (fes s) (next_gen s)
     \<and> 2 * unat (next_gen s) \<le> calls s \<and> count_ok (fes s) (nfds s) (maxfd s) \<and> back_ok b W s"

lemma registry_invD:
  assumes "registry_inv b W s"
  shows "map_ok (fd_map s) (fes s)" and "gens_ok (fes s) (next_gen s)" and "2 * unat (next_gen s) \<le> calls s"
    and "count_ok (fes s) (nfds s) (maxfd s)" and "back_ok b W s"
  using assms unfolding registry_inv_def by blast+

abbreviation slots :: "xPollState \<Rightarrow> slot list" where
  "slots s \<equiv> slot_view (poll_fds s) (poll_fes s) (fes s) (nfds s)"

text \<open>What every call keeps.\<close>

definition older :: "(addr \<rightharpoonup> xPoolFD) \<Rightarrow> nat \<Rightarrow> (addr \<rightharpoonup> xPoolFD) \<Rightarrow> bool" where
  "older f g f' \<longleftrightarrow> (\<forall>a x'. f' a = Some x' \<longrightarrow>
     (\<exists>x. f a = Some x \<and> fe_fd x = fe_fd x' \<and> fe_gen x = fe_gen x') \<or> g < unat (fe_gen x'))"

definition loop_keeps :: "backend \<Rightarrow> world \<Rightarrow> xPollState \<Rightarrow> xPollState \<Rightarrow> bool" where
  "loop_keeps b W s s' \<longleftrightarrow> registry_inv b W s' \<and> calls s \<le> calls s' \<and> unat (next_gen s) \<le> unat (next_gen s')
     \<and> older (fes s) (unat (next_gen s)) (fes s') \<and> fired s' = fired s \<and> turns s' = turns s
     \<and> (b = POLL \<longrightarrow> evolve (unat (next_gen s)) (slots s) (slots s'))"

lemma loop_keepsD:
  assumes "loop_keeps b W s s'"
  shows "registry_inv b W s'" and "calls s \<le> calls s'" and "unat (next_gen s) \<le> unat (next_gen s')"
    and "older (fes s) (unat (next_gen s)) (fes s')" and "fired s' = fired s" and "turns s' = turns s"
    and "b = POLL \<Longrightarrow> evolve (unat (next_gen s)) (slots s) (slots s')"
  using assms unfolding loop_keeps_def by blast+

lemma older_refl [simp]: "older f g f"
  by (auto simp: older_def)

lemma older_trans: "older f g f' \<Longrightarrow> older f' g' f'' \<Longrightarrow> g \<le> g' \<Longrightarrow> older f g f''"
  by (fastforce simp: older_def)

lemma loop_keeps_refl: "registry_inv b W s \<Longrightarrow> loop_keeps b W s s"
  by (simp add: loop_keeps_def evolve_refl)

lemma loop_keeps_trans:
  assumes "loop_keeps b W s s'" and "loop_keeps b W s' s''"
  shows "loop_keeps b W s s''"
proof -
  note A = loop_keepsD [OF assms(1)] and B = loop_keepsD [OF assms(2)]
  have "b = POLL \<Longrightarrow> evolve (unat (next_gen s)) (slots s) (slots s'')"
    by (rule evolve_trans [OF evolve_mono [OF B(7) A(3)] A(7)])
  moreover have "older (fes s) (unat (next_gen s)) (fes s'')" by (rule older_trans [OF A(4) B(4) A(3)])
  ultimately show ?thesis using A B by (simp add: loop_keeps_def)
qed

lemma older_upd: "f a = Some x \<Longrightarrow> fe_fd fe = fe_fd x \<Longrightarrow> fe_gen fe = fe_gen x \<Longrightarrow> older f g (f(a \<mapsto> fe))"
  by (auto simp: older_def)

lemma loop_keeps_same:
  assumes "registry_inv b W s" and "map_ok (fd_map s') (fes s)" and "fes s' = fes s"
    and "unat (next_gen s) \<le> unat (next_gen s')" and "2 * unat (next_gen s') \<le> calls s'" and "calls s \<le> calls s'"
    and "nfds s' = nfds s" and "maxfd s' = maxfd s" and "fired s' = fired s" and "turns s' = turns s"
    and "back_ok b W s'" and "b = POLL \<Longrightarrow> slots s' = slots s"
  shows "loop_keeps b W s s'"
  using registry_invD [OF assms(1)] assms
  by (simp add: loop_keeps_def registry_inv_def gens_ok_mono evolve_refl)

lemma loop_keeps_upd:
  assumes "registry_inv b W s" and "fes s a = Some x" and "fe_fd fe = fe_fd x" and "fe_gen fe = fe_gen x"
    and "fes s' = (fes s)(a \<mapsto> fe)" and "fd_map s' = fd_map s" and "next_gen s' = next_gen s"
    and "calls s \<le> calls s'" and "nfds s' = nfds s" and "maxfd s' = maxfd s" and "fired s' = fired s"
    and "turns s' = turns s" and "back_ok b W s'" and "b = POLL \<Longrightarrow> slots s' = slots s"
  shows "loop_keeps b W s s'"
  using registry_invD [OF assms(1)] assms
  by (simp add: loop_keeps_def registry_inv_def map_ok_upd gens_ok_upd count_ok_upd older_upd evolve_refl)

lemma slot_gens:
  assumes "registry_inv POLL W s" and "x \<in> set (slots s)"
  shows "unat (slot_gen x) \<le> unat (next_gen s)"
proof -
  have sl: "slots_ok W (poll_fds s) (poll_fes s) (fes s) (nfds s) (setsize s)"
    using registry_invD(5) [OF assms(1)] by (simp add: back_ok_def)
  from assms(2) obtain j where j: "j < nfds s" "x = slots s ! j" by (auto simp: in_set_conv_nth)
  with slots_okD(4) [OF sl j(1)] gens_okD(1) [OF registry_invD(2) [OF assms(1)]] show ?thesis
    by (fastforce simp: slot_view_nth)
qed

lemma loop_keeps_new:
  assumes "registry_inv b W s" and "fes s a = None" and "fes s' = (fes s)(a \<mapsto> fe)" and "map_ok (fd_map s') (fes s')"
    and "unat (fe_gen fe) = unat (next_gen s) + 1" and "next_gen s' = fe_gen fe" and "calls s + 2 \<le> calls s'"
    and "nfds s' = nfds s + 1" and "maxfd s' = (if sint (fe_fd fe) > maxfd s then sint (fe_fd fe) else maxfd s)"
    and "fired s' = fired s" and "turns s' = turns s" and "back_ok b W s'"
    and "b = POLL \<Longrightarrow> slots s' = slots s @ [(fe_fd fe, fe_gen fe, 0)]"
  shows "loop_keeps b W s s'"
proof -
  note I = registry_invD [OF assms(1)]
  have g: "gens_ok (fes s') (next_gen s')" using gens_ok_add [OF I(2), of fe a] assms(3,5,6) by simp
  have c: "count_ok (fes s') (nfds s') (maxfd s')"
    unfolding assms(3,8,9) by (rule count_ok_add [OF I(4) assms(2)])
  have o: "older (fes s) (unat (next_gen s)) (fes s')" using assms(3,5) by (auto simp: older_def)
  have e: "evolve (unat (next_gen s)) (slots s) (slots s')" if "b = POLL"
  proof -
    have "fe_gen fe \<notin> slot_gen ` set (slots s)"
      using slot_gens [of W s] assms(1,5) that by fastforce
    then show ?thesis unfolding assms(13) [OF that]
      by (intro evolve_add evolve_refl) (use assms(5) in auto)
  qed
  show ?thesis using g c o e I(3) assms by (simp add: loop_keeps_def registry_inv_def)
qed

section \<open>Creating and destroying entries\<close>

text \<open>Entries have different generations, so there are at most as many as generations were given out.\<close>

lemma entries_le_gens:
  assumes "map_ok h f" and "gens_ok f g"
  shows "card (dom f) \<le> unat g + 1"
proof -
  let ?g = "\<lambda>a. unat (fe_gen (the (f a)))"
  have "inj_on ?g (dom f)"
  proof (rule inj_onI)
    fix a b assume "a \<in> dom f" "b \<in> dom f" "?g a = ?g b"
    then obtain x y where "f a = Some x" "f b = Some y" "fe_gen x = fe_gen y" by (auto simp: word_unat_eq_iff)
    then show "a = b" by (rule gens_okD(2) [OF assms(2)])
  qed
  moreover have "?g ` dom f \<subseteq> {..unat g}" using gens_okD(1) [OF assms(2)] by auto
  ultimately have "card (dom f) \<le> card {..unat g}" by (rule card_inj_on_le) simp
  then show ?thesis by simp
qed

lemma fe_create_cases:
  assumes "map_ok (fd_map s) (fes s)" and "malloc_ok W" and "fe_get s fd = None" and "gens_ok (fes s) (next_gen s)"
    and "2 * unat (next_gen s) \<le> calls s" and "calls (snd (fe_create W fd s)) < 2 ^ 32"
  obtains (fail) h g c where "fe_create W fd s = (None, s\<lparr>fd_map := h, next_gen := g, calls := c\<rparr>)"
      "map_ok h (fes s)" "unat (next_gen s) \<le> unat g" "2 * unat g \<le> c" "calls s \<le> c"
    | (new) a h where "fe_create W fd s = (Some a, s\<lparr>fd_map := h, next_gen := next_gen s + 1,
          fes := (fes s)(a \<mapsto> (fe_init fd)\<lparr>fe_gen := next_gen s + 1\<rparr>), calls := calls s + 2\<rparr>)"
      "map_ok h ((fes s)(a \<mapsto> (fe_init fd)\<lparr>fe_gen := next_gen s + 1\<rparr>))" "fes s a = None"
      "unat (next_gen s + 1) = unat (next_gen s) + 1"
proof (cases "w_malloc W (calls s) (\<lambda>a. fes s a \<noteq> None)")
  case None
  show ?thesis
    by (rule fail [where h = "fd_map s" and g = "next_gen s" and c = "calls s + 1"])
      (use None assms in \<open>simp_all add: fe_create_def tick_def\<close>)
next
  case (Some a)
  with assms(2) have a: "a \<noteq> 0" "fes s a = None" unfolding malloc_ok_def by fastforce+
  obtain r h where e: "xhash_set_int (w_hash W (calls s + 1)) (fd_map s) (fd_key fd) a = (r, h)" by fastforce
  have "calls (snd (fe_create W fd s)) = calls s + 2"
    using Some e by (simp add: fe_create_def tick_def Let_def split: bool.split)
  with assms(6) have c: "calls s + 2 < 2 ^ 32" by simp
  have g: "unat (next_gen s + 1) = unat (next_gen s) + 1"
    using assms(5) c by (simp add: unat_word_ariths)
  have room: "card (dom (fes s)) < 2 ^ 31"
    using entries_le_gens [OF assms(1,4)] assms(5) c by simp
  have free: "\<And>b x. fes s b = Some x \<Longrightarrow> fe_fd x \<noteq> fe_fd ((fe_init fd)\<lparr>fe_gen := next_gen s + 1\<rparr>)"
    using fe_get_None [OF assms(1)] assms(3) by (simp add: fe_init_def)
  show ?thesis
  proof (cases r)
    case True
    show ?thesis
    proof (rule new [where a = a and h = h])
      show "map_ok h ((fes s)(a \<mapsto> (fe_init fd)\<lparr>fe_gen := next_gen s + 1\<rparr>))"
        using e True by (intro map_ok_add [OF assms(1) a(2,1) free _ room]) (simp_all add: fe_init_def)
    qed (use Some e True a g in \<open>simp_all add: fe_create_def tick_def Let_def\<close>)
  next
    case False
    show ?thesis
      by (rule fail [where h = h and g = "next_gen s + 1" and c = "calls s + 2"])
        (use Some e False a g assms(5) map_ok_fail [OF assms(1)] in
          \<open>simp_all add: fe_create_def tick_def Let_def fun_upd_idem\<close>)
  qed
qed

lemma fe_destroy_ok:
  "map_ok (fd_map s) (fes s) \<Longrightarrow> fes s a = Some x \<Longrightarrow>
     map_ok (fd_map (fe_destroy a s)) ((fes s)(a := None))"
  using map_ok_drop [of "fd_map s" "fes s" a x] by (simp add: fe_destroy_def fe_at_def)

end
