(* ===== verification/XPollLaws.thy ===== *)
theory XPollLaws
  imports XPollOps
begin

text \<open>
  The contract of a backend: adding and deleting events keep the invariant and act on the map from descriptors
  to interests. The three backends meet it.
\<close>

section \<open>The registry as a map\<close>

type_synonym interest = "u32 \<times> proc \<times> proc \<times> proc \<times> nat"

definition iview :: "xPoolFD \<Rightarrow> interest" where
  "iview x = (fe_mask x, rfileProc x, wfileProc x, efileProc x, clientData x)"

definition reg :: "xPollState \<Rightarrow> u32 \<rightharpoonup> xPoolFD" where
  "reg s fd = Option.bind (fe_get s fd) (fes s)"

definition regv :: "xPollState \<Rightarrow> u32 \<rightharpoonup> interest" where
  "regv s fd = map_option iview (reg s fd)"

definition spec_add :: "u32 \<Rightarrow> u32 \<Rightarrow> proc \<Rightarrow> proc \<Rightarrow> proc \<Rightarrow> nat \<Rightarrow> (u32 \<rightharpoonup> interest) \<Rightarrow> (u32 \<rightharpoonup> interest)" where
  "spec_add fd m r w e d M =
     M(fd \<mapsto> (case M fd of
        None \<Rightarrow> (m, r, w, e, d)
      | Some (m', r', w', e', d') \<Rightarrow>
          (m' OR m, if r \<noteq> 0 then r else r', if w \<noteq> 0 then w else w', if e \<noteq> 0 then e else e', d)))"

definition spec_del :: "u32 \<Rightarrow> u32 \<Rightarrow> (u32 \<rightharpoonup> interest) \<Rightarrow> (u32 \<rightharpoonup> interest)" where
  "spec_del fd m M =
     (case M fd of
        None \<Rightarrow> M
      | Some (m', x) \<Rightarrow> if m' AND NOT m = 0 then M(fd := None) else M(fd \<mapsto> (m' AND NOT m, x)))"

definition spec_data :: "u32 \<Rightarrow> nat \<Rightarrow> (u32 \<rightharpoonup> interest) \<Rightarrow> (u32 \<rightharpoonup> interest)" where
  "spec_data fd d M = (case M fd of None \<Rightarrow> M | Some (m, r, w, e, _) \<Rightarrow> M(fd \<mapsto> (m, r, w, e, d)))"

lemma option_eqI: "(\<And>v. x = Some v \<longleftrightarrow> y = Some v) \<Longrightarrow> x = y"
  by (cases x; cases y) auto

lemma reg_Some:
  "map_ok (fd_map s) (fes s) \<Longrightarrow> reg s fd = Some x \<longleftrightarrow> (\<exists>a. fes s a = Some x \<and> fe_fd x = fd)"
  by (auto simp: reg_def bind_eq_Some_conv fe_get_Some)

lemma reg_at: "map_ok (fd_map s) (fes s) \<Longrightarrow> fes s a = Some x \<Longrightarrow> reg s (fe_fd x) = Some x"
  by (auto simp: reg_Some)

lemma reg_same:
  assumes "map_ok (fd_map s) (fes s)" and "map_ok (fd_map s') (fes s')" and "fes s' = fes s"
  shows "reg s' = reg s"
  by (rule ext, rule option_eqI) (simp add: reg_Some [OF assms(1)] reg_Some [OF assms(2)] assms(3))

lemma reg_put:
  assumes "map_ok (fd_map s) (fes s)" and "map_ok (fd_map s') (fes s')" and "fes s' = (fes s)(a \<mapsto> fe)"
    and "fes s a = None \<or> (\<exists>x. fes s a = Some x \<and> fe_fd x = fe_fd fe)"
  shows "reg s' = (reg s)(fe_fd fe \<mapsto> fe)"
proof
  fix fd
  show "reg s' fd = ((reg s)(fe_fd fe \<mapsto> fe)) fd"
  proof (cases "fd = fe_fd fe")
    case True
    with reg_at [OF assms(2), of a fe] assms(3) show ?thesis by simp
  next
    case False
    have "reg s' fd = reg s fd"
    proof (rule option_eqI)
      fix v
      have "((fes s)(a \<mapsto> fe)) b = Some v \<and> fe_fd v = fd \<longleftrightarrow> fes s b = Some v \<and> fe_fd v = fd" for b
        using assms(4) False by auto
      then show "reg s' fd = Some v \<longleftrightarrow> reg s fd = Some v"
        unfolding reg_Some [OF assms(1)] reg_Some [OF assms(2)] assms(3) by blast
    qed
    with False show ?thesis by simp
  qed
qed

lemma reg_drop:
  assumes "map_ok (fd_map s) (fes s)" and "map_ok (fd_map s') (fes s')" and "fes s' = (fes s)(a := None)"
    and "fes s a = Some x"
  shows "reg s' = (reg s)(fe_fd x := None)"
proof
  fix fd
  have only: "b = a" if "fes s b = Some y" "fe_fd y = fe_fd x" for b y
    using map_ok_same_fd [OF assms(1) that(1) assms(4)] that(2) by simp
  show "reg s' fd = ((reg s)(fe_fd x := None)) fd"
  proof (cases "fd = fe_fd x")
    case True
    have "reg s' fd \<noteq> Some v" for v
      unfolding reg_Some [OF assms(2)] assms(3) True using only by (auto split: if_splits)
    then have "reg s' fd = None" by (metis not_Some_eq)
    with True show ?thesis by simp
  next
    case False
    have "reg s' fd = reg s fd"
    proof (rule option_eqI)
      fix v
      have "((fes s)(a := None)) b = Some v \<and> fe_fd v = fd \<longleftrightarrow> fes s b = Some v \<and> fe_fd v = fd" for b
        using assms(4) False by auto
      then show "reg s' fd = Some v \<longleftrightarrow> reg s fd = Some v"
        unfolding reg_Some [OF assms(1)] reg_Some [OF assms(2)] assms(3) by blast
    qed
    with False show ?thesis by simp
  qed
qed

lemma regv_same:
  "map_ok (fd_map s) (fes s) \<Longrightarrow> map_ok (fd_map s') (fes s') \<Longrightarrow> fes s' = fes s \<Longrightarrow> regv s' = regv s"
  using reg_same [of s s'] by (simp add: regv_def fun_eq_iff)

lemma regv_put:
  "map_ok (fd_map s) (fes s) \<Longrightarrow> map_ok (fd_map s') (fes s') \<Longrightarrow> fes s' = (fes s)(a \<mapsto> fe) \<Longrightarrow>
     fes s a = None \<or> (\<exists>x. fes s a = Some x \<and> fe_fd x = fe_fd fe) \<Longrightarrow> regv s' = (regv s)(fe_fd fe \<mapsto> iview fe)"
  using reg_put [of s s' a fe] by (simp add: regv_def fun_eq_iff)

lemma regv_drop:
  "map_ok (fd_map s) (fes s) \<Longrightarrow> map_ok (fd_map s') (fes s') \<Longrightarrow> fes s' = (fes s)(a := None) \<Longrightarrow>
     fes s a = Some x \<Longrightarrow> regv s' = (regv s)(fe_fd x := None)"
  using reg_drop [of s s' a x] by (simp add: regv_def fun_eq_iff)

lemma regv_at: "map_ok (fd_map s) (fes s) \<Longrightarrow> fes s a = Some x \<Longrightarrow> regv s (fe_fd x) = Some (iview x)"
  by (simp add: regv_def reg_at)

lemma regv_free: "fe_get s fd = None \<Longrightarrow> regv s fd = None"
  by (simp add: regv_def reg_def)

section \<open>The number of calls grows\<close>

lemma fe_create_calls: "fe_create W fd s = (r, s') \<Longrightarrow> calls s \<le> calls s'"
  by (auto simp: fe_create_def tick_def Let_def split: option.splits prod.splits bool.splits)

lemma resize_calls: "calls s \<le> calls (snd (xpoll_resize b W n s))"
  by (auto simp: xpoll_resize_def tick_def Let_def)

lemma quiet_calls [simp]:
  "calls (upd_fe a f s) = calls s" "calls (fe_destroy a s) = calls s" "calls (maxfd_recalc s) = calls s"
  "calls (raise_maxfd fd s) = calls s" "calls (drop_fe fd a s) = calls s" "calls (pfd_sync W i s) = calls s"
  "calls (pfd_clear i s) = calls s" "calls (pl_compact i j s) = calls s" "calls (tick s) = calls s + 1"
  by (simp_all add: upd_fe_def fe_destroy_def maxfd_recalc_def raise_maxfd_def drop_fe_def pfd_sync_def pfd_clear_def
      pl_compact_def tick_def Let_def split: option.split)

lemma epoll_ctl_calls: "calls (snd (epoll_ctl W op fd ev s)) = calls s + 1"
  by (simp add: epoll_ctl_def tick_def split: ctl_op.split)

section \<open>epoll\<close>

lemma ep_okI:
  assumes "\<And>a x. f a = Some x \<Longrightarrow> E (fe_fd x) = Some (epoll_events (fe_mask x))"
    and "\<And>fd. E fd \<noteq> None \<Longrightarrow> \<exists>a x. f a = Some x \<and> fe_fd x = fd"
  shows "ep_ok E f"
  using assms unfolding ep_ok_def by blast

lemma ep_okD:
  assumes "ep_ok E f"
  shows "f a = Some x \<Longrightarrow> E (fe_fd x) = Some (epoll_events (fe_mask x))"
    and "E fd \<noteq> None \<Longrightarrow> \<exists>a x. f a = Some x \<and> fe_fd x = fd"
  using assms unfolding ep_ok_def by blast+

lemma ep_ok_put:
  assumes "ep_ok E f" and "\<And>b x. f b = Some x \<Longrightarrow> b \<noteq> a \<Longrightarrow> fe_fd x \<noteq> fe_fd fe"
    and "f a = None \<or> (\<exists>x. f a = Some x \<and> fe_fd x = fe_fd fe)"
  shows "ep_ok (E(fe_fd fe \<mapsto> epoll_events (fe_mask fe))) (f(a \<mapsto> fe))"
proof (rule ep_okI)
  fix b x assume "(f(a \<mapsto> fe)) b = Some x"
  then show "(E(fe_fd fe \<mapsto> epoll_events (fe_mask fe))) (fe_fd x) = Some (epoll_events (fe_mask x))"
    using ep_okD(1) [OF assms(1), of b x] assms(2) [of b x] by (cases "b = a") auto
next
  fix fd assume E: "(E(fe_fd fe \<mapsto> epoll_events (fe_mask fe))) fd \<noteq> None"
  show "\<exists>b x. (f(a \<mapsto> fe)) b = Some x \<and> fe_fd x = fd"
  proof (cases "fd = fe_fd fe")
    case True
    then show ?thesis by (intro exI [of _ a] exI [of _ fe]) simp
  next
    case False
    with ep_okD(2) [OF assms(1), of fd] E obtain b x where "f b = Some x" "fe_fd x = fd" by auto
    moreover from this False assms(3) have "b \<noteq> a" by auto
    ultimately show ?thesis by (intro exI [of _ b] exI [of _ x]) simp
  qed
qed

lemma map_ok_others:
  "map_ok h f \<Longrightarrow> f a = Some x \<Longrightarrow> f b = Some y \<Longrightarrow> b \<noteq> a \<Longrightarrow> fe_fd y \<noteq> fe_fd x"
  using map_ok_same_fd by metis

lemma ep_ok_same:
  assumes "ep_ok E f" and "map_ok h f" and "f a = Some x" and "fe_fd fe = fe_fd x" and "fe_mask fe = fe_mask x"
  shows "ep_ok E (f(a \<mapsto> fe))"
proof -
  have "E(fe_fd fe \<mapsto> epoll_events (fe_mask fe)) = E"
    using ep_okD(1) [OF assms(1,3)] assms(4,5) by (simp add: fun_upd_idem)
  with ep_ok_put [OF assms(1), of a fe] map_ok_others [OF assms(2,3)] assms(3,4) show ?thesis by simp
qed

lemma ep_ok_drop:
  assumes "ep_ok E f" and "map_ok h f" and "f a = Some x"
  shows "ep_ok (E(fe_fd x := None)) (f(a := None))"
proof (rule ep_okI)
  fix b y assume "(f(a := None)) b = Some y"
  then have "f b = Some y" "b \<noteq> a" by (auto split: if_splits)
  then show "(E(fe_fd x := None)) (fe_fd y) = Some (epoll_events (fe_mask y))"
    using ep_okD(1) [OF assms(1)] map_ok_others [OF assms(2,3)] by simp
next
  fix fd assume "(E(fe_fd x := None)) fd \<noteq> None"
  then have "fd \<noteq> fe_fd x" "E fd \<noteq> None" by (auto split: if_splits)
  with ep_okD(2) [OF assms(1), of fd] obtain b y where b: "f b = Some y" "fe_fd y = fd" by auto
  with \<open>fd \<noteq> fe_fd x\<close> assms(3) have "b \<noteq> a" by auto
  with b show "\<exists>b y. (f(a := None)) b = Some y \<and> fe_fd y = fd" by (intro exI [of _ b] exI [of _ y]) simp
qed

lemma set_procs_sel [simp]:
  "fe_fd (set_procs r w e d x) = fe_fd x" "fe_gen (set_procs r w e d x) = fe_gen x"
  "fe_idx (set_procs r w e d x) = fe_idx x" "fe_mask (set_procs r w e d x) = fe_mask x"
  by (simp_all add: set_procs_def)

lemma iview_add:
  "iview ((set_procs r w e d x)\<lparr>fe_mask := fe_mask x OR m\<rparr>)
     = the (spec_add (fe_fd x) m r w e d [fe_fd x \<mapsto> iview x] (fe_fd x))"
  by (simp add: iview_def set_procs_def spec_add_def)

lemma spec_add_old:
  assumes "M fd = Some (iview x)"
  shows "spec_add fd m r w e d M = M(fd \<mapsto> iview ((set_procs r w e d x)\<lparr>fe_mask := fe_mask x OR m\<rparr>))"
    and "fe_mask x OR m = fe_mask x \<Longrightarrow> spec_add fd m r w e d M = M(fd \<mapsto> iview (set_procs r w e d x))"
  using assms by (simp_all add: iview_def set_procs_def spec_add_def)

lemma spec_add_new:
  assumes "M fd = None"
  shows "spec_add fd m r w e d M = M(fd \<mapsto> iview ((set_procs r w e d ((fe_init fd)\<lparr>fe_gen := g\<rparr>))\<lparr>fe_mask := m\<rparr>))"
  using assms by (simp add: iview_def set_procs_def spec_add_def fe_init_def)

lemmas poll_step_defs = upd_fe_def fe_destroy_def tick_def fe_at_def Let_def

text \<open>The entry that creation leaves, and what follows when nothing but the bookkeeping changed.\<close>

lemma fe_init_sel [simp]:
  "fe_fd (fe_init fd) = fd" "fe_mask (fe_init fd) = 0" "fe_idx (fe_init fd) = -1" "fe_gen (fe_init fd) = 0"
  by (simp_all add: fe_init_def)

lemma back_ok_cong:
  "fes s' = fes s \<Longrightarrow> ep_set s' = ep_set s \<Longrightarrow> poll_fds s' = poll_fds s \<Longrightarrow> poll_fes s' = poll_fes s \<Longrightarrow>
     nfds s' = nfds s \<Longrightarrow> setsize s' = setsize s \<Longrightarrow> back_ok b W s' = back_ok b W s"
  by (simp add: back_ok_def split: backend.split)

lemma loop_keeps_quiet:
  assumes "registry_inv b W s" and "map_ok h (fes s)" and "unat (next_gen s) \<le> unat g" and "2 * unat g \<le> c" and "calls s \<le> c"
    and "s' = s\<lparr>fd_map := h, next_gen := g, calls := c\<rparr>"
  shows "loop_keeps b W s s' \<and> regv s' = regv s"
proof
  show "loop_keeps b W s s'"
    by (rule loop_keeps_same [OF assms(1)])
      (use assms registry_invD(5) [OF assms(1)] in \<open>simp_all add: back_ok_def split: backend.splits\<close>)
  show "regv s' = regv s"
    by (rule regv_same) (use assms registry_invD(1) [OF assms(1)] in simp_all)
qed

lemma ep_add_law:
  assumes "registry_inv EPOLL W s" and "malloc_ok W" and "ep_add_event W fd m r w e d s = (rc, s')" and "calls s' < 2 ^ 32"
  shows "loop_keeps EPOLL W s s' \<and> (rc = 0 \<and> regv s' = spec_add fd m r w e d (regv s) \<or> rc = -1 \<and> regv s' = regv s)"
proof (cases "fe_get s fd")
  case None
  note I = registry_invD [OF assms(1)]
  obtain r0 s0 where c0: "fe_create W fd s = (r0, s0)" by fastforce
  have "calls s0 \<le> calls s'"
    using assms(3) by (auto simp: ep_add_event_def Let_def c0 None epoll_ctl_def split: option.splits if_splits)
  with assms(4) have c: "calls (snd (fe_create W fd s)) < 2 ^ 32" by (simp add: c0)
  show ?thesis
  proof (cases rule: fe_create_cases [OF I(1) assms(2) None I(2,3) c, case_names fail new])
    case (fail h g c)
    have "s' = s\<lparr>fd_map := h, next_gen := g, calls := c\<rparr>" "rc = -1"
      using assms(3) fail(1) None by (simp_all add: ep_add_event_def)
    with loop_keeps_quiet [OF assms(1) fail(2-5)] show ?thesis by simp
  next
    case (new a h)
    define fe where "fe = (set_procs r w e d ((fe_init fd)\<lparr>fe_gen := next_gen s + 1\<rparr>))\<lparr>fe_mask := m\<rparr>"
    have fe: "fe_fd fe = fd" "fe_gen fe = next_gen s + 1" "fe_mask fe = m" by (simp_all add: fe_def)
    have free: "\<And>b x. fes s b = Some x \<Longrightarrow> fe_fd x \<noteq> fd" using fe_get_None [OF I(1)] None by blast
    show ?thesis
    proof (cases "w_call W (calls s + 2)")
      case True
      have s': "s' = s\<lparr>fd_map := h, next_gen := next_gen s + 1, fes := (fes s)(a \<mapsto> fe), calls := calls s + 3,
          ep_set := (ep_set s)(fd \<mapsto> epoll_events m), nfds := nfds s + 1,
          maxfd := (if sint fd > maxfd s then sint fd else maxfd s)\<rparr>" "rc = 0"
        using assms(3) True new(1) None
        by (auto simp: ep_add_event_def poll_step_defs epoll_ctl_def raise_maxfd_def fe_def)
      have m: "map_ok h ((fes s)(a \<mapsto> fe))"
        using map_ok_upd [OF new(2), of a] fe by simp
      have b: "ep_ok ((ep_set s)(fd \<mapsto> epoll_events m)) ((fes s)(a \<mapsto> fe))"
        using ep_ok_put [of "ep_set s" "fes s" a fe] I(5) free new(3) by (auto simp: back_ok_def fe)
      have "loop_keeps EPOLL W s s'"
        by (rule loop_keeps_new [OF assms(1) new(3), of _ fe]) (use s' m b fe new in \<open>simp_all add: back_ok_def\<close>)
      moreover have "regv s' = spec_add fd m r w e d (regv s)"
          using regv_put [OF I(1), of s' a fe] s' m new(3) fe
          spec_add_new [of "regv s" fd m r w e d "next_gen s + 1", folded fe_def] regv_free [OF None] by simp
      ultimately show ?thesis using s' by simp
    next
      case False
      have m: "map_ok (snd (xhash_remove_int h (fd_key fd))) (fes s)"
        using map_ok_drop [OF new(2), of a "(fe_init fd)\<lparr>fe_gen := next_gen s + 1\<rparr>"] new(3) by (simp add: fun_upd_idem)
      have "s' = s\<lparr>fd_map := snd (xhash_remove_int h (fd_key fd)), next_gen := next_gen s + 1, calls := calls s + 3\<rparr>" "rc = -1"
        using assms(3) False new(1,3) None
        by (auto simp: ep_add_event_def poll_step_defs epoll_ctl_def fun_upd_idem)
      with loop_keeps_quiet [OF assms(1) m, of "next_gen s + 1" "calls s + 3" s'] new(4) I(3) show ?thesis by simp
    qed
  qed
next
  case (Some a)
  note I = registry_invD [OF assms(1)]
  from Some obtain x where x: "fes s a = Some x" "fe_fd x = fd" by (auto simp: fe_get_Some [OF I(1)])
  have E: "ep_ok (ep_set s) (fes s)" using I(5) by (simp add: back_ok_def)
  have v: "regv s fd = Some (iview x)" using regv_at [OF I(1) x(1)] x(2) by simp
  show ?thesis
  proof (cases "fe_mask x OR m = fe_mask x")
    case True
    have s': "s' = s\<lparr>fes := (fes s)(a \<mapsto> set_procs r w e d x)\<rparr>" "rc = 0"
      using assms(3) True Some x by (auto simp: ep_add_event_def poll_step_defs)
    have "loop_keeps EPOLL W s s'"
      by (rule loop_keeps_upd [OF assms(1) x(1), of "set_procs r w e d x"])
        (use s' ep_ok_same [OF E I(1) x(1), of "set_procs r w e d x"] in \<open>simp_all add: back_ok_def\<close>)
    moreover have "regv s' = spec_add fd m r w e d (regv s)"
      using spec_add_old(2) [of "regv s" fd x m r w e d] v True regv_put [OF I(1), of s' a "set_procs r w e d x"] s' x map_ok_upd [OF I(1) x(1)] by simp
    ultimately show ?thesis using s' by simp
  next
    case False
    define y where "y = (set_procs r w e d x)\<lparr>fe_mask := fe_mask x OR m\<rparr>"
    have y: "fe_fd y = fd" "fe_gen y = fe_gen x" "fe_mask y = fe_mask x OR m" using x by (simp_all add: y_def)
    show ?thesis
    proof (cases "w_call W (calls s)")
      case True
      have mx: "\<not> maxfd s < sint fd" using count_ok_max [OF I(4) x(1)] x(2) by simp
      have s': "s' = s\<lparr>fes := (fes s)(a \<mapsto> y), calls := calls s + 1,
          ep_set := (ep_set s)(fd \<mapsto> epoll_events (fe_mask y))\<rparr>" "rc = 0"
        using assms(3) True False Some x mx
        by (auto simp: ep_add_event_def poll_step_defs epoll_ctl_def raise_maxfd_def y_def)
      have "loop_keeps EPOLL W s s'"
        by (rule loop_keeps_upd [OF assms(1) x(1), of y])
          (use s' y x ep_ok_put [OF E, of a y] map_ok_others [OF I(1) x(1)] in \<open>simp_all add: back_ok_def\<close>)
      moreover have "regv s' = spec_add fd m r w e d (regv s)"
        using spec_add_old(1) [of "regv s" fd x m r w e d, folded y_def] v regv_put [OF I(1), of s' a y] s' x y map_ok_upd [OF I(1) x(1)] by simp
      ultimately show ?thesis using s' by simp
    next
      case ctl: False
      have "s' = s\<lparr>fd_map := fd_map s, next_gen := next_gen s, calls := calls s + 1\<rparr>" "rc = -1"
        using assms(3) False ctl Some x
        by (auto simp: ep_add_event_def poll_step_defs epoll_ctl_def fun_upd_idem)
      with loop_keeps_quiet [OF assms(1) I(1) order_refl, of "calls s + 1" s'] I(3) show ?thesis by simp
    qed
  qed
qed

lemma drop_fe_spec:
  assumes "map_ok (fd_map s) (fes s)" and "fes s a = Some x" and "fe_fd x = fd" and "finite (dom (fes s))"
  shows "fes (drop_fe fd a s) = (fes s)(a := None)" and "map_ok (fd_map (drop_fe fd a s)) ((fes s)(a := None))"
    and "nfds (drop_fe fd a s) = nfds s - 1"
    and "maxfd (drop_fe fd a s) = (if maxfd s = sint fd then Max (insert (-1) (fds_of ((fes s)(a := None)))) else maxfd s)"
    and "next_gen (drop_fe fd a s) = next_gen s" and "fired (drop_fe fd a s) = fired s"
    and "turns (drop_fe fd a s) = turns s" and "ep_set (drop_fe fd a s) = ep_set s"
proof -
  let ?d = "(fe_destroy a s)\<lparr>nfds := nfds s - 1\<rparr>"
  have m: "map_ok (fd_map ?d) (fes ?d)" using fe_destroy_ok [OF assms(1,2)] by (simp add: fe_destroy_def)
  have fin: "finite (dom (fes ?d))" using assms(4) by (simp add: fe_destroy_def)
  have e: "drop_fe fd a s = (if maxfd s = sint fd then maxfd_recalc ?d else ?d)"
    by (simp add: drop_fe_def Let_def fe_destroy_def)
  show "maxfd (drop_fe fd a s) = (if maxfd s = sint fd then Max (insert (-1) (fds_of ((fes s)(a := None)))) else maxfd s)"
    unfolding e using maxfd_recalc_Max [OF m fin] by (simp add: fe_destroy_def)
  show "fes (drop_fe fd a s) = (fes s)(a := None)" "map_ok (fd_map (drop_fe fd a s)) ((fes s)(a := None))"
    "nfds (drop_fe fd a s) = nfds s - 1" "next_gen (drop_fe fd a s) = next_gen s" "fired (drop_fe fd a s) = fired s"
    "turns (drop_fe fd a s) = turns s" "ep_set (drop_fe fd a s) = ep_set s"
    using m by (simp_all add: e maxfd_recalc_def fe_destroy_def)
qed

lemma older_drop: "older f g (f(a := None))"
  by (auto simp: older_def split: if_splits)

lemma loop_keeps_drop:
  assumes "registry_inv b W s" and "b \<noteq> POLL" and "fes s a = Some x" and "fes s' = (fes s)(a := None)"
    and "map_ok (fd_map s') ((fes s)(a := None))" and "next_gen s' = next_gen s" and "calls s \<le> calls s'"
    and "nfds s' = nfds s - 1"
    and "maxfd s' = (if maxfd s = sint (fe_fd x) then Max (insert (-1) (fds_of ((fes s)(a := None)))) else maxfd s)"
    and "fired s' = fired s" and "turns s' = turns s" and "back_ok b W s'"
  shows "loop_keeps b W s s' \<and> regv s' = (regv s)(fe_fd x := None)"
proof
  note I = registry_invD [OF assms(1)]
  have "count_ok (fes s') (nfds s') (maxfd s')"
    unfolding assms(4,8) by (rule count_ok_drop [OF I(4) assms(3,9)])
  then show "loop_keeps b W s s'"
    using I assms by (simp add: loop_keeps_def registry_inv_def gens_ok_drop older_drop)
  show "regv s' = (regv s)(fe_fd x := None)"
    by (rule regv_drop [OF I(1) _ _ assms(3)]) (use assms in simp_all)
qed

lemma spec_del_old:
  assumes "M fd = Some (iview x)"
  shows "spec_del fd m M = (if fe_mask x AND NOT m = 0 then M(fd := None)
           else M(fd \<mapsto> iview (x\<lparr>fe_mask := fe_mask x AND NOT m\<rparr>)))"
  using assms by (simp add: iview_def spec_del_def)

lemma spec_del_same:
  assumes "M fd = Some (iview x)" and "fe_mask x AND NOT m = fe_mask x" and "fe_mask x \<noteq> 0"
  shows "spec_del fd m M = M"
  using assms by (simp add: spec_del_old fun_upd_idem iview_def)

text \<open>
  A deletion changes the map as it should unless the kernel refuses to change the entry, or the entry is one of
  an empty mask, which only \<open>poll\<close> removes.
\<close>

lemma ep_del_law:
  assumes "registry_inv EPOLL W s" and "fe_get s fd = Some a" and "ep_del_event W fd m a s = s'"
  shows "loop_keeps EPOLL W s s' \<and> (regv s' = spec_del fd m (regv s)
    \<or> regv s' = regv s \<and> (\<not> w_call W (calls s) \<or> fe_mask (fe_at s a) = 0))"
proof -
  note I = registry_invD [OF assms(1)]
  from assms(2) obtain x where x: "fes s a = Some x" "fe_fd x = fd" by (auto simp: fe_get_Some [OF I(1)])
  have E: "ep_ok (ep_set s) (fes s)" using I(5) by (simp add: back_ok_def)
  have v: "regv s fd = Some (iview x)" using regv_at [OF I(1) x(1)] x(2) by simp
  let ?m = "fe_mask x AND NOT m"
  consider (same) "?m = fe_mask x" | (del) "?m \<noteq> fe_mask x" "?m = 0" | (upd) "?m \<noteq> fe_mask x" "?m \<noteq> 0" by blast
  then show ?thesis
  proof cases
    case same
    then have "s' = s" using assms(3) x by (simp add: ep_del_event_def fe_at_def Let_def)
    with loop_keeps_refl [OF assms(1)] spec_del_same [of "regv s" fd x m, OF v same] x show ?thesis
      by (cases "fe_mask x = 0") (simp_all add: fe_at_def)
  next
    case del
    let ?t = "(tick s)\<lparr>ep_set := (ep_set s)(fd := None)\<rparr>"
    have s': "s' = drop_fe fd a ?t"
      using assms(3) x del by (simp add: ep_del_event_def fe_at_def Let_def epoll_ctl_def tick_def)
    have t: "map_ok (fd_map ?t) (fes ?t)" "fes ?t a = Some x" "finite (dom (fes ?t))"
      using I(1,4) x by (simp_all add: tick_def count_ok_def)
    note D = drop_fe_spec [OF t(1,2) x(2) t(3)]
    have b: "back_ok EPOLL W s'"
      using ep_ok_drop [OF E I(1) x(1)] D(1,8) by (simp add: back_ok_def s' tick_def x(2))
    have "loop_keeps EPOLL W s s' \<and> regv s' = (regv s)(fe_fd x := None)"
      by (rule loop_keeps_drop [OF assms(1) _ x(1) _ _ _ _ _ _ _ _ b]) (use D x(2) in \<open>simp_all add: s' tick_def\<close>)
    with spec_del_old [of "regv s" fd x m, OF v] del x(2) show ?thesis by simp
  next
    case upd
    define y where "y = x\<lparr>fe_mask := ?m\<rparr>"
    have y: "fe_fd y = fd" "fe_gen y = fe_gen x" "fe_mask y = ?m" using x by (simp_all add: y_def)
    show ?thesis
    proof (cases "w_call W (calls s)")
      case True
      have s': "s' = s\<lparr>fes := (fes s)(a \<mapsto> y), calls := calls s + 1, ep_set := (ep_set s)(fd \<mapsto> epoll_events ?m)\<rparr>"
        using assms(3) [symmetric] x upd True
        by (simp add: ep_del_event_def fe_at_def Let_def epoll_ctl_def tick_def upd_fe_def y_def)
      have "loop_keeps EPOLL W s s'"
        by (rule loop_keeps_upd [OF assms(1) x(1), of y])
          (use s' y x ep_ok_put [OF E, of a y] map_ok_others [OF I(1) x(1)] in \<open>simp_all add: back_ok_def\<close>)
      moreover have "regv s' = spec_del fd m (regv s)"
        using spec_del_old [of "regv s" fd x m, OF v] upd regv_put [OF I(1), of s' a y] s' x y map_ok_upd [OF I(1) x(1)]
        by (simp add: y_def)
      ultimately show ?thesis by simp
    next
      case False
      then have "s' = s\<lparr>fd_map := fd_map s, next_gen := next_gen s, calls := calls s + 1\<rparr>"
        using assms(3) x upd by (simp add: ep_del_event_def fe_at_def Let_def epoll_ctl_def tick_def)
      with loop_keeps_quiet [OF assms(1) I(1) order_refl, of "calls s + 1" s'] I(3) False show ?thesis by simp
    qed
  qed
qed

section \<open>kqueue\<close>

lemma kq_add_law:
  assumes "registry_inv KQUEUE W s" and "malloc_ok W" and "kq_add_event W fd m r w e d s = (rc, s')" and "calls s' < 2 ^ 32"
  shows "loop_keeps KQUEUE W s s' \<and> (rc = 0 \<and> regv s' = spec_add fd m r w e d (regv s) \<or> rc = -1 \<and> regv s' = regv s)"
proof (cases "fe_get s fd")
  case None
  note I = registry_invD [OF assms(1)]
  obtain r0 s0 where c0: "fe_create W fd s = (r0, s0)" by fastforce
  have "calls s0 \<le> calls s'"
    using assms(3) by (auto simp: kq_add_event_def Let_def c0 None split: option.splits if_splits)
  with assms(4) have c: "calls (snd (fe_create W fd s)) < 2 ^ 32" by (simp add: c0)
  show ?thesis
  proof (cases rule: fe_create_cases [OF I(1) assms(2) None I(2,3) c, case_names fail new])
    case (fail h g c)
    have "s' = s\<lparr>fd_map := h, next_gen := g, calls := c\<rparr>" "rc = -1"
      using assms(3) fail(1) None by (simp_all add: kq_add_event_def)
    with loop_keeps_quiet [OF assms(1) fail(2-5)] show ?thesis by simp
  next
    case (new a h)
    define fe where "fe = (set_procs r w e d ((fe_init fd)\<lparr>fe_gen := next_gen s + 1\<rparr>))\<lparr>fe_mask := m\<rparr>"
    have fe: "fe_fd fe = fd" "fe_gen fe = next_gen s + 1" "fe_mask fe = m" by (simp_all add: fe_def)
    show ?thesis
    proof (cases "kq_changes 0 m \<and> \<not> w_call W (calls s + 2)")
      case False
      let ?c = "calls s + (if kq_changes 0 m then 3 else 2)"
      have s': "s' = s\<lparr>fd_map := h, next_gen := next_gen s + 1, fes := (fes s)(a \<mapsto> fe), calls := ?c, nfds := nfds s + 1,
          maxfd := (if sint fd > maxfd s then sint fd else maxfd s)\<rparr>" "rc = 0"
        using assms(3) False new(1) None
        by (auto simp: kq_add_event_def poll_step_defs raise_maxfd_def fe_def)
      have m: "map_ok h ((fes s)(a \<mapsto> fe))" using map_ok_upd [OF new(2), of a] fe by simp
      have "loop_keeps KQUEUE W s s'"
        by (rule loop_keeps_new [OF assms(1) new(3), of _ fe]) (use s' m fe new in \<open>simp_all add: back_ok_def\<close>)
      moreover have "regv s' = spec_add fd m r w e d (regv s)"
        using regv_put [OF I(1), of s' a fe] s' m new(3) fe
          spec_add_new [of "regv s" fd m r w e d "next_gen s + 1", folded fe_def] regv_free [OF None] by simp
      ultimately show ?thesis using s' by simp
    next
      case True
      have m: "map_ok (snd (xhash_remove_int h (fd_key fd))) (fes s)"
        using map_ok_drop [OF new(2), of a "(fe_init fd)\<lparr>fe_gen := next_gen s + 1\<rparr>"] new(3) by (simp add: fun_upd_idem)
      have "s' = s\<lparr>fd_map := snd (xhash_remove_int h (fd_key fd)), next_gen := next_gen s + 1, calls := calls s + 3\<rparr>" "rc = -1"
        using assms(3) True new(1,3) None
        by (auto simp: kq_add_event_def poll_step_defs fun_upd_idem)
      with loop_keeps_quiet [OF assms(1) m, of "next_gen s + 1" "calls s + 3" s'] new(4) I(3) show ?thesis by simp
    qed
  qed
next
  case (Some a)
  note I = registry_invD [OF assms(1)]
  from Some obtain x where x: "fes s a = Some x" "fe_fd x = fd" by (auto simp: fe_get_Some [OF I(1)])
  have v: "regv s fd = Some (iview x)" using regv_at [OF I(1) x(1)] x(2) by simp
  let ?m = "fe_mask x OR m"
  consider (same) "?m = fe_mask x" | (fail) "?m \<noteq> fe_mask x" "kq_changes (fe_mask x) ?m" "\<not> w_call W (calls s)"
    | (upd) "?m \<noteq> fe_mask x" "kq_changes (fe_mask x) ?m \<longrightarrow> w_call W (calls s)" by blast
  then show ?thesis
  proof cases
    case same
    have s': "s' = s\<lparr>fes := (fes s)(a \<mapsto> set_procs r w e d x)\<rparr>" "rc = 0"
      using assms(3) same Some x by (auto simp: kq_add_event_def poll_step_defs)
    have "loop_keeps KQUEUE W s s'"
      by (rule loop_keeps_upd [OF assms(1) x(1), of "set_procs r w e d x"]) (use s' in \<open>simp_all add: back_ok_def\<close>)
    moreover have "regv s' = spec_add fd m r w e d (regv s)"
      using spec_add_old(2) [of "regv s" fd x m r w e d] v same
        regv_put [OF I(1), of s' a "set_procs r w e d x"] s' x map_ok_upd [OF I(1) x(1)] by simp
    ultimately show ?thesis using s' by simp
  next
    case fail
    have "s' = s\<lparr>fd_map := fd_map s, next_gen := next_gen s, calls := calls s + 1\<rparr>" "rc = -1"
      using assms(3) fail Some x by (auto simp: kq_add_event_def poll_step_defs)
    with loop_keeps_quiet [OF assms(1) I(1) order_refl, of "calls s + 1" s'] I(3) show ?thesis by simp
  next
    case upd
    define y where "y = (set_procs r w e d x)\<lparr>fe_mask := ?m\<rparr>"
    have y: "fe_fd y = fd" "fe_gen y = fe_gen x" "fe_mask y = ?m" using x by (simp_all add: y_def)
    have mx: "\<not> maxfd s < sint fd" using count_ok_max [OF I(4) x(1)] x(2) by simp
    have s': "s' = s\<lparr>fes := (fes s)(a \<mapsto> y), calls := calls s + (if kq_changes (fe_mask x) ?m then 1 else 0)\<rparr>" "rc = 0"
      using assms(3) upd Some x mx by (auto simp: kq_add_event_def poll_step_defs raise_maxfd_def y_def)
    have "loop_keeps KQUEUE W s s'"
      by (rule loop_keeps_upd [OF assms(1) x(1), of y]) (use s' y x in \<open>simp_all add: back_ok_def\<close>)
    moreover have "regv s' = spec_add fd m r w e d (regv s)"
      using spec_add_old(1) [of "regv s" fd x m r w e d, folded y_def] v
        regv_put [OF I(1), of s' a y] s' x y map_ok_upd [OF I(1) x(1)] by simp
    ultimately show ?thesis using s' by simp
  qed
qed

lemma kq_del_law:
  assumes "registry_inv KQUEUE W s" and "fe_get s fd = Some a" and "kq_del_event fd m a s = s'"
  shows "loop_keeps KQUEUE W s s' \<and> (regv s' = spec_del fd m (regv s) \<or> regv s' = regv s \<and> fe_mask (fe_at s a) = 0)"
proof -
  note I = registry_invD [OF assms(1)]
  from assms(2) obtain x where x: "fes s a = Some x" "fe_fd x = fd" by (auto simp: fe_get_Some [OF I(1)])
  have v: "regv s fd = Some (iview x)" using regv_at [OF I(1) x(1)] x(2) by simp
  let ?m = "fe_mask x AND NOT m"
  define y where "y = x\<lparr>fe_mask := ?m\<rparr>"
  have y: "fe_fd y = fd" "fe_gen y = fe_gen x" "fe_mask y = ?m" using x by (simp_all add: y_def)
  define t where "t = s\<lparr>fes := (fes s)(a \<mapsto> y), calls := calls s + (if kq_changes ?m (fe_mask x) then 1 else 0)\<rparr>"
  have t: "loop_keeps KQUEUE W s t"
    unfolding t_def by (rule loop_keeps_upd [OF assms(1) x(1), of y]) (use y x in \<open>simp_all add: back_ok_def\<close>)
  have tv: "regv t = (regv s)(fd \<mapsto> iview y)"
    using regv_put [OF I(1), of t a y] x y map_ok_upd [OF I(1) x(1)] by (simp add: t_def)
  consider (same) "?m = fe_mask x" | (del) "?m \<noteq> fe_mask x" "?m = 0" | (upd) "?m \<noteq> fe_mask x" "?m \<noteq> 0" by blast
  then show ?thesis
  proof cases
    case same
    then have "s' = s" using assms(3) x by (simp add: kq_del_event_def fe_at_def Let_def)
    with loop_keeps_refl [OF assms(1)] spec_del_same [of "regv s" fd x m, OF v same] x show ?thesis
      by (cases "fe_mask x = 0") (simp_all add: fe_at_def)
  next
    case del
    let ?u = "upd_fe a (\<lambda>fe. fe\<lparr>fe_mask := ?m\<rparr>) (if kq_changes ?m (fe_mask x) then tick s else s)"
    have "s' = drop_fe fd a ?u" using assms(3) [symmetric] del x by (simp add: kq_del_event_def fe_at_def Let_def)
    moreover have "?u = t" using x by (simp add: upd_fe_def tick_def t_def y_def)
    ultimately have s': "s' = drop_fe fd a t" by simp
    note J = registry_invD [OF loop_keepsD(1) [OF t]]
    have ta: "fes t a = Some y" and fin: "finite (dom (fes t))" using J(4) by (simp_all add: t_def count_ok_def)
    note D = drop_fe_spec [OF J(1) ta y(1) fin]
    have "loop_keeps KQUEUE W t s' \<and> regv s' = (regv t)(fe_fd y := None)"
      by (rule loop_keeps_drop [OF loop_keepsD(1) [OF t] _ ta]) (use D y in \<open>simp_all add: s' back_ok_def\<close>)
    with loop_keeps_trans [OF t] spec_del_old [of "regv s" fd x m, OF v] del tv y show ?thesis by simp
  next
    case upd
    then have "s' = t" using assms(3) [symmetric] x by (auto simp add: kq_del_event_def poll_step_defs t_def y_def)
    with t tv spec_del_old [of "regv s" fd x m, OF v] upd show ?thesis by (simp add: y_def)
  qed
qed

end
