(* ===== verification/XPollSlots.thy ===== *)
theory XPollSlots
  imports XPollLaws
begin

text \<open>
  The backend \<open>poll\<close> with its compact arrays, resizing and the client data; then the contract of all backends.
\<close>

section \<open>Resizing\<close>

lemma map_ok_resize:
  assumes "map_ok h f" and "n \<le> 2 ^ 63"
  shows "map_ok (snd (xhash_resize ok h n)) f"
proof -
  obtain r h' where e: "xhash_resize ok h n = (r, h')" by fastforce
  have i: "xhash_inv h" "key_type h = XHASH_KEY_INT" using map_okD(1) [OF assms(1)] by (auto simp: int_inv_def)
  have P: "pow2_size (unat (xhash_next_pow2 (of_nat n)))" using next_pow2_is_pow2 [OF assms(2)] by (auto simp: pow2_size_def)
  have "xhash_inv h' \<and> xhash_abs h' = xhash_abs h \<and> hcount h' = hcount h \<and> key_type h' = key_type h"
    by (rule resize_inv [OF i(1) _ P e]) (use assms(2) in simp)
  then have "int_inv h'" "int_abs h' = int_abs h" "xhash_size h' = xhash_size h" using i by (simp_all add: int_inv_def int_abs_def xhash_size_def fun_eq_iff)
  then show ?thesis using assms(1) by (simp add: map_ok_def e)
qed

lemma nfds_bound:
  assumes "registry_inv b W s"
  shows "nfds s \<le> 2 ^ 31"
  using map_ok_size [OF registry_invD(1) [OF assms]] map_okD(4) [OF registry_invD(1) [OF assms]] registry_invD(4) [OF assms]
  by (simp add: count_ok_def)

lemma resize_law:
  assumes "registry_inv b W s" and "n \<le> 2 ^ 63" and "xpoll_resize b W n s = (rc, s')"
  shows "loop_keeps b W s s' \<and> regv s' = regv s" and "fes s' = fes s" and "nfds s' = nfds s" and "next_gen s' = next_gen s"
    and "rc \<ge> 0 \<Longrightarrow> n \<le> setsize s'"
proof -
  note I = registry_invD [OF assms(1)]
  note E = assms(3) [unfolded xpoll_resize_def Let_def]
  show f: "fes s' = fes s" and "nfds s' = nfds s" and g: "next_gen s' = next_gen s" and "rc \<ge> 0 \<Longrightarrow> n \<le> setsize s'"
    using E by (auto simp: tick_def split: if_splits)
  have m: "map_ok (fd_map s') (fes s)"
    using E map_ok_resize [OF I(1) assms(2)] I(1) by (auto simp: tick_def split: if_splits)
  have c: "calls s \<le> calls s'" using resize_calls [of s b W n] assms(3) by simp
  have o: "nfds s' = nfds s" "maxfd s' = maxfd s" "fired s' = fired s" "turns s' = turns s" "ep_set s' = ep_set s"
    using E by (auto simp: tick_def split: if_splits)
  have a: "poll_fds s' = poll_fds s \<and> poll_fes s' = poll_fes s \<and> setsize s' = setsize s
     \<or> setsize s < n \<and> setsize s' = n \<and> poll_fds s' = poll_fds s @ replicate (n - setsize s) clear_pfd
         \<and> poll_fes s' = poll_fes s @ replicate (n - setsize s) None" if "b = POLL"
    using E that by (auto simp: tick_def split: if_splits)
  have bk: "back_ok b W s'"
  proof (cases b)
    case POLL
    with I(5) slots_ok_grow a show ?thesis by (auto simp: back_ok_def f o)
  qed (use I(5) in \<open>simp_all add: back_ok_def f o\<close>)
  have sl: "slots s' = slots s" if "b = POLL"
    using a [OF that] I(5) slot_view_grow that unfolding back_ok_def f o by auto
  have "loop_keeps b W s s'"
    by (rule loop_keeps_same [OF assms(1) m f _ _ c o(1-4) bk sl]) (use g I(3) c in simp_all)
  then show "loop_keeps b W s s' \<and> regv s' = regv s" using regv_same [OF I(1), of s'] m f by simp
qed

section \<open>Adding to poll\<close>

lemma pl_new_calls: "pl_new_entry W fd s = (r, s') \<Longrightarrow> calls s \<le> calls s'"
  using resize_calls [of s POLL W "setsize s * 2"]
  by (auto simp: pl_new_entry_def Let_def dest!: fe_create_calls split: prod.splits if_splits option.splits)

text \<open>Room for one more slot.\<close>

lemma pl_room:
  assumes "registry_inv POLL W s" and "(if nfds s \<ge> setsize s then xpoll_resize POLL W (setsize s * 2) s else (0, s)) = (rc, s')"
  shows "loop_keeps POLL W s s'" and "regv s' = regv s" and "fes s' = fes s" and "rc \<ge> 0 \<Longrightarrow> nfds s' < setsize s'"
proof -
  note I = registry_invD [OF assms(1)]
  have sl: "0 < setsize s" "nfds s \<le> setsize s" using I(5) slots_okD(3) by (auto simp: back_ok_def)
  have "loop_keeps POLL W s s' \<and> regv s' = regv s \<and> fes s' = fes s \<and> (rc \<ge> 0 \<longrightarrow> nfds s' < setsize s')"
  proof (cases "nfds s \<ge> setsize s")
    case True
    with assms(2) have r: "xpoll_resize POLL W (setsize s * 2) s = (rc, s')" by simp
    have n: "setsize s * 2 \<le> 2 ^ 63" using nfds_bound [OF assms(1)] True by simp
    from resize_law [OF assms(1) n r] sl True show ?thesis by auto
  next
    case False
    with assms(2) loop_keeps_refl [OF assms(1)] show ?thesis by simp
  qed
  then show "loop_keeps POLL W s s'" and "regv s' = regv s" and "fes s' = fes s" and "rc \<ge> 0 \<Longrightarrow> nfds s' < setsize s'"
    by blast+
qed

lemma pl_add_law:
  assumes "registry_inv POLL W s" and "malloc_ok W" and "pl_add_event W fd m r w e d s = (rc, s')" and "calls s' < 2 ^ 32"
  shows "loop_keeps POLL W s s' \<and> (rc = 0 \<and> regv s' = spec_add fd m r w e d (regv s) \<or> rc = -1 \<and> regv s' = regv s)"
proof (cases "fe_get s fd")
  case None
  obtain rc1 s1 where r1: "(if nfds s \<ge> setsize s then xpoll_resize POLL W (setsize s * 2) s else (0, s)) = (rc1, s1)"
    by fastforce
  note R = pl_room [OF assms(1) r1]
  note I = registry_invD [OF assms(1)] and J = registry_invD [OF loop_keepsD(1) [OF R(1)]]
  show ?thesis
  proof (cases "rc1 < 0")
    case True
    then have "s' = s1" "rc = -1" using assms(3) None r1 by (simp_all add: pl_add_event_def pl_new_entry_def)
    with R(1,2) show ?thesis by simp
  next
    case False
    then have room: "nfds s1 < setsize s1" using R(4) by simp
    have none: "fe_get s1 fd = None"
      unfolding fe_get_None [OF J(1)] R(3) using fe_get_None [OF I(1)] None by blast
    obtain r0 s0 where c0: "fe_create W fd s1 = (r0, s0)" by fastforce
    have "calls s0 \<le> calls s'"
      using assms(3) False by (auto simp: pl_add_event_def pl_new_entry_def Let_def c0 None r1 split: option.splits if_splits)
    with assms(4) have c: "calls (snd (fe_create W fd s1)) < 2 ^ 32" by (simp add: c0)
    have sl: "slots_ok W (poll_fds s1) (poll_fes s1) (fes s1) (nfds s1) (setsize s1)" using J(5) by (simp add: back_ok_def)
    have "loop_keeps POLL W s1 s' \<and> (rc = 0 \<and> regv s' = spec_add fd m r w e d (regv s1) \<or> rc = -1 \<and> regv s' = regv s1)"
    proof (cases rule: fe_create_cases [OF J(1) assms(2) none J(2,3) c, case_names fail new])
      case (fail h g c)
      have "s' = s1\<lparr>fd_map := h, next_gen := g, calls := c\<rparr>" "rc = -1"
        using assms(3) fail(1) None False r1 by (simp_all add: pl_add_event_def pl_new_entry_def)
      with loop_keeps_quiet [OF loop_keepsD(1) [OF R(1)] fail(2-5)] show ?thesis by simp
    next
      case (new a h)
      define fe where "fe = set_procs r w e d ((fe_init fd)\<lparr>fe_gen := next_gen s1 + 1, fe_idx := int (nfds s1), fe_mask := m\<rparr>)"
      have fe: "fe_fd fe = fd" "fe_gen fe = next_gen s1 + 1" "fe_mask fe = m" "fe_idx fe = int (nfds s1)"
        by (simp_all add: fe_def)
      let ?p = "(poll_fds s1)[nfds s1 := (poll_fds s1 ! nfds s1)\<lparr>pf_fd := fe_fd fe, pf_events := poll_events W (fe_mask fe)\<rparr>]"
      have s': "s' = s1\<lparr>fd_map := h, next_gen := next_gen s1 + 1, fes := (fes s1)(a \<mapsto> fe), calls := calls s1 + 2,
          poll_fds := ?p, poll_fes := (poll_fes s1)[nfds s1 := Some a], nfds := nfds s1 + 1,
          maxfd := (if sint fd > maxfd s1 then sint fd else maxfd s1)\<rparr>" "rc = 0"
        using assms(3) new(1) None False r1 room slots_okD(1,2) [OF sl]
        by (auto simp: pl_add_event_def pl_new_entry_def poll_step_defs raise_maxfd_def pfd_sync_def fe_def set_procs_def
            fe_init_def)
      have mo: "map_ok h ((fes s1)(a \<mapsto> fe))" using map_ok_upd [OF new(2), of a] fe by simp
      have b: "back_ok POLL W s'"
        using slots_ok_add [OF sl room new(3) fe(4)] room by (simp add: back_ok_def s')
      have v: "slots s' = slots s1 @ [(fe_fd fe, fe_gen fe, 0)]"
        using slot_view_add [OF sl room new(3), where d = "fe_fd fe" and e = "poll_events W (fe_mask fe)" and fe = fe] by (simp add: s')
      have "loop_keeps POLL W s1 s'"
        by (rule loop_keeps_new [OF loop_keepsD(1) [OF R(1)] new(3), of _ fe]) (use s' mo b fe new v in simp_all)
      moreover have "regv s' = spec_add fd m r w e d (regv s1)"
        using regv_put [OF J(1), of s' a fe] s' mo new(3) fe regv_free [OF none]
        by (simp add: spec_add_def iview_def) (simp add: fe_def set_procs_def fe_init_def)
      ultimately show ?thesis using s' by simp
    qed
    then show ?thesis using loop_keeps_trans [OF R(1)] R(2) by simp
  qed
next
  case (Some a)
  note I = registry_invD [OF assms(1)]
  from Some obtain x where x: "fes s a = Some x" "fe_fd x = fd" by (auto simp: fe_get_Some [OF I(1)])
  have sl: "slots_ok W (poll_fds s) (poll_fes s) (fes s) (nfds s) (setsize s)" and z: "0 < setsize s"
    using I(5) by (simp_all add: back_ok_def)
  have v: "regv s fd = Some (iview x)" using regv_at [OF I(1) x(1)] x(2) by simp
  show ?thesis
  proof (cases "fe_mask x AND m = m")
    case True
    have m: "fe_mask x OR m = fe_mask x"
    proof (rule bit_word_eqI)
      fix i assume "i < LENGTH(32)"
      have "bit (fe_mask x AND m) i = bit m i" by (simp add: True)
      then show "bit (fe_mask x OR m) i = bit (fe_mask x) i" by (auto simp: bit_simps)
    qed
    have s': "s' = s\<lparr>fes := (fes s)(a \<mapsto> set_procs r w e d x)\<rparr>" "rc = 0"
      using assms(3) True Some x by (auto simp: pl_add_event_def poll_step_defs)
    have "loop_keeps POLL W s s'"
      by (rule loop_keeps_upd [OF assms(1) x(1), of "set_procs r w e d x"])
        (use s' z slots_ok_same [OF sl x(1), of "set_procs r w e d x"] slot_view_upd(2) [of "fes s" a x, OF x(1)] in
          \<open>simp_all add: back_ok_def\<close>)
    moreover have "regv s' = spec_add fd m r w e d (regv s)"
      using spec_add_old(2) [of "regv s" fd x m r w e d] v m
        regv_put [OF I(1), of s' a "set_procs r w e d x"] s' x map_ok_upd [OF I(1) x(1)] by simp
    ultimately show ?thesis using s' by simp
  next
    case False
    define y where "y = (set_procs r w e d x)\<lparr>fe_mask := fe_mask x OR m\<rparr>"
    have y: "fe_fd y = fd" "fe_gen y = fe_gen x" "fe_mask y = fe_mask x OR m" "fe_idx y = fe_idx x"
      using x by (simp_all add: y_def)
    from slots_okD(6) [OF sl x(1)] obtain j where j: "j < nfds s" "fe_idx x = int j" "poll_fes s ! j = Some a" by blast
    have mx: "\<not> maxfd s < sint fd" using count_ok_max [OF I(4) x(1)] x(2) by simp
    have yp: "set_procs r w e d (x\<lparr>fe_mask := fe_mask x OR m\<rparr>) = y" by (simp add: y_def set_procs_def)
    have s': "s' = s\<lparr>fes := (fes s)(a \<mapsto> y),
        poll_fds := (poll_fds s)[nat (fe_idx x) := (poll_fds s ! nat (fe_idx x))\<lparr>pf_events := poll_events W (fe_mask y)\<rparr>]\<rparr>"
      "rc = 0"
      using assms(3) False Some x mx j
      by (auto simp: pl_add_event_def poll_step_defs raise_maxfd_def pfd_sync_def yp y)
    have "loop_keeps POLL W s s'"
      by (rule loop_keeps_upd [OF assms(1) x(1), of y])
        (use s' y x z slots_ok_upd [OF sl x(1), of y] slot_view_upd(1) [of "fes s" a x, OF x(1), of y] in \<open>simp_all add: back_ok_def\<close>)
    moreover have "regv s' = spec_add fd m r w e d (regv s)"
      using spec_add_old(1) [of "regv s" fd x m r w e d, folded y_def] v
        regv_put [OF I(1), of s' a y] s' x y map_ok_upd [OF I(1) x(1)] by simp
    ultimately show ?thesis using s' by simp
  qed
qed

section \<open>Deleting from poll\<close>

lemma pl_compact_spec:
  assumes "i \<noteq> lst \<Longrightarrow> \<exists>m y. poll_fes s ! lst = Some m \<and> fes s m = Some y"
  shows "pl_compact i lst s = s\<lparr>poll_fds := ((poll_fds s)[i := poll_fds s ! lst])[lst := clear_pfd],
      poll_fes := ((poll_fes s)[i := poll_fes s ! lst])[lst := None],
      fes := (if i = lst then fes s
              else (fes s)(the (poll_fes s ! lst) \<mapsto> (the (fes s (the (poll_fes s ! lst))))\<lparr>fe_idx := int i\<rparr>))\<rparr>"
  using assms by (cases "i = lst") (auto simp: pl_compact_def pfd_clear_def upd_fe_def)

lemma pl_remove_law:
  assumes "registry_inv POLL W s" and "fes s a = Some x" and "fe_fd x = fd" and "fe_mask x AND NOT m = 0"
    and "pl_del_event W fd m a s = s'"
  shows "loop_keeps POLL W s s' \<and> regv s' = (regv s)(fd := None)"
proof -
  note I = registry_invD [OF assms(1)]
  have sl: "slots_ok W (poll_fds s) (poll_fes s) (fes s) (nfds s) (setsize s)" and z: "0 < setsize s"
    using I(5) by (simp_all add: back_ok_def)
  from slots_okD(6) [OF sl assms(2)] obtain i where i: "i < nfds s" "fe_idx x = int i" "poll_fes s ! i = Some a" by blast
  let ?n = "nfds s - 1"
  let ?f = "(fes s)(a := None)"
  let ?M = "the (poll_fes s ! ?n)"
  define f' where "f' = (if i = ?n then ?f else ?f(?M \<mapsto> (the (fes s ?M))\<lparr>fe_idx := int i\<rparr>))"
  have moved: "\<exists>m y. poll_fes s ! ?n = Some m \<and> fes s m = Some y \<and> m \<noteq> a" if "i \<noteq> ?n"
    using slots_ok_del(2) [OF sl assms(2) i(2) that] .
  have S: "slots_ok W ((poll_fds s)[i := poll_fds s ! ?n, ?n := clear_pfd]) ((poll_fes s)[i := poll_fes s ! ?n, ?n := None])
      f' ?n (setsize s)"
    unfolding f'_def by (rule slots_ok_del(1) [OF sl assms(2) i(2)])
  have V: "slot_view ((poll_fds s)[i := poll_fds s ! ?n, ?n := clear_pfd]) ((poll_fes s)[i := poll_fes s ! ?n, ?n := None])
      f' ?n = swap_del i (slots s)"
    unfolding f'_def by (rule slot_view_del [OF sl assms(2) i(2)])
  define h where "h = snd (xhash_remove_int (fd_map s) (fd_key fd))"
  have h: "map_ok h ?f" using map_ok_drop [OF I(1) assms(2)] assms(3) by (simp add: h_def)
  define t where "t = s\<lparr>fd_map := h, fes := f',
      poll_fds := (poll_fds s)[i := poll_fds s ! ?n, ?n := clear_pfd],
      poll_fes := (poll_fes s)[i := poll_fes s ! ?n, ?n := None], nfds := ?n\<rparr>"
  have fM: "\<exists>y. ?f ?M = Some y \<and> the (fes s ?M) = y" if "i \<noteq> ?n" using moved [OF that] by auto
  have t: "map_ok h f'" "gens_ok f' (next_gen s)" "finite (dom f')" "fds_of f' = fds_of ?f" "card (dom f') = card (dom ?f)"
    "older (fes s) (unat (next_gen s)) f'"
  proof -
    have fin: "finite (dom (fes s))" using I(4) by (simp add: count_ok_def)
    note g = gens_ok_drop [OF I(2), of a]
    show "map_ok h f'" "gens_ok f' (next_gen s)" "fds_of f' = fds_of ?f"
      using h g fM map_ok_upd [OF h, of ?M] gens_ok_upd [OF g, of ?M] fds_of_upd [of ?f ?M]
      by (auto simp: f'_def)
    show "finite (dom f')" using fin by (simp add: f'_def)
    have "f' b \<noteq> None \<longleftrightarrow> ?f b \<noteq> None" for b using fM by (cases "b = ?M") (auto simp: f'_def)
    then have "dom f' = dom ?f" unfolding dom_def by blast
    then show "card (dom f') = card (dom ?f)" by simp
    show "older (fes s) (unat (next_gen s)) f'" using moved by (auto simp: f'_def older_def)
  qed
  define mx where "mx = (if maxfd s = sint fd then Max (insert (-1) (fds_of ?f)) else maxfd s)"
  have eq: "s' = (if maxfd t = sint fd then maxfd_recalc t else t)"
  proof -
    let ?u = "fe_destroy a (upd_fe a (\<lambda>fe. fe\<lparr>fe_mask := fe_mask fe AND NOT m\<rparr>) s)"
    have u: "?u = s\<lparr>fd_map := h, fes := ?f\<rparr>"
      using assms(2,3) by (simp add: poll_step_defs h_def)
    have c: "pl_compact i ?n ?u = s\<lparr>fd_map := h, fes := f',
        poll_fds := (poll_fds s)[i := poll_fds s ! ?n, ?n := clear_pfd],
        poll_fes := (poll_fes s)[i := poll_fes s ! ?n, ?n := None]\<rparr>"
      unfolding u by (subst pl_compact_spec) (use moved in \<open>auto simp: f'_def\<close>)
    have "s' = (let s = pl_compact i ?n ?u; s = s\<lparr>nfds := nfds s - 1\<rparr>
        in if maxfd s = sint fd then maxfd_recalc s else s)"
      using assms(2-5) i(2) by (simp add: pl_del_event_def poll_step_defs)
    also have "\<dots> = (if maxfd t = sint fd then maxfd_recalc t else t)"
      unfolding c by (simp add: t_def)
    finally show ?thesis .
  qed
  have mt: "maxfd (maxfd_recalc t) = Max (insert (-1) (fds_of ?f))"
    using maxfd_recalc_Max [of t] t by (simp add: t_def)
  have s': "fes s' = f'" "fd_map s' = h" "next_gen s' = next_gen s" "calls s' = calls s" "nfds s' = ?n" "maxfd s' = mx"
    "fired s' = fired s" "turns s' = turns s" "poll_fds s' = (poll_fds s)[i := poll_fds s ! ?n, ?n := clear_pfd]"
    "poll_fes s' = (poll_fes s)[i := poll_fes s ! ?n, ?n := None]" "setsize s' = setsize s"
    using mt by (simp_all add: eq mx_def t_def maxfd_recalc_def)
  have c: "count_ok ?f ?n mx"
    by (rule count_ok_drop [OF I(4) assms(2)]) (simp add: mx_def assms(3))
  have c': "count_ok f' ?n mx" using c t(3-5) unfolding count_ok_def by metis
  have "loop_keeps POLL W s s'"
    using c' t(1,2,6) I(3) S z evolve_del [OF evolve_refl, of i "slots s" "unat (next_gen s)"] i(1)
    by (simp add: loop_keeps_def registry_inv_def s' back_ok_def V del: One_nat_def)
  moreover have "regv s' = (regv s)(fd := None)"
  proof -
    let ?t = "s\<lparr>fd_map := h, fes := ?f\<rparr>"
    have d: "regv ?t = (regv s)(fd := None)"
      using regv_drop [OF I(1) _ _ assms(2), of ?t] h assms(3) by simp
    show ?thesis
    proof (cases "i = ?n")
      case True
      with regv_same [of ?t s'] h t(1) s' d show ?thesis by (simp add: f'_def)
    next
      case False
      from fM [OF this] obtain y where y: "?f ?M = Some y" "the (fes s ?M) = y" by blast
      have "regv s' = (regv ?t)(fe_fd y \<mapsto> iview (y\<lparr>fe_idx := int i\<rparr>))"
        using regv_put [of ?t s' ?M "y\<lparr>fe_idx := int i\<rparr>"] h t(1) s' y False by (simp add: f'_def)
      moreover have "regv ?t (fe_fd y) = Some (iview y)" using regv_at [of ?t ?M y] h y by simp
      ultimately show ?thesis using d by (simp add: iview_def fun_upd_idem)
    qed
  qed
  ultimately show ?thesis by blast
qed

lemma pl_del_law:
  assumes "registry_inv POLL W s" and "fe_get s fd = Some a" and "pl_del_event W fd m a s = s'"
  shows "loop_keeps POLL W s s' \<and> regv s' = spec_del fd m (regv s)"
proof -
  note I = registry_invD [OF assms(1)]
  from assms(2) obtain x where x: "fes s a = Some x" "fe_fd x = fd" by (auto simp: fe_get_Some [OF I(1)])
  have sl: "slots_ok W (poll_fds s) (poll_fes s) (fes s) (nfds s) (setsize s)" and z: "0 < setsize s"
    using I(5) by (simp_all add: back_ok_def)
  have v: "regv s fd = Some (iview x)" using regv_at [OF I(1) x(1)] x(2) by simp
  let ?m = "fe_mask x AND NOT m"
  show ?thesis
  proof (cases "?m = 0")
    case True
    with pl_remove_law [OF assms(1) x True assms(3)] spec_del_old [of "regv s" fd x m, OF v] show ?thesis by simp
  next
    case False
    define y where "y = x\<lparr>fe_mask := ?m\<rparr>"
    have y: "fe_fd y = fd" "fe_gen y = fe_gen x" "fe_mask y = ?m" "fe_idx y = fe_idx x" using x by (simp_all add: y_def)
    from slots_okD(6) [OF sl x(1)] obtain j where j: "j < nfds s" "fe_idx x = int j" "poll_fes s ! j = Some a" by blast
    have s': "s' = s\<lparr>fes := (fes s)(a \<mapsto> y),
        poll_fds := (poll_fds s)[nat (fe_idx x) := (poll_fds s ! nat (fe_idx x))\<lparr>pf_events := poll_events W (fe_mask y)\<rparr>]\<rparr>"
      using assms(3) [symmetric] x False j by (simp add: pl_del_event_def poll_step_defs pfd_sync_def y_def)
    have "loop_keeps POLL W s s'"
      by (rule loop_keeps_upd [OF assms(1) x(1), of y])
        (use s' y x z slots_ok_upd [OF sl x(1), of y] slot_view_upd(1) [of "fes s" a x, OF x(1), of y] in
          \<open>simp_all add: back_ok_def\<close>)
    moreover have "regv s' = spec_del fd m (regv s)"
      using spec_del_old [of "regv s" fd x m, OF v] False regv_put [OF I(1), of s' a y] s' x y map_ok_upd [OF I(1) x(1)]
      by (simp add: y_def)
    ultimately show ?thesis by simp
  qed
qed

section \<open>Client data\<close>

lemma data_law:
  assumes "registry_inv b W s"
  shows "loop_keeps b W s (xpoll_set_client_data fd d s) \<and> regv (xpoll_set_client_data fd d s) = spec_data fd d (regv s)"
proof (cases "fe_get s fd")
  case None
  with loop_keeps_refl [OF assms] regv_free [OF None] show ?thesis by (simp add: xpoll_set_client_data_def spec_data_def)
next
  case (Some a)
  note I = registry_invD [OF assms]
  from Some obtain x where x: "fes s a = Some x" "fe_fd x = fd" by (auto simp: fe_get_Some [OF I(1)])
  let ?y = "x\<lparr>clientData := d\<rparr>"
  have s': "xpoll_set_client_data fd d s = s\<lparr>fes := (fes s)(a \<mapsto> ?y)\<rparr>"
    using Some x by (simp add: xpoll_set_client_data_def upd_fe_def)
  have b: "back_ok b W (s\<lparr>fes := (fes s)(a \<mapsto> ?y)\<rparr>)"
  proof (cases b)
    case EPOLL
    with I(5) ep_ok_same [OF _ I(1) x(1), of "ep_set s" ?y] show ?thesis by (simp add: back_ok_def)
  next
    case POLL
    with I(5) slots_ok_same [of W "poll_fds s" "poll_fes s" "fes s" "nfds s" "setsize s" a x ?y] x(1) show ?thesis
      by (simp add: back_ok_def)
  qed (simp add: back_ok_def)
  have "loop_keeps b W s (s\<lparr>fes := (fes s)(a \<mapsto> ?y)\<rparr>)"
    by (rule loop_keeps_upd [OF assms x(1), of ?y]) (use b slot_view_upd(2) [of "fes s" a x, OF x(1), of ?y] in simp_all)
  moreover have "regv (s\<lparr>fes := (fes s)(a \<mapsto> ?y)\<rparr>) = (regv s)(fd \<mapsto> iview ?y)"
    using regv_put [OF I(1), of "s\<lparr>fes := (fes s)(a \<mapsto> ?y)\<rparr>" a ?y] x map_ok_upd [OF I(1) x(1), of ?y] by simp
  moreover have "regv s fd = Some (iview x)" using regv_at [OF I(1) x(1)] x(2) by simp
  ultimately show ?thesis by (simp add: s' spec_data_def iview_def)
qed

end
