(* ===== verification/XPollRun.thy ===== *)
theory XPollRun
  imports XPollSlots
begin

text \<open>
  The contract of a backend as a locale, its consequences for runs of calls and for dispatch, and the three
  backends as instances. Then the loop of \<open>poll\<close> over its slots, on the list of the slots alone.
\<close>

section \<open>Calls only add to the counters\<close>

definition loop_grows :: "xPollState \<Rightarrow> xPollState \<Rightarrow> bool" where
  "loop_grows s s' \<longleftrightarrow> calls s \<le> calls s' \<and> setsize s \<le> setsize s'"

lemma loop_grows_refl [simp]: "loop_grows s s"
  by (simp add: loop_grows_def)

lemma loop_grows_trans: "loop_grows s s' \<Longrightarrow> loop_grows s' s'' \<Longrightarrow> loop_grows s s''"
  by (auto simp: loop_grows_def)

lemma quiet_setsize [simp]:
  "setsize (upd_fe a f s) = setsize s" "setsize (fe_destroy a s) = setsize s" "setsize (maxfd_recalc s) = setsize s"
  "setsize (raise_maxfd fd s) = setsize s" "setsize (drop_fe fd a s) = setsize s" "setsize (pfd_sync W i s) = setsize s"
  "setsize (pfd_clear i s) = setsize s" "setsize (pl_compact i j s) = setsize s" "setsize (tick s) = setsize s"
  by (simp_all add: upd_fe_def fe_destroy_def maxfd_recalc_def raise_maxfd_def drop_fe_def pfd_sync_def pfd_clear_def
      pl_compact_def tick_def Let_def split: option.split)

lemma create_grows: "loop_grows s (snd (fe_create W fd s))"
  by (auto simp: loop_grows_def fe_create_def tick_def Let_def split: option.splits prod.splits bool.splits)

lemma resize_grows: "loop_grows s (snd (xpoll_resize b W n s))"
  by (auto simp: loop_grows_def xpoll_resize_def tick_def Let_def)

lemma ctl_grows: "loop_grows s (snd (epoll_ctl W op fd ev s))"
  by (auto simp: loop_grows_def epoll_ctl_def tick_def split: ctl_op.split)

lemma ep_add_grows: "loop_grows s (snd (ep_add_event W fd m r w e d s))"
  using create_grows [of s W fd]
  by (auto simp: ep_add_event_def Let_def loop_grows_def epoll_ctl_def split: option.splits if_splits prod.splits)

lemma kq_add_grows: "loop_grows s (snd (kq_add_event W fd m r w e d s))"
  using create_grows [of s W fd]
  by (auto simp: kq_add_event_def Let_def loop_grows_def split: option.splits if_splits prod.splits)

lemma new_entry_grows: "loop_grows s (snd (pl_new_entry W fd s))"
proof -
  obtain rc s1 where r: "(if nfds s \<ge> setsize s then xpoll_resize POLL W (setsize s * 2) s else (0, s)) = (rc, s1)"
    by fastforce
  have "loop_grows s s1" using r resize_grows [of s POLL W "setsize s * 2"] by (auto split: if_splits)
  moreover obtain r0 s0 where c: "fe_create W fd s1 = (r0, s0)" by fastforce
  moreover have "loop_grows s1 s0" using create_grows [of s1 W fd] c by simp
  ultimately show ?thesis
    by (auto simp: pl_new_entry_def r c Let_def loop_grows_def split: option.split)
qed

lemma pl_add_grows: "loop_grows s (snd (pl_add_event W fd m r w e d s))"
  using new_entry_grows [of s W fd]
  by (auto simp: pl_add_event_def Let_def loop_grows_def split: option.splits if_splits prod.splits)

lemma del_grows: "loop_grows s (xpoll_del_event b W fd m s)"
  by (auto simp: xpoll_del_event_def ep_del_event_def kq_del_event_def pl_del_event_def epoll_ctl_def Let_def loop_grows_def
      split: option.split backend.split)

lemma op_grows: "loop_grows s (run_op b W op s)"
  using ep_add_grows kq_add_grows pl_add_grows resize_grows del_grows
  by (cases op; cases b) (auto simp: xpoll_add_event_def xpoll_set_client_data_def loop_grows_def split: option.split)

lemma run_grows: "loop_grows s (run_calls b W ops s)"
  unfolding run_calls_def
  by (induction ops arbitrary: s) (auto intro: loop_grows_trans op_grows)

lemma call_proc_grows: "loop_grows s (call_proc b W H p fd m a g s)"
  using run_grows [of "s\<lparr>fired := fs\<rparr>" b W for fs] by (auto simp: call_proc_def loop_grows_def Let_def)

lemma step_grows: "loop_grows s (step_proc b W H sel fl arg m fd a g s)"
  by (simp add: step_proc_def call_proc_grows)

lemma dispatch_grows: "loop_grows s (dispatch b W H a m s)"
proof -
  have t: "loop_grows s (s\<lparr>turns := ts\<rparr>)" for s :: xPollState and ts by (simp add: loop_grows_def)
  show ?thesis
    unfolding dispatch_def Let_def
    by (split option.split, intro conjI impI allI, rule loop_grows_trans [OF t step_grows],
        split option.split, intro conjI impI allI)
      (rule loop_grows_trans [OF loop_grows_trans [OF loop_grows_trans [OF t step_grows] step_grows] step_grows]
          loop_grows_trans [OF loop_grows_trans [OF t step_grows] step_grows])+
qed

section \<open>What a call or a dispatch does, with its record\<close>

definition moves :: "backend \<Rightarrow> world \<Rightarrow> u32 list \<Rightarrow> fired_call list \<Rightarrow> xPollState \<Rightarrow> xPollState \<Rightarrow> bool" where
  "moves b W ts cs s s' \<longleftrightarrow> registry_inv b W s' \<and> unat (next_gen s) \<le> unat (next_gen s')
     \<and> older (fes s) (unat (next_gen s)) (fes s') \<and> fired s' = fired s @ cs \<and> turns s' = turns s @ ts
     \<and> (b = POLL \<longrightarrow> evolve (unat (next_gen s)) (slots s) (slots s'))"

lemma loop_keeps_moves: "loop_keeps b W s s' \<Longrightarrow> moves b W [] [] s s'"
  by (simp add: loop_keeps_def moves_def)

lemma movesD:
  assumes "moves b W ts cs s s'"
  shows "registry_inv b W s'" and "unat (next_gen s) \<le> unat (next_gen s')" and "older (fes s) (unat (next_gen s)) (fes s')"
    and "fired s' = fired s @ cs" and "turns s' = turns s @ ts"
    and "b = POLL \<Longrightarrow> evolve (unat (next_gen s)) (slots s) (slots s')"
  using assms unfolding moves_def by blast+

lemma moves_trans:
  assumes "moves b W ts cs s s'" and "moves b W ts' cs' s' s''"
  shows "moves b W (ts @ ts') (cs @ cs') s s''"
proof -
  note A = movesD [OF assms(1)] and B = movesD [OF assms(2)]
  have "b = POLL \<Longrightarrow> evolve (unat (next_gen s)) (slots s) (slots s'')"
    by (rule evolve_trans [OF evolve_mono [OF B(6) A(2)] A(6)])
  moreover have "older (fes s) (unat (next_gen s)) (fes s'')" by (rule older_trans [OF A(3) B(3) A(2)])
  ultimately show ?thesis using A B by (simp add: moves_def)
qed

lemma registry_inv_record [simp]:
  "registry_inv b W (s\<lparr>fired := cs\<rparr>) = registry_inv b W s" "registry_inv b W (s\<lparr>turns := ts\<rparr>) = registry_inv b W s"
  by (simp_all add: registry_inv_def back_ok_def split: backend.split)

lemma moves_record:
  assumes "registry_inv b W s"
  shows "moves b W [] [c] s (s\<lparr>fired := fired s @ [c]\<rparr>)" and "moves b W [g] [] s (s\<lparr>turns := turns s @ [g]\<rparr>)"
  using assms by (simp_all add: moves_def evolve_refl)

lemma fe_get_same_Some:
  assumes "registry_inv b W s" and "fe_get_same s fd a gen = Some a'"
  shows "a' = a" and "\<exists>x. fes s a = Some x \<and> fe_fd x = fd \<and> fe_gen x = gen"
proof -
  note I = registry_invD [OF assms(1)]
  from assms(2) have "a' = a" "fe_get s fd = Some a" "fe_gen (fe_at s a) = gen"
    by (auto simp: fe_get_same_def split: option.splits if_splits)
  with fe_get_Some [OF I(1)] show "a' = a" "\<exists>x. fes s a = Some x \<and> fe_fd x = fd \<and> fe_gen x = gen"
    by (auto simp: fe_at_def)
qed

text \<open>A callback that was called for the registration \<open>gen\<close> of \<open>fd\<close>, with part of the event's mask.\<close>

definition right_call :: "u32 \<Rightarrow> u32 \<Rightarrow> u32 \<Rightarrow> fired_call \<Rightarrow> bool" where
  "right_call fd gen m c \<longleftrightarrow> fc_fd c = fd \<and> fc_gen c = gen \<and> fc_mask c \<noteq> 0 \<and> fc_mask c AND m = fc_mask c
     \<and> (\<exists>x. fc_entry c = Some x \<and> fe_fd x = fd \<and> fe_gen x = gen \<and> fc_data c = clientData x
          \<and> fc_proc c = (if fc_mask c = XPOLL_WRITABLE then wfileProc x
                         else if fc_mask c = XPOLL_READABLE then rfileProc x else efileProc x))"

lemma error_mask:
  "m AND (XPOLL_ERROR OR XPOLL_CLOSE) \<noteq> XPOLL_WRITABLE" "m AND (XPOLL_ERROR OR XPOLL_CLOSE) \<noteq> XPOLL_READABLE"
proof -
  have "bit (m AND (4 OR 8) :: u32) 1 = False" "bit (m AND (4 OR 8) :: u32) 0 = False" by (simp_all add: bit_simps)
  then show "m AND (XPOLL_ERROR OR XPOLL_CLOSE) \<noteq> XPOLL_WRITABLE" "m AND (XPOLL_ERROR OR XPOLL_CLOSE) \<noteq> XPOLL_READABLE"
    unfolding xpoll_masks by (auto dest: arg_cong [of _ _ "\<lambda>w. bit w 1"] arg_cong [of _ _ "\<lambda>w. bit w 0"])
qed

lemma mask_part:
  fixes m f :: u32
  shows "m AND 2 \<noteq> 0 \<Longrightarrow> 2 AND m = 2" and "m AND 1 \<noteq> 0 \<Longrightarrow> 1 AND m = 1" and "(m AND f) AND m = m AND f"
proof -
  have one: "(2 ^ k AND m = 2 ^ k) \<or> m AND 2 ^ k = 0" for k
    by (cases "bit m k") (auto intro!: bit_word_eqI simp: bit_simps)
  show "m AND 2 \<noteq> 0 \<Longrightarrow> 2 AND m = 2" "m AND 1 \<noteq> 0 \<Longrightarrow> 1 AND m = 1" using one [of 1] one [of 0] by auto
  show "(m AND f) AND m = m AND f" by (rule bit_word_eqI) (auto simp: bit_simps)
qed

section \<open>The contract of a backend\<close>

locale poll_backend =
  fixes b :: backend
  assumes add_law: "registry_inv b W s \<Longrightarrow> malloc_ok W \<Longrightarrow> xpoll_add_event b W fd m r w e d s = (rc, s') \<Longrightarrow>
      calls s' < 2 ^ 32 \<Longrightarrow>
      loop_keeps b W s s' \<and> (rc = 0 \<and> regv s' = spec_add fd m r w e d (regv s) \<or> rc = -1 \<and> regv s' = regv s)"
    and del_law: "registry_inv b W s \<Longrightarrow>
      loop_keeps b W s (xpoll_del_event b W fd m s)
      \<and> (regv (xpoll_del_event b W fd m s) = spec_del fd m (regv s)
         \<or> regv (xpoll_del_event b W fd m s) = regv s
             \<and> (\<not> w_call W (calls s) \<or> b \<noteq> POLL \<and> (\<exists>v. regv s fd = Some v \<and> fst v = 0)))"
begin

lemma op_keeps:
  assumes "registry_inv b W s" and "malloc_ok W" and "calls (run_op b W op s) < 2 ^ 32"
  shows "loop_keeps b W s (run_op b W op s)"
proof (cases op)
  case (Add_event fd m r w e d)
  obtain rc s' where "xpoll_add_event b W fd m r w e d s = (rc, s')" by fastforce
  with add_law [OF assms(1,2) this] assms(3) Add_event show ?thesis by simp
next
  case (Del_event fd m)
  with del_law [OF assms(1)] show ?thesis by simp
next
  case (Set_data fd d)
  with data_law [OF assms(1)] show ?thesis by simp
next
  case (Resize n)
  obtain rc s' where e: "xpoll_resize b W (nat (sint n)) s = (rc, s')" by fastforce
  have "sint n < 2 ^ 31" using sint_lt [of n] by simp
  then have "nat (sint n) \<le> 2 ^ 63" by simp
  with resize_law(1) [OF assms(1) this e] e Resize show ?thesis by simp
qed

lemma calls_keeps:
  assumes "registry_inv b W s" and "malloc_ok W" and "calls (run_calls b W ops s) < 2 ^ 32"
  shows "loop_keeps b W s (run_calls b W ops s)"
  using assms(1,3)
proof (induction ops arbitrary: s)
  case Nil
  then show ?case by (simp add: run_calls_def loop_keeps_refl)
next
  case (Cons op ops)
  let ?s = "run_op b W op s"
  have e: "run_calls b W (op # ops) s = run_calls b W ops ?s" by (simp add: run_calls_def)
  have "calls ?s < 2 ^ 32" using Cons.prems(2) run_grows [of ?s b W ops] by (simp add: e loop_grows_def)
  from op_keeps [OF Cons.prems(1) assms(2) this] have k: "loop_keeps b W s ?s" .
  from loop_keeps_trans [OF k Cons.IH [OF loop_keepsD(1) [OF k]]] Cons.prems(2) show ?case by (simp add: e)
qed

lemma proc_moves:
  assumes "registry_inv b W s" and "malloc_ok W" and "fes s a = Some x" and "fe_fd x = fd"
    and "calls (call_proc b W H p fd m a gen s) < 2 ^ 32"
  shows "\<exists>cs. moves b W [] cs s (call_proc b W H p fd m a gen s)
    \<and> (\<forall>c \<in> set cs. c = \<lparr>fc_fd = fd, fc_mask = m, fc_proc = p, fc_data = clientData x, fc_gen = gen, fc_entry = Some x\<rparr>)"
proof (cases "p = 0")
  case True
  with loop_keeps_moves [OF loop_keeps_refl [OF assms(1)]] show ?thesis by (intro exI [of _ "[]"]) (simp add: call_proc_def)
next
  case False
  note I = registry_invD [OF assms(1)]
  let ?c = "\<lparr>fc_fd = fd, fc_mask = m, fc_proc = p, fc_data = clientData x, fc_gen = gen, fc_entry = Some x\<rparr>"
  let ?s = "s\<lparr>fired := fired s @ [?c]\<rparr>"
  have "fe_get s fd = Some a" using fe_get_Some [OF I(1)] assms(3,4) by blast
  then have e: "call_proc b W H p fd m a gen s = run_calls b W (H p fd m (clientData x) ?s) ?s"
    using False assms(3) by (simp add: call_proc_def fe_at_def Let_def)
  have "loop_keeps b W ?s (run_calls b W (H p fd m (clientData x) ?s) ?s)"
    by (rule calls_keeps) (use assms in \<open>simp_all add: e\<close>)
  from moves_trans [OF moves_record(1) [OF assms(1), of ?c] loop_keeps_moves [OF this]]
  show ?thesis by (intro exI [of _ "[?c]"]) (simp add: e)
qed

text \<open>One part of a dispatch: the calls are right whenever they would be for the entry at hand.\<close>

lemma step_moves:
  assumes "registry_inv b W s" and "malloc_ok W" and "fes s a = Some x" and "fe_fd x = fd" and "fe_gen x = gen"
    and "calls (step_proc b W H sel fl arg m fd a gen s) < 2 ^ 32"
    and "m AND fl \<noteq> 0 \<Longrightarrow> right_call fd gen m
           \<lparr>fc_fd = fd, fc_mask = arg, fc_proc = sel x, fc_data = clientData x, fc_gen = gen, fc_entry = Some x\<rparr>"
  shows "\<exists>cs. moves b W [] cs s (step_proc b W H sel fl arg m fd a gen s) \<and> (\<forall>c \<in> set cs. right_call fd gen m c)"
proof (cases "m AND fl \<noteq> 0")
  case True
  with proc_moves [OF assms(1-4), of H "sel x" arg gen] assms(3,6,7) show ?thesis
    by (auto simp: step_proc_def fe_at_def)
next
  case False
  with loop_keeps_moves [OF loop_keeps_refl [OF assms(1)]] show ?thesis by (intro exI [of _ "[]"]) (simp add: step_proc_def)
qed

lemma right_write: "m AND XPOLL_WRITABLE \<noteq> 0 \<Longrightarrow> right_call (fe_fd x) (fe_gen x) m
    \<lparr>fc_fd = fe_fd x, fc_mask = XPOLL_WRITABLE, fc_proc = wfileProc x, fc_data = clientData x, fc_gen = fe_gen x,
      fc_entry = Some x\<rparr>"
  using mask_part(1) [of m] by (simp add: right_call_def xpoll_masks)

lemma right_read: "m AND XPOLL_READABLE \<noteq> 0 \<Longrightarrow> right_call (fe_fd x) (fe_gen x) m
    \<lparr>fc_fd = fe_fd x, fc_mask = XPOLL_READABLE, fc_proc = rfileProc x, fc_data = clientData x, fc_gen = fe_gen x,
      fc_entry = Some x\<rparr>"
  using mask_part(2) [of m] by (simp add: right_call_def xpoll_masks)

lemma right_error: "m AND (XPOLL_ERROR OR XPOLL_CLOSE) \<noteq> 0 \<Longrightarrow> right_call (fe_fd x) (fe_gen x) m
    \<lparr>fc_fd = fe_fd x, fc_mask = m AND (XPOLL_ERROR OR XPOLL_CLOSE), fc_proc = efileProc x, fc_data = clientData x,
      fc_gen = fe_gen x, fc_entry = Some x\<rparr>"
  using mask_part(3) [of m "XPOLL_ERROR OR XPOLL_CLOSE"] error_mask [of m] by (simp add: right_call_def)

lemma dispatch_moves:
  assumes "registry_inv b W s" and "malloc_ok W" and "fes s a = Some x" and "calls (dispatch b W H a m s) < 2 ^ 32"
  shows "\<exists>cs. moves b W [fe_gen x] cs s (dispatch b W H a m s) \<and> (\<forall>c \<in> set cs. right_call (fe_fd x) (fe_gen x) m c)"
proof -
  let ?fd = "fe_fd x" and ?gen = "fe_gen x"
  let ?E = "XPOLL_ERROR OR XPOLL_CLOSE"
  define s0 where "s0 = s\<lparr>turns := turns s @ [?gen]\<rparr>"
  define s1 where "s1 = step_proc b W H wfileProc XPOLL_WRITABLE XPOLL_WRITABLE m ?fd a ?gen s0"
  define s2 where "s2 = step_proc b W H rfileProc XPOLL_READABLE XPOLL_READABLE m ?fd a ?gen s1"
  define s3 where "s3 = step_proc b W H efileProc ?E (m AND ?E) m ?fd a ?gen s2"
  have at: "fe_at s a = x" using assms(3) by (simp add: fe_at_def)
  have D: "dispatch b W H a m s = (case fe_get_same s1 ?fd a ?gen of None \<Rightarrow> s1 | Some a' \<Rightarrow>
      let s = step_proc b W H rfileProc XPOLL_READABLE XPOLL_READABLE m ?fd a' ?gen s1 in
      (case fe_get_same s ?fd a' ?gen of None \<Rightarrow> s
       | Some a'' \<Rightarrow> step_proc b W H efileProc ?E (m AND ?E) m ?fd a'' ?gen s))"
    unfolding dispatch_def at Let_def s1_def s0_def ..
  have g0: "moves b W [?gen] [] s s0" unfolding s0_def by (rule moves_record(2) [OF assms(1)])
  have x0: "fes s0 a = Some x" using assms(3) by (simp add: s0_def)
  have "loop_grows s1 (dispatch b W H a m s)"
    unfolding D Let_def by (auto intro: loop_grows_trans step_grows split: option.split)
  then have c1: "calls s1 < 2 ^ 32" using assms(4) by (simp add: loop_grows_def)
  from step_moves [OF movesD(1) [OF g0] assms(2) x0 refl refl c1 [unfolded s1_def]] right_write
  obtain cs1 where cs1: "moves b W [] cs1 s0 s1" "\<forall>c \<in> set cs1. right_call ?fd ?gen m c"
    unfolding s1_def by blast
  note g1 = moves_trans [OF g0 cs1(1), simplified]
  show ?thesis
  proof (cases "fe_get_same s1 ?fd a ?gen")
    case None
    with D g1 cs1(2) show ?thesis by auto
  next
    case (Some a1)
    from fe_get_same_Some [OF movesD(1) [OF g1] Some] obtain x1 where
      x1: "a1 = a" "fes s1 a = Some x1" "fe_fd x1 = ?fd" "fe_gen x1 = ?gen" by blast
    have D2: "dispatch b W H a m s = (case fe_get_same s2 ?fd a ?gen of None \<Rightarrow> s2 | Some a'' \<Rightarrow>
        step_proc b W H efileProc ?E (m AND ?E) m ?fd a'' ?gen s2)"
      unfolding D Some option.case x1(1) Let_def s2_def [symmetric] ..
    have "loop_grows s2 (dispatch b W H a m s)" unfolding D2 by (auto intro: step_grows split: option.split)
    then have c2: "calls s2 < 2 ^ 32" using assms(4) by (simp add: loop_grows_def)
    from step_moves [OF movesD(1) [OF g1] assms(2) x1(2-4) c2 [unfolded s2_def]] right_read [of m x1]
    obtain cs2 where cs2: "moves b W [] cs2 s1 s2" "\<forall>c \<in> set cs2. right_call ?fd ?gen m c"
      unfolding s2_def x1(3,4) by blast
    note g2 = moves_trans [OF g1 cs2(1), simplified]
    show ?thesis
    proof (cases "fe_get_same s2 ?fd a ?gen")
      case None
      with D2 g2 cs1(2) cs2(2) show ?thesis by (intro exI [of _ "cs1 @ cs2"]) auto
    next
      case (Some a2)
      from fe_get_same_Some [OF movesD(1) [OF g2] Some] obtain x2 where
        x2: "a2 = a" "fes s2 a = Some x2" "fe_fd x2 = ?fd" "fe_gen x2 = ?gen" by blast
      have D3: "dispatch b W H a m s = s3" unfolding D2 Some option.case x2(1) s3_def ..
      from step_moves [OF movesD(1) [OF g2] assms(2) x2(2-4) assms(4) [unfolded D3 s3_def]] right_error [of m x2]
      obtain cs3 where cs3: "moves b W [] cs3 s2 s3" "\<forall>c \<in> set cs3. right_call ?fd ?gen m c"
        unfolding s3_def x2(3,4) by blast
      from moves_trans [OF g2 cs3(1)] cs1(2) cs2(2) cs3(2) D3 show ?thesis
        by (intro exI [of _ "cs1 @ cs2 @ cs3"]) auto
    qed
  qed
qed

end

end
