(* ===== verification/XPollTurns.thy ===== *)
theory XPollTurns
  imports XPollRun
begin

text \<open>
  The three backends as instances of the contract, and the loop of \<open>poll\<close> over its slots: argued on the list of
  the slots, then carried over to the states.
\<close>

section \<open>The backends meet the contract\<close>

lemma fst_regv: "map_ok (fd_map s) (fes s) \<Longrightarrow> fe_get s fd = Some a \<Longrightarrow> regv s fd = Some (iview (fe_at s a))"
  using fe_get_Some [of s fd a] regv_at [of s a] by (auto simp: fe_at_def)

interpretation ep: poll_backend EPOLL
proof
  fix W s fd m r w e d rc s'
  assume i: "registry_inv EPOLL W s"
  show "loop_keeps EPOLL W s s' \<and> (rc = 0 \<and> regv s' = spec_add fd m r w e d (regv s) \<or> rc = -1 \<and> regv s' = regv s)"
    if "malloc_ok W" "xpoll_add_event EPOLL W fd m r w e d s = (rc, s')" "calls s' < 2 ^ 32"
    using ep_add_law [OF i] that by (simp add: xpoll_add_event_def)
  show "loop_keeps EPOLL W s (xpoll_del_event EPOLL W fd m s)
      \<and> (regv (xpoll_del_event EPOLL W fd m s) = spec_del fd m (regv s)
         \<or> regv (xpoll_del_event EPOLL W fd m s) = regv s
             \<and> (\<not> w_call W (calls s) \<or> EPOLL \<noteq> POLL \<and> (\<exists>v. regv s fd = Some v \<and> fst v = 0)))"
  proof (cases "fe_get s fd")
    case None
    with loop_keeps_refl [OF i] regv_free [OF None] show ?thesis by (simp add: xpoll_del_event_def spec_del_def)
  next
    case (Some a)
    with ep_del_law [OF i Some refl, of m] fst_regv [OF registry_invD(1) [OF i] Some] show ?thesis
      by (auto simp: xpoll_del_event_def iview_def)
  qed
qed

interpretation kq: poll_backend KQUEUE
proof
  fix W s fd m r w e d rc s'
  assume i: "registry_inv KQUEUE W s"
  show "loop_keeps KQUEUE W s s' \<and> (rc = 0 \<and> regv s' = spec_add fd m r w e d (regv s) \<or> rc = -1 \<and> regv s' = regv s)"
    if "malloc_ok W" "xpoll_add_event KQUEUE W fd m r w e d s = (rc, s')" "calls s' < 2 ^ 32"
    using kq_add_law [OF i] that by (simp add: xpoll_add_event_def)
  show "loop_keeps KQUEUE W s (xpoll_del_event KQUEUE W fd m s)
      \<and> (regv (xpoll_del_event KQUEUE W fd m s) = spec_del fd m (regv s)
         \<or> regv (xpoll_del_event KQUEUE W fd m s) = regv s
             \<and> (\<not> w_call W (calls s) \<or> KQUEUE \<noteq> POLL \<and> (\<exists>v. regv s fd = Some v \<and> fst v = 0)))"
  proof (cases "fe_get s fd")
    case None
    with loop_keeps_refl [OF i] regv_free [OF None] show ?thesis by (simp add: xpoll_del_event_def spec_del_def)
  next
    case (Some a)
    with kq_del_law [OF i Some refl, of m] fst_regv [OF registry_invD(1) [OF i] Some] show ?thesis
      by (auto simp: xpoll_del_event_def iview_def)
  qed
qed

interpretation pl: poll_backend POLL
proof
  fix W s fd m r w e d rc s'
  assume i: "registry_inv POLL W s"
  show "loop_keeps POLL W s s' \<and> (rc = 0 \<and> regv s' = spec_add fd m r w e d (regv s) \<or> rc = -1 \<and> regv s' = regv s)"
    if "malloc_ok W" "xpoll_add_event POLL W fd m r w e d s = (rc, s')" "calls s' < 2 ^ 32"
    using pl_add_law [OF i] that by (simp add: xpoll_add_event_def)
  show "loop_keeps POLL W s (xpoll_del_event POLL W fd m s)
      \<and> (regv (xpoll_del_event POLL W fd m s) = spec_del fd m (regv s)
         \<or> regv (xpoll_del_event POLL W fd m s) = regv s
             \<and> (\<not> w_call W (calls s) \<or> POLL \<noteq> POLL \<and> (\<exists>v. regv s fd = Some v \<and> fst v = 0)))"
  proof (cases "fe_get s fd")
    case None
    with loop_keeps_refl [OF i] regv_free [OF None] show ?thesis by (simp add: xpoll_del_event_def spec_del_def)
  next
    case (Some a)
    with pl_del_law [OF i Some refl, of m] show ?thesis by (simp add: xpoll_del_event_def)
  qed
qed

lemma every_backend: "poll_backend b"
  by (cases b) (simp_all add: ep.poll_backend_axioms kq.poll_backend_axioms pl.poll_backend_axioms)

lemmas add_event_law = poll_backend.add_law [OF every_backend]
  and del_event_law = poll_backend.del_law [OF every_backend]
  and op_keeps = poll_backend.op_keeps [OF every_backend]
  and run_calls_keeps = poll_backend.calls_keeps [OF every_backend]
  and dispatch_moves = poll_backend.dispatch_moves [OF every_backend]

section \<open>The events of a wait, one after the other\<close>

lemma dispatch_fd_grows: "loop_grows (snd r) (snd (dispatch_fd b W H r e))"
  by (auto simp: dispatch_fd_def dispatch_grows split: prod.split option.split)

lemma dispatch_fds_grows: "loop_grows (snd r) (snd (foldl (dispatch_fd b W H) r es))"
proof (induction es arbitrary: r)
  case (Cons e es)
  show ?case using loop_grows_trans [OF dispatch_fd_grows [of r b W H e] Cons.IH [of "dispatch_fd b W H r e"]] by simp
qed simp

text \<open>Each dispatch is for a registration that is there, and its callbacks are right.\<close>

definition served :: "u32 list \<Rightarrow> fired_call list \<Rightarrow> bool" where
  "served ts cs \<longleftrightarrow> (\<forall>c \<in> set cs. fc_gen c \<in> set ts \<and> right_call (fc_fd c) (fc_gen c) (fc_mask c) c)"

lemma served_append: "served ts cs \<Longrightarrow> served ts' cs' \<Longrightarrow> served (ts @ ts') (cs @ cs')"
  by (auto simp: served_def)

lemma right_served: "(\<forall>c \<in> set cs. right_call fd g m c) \<Longrightarrow> served [g] cs"
  by (auto simp: served_def right_call_def)

lemma dispatch_fds_moves:
  assumes "registry_inv b W s" and "malloc_ok W" and "calls (snd (foldl (dispatch_fd b W H) (n, s) es)) < 2 ^ 32"
  shows "\<exists>ts cs. moves b W ts cs s (snd (foldl (dispatch_fd b W H) (n, s) es)) \<and> served ts cs
    \<and> fst (foldl (dispatch_fd b W H) (n, s) es) = n + int (length ts)"
  using assms(1,3)
proof (induction es arbitrary: n s)
  case Nil
  with loop_keeps_moves [OF loop_keeps_refl [of b W s]] show ?case
    by (intro exI [of _ "[]"]) (simp add: served_def)
next
  case (Cons e es)
  obtain n1 s1 where e: "dispatch_fd b W H (n, s) e = (n1, s1)" by fastforce
  have "calls s1 < 2 ^ 32"
    using Cons.prems(2) dispatch_fds_grows [of "(n1, s1)" b W H es] by (simp add: e loop_grows_def)
  have "\<exists>ts cs. moves b W ts cs s s1 \<and> served ts cs \<and> n1 = n + int (length ts)"
  proof (cases "s1 = s \<and> n1 = n")
    case True
    with loop_keeps_moves [OF loop_keeps_refl [OF Cons.prems(1)]] show ?thesis
      by (intro exI [of _ "[]"]) (simp add: served_def)
  next
    case False
    obtain sfd m where m: "e = (sfd, m)" by fastforce
    with e False obtain a where a: "fe_get s sfd = Some a" "n1 = n + 1" "s1 = dispatch b W H a m s"
      by (auto simp: dispatch_fd_def split: option.splits if_splits)
    from fe_get_Some [OF registry_invD(1) [OF Cons.prems(1)]] a(1) obtain x where x: "fes s a = Some x" by blast
    from dispatch_moves [OF Cons.prems(1) assms(2) x, of H m] \<open>calls s1 < 2 ^ 32\<close> a(3)
    obtain cs where "moves b W [fe_gen x] cs s s1" "\<forall>c \<in> set cs. right_call (fe_fd x) (fe_gen x) m c" by auto
    with right_served a(2) show ?thesis by (intro exI [of _ "[fe_gen x]"] exI [of _ cs]) auto
  qed
  then obtain ts cs where 1: "moves b W ts cs s s1" "served ts cs" "n1 = n + int (length ts)" by blast
  from Cons.IH [OF movesD(1) [OF 1(1)], of n1] Cons.prems(2) obtain ts' cs' where
    2: "moves b W ts' cs' s1 (snd (foldl (dispatch_fd b W H) (n1, s1) es))" "served ts' cs'"
      "fst (foldl (dispatch_fd b W H) (n1, s1) es) = n1 + int (length ts')" by (auto simp: e)
  from moves_trans [OF 1(1) 2(1)] served_append [OF 1(2) 2(2)] 1(3) 2(3) show ?case
    by (intro exI [of _ "ts @ ts'"] exI [of _ "cs @ cs'"]) (simp add: e)
qed

section \<open>The loop of poll on the list of slots\<close>

text \<open>
  \<open>xs\<close> are the slots when the kernel reported, \<open>ys\<close> those before the turn \<open>i - 1\<close>, \<open>T\<close> the generations served.
\<close>

definition turn_inv :: "nat \<Rightarrow> slot list \<Rightarrow> nat \<Rightarrow> slot list \<Rightarrow> u32 list \<Rightarrow> bool" where
  "turn_inv G xs i ys T \<longleftrightarrow>
     (\<forall>j < length ys. slot_rev (ys ! j) \<noteq> 0 \<longrightarrow> j < i \<and> ys ! j \<in> set xs)
     \<and> distinct (map slot_gen ys)
     \<and> (\<forall>x \<in> set xs. slot_rev x \<noteq> 0 \<longrightarrow> slot_gen x \<in> set T \<or> x \<in> set ys \<or> slot_gen x \<notin> slot_gen ` set ys)
     \<and> distinct T \<and> (\<forall>g \<in> set T. \<exists>x \<in> set xs. slot_gen x = g \<and> slot_rev x \<noteq> 0)
     \<and> (\<forall>y \<in> set ys. slot_rev y \<noteq> 0 \<longrightarrow> slot_gen y \<notin> set T)
     \<and> (\<forall>x \<in> set xs. unat (slot_gen x) \<le> G)"

lemma turn_invD:
  assumes "turn_inv G xs i ys T"
  shows "j < length ys \<Longrightarrow> slot_rev (ys ! j) \<noteq> 0 \<Longrightarrow> j < i \<and> ys ! j \<in> set xs"
    and "distinct (map slot_gen ys)"
    and "x \<in> set xs \<Longrightarrow> slot_rev x \<noteq> 0 \<Longrightarrow> slot_gen x \<in> set T \<or> x \<in> set ys \<or> slot_gen x \<notin> slot_gen ` set ys"
    and "distinct T" and "g \<in> set T \<Longrightarrow> \<exists>x \<in> set xs. slot_gen x = g \<and> slot_rev x \<noteq> 0"
    and "y \<in> set ys \<Longrightarrow> slot_rev y \<noteq> 0 \<Longrightarrow> slot_gen y \<notin> set T" and "x \<in> set xs \<Longrightarrow> unat (slot_gen x) \<le> G"
  using assms unfolding turn_inv_def by blast+

lemma turn_invI:
  assumes "\<And>j. j < length ys \<Longrightarrow> slot_rev (ys ! j) \<noteq> 0 \<Longrightarrow> j < i \<and> ys ! j \<in> set xs"
    and "distinct (map slot_gen ys)"
    and "\<And>x. x \<in> set xs \<Longrightarrow> slot_rev x \<noteq> 0 \<Longrightarrow> slot_gen x \<in> set T \<or> x \<in> set ys \<or> slot_gen x \<notin> slot_gen ` set ys"
    and "distinct T" and "\<And>g. g \<in> set T \<Longrightarrow> \<exists>x \<in> set xs. slot_gen x = g \<and> slot_rev x \<noteq> 0"
    and "\<And>y. y \<in> set ys \<Longrightarrow> slot_rev y \<noteq> 0 \<Longrightarrow> slot_gen y \<notin> set T" and "\<And>x. x \<in> set xs \<Longrightarrow> unat (slot_gen x) \<le> G"
  shows "turn_inv G xs i ys T"
  using assms unfolding turn_inv_def by blast

lemma swap_del_nth:
  assumes "k < length xs" and "j < length xs - 1"
  shows "swap_del k xs ! j = xs ! (if j = k then length xs - 1 else j)"
  using assms by (cases "xs = []") (auto simp: swap_del_def nth_list_update nth_butlast last_conv_nth)

lemma length_swap_del [simp]: "length (swap_del k xs) = length xs - 1"
  by (simp add: swap_del_def)

lemma set_swap_del:
  assumes "k < length xs"
  shows "y \<in> set (swap_del k xs) \<longleftrightarrow> (\<exists>j < length xs. j \<noteq> k \<and> y = xs ! j)"
proof
  assume "y \<in> set (swap_del k xs)"
  then obtain j where j: "j < length xs - 1" "y = swap_del k xs ! j" by (auto simp: in_set_conv_nth)
  then show "\<exists>j < length xs. j \<noteq> k \<and> y = xs ! j"
    using swap_del_nth [OF assms j(1)]
    by (intro exI [of _ "if j = k then length xs - 1 else j"]) auto
next
  assume "\<exists>j < length xs. j \<noteq> k \<and> y = xs ! j"
  then obtain j where j: "j < length xs" "j \<noteq> k" "y = xs ! j" by blast
  define l where "l = (if j = length xs - 1 then k else j)"
  have l: "l < length xs - 1" using j assms by (auto simp: l_def)
  have "swap_del k xs ! l = y" using swap_del_nth [OF assms l] j by (auto simp: l_def)
  then show "y \<in> set (swap_del k xs)" using l by (auto simp: in_set_conv_nth)
qed

lemma swap_del_subset: "k < length xs \<Longrightarrow> set (swap_del k xs) \<subseteq> set xs"
  by (auto simp: set_swap_del)

lemma distinct_swap_del:
  assumes "k < length xs" and "distinct (map f xs)"
  shows "distinct (map f (swap_del k xs))"
  unfolding distinct_conv_nth
proof (intro allI impI)
  fix i j assume ij: "i < length (map f (swap_del k xs))" "j < length (map f (swap_del k xs))" "i \<noteq> j"
  let ?p = "\<lambda>j. if j = k then length xs - 1 else j"
  have "?p i \<noteq> ?p j" "?p i < length xs" "?p j < length xs" using ij assms(1) by auto
  with assms(2) have "map f xs ! ?p i \<noteq> map f xs ! ?p j"
    by (simp only: distinct_conv_nth length_map) blast
  with ij swap_del_nth [OF assms(1)] \<open>?p i < length xs\<close> \<open>?p j < length xs\<close>
  show "map f (swap_del k xs) ! i \<noteq> map f (swap_del k xs) ! j" by (simp split: if_splits)
qed

lemma turn_inv_evolve: "evolve G' ys zs \<Longrightarrow> turn_inv G xs i ys T \<Longrightarrow> G \<le> G' \<Longrightarrow> turn_inv G xs i zs T"
proof (induction rule: evolve.induct)
  case (evolve_add ys zs g fd)
  note D = turn_invD [OF evolve_add.IH [OF evolve_add.prems]]
  show ?case
  proof (rule turn_invI)
    fix j assume "j < length (zs @ [(fd, g, 0)])" "slot_rev ((zs @ [(fd, g, 0)]) ! j) \<noteq> 0"
    then have "j < length zs" "slot_rev (zs ! j) \<noteq> 0" by (auto simp: nth_append split: if_splits)
    with D(1) show "j < i \<and> (zs @ [(fd, g, 0)]) ! j \<in> set xs" by (simp add: nth_append)
  next
    fix x assume x: "x \<in> set xs" "slot_rev x \<noteq> 0"
    have "slot_gen x \<noteq> g" using D(7) [OF x(1)] evolve_add.hyps(2) evolve_add.prems(2) by auto
    with D(3) [OF x] show "slot_gen x \<in> set T \<or> x \<in> set (zs @ [(fd, g, 0)])
        \<or> slot_gen x \<notin> slot_gen ` set (zs @ [(fd, g, 0)])" by auto
  next
    fix y assume y: "y \<in> set (zs @ [(fd, g, 0)])" "slot_rev y \<noteq> 0"
    then have "y \<in> set zs" by auto
    then show "slot_gen y \<notin> set T" using D(6) y(2) by blast
  qed (use D(2,4,5,7) evolve_add.hyps(3) in auto)
next
  case (evolve_del ys zs k)
  note D = turn_invD [OF evolve_del.IH [OF evolve_del.prems]]
  note k = evolve_del.hyps(2)
  show ?case
  proof (rule turn_invI)
    fix j assume j: "j < length (swap_del k zs)" "slot_rev (swap_del k zs ! j) \<noteq> 0"
    then have jl: "j < length zs - 1" by simp
    show "j < i \<and> swap_del k zs ! j \<in> set xs"
    proof (cases "j = k")
      case True
      with j swap_del_nth [OF k jl] have l: "slot_rev (zs ! (length zs - 1)) \<noteq> 0" by simp
      have "length zs - 1 < length zs" using k by simp
      from D(1) [OF this l] True jl swap_del_nth [OF k jl] show ?thesis by auto
    next
      case False
      with D(1) [of j] j swap_del_nth [OF k jl] jl show ?thesis by simp
    qed
  next
    show "distinct (map slot_gen (swap_del k zs))" by (rule distinct_swap_del [OF k D(2)])
  next
    fix x assume x: "x \<in> set xs" "slot_rev x \<noteq> 0"
    have inj: "i = j" if "i < length zs" "j < length zs" "slot_gen (zs ! i) = slot_gen (zs ! j)" for i j
      using D(2) that by (auto simp: distinct_conv_nth)
    show "slot_gen x \<in> set T \<or> x \<in> set (swap_del k zs) \<or> slot_gen x \<notin> slot_gen ` set (swap_del k zs)"
      using D(3) [OF x]
    proof (elim disjE)
      assume "x \<in> set zs"
      then obtain j where j: "j < length zs" "x = zs ! j" by (auto simp: in_set_conv_nth)
      show ?thesis
      proof (cases "j = k")
        case True
        have "slot_gen y \<noteq> slot_gen x" if y: "y \<in> set (swap_del k zs)" for y
        proof -
          from y obtain l where l: "l < length zs" "l \<noteq> k" "y = zs ! l" unfolding set_swap_del [OF k] by blast
          with inj [OF l(1) k] j(2) True show ?thesis by auto
        qed
        then show ?thesis by force
      next
        case False
        with j have "x \<in> set (swap_del k zs)" unfolding set_swap_del [OF k] by blast
        then show ?thesis by blast
      qed
    qed (use swap_del_subset [OF k] in blast)+
  next
    fix y assume "y \<in> set (swap_del k zs)" "slot_rev y \<noteq> 0"
    then show "slot_gen y \<notin> set T" using D(6) swap_del_subset [OF k] by blast
  qed (use D(4,5,7) in auto)
qed simp

lemma turn_inv_skip:
  assumes "turn_inv G xs (Suc i) ys T" and "i < length ys \<Longrightarrow> slot_rev (ys ! i) = 0"
  shows "turn_inv G xs i ys T"
proof -
  note D = turn_invD [OF assms(1)]
  have "j < i \<and> ys ! j \<in> set xs" if "j < length ys" "slot_rev (ys ! j) \<noteq> 0" for j
    using D(1) [OF that] assms(2) that by (cases "j = i") auto
  then show ?thesis by (rule turn_invI [OF _ D(2) D(3) D(4) D(5) D(6) D(7)])
qed

lemma turn_inv_serve:
  assumes "turn_inv G xs (Suc i) ys T" and "i < length ys" and "ys ! i = (fd, g, r)" and "r \<noteq> 0"
  shows "turn_inv G xs i (ys[i := (fd, g, 0)]) (T @ [g])"
proof -
  note D = turn_invD [OF assms(1)]
  have inj: "k = j" if "k < length ys" "j < length ys" "slot_gen (ys ! k) = slot_gen (ys ! j)" for k j
    using D(2) that by (auto simp: distinct_conv_nth)
  have gT: "g \<notin> set T" using D(6) [OF nth_mem [OF assms(2)]] assms(3,4) by simp
  have gens: "map slot_gen (ys[i := (fd, g, 0)]) = map slot_gen ys"
    using assms(2,3) by (simp add: map_update list_update_same_conv)
  show ?thesis
  proof (rule turn_invI)
    fix j assume j: "j < length (ys[i := (fd, g, 0)])" "slot_rev (ys[i := (fd, g, 0)] ! j) \<noteq> 0"
    then have "j \<noteq> i" by auto
    with j D(1) [of j] show "j < i \<and> ys[i := (fd, g, 0)] ! j \<in> set xs" by auto
  next
    show "distinct (map slot_gen (ys[i := (fd, g, 0)]))" unfolding gens by (rule D(2))
  next
    fix x assume x: "x \<in> set xs" "slot_rev x \<noteq> 0"
    have G: "slot_gen ` set (ys[i := (fd, g, 0)]) = slot_gen ` set ys"
      using gens by (metis set_map)
    have "x \<in> set (ys[i := (fd, g, 0)])" if "x \<in> set ys" "slot_gen x \<noteq> g"
    proof -
      from that(1) obtain j where j: "j < length ys" "x = ys ! j" by (auto simp: in_set_conv_nth)
      with that(2) assms(3) have "j \<noteq> i" by auto
      with j have "ys[i := (fd, g, 0)] ! j = x" "j < length (ys[i := (fd, g, 0)])" by simp_all
      then show ?thesis by (metis nth_mem)
    qed
    with D(3) [OF x] G show "slot_gen x \<in> set (T @ [g]) \<or> x \<in> set (ys[i := (fd, g, 0)])
        \<or> slot_gen x \<notin> slot_gen ` set (ys[i := (fd, g, 0)])" by auto
  next
    show "distinct (T @ [g])" using D(4) gT by simp
  next
    fix h assume "h \<in> set (T @ [g])"
    moreover have "\<exists>x \<in> set xs. slot_gen x = g \<and> slot_rev x \<noteq> 0" using D(1) [of i] assms by (intro bexI [of _ "ys ! i"]) auto
    ultimately show "\<exists>x \<in> set xs. slot_gen x = h \<and> slot_rev x \<noteq> 0" using D(5) by auto
  next
    fix y assume y: "y \<in> set (ys[i := (fd, g, 0)])" "slot_rev y \<noteq> 0"
    then obtain j where j: "j < length ys" "y = ys[i := (fd, g, 0)] ! j" by (auto simp: in_set_conv_nth)
    with y(2) have "j \<noteq> i" by auto
    with j have yj: "y = ys ! j" by simp
    have "slot_gen y \<noteq> g" using inj [of j i] j(1) \<open>j \<noteq> i\<close> assms(2,3) yj by auto
    moreover have "slot_gen y \<notin> set T" using D(6) [OF nth_mem [OF j(1)]] y(2) yj by simp
    ultimately show "slot_gen y \<notin> set (T @ [g])" by simp
  qed (rule D(7))
qed

end
