(* ===== verification/XPollProps.thy ===== *)
theory XPollProps
  imports XPollTurns
begin

text \<open>
  The loop of \<open>poll\<close> on the states, runs of the event loop, and its properties: the registry is a map, it stays
  consistent, callbacks get their own registration, \<open>poll\<close> serves what was reported exactly once.
\<close>

section \<open>One turn\<close>

lemma slots_ok_revents:
  "slots_ok W p q f n cap \<Longrightarrow> i < n \<Longrightarrow> slots_ok W (p[i := (p ! i)\<lparr>pf_revents := r\<rparr>]) q f n cap"
  unfolding slots_ok_def by (auto simp: nth_list_update)

lemma slot_view_revents:
  assumes "slots_ok W p q f n cap" and "i < n" and "slot_view p q f n ! i = (fd, g, r)"
  shows "slot_view (p[i := (p ! i)\<lparr>pf_revents := v\<rparr>]) q f n = (slot_view p q f n)[i := (fd, g, v)]"
proof (rule nth_equalityI)
  have len: "i < length p" using slots_okD(1,3) [OF assms(1)] assms(2) by simp
  fix j assume "j < length (slot_view (p[i := (p ! i)\<lparr>pf_revents := v\<rparr>]) q f n)"
  then have "j < n" by simp
  with assms(2,3) len show "slot_view (p[i := (p ! i)\<lparr>pf_revents := v\<rparr>]) q f n ! j = (slot_view p q f n)[i := (fd, g, v)] ! j"
    by (cases "j = i") (simp_all add: slot_view_nth)
qed simp

lemma pl_inv_slots:
  assumes "registry_inv POLL W s"
  shows "slots_ok W (poll_fds s) (poll_fes s) (fes s) (nfds s) (setsize s)"
  using registry_invD(5) [OF assms] by (simp add: back_ok_def)

lemma pl_turn_cases:
  assumes "registry_inv POLL W s" and "malloc_ok W" and "i < setsize s" and "pl_turn W H i (n, s) = (n', s')"
    and "calls s' < 2 ^ 32"
  obtains (skip) "s' = s" "n' = n" "i < nfds s \<Longrightarrow> sint (fst (slots s ! i)) < 0 \<or> slot_rev (slots s ! i) = 0"
    | (serve) fd g r s1 cs where "i < nfds s" "slots s ! i = (fd, g, r)" "r \<noteq> 0" "n' = n + 1"
        "slots s1 = (slots s)[i := (fd, g, 0)]" "registry_inv POLL W s1" "next_gen s1 = next_gen s" "fes s1 = fes s"
        "fired s1 = fired s" "turns s1 = turns s" "setsize s1 = setsize s"
        "moves POLL W [g] cs s1 s'" "\<forall>c \<in> set cs. right_call fd g (pl_mask W r) c"
proof -
  note sl = pl_inv_slots [OF assms(1)]
  show thesis
  proof (cases "i < nfds s")
    case False
    then have "poll_fds s ! i = clear_pfd" using slots_okD(5) [OF sl, of i] assms(3) by simp
    then have "s' = s" "n' = n" using assms(4) by (simp_all add: pl_turn_def clear_pfd_def)
    with skip False show thesis by blast
  next
    case True
    from slots_okD(4) [OF sl True] obtain a x where x: "poll_fes s ! i = Some a" "fes s a = Some x"
      "pf_fd (poll_fds s ! i) = fe_fd x" by blast
    let ?r = "pf_revents (poll_fds s ! i)"
    have v: "slots s ! i = (fe_fd x, fe_gen x, ?r)" using True x by (simp add: slot_view_nth)
    show thesis
    proof (cases "sint (fe_fd x) < 0 \<or> ?r = 0")
      case True
      then have "s' = s" "n' = n" using assms(4) x by (auto simp: pl_turn_def)
      with skip v True show thesis by simp
    next
      case False
      let ?s = "s\<lparr>poll_fds := (poll_fds s)[i := (poll_fds s ! i)\<lparr>pf_revents := 0\<rparr>]\<rparr>"
      have e: "n' = n + 1" "s' = dispatch POLL W H a (pl_mask W ?r) ?s"
        using assms(4) False x by (simp_all add: pl_turn_def Let_def)
      have inv: "registry_inv POLL W ?s"
        using registry_invD [OF assms(1)] slots_ok_revents [OF sl True] by (simp add: registry_inv_def back_ok_def)
      have "slots ?s = (slots s)[i := (fe_fd x, fe_gen x, 0)]"
        using slot_view_revents [OF sl True v] by simp
      moreover obtain cs where "moves POLL W [fe_gen x] cs ?s s'"
        "\<forall>c \<in> set cs. right_call (fe_fd x) (fe_gen x) (pl_mask W ?r) c"
        using dispatch_moves [OF inv assms(2), of a x H "pl_mask W ?r"] x(2) assms(5) e(2) by auto
      ultimately show thesis
        by (intro serve [of "fe_fd x" "fe_gen x" ?r ?s cs]) (use True v False e inv in simp_all)
    qed
  qed
qed

lemma pl_turn_grows: "loop_grows (snd r) (snd (pl_turn W H i r))"
  using dispatch_grows [of "(snd r)\<lparr>poll_fds := p\<rparr>" POLL W H for p]
  by (auto simp: pl_turn_def loop_grows_def Let_def split: prod.split option.split)

lemma pl_turns_grows: "loop_grows (snd r) (snd (pl_turns W H i r))"
proof (induction i arbitrary: r)
  case (Suc i)
  show ?case using loop_grows_trans [OF pl_turn_grows Suc.IH [of "pl_turn W H i r"]] by simp
qed simp

section \<open>All turns\<close>

text \<open>The calls that were right for a reported slot.\<close>

definition reported :: "world \<Rightarrow> slot list \<Rightarrow> fired_call \<Rightarrow> bool" where
  "reported W xs c \<longleftrightarrow>
     (\<exists>x \<in> set xs. slot_rev x \<noteq> 0 \<and> right_call (fst x) (slot_gen x) (pl_mask W (slot_rev x)) c)"

lemma pl_turns_moves:
  assumes "registry_inv POLL W s" and "malloc_ok W" and "i \<le> setsize s" and "pl_turns W H i (n, s) = (n', s')"
    and "calls s' < 2 ^ 32"
  shows "registry_inv POLL W s' \<and> (\<exists>ts cs. fired s' = fired s @ cs \<and> turns s' = turns s @ ts \<and> n' = n + int (length ts)
    \<and> served ts cs
    \<and> (\<forall>G xs T. turn_inv G xs i (slots s) T \<and> G \<le> unat (next_gen s)
         \<and> (\<forall>x \<in> set xs. slot_rev x \<noteq> 0 \<longrightarrow> 0 \<le> sint (fst x))
         \<longrightarrow> turn_inv G xs 0 (slots s') (T @ ts) \<and> (\<forall>c \<in> set cs. reported W xs c)))"
  using assms(1,3-5)
proof (induction i arbitrary: n s)
  case 0
  then show ?case by (auto simp: served_def intro!: exI [of _ "[]"])
next
  case (Suc i)
  obtain n1 s1 where t: "pl_turn W H i (n, s) = (n1, s1)" by fastforce
  have r: "pl_turns W H i (n1, s1) = (n', s')" using Suc.prems(3) t by simp
  have c1: "calls s1 < 2 ^ 32"
    using pl_turns_grows [of "(n1, s1)" W H i] Suc.prems(4) r by (simp add: loop_grows_def)
  have z: "i \<le> setsize s1"
    using pl_turn_grows [of "(n, s)" W H i] Suc.prems(2) t by (simp add: loop_grows_def)
  have "i < setsize s" using Suc.prems(2) by simp
  from this t c1 show ?case
  proof (rule pl_turn_cases [OF Suc.prems(1) assms(2)])
    assume k: "s1 = s" "n1 = n" "i < nfds s \<Longrightarrow> sint (fst (slots s ! i)) < 0 \<or> slot_rev (slots s ! i) = 0"
    from Suc.IH [OF Suc.prems(1) _ r [unfolded k(1,2)] Suc.prems(4)] Suc.prems(2) obtain ts cs where
      I: "registry_inv POLL W s'" "fired s' = fired s @ cs" "turns s' = turns s @ ts" "n' = n + int (length ts)" "served ts cs"
      "\<And>G xs T. turn_inv G xs i (slots s) T \<and> G \<le> unat (next_gen s)
         \<and> (\<forall>x \<in> set xs. slot_rev x \<noteq> 0 \<longrightarrow> 0 \<le> sint (fst x))
         \<Longrightarrow> turn_inv G xs 0 (slots s') (T @ ts) \<and> (\<forall>c \<in> set cs. reported W xs c)" by auto
    have "turn_inv G xs i (slots s) T" if inv: "turn_inv G xs (Suc i) (slots s) T"
      and fd: "\<forall>x \<in> set xs. slot_rev x \<noteq> 0 \<longrightarrow> 0 \<le> sint (fst x)" for G xs T
    proof (rule turn_inv_skip [OF inv])
      assume l: "i < length (slots s)"
      show "slot_rev (slots s ! i) = 0"
      proof (rule ccontr)
        assume rev: "slot_rev (slots s ! i) \<noteq> 0"
        with turn_invD(1) [OF inv l] fd have "0 \<le> sint (fst (slots s ! i))" by blast
        with k(3) l rev show False by simp
      qed
    qed
    with I show ?thesis by blast
  next
    fix fd g r0 s2 cs0
    assume k: "i < nfds s" "slots s ! i = (fd, g, r0)" "r0 \<noteq> 0" "n1 = n + 1"
      "slots s2 = (slots s)[i := (fd, g, 0)]" "registry_inv POLL W s2" "next_gen s2 = next_gen s" "fes s2 = fes s"
      "fired s2 = fired s" "turns s2 = turns s" "setsize s2 = setsize s"
      "moves POLL W [g] cs0 s2 s1" "\<forall>c \<in> set cs0. right_call fd g (pl_mask W r0) c"
    note M = movesD [OF k(12)]
    from Suc.IH [OF M(1) z r Suc.prems(4)] obtain ts cs where
      I: "registry_inv POLL W s'" "fired s' = fired s1 @ cs" "turns s' = turns s1 @ ts" "n' = n1 + int (length ts)" "served ts cs"
      "\<And>G xs T. turn_inv G xs i (slots s1) T \<and> G \<le> unat (next_gen s1)
         \<and> (\<forall>x \<in> set xs. slot_rev x \<noteq> 0 \<longrightarrow> 0 \<le> sint (fst x))
         \<Longrightarrow> turn_inv G xs 0 (slots s') (T @ ts) \<and> (\<forall>c \<in> set cs. reported W xs c)" by auto
    have step: "turn_inv G xs 0 (slots s') (T @ (g # ts)) \<and> (\<forall>c \<in> set (cs0 @ cs). reported W xs c)"
      if inv: "turn_inv G xs (Suc i) (slots s) T" and G: "G \<le> unat (next_gen s)"
        and fd: "\<forall>x \<in> set xs. slot_rev x \<noteq> 0 \<longrightarrow> 0 \<le> sint (fst x)" for G xs T
    proof -
      have "turn_inv G xs i (slots s2) (T @ [g])"
        unfolding k(5) by (rule turn_inv_serve [OF inv _ k(2,3)]) (use k(1) in simp)
      from turn_inv_evolve [OF M(6) [OF refl] this] G k(7) have "turn_inv G xs i (slots s1) (T @ [g])" by simp
      with I(6) [of G xs "T @ [g]"] fd G M(2) k(7)
      have 1: "turn_inv G xs 0 (slots s') ((T @ [g]) @ ts) \<and> (\<forall>c \<in> set cs. reported W xs c)" by simp
      have "(fd, g, r0) \<in> set xs" using turn_invD(1) [OF inv, of i] k(1-3) by simp
      with k(3,13) have "\<forall>c \<in> set cs0. reported W xs c" unfolding reported_def by (metis fst_conv snd_conv)
      with 1 show ?thesis by auto
    qed
    have "served (g # ts) (cs0 @ cs)" using served_append [OF right_served [OF k(13)] I(5)] by simp
    moreover have "fired s' = fired s @ (cs0 @ cs)" "turns s' = turns s @ (g # ts)" "n' = n + int (length (g # ts))"
      using I(2-4) M(4,5) k(4,9,10) by simp_all
    ultimately show ?thesis using I(1) step by blast
  qed
qed

section \<open>The report of poll\<close>

lemma set_revents_ok:
  assumes "registry_inv POLL W s" and "length revs = nfds s"
  shows "registry_inv POLL W (set_revents revs s)"
    and "slots (set_revents revs s) = map (\<lambda>(x, r). (fst x, slot_gen x, r)) (zip (slots s) revs)"
proof -
  note sl = pl_inv_slots [OF assms(1)]
  let ?p = "poll_fds (set_revents revs s)"
  have len: "length ?p = length (poll_fds s)" using slots_okD(1,3) [OF sl] assms(2) by (simp add: set_revents_def)
  have low: "?p ! j = (poll_fds s ! j)\<lparr>pf_revents := revs ! j\<rparr>" if "j < nfds s" for j
    using that slots_okD(1,3) [OF sl] assms(2) by (simp add: set_revents_def nth_append)
  have high: "?p ! j = poll_fds s ! j" if "nfds s \<le> j" "j < length (poll_fds s)" for j
    using that slots_okD(1,3) [OF sl] assms(2) by (simp add: set_revents_def nth_append)
  have "slots_ok W ?p (poll_fes s) (fes s) (nfds s) (setsize s)"
    using sl low high len slots_okD(1) [OF sl] unfolding slots_ok_def by auto
  then show "registry_inv POLL W (set_revents revs s)"
    using registry_invD [OF assms(1)] by (simp add: registry_inv_def back_ok_def set_revents_def)
  have sel: "nfds (set_revents revs s) = nfds s" "poll_fes (set_revents revs s) = poll_fes s"
    "fes (set_revents revs s) = fes s" by (simp_all add: set_revents_def)
  show "slots (set_revents revs s) = map (\<lambda>(x, r). (fst x, slot_gen x, r)) (zip (slots s) revs)"
    unfolding sel
  proof (rule nth_equalityI)
    fix j assume "j < length (slot_view ?p (poll_fes s) (fes s) (nfds s))"
    with low assms(2) show "slot_view ?p (poll_fes s) (fes s) (nfds s) ! j
        = map (\<lambda>(x, r). (fst x, slot_gen x, r)) (zip (slots s) revs) ! j"
      by (simp add: slot_view_nth)
  qed (simp add: assms(2))
qed

lemma set_revents_sel [simp]:
  "fired (set_revents revs s) = fired s" "turns (set_revents revs s) = turns s" "setsize (set_revents revs s) = setsize s"
  "calls (set_revents revs s) = calls s" "next_gen (set_revents revs s) = next_gen s" "nfds (set_revents revs s) = nfds s"
  "fes (set_revents revs s) = fes s"
  by (simp_all add: set_revents_def)

lemma distinct_slot_gens:
  assumes "registry_inv POLL W s"
  shows "distinct (map slot_gen (slots s))"
  unfolding distinct_conv_nth
proof (intro allI impI)
  note sl = pl_inv_slots [OF assms]
  fix i j assume ij: "i < length (map slot_gen (slots s))" "j < length (map slot_gen (slots s))" "i \<noteq> j"
  then have n: "i < nfds s" "j < nfds s" by simp_all
  from slots_okD(4) [OF sl n(1)] slots_okD(4) [OF sl n(2)] obtain a b x y where
    "poll_fes s ! i = Some a" "fes s a = Some x" "fe_idx x = int i"
    "poll_fes s ! j = Some b" "fes s b = Some y" "fe_idx y = int j" by blast
  with gens_okD(2) [OF registry_invD(2) [OF assms], of a x b y] ij(3) n
  show "map slot_gen (slots s) ! i \<noteq> map slot_gen (slots s) ! j" by (auto simp: slot_view_nth)
qed

section \<open>Runs of the event loop\<close>

lemma init_inv:
  assumes "0 < n" and "n \<le> 2 ^ 63" and "xpoll_init_size n b W None = (rc, Some s)"
  shows "registry_inv b W s" and "regv s = Map.empty"
proof -
  from assms(3) obtain h where h: "xhash_create (w_hash W 0) n XHASH_KEY_INT = Some h"
    and s: "s = \<lparr>fd_map = h, setsize = n, nfds = 0, maxfd = -1, next_gen = 0,
        fes = Map.empty, ep_set = Map.empty,
        poll_fds = (if b = POLL then replicate n clear_pfd else []),
        poll_fes = (if b = POLL then replicate n None else []), fired = [], turns = [], calls = 3\<rparr>"
    by (auto simp: xpoll_init_size_def split: if_splits option.splits)
  from create_int_inv [OF assms(2) h] have m: "map_ok (fd_map s) (fes s)"
    by (simp add: s map_ok_def)
  show "registry_inv b W s"
    unfolding registry_inv_def
  proof (intro conjI)
    show "map_ok (fd_map s) (fes s)" by (rule m)
    show "back_ok b W s" using assms(1) by (cases b) (auto simp: s back_ok_def ep_ok_def slots_ok_def)
  qed (simp_all add: s gens_ok_def count_ok_def fds_of_def)
  show "regv s = Map.empty"
  proof
    fix fd
    have "fe_get s fd = None" using fe_get_None [OF m] by (simp add: s)
    then show "regv s fd = None" by (rule regv_free)
  qed
qed

lemma xpoll_poll_grows: "loop_grows s (snd (xpoll_poll W H rep s))"
proof (cases rep)
  case (Epoll_report res)
  with dispatch_fds_grows [of "(0, s)" EPOLL W H] show ?thesis by (cases res) (simp_all add: ep_poll_def)
next
  case (Kqueue_report res)
  with dispatch_fds_grows [of "(0, s)" KQUEUE W H] show ?thesis by (cases res) (simp_all add: kq_poll_def)
next
  case (Poll_report res)
  with pl_turns_grows [of "(0, set_revents revs s)" W H "nfds s" for revs] show ?thesis
    by (cases res) (simp_all add: pl_poll_def loop_grows_def)
qed

lemma loop_run_grows: "loop_run b W H steps s = Some s' \<Longrightarrow> loop_grows s s'"
proof (induction b W H steps s rule: loop_run.induct)
  case (2 b W H op steps s)
  then show ?case using loop_grows_trans [OF op_grows [of s b W op]] by simp
next
  case (3 b W H rep steps s)
  then show ?case using loop_grows_trans [OF xpoll_poll_grows [of s W H rep]] by (simp split: if_splits)
qed simp

text \<open>What a wait records, on every backend.\<close>

lemma xpoll_poll_spec:
  assumes "registry_inv b W s" and "malloc_ok W" and "report_ok b rep s" and "xpoll_poll W H rep s = (n, s')"
    and "calls s' < 2 ^ 32"
  shows "registry_inv b W s' \<and> (\<exists>ts cs. fired s' = fired s @ cs \<and> turns s' = turns s @ ts \<and> served ts cs
    \<and> (n = int (length ts) \<or> n = -1 \<and> ts = []))"
proof -
  have quiet: ?thesis if "registry_inv b W s'" "fired s' = fired s" "turns s' = turns s" "n = 0 \<or> n = -1"
    using that by (auto simp: served_def)
  have fds: ?thesis if "foldl (dispatch_fd b W H) (0, s) es = (n, s')" for es
    using dispatch_fds_moves [OF assms(1,2), of H 0 es] assms(5) that movesD by fastforce
  show ?thesis
  proof (cases rep)
    case (Epoll_report res)
    with assms(1,3,4) quiet fds show ?thesis by (cases res) (auto simp: ep_poll_def split: if_splits)
  next
    case (Kqueue_report res)
    with assms(1,3,4) quiet fds show ?thesis by (cases res) (auto simp: kq_poll_def split: if_splits)
  next
    case (Poll_report res)
    show ?thesis
    proof (cases res)
      case (Wait_failed again)
      with Poll_report assms(1,4) quiet show ?thesis by (auto simp: pl_poll_def split: if_splits)
    next
      case (Ready revs)
      with Poll_report assms(1,3) have b: "b = POLL" "length revs = nfds s" and i: "registry_inv POLL W s" by auto
      note R = set_revents_ok [OF i b(2)]
      show ?thesis
      proof (cases "\<forall>r \<in> set revs. r = 0")
        case True
        with Poll_report Ready assms(4) have e: "s' = set_revents revs s" "n = 0" by (simp_all add: pl_poll_def)
        show ?thesis by (rule quiet) (use e R(1) b(1) in simp_all)
      next
        case False
        with Poll_report Ready assms(4) have t: "pl_turns W H (nfds s) (0, set_revents revs s) = (n, s')"
          by (auto simp: pl_poll_def)
        have "nfds s \<le> setsize (set_revents revs s)" using slots_okD(3) [OF pl_inv_slots [OF i]] by simp
        from pl_turns_moves [OF R(1) assms(2) this t assms(5)] b(1) show ?thesis by auto
      qed
    qed
  qed
qed

lemma loop_run_inv:
  "loop_run b W H steps s = Some s' \<Longrightarrow> registry_inv b W s \<Longrightarrow> malloc_ok W \<Longrightarrow> calls s' < 2 ^ 32 \<Longrightarrow> registry_inv b W s'"
proof (induction b W H steps s rule: loop_run.induct)
  case (2 b W H op steps s)
  let ?s = "run_op b W op s"
  have r: "loop_run b W H steps ?s = Some s'" using "2.prems"(1) by simp
  have "calls ?s < 2 ^ 32" using loop_run_grows [OF r] "2.prems"(4) by (simp add: loop_grows_def)
  from loop_keepsD(1) [OF op_keeps [OF "2.prems"(2,3) this]] show ?case by (rule "2.IH" [OF r _ "2.prems"(3,4)])
next
  case (3 b W H rep steps s)
  from "3.prems"(1) have ok: "report_ok b rep s" and r: "loop_run b W H steps (snd (xpoll_poll W H rep s)) = Some s'"
    by (auto split: if_splits)
  obtain n s1 where p: "xpoll_poll W H rep s = (n, s1)" by fastforce
  have "calls s1 < 2 ^ 32" using loop_run_grows [OF r] "3.prems"(4) by (simp add: loop_grows_def p)
  with xpoll_poll_spec [OF "3.prems"(2,3) ok p] have "registry_inv b W (snd (xpoll_poll W H rep s))" by (simp add: p)
  then show ?case by (rule "3.IH" [OF ok r _ "3.prems"(3,4)])
qed simp

text \<open>The states a thread can bring its loop to, from any capacity that the loop may start with.\<close>

definition reachable_loop :: "backend \<Rightarrow> world \<Rightarrow> handlers \<Rightarrow> xPollState \<Rightarrow> bool" where
  "reachable_loop b W H s \<longleftrightarrow>
     (\<exists>n s0 steps. 0 < n \<and> n \<le> 2 ^ 63 \<and> xpoll_init_size n b W None = (0, Some s0)
        \<and> loop_run b W H steps s0 = Some s)"

text \<open>Among them those that start with \<open>xpoll_init\<close>.\<close>

lemma reachable_from_init:
  "xpoll_init b W None = (0, Some s0) \<Longrightarrow> loop_run b W H steps s0 = Some s \<Longrightarrow> reachable_loop b W H s"
  unfolding reachable_loop_def xpoll_init_def
  by (intro exI [of _ XPOLL_SETSIZE] exI [of _ s0] exI [of _ steps]) (simp add: XPOLL_SETSIZE_def)

lemma reachable_inv:
  "reachable_loop b W H s \<Longrightarrow> malloc_ok W \<Longrightarrow> calls s < 2 ^ 32 \<Longrightarrow> registry_inv b W s"
  unfolding reachable_loop_def using init_inv(1) loop_run_inv by blast

lemma regv_dom:
  assumes "map_ok (fd_map s) (fes s)"
  shows "dom (regv s) = fe_fd ` ran (fes s)"
  using reg_Some [OF assms] by (fastforce simp: regv_def dom_def ran_def)

lemma regv_card:
  assumes "map_ok (fd_map s) (fes s)"
  shows "card (dom (regv s)) = card (dom (fes s))"
proof -
  have "bij_betw (\<lambda>a. fe_fd (the (fes s a))) (dom (fes s)) (dom (regv s))"
    unfolding bij_betw_def
  proof
    show "inj_on (\<lambda>a. fe_fd (the (fes s a))) (dom (fes s))"
      by (rule inj_onI) (use map_ok_same_fd [OF assms] in auto)
    show "(\<lambda>a. fe_fd (the (fes s a))) ` dom (fes s) = dom (regv s)"
      unfolding regv_dom [OF assms] by (force simp: ran_def)
  qed
  then show ?thesis by (simp add: bij_betw_same_card)
qed

lemma regv_slot:
  assumes "registry_inv POLL W s" and "j < nfds s"
  shows "\<exists>x. regv s (pf_fd (poll_fds s ! j)) = Some (iview x) \<and> pf_events (poll_fds s ! j) = poll_events W (fe_mask x)
    \<and> fe_fd x = pf_fd (poll_fds s ! j)"
proof -
  from slots_okD(4) [OF pl_inv_slots [OF assms(1)] assms(2)] obtain a x where
    "fes s a = Some x" "pf_fd (poll_fds s ! j) = fe_fd x" "pf_events (poll_fds s ! j) = poll_events W (fe_mask x)" by blast
  with regv_at [OF registry_invD(1) [OF assms(1)]] show ?thesis by metis
qed

lemma pfd_distinct:
  assumes "registry_inv POLL W s"
  shows "distinct (map pf_fd (take (nfds s) (poll_fds s)))"
  unfolding distinct_conv_nth
proof (intro allI impI)
  note sl = pl_inv_slots [OF assms]
  fix i j assume ij: "i < length (map pf_fd (take (nfds s) (poll_fds s)))" "j < length (map pf_fd (take (nfds s) (poll_fds s)))"
    "i \<noteq> j"
  then have n: "i < nfds s" "j < nfds s" by simp_all
  from slots_okD(4) [OF sl n(1)] slots_okD(4) [OF sl n(2)] obtain a b x y where
    "poll_fes s ! i = Some a" "fes s a = Some x" "fe_idx x = int i" "pf_fd (poll_fds s ! i) = fe_fd x"
    "poll_fes s ! j = Some b" "fes s b = Some y" "fe_idx y = int j" "pf_fd (poll_fds s ! j) = fe_fd y" by blast
  note xy = this
  have "fe_fd x \<noteq> fe_fd y"
  proof
    assume "fe_fd x = fe_fd y"
    from map_ok_same_fd [OF registry_invD(1) [OF assms] xy(2,6) this] xy ij(3) show False by auto
  qed
  with xy ij show "map pf_fd (take (nfds s) (poll_fds s)) ! i \<noteq> map pf_fd (take (nfds s) (poll_fds s)) ! j" by simp
qed

lemma pfd_set:
  assumes "registry_inv POLL W s"
  shows "set (map pf_fd (take (nfds s) (poll_fds s))) = dom (regv s)"
proof -
  note sl = pl_inv_slots [OF assms] and m = registry_invD(1) [OF assms]
  have len: "nfds s \<le> length (poll_fds s)" using slots_okD(1,3) [OF sl] by simp
  have "fd \<in> set (map pf_fd (take (nfds s) (poll_fds s))) \<longleftrightarrow> fd \<in> dom (regv s)" for fd
  proof
    assume "fd \<in> set (map pf_fd (take (nfds s) (poll_fds s)))"
    then obtain j where "j < nfds s" "fd = pf_fd (poll_fds s ! j)" using len by (auto simp: in_set_conv_nth)
    with regv_slot [OF assms] show "fd \<in> dom (regv s)" by blast
  next
    assume "fd \<in> dom (regv s)"
    then obtain a x where x: "fes s a = Some x" "fe_fd x = fd" unfolding regv_dom [OF m] by (auto simp: ran_def)
    from slots_okD(6) [OF sl x(1)] obtain j where j: "j < nfds s" "poll_fes s ! j = Some a" by blast
    with slots_okD(4) [OF sl j(1)] x have "pf_fd (poll_fds s ! j) = fd" by auto
    with j(1) len have "fd = map pf_fd (take (nfds s) (poll_fds s)) ! j"
      "j < length (map pf_fd (take (nfds s) (poll_fds s)))" by simp_all
    then show "fd \<in> set (map pf_fd (take (nfds s) (poll_fds s)))" by (metis nth_mem)
  qed
  then show ?thesis by blast
qed

lemma regv_epoll:
  assumes "registry_inv EPOLL W s"
  shows "ep_set s fd = map_option (\<lambda>v. epoll_events (fst v)) (regv s fd)"
proof -
  note m = registry_invD(1) [OF assms]
  have E: "ep_ok (ep_set s) (fes s)" using registry_invD(5) [OF assms] by (simp add: back_ok_def)
  show ?thesis
  proof (cases "regv s fd")
    case None
    then have "\<nexists>a x. fes s a = Some x \<and> fe_fd x = fd" using regv_at [OF m] by fastforce
    with ep_okD(2) [OF E, of fd] None show ?thesis by (cases "ep_set s fd") auto
  next
    case (Some v)
    then obtain x where "reg s fd = Some x" "v = iview x" by (auto simp: regv_def)
    with ep_okD(1) [OF E] Some show ?thesis by (auto simp: reg_Some [OF m] iview_def)
  qed
qed

lemma regv_counts:
  assumes "registry_inv b W s"
  shows "nfds s = card (dom (regv s))" and "finite (dom (regv s))" and "maxfd s = Max (insert (-1) (sint ` dom (regv s)))"
proof -
  note m = registry_invD(1) [OF assms] and c = registry_invD(4) [OF assms]
  show "nfds s = card (dom (regv s))" using c regv_card [OF m] by (simp add: count_ok_def)
  show "finite (dom (regv s))" using c by (simp add: regv_dom [OF m] count_ok_def finite_ran)
  have "sint ` dom (regv s) = fds_of (fes s)" by (simp add: regv_dom [OF m] fds_of_def image_image)
  then show "maxfd s = Max (insert (-1) (sint ` dom (regv s)))" using c by (simp add: count_ok_def)
qed

section \<open>A concrete loop\<close>

text \<open>Memory is handed out first fit; the callback 1 replaces the socket 8 by a new one with the same number.\<close>

definition first_fit :: world where
  "first_fit = \<lparr>w_malloc = (\<lambda>n used. find (\<lambda>a. \<not> used a) [1, 2, 3, 4]), w_hash = (\<lambda>n site. True), w_call = (\<lambda>n. True),
                w_rdhup = 0x2000\<rparr>"

definition reopen :: handlers where
  "reopen p fd msk d s = (if p = 1 then [Del_event 8 15, Add_event 8 1 1 0 3 99] else [])"

definition small_loop :: "backend \<Rightarrow> xPollState" where
  "small_loop b = the (snd (xpoll_init_size 4 b first_fit None))"

definition one_socket :: "backend \<Rightarrow> xPollState" where
  "one_socket b = run_op b first_fit (Add_event 8 1 1 0 3 6) (small_loop b)"

lemma first_fit_ok: "malloc_ok first_fit"
proof -
  have "a \<noteq> 0 \<and> \<not> used a" if "w_malloc first_fit n used = Some a" for n used a
  proof -
    from that have f: "find (\<lambda>a. \<not> used a) [1, 2, 3, 4] = Some a" by (simp only: first_fit_def world.simps)
    from f have "\<not> used a" "a \<in> set [1, 2, 3, 4]"
      unfolding find_Some_iff by (auto simp only: nth_mem)
    then show ?thesis by auto
  qed
  then show ?thesis unfolding malloc_ok_def by blast
qed

lemma small_loop_runs:
  assumes "loop_run b first_fit H steps (small_loop b) = Some s"
  shows "reachable_loop b first_fit H s"
proof -
  have "fst (xpoll_init_size 4 b first_fit None) = 0 \<and> snd (xpoll_init_size 4 b first_fit None) \<noteq> None"
    by (cases b; hypsubst; code_simp)
  then have "xpoll_init_size 4 b first_fit None = (0, Some (small_loop b))"
    unfolding small_loop_def by (cases "xpoll_init_size 4 b first_fit None") auto
  with assms show ?thesis
    unfolding reachable_loop_def by (intro exI [of _ 4] exI [of _ "small_loop b"] exI [of _ steps]) simp
qed

lemma one_socket_reachable: "reachable_loop b first_fit H (one_socket b)"
  by (rule small_loop_runs [of b H "[Call (Add_event 8 1 1 0 3 6)]"]) (simp add: one_socket_def)

lemma one_socket_poll:
  "let s = one_socket POLL; r = xpoll_poll first_fit reopen (Poll_report (Ready [9])) s
   in (nfds s, map fst (slots s), calls s, fst r, calls (snd r), map fc_mask (fired (snd r)), turns (snd r))
      = (1, [8], 5, 1, 7, [1], [1])"
  by code_simp

lemma one_socket_epoll:
  "let s = one_socket EPOLL; r = xpoll_poll first_fit reopen (Epoll_report (Ready [(8, 9)])) s
   in (max_events s, fst r, calls (snd r), map fc_mask (fired (snd r)), turns (snd r)) = (1, 1, 10, [1], [1])"
  by code_simp

section \<open>Properties\<close>

text \<open>C30. Every call of the API acts on the registry as on a map from descriptors to interests (mask, callbacks,
  client data): an addition merges its arguments into the entry and returns 0, or changes nothing and returns -1;
  a deletion removes the given events and the entry when none is left, unless the kernel refuses the change or, for
  \<open>epoll\<close> and \<open>kqueue\<close>, the entry was added without events; resizing changes nothing.\<close>

theorem poll_calls_are_map_ops:
  assumes "reachable_loop b W H s" and "malloc_ok W" and "calls (run_op b W op s) < 2 ^ 32"
  shows "case op of
      Add_event fd m r w e d \<Rightarrow>
        fst (xpoll_add_event b W fd m r w e d s) = 0
          \<and> regv (run_op b W op s) = spec_add fd m r w e d (regv s)
        \<or> fst (xpoll_add_event b W fd m r w e d s) = -1 \<and> regv (run_op b W op s) = regv s
    | Del_event fd m \<Rightarrow>
        regv (run_op b W op s) = spec_del fd m (regv s)
        \<or> regv (run_op b W op s) = regv s
            \<and> (\<not> w_call W (calls s) \<or> b \<noteq> POLL \<and> (\<exists>v. regv s fd = Some v \<and> fst v = 0))
    | Set_data fd d \<Rightarrow> regv (run_op b W op s) = spec_data fd d (regv s)
    | Resize n \<Rightarrow> regv (run_op b W op s) = regv s"
proof -
  have i: "registry_inv b W s"
    using reachable_inv [OF assms(1,2)] op_grows [of s b W op] assms(3) by (simp add: loop_grows_def)
  show ?thesis
  proof (cases op)
    case (Add_event fd m r w e d)
    obtain rc s' where "xpoll_add_event b W fd m r w e d s = (rc, s')" by fastforce
    with add_event_law [OF i assms(2) this] assms(3) Add_event show ?thesis by auto
  next
    case (Del_event fd m)
    with del_event_law [OF i] show ?thesis by auto
  next
    case (Set_data fd d)
    with data_law [OF i] show ?thesis by simp
  next
    case (Resize n)
    obtain rc s' where e: "xpoll_resize b W (nat (sint n)) s = (rc, s')" by fastforce
    have "sint n < 2 ^ 31" using sint_lt [of n] by simp
    then have "nat (sint n) \<le> 2 ^ 63" by simp
    with resize_law(1) [OF i this e] e Resize show ?thesis by simp
  qed
qed

theorem poll_calls_are_map_ops_witness:
  "regv (run_op POLL first_fit (Del_event 8 1) (one_socket POLL)) = spec_del 8 1 (regv (one_socket POLL))"
proof -
  have "calls (run_op POLL first_fit (Del_event 8 1) (one_socket POLL)) < 100" by code_simp
  with poll_calls_are_map_ops [OF one_socket_reachable first_fit_ok, of POLL "Del_event 8 1"]
  show ?thesis by (simp add: first_fit_def)
qed

text \<open>C31. Whatever a thread does with its loop and whatever fails: the counter is the number of registered
  descriptors, \<open>maxfd\<close> the greatest of them, \<open>epoll\<close> watches exactly the registered descriptors with the events of
  their masks, and the slots of \<open>poll\<close> in use are exactly one for each, with these events.\<close>

theorem poll_run_consistent:
  assumes "reachable_loop b W H s" and "malloc_ok W" and "calls s < 2 ^ 32"
  shows "finite (dom (regv s)) \<and> xpoll_fd_count s = card (dom (regv s))
    \<and> maxfd s = Max (insert (-1) (sint ` dom (regv s)))
    \<and> (b = EPOLL \<longrightarrow> (\<forall>fd. ep_set s fd = map_option (\<lambda>v. epoll_events (fst v)) (regv s fd)))
    \<and> (b = POLL \<longrightarrow> distinct (map pf_fd (take (nfds s) (poll_fds s)))
         \<and> set (map pf_fd (take (nfds s) (poll_fds s))) = dom (regv s)
         \<and> (\<forall>j < nfds s. \<exists>v. regv s (pf_fd (poll_fds s ! j)) = Some v \<and> pf_events (poll_fds s ! j) = poll_events W (fst v)))"
proof -
  note i = reachable_inv [OF assms]
  have p: "\<exists>v. regv s (pf_fd (poll_fds s ! j)) = Some v \<and> pf_events (poll_fds s ! j) = poll_events W (fst v)"
    if "b = POLL" "j < nfds s" for j
    using regv_slot [of W s j] i that by (auto simp: iview_def)
  show ?thesis
    unfolding xpoll_fd_count_def
  proof (intro conjI impI)
    show "\<forall>fd. ep_set s fd = map_option (\<lambda>v. epoll_events (fst v)) (regv s fd)" if "b = EPOLL"
      using regv_epoll [of W s] i that by blast
    show "distinct (map pf_fd (take (nfds s) (poll_fds s)))" "set (map pf_fd (take (nfds s) (poll_fds s))) = dom (regv s)"
      if "b = POLL" using pfd_distinct [of W s] pfd_set [of W s] i that by blast+
  qed (use regv_counts [OF i] p in auto)
qed

theorem poll_run_consistent_witness:
  "card (dom (regv (one_socket POLL))) = 1"
  using poll_run_consistent [OF one_socket_reachable first_fit_ok, of POLL] one_socket_poll
  by (simp add: Let_def xpoll_fd_count_def)

text \<open>C32. Whatever the callbacks do to the registry while events are dispatched, on every backend: a callback is
  called for the registration its event was dispatched to, which is still there, with its own descriptor, client
  data and procedure, and only with events that were dispatched. The result of the wait is the number of
  registrations served, or -1.\<close>

theorem callback_own_registration:
  assumes "reachable_loop b W H s" and "malloc_ok W" and "report_ok b rep s" and "xpoll_poll W H rep s = (n, s')"
    and "calls s' < 2 ^ 32"
  shows "\<exists>ts cs. turns s' = turns s @ ts \<and> fired s' = fired s @ cs \<and> (n = int (length ts) \<or> n = -1 \<and> ts = [])
    \<and> (\<forall>c \<in> set cs. fc_gen c \<in> set ts \<and> (\<exists>x. fc_entry c = Some x \<and> fe_fd x = fc_fd c \<and> fe_gen x = fc_gen c
         \<and> fc_data c = clientData x
         \<and> fc_proc c = (if fc_mask c = XPOLL_WRITABLE then wfileProc x
                        else if fc_mask c = XPOLL_READABLE then rfileProc x else efileProc x)))"
proof -
  have i: "registry_inv b W s"
    using reachable_inv [OF assms(1,2)] xpoll_poll_grows [of s W H rep] assms(4,5) by (simp add: loop_grows_def)
  from xpoll_poll_spec [OF i assms(2-5)] obtain ts cs where
    "fired s' = fired s @ cs" "turns s' = turns s @ ts" "served ts cs" "n = int (length ts) \<or> n = -1 \<and> ts = []" by blast
  then show ?thesis by (intro exI [of _ ts] exI [of _ cs]) (simp add: served_def right_call_def)
qed

theorem callback_own_registration_witness:
  "\<exists>c. fired (snd (xpoll_poll first_fit reopen (Epoll_report (Ready [(8, 9)])) (one_socket EPOLL)))
     = fired (one_socket EPOLL) @ [c] \<and> fc_mask c = 1 \<and> fc_gen c = 1"
proof -
  let ?rep = "Epoll_report (Ready [(8, 9)])"
  note E = one_socket_epoll [unfolded Let_def]
  have f: "fired (one_socket EPOLL) = []" "turns (one_socket EPOLL) = []" by code_simp+
  have r: "report_ok EPOLL ?rep (one_socket EPOLL)" using E by simp
  obtain n s' where e: "xpoll_poll first_fit reopen ?rep (one_socket EPOLL) = (n, s')" by fastforce
  have s': "calls s' = 10" "map fc_mask (fired s') = [1]" "turns s' = [1]" using E unfolding e by simp_all
  then have "calls s' < 2 ^ 32" by simp
  from callback_own_registration [OF one_socket_reachable first_fit_ok r e this] obtain ts cs where
    "turns s' = ts" "fired s' = cs" "\<forall>c \<in> set cs. fc_gen c \<in> set ts" by (auto simp: f)
  with s' show ?thesis unfolding e f by (auto simp: map_eq_Cons_conv)
qed

text \<open>C33. With \<open>poll\<close>, whatever the callbacks do: every registration the kernel reported is served exactly once
  unless a callback removed it, no other registration is served (not even a new one under the same descriptor or in the
  slot of a reported one), and callbacks get no event that was not reported for their registration.\<close>

theorem poll_serves_reported_once:
  assumes "reachable_loop POLL W H s" and "malloc_ok W" and "length revs = nfds s"
    and "\<forall>j < nfds s. sint (fst (slots s ! j)) < 0 \<longrightarrow> revs ! j = 0"
    and "xpoll_poll W H (Poll_report (Ready revs)) s = (n, s')" and "calls s' < 2 ^ 32"
  shows "\<exists>ts cs. turns s' = turns s @ ts \<and> fired s' = fired s @ cs \<and> n = int (length ts) \<and> distinct ts
    \<and> (\<forall>g \<in> set ts. \<exists>j < nfds s. slot_gen (slots s ! j) = g \<and> revs ! j \<noteq> 0)
    \<and> (\<forall>j < nfds s. revs ! j \<noteq> 0 \<longrightarrow>
         slot_gen (slots s ! j) \<in> set ts \<or> (\<forall>a x. fes s' a = Some x \<longrightarrow> fe_gen x \<noteq> slot_gen (slots s ! j)))
    \<and> (\<forall>c \<in> set cs. \<exists>j < nfds s. revs ! j \<noteq> 0
         \<and> right_call (fst (slots s ! j)) (slot_gen (slots s ! j)) (pl_mask W (revs ! j)) c)"
proof -
  have i: "registry_inv POLL W s"
    using reachable_inv [OF assms(1,2)] xpoll_poll_grows [of s W H "Poll_report (Ready revs)"] assms(5,6)
    by (simp add: loop_grows_def)
  show ?thesis
  proof (cases "\<forall>r \<in> set revs. r = 0")
    case True
    with assms(5) have "s' = set_revents revs s" "n = 0" by (simp_all add: pl_poll_def)
    with True assms(3) show ?thesis by (intro exI [of _ "[]"]) simp
  next
    case False
    let ?s = "set_revents revs s"
    define xs where "xs = slots ?s"
    note R = set_revents_ok [OF i assms(3)]
    have t: "pl_turns W H (nfds s) (0, ?s) = (n, s')" using assms(5) False by (auto simp: pl_poll_def)
    have "nfds s \<le> setsize ?s" using slots_okD(3) [OF pl_inv_slots [OF i]] by simp
    from pl_turns_moves [OF R(1) assms(2) this t assms(6)] obtain ts cs where
      I: "registry_inv POLL W s'" "fired s' = fired s @ cs" "turns s' = turns s @ ts" "n = int (length ts)"
      "\<And>G xs T. turn_inv G xs (nfds s) (slots ?s) T \<and> G \<le> unat (next_gen s)
         \<and> (\<forall>x \<in> set xs. slot_rev x \<noteq> 0 \<longrightarrow> 0 \<le> sint (fst x))
         \<Longrightarrow> turn_inv G xs 0 (slots s') (T @ ts) \<and> (\<forall>c \<in> set cs. reported W xs c)" by auto
    have len: "length xs = nfds s" by (simp add: xs_def)
    have xs: "xs ! j = (fst (slots s ! j), slot_gen (slots s ! j), revs ! j)" if "j < nfds s" for j
      using that assms(3) unfolding xs_def R(2) by simp
    have mem: "x \<in> set xs \<longleftrightarrow> (\<exists>j < nfds s. x = (fst (slots s ! j), slot_gen (slots s ! j), revs ! j))" for x
      using xs len by (auto simp: in_set_conv_nth)
    have start: "turn_inv (unat (next_gen s)) xs (nfds s) (slots ?s) []"
      unfolding xs_def [symmetric]
    proof (rule turn_invI)
      show "distinct (map slot_gen xs)" using distinct_slot_gens [OF R(1)] by (simp add: xs_def)
      show "\<And>x. x \<in> set xs \<Longrightarrow> unat (slot_gen x) \<le> unat (next_gen s)"
        using slot_gens [OF R(1)] by (simp add: xs_def)
    qed (use len in auto)
    have "\<forall>x \<in> set xs. slot_rev x \<noteq> 0 \<longrightarrow> 0 \<le> sint (fst x)" using assms(4) by (fastforce simp: mem)
    with I(5) [of "unat (next_gen s)" xs "[]"] start
    have F: "turn_inv (unat (next_gen s)) xs 0 (slots s') ts" "\<forall>c \<in> set cs. reported W xs c" by simp_all
    note D = turn_invD [OF F(1)]
    have served: "\<exists>j < nfds s. slot_gen (slots s ! j) = g \<and> revs ! j \<noteq> 0" if "g \<in> set ts" for g
      using D(5) [OF that] by (auto simp: mem)
    have all: "slot_gen (slots s ! j) \<in> set ts \<or> (\<forall>a x. fes s' a = Some x \<longrightarrow> fe_gen x \<noteq> slot_gen (slots s ! j))"
      if j: "j < nfds s" "revs ! j \<noteq> 0" for j
    proof -
      let ?x = "(fst (slots s ! j), slot_gen (slots s ! j), revs ! j)"
      have "?x \<in> set xs" using mem j(1) by blast
      moreover have "?x \<notin> set (slots s')" using D(1) j(2) by (fastforce simp: in_set_conv_nth)
      ultimately consider "slot_gen (slots s ! j) \<in> set ts" | "slot_gen (slots s ! j) \<notin> slot_gen ` set (slots s')"
        using D(3) [of ?x] j(2) by auto
      then show ?thesis
      proof cases
        case 2
        have "fe_gen x \<in> slot_gen ` set (slots s')" if a: "fes s' a = Some x" for a x
        proof -
          from slots_okD(6) [OF pl_inv_slots [OF I(1)] a] obtain k where k: "k < nfds s'" "poll_fes s' ! k = Some a" by blast
          with a have "slot_gen (slots s' ! k) = fe_gen x" by (simp add: slot_view_nth)
          then show ?thesis using nth_mem [of k "slots s'"] k(1) by (metis imageI length_slot_view)
        qed
        with 2 show ?thesis by metis
      qed blast
    qed
    have right: "\<exists>j < nfds s. revs ! j \<noteq> 0
        \<and> right_call (fst (slots s ! j)) (slot_gen (slots s ! j)) (pl_mask W (revs ! j)) c" if "c \<in> set cs" for c
      using F(2) that by (fastforce simp: reported_def mem)
    show ?thesis
      by (intro exI [of _ ts] exI [of _ cs]) (use I D(4) served all right in blast)
  qed
qed

theorem poll_serves_reported_once_witness:
  "\<exists>c. fired (snd (xpoll_poll first_fit reopen (Poll_report (Ready [9])) (one_socket POLL)))
     = fired (one_socket POLL) @ [c] \<and> right_call 8 1 (pl_mask first_fit 9) c"
proof -
  let ?rep = "Poll_report (Ready [9])"
  note E = one_socket_poll [unfolded Let_def]
  have f: "fired (one_socket POLL) = []" "turns (one_socket POLL) = []" by code_simp+
  have n: "length [9 :: u16] = nfds (one_socket POLL)" using E by simp
  have sl: "fst (slots (one_socket POLL) ! 0) = 8" using E by (auto simp: slot_view_def)
  have fd: "\<forall>j < nfds (one_socket POLL). sint (fst (slots (one_socket POLL) ! j)) < 0 \<longrightarrow> [9 :: u16] ! j = 0"
    using E sl by simp
  obtain r s' where e: "xpoll_poll first_fit reopen ?rep (one_socket POLL) = (r, s')" by fastforce
  have s': "calls s' = 7" "map fc_mask (fired s') = [1]" "turns s' = [1]" using E unfolding e by simp_all
  then have "calls s' < 2 ^ 32" by simp
  from poll_serves_reported_once [OF one_socket_reachable first_fit_ok n fd e this] obtain ts cs where
    t: "turns s' = turns (one_socket POLL) @ ts" "fired s' = fired (one_socket POLL) @ cs"
      "\<forall>g \<in> set ts. \<exists>j < nfds (one_socket POLL). slot_gen (slots (one_socket POLL) ! j) = g \<and> [9 :: u16] ! j \<noteq> 0"
      "\<forall>c \<in> set cs. \<exists>j < nfds (one_socket POLL). [9 :: u16] ! j \<noteq> 0 \<and> right_call (fst (slots (one_socket POLL) ! j))
         (slot_gen (slots (one_socket POLL) ! j)) (pl_mask first_fit ([9] ! j)) c" by blast
  from s'(2) obtain c where c: "fired s' = [c]" by (auto simp: map_eq_Cons_conv)
  have one: "nfds (one_socket POLL) = 1" using E by simp
  have "ts = [1]" "cs = [c]" using t(1,2) s'(3) c by (simp_all add: f)
  with t(3,4) one sl have "right_call 8 1 (pl_mask first_fit 9) c" by simp
  with c show ?thesis unfolding e f by simp
qed

text \<open>With \<open>epoll\<close> the generation only protects the callbacks of one event: when an earlier event of the same
  wait makes a callback replace a socket by a new one with the same descriptor, the events the kernel reported for
  the old socket are dispatched to the new one.\<close>

lemma epoll_stale_event:
  "\<exists>W H s evs n s' c. malloc_ok W \<and> reachable_loop EPOLL W H s \<and> report_ok EPOLL (Epoll_report (Ready evs)) s
     \<and> xpoll_poll W H (Epoll_report (Ready evs)) s = (n, s') \<and> c \<in> set (fired s')
     \<and> fc_fd c \<in> fst ` set evs \<and> unat (next_gen s) < unat (fc_gen c)"
proof -
  let ?s = "run_op EPOLL first_fit (Add_event 7 1 1 0 0 5) (one_socket EPOLL)"
  let ?evs = "[(7, 1), (8, 8)]"
  have C: "let s = ?s; r = xpoll_poll first_fit reopen (Epoll_report (Ready ?evs)) s in
     (max_events s, map (\<lambda>c. (fc_fd c, fc_gen c)) (fired (snd r)), next_gen s) = (2, [(7, 2), (8, 3)], 2)"
    by code_simp
  have "reachable_loop EPOLL first_fit reopen ?s"
    by (rule small_loop_runs [of _ _ "[Call (Add_event 8 1 1 0 3 6), Call (Add_event 7 1 1 0 0 5)]"])
      (simp add: one_socket_def)
  moreover have "report_ok EPOLL (Epoll_report (Ready ?evs)) ?s" using C by (simp add: Let_def)
  moreover obtain n s' where e: "xpoll_poll first_fit reopen (Epoll_report (Ready ?evs)) ?s = (n, s')" by fastforce
  moreover obtain c where "c \<in> set (fired s')" "fc_fd c = 8" "fc_gen c = 3" "next_gen ?s = 2"
  proof -
    have m: "map (\<lambda>c. (fc_fd c, fc_gen c)) (fired s') = [(7, 2), (8, 3)]" "next_gen ?s = 2"
      using C [unfolded Let_def e] by simp_all
    from m(1) obtain c d where c: "fired s' = [d, c]" "fc_fd c = 8" "fc_gen c = 3" by (auto simp: map_eq_Cons_conv)
    show thesis by (rule that [OF _ c(2,3) m(2)]) (simp add: c(1))
  qed
  ultimately show ?thesis using first_fit_ok
    by (intro exI [of _ first_fit] exI [of _ reopen] exI [of _ ?s] exI [of _ ?evs] exI [of _ n] exI [of _ s'] exI [of _ c])
      simp
qed

end
