(* ===== verification/XScan.thy ===== *)
theory XScan
  imports XPrelude
begin

text \<open>
  The tokenizer of \<open>lua_xscan.c\<close>. A source is the string of its bytes and positions count from 1, as in the
  code. A language is compiled from its Lua table (\<open>xs_config\<close>), memory sufficing; while a source is read every
  allocation has an answer of its own in \<open>ok\<close>. Stacks are lists with their top in front. The state of the
  scan joins \<open>XsScan\<close>, the token arrays of \<open>XsRaw\<close> and the locals of \<open>xs_tokenize\<close>. A nested loop that the
  code leaves by a return is an option or a search over the positions it visits.
\<close>

section \<open>Bytes\<close>

abbreviation nl_c :: char where "nl_c \<equiv> CHR 0x0A"
abbreviation tab_c :: char where "tab_c \<equiv> CHR 0x09"
abbreviation vt_c :: char where "vt_c \<equiv> CHR 0x0B"
abbreviation ff_c :: char where "ff_c \<equiv> CHR 0x0C"
abbreviation cr_c :: char where "cr_c \<equiv> CHR 0x0D"
abbreviation bslash_c :: char where "bslash_c \<equiv> CHR 0x5C"
abbreviation squote_c :: char where "squote_c \<equiv> CHR 0x27"
abbreviation dquote_c :: char where "dquote_c \<equiv> CHR 0x22"
abbreviation btick_c :: char where "btick_c \<equiv> CHR 0x60"

abbreviation byte :: "char \<Rightarrow> nat" where "byte \<equiv> of_char"

definition xs_is_space :: "char \<Rightarrow> bool" where
  "xs_is_space c \<longleftrightarrow> c = CHR '' '' \<or> c = tab_c \<or> c = nl_c \<or> c = cr_c \<or> c = ff_c \<or> c = vt_c"

definition xs_is_alpha :: "char \<Rightarrow> bool" where
  "xs_is_alpha c \<longleftrightarrow> 97 \<le> byte c \<and> byte c \<le> 122 \<or> 65 \<le> byte c \<and> byte c \<le> 90"

definition xs_is_digit :: "char \<Rightarrow> bool" where
  "xs_is_digit c \<longleftrightarrow> 48 \<le> byte c \<and> byte c \<le> 57"

section \<open>Languages\<close>

record xs_delim =
  d_open :: string
  d_close :: string
  d_esc :: "char option"
  d_multiline :: bool

record xs_lang =
  id_start :: "char \<Rightarrow> bool"
  id_char :: "char \<Rightarrow> bool"
  str_prefix :: "char \<Rightarrow> bool"
  kw :: "string list"
  ops :: "char \<Rightarrow> string list"
  line_comments :: "string list"
  block_comments :: "xs_delim list"
  str_delims :: "xs_delim list"
  lang_directive :: "char option"
  pp_first_branch :: bool
  lang_indent :: bool
  long_brackets :: bool
  template_literals :: bool
  regex_literals :: bool
  lifetimes :: bool
  raw_strings :: bool
  nested_comments :: bool

text \<open>The fields of the table; \<open>None\<close> in a list is an element that is no string or no pair.\<close>

record xs_config =
  cf_ident_start :: "string option"
  cf_ident_char :: "string option"
  cf_string_prefixes :: "string option"
  cf_directive :: "string option"
  cf_keywords :: "string option list option"
  cf_ops :: "string option list"
  cf_line_comment :: "string option list"
  cf_block_comment :: "(string option \<times> string option) option list"
  cf_strings :: "(string option \<times> string option \<times> string option \<times> bool) option list"
  cf_pp_first_branch :: bool
  cf_indent :: bool
  cf_long_brackets :: bool
  cf_template_literals :: bool
  cf_regex_literals :: bool
  cf_lifetimes :: bool
  cf_raw_strings :: bool
  cf_nested_comments :: bool

definition XS_MAX_LIST :: nat where "XS_MAX_LIST = 8"

fun char_ranges :: "string \<Rightarrow> (char \<Rightarrow> bool) \<Rightarrow> char \<Rightarrow> bool" where
  "char_ranges (a # b # c # r) s =
     (if b = CHR ''-'' then char_ranges r (\<lambda>x. s x \<or> byte a \<le> byte x \<and> byte x \<le> byte c)
      else char_ranges (b # c # r) (s(a := True)))"
| "char_ranges (a # r) s = char_ranges r (s(a := True))"
| "char_ranges [] s = s"

definition xs_char_set :: "string \<Rightarrow> char \<Rightarrow> bool" where
  "xs_char_set r = char_ranges r (\<lambda>c. 128 \<le> byte c)"

definition prefix_set :: "string \<Rightarrow> char \<Rightarrow> bool" where
  "prefix_set r x \<longleftrightarrow> list_ex (\<lambda>c. x = c \<or> 97 \<le> byte c \<and> byte c \<le> 122 \<and> byte x = byte c - 32) r"

definition xs_read_str :: "string option \<Rightarrow> string option" where
  "xs_read_str v = (case v of None \<Rightarrow> None | Some s \<Rightarrow> if s = [] then None else Some s)"

text \<open>Keywords: open addressing; an empty string marks a free slot. \<open>None\<close>: no slot is free.\<close>

definition xs_hash :: "string \<Rightarrow> u32" where
  "xs_hash s = foldl (\<lambda>h c. (h XOR of_char c) * 16777619) 2166136261 s"

fun kw_probe :: "nat \<Rightarrow> string list \<Rightarrow> nat \<Rightarrow> string \<Rightarrow> bool option" where
  "kw_probe 0 t i s = None"
| "kw_probe (Suc n) t i s =
     (if t ! i = [] then Some False
      else if t ! i = s then Some True
      else kw_probe n t ((i + 1) AND (length t - 1)) s)"

definition xs_is_keyword :: "string list \<Rightarrow> string \<Rightarrow> bool option" where
  "xs_is_keyword t s =
     (if t = [] then Some False else kw_probe (length t) t (unat (xs_hash s) AND (length t - 1)) s)"

function kw_capacity :: "nat \<Rightarrow> nat \<Rightarrow> nat" where
  "kw_capacity n cap = (if cap = 0 \<or> n \<le> cap then cap else kw_capacity n (cap * 2))"
  by auto
termination by (relation "measure (\<lambda>(n, cap). n - cap)") auto

fun kw_free :: "nat \<Rightarrow> string list \<Rightarrow> nat \<Rightarrow> nat option" where
  "kw_free 0 t h = None"
| "kw_free (Suc n) t h = (if t ! h = [] then Some h else kw_free n t ((h + 1) AND (length t - 1)))"

definition kw_add :: "string list \<Rightarrow> string option \<Rightarrow> string list" where
  "kw_add t v =
     (case xs_read_str v of
        None \<Rightarrow> t
      | Some s \<Rightarrow>
          if xs_is_keyword t s = Some True then t
          else (case kw_free (length t) t (unat (xs_hash s) AND (length t - 1)) of
                  None \<Rightarrow> t
                | Some h \<Rightarrow> t[h := s]))"

definition kw_load :: "string option list option \<Rightarrow> string list" where
  "kw_load vs =
     (case vs of
        None \<Rightarrow> []
      | Some vs \<Rightarrow> foldl kw_add (replicate (kw_capacity (length vs * 2 + 1) 16) []) vs)"

text \<open>Operators: by first byte, the longer before the shorter, else in order.\<close>

definition op_insert :: "string list \<Rightarrow> string \<Rightarrow> string list" where
  "op_insert xs s =
     (let at = length xs - length (takeWhile (\<lambda>x. length x < length s) (rev xs))
      in take at xs @ [s] @ drop at xs)"

definition op_add :: "(char \<Rightarrow> string list) \<Rightarrow> string option \<Rightarrow> char \<Rightarrow> string list" where
  "op_add t v = (case xs_read_str v of None \<Rightarrow> t | Some s \<Rightarrow> t(hd s := op_insert (t (hd s)) s))"

definition read_block :: "(string option \<times> string option) option \<Rightarrow> xs_delim option" where
  "read_block v =
     (case v of
        None \<Rightarrow> None
      | Some (a, b) \<Rightarrow>
          (case (xs_read_str a, xs_read_str b) of
             (Some a, Some b) \<Rightarrow> Some \<lparr>d_open = a, d_close = b, d_esc = None, d_multiline = False\<rparr>
           | _ \<Rightarrow> None))"

definition read_string :: "(string option \<times> string option \<times> string option \<times> bool) option \<Rightarrow> xs_delim option" where
  "read_string v =
     (case v of
        None \<Rightarrow> None
      | Some (a, b, e, ml) \<Rightarrow>
          (case (xs_read_str a, xs_read_str b) of
             (Some a, Some b) \<Rightarrow>
               Some \<lparr>d_open = a, d_close = b, d_esc = map_option hd (xs_read_str e), d_multiline = ml\<rparr>
           | _ \<Rightarrow> None))"

definition xs_opt_field :: "string option \<Rightarrow> string \<Rightarrow> string" where
  "xs_opt_field v d = (case v of None \<Rightarrow> d | Some s \<Rightarrow> s)"

definition xs_lang_load :: "xs_config \<Rightarrow> xs_lang" where
  "xs_lang_load cf =
     \<lparr>id_start = xs_char_set (xs_opt_field (cf_ident_start cf) ''A-Za-z_''),
      id_char = xs_char_set (xs_opt_field (cf_ident_char cf) ''A-Za-z0-9_''),
      str_prefix = prefix_set (xs_opt_field (cf_string_prefixes cf) ''''),
      kw = kw_load (cf_keywords cf),
      ops = foldl op_add (\<lambda>_. []) (cf_ops cf),
      line_comments = take XS_MAX_LIST (List.map_filter xs_read_str (cf_line_comment cf)),
      block_comments = take XS_MAX_LIST (List.map_filter read_block (cf_block_comment cf)),
      str_delims = take XS_MAX_LIST (List.map_filter read_string (cf_strings cf)),
      lang_directive = map_option hd (xs_read_str (cf_directive cf)),
      pp_first_branch = cf_pp_first_branch cf,
      lang_indent = cf_indent cf,
      long_brackets = cf_long_brackets cf,
      template_literals = cf_template_literals cf,
      regex_literals = cf_regex_literals cf,
      lifetimes = cf_lifetimes cf,
      raw_strings = cf_raw_strings cf,
      nested_comments = cf_nested_comments cf\<rparr>"

section \<open>The scan\<close>

datatype xs_kind = K_ID | K_KW | K_OP | K_STR | K_NUM | K_DIR | K_NL | K_INDENT | K_DEDENT

text \<open>One entry of the arrays \<open>k\<close>, \<open>s\<close>, \<open>e\<close>, \<open>l\<close> and \<open>el\<close>.\<close>

record xs_token =
  tk :: xs_kind
  ts :: nat
  te :: nat
  tl :: nat
  tel :: nat

record xs_pp =
  pp_parent :: bool
  pp_taken :: bool
  pp_keep_all :: bool

record xs_scan =
  toks :: "xs_token list"
  toks_cap :: nat
  line :: nat
  depth :: nat
  skip :: bool
  pps :: "xs_pp list"
  pps_cap :: nat
  parens :: "bool list"
  parens_cap :: nat
  ctrl_close :: nat
  oom :: bool
  pos :: nat
  bol :: bool
  ind :: "nat list"
  ind_cap :: nat
  allocs :: nat

definition xs_byte :: "string \<Rightarrow> nat \<Rightarrow> char" where
  "xs_byte src p = (if 1 \<le> p \<and> p \<le> length src then src ! (p - 1) else CHR 0x00)"

definition xs_starts :: "string \<Rightarrow> nat \<Rightarrow> string \<Rightarrow> bool" where
  "xs_starts src p lit \<longleftrightarrow> 1 \<le> p \<and> p + length lit - 1 \<le> length src \<and> take (length lit) (drop (p - 1) src) = lit"

definition xs_count_nl :: "string \<Rightarrow> nat \<Rightarrow> nat \<Rightarrow> nat" where
  "xs_count_nl src a b = length (filter (\<lambda>p. src ! (p - 1) = nl_c) [a..<Suc (min b (length src))])"

text \<open>The number of bytes from \<open>p\<close> on that satisfy \<open>P\<close>; the position of the first newline from \<open>p\<close> on (\<open>memchr\<close>).\<close>

definition run_of :: "(char \<Rightarrow> bool) \<Rightarrow> string \<Rightarrow> nat \<Rightarrow> nat" where
  "run_of P src p = length (takeWhile P (drop (p - 1) src))"

definition next_nl :: "string \<Rightarrow> nat \<Rightarrow> nat" where
  "next_nl src p = p + run_of (\<lambda>c. c \<noteq> nl_c) src p"

definition xs_long_open :: "string \<Rightarrow> nat \<Rightarrow> nat option" where
  "xs_long_open src p =
     (if xs_byte src p \<noteq> CHR ''['' then None
      else let level = run_of (\<lambda>c. c = CHR ''='') src (p + 1)
           in if xs_byte src (p + 1 + level) = CHR ''['' then Some level else None)"

definition hits :: "char \<Rightarrow> string \<Rightarrow> nat \<Rightarrow> nat \<Rightarrow> bool" where
  "hits c src q n \<longleftrightarrow> length (takeWhile (\<lambda>b. b = c) (take n (drop (q - 1) src))) = n"

definition xs_long_close :: "string \<Rightarrow> nat \<Rightarrow> nat \<Rightarrow> nat" where
  "xs_long_close src p level =
     (case find (\<lambda>q. xs_byte src q = CHR '']'' \<and> hits (CHR ''='') src (q + 1) level
                   \<and> xs_byte src (q + 1 + level) = CHR '']'')
             [p + level + 2..<Suc (length src)] of
        Some q \<Rightarrow> q + level + 1
      | None \<Rightarrow> length src)"

function skip_quoted :: "string \<Rightarrow> char \<Rightarrow> nat \<Rightarrow> nat" where
  "skip_quoted src q x =
     (if x > length src then length src
      else let b = xs_byte src x
           in if b = bslash_c then skip_quoted src q (x + 2)
              else if b = q \<or> b = nl_c then x
              else skip_quoted src q (x + 1))"
  by auto
termination by (relation "measure (\<lambda>(src, q, x). Suc (length src) - x)") auto

definition xs_skip_quoted :: "string \<Rightarrow> nat \<Rightarrow> char \<Rightarrow> nat" where
  "xs_skip_quoted src p q = skip_quoted src q (p + 1)"

text \<open>The end of a block comment inside braces: past its last byte, or past the source.\<close>

function skip_comment :: "string \<Rightarrow> nat \<Rightarrow> nat" where
  "skip_comment src x =
     (if x < length src \<and> \<not> (xs_byte src x = CHR ''*'' \<and> xs_byte src (x + 1) = CHR ''/'') then skip_comment src (x + 1)
      else x + 1)"
  by auto
termination by (relation "measure (\<lambda>(src, x). length src - x)") auto

text \<open>The two nested loops, with fuel; \<open>x\<close> is the position of the loop.\<close>

fun skip_braces :: "nat \<Rightarrow> string \<Rightarrow> int \<Rightarrow> nat \<Rightarrow> nat option"
and skip_template :: "nat \<Rightarrow> string \<Rightarrow> nat \<Rightarrow> nat option" where
  "skip_braces 0 src d x = None"
| "skip_braces (Suc n) src d x =
     (if x > length src then Some (length src)
      else let b = xs_byte src x
           in if b = CHR ''{'' then skip_braces n src (d + 1) (x + 1)
              else if b = CHR ''}'' then (if d - 1 = 0 then Some x else skip_braces n src (d - 1) (x + 1))
              else if b = btick_c then
                (case skip_template n src (x + 1) of None \<Rightarrow> None | Some y \<Rightarrow> skip_braces n src d (y + 1))
              else if b = dquote_c \<or> b = squote_c then skip_braces n src d (xs_skip_quoted src x b + 1)
              else if b = CHR ''/'' \<and> xs_byte src (x + 1) = CHR ''/'' then skip_braces n src d (next_nl src x + 1)
              else if b = CHR ''/'' \<and> xs_byte src (x + 1) = CHR ''*'' then
                skip_braces n src d (skip_comment src (x + 2) + 1)
              else skip_braces n src d (x + 1))"
| "skip_template 0 src x = None"
| "skip_template (Suc n) src x =
     (if x > length src then Some (length src)
      else let b = xs_byte src x
           in if b = bslash_c then skip_template n src (x + 2)
              else if b = btick_c then Some x
              else if b = CHR ''$'' \<and> xs_byte src (x + 1) = CHR ''{'' then
                (case skip_braces n src 0 (x + 1) of None \<Rightarrow> None | Some y \<Rightarrow> skip_template n src (y + 1))
              else skip_template n src (x + 1))"

definition xs_skip_template :: "string \<Rightarrow> nat \<Rightarrow> nat" where
  "xs_skip_template src p = the (skip_template (length src + 2) src (p + 1))"

function scan_regex :: "(char \<Rightarrow> bool) \<Rightarrow> string \<Rightarrow> bool \<Rightarrow> nat \<Rightarrow> nat option" where
  "scan_regex idc src in_class x =
     (if x > length src then None
      else let b = xs_byte src x
           in if b = bslash_c then scan_regex idc src in_class (x + 2)
              else if b = nl_c then None
              else if in_class then scan_regex idc src (b \<noteq> CHR '']'') (x + 1)
              else if b = CHR ''['' then scan_regex idc src True (x + 1)
              else if b = CHR ''/'' then Some (x + run_of idc src (x + 1))
              else scan_regex idc src False (x + 1))"
  by auto
termination by (relation "measure (\<lambda>(idc, src, c, x). Suc (length src) - x)") auto

definition xs_scan_regex :: "xs_lang \<Rightarrow> string \<Rightarrow> nat \<Rightarrow> nat option" where
  "xs_scan_regex g src p = scan_regex (id_char g) src False (p + 1)"

definition xs_scan_raw_string :: "xs_lang \<Rightarrow> string \<Rightarrow> nat \<Rightarrow> nat option" where
  "xs_scan_raw_string g src p =
     (if p > 1 \<and> id_char g (xs_byte src (p - 1)) then None
      else let x = (if xs_byte src p = CHR ''b'' \<or> xs_byte src p = CHR ''c'' then p + 1 else p)
           in if xs_byte src x \<noteq> CHR ''r'' then None
              else let hashes = run_of (\<lambda>c. c = CHR ''#'') src (x + 1); x = x + 1 + hashes
                   in if xs_byte src x \<noteq> dquote_c then None
                      else (case find (\<lambda>q. xs_byte src q = dquote_c \<and> hits (CHR ''#'') src (q + 1) hashes)
                                   [x + 1..<Suc (length src)] of
                              Some q \<Rightarrow> Some (q + hashes)
                            | None \<Rightarrow> Some (length src)))"

definition xs_scan_lifetime :: "xs_lang \<Rightarrow> string \<Rightarrow> nat \<Rightarrow> nat option" where
  "xs_scan_lifetime g src p =
     (let c = xs_byte src (p + 1)
      in if c = bslash_c \<or> \<not> id_start g c then None
         else let w = (if byte c < 0x80 then 1 else if byte c \<ge> 0xF0 then 4 else if byte c \<ge> 0xE0 then 3 else 2)
              in if xs_byte src (p + 1 + w) = squote_c then None
                 else Some (p + run_of (id_char g) src (p + 1)))"

declare skip_quoted.simps [simp del] skip_comment.simps [simp del] scan_regex.simps [simp del]
  kw_capacity.simps [simp del]

end
