(* ===== verification/XScanRun.thy ===== *)
theory XScanRun
  imports XScan
begin

text \<open>
  \<open>xs_tokenize\<close>: one turn of its loop, the whole run with the tokens it leaves, the bracket matcher and the
  methods of the token table.
\<close>

section \<open>Tokens and allocations\<close>

text \<open>The five arrays are enlarged one after the other.\<close>

definition xs_grow :: "(nat \<Rightarrow> bool) \<Rightarrow> xs_scan \<Rightarrow> bool \<times> xs_scan" where
  "xs_grow ok sc =
     (if \<forall>i \<in> {0..<5}. ok (allocs sc + i) then
        (True, sc\<lparr>toks_cap := (if toks_cap sc = 0 then 256 else toks_cap sc * 2), allocs := allocs sc + 5\<rparr>)
      else (False, sc))"

definition xs_push :: "(nat \<Rightarrow> bool) \<Rightarrow> xs_kind \<Rightarrow> nat \<Rightarrow> nat \<Rightarrow> nat \<Rightarrow> nat \<Rightarrow> xs_scan \<Rightarrow> xs_scan" where
  "xs_push ok k a b l1 l2 sc =
     (if skip sc \<or> oom sc then sc
      else case (if length (toks sc) = toks_cap sc then xs_grow ok sc else (True, sc)) of
             (False, sc) \<Rightarrow> sc\<lparr>oom := True\<rparr>
           | (True, sc) \<Rightarrow> sc\<lparr>toks := toks sc @ [\<lparr>tk = k, ts = a, te = b, tl = l1, tel = l2\<rparr>]\<rparr>)"

definition tok_text :: "string \<Rightarrow> xs_token \<Rightarrow> string" where
  "tok_text src t = take (te t + 1 - ts t) (drop (ts t - 1) src)"

definition last_kind :: "xs_scan \<Rightarrow> xs_kind option" where
  "last_kind sc = (if toks sc = [] then None else Some (tk (last (toks sc))))"

definition xs_regex_allowed :: "string \<Rightarrow> xs_scan \<Rightarrow> bool" where
  "xs_regex_allowed src sc =
     (if toks sc = [] then True
      else let t = last (toks sc); w = tok_text src t
           in if tk t \<in> {K_ID, K_NUM, K_STR} then False
              else if tk t = K_OP \<and> w = '')'' then ctrl_close sc = length (toks sc)
              else if tk t = K_OP then w \<noteq> '']'' \<and> w \<noteq> ''}''
              else \<not> (tk t = K_KW \<and> w \<in> {''this'', ''super'', ''true'', ''false'', ''null''}))"

definition ctrl_word :: "string \<Rightarrow> xs_scan \<Rightarrow> bool" where
  "ctrl_word src sc =
     (length (toks sc) \<ge> 2
      \<and> (let t = toks sc ! (length (toks sc) - 2)
         in tk t = K_KW \<and> tok_text src t \<in> {''if'', ''while'', ''for'', ''with''}))"

definition xs_track_paren :: "(nat \<Rightarrow> bool) \<Rightarrow> string \<Rightarrow> char \<Rightarrow> xs_scan \<Rightarrow> xs_scan" where
  "xs_track_paren ok src c sc =
     (if c = CHR ''('' then
        let ctrl = ctrl_word src sc
        in if length (parens sc) = parens_cap sc \<and> \<not> ok (allocs sc) then sc\<lparr>oom := True\<rparr>
           else let sc = (if length (parens sc) = parens_cap sc then
                            sc\<lparr>parens_cap := (if parens_cap sc = 0 then 64 else parens_cap sc * 2), allocs := allocs sc + 1\<rparr>
                          else sc)
                in sc\<lparr>parens := ctrl # parens sc\<rparr>
      else if c = CHR '')'' then
        (case parens sc of
           [] \<Rightarrow> sc\<lparr>ctrl_close := 0\<rparr>
         | ctrl # ps \<Rightarrow> sc\<lparr>parens := ps, ctrl_close := (if ctrl then length (toks sc) else 0)\<rparr>)
      else sc)"

section \<open>Preprocessor lines\<close>

text \<open>\<open>^#%s*if%s+0%s*$\<close>, after the \<open>if\<close>.\<close>

definition if_zero :: "string \<Rightarrow> bool" where
  "if_zero r =
     (takeWhile xs_is_space r \<noteq> []
      \<and> (case dropWhile xs_is_space r of
           [] \<Rightarrow> False
         | c # r \<Rightarrow> c = CHR ''0'' \<and> dropWhile xs_is_space r = []))"

definition pp_open :: "(nat \<Rightarrow> bool) \<Rightarrow> bool \<Rightarrow> xs_scan \<Rightarrow> xs_scan" where
  "pp_open ok zero sc =
     (if length (pps sc) = pps_cap sc \<and> \<not> ok (allocs sc) then sc\<lparr>oom := True\<rparr>
      else let sc = (if length (pps sc) = pps_cap sc then
                       sc\<lparr>pps_cap := (if pps_cap sc = 0 then 16 else pps_cap sc * 2), allocs := allocs sc + 1\<rparr>
                     else sc);
               f = \<lparr>pp_parent = skip sc, pp_taken = \<not> zero, pp_keep_all = (depth sc = 0 \<and> \<not> zero)\<rparr>
           in sc\<lparr>pps := f # pps sc, skip := (skip sc \<or> zero)\<rparr>)"

definition pp_else :: "xs_scan \<Rightarrow> xs_scan" where
  "pp_else sc =
     (case pps sc of
        [] \<Rightarrow> sc
      | f # fs \<Rightarrow>
          if pp_keep_all f then sc\<lparr>skip := pp_parent f\<rparr>
          else if pp_taken f then sc\<lparr>skip := True\<rparr>
          else sc\<lparr>skip := pp_parent f, pps := f\<lparr>pp_taken := True\<rparr> # fs\<rparr>)"

definition pp_close :: "xs_scan \<Rightarrow> xs_scan" where
  "pp_close sc = (case pps sc of [] \<Rightarrow> sc | f # fs \<Rightarrow> sc\<lparr>skip := pp_parent f, pps := fs\<rparr>)"

definition xs_directive :: "(nat \<Rightarrow> bool) \<Rightarrow> xs_lang \<Rightarrow> string \<Rightarrow> xs_scan \<Rightarrow> xs_scan" where
  "xs_directive ok g txt sc =
     (if \<not> pp_first_branch g then sc
      else let r = dropWhile xs_is_space (List.tl txt);
               w = takeWhile xs_is_alpha r;
               r = dropWhile xs_is_alpha r
           in if w = ''if'' \<or> w = ''ifdef'' \<or> w = ''ifndef'' then pp_open ok (w = ''if'' \<and> if_zero r) sc
              else if w = ''elif'' \<or> w = ''else'' then pp_else sc
              else if w = ''endif'' then pp_close sc
              else sc)"

text \<open>The end of a directive with its continuation lines: position past it, and the lines it continues over.\<close>

function directive_end :: "string \<Rightarrow> nat \<Rightarrow> nat \<Rightarrow> nat \<times> nat" where
  "directive_end src p lines =
     (let nl = next_nl src p;
          q = (if xs_byte src (nl - 1) = cr_c then nl - 2 else nl - 1)
      in if xs_byte src q = bslash_c \<and> nl \<le> length src then directive_end src (nl + 1) (lines + 1)
         else (nl, lines))"
  by auto
termination
  by (relation "measure (\<lambda>(src, p, l). Suc (length src) - p)") (auto simp: next_nl_def Let_def)

section \<open>The parts of a turn\<close>

text \<open>Each part is the text of the loop for one construct: \<open>None\<close> when it leaves \<open>handled\<close> at 0.\<close>

type_synonym part = "xs_scan \<Rightarrow> xs_scan option"

definition part_directive :: "(nat \<Rightarrow> bool) \<Rightarrow> xs_lang \<Rightarrow> string \<Rightarrow> part" where
  "part_directive ok g src sc =
     (if lang_directive g = Some (xs_byte src (pos sc)) \<and> bol sc then
        let (p, lines) = directive_end src (pos sc) 0;
            l0 = line sc;
            was_skip = skip sc;
            sc = xs_directive ok g (take (p - pos sc) (drop (pos sc - 1) src)) (sc\<lparr>line := line sc + lines\<rparr>);
            sc = (if was_skip \<and> skip sc then sc
                  else (xs_push ok K_DIR (pos sc) (p - 1) l0 (line sc) (sc\<lparr>skip := False\<rparr>))\<lparr>skip := skip sc\<rparr>)
        in Some (sc\<lparr>pos := p\<rparr>)
      else None)"

text \<open>A token that may span lines, from the position up to \<open>stop\<close>, and one on a single line.\<close>

definition take_lines :: "(nat \<Rightarrow> bool) \<Rightarrow> string \<Rightarrow> nat \<Rightarrow> xs_scan \<Rightarrow> xs_scan" where
  "take_lines ok src stop sc =
     (let l0 = line sc; l1 = l0 + xs_count_nl src (pos sc) stop
      in (xs_push ok K_STR (pos sc) stop l0 l1 (sc\<lparr>line := l1\<rparr>))\<lparr>pos := stop + 1\<rparr>)"

definition take_word :: "(nat \<Rightarrow> bool) \<Rightarrow> xs_kind \<Rightarrow> nat \<Rightarrow> xs_scan \<Rightarrow> xs_scan" where
  "take_word ok k stop sc = (xs_push ok k (pos sc) stop (line sc) (line sc) sc)\<lparr>pos := stop + 1\<rparr>"

definition drop_lines :: "string \<Rightarrow> nat \<Rightarrow> xs_scan \<Rightarrow> xs_scan" where
  "drop_lines src stop sc = sc\<lparr>line := line sc + xs_count_nl src (pos sc) stop, pos := stop + 1\<rparr>"

definition part_line_comment :: "xs_lang \<Rightarrow> string \<Rightarrow> part" where
  "part_line_comment g src sc =
     (case find (xs_starts src (pos sc)) (line_comments g) of
        None \<Rightarrow> None
      | Some lit \<Rightarrow>
          let after = pos sc + length lit
          in case (if long_brackets g then xs_long_open src after else None) of
               Some lb \<Rightarrow> Some (drop_lines src (xs_long_close src after lb) sc)
             | None \<Rightarrow> Some (sc\<lparr>pos := next_nl src (pos sc)\<rparr>))"

function block_end :: "bool \<Rightarrow> string \<Rightarrow> xs_delim \<Rightarrow> nat \<Rightarrow> nat \<Rightarrow> nat" where
  "block_end nested src d nest p =
     (if p + length (d_close d) - 1 > length src \<or> p > length src + 1 then length src
      else if nested \<and> xs_starts src p (d_open d) then
        block_end nested src d (nest + 1) (p + (length (d_open d) - 1) + 1)
      else if xs_starts src p (d_close d) then
        (if nest - 1 = 0 then p + length (d_close d) - 1
         else block_end nested src d (nest - 1) (p + (length (d_close d) - 1) + 1))
      else block_end nested src d nest (p + 1))"
  by auto
termination by (relation "measure (\<lambda>(n, src, d, k, p). length src + 2 - p)") auto

definition part_block_comment :: "xs_lang \<Rightarrow> string \<Rightarrow> part" where
  "part_block_comment g src sc =
     (case find (\<lambda>d. xs_starts src (pos sc) (d_open d)) (block_comments g) of
        None \<Rightarrow> None
      | Some d \<Rightarrow> Some (drop_lines src (block_end (nested_comments g) src d 1 (pos sc + length (d_open d))) sc))"

definition part_template :: "(nat \<Rightarrow> bool) \<Rightarrow> xs_lang \<Rightarrow> string \<Rightarrow> part" where
  "part_template ok g src sc =
     (if template_literals g \<and> xs_byte src (pos sc) = btick_c then
        Some (take_lines ok src (xs_skip_template src (pos sc)) sc)
      else None)"

definition part_regex :: "(nat \<Rightarrow> bool) \<Rightarrow> xs_lang \<Rightarrow> string \<Rightarrow> part" where
  "part_regex ok g src sc =
     (if regex_literals g \<and> xs_byte src (pos sc) = CHR ''/'' \<and> xs_regex_allowed src sc then
        map_option (\<lambda>stop. take_word ok K_STR stop sc) (xs_scan_regex g src (pos sc))
      else None)"

definition part_lifetime :: "(nat \<Rightarrow> bool) \<Rightarrow> xs_lang \<Rightarrow> string \<Rightarrow> part" where
  "part_lifetime ok g src sc =
     (if lifetimes g \<and> xs_byte src (pos sc) = squote_c then
        map_option (\<lambda>stop. take_word ok K_ID stop sc) (xs_scan_lifetime g src (pos sc))
      else None)"

definition part_raw_string :: "(nat \<Rightarrow> bool) \<Rightarrow> xs_lang \<Rightarrow> string \<Rightarrow> part" where
  "part_raw_string ok g src sc =
     (if raw_strings g \<and> xs_byte src (pos sc) \<in> {CHR ''r'', CHR ''b'', CHR ''c''} then
        map_option (\<lambda>stop. take_lines ok src stop sc) (xs_scan_raw_string g src (pos sc))
      else None)"

definition part_long_bracket :: "(nat \<Rightarrow> bool) \<Rightarrow> xs_lang \<Rightarrow> string \<Rightarrow> part" where
  "part_long_bracket ok g src sc =
     (if long_brackets g then
        map_option (\<lambda>lb. take_lines ok src (xs_long_close src (pos sc) lb) sc) (xs_long_open src (pos sc))
      else None)"

function string_end :: "string \<Rightarrow> xs_delim \<Rightarrow> nat \<Rightarrow> nat" where
  "string_end src d p =
     (if p > length src then length src
      else let b = xs_byte src p
           in if d_esc d = Some b then string_end src d (p + 2)
              else if xs_starts src p (d_close d) then p + length (d_close d) - 1
              else if b = nl_c \<and> \<not> d_multiline d then p - 1
              else string_end src d (p + 1))"
  by auto
termination by (relation "measure (\<lambda>(src, d, p). Suc (length src) - p)") auto

definition part_string :: "(nat \<Rightarrow> bool) \<Rightarrow> xs_lang \<Rightarrow> string \<Rightarrow> part" where
  "part_string ok g src sc =
     (let q = pos sc + length (takeWhile (\<lambda>i. str_prefix g (xs_byte src (pos sc + i))) [0, 1])
      in case find (\<lambda>d. xs_starts src q (d_open d) \<and> (q = pos sc \<or> \<not> id_char g (xs_byte src (pos sc - 1))))
                (str_delims g) of
           None \<Rightarrow> None
         | Some d \<Rightarrow> Some (take_lines ok src (string_end src d (q + length (d_open d))) sc))"

definition exp_sign :: "string \<Rightarrow> nat \<Rightarrow> bool" where
  "exp_sign src p \<longleftrightarrow> xs_byte src p \<in> {CHR ''+'', CHR ''-''} \<and> xs_byte src (p - 1) \<in> {CHR ''e'', CHR ''E'', CHR ''p'', CHR ''P''}"

function number_end :: "(char \<Rightarrow> bool) \<Rightarrow> string \<Rightarrow> nat \<Rightarrow> nat" where
  "number_end idc src p =
     (if p \<le> length src \<and> (idc (xs_byte src p) \<or> xs_byte src p \<in> {CHR ''.'', squote_c} \<or> exp_sign src p) then
        number_end idc src (p + 1)
      else p)"
  by auto
termination by (relation "measure (\<lambda>(idc, src, p). Suc (length src) - p)") auto

definition part_word :: "(nat \<Rightarrow> bool) \<Rightarrow> xs_lang \<Rightarrow> string \<Rightarrow> part" where
  "part_word ok g src sc =
     (if id_start g (xs_byte src (pos sc)) then
        let stop = pos sc + run_of (id_char g) src (pos sc + 1);
            w = take (stop + 1 - pos sc) (drop (pos sc - 1) src)
        in Some (take_word ok (if xs_is_keyword (kw g) w = Some True then K_KW else K_ID) stop sc)
      else None)"

definition part_number :: "(nat \<Rightarrow> bool) \<Rightarrow> xs_lang \<Rightarrow> string \<Rightarrow> part" where
  "part_number ok g src sc =
     (let c = xs_byte src (pos sc)
      in if xs_is_digit c \<or> c = CHR ''.'' \<and> xs_is_digit (xs_byte src (pos sc + 1)) then
           Some (take_word ok K_NUM (number_end (id_char g) src (pos sc + 1) - 1) sc)
         else None)"

definition xs_is_open :: "char \<Rightarrow> bool" where
  "xs_is_open c \<longleftrightarrow> c = CHR ''('' \<or> c = CHR ''['' \<or> c = CHR ''{''"

definition xs_open_of :: "char \<Rightarrow> char option" where
  "xs_open_of c =
     (if c = CHR '')'' then Some CHR ''('' else if c = CHR '']'' then Some CHR ''[''
      else if c = CHR ''}'' then Some CHR ''{'' else None)"

definition op_width :: "xs_lang \<Rightarrow> string \<Rightarrow> nat \<Rightarrow> nat" where
  "op_width g src p = (case find (xs_starts src p) (ops g (xs_byte src p)) of None \<Rightarrow> 1 | Some s \<Rightarrow> length s)"

definition part_operator :: "(nat \<Rightarrow> bool) \<Rightarrow> xs_lang \<Rightarrow> string \<Rightarrow> xs_scan \<Rightarrow> xs_scan" where
  "part_operator ok g src sc =
     (let c = xs_byte src (pos sc);
          w = op_width g src (pos sc);
          single = (w = 1 \<and> \<not> skip sc);
          sc = (if single \<and> xs_is_open c then sc\<lparr>depth := depth sc + 1\<rparr>
                else if single \<and> xs_open_of c \<noteq> None then sc\<lparr>depth := depth sc - 1\<rparr> else sc);
          sc = xs_push ok K_OP (pos sc) (pos sc + w - 1) (line sc) (line sc) sc;
          sc = (if regex_literals g \<and> single \<and> \<not> oom sc then xs_track_paren ok src c sc else sc)
      in sc\<lparr>pos := pos sc + w\<rparr>)"

section \<open>Lines and indentation\<close>

definition indent_width :: "string \<Rightarrow> nat \<Rightarrow> nat" where
  "indent_width src p =
     foldl (\<lambda>w c. w + (if c = tab_c then 8 - w mod 8 else 1)) 0
       (List.rev (takeWhile (\<lambda>c. c \<noteq> nl_c) (List.rev (take (p - 1) src))))"

text \<open>The level 0 stays at the bottom of the stack.\<close>

function dedents :: "(nat \<Rightarrow> bool) \<Rightarrow> nat \<Rightarrow> xs_scan \<Rightarrow> xs_scan" where
  "dedents ok w sc =
     (case ind sc of
        [] \<Rightarrow> sc
      | lvl # rest \<Rightarrow>
          if w < lvl then dedents ok w (xs_push ok K_DEDENT (pos sc) (pos sc - 1) (line sc) (line sc) (sc\<lparr>ind := rest\<rparr>))
          else sc)"
  by auto
termination
  by (relation "measure (\<lambda>(ok, w, sc). length (ind sc))") (auto simp: xs_push_def xs_grow_def)

text \<open>\<open>None\<close>: the stack of levels cannot be enlarged and the loop is left.\<close>

definition indentation :: "(nat \<Rightarrow> bool) \<Rightarrow> xs_lang \<Rightarrow> string \<Rightarrow> xs_scan \<Rightarrow> xs_scan option" where
  "indentation ok g src sc =
     (if lang_indent g \<and> bol sc \<and> depth sc = 0 \<and> find (xs_starts src (pos sc)) (line_comments g) = None then
        let w = indent_width src (pos sc)
        in if w > hd (ind sc) then
             if length (ind sc) = ind_cap sc \<and> \<not> ok (allocs sc) then None
             else let sc = (if length (ind sc) = ind_cap sc then sc\<lparr>ind_cap := ind_cap sc * 2, allocs := allocs sc + 1\<rparr> else sc)
                  in Some (xs_push ok K_INDENT (pos sc) (pos sc - 1) (line sc) (line sc) (sc\<lparr>ind := w # ind sc\<rparr>))
           else Some (dedents ok w sc)
      else Some sc)"

definition newline :: "(nat \<Rightarrow> bool) \<Rightarrow> xs_lang \<Rightarrow> xs_scan \<Rightarrow> xs_scan" where
  "newline ok g sc =
     (let sc = (if lang_indent g \<and> depth sc = 0 \<and> toks sc \<noteq> [] \<and> last_kind sc \<noteq> Some K_NL \<and> \<not> skip sc then
                  xs_push ok K_NL (pos sc) (pos sc) (line sc) (line sc) sc
                else sc)
      in sc\<lparr>line := line sc + 1, pos := pos sc + 1, bol := True\<rparr>)"

section \<open>The loop\<close>

fun first_part :: "part list \<Rightarrow> part" where
  "first_part [] sc = None"
| "first_part (f # fs) sc = (case f sc of None \<Rightarrow> first_part fs sc | Some sc' \<Rightarrow> Some sc')"

definition parts :: "(nat \<Rightarrow> bool) \<Rightarrow> xs_lang \<Rightarrow> string \<Rightarrow> part list" where
  "parts ok g src =
     [part_line_comment g src, part_block_comment g src, part_template ok g src, part_regex ok g src,
      part_lifetime ok g src, part_raw_string ok g src, part_long_bracket ok g src, part_string ok g src,
      part_word ok g src, part_number ok g src]"

definition continues :: "xs_lang \<Rightarrow> string \<Rightarrow> nat \<Rightarrow> bool" where
  "continues g src p \<longleftrightarrow>
     lang_indent g \<and> xs_byte src p = bslash_c
     \<and> (xs_byte src (p + 1) = nl_c \<or> xs_byte src (p + 1) = cr_c \<and> xs_byte src (p + 2) = nl_c)"

definition token_turn :: "(nat \<Rightarrow> bool) \<Rightarrow> xs_lang \<Rightarrow> string \<Rightarrow> xs_scan \<Rightarrow> xs_scan" where
  "token_turn ok g src sc =
     (case part_directive ok g src sc of
        Some sc' \<Rightarrow> sc'\<lparr>bol := False\<rparr>
      | None \<Rightarrow>
          let sc = sc\<lparr>bol := False\<rparr>
          in case first_part (parts ok g src) sc of Some sc' \<Rightarrow> sc' | None \<Rightarrow> part_operator ok g src sc)"

definition xs_turn :: "(nat \<Rightarrow> bool) \<Rightarrow> xs_lang \<Rightarrow> string \<Rightarrow> xs_scan \<Rightarrow> xs_scan" where
  "xs_turn ok g src sc =
     (let c = xs_byte src (pos sc)
      in if c = nl_c then newline ok g sc
         else if xs_is_space c then sc\<lparr>pos := pos sc + 1\<rparr>
         else if continues g src (pos sc) then
           sc\<lparr>pos := pos sc + (if xs_byte src (pos sc + 1) = nl_c then 2 else 3), line := line sc + 1\<rparr>
         else case indentation ok g src sc of
                None \<Rightarrow> sc\<lparr>oom := True\<rparr>
              | Some sc \<Rightarrow> token_turn ok g src sc)"

fun xs_loop :: "(nat \<Rightarrow> bool) \<Rightarrow> xs_lang \<Rightarrow> string \<Rightarrow> nat \<Rightarrow> xs_scan \<Rightarrow> xs_scan option" where
  "xs_loop ok g src 0 sc = None"
| "xs_loop ok g src (Suc n) sc =
     (if pos sc \<le> length src \<and> \<not> oom sc then xs_loop ok g src n (xs_turn ok g src sc) else Some sc)"

definition xs_start :: xs_scan where
  "xs_start =
     \<lparr>toks = [], toks_cap = 0, line = 1, depth = 0, skip = False, pps = [], pps_cap = 0, parens = [], parens_cap = 0,
      ctrl_close = 0, oom = False, pos = 1, bol = True, ind = [0], ind_cap = 16, allocs = 1\<rparr>"

text \<open>The end of the source closes the last line and its blocks.\<close>

fun close_blocks :: "(nat \<Rightarrow> bool) \<Rightarrow> nat \<Rightarrow> nat \<Rightarrow> xs_scan \<Rightarrow> xs_scan" where
  "close_blocks ok n 0 sc = sc"
| "close_blocks ok n (Suc k) sc = close_blocks ok n k (xs_push ok K_DEDENT (n + 1) n (line sc) (line sc) sc)"

definition xs_finish :: "(nat \<Rightarrow> bool) \<Rightarrow> xs_lang \<Rightarrow> string \<Rightarrow> xs_scan \<Rightarrow> xs_scan" where
  "xs_finish ok g src sc =
     (if lang_indent g \<and> \<not> oom sc then
        let n = length src;
            sc = (if toks sc \<noteq> [] \<and> last_kind sc \<noteq> Some K_NL then xs_push ok K_NL (n + 1) n (line sc) (line sc) sc else sc)
        in close_blocks ok n (length (ind sc) - 1) sc
      else sc)"

section \<open>Matching brackets\<close>

definition single_op :: "string \<Rightarrow> xs_token \<Rightarrow> char option" where
  "single_op src t = (if tk t = K_OP \<and> ts t = te t then Some (xs_byte src (ts t)) else None)"

type_synonym matching = "nat list \<times> nat list"

text \<open>The stack of open tokens and the array \<open>m\<close> (0 where nothing matches), after token \<open>i\<close>.\<close>

definition pair_up :: "nat \<Rightarrow> nat \<Rightarrow> nat list \<Rightarrow> nat list" where
  "pair_up j i m = m[j := i + 1, i := j + 1]"

definition xs_match1 :: "string \<Rightarrow> xs_token list \<Rightarrow> matching \<Rightarrow> nat \<Rightarrow> matching" where
  "xs_match1 src tt = (\<lambda>(stk, m) i.
     let t = tt ! i
     in case single_op src t of
          Some c \<Rightarrow>
            if xs_is_open c then (i # stk, m)
            else (case (xs_open_of c, stk) of
                    (Some oc, j # stk') \<Rightarrow>
                      if tk (tt ! j) = K_OP \<and> xs_byte src (ts (tt ! j)) = oc then (stk', pair_up j i m)
                      else (stk, m)
                  | _ \<Rightarrow> (stk, m))
        | None \<Rightarrow>
            if tk t = K_INDENT then (i # stk, m)
            else if tk t = K_DEDENT then
              (case stk of
                 [] \<Rightarrow> (stk, m)
               | j # stk' \<Rightarrow> if tk (tt ! j) = K_INDENT then (stk', pair_up j i m) else (stk, m))
            else (stk, m))"

definition xs_matches :: "string \<Rightarrow> xs_token list \<Rightarrow> nat list" where
  "xs_matches src tt = snd (foldl (xs_match1 src tt) ([], replicate (length tt) 0) [0..<length tt])"

record xs_raw =
  raw_toks :: "xs_token list"
  raw_m :: "nat list"
  raw_src :: string

datatype xs_error = Too_large | Out_of_memory

text \<open>\<open>None\<close>: the loop has not ended.\<close>

definition xs_tokenize :: "(nat \<Rightarrow> bool) \<Rightarrow> xs_lang \<Rightarrow> string \<Rightarrow> (xs_error + xs_raw) option" where
  "xs_tokenize ok g src =
     (if \<not> ok 0 then Some (Inl Out_of_memory)
      else case xs_loop ok g src (length src + 1) xs_start of
             None \<Rightarrow> None
           | Some sc \<Rightarrow>
               let sc = xs_finish ok g src sc
               in if oom sc \<or> \<not> ok (allocs sc) \<or> \<not> ok (allocs sc + 1) then Some (Inl Out_of_memory)
                  else Some (Inr \<lparr>raw_toks = toks sc, raw_m = xs_matches src (toks sc), raw_src = src\<rparr>))"

definition l_tokenize :: "(nat \<Rightarrow> bool) \<Rightarrow> xs_lang \<Rightarrow> string \<Rightarrow> (xs_error + xs_raw) option" where
  "l_tokenize ok g src = (if length src > 0x7ffffff0 then Some (Inl Too_large) else xs_tokenize ok g src)"

section \<open>The token table\<close>

text \<open>The index a method gets, from 0; the integers are those of Lua.\<close>

definition xs_index :: "xs_raw \<Rightarrow> int \<Rightarrow> nat option" where
  "xs_index t i = (if 1 \<le> i \<and> i \<le> int (length (raw_toks t)) then Some (nat (i - 1)) else None)"

definition l_kind :: "xs_raw \<Rightarrow> int \<Rightarrow> xs_kind option" where
  "l_kind t i = map_option (\<lambda>k. tk (raw_toks t ! k)) (xs_index t i)"

definition l_text :: "xs_raw \<Rightarrow> int \<Rightarrow> string" where
  "l_text t i =
     (case xs_index t i of
        None \<Rightarrow> []
      | Some k \<Rightarrow> if te (raw_toks t ! k) < ts (raw_toks t ! k) then [] else tok_text (raw_src t) (raw_toks t ! k))"

definition l_line :: "xs_raw \<Rightarrow> int \<Rightarrow> nat option" where
  "l_line t i = map_option (\<lambda>k. tl (raw_toks t ! k)) (xs_index t i)"

definition l_eline :: "xs_raw \<Rightarrow> int \<Rightarrow> nat option" where
  "l_eline t i = map_option (\<lambda>k. tel (raw_toks t ! k)) (xs_index t i)"

definition l_match :: "xs_raw \<Rightarrow> int \<Rightarrow> nat option" where
  "l_match t i =
     (case xs_index t i of None \<Rightarrow> None | Some k \<Rightarrow> if raw_m t ! k = 0 then None else Some (raw_m t ! k))"

definition l_is :: "xs_raw \<Rightarrow> int \<Rightarrow> string \<Rightarrow> bool" where
  "l_is t i s =
     (case xs_index t i of
        None \<Rightarrow> False
      | Some k \<Rightarrow> tk (raw_toks t ! k) \<noteq> K_STR \<and> tok_text (raw_src t) (raw_toks t ! k) = s)"

definition xs_is_call_paren :: "xs_raw \<Rightarrow> nat \<Rightarrow> bool" where
  "xs_is_call_paren t x \<longleftrightarrow>
     x < length (raw_toks t) \<and> tk (raw_toks t ! x) = K_OP \<and> xs_byte (raw_src t) (ts (raw_toks t ! x)) = CHR ''(''
     \<and> te (raw_toks t ! x) = ts (raw_toks t ! x)"

text \<open>\<open>j - 1\<close> overflows for the least integer: \<open>None\<close>.\<close>

definition l_calls :: "xs_raw \<Rightarrow> int \<Rightarrow> int \<Rightarrow> int list option" where
  "l_calls t i j =
     (let i = (if i < 1 then 1 else i); j = (if j > int (length (raw_toks t)) then int (length (raw_toks t)) else j)
      in if j = - (2 ^ 63) then None
         else Some (filter (\<lambda>x. tk (raw_toks t ! nat (x - 1)) = K_ID \<and> xs_is_call_paren t (nat x)) [i..j - 1]))"

definition l_idents :: "xs_raw \<Rightarrow> int \<Rightarrow> int \<Rightarrow> int list" where
  "l_idents t i j =
     (let i = (if i < 1 then 1 else i); j = (if j > int (length (raw_toks t)) then int (length (raw_toks t)) else j);
          paren = (\<lambda>k. k < length (raw_toks t) \<and> tk (raw_toks t ! k) = K_OP
                       \<and> xs_byte (raw_src t) (ts (raw_toks t ! k)) = CHR ''('')
      in filter (\<lambda>x. tk (raw_toks t ! nat (x - 1)) = K_ID \<and> \<not> paren (nat x)) [i..j])"

declare directive_end.simps [simp del] block_end.simps [simp del] string_end.simps [simp del]
  number_end.simps [simp del] dedents.simps [simp del]

end
