(* ===== verification/XScanInv.thy ===== *)
theory XScanInv
  imports XScanRun
begin

text \<open>
  Where the searches of the tokenizer end: every construct ends inside the source and after its first byte, the
  nested loops for template literals have fuel enough, and a language that was loaded has no empty delimiter or
  operator.
\<close>

section \<open>Positions\<close>

lemma xs_byte_in: "xs_byte src p \<noteq> CHR 0x00 \<Longrightarrow> 1 \<le> p \<and> p \<le> length src"
  by (auto simp: xs_byte_def split: if_splits)

lemma run_of_le: "run_of P src p \<le> length src - (p - 1)"
  unfolding run_of_def by (metis length_drop length_takeWhile_le)

lemma run_of_byte:
  assumes "i < run_of P src p" and "1 \<le> p"
  shows "P (xs_byte src (p + i))" and "p + i \<le> length src"
proof -
  have i: "i < length (drop (p - 1) src)" using assms(1) run_of_le [of P src p] by simp
  have "takeWhile P (drop (p - 1) src) ! i = drop (p - 1) src ! i"
    using assms(1) unfolding run_of_def by (rule takeWhile_nth)
  moreover have "P (takeWhile P (drop (p - 1) src) ! i)"
    using assms(1) unfolding run_of_def by (metis nth_mem set_takeWhileD)
  ultimately show "P (xs_byte src (p + i))" and "p + i \<le> length src"
    using assms(2) i by (auto simp: xs_byte_def)
qed

lemma run_of_stop:
  assumes "1 \<le> p" and "p + run_of P src p \<le> length src"
  shows "\<not> P (xs_byte src (p + run_of P src p))"
proof -
  let ?n = "run_of P src p"
  have n: "?n < length (drop (p - 1) src)" using assms by simp
  then have "\<not> P (drop (p - 1) src ! ?n)" unfolding run_of_def by (rule nth_length_takeWhile)
  with assms n show ?thesis by (simp add: xs_byte_def)
qed

lemma next_nl_bounds:
  assumes "1 \<le> p" and "p \<le> length src + 1"
  shows "p \<le> next_nl src p" and "next_nl src p \<le> length src + 1"
  using assms run_of_le [of "\<lambda>c. c \<noteq> nl_c" src p] by (auto simp: next_nl_def)

lemma next_nl_step:
  assumes "1 \<le> p" and "p \<le> length src" and "xs_byte src p \<noteq> nl_c"
  shows "p < next_nl src p"
  using assms run_of_stop [of p "\<lambda>c. c \<noteq> nl_c" src] by (cases "run_of (\<lambda>c. c \<noteq> nl_c) src p") (auto simp: next_nl_def)

lemma xs_starts_end: "xs_starts src p lit \<Longrightarrow> 1 \<le> p \<and> p + length lit - 1 \<le> length src"
  by (simp add: xs_starts_def)

lemma find_SomeD: "find P xs = Some x \<Longrightarrow> P x \<and> x \<in> set xs"
  by (auto simp: find_Some_iff)

lemma xs_long_open_in: "xs_long_open src p = Some lb \<Longrightarrow> 1 \<le> p \<and> p + 1 + lb \<le> length src"
  using xs_byte_in [of src p] xs_byte_in [of src "p + 1 + lb"]
  by (auto simp: xs_long_open_def Let_def split: if_splits)

lemma xs_long_close_bounds:
  assumes "p + 1 + lb \<le> length src"
  shows "p \<le> xs_long_close src p lb \<and> xs_long_close src p lb \<le> length src"
proof -
  have "q + 1 + lb \<le> length src \<and> p < q" if "find (\<lambda>q. xs_byte src q = CHR '']'' \<and> hits (CHR ''='') src (q + 1) lb
      \<and> xs_byte src (q + 1 + lb) = CHR '']'') [p + lb + 2..<Suc (length src)] = Some q" for q
    using find_SomeD [OF that] xs_byte_in [of src "q + 1 + lb"] by auto
  then show ?thesis using assms by (auto simp: xs_long_close_def split: option.split)
qed

lemma skip_quoted_past: "x > length src \<Longrightarrow> skip_quoted src q x = length src"
  by (simp add: skip_quoted.simps)

lemma skip_quoted_bounds: "x \<le> length src + 1 \<Longrightarrow> x \<le> skip_quoted src q x + 1 \<and> skip_quoted src q x \<le> length src"
proof (induction src q x rule: skip_quoted.induct)
  case (1 src q x)
  show ?case
  proof (cases "x + 2 > length src + 1")
    case True
    then have "skip_quoted src q (x + 2) = length src" by (simp add: skip_quoted_past)
    with 1 True show ?thesis
      by (cases "x = length src") (auto simp: skip_quoted.simps [of src q "length src"] skip_quoted_past Let_def)
  next
    case False
    then have x: "\<not> length src < x" by simp
    have i: "xs_byte src x = bslash_c \<Longrightarrow> x + 2 \<le> skip_quoted src q (x + 2) + 1 \<and> skip_quoted src q (x + 2) \<le> length src"
      "xs_byte src x \<noteq> bslash_c \<Longrightarrow> \<not> (xs_byte src x = q \<or> xs_byte src x = nl_c) \<Longrightarrow>
         x + 1 \<le> skip_quoted src q (x + 1) + 1 \<and> skip_quoted src q (x + 1) \<le> length src"
      using 1(1) [OF x refl] 1(2) [OF x refl] False by auto
    show ?thesis using x i by (auto simp: skip_quoted.simps [of src q x] Let_def)
  qed
qed

lemma xs_skip_quoted_bounds: "p \<le> length src \<Longrightarrow> p \<le> xs_skip_quoted src p q \<and> xs_skip_quoted src p q \<le> length src"
  using skip_quoted_bounds [of "p + 1" src q] by (simp add: xs_skip_quoted_def)

lemma skip_comment_ge: "x < skip_comment src x"
  proof (induction src x rule: skip_comment.induct)
  case (1 src x)
  then show ?case by (force simp: skip_comment.simps [of src x])
qed

text \<open>Fuel for one more than the positions that are left is enough, and the result is no earlier position.\<close>

lemma skip_fuel:
  fixes src :: string
  shows "(\<forall>d x. length src + 2 \<le> n + x \<and> 1 \<le> n \<longrightarrow>
       (\<exists>y. skip_braces n src d x = Some y \<and> y \<le> length src \<and> (x \<le> length src \<longrightarrow> x \<le> y)))
   \<and> (\<forall>x. length src + 2 \<le> n + x \<and> 1 \<le> n \<longrightarrow>
       (\<exists>y. skip_template n src x = Some y \<and> y \<le> length src \<and> (x \<le> length src + 1 \<longrightarrow> x \<le> y + 1)))"
proof (induction n)
  case (Suc n)
  have br: "\<exists>y. skip_braces n src d z = Some y \<and> y \<le> length src \<and> x \<le> y"
    if "x < z" and "x \<le> length src" and "length src + 2 \<le> Suc n + x" for d x z
  proof -
    from Suc.IH that have "\<exists>y. skip_braces n src d z = Some y \<and> y \<le> length src \<and> (z \<le> length src \<longrightarrow> z \<le> y)" by auto
    then obtain y where y: "skip_braces n src d z = Some y" "y \<le> length src" "z \<le> length src \<longrightarrow> z \<le> y" by blast
    have "x \<le> y"
    proof (cases "z \<le> length src")
      case False
      then obtain m where "n = Suc m" using that y(1) by (cases n) auto
      with False y that show ?thesis by simp
    qed (use y that in simp)
    with y show ?thesis by blast
  qed
  have te: "\<exists>y. skip_template n src z = Some y \<and> y \<le> length src \<and> x \<le> y"
    if "x < z" and "x \<le> length src" and "length src + 2 \<le> Suc n + x" for x z
  proof -
    from Suc.IH that
    have "\<exists>y. skip_template n src z = Some y \<and> y \<le> length src \<and> (z \<le> length src + 1 \<longrightarrow> z \<le> y + 1)" by auto
    then obtain y where y: "skip_template n src z = Some y" "y \<le> length src" "z \<le> length src + 1 \<longrightarrow> z \<le> y + 1" by blast
    have "x \<le> y"
    proof (cases "z \<le> length src")
      case False
      then obtain m where "n = Suc m" using that y(1) by (cases n) auto
      with False y that show ?thesis by simp
    qed (use y that in simp)
    with y show ?thesis by blast
  qed
  have "\<exists>y. skip_braces (Suc n) src d x = Some y \<and> y \<le> length src \<and> (x \<le> length src \<longrightarrow> x \<le> y)"
    if x: "length src + 2 \<le> Suc n + x" for d x
  proof (cases "x > length src")
    case False
    then have le: "x \<le> length src" by simp
    obtain y where y: "skip_template n src (x + 1) = Some y" "y \<le> length src" "x \<le> y" using te [of x "x + 1"] x le by auto
    have b1: "\<exists>v. skip_braces n src d' (x + 1) = Some v \<and> v \<le> length src \<and> x \<le> v" for d' by (rule br) (use x le in auto)
    have b2: "\<exists>v. skip_braces n src d (y + 1) = Some v \<and> v \<le> length src \<and> x \<le> v" by (rule br) (use x le y in auto)
    have b3: "\<exists>v. skip_braces n src d (xs_skip_quoted src x q + 1) = Some v \<and> v \<le> length src \<and> x \<le> v" for q
      by (rule br) (use x le xs_skip_quoted_bounds [of x src q] in auto)
    have b4: "\<exists>v. skip_braces n src d (skip_comment src (x + 2) + 1) = Some v \<and> v \<le> length src \<and> x \<le> v"
      by (rule br) (use x le skip_comment_ge [of "x + 2" src] in auto)
    have b5: "\<exists>v. skip_braces n src d (next_nl src x + 1) = Some v \<and> v \<le> length src \<and> x \<le> v"
      by (rule br) (use x le in \<open>auto simp: next_nl_def\<close>)
    show ?thesis using le y(1) b1 [of "d + 1"] b1 [of "d - 1"] b1 [of d] b2 b3 [of "xs_byte src x"] b4 b5
      by (simp add: Let_def)
  qed simp
  moreover have "\<exists>y. skip_template (Suc n) src x = Some y \<and> y \<le> length src \<and> (x \<le> length src + 1 \<longrightarrow> x \<le> y + 1)"
    if x: "length src + 2 \<le> Suc n + x" for x
  proof (cases "x > length src")
    case False
    then have le: "x \<le> length src" by simp
    obtain y where y: "skip_braces n src 0 (x + 1) = Some y" "y \<le> length src" "x \<le> y" using br [of x "x + 1"] x le by auto
    have t1: "\<exists>v. skip_template n src z = Some v \<and> v \<le> length src \<and> (x \<le> length src + 1 \<longrightarrow> x \<le> v + 1)"
      if z: "x < z" for z
      using te [OF z le x] by (meson le_add1 order_trans)
    show ?thesis using le y(1) t1 [of "x + 2"] t1 [of "x + 1"] t1 [of "y + 1"] y(3)
      by (simp add: Let_def)
  qed auto
  ultimately show ?case by blast
qed simp

lemma xs_skip_template_bounds:
  assumes "1 \<le> p" and "p \<le> length src"
  shows "p \<le> xs_skip_template src p \<and> xs_skip_template src p \<le> length src"
  using skip_fuel [of src "length src + 2"] assms unfolding xs_skip_template_def by fastforce

lemma scan_regex_bounds: "scan_regex idc src c x = Some y \<Longrightarrow> 1 \<le> x \<Longrightarrow> x \<le> y \<and> y \<le> length src"
proof (induction idc src c x rule: scan_regex.induct)
  case (1 idc src c x)
  have "x + run_of idc src (x + 1) \<le> length src" if "x \<le> length src"
    using run_of_le [of idc src "x + 1"] that by simp
  with 1 show ?case by (auto simp: scan_regex.simps [of idc src c x] Let_def split: if_splits)
qed

lemma xs_scan_regex_bounds: "xs_scan_regex g src p = Some y \<Longrightarrow> p \<le> y \<and> y \<le> length src"
  unfolding xs_scan_regex_def using scan_regex_bounds [of "id_char g" src False "p + 1" y] by simp

lemma xs_scan_lifetime_bounds:
  "xs_scan_lifetime g src p = Some y \<Longrightarrow> p \<le> length src \<Longrightarrow> p \<le> y \<and> y \<le> length src"
  using run_of_le [of "id_char g" src "p + 1"] by (auto simp: xs_scan_lifetime_def Let_def split: if_splits)

lemma hits_end: "hits c src q n \<Longrightarrow> q + n \<le> length src + 1 \<or> n = 0"
  unfolding hits_def using length_takeWhile_le [of "\<lambda>b. b = c" "take n (drop (q - 1) src)"] by auto

lemma xs_scan_raw_string_bounds:
  assumes "xs_scan_raw_string g src p = Some y" and "1 \<le> p"
  shows "p \<le> y \<and> y \<le> length src"
  using assms xs_byte_in [of src "p + 1 + run_of (\<lambda>c. c = CHR ''#'') src (p + 1)"]
    xs_byte_in [of src "p + 2 + run_of (\<lambda>c. c = CHR ''#'') src (p + 2)"]
  by (auto simp: xs_scan_raw_string_def Let_def split: if_splits option.splits dest!: find_SomeD hits_end)

lemma block_end_bounds:
  "p \<le> length src + 1 \<Longrightarrow> 1 \<le> p \<Longrightarrow> d_close d \<noteq> [] \<Longrightarrow> p - 1 \<le> block_end ne src d k p \<and> block_end ne src d k p \<le> length src"
proof (induction ne src d k p rule: block_end.induct)
  case (1 ne src d k p)
  show ?case
  proof (cases "p + length (d_close d) - 1 > length src \<or> p > length src + 1")
    case True
    with 1(4) show ?thesis by (simp add: block_end.simps [of ne src d k p])
  next
    case False
    have o: "p + (length (d_open d) - 1) + 1 \<le> length src + 1" if "xs_starts src p (d_open d)" 
      using xs_starts_end [OF that] False 1(6) by (cases "d_open d"; cases "d_close d") auto
    have c: "p + (length (d_close d) - 1) + 1 \<le> length src + 1" if "xs_starts src p (d_close d)"
      using xs_starts_end [OF that] 1(6) by (cases "d_close d") auto
    have p: "p + 1 \<le> length src + 1" using False 1(6) by (cases "d_close d") auto
    show ?thesis using False 1(1-3) 1(4-6) o c p
      by (auto simp: block_end.simps [of ne src d k p])
  qed
qed

lemma string_end_past: "p > length src \<Longrightarrow> string_end src d p = length src"
  by (simp add: string_end.simps)

lemma string_end_bounds:
  "1 \<le> p \<Longrightarrow> p \<le> length src + 1 \<Longrightarrow> d_close d \<noteq> [] \<Longrightarrow>
     p - 1 \<le> string_end src d p \<and> string_end src d p \<le> length src"
proof (induction src d p rule: string_end.induct)
  case (1 src d p)
  show ?case
  proof (cases "p > length src")
    case False
    let ?b = "xs_byte src p"
    have c: "p - 1 \<le> p + length (d_close d) - 1 \<and> p + length (d_close d) - 1 \<le> length src" if "xs_starts src p (d_close d)"
      using xs_starts_end [OF that] by simp
    have e: "p - 1 \<le> string_end src d (p + 2) \<and> string_end src d (p + 2) \<le> length src" if "d_esc d = Some ?b"
    proof (cases "p = length src")
      case False
      have "p \<le> string_end src d (p + 2) \<and> string_end src d (p + 2) \<le> length src"
        using 1(1) [OF _ refl that] 1(3-) False \<open>\<not> p > length src\<close> by simp
      then show ?thesis by linarith
    qed (simp add: string_end_past)
    have n: "p - 1 \<le> string_end src d (p + 1) \<and> string_end src d (p + 1) \<le> length src"
      if "d_esc d \<noteq> Some ?b" "\<not> xs_starts src p (d_close d)" "\<not> (?b = nl_c \<and> \<not> d_multiline d)"
    proof -
      have "p \<le> string_end src d (p + 1) \<and> string_end src d (p + 1) \<le> length src"
        using 1(2) [OF False refl that] 1(3-) False by simp
      then show ?thesis by linarith
    qed
    show ?thesis using False c e n by (auto simp: string_end.simps [of src d p] Let_def)
  qed (use 1(4) in \<open>simp add: string_end_past\<close>)
qed

lemma number_end_bounds: "p \<le> length src + 1 \<Longrightarrow> p \<le> number_end idc src p \<and> number_end idc src p \<le> length src + 1"
proof (induction idc src p rule: number_end.induct)
  case (1 idc src p)
  then show ?case by (auto simp: number_end.simps [of idc src p])
qed

section \<open>Loaded languages\<close>

definition lang_ok :: "xs_lang \<Rightarrow> bool" where
  "lang_ok g \<longleftrightarrow>
     (\<forall>c. \<forall>s \<in> set (ops g c). s \<noteq> [] \<and> hd s = c) \<and> [] \<notin> set (line_comments g)
     \<and> (\<forall>d \<in> set (block_comments g) \<union> set (str_delims g). d_open d \<noteq> [] \<and> d_close d \<noteq> [])"

lemma xs_read_str_ne [simp]: "xs_read_str v \<noteq> Some []"
  by (simp add: xs_read_str_def split: option.splits)

lemma xs_read_str_Some: "xs_read_str v = Some s \<Longrightarrow> v = Some s \<and> s \<noteq> []"
  by (auto simp: xs_read_str_def split: option.splits if_splits)

lemma set_op_insert: "set (op_insert xs s) = insert s (set xs)"
  by (auto simp: op_insert_def Let_def dest: in_set_takeD in_set_dropD)
     (metis append_take_drop_id Un_iff set_append)

lemma op_add_ok:
  assumes "\<forall>c. \<forall>s \<in> set (t c). s \<noteq> [] \<and> hd s = c"
  shows "\<forall>c. \<forall>s \<in> set (op_add t v c). s \<noteq> [] \<and> hd s = c"
  using assms by (auto simp: op_add_def set_op_insert split: option.splits dest: xs_read_str_Some)

lemma ops_ok: "\<forall>c. \<forall>s \<in> set (foldl op_add (\<lambda>_. []) vs c). s \<noteq> [] \<and> hd s = c"
  by (rule foldl_inv [where P = "\<lambda>t. \<forall>c. \<forall>s \<in> set (t c). s \<noteq> [] \<and> hd s = c"]) (simp, rule op_add_ok)

lemma set_take_filter: "x \<in> set (take n (List.map_filter f xs)) \<Longrightarrow> \<exists>v. f v = Some x"
  by (force simp: List.map_filter_def dest!: in_set_takeD)

lemma read_block_ok: "read_block v = Some d \<Longrightarrow> d_open d \<noteq> [] \<and> d_close d \<noteq> []"
  by (auto simp: read_block_def split: option.splits)

lemma read_string_ok: "read_string v = Some d \<Longrightarrow> d_open d \<noteq> [] \<and> d_close d \<noteq> []"
  by (auto simp: read_string_def split: option.splits)

lemma lang_load_ok: "lang_ok (xs_lang_load cf)"
  unfolding lang_ok_def xs_lang_load_def using ops_ok [of "cf_ops cf"]
  by (auto dest!: set_take_filter dest: xs_read_str_Some read_block_ok read_string_ok)

lemma op_width_bounds:
  assumes "lang_ok g" and "1 \<le> p" and "p \<le> length src"
  shows "1 \<le> op_width g src p \<and> p + op_width g src p - 1 \<le> length src"
proof (cases "find (xs_starts src p) (ops g (xs_byte src p))")
  case (Some s)
  then have "xs_starts src p s" "s \<noteq> []" using assms(1) by (auto simp: lang_ok_def dest!: find_SomeD)
  with Some xs_starts_end [of src p s] show ?thesis by (cases s) (auto simp: op_width_def)
qed (use assms in \<open>simp add: op_width_def\<close>)

lemma directive_end_bounds:
  assumes "1 \<le> p" and "p \<le> length src + 1" and "directive_end src p l = (q, l')"
  shows "p \<le> q \<and> q \<le> length src + 1 \<and> (p \<le> length src \<and> xs_byte src p \<noteq> nl_c \<longrightarrow> p < q)"
  using assms
proof (induction src p l rule: directive_end.induct)
  case (1 src p l)
  note b = next_nl_bounds [OF 1(2,3)]
  let ?q = "if xs_byte src (next_nl src p - 1) = cr_c then next_nl src p - 2 else next_nl src p - 1"
  show ?case
  proof (cases "xs_byte src ?q = bslash_c \<and> next_nl src p \<le> length src")
    case True
    with 1(4) have "directive_end src (next_nl src p + 1) (l + 1) = (q, l')"
      by (simp add: directive_end.simps [of src p l] Let_def)
    with 1(1) [OF refl refl True] True b show ?thesis by simp
  next
    case False
    with 1(4) have "q = next_nl src p" by (auto simp: directive_end.simps [of src p l] Let_def split: if_splits)
    with b next_nl_step [OF 1(2)] show ?thesis by auto
  qed
qed

end
