(* ===== verification/XScanTurn.thy ===== *)
theory XScanTurn
  imports XScanInv
begin

text \<open>
  One turn of the tokenizer: it moves forward inside the source, adds at most one token for the bytes it passes,
  after the indentation tokens that stand before them, and keeps count of the lines.
\<close>

section \<open>Frames\<close>

lemma xs_push_frame [simp]:
  "line (xs_push ok k a b l1 l2 sc) = line sc" "depth (xs_push ok k a b l1 l2 sc) = depth sc"
  "skip (xs_push ok k a b l1 l2 sc) = skip sc" "pps (xs_push ok k a b l1 l2 sc) = pps sc"
  "parens (xs_push ok k a b l1 l2 sc) = parens sc" "pos (xs_push ok k a b l1 l2 sc) = pos sc"
  "bol (xs_push ok k a b l1 l2 sc) = bol sc" "ind (xs_push ok k a b l1 l2 sc) = ind sc"
  "ind_cap (xs_push ok k a b l1 l2 sc) = ind_cap sc"
  by (simp_all add: xs_push_def xs_grow_def)

lemma xs_push_oom [simp]: "oom sc \<Longrightarrow> xs_push ok k a b l1 l2 sc = sc"
  by (simp add: xs_push_def)

lemma xs_push_skip [simp]: "skip sc \<Longrightarrow> xs_push ok k a b l1 l2 sc = sc"
  by (simp add: xs_push_def)

lemma xs_push_toks:
  "toks (xs_push ok k a b l1 l2 sc) = toks sc
   \<or> toks (xs_push ok k a b l1 l2 sc) = toks sc @ [\<lparr>tk = k, ts = a, te = b, tl = l1, tel = l2\<rparr>]"
  by (simp add: xs_push_def xs_grow_def)

lemma xs_push_done:
  "\<not> skip sc \<Longrightarrow> \<not> oom (xs_push ok k a b l1 l2 sc) \<Longrightarrow>
     toks (xs_push ok k a b l1 l2 sc) = toks sc @ [\<lparr>tk = k, ts = a, te = b, tl = l1, tel = l2\<rparr>]"
  by (auto simp: xs_push_def xs_grow_def split: if_splits prod.splits)

lemma xs_track_paren_frame [simp]:
  "line (xs_track_paren ok src c sc) = line sc" "depth (xs_track_paren ok src c sc) = depth sc"
  "skip (xs_track_paren ok src c sc) = skip sc" "pps (xs_track_paren ok src c sc) = pps sc"
  "toks (xs_track_paren ok src c sc) = toks sc" "pos (xs_track_paren ok src c sc) = pos sc"
  "bol (xs_track_paren ok src c sc) = bol sc" "ind (xs_track_paren ok src c sc) = ind sc"
  by (simp_all add: xs_track_paren_def Let_def split: list.split)

lemma xs_directive_frame [simp]:
  "line (xs_directive ok g t sc) = line sc" "depth (xs_directive ok g t sc) = depth sc"
  "toks (xs_directive ok g t sc) = toks sc" "pos (xs_directive ok g t sc) = pos sc"
  "bol (xs_directive ok g t sc) = bol sc" "ind (xs_directive ok g t sc) = ind sc"
  by (simp_all add: xs_directive_def pp_open_def pp_else_def pp_close_def Let_def split: list.split)

section \<open>Counting lines\<close>

lemma upt_split: "a \<le> b \<Longrightarrow> b \<le> c \<Longrightarrow> [a..<c] = [a..<b] @ [b..<c]"
  by (metis le_Suc_ex upt_add_eq_append)

lemma xs_count_nl_eq:
  "1 \<le> a \<Longrightarrow> xs_count_nl src a b = length (filter (\<lambda>p. xs_byte src p = nl_c) [a..<Suc b])"
proof -
  assume a: "1 \<le> a"
  have "filter (\<lambda>p. src ! (p - 1) = nl_c) [a..<Suc (min b (length src))]
      = filter (\<lambda>p. xs_byte src p = nl_c) [a..<Suc (min b (length src))]"
    by (rule filter_cong) (use a in \<open>auto simp: xs_byte_def\<close>)
  also have "length \<dots> = length (filter (\<lambda>p. xs_byte src p = nl_c) [a..<Suc b])"
  proof (cases "b \<le> length src \<or> a > Suc (length src)")
    case True
    then show ?thesis by (auto simp: min_def xs_byte_def filter_empty_conv)
  next
    case False
    then have "[a..<Suc b] = [a..<Suc (length src)] @ [Suc (length src)..<Suc b]" and "min b (length src) = length src"
      using upt_split [of a "Suc (length src)" "Suc b"] by auto
    moreover have "filter (\<lambda>p. xs_byte src p = nl_c) [Suc (length src)..<Suc b] = []"
      by (auto simp: xs_byte_def filter_empty_conv)
    ultimately show ?thesis by simp
  qed
  finally show ?thesis by (simp add: xs_count_nl_def)
qed

lemma count_nl_split:
  assumes "1 \<le> a" and "a \<le> Suc b" and "b \<le> c"
  shows "xs_count_nl src a c = xs_count_nl src a b + xs_count_nl src (Suc b) c"
proof -
  have "[a..<Suc c] = [a..<Suc b] @ [Suc b..<Suc c]"
    using assms by (intro upt_split) auto
  then show ?thesis using assms by (simp add: xs_count_nl_eq del: upt_Suc)
qed

lemma count_nl_none:
  assumes "1 \<le> a" and "\<And>p. a \<le> p \<Longrightarrow> p \<le> b \<Longrightarrow> xs_byte src p \<noteq> nl_c"
  shows "xs_count_nl src a b = 0"
  using assms by (simp add: xs_count_nl_eq filter_empty_conv del: upt_Suc)

lemma count_nl_one: "1 \<le> p \<Longrightarrow> xs_byte src p = nl_c \<Longrightarrow> xs_count_nl src p p = 1"
  by (simp add: xs_count_nl_eq)

lemma no_nl_run:
  assumes "1 \<le> p" and "\<not> P nl_c" and "p \<le> q" and "q < p + run_of P src p"
  shows "xs_byte src q \<noteq> nl_c"
proof -
  have "q - p < run_of P src p" using assms by linarith
  from run_of_byte(1) [OF this assms(1)] assms(2,3) show ?thesis by auto
qed

lemma no_nl_before: "1 \<le> p \<Longrightarrow> p \<le> q \<Longrightarrow> q < next_nl src p \<Longrightarrow> xs_byte src q \<noteq> nl_c"
  using no_nl_run [of p "\<lambda>c. c \<noteq> nl_c" q src] by (simp add: next_nl_def)

lemma next_nl_is: "1 \<le> p \<Longrightarrow> next_nl src p \<le> length src \<Longrightarrow> xs_byte src (next_nl src p) = nl_c"
  using run_of_stop [of p "\<lambda>c. c \<noteq> nl_c" src] by (simp add: next_nl_def)

lemma directive_end_lines:
  assumes "1 \<le> p" and "p \<le> length src + 1" and "directive_end src p l = (q, l')"
  shows "l' = l + xs_count_nl src p (q - 1)"
  using assms
proof (induction src p l rule: directive_end.induct)
  case (1 src p l)
  let ?n = "next_nl src p"
  note b = next_nl_bounds [OF 1(2,3)]
  let ?q = "if xs_byte src (?n - 1) = cr_c then ?n - 2 else ?n - 1"
  have z: "xs_count_nl src p (?n - 1) = 0"
    by (rule count_nl_none) (use 1(2) no_nl_before [of p _ src] b in auto)
  show ?case
  proof (cases "xs_byte src ?q = bslash_c \<and> ?n \<le> length src")
    case True
    with 1(4) have d: "directive_end src (?n + 1) (l + 1) = (q, l')"
      by (simp add: directive_end.simps [of src p l] Let_def)
    have q: "?n + 1 \<le> q" using directive_end_bounds [OF _ _ d] True by simp
    have "xs_count_nl src p (q - 1) = xs_count_nl src p (?n - 1) + xs_count_nl src ?n (q - 1)"
      using count_nl_split [of p "?n - 1" "q - 1" src] 1(2) b q by simp
    also have "xs_count_nl src ?n (q - 1) = xs_count_nl src ?n ?n + xs_count_nl src (Suc ?n) (q - 1)"
      using count_nl_split [of ?n ?n "q - 1" src] 1(2) b q by simp
    also have "xs_count_nl src ?n ?n = 1"
      by (rule count_nl_one) (use 1(2) b True next_nl_is [of p src] in auto)
    finally show ?thesis using 1(1) [OF refl refl True] True b d z by simp
  next
    case False
    with 1(4) have "q = ?n \<and> l' = l" by (auto simp: directive_end.simps [of src p l] Let_def split: if_splits)
    with z show ?thesis by simp
  qed
qed

text \<open>The languages and sources for which every newline is counted.\<close>

definition lines_ok :: "xs_lang \<Rightarrow> string \<Rightarrow> bool" where
  "lines_ok g src \<longleftrightarrow>
     \<not> id_char g nl_c \<and> (\<forall>c. \<forall>s \<in> set (ops g c). nl_c \<notin> set s)
     \<and> (regex_literals g \<longrightarrow> (\<forall>p. xs_byte src p = bslash_c \<longrightarrow> xs_byte src (p + 1) \<noteq> nl_c))"

lemma scan_regex_no_nl:
  assumes "\<not> idc nl_c" and "\<forall>p. xs_byte src p = bslash_c \<longrightarrow> xs_byte src (p + 1) \<noteq> nl_c"
    and "scan_regex idc src c x = Some y" and "1 \<le> x" and "x \<le> q" and "q \<le> y"
  shows "xs_byte src q \<noteq> nl_c"
  using assms
proof (induction idc src c x rule: scan_regex.induct)
  case (1 idc src c x)
  let ?b = "xs_byte src x"
  have x: "\<not> length src < x" using 1 by (auto simp: scan_regex.simps [of idc src c x])
  have b: "?b \<noteq> nl_c"
    using 1(7) x by (auto simp: scan_regex.simps [of idc src c x] Let_def split: if_splits)
  have r: "xs_byte src q \<noteq> nl_c" if "y = x + run_of idc src (x + 1)" "q > x"
    using no_nl_run [of "x + 1" idc q src] 1(5,8,10) that by auto
  have s: "xs_byte src q \<noteq> nl_c" if "?b = bslash_c" "q > x"
  proof (cases "q = x + 1")
    case False
    have "scan_regex idc src c (x + 2) = Some y" using 1(7) x that by (simp add: scan_regex.simps [of idc src c x])
    then show ?thesis using 1(1) [OF x refl that(1) 1(5,6)] False that 1(8-) by simp
  qed (use 1(6) that in auto)
  show ?case
  proof (cases "q = x \<or> ?b = bslash_c")
    case False
    then have q: "?b \<noteq> bslash_c" "x + 1 \<le> q" using 1(9) by auto
    consider "scan_regex idc src (?b \<noteq> CHR '']'') (x + 1) = Some y" "c" | "scan_regex idc src True (x + 1) = Some y" "\<not> c" "?b = CHR ''[''"
      | "y = x + run_of idc src (x + 1)" | "scan_regex idc src False (x + 1) = Some y" "\<not> c" "?b \<noteq> CHR ''[''" "?b \<noteq> CHR ''/''"
      using 1(7) x q b by (auto simp: scan_regex.simps [of idc src c x] Let_def split: if_splits)
    then show ?thesis
    proof cases
      case 1
      then show ?thesis using "1.IH"(2) [OF x refl q(1) b _ "1.prems"(1,2)] q "1.prems" by simp
    next
      case 2
      then show ?thesis using "1.IH"(3) [OF x refl q(1) b _ _ "1.prems"(1,2)] q "1.prems" by simp
    next
      case 3
      then show ?thesis using r q by simp
    next
      case 4
      then show ?thesis using "1.IH"(4) [OF x refl q(1) b _ _ _ "1.prems"(1,2)] q "1.prems" by simp
    qed
  qed (use b s 1(9) in \<open>cases "q = x"; auto\<close>)
qed

lemma number_end_no_nl:
  assumes "\<not> idc nl_c" and "p \<le> q" and "q < number_end idc src p"
  shows "xs_byte src q \<noteq> nl_c"
  using assms
proof (induction idc src p rule: number_end.induct)
  case (1 idc src p)
  show ?case
  proof (cases "p \<le> length src \<and> (idc (xs_byte src p) \<or> xs_byte src p \<in> {CHR ''.'', squote_c} \<or> exp_sign src p)")
    case True
    with 1 show ?thesis by (cases "q = p") (auto simp: number_end.simps [of idc src p] exp_sign_def)
  next
    case False
    with 1(4) have "number_end idc src p = p" by (subst number_end.simps) auto
    with 1 show ?thesis by simp
  qed
qed

lemma op_no_nl:
  assumes "lines_ok g src" and "1 \<le> p" and "xs_byte src p \<noteq> nl_c" and "p \<le> q" and "q < p + op_width g src p"
  shows "xs_byte src q \<noteq> nl_c"
proof (cases "find (xs_starts src p) (ops g (xs_byte src p))")
  case None
  then have "q = p" using assms by (simp add: op_width_def)
  with assms show ?thesis by simp
next
  case (Some s)
  then have s: "xs_starts src p s" "s \<in> set (ops g (xs_byte src p))" "op_width g src p = length s"
    by (auto simp: op_width_def dest!: find_SomeD)
  have i: "q - p < length s" using assms s by linarith
  have "s ! (q - p) = src ! (q - 1)"
  proof -
    have "s = take (length s) (drop (p - 1) src)" using s(1) by (simp add: xs_starts_def)
    then have "s ! (q - p) = drop (p - 1) src ! (q - p)" using i by (metis nth_take)
    also have "\<dots> = src ! (q - 1)" using xs_starts_end [OF s(1)] assms i by simp
    finally show ?thesis .
  qed
  moreover have "s ! (q - p) \<in> set s" using i by (rule nth_mem)
  then have "s ! (q - p) \<noteq> nl_c" using s(2) assms(1) unfolding lines_ok_def by metis
  ultimately show ?thesis by (simp add: xs_byte_def)
qed

section \<open>The parts\<close>

text \<open>What every part does: a step forward with at most one token for exactly the bytes passed.\<close>

definition tok_for :: "xs_scan \<Rightarrow> xs_scan \<Rightarrow> xs_token \<Rightarrow> bool" where
  "tok_for sc sc' t \<longleftrightarrow>
     ts t = pos sc \<and> te t + 1 = pos sc' \<and> tk t \<notin> {K_INDENT, K_DEDENT} \<and> tl t = line sc
     \<and> tel t = (if tk t = K_NL then line sc else line sc')"

definition part_spec :: "xs_lang \<Rightarrow> string \<Rightarrow> xs_scan \<Rightarrow> xs_scan \<Rightarrow> bool" where
  "part_spec g src sc sc' \<longleftrightarrow>
     pos sc < pos sc' \<and> pos sc' \<le> length src + 1 \<and> ind sc' = ind sc
     \<and> (lines_ok g src \<longrightarrow> line sc' = line sc + xs_count_nl src (pos sc) (pos sc' - 1))
     \<and> (toks sc' = toks sc \<or> (\<exists>t. toks sc' = toks sc @ [t] \<and> tok_for sc sc' t))"

definition at_token :: "string \<Rightarrow> xs_scan \<Rightarrow> bool" where
  "at_token src sc \<longleftrightarrow> 1 \<le> pos sc \<and> pos sc \<le> length src \<and> xs_byte src (pos sc) \<noteq> nl_c"

lemma drop_lines_spec:
  assumes "pos sc \<le> stop" and "stop \<le> length src"
  shows "part_spec g src sc (drop_lines src stop sc)"
  using assms by (simp add: part_spec_def drop_lines_def)

lemma take_lines_spec:
  assumes "pos sc \<le> stop" and "stop \<le> length src"
  shows "part_spec g src sc (take_lines ok src stop sc)"
  using assms xs_push_toks [of ok K_STR "pos sc" stop "line sc" "line sc + xs_count_nl src (pos sc) stop"
      "sc\<lparr>line := line sc + xs_count_nl src (pos sc) stop\<rparr>"]
  by (auto simp: part_spec_def take_lines_def tok_for_def Let_def)

lemma take_word_spec:
  assumes "pos sc \<le> stop" and "stop \<le> length src" and "1 \<le> pos sc" and "k \<notin> {K_INDENT, K_DEDENT, K_NL}"
    and "\<And>q. lines_ok g src \<Longrightarrow> pos sc \<le> q \<Longrightarrow> q \<le> stop \<Longrightarrow> xs_byte src q \<noteq> nl_c"
  shows "part_spec g src sc (take_word ok k stop sc)"
proof -
  have "lines_ok g src \<Longrightarrow> xs_count_nl src (pos sc) stop = 0"
    by (rule count_nl_none) (use assms in auto)
  then show ?thesis using assms(1,2,4) xs_push_toks [of ok k "pos sc" stop "line sc" "line sc" sc]
    by (auto simp: part_spec_def take_word_def tok_for_def)
qed

lemma part_directive_spec:
  assumes "at_token src sc" and "part_directive ok g src sc = Some sc'"
  shows "part_spec g src sc sc'"
proof -
  obtain p l where d: "directive_end src (pos sc) 0 = (p, l)" by force
  have p: "pos sc < p" "p \<le> length src + 1"
    using directive_end_bounds [OF _ _ d] assms(1) by (auto simp: at_token_def)
  have l: "l = xs_count_nl src (pos sc) (p - 1)"
    using directive_end_lines [OF _ _ d] assms(1) by (auto simp: at_token_def)
  define a where "a = xs_directive ok g (take (p - pos sc) (drop (pos sc - 1) src)) (sc\<lparr>line := line sc + l\<rparr>)"
  have a: "toks a = toks sc" "pos a = pos sc" "line a = line sc + l" "ind a = ind sc" by (simp_all add: a_def)
  define b where "b = xs_push ok K_DIR (pos a) (p - 1) (line sc) (line a) (a\<lparr>skip := False\<rparr>)"
  have b: "toks b = toks sc \<or> toks b = toks sc @ [\<lparr>tk = K_DIR, ts = pos sc, te = p - 1, tl = line sc, tel = line sc + l\<rparr>]"
    "line b = line sc + l" "ind b = ind sc"
    unfolding b_def using xs_push_toks [of ok K_DIR "pos a" "p - 1" "line sc" "line a" "a\<lparr>skip := False\<rparr>"] by (simp_all add: a)
  have "sc' = (if skip sc \<and> skip a then a else b\<lparr>skip := skip a\<rparr>)\<lparr>pos := p\<rparr>"
    using assms(2) d unfolding part_directive_def b_def a_def by (auto simp: Let_def split: if_splits)
  then show ?thesis using p l a b by (cases "skip sc \<and> skip a") (auto simp: part_spec_def tok_for_def)
qed

lemma part_line_comment_spec:
  assumes "at_token src sc" and "lang_ok g" and "part_line_comment g src sc = Some sc'"
  shows "part_spec g src sc sc'"
proof -
  obtain lit where f: "find (xs_starts src (pos sc)) (line_comments g) = Some lit"
    using assms(3) by (auto simp: part_line_comment_def split: option.splits)
  then have lit: "xs_starts src (pos sc) lit" by (auto dest: find_SomeD)
  note p = assms(1) [unfolded at_token_def]
  show ?thesis
  proof (cases "if long_brackets g then xs_long_open src (pos sc + length lit) else None")
    case None
    then have sc': "sc' = sc\<lparr>pos := next_nl src (pos sc)\<rparr>"
      using assms(3) f by (simp add: part_line_comment_def Let_def)
    have "xs_count_nl src (pos sc) (next_nl src (pos sc) - 1) = 0"
      by (rule count_nl_none) (use p no_nl_before [of "pos sc" _ src] next_nl_step [of "pos sc" src] in auto)
    with sc' p next_nl_step [of "pos sc" src] next_nl_bounds [of "pos sc" src] show ?thesis
      by (simp add: part_spec_def)
  next
    case (Some lb)
    then have "sc' = drop_lines src (xs_long_close src (pos sc + length lit) lb) sc"
      using assms(3) f by (simp add: part_line_comment_def Let_def)
    moreover have "pos sc + length lit + 1 + lb \<le> length src"
      using Some xs_long_open_in [of src "pos sc + length lit" lb] by (auto split: if_splits)
    ultimately show ?thesis using xs_long_close_bounds [of "pos sc + length lit" lb src] by (auto intro: drop_lines_spec)
  qed
qed

lemma part_block_comment_spec:
  assumes "at_token src sc" and "lang_ok g" and "part_block_comment g src sc = Some sc'"
  shows "part_spec g src sc sc'"
proof -
  obtain d where f: "find (\<lambda>d. xs_starts src (pos sc) (d_open d)) (block_comments g) = Some d"
    and sc': "sc' = drop_lines src (block_end (nested_comments g) src d 1 (pos sc + length (d_open d))) sc"
    using assms(3) by (auto simp: part_block_comment_def split: option.splits)
  have d: "xs_starts src (pos sc) (d_open d)" "d_open d \<noteq> []" "d_close d \<noteq> []"
    using find_SomeD [OF f] assms(2) by (auto simp: lang_ok_def)
  then have "pos sc + length (d_open d) \<le> length src + 1 \<and> pos sc \<le> pos sc + length (d_open d) - 1"
    using xs_starts_end [OF d(1)] by (cases "d_open d") auto
  then show ?thesis
    using block_end_bounds [of "pos sc + length (d_open d)" src d "nested_comments g" 1] d(3) assms(1)
    unfolding sc' by (intro drop_lines_spec) (auto simp: at_token_def)
qed

lemma part_template_spec:
  assumes "at_token src sc" and "part_template ok g src sc = Some sc'"
  shows "part_spec g src sc sc'"
  using assms xs_skip_template_bounds [of "pos sc" src]
  by (auto simp: part_template_def at_token_def split: if_splits intro!: take_lines_spec)

lemma part_regex_spec:
  assumes "at_token src sc" and "part_regex ok g src sc = Some sc'"
  shows "part_spec g src sc sc'"
proof -
  obtain stop where r: "regex_literals g" "xs_scan_regex g src (pos sc) = Some stop" "sc' = take_word ok K_STR stop sc"
    using assms(2) by (auto simp: part_regex_def split: if_splits)
  have "xs_byte src q \<noteq> nl_c" if "lines_ok g src" "pos sc \<le> q" "q \<le> stop" for q
  proof (cases "q = pos sc")
    case False
    then show ?thesis
      using scan_regex_no_nl [of "id_char g" src False "pos sc + 1" stop q] that r(1,2)
      by (auto simp: lines_ok_def xs_scan_regex_def)
  qed (use assms in \<open>simp add: at_token_def\<close>)
  with r xs_scan_regex_bounds [OF r(2)] assms(1) show ?thesis
    by (auto simp: at_token_def intro!: take_word_spec)
qed

lemma part_lifetime_spec:
  assumes "at_token src sc" and "part_lifetime ok g src sc = Some sc'"
  shows "part_spec g src sc sc'"
proof -
  obtain stop where r: "xs_scan_lifetime g src (pos sc) = Some stop" "sc' = take_word ok K_ID stop sc"
    using assms(2) by (auto simp: part_lifetime_def split: if_splits)
  then have stop: "stop = pos sc + run_of (id_char g) src (pos sc + 1)"
    by (auto simp: xs_scan_lifetime_def Let_def split: if_splits)
  have "xs_byte src q \<noteq> nl_c" if "lines_ok g src" "pos sc \<le> q" "q \<le> stop" for q
    using that no_nl_run [of "pos sc + 1" "id_char g" q src] assms(1) stop
    by (cases "q = pos sc") (auto simp: at_token_def lines_ok_def)
  with r xs_scan_lifetime_bounds [OF r(1)] assms(1) show ?thesis
    by (auto simp: at_token_def intro!: take_word_spec)
qed

lemma part_raw_string_spec:
  assumes "at_token src sc" and "part_raw_string ok g src sc = Some sc'"
  shows "part_spec g src sc sc'"
  using assms xs_scan_raw_string_bounds [of g src "pos sc"]
  by (fastforce simp: part_raw_string_def at_token_def split: if_splits intro!: take_lines_spec)

lemma part_long_bracket_spec:
  assumes "at_token src sc" and "part_long_bracket ok g src sc = Some sc'"
  shows "part_spec g src sc sc'"
  using assms xs_long_close_bounds [of "pos sc" _ src] xs_long_open_in [of src "pos sc"]
  by (fastforce simp: part_long_bracket_def split: if_splits intro!: take_lines_spec)

lemma part_string_spec:
  assumes "at_token src sc" and "lang_ok g" and "part_string ok g src sc = Some sc'"
  shows "part_spec g src sc sc'"
proof -
  define q where "q = pos sc + length (takeWhile (\<lambda>i. str_prefix g (xs_byte src (pos sc + i))) [0, 1])"
  obtain d where f: "find (\<lambda>d. xs_starts src q (d_open d) \<and> (q = pos sc \<or> \<not> id_char g (xs_byte src (pos sc - 1)))) (str_delims g) = Some d"
    and sc': "sc' = take_lines ok src (string_end src d (q + length (d_open d))) sc"
    using assms(3) unfolding part_string_def q_def [symmetric] Let_def by (auto split: option.splits)
  have d: "xs_starts src q (d_open d)" "d_open d \<noteq> []" "d_close d \<noteq> []"
    using find_SomeD [OF f] assms(2) by (auto simp: lang_ok_def)
  have "q + length (d_open d) \<le> length src + 1" "q \<le> q + length (d_open d) - 1" "pos sc \<le> q"
    using xs_starts_end [OF d(1)] d(2) by (cases "d_open d"; auto simp: q_def)+
  with string_end_bounds [of "q + length (d_open d)" src d] d(3) assms(1) show ?thesis
    unfolding sc' by (intro take_lines_spec) (auto simp: at_token_def)
qed

lemma part_word_spec:
  assumes "at_token src sc" and "part_word ok g src sc = Some sc'"
  shows "part_spec g src sc sc'"
proof -
  define stop where "stop = pos sc + run_of (id_char g) src (pos sc + 1)"
  obtain k where r: "sc' = take_word ok k stop sc" "k \<in> {K_KW, K_ID}"
    using assms(2) unfolding part_word_def stop_def [symmetric] Let_def by (auto split: if_splits)
  have "stop \<le> length src" using run_of_le [of "id_char g" src "pos sc + 1"] assms(1) by (auto simp: at_token_def stop_def)
  moreover have "xs_byte src q \<noteq> nl_c" if "lines_ok g src" "pos sc \<le> q" "q \<le> stop" for q
    using that no_nl_run [of "pos sc + 1" "id_char g" q src] assms(1)
    by (cases "q = pos sc") (auto simp: at_token_def lines_ok_def stop_def)
  ultimately show ?thesis using r assms(1) by (auto simp: at_token_def stop_def intro!: take_word_spec)
qed

lemma part_number_spec:
  assumes "at_token src sc" and "part_number ok g src sc = Some sc'"
  shows "part_spec g src sc sc'"
proof -
  let ?e = "number_end (id_char g) src (pos sc + 1)"
  have r: "sc' = take_word ok K_NUM (?e - 1) sc" using assms(2) by (auto simp: part_number_def Let_def split: if_splits)
  have "pos sc + 1 \<le> ?e \<and> ?e \<le> length src + 1" using number_end_bounds assms(1) by (simp add: at_token_def)
  moreover have "xs_byte src q \<noteq> nl_c" if "lines_ok g src" "pos sc \<le> q" "q \<le> ?e - 1" for q
    using that number_end_no_nl [of "id_char g" "pos sc + 1" q src] assms(1)
    by (cases "q = pos sc") (auto simp: at_token_def lines_ok_def)
  ultimately show ?thesis using r assms(1) by (auto simp: at_token_def intro!: take_word_spec)
qed

lemma part_operator_spec:
  assumes "at_token src sc" and "lang_ok g"
  shows "part_spec g src sc (part_operator ok g src sc)"
proof -
  let ?w = "op_width g src (pos sc)"
  have w: "1 \<le> ?w" "pos sc + ?w - 1 \<le> length src" using op_width_bounds [OF assms(2)] assms(1) by (auto simp: at_token_def)
  have n: "xs_count_nl src (pos sc) (pos sc + ?w - 1) = 0" if "lines_ok g src"
    by (rule count_nl_none) (use op_no_nl [OF that, of "pos sc"] assms(1) w in \<open>auto simp: at_token_def\<close>)
  let ?c = "xs_byte src (pos sc)"
  let ?single = "?w = 1 \<and> \<not> skip sc"
  define a where "a = (if ?single \<and> xs_is_open ?c then sc\<lparr>depth := depth sc + 1\<rparr>
      else if ?single \<and> xs_open_of ?c \<noteq> None then sc\<lparr>depth := depth sc - 1\<rparr> else sc)"
  have a: "toks a = toks sc" "pos a = pos sc" "line a = line sc" "ind a = ind sc" by (simp_all add: a_def)
  define b where "b = xs_push ok K_OP (pos a) (pos a + ?w - 1) (line a) (line a) a"
  have b: "toks b = toks sc \<or> toks b = toks sc @ [\<lparr>tk = K_OP, ts = pos sc, te = pos sc + ?w - 1, tl = line sc, tel = line sc\<rparr>]"
    "pos b = pos sc" "line b = line sc" "ind b = ind sc"
    unfolding b_def using xs_push_toks [of ok K_OP "pos a" "pos a + ?w - 1" "line a" "line a" a] by (simp_all add: a)
  define c where "c = (if regex_literals g \<and> ?single \<and> \<not> oom b then xs_track_paren ok src ?c b else b)"
  have c: "toks c = toks b" "pos c = pos sc" "line c = line sc" "ind c = ind sc" by (simp_all add: c_def b)
  have "part_operator ok g src sc = c\<lparr>pos := pos sc + ?w\<rparr>"
    using c(2) unfolding part_operator_def Let_def a_def [symmetric] b_def [symmetric] c_def [symmetric] by simp
  then show ?thesis using b(1) c w n by (auto simp: part_spec_def tok_for_def)
qed

end
