(* ===== verification/XScanLoop.thy ===== *)
theory XScanLoop
  imports XScanTurn
begin

text \<open>
  The whole run: indentation tokens, the loop with its fuel, the end of the source; the tokens are in order, inside
  the source and on the lines their bytes are on, and only an allocation that fails makes the tokenizer fail.
\<close>

section \<open>Indentation\<close>

definition zero_width :: "xs_scan \<Rightarrow> xs_token \<Rightarrow> bool" where
  "zero_width sc z \<longleftrightarrow>
     ts z = pos sc \<and> te z = pos sc - 1 \<and> tk z \<in> {K_INDENT, K_DEDENT} \<and> tl z = line sc \<and> tel z = line sc"

definition levels_ok :: "nat list \<Rightarrow> bool" where
  "levels_ok ls \<longleftrightarrow> ls \<noteq> [] \<and> last ls = 0"

lemma levels_pop: "levels_ok (a # ls) \<Longrightarrow> a \<noteq> 0 \<Longrightarrow> levels_ok ls"
  by (cases ls) (auto simp: levels_ok_def)

lemma dedents_spec:
  assumes "levels_ok (ind sc)"
  shows "pos (dedents ok w sc) = pos sc \<and> line (dedents ok w sc) = line sc \<and> levels_ok (ind (dedents ok w sc))
    \<and> (\<exists>Z. toks (dedents ok w sc) = toks sc @ Z \<and> (\<forall>z \<in> set Z. zero_width sc z))"
  using assms
proof (induction ok w sc rule: dedents.induct)
  case (1 ok w sc)
  show ?case
  proof (cases "ind sc")
    case (Cons lvl rest)
    show ?thesis
    proof (cases "w < lvl")
      case True
      let ?s = "xs_push ok K_DEDENT (pos sc) (pos sc - 1) (line sc) (line sc) (sc\<lparr>ind := rest\<rparr>)"
      have lv: "levels_ok (ind ?s)" using levels_pop [of lvl rest] 1(2) Cons True by simp
      have e: "dedents ok w sc = dedents ok w ?s" using Cons True by (simp add: dedents.simps [of ok w sc])
      have z: "zero_width ?s z = zero_width sc z" for z by (simp add: zero_width_def)
      have t: "toks ?s = toks sc \<or> (\<exists>z. toks ?s = toks sc @ [z] \<and> zero_width sc z)"
        using xs_push_toks [of ok K_DEDENT "pos sc" "pos sc - 1" "line sc" "line sc" "sc\<lparr>ind := rest\<rparr>"]
        by (auto simp: zero_width_def)
      obtain Z where "toks (dedents ok w ?s) = toks ?s @ Z" "\<forall>y \<in> set Z. zero_width sc y"
        and r: "pos (dedents ok w ?s) = pos sc" "line (dedents ok w ?s) = line sc" "levels_ok (ind (dedents ok w ?s))"
        using 1(1) [OF Cons True lv, unfolded z] by auto
      with t have "\<exists>Z. toks (dedents ok w ?s) = toks sc @ Z \<and> (\<forall>z \<in> set Z. zero_width sc z)"
        by (metis append.assoc append_Cons append_Nil set_ConsD)
      with r e show ?thesis by simp
    qed (use Cons 1(2) in \<open>simp add: dedents.simps [of ok w sc]\<close>)
  qed (use 1(2) in \<open>simp add: levels_ok_def\<close>)
qed

lemma indentation_spec:
  assumes "levels_ok (ind sc)" and "indentation ok g src sc = Some s"
  shows "pos s = pos sc \<and> line s = line sc \<and> levels_ok (ind s)
    \<and> (\<exists>Z. toks s = toks sc @ Z \<and> (\<forall>z \<in> set Z. zero_width sc z))"
proof -
  let ?w = "indent_width src (pos sc)"
  define a where "a = (if length (ind sc) = ind_cap sc then sc\<lparr>ind_cap := ind_cap sc * 2, allocs := allocs sc + 1\<rparr> else sc)"
  have a: "pos a = pos sc" "line a = line sc" "ind a = ind sc" "toks a = toks sc" by (simp_all add: a_def)
  consider "s = sc" | "s = dedents ok ?w sc"
    | "s = xs_push ok K_INDENT (pos a) (pos a - 1) (line a) (line a) (a\<lparr>ind := ?w # ind a\<rparr>)"
    using assms(2) unfolding indentation_def a_def by (auto simp: Let_def split: if_splits)
  then show ?thesis
  proof cases
    case 3
    then show ?thesis
      using xs_push_toks [of ok K_INDENT "pos a" "pos a - 1" "line a" "line a" "a\<lparr>ind := ?w # ind a\<rparr>"] assms(1) a
      by (auto simp: zero_width_def levels_ok_def)
  qed (use assms(1) dedents_spec [OF assms(1), of ok ?w] in auto)
qed

section \<open>A turn\<close>

lemma first_part_in: "first_part fs sc = Some s \<Longrightarrow> \<exists>f \<in> set fs. f sc = Some s"
  by (induction fs sc rule: first_part.induct) (auto split: option.splits)

lemma parts_spec:
  assumes "at_token src sc" and "lang_ok g" and "first_part (parts ok g src) sc = Some s"
  shows "part_spec g src sc s"
  using first_part_in [OF assms(3)] assms(1,2)
  by (auto simp: parts_def intro: part_line_comment_spec part_block_comment_spec part_template_spec part_regex_spec
      part_lifetime_spec part_raw_string_spec part_long_bracket_spec part_string_spec part_word_spec part_number_spec)

lemma part_spec_bol [simp]:
  "part_spec g src (sc\<lparr>bol := b\<rparr>) s = part_spec g src sc s" "part_spec g src sc (s\<lparr>bol := b\<rparr>) = part_spec g src sc s"
  by (simp_all add: part_spec_def tok_for_def)

lemma token_turn_spec:
  assumes "at_token src sc" and "lang_ok g"
  shows "part_spec g src sc (token_turn ok g src sc)"
proof (cases "part_directive ok g src sc")
  case None
  have "at_token src (sc\<lparr>bol := False\<rparr>)" using assms(1) by (simp add: at_token_def)
  with None assms parts_spec [of src "sc\<lparr>bol := False\<rparr>" g ok] part_operator_spec [of src "sc\<lparr>bol := False\<rparr>" g ok] show ?thesis
    by (auto simp: token_turn_def Let_def split: option.splits)
qed (use assms part_directive_spec in \<open>auto simp: token_turn_def\<close>)

text \<open>What a turn does, unless memory runs out.\<close>

definition turn_spec :: "xs_lang \<Rightarrow> string \<Rightarrow> xs_scan \<Rightarrow> xs_scan \<Rightarrow> bool" where
  "turn_spec g src sc s \<longleftrightarrow>
     pos sc < pos s \<and> pos s \<le> length src + 1 \<and> levels_ok (ind s)
     \<and> (lines_ok g src \<longrightarrow> line s = line sc + xs_count_nl src (pos sc) (pos s - 1))
     \<and> (\<exists>Z M. toks s = toks sc @ Z @ M \<and> (\<forall>z \<in> set Z. zero_width sc z) \<and> (M = [] \<or> (\<exists>t. M = [t] \<and> tok_for sc s t)))"

lemma part_turn: "part_spec g src sc s \<Longrightarrow> levels_ok (ind sc) \<Longrightarrow> turn_spec g src sc s"
  unfolding part_spec_def turn_spec_def by (metis append_Nil empty_iff list.set(1) self_append_conv)

lemma part_spec_after:
  assumes "part_spec g src a s" and "pos a = pos sc" and "line a = line sc" and "levels_ok (ind a)"
    and "toks a = toks sc @ Z" and "\<forall>z \<in> set Z. zero_width sc z"
  shows "turn_spec g src sc s"
proof -
  have "tok_for a s t = tok_for sc s t" for t using assms(2,3) by (simp add: tok_for_def)
  then show ?thesis using assms unfolding part_spec_def turn_spec_def by (metis append.assoc append_Nil2)
qed

lemma xs_turn_spec:
  assumes "1 \<le> pos sc" and "pos sc \<le> length src" and "levels_ok (ind sc)" and "lang_ok g"
  shows "oom (xs_turn ok g src sc) \<and> pos (xs_turn ok g src sc) = pos sc \<and> toks (xs_turn ok g src sc) = toks sc
    \<or> turn_spec g src sc (xs_turn ok g src sc)"
proof -
  let ?c = "xs_byte src (pos sc)"
  consider (nl) "?c = nl_c" | (sp) "?c \<noteq> nl_c" "xs_is_space ?c" | (co) "?c \<noteq> nl_c" "\<not> xs_is_space ?c" "continues g src (pos sc)"
    | (tk) "?c \<noteq> nl_c" "\<not> xs_is_space ?c" "\<not> continues g src (pos sc)" by blast
  then show ?thesis
  proof cases
    case nl
    let ?e = "xs_turn ok g src sc"
    have n: "xs_count_nl src (pos sc) (pos sc) = 1" by (rule count_nl_one) (use assms nl in auto)
    have "?e = newline ok g sc" using nl by (simp add: xs_turn_def)
    then have "part_spec g src sc ?e"
      using n assms(2) xs_push_toks [of ok K_NL "pos sc" "pos sc" "line sc" "line sc" sc]
      by (auto simp: part_spec_def newline_def Let_def tok_for_def)
    then show ?thesis using assms(3) by (simp add: part_turn)
  next
    case sp
    have n: "xs_count_nl src (pos sc) (pos sc) = 0"
      by (rule count_nl_none) (use assms sp in \<open>auto simp: le_antisym\<close>)
    have "xs_turn ok g src sc = sc\<lparr>pos := pos sc + 1\<rparr>" using sp by (simp add: xs_turn_def)
    then have "part_spec g src sc (xs_turn ok g src sc)" using n assms(2) by (simp add: part_spec_def)
    then show ?thesis using assms(3) by (simp add: part_turn)
  next
    case co
    define k where "k = (if xs_byte src (pos sc + 1) = nl_c then 1 else 2 :: nat)"
    have k: "xs_byte src (pos sc + k) = nl_c" "1 \<le> k" and z: "\<And>q. pos sc \<le> q \<Longrightarrow> q < pos sc + k \<Longrightarrow> xs_byte src q \<noteq> nl_c"
      using co(1,3) by (auto simp: k_def continues_def less_Suc_eq le_less split: if_splits)
    have "xs_count_nl src (pos sc) (pos sc + k) = xs_count_nl src (pos sc) (pos sc + k - 1) + xs_count_nl src (pos sc + k) (pos sc + k)"
      using count_nl_split [of "pos sc" "pos sc + k - 1" "pos sc + k" src] assms(1) k(2) by simp
    also have "\<dots> = 1" using count_nl_none [of "pos sc" "pos sc + k - 1" src] count_nl_one [of "pos sc + k" src] assms(1) k z by auto
    finally have n: "xs_count_nl src (pos sc) (pos sc + k) = 1" .
    have "xs_turn ok g src sc = sc\<lparr>pos := pos sc + (k + 1), line := line sc + 1\<rparr>"
      using co by (auto simp: xs_turn_def k_def numeral_eq_Suc)
    then have "part_spec g src sc (xs_turn ok g src sc)"
      using n xs_byte_in [of src "pos sc + k"] k by (simp add: part_spec_def)
    then show ?thesis using assms(3) by (simp add: part_turn)
  next
    case tk
    show ?thesis
    proof (cases "indentation ok g src sc")
      case None
      with tk show ?thesis by (simp add: xs_turn_def)
    next
      case (Some a)
      from indentation_spec [OF assms(3) Some] obtain Z
        where a: "pos a = pos sc" "line a = line sc" "levels_ok (ind a)" "toks a = toks sc @ Z" "\<forall>z \<in> set Z. zero_width sc z" by auto
      have "at_token src a" using assms tk a by (simp add: at_token_def)
      then have "part_spec g src a (xs_turn ok g src sc)"
        using token_turn_spec [OF _ assms(4)] tk Some by (simp add: xs_turn_def)
      with a show ?thesis by (blast intro: part_spec_after)
    qed
  qed
qed

section \<open>The run\<close>

definition tok_ok :: "string \<Rightarrow> xs_token \<Rightarrow> bool" where
  "tok_ok src t \<longleftrightarrow>
     1 \<le> ts t \<and> ts t \<le> te t + 1 \<and> te t \<le> length src \<and> (tk t \<notin> {K_NL, K_INDENT, K_DEDENT} \<longrightarrow> ts t \<le> te t)"

definition tok_lines :: "string \<Rightarrow> xs_token \<Rightarrow> bool" where
  "tok_lines src t \<longleftrightarrow>
     tl t = 1 + xs_count_nl src 1 (ts t - 1) \<and> tel t = 1 + xs_count_nl src 1 (if tk t = K_NL then ts t - 1 else te t)"

definition before :: "xs_token \<Rightarrow> xs_token \<Rightarrow> bool" where
  "before a b \<longleftrightarrow> te a < ts b"

definition scan_inv :: "xs_lang \<Rightarrow> string \<Rightarrow> xs_scan \<Rightarrow> bool" where
  "scan_inv g src sc \<longleftrightarrow>
     1 \<le> pos sc \<and> pos sc \<le> length src + 1 \<and> levels_ok (ind sc)
     \<and> sorted_wrt before (toks sc) \<and> (\<forall>t \<in> set (toks sc). tok_ok src t \<and> te t < pos sc)
     \<and> (lines_ok g src \<longrightarrow> line sc = 1 + xs_count_nl src 1 (pos sc - 1) \<and> (\<forall>t \<in> set (toks sc). tok_lines src t))"

lemma count_nl_first [simp]: "xs_count_nl src (Suc 0) 0 = 0"
  by (simp add: xs_count_nl_def)

lemma scan_inv_start: "scan_inv g src xs_start"
  by (simp add: scan_inv_def xs_start_def levels_ok_def)

text \<open>Tokens without width at the position, and a token for the bytes passed, keep the order.\<close>

lemma tokens_step:
  assumes i: "sorted_wrt before T" "\<forall>t \<in> set T. tok_ok src t \<and> te t < p" "1 \<le> p" "p \<le> length src + 1"
    and z: "\<forall>z \<in> set Z. ts z = p \<and> te z = p - 1 \<and> tk z \<in> {K_INDENT, K_DEDENT}"
  shows "sorted_wrt before (T @ Z) \<and> (\<forall>t \<in> set (T @ Z). tok_ok src t \<and> te t < p)"
proof -
  have "sorted_wrt before Z" 
    using z i(3) by (induction Z) (auto simp: before_def)
  then show ?thesis using assms by (fastforce simp: sorted_wrt_append before_def tok_ok_def)
qed

lemma scan_inv_turn:
  assumes i: "scan_inv g src sc" and t: "turn_spec g src sc s"
  shows "scan_inv g src s"
proof -
  from t obtain Z M where s: "toks s = toks sc @ Z @ M" "\<forall>z \<in> set Z. zero_width sc z" "M = [] \<or> (\<exists>t. M = [t] \<and> tok_for sc s t)"
    and p: "pos sc < pos s" "pos s \<le> length src + 1" "levels_ok (ind s)"
    and l: "lines_ok g src \<longrightarrow> line s = line sc + xs_count_nl src (pos sc) (pos s - 1)"
    unfolding turn_spec_def by blast
  have pre: "sorted_wrt before (toks sc @ Z) \<and> (\<forall>t \<in> set (toks sc @ Z). tok_ok src t \<and> te t < pos sc)"
    by (rule tokens_step) (use i s(2) in \<open>auto simp: scan_inv_def zero_width_def\<close>)
  have m: "te t + 1 = pos s" "tok_ok src t" "ts t = pos sc" if "t \<in> set M" for t
    using s(3) that p i by (auto simp: tok_for_def tok_ok_def scan_inv_def)
  have "sorted_wrt before (toks s)"
    using pre s m by (auto simp: sorted_wrt_append before_def)
  moreover have "\<forall>t \<in> set (toks s). tok_ok src t \<and> te t < pos s"
  proof
    fix t assume "t \<in> set (toks s)"
    then consider "t \<in> set (toks sc @ Z)" | "t \<in> set M" using s(1) by auto
    then show "tok_ok src t \<and> te t < pos s"
    proof cases
      case 1
      with pre have "tok_ok src t \<and> te t < pos sc" by blast
      with p(1) show ?thesis by linarith
    next
      case 2
      from m(1) [OF this] m(2) [OF this] show ?thesis by simp
    qed
  qed
  moreover have "line s = 1 + xs_count_nl src 1 (pos s - 1) \<and> (\<forall>t \<in> set (toks s). tok_lines src t)" if g: "lines_ok g src"
  proof -
    have split: "xs_count_nl src 1 (pos s - 1) = xs_count_nl src 1 (pos sc - 1) + xs_count_nl src (pos sc) (pos s - 1)"
      using count_nl_split [of 1 "pos sc - 1" "pos s - 1" src] i p(1) by (simp add: scan_inv_def)
    have ln: "line sc = 1 + xs_count_nl src 1 (pos sc - 1)" using i g by (simp add: scan_inv_def)
    have "tok_lines src t" if "t \<in> set Z" for t
      using s(2) that ln by (auto simp: zero_width_def tok_lines_def)
    moreover have "tok_lines src t" if "t \<in> set M" for t
    proof -
      have t: "tok_for sc s t" using s(3) that by auto
      then have "te t = pos s - 1" by (auto simp: tok_for_def)
      then show ?thesis using t l g ln split by (auto simp: tok_for_def tok_lines_def)
    qed
    ultimately show ?thesis using i g s(1) l ln split by (auto simp: scan_inv_def)
  qed
  ultimately show ?thesis using i p by (simp add: scan_inv_def)
qed

lemma scan_inv_oom: "scan_inv g src sc \<Longrightarrow> xs_turn ok g src sc = s \<Longrightarrow> lang_ok g \<Longrightarrow> pos sc \<le> length src \<Longrightarrow>
    turn_spec g src sc s \<or> oom s"
  using xs_turn_spec [of sc src g ok] by (auto simp: scan_inv_def)

text \<open>The fuel is one more than the bytes that are left.\<close>

lemma xs_loop_ends:
  assumes "scan_inv g src sc" and "lang_ok g" and "length src + 2 \<le> n + pos sc" and "0 < n"
  shows "\<exists>s. xs_loop ok g src n sc = Some s \<and> (oom s \<or> scan_inv g src s \<and> pos s = length src + 1)"
  using assms
proof (induction n arbitrary: sc)
  case (Suc n)
  show ?case
  proof (cases "pos sc \<le> length src \<and> \<not> oom sc")
    case True
    let ?s = "xs_turn ok g src sc"
    show ?thesis
    proof (cases "turn_spec g src sc ?s")
      case t: True
      then have "pos sc < pos ?s" by (simp add: turn_spec_def)
      then show ?thesis using Suc.IH [of ?s] scan_inv_turn [OF Suc.prems(1) t] Suc.prems True by simp
    next
      case False
      with scan_inv_oom [OF Suc.prems(1) refl Suc.prems(2)] True have o: "oom ?s" by blast
      obtain m where "n = Suc m" using Suc.prems True by (cases n) auto
      with o True show ?thesis by simp
    qed
  next
    case False
    then show ?thesis using Suc.prems(1) by (auto simp: scan_inv_def)
  qed
qed simp

lemma close_blocks_frame [simp]: "pos (close_blocks ok n k sc) = pos sc" "line (close_blocks ok n k sc) = line sc"
  by (induction ok n k sc rule: close_blocks.induct) simp_all

lemma close_blocks_toks:
  "\<exists>Z. toks (close_blocks ok n k sc) = toks sc @ Z
     \<and> (\<forall>z \<in> set Z. ts z = n + 1 \<and> te z = n \<and> tk z = K_DEDENT \<and> tl z = line sc \<and> tel z = line sc)"
proof (induction ok n k sc rule: close_blocks.induct)
  case (2 ok n k sc)
  let ?s = "xs_push ok K_DEDENT (n + 1) n (line sc) (line sc) sc"
  from 2 obtain Z where Z: "toks (close_blocks ok n k ?s) = toks ?s @ Z"
    "\<forall>z \<in> set Z. ts z = n + 1 \<and> te z = n \<and> tk z = K_DEDENT \<and> tl z = line sc \<and> tel z = line sc" by auto
  show ?case
    using xs_push_toks [of ok K_DEDENT "n + 1" n "line sc" "line sc" sc] Z
    by (auto intro: exI [of _ Z] exI [of _ "_ # Z"])
qed simp

definition tokens_ok :: "xs_lang \<Rightarrow> string \<Rightarrow> xs_token list \<Rightarrow> bool" where
  "tokens_ok g src T \<longleftrightarrow>
     sorted_wrt before T \<and> (\<forall>t \<in> set T. tok_ok src t) \<and> (lines_ok g src \<longrightarrow> (\<forall>t \<in> set T. tok_lines src t))"

lemma xs_finish_ok:
  assumes "scan_inv g src sc" and "pos sc = length src + 1"
  shows "tokens_ok g src (toks (xs_finish ok g src sc))"
proof (cases "lang_indent g \<and> \<not> oom sc")
  case True
  let ?n = "length src"
  define a where "a = (if toks sc \<noteq> [] \<and> last_kind sc \<noteq> Some K_NL then xs_push ok K_NL (?n + 1) ?n (line sc) (line sc) sc else sc)"
  have a: "toks a = toks sc \<or> toks a = toks sc @ [\<lparr>tk = K_NL, ts = ?n + 1, te = ?n, tl = line sc, tel = line sc\<rparr>]" "line a = line sc"
    using xs_push_toks [of ok K_NL "?n + 1" ?n "line sc" "line sc" sc] by (auto simp: a_def)
  obtain Z where Z: "toks (xs_finish ok g src sc) = toks a @ Z"
    "\<forall>z \<in> set Z. ts z = ?n + 1 \<and> te z = ?n \<and> tk z = K_DEDENT \<and> tl z = line sc \<and> tel z = line sc"
    using close_blocks_toks [of ok ?n "length (ind a) - 1" a] True a(2)
    by (auto simp: xs_finish_def a_def Let_def)
  have ta: "sorted_wrt before (toks a)" "\<forall>t \<in> set (toks a). tok_ok src t \<and> te t < ?n + 1"
    using a(1) assms by (auto simp: scan_inv_def sorted_wrt_append before_def tok_ok_def)
  have s: "sorted_wrt before (toks a @ Z) \<and> (\<forall>t \<in> set (toks a @ Z). tok_ok src t \<and> te t < ?n + 1)"
    by (rule tokens_step) (use ta Z(2) in auto)
  have "tok_lines src t" if "lines_ok g src" "t \<in> set (toks a @ Z)" for t
    using that assms a(1) Z(2) by (auto simp: scan_inv_def tok_lines_def)
  with s Z(1) show ?thesis by (simp add: tokens_ok_def)
qed (use assms in \<open>auto simp: xs_finish_def scan_inv_def tokens_ok_def\<close>)

lemma xs_loop_result:
  assumes "lang_ok g" and "xs_loop ok g src (length src + 1) xs_start = Some s" and "\<not> oom s"
  shows "scan_inv g src s" and "pos s = length src + 1"
  using xs_loop_ends [OF scan_inv_start assms(1), of src "length src + 1" ok] assms(2,3) by (auto simp: xs_start_def)

lemma xs_finish_oom: "oom sc \<Longrightarrow> xs_finish ok g src sc = sc"
  by (simp add: xs_finish_def)

lemma xs_tokenize_Some:
  assumes "lang_ok g" and "xs_tokenize ok g src = Some (Inr t)"
  shows "tokens_ok g src (raw_toks t)" and "raw_m t = xs_matches src (raw_toks t)" and "raw_src t = src"
proof -
  obtain s where s: "xs_loop ok g src (length src + 1) xs_start = Some s" "\<not> oom (xs_finish ok g src s)"
    "t = \<lparr>raw_toks = toks (xs_finish ok g src s), raw_m = xs_matches src (toks (xs_finish ok g src s)), raw_src = src\<rparr>"
    using assms(2) by (auto simp: xs_tokenize_def Let_def split: if_splits option.splits)
  have "\<not> oom s" using s(2) xs_finish_oom [of s] by auto
  with xs_loop_result [OF assms(1) s(1)] have "tokens_ok g src (toks (xs_finish ok g src s))" by (intro xs_finish_ok) auto
  with s(3) show "tokens_ok g src (raw_toks t)" "raw_m t = xs_matches src (raw_toks t)" "raw_src t = src" by simp_all
qed

section \<open>Memory\<close>

lemma xs_push_all_ok [simp]: "\<forall>n. ok n \<Longrightarrow> oom (xs_push ok k a b l1 l2 sc) = oom sc"
  by (simp add: xs_push_def xs_grow_def)

lemma directive_all_ok [simp]: "\<forall>n. ok n \<Longrightarrow> oom (xs_directive ok g t sc) = oom sc"
  by (simp add: xs_directive_def pp_open_def pp_else_def pp_close_def Let_def split: list.split)

lemma track_all_ok [simp]: "\<forall>n. ok n \<Longrightarrow> oom (xs_track_paren ok src c sc) = oom sc"
  by (simp add: xs_track_paren_def Let_def split: list.split)

lemma dedents_all_ok [simp]: "\<forall>n. ok n \<Longrightarrow> oom (dedents ok w sc) = oom sc"
proof (induction ok w sc rule: dedents.induct)
  case (1 ok w sc)
  show ?case
  proof (cases "ind sc")
    case (Cons lvl rest)
    let ?s = "xs_push ok K_DEDENT (pos sc) (pos sc - 1) (line sc) (line sc) (sc\<lparr>ind := rest\<rparr>)"
    have "oom (dedents ok w sc) = oom sc" if "w < lvl"
    proof -
      have "dedents ok w sc = dedents ok w ?s" using Cons that by (subst dedents.simps) simp
      also have "oom \<dots> = oom ?s" by (rule "1.IH" [OF Cons that "1.prems"])
      also have "\<dots> = oom sc" using xs_push_all_ok [OF "1.prems"] by simp
      finally show ?thesis .
    qed
    moreover have "dedents ok w sc = sc" if "\<not> w < lvl"
      using Cons that by (subst dedents.simps) simp
    ultimately show ?thesis by (cases "w < lvl") auto
  qed (subst dedents.simps, simp)
qed

lemma parts_all_ok:
  assumes "\<forall>n. ok n" and "f \<in> set (parts ok g src)" and "f sc = Some s"
  shows "oom s = oom sc"
  using assms(2,3)
  by (auto simp: parts_def part_line_comment_def part_block_comment_def part_template_def part_regex_def part_lifetime_def
      part_raw_string_def part_long_bracket_def part_string_def part_word_def part_number_def Let_def
      take_lines_def take_word_def drop_lines_def assms(1) split: if_splits option.splits)

lemma turn_all_ok:
  assumes "\<forall>n. ok n"
  shows "oom (xs_turn ok g src sc) = oom sc"
proof -
  have ind: "\<exists>a. indentation ok g src s = Some a \<and> oom a = oom s" for s
    using assms by (simp add: indentation_def Let_def)
  have op: "oom (part_operator ok g src s) = oom s" for s
    using assms by (simp add: part_operator_def Let_def)
  have di: "oom a = oom s" if "part_directive ok g src s = Some a" for a s
    using assms that by (auto simp: part_directive_def Let_def split: if_splits prod.splits)
  have pa: "oom a = oom s" if "first_part (parts ok g src) s = Some a" for a s
    using first_part_in [OF that] parts_all_ok [OF assms] by blast
  have tt: "oom (token_turn ok g src s) = oom s" for s
    using di [of s] op [of "s\<lparr>bol := False\<rparr>"] pa [of "s\<lparr>bol := False\<rparr>"] unfolding token_turn_def Let_def
    by (simp split: option.split)
  obtain a where a: "indentation ok g src sc = Some a" "oom a = oom sc" using ind by blast
  then show ?thesis using tt [of a] assms by (simp add: xs_turn_def newline_def Let_def)
qed

lemma loop_all_ok: "\<forall>n. ok n \<Longrightarrow> xs_loop ok g src n sc = Some s \<Longrightarrow> oom s = oom sc"
  by (induction n arbitrary: sc) (auto simp: turn_all_ok split: if_splits)

lemma close_blocks_all_ok [simp]: "\<forall>n. ok n \<Longrightarrow> oom (close_blocks ok n k sc) = oom sc"
  by (induction ok n k sc rule: close_blocks.induct) simp_all

lemma finish_all_ok: "\<forall>n. ok n \<Longrightarrow> oom (xs_finish ok g src sc) = oom sc"
  by (simp add: xs_finish_def Let_def)

end
