(* ===== verification/XScanLang.thy ===== *)
theory XScanLang
  imports XScanLoop
begin

text \<open>
  The tables of a language: the open-addressing set of keywords answers membership for every word and never probes
  for ever, and the first operator that fits is the longest.
\<close>

section \<open>Keywords\<close>

lemma and_cap: "x AND (2 ^ k - 1 :: nat) = x mod 2 ^ k"
  using take_bit_eq_mask [of k x] by (simp add: mask_eq_exp_minus_1 take_bit_eq_mod)

definition slot :: "string list \<Rightarrow> nat \<Rightarrow> nat \<Rightarrow> string" where
  "slot t i d = t ! ((i + d) mod length t)"

lemma mod_len: "i < length t \<Longrightarrow> x mod length t < length t"
  by (rule mod_less_divisor) linarith

lemma slot_next: "slot t ((i + 1) mod length t) d = slot t i (Suc d)"
  by (simp add: slot_def mod_simps add.commute add.left_commute)

text \<open>A probe ends at the first slot that is free or holds the word.\<close>

lemma kw_probe_ends:
  assumes "length t = 2 ^ k" and "i < length t" and "d < n" and "\<forall>e < d. slot t i e \<noteq> [] \<and> slot t i e \<noteq> s"
    and "slot t i d = [] \<or> slot t i d = s"
  shows "kw_probe n t i s = Some (slot t i d \<noteq> [])"
  using assms
proof (induction n arbitrary: i d)
  case (Suc n)
  have s0: "slot t i 0 = t ! i" using Suc.prems(2) by (simp add: slot_def)
  have nx: "(i + 1) AND (length t - 1) = (i + 1) mod length t" using Suc.prems(1) and_cap [of "i + 1" k] by simp
  show ?case
  proof (cases d)
    case 0
    with Suc.prems(5) s0 show ?thesis by auto
  next
    case (Suc e)
    have "kw_probe n t ((i + 1) mod length t) s = Some (slot t ((i + 1) mod length t) e \<noteq> [])"
    proof (rule Suc.IH)
      show "(i + 1) mod length t < length t" using Suc.prems(2) by (rule mod_len)
      show "\<forall>e'<e. slot t ((i + 1) mod length t) e' \<noteq> [] \<and> slot t ((i + 1) mod length t) e' \<noteq> s"
        unfolding slot_next using Suc.prems(4) Suc by simp
      show "slot t ((i + 1) mod length t) e = [] \<or> slot t ((i + 1) mod length t) e = s"
        unfolding slot_next using Suc.prems(5) Suc by simp
    qed (use Suc Suc.prems in auto)
    moreover have "t ! i \<noteq> [] \<and> t ! i \<noteq> s" using Suc.prems(4) Suc s0 by auto
    ultimately show ?thesis using Suc nx unfolding slot_next by simp
  qed
qed simp

lemma kw_free_ends:
  assumes "length t = 2 ^ k" and "i < length t" and "d < n" and "\<forall>e < d. slot t i e \<noteq> []" and "slot t i d = []"
  shows "kw_free n t i = Some ((i + d) mod length t)"
  using assms
proof (induction n arbitrary: i d)
  case (Suc n)
  have s0: "slot t i 0 = t ! i" using Suc.prems(2) by (simp add: slot_def)
  have nx: "(i + 1) AND (length t - 1) = (i + 1) mod length t" using Suc.prems(1) and_cap [of "i + 1" k] by simp
  show ?case
  proof (cases d)
    case 0
    with Suc.prems(2,5) s0 show ?thesis by simp
  next
    case (Suc e)
    have "kw_free n t ((i + 1) mod length t) = Some (((i + 1) mod length t + e) mod length t)"
    proof (rule Suc.IH)
      show "(i + 1) mod length t < length t" using Suc.prems(2) by (rule mod_len)
      show "\<forall>e'<e. slot t ((i + 1) mod length t) e' \<noteq> []"
        unfolding slot_next using Suc.prems(4) Suc by simp
      show "slot t ((i + 1) mod length t) e = []"
        unfolding slot_next using Suc.prems(5) Suc by simp
    qed (use Suc Suc.prems in auto)
    moreover have "t ! i \<noteq> []" using Suc.prems(4) Suc s0 by auto
    ultimately show ?thesis using Suc nx by (simp add: mod_simps)
  qed
qed simp

lemma some_slot:
  assumes "x \<in> set t" and "i < length t"
  shows "\<exists>d < length t. slot t i d = x"
proof -
  obtain q where q: "q < length t" "t ! q = x" using assms(1) by (auto simp: in_set_conv_nth)
  let ?d = "(q + (length t - i)) mod length t"
  have "(i + ?d) mod length t = (q + length t) mod length t" using assms(2) by (simp add: mod_simps)
  then have "slot t i ?d = x" using q by (simp add: slot_def)
  then show ?thesis using assms(2) mod_len [OF assms(2), of "q + (length t - i)"] by blast
qed

definition home :: "string list \<Rightarrow> string \<Rightarrow> nat" where
  "home t s = unat (xs_hash s) mod length t"

definition kw_inv :: "string list \<Rightarrow> bool" where
  "kw_inv t \<longleftrightarrow>
     (\<exists>k. length t = 2 ^ k) \<and> [] \<in> set t
     \<and> (\<forall>s \<in> set t. s \<noteq> [] \<longrightarrow> (\<exists>d < length t. slot t (home t s) d = s \<and> (\<forall>e < d. slot t (home t s) e \<noteq> [])))"

lemma kw_invD:
  assumes "kw_inv t" and "s \<in> set t" and "s \<noteq> []"
  obtains d where "d < length t" and "slot t (home t s) d = s" and "\<forall>e < d. slot t (home t s) e \<noteq> []"
  using assms unfolding kw_inv_def by meson

lemma home_less: "kw_inv t \<Longrightarrow> home t s < length t"
  by (auto simp: kw_inv_def home_def)

lemma home_and: "kw_inv t \<Longrightarrow> unat (xs_hash s) AND (length t - 1) = home t s"
  using and_cap [of "unat (xs_hash s)"] by (auto simp: kw_inv_def home_def)

lemma xs_is_keyword_correct:
  assumes "kw_inv t" and "s \<noteq> []"
  shows "xs_is_keyword t s = Some (s \<in> set t)"
proof -
  let ?i = "home t s"
  let ?stop = "\<lambda>d. slot t ?i d = [] \<or> slot t ?i d = s"
  obtain k where k: "length t = 2 ^ k" using assms(1) by (auto simp: kw_inv_def)
  have ne: "t \<noteq> []" using assms(1) by (auto simp: kw_inv_def)
  obtain d0 where d0: "d0 < length t" "slot t ?i d0 = []"
    using some_slot [of "[]" t ?i] assms(1) home_less [OF assms(1)] by (auto simp: kw_inv_def)
  define d where "d = (LEAST d. ?stop d)"
  have d: "?stop d" unfolding d_def by (rule LeastI [of ?stop d0]) (use d0 in simp)
  have least: "\<not> ?stop e" if "e < d" for e using that not_less_Least [of e ?stop] by (simp add: d_def)
  have "d \<le> d0" unfolding d_def by (rule Least_le) (use d0 in simp)
  then have len: "d < length t" using d0(1) by simp
  have "kw_probe (length t) t ?i s = Some (slot t ?i d \<noteq> [])"
    by (rule kw_probe_ends [OF k home_less [OF assms(1)] len]) (use least d in auto)
  then have p: "xs_is_keyword t s = Some (slot t ?i d \<noteq> [])"
    using ne home_and [OF assms(1)] by (simp add: xs_is_keyword_def)
  have inn: "slot t ?i d \<in> set t" unfolding slot_def using mod_len [OF len] by (rule nth_mem)
  have eq: "slot t ?i d = s" if sin: "s \<in> set t"
  proof -
    obtain e where e: "slot t ?i e = s" "\<forall>e' < e. slot t ?i e' \<noteq> []"
      using kw_invD [OF assms(1) sin assms(2)] by metis
    have "\<not> e < d" using least [of e] e(1) by auto
    then show ?thesis using e d by (cases "e = d") auto
  qed
  show ?thesis
  proof (cases "s \<in> set t")
    case True
    with p eq assms(2) show ?thesis by simp
  next
    case False
    with inn d have "slot t ?i d = []" by auto
    with p False show ?thesis by simp
  qed
qed

definition words :: "string list \<Rightarrow> string set" where
  "words t = set t - {[]}"

definition used :: "string list \<Rightarrow> nat" where
  "used t = length (filter (\<lambda>s. s \<noteq> []) t)"

lemma used_less: "used t < length t \<longleftrightarrow> [] \<in> set t"
proof -
  have "length (filter (\<lambda>s. s \<noteq> []) t) + length (filter (\<lambda>s. s = []) t) = length t"
    using sum_length_filter_compl [of "\<lambda>s. s \<noteq> []" t] by simp
  then have "used t < length t \<longleftrightarrow> filter (\<lambda>s. s = []) t \<noteq> []" unfolding used_def by (metis less_add_same_cancel1 length_greater_0_conv)
  then show ?thesis by (auto simp: filter_empty_conv)
qed

lemma used_update: "t ! q = [] \<Longrightarrow> s \<noteq> [] \<Longrightarrow> q < length t \<Longrightarrow> used (t[q := s]) = Suc (used t)"
proof -
  assume a: "t ! q = []" "s \<noteq> []" "q < length t"
  then have "t = take q t @ [] # drop (Suc q) t" by (metis id_take_nth_drop)
  then have "used t = used (take q t) + used (drop (Suc q) t)"
    unfolding used_def by (metis (mono_tags, lifting) filter.simps(2) filter_append length_append)
  moreover have "used (t[q := s]) = used (take q t) + Suc (used (drop (Suc q) t))"
    using a by (simp add: used_def upd_conv_take_nth_drop)
  ultimately show ?thesis by simp
qed

lemma kw_add_inv:
  assumes "kw_inv t" and "Suc (used t) < length t"
  shows "kw_inv (kw_add t v) \<and> length (kw_add t v) = length t \<and> used (kw_add t v) \<le> Suc (used t)
    \<and> words (kw_add t v) = (case xs_read_str v of None \<Rightarrow> words t | Some s \<Rightarrow> insert s (words t))"
proof (cases "xs_read_str v")
  case None
  with assms show ?thesis by (simp add: kw_add_def)
next
  case (Some s)
  then have s: "s \<noteq> []" by auto
  show ?thesis
  proof (cases "s \<in> set t")
    case True
    with assms Some s xs_is_keyword_correct [OF assms(1) s] show ?thesis by (auto simp: kw_add_def words_def)
  next
    case False
    let ?i = "home t s"
    obtain k where k: "length t = 2 ^ k" using assms(1) by (auto simp: kw_inv_def)
    obtain d0 where d0: "d0 < length t" "slot t ?i d0 = []"
      using some_slot [of "[]" t ?i] assms(1) home_less [OF assms(1)] by (auto simp: kw_inv_def)
    define d where "d = (LEAST d. slot t ?i d = [])"
    have d: "slot t ?i d = []" unfolding d_def by (rule LeastI [of _ d0]) (use d0 in simp)
    have least: "slot t ?i e \<noteq> []" if "e < d" for e using that not_less_Least [of e "\<lambda>d. slot t ?i d = []"] by (simp add: d_def)
    have "d \<le> d0" unfolding d_def by (rule Least_le) (use d0 in simp)
    then have len: "d < length t" using d0(1) by simp
    define q where "q = (?i + d) mod length t"
    have q: "q < length t" "t ! q = []" using d mod_len [OF len] by (simp_all add: q_def slot_def)
    have "kw_free (length t) t ?i = Some q"
      unfolding q_def by (rule kw_free_ends [OF k home_less [OF assms(1)] len]) (use least d in auto)
    then have e: "kw_add t v = t[q := s]"
      using Some xs_is_keyword_correct [OF assms(1) s] False home_and [OF assms(1)] by (simp add: kw_add_def)
    have sl: "slot (t[q := s]) i e = (if (i + e) mod length t = q then s else slot t i e)" for i e
      using q by (simp add: slot_def)
    have u: "used (t[q := s]) = Suc (used t)" using used_update [OF q(2) s q(1)] .
    have "kw_inv (t[q := s])"
    proof -
      have "[] \<in> set (t[q := s])" using used_less [of "t[q := s]"] u assms(2) by simp
      moreover have "\<exists>d < length t. slot (t[q := s]) (home t x) d = x \<and> (\<forall>e < d. slot (t[q := s]) (home t x) e \<noteq> [])"
        if x: "x \<in> set (t[q := s])" "x \<noteq> []" for x
      proof (cases "x = s")
        case True
        then show ?thesis using len least s by (intro exI [of _ d]) (auto simp: sl q_def [symmetric])
      next
        case False
        then have "x \<in> set t" using x set_update_subset_insert [of t q s] by auto
        then obtain e where e: "e < length t" "slot t (home t x) e = x" "\<forall>e' < e. slot t (home t x) e' \<noteq> []"
          using kw_invD [OF assms(1) _ x(2)] by metis
        then have "(home t x + e) mod length t \<noteq> q" using q x(2) by (auto simp: slot_def)
        with e s show ?thesis by (intro exI [of _ e]) (auto simp: sl)
      qed
      ultimately show ?thesis using k by (auto simp: kw_inv_def home_def)
    qed
    moreover have "words (t[q := s]) = insert s (words t)"
    proof -
      have t: "t = take q t @ [] # drop (Suc q) t" using q by (metis id_take_nth_drop)
      have "set t = insert [] (set (take q t) \<union> set (drop (Suc q) t))"
        by (subst t) simp
      moreover have "set (t[q := s]) = insert s (set (take q t) \<union> set (drop (Suc q) t))"
        using q by (simp add: upd_conv_take_nth_drop)
      ultimately show ?thesis using s by (auto simp: words_def)
    qed
    ultimately show ?thesis using e u Some by simp
  qed
qed

lemma kw_capacity_pow: "\<exists>j. kw_capacity n (2 ^ k) = 2 ^ j \<and> n \<le> 2 ^ j"
proof (induction n "2 ^ k :: nat" arbitrary: k rule: kw_capacity.induct)
  case (1 n k)
  show ?case
  proof (cases "n \<le> 2 ^ k")
    case True
    then show ?thesis by (subst kw_capacity.simps) auto
  next
    case False
    have "(2::nat) ^ k * 2 = 2 ^ Suc k" by simp
    then obtain j where "kw_capacity n (2 ^ k * 2) = 2 ^ j \<and> n \<le> 2 ^ j" using 1 [of "Suc k"] False by auto
    then show ?thesis using False by (subst kw_capacity.simps) auto
  qed
qed

lemma kw_fold:
  "kw_inv t \<Longrightarrow> used t + length vs < length t \<Longrightarrow>
     kw_inv (foldl kw_add t vs) \<and> words (foldl kw_add t vs) = words t \<union> {s. Some s \<in> set vs \<and> s \<noteq> []}"
proof (induction vs arbitrary: t)
  case (Cons v vs)
  have a: "kw_inv (kw_add t v)" "length (kw_add t v) = length t" "used (kw_add t v) \<le> Suc (used t)"
    "words (kw_add t v) = (case xs_read_str v of None \<Rightarrow> words t | Some s \<Rightarrow> insert s (words t))"
    using kw_add_inv [of t v] Cons.prems by auto
  have w: "words (kw_add t v) = words t \<union> {s. Some s = v \<and> s \<noteq> []}"
    using a(4) by (auto simp: xs_read_str_def split: option.splits if_splits)
  have "kw_inv (foldl kw_add (kw_add t v) vs)
      \<and> words (foldl kw_add (kw_add t v) vs) = words (kw_add t v) \<union> {s. Some s \<in> set vs \<and> s \<noteq> []}"
    by (rule Cons.IH) (use a Cons.prems in auto)
  with w show ?case by auto
qed auto

lemma kw_empty: "kw_inv (replicate (2 ^ k) []) \<and> words (replicate (2 ^ k) []) = {} \<and> used (replicate (2 ^ k) []) = 0"
  by (auto simp: kw_inv_def words_def used_def)

definition keywords_of :: "xs_config \<Rightarrow> string set" where
  "keywords_of cf = (case cf_keywords cf of None \<Rightarrow> {} | Some vs \<Rightarrow> {s. Some s \<in> set vs \<and> s \<noteq> []})"

lemma keyword_lookup:
  assumes "s \<noteq> []"
  shows "xs_is_keyword (kw (xs_lang_load cf)) s = Some (s \<in> keywords_of cf)"
proof (cases "cf_keywords cf")
  case None
  then show ?thesis by (simp add: xs_lang_load_def kw_load_def keywords_of_def xs_is_keyword_def)
next
  case (Some vs)
  obtain j where j: "kw_capacity (length vs * 2 + 1) 16 = 2 ^ j" "length vs * 2 + 1 \<le> 2 ^ j"
    using kw_capacity_pow [of "length vs * 2 + 1" 4] by auto
  have f: "kw_inv (foldl kw_add (replicate (2 ^ j) []) vs)
      \<and> words (foldl kw_add (replicate (2 ^ j) []) vs) = {s. Some s \<in> set vs \<and> s \<noteq> []}"
    using kw_fold [of "replicate (2 ^ j) []" vs] kw_empty [of j] j(2) by simp
  have t: "kw (xs_lang_load cf) = foldl kw_add (replicate (2 ^ j) []) vs"
    using Some j(1) by (simp add: xs_lang_load_def kw_load_def)
  have "xs_is_keyword (kw (xs_lang_load cf)) s = Some (s \<in> set (kw (xs_lang_load cf)))"
    using f t assms by (simp add: xs_is_keyword_correct)
  also have "s \<in> set (kw (xs_lang_load cf)) \<longleftrightarrow> s \<in> keywords_of cf"
    using f t assms Some by (auto simp: words_def keywords_of_def)
  finally show ?thesis .
qed

end
