(* ===== verification/XScanKinds.thy ===== *)
theory XScanKinds
  imports XScanLang
begin

text \<open>
  What kind of token the tokenizer makes of which text: words are keywords exactly when the language lists them, and
  an operator is the longest one of the language at its place, or a single byte.
\<close>

section \<open>Operators\<close>

definition ops_sorted :: "string list \<Rightarrow> bool" where
  "ops_sorted xs \<longleftrightarrow> sorted_wrt (\<lambda>a b. length b \<le> length a) xs"

lemma takeWhile_rev_drop: "drop (length xs - length (takeWhile P (List.rev xs))) xs = List.rev (takeWhile P (List.rev xs))"
proof -
  have "List.rev xs = takeWhile P (List.rev xs) @ dropWhile P (List.rev xs)" by simp
  then have "xs = List.rev (dropWhile P (List.rev xs)) @ List.rev (takeWhile P (List.rev xs))"
    by (metis rev_append rev_rev_ident)
  then show ?thesis
    by (metis (no_types, lifting) add_diff_cancel_right' append_eq_conv_conj length_append length_rev)
qed

lemma op_insert_parts:
  obtains xs1 xs2 where "xs = xs1 @ xs2" and "op_insert xs s = xs1 @ [s] @ xs2" and "\<forall>x \<in> set xs2. length x < length s"
    and "xs1 \<noteq> [] \<Longrightarrow> length s \<le> length (last xs1)"
proof -
  let ?P = "\<lambda>x. length x < length s"
  let ?k = "length xs - length (takeWhile ?P (List.rev xs))"
  have d: "drop ?k xs = List.rev (takeWhile ?P (List.rev xs))" by (rule takeWhile_rev_drop)
  have t: "take ?k xs = List.rev (dropWhile ?P (List.rev xs))"
  proof -
    have "List.rev xs = takeWhile ?P (List.rev xs) @ dropWhile ?P (List.rev xs)" by simp
    then have "xs = List.rev (dropWhile ?P (List.rev xs)) @ List.rev (takeWhile ?P (List.rev xs))"
      by (metis rev_append rev_rev_ident)
    with d show ?thesis by (metis append_same_eq append_take_drop_id)
  qed
  show ?thesis
  proof (rule that)
    show "xs = take ?k xs @ drop ?k xs" by simp
    show "op_insert xs s = take ?k xs @ [s] @ drop ?k xs" by (simp add: op_insert_def Let_def)
    show "\<forall>x \<in> set (drop ?k xs). length x < length s" unfolding d by (auto dest: set_takeWhileD)
    show "length s \<le> length (last (take ?k xs))" if "take ?k xs \<noteq> []"
    proof -
      have ne: "dropWhile ?P (List.rev xs) \<noteq> []" using that unfolding t by simp
      from hd_dropWhile [OF this] have "length s \<le> length (hd (dropWhile ?P (List.rev xs)))" by simp
      with ne show ?thesis unfolding t by (simp only: last_rev)
    qed
  qed
qed

lemma op_insert_sorted:
  assumes "ops_sorted xs"
  shows "ops_sorted (op_insert xs s)"
proof -
  obtain xs1 xs2 where x: "xs = xs1 @ xs2" "op_insert xs s = xs1 @ [s] @ xs2" "\<forall>x \<in> set xs2. length x < length s"
    "xs1 \<noteq> [] \<Longrightarrow> length s \<le> length (last xs1)" using op_insert_parts [of xs s] by metis
  have "\<forall>a \<in> set xs1. length s \<le> length a"
  proof (cases xs1 rule: rev_cases)
    case (snoc ys y)
    with assms x(1) have "\<forall>a \<in> set ys. length y \<le> length a" by (simp add: ops_sorted_def sorted_wrt_append)
    with x(4) snoc show ?thesis by fastforce
  qed simp
  with assms x show ?thesis by (auto simp: ops_sorted_def sorted_wrt_append)
qed

lemma op_insert_set: "set (op_insert xs s) = insert s (set xs)"
  by (rule op_insert_parts [of xs s]) auto

lemma ops_table:
  "(\<forall>c. ops_sorted (t c)) \<Longrightarrow>
     (\<forall>c. ops_sorted (foldl op_add t vs c))
     \<and> (\<forall>c. set (foldl op_add t vs c) = set (t c) \<union> {s. Some s \<in> set vs \<and> s \<noteq> [] \<and> hd s = c})"
proof (induction vs arbitrary: t)
  case (Cons v vs)
  have "\<forall>c. ops_sorted (op_add t v c)"
    using Cons.prems by (simp add: op_add_def op_insert_sorted split: option.split)
  moreover have "set (op_add t v c) = set (t c) \<union> {s. Some s = v \<and> s \<noteq> [] \<and> hd s = c}" for c
    by (auto simp: op_add_def op_insert_set xs_read_str_def split: option.splits if_splits)
  ultimately show ?case using Cons.IH [of "op_add t v"] by auto
qed auto

lemma find_longest: "ops_sorted xs \<Longrightarrow> find P xs = Some s \<Longrightarrow> x \<in> set xs \<Longrightarrow> P x \<Longrightarrow> length x \<le> length s"
  by (induction xs) (auto simp: ops_sorted_def split: if_splits)

definition fits :: "xs_config \<Rightarrow> string \<Rightarrow> nat \<Rightarrow> string \<Rightarrow> bool" where
  "fits cf src p s \<longleftrightarrow> Some s \<in> set (cf_ops cf) \<and> s \<noteq> [] \<and> xs_starts src p s"

lemma starts_hd: "xs_starts src p s \<Longrightarrow> s \<noteq> [] \<Longrightarrow> hd s = xs_byte src p"
  by (cases s) (auto simp: xs_starts_def xs_byte_def hd_drop_conv_nth take_Suc split: if_splits)

lemma op_width_longest:
  assumes "fits cf src p s"
  shows "length s \<le> op_width (xs_lang_load cf) src p"
    and "\<exists>s'. fits cf src p s' \<and> op_width (xs_lang_load cf) src p = length s'"
proof -
  let ?ops = "ops (xs_lang_load cf) (xs_byte src p)"
  have t: "ops_sorted ?ops" "set ?ops = {s. Some s \<in> set (cf_ops cf) \<and> s \<noteq> [] \<and> hd s = xs_byte src p}"
    using ops_table [of "\<lambda>_. []" "cf_ops cf"] by (auto simp: xs_lang_load_def ops_sorted_def)
  have s: "s \<in> set ?ops" "xs_starts src p s" using assms t(2) starts_hd [of src p s] by (auto simp: fits_def)
  then obtain s' where f: "find (xs_starts src p) ?ops = Some s'"
    by (cases "find (xs_starts src p) ?ops") (auto simp: find_None_iff)
  then show "length s \<le> op_width (xs_lang_load cf) src p"
    using find_longest [OF t(1) f s] by (simp add: op_width_def)
  show "\<exists>s'. fits cf src p s' \<and> op_width (xs_lang_load cf) src p = length s'"
    using f find_SomeD [OF f] t(2) by (auto simp: op_width_def fits_def intro!: exI [of _ s'])
qed

lemma op_width_single: "(\<And>s. \<not> fits cf src p s) \<Longrightarrow> op_width (xs_lang_load cf) src p = 1"
proof -
  assume no: "\<And>s. \<not> fits cf src p s"
  have "set (ops (xs_lang_load cf) c) = {s. Some s \<in> set (cf_ops cf) \<and> s \<noteq> [] \<and> hd s = c}" for c
    using ops_table [of "\<lambda>_. []" "cf_ops cf"] by (auto simp: xs_lang_load_def ops_sorted_def)
  with no have "find (xs_starts src p) (ops (xs_lang_load cf) (xs_byte src p)) = None"
    by (auto simp: find_None_iff fits_def)
  then show ?thesis by (simp add: op_width_def)
qed

section \<open>The text of a token\<close>

definition kind_ok :: "xs_config \<Rightarrow> string \<Rightarrow> xs_token \<Rightarrow> bool" where
  "kind_ok cf src t \<longleftrightarrow>
     (tk t = K_KW \<longrightarrow> tok_text src t \<in> keywords_of cf)
     \<and> (tk t = K_ID \<longrightarrow> cf_lifetimes cf \<or> tok_text src t \<notin> keywords_of cf)
     \<and> (tk t = K_OP \<longrightarrow>
          (\<forall>s. fits cf src (ts t) s \<longrightarrow> length s \<le> length (tok_text src t))
          \<and> (fits cf src (ts t) (tok_text src t) \<or> length (tok_text src t) = 1 \<and> (\<forall>s. \<not> fits cf src (ts t) s)))"

definition adds :: "(xs_token \<Rightarrow> bool) \<Rightarrow> xs_scan \<Rightarrow> xs_scan \<Rightarrow> bool" where
  "adds P sc s \<longleftrightarrow> (\<exists>N. toks s = toks sc @ N \<and> (\<forall>t \<in> set N. P t))"

lemma adds_same: "toks s = toks sc \<Longrightarrow> adds P sc s"
  by (simp add: adds_def)

lemma adds_trans: "adds P a b \<Longrightarrow> adds P b c \<Longrightarrow> adds P a c"
  unfolding adds_def by (metis UnE append.assoc set_append)

lemma adds_push: "P \<lparr>tk = k, ts = a, te = b, tl = l1, tel = l2\<rparr> \<Longrightarrow> adds P sc (xs_push ok k a b l1 l2 sc)"
  using xs_push_toks [of ok k a b l1 l2 sc] by (auto simp: adds_def)

lemma kind_ok_other: "k \<notin> {K_KW, K_ID, K_OP} \<Longrightarrow> kind_ok cf src \<lparr>tk = k, ts = a, te = b, tl = l1, tel = l2\<rparr>"
  by (auto simp: kind_ok_def)

lemma adds_cong: "toks sc = toks sc' \<Longrightarrow> toks s = toks s' \<Longrightarrow> adds P sc s = adds P sc' s'"
  by (simp add: adds_def)

lemma adds_lines: "adds (kind_ok cf src) sc (take_lines ok src stop sc)"
proof -
  let ?l = "line sc + xs_count_nl src (pos sc) stop"
  have "adds (kind_ok cf src) (sc\<lparr>line := ?l\<rparr>) (xs_push ok K_STR (pos sc) stop (line sc) ?l (sc\<lparr>line := ?l\<rparr>))"
    by (intro adds_push kind_ok_other) simp
  then show ?thesis by (simp add: take_lines_def Let_def adds_def)
qed

lemma adds_word:
  "kind_ok cf src \<lparr>tk = k, ts = pos sc, te = stop, tl = line sc, tel = line sc\<rparr> \<Longrightarrow> adds (kind_ok cf src) sc (take_word ok k stop sc)"
  using adds_push [of "kind_ok cf src" k "pos sc" stop "line sc" "line sc" sc ok] by (simp add: take_word_def adds_def)

lemma adds_directive:
  assumes "part_directive ok g src sc = Some s"
  shows "adds (kind_ok cf src) sc s"
proof -
  obtain p l where d: "directive_end src (pos sc) 0 = (p, l)" by force
  define a where "a = xs_directive ok g (take (p - pos sc) (drop (pos sc - 1) src)) (sc\<lparr>line := line sc + l\<rparr>)"
  have a: "toks a = toks sc" by (simp add: a_def)
  define b where "b = xs_push ok K_DIR (pos a) (p - 1) (line sc) (line a) (a\<lparr>skip := False\<rparr>)"
  have b: "adds (kind_ok cf src) (a\<lparr>skip := False\<rparr>) b" unfolding b_def by (intro adds_push kind_ok_other) simp
  have "s = (if skip sc \<and> skip a then a else b\<lparr>skip := skip a\<rparr>)\<lparr>pos := p\<rparr>"
    using assms d unfolding part_directive_def b_def a_def by (auto simp: Let_def split: if_splits)
  with a b show ?thesis by (auto simp: adds_def)
qed

lemma adds_part_word:
  assumes "at_token src sc" and "part_word ok (xs_lang_load cf) src sc = Some s"
  shows "adds (kind_ok cf src) sc s"
proof -
  let ?g = "xs_lang_load cf"
  define stop where "stop = pos sc + run_of (id_char ?g) src (pos sc + 1)"
  define w where "w = take (stop + 1 - pos sc) (drop (pos sc - 1) src)"
  have s: "s = take_word ok (if xs_is_keyword (kw ?g) w = Some True then K_KW else K_ID) stop sc"
    using assms(2) unfolding part_word_def stop_def [symmetric] w_def Let_def by (auto split: if_splits)
  have "w \<noteq> []" using assms(1) by (auto simp: w_def stop_def at_token_def)
  then have k: "xs_is_keyword (kw ?g) w = Some (w \<in> keywords_of cf)" by (rule keyword_lookup)
  show ?thesis unfolding s k
    by (rule adds_word) (auto simp: kind_ok_def tok_text_def w_def)
qed

lemma adds_operator:
  assumes "at_token src sc"
  shows "adds (kind_ok cf src) sc (part_operator ok (xs_lang_load cf) src sc)"
proof -
  let ?g = "xs_lang_load cf" and ?c = "xs_byte src (pos sc)"
  let ?w = "op_width ?g src (pos sc)"
  let ?single = "?w = 1 \<and> \<not> skip sc"
  have w: "1 \<le> ?w" "pos sc + ?w - 1 \<le> length src"
    using op_width_bounds [OF lang_load_ok] assms(1) by (auto simp: at_token_def)
  define a where "a = (if ?single \<and> xs_is_open ?c then sc\<lparr>depth := depth sc + 1\<rparr>
      else if ?single \<and> xs_open_of ?c \<noteq> None then sc\<lparr>depth := depth sc - 1\<rparr> else sc)"
  have a: "toks a = toks sc" "pos a = pos sc" by (simp_all add: a_def)
  define b where "b = xs_push ok K_OP (pos a) (pos a + ?w - 1) (line a) (line a) a"
  let ?t = "\<lparr>tk = K_OP, ts = pos sc, te = pos sc + ?w - 1, tl = line a, tel = line a\<rparr>"
  have len: "length (tok_text src ?t) = ?w" using w assms by (auto simp: tok_text_def at_token_def)
  have "kind_ok cf src ?t"
  proof (cases "\<exists>s. fits cf src (pos sc) s")
    case True
    then obtain s where s: "fits cf src (pos sc) s" "?w = length s" using op_width_longest(2) by blast
    then have "tok_text src ?t = s" using w by (auto simp: fits_def xs_starts_def tok_text_def)
    with s(1) len op_width_longest(1) show ?thesis by (auto simp: kind_ok_def)
  next
    case False
    with len op_width_single [of cf src "pos sc"] show ?thesis by (auto simp: kind_ok_def)
  qed
  then have b: "adds (kind_ok cf src) a b" unfolding b_def a(2) by (rule adds_push)
  define c where "c = (if regex_literals ?g \<and> ?single \<and> \<not> oom b then xs_track_paren ok src ?c b else b)"
  have c: "toks c = toks b" "pos c = pos sc" by (simp_all add: c_def b_def a)
  have "part_operator ok ?g src sc = c\<lparr>pos := pos sc + ?w\<rparr>"
    using c(2) unfolding part_operator_def Let_def a_def [symmetric] b_def [symmetric] c_def [symmetric] by simp
  with b c a show ?thesis by (simp add: adds_def)
qed

lemma adds_drop: "adds P sc (drop_lines src stop sc)"
  by (simp add: adds_def drop_lines_def)

lemma adds_parts:
  assumes "at_token src sc" and "first_part (parts ok (xs_lang_load cf) src) sc = Some s"
  shows "adds (kind_ok cf src) sc s"
proof -
  let ?g = "xs_lang_load cf"
  have lt: "lifetimes ?g = cf_lifetimes cf" by (simp add: xs_lang_load_def)
  have id: "adds (kind_ok cf src) sc (take_word ok K_ID stop sc)" if "cf_lifetimes cf" for stop
    using that by (intro adds_word) (simp add: kind_ok_def)
  have other: "adds (kind_ok cf src) sc (take_word ok k stop sc)" if "k \<notin> {K_KW, K_ID, K_OP}" for k stop
    using that by (intro adds_word kind_ok_other)
  consider "part_line_comment ?g src sc = Some s" | "part_block_comment ?g src sc = Some s" | "part_template ok ?g src sc = Some s"
    | "part_regex ok ?g src sc = Some s" | "part_lifetime ok ?g src sc = Some s" | "part_raw_string ok ?g src sc = Some s"
    | "part_long_bracket ok ?g src sc = Some s" | "part_string ok ?g src sc = Some s" | "part_word ok ?g src sc = Some s"
    | "part_number ok ?g src sc = Some s"
    using first_part_in [OF assms(2)] by (auto simp: parts_def)
  then show ?thesis
  proof cases
    case 1
    then show ?thesis by (auto simp: part_line_comment_def Let_def adds_drop adds_same split: option.splits if_splits)
  next
    case 2
    then show ?thesis by (auto simp: part_block_comment_def adds_drop split: option.splits)
  next
    case 3
    then show ?thesis by (auto simp: part_template_def adds_lines split: if_splits)
  next
    case 4
    then show ?thesis by (auto simp: part_regex_def other split: if_splits)
  next
    case 5
    then show ?thesis by (auto simp: part_lifetime_def lt id split: if_splits)
  next
    case 6
    then show ?thesis by (auto simp: part_raw_string_def adds_lines split: if_splits)
  next
    case 7
    then show ?thesis by (auto simp: part_long_bracket_def adds_lines split: if_splits)
  next
    case 8
    then show ?thesis by (auto simp: part_string_def Let_def adds_lines split: option.splits)
  next
    case 9
    then show ?thesis by (rule adds_part_word [OF assms(1)])
  next
    case 10
    then show ?thesis by (auto simp: part_number_def Let_def other split: if_splits)
  qed
qed

section \<open>The run\<close>

lemma adds_dedents: "levels_ok (ind sc) \<Longrightarrow> adds (kind_ok cf src) sc (dedents ok w sc)"
  using dedents_spec [of sc ok w] by (fastforce simp: adds_def zero_width_def kind_ok_def)

lemma adds_indentation:
  assumes "levels_ok (ind sc)" and "indentation ok g src sc = Some s"
  shows "adds (kind_ok cf src) sc s"
  using indentation_spec [OF assms] by (fastforce simp: adds_def zero_width_def kind_ok_def)

lemma adds_token_turn:
  assumes "at_token src sc"
  shows "adds (kind_ok cf src) sc (token_turn ok (xs_lang_load cf) src sc)"
proof (cases "part_directive ok (xs_lang_load cf) src sc")
  case None
  let ?s = "sc\<lparr>bol := False\<rparr>"
  have at: "at_token src ?s" using assms by (simp add: at_token_def)
  have same: "adds P ?s s = adds P sc s" for P s by (simp add: adds_def)
  show ?thesis
    using None adds_parts [OF at, of ok cf] adds_operator [OF at, of cf ok]
    by (auto simp: token_turn_def Let_def same split: option.split)
next
  case (Some s)
  then show ?thesis using adds_directive [OF Some, of cf] by (simp add: token_turn_def adds_def)
qed

lemma adds_turn:
  assumes "1 \<le> pos sc" and "pos sc \<le> length src" and "levels_ok (ind sc)"
  shows "adds (kind_ok cf src) sc (xs_turn ok (xs_lang_load cf) src sc)"
proof -
  let ?g = "xs_lang_load cf" and ?c = "xs_byte src (pos sc)"
  have nl: "adds (kind_ok cf src) sc (newline ok ?g sc)"
    using adds_push [of "kind_ok cf src" K_NL "pos sc" "pos sc" "line sc" "line sc" sc ok] kind_ok_other [of K_NL cf src]
    by (auto simp: newline_def Let_def adds_def)
  have tk: "adds (kind_ok cf src) sc (token_turn ok ?g src a)"
    if "indentation ok ?g src sc = Some a" "?c \<noteq> nl_c" for a
  proof (rule adds_trans [OF adds_indentation [OF assms(3) that(1)]])
    show "adds (kind_ok cf src) a (token_turn ok ?g src a)"
      by (rule adds_token_turn) (use assms that indentation_spec [OF assms(3) that(1)] in \<open>simp add: at_token_def\<close>)
  qed
  show ?thesis
  proof (cases "?c = nl_c \<or> xs_is_space ?c \<or> continues ?g src (pos sc)")
    case True
    consider "?c = nl_c" | "?c \<noteq> nl_c" "xs_is_space ?c" | "?c \<noteq> nl_c" "\<not> xs_is_space ?c" "continues ?g src (pos sc)"
      using True by blast
    then show ?thesis
    proof cases
      case 1
      with nl show ?thesis by (simp add: xs_turn_def)
    qed (simp_all add: xs_turn_def adds_same)
  next
    case False
    with tk show ?thesis by (cases "indentation ok ?g src sc") (simp_all add: xs_turn_def adds_same)
  qed
qed

lemma adds_loop:
  assumes "scan_inv (xs_lang_load cf) src sc" and "xs_loop ok (xs_lang_load cf) src n sc = Some s"
  shows "adds (kind_ok cf src) sc s"
  using assms
proof (induction n arbitrary: sc)
  case (Suc n)
  let ?g = "xs_lang_load cf"
  show ?case
  proof (cases "pos sc \<le> length src \<and> \<not> oom sc")
    case True
    let ?t = "xs_turn ok ?g src sc"
    have a: "adds (kind_ok cf src) sc ?t" by (rule adds_turn) (use Suc.prems(1) True in \<open>auto simp: scan_inv_def\<close>)
    have l: "xs_loop ok ?g src n ?t = Some s" using Suc.prems(2) True by simp
    show ?thesis
    proof (cases "turn_spec ?g src sc ?t")
      case t: True
      show ?thesis by (rule adds_trans [OF a Suc.IH [OF scan_inv_turn [OF Suc.prems(1) t] l]])
    next
      case False
      with scan_inv_oom [OF Suc.prems(1) refl lang_load_ok] True have "oom ?t" by blast
      with l have "s = ?t" by (cases n) auto
      with a show ?thesis by simp
    qed
  next
    case False
    with Suc.prems show ?thesis by (auto intro: adds_same)
  qed
qed simp

lemma adds_finish: "adds (kind_ok cf src) sc (xs_finish ok g src sc)"
proof -
  let ?n = "length src"
  have c: "adds (kind_ok cf src) s (close_blocks ok n k s)" for n k s
    using close_blocks_toks [of ok n k s] by (fastforce simp: adds_def kind_ok_def)
  have p: "adds (kind_ok cf src) sc (xs_push ok K_NL (?n + 1) ?n (line sc) (line sc) sc)"
    by (intro adds_push kind_ok_other) simp
  show ?thesis using adds_trans [OF p c] c adds_same [of sc sc] unfolding xs_finish_def Let_def by auto
qed

lemma tokens_kind_ok:
  assumes "xs_tokenize ok (xs_lang_load cf) src = Some (Inr t)"
  shows "\<forall>x \<in> set (raw_toks t). kind_ok cf src x"
proof -
  let ?g = "xs_lang_load cf"
  obtain s where s: "xs_loop ok ?g src (length src + 1) xs_start = Some s" "raw_toks t = toks (xs_finish ok ?g src s)"
    using assms by (auto simp: xs_tokenize_def Let_def split: if_splits option.splits)
  have "adds (kind_ok cf src) xs_start (xs_finish ok ?g src s)"
    by (rule adds_trans [OF adds_loop [OF scan_inv_start s(1)] adds_finish])
  then show ?thesis using s(2) by (auto simp: adds_def xs_start_def)
qed

end
