(* ===== verification/XScanMatch.thy ===== *)
theory XScanMatch
  imports XScanRun
begin

text \<open>
  The bracket matcher against a grammar: what stands between an opening and its closing token is plain, closes
  something else (and stays unmatched), or is a group of its own.
\<close>

section \<open>The grammar\<close>

datatype bracket = Bracket char | Block

datatype side = Opens bracket | Closes bracket | Plain

definition side_of :: "string \<Rightarrow> xs_token \<Rightarrow> side" where
  "side_of src t =
     (case single_op src t of
        Some c \<Rightarrow>
          if xs_is_open c then Opens (Bracket c)
          else (case xs_open_of c of Some oc \<Rightarrow> Closes (Bracket oc) | None \<Rightarrow> Plain)
      | None \<Rightarrow> if tk t = K_INDENT then Opens Block else if tk t = K_DEDENT then Closes Block else Plain)"

inductive inside :: "bracket \<Rightarrow> side list \<Rightarrow> bool" where
  empty: "inside k []"
| plain: "inside k xs \<Longrightarrow> inside k (Plain # xs)"
| stray: "k' \<noteq> k \<Longrightarrow> inside k xs \<Longrightarrow> inside k (Closes k' # xs)"
| group: "inside k' ys \<Longrightarrow> inside k xs \<Longrightarrow> inside k (Opens k' # ys @ Closes k' # xs)"

definition paired :: "side list \<Rightarrow> nat \<Rightarrow> nat \<Rightarrow> bool" where
  "paired cs j i \<longleftrightarrow>
     j < i \<and> i < length cs
     \<and> (\<exists>k. cs ! j = Opens k \<and> cs ! i = Closes k \<and> inside k (take (i - Suc j) (drop (Suc j) cs)))"

lemma inside_append: "inside k xs \<Longrightarrow> inside k ys \<Longrightarrow> inside k (xs @ ys)"
  by (induction rule: inside.induct) (auto intro: inside.intros)

lemma inside_snoc: "inside k xs \<Longrightarrow> inside k [c] \<Longrightarrow> inside k (xs @ [c])"
  by (rule inside_append)

section \<open>The stack\<close>

primrec open_stack :: "side list \<Rightarrow> nat \<Rightarrow> nat list" where
  "open_stack cs 0 = []"
| "open_stack cs (Suc n) =
     (case cs ! n of
        Opens k \<Rightarrow> n # open_stack cs n
      | Plain \<Rightarrow> open_stack cs n
      | Closes k \<Rightarrow> (case open_stack cs n of [] \<Rightarrow> [] | j # s \<Rightarrow> if cs ! j = Opens k then s else j # s))"

lemma stack_Suc: "x \<in> set (open_stack cs (Suc n)) \<Longrightarrow> x = n \<and> (\<exists>k. cs ! n = Opens k) \<or> x \<in> set (open_stack cs n)"
  by (cases "cs ! n"; cases "open_stack cs n") (auto split: if_splits)

lemma stack_bound: "a \<le> b \<Longrightarrow> set (open_stack cs b) \<subseteq> set (open_stack cs a) \<union> {a..<b}"
proof (induction b)
  case (Suc b)
  show ?case
  proof (cases "a = Suc b")
    case False
    with Suc have "set (open_stack cs b) \<subseteq> set (open_stack cs a) \<union> {a..<b}" by simp
    with stack_Suc [of _ cs b] False Suc.prems show ?thesis by fastforce
  qed simp
qed simp

lemma stack_less: "x \<in> set (open_stack cs n) \<Longrightarrow> x < n"
  using stack_bound [of 0 n cs] by auto

lemma stack_open: "x \<in> set (open_stack cs n) \<Longrightarrow> \<exists>k. cs ! x = Opens k"
proof (induction n)
  case (Suc n)
  with stack_Suc [OF Suc.prems] show ?case by auto
qed simp

text \<open>What lies inside leaves the stack as it was.\<close>

lemma stack_inside:
  assumes "inside k xs" and "cs = pre @ xs @ post" and "open_stack cs (length pre) = j # s" and "cs ! j = Opens k"
  shows "open_stack cs (length pre + length xs) = j # s"
  using assms
proof (induction arbitrary: pre post j s rule: inside.induct)
  case (plain k xs)
  then have "open_stack cs (length (pre @ [Plain]) + length xs) = j # s"
    by (intro plain.IH [of "pre @ [Plain]" post]) simp_all
  then show ?case by simp
next
  case (stray k' k xs)
  then have "open_stack cs (length (pre @ [Closes k']) + length xs) = j # s"
    by (intro stray.IH [of "pre @ [Closes k']" post]) auto
  then show ?case by simp
next
  case (group k' ys k xs)
  let ?p = "pre @ [Opens k']"
  have "open_stack cs (length ?p + length ys) = length pre # j # s"
    by (rule group.IH(1) [of ?p "Closes k' # xs @ post"]) (use group.prems in simp_all)
  moreover have "cs ! (length ?p + length ys) = Closes k'" "cs ! length pre = Opens k'"
    using group.prems(1) by (simp_all add: nth_append)
  ultimately have "open_stack cs (length (?p @ ys @ [Closes k'])) = j # s" by simp
  then have "open_stack cs (length (?p @ ys @ [Closes k']) + length xs) = j # s"
    using group.prems by (intro group.IH(2) [of _ post]) simp_all
  then show ?case by (simp add: algebra_simps)
qed simp

lemma paired_top:
  assumes "paired cs j i"
  shows "\<exists>s. open_stack cs i = j # s"
proof -
  from assms obtain k where k: "j < i" "i < length cs" "cs ! j = Opens k" "inside k (take (i - Suc j) (drop (Suc j) cs))"
    by (auto simp: paired_def)
  let ?pre = "take (Suc j) cs" and ?xs = "take (i - Suc j) (drop (Suc j) cs)"
  have l: "length ?pre = Suc j" "length ?xs = i - Suc j" using k by auto
  have e: "cs = ?pre @ ?xs @ drop (i - Suc j) (drop (Suc j) cs)" by (simp only: append_take_drop_id)
  have "open_stack cs (length ?pre) = j # open_stack cs j" using k l by simp
  from stack_inside [OF k(4) e this k(3)] show ?thesis using l k by auto
qed

text \<open>What stands after an open token, up to the next one that is open or to the end, lies inside it.\<close>

fun segments :: "side list \<Rightarrow> nat \<Rightarrow> nat list \<Rightarrow> bool" where
  "segments cs n [] \<longleftrightarrow> True"
| "segments cs n (j # s) \<longleftrightarrow>
     j < n \<and> (\<exists>k. cs ! j = Opens k \<and> inside k (take (n - Suc j) (drop (Suc j) cs))) \<and> segments cs j s"

lemma take_segment:
  assumes "j < n" and "n < length cs"
  shows "take (Suc n - Suc j) (drop (Suc j) cs) = take (n - Suc j) (drop (Suc j) cs) @ [cs ! n]"
proof -
  have "Suc n - Suc j = Suc (n - Suc j)" using assms by simp
  then show ?thesis using assms by (simp add: take_Suc_conv_app_nth)
qed

lemma segments_keep:
  assumes "segments cs n (j # s)" and "n < length cs" and "\<And>k. cs ! j = Opens k \<Longrightarrow> inside k [cs ! n]"
  shows "segments cs (Suc n) (j # s)"
proof -
  from assms(1) obtain k where "j < n" "cs ! j = Opens k" "inside k (take (n - Suc j) (drop (Suc j) cs))" by auto
  then have "inside k (take (Suc n - Suc j) (drop (Suc j) cs))"
    using take_segment [of j n cs] assms(2,3) by (metis inside_snoc)
  with assms(1) \<open>cs ! j = Opens k\<close> show ?thesis by auto
qed

lemma segments_pop:
  assumes "segments cs n (j # s)" and "n < length cs" and "cs ! j = Opens k" and "cs ! n = Closes k"
  shows "segments cs (Suc n) s"
proof (cases s)
  case (Cons i s')
  with assms(1) obtain k' where k: "i < j" "j < n" "cs ! i = Opens k'" "inside k' (take (j - Suc i) (drop (Suc i) cs))"
    "inside k (take (n - Suc j) (drop (Suc j) cs))" "segments cs i s'"
    using assms(3) by auto
  have "take (Suc n - Suc i) (drop (Suc i) cs)
      = take (j - Suc i) (drop (Suc i) cs) @ Opens k # take (n - Suc j) (drop (Suc j) cs) @ [Closes k]" (is "?l = ?r")
  proof -
    have "?l = take (n - Suc i) (drop (Suc i) cs) @ [Closes k]" using take_segment [of i n cs] k assms by simp
    also have "take (n - Suc i) (drop (Suc i) cs)
        = take (j - Suc i) (drop (Suc i) cs) @ take (n - j) (drop (j - Suc i) (drop (Suc i) cs))"
    proof -
      have "n - Suc i = (j - Suc i) + (n - j)" using k by simp
      then show ?thesis by (simp only: take_add)
    qed
    also have "drop (j - Suc i) (drop (Suc i) cs) = drop j cs" using k by simp
    also have "take (n - j) (drop j cs) = Opens k # take (n - Suc j) (drop (Suc j) cs)"
    proof -
      have "drop j cs = Opens k # drop (Suc j) cs" using k assms by (metis Cons_nth_drop_Suc order.strict_trans)
      moreover have "n - j = Suc (n - Suc j)" using k by simp
      ultimately show ?thesis by simp
    qed
    finally show ?thesis by simp
  qed
  moreover have "inside k' (Opens k # take (n - Suc j) (drop (Suc j) cs) @ Closes k # [])"
    using k(5) by (intro inside.group inside.empty)
  ultimately have "inside k' (take (Suc n - Suc i) (drop (Suc i) cs))"
    using inside_append [OF k(4)] by simp
  with Cons k show ?thesis by auto
qed simp

lemma stack_segments: "n \<le> length cs \<Longrightarrow> segments cs n (open_stack cs n)"
proof (induction n)
  case (Suc n)
  then have IH: "segments cs n (open_stack cs n)" and n: "n < length cs" by auto
  have keep: "segments cs (Suc n) (open_stack cs n)"
    if "\<And>j s k. open_stack cs n = j # s \<Longrightarrow> cs ! j = Opens k \<Longrightarrow> inside k [cs ! n]"
  proof (cases "open_stack cs n")
    case (Cons j s)
    with IH n that segments_keep [of cs n j s] show ?thesis by metis
  qed simp
  show ?case
  proof (cases "cs ! n")
    case (Opens k)
    with IH n show ?thesis by (auto intro: inside.empty)
  next
    case Plain
    with keep show ?thesis by (auto intro: inside.intros)
  next
    case (Closes k)
    show ?thesis
    proof (cases "open_stack cs n")
      case (Cons j s)
      show ?thesis
      proof (cases "cs ! j = Opens k")
        case True
        with Cons Closes IH n segments_pop [of cs n j s k] show ?thesis by simp
      next
        case False
        have "segments cs (Suc n) (j # s)"
          using keep Cons Closes False by (auto intro!: inside.stray inside.empty)
        with Cons Closes False show ?thesis by simp
      qed
    qed (use Closes in simp)
  qed
qed simp

lemma top_paired:
  assumes "open_stack cs n = j # s" and "n < length cs" and "cs ! j = Opens k" and "cs ! n = Closes k"
  shows "paired cs j n"
  using stack_segments [of n cs] assms by (auto simp: paired_def)

lemma paired_once: "paired cs j y \<Longrightarrow> paired cs j n \<Longrightarrow> y = n"
proof -
  have no: False if p: "paired cs j y" "paired cs j n" and "y < n" for y n
  proof -
    obtain s where s: "open_stack cs y = j # s" using paired_top [OF p(1)] by blast
    have k: "\<exists>k. cs ! j = Opens k \<and> cs ! y = Closes k" and l: "j < y" "y < length cs" using p(1) by (auto simp: paired_def)
    then have "open_stack cs (Suc y) = s" using s by auto
    moreover have "segments cs y (j # s)" using stack_segments [of y cs] s l by simp
    then have "j \<notin> set s"
    proof -
      assume sg: "segments cs y (j # s)"
      have "segments cs m t \<Longrightarrow> x \<in> set t \<Longrightarrow> x < m" for m t x
        by (induction cs m t rule: segments.induct) auto
      with sg show ?thesis by auto
    qed
    ultimately have "j \<notin> set (open_stack cs n)"
      using stack_bound [of "Suc y" n cs] \<open>y < n\<close> l by auto
    moreover obtain t where "open_stack cs n = j # t" using paired_top [OF p(2)] by blast
    ultimately show False by simp
  qed
  assume "paired cs j y" "paired cs j n"
  then show ?thesis using no by (meson linorder_less_linear)
qed

section \<open>The matcher\<close>

primrec match_table :: "side list \<Rightarrow> nat \<Rightarrow> nat list" where
  "match_table cs 0 = replicate (length cs) 0"
| "match_table cs (Suc n) =
     (case (cs ! n, open_stack cs n) of
        (Closes k, j # s) \<Rightarrow> if cs ! j = Opens k then pair_up j n (match_table cs n) else match_table cs n
      | _ \<Rightarrow> match_table cs n)"

lemma match_table_length [simp]: "length (match_table cs n) = length cs"
  by (induction n) (auto simp: pair_up_def split: side.splits list.splits)

lemma match_table_correct:
  "n \<le> length cs \<Longrightarrow> x < length cs \<Longrightarrow>
     match_table cs n ! x = Suc y \<longleftrightarrow> paired cs x y \<and> y < n \<or> paired cs y x \<and> x < n"
proof (induction n arbitrary: x y)
  case (Suc n)
  have same: "match_table cs n ! x = Suc y \<longleftrightarrow> paired cs x y \<and> y < Suc n \<or> paired cs y x \<and> x < Suc n"
    if "\<And>z. \<not> paired cs z n"
    using Suc.IH [of x y] Suc.prems that by (auto simp: less_Suc_eq)
  show ?case
  proof (cases "\<exists>j s k. cs ! n = Closes k \<and> open_stack cs n = j # s \<and> cs ! j = Opens k")
    case True
    then obtain j s k where c: "cs ! n = Closes k" "open_stack cs n = j # s" "cs ! j = Opens k" by blast
    then have p: "paired cs j n" and jn: "j < n" using top_paired [of cs n j s k] Suc.prems by (auto simp: paired_def)
    have only: "z = j" if "paired cs z n" for z using paired_top [OF that] c(2) by auto
    have t: "match_table cs (Suc n) = (match_table cs n)[j := Suc n, n := Suc j]" using c by (simp add: pair_up_def)
    have nn: "\<not> paired cs n y" if "y < Suc n" for y using that by (auto simp: paired_def)
    have nj: "\<not> paired cs z j" for z using c(3) by (auto simp: paired_def)
    consider "x = n" | "x = j" "x \<noteq> n" | "x \<noteq> n" "x \<noteq> j" by blast
    then show ?thesis
    proof cases
      case 1
      have "match_table cs (Suc n) ! n = Suc j" unfolding t using Suc.prems by simp
      then show ?thesis unfolding 1 using p only [of y] nn [of y] by auto
    next
      case 2
      have "match_table cs (Suc n) ! j = Suc n" unfolding t using Suc.prems jn by simp
      then show ?thesis unfolding 2(1) using p nj [of y] paired_once [OF p, of y] by auto
    next
      case 3
      have "match_table cs (Suc n) ! x = match_table cs n ! x" unfolding t using 3 by simp
      moreover have "\<not> paired cs x n" using only 3 by blast
      ultimately show ?thesis using Suc.IH [of x y] Suc.prems 3 by (auto simp: less_Suc_eq)
    qed
  next
    case False
    have no: "\<not> paired cs z n" for z
    proof
      assume p: "paired cs z n"
      with paired_top obtain s where "open_stack cs n = z # s" by blast
      with False p show False unfolding paired_def by blast
    qed
    have "match_table cs (Suc n) = match_table cs n"
    proof (cases "cs ! n")
      case (Closes k)
      with False show ?thesis by (cases "open_stack cs n") simp_all
    qed simp_all
    then show ?thesis using same [OF no] by simp
  qed
qed simp

lemma side_top:
  assumes "side_of src t = Opens k"
  shows "tk t = K_OP \<and> xs_byte src (ts t) = c \<longleftrightarrow> k = Bracket c" and "tk t = K_INDENT \<longleftrightarrow> k = Block"
  using assms by (auto simp: side_of_def single_op_def split: option.splits if_splits)

lemma match1_step:
  assumes "n < length tt"
  shows "xs_match1 src tt (open_stack (map (side_of src) tt) n, m) n
    = (case side_of src (tt ! n) of
        Opens k \<Rightarrow> (n # open_stack (map (side_of src) tt) n, m)
      | Plain \<Rightarrow> (open_stack (map (side_of src) tt) n, m)
      | Closes k \<Rightarrow> (case open_stack (map (side_of src) tt) n of
                       [] \<Rightarrow> ([], m)
                     | j # s \<Rightarrow> if side_of src (tt ! j) = Opens k then (s, pair_up j n m) else (j # s, m)))"
proof (cases "open_stack (map (side_of src) tt) n")
  case Nil
  then show ?thesis by (auto simp: xs_match1_def side_of_def Let_def split: option.splits)
next
  case (Cons j s)
  then have j: "j < length tt" using stack_less [of j "map (side_of src) tt" n] assms by auto
  obtain k where k: "side_of src (tt ! j) = Opens k"
    using stack_open [of j "map (side_of src) tt" n] Cons j by auto
  note top = side_top [OF k]
  show ?thesis
  proof (cases "single_op src (tt ! n)")
    case None
    then show ?thesis unfolding Cons xs_match1_def Let_def by (simp add: side_of_def [of src "tt ! n"] top k)
  next
    case (Some c)
    then show ?thesis unfolding Cons xs_match1_def Let_def
      by (cases "xs_open_of c") (simp_all add: side_of_def [of src "tt ! n"] top k)
  qed
qed

lemma xs_match_run:
  "n \<le> length tt \<Longrightarrow>
     foldl (xs_match1 src tt) ([], replicate (length tt) 0) [0..<n]
     = (open_stack (map (side_of src) tt) n, match_table (map (side_of src) tt) n)"
proof (induction n)
  case (Suc n)
  let ?cs = "map (side_of src) tt"
  have n: "n < length tt" "?cs ! n = side_of src (tt ! n)" using Suc.prems by simp_all
  have "xs_match1 src tt (open_stack ?cs n, match_table ?cs n) n = (open_stack ?cs (Suc n), match_table ?cs (Suc n))"
  proof (cases "open_stack ?cs n")
    case Nil
    then show ?thesis using match1_step [of n tt src "match_table ?cs n"] n by (cases "side_of src (tt ! n)") simp_all
  next
    case (Cons j s)
    then have "j < length tt" using stack_less [of j ?cs n] n by auto
    then show ?thesis using match1_step [of n tt src "match_table ?cs n"] n Cons
      by (cases "side_of src (tt ! n)") simp_all
  qed
  then show ?case using Suc by simp
qed simp

lemma xs_matches_correct:
  assumes "x < length tt"
  shows "xs_matches src tt ! x = Suc y \<longleftrightarrow> paired (map (side_of src) tt) x y \<or> paired (map (side_of src) tt) y x"
proof -
  have "xs_matches src tt = match_table (map (side_of src) tt) (length tt)"
    by (simp add: xs_matches_def xs_match_run)
  then show ?thesis using match_table_correct [of "length tt" "map (side_of src) tt" x y] assms
    by (auto simp: paired_def)
qed

lemma xs_matches_length [simp]: "length (xs_matches src tt) = length tt"
  by (simp add: xs_matches_def xs_match_run)

end
