(* ===== verification/XScanProps.thy ===== *)
theory XScanProps
  imports XScanKinds XScanMatch
begin

text \<open>
  The properties of the tokenizer, with two small languages on which they are tried.
\<close>

section \<open>Two languages\<close>

definition blank_config :: xs_config where
  "blank_config =
     \<lparr>cf_ident_start = None, cf_ident_char = None, cf_string_prefixes = None, cf_directive = None, cf_keywords = None,
      cf_ops = [], cf_line_comment = [], cf_block_comment = [], cf_strings = [], cf_pp_first_branch = False,
      cf_indent = False, cf_long_brackets = False, cf_template_literals = False, cf_regex_literals = False,
      cf_lifetimes = False, cf_raw_strings = False, cf_nested_comments = False\<rparr>"

definition c_config :: xs_config where
  "c_config = blank_config\<lparr>cf_keywords := Some [Some ''if''], cf_ops := [Some ''->'']\<rparr>"

definition js_config :: xs_config where
  "js_config = blank_config\<lparr>cf_regex_literals := True\<rparr>"

lemma lang_fields:
  "id_start (xs_lang_load cf) = xs_char_set (xs_opt_field (cf_ident_start cf) ''A-Za-z_'')"
  "id_char (xs_lang_load cf) = xs_char_set (xs_opt_field (cf_ident_char cf) ''A-Za-z0-9_'')"
  "str_prefix (xs_lang_load cf) = prefix_set (xs_opt_field (cf_string_prefixes cf) '''')"
  "ops (xs_lang_load cf) = foldl op_add (\<lambda>_. []) (cf_ops cf)"
  "line_comments (xs_lang_load cf) = take XS_MAX_LIST (List.map_filter xs_read_str (cf_line_comment cf))"
  "block_comments (xs_lang_load cf) = take XS_MAX_LIST (List.map_filter read_block (cf_block_comment cf))"
  "str_delims (xs_lang_load cf) = take XS_MAX_LIST (List.map_filter read_string (cf_strings cf))"
  "lang_directive (xs_lang_load cf) = map_option hd (xs_read_str (cf_directive cf))"
  "pp_first_branch (xs_lang_load cf) = cf_pp_first_branch cf"
  "lang_indent (xs_lang_load cf) = cf_indent cf"
  "long_brackets (xs_lang_load cf) = cf_long_brackets cf"
  "template_literals (xs_lang_load cf) = cf_template_literals cf"
  "regex_literals (xs_lang_load cf) = cf_regex_literals cf"
  "lifetimes (xs_lang_load cf) = cf_lifetimes cf"
  "raw_strings (xs_lang_load cf) = cf_raw_strings cf"
  "nested_comments (xs_lang_load cf) = cf_nested_comments cf"
  by (simp_all add: xs_lang_load_def)

lemma xs_loop_numeral:
  "xs_loop ok g src (numeral k) sc =
     (if pos sc \<le> length src \<and> \<not> oom sc then xs_loop ok g src (pred_numeral k) (xs_turn ok g src sc) else Some sc)"
  by (simp add: numeral_eq_Suc)

lemmas scan_eval = lang_fields c_config_def js_config_def blank_config_def xs_opt_field_def xs_char_set_def prefix_set_def
  xs_loop_numeral xs_turn_def token_turn_def parts_def part_directive_def part_line_comment_def part_block_comment_def
  part_template_def part_regex_def part_lifetime_def part_raw_string_def part_long_bracket_def part_string_def
  part_word_def part_number_def part_operator_def xs_byte_def xs_is_space_def continues_def indentation_def
  XS_MAX_LIST_def map_filter_simps xs_read_str_def read_block_def read_string_def run_of_def xs_is_digit_def
  keyword_lookup keywords_of_def take_word_def xs_push_def xs_grow_def op_width_def op_add_def op_insert_def
  xs_is_open_def xs_open_of_def xs_starts_def newline_def xs_finish_def xs_start_def last_kind_def xs_regex_allowed_def
  xs_track_paren_def xs_scan_regex_def scan_regex.simps
  xs_tokenize_def l_tokenize_def xs_matches_def xs_match1_def single_op_def pair_up_def

definition if_source :: string where
  "if_source = ''if(a->b)''"

definition if_tokens :: xs_raw where
  "if_tokens = \<lparr>raw_toks =
       [\<lparr>tk = K_KW, ts = 1, te = 2, tl = 1, tel = 1\<rparr>, \<lparr>tk = K_OP, ts = 3, te = 3, tl = 1, tel = 1\<rparr>,
        \<lparr>tk = K_ID, ts = 4, te = 4, tl = 1, tel = 1\<rparr>, \<lparr>tk = K_OP, ts = 5, te = 6, tl = 1, tel = 1\<rparr>,
        \<lparr>tk = K_ID, ts = 7, te = 7, tl = 1, tel = 1\<rparr>, \<lparr>tk = K_OP, ts = 8, te = 8, tl = 1, tel = 1\<rparr>],
     raw_m = [0, 6, 0, 0, 0, 2], raw_src = ''if(a->b)''\<rparr>"

lemma if_scan: "l_tokenize (\<lambda>_. True) (xs_lang_load c_config) if_source = Some (Inr if_tokens)"
  by (simp add: scan_eval if_source_def if_tokens_def)

lemma l_tokenize_xs: "l_tokenize ok g src = Some (Inr t) \<Longrightarrow> xs_tokenize ok g src = Some (Inr t)"
  by (auto simp: l_tokenize_def split: if_splits)

section \<open>Properties\<close>

definition in_source :: "string \<Rightarrow> xs_token \<Rightarrow> bool" where
  "in_source src x \<longleftrightarrow>
     1 \<le> ts x \<and> ts x \<le> te x + 1 \<and> te x \<le> length src \<and> (tk x \<notin> {K_NL, K_INDENT, K_DEDENT} \<longrightarrow> ts x \<le> te x)"

lemma l_text_bytes:
  assumes "i < length (raw_toks t)" and "in_source (raw_src t) (raw_toks t ! i)"
  shows "l_text t (int i + 1) = take (te (raw_toks t ! i) + 1 - ts (raw_toks t ! i)) (drop (ts (raw_toks t ! i) - 1) (raw_src t))"
  using assms by (auto simp: l_text_def xs_index_def tok_text_def in_source_def)

text \<open>C35. The tokens of every source in every language stand in the order of the source, do not overlap and lie inside
  it; all but line ends and indentation have at least a byte, and the text the methods return is exactly those bytes.\<close>

theorem tokens_in_source:
  assumes "l_tokenize ok (xs_lang_load cf) src = Some (Inr t)"
  shows "sorted_wrt (\<lambda>a b. te a < ts b) (raw_toks t)
    \<and> (\<forall>i < length (raw_toks t).
         in_source src (raw_toks t ! i)
         \<and> l_text t (int i + 1) = take (te (raw_toks t ! i) + 1 - ts (raw_toks t ! i)) (drop (ts (raw_toks t ! i) - 1) src))"
proof -
  note k = xs_tokenize_Some [OF lang_load_ok l_tokenize_xs [OF assms]]
  have o: "sorted_wrt (\<lambda>a b. te a < ts b) (raw_toks t)" using k(1) by (simp add: tokens_ok_def before_def [abs_def])
  have i: "in_source src (raw_toks t ! i)" if "i < length (raw_toks t)" for i
    using k(1) nth_mem [OF that] by (auto simp: tokens_ok_def tok_ok_def in_source_def)
  from o i l_text_bytes [of _ t] k(3) show ?thesis by simp
qed

theorem tokens_in_source_witness:
  "sorted_wrt (\<lambda>a b. te a < ts b) (raw_toks if_tokens) \<and> l_text if_tokens 4 = ''->'' \<and> length (raw_toks if_tokens) = 6"
proof -
  note p = tokens_in_source [OF if_scan]
  have "3 < length (raw_toks if_tokens)" by (simp add: if_tokens_def)
  with p have "l_text if_tokens (int 3 + 1) = take (te (raw_toks if_tokens ! 3) + 1 - ts (raw_toks if_tokens ! 3))
      (drop (ts (raw_toks if_tokens ! 3) - 1) if_source)" by blast
  then have "l_text if_tokens 4 = ''->''" by (simp add: if_tokens_def if_source_def)
  with p show ?thesis by (simp add: if_tokens_def)
qed

text \<open>C36. The tokenizer ends for every source and language, whatever allocations fail: it gives the tokens, refuses a
  source for its size, or runs out of memory, and that only when an allocation did fail.\<close>

theorem tokenizer_total:
  "case l_tokenize ok (xs_lang_load cf) src of
     None \<Rightarrow> False
   | Some (Inl Too_large) \<Rightarrow> length src > 0x7ffffff0
   | Some (Inl Out_of_memory) \<Rightarrow> length src \<le> 0x7ffffff0 \<and> (\<exists>n. \<not> ok n)
   | Some (Inr t) \<Rightarrow> length src \<le> 0x7ffffff0 \<and> raw_src t = src \<and> length (raw_m t) = length (raw_toks t)"
proof (cases "length src > 0x7ffffff0")
  case False
  let ?g = "xs_lang_load cf"
  obtain s where s: "xs_loop ok ?g src (length src + 1) xs_start = Some s"
    using xs_loop_ends [OF scan_inv_start lang_load_ok, of src "length src + 1" ok] by (auto simp: xs_start_def)
  have mem: "\<exists>n. \<not> ok n" if "oom (xs_finish ok ?g src s)"
  proof (rule ccontr)
    assume "\<not> (\<exists>n. \<not> ok n)"
    then have "\<forall>n. ok n" by blast
    from loop_all_ok [OF this s] finish_all_ok [OF this] that show False by (simp add: xs_start_def)
  qed
  show ?thesis
    using False s mem by (auto simp: l_tokenize_def xs_tokenize_def Let_def)
qed (simp add: l_tokenize_def)

text \<open>C34. The match table is exact: two tokens are matched if and only if one opens a bracket or an indented block, the
  other closes the same kind, and between them stand only groups of their own, plain tokens and closing tokens of other
  kinds; so one stray bracket never shifts the pairs around it.\<close>

theorem match_is_grammar:
  assumes "l_tokenize ok (xs_lang_load cf) src = Some (Inr t)" and "i < length (raw_toks t)"
  shows "l_match t (int i + 1) = Some (j + 1) \<longleftrightarrow>
     paired (map (side_of src) (raw_toks t)) i j \<or> paired (map (side_of src) (raw_toks t)) j i"
proof -
  note k = xs_tokenize_Some [OF lang_load_ok l_tokenize_xs [OF assms(1)]]
  have "l_match t (int i + 1) = Some (j + 1) \<longleftrightarrow> xs_matches src (raw_toks t) ! i = Suc j"
    using assms(2) k(2) by (auto simp: l_match_def xs_index_def)
  with xs_matches_correct [OF assms(2), of src j] show ?thesis by simp
qed

theorem match_is_grammar_witness:
  "l_match if_tokens 2 = Some 6 \<and> paired (map (side_of if_source) (raw_toks if_tokens)) 1 5
   \<and> \<not> paired (map (side_of if_source) (raw_toks if_tokens)) 3 5"
proof -
  have m: "l_match if_tokens (int 1 + 1) = Some (5 + 1)" by (simp add: l_match_def xs_index_def if_tokens_def)
  have l: "length (raw_toks if_tokens) = 6" by (simp add: if_tokens_def)
  have rv: "\<not> paired cs 5 1" for cs by (simp add: paired_def)
  have "l_match if_tokens (int 3 + 1) \<noteq> Some (5 + 1)" by (simp add: l_match_def xs_index_def if_tokens_def)
  then have "\<not> paired (map (side_of if_source) (raw_toks if_tokens)) 3 5"
    using match_is_grammar [OF if_scan, of 3 5] l by simp
  with match_is_grammar [OF if_scan, of 1 5] m l rv show ?thesis by simp
qed

text \<open>C37. A word is a keyword exactly when the table of the language lists it (and, without lifetimes, an identifier
  never is one): the open-addressing set gives no false answer and its probes end. An operator is the longest of the
  language's operators at its place, or a single byte where none fits.\<close>

theorem words_and_operators:
  assumes "l_tokenize ok (xs_lang_load cf) src = Some (Inr t)" and "i < length (raw_toks t)"
  shows "case tk (raw_toks t ! i) of
      K_KW \<Rightarrow> tok_text src (raw_toks t ! i) \<in> keywords_of cf
    | K_ID \<Rightarrow> cf_lifetimes cf \<or> tok_text src (raw_toks t ! i) \<notin> keywords_of cf
    | K_OP \<Rightarrow> (\<forall>s. fits cf src (ts (raw_toks t ! i)) s \<longrightarrow> length s \<le> length (tok_text src (raw_toks t ! i)))
             \<and> (fits cf src (ts (raw_toks t ! i)) (tok_text src (raw_toks t ! i))
                \<or> length (tok_text src (raw_toks t ! i)) = 1 \<and> (\<forall>s. \<not> fits cf src (ts (raw_toks t ! i)) s))
    | _ \<Rightarrow> True"
proof -
  have "kind_ok cf src (raw_toks t ! i)"
    using tokens_kind_ok [OF l_tokenize_xs [OF assms(1)]] assms(2) by simp
  then show ?thesis by (auto simp: kind_ok_def split: xs_kind.split)
qed

theorem words_and_operators_witness:
  "''if'' \<in> keywords_of c_config \<and> ''a'' \<notin> keywords_of c_config \<and> fits c_config if_source 5 ''->''"
proof -
  note p = words_and_operators [OF if_scan]
  have l: "length (raw_toks if_tokens) = 6" by (simp add: if_tokens_def)
  have "''if'' \<in> keywords_of c_config" using p [of 0] l by (simp add: if_tokens_def if_source_def tok_text_def)
  moreover have "''a'' \<notin> keywords_of c_config"
    using p [of 2] l by (simp add: if_tokens_def if_source_def tok_text_def c_config_def blank_config_def)
  moreover have "fits c_config if_source 5 ''->''" using p [of 3] l by (simp add: if_tokens_def if_source_def tok_text_def)
  ultimately show ?thesis by blast
qed

section \<open>Lines\<close>

lemma xs_count_nl_list: "b \<le> length src \<Longrightarrow> xs_count_nl src 1 b = count_list (take b src) nl_c"
proof (induction b)
  case (Suc b)
  have "xs_count_nl src 1 (Suc b) = xs_count_nl src 1 b + xs_count_nl src (Suc b) (Suc b)"
    using count_nl_split [of 1 b "Suc b" src] by simp
  also have "xs_count_nl src (Suc b) (Suc b) = (if src ! b = nl_c then 1 else 0)"
    using Suc.prems by (simp add: xs_count_nl_def)
  also have "take (Suc b) src = take b src @ [src ! b]" using Suc.prems by (simp add: take_Suc_conv_app_nth)
  ultimately show ?case using Suc by simp
qed (simp add: xs_count_nl_def)

lemma lines_ok_load:
  assumes "\<not> id_char (xs_lang_load cf) nl_c" and "\<And>s. Some s \<in> set (cf_ops cf) \<Longrightarrow> nl_c \<notin> set s"
    and "cf_regex_literals cf \<Longrightarrow> (\<And>p. xs_byte src p = bslash_c \<Longrightarrow> xs_byte src (p + 1) \<noteq> nl_c)"
  shows "lines_ok (xs_lang_load cf) src"
  using assms ops_table [of "\<lambda>_. []" "cf_ops cf"] by (auto simp: lines_ok_def lang_fields ops_sorted_def)

text \<open>C38. The lines of a token are those of its bytes, one more than the newlines before them (a line end belongs to the
  line it ends), when neither identifiers nor operators contain newlines and, for a language with regex literals, no
  newline follows a backslash.\<close>

theorem token_lines:
  assumes "l_tokenize ok (xs_lang_load cf) src = Some (Inr t)"
    and "\<not> id_char (xs_lang_load cf) nl_c" and "\<forall>s. Some s \<in> set (cf_ops cf) \<longrightarrow> nl_c \<notin> set s"
    and "cf_regex_literals cf \<longrightarrow> (\<forall>p. xs_byte src p = bslash_c \<longrightarrow> xs_byte src (p + 1) \<noteq> nl_c)"
  shows "\<forall>x \<in> set (raw_toks t). tl x = 1 + count_list (take (ts x - 1) src) nl_c
    \<and> tel x = 1 + count_list (take (if tk x = K_NL then ts x - 1 else te x) src) nl_c"
proof
  note k = xs_tokenize_Some [OF lang_load_ok l_tokenize_xs [OF assms(1)]]
  have l: "lines_ok (xs_lang_load cf) src" by (rule lines_ok_load) (use assms(2-) in auto)
  fix x assume x: "x \<in> set (raw_toks t)"
  with k(1) l have "tok_ok src x" "tok_lines src x" by (auto simp: tokens_ok_def)
  then show "tl x = 1 + count_list (take (ts x - 1) src) nl_c
      \<and> tel x = 1 + count_list (take (if tk x = K_NL then ts x - 1 else te x) src) nl_c"
    using xs_count_nl_list [of "ts x - 1" src] xs_count_nl_list [of "te x" src]
    by (auto simp: tok_ok_def tok_lines_def split: if_splits)
qed

definition two_lines :: string where
  "two_lines = [CHR ''a'', nl_c, CHR ''b'']"

definition two_tokens :: xs_raw where
  "two_tokens = \<lparr>raw_toks = [\<lparr>tk = K_ID, ts = 1, te = 1, tl = 1, tel = 1\<rparr>, \<lparr>tk = K_ID, ts = 3, te = 3, tl = 2, tel = 2\<rparr>],
     raw_m = [0, 0], raw_src = [CHR ''a'', nl_c, CHR ''b'']\<rparr>"

lemma two_scan: "l_tokenize (\<lambda>_. True) (xs_lang_load c_config) two_lines = Some (Inr two_tokens)"
  by (simp add: scan_eval two_lines_def two_tokens_def)

theorem token_lines_witness: "tl (raw_toks two_tokens ! 1) = 1 + count_list (take 2 two_lines) nl_c"
proof -
  have "\<not> id_char (xs_lang_load c_config) nl_c" "\<forall>s. Some s \<in> set (cf_ops c_config) \<longrightarrow> nl_c \<notin> set s" "\<not> cf_regex_literals c_config"
    by (simp_all add: scan_eval)
  with token_lines [OF two_scan] show ?thesis by (simp add: two_tokens_def)
qed

text \<open>Without the last condition they are not: a regex literal may run over a newline that a backslash escapes, and every
  later token is reported one line too early.\<close>

lemma regex_line_drift:
  "\<exists>t. l_tokenize (\<lambda>_. True) (xs_lang_load js_config) (''/'' @ [bslash_c, nl_c] @ ''/ a'') = Some (Inr t)
     \<and> tk (raw_toks t ! 1) = K_ID \<and> tl (raw_toks t ! 1) = 1"
  by (simp add: scan_eval)

end
