(* ===== verification/XScanIndent.thy ===== *)
theory XScanIndent
  imports XScanProps
begin

text \<open>
  Indentation tokens balance: while the source is read there are as many open blocks as levels on the stack, and the
  end of the source closes them all.
\<close>

section \<open>The height of a token list\<close>

definition rise :: "xs_token \<Rightarrow> int" where
  "rise t = (if tk t = K_INDENT then 1 else if tk t = K_DEDENT then -1 else 0)"

definition height :: "xs_token list \<Rightarrow> int" where
  "height T = sum_list (map rise T)"

definition never_below :: "xs_token list \<Rightarrow> bool" where
  "never_below T \<longleftrightarrow> (\<forall>n. 0 \<le> height (take n T))"

lemma height_append [simp]: "height (S @ T) = height S + height T"
  by (simp add: height_def)

lemma height_snoc: "height (T @ [t]) = height T + rise t"
  by (simp add: height_def)

lemma never_below_snoc: "never_below T \<Longrightarrow> 0 \<le> height (T @ [t]) \<Longrightarrow> never_below (T @ [t])"
  unfolding never_below_def by (metis append_Nil2 linorder_not_le take_all take_append take_eq_Nil take_Suc_Cons
      nat_less_le diff_is_0_eq less_imp_le_nat not_less_eq_eq take_butlast butlast_snoc length_append_singleton)

definition blocks_inv :: "xs_scan \<Rightarrow> bool" where
  "blocks_inv sc \<longleftrightarrow>
     \<not> skip sc \<and> levels_ok (ind sc) \<and> height (toks sc) + 1 = int (length (ind sc)) \<and> never_below (toks sc)"

section \<open>A turn keeps the balance\<close>

lemma push_plain:
  assumes "blocks_inv sc" and "k \<notin> {K_INDENT, K_DEDENT}"
  shows "blocks_inv (xs_push ok k a b l1 l2 sc)"
proof -
  let ?t = "\<lparr>tk = k, ts = a, te = b, tl = l1, tel = l2\<rparr>"
  have "height (toks sc @ [?t]) = height (toks sc)" using assms(2) by (auto simp: height_def rise_def)
  moreover have "0 \<le> height (toks sc)" using assms(1) by (auto simp: blocks_inv_def levels_ok_def neq_Nil_conv)
  ultimately show ?thesis
    using assms(1) xs_push_toks [of ok k a b l1 l2 sc] never_below_snoc [of "toks sc" ?t] by (auto simp: blocks_inv_def)
qed

lemma blocks_frame:
  "blocks_inv sc \<Longrightarrow> toks s = toks sc \<Longrightarrow> ind s = ind sc \<Longrightarrow> skip s = skip sc \<Longrightarrow> blocks_inv s"
  by (simp add: blocks_inv_def)

lemma push_dedent:
  assumes "blocks_inv sc" and "ind sc = lvl # rest" and "rest \<noteq> []"
    and "\<not> oom (xs_push ok K_DEDENT a b l1 l2 (sc\<lparr>ind := rest\<rparr>))"
  shows "blocks_inv (xs_push ok K_DEDENT a b l1 l2 (sc\<lparr>ind := rest\<rparr>))"
proof -
  let ?t = "\<lparr>tk = K_DEDENT, ts = a, te = b, tl = l1, tel = l2\<rparr>"
  have t: "toks (xs_push ok K_DEDENT a b l1 l2 (sc\<lparr>ind := rest\<rparr>)) = toks sc @ [?t]"
    using xs_push_done [of "sc\<lparr>ind := rest\<rparr>"] assms(1,4) by (simp add: blocks_inv_def)
  have h: "height (toks sc @ [?t]) + 1 = int (length rest)"
    using assms(1,2) by (simp add: blocks_inv_def height_snoc rise_def del: height_append)
  then have "0 \<le> height (toks sc @ [?t])" using assms(3) by (cases rest) (auto simp del: height_append)
  then show ?thesis using assms t h never_below_snoc by (auto simp: blocks_inv_def levels_ok_def simp del: height_append)
qed

lemma dedents_blocks:
  assumes "blocks_inv sc" and "\<not> oom (dedents ok w sc)"
  shows "blocks_inv (dedents ok w sc)"
  using assms
proof (induction ok w sc rule: dedents.induct)
  case (1 ok w sc)
  show ?case
  proof (cases "ind sc")
    case (Cons lvl rest)
    let ?s = "xs_push ok K_DEDENT (pos sc) (pos sc - 1) (line sc) (line sc) (sc\<lparr>ind := rest\<rparr>)"
    show ?thesis
    proof (cases "w < lvl")
      case True
      have e: "dedents ok w sc = dedents ok w ?s" using Cons True by (subst dedents.simps) simp
      have mono: "oom a \<Longrightarrow> oom (dedents ok w a)" for a
      proof (induction ok w a rule: dedents.induct)
        case (1 ok w a)
        then show ?case by (subst dedents.simps) (auto split: list.split)
      qed
      have "\<not> oom ?s" using 1(3) e mono [of ?s] by auto
      moreover have "rest \<noteq> []" using 1(2) Cons True by (auto simp: blocks_inv_def levels_ok_def)
      ultimately have "blocks_inv ?s" using push_dedent [OF 1(2) Cons] by blast
      then show ?thesis using 1(1) [OF Cons True] 1(3) e by simp
    next
      case False
      then have "dedents ok w sc = sc" using Cons by (subst dedents.simps) simp
      with 1(2) show ?thesis by simp
    qed
  next
    case Nil
    with 1(2) show ?thesis by (simp add: blocks_inv_def levels_ok_def)
  qed
qed

lemma indentation_blocks:
  assumes "blocks_inv sc" and "indentation ok g src sc = Some s" and "\<not> oom s"
  shows "blocks_inv s"
proof -
  let ?w = "indent_width src (pos sc)"
  define a where "a = (if length (ind sc) = ind_cap sc then sc\<lparr>ind_cap := ind_cap sc * 2, allocs := allocs sc + 1\<rparr> else sc)"
  have a: "ind a = ind sc" "toks a = toks sc" "skip a = skip sc" by (simp_all add: a_def)
  consider "s = sc" | "s = dedents ok ?w sc"
    | "s = xs_push ok K_INDENT (pos a) (pos a - 1) (line a) (line a) (a\<lparr>ind := ?w # ind a\<rparr>)"
    using assms(2) unfolding indentation_def a_def by (auto simp: Let_def split: if_splits)
  then show ?thesis
  proof cases
    case 3
    let ?t = "\<lparr>tk = K_INDENT, ts = pos a, te = pos a - 1, tl = line a, tel = line a\<rparr>"
    have t: "toks s = toks sc @ [?t]"
      using xs_push_done [of "a\<lparr>ind := ?w # ind a\<rparr>"] assms(1,3) 3 a by (simp add: blocks_inv_def)
    have h: "height (toks sc @ [?t]) = height (toks sc) + 1" by (simp add: height_snoc rise_def del: height_append)
    have "0 \<le> height (toks sc @ [?t])" using assms(1) unfolding h by (simp add: blocks_inv_def)
    then show ?thesis
      using assms(1) 3 a t h never_below_snoc [of "toks sc" ?t] by (auto simp: blocks_inv_def levels_ok_def simp del: height_append)
  qed (use assms dedents_blocks in auto)
qed

text \<open>Without preprocessor branches nothing is skipped.\<close>

lemma take_lines_blocks: "blocks_inv sc \<Longrightarrow> blocks_inv (take_lines ok src stop sc)"
proof -
  assume b: "blocks_inv sc"
  let ?l = "line sc + xs_count_nl src (pos sc) stop"
  have "blocks_inv (xs_push ok K_STR (pos sc) stop (line sc) ?l (sc\<lparr>line := ?l\<rparr>))"
    by (rule push_plain) (use b in \<open>simp_all add: blocks_inv_def\<close>)
  then show ?thesis by (simp add: take_lines_def Let_def blocks_inv_def)
qed

lemma take_word_blocks: "blocks_inv sc \<Longrightarrow> k \<notin> {K_INDENT, K_DEDENT} \<Longrightarrow> blocks_inv (take_word ok k stop sc)"
  unfolding take_word_def by (rule blocks_frame [OF push_plain [of sc]]) auto

lemma drop_lines_blocks: "blocks_inv sc \<Longrightarrow> blocks_inv (drop_lines src stop sc)"
  by (simp add: drop_lines_def blocks_inv_def)

lemma parts_blocks:
  assumes "blocks_inv sc" and "first_part (parts ok g src) sc = Some s"
  shows "blocks_inv s"
proof -
  consider "part_line_comment g src sc = Some s" | "part_block_comment g src sc = Some s" | "part_template ok g src sc = Some s"
    | "part_regex ok g src sc = Some s" | "part_lifetime ok g src sc = Some s" | "part_raw_string ok g src sc = Some s"
    | "part_long_bracket ok g src sc = Some s" | "part_string ok g src sc = Some s" | "part_word ok g src sc = Some s"
    | "part_number ok g src sc = Some s"
    using first_part_in [OF assms(2)] by (auto simp: parts_def)
  then show ?thesis
  proof cases
    case 1
    then show ?thesis using assms(1)
      by (auto simp: part_line_comment_def Let_def drop_lines_blocks blocks_inv_def [of "sc\<lparr>pos := _\<rparr>"] blocks_inv_def [of sc]
          split: option.splits if_splits)
  qed (use assms(1) in \<open>auto simp: part_block_comment_def part_template_def part_regex_def part_lifetime_def
      part_raw_string_def part_long_bracket_def part_string_def part_word_def part_number_def Let_def
      take_lines_blocks take_word_blocks drop_lines_blocks split: option.splits if_splits\<close>)
qed

lemma operator_blocks:
  assumes "blocks_inv sc"
  shows "blocks_inv (part_operator ok g src sc)"
proof -
  let ?c = "xs_byte src (pos sc)" and ?w = "op_width g src (pos sc)"
  let ?single = "?w = 1 \<and> \<not> skip sc"
  define a where "a = (if ?single \<and> xs_is_open ?c then sc\<lparr>depth := depth sc + 1\<rparr>
      else if ?single \<and> xs_open_of ?c \<noteq> None then sc\<lparr>depth := depth sc - 1\<rparr> else sc)"
  define b where "b = xs_push ok K_OP (pos a) (pos a + ?w - 1) (line a) (line a) a"
  define c where "c = (if regex_literals g \<and> ?single \<and> \<not> oom b then xs_track_paren ok src ?c b else b)"
  have "blocks_inv a" by (rule blocks_frame [OF assms]) (simp_all add: a_def)
  then have "blocks_inv b" unfolding b_def by (rule push_plain) simp
  then have "blocks_inv c" by (rule blocks_frame) (simp_all add: c_def)
  moreover have "part_operator ok g src sc = c\<lparr>pos := pos c + ?w\<rparr>"
    unfolding part_operator_def Let_def a_def [symmetric] b_def [symmetric] c_def [symmetric] by simp
  ultimately show ?thesis by (simp add: blocks_inv_def)
qed

lemma directive_blocks:
  assumes "blocks_inv sc" and "\<not> pp_first_branch g" and "part_directive ok g src sc = Some s"
  shows "blocks_inv s"
proof -
  obtain p l where d: "directive_end src (pos sc) 0 = (p, l)" by force
  define a where "a = sc\<lparr>line := line sc + l, skip := False\<rparr>"
  have "s = (xs_push ok K_DIR (pos sc) (p - 1) (line sc) (line sc + l) a)\<lparr>skip := False, pos := p\<rparr>"
    using assms d by (auto simp: part_directive_def Let_def xs_directive_def a_def blocks_inv_def split: if_splits)
  moreover have "blocks_inv (xs_push ok K_DIR (pos sc) (p - 1) (line sc) (line sc + l) a)"
    by (rule push_plain) (use assms(1) in \<open>simp_all add: a_def blocks_inv_def\<close>)
  ultimately show ?thesis by (simp add: blocks_inv_def)
qed

text \<open>Memory that has run out stays so.\<close>

lemma oom_lines: "oom sc \<Longrightarrow> oom (take_lines ok src stop sc)" "oom sc \<Longrightarrow> oom (take_word ok k stop sc)"
  "oom sc \<Longrightarrow> oom (drop_lines src stop sc)"
  by (simp_all add: take_lines_def take_word_def drop_lines_def Let_def)

lemma oom_parts:
  assumes "oom sc" and "f \<in> set (parts ok g src)" and "f sc = Some s"
  shows "oom s"
  using assms
  by (auto simp: parts_def part_line_comment_def part_block_comment_def part_template_def part_regex_def part_lifetime_def
      part_raw_string_def part_long_bracket_def part_string_def part_word_def part_number_def Let_def oom_lines
      split: if_splits option.splits)

lemma oom_directive_text: "oom sc \<Longrightarrow> oom (xs_directive ok g t sc)"
  by (simp add: xs_directive_def pp_open_def pp_else_def pp_close_def Let_def split: list.split)

lemma oom_turn:
  assumes "oom sc"
  shows "oom (token_turn ok g src sc)"
proof -
  have di: "oom s" if "part_directive ok g src sc = Some s" for s
    using that assms oom_directive_text
    by (auto simp: part_directive_def Let_def split: if_splits prod.splits)
  have op: "oom (part_operator ok g src (sc\<lparr>bol := False\<rparr>))" using assms by (simp add: part_operator_def Let_def)
  have pa: "oom s" if "first_part (parts ok g src) (sc\<lparr>bol := False\<rparr>) = Some s" for s
    using first_part_in [OF that] oom_parts [of "sc\<lparr>bol := False\<rparr>"] assms by auto
  show ?thesis using di op pa unfolding token_turn_def Let_def by (simp split: option.split)
qed

lemma turn_blocks:
  assumes "blocks_inv sc" and "\<not> pp_first_branch g" and "\<not> oom (xs_turn ok g src sc)"
  shows "blocks_inv (xs_turn ok g src sc)"
proof -
  let ?c = "xs_byte src (pos sc)"
  have bb: "blocks_inv (a\<lparr>bol := b\<rparr>) = blocks_inv a" for a b by (simp add: blocks_inv_def)
  have tk: "blocks_inv (token_turn ok g src a)" if a: "blocks_inv a" for a
    using directive_blocks [OF a assms(2)] parts_blocks [of "a\<lparr>bol := False\<rparr>" ok g src] operator_blocks [of "a\<lparr>bol := False\<rparr>" ok g src] a
    unfolding token_turn_def Let_def by (simp add: bb split: option.split)
  have nl: "blocks_inv (newline ok g sc)"
    using push_plain [OF assms(1), of K_NL ok "pos sc" "pos sc" "line sc" "line sc"] assms(1)
    by (simp add: newline_def Let_def blocks_inv_def)
  consider "?c = nl_c" | "?c \<noteq> nl_c" "xs_is_space ?c" | "?c \<noteq> nl_c" "\<not> xs_is_space ?c" "continues g src (pos sc)"
    | "?c \<noteq> nl_c" "\<not> xs_is_space ?c" "\<not> continues g src (pos sc)" by blast
  then show ?thesis
  proof cases
    case 4
    then obtain a where a: "indentation ok g src sc = Some a"
      using assms(3) by (cases "indentation ok g src sc") (auto simp: xs_turn_def)
    then have t: "xs_turn ok g src sc = token_turn ok g src a" using 4 by (simp add: xs_turn_def)
    then have "\<not> oom a" using assms(3) oom_turn by auto
    with indentation_blocks [OF assms(1) a] tk t show ?thesis by simp
  qed (use nl assms(1) in \<open>simp_all add: xs_turn_def blocks_inv_def\<close>)
qed

lemma loop_blocks:
  assumes "blocks_inv sc" and "\<not> pp_first_branch g" and "xs_loop ok g src n sc = Some s" and "\<not> oom s"
  shows "blocks_inv s"
  using assms
proof (induction n arbitrary: sc)
  case (Suc n)
  show ?case
  proof (cases "pos sc \<le> length src \<and> \<not> oom sc")
    case True
    let ?t = "xs_turn ok g src sc"
    have l: "xs_loop ok g src n ?t = Some s" using Suc.prems(3) True by simp
    have "\<not> oom ?t"
    proof
      assume "oom ?t"
      with l have "s = ?t" by (cases n) auto
      with \<open>oom ?t\<close> Suc.prems(4) show False by simp
    qed
    with turn_blocks [OF Suc.prems(1,2)] Suc.IH [OF _ Suc.prems(2) l Suc.prems(4)] show ?thesis by blast
  qed (use Suc.prems in auto)
qed simp

lemma close_blocks_balance:
  assumes "\<not> skip sc" and "never_below (toks sc)" and "int k \<le> height (toks sc)" and "\<not> oom (close_blocks ok n k sc)"
  shows "never_below (toks (close_blocks ok n k sc)) \<and> height (toks (close_blocks ok n k sc)) = height (toks sc) - int k"
  using assms
proof (induction ok n k sc rule: close_blocks.induct)
  case (2 ok n k sc)
  let ?s = "xs_push ok K_DEDENT (n + 1) n (line sc) (line sc) sc"
  let ?t = "\<lparr>tk = K_DEDENT, ts = n + 1, te = n, tl = line sc, tel = line sc\<rparr>"
  have mono: "oom a \<Longrightarrow> oom (close_blocks ok n k a)" for a k
    by (induction ok n k a rule: close_blocks.induct) auto
  have "\<not> oom ?s" using 2(5) mono [of ?s k] by auto
  then have t: "toks ?s = toks sc @ [?t]" using xs_push_done 2(2) by blast
  have h: "height (toks sc @ [?t]) = height (toks sc) - 1" by (simp add: height_snoc rise_def del: height_append)
  have "never_below (toks sc @ [?t])"
    using never_below_snoc [OF 2(3)] h 2(4) by (auto simp del: height_append)
  with 2 t h show ?case by (simp del: height_append)
qed simp

text \<open>C39. For a language with indentation and without preprocessor branches the indentation tokens balance: no prefix of
  the tokens closes more blocks than it opens, and at the end all are closed.\<close>

theorem indentation_balanced:
  assumes "l_tokenize ok (xs_lang_load cf) src = Some (Inr t)" and "cf_indent cf" and "\<not> cf_pp_first_branch cf"
  shows "(\<forall>n. length (filter (\<lambda>x. tk x = K_DEDENT) (take n (raw_toks t))) \<le> length (filter (\<lambda>x. tk x = K_INDENT) (take n (raw_toks t))))
    \<and> length (filter (\<lambda>x. tk x = K_DEDENT) (raw_toks t)) = length (filter (\<lambda>x. tk x = K_INDENT) (raw_toks t))"
proof -
  let ?g = "xs_lang_load cf" and ?n = "length src"
  obtain s where s: "xs_loop ok ?g src (?n + 1) xs_start = Some s" "raw_toks t = toks (xs_finish ok ?g src s)"
    and fin: "\<not> oom (xs_finish ok ?g src s)"
    using l_tokenize_xs [OF assms(1)] by (auto simp: xs_tokenize_def Let_def split: if_splits option.splits)
  have no: "\<not> oom s" using fin xs_finish_oom [of s ok ?g src] by auto
  have start: "blocks_inv xs_start"
    by (simp add: blocks_inv_def xs_start_def levels_ok_def height_def never_below_def)
  have b: "blocks_inv s" by (rule loop_blocks [OF start _ s(1) no]) (simp add: lang_fields assms(3))
  define a where "a = (if toks s \<noteq> [] \<and> last_kind s \<noteq> Some K_NL then xs_push ok K_NL (?n + 1) ?n (line s) (line s) s else s)"
  have a: "blocks_inv a" using push_plain [OF b, of K_NL] b by (simp add: a_def)
  have f: "xs_finish ok ?g src s = close_blocks ok ?n (length (ind a) - 1) a"
    using no by (simp add: xs_finish_def a_def Let_def lang_fields assms(2))
  have h: "int (length (ind a) - 1) = height (toks a)" using a by (cases "ind a") (auto simp: blocks_inv_def levels_ok_def)
  have r: "never_below (raw_toks t) \<and> height (raw_toks t) = 0"
    using close_blocks_balance [of a "length (ind a) - 1" ok ?n] a h fin f s(2) by (simp add: blocks_inv_def)
  have c: "height T = int (length (filter (\<lambda>x. tk x = K_INDENT) T)) - int (length (filter (\<lambda>x. tk x = K_DEDENT) T))" for T
    by (induction T) (auto simp: height_def rise_def)
  show ?thesis using r unfolding never_below_def c by simp
qed

definition py_config :: xs_config where
  "py_config = blank_config\<lparr>cf_indent := True\<rparr>"

definition py_source :: string where
  "py_source = [CHR ''a'', nl_c, CHR '' '', CHR ''b'']"

definition py_tokens :: xs_raw where
  "py_tokens = \<lparr>raw_toks =
       [\<lparr>tk = K_ID, ts = 1, te = 1, tl = 1, tel = 1\<rparr>, \<lparr>tk = K_NL, ts = 2, te = 2, tl = 1, tel = 1\<rparr>,
        \<lparr>tk = K_INDENT, ts = 4, te = 3, tl = 2, tel = 2\<rparr>, \<lparr>tk = K_ID, ts = 4, te = 4, tl = 2, tel = 2\<rparr>,
        \<lparr>tk = K_NL, ts = 5, te = 4, tl = 2, tel = 2\<rparr>, \<lparr>tk = K_DEDENT, ts = 5, te = 4, tl = 2, tel = 2\<rparr>],
     raw_m = [0, 0, 6, 0, 0, 3], raw_src = py_source\<rparr>"

lemma dedents_none: "\<not> w < hd (ind sc) \<Longrightarrow> dedents ok w sc = sc"
  by (subst dedents.simps) (auto split: list.split)

lemma py_scan: "l_tokenize (\<lambda>_. True) (xs_lang_load py_config) py_source = Some (Inr py_tokens)"
  by (simp add: scan_eval py_config_def py_source_def py_tokens_def indent_width_def dedents_none)

theorem indentation_balanced_witness:
  "length (filter (\<lambda>x. tk x = K_DEDENT) (raw_toks py_tokens)) = 1
   \<and> length (filter (\<lambda>x. tk x = K_INDENT) (raw_toks py_tokens)) = 1"
proof -
  have "cf_indent py_config" "\<not> cf_pp_first_branch py_config" by (simp_all add: py_config_def blank_config_def)
  from indentation_balanced [OF py_scan this] show ?thesis by (simp add: py_tokens_def)
qed

end
