(* ===== verification/Spec2Isabelle.thy ===== *)
theory Spec2Isabelle
  imports XMpscConc XHashOps XTimerProps XChanProps XFrameAead XRecProps XSharedProps XHeapProps XThreadProps
    XGroupProps XMsgpackProps XArgsProps XPollProps XScanIndent
begin

text \<open>
  Verification library for the C core of xnet2lua, a runtime that gives Lua scripts an event loop, buffered
  network channels, timers, threads that post tasks to each other, and data shared between threads.

  \<^bold>\<open>The program and how its parts interact.\<close>
  A thread (\<open>xthread.c\<close>) owns a task queue, a timing wheel (\<open>xtimer.c\<close>) and an event loop (\<open>xpoll.c\<close>), which
  keeps its descriptors in the hash table of \<open>xhash.h\<close>. Threads post tasks to each other through the queue and
  wake the target by a byte in a socket its loop watches. The loop calls the handlers of the buffered channels
  (\<open>xchannel.c\<close>), which cut the input into packets, queue the output, and may transform packets with the
  encryption of \<open>xframe_aead.c\<close>. Scripts exchange values packed by the MessagePack codec
  (\<open>xlua/lua_cmsgpack.c\<close>), keep records in the pools of \<open>xrecord.c\<close> (over \<open>xhash.h\<close>), share dictionaries between
  threads (\<open>xshared.c\<close>) and read source text with the tokenizer of \<open>xlua/lua_xscan.c\<close>. \<open>xargs.c\<close> reads the command
  line and the configuration file; \<open>xmpsc_queue.h\<close> and \<open>xheapmin.h\<close> are containers of their own.

  \<^bold>\<open>Common conventions\<close> (\<open>XPrelude\<close>, which also holds the lemmas on words, lists and linked chains that the others
  share). Machine integers are words where their width can matter and numbers with stated bounds elsewhere;
  pointers are numbers, NULL is \<open>None\<close>; linked structures that only one operation at a time can touch are the
  lists their links visit. An error code of the code is a value of the result. What the code relies on but does not
  contain (memory, the clock, the kernel, the cipher, callbacks, the Lua allocator) is an argument of the
  definitions, and what is promised of it is a named hypothesis. History variables (events, calls, served
  registrations) are written and never read by the operations.

  \<^bold>\<open>Theories and code.\<close>

  \<^item> \<open>xmpsc_queue.h\<close>: \<open>XMpsc\<close> has the functions on the pointer structure (\<open>xmpsc_push\<close>, \<open>xmpsc_reverse_list\<close>,
    \<open>xmpsc_pop\<close>) and the contract \<open>fifo_queue\<close>; \<open>XMpscConc\<close> has every interleaving of their atomic accesses
    (\<open>mpsc_step\<close>, sequentially consistent) and its invariant: the popped nodes are a prefix of the pushed ones.

  \<^item> \<open>xhash.h\<close>: \<open>XHash\<close> has buckets, chains, the tracker of non-empty buckets and growth; \<open>XHashInv\<close> its invariant and
    abstraction \<open>xhash_abs\<close>; \<open>XHashOps\<close> the contract \<open>map_impl\<close>, its two instances (integer and string keys) and
    the properties of runs. The event loop and the record pools rest on these laws.

  \<^item> \<open>xtimer.c\<close>: \<open>XTimer\<close> has the five wheels, the node pool, creation, deletion and polls with callbacks that add and
    delete timers; \<open>XTimerInv\<close> and \<open>XTimerPoll\<close> prove the invariant for every step; \<open>XTimerProps\<close> the
    properties of runs: never late, never early, consistent, and a timeout that does not oversleep.

  \<^item> \<open>xchannel.c\<close>: \<open>XBuffer\<close> is the byte buffer, \<open>XChannel\<close> the channel with the kernel as scripts in its state,
    \<open>XFraming\<close> framing as a pure parser with the contract \<open>frame_codec\<close> (three instances), \<open>XChanRecv\<close> and
    \<open>XChanSend\<close> the two directions, \<open>XChanProps\<close> the properties of the streams and of closing.

  \<^item> \<open>xframe_aead.c\<close>: \<open>XFrameAead\<close>, with ChaCha20-Poly1305 as a parameter and the calls made of it recorded;
    the contract \<open>packet_transform\<close>; round trip, no replay, authenticity, nonces.

  \<^item> \<open>xrecord.c\<close>: \<open>XRecLayout\<close> has schemas and their layout, \<open>XRecNum\<close> the C numbers (doubles, \<open>strtoll\<close>,
    \<open>strtod\<close>), \<open>XRecord\<close> pools as memory of typed cells, \<open>XRecordInv\<close> the abstraction to a map of records,
    \<open>XRecordOps\<close> and \<open>XRecProps\<close> the refinement of that map.

  \<^item> \<open>xshared.c\<close>: \<open>XShared\<close> has shards, eviction, expiry and the sweeper; \<open>XSharedInv\<close> the invariant, \<open>XSharedOps\<close> the
    specification of a shard as a recency list and the refinement, \<open>XSharedDict\<close> dictionaries of shards,
    \<open>XSharedSweep\<close> the sweeper, \<open>XSharedProps\<close> the registry and the properties.

  \<^item> \<open>xheapmin.h\<close>: \<open>XHeapMin\<close> has the operations and the contract \<open>comparator\<close> with the theory of heap order;
    \<open>XHeapProps\<close> the invariant of operations and the properties. A client's comparison sees keys and its own data;
    \<open>xheapmin_refresh\<close> compares raw keys, so refreshing is restricted to keys on which the two agree.

  \<^item> \<open>xthread.c\<close>: \<open>XThread\<close> has queues with their slab, dispatch with deadlines, registration, groups and posting as
    the operations of one thread at a time; \<open>XThreadConc\<close> the interleaving of posting and draining;
    \<open>XThreadProps\<close> wakeups, order and deadlines, and bounds; \<open>XGroupProps\<close> round robin and what it leaves undefined.

  \<^item> \<open>xlua/lua_cmsgpack.c\<close>: \<open>XFloatBits\<close> has doubles and floats as bit patterns, \<open>XMsgpack\<close> encoder and decoder over a
    heap of Lua tables, \<open>XMsgpackDec\<close> and \<open>XMsgpackEnc\<close> the two directions, \<open>XMsgpackProps\<close> the round trip.

  \<^item> \<open>xargs.c\<close>: \<open>XArgs\<close> and \<open>XArgsProps\<close>, options and assignments as a map with precedence.

  \<^item> \<open>xpoll.c\<close>: \<open>XPoll\<close> has the registry and the three backends; \<open>XPollInv\<close>, \<open>XPollOps\<close> the invariant and every call;
    \<open>XPollLaws\<close>, \<open>XPollSlots\<close>, \<open>XPollRun\<close> the contract \<open>poll_backend\<close>; \<open>XPollTurns\<close> its instances for epoll, kqueue
    and poll; \<open>XPollProps\<close> runs with callbacks that call the loop again.

  \<^item> \<open>xlua/lua_xscan.c\<close>: \<open>XScan\<close> has languages, character classes and the searches, \<open>XScanRun\<close> the turns of
    \<open>xs_tokenize\<close>, the matcher and the methods of the token table; \<open>XScanInv\<close>, \<open>XScanTurn\<close>, \<open>XScanLoop\<close> bounds,
    lines and termination; \<open>XScanMatch\<close> the bracket grammar; \<open>XScanLang\<close>, \<open>XScanKinds\<close> keywords and operators;
    \<open>XScanProps\<close> and \<open>XScanIndent\<close> the properties.

  \<^bold>\<open>Bounds.\<close> Each is a hypothesis of the theorem it concerns.
  Runs on a hash table have at most \<open>2 ^ 31\<close> calls (the tracker stores positions as \<open>int\<close>); the map theorem takes
  the allocations to succeed, the theorem on iteration lets them fail. Runs on a record pool have at most
  \<open>2 ^ 31\<close> operations over a schema of at most \<open>2 ^ 27\<close> fields (slot numbers have 32 bits), and no operation writes a
  whole number outside its range to an \<open>int64_t\<close> field. The event loop has made fewer than \<open>2 ^ 32\<close> calls
  (32-bit generations). Streams received have at most 10 MiB + 4 bytes. Values packed have at most 16 levels of
  tables (the code's own limit), table keys below \<open>2 ^ 31\<close>. Array heaps have fewer than \<open>2 ^ 30\<close> nodes.

  \<^bold>\<open>Fuel.\<close> Loops without a structural measure recurse on a number of rounds, and enough of them are always given.
  \<open>xtimer_advance\<close> gets \<open>current_time - current_jiffies\<close> rounds, one for each tick. The loop of \<open>process_input\<close> takes at
  least a byte a round, and its theorems allow one round more than there are bytes; \<open>flush_buffer\<close> and
  \<open>flush_file\<close> send at least a byte a round. The decoder of MessagePack consumes a byte at every depth and every round, so the
  length of the input and one is enough, and more changes nothing. The loop of the tokenizer moves
  forward in every turn and gets one turn more than there are bytes; the two nested loops for template literals
  get two more. The loop of \<open>poll\<close> is bounded by the slots. All other recursions are structural or have a proved
  measure; the loop of \<open>xmpsc_reverse_list\<close> is a partial function, and ends on the lists that occur.

  \<^bold>\<open>What is not modelled.\<close> Third-party code in \<open>3rd/\<close>; the Lua bindings and the Lua scripts, which convert between the
  Lua stack and the components here; logging, child processes, sockets and the daemon, which are system calls with
  little state; the io_uring variants of the loop and of the channel, compiled out by default and resting on liburing;
  the branches for Windows; the variant of the threads over \<open>xmpsc_queue.h\<close> (\<open>XTHREAD_MPSCQ\<close>); freeing of memory where it has
  no other effect. Weak memory is not modelled: atomic accesses and critical sections are sequentially
  consistent steps. Where the code has undefined behaviour (memory freed too early, a read outside an array), the
  model has \<open>None\<close> or the text of the theory says that the case is excluded.
\<close>

end
